(* ===== verification/Stele_Prelude.thy ===== *)
theory Stele_Prelude
  imports
    Main
    "HOL-Library.Word"
    "HOL-Library.List_Lexorder"
    "HOL-Library.Product_Lexorder"
begin

unbundle bit_operations_syntax

text \<open>
  Shared vocabulary of the development.

  Machine integers: \<open>u8\<close>, \<open>u32\<close> and \<open>u64\<close> are words (unsigned order, wrapping addition);
  \<open>i64\<close> is a 64-bit word under the two's-complement order, as Rust's \<open>i64\<close> is, and carries every
  timestamp of the engine. Lengths, offsets and indices that the source keeps in \<open>usize\<close> or
  uses as file positions are \<open>nat\<close>: a file or buffer is far below \<open>2^64\<close> bytes.
  A Rust \<open>Result<A, E>\<close> is the sum \<open>'e + 'a\<close>, \<open>Inl\<close> the error, and
  \<open>?\<close> is \<open>result_bind\<close>. Byte strings are byte lists under the lexicographic order.
\<close>

named_theorems codec_simps \<open>length and round-trip laws of the fixed-width byte codecs\<close>
named_theorems result_simps \<open>inversion laws of the result monad\<close>

section \<open>Machine integers\<close>

type_synonym u8 = "8 word"
type_synonym u32 = "32 word"
type_synonym u64 = "64 word"
type_synonym bytes = "u8 list"

text \<open>Rust's \<open>i64\<close>: the bits of a 64-bit word, compared as signed numbers.\<close>

datatype i64 = I64 (i64_bits: u64)

definition i64_val :: "i64 \<Rightarrow> int" where
  "i64_val x = sint (i64_bits x)"

definition i64_of :: "int \<Rightarrow> i64" where
  "i64_of k = I64 (word_of_int k)"

definition i64_min :: int where
  "i64_min = - (2 ^ 63)"

definition i64_max :: int where
  "i64_max = 2 ^ 63 - 1"

lemma i64_val_inject: "i64_val x = i64_val y \<longleftrightarrow> x = y"
  by (cases x; cases y) (auto simp: i64_val_def intro: signed_word_eqI)

lemma i64_val_bounds: "i64_min \<le> i64_val x" "i64_val x \<le> i64_max"
  using sint_range_size [of "i64_bits x"]
  by (simp_all add: i64_val_def i64_min_def i64_max_def word_size)

lemma i64_val_of: "i64_min \<le> k \<Longrightarrow> k \<le> i64_max \<Longrightarrow> i64_val (i64_of k) = k"
  by (simp add: i64_val_def i64_of_def i64_min_def i64_max_def signed_of_int signed_take_bit_int_eq_self)

lemma i64_of_val [simp]: "i64_of (i64_val x) = x"
  by (cases x) (simp add: i64_val_def i64_of_def)

instantiation i64 :: linorder
begin

definition less_eq_i64 :: "i64 \<Rightarrow> i64 \<Rightarrow> bool" where
  "less_eq_i64 x y \<longleftrightarrow> i64_val x \<le> i64_val y"

definition less_i64 :: "i64 \<Rightarrow> i64 \<Rightarrow> bool" where
  "less_i64 x y \<longleftrightarrow> i64_val x < i64_val y"

instance
  by standard (auto simp: less_eq_i64_def less_i64_def i64_val_inject)

end

text \<open>\<open>i64::MAX\<close>, \<open>i64::MIN\<close> and the checked and saturating operations the engine uses.\<close>

definition I64_MAX :: i64 where
  "I64_MAX = I64 0x7FFFFFFFFFFFFFFF"

definition I64_MIN :: i64 where
  "I64_MIN = I64 0x8000000000000000"

definition U64_MAX :: u64 where
  "U64_MAX = 0xFFFFFFFFFFFFFFFF"

text \<open>The open end of a system-time interval (\<open>crates/stele-common/src/time.rs\<close>).\<close>

definition SYSTEM_TIME_OPEN :: i64 where
  "SYSTEM_TIME_OPEN = I64_MAX"

definition i64_in_range :: "int \<Rightarrow> bool" where
  "i64_in_range k \<longleftrightarrow> i64_min \<le> k \<and> k \<le> i64_max"

definition i64_checked_add :: "i64 \<Rightarrow> i64 \<Rightarrow> i64 option" where
  "i64_checked_add x y =
     (let k = i64_val x + i64_val y in if i64_in_range k then Some (i64_of k) else None)"

definition i64_checked_sub :: "i64 \<Rightarrow> i64 \<Rightarrow> i64 option" where
  "i64_checked_sub x y =
     (let k = i64_val x - i64_val y in if i64_in_range k then Some (i64_of k) else None)"

definition i64_saturating_add :: "i64 \<Rightarrow> i64 \<Rightarrow> i64" where
  "i64_saturating_add x y =
     (let k = i64_val x + i64_val y
      in if k < i64_min then I64_MIN else if i64_max < k then I64_MAX else i64_of k)"

definition u64_checked_add :: "u64 \<Rightarrow> u64 \<Rightarrow> u64 option" where
  "u64_checked_add a b = (if unat a + unat b < 2 ^ 64 then Some (a + b) else None)"

lemma i64_val_MAX [simp]: "i64_val I64_MAX = i64_max"
  by (simp add: i64_val_def I64_MAX_def i64_max_def)

lemma i64_val_MIN [simp]: "i64_val I64_MIN = i64_min"
  by (simp add: i64_val_def I64_MIN_def i64_min_def)

lemma i64_le_MAX [simp, intro]: "x \<le> I64_MAX"
  by (simp add: less_eq_i64_def i64_val_bounds)

lemma i64_MIN_le [simp, intro]: "I64_MIN \<le> x"
  by (simp add: less_eq_i64_def i64_val_bounds)

lemma u64_le_MAX [simp, intro]: "(x :: u64) \<le> U64_MAX"
proof -
  have eq: "U64_MAX = - 1" by (simp add: U64_MAX_def)
  show ?thesis unfolding eq by (rule word_n1_ge)
qed

lemma i64_checked_add_Some:
  "i64_checked_add x y = Some z \<Longrightarrow> i64_val z = i64_val x + i64_val y"
  by (auto simp: i64_checked_add_def i64_in_range_def i64_val_of Let_def split: if_splits)

lemma i64_checked_sub_Some:
  "i64_checked_sub x y = Some z \<Longrightarrow> i64_val z = i64_val x - i64_val y"
  by (auto simp: i64_checked_sub_def i64_in_range_def i64_val_of Let_def split: if_splits)

lemma i64_checked_sub_add:
  assumes "i64_checked_sub x y = Some z"
  shows "i64_checked_add z y = Some x"
  using i64_checked_sub_Some [OF assms] i64_val_bounds [of x]
  by (simp add: i64_checked_add_def i64_in_range_def)

lemma i64_saturating_add_le:
  assumes "0 \<le> i64_val d"
  shows "x \<le> i64_saturating_add x d"
  using assms i64_val_bounds [of x]
  by (auto simp: i64_saturating_add_def less_eq_i64_def i64_val_of i64_in_range_def Let_def)

lemma i64_saturating_add_strict:
  assumes "0 < i64_val d" and "x < I64_MAX"
  shows "x < i64_saturating_add x d"
  using assms i64_val_bounds [of x]
  by (auto simp: i64_saturating_add_def less_i64_def i64_val_of Let_def)

section \<open>Results\<close>

text \<open>\<open>Result\<close>'s \<open>?\<close> and \<open>map_err\<close>.\<close>

definition result_bind :: "'e + 'a \<Rightarrow> ('a \<Rightarrow> 'e + 'b) \<Rightarrow> 'e + 'b" where
  "result_bind r f = (case r of Inl e \<Rightarrow> Inl e | Inr x \<Rightarrow> f x)"

definition map_err :: "('e \<Rightarrow> 'f) \<Rightarrow> 'e + 'a \<Rightarrow> 'f + 'a" where
  "map_err h r = (case r of Inl e \<Rightarrow> Inl (h e) | Inr x \<Rightarrow> Inr x)"

definition ok_or :: "'a option \<Rightarrow> 'e \<Rightarrow> 'e + 'a" where
  "ok_or v e = (case v of None \<Rightarrow> Inl e | Some x \<Rightarrow> Inr x)"

lemma result_bind_simps [simp]:
  "result_bind (Inl e) f = Inl e" "result_bind (Inr x) f = f x"
  by (simp_all add: result_bind_def)

lemma map_err_simps [simp]: "map_err h (Inl e) = Inl (h e)" "map_err h (Inr x) = Inr x"
  by (simp_all add: map_err_def)

lemma ok_or_simps [simp]: "ok_or None e = Inl e" "ok_or (Some x) e = Inr x"
  by (simp_all add: ok_or_def)

lemma result_bind_Inr [result_simps]:
  "result_bind r f = Inr y \<longleftrightarrow> (\<exists>x. r = Inr x \<and> f x = Inr y)"
  by (cases r) auto

lemma result_bind_Inl [result_simps]:
  "result_bind r f = Inl e \<longleftrightarrow> r = Inl e \<or> (\<exists>x. r = Inr x \<and> f x = Inl e)"
  by (cases r) auto

lemma map_err_Inr [result_simps]: "map_err h r = Inr x \<longleftrightarrow> r = Inr x"
  by (cases r) auto

lemma ok_or_Inr [result_simps]: "ok_or v e = Inr x \<longleftrightarrow> v = Some x"
  by (cases v) auto

section \<open>Little- and big-endian byte codecs\<close>

text \<open>\<open>to_le_bytes\<close> / \<open>from_le_bytes\<close> of the unsigned integers, by width in bytes.\<close>

definition word_le :: "nat \<Rightarrow> 'a::len word \<Rightarrow> bytes" where
  "word_le n w = map (\<lambda>i. ucast (drop_bit (8 * i) w)) [0..<n]"

fun from_le :: "bytes \<Rightarrow> 'a::len word" where
  "from_le [] = 0"
| "from_le (b # bs) = ucast b OR push_bit 8 (from_le bs)"

definition word_be :: "nat \<Rightarrow> 'a::len word \<Rightarrow> bytes" where
  "word_be n w = rev (word_le n w)"

definition from_be :: "bytes \<Rightarrow> 'a::len word" where
  "from_be bs = from_le (rev bs)"

lemma length_word_le [simp, codec_simps]: "length (word_le n w) = n"
  by (simp add: word_le_def)

lemma length_word_be [simp, codec_simps]: "length (word_be n w) = n"
  by (simp add: word_be_def)

lemma bit_from_le:
  "bit (from_le bs :: 'a::len word) n \<longleftrightarrow>
     n < LENGTH('a) \<and> n div 8 < length bs \<and> bit (bs ! (n div 8)) (n mod 8)"
proof (induction bs arbitrary: n)
  case Nil
  then show ?case by simp
next
  case (Cons b bs)
  show ?case
  proof (cases "n < 8")
    case True
    then show ?thesis by (auto simp: bit_or_iff bit_push_bit_iff bit_ucast_iff)
  next
    case False
    then have e: "n div 8 = Suc ((n - 8) div 8)" "(n - 8) mod 8 = n mod 8"
      by (auto simp: le_div_geq le_mod_geq)
    have "\<not> bit b n" using False by (simp add: impossible_bit)
    with False show ?thesis
      using Cons.IH [of "n - 8"] by (auto simp: bit_or_iff bit_push_bit_iff bit_ucast_iff e)
  qed
qed

lemma from_le_word_le:
  "LENGTH('a) \<le> 8 * n \<Longrightarrow> from_le (word_le n (w :: 'a::len word)) = w"
  by (rule bit_word_eqI)
    (auto simp: bit_from_le word_le_def bit_ucast_iff bit_drop_bit_eq less_mult_imp_div_less)

lemma word_le_from_le:
  assumes "length bs = n" and "8 * n \<le> LENGTH('a)"
  shows "word_le n (from_le bs :: 'a::len word) = bs"
proof (rule nth_equalityI)
  show "length (word_le n (from_le bs :: 'a word)) = length bs" using assms by simp
next
  fix i assume "i < length (word_le n (from_le bs :: 'a word))"
  then have i: "i < n" by simp
  show "word_le n (from_le bs :: 'a word) ! i = bs ! i"
  proof (rule bit_word_eqI)
    fix k assume "k < LENGTH(8)"
    then have k: "k < 8" by simp
    then have "(8 * i + k) div 8 = i" "(8 * i + k) mod 8 = k" "8 * i + k < LENGTH('a)"
      using i assms by auto
    then show "bit (word_le n (from_le bs :: 'a word) ! i) k \<longleftrightarrow> bit (bs ! i) k"
      using i assms k by (simp add: word_le_def bit_ucast_iff bit_drop_bit_eq bit_from_le)
  qed
qed

lemma from_be_word_be:
  "LENGTH('a) \<le> 8 * n \<Longrightarrow> from_be (word_be n (w :: 'a::len word)) = w"
  by (simp add: from_be_def word_be_def from_le_word_le)

lemma word_be_from_be:
  "length bs = n \<Longrightarrow> 8 * n \<le> LENGTH('a) \<Longrightarrow> word_be n (from_be bs :: 'a::len word) = bs"
  by (simp add: from_be_def word_be_def word_le_from_le)

abbreviation u32_le :: "u32 \<Rightarrow> bytes" where "u32_le \<equiv> word_le 4"
abbreviation u64_le :: "u64 \<Rightarrow> bytes" where "u64_le \<equiv> word_le 8"
abbreviation u32_of_le :: "bytes \<Rightarrow> u32" where "u32_of_le \<equiv> from_le"
abbreviation u64_of_le :: "bytes \<Rightarrow> u64" where "u64_of_le \<equiv> from_le"

definition i64_le :: "i64 \<Rightarrow> bytes" where "i64_le x = u64_le (i64_bits x)"
definition i64_of_le :: "bytes \<Rightarrow> i64" where "i64_of_le bs = I64 (u64_of_le bs)"
definition i64_be :: "i64 \<Rightarrow> bytes" where "i64_be x = word_be 8 (i64_bits x)"
definition i64_of_be :: "bytes \<Rightarrow> i64" where "i64_of_be bs = I64 (from_be bs)"

lemma codec_roundtrips [simp, codec_simps]:
  "u32_of_le (u32_le a) = a" "u64_of_le (u64_le b) = b"
  "i64_of_le (i64_le x) = x" "i64_of_be (i64_be x) = x"
  "length (i64_le x) = 8" "length (i64_be x) = 8"
  by (simp_all add: from_le_word_le from_be_word_be i64_le_def i64_of_le_def i64_be_def i64_of_be_def)

text \<open>The converse direction: every byte string of the right width is the encoding of its value.\<close>

lemma codec_inverse:
  "length bs = 4 \<Longrightarrow> u32_le (u32_of_le bs) = bs"
  "length bs = 8 \<Longrightarrow> u64_le (u64_of_le bs) = bs"
  "length bs = 8 \<Longrightarrow> i64_le (i64_of_le bs) = bs"
  "length bs = 8 \<Longrightarrow> i64_be (i64_of_be bs) = bs"
  by (simp_all add: word_le_from_le word_be_from_be i64_le_def i64_of_le_def i64_be_def i64_of_be_def)

text \<open>A \<open>usize\<close> narrowed to \<open>u32\<close> (\<open>u32::try_from\<close>) and read back.\<close>

definition u32_try_from :: "nat \<Rightarrow> u32 option" where
  "u32_try_from n = (if n < 2 ^ 32 then Some (of_nat n) else None)"

lemma unat_u32_of_nat [simp]: "n < 2 ^ 32 \<Longrightarrow> unat (of_nat n :: u32) = n"
  by (simp add: unat_of_nat take_bit_nat_eq_self)

lemma unat_u64_of_nat [simp]: "n < 2 ^ 64 \<Longrightarrow> unat (of_nat n :: u64) = n"
  by (simp add: unat_of_nat take_bit_nat_eq_self)

section \<open>Slices\<close>

text \<open>\<open>&bytes[a..b]\<close>, inside the bounds every caller checks first.\<close>

definition sub_slice :: "nat \<Rightarrow> nat \<Rightarrow> 'a list \<Rightarrow> 'a list" where
  "sub_slice a b xs = take (b - a) (drop a xs)"

lemma length_sub_slice [simp]: "a \<le> b \<Longrightarrow> b \<le> length xs \<Longrightarrow> length (sub_slice a b xs) = b - a"
  by (simp add: sub_slice_def)

lemma sub_slice_append_skip:
  "length xs = n \<Longrightarrow> n \<le> a \<Longrightarrow> sub_slice a b (xs @ ys) = sub_slice (a - n) (b - n) ys"
  by (simp add: sub_slice_def)

lemma sub_slice_append_hit: "length xs = n \<Longrightarrow> sub_slice 0 n (xs @ ys) = xs"
  by (simp add: sub_slice_def)

lemma sub_slice_whole: "length xs = n \<Longrightarrow> sub_slice 0 n xs = xs"
  by (simp add: sub_slice_def)

lemma sub_slice_drop: "a \<le> b \<Longrightarrow> sub_slice a b xs @ drop b xs = drop a xs"
  by (metis add.commute append_take_drop_id drop_drop le_add_diff_inverse sub_slice_def)

lemma take_sub_slice: "a \<le> b \<Longrightarrow> take a xs @ sub_slice a b xs = take b xs"
  using take_add [of a "b - a" xs] by (simp add: sub_slice_def)

lemmas sub_slice_frame = sub_slice_append_skip sub_slice_append_hit sub_slice_whole

text \<open>\<open>chunks_exact(n)\<close> and its remainder.\<close>

function chunks_exact :: "nat \<Rightarrow> 'a list \<Rightarrow> 'a list list" where
  "chunks_exact n xs =
     (if 0 < n \<and> n \<le> length xs then take n xs # chunks_exact n (drop n xs) else [])"
  by pat_completeness auto
termination
  by (relation "measure (\<lambda>(n, xs). length xs)") auto

declare chunks_exact.simps [simp del]

definition chunks_remainder :: "nat \<Rightarrow> 'a list \<Rightarrow> 'a list" where
  "chunks_remainder n xs = drop (n * (length xs div n)) xs"

lemma chunks_exact_short: "length xs < n \<Longrightarrow> chunks_exact n xs = []"
  by (simp add: chunks_exact.simps)

lemma chunks_exact_append:
  "length xs = n \<Longrightarrow> 0 < n \<Longrightarrow> chunks_exact n (xs @ ys) = xs # chunks_exact n ys"
  by (simp add: chunks_exact.simps [of n "xs @ ys"])

lemma chunks_exact_length: "c \<in> set (chunks_exact n xs) \<Longrightarrow> length c = n"
  by (induction n xs rule: chunks_exact.induct)
    (subst (asm) (2) chunks_exact.simps, auto split: if_splits)

lemma concat_chunks_exact:
  "length xs = k * n \<Longrightarrow> 0 < n \<Longrightarrow> concat (chunks_exact n xs) = xs \<and> length (chunks_exact n xs) = k"
proof (induction k arbitrary: xs)
  case (Suc k)
  have "chunks_exact n (take n xs @ drop n xs) = take n xs # chunks_exact n (drop n xs)"
    using Suc.prems by (intro chunks_exact_append) simp_all
  moreover have "concat (chunks_exact n (drop n xs)) = drop n xs \<and> length (chunks_exact n (drop n xs)) = k"
    using Suc.prems by (intro Suc.IH) simp_all
  ultimately show ?case by (simp add: append_take_drop_id)
qed (simp add: chunks_exact_short)

text \<open>Folding over the chunks and then the remainder is folding over the list.\<close>

lemma chunks_exact_fold:
  assumes "\<And>c s. length c = n \<Longrightarrow> f c s = fold g c s" and "0 < n"
  shows "fold g (chunks_remainder n xs) (fold f (chunks_exact n xs) s) = fold g xs s"
proof (induction "length xs" arbitrary: xs s rule: less_induct)
  case less
  show ?case
  proof (cases "n \<le> length xs")
    case True
    then have "length xs div n = Suc ((length xs - n) div n)"
      using assms(2) by (simp add: le_div_geq)
    then have rem: "chunks_remainder n xs = chunks_remainder n (drop n xs)"
      by (simp add: chunks_remainder_def add.commute)
    have len: "length (take n xs) = n" using True by simp
    have "fold g (chunks_remainder n (drop n xs)) (fold f (chunks_exact n (drop n xs))
            (fold g (take n xs) s)) = fold g (drop n xs) (fold g (take n xs) s)"
      using True assms(2) by (intro less) simp
    also have "\<dots> = fold g (take n xs @ drop n xs) s" by (simp only: fold_append comp_apply)
    finally show ?thesis
      using True assms(2) by (simp add: rem chunks_exact.simps [of n xs] assms(1) [OF len])
  next
    case False
    then show ?thesis by (simp add: chunks_exact_short chunks_remainder_def)
  qed
qed

end
