(* ===== verification/Hash.thy ===== *)
theory Hash
  imports Stele_Prelude
begin

text \<open>
  The SHA-2 functions (\<open>crates/stele-common/src/hash.rs\<close>): SHA-256 for the hash-chained commit log,
  SHA-384 and SHA-512 for channel binding. Blocks are byte lists, the schedule \<open>w\<close> and the tail buffer
  are lists updated in place as the source's arrays are. The standard's own shape (pad the whole
  message, then fold the compression function over its blocks) is the reference each is proved to
  compute, and the empty message is evaluated against the published answer.
\<close>

section \<open>Buffers\<close>

text \<open>\<open>buf[at..at + src.len()].copy_from_slice(src)\<close>.\<close>

definition copy_into :: "nat \<Rightarrow> 'a list \<Rightarrow> 'a list \<Rightarrow> 'a list" where
  "copy_into at src buf = take at buf @ src @ drop (at + length src) buf"

lemma length_copy_into [simp]:
  "at + length src \<le> length buf \<Longrightarrow> length (copy_into at src buf) = length buf"
  by (simp add: copy_into_def)

section \<open>SHA-256\<close>

definition SHA256_LEN :: nat where "SHA256_LEN = 32"

datatype digest = Digest (as_bytes: bytes)

definition Digest_ZERO :: digest where "Digest_ZERO = Digest (replicate SHA256_LEN 0)"

definition hex_char :: "u8 \<Rightarrow> char" where
  "hex_char n = (if n < 10 then char_of (48 + unat n) else char_of (87 + unat n))"

definition to_hex :: "digest \<Rightarrow> string" where
  "to_hex d = concat (map (\<lambda>b. [hex_char (drop_bit 4 b), hex_char (b AND 0x0F)]) (as_bytes d))"

definition H0 :: "u32 list" where
  "H0 = [
     0x6A09E667, 0xBB67AE85, 0x3C6EF372, 0xA54FF53A, 0x510E527F, 0x9B05688C, 0x1F83D9AB, 0x5BE0CD19]"

definition K :: "u32 list" where
  "K = [
     0x428A2F98, 0x71374491, 0xB5C0FBCF, 0xE9B5DBA5, 0x3956C25B, 0x59F111F1, 0x923F82A4, 0xAB1C5ED5,
     0xD807AA98, 0x12835B01, 0x243185BE, 0x550C7DC3, 0x72BE5D74, 0x80DEB1FE, 0x9BDC06A7, 0xC19BF174,
     0xE49B69C1, 0xEFBE4786, 0x0FC19DC6, 0x240CA1CC, 0x2DE92C6F, 0x4A7484AA, 0x5CB0A9DC, 0x76F988DA,
     0x983E5152, 0xA831C66D, 0xB00327C8, 0xBF597FC7, 0xC6E00BF3, 0xD5A79147, 0x06CA6351, 0x14292967,
     0x27B70A85, 0x2E1B2138, 0x4D2C6DFC, 0x53380D13, 0x650A7354, 0x766A0ABB, 0x81C2C92E, 0x92722C85,
     0xA2BFE8A1, 0xA81A664B, 0xC24B8B70, 0xC76C51A3, 0xD192E819, 0xD6990624, 0xF40E3585, 0x106AA070,
     0x19A4C116, 0x1E376C08, 0x2748774C, 0x34B0BCB5, 0x391C0CB3, 0x4ED8AA4A, 0x5B9CCA4F, 0x682E6FF3,
     0x748F82EE, 0x78A5636F, 0x84C87814, 0x8CC70208, 0x90BEFFFA, 0xA4506CEB, 0xBEF9A3F7, 0xC67178F2]"

definition schedule_step :: "u32 list \<Rightarrow> nat \<Rightarrow> u32 list" where
  "schedule_step w i =
     (let x = w ! (i - 15); y = w ! (i - 2);
          s0 = word_rotr 7 x XOR word_rotr 18 x XOR drop_bit 3 x;
          s1 = word_rotr 17 y XOR word_rotr 19 y XOR drop_bit 10 y
      in w[i := w ! (i - 16) + s0 + w ! (i - 7) + s1])"

definition schedule :: "bytes \<Rightarrow> u32 list" where
  "schedule block =
     foldl schedule_step (map from_be (chunks_exact 4 block) @ replicate 48 0) [16..<64]"

type_synonym 'w vars = "'w \<times> 'w \<times> 'w \<times> 'w \<times> 'w \<times> 'w \<times> 'w \<times> 'w"

definition round256 :: "u32 list \<Rightarrow> u32 vars \<Rightarrow> nat \<Rightarrow> u32 vars" where
  "round256 w st i =
     (case st of (a, b, c, d, e, f, g, hh) \<Rightarrow>
        let s1 = word_rotr 6 e XOR word_rotr 11 e XOR word_rotr 25 e;
            ch = (e AND f) XOR (NOT e AND g);
            t1 = hh + s1 + ch + K ! i + w ! i;
            s0 = word_rotr 2 a XOR word_rotr 13 a XOR word_rotr 22 a;
            maj = (a AND b) XOR (a AND c) XOR (b AND c);
            t2 = s0 + maj
        in (t1 + t2, a, b, c, d + t1, e, f, g))"

text \<open>\<open>let [a, .., hh] = *h\<close> and the final \<open>zip\<close> that adds the variables back.\<close>

definition vars_of :: "'w list \<Rightarrow> 'w vars" where
  "vars_of h = (h ! 0, h ! 1, h ! 2, h ! 3, h ! 4, h ! 5, h ! 6, h ! 7)"

definition add_vars :: "'w::plus list \<Rightarrow> 'w vars \<Rightarrow> 'w list" where
  "add_vars h st =
     (case st of (a, b, c, d, e, f, g, hh) \<Rightarrow> map2 (+) h [a, b, c, d, e, f, g, hh])"

definition compress :: "u32 list \<Rightarrow> bytes \<Rightarrow> u32 list" where
  "compress h block = add_vars h (foldl (round256 (schedule block)) (vars_of h) [0..<64])"

definition sha256_tail :: "bytes \<Rightarrow> bytes" where
  "sha256_tail bs =
     (let rest = chunks_remainder 64 bs;
          bit_len = of_nat (length bs) * 8 :: u64;
          tail1 = copy_into 0 rest (replicate 128 0);
          tail2 = tail1[length rest := 0x80];
          tail_len = (if length rest < 56 then 64 else 128);
          tail3 = copy_into (tail_len - 8) (word_be 8 bit_len) tail2
      in take tail_len tail3)"

definition sha256 :: "bytes \<Rightarrow> digest" where
  "sha256 bs =
     (let h1 = foldl compress H0 (chunks_exact 64 bs);
          h2 = foldl compress h1 (chunks_exact 64 (sha256_tail bs))
      in Digest (concat (map (word_be 4) h2)))"

section \<open>SHA-512 and SHA-384\<close>

definition SHA512_LEN :: nat where "SHA512_LEN = 64"

definition SHA384_LEN :: nat where "SHA384_LEN = 48"

definition H0_512 :: "u64 list" where
  "H0_512 = [
     0x6A09E667F3BCC908, 0xBB67AE8584CAA73B, 0x3C6EF372FE94F82B, 0xA54FF53A5F1D36F1,
     0x510E527FADE682D1, 0x9B05688C2B3E6C1F, 0x1F83D9ABFB41BD6B, 0x5BE0CD19137E2179]"

definition H0_384 :: "u64 list" where
  "H0_384 = [
     0xCBBB9D5DC1059ED8, 0x629A292A367CD507, 0x9159015A3070DD17, 0x152FECD8F70E5939,
     0x67332667FFC00B31, 0x8EB44A8768581511, 0xDB0C2E0D64F98FA7, 0x47B5481DBEFA4FA4]"

definition K512 :: "u64 list" where
  "K512 = [
     0x428A2F98D728AE22, 0x7137449123EF65CD, 0xB5C0FBCFEC4D3B2F, 0xE9B5DBA58189DBBC,
     0x3956C25BF348B538, 0x59F111F1B605D019, 0x923F82A4AF194F9B, 0xAB1C5ED5DA6D8118,
     0xD807AA98A3030242, 0x12835B0145706FBE, 0x243185BE4EE4B28C, 0x550C7DC3D5FFB4E2,
     0x72BE5D74F27B896F, 0x80DEB1FE3B1696B1, 0x9BDC06A725C71235, 0xC19BF174CF692694,
     0xE49B69C19EF14AD2, 0xEFBE4786384F25E3, 0x0FC19DC68B8CD5B5, 0x240CA1CC77AC9C65,
     0x2DE92C6F592B0275, 0x4A7484AA6EA6E483, 0x5CB0A9DCBD41FBD4, 0x76F988DA831153B5,
     0x983E5152EE66DFAB, 0xA831C66D2DB43210, 0xB00327C898FB213F, 0xBF597FC7BEEF0EE4,
     0xC6E00BF33DA88FC2, 0xD5A79147930AA725, 0x06CA6351E003826F, 0x142929670A0E6E70,
     0x27B70A8546D22FFC, 0x2E1B21385C26C926, 0x4D2C6DFC5AC42AED, 0x53380D139D95B3DF,
     0x650A73548BAF63DE, 0x766A0ABB3C77B2A8, 0x81C2C92E47EDAEE6, 0x92722C851482353B,
     0xA2BFE8A14CF10364, 0xA81A664BBC423001, 0xC24B8B70D0F89791, 0xC76C51A30654BE30,
     0xD192E819D6EF5218, 0xD69906245565A910, 0xF40E35855771202A, 0x106AA07032BBD1B8,
     0x19A4C116B8D2D0C8, 0x1E376C085141AB53, 0x2748774CDF8EEB99, 0x34B0BCB5E19B48A8,
     0x391C0CB3C5C95A63, 0x4ED8AA4AE3418ACB, 0x5B9CCA4F7763E373, 0x682E6FF3D6B2B8A3,
     0x748F82EE5DEFB2FC, 0x78A5636F43172F60, 0x84C87814A1F0AB72, 0x8CC702081A6439EC,
     0x90BEFFFA23631E28, 0xA4506CEBDE82BDE9, 0xBEF9A3F7B2C67915, 0xC67178F2E372532B,
     0xCA273ECEEA26619C, 0xD186B8C721C0C207, 0xEADA7DD6CDE0EB1E, 0xF57D4F7FEE6ED178,
     0x06F067AA72176FBA, 0x0A637DC5A2C898A6, 0x113F9804BEF90DAE, 0x1B710B35131C471B,
     0x28DB77F523047D84, 0x32CAAB7B40C72493, 0x3C9EBE0A15C9BEBC, 0x431D67C49C100D4C,
     0x4CC5D4BECB3E42B6, 0x597F299CFC657E2A, 0x5FCB6FAB3AD6FAEC, 0x6C44198C4A475817]"

definition schedule512_step :: "u64 list \<Rightarrow> nat \<Rightarrow> u64 list" where
  "schedule512_step w i =
     (let x = w ! (i - 15); y = w ! (i - 2);
          s0 = word_rotr 1 x XOR word_rotr 8 x XOR drop_bit 7 x;
          s1 = word_rotr 19 y XOR word_rotr 61 y XOR drop_bit 6 y
      in w[i := w ! (i - 16) + s0 + w ! (i - 7) + s1])"

definition schedule512 :: "bytes \<Rightarrow> u64 list" where
  "schedule512 block =
     foldl schedule512_step (map from_be (chunks_exact 8 block) @ replicate 64 0) [16..<80]"

definition round512 :: "u64 list \<Rightarrow> u64 vars \<Rightarrow> nat \<Rightarrow> u64 vars" where
  "round512 w st i =
     (case st of (a, b, c, d, e, f, g, hh) \<Rightarrow>
        let s1 = word_rotr 14 e XOR word_rotr 18 e XOR word_rotr 41 e;
            ch = (e AND f) XOR (NOT e AND g);
            t1 = hh + s1 + ch + K512 ! i + w ! i;
            s0 = word_rotr 28 a XOR word_rotr 34 a XOR word_rotr 39 a;
            maj = (a AND b) XOR (a AND c) XOR (b AND c);
            t2 = s0 + maj
        in (t1 + t2, a, b, c, d + t1, e, f, g))"

definition compress512 :: "u64 list \<Rightarrow> bytes \<Rightarrow> u64 list" where
  "compress512 h block = add_vars h (foldl (round512 (schedule512 block)) (vars_of h) [0..<80])"

definition sha512_tail :: "bytes \<Rightarrow> bytes" where
  "sha512_tail bs =
     (let rest = chunks_remainder 128 bs;
          bit_len = of_nat (length bs) * 8 :: 128 word;
          tail1 = copy_into 0 rest (replicate 256 0);
          tail2 = tail1[length rest := 0x80];
          tail_len = (if length rest < 112 then 128 else 256);
          tail3 = copy_into (tail_len - 16) (word_be 16 bit_len) tail2
      in take tail_len tail3)"

definition sha512_core :: "bytes \<Rightarrow> u64 list \<Rightarrow> u64 list" where
  "sha512_core bs h0 =
     (let h1 = foldl compress512 h0 (chunks_exact 128 bs)
      in foldl compress512 h1 (chunks_exact 128 (sha512_tail bs)))"

definition sha512 :: "bytes \<Rightarrow> bytes" where
  "sha512 bs = concat (map (word_be 8) (sha512_core bs H0_512))"

definition sha384 :: "bytes \<Rightarrow> bytes" where
  "sha384 bs = concat (map (word_be 8) (take 6 (sha512_core bs H0_384)))"

section \<open>The standard's padding\<close>

text \<open>
  FIPS 180-4, section 5.1: append a one bit, then the least number of zero bits, then the length field,
  so that the message fills whole blocks.
\<close>

definition fips_pad :: "nat \<Rightarrow> bytes \<Rightarrow> bytes \<Rightarrow> bytes" where
  "fips_pad block len_field bs =
     bs @ 0x80 # replicate ((2 * block - 1 - length len_field - length bs mod block) mod block) 0 @ len_field"

lemma chunks_exact_split:
  "0 < n \<Longrightarrow> chunks_exact n (xs @ ys) = chunks_exact n xs @ chunks_exact n (chunks_remainder n xs @ ys)"
proof (induction n xs rule: chunks_exact.induct)
  case (1 n xs)
  show ?case
  proof (cases "n \<le> length xs")
    case True
    then have "length xs div n = Suc ((length xs - n) div n)" using 1(2) by (simp add: le_div_geq)
    then have rem: "chunks_remainder n (drop n xs) = chunks_remainder n xs"
      by (simp add: chunks_remainder_def add.commute)
    have "chunks_exact n (xs @ ys) = take n xs # chunks_exact n (drop n xs @ ys)"
      using True 1(2) by (simp add: chunks_exact.simps [of n "xs @ ys"])
    also have "\<dots> = chunks_exact n xs @ chunks_exact n (chunks_remainder n xs @ ys)"
      using 1 True rem by (simp add: chunks_exact.simps [of n xs])
    finally show ?thesis .
  next
    case False
    then show ?thesis by (simp add: chunks_exact_short chunks_remainder_def)
  qed
qed

lemma length_chunks_remainder: "0 < n \<Longrightarrow> length (chunks_remainder n xs) = length xs mod n"
  by (simp add: chunks_remainder_def minus_mult_div_eq_mod)

text \<open>The tail buffer the code fills is the padded last block or two.\<close>

lemma tail_buffer:
  assumes r: "length rest < block" and tail: "tail_len = (if length rest < block - length len_field then block else 2 * block)"
    and l: "length len_field < block" "0 < length len_field"
  shows "take tail_len (copy_into (tail_len - length len_field) len_field
            ((copy_into 0 rest (replicate (2 * block) (0::u8)))[length rest := 0x80]))
         = rest @ 0x80 # replicate (tail_len - 1 - length len_field - length rest) 0 @ len_field"
proof -
  let ?l = "length len_field" and ?r = "length rest"
  have fit: "?r < tail_len - ?l" "tail_len \<le> 2 * block" "?l \<le> tail_len"
    using assms by (auto split: if_splits)
  have "(copy_into 0 rest (replicate (2 * block) (0::u8)))[?r := 0x80]
      = rest @ 0x80 # replicate (2 * block - ?r - 1) 0"
    using r by (simp add: copy_into_def list_update_append Suc_diff_Suc [symmetric] del: replicate_Suc)
      (metis Suc_diff_Suc list_update_code(2) mult_2 replicate_Suc trans_less_add1)
  moreover have "take (tail_len - ?l) (rest @ 0x80 # replicate (2 * block - ?r - 1) (0::u8))
      = rest @ 0x80 # replicate (tail_len - 1 - ?l - ?r) 0"
    using fit by (simp add: take_Cons' min_def)
  ultimately have "copy_into (tail_len - ?l) len_field
      ((copy_into 0 rest (replicate (2 * block) (0::u8)))[?r := 0x80])
      = (rest @ 0x80 # replicate (tail_len - 1 - ?l - ?r) 0 @ len_field) @
        drop tail_len (rest @ 0x80 # replicate (2 * block - ?r - 1) 0)"
    using fit by (simp add: copy_into_def [of "tail_len - ?l"])
  moreover have "length (rest @ 0x80 # replicate (tail_len - 1 - ?l - ?r) (0::u8) @ len_field) = tail_len"
    using fit by simp
  ultimately show ?thesis by (simp only: take_append) simp
qed

lemma tail_len_mod:
  fixes r block l :: nat
  assumes "r < block" "l < block" "0 < l"
  shows "(2 * block - 1 - l - r) mod block = (if r < block - l then block else 2 * block) - 1 - l - r"
proof (cases "r < block - l")
  case True
  then have "2 * block - 1 - l - r = (block - 1 - l - r) + block" by simp
  then have "(2 * block - 1 - l - r) mod block = (block - 1 - l - r) mod block" by (simp only: mod_add_self2)
  with True show ?thesis using assms by simp
next
  case False
  then show ?thesis using assms by simp
qed

lemma padded_blocks:
  assumes "length len_field = l" "l < block" "0 < l"
    and "tail = (let rest = chunks_remainder block bs;
          tail_len = (if length rest < block - l then block else 2 * block)
      in take tail_len (copy_into (tail_len - l) len_field
            ((copy_into 0 rest (replicate (2 * block) (0::u8)))[length rest := 0x80])))"
  shows "chunks_exact block (fips_pad block len_field bs) = chunks_exact block bs @ chunks_exact block tail"
proof -
  have r: "length (chunks_remainder block bs) = length bs mod block" "length bs mod block < block"
    using length_chunks_remainder [of block bs] assms(1-3) by simp_all
  have "tail = chunks_remainder block bs @ 0x80 #
      replicate ((2 * block - 1 - l - length bs mod block) mod block) 0 @ len_field"
    using tail_buffer [of "chunks_remainder block bs" block _ len_field, OF _ refl] r assms
      tail_len_mod [of "length bs mod block" block l] by (simp add: Let_def)
  then show ?thesis
    using chunks_exact_split [of block bs] assms by (simp add: fips_pad_def)
qed

lemma sha256_tail_blocks:
  "chunks_exact 64 (fips_pad 64 (word_be 8 (of_nat (length bs) * 8 :: u64)) bs)
     = chunks_exact 64 bs @ chunks_exact 64 (sha256_tail bs)"
  by (rule padded_blocks [of _ 8]) (simp_all add: sha256_tail_def Let_def)

lemma sha512_tail_blocks:
  "chunks_exact 128 (fips_pad 128 (word_be 16 (of_nat (length bs) * 8 :: 128 word)) bs)
     = chunks_exact 128 bs @ chunks_exact 128 (sha512_tail bs)"
  by (rule padded_blocks [of _ 16]) (simp_all add: sha512_tail_def Let_def)

text \<open>
  C38. The three digests are the standard's: padding the whole message as FIPS 180-4 prescribes
  and folding the compression function over its blocks from the initial value gives what the
  code computes block by block with its one- or two-block tail buffer, for every message.
\<close>

theorem sha2_is_fips:
  "(sha256 bs = Digest (concat (map (word_be 4) (foldl compress H0
     (chunks_exact 64 (fips_pad 64 (word_be 8 (of_nat (length bs) * 8 :: u64)) bs)))))) \<and>
   (sha512 bs = concat (map (word_be 8) (foldl compress512 H0_512
     (chunks_exact 128 (fips_pad 128 (word_be 16 (of_nat (length bs) * 8 :: 128 word)) bs))))) \<and>
   (sha384 bs = concat (map (word_be 8) (take 6 (foldl compress512 H0_384
     (chunks_exact 128 (fips_pad 128 (word_be 16 (of_nat (length bs) * 8 :: 128 word)) bs)))))) \<and>
   length (fips_pad 64 (word_be 8 (of_nat (length bs) * 8 :: u64)) bs) mod 64 = 0 \<and>
   length (fips_pad 128 (word_be 16 (of_nat (length bs) * 8 :: 128 word)) bs) mod 128 = 0"
proof (intro conjI)
  have fill: "length (fips_pad block lf bs) mod block = 0"
    if "length lf = l" "l < block" "0 < l" for block l and lf :: bytes
  proof -
    let ?m = "length bs mod block"
    have "length (fips_pad block lf bs) mod block = (?m + 1 + (2 * block - 1 - l - ?m) + l) mod block"
      by (simp add: fips_pad_def that(1)) (metis add.assoc add_Suc_right mod_add_left_eq mod_add_right_eq)
    also have "?m + 1 + (2 * block - 1 - l - ?m) + l = 2 * block"
      using mod_less_divisor [of block "length bs"] that by linarith
    finally show ?thesis by simp
  qed
  show "length (fips_pad 64 (word_be 8 (of_nat (length bs) * 8 :: u64)) bs) mod 64 = 0"
    and "length (fips_pad 128 (word_be 16 (of_nat (length bs) * 8 :: 128 word)) bs) mod 128 = 0"
    using fill [of "word_be 8 (of_nat (length bs) * 8 :: u64)" 8 64]
      fill [of "word_be 16 (of_nat (length bs) * 8 :: 128 word)" 16 128] by simp_all
qed (simp_all add: sha256_def sha512_def sha384_def sha512_core_def Let_def
    sha256_tail_blocks sha512_tail_blocks)

section \<open>Digest lengths\<close>

lemma length_add_vars [simp]: "length h = 8 \<Longrightarrow> length (add_vars h st) = 8"
  by (simp add: add_vars_def split: prod.splits)

lemma length_compress [simp]: "length h = 8 \<Longrightarrow> length (compress h b) = 8"
  by (simp add: compress_def)

lemma length_foldl_compress: "length h = 8 \<Longrightarrow> length (foldl compress h bs) = 8"
  by (induction bs arbitrary: h) auto

lemma length_concat_word_be: "length (concat (map (word_be n) ws)) = n * length ws"
  by (induction ws) auto

lemma length_sha256 [simp]: "length (as_bytes (sha256 bs)) = SHA256_LEN"
  by (simp add: sha256_def Let_def length_concat_word_be length_foldl_compress H0_def SHA256_LEN_def)

text \<open>
  Known answer: the model run on the empty message gives the published SHA-256 digest, which
  exercises every round constant, rotation and initial word.
\<close>

theorem sha256_empty_message:
  "to_hex (sha256 []) = ''e3b0c44298fc1c149afbf4c8996fb92427ae41e4649b934ca495991b7852b855''"
  by code_simp

end
