(* ===== verification/Checksum.thy ===== *)
theory Checksum
  imports Stele_Prelude
begin

text \<open>
  \<open>crates/stele-storage/src/checksum.rs\<close>: CRC32C with the slice-by-8 kernel. \<open>TABLES\<close> is the
  constant the source computes, \<open>Crc32c_update\<close> the table-driven loop. The lemmas show that the
  kernel computes the bit-serial CRC (\<open>crc32c_ref\<close>), that checksumming in pieces is checksumming
  the concatenation, and that any change confined to 32 consecutive bits changes the CRC.
\<close>

section \<open>The kernel\<close>

definition CRC_POLY_REFLECTED :: u32 where
  "CRC_POLY_REFLECTED = 0x82F63B78"

text \<open>The body of the table's inner loop: one bit of the shift register.\<close>

definition crc_bit :: "u32 \<Rightarrow> u32" where
  "crc_bit crc =
     (if crc AND 1 = 0 then drop_bit 1 crc else drop_bit 1 crc XOR CRC_POLY_REFLECTED)"

definition crc_table0 :: "u32 list" where
  "crc_table0 = map (\<lambda>i. (crc_bit ^^ 8) (of_nat i)) [0..<256]"

definition crc_next_table :: "u32 list \<Rightarrow> u32 list \<Rightarrow> u32 list" where
  "crc_next_table t0 prev =
     map (\<lambda>p. drop_bit 8 p XOR t0 ! unat (p AND 0xFF)) prev"

fun crc_tables_from :: "nat \<Rightarrow> u32 list \<Rightarrow> u32 list \<Rightarrow> u32 list list" where
  "crc_tables_from 0 t0 t = []"
| "crc_tables_from (Suc k) t0 t = t # crc_tables_from k t0 (crc_next_table t0 t)"

definition TABLES :: "u32 list list" where
  "TABLES = crc_tables_from 8 crc_table0 crc_table0"

datatype Crc32c = Crc32c (crc_state: u32)

definition Crc32c_new :: Crc32c where
  "Crc32c_new = Crc32c (NOT 0)"

text \<open>The loop bodies of \<open>update\<close>: eight bytes at a time, then the remainder byte by byte.\<close>

definition crc_fold_chunk :: "bytes \<Rightarrow> u32 \<Rightarrow> u32" where
  "crc_fold_chunk chunk crc =
     (let low = u32_of_le (sub_slice 0 4 chunk) XOR crc;
          high = u32_of_le (sub_slice 4 8 chunk)
      in TABLES ! 7 ! unat (low AND 0xFF)
         XOR TABLES ! 6 ! unat (drop_bit 8 low AND 0xFF)
         XOR TABLES ! 5 ! unat (drop_bit 16 low AND 0xFF)
         XOR TABLES ! 4 ! unat (drop_bit 24 low)
         XOR TABLES ! 3 ! unat (high AND 0xFF)
         XOR TABLES ! 2 ! unat (drop_bit 8 high AND 0xFF)
         XOR TABLES ! 1 ! unat (drop_bit 16 high AND 0xFF)
         XOR TABLES ! 0 ! unat (drop_bit 24 high))"

definition crc_fold_byte :: "u8 \<Rightarrow> u32 \<Rightarrow> u32" where
  "crc_fold_byte b crc =
     TABLES ! 0 ! unat ((crc XOR ucast b) AND 0xFF) XOR drop_bit 8 crc"

definition Crc32c_update :: "Crc32c \<Rightarrow> bytes \<Rightarrow> Crc32c" where
  "Crc32c_update st bs =
     Crc32c (fold crc_fold_byte (chunks_remainder 8 bs)
               (fold crc_fold_chunk (chunks_exact 8 bs) (crc_state st)))"

definition Crc32c_finish :: "Crc32c \<Rightarrow> u32" where
  "Crc32c_finish st = NOT (crc_state st)"

definition crc32c :: "bytes \<Rightarrow> u32" where
  "crc32c bs = Crc32c_finish (Crc32c_update Crc32c_new bs)"

section \<open>The bit-serial reference\<close>

text \<open>One byte of the textbook algorithm: xor into the low byte, then eight single-bit steps.\<close>

definition crc_step :: "u8 \<Rightarrow> u32 \<Rightarrow> u32" where
  "crc_step b crc = (crc_bit ^^ 8) (crc XOR ucast b)"

definition crc32c_ref :: "bytes \<Rightarrow> u32" where
  "crc32c_ref bs = NOT (fold crc_step bs (NOT 0))"

text \<open>The bits of a message in the order the register takes them, the low bit of a byte first.\<close>

definition message_bits :: "bytes \<Rightarrow> bool list" where
  "message_bits bs = concat (map (\<lambda>b. map (bit b) [0..<8]) bs)"

section \<open>Linearity of the shift register\<close>

lemma crc_bit_alt: "crc_bit c = drop_bit 1 c XOR (if odd c then CRC_POLY_REFLECTED else 0)"
  by (simp add: crc_bit_def and_one_eq odd_iff_mod_2_eq_one even_iff_mod_2_eq_zero)

lemma crc_bit_xor: "crc_bit (a XOR b) = crc_bit a XOR crc_bit b"
proof -
  have "odd (a XOR b) \<longleftrightarrow> odd a \<noteq> odd b"
    by (simp add: bit_0 [symmetric] bit_xor_iff)
  then show ?thesis
    by (auto simp: crc_bit_alt drop_bit_xor xor.assoc xor.left_commute xor.commute)
qed

lemma crc_bit_zero [simp]: "crc_bit 0 = 0"
  by (simp add: crc_bit_def)

lemma crc_bits_zero [simp]: "(crc_bit ^^ n) 0 = 0"
  by (induction n) auto

lemma crc_bits_xor: "(crc_bit ^^ n) (a XOR b) = (crc_bit ^^ n) a XOR (crc_bit ^^ n) b"
  by (induction n) (auto simp: crc_bit_xor)

lemma crc_bit_kernel: "crc_bit x = 0 \<Longrightarrow> x = 0"
proof -
  assume z: "crc_bit x = 0"
  have "even x"
  proof (rule ccontr)
    assume "\<not> even x"
    with z have "bit (drop_bit 1 x XOR CRC_POLY_REFLECTED) 31 = bit (0 :: u32) 31"
      by (simp add: crc_bit_alt)
    then show False
      by (simp add: bit_xor_iff bit_drop_bit_eq CRC_POLY_REFLECTED_def impossible_bit)
  qed
  with z have "drop_bit 1 x = 0" "even x" by (simp_all add: crc_bit_alt)
  then show "x = 0"
    by (metis bits_ident drop_bit_of_0 even_iff_mod_2_eq_zero push_bit_of_0 take_bit_Suc_0 take_bit_0 One_nat_def add_0 take_bit_eq_0_iff)
qed

lemma crc_bits_kernel: "(crc_bit ^^ n) x = 0 \<Longrightarrow> x = 0"
  by (induction n) (auto dest: crc_bit_kernel)

lemma crc_bits_inject: "(crc_bit ^^ n) a = (crc_bit ^^ n) b \<longleftrightarrow> a = b"
proof
  assume "(crc_bit ^^ n) a = (crc_bit ^^ n) b"
  then have "(crc_bit ^^ n) (a XOR b) = 0" by (simp add: crc_bits_xor)
  then have "a XOR b = 0" by (rule crc_bits_kernel)
  then have "(a XOR b) XOR b = b" by simp
  then show "a = b" by (simp add: xor.assoc)
qed simp

text \<open>Bits above the register's tail are only shifted.\<close>

lemma crc_bits_shift: "take_bit n x = 0 \<Longrightarrow> (crc_bit ^^ n) x = drop_bit n x"
proof (induction n)
  case 0
  then show ?case by simp
next
  case (Suc n)
  have low: "\<not> bit x i" if "i < Suc n" for i
    using Suc.prems that by (metis bit_0_eq bit_take_bit_iff bot_apply bot_bool_def)
  have "take_bit n x = 0"
    by (rule bit_word_eqI) (use low in \<open>auto simp: bit_take_bit_iff\<close>)
  with Suc.IH have "(crc_bit ^^ Suc n) x = crc_bit (drop_bit n x)" by simp
  also have "even (drop_bit n x)"
    using low [of n] by (simp add: bit_iff_odd_drop_bit)
  then have "crc_bit (drop_bit n x) = drop_bit (Suc n) x"
    by (simp add: crc_bit_alt drop_bit_drop_bit)
  finally show ?case .
qed

lemma crc_byte_shift: "(crc_bit ^^ 8) (push_bit 8 y) = take_bit 24 y"
proof -
  have "(crc_bit ^^ 8) (push_bit 8 y) = drop_bit 8 (push_bit 8 y)"
    by (rule crc_bits_shift) (simp add: take_bit_push_bit)
  also have "\<dots> = take_bit 24 y"
    by (rule bit_word_eqI) (auto simp: bit_drop_bit_eq bit_push_bit_iff bit_take_bit_iff)
  finally show ?thesis .
qed

lemma word_split_byte: "x = (x AND 0xFF) XOR push_bit 8 (drop_bit 8 x)" for x :: u32
proof -
  have m: "(0xFF :: u32) = mask 8" by (simp add: mask_eq_exp_minus_1)
  show ?thesis
    unfolding m
    by (rule bit_word_eqI)
      (auto simp: bit_xor_iff bit_and_iff bit_push_bit_iff bit_drop_bit_eq bit_mask_iff)
qed

lemma crc_byte_split:
  "(crc_bit ^^ 8) x = (crc_bit ^^ 8) (x AND 0xFF) XOR drop_bit 8 x"
proof -
  have "(crc_bit ^^ 8) x = (crc_bit ^^ 8) (x AND 0xFF) XOR take_bit 24 (drop_bit 8 x)"
    by (subst word_split_byte [of x]) (simp only: crc_bits_xor crc_byte_shift)
  moreover have "take_bit 24 (drop_bit 8 x) = drop_bit 8 x"
    by (rule bit_word_eqI) (auto simp: bit_take_bit_iff bit_drop_bit_eq dest: bit_imp_le_length)
  ultimately show ?thesis by simp
qed


section \<open>The tables\<close>

abbreviation crc_byte :: "u32 \<Rightarrow> u32" where
  "crc_byte \<equiv> crc_bit ^^ 8"

lemma crc_table0_nth: "i < 256 \<Longrightarrow> crc_table0 ! i = crc_byte (of_nat i)"
  by (simp add: crc_table0_def)

lemma unat_low_byte [simp]: "unat (x AND 0xFF :: u32) < 256"
  using word_and_le1 [of x "0xFF"] by (simp add: word_le_nat_alt)

lemma crc_table0_byte: "crc_table0 ! unat (x AND 0xFF) = crc_byte (x AND 0xFF)"
  by (simp add: crc_table0_nth)

lemma crc_next_table_step:
  assumes "\<forall>i<256. t ! i = (crc_byte ^^ k) (of_nat i)" and "length t = 256" and "i < 256"
  shows "crc_next_table crc_table0 t ! i = (crc_byte ^^ Suc k) (of_nat i)"
  using assms
  by (simp add: crc_next_table_def crc_table0_byte crc_byte_split [of "(crc_byte ^^ k) (of_nat i)"]
      xor.commute)

lemma crc_tables_from_nth:
  assumes "\<forall>i<256. t ! i = (crc_byte ^^ k) (of_nat i)" and "length t = 256"
    and "j < n" and "i < 256"
  shows "crc_tables_from n crc_table0 t ! j ! i = (crc_byte ^^ (k + j)) (of_nat i)"
  using assms
proof (induction n arbitrary: t k j)
  case 0
  then show ?case by simp
next
  case (Suc n)
  show ?case
  proof (cases j)
    case 0
    with Suc.prems show ?thesis by simp
  next
    case (Suc j')
    have "crc_tables_from n crc_table0 (crc_next_table crc_table0 t) ! j' ! i
        = (crc_byte ^^ (Suc k + j')) (of_nat i)"
    proof (rule Suc.IH)
      show "\<forall>i<256. crc_next_table crc_table0 t ! i = (crc_byte ^^ Suc k) (of_nat i)"
        using crc_next_table_step [OF Suc.prems(1,2)] by blast
    qed (use Suc.prems Suc in \<open>auto simp: crc_next_table_def\<close>)
    with Suc show ?thesis by simp
  qed
qed

text \<open>Table \<open>k\<close> advances a byte by \<open>k + 1\<close> byte positions.\<close>

lemma TABLES_nth:
  assumes "k < 8" and "unat x < 256"
  shows "TABLES ! k ! unat x = (crc_byte ^^ Suc k) x"
  using crc_tables_from_nth [of crc_table0 1 k 8 "unat x"] assms
  by (simp add: TABLES_def crc_table0_nth) (simp add: crc_table0_def)

lemma TABLES_lookups:
  assumes "unat x < 256"
  shows "TABLES ! 0 ! unat x = (crc_byte ^^ 1) x" "TABLES ! 1 ! unat x = (crc_byte ^^ 2) x"
    "TABLES ! Suc 0 ! unat x = (crc_byte ^^ 2) x"
    "TABLES ! 2 ! unat x = (crc_byte ^^ 3) x" "TABLES ! 3 ! unat x = (crc_byte ^^ 4) x"
    "TABLES ! 4 ! unat x = (crc_byte ^^ 5) x" "TABLES ! 5 ! unat x = (crc_byte ^^ 6) x"
    "TABLES ! 6 ! unat x = (crc_byte ^^ 7) x" "TABLES ! 7 ! unat x = (crc_byte ^^ 8) x"
  using TABLES_nth [OF _ assms] by (simp_all add: eval_nat_numeral del: funpow.simps)

lemma drop_24_byte: "drop_bit 24 x = drop_bit 24 x AND 0xFF" for x :: u32
proof -
  have m: "(0xFF :: u32) = mask 8" by (simp add: mask_eq_exp_minus_1)
  show ?thesis
    unfolding m
    by (rule bit_word_eqI) (auto simp: bit_and_iff bit_drop_bit_eq bit_mask_iff dest: bit_imp_le_length)
qed

section \<open>The kernel computes the bit-serial CRC\<close>

lemma crc_fold_byte_step: "crc_fold_byte b crc = crc_step b crc"
proof -
  have "drop_bit 8 (ucast b :: u32) = 0"
    by (rule bit_word_eqI) (auto simp: bit_drop_bit_eq bit_ucast_iff dest: bit_imp_le_length)
  then show ?thesis
    by (simp add: crc_fold_byte_def crc_step_def TABLES_nth drop_bit_xor
        crc_byte_split [of "crc XOR ucast b"])
qed

lemma crc_bytes_xor: "(crc_byte ^^ n) (a XOR b) = (crc_byte ^^ n) a XOR (crc_byte ^^ n) b"
  by (induction n) (auto simp: crc_bits_xor)

lemma crc_bytes_zero [simp]: "(crc_byte ^^ n) 0 = 0"
  by (induction n) auto

lemma crc_bytes_split:
  "(crc_byte ^^ Suc n) x = (crc_byte ^^ Suc n) (x AND 0xFF) XOR (crc_byte ^^ n) (drop_bit 8 x)"
proof -
  have "(crc_byte ^^ Suc n) x = (crc_byte ^^ n) (crc_byte (x AND 0xFF) XOR drop_bit 8 x)"
    unfolding funpow_Suc_right comp_apply by (subst crc_byte_split) (rule refl)
  then show ?thesis by (simp add: crc_bytes_xor funpow_swap1)
qed

text \<open>A whole word through the register, byte by byte: what four table lookups compute.\<close>

lemma crc_word_split:
  "(crc_byte ^^ (4 + n)) x =
     (crc_byte ^^ (4 + n)) (x AND 0xFF) XOR (crc_byte ^^ (3 + n)) (drop_bit 8 x AND 0xFF)
     XOR (crc_byte ^^ (2 + n)) (drop_bit 16 x AND 0xFF) XOR (crc_byte ^^ (1 + n)) (drop_bit 24 x)"
proof -
  have top: "drop_bit 32 x = 0"
    by (rule bit_word_eqI) (auto simp: bit_drop_bit_eq dest: bit_imp_le_length)
  have e: "4 + n = Suc (3 + n)" "3 + n = Suc (2 + n)" "2 + n = Suc (1 + n)" "1 + n = Suc n"
    by simp_all
  show ?thesis
    using crc_bytes_split [of "3 + n" x] crc_bytes_split [of "2 + n" "drop_bit 8 x"]
      crc_bytes_split [of "1 + n" "drop_bit 16 x"]
    by (simp only: e drop_bit_drop_bit xor.assoc) simp
qed

lemma crc_fold_chunk_word:
  assumes "length chunk = 8"
  shows "crc_fold_chunk chunk crc =
     (crc_byte ^^ 4) ((crc_byte ^^ 4) (u32_of_le (sub_slice 0 4 chunk) XOR crc)
                      XOR u32_of_le (sub_slice 4 8 chunk))"
proof -
  define low where "low = u32_of_le (sub_slice 0 4 chunk) XOR crc"
  define high where "high = u32_of_le (sub_slice 4 8 chunk)"
  have b: "unat (drop_bit 24 y) < 256" for y :: u32
    by (subst drop_24_byte) simp
  have l: "(crc_byte ^^ (4 + 4)) low =
      (crc_byte ^^ 8) (low AND 0xFF) XOR (crc_byte ^^ 7) (drop_bit 8 low AND 0xFF)
      XOR (crc_byte ^^ 6) (drop_bit 16 low AND 0xFF) XOR (crc_byte ^^ 5) (drop_bit 24 low)"
    using crc_word_split [of 4 low] by (simp del: funpow.simps)
  have h: "(crc_byte ^^ (4 + 0)) high =
      (crc_byte ^^ 4) (high AND 0xFF) XOR (crc_byte ^^ 3) (drop_bit 8 high AND 0xFF)
      XOR (crc_byte ^^ 2) (drop_bit 16 high AND 0xFF) XOR (crc_byte ^^ 1) (drop_bit 24 high)"
    using crc_word_split [of 0 high] by (simp del: funpow.simps)
  have "crc_fold_chunk chunk crc = (crc_byte ^^ (4 + 4)) low XOR (crc_byte ^^ (4 + 0)) high"
    unfolding l h
    by (simp add: crc_fold_chunk_def low_def [symmetric] high_def [symmetric] Let_def
        TABLES_lookups b xor.assoc)
  then show ?thesis
    by (simp only: low_def high_def crc_bytes_xor funpow_add comp_apply) simp
qed

lemma crc_steps_word:
  assumes "length bs \<le> 4"
  shows "fold crc_step bs s = (crc_byte ^^ length bs) (s XOR from_le bs)"
  using assms
proof (induction bs arbitrary: s)
  case Nil
  then show ?case by simp
next
  case (Cons b bs)
  have small: "take_bit 24 (from_le bs :: u32) = from_le bs"
    by (rule bit_word_eqI) (use Cons.prems in \<open>auto simp: bit_take_bit_iff bit_from_le\<close>)
  have disj: "(ucast b :: u32) OR push_bit 8 (from_le bs) = ucast b XOR push_bit 8 (from_le bs)"
    by (rule bit_word_eqI)
      (auto simp: bit_or_iff bit_xor_iff bit_push_bit_iff bit_ucast_iff dest: bit_imp_le_length)
  have "crc_byte (s XOR from_le (b # bs)) = crc_step b s XOR from_le bs"
    by (simp add: disj crc_step_def crc_bits_xor crc_byte_shift small xor.assoc [symmetric])
  with Cons show ?case
    by (simp add: funpow_swap1 del: from_le.simps)
qed

lemma crc_fold_chunk_steps:
  assumes "length chunk = 8"
  shows "crc_fold_chunk chunk crc = fold crc_step chunk crc"
proof -
  have sp: "chunk = sub_slice 0 4 chunk @ sub_slice 4 8 chunk"
    using assms by (simp add: sub_slice_def)
  have len: "length (sub_slice 0 4 chunk) = 4" "length (sub_slice 4 8 chunk) = 4"
    using assms by simp_all
  have "fold crc_step chunk crc = fold crc_step (sub_slice 4 8 chunk) (fold crc_step (sub_slice 0 4 chunk) crc)"
    by (subst (1) sp) simp
  also have "\<dots> = crc_fold_chunk chunk crc"
    by (simp add: crc_steps_word len crc_fold_chunk_word [OF assms] xor.commute del: funpow.simps)
  finally show ?thesis by simp
qed

text \<open>The table-driven update is the bit-serial fold.\<close>

lemma Crc32c_update_ref: "Crc32c_update st bs = Crc32c (fold crc_step bs (crc_state st))"
proof -
  have "crc_fold_byte = crc_step" by (simp add: fun_eq_iff crc_fold_byte_step)
  then show ?thesis
    by (simp add: Crc32c_update_def chunks_exact_fold crc_fold_chunk_steps)
qed

lemma crc32c_is_ref: "crc32c bs = crc32c_ref bs"
  by (simp add: crc32c_def crc32c_ref_def Crc32c_new_def Crc32c_finish_def Crc32c_update_ref)

section \<open>Properties\<close>

text \<open>
  C39. The slice-by-8 kernel returns, for every input, exactly the bit-serial CRC32C: the table
  construction and the eight-bytes-per-iteration loop change the cost and not the value.
\<close>

theorem crc32c_slice_by_8: "crc32c bs = crc32c_ref bs"
  by (rule crc32c_is_ref)

text \<open>
  Incremental use: folding pieces one after the other gives the state, and hence the CRC, of
  their concatenation, so a frame in discontiguous pieces can be checksummed without copying.
\<close>

theorem Crc32c_incremental:
  "Crc32c_update (Crc32c_update st xs) ys = Crc32c_update st (xs @ ys) \<and>
   Crc32c_finish (Crc32c_update (Crc32c_update Crc32c_new xs) ys) = crc32c (xs @ ys)"
  by (simp add: Crc32c_update_ref crc32c_def)

lemma xor_cancel_right: "a XOR c = b XOR c \<longleftrightarrow> a = b" for a b c :: "'a::len word"
proof
  assume "a XOR c = b XOR c"
  then have "(a XOR c) XOR c = (b XOR c) XOR c" by (rule arg_cong)
  then show "a = b" by (simp add: xor.assoc)
qed simp

lemma xor_cancel_left: "c XOR a = c XOR b \<longleftrightarrow> a = b" for a b c :: "'a::len word"
  using xor_cancel_right [of a c b] by (simp add: xor.commute)

text \<open>The register fed bit by bit.\<close>

abbreviation crc_stream :: "bool list \<Rightarrow> u32 \<Rightarrow> u32" where
  "crc_stream \<equiv> fold (\<lambda>b s. crc_bit (s XOR of_bool b))"

lemma crc_bit_stream:
  assumes "length bs \<le> 32"
  shows "crc_stream bs s = (crc_bit ^^ length bs) (s XOR horner_sum of_bool 2 bs)"
  using assms
proof (induction bs arbitrary: s)
  case (Cons b bs)
  let ?h = "horner_sum of_bool 2 bs :: u32"
  have split: "(horner_sum of_bool 2 (b # bs) :: u32) = of_bool b XOR push_bit 1 ?h"
    by (rule bit_word_eqI) (auto simp: bit_simps even_bit_succ_iff push_bit_eq_mult ac_simps)
  have "drop_bit 1 (push_bit 1 ?h) = ?h"
  proof (rule bit_word_eqI)
    fix n
    show "bit (drop_bit 1 (push_bit 1 ?h)) n \<longleftrightarrow> bit ?h n"
      using Cons.prems by (simp only: bit_drop_bit_eq comp_apply bit_push_bit_iff bit_horner_sum_bit_word_iff) auto
  qed
  then have "crc_bit (push_bit 1 ?h) = ?h" by (simp add: crc_bit_alt)
  then have "crc_bit (s XOR horner_sum of_bool 2 (b # bs)) = crc_bit (s XOR of_bool b) XOR ?h"
    by (simp only: split crc_bit_xor xor.assoc)
  with Cons show ?case by (simp add: funpow_swap1 del: horner_sum_simps)
qed simp

lemma crc_step_stream: "crc_step b s = crc_stream (map (bit b) [0..<8]) s"
proof -
  have "horner_sum of_bool 2 (map (bit b) [0..<8]) = (ucast b :: u32)"
  proof (rule bit_word_eqI)
    fix n
    have "bit b n \<Longrightarrow> n < 8" using bit_imp_le_length [of b n] by simp
    then show "bit (horner_sum of_bool 2 (map (bit b) [0..<8]) :: u32) n \<longleftrightarrow> bit (ucast b :: u32) n"
      by (cases "n < 8") (auto simp: bit_simps)
  qed
  then show ?thesis using crc_bit_stream [of "map (bit b) [0..<8]" s] by (simp add: crc_step_def)
qed

lemma crc_steps_stream: "fold crc_step bs s = crc_stream (message_bits bs) s"
  by (induction bs arbitrary: s) (simp_all add: message_bits_def crc_step_stream)

lemma bit_stream_inject:
  "crc_stream bs s = crc_stream bs t \<longleftrightarrow> s = t"
  using crc_bits_inject [of 1] by (induction bs arbitrary: s t) (auto simp: xor_cancel_right)

text \<open>
  C40. Burst detection: if two messages, read as bits in the order the reflected register takes them (the
  low bit of each byte first), agree outside a window of at most 32 consecutive bits, anywhere in the
  message and across byte borders, then they have the same CRC32C only if they agree inside it too.
\<close>

theorem crc32c_detects_burst:
  assumes "message_bits xs = p @ m @ q" "message_bits ys = p @ m' @ q" "length m = length m'" "length m' \<le> 32"
  shows "crc32c xs = crc32c ys \<longleftrightarrow> m = m'"
proof
  assume "crc32c xs = crc32c ys"
  then have "(horner_sum of_bool 2 m :: u32) = horner_sum of_bool 2 m'"
    using assms by (simp add: crc32c_is_ref crc32c_ref_def crc_steps_stream bit_stream_inject crc_bit_stream crc_bits_inject xor_cancel_left)
  then have "bit (horner_sum of_bool 2 m :: u32) i = bit (horner_sum of_bool 2 m' :: u32) i" for i by simp
  then show "m = m'" using assms(3,4) by (auto simp: bit_horner_sum_bit_word_iff list_eq_iff_nth_eq min_def split: if_splits)
qed (use assms in \<open>simp add: crc32c_is_ref crc32c_ref_def crc_steps_stream\<close>)

theorem crc32c_detects_burst_witness:
  "crc32c [1, 0x0F, 3, 4, 5, 0xF0] \<noteq> crc32c [1, 0xFF, 0xFC, 0xFB, 0xFA, 0xFF]"
proof -
  let ?x = "message_bits [1, 0x0F, 3, 4, 5, 0xF0]" and ?y = "message_bits [1, 0xFF, 0xFC, 0xFB, 0xFA, 0xFF]"
  have "?x = take 12 ?x @ take 32 (drop 12 ?x) @ drop 44 ?x" "?y = take 12 ?x @ take 32 (drop 12 ?y) @ drop 44 ?x"
    "length (take 32 (drop 12 ?x)) = 32" "length (take 32 (drop 12 ?y)) = 32" "take 32 (drop 12 ?x) \<noteq> take 32 (drop 12 ?y)"
    by (simp_all add: message_bits_def upt_rec numeral_eq_Suc bit_simps)
  then show ?thesis using crc32c_detects_burst [of _ "take 12 ?x" "take 32 (drop 12 ?x)" "drop 44 ?x" _ "take 32 (drop 12 ?y)"] by simp
qed

end
