(* ===== verification/Backend.thy ===== *)
theory Backend
  imports Stele_Prelude "HOL-Library.Sublist"
begin

text \<open>
  The storage backend seam (\<open>crates/stele-storage/src/backend\<close>): the flat namespace rule of
  \<open>mod.rs\<close> and the heap-backed \<open>MemDisk\<close> of \<open>memory.rs\<close> with its deterministic fault schedule.
  A \<open>MemDisk\<close> is a name table over an explicit store of file bodies: a handle (\<open>MemFile\<close>) is an
  index into the store, so handles opened on one name alias, and a handle outlives the removal of
  its name, as the shared \<open>Arc\<close> does. Each operation is a state transformer returning
  \<open>io::Result\<close>; since the fault schedule is arbitrary, what is proved of a client holds for every
  pattern of I/O failures. The text of an error message is kept up to the data it interpolates.
\<close>

section \<open>I/O errors and file names\<close>

datatype error_kind =
    NotFound | PermissionDenied | AlreadyExists | InvalidInput | InvalidData
  | UnexpectedEof | WriteZero | Interrupted | StorageFull | OtherKind

datatype io_error = IoError (io_kind: error_kind) (io_msg: string)

text \<open>\<open>Path::components\<close> on a Unix path, as the standard library documents it.\<close>

datatype component = RootDir | CurDir | ParentDir | Normal string

fun split_on :: "char \<Rightarrow> string \<Rightarrow> string list" where
  "split_on c [] = [[]]"
| "split_on c (x # xs) =
     (if x = c then [] # split_on c xs
      else (case split_on c xs of [] \<Rightarrow> [[x]] | p # ps \<Rightarrow> (x # p) # ps))"

definition component_of :: "string \<Rightarrow> component" where
  "component_of p = (if p = ''..'' then ParentDir else Normal p)"

definition path_components :: "string \<Rightarrow> component list" where
  "path_components name =
     (let parts = split_on (CHR ''/'') name;
          front = (if take 1 name = ''/'' then [RootDir]
                   else if take 1 parts = [''.''] then [CurDir] else [])
      in front @ map component_of (filter (\<lambda>p. p \<noteq> [] \<and> p \<noteq> ''.'') parts))"

definition validate_name :: "string \<Rightarrow> io_error + unit" where
  "validate_name name =
     (case path_components name of
        [Normal _] \<Rightarrow> Inr ()
      | _ \<Rightarrow> Inl (IoError InvalidInput ''invalid backend file name''))"

section \<open>The fault schedule\<close>

datatype fault_op = Create | Open | Append | ReadAt | Sync | List | Remove | SyncDir

record fault =
  f_op :: fault_op
  f_kind :: error_kind
  torn_prefix :: nat

type_synonym faults = "fault list"

definition faults_schedule :: "fault_op \<Rightarrow> error_kind \<Rightarrow> faults \<Rightarrow> faults" where
  "faults_schedule op kind q = q @ [\<lparr>f_op = op, f_kind = kind, torn_prefix = 0\<rparr>]"

definition faults_schedule_torn_append :: "error_kind \<Rightarrow> nat \<Rightarrow> faults \<Rightarrow> faults" where
  "faults_schedule_torn_append kind prefix_len q =
     q @ [\<lparr>f_op = Append, f_kind = kind, torn_prefix = prefix_len\<rparr>]"

definition faults_pending :: "faults \<Rightarrow> nat" where
  "faults_pending q = length q"

definition faults_take :: "fault_op \<Rightarrow> faults \<Rightarrow> fault option \<times> faults" where
  "faults_take op q =
     (case q of [] \<Rightarrow> (None, [])
      | f # rest \<Rightarrow> if f_op f = op then (Some f, rest) else (None, q))"

definition injected :: "fault \<Rightarrow> io_error" where
  "injected f = IoError (f_kind f) ''stele-sim: injected fault''"

definition faults_check :: "fault_op \<Rightarrow> faults \<Rightarrow> (io_error + unit) \<times> faults" where
  "faults_check op q =
     (case faults_take op q of
        (None, q') \<Rightarrow> (Inr (), q')
      | (Some f, q') \<Rightarrow> (Inl (injected f), q'))"

section \<open>MemDisk\<close>

type_synonym file_id = nat

record mem_disk =
  md_names :: "(string \<times> file_id) list"
  md_store :: "bytes list"
  md_faults :: faults

definition MemDisk_new :: mem_disk where
  "MemDisk_new = \<lparr>md_names = [], md_store = [], md_faults = []\<rparr>"

definition MemDisk_with_faults :: "faults \<Rightarrow> mem_disk" where
  "MemDisk_with_faults q = \<lparr>md_names = [], md_store = [], md_faults = q\<rparr>"

definition disk_check :: "fault_op \<Rightarrow> mem_disk \<Rightarrow> (io_error + unit) \<times> mem_disk" where
  "disk_check op d =
     (case faults_check op (md_faults d) of (r, q) \<Rightarrow> (r, d\<lparr>md_faults := q\<rparr>))"

definition disk_create :: "string \<Rightarrow> mem_disk \<Rightarrow> (io_error + file_id) \<times> mem_disk" where
  "disk_create name d =
     (case validate_name name of
        Inl e \<Rightarrow> (Inl e, d)
      | Inr _ \<Rightarrow>
          (case disk_check Create d of
             (Inl e, d') \<Rightarrow> (Inl e, d')
           | (Inr _, d') \<Rightarrow>
               if map_of (md_names d') name \<noteq> None
               then (Inl (IoError AlreadyExists ''already exists''), d')
               else (Inr (length (md_store d')),
                     d'\<lparr>md_names := (name, length (md_store d')) # md_names d',
                        md_store := md_store d' @ [[]]\<rparr>)))"

definition disk_open :: "string \<Rightarrow> mem_disk \<Rightarrow> (io_error + file_id) \<times> mem_disk" where
  "disk_open name d =
     (case validate_name name of
        Inl e \<Rightarrow> (Inl e, d)
      | Inr _ \<Rightarrow>
          (case disk_check Open d of
             (Inl e, d') \<Rightarrow> (Inl e, d')
           | (Inr _, d') \<Rightarrow>
               (case map_of (md_names d') name of
                  None \<Rightarrow> (Inl (IoError NotFound name), d')
                | Some f \<Rightarrow> (Inr f, d'))))"

definition disk_list :: "mem_disk \<Rightarrow> (io_error + string list) \<times> mem_disk" where
  "disk_list d =
     (case disk_check List d of
        (Inl e, d') \<Rightarrow> (Inl e, d')
      | (Inr _, d') \<Rightarrow> (Inr (map fst (md_names d')), d'))"

definition disk_remove :: "string \<Rightarrow> mem_disk \<Rightarrow> (io_error + unit) \<times> mem_disk" where
  "disk_remove name d =
     (case validate_name name of
        Inl e \<Rightarrow> (Inl e, d)
      | Inr _ \<Rightarrow>
          (case disk_check Remove d of
             (Inl e, d') \<Rightarrow> (Inl e, d')
           | (Inr _, d') \<Rightarrow>
               if map_of (md_names d') name = None then (Inl (IoError NotFound name), d')
               else (Inr (), d'\<lparr>md_names := filter (\<lambda>e. fst e \<noteq> name) (md_names d')\<rparr>)))"

definition disk_sync_dir :: "mem_disk \<Rightarrow> (io_error + unit) \<times> mem_disk" where
  "disk_sync_dir d = disk_check SyncDir d"

definition file_append :: "file_id \<Rightarrow> bytes \<Rightarrow> mem_disk \<Rightarrow> (io_error + unit) \<times> mem_disk" where
  "file_append f bs d =
     (case faults_take Append (md_faults d) of
        (Some fault, q) \<Rightarrow>
          (let landed = min (torn_prefix fault) (length bs)
           in (Inl (injected fault),
               d\<lparr>md_faults := q,
                 md_store := (if 0 < landed
                              then (md_store d)[f := md_store d ! f @ take landed bs]
                              else md_store d)\<rparr>))
      | (None, q) \<Rightarrow>
          (Inr (), d\<lparr>md_faults := q, md_store := (md_store d)[f := md_store d ! f @ bs]\<rparr>))"

text \<open>\<open>read_at(offset, buf)\<close> returns the bytes copied into the \<open>n\<close>-byte buffer.\<close>

definition file_read_at :: "file_id \<Rightarrow> nat \<Rightarrow> nat \<Rightarrow> mem_disk \<Rightarrow> (io_error + bytes) \<times> mem_disk" where
  "file_read_at f start n d =
     (case disk_check ReadAt d of
        (Inl e, d') \<Rightarrow> (Inl e, d')
      | (Inr _, d') \<Rightarrow>
          (let src = md_store d' ! f
           in if length src \<le> start then (Inr [], d')
              else let stop = min (start + n) (length src)
                   in (Inr (sub_slice start stop src), d')))"

definition file_sync :: "file_id \<Rightarrow> mem_disk \<Rightarrow> (io_error + unit) \<times> mem_disk" where
  "file_sync f d = disk_check Sync d"

definition file_len :: "mem_disk \<Rightarrow> file_id \<Rightarrow> nat" where
  "file_len d f = length (md_store d ! f)"

section \<open>The append-only contract\<close>

text \<open>
  What a client may rely on, as the trait's documentation states it: a successful append extends
  the file by exactly its bytes, a failed one by some prefix of them, and no operation changes
  bytes already written, to this file or to any other.
\<close>

locale append_only_file =
  fixes content :: "'d \<Rightarrow> 'f \<Rightarrow> bytes"
    and append :: "'f \<Rightarrow> bytes \<Rightarrow> 'd \<Rightarrow> (io_error + unit) \<times> 'd"
    and is_file :: "'d \<Rightarrow> 'f \<Rightarrow> bool"
  assumes append_ok:
      "is_file d f \<Longrightarrow> append f bs d = (Inr (), d') \<Longrightarrow> content d' f = content d f @ bs"
    and append_err:
      "is_file d f \<Longrightarrow> append f bs d = (Inl e, d') \<Longrightarrow> \<exists>k\<le>length bs. content d' f = content d f @ take k bs"
    and append_other: "f \<noteq> g \<Longrightarrow> content (snd (append f bs d)) g = content d g"
    and append_is_file: "is_file (snd (append f bs d)) g = is_file d g"
begin

fun append_all :: "('f \<times> bytes) list \<Rightarrow> 'd \<Rightarrow> 'd" where
  "append_all [] d = d"
| "append_all ((f, bs) # ops) d = append_all ops (snd (append f bs d))"

lemma append_prefix:
  assumes "is_file d g"
  shows "prefix (content d g) (content (snd (append f bs d)) g)"
proof (cases "f = g")
  case True
  obtain r d' where ap: "append f bs d = (r, d')" by (cases "append f bs d")
  show ?thesis
  proof (cases r)
    case (Inl e)
    with ap True assms append_err [of d g bs e d'] show ?thesis by (auto simp: prefix_def)
  next
    case (Inr u)
    with ap True assms append_ok [of d g bs d'] show ?thesis by (auto simp: prefix_def)
  qed
next
  case False
  then show ?thesis by (simp add: append_other)
qed

text \<open>However many appends run, and whichever fail, bytes once written stay.\<close>

lemma append_all_prefix:
  "is_file d g \<Longrightarrow> prefix (content d g) (content (append_all ops d) g)"
proof (induction ops d rule: append_all.induct)
  case (1 d)
  then show ?case by simp
next
  case (2 f bs ops d)
  then show ?case
    using append_prefix [of d g f bs] append_is_file [of f bs d g] prefix_order.trans by simp
qed

end

definition disk_content :: "mem_disk \<Rightarrow> file_id \<Rightarrow> bytes" where
  "disk_content d f = md_store d ! f"

definition disk_has :: "mem_disk \<Rightarrow> file_id \<Rightarrow> bool" where
  "disk_has d f \<longleftrightarrow> f < length (md_store d)"

subsection \<open>Frame lemmas\<close>

lemma disk_check_fields [simp]:
  "md_names (snd (disk_check op d)) = md_names d"
  "md_store (snd (disk_check op d)) = md_store d"
  by (simp_all add: disk_check_def split: prod.splits)

lemma faultless_check: "md_faults d = [] \<Longrightarrow> disk_check op d = (Inr (), d)"
  by (simp add: disk_check_def faults_check_def faults_take_def)

lemma disk_check_fields_eq:
  assumes "disk_check op d = (r, d')"
  shows "md_names d' = md_names d" "md_store d' = md_store d"
  using assms disk_check_fields [of op d] by simp_all

lemma disk_sync_fields:
  "file_sync f d = (r, d') \<Longrightarrow> md_names d' = md_names d \<and> md_store d' = md_store d"
  "disk_sync_dir d = (r, d') \<Longrightarrow> md_names d' = md_names d \<and> md_store d' = md_store d"
  by (auto simp: file_sync_def disk_sync_dir_def dest: disk_check_fields_eq)

lemma file_append_fields:
  assumes "file_append f bs d = (r, d')"
  shows "md_names d' = md_names d" and "length (md_store d') = length (md_store d)"
  using assms by (auto simp: file_append_def Let_def split: prod.splits option.splits)

interpretation mem_file: append_only_file disk_content file_append disk_has
proof
  fix d f bs d' assume "disk_has d f" "file_append f bs d = (Inr (), d')"
  then show "disk_content d' f = disk_content d f @ bs"
    by (auto simp: file_append_def disk_content_def disk_has_def Let_def
        split: prod.splits option.splits)
next
  fix d f bs e d' assume "disk_has d f" "file_append f bs d = (Inl e, d')"
  then obtain fault q where "faults_take Append (md_faults d) = (Some fault, q)"
    and "disk_content d' f = disk_content d f @ take (min (torn_prefix fault) (length bs)) bs"
    by (auto simp: file_append_def disk_content_def disk_has_def Let_def
        split: prod.splits option.splits if_splits)
  then show "\<exists>k\<le>length bs. disk_content d' f = disk_content d f @ take k bs"
    by (intro exI [of _ "min (torn_prefix fault) (length bs)"]) simp
next
  fix f g :: file_id and bs d assume "f \<noteq> g"
  then show "disk_content (snd (file_append f bs d)) g = disk_content d g"
    by (auto simp: file_append_def disk_content_def Let_def split: prod.splits option.splits)
next
  fix f g :: file_id and bs d
  show "disk_has (snd (file_append f bs d)) g = disk_has d g"
    by (auto simp: file_append_def disk_has_def Let_def split: prod.splits option.splits)
qed

lemma split_on_none: "c \<notin> set s \<Longrightarrow> split_on c s = [s]"
  by (induction s) auto

text \<open>
  The name check is weaker than the flat-namespace rule it documents: \<open>Path::components\<close> drops a
  trailing separator and a trailing dot component, so such a name passes as the component before.
\<close>

lemma validate_name_trailing_slash:
  "validate_name ''a/'' = Inr ()" "validate_name ''a/.'' = Inr ()" "validate_name ''a/b'' \<noteq> Inr ()"
  by code_simp+

end
