(* ===== verification/File_Names.thy ===== *)
theory File_Names
  imports Stele_Prelude
begin

text \<open>
  The numbered file names of the engine: \<open>format!("{prefix}{index:020}{suffix}")\<close> and the parsers
  that read an index back (\<open>wal/segment.rs\<close>, \<open>delta/spill.rs\<close>, \<open>validity/spill.rs\<close>), over the
  standard library's \<open>strip_prefix\<close>, \<open>strip_suffix\<close>, zero-padded decimal formatting and
  \<open>str::parse::<u64>\<close> (an optional leading \<open>+\<close>, at least one digit, no overflow).
\<close>

section \<open>Decimal text\<close>

definition digit_char :: "nat \<Rightarrow> char" where
  "digit_char d = char_of (48 + d)"

definition digit_value :: "char \<Rightarrow> nat" where
  "digit_value c = of_char c - 48"

definition is_digit :: "char \<Rightarrow> bool" where
  "is_digit c \<longleftrightarrow> 48 \<le> (of_char c :: nat) \<and> (of_char c :: nat) \<le> 57"

fun dec_digits :: "nat \<Rightarrow> string" where
  "dec_digits n =
     (if n < 10 then [digit_char n] else dec_digits (n div 10) @ [digit_char (n mod 10)])"

declare dec_digits.simps [simp del]

text \<open>The format specifier \<open>{:0w$}\<close>.\<close>

definition pad_zeros :: "nat \<Rightarrow> string \<Rightarrow> string" where
  "pad_zeros w s = replicate (w - length s) (CHR ''0'') @ s"

definition dec_value :: "string \<Rightarrow> nat" where
  "dec_value s = foldl (\<lambda>acc c. 10 * acc + digit_value c) 0 s"

definition parse_u64 :: "string \<Rightarrow> nat option" where
  "parse_u64 s =
     (let ds = (if take 1 s = ''+'' then drop 1 s else s)
      in if ds = [] \<or> \<not> list_all is_digit ds then None
         else if dec_value ds < 2 ^ 64 then Some (dec_value ds) else None)"

definition strip_prefix :: "string \<Rightarrow> string \<Rightarrow> string option" where
  "strip_prefix p s = (if take (length p) s = p then Some (drop (length p) s) else None)"

definition strip_suffix :: "string \<Rightarrow> string \<Rightarrow> string option" where
  "strip_suffix q s =
     (if length q \<le> length s \<and> drop (length s - length q) s = q
      then Some (take (length s - length q) s) else None)"

section \<open>The three naming schemes\<close>

definition WAL_INDEX_WIDTH :: nat where
  "WAL_INDEX_WIDTH = 20"

definition wal_name_for :: "nat \<Rightarrow> string" where
  "wal_name_for index = ''wal-'' @ pad_zeros WAL_INDEX_WIDTH (dec_digits index) @ ''.log''"

definition wal_index_of :: "string \<Rightarrow> nat option" where
  "wal_index_of name =
     Option.bind (strip_prefix ''wal-'' name) (\<lambda>rest.
     Option.bind (strip_suffix ''.log'' rest) (\<lambda>stem.
       if length stem \<noteq> WAL_INDEX_WIDTH then None else parse_u64 stem))"

definition delta_spill_name :: "nat \<Rightarrow> string" where
  "delta_spill_name index = ''delta-spill-'' @ pad_zeros 20 (dec_digits index) @ ''.row''"

definition delta_spill_index_of :: "string \<Rightarrow> nat option" where
  "delta_spill_index_of name =
     Option.bind (strip_prefix ''delta-spill-'' name) (\<lambda>stem.
     Option.bind (strip_suffix ''.row'' stem) parse_u64)"

definition validity_spill_name :: "nat \<Rightarrow> string" where
  "validity_spill_name index = ''validity-spill-'' @ pad_zeros 20 (dec_digits index) @ ''.row''"

definition validity_spill_index_of :: "string \<Rightarrow> nat option" where
  "validity_spill_index_of name =
     Option.bind (strip_prefix ''validity-spill-'' name) (\<lambda>stem.
     Option.bind (strip_suffix ''.row'' stem) parse_u64)"

section \<open>Formatting and parsing are inverse\<close>

lemma digit_char_simps [simp]:
  "d < 10 \<Longrightarrow> digit_value (digit_char d) = d" "d < 10 \<Longrightarrow> is_digit (digit_char d)"
  by (auto simp: digit_value_def digit_char_def is_digit_def)

lemma digit_zero: "digit_value (CHR ''0'') = 0" "is_digit (CHR ''0'')"
  by (simp_all add: digit_value_def is_digit_def)

lemma dec_value_snoc: "dec_value (s @ [c]) = 10 * dec_value s + digit_value c"
  by (simp add: dec_value_def)

lemma dec_value_zeros: "dec_value (replicate k (CHR ''0'') @ s) = dec_value s"
  by (induction k) (simp_all add: dec_value_def digit_zero)

lemma dec_digits_props:
  "dec_value (dec_digits n) = n \<and> list_all is_digit (dec_digits n) \<and> dec_digits n \<noteq> []"
proof (induction n rule: dec_digits.induct)
  case (1 n)
  show ?case
  proof (cases "n < 10")
    case True
    then show ?thesis by (simp add: dec_digits.simps [of n] dec_value_def)
  next
    case False
    with 1 show ?thesis by (simp add: dec_digits.simps [of n] dec_value_snoc)
  qed
qed

lemma dec_digits_length: "n < 10 ^ k \<Longrightarrow> 0 < k \<Longrightarrow> length (dec_digits n) \<le> k"
proof (induction n arbitrary: k rule: dec_digits.induct)
  case (1 n)
  show ?case
  proof (cases "n < 10")
    case True
    with 1 show ?thesis by (simp add: dec_digits.simps [of n])
  next
    case False
    obtain j where k: "k = Suc j" using 1 by (cases k) auto
    with False 1 have "0 < j" by (cases j) auto
    note j = k this
    with 1 have "n div 10 < 10 ^ j" by (simp add: less_mult_imp_div_less mult.commute)
    with 1 False j show ?thesis by (simp add: dec_digits.simps [of n])
  qed
qed

lemma padded_length: "n < 2 ^ 64 \<Longrightarrow> length (pad_zeros 20 (dec_digits n)) = 20"
  using dec_digits_length [of n 20] by (simp add: pad_zeros_def)

lemma digit_not_plus: "is_digit c \<Longrightarrow> c \<noteq> CHR ''+''"
  by (auto simp: is_digit_def)

lemma parse_padded:
  assumes "n < 2 ^ 64"
  shows "parse_u64 (pad_zeros w (dec_digits n)) = Some n"
proof -
  let ?s = "pad_zeros w (dec_digits n)"
  have digits: "list_all is_digit ?s" "?s \<noteq> []" "dec_value ?s = n"
    using dec_digits_props [of n]
    by (auto simp: pad_zeros_def list_all_iff dec_value_zeros digit_zero)
  then have "take 1 ?s \<noteq> ''+''"
    by (cases ?s) (auto dest: digit_not_plus)
  with digits assms show ?thesis by (simp add: parse_u64_def)
qed

lemma strip_simps [simp]:
  "strip_prefix p (p @ s) = Some s" "strip_suffix q (s @ q) = Some s"
  by (simp_all add: strip_prefix_def strip_suffix_def)

lemma wal_name_roundtrip: "n < 2 ^ 64 \<Longrightarrow> wal_index_of (wal_name_for n) = Some n"
  using parse_padded [of n 20] padded_length [of n] strip_simps(1) [of "''wal-''"]
  by (simp only: wal_index_of_def wal_name_for_def WAL_INDEX_WIDTH_def
      strip_simps bind.simps if_True if_False not_True_eq_False simp_thms)

text \<open>
  Segment and spill file names round-trip: for every index a \<open>u64\<close> can hold, parsing the name
  built for it gives the index back, for the WAL and for both spill schemes.
\<close>

theorem file_names_roundtrip:
  assumes "n < 2 ^ 64"
  shows "wal_index_of (wal_name_for n) = Some n \<and>
    delta_spill_index_of (delta_spill_name n) = Some n \<and>
    validity_spill_index_of (validity_spill_name n) = Some n"
  using parse_padded [OF assms] padded_length [OF assms]
    strip_simps(1) [of "''wal-''"] strip_simps(1) [of "''delta-spill-''"]
    strip_simps(1) [of "''validity-spill-''"]
  by (simp only: wal_index_of_def wal_name_for_def delta_spill_index_of_def
      delta_spill_name_def validity_spill_index_of_def validity_spill_name_def WAL_INDEX_WIDTH_def
      strip_simps bind.simps if_True if_False not_True_eq_False simp_thms)

theorem file_names_roundtrip_witness:
  "wal_index_of (wal_name_for 7) = Some 7 \<and> delta_spill_index_of (delta_spill_name 8) = Some 8 \<and>
   validity_spill_index_of (validity_spill_name 9) = Some 9"
  using file_names_roundtrip [of 7] file_names_roundtrip [of 8] file_names_roundtrip [of 9] by simp

text \<open>
  The parser is more liberal than the formatter: \<open>str::parse\<close> takes a leading plus sign, so a name
  no formatter produces is accepted and aliases the segment of the same number.
\<close>

lemma wal_index_of_plus:
  "wal_index_of ''wal-+0000000000000000005.log'' = Some 5"
  "wal_name_for 5 \<noteq> ''wal-+0000000000000000005.log''"
proof -
  show "wal_index_of ''wal-+0000000000000000005.log'' = Some 5"
    by (simp add: wal_index_of_def strip_prefix_def strip_suffix_def parse_u64_def
        WAL_INDEX_WIDTH_def is_digit_def dec_value_def digit_value_def)
  have "wal_name_for 5 ! 4 = CHR ''0''"
    by (simp add: wal_name_for_def WAL_INDEX_WIDTH_def pad_zeros_def dec_digits.simps nth_append)
  then show "wal_name_for 5 \<noteq> ''wal-+0000000000000000005.log''" by auto
qed

end
