(* ===== verification/Wal.thy ===== *)
theory Wal
  imports Checksum Backend File_Names "HOL-Library.Multiset"
begin

text \<open>
  The write-ahead log (\<open>crates/stele-storage/src/wal\<close>): record framing (\<open>record.rs\<close>), append, group
  commit, rotation and poisoning (\<open>log.rs\<close>). \<open>wal\<close> is the \<open>Inner\<close> state behind the handle's mutex;
  an operation returns its result, the new state and the wakers it fires once the lock is
  released, a waker being the number of the task it wakes. The metric registry, which no
  decision reads, is left out.
\<close>

section \<open>Record framing\<close>

definition HEADER_LEN :: nat where "HEADER_LEN = 8"

definition MAX_PAYLOAD_LEN :: nat where "MAX_PAYLOAD_LEN = 16 * 1024 * 1024"

record header =
  h_len :: u32
  h_crc :: u32

text \<open>The \<open>expect\<close> on the length cannot fire: \<open>Wal::append\<close> bounds the payload first.\<close>

definition record_encode :: "bytes \<Rightarrow> bytes \<Rightarrow> bytes" where
  "record_encode payload out =
     out @ u32_le (of_nat (length payload)) @ u32_le (crc32c payload) @ payload"

definition parse_header :: "bytes \<Rightarrow> header option" where
  "parse_header buf =
     (if length buf < HEADER_LEN then None
      else Some \<lparr>h_len = u32_of_le (sub_slice 0 4 buf), h_crc = u32_of_le (sub_slice 4 8 buf)\<rparr>)"

definition record_verify :: "header \<Rightarrow> bytes \<Rightarrow> bool" where
  "record_verify h payload \<longleftrightarrow> unat (h_len h) = length payload \<and> crc32c payload = h_crc h"

section \<open>The log state\<close>

datatype log_offset = LogOffset (segment_index: nat) (byte_offset: nat)

instantiation log_offset :: linorder
begin

definition less_eq_log_offset :: "log_offset \<Rightarrow> log_offset \<Rightarrow> bool" where
  "less_eq_log_offset a b \<longleftrightarrow>
     segment_index a < segment_index b \<or>
     segment_index a = segment_index b \<and> byte_offset a \<le> byte_offset b"

definition less_log_offset :: "log_offset \<Rightarrow> log_offset \<Rightarrow> bool" where
  "less_log_offset a b \<longleftrightarrow>
     segment_index a < segment_index b \<or>
     segment_index a = segment_index b \<and> byte_offset a < byte_offset b"

instance
  by standard (auto simp: less_eq_log_offset_def less_log_offset_def log_offset.expand)

end

definition LogOffset_ZERO :: log_offset where "LogOffset_ZERO = LogOffset 0 0"

text \<open>\<open>Checkpoint::BEGIN\<close>: a checkpoint is the offset it wraps.\<close>

definition Checkpoint_BEGIN :: log_offset where "Checkpoint_BEGIN = LogOffset_ZERO"

datatype wal_error = PayloadTooLarge nat | WalIo io_error | Poisoned

type_synonym waker = nat

record waiter =
  w_target :: log_offset
  w_wakers :: "waker list"

record wal =
  w_disk :: mem_disk
  segment_size_bytes :: nat
  current_segment_index :: nat
  w_current :: file_id
  staged_end :: log_offset
  durable_end :: log_offset
  w_waiters :: "waiter list"
  w_poisoned :: bool

section \<open>Opening\<close>

definition list_segments :: "mem_disk \<Rightarrow> (io_error + nat list) \<times> mem_disk" where
  "list_segments d =
     (case disk_list d of
        (Inl e, d') \<Rightarrow> (Inl e, d')
      | (Inr names, d') \<Rightarrow> (Inr (sort (List.map_filter wal_index_of names)), d'))"

definition wal_open_current :: "nat list \<Rightarrow> mem_disk \<Rightarrow> (io_error + nat \<times> file_id) \<times> mem_disk" where
  "wal_open_current segments d =
     (if segments \<noteq> []
      then (case disk_open (wal_name_for (last segments)) d of
              (Inl e, d') \<Rightarrow> (Inl e, d') | (Inr f, d') \<Rightarrow> (Inr (last segments, f), d'))
      else (case disk_create (wal_name_for 0) d of
              (Inl e, d') \<Rightarrow> (Inl e, d') | (Inr f, d') \<Rightarrow> (Inr (0, f), d')))"

definition wal_open :: "mem_disk \<Rightarrow> nat \<Rightarrow> (wal_error + wal) \<times> mem_disk" where
  "wal_open d seg_size =
     (case list_segments d of
        (Inl e, d1) \<Rightarrow> (Inl (WalIo e), d1)
      | (Inr segments, d1) \<Rightarrow>
          (case wal_open_current segments d1 of
             (Inl e, d2) \<Rightarrow> (Inl (WalIo e), d2)
           | (Inr (idx, f), d2) \<Rightarrow>
               (case disk_sync_dir d2 of
                  (Inl e, d3) \<Rightarrow> (Inl (WalIo e), d3)
                | (Inr _, d3) \<Rightarrow>
                    (let end_off = LogOffset idx (file_len d3 f)
                     in (Inr \<lparr>w_disk = d3, segment_size_bytes = seg_size,
                             current_segment_index = idx, w_current = f,
                             staged_end = end_off, durable_end = end_off,
                             w_waiters = [], w_poisoned = False\<rparr>, d3)))))"

section \<open>Waiters\<close>

text \<open>\<open>Vec::swap_remove\<close>: the last element takes the removed one's place.\<close>

definition swap_remove :: "nat \<Rightarrow> 'a list \<Rightarrow> 'a list" where
  "swap_remove i ws =
     (if Suc i = length ws then butlast ws else (butlast ws)[i := last ws])"

lemma length_swap_remove [simp]: "length (swap_remove i ws) = length ws - 1"
  by (simp add: swap_remove_def)

function drain_loop :: "log_offset \<Rightarrow> nat \<Rightarrow> waiter list \<Rightarrow> waker list \<Rightarrow> waiter list \<times> waker list" where
  "drain_loop durable i ws wakers =
     (if i < length ws
      then if w_target (ws ! i) \<le> durable
           then drain_loop durable i (swap_remove i ws) (wakers @ w_wakers (ws ! i))
           else drain_loop durable (Suc i) ws wakers
      else (ws, wakers))"
  by pat_completeness auto
termination
  by (relation "measure (\<lambda>(d, i, ws, acc). length ws - i)") auto

declare drain_loop.simps [simp del]

definition drain_waiters :: "wal \<Rightarrow> waker list \<times> wal" where
  "drain_waiters g =
     (case drain_loop (durable_end g) 0 (w_waiters g) [] of
        (ws, wakers) \<Rightarrow> (wakers, g\<lparr>w_waiters := ws\<rparr>))"

definition drain_all_waiters :: "wal \<Rightarrow> waker list \<times> wal" where
  "drain_all_waiters g = (concat (map w_wakers (w_waiters g)), g\<lparr>w_waiters := []\<rparr>)"

section \<open>Group commit, rotation, append\<close>

definition drain_tick :: "wal \<Rightarrow> (wal_error + unit) \<times> waker list \<times> wal" where
  "drain_tick g =
     (if w_poisoned g then (Inl Poisoned, [], g)
      else (case file_sync (w_current g) (w_disk g) of
              (Inl e, d) \<Rightarrow>
                (case drain_all_waiters (g\<lparr>w_disk := d, w_poisoned := True\<rparr>) of
                   (wakers, g') \<Rightarrow> (Inl (WalIo e), wakers, g'))
            | (Inr _, d) \<Rightarrow>
                (case drain_waiters (g\<lparr>w_disk := d, durable_end := staged_end g\<rparr>) of
                   (wakers, g') \<Rightarrow> (Inr (), wakers, g'))))"

text \<open>\<open>tick\<close> returns how many waiters it woke.\<close>

definition wal_tick :: "wal \<Rightarrow> (wal_error + nat) \<times> waker list \<times> wal" where
  "wal_tick g =
     (case drain_tick g of (r, wakers, g') \<Rightarrow> (map_sum id (\<lambda>_. length wakers) r, wakers, g'))"

definition rotate :: "wal \<Rightarrow> (wal_error + unit) \<times> waker list \<times> wal" where
  "rotate g =
     (case file_sync (w_current g) (w_disk g) of
        (Inl e, d) \<Rightarrow>
          (case drain_all_waiters (g\<lparr>w_disk := d, w_poisoned := True\<rparr>) of
             (wakers, g') \<Rightarrow> (Inl (WalIo e), wakers, g'))
      | (Inr _, d) \<Rightarrow>
          (let new_idx = current_segment_index g + 1
           in case disk_create (wal_name_for new_idx) d of
                (Inl e, d1) \<Rightarrow> (Inl (WalIo e), [], g\<lparr>w_disk := d1\<rparr>)
              | (Inr new_file, d1) \<Rightarrow>
                  (case disk_sync_dir d1 of
                     (Inl e, d2) \<Rightarrow>
                       (case drain_all_waiters (g\<lparr>w_disk := d2, w_poisoned := True\<rparr>) of
                          (wakers, g') \<Rightarrow> (Inl (WalIo e), wakers, g'))
                   | (Inr _, d2) \<Rightarrow>
                       (case drain_waiters
                               (g\<lparr>w_disk := d2, current_segment_index := new_idx,
                                  w_current := new_file, staged_end := LogOffset new_idx 0,
                                  durable_end := LogOffset new_idx 0\<rparr>) of
                          (wakers, g') \<Rightarrow> (Inr (), wakers, g')))))"

text \<open>The part of \<open>append\<close> after a rotation, if any: write the frame and advance the staged end.\<close>

definition append_frame :: "bytes \<Rightarrow> wal \<Rightarrow> (wal_error + log_offset) \<times> waker list \<times> wal" where
  "append_frame payload g =
     (let record_len = HEADER_LEN + length payload
      in case file_append (w_current g) (record_encode payload []) (w_disk g) of
           (Inl e, d) \<Rightarrow>
             (let g1 = g\<lparr>w_disk := d\<rparr>
              in if byte_offset (staged_end g1) < file_len d (w_current g1)
                 then (case drain_all_waiters (g1\<lparr>w_poisoned := True\<rparr>) of
                         (wakers, g2) \<Rightarrow> (Inl (WalIo e), wakers, g2))
                 else (Inl (WalIo e), [], g1))
         | (Inr _, d) \<Rightarrow>
             (let e = LogOffset (segment_index (staged_end g))
                                (byte_offset (staged_end g) + record_len)
              in (Inr e, [], g\<lparr>w_disk := d, staged_end := e\<rparr>)))"

definition wal_append :: "bytes \<Rightarrow> wal \<Rightarrow> (wal_error + log_offset) \<times> waker list \<times> wal" where
  "wal_append payload g =
     (if MAX_PAYLOAD_LEN < length payload then (Inl (PayloadTooLarge (length payload)), [], g)
      else if w_poisoned g then (Inl Poisoned, [], g)
      else
        (let record_len = HEADER_LEN + length payload;
             projected = byte_offset (staged_end g) + record_len
         in if segment_size_bytes g < projected \<and> 0 < byte_offset (staged_end g)
            then (case rotate g of
                    (Inl e, wakers, g1) \<Rightarrow> (Inl e, wakers, g1)
                  | (Inr _, wakers, g1) \<Rightarrow>
                      (case append_frame payload g1 of
                         (r, wakers', g2) \<Rightarrow> (r, wakers @ wakers', g2)))
            else append_frame payload g))"

section \<open>The commit future\<close>

datatype poll = Ready "wal_error + unit" | Pending

text \<open>Register a waker with the waiter of its target, one waiter per distinct target.\<close>

fun park :: "log_offset \<Rightarrow> waker \<Rightarrow> waiter list \<Rightarrow> waiter list" where
  "park target w [] = [\<lparr>w_target = target, w_wakers = [w]\<rparr>]"
| "park target w (x # xs) =
     (if w_target x = target
      then (if w \<in> set (w_wakers x) then x # xs
            else x\<lparr>w_wakers := w_wakers x @ [w]\<rparr> # xs)
      else x # park target w xs)"

definition commit_poll :: "log_offset \<Rightarrow> waker \<Rightarrow> wal \<Rightarrow> poll \<times> wal" where
  "commit_poll target w g =
     (if target \<le> durable_end g then (Ready (Inr ()), g)
      else if w_poisoned g then (Ready (Inl Poisoned), g)
      else (Pending, g\<lparr>w_waiters := park target w (w_waiters g)\<rparr>))"

text \<open>\<open>durable_end\<close> and \<open>is_poisoned\<close>, the observers.\<close>

definition wal_durable_end :: "wal \<Rightarrow> log_offset" where "wal_durable_end g = durable_end g"

definition wal_is_poisoned :: "wal \<Rightarrow> bool" where "wal_is_poisoned g = w_poisoned g"

section \<open>What the log holds\<close>

abbreviation wal_frame :: "bytes \<Rightarrow> bytes" where
  "wal_frame p \<equiv> record_encode p []"

definition disk_inv :: "mem_disk \<Rightarrow> bool" where
  "disk_inv d \<longleftrightarrow> distinct (map fst (md_names d)) \<and> distinct (map snd (md_names d)) \<and>
     (\<forall>f\<in>set (map snd (md_names d)). f < length (md_store d))"

definition wal_segment_list :: "mem_disk \<Rightarrow> nat list" where
  "wal_segment_list d = sort (List.map_filter wal_index_of (map fst (md_names d)))"

definition seg_file :: "mem_disk \<Rightarrow> nat \<Rightarrow> file_id option" where
  "seg_file d i = map_of (md_names d) (wal_name_for i)"

definition seg_bytes :: "bytes list \<Rightarrow> bytes" where
  "seg_bytes recs = concat (map wal_frame recs)"

text \<open>
  The abstract log: \<open>wal_holds g L\<close> says that a healthy log \<open>g\<close> holds the payloads \<open>L\<close>, one list
  per segment. Segment files are numbered from 0 without gaps, each is exactly the frames of its
  payloads, the staged end is the end of the last one, and nothing past it is durable.
\<close>

definition wal_holds :: "wal \<Rightarrow> bytes list list \<Rightarrow> bool" where
  "wal_holds g L \<longleftrightarrow>
     \<not> w_poisoned g \<and> disk_inv (w_disk g) \<and> L \<noteq> [] \<and> length L \<le> 2 ^ 64 \<and>
     wal_segment_list (w_disk g) = [0..<length L] \<and>
     (\<forall>i<length L. \<exists>f. seg_file (w_disk g) i = Some f \<and>
        md_store (w_disk g) ! f = seg_bytes (L ! i)) \<and>
     current_segment_index g = length L - 1 \<and>
     seg_file (w_disk g) (length L - 1) = Some (w_current g) \<and>
     staged_end g = LogOffset (length L - 1) (length (seg_bytes (last L))) \<and>
     durable_end g \<le> staged_end g \<and>
     (\<forall>recs\<in>set L. \<forall>p\<in>set recs. length p \<le> MAX_PAYLOAD_LEN)"

lemma wal_holdsD:
  assumes "wal_holds g L"
  shows "\<not> w_poisoned g" "disk_inv (w_disk g)" "L \<noteq> []"
    and "wal_segment_list (w_disk g) = [0..<length L]"
    and "\<And>i. i < length L \<Longrightarrow>
      \<exists>f. seg_file (w_disk g) i = Some f \<and> md_store (w_disk g) ! f = seg_bytes (L ! i)"
    and "current_segment_index g = length L - 1"
    and "seg_file (w_disk g) (length L - 1) = Some (w_current g)"
    and "staged_end g = LogOffset (length L - 1) (length (seg_bytes (last L)))"
    and "durable_end g \<le> staged_end g"
    and "\<And>recs p. recs \<in> set L \<Longrightarrow> p \<in> set recs \<Longrightarrow> length p \<le> MAX_PAYLOAD_LEN"
    and "length L \<le> 2 ^ 64"
  using assms unfolding wal_holds_def by blast+

lemma length_wal_frame [simp]: "length (wal_frame p) = HEADER_LEN + length p"
  by (simp add: record_encode_def HEADER_LEN_def)

lemma seg_bytes_snoc [simp]: "seg_bytes (recs @ [p]) = seg_bytes recs @ wal_frame p"
  by (simp add: seg_bytes_def)

lemma seg_bytes_Nil [simp]: "seg_bytes [] = []"
  by (simp add: seg_bytes_def)

lemma wal_name_inject:
  "i < 2 ^ 64 \<Longrightarrow> j < 2 ^ 64 \<Longrightarrow> wal_name_for i = wal_name_for j \<longleftrightarrow> i = j"
  using wal_name_roundtrip by (metis option.inject)

subsection \<open>Disk operations on a well-formed disk\<close>

lemma disk_inv_cong:
  "md_names d' = md_names d \<Longrightarrow> length (md_store d') = length (md_store d) \<Longrightarrow>
     disk_inv d' = disk_inv d \<and> wal_segment_list d' = wal_segment_list d \<and> seg_file d' = seg_file d"
  by (simp add: disk_inv_def wal_segment_list_def seg_file_def fun_eq_iff)

lemma seg_file_valid: "disk_inv d \<Longrightarrow> seg_file d i = Some f \<Longrightarrow> f < length (md_store d)"
  by (auto simp: disk_inv_def seg_file_def dest: map_of_SomeD)

lemma seg_file_inject:
  assumes "disk_inv d" "seg_file d i = Some f" "seg_file d j = Some f"
  shows "wal_name_for i = wal_name_for j"
proof -
  have "(wal_name_for i, f) \<in> set (md_names d)" "(wal_name_for j, f) \<in> set (md_names d)"
    using assms by (auto simp: seg_file_def dest: map_of_SomeD)
  then show ?thesis
    using assms(1) inj_onD [of snd "set (md_names d)"]
    by (fastforce simp: disk_inv_def distinct_map)
qed

text \<open>A fresh segment file: its name was free, and it joins the listing as the new last segment.\<close>

lemma disk_create_segment:
  assumes inv: "disk_inv d" and segs: "wal_segment_list d = [0..<n]" and n: "n < 2 ^ 64"
    and create: "disk_create (wal_name_for n) d = (Inr f, d')"
  shows "disk_inv d'" "wal_segment_list d' = [0..<Suc n]" "md_store d' ! f = []"
    "\<And>i. seg_file d' i = (if wal_name_for i = wal_name_for n then Some f else seg_file d i)"
    "f \<notin> set (map snd (md_names d))" "\<And>g. g < length (md_store d) \<Longrightarrow> md_store d' ! g = md_store d ! g"
proof -
  from create obtain d1 where c: "disk_check Create d = (Inr (), d1)"
    and fresh: "map_of (md_names d1) (wal_name_for n) = None"
    and f: "f = length (md_store d1)"
    and d': "d' = d1\<lparr>md_names := (wal_name_for n, f) # md_names d1, md_store := md_store d1 @ [[]]\<rparr>"
    by (auto simp: disk_create_def split: sum.splits prod.splits if_splits)
  note same = disk_check_fields_eq [OF c]
  show "disk_inv d'"
    using inv fresh by (auto simp: disk_inv_def d' f same map_of_eq_None_iff less_Suc_eq)
  have "wal_segment_list d' = insort n (wal_segment_list d)"
    by (simp add: wal_segment_list_def d' same map_filter_simps wal_name_roundtrip [OF n])
  moreover have "insort n [0..<n] = [0..<n] @ [n]"
    by (rule sorted_insort_is_snoc) auto
  ultimately show "wal_segment_list d' = [0..<Suc n]" using segs by simp
  show "md_store d' ! f = []" by (simp add: d' f)
  show "\<And>i. seg_file d' i = (if wal_name_for i = wal_name_for n then Some f else seg_file d i)"
    by (auto simp: seg_file_def d' same)
  show "f \<notin> set (map snd (md_names d))"
    using inv by (auto simp: disk_inv_def f same)
  show "\<And>g. g < length (md_store d) \<Longrightarrow> md_store d' ! g = md_store d ! g"
    by (simp add: d' same nth_append)
qed

lemma disk_create_error:
  assumes "disk_create name d = (Inl e, d')"
  shows "md_names d' = md_names d" "md_store d' = md_store d"
  using assms
  by (auto simp: disk_create_def dest: disk_check_fields_eq split: sum.splits prod.splits if_splits)

subsection \<open>Waiters\<close>

lemma mset_swap_remove: "i < length ws \<Longrightarrow> mset (swap_remove i ws) + {#ws ! i#} = mset ws"
proof -
  assume i: "i < length ws"
  then have split: "ws = butlast ws @ [last ws]" by (cases ws) auto
  show ?thesis
  proof (cases "Suc i = length ws")
    case True
    then have l: "ws ! i = last ws"
      using i by (metis diff_Suc_1 last_conv_nth list.size(3) not_less_zero)
    have "mset ws = mset (butlast ws) + {#last ws#}" by (subst split) simp
    then show ?thesis using True l by (simp add: swap_remove_def)
  next
    case False
    then have i': "i < length (butlast ws)" using i by simp
    have "mset ((butlast ws)[i := last ws]) + {#butlast ws ! i#} = mset (butlast ws) + {#last ws#}"
      using i' by (simp add: mset_update)
    moreover have "mset ws = mset (butlast ws) + {#last ws#}" by (subst split) simp
    ultimately show ?thesis using False i' by (simp add: swap_remove_def nth_butlast)
  qed
qed

text \<open>A drain splits the waiters: the ones covered are woken, the rest stay parked.\<close>

lemma drain_loop_spec:
  assumes "drain_loop dur i ws acc = (ws', acc')"
  shows "\<exists>out. mset ws = mset ws' + mset out \<and> (\<forall>w\<in>set out. w_target w \<le> dur) \<and>
           acc' = acc @ concat (map w_wakers out) \<and>
           ((\<forall>j<i. \<not> w_target (ws ! j) \<le> dur) \<longrightarrow> i \<le> length ws \<longrightarrow>
              (\<forall>w\<in>set ws'. \<not> w_target w \<le> dur))"
  using assms
proof (induction dur i ws acc arbitrary: rule: drain_loop.induct)
  case (1 dur i ws acc)
  show ?case
  proof (cases "i < length ws")
    case False
    with 1 have r: "ws' = ws" "acc' = acc" by (auto simp: drain_loop.simps [of dur i ws])
    show ?thesis
      using False by (intro exI [of _ "[]"]) (auto simp: r in_set_conv_nth)
  next
    case inside: True
    show ?thesis
    proof (cases "w_target (ws ! i) \<le> dur")
      case True
      with inside 1 have d: "drain_loop dur i (swap_remove i ws) (acc @ w_wakers (ws ! i)) = (ws', acc')"
        by (simp add: drain_loop.simps [of dur i ws])
      from "1.IH"(1) [OF inside True d] obtain out where out:
        "mset (swap_remove i ws) = mset ws' + mset out" "\<forall>w\<in>set out. w_target w \<le> dur"
        "acc' = (acc @ w_wakers (ws ! i)) @ concat (map w_wakers out)"
        "(\<forall>j<i. \<not> w_target (swap_remove i ws ! j) \<le> dur) \<longrightarrow> i \<le> length (swap_remove i ws) \<longrightarrow>
           (\<forall>w\<in>set ws'. \<not> w_target w \<le> dur)" by blast
      have keep: "swap_remove i ws ! j = ws ! j" if "j < i" for j
        using that inside by (auto simp: swap_remove_def nth_butlast)
      have m: "mset ws = mset ws' + mset (ws ! i # out)"
        using mset_swap_remove [OF inside] out(1) by (metis add.assoc add_mset_add_single mset.simps(2))
      show ?thesis
        using m out True keep inside by (intro exI [of _ "ws ! i # out"]) auto
    next
      case False
      with inside 1 have d: "drain_loop dur (Suc i) ws acc = (ws', acc')"
        by (simp add: drain_loop.simps [of dur i ws])
      from "1.IH"(2) [OF inside False d] show ?thesis
        using False inside by (auto simp: less_Suc_eq)
    qed
  qed
qed

lemma drain_waiters_spec:
  assumes "drain_waiters g = (wakers, g')"
  obtains out where "g' = g\<lparr>w_waiters := w_waiters g'\<rparr>"
    "mset (w_waiters g) = mset (w_waiters g') + mset out"
    "\<forall>w\<in>set out. w_target w \<le> durable_end g" "\<forall>w\<in>set (w_waiters g'). \<not> w_target w \<le> durable_end g"
    "wakers = concat (map w_wakers out)"
proof -
  obtain ws acc where d: "drain_loop (durable_end g) 0 (w_waiters g) [] = (ws, acc)"
    by (cases "drain_loop (durable_end g) 0 (w_waiters g) []")
  with assms have g': "wakers = acc" "g' = g\<lparr>w_waiters := ws\<rparr>" by (auto simp: drain_waiters_def)
  from drain_loop_spec [OF d] that g' show thesis by auto
qed

lemma drain_fields:
  assumes "drain_waiters g = (wakers, g')"
  shows "g' = g\<lparr>w_waiters := w_waiters g'\<rparr>"
  using assms by (rule drain_waiters_spec)

lemma wal_holds_waiters: "wal_holds (g\<lparr>w_waiters := ws\<rparr>) L = wal_holds g L"
  by (simp add: wal_holds_def)

lemma wal_holds_drain: "drain_waiters g = (wakers, g') \<Longrightarrow> wal_holds g' L = wal_holds g L"
  using drain_fields [of g wakers g'] wal_holds_waiters by metis

subsection \<open>Each operation against the abstract log\<close>

text \<open>A step that leaves the files alone keeps the contents.\<close>

lemma wal_holds_disk:
  assumes "wal_holds g L" "md_names d = md_names (w_disk g)" "md_store d = md_store (w_disk g)"
    and "dur \<le> staged_end g"
  shows "wal_holds (g\<lparr>w_disk := d, durable_end := dur\<rparr>) L"
  using assms disk_inv_cong [of d "w_disk g"] by (simp add: wal_holds_def)

lemma wal_holds_disk':
  assumes "wal_holds g L" "md_names d = md_names (w_disk g)" "md_store d = md_store (w_disk g)"
  shows "wal_holds (g\<lparr>w_disk := d\<rparr>) L"
proof -
  from wal_holds_disk [OF assms wal_holdsD(9) [OF assms(1)]] show ?thesis by simp
qed

lemma rotate_ok:
  assumes holds: "wal_holds g L" and n: "length L < 2 ^ 64" and ok: "rotate g = (Inr u, wk, g')"
  shows "wal_holds g' (L @ [[]])"
proof -
  from ok obtain d d1 d2 f where s: "file_sync (w_current g) (w_disk g) = (Inr (), d)"
    and c: "disk_create (wal_name_for (current_segment_index g + 1)) d = (Inr f, d1)"
    and sd: "disk_sync_dir d1 = (Inr (), d2)"
    and dr: "drain_waiters (g\<lparr>w_disk := d2, current_segment_index := current_segment_index g + 1,
        w_current := f, staged_end := LogOffset (current_segment_index g + 1) 0,
        durable_end := LogOffset (current_segment_index g + 1) 0\<rparr>) = (wk, g')"
    by (auto simp: rotate_def Let_def drain_all_waiters_def split: sum.splits prod.splits)
  have idx: "current_segment_index g + 1 = length L" using holds by (simp add: wal_holds_def)
  note same = disk_sync_fields(1) [OF s] and same2 = disk_sync_fields(2) [OF sd]
  have d: "disk_inv d" "wal_segment_list d = [0..<length L]"
    using holds same disk_inv_cong [of d "w_disk g"] by (auto simp: wal_holds_def)
  note cr = disk_create_segment [OF d n c [unfolded idx]]
  have old: "\<exists>h. seg_file d1 i = Some h \<and> md_store d1 ! h = seg_bytes (L ! i)" if "i < length L" for i
  proof -
    from holds that obtain h where h: "seg_file (w_disk g) i = Some h"
      "md_store (w_disk g) ! h = seg_bytes (L ! i)" by (auto simp: wal_holds_def)
    have "seg_file d i = Some h" using h same disk_inv_cong [of d "w_disk g"] by simp
    moreover from this have "h < length (md_store d)" using seg_file_valid d(1) by blast
    ultimately show ?thesis
      using h cr(4,6) same that n wal_name_inject [of i "length L"] by simp
  qed
  have "seg_file d1 (length L) = Some f" "md_store d1 ! f = []" using cr(3,4) by simp_all
  with old holds cr(1,2) n same2 disk_inv_cong [of d2 d1]
  have "wal_holds (g\<lparr>w_disk := d2, current_segment_index := current_segment_index g + 1,
      w_current := f, staged_end := LogOffset (current_segment_index g + 1) 0,
      durable_end := LogOffset (current_segment_index g + 1) 0\<rparr>) (L @ [[]])"
    by (auto simp: wal_holds_def idx less_Suc_eq nth_append)
  with wal_holds_drain [OF dr] show ?thesis by simp
qed

lemma rotate_err:
  assumes holds: "wal_holds g L" and err: "rotate g = (Inl e, wk, g')"
  shows "w_poisoned g' \<or> wal_holds g' L"
proof -
  from err consider "w_poisoned g'"
    | d d1 e' where "file_sync (w_current g) (w_disk g) = (Inr (), d)"
      "disk_create (wal_name_for (current_segment_index g + 1)) d = (Inl e', d1)"
      "g' = g\<lparr>w_disk := d1\<rparr>"
    by (auto simp: rotate_def Let_def drain_all_waiters_def split: sum.splits prod.splits)
  then show ?thesis
  proof cases
    case 2
    then show ?thesis
      using disk_sync_fields(1) [OF 2(1)] disk_create_error [OF 2(2)] wal_holds_disk' [OF holds]
      by simp
  qed simp
qed

text \<open>Writing a frame: success extends the last segment, a clean failure changes nothing.\<close>

lemma append_frame_ok:
  assumes holds: "wal_holds g L" and len: "length p \<le> MAX_PAYLOAD_LEN"
    and ok: "append_frame p g = (Inr off, wk, g')"
  shows "wal_holds g' (butlast L @ [last L @ [p]]) \<and> off = staged_end g'"
proof -
  let ?L = "butlast L @ [last L @ [p]]" and ?n = "length L - 1"
  obtain r d where app: "file_append (w_current g) (wal_frame p) (w_disk g) = (r, d)"
    by (cases "file_append (w_current g) (wal_frame p) (w_disk g)")
  from ok app obtain u where "r = Inr u"
    by (cases r) (auto simp: append_frame_def Let_def drain_all_waiters_def split: if_splits)
  with app have ap: "file_append (w_current g) (wal_frame p) (w_disk g) = (Inr (), d)" by simp
  from ok ap have off: "off = LogOffset (segment_index (staged_end g))
        (byte_offset (staged_end g) + (HEADER_LEN + length p))"
    and g': "g' = g\<lparr>w_disk := d, staged_end := off\<rparr>"
    by (auto simp: append_frame_def Let_def)
  note keep = file_append_fields [OF ap]
  have inv: "disk_inv (w_disk g)" and ne: "L \<noteq> []" and cur: "seg_file (w_disk g) ?n = Some (w_current g)"
    and small: "length L \<le> 2 ^ 64"
    using holds by (auto simp: wal_holds_def)
  have dh: "disk_has (w_disk g) (w_current g)"
    using seg_file_valid [OF inv cur] by (simp add: disk_has_def)
  have new: "md_store d ! w_current g = md_store (w_disk g) ! w_current g @ wal_frame p"
    using mem_file.append_ok [OF dh ap] by (simp add: disk_content_def)
  have other: "md_store d ! f = md_store (w_disk g) ! f" if "f \<noteq> w_current g" for f
    using mem_file.append_other [of "w_current g" f "wal_frame p" "w_disk g"] that ap
    by (simp add: disk_content_def)
  have segs: "\<exists>f. seg_file d i = Some f \<and> md_store d ! f = seg_bytes (?L ! i)" if "i < length L" for i
  proof -
    from holds that obtain f where f: "seg_file (w_disk g) i = Some f"
      "md_store (w_disk g) ! f = seg_bytes (L ! i)" by (auto simp: wal_holds_def)
    have sf: "seg_file d i = Some f" using f keep disk_inv_cong [of d "w_disk g"] by simp
    show ?thesis
    proof (cases "i = ?n")
      case True
      then have "?L ! i = L ! i @ [p]" using ne by (simp add: nth_append last_conv_nth)
      with True cur f sf new show ?thesis by simp
    next
      case False
      then have "i < ?n" using that by simp
      then have "?L ! i = L ! i" by (simp add: nth_append nth_butlast)
      moreover have "f \<noteq> w_current g"
      proof
        assume "f = w_current g"
        with f cur have "wal_name_for i = wal_name_for ?n" using seg_file_inject [OF inv] by blast
        moreover have "i < 2 ^ 64" "?n < 2 ^ 64" using that small ne by (simp_all add: less_le_trans)
        ultimately show False using wal_name_inject [of i ?n] False by blast
      qed
      ultimately show ?thesis using f sf other by simp
    qed
  qed
  have stage: "staged_end g = LogOffset ?n (length (seg_bytes (last L)))" "durable_end g \<le> staged_end g"
    using holds by (auto simp: wal_holds_def)
  have off': "off = LogOffset ?n (length (seg_bytes (last L @ [p])))"
    using stage by (simp add: off)
  have "durable_end g \<le> off" using stage off' by (auto simp: less_eq_log_offset_def)
  moreover have "\<forall>recs\<in>set ?L. \<forall>q\<in>set recs. length q \<le> MAX_PAYLOAD_LEN"
    using holds len ne by (auto simp: wal_holds_def dest: in_set_butlastD)
  ultimately show ?thesis
    using holds segs off' cur keep disk_inv_cong [of d "w_disk g"] ne
    by (simp add: wal_holds_def g')
qed

lemma append_frame_err:
  assumes holds: "wal_holds g L" and err: "append_frame p g = (Inl e, wk, g')"
  shows "w_poisoned g' \<or> wal_holds g' L"
proof -
  from err obtain e' d where ap: "file_append (w_current g) (wal_frame p) (w_disk g) = (Inl e', d)"
    and c: "w_poisoned g' \<or> file_len d (w_current g) \<le> byte_offset (staged_end g) \<and> g' = g\<lparr>w_disk := d\<rparr>"
    by (auto simp: append_frame_def Let_def drain_all_waiters_def split: sum.splits prod.splits if_splits)
  have inv: "disk_inv (w_disk g)" and cur: "seg_file (w_disk g) (length L - 1) = Some (w_current g)"
    and ne: "L \<noteq> []" using holds by (auto simp: wal_holds_def)
  have dh: "disk_has (w_disk g) (w_current g)"
    using seg_file_valid [OF inv cur] by (simp add: disk_has_def)
  from mem_file.append_err [OF dh ap] obtain k where k: "k \<le> length (wal_frame p)"
    "md_store d ! w_current g = md_store (w_disk g) ! w_current g @ take k (wal_frame p)"
    by (auto simp: disk_content_def)
  have full: "length (md_store (w_disk g) ! w_current g) = byte_offset (staged_end g)"
  proof -
    from ne have lt: "length L - 1 < length L" by simp
    from wal_holdsD(5) [OF holds lt] obtain f where
      f: "seg_file (w_disk g) (length L - 1) = Some f" "md_store (w_disk g) ! f = seg_bytes (last L)"
      unfolding last_conv_nth [OF ne] by blast
    from f(1) cur have "f = w_current g" by simp
    with f(2) wal_holdsD(8) [OF holds] show ?thesis by simp
  qed
  show ?thesis
  proof (cases "w_poisoned g'")
    case False
    with c k full have "take k (wal_frame p) = []" and g': "g' = g\<lparr>w_disk := d\<rparr>"
      by (auto simp: file_len_def)
    then have "md_store d ! f = md_store (w_disk g) ! f" for f
      using k mem_file.append_other [of "w_current g" f "wal_frame p" "w_disk g"] ap
      by (cases "f = w_current g") (auto simp: disk_content_def)
    then have "md_store d = md_store (w_disk g)"
      using file_append_fields(2) [OF ap] by (intro nth_equalityI) auto
    with g' show ?thesis
      using wal_holds_disk' [OF holds] file_append_fields(1) [OF ap] by simp
  qed simp
qed

subsection \<open>Append, tick and poll against the abstract log\<close>

lemma wal_append_grows:
  assumes holds: "wal_holds g L" and n: "Suc (current_segment_index g) < 2 ^ 64"
    and ok: "wal_append p g = (Inr off, wk, g')"
  shows "\<exists>L' \<in> {butlast L @ [last L @ [p]], L @ [[p]]}. wal_holds g' L' \<and> off = staged_end g'"
proof -
  have len: "length p \<le> MAX_PAYLOAD_LEN" and np: "\<not> w_poisoned g"
    using ok by (auto simp: wal_append_def split: if_splits)
  have idx: "length L < 2 ^ 64" using n wal_holdsD(3,6) [OF holds] by (cases L) auto
  show ?thesis
  proof (cases "segment_size_bytes g < byte_offset (staged_end g) + (HEADER_LEN + length p) \<and>
      0 < byte_offset (staged_end g)")
    case True
    with ok len np obtain u wk1 g1 wk2 where r: "rotate g = (Inr u, wk1, g1)"
      and a: "append_frame p g1 = (Inr off, wk2, g')"
      by (auto simp: wal_append_def Let_def split: prod.splits sum.splits)
    note h1 = rotate_ok [OF holds idx r]
    from append_frame_ok [OF h1 len a] show ?thesis by simp
  next
    case False
    with ok len np have a: "append_frame p g = (Inr off, wk, g')"
      by (auto simp: wal_append_def Let_def split: if_splits)
    from append_frame_ok [OF holds len a] show ?thesis by blast
  qed
qed

lemma concat_snoc_last: "M \<noteq> [] \<Longrightarrow> concat (butlast M @ [last M @ [p]]) = concat M @ [p]"
  by (metis append_assoc append_butlast_last_id concat_append concat.simps(1,2) append_Nil2)

lemma wal_append_ok:
  assumes holds: "wal_holds g L" and n: "Suc (current_segment_index g) < 2 ^ 64"
    and ok: "wal_append p g = (Inr off, wk, g')"
  shows "\<exists>L'. wal_holds g' L' \<and> concat L' = concat L @ [p] \<and> off = staged_end g'"
  using wal_append_grows [OF assms] concat_snoc_last [OF wal_holdsD(3) [OF holds], of p] by fastforce

lemma wal_append_refused:
  assumes holds: "wal_holds g L" and n: "Suc (current_segment_index g) < 2 ^ 64"
    and err: "wal_append p g = (Inl e, wk, g')"
  shows "w_poisoned g' \<or> (\<exists>L' \<in> {L, L @ [[]]}. wal_holds g' L')"
proof -
  have idx: "length L < 2 ^ 64" using n wal_holdsD(3,6) [OF holds] by (cases L) auto
  have np: "\<not> w_poisoned g" using wal_holdsD(1) [OF holds] .
  consider "g' = g" | wk1 where "rotate g = (Inl e, wk1, g')"
    | u wk1 g1 wk2 where "rotate g = (Inr u, wk1, g1)" "append_frame p g1 = (Inl e, wk2, g')"
    | "append_frame p g = (Inl e, wk, g')"
    using err np by (auto simp: wal_append_def Let_def split: if_splits prod.splits sum.splits)
  then show ?thesis
  proof cases
    case 1
    with holds show ?thesis by blast
  next
    case 2
    with rotate_err [OF holds] show ?thesis by blast
  next
    case 3
    from append_frame_err [OF rotate_ok [OF holds idx 3(1)] 3(2)] show ?thesis by blast
  next
    case 4
    with append_frame_err [OF holds] show ?thesis by blast
  qed
qed

lemma wal_append_err:
  assumes "wal_holds g L" "Suc (current_segment_index g) < 2 ^ 64" "wal_append p g = (Inl e, wk, g')"
  shows "w_poisoned g' \<or> (\<exists>L'. wal_holds g' L' \<and> concat L' = concat L)"
  using wal_append_refused [OF assms] by fastforce

lemma drain_tick_spec:
  assumes "\<not> w_poisoned g" and "drain_tick g = (r, wk, g')"
  obtains (failed) e d where "r = Inl (WalIo e)" "file_sync (w_current g) (w_disk g) = (Inl e, d)"
      "g' = g\<lparr>w_disk := d, w_poisoned := True, w_waiters := []\<rparr>"
      "wk = concat (map w_wakers (w_waiters g))"
  | (synced) d where "r = Inr ()" "file_sync (w_current g) (w_disk g) = (Inr (), d)"
      "drain_waiters (g\<lparr>w_disk := d, durable_end := staged_end g\<rparr>) = (wk, g')"
  using assms by (auto simp: drain_tick_def drain_all_waiters_def split: sum.splits prod.splits)

lemma wal_tick_eq:
  assumes "wal_tick g = (r, wk, g')"
  obtains u where "drain_tick g = (u, wk, g')" "r = map_sum id (\<lambda>_. length wk) u"
  using assms by (auto simp: wal_tick_def split: prod.splits)

lemma wal_tick_holds:
  assumes holds: "wal_holds g L" and t: "wal_tick g = (r, wk, g')"
  shows "w_poisoned g' \<or> wal_holds g' L"
proof -
  from t obtain u where u: "drain_tick g = (u, wk, g')" by (rule wal_tick_eq)
  from wal_holdsD(1) [OF holds] u show ?thesis
  proof (cases rule: drain_tick_spec)
    case (synced d)
    from wal_holds_disk [OF holds, of d "staged_end g"] disk_sync_fields(1) [OF synced(2)]
    show ?thesis using wal_holds_drain [OF synced(3)] by simp
  qed simp
qed

lemma commit_poll_holds: "commit_poll t w g = (r, g') \<Longrightarrow> wal_holds g' L = wal_holds g L"
  by (auto simp: commit_poll_def wal_holds_waiters split: if_splits)

section \<open>The log as a state machine\<close>

text \<open>
  One call on the handle: \<open>wal_step g ps wk g'\<close> acknowledges the payloads \<open>ps\<close> (none or one) and
  fires the wakers \<open>wk\<close>. The mutex makes each call atomic, so an interleaving of callers is a
  sequence of these steps.
\<close>

inductive wal_step :: "wal \<Rightarrow> bytes list \<Rightarrow> waker list \<Rightarrow> wal \<Rightarrow> bool" where
  step_append: "wal_append p g = (Inr off, wk, g') \<Longrightarrow> wal_step g [p] wk g'"
| step_append_err: "wal_append p g = (Inl e, wk, g') \<Longrightarrow> wal_step g [] wk g'"
| step_tick: "wal_tick g = (r, wk, g') \<Longrightarrow> wal_step g [] wk g'"
| step_poll: "commit_poll t w g = (r, g') \<Longrightarrow> wal_step g [] [] g'"

inductive_cases wal_stepE: "wal_step g ps wk g'"

inductive wal_run :: "wal \<Rightarrow> bytes list \<Rightarrow> wal \<Rightarrow> bool" where
  run_nil: "wal_run g [] g"
| run_snoc: "wal_run g ps g1 \<Longrightarrow> wal_step g1 qs wk g2 \<Longrightarrow> wal_run g (ps @ qs) g2"

lemma rotate_index: "rotate g = (r, wk, g') \<Longrightarrow> current_segment_index g \<le> current_segment_index g'"
  by (auto simp: rotate_def Let_def drain_all_waiters_def drain_waiters_def
      split: sum.splits prod.splits)

lemma append_frame_index:
  "append_frame p g = (r, wk, g') \<Longrightarrow> current_segment_index g' = current_segment_index g"
  by (auto simp: append_frame_def Let_def drain_all_waiters_def split: sum.splits prod.splits if_splits)

lemma wal_append_index:
  assumes "wal_append p g = (r, wk, g')"
  shows "current_segment_index g \<le> current_segment_index g'"
proof -
  have "rotate g = (x, y, g1) \<Longrightarrow> append_frame p g1 = (u, v, g2) \<Longrightarrow>
      current_segment_index g \<le> current_segment_index g2" for x y g1 u v g2
    using rotate_index [of g x y g1] append_frame_index [of p g1 u v g2] by simp
  with assms show ?thesis
    by (auto simp: wal_append_def Let_def dest: rotate_index append_frame_index
        split: if_splits sum.splits prod.splits)
qed

lemma wal_step_index: "wal_step g ps wk g' \<Longrightarrow> current_segment_index g \<le> current_segment_index g'"
  by (induction rule: wal_step.induct)
    (auto simp: wal_tick_def drain_tick_def drain_all_waiters_def drain_waiters_def commit_poll_def
      dest: wal_append_index split: sum.splits prod.splits if_splits)

lemma poisoned_step:
  "w_poisoned g \<Longrightarrow> wal_step g ps wk g' \<Longrightarrow> ps = [] \<and> wk = [] \<and> g' = g"
  by (erule wal_stepE)
    (auto simp: wal_append_def wal_tick_def drain_tick_def commit_poll_def split: if_splits)

lemma wal_step_holds:
  assumes holds: "wal_holds g L" and n: "Suc (current_segment_index g') < 2 ^ 64"
    and step: "wal_step g ps wk g'"
  shows "w_poisoned g' \<or> (\<exists>L'. wal_holds g' L' \<and> concat L' = concat L @ ps)"
proof -
  have n': "Suc (current_segment_index g) < 2 ^ 64" using n wal_step_index [OF step] by linarith
  from step show ?thesis
  proof cases
    case (step_append p off)
    then show ?thesis using wal_append_ok [OF holds n' step_append(2)] by auto
  next
    case (step_append_err p e)
    then show ?thesis using wal_append_err [OF holds n'] by auto
  next
    case (step_tick r)
    then show ?thesis using wal_tick_holds [OF holds] by auto
  next
    case (step_poll t w r)
    then show ?thesis using commit_poll_holds holds by auto
  qed
qed

text \<open>
  C2. The log refines an append-only sequence of payloads, under every interleaving of appends,
  ticks and polls and every schedule of I/O faults, torn writes included: starting from a log that
  holds \<open>L\<close>, after any run in which the payloads \<open>ps\<close> were acknowledged (in this order) the log either
  is poisoned or holds exactly the old payloads followed by \<open>ps\<close>, framed in consecutive segments,
  with nothing lost, duplicated or reordered by rotation or by failed calls. The segment counter is
  assumed not to have reached the end of \<open>u64\<close>.
\<close>

theorem wal_run_refines:
  assumes "wal_run g ps g'" and "wal_holds g L" and "Suc (current_segment_index g') < 2 ^ 64"
  shows "w_poisoned g' \<or> (\<exists>L'. wal_holds g' L' \<and> concat L' = concat L @ ps)"
  using assms
proof (induction rule: wal_run.induct)
  case (run_nil g)
  then show ?case by auto
next
  case (run_snoc g ps g1 qs wk g2)
  note index = wal_step_index [OF run_snoc.hyps(2)]
  with run_snoc consider "w_poisoned g1" | L1 where "wal_holds g1 L1" "concat L1 = concat L @ ps"
    by fastforce
  then show ?case
  proof cases
    case 1
    with poisoned_step [OF 1 run_snoc.hyps(2)] show ?thesis by simp
  next
    case 2
    with wal_step_holds [OF 2(1) run_snoc.prems(2) run_snoc.hyps(2)] show ?thesis by simp
  qed
qed

subsection \<open>Opening\<close>

lemma valid_names: "wal_name_for n ! 0 = CHR ''w''" "wal_name_for n \<noteq> []"
  by (simp_all add: wal_name_for_def)

lemma disk_open_fields:
  assumes "disk_open name d = (Inr f, d')"
  shows "md_names d' = md_names d" "md_store d' = md_store d" "map_of (md_names d) name = Some f"
  using assms
  by (auto simp: disk_open_def dest: disk_check_fields_eq
      split: sum.splits prod.splits option.splits)

lemma list_segments_ok:
  assumes "list_segments d = (Inr segs, d')"
  shows "segs = wal_segment_list d" "md_names d' = md_names d" "md_store d' = md_store d"
  using assms
  by (auto simp: list_segments_def disk_list_def wal_segment_list_def
      dest: disk_check_fields_eq split: sum.splits prod.splits)

lemma wal_open_ok:
  assumes "wal_open d sz = (Inr g, d')"
  obtains d1 d2 idx f where "list_segments d = (Inr (wal_segment_list d), d1)"
    "wal_open_current (wal_segment_list d) d1 = (Inr (idx, f), d2)"
    "md_names d' = md_names d2" "md_store d' = md_store d2" "w_disk g = d'"
    "current_segment_index g = idx" "w_current g = f" "\<not> w_poisoned g" "w_waiters g = []"
    "staged_end g = LogOffset idx (length (md_store d2 ! f))" "durable_end g = staged_end g"
    "segment_size_bytes g = sz"
proof -
  from assms obtain segs d1 idx f d2 where l: "list_segments d = (Inr segs, d1)"
    and o: "wal_open_current segs d1 = (Inr (idx, f), d2)"
    and s: "disk_sync_dir d2 = (Inr (), d')"
    and g: "g = \<lparr>w_disk = d', segment_size_bytes = sz, current_segment_index = idx, w_current = f,
       staged_end = LogOffset idx (file_len d' f), durable_end = LogOffset idx (file_len d' f),
       w_waiters = [], w_poisoned = False\<rparr>"
    by (auto simp: wal_open_def Let_def split: sum.splits prod.splits)
  note segs = list_segments_ok(1) [OF l]
  show thesis
    by (rule that [OF l [unfolded segs] o [unfolded segs]])
      (use disk_sync_fields(2) [OF s] in \<open>simp_all add: g file_len_def\<close>)
qed

lemma wal_open_fresh:
  assumes fresh: "disk_inv d" "wal_segment_list d = []" and ok: "wal_open d sz = (Inr g, d')"
  shows "wal_holds g [[]]"
  using ok
proof (rule wal_open_ok)
  fix d1 d2 idx f
  assume l: "list_segments d = (Inr (wal_segment_list d), d1)"
    and o: "wal_open_current (wal_segment_list d) d1 = (Inr (idx, f), d2)"
    and g: "md_names d' = md_names d2" "md_store d' = md_store d2" "w_disk g = d'"
      "current_segment_index g = idx" "w_current g = f" "\<not> w_poisoned g"
      "staged_end g = LogOffset idx (length (md_store d2 ! f))" "durable_end g = staged_end g"
  from o fresh have c: "disk_create (wal_name_for 0) d1 = (Inr f, d2)" and idx: "idx = 0"
    by (auto simp: wal_open_current_def split: sum.splits prod.splits)
  have d1: "disk_inv d1" "wal_segment_list d1 = [0..<0]"
    using disk_inv_cong [of d1 d] list_segments_ok(2,3) [OF l] fresh by simp_all
  note cr = disk_create_segment [OF d1 _ c]
  show "wal_holds g [[]]"
    using cr(1-4) disk_inv_cong [of d' d2] g by (simp add: wal_holds_def idx)
qed

lemma wal_reopen:
  assumes holds: "wal_holds g L" and ok: "wal_open (w_disk g) sz = (Inr g', d')"
  shows "wal_holds g' L"
  using ok
proof (rule wal_open_ok)
  fix d1 d2 idx f
  let ?d = "w_disk g" and ?n = "length L - 1"
  assume l: "list_segments ?d = (Inr (wal_segment_list ?d), d1)"
    and o: "wal_open_current (wal_segment_list ?d) d1 = (Inr (idx, f), d2)"
    and g: "md_names d' = md_names d2" "md_store d' = md_store d2" "w_disk g' = d'"
      "current_segment_index g' = idx" "w_current g' = f" "\<not> w_poisoned g'"
      "staged_end g' = LogOffset idx (length (md_store d2 ! f))" "durable_end g' = staged_end g'"
  have segs: "wal_segment_list ?d = [0..<length L]" "L \<noteq> []" using wal_holdsD [OF holds] by auto
  then have last: "last (wal_segment_list ?d) = ?n" "wal_segment_list ?d \<noteq> []" by (auto simp: last_conv_nth)
  with o have op: "disk_open (wal_name_for ?n) d1 = (Inr f, d2)" and idx: "idx = ?n"
    by (auto simp: wal_open_current_def split: sum.splits prod.splits)
  note of = disk_open_fields [OF op] and lf = list_segments_ok(2,3) [OF l]
  have same: "md_names d' = md_names ?d" "md_store d' = md_store ?d" using of lf g by simp_all
  have cur: "w_current g = f"
    using wal_holdsD(7) [OF holds] of(3) lf(1) by (simp add: seg_file_def)
  from segs have lt: "?n < length L" by simp
  have body: "md_store ?d ! f = seg_bytes (last L)"
    using wal_holdsD(5) [OF holds lt] wal_holdsD(7) [OF holds] cur segs(2) by (auto simp: last_conv_nth)
  show "wal_holds g' L"
    using holds segs disk_inv_cong [of d' ?d] same g cur body of lf
    unfolding wal_holds_def idx by simp
qed

subsection \<open>Poison\<close>

text \<open>
  C37. Poison is absorbing and fail-stop: once an fsync failed or an append tore, no call of any kind
  acknowledges a payload, wakes a task or changes the log (so no later fsync can make a staged record
  durable), an append reports \<open>Poisoned\<close> (or the size error), and a commit future is answered at once:
  \<open>Ok\<close> below the durable end, \<open>Poisoned\<close> above it.
\<close>

theorem wal_poison_absorbing:
  assumes "w_poisoned g" and "wal_run g ps g'"
  shows "g' = g \<and> ps = [] \<and>
     (length p \<le> MAX_PAYLOAD_LEN \<longrightarrow> wal_append p g' = (Inl Poisoned, [], g')) \<and>
     wal_tick g' = (Inl Poisoned, [], g') \<and>
     commit_poll t w g' = (Ready (if t \<le> durable_end g then Inr () else Inl Poisoned), g')"
proof -
  have "g' = g \<and> ps = []"
    using assms(2,1) by (induction rule: wal_run.induct) (auto dest: poisoned_step)
  with assms(1) show ?thesis
    by (simp add: wal_append_def wal_tick_def drain_tick_def commit_poll_def)
qed

subsection \<open>Commit futures\<close>

definition is_parked :: "log_offset \<Rightarrow> waker \<Rightarrow> wal \<Rightarrow> bool" where
  "is_parked t w g \<longleftrightarrow> (\<exists>x\<in>set (w_waiters g). w_target x = t \<and> w \<in> set (w_wakers x))"

text \<open>Only futures that are really pending are parked, and a poisoned log parks none.\<close>

definition waiters_ok :: "wal \<Rightarrow> bool" where
  "waiters_ok g \<longleftrightarrow> (\<forall>x\<in>set (w_waiters g). \<not> w_target x \<le> durable_end g) \<and>
     (w_poisoned g \<longrightarrow> w_waiters g = [])"

text \<open>A step keeps a parked task parked unless it wakes it, and wakes it only when it is settled.\<close>

definition keeps_or_wakes :: "wal \<Rightarrow> waker list \<Rightarrow> wal \<Rightarrow> bool" where
  "keeps_or_wakes g wk g' \<longleftrightarrow> waiters_ok g' \<and>
     (\<forall>t w. is_parked t w g \<longrightarrow>
        is_parked t w g' \<or> w \<in> set wk \<and> (t \<le> durable_end g' \<or> w_poisoned g'))"

lemma keeps_or_wakes_poison:
  "keeps_or_wakes g (concat (map w_wakers (w_waiters g)))
     (h\<lparr>w_poisoned := True, w_waiters := []\<rparr>)"
  by (auto simp: keeps_or_wakes_def waiters_ok_def is_parked_def)

lemma keeps_or_wakes_frame:
  "waiters_ok g \<Longrightarrow> w_waiters g' = w_waiters g \<Longrightarrow> durable_end g' = durable_end g \<Longrightarrow>
     w_poisoned g' = w_poisoned g \<Longrightarrow> keeps_or_wakes g wk g'"
  by (simp add: keeps_or_wakes_def waiters_ok_def is_parked_def)

lemma keeps_or_wakes_drain:
  assumes d: "drain_waiters h = (wk, g')" and h: "w_waiters h = w_waiters g" "\<not> w_poisoned h"
  shows "keeps_or_wakes g wk g'"
  using d
proof (rule drain_waiters_spec)
  fix out
  assume g': "g' = h\<lparr>w_waiters := w_waiters g'\<rparr>"
    and m: "mset (w_waiters h) = mset (w_waiters g') + mset out"
    and out: "\<forall>w\<in>set out. w_target w \<le> durable_end h"
    and rest: "\<forall>w\<in>set (w_waiters g'). \<not> w_target w \<le> durable_end h"
    and wk: "wk = concat (map w_wakers out)"
  have dur: "durable_end g' = durable_end h" "w_poisoned g' = w_poisoned h"
    by (subst g', simp)+
  have split: "set (w_waiters h) = set (w_waiters g') \<union> set out"
    using m by (metis set_mset_mset set_mset_union)
  show ?thesis
    using out rest h split
    unfolding keeps_or_wakes_def waiters_ok_def is_parked_def wk dur by auto
qed

lemma keeps_or_wakes_trans:
  assumes "keeps_or_wakes g wk g1" "keeps_or_wakes g1 wk' g2"
    and "durable_end g1 \<le> durable_end g2" "w_poisoned g1 \<longrightarrow> w_poisoned g2"
  shows "keeps_or_wakes g (wk @ wk') g2"
  using assms unfolding keeps_or_wakes_def set_append by (blast intro: order.trans)

lemma rotate_wakes:
  assumes "waiters_ok g" "\<not> w_poisoned g" "rotate g = (r, wk, g')"
  shows "keeps_or_wakes g wk g'"
  using assms keeps_or_wakes_poison [of g]
  by (auto simp: rotate_def Let_def drain_all_waiters_def
      intro: keeps_or_wakes_frame elim: keeps_or_wakes_drain split: sum.splits prod.splits)

lemma append_frame_wakes:
  assumes "waiters_ok g" "\<not> w_poisoned g" "append_frame p g = (r, wk, g')"
  shows "keeps_or_wakes g wk g' \<and> durable_end g' = durable_end g"
  using assms keeps_or_wakes_poison [of g]
  by (auto simp: append_frame_def Let_def drain_all_waiters_def
      intro: keeps_or_wakes_frame split: sum.splits prod.splits if_splits)

lemma rotate_ok_fields: "rotate g = (Inr u, wk, g') \<Longrightarrow> w_poisoned g' = w_poisoned g"
  by (auto simp: rotate_def Let_def drain_all_waiters_def drain_waiters_def
      split: sum.splits prod.splits)

lemma wal_append_wakes:
  assumes ok: "waiters_ok g" and a: "wal_append p g = (r, wk, g')"
  shows "keeps_or_wakes g wk g'"
proof -
  consider "g' = g" | e where "\<not> w_poisoned g" "rotate g = (Inl e, wk, g')"
    | u wk1 g1 r' wk2 where "\<not> w_poisoned g" "rotate g = (Inr u, wk1, g1)"
        "append_frame p g1 = (r', wk2, g')" "wk = wk1 @ wk2"
    | "\<not> w_poisoned g" "append_frame p g = (r, wk, g')"
    using a by (auto simp: wal_append_def Let_def split: if_splits prod.splits sum.splits)
  then show ?thesis
  proof cases
    case 1
    with ok show ?thesis by (simp add: keeps_or_wakes_frame)
  next
    case 2
    with ok show ?thesis using rotate_wakes by blast
  next
    case 3
    note k = rotate_wakes [OF ok 3(1,2)]
    have "waiters_ok g1" "\<not> w_poisoned g1"
      using k rotate_ok_fields [OF 3(2)] 3(1) by (simp_all add: keeps_or_wakes_def)
    with append_frame_wakes [OF this 3(3)] k 3(4) show ?thesis
      using keeps_or_wakes_trans by auto
  next
    case 4
    with ok show ?thesis using append_frame_wakes by blast
  qed
qed

lemma wal_tick_wakes:
  assumes ok: "waiters_ok g" and t: "wal_tick g = (r, wk, g')"
  shows "keeps_or_wakes g wk g'"
proof (cases "w_poisoned g")
  case True
  with ok t show ?thesis by (simp add: wal_tick_def drain_tick_def keeps_or_wakes_frame)
next
  case False
  from t obtain u where u: "drain_tick g = (u, wk, g')" by (rule wal_tick_eq)
  from False u show ?thesis
  proof (cases rule: drain_tick_spec)
    case (failed e d)
    then show ?thesis using keeps_or_wakes_poison [of g "g\<lparr>w_disk := d\<rparr>"] by simp
  next
    case (synced d)
    show ?thesis by (rule keeps_or_wakes_drain [OF synced(3)]) (use False in simp_all)
  qed
qed

lemma set_park:
  "x \<in> set (park t w ws) \<Longrightarrow> x \<in> set ws \<or> w_target x = t"
  by (induction t w ws rule: park.induct) (auto split: if_splits)

lemma park_keeps:
  "x \<in> set ws \<Longrightarrow> v \<in> set (w_wakers x) \<Longrightarrow>
     \<exists>y\<in>set (park t w ws). w_target y = w_target x \<and> v \<in> set (w_wakers y)"
  by (induction t w ws rule: park.induct) (auto split: if_splits)

lemma park_parks: "\<exists>y\<in>set (park t w ws). w_target y = t \<and> w \<in> set (w_wakers y)"
  by (induction t w ws rule: park.induct) auto

lemma commit_poll_wakes:
  assumes ok: "waiters_ok g" and p: "commit_poll t w g = (r, g')"
  shows "keeps_or_wakes g wk g'"
proof (cases "g' = g")
  case True
  with ok show ?thesis by (simp add: keeps_or_wakes_frame)
next
  case False
  with p have g': "g' = g\<lparr>w_waiters := park t w (w_waiters g)\<rparr>" and "\<not> t \<le> durable_end g" "\<not> w_poisoned g"
    by (auto simp: commit_poll_def split: if_splits)
  then show ?thesis
    using ok set_park [of _ t w "w_waiters g"] park_keeps [of _ "w_waiters g" _ t w]
    by (auto simp: keeps_or_wakes_def waiters_ok_def is_parked_def)
qed

lemma wal_step_wakes: "wal_step g ps wk g' \<Longrightarrow> waiters_ok g \<Longrightarrow> keeps_or_wakes g wk g'"
  by (erule wal_stepE) (auto intro: wal_append_wakes wal_tick_wakes commit_poll_wakes)

text \<open>
  C36. No wakeup is lost: whatever the next call on the log does, a task parked on a commit future
  either stays parked, or its waker fires and its next poll is \<open>Ready\<close>. So a future is never dropped
  while pending, also when the call poisons the log in the middle of a rotation or a torn append.
\<close>

theorem wal_no_lost_wakeup:
  assumes "waiters_ok g" and "is_parked t w g" and "wal_step g ps wk g'"
  shows "waiters_ok g' \<and>
    (is_parked t w g' \<or> w \<in> set wk \<and> (\<exists>res. commit_poll t w g' = (Ready res, g')))"
  using wal_step_wakes [OF assms(3,1)] assms(2)
  by (auto simp: keeps_or_wakes_def commit_poll_def)

text \<open>
  Group commit settles every covered future: a tick on a healthy log wakes every task parked on
  an offset staged so far. If its fsync succeeded the durable end is the old staged end and each
  of those futures is \<open>Ok\<close>; if it failed, the durable end has not moved, the log is poisoned, all
  parked tasks are woken and each pending future is \<open>Err(Poisoned)\<close>, never \<open>Ok\<close>.
\<close>

theorem wal_tick_settles:
  assumes "waiters_ok g" and "\<not> w_poisoned g" and tick: "wal_tick g = (r, wk, g')"
    and parked: "is_parked t w g"
  shows "(t \<le> staged_end g \<longrightarrow> w \<in> set wk) \<and>
     (case r of
        Inr n \<Rightarrow> fst (file_sync (w_current g) (w_disk g)) = Inr () \<and> \<not> w_poisoned g' \<and>
          durable_end g' = staged_end g \<and> n = length wk \<and>
          (t \<le> staged_end g \<longrightarrow> commit_poll t w g' = (Ready (Inr ()), g'))
      | Inl e \<Rightarrow> w \<in> set wk \<and> w_poisoned g' \<and> durable_end g' = durable_end g \<and>
          commit_poll t w g' = (Ready (Inl Poisoned), g'))"
proof -
  from tick obtain u where u: "drain_tick g = (u, wk, g')" and r: "r = map_sum id (\<lambda>_. length wk) u"
    by (rule wal_tick_eq)
  have pending: "\<not> t \<le> durable_end g" using assms(1) parked by (auto simp: waiters_ok_def is_parked_def)
  note keep = wal_tick_wakes [OF assms(1) tick]
  have "(t \<le> staged_end g \<longrightarrow> w \<in> set wk) \<and>
    (u = Inr () \<longrightarrow> fst (file_sync (w_current g) (w_disk g)) = Inr () \<and> \<not> w_poisoned g' \<and>
       durable_end g' = staged_end g) \<and>
    (\<forall>e. u = Inl e \<longrightarrow> w \<in> set wk \<and> w_poisoned g' \<and> durable_end g' = durable_end g)"
    using assms(2) u
  proof (cases rule: drain_tick_spec)
    case (failed e d)
    with parked show ?thesis by (auto simp: is_parked_def)
  next
    case (synced d)
    from drain_fields [OF synced(3)] have f: "durable_end g' = staged_end g" "w_poisoned g' = w_poisoned g"
      by (metis wal.ext_inject wal.surjective wal.update_convs)+
    then have "t \<le> staged_end g \<Longrightarrow> \<not> is_parked t w g'"
      using keep by (auto simp: keeps_or_wakes_def waiters_ok_def is_parked_def)
    with keep parked have "t \<le> staged_end g \<Longrightarrow> w \<in> set wk" by (auto simp: keeps_or_wakes_def)
    with synced f assms(2) show ?thesis by simp
  qed
  then show ?thesis
    using r pending by (cases u) (auto simp: commit_poll_def)
qed

subsection \<open>Progress without faults\<close>

text \<open>A segment name is always a valid backend name.\<close>

lemma validate_wal_name: "validate_name (wal_name_for n) = Inr ()"
proof -
  have "CHR ''/'' \<notin> set (dec_digits n)"
    using dec_digits_props [of n] by (fastforce simp: list_all_iff is_digit_def)
  then have s: "split_on (CHR ''/'') (wal_name_for n) = [wal_name_for n]"
    by (intro split_on_none) (auto simp: wal_name_for_def pad_zeros_def)
  obtain rest where "wal_name_for n = CHR ''w'' # rest" by (auto simp: wal_name_for_def)
  with s show ?thesis by (simp add: validate_name_def path_components_def component_of_def)
qed

lemma next_segment_free:
  assumes "wal_segment_list d = [0..<n]" and "n < 2 ^ 64"
  shows "map_of (md_names d) (wal_name_for n) = None"
proof (rule ccontr)
  assume "map_of (md_names d) (wal_name_for n) \<noteq> None"
  then have "wal_name_for n \<in> set (map fst (md_names d))" by (auto simp: map_of_eq_None_iff)
  then have "n \<in> set (wal_segment_list d)"
    using wal_name_roundtrip [OF assms(2)]
    by (force simp: wal_segment_list_def List.map_filter_def image_iff)
  with assms(1) show False by simp
qed

lemma rotate_live:
  assumes "wal_holds g L" "md_faults (w_disk g) = []" "length L < 2 ^ 64"
  shows "\<exists>wk g'. rotate g = (Inr (), wk, g') \<and> md_faults (w_disk g') = []"
proof -
  let ?d = "w_disk g"
  have idx: "current_segment_index g + 1 = length L" using wal_holdsD(3,6) [OF assms(1)] by (cases L) auto
  have free: "map_of (md_names ?d) (wal_name_for (length L)) = None"
    using next_segment_free wal_holdsD(4) [OF assms(1)] assms(3) by blast
  show ?thesis
    unfolding rotate_def idx using assms(2) free
    by (simp add: file_sync_def disk_sync_dir_def disk_create_def faultless_check validate_wal_name Let_def
        drain_waiters_def split: prod.split)
qed

lemma append_frame_live:
  "md_faults (w_disk g) = [] \<Longrightarrow>
     \<exists>off wk g'. append_frame p g = (Inr off, wk, g') \<and> md_faults (w_disk g') = []"
  by (simp add: append_frame_def file_append_def faults_take_def Let_def)

lemma wal_append_live:
  assumes "wal_holds g L" "md_faults (w_disk g) = []" "Suc (current_segment_index g) < 2 ^ 64"
    and "length p \<le> MAX_PAYLOAD_LEN"
  shows "\<exists>off wk g'. wal_append p g = (Inr off, wk, g') \<and> md_faults (w_disk g') = []"
proof -
  have len: "length L < 2 ^ 64" using assms(3) wal_holdsD(3,6) [OF assms(1)] by (cases L) auto
  obtain wk g1 where r: "rotate g = (Inr (), wk, g1)" "md_faults (w_disk g1) = []"
    using rotate_live [OF assms(1,2) len] by blast
  from append_frame_live [OF r(2), of p] append_frame_live [OF assms(2), of p] r assms(4)
    wal_holdsD(1) [OF assms(1)] show ?thesis
    by (auto simp: wal_append_def Let_def)
qed

lemma wal_tick_live:
  assumes "\<not> w_poisoned g" "md_faults (w_disk g) = []"
  shows "\<exists>n wk g'. wal_tick g = (Inr n, wk, g') \<and> md_faults (w_disk g') = []"
  using assms
  by (auto simp: wal_tick_def drain_tick_def file_sync_def faultless_check drain_waiters_def split: prod.split)

section \<open>The log as its clients see it\<close>

text \<open>
  What a component that logs through the WAL relies on: \<open>holds\<close> relates a healthy log to the payloads
  appended so far, \<open>dead\<close> is the fail-stop state, and \<open>room\<close> that the segment counter has not run out.
\<close>

locale durable_log =
  fixes append :: "bytes \<Rightarrow> 's \<Rightarrow> ('e + 'o) \<times> 's"
    and sync :: "'s \<Rightarrow> ('e + 'n) \<times> 's"
    and holds :: "'s \<Rightarrow> bytes list \<Rightarrow> bool"
    and dead :: "'s \<Rightarrow> bool"
    and room :: "'s \<Rightarrow> bool"
  assumes append_ok: "holds s ps \<Longrightarrow> room s' \<Longrightarrow> append p s = (Inr x, s') \<Longrightarrow> holds s' (ps @ [p])"
    and append_err: "holds s ps \<Longrightarrow> room s' \<Longrightarrow> append p s = (Inl e, s') \<Longrightarrow> dead s' \<or> holds s' ps"
    and sync_ok: "holds s ps \<Longrightarrow> sync s = (Inr n, s') \<Longrightarrow> holds s' ps"
    and sync_err: "sync s = (Inl e, s') \<Longrightarrow> dead s'"
    and dead_append: "dead s \<Longrightarrow> append p s = (r, s') \<Longrightarrow> s' = s \<and> (\<exists>e. r = Inl e)"
    and dead_sync: "dead s \<Longrightarrow> sync s = (r', s') \<Longrightarrow> s' = s"
    and room_append: "append p s = (r, s') \<Longrightarrow> room s' \<Longrightarrow> room s"
    and room_sync: "sync s = (r', s') \<Longrightarrow> room s' \<Longrightarrow> room s"
begin

text \<open>Write-ahead: append one record, then sync.\<close>

lemma commit_ok:
  assumes "holds s ps" "append p s = (Inr x, s1)" "sync s1 = (Inr n, s2)" "room s2"
  shows "holds s2 (ps @ [p])"
  using assms append_ok room_sync sync_ok by meson

lemma commit_append_failed:
  assumes "dead s \<or> holds s ps" "append p s = (Inl e, s1)" "room s1"
  shows "dead s1 \<or> holds s1 ps"
  using assms append_err dead_append by metis

lemma commit_alive:
  assumes "dead s \<or> holds s ps" "append p s = (Inr x, s1)"
  shows "holds s ps"
  using assms dead_append by (metis Inl_Inr_False)

end

definition log_append :: "bytes \<Rightarrow> wal \<Rightarrow> (wal_error + log_offset) \<times> wal" where
  "log_append p g = (case wal_append p g of (r, wakers, g') \<Rightarrow> (r, g'))"

definition log_tick :: "wal \<Rightarrow> (wal_error + nat) \<times> wal" where
  "log_tick g = (case wal_tick g of (r, wakers, g') \<Rightarrow> (r, g'))"

definition log_holds :: "wal \<Rightarrow> bytes list \<Rightarrow> bool" where
  "log_holds g ps \<longleftrightarrow> (\<exists>L. wal_holds g L \<and> concat L = ps)"

definition wal_room :: "wal \<Rightarrow> bool" where
  "wal_room g \<longleftrightarrow> Suc (current_segment_index g) < 2 ^ 64"

lemma log_append_steps:
  assumes "log_append p g = (r, g')"
  obtains wk where "wal_append p g = (r, wk, g')"
  using assms by (auto simp: log_append_def split: prod.splits)

lemma log_tick_steps:
  assumes "log_tick g = (r, g')"
  obtains wk where "wal_tick g = (r, wk, g')"
  using assms by (auto simp: log_tick_def split: prod.splits)

lemma wal_room_mono: "current_segment_index g \<le> current_segment_index g' \<Longrightarrow> wal_room g' \<Longrightarrow> wal_room g"
  unfolding wal_room_def by linarith

interpretation wal_log: durable_log log_append log_tick log_holds w_poisoned wal_room
proof
  fix g g' ps p x assume h: "log_holds g ps" "wal_room g'" "log_append p g = (Inr x, g')"
  from h(3) obtain wk where a: "wal_append p g = (Inr x, wk, g')" by (rule log_append_steps)
  have "wal_room g" using wal_room_mono [OF wal_append_index [OF a] h(2)] .
  with h(1) wal_append_ok [OF _ _ a] show "log_holds g' (ps @ [p])"
    unfolding log_holds_def wal_room_def by metis
next
  fix g g' ps p e assume h: "log_holds g ps" "wal_room g'" "log_append p g = (Inl e, g')"
  from h(3) obtain wk where a: "wal_append p g = (Inl e, wk, g')" by (rule log_append_steps)
  have "wal_room g" using wal_room_mono [OF wal_append_index [OF a] h(2)] .
  with h(1) wal_append_err [OF _ _ a] show "w_poisoned g' \<or> log_holds g' ps"
    unfolding log_holds_def wal_room_def by metis
next
  fix g g' ps n assume h: "log_holds g ps" "log_tick g = (Inr n, g')"
  from h(2) obtain wk where t: "wal_tick g = (Inr n, wk, g')" by (rule log_tick_steps)
  then obtain u where u: "drain_tick g = (u, wk, g')" and un: "Inr n = map_sum id (\<lambda>_. length wk) u" by (rule wal_tick_eq)
  from h(1) obtain L where L: "wal_holds g L" "concat L = ps" by (auto simp: log_holds_def)
  have "\<not> w_poisoned g'"
    using wal_holdsD(1) [OF L(1)] u
  proof (cases rule: drain_tick_spec)
    case (failed e d)
    with un show ?thesis by simp
  next
    case (synced d)
    from drain_fields [OF synced(3)] wal_holdsD(1) [OF L(1)] show ?thesis
      by (metis wal.ext_inject wal.surjective wal.update_convs)
  qed
  with wal_tick_holds [OF L(1) t] L show "log_holds g' ps" by (auto simp: log_holds_def)
next
  fix g e g' assume "log_tick g = (Inl e, g')"
  then show "w_poisoned g'"
    by (auto simp: log_tick_def wal_tick_def drain_tick_def drain_all_waiters_def
        split: prod.splits sum.splits if_splits)
next
  fix g p r g' assume "w_poisoned g" "log_append p g = (r, g')"
  then show "g' = g \<and> (\<exists>e. r = Inl e)" by (auto simp: log_append_def wal_append_def split: if_splits)
next
  fix g r g' assume "w_poisoned g" "log_tick g = (r, g')"
  then show "g' = g" by (auto simp: log_tick_def wal_tick_def drain_tick_def)
next
  fix p g r g' assume h: "log_append p g = (r, g')" "wal_room g'"
  from h(1) show "wal_room g"
    by (rule log_append_steps) (use wal_append_index wal_room_mono h(2) in blast)
next
  fix g r g' assume h: "log_tick g = (r, g')" "wal_room g'"
  from h(1) show "wal_room g"
    by (rule log_tick_steps) (use wal_step_index step_tick wal_room_mono h(2) in blast)
qed

section \<open>Concrete instances\<close>

definition fresh_wal :: wal where
  "fresh_wal = \<lparr>w_disk = \<lparr>md_names = [(wal_name_for 0, 0)], md_store = [[]], md_faults = []\<rparr>,
     segment_size_bytes = 64, current_segment_index = 0, w_current = 0,
     staged_end = LogOffset 0 0, durable_end = LogOffset 0 0, w_waiters = [], w_poisoned = False\<rparr>"

lemma valid0: "validate_name (wal_name_for 0) = Inr ()"
  by code_simp

lemma fresh_wal_open: "wal_open MemDisk_new 64 = (Inr fresh_wal, w_disk fresh_wal)"
  by (simp add: wal_open_def list_segments_def disk_list_def disk_check_def faults_check_def
      faults_take_def MemDisk_new_def wal_open_current_def disk_create_def disk_sync_dir_def
      valid0 fresh_wal_def file_len_def map_filter_simps Let_def)

lemma fresh_wal_holds: "wal_holds fresh_wal [[]]"
  by (rule wal_open_fresh [OF _ _ fresh_wal_open])
    (simp_all add: disk_inv_def wal_segment_list_def MemDisk_new_def map_filter_simps)

theorem wal_run_refines_witness:
  "\<exists>L'. wal_holds (snd (snd (wal_append [1, 2, 3] fresh_wal))) L' \<and> concat L' = [[1, 2, 3]]"
proof -
  let ?g = "snd (snd (wal_append [1, 2, 3] fresh_wal))"
  have app: "wal_append [1, 2, 3] fresh_wal = (Inr (LogOffset 0 11), [], ?g)"
    and g: "current_segment_index ?g = 0" "\<not> w_poisoned ?g"
    by (simp_all add: wal_append_def append_frame_def file_append_def faults_take_def fresh_wal_def
        MAX_PAYLOAD_LEN_def HEADER_LEN_def Let_def)
  have "wal_run fresh_wal ([] @ [[1, 2, 3]]) ?g"
    by (rule run_snoc [OF run_nil step_append [OF app]])
  from wal_run_refines [OF this fresh_wal_holds] g show ?thesis by simp
qed

definition poisoned_wal :: wal where
  "poisoned_wal = fresh_wal\<lparr>w_poisoned := True\<rparr>"

theorem wal_poison_absorbing_witness:
  "wal_append [1] poisoned_wal = (Inl Poisoned, [], poisoned_wal) \<and>
   commit_poll (LogOffset 0 9) 7 poisoned_wal = (Ready (Inl Poisoned), poisoned_wal)"
  using wal_poison_absorbing [OF _ run_nil, of poisoned_wal "[1]" "LogOffset 0 9" 7]
  by (simp add: poisoned_wal_def fresh_wal_def MAX_PAYLOAD_LEN_def less_eq_log_offset_def)

definition waiting_wal :: wal where
  "waiting_wal = fresh_wal\<lparr>staged_end := LogOffset 0 11,
     w_waiters := [\<lparr>w_target = LogOffset 0 11, w_wakers = [7]\<rparr>]\<rparr>"

lemma waiting_wal_ok: "waiters_ok waiting_wal" "is_parked (LogOffset 0 11) 7 waiting_wal"
  by (simp_all add: waiting_wal_def fresh_wal_def waiters_ok_def is_parked_def less_eq_log_offset_def)

theorem wal_no_lost_wakeup_witness:
  "waiters_ok (snd (snd (wal_append [1] waiting_wal)))"
proof -
  obtain r wk where "wal_append [1] waiting_wal = (r, wk, snd (snd (wal_append [1] waiting_wal)))"
    by (metis prod.collapse)
  then have "\<exists>ps. wal_step waiting_wal ps wk (snd (snd (wal_append [1] waiting_wal)))"
    by (cases r) (metis step_append step_append_err)+
  then show ?thesis using wal_no_lost_wakeup [OF waiting_wal_ok] by blast
qed

theorem wal_tick_settles_witness:
  "7 \<in> set (fst (snd (wal_tick waiting_wal))) \<and>
   commit_poll (LogOffset 0 11) 7 (snd (snd (wal_tick waiting_wal))) =
     (Ready (Inr ()), snd (snd (wal_tick waiting_wal)))"
proof -
  let ?t = "wal_tick waiting_wal"
  obtain r wk g where t: "?t = (r, wk, g)" by (metis prod.collapse)
  moreover from t have "\<exists>n. r = Inr n"
    by (auto simp: wal_tick_def drain_tick_def waiting_wal_def fresh_wal_def file_sync_def
        disk_check_def faults_check_def faults_take_def split: prod.splits)
  moreover have "\<not> w_poisoned waiting_wal" "LogOffset 0 11 \<le> staged_end waiting_wal"
    by (simp_all add: waiting_wal_def fresh_wal_def)
  ultimately show ?thesis
    using wal_tick_settles [OF waiting_wal_ok(1) _ t waiting_wal_ok(2)] by auto
qed
end
