(* ===== verification/Commit_Chain.thy ===== *)
theory Commit_Chain
  imports Hash Wal
begin

text \<open>
  The hash-chained commit log (\<open>crates/stele-txn/src/commit_record.rs\<close> and \<open>chain.rs\<close>): the 56-byte
  commit record and the walk that verifies a log from genesis. The iterator a verifier
  consumes is the list of items it yields, each a WAL error or a payload.
\<close>

section \<open>Commit records\<close>

definition COMMIT_RECORD_LEN :: nat where "COMMIT_RECORD_LEN = 8 + 8 + 8 + SHA256_LEN"

record commit_record =
  cr_txn_id :: u64
  cr_commit_ts :: i64
  cr_seq :: u64
  cr_prev_hash :: digest

datatype commit_record_error = CommitRecordError nat

definition CommitRecord_encode :: "commit_record \<Rightarrow> bytes" where
  "CommitRecord_encode r =
     u64_le (cr_txn_id r) @ i64_le (cr_commit_ts r) @ u64_le (cr_seq r) @ as_bytes (cr_prev_hash r)"

definition CommitRecord_hash :: "commit_record \<Rightarrow> digest" where
  "CommitRecord_hash r = sha256 (CommitRecord_encode r)"

definition CommitRecord_decode :: "bytes \<Rightarrow> commit_record_error + commit_record" where
  "CommitRecord_decode bs =
     (if length bs \<noteq> COMMIT_RECORD_LEN then Inl (CommitRecordError (length bs))
      else Inr \<lparr>cr_txn_id = u64_of_le (sub_slice 0 8 bs), cr_commit_ts = i64_of_le (sub_slice 8 16 bs),
                cr_seq = u64_of_le (sub_slice 16 24 bs), cr_prev_hash = Digest (drop 24 bs)\<rparr>)"

text \<open>The array type \<open>[u8; 32]\<close> of the link as a predicate.\<close>

definition cr_wf :: "commit_record \<Rightarrow> bool" where
  "cr_wf r \<longleftrightarrow> length (as_bytes (cr_prev_hash r)) = SHA256_LEN"

section \<open>Chain verification\<close>

record chain_head =
  ch_head :: digest
  ch_len :: u64

record recovered_chain =
  rc_head :: digest
  rc_len :: u64
  rc_commit_ts :: i64
  rc_seq :: u64
  rc_max_txn_id :: u64

datatype chain_error =
    Replay nat wal_error
  | Decode nat commit_record_error
  | BrokenLink nat digest digest
  | HeadMismatch digest digest

definition rc_genesis :: recovered_chain where
  "rc_genesis = \<lparr>rc_head = Digest_ZERO, rc_len = 0, rc_commit_ts = i64_of 0, rc_seq = 0,
                 rc_max_txn_id = 0\<rparr>"

text \<open>The loop body of \<open>verify_chain_recover\<close>, and the loop over the enumerated items.\<close>

definition chain_step ::
  "nat \<Rightarrow> wal_error + bytes \<Rightarrow> recovered_chain \<Rightarrow> chain_error + recovered_chain" where
  "chain_step index item st =
     result_bind (map_err (Replay index) item) (\<lambda>bs.
     result_bind (map_err (Decode index) (CommitRecord_decode bs)) (\<lambda>record.
       if cr_prev_hash record \<noteq> rc_head st
       then Inl (BrokenLink index (rc_head st) (cr_prev_hash record))
       else Inr \<lparr>rc_head = CommitRecord_hash record, rc_len = rc_len st + 1,
                 rc_commit_ts = cr_commit_ts record, rc_seq = cr_seq record,
                 rc_max_txn_id = (if rc_max_txn_id st < cr_txn_id record then cr_txn_id record
                                  else rc_max_txn_id st)\<rparr>))"

fun chain_loop ::
  "nat \<Rightarrow> (wal_error + bytes) list \<Rightarrow> recovered_chain \<Rightarrow> chain_error + recovered_chain" where
  "chain_loop index [] st = Inr st"
| "chain_loop index (item # items) st =
     result_bind (chain_step index item st) (\<lambda>st'. chain_loop (Suc index) items st')"

definition verify_chain_recover :: "(wal_error + bytes) list \<Rightarrow> chain_error + recovered_chain" where
  "verify_chain_recover records = chain_loop 0 records rc_genesis"

definition verify_chain :: "(wal_error + bytes) list \<Rightarrow> chain_error + chain_head" where
  "verify_chain records =
     result_bind (verify_chain_recover records) (\<lambda>r.
       Inr \<lparr>ch_head = rc_head r, ch_len = rc_len r\<rparr>)"

definition verify_chain_to :: "(wal_error + bytes) list \<Rightarrow> digest \<Rightarrow> chain_error + chain_head" where
  "verify_chain_to records expected_head =
     result_bind (verify_chain records) (\<lambda>verified.
       if ch_head verified \<noteq> expected_head
       then Inl (HeadMismatch expected_head (ch_head verified)) else Inr verified)"

section \<open>Round trip\<close>

lemma length_CommitRecord_encode: "cr_wf r \<Longrightarrow> length (CommitRecord_encode r) = COMMIT_RECORD_LEN"
  by (simp add: CommitRecord_encode_def cr_wf_def COMMIT_RECORD_LEN_def)

lemma decode_encode: "cr_wf r \<Longrightarrow> CommitRecord_decode (CommitRecord_encode r) = Inr r"
  unfolding CommitRecord_decode_def
  by (simp only: length_CommitRecord_encode)
    (simp add: CommitRecord_encode_def sub_slice_frame)

lemma encode_decode:
  assumes "CommitRecord_decode bs = Inr r"
  shows "CommitRecord_encode r = bs" and "cr_wf r"
proof -
  from assms have len: "length bs = 56"
    by (auto simp: CommitRecord_decode_def COMMIT_RECORD_LEN_def SHA256_LEN_def split: if_splits)
  have "sub_slice 0 8 bs @ sub_slice 8 16 bs @ sub_slice 16 24 bs @ drop 24 bs = bs"
    by (simp add: sub_slice_drop)
  with len assms show "CommitRecord_encode r = bs" and "cr_wf r"
    by (auto simp: CommitRecord_decode_def CommitRecord_encode_def cr_wf_def COMMIT_RECORD_LEN_def
        SHA256_LEN_def codec_inverse split: if_splits)
qed

text \<open>
  The commit-record codec is a bijection between records and 56-byte strings: a record
  decodes from its own encoding, every string of the right length is the encoding of what it
  decodes to, and every other length is refused with that length.
\<close>

theorem commit_record_roundtrip:
  "(cr_wf r \<longrightarrow> CommitRecord_decode (CommitRecord_encode r) = Inr r) \<and>
   (CommitRecord_decode bs = Inr r' \<longleftrightarrow> CommitRecord_encode r' = bs \<and> cr_wf r') \<and>
   (length bs \<noteq> 56 \<longrightarrow> CommitRecord_decode bs = Inl (CommitRecordError (length bs)))"
proof -
  have "length bs \<noteq> 56 \<longrightarrow> CommitRecord_decode bs = Inl (CommitRecordError (length bs))"
    by (simp add: CommitRecord_decode_def COMMIT_RECORD_LEN_def SHA256_LEN_def)
  then show ?thesis using decode_encode encode_decode by blast
qed

section \<open>What a verified log is\<close>

text \<open>The specification: each record carries the hash of the one before it.\<close>

fun linked :: "digest \<Rightarrow> commit_record list \<Rightarrow> bool" where
  "linked prev [] \<longleftrightarrow> True"
| "linked prev (r # rs) \<longleftrightarrow> cr_prev_hash r = prev \<and> linked (CommitRecord_hash r) rs"

fun chain_hash :: "digest \<Rightarrow> commit_record list \<Rightarrow> digest" where
  "chain_hash prev [] = prev"
| "chain_hash prev (r # rs) = chain_hash (CommitRecord_hash r) rs"

definition log_items :: "commit_record list \<Rightarrow> (wal_error + bytes) list" where
  "log_items rs = map (\<lambda>r. Inr (CommitRecord_encode r)) rs"

definition rc_push :: "recovered_chain \<Rightarrow> commit_record \<Rightarrow> recovered_chain" where
  "rc_push st r = \<lparr>rc_head = CommitRecord_hash r, rc_len = rc_len st + 1, rc_commit_ts = cr_commit_ts r,
     rc_seq = cr_seq r, rc_max_txn_id = max (rc_max_txn_id st) (cr_txn_id r)\<rparr>"

definition rc_of :: "recovered_chain \<Rightarrow> commit_record list \<Rightarrow> recovered_chain" where
  "rc_of st rs = foldl rc_push st rs"

lemma linked_snoc [simp]: "linked p (rs @ [r]) \<longleftrightarrow> linked p rs \<and> cr_prev_hash r = chain_hash p rs"
  by (induction rs arbitrary: p) auto

lemma chain_hash_snoc [simp]: "chain_hash p (rs @ [r]) = CommitRecord_hash r"
  by (induction rs arbitrary: p) auto

lemma rc_of_snoc [simp]: "rc_of st (rs @ [r]) = rc_push (rc_of st rs) r"
  by (simp add: rc_of_def)

lemma rc_of_Nil [simp]: "rc_of st [] = st"
  by (simp add: rc_of_def)

lemma rc_of_head: "rc_head (rc_of st rs) = chain_hash (rc_head st) rs"
  by (induction rs rule: rev_induct) (simp_all add: rc_push_def)

lemma chain_step_ok:
  "chain_step i item st = Inr st' \<longleftrightarrow>
     (\<exists>r. item = Inr (CommitRecord_encode r) \<and> cr_wf r \<and> cr_prev_hash r = rc_head st \<and> st' = rc_push st r)"
proof
  assume "chain_step i item st = Inr st'"
  then obtain bs r where item: "item = Inr bs" and d: "CommitRecord_decode bs = Inr r"
    and "cr_prev_hash r = rc_head st" "st' = rc_push st r"
    by (auto simp: chain_step_def result_simps rc_push_def max_def not_less split: if_splits)
  then show "\<exists>r. item = Inr (CommitRecord_encode r) \<and> cr_wf r \<and> cr_prev_hash r = rc_head st \<and> st' = rc_push st r"
    using encode_decode [OF d] by auto
next
  assume "\<exists>r. item = Inr (CommitRecord_encode r) \<and> cr_wf r \<and> cr_prev_hash r = rc_head st \<and> st' = rc_push st r"
  then show "chain_step i item st = Inr st'"
    by (auto simp: chain_step_def decode_encode rc_push_def max_def not_less)
qed

lemma chain_loop_ok:
  "chain_loop i items st = Inr st' \<longleftrightarrow>
     (\<exists>rs. items = log_items rs \<and> list_all cr_wf rs \<and> linked (rc_head st) rs \<and> st' = rc_of st rs)"
proof (induction items arbitrary: i st)
  case Nil
  then show ?case by (auto simp: log_items_def)
next
  case (Cons item items)
  have push: "rc_head (rc_push st r) = CommitRecord_hash r" "rc_of st (r # rs) = rc_of (rc_push st r) rs" for r rs
    by (simp_all add: rc_push_def rc_of_def)
  show ?case
  proof
    assume "chain_loop i (item # items) st = Inr st'"
    then obtain st1 where s1: "chain_step i item st = Inr st1" and s2: "chain_loop (Suc i) items st1 = Inr st'"
      by (auto simp: result_simps)
    from s1 obtain r where r: "item = Inr (CommitRecord_encode r)" "cr_wf r" "cr_prev_hash r = rc_head st"
      "st1 = rc_push st r" by (auto simp: chain_step_ok)
    from s2 Cons.IH obtain rs where "items = log_items rs" "list_all cr_wf rs" "linked (rc_head st1) rs"
      "st' = rc_of st1 rs" by blast
    with r push show "\<exists>rs. item # items = log_items rs \<and> list_all cr_wf rs \<and> linked (rc_head st) rs \<and> st' = rc_of st rs"
      by (intro exI [of _ "r # rs"]) (simp add: log_items_def)
  next
    assume "\<exists>rs. item # items = log_items rs \<and> list_all cr_wf rs \<and> linked (rc_head st) rs \<and> st' = rc_of st rs"
    then obtain r rs where r: "item = Inr (CommitRecord_encode r)" "items = log_items rs" "cr_wf r" "list_all cr_wf rs"
      "cr_prev_hash r = rc_head st" "linked (CommitRecord_hash r) rs" "st' = rc_of st (r # rs)"
      by (auto simp: log_items_def Cons_eq_map_conv)
    have "chain_step i item st = Inr (rc_push st r)" using r chain_step_ok by blast
    moreover have "chain_loop (Suc i) items (rc_push st r) = Inr st'"
      using r push Cons.IH [of "Suc i" "rc_push st r"] by auto
    ultimately show "chain_loop i (item # items) st = Inr st'" by simp
  qed
qed

text \<open>
  Verification accepts exactly the well-linked logs, and recovers exactly their tail: the head
  hash, the last commit timestamp and sequence number, and the largest transaction id.
\<close>

theorem verify_chain_recover_exact:
  "verify_chain_recover items = Inr rc \<longleftrightarrow>
     (\<exists>rs. items = log_items rs \<and> list_all cr_wf rs \<and> linked Digest_ZERO rs \<and> rc = rc_of rc_genesis rs)"
  by (simp add: verify_chain_recover_def chain_loop_ok rc_genesis_def)

text \<open>
  A broken link is reported where it is: an error \<open>BrokenLink i expected found\<close> means that the
  first \<open>i\<close> records verify to the head \<open>expected\<close>, and record \<open>i\<close> is well formed but carries
  \<open>found\<close> instead.
\<close>

theorem verify_chain_broken_link:
  assumes "verify_chain_recover items = Inl (BrokenLink i expected found)"
  shows "\<exists>rs r rest. items = log_items rs @ Inr (CommitRecord_encode r) # rest \<and> length rs = i \<and>
     verify_chain_recover (log_items rs) = Inr (rc_of rc_genesis rs) \<and>
     rc_head (rc_of rc_genesis rs) = expected \<and> cr_prev_hash r = found \<and> found \<noteq> expected"
proof -
  have "chain_loop k items st = Inl (BrokenLink i expected found) \<Longrightarrow>
    \<exists>rs r rest. items = log_items rs @ Inr (CommitRecord_encode r) # rest \<and> k + length rs = i \<and>
      list_all cr_wf rs \<and> linked (rc_head st) rs \<and> rc_head (rc_of st rs) = expected \<and>
      cr_prev_hash r = found \<and> found \<noteq> expected" for k st
  proof (induction items arbitrary: k st)
    case (Cons item items)
    show ?case
    proof (cases "chain_step k item st")
      case (Inl e)
      with Cons.prems have "chain_step k item st = Inl (BrokenLink i expected found)" by simp
      then obtain bs r where "item = Inr bs" "CommitRecord_decode bs = Inr r" "k = i" "rc_head st = expected"
        "cr_prev_hash r = found" "found \<noteq> expected"
        by (auto simp: chain_step_def result_simps map_err_def split: if_splits sum.splits)
      with encode_decode [of bs r] show ?thesis
        by (intro exI [of _ "[]"] exI [of _ r] exI [of _ items]) (simp add: log_items_def)
    next
      case (Inr st1)
      then obtain r0 where r0: "item = Inr (CommitRecord_encode r0)" "cr_wf r0" "cr_prev_hash r0 = rc_head st"
        "st1 = rc_push st r0" by (auto simp: chain_step_ok)
      from Inr Cons.prems Cons.IH [of "Suc k" st1] obtain rs r rest where
        "items = log_items rs @ Inr (CommitRecord_encode r) # rest" "Suc k + length rs = i"
        "list_all cr_wf rs" "linked (rc_head st1) rs" "rc_head (rc_of st1 rs) = expected"
        "cr_prev_hash r = found" "found \<noteq> expected" by auto
      with r0 show ?thesis
        by (intro exI [of _ "r0 # rs"] exI [of _ r] exI [of _ rest])
          (simp add: log_items_def rc_push_def rc_of_def)
    qed
  qed simp
  from this [of 0 rc_genesis] assms obtain rs r rest where
    f: "items = log_items rs @ Inr (CommitRecord_encode r) # rest" "length rs = i"
      "list_all cr_wf rs" "linked Digest_ZERO rs" "rc_head (rc_of rc_genesis rs) = expected"
      "cr_prev_hash r = found" "found \<noteq> expected"
    by (auto simp: verify_chain_recover_def rc_genesis_def)
  moreover have "verify_chain_recover (log_items rs) = Inr (rc_of rc_genesis rs)"
    unfolding verify_chain_recover_def chain_loop_ok using f by (auto simp: rc_genesis_def)
  ultimately show ?thesis by blast
qed

section \<open>Tamper evidence\<close>

definition sha256_collision :: "bytes \<Rightarrow> bytes \<Rightarrow> bool" where
  "sha256_collision x y \<longleftrightarrow> x \<noteq> y \<and> sha256 x = sha256 y"

lemma linked_head_inject:
  assumes "linked Digest_ZERO rs" "linked Digest_ZERO qs" "list_all cr_wf rs" "list_all cr_wf qs"
    and "chain_hash Digest_ZERO rs = chain_hash Digest_ZERO qs"
  shows "rs = qs \<or> (\<exists>r\<in>set rs. \<exists>q\<in>set qs. sha256_collision (CommitRecord_encode r) (CommitRecord_encode q)) \<or>
    (\<exists>r\<in>set rs \<union> set qs. CommitRecord_hash r = Digest_ZERO)"
  using assms
proof (induction rs arbitrary: qs rule: rev_induct)
  case Nil
  then show ?case by (cases qs rule: rev_cases) auto
next
  case (snoc r rs)
  show ?case
  proof (cases "qs = []")
    case True
    with snoc.prems show ?thesis by auto
  next
    case False
    then obtain ps q where qs: "qs = ps @ [q]" using rev_exhaust by blast
    have h: "sha256 (CommitRecord_encode r) = sha256 (CommitRecord_encode q)"
      using snoc.prems(5) by (simp add: CommitRecord_hash_def qs)
    show ?thesis
    proof (cases "CommitRecord_encode r = CommitRecord_encode q")
      case True
      have "cr_wf r" "cr_wf q" using snoc.prems(3,4) by (simp_all add: qs)
      with True have eq: "r = q" using decode_encode by (metis sum.inject(2))
      have "chain_hash Digest_ZERO rs = chain_hash Digest_ZERO ps" using snoc.prems(1,2) by (simp add: qs eq)
      with snoc.IH [of ps] snoc.prems(1-4) show ?thesis unfolding qs eq by auto
    next
      case False
      with h show ?thesis unfolding qs by (auto simp: sha256_collision_def)
    qed
  qed
qed

text \<open>
  C34. Tamper evidence. If two logs both verify against the same anchored head, they are
  identical, or the two logs exhibit a SHA-256 collision between two of their frames, or one of
  their frames hashes to the all-zero digest. So no rewrite of history, single record or wholesale,
  truncated or extended, passes \<open>verify_chain_to\<close> without breaking SHA-256.
\<close>

theorem verify_chain_to_tamper_evident:
  assumes "verify_chain_to log1 head = Inr c1" and "verify_chain_to log2 head = Inr c2"
  shows "log1 = log2 \<or>
     (\<exists>x y. Inr x \<in> set log1 \<and> Inr y \<in> set log2 \<and> sha256_collision x y) \<or>
     (\<exists>x. (Inr x \<in> set log1 \<or> Inr x \<in> set log2) \<and> sha256 x = Digest_ZERO)"
proof -
  have ex: "\<exists>rs. log = log_items rs \<and> list_all cr_wf rs \<and> linked Digest_ZERO rs \<and> chain_hash Digest_ZERO rs = head"
    if "verify_chain_to log head = Inr c" for log c
  proof -
    from that obtain rc where rc: "chain_loop 0 log rc_genesis = Inr rc" "rc_head rc = head"
      by (auto simp: verify_chain_to_def verify_chain_def verify_chain_recover_def result_simps split: if_splits)
    from rc(1) [unfolded chain_loop_ok] rc(2) show ?thesis
      using rc_of_head [of rc_genesis] by (fastforce simp: rc_genesis_def)
  qed
  from ex [OF assms(1)] ex [OF assms(2)] obtain rs qs where
    rs: "log1 = log_items rs" "list_all cr_wf rs" "linked Digest_ZERO rs" "chain_hash Digest_ZERO rs = head"
    and qs: "log2 = log_items qs" "list_all cr_wf qs" "linked Digest_ZERO qs" "chain_hash Digest_ZERO qs = head"
    by blast
  have head: "chain_hash Digest_ZERO rs = chain_hash Digest_ZERO qs" using rs(4) qs(4) by simp
  have mem: "Inr (CommitRecord_encode r) \<in> set log1" if "r \<in> set rs" for r
    using that by (auto simp: rs(1) log_items_def)
  have mem': "Inr (CommitRecord_encode r) \<in> set log2" if "r \<in> set qs" for r
    using that by (auto simp: qs(1) log_items_def)
  from linked_head_inject [OF rs(3) qs(3) rs(2) qs(2) head] show ?thesis
    unfolding CommitRecord_hash_def using rs(1) qs(1) mem mem' by blast
qed

section \<open>Concrete instances\<close>

definition first_commit :: commit_record where
  "first_commit = \<lparr>cr_txn_id = 1, cr_commit_ts = i64_of 10, cr_seq = 1, cr_prev_hash = Digest_ZERO\<rparr>"

lemma first_commit_wf: "cr_wf first_commit"
  by (simp add: cr_wf_def first_commit_def Digest_ZERO_def)

theorem commit_record_roundtrip_witness:
  "CommitRecord_decode (CommitRecord_encode first_commit) = Inr first_commit \<and>
   CommitRecord_decode [1, 2, 3] = Inl (CommitRecordError 3)"
  using commit_record_roundtrip [of first_commit "[1, 2, 3]"] first_commit_wf by simp

lemma first_commit_verifies:
  "verify_chain_to (log_items [first_commit]) (CommitRecord_hash first_commit) =
     Inr \<lparr>ch_head = CommitRecord_hash first_commit, ch_len = 1\<rparr>"
proof -
  have "cr_prev_hash first_commit = Digest_ZERO" by (simp add: first_commit_def)
  then show ?thesis
    by (simp add: verify_chain_to_def verify_chain_def verify_chain_recover_def log_items_def chain_step_def
        decode_encode [OF first_commit_wf] rc_genesis_def)
qed

theorem verify_chain_to_tamper_evident_witness:
  "log_items [first_commit] = log_items [first_commit] \<or>
     (\<exists>x y. Inr x \<in> set (log_items [first_commit]) \<and> Inr y \<in> set (log_items [first_commit]) \<and>
        sha256_collision x y) \<or>
     (\<exists>x. (Inr x \<in> set (log_items [first_commit]) \<or> Inr x \<in> set (log_items [first_commit])) \<and>
        sha256 x = Digest_ZERO)"
  by (rule verify_chain_to_tamper_evident [OF first_commit_verifies first_commit_verifies])

definition orphan_commit :: commit_record where
  "orphan_commit = first_commit\<lparr>cr_prev_hash := Digest (replicate SHA256_LEN 1)\<rparr>"

theorem verify_chain_broken_link_witness:
  "\<exists>rs r rest. log_items [orphan_commit] = log_items rs @ Inr (CommitRecord_encode r) # rest \<and> length rs = 0 \<and>
     verify_chain_recover (log_items rs) = Inr (rc_of rc_genesis rs) \<and>
     rc_head (rc_of rc_genesis rs) = Digest_ZERO \<and> cr_prev_hash r = Digest (replicate SHA256_LEN 1) \<and>
     Digest (replicate SHA256_LEN 1) \<noteq> Digest_ZERO"
proof (rule verify_chain_broken_link)
  have "cr_wf orphan_commit" "cr_prev_hash orphan_commit = Digest (replicate SHA256_LEN 1)"
    "Digest (replicate SHA256_LEN 1) \<noteq> Digest_ZERO"
    by (simp_all add: cr_wf_def orphan_commit_def Digest_ZERO_def SHA256_LEN_def numeral_eq_Suc)
  then show "verify_chain_recover (log_items [orphan_commit]) =
      Inl (BrokenLink 0 Digest_ZERO (Digest (replicate SHA256_LEN 1)))"
    by (simp add: verify_chain_recover_def log_items_def chain_step_def decode_encode rc_genesis_def)
qed

end
