(* ===== verification/Wal_Replay.thy ===== *)
theory Wal_Replay
  imports Wal
begin

text \<open>
  Log replay (\<open>crates/stele-storage/src/wal/replay.rs\<close> and the segment readers of \<open>log.rs\<close>). The
  iterator keeps a cursor and the segment listing taken at construction; each read goes through the
  log's disk, so the disk's fault schedule is threaded through it. \<open>read_next\<close> is a loop that the
  source does not bound, so it is a partial function: \<open>None\<close> is divergence. It is proved to return
  whenever the listing has no duplicates.
\<close>

section \<open>Segment access\<close>

definition read_segment :: "nat \<Rightarrow> nat \<Rightarrow> nat \<Rightarrow> wal \<Rightarrow> (io_error + bytes) \<times> wal" where
  "read_segment seg off n g =
     (if seg = current_segment_index g
      then (case file_read_at (w_current g) off n (w_disk g) of (r, d) \<Rightarrow> (r, g\<lparr>w_disk := d\<rparr>))
      else (case disk_open (wal_name_for seg) (w_disk g) of
              (Inl e, d) \<Rightarrow> (Inl e, g\<lparr>w_disk := d\<rparr>)
            | (Inr f, d) \<Rightarrow> (case file_read_at f off n d of (r, d') \<Rightarrow> (r, g\<lparr>w_disk := d'\<rparr>))))"

definition segment_len :: "nat \<Rightarrow> wal \<Rightarrow> (io_error + nat) \<times> wal" where
  "segment_len seg g =
     (if seg = current_segment_index g then (Inr (file_len (w_disk g) (w_current g)), g)
      else (case disk_open (wal_name_for seg) (w_disk g) of
              (Inl e, d) \<Rightarrow> (Inl e, g\<lparr>w_disk := d\<rparr>)
            | (Inr f, d) \<Rightarrow> (Inr (file_len d f), g\<lparr>w_disk := d\<rparr>)))"

definition known_segments :: "wal \<Rightarrow> (io_error + nat list) \<times> wal" where
  "known_segments g = (case list_segments (w_disk g) of (r, d) \<Rightarrow> (r, g\<lparr>w_disk := d\<rparr>))"

section \<open>The iterator\<close>

text \<open>
  \<open>read_record\<close> has one unreachable panic, the \<open>expect("8 bytes parses")\<close>: a header buffer of
  \<open>HEADER_LEN\<close> bytes always parses. It appears here as an error value no run returns.
\<close>

record replay =
  rp_position :: log_offset
  rp_segments :: "nat list"
  rp_stopped :: bool
  rp_init_error :: "wal_error option"

definition Replay_new :: "wal \<Rightarrow> log_offset \<Rightarrow> replay \<times> wal" where
  "Replay_new g checkpoint =
     (case known_segments g of
        (Inr s, g') \<Rightarrow> (\<lparr>rp_position = checkpoint, rp_segments = s, rp_stopped = False,
                         rp_init_error = None\<rparr>, g')
      | (Inl e, g') \<Rightarrow> (\<lparr>rp_position = checkpoint, rp_segments = [], rp_stopped = False,
                         rp_init_error = Some (WalIo e)\<rparr>, g'))"

definition corrupt :: "string \<Rightarrow> wal_error" where
  "corrupt msg = WalIo (IoError InvalidData msg)"

text \<open>\<open>slice::binary_search\<close> on a sorted slice: an index holding the key (here the first).\<close>

definition binary_search :: "nat list \<Rightarrow> nat \<Rightarrow> nat option" where
  "binary_search xs x = (if x \<in> set xs then Some (length (takeWhile (\<lambda>y. y \<noteq> x) xs)) else None)"

definition read_record ::
  "nat \<Rightarrow> nat \<Rightarrow> replay \<Rightarrow> wal \<Rightarrow> (wal_error + bytes option) \<times> replay \<times> wal" where
  "read_record seg seg_len r g =
     (let pos = byte_offset (rp_position r); remaining = seg_len - pos in
      if remaining < HEADER_LEN then (Inl (corrupt ''incomplete record header at log tail''), r, g)
      else (case read_segment seg pos HEADER_LEN g of
        (Inl e, g1) \<Rightarrow> (Inl (WalIo e), r, g1)
      | (Inr header_buf, g1) \<Rightarrow>
          if length header_buf \<noteq> HEADER_LEN then (Inl (corrupt ''short read on record header''), r, g1)
          else (case parse_header header_buf of
            None \<Rightarrow> (Inl (corrupt ''8 bytes parses''), r, g1)
          | Some header \<Rightarrow>
              if MAX_PAYLOAD_LEN < unat (h_len header)
              then (Inl (corrupt ''declared record length exceeds MAX_PAYLOAD_LEN''), r, g1)
              else (let record_total = HEADER_LEN + unat (h_len header) in
                if remaining < record_total
                then (Inl (corrupt ''record payload exceeds segment tail''), r, g1)
                else (case read_segment seg (pos + HEADER_LEN) (unat (h_len header)) g1 of
                  (Inl e, g2) \<Rightarrow> (Inl (WalIo e), r, g2)
                | (Inr payload, g2) \<Rightarrow>
                    if length payload \<noteq> unat (h_len header)
                    then (Inl (corrupt ''short read on record payload''), r, g2)
                    else if \<not> record_verify header payload
                    then (Inl (corrupt ''crc32c mismatch''), r, g2)
                    else (Inr (Some payload),
                          r\<lparr>rp_position := LogOffset seg (pos + record_total)\<rparr>, g2))))))"

partial_function (option) read_next ::
  "replay \<Rightarrow> wal \<Rightarrow> ((wal_error + bytes option) \<times> replay \<times> wal) option" where
  "read_next r g =
     (let seg = segment_index (rp_position r) in
      case binary_search (rp_segments r) seg of
        None \<Rightarrow> Some (Inr None, r, g)
      | Some seg_idx \<Rightarrow>
          (case segment_len seg g of
             (Inl e, g1) \<Rightarrow> Some (Inl (WalIo e), r, g1)
           | (Inr len, g1) \<Rightarrow>
               if len \<le> byte_offset (rp_position r)
               then (if seg_idx + 1 < length (rp_segments r)
                     then read_next (r\<lparr>rp_position := LogOffset (rp_segments r ! (seg_idx + 1)) 0\<rparr>) g1
                     else Some (Inr None, r, g1))
               else Some (read_record seg len r g1)))"

definition replay_next ::
  "replay \<Rightarrow> wal \<Rightarrow> ((wal_error + bytes) option \<times> replay \<times> wal) option" where
  "replay_next r g =
     (if rp_stopped r then Some (None, r, g)
      else (case rp_init_error r of
        Some e \<Rightarrow> Some (Some (Inl e), r\<lparr>rp_init_error := None, rp_stopped := True\<rparr>, g)
      | None \<Rightarrow>
          (case read_next r g of
             None \<Rightarrow> None
           | Some (Inr (Some payload), r', g') \<Rightarrow> Some (Some (Inr payload), r', g')
           | Some (Inr None, r', g') \<Rightarrow> Some (None, r', g')
           | Some (Inl e, r', g') \<Rightarrow> Some (Some (Inl e), r'\<lparr>rp_stopped := True\<rparr>, g'))))"

text \<open>
  What recovery does with the iterator: collect payloads until it ends or yields its error
  (\<open>for record in wal.replay_from(..) { let payload = record?; .. }\<close>).
\<close>

partial_function (option) replay_collect ::
  "bytes list \<Rightarrow> replay \<Rightarrow> wal \<Rightarrow> (bytes list \<times> wal_error option \<times> replay \<times> wal) option" where
  "replay_collect acc r g =
     (case replay_next r g of
        None \<Rightarrow> None
      | Some (None, r', g') \<Rightarrow> Some (acc, None, r', g')
      | Some (Some (Inl e), r', g') \<Rightarrow> Some (acc, Some e, r', g')
      | Some (Some (Inr p), r', g') \<Rightarrow> replay_collect (acc @ [p]) r' g')"

section \<open>Reference: scanning segment bodies for frames\<close>

text \<open>The first frame of a byte string, if a complete intact one is there.\<close>

definition frame_split :: "bytes \<Rightarrow> (bytes \<times> bytes) option" where
  "frame_split bs =
     (if length bs < HEADER_LEN then None
      else let n = unat (u32_of_le (take 4 bs)); p = take n (drop 8 bs)
           in if n \<le> MAX_PAYLOAD_LEN \<and> HEADER_LEN + n \<le> length bs \<and>
                 crc32c p = u32_of_le (take 4 (drop 4 bs))
              then Some (p, drop (HEADER_LEN + n) bs) else None)"

lemma frame_split_shorter: "frame_split bs = Some (p, rest) \<Longrightarrow> length rest < length bs"
  by (auto simp: frame_split_def HEADER_LEN_def Let_def split: if_splits)

function parse_frames :: "bytes \<Rightarrow> bytes list \<times> bytes" where
  "parse_frames bs =
     (case frame_split bs of
        None \<Rightarrow> ([], bs)
      | Some (p, rest) \<Rightarrow> (case parse_frames rest of (ps, tail) \<Rightarrow> (p # ps, tail)))"
  by pat_completeness auto
termination
  by (relation "measure length") (auto dest: frame_split_shorter)

declare parse_frames.simps [simp del]

text \<open>Scan segment bodies in order; stop at the first one with bytes that are not whole frames.\<close>

fun scan_segments :: "bytes list \<Rightarrow> bytes list \<times> bool" where
  "scan_segments [] = ([], False)"
| "scan_segments (c # cs) =
     (case parse_frames c of (ps, tail) \<Rightarrow>
        if tail \<noteq> [] then (ps, True)
        else (case scan_segments cs of (qs, bad) \<Rightarrow> (ps @ qs, bad)))"

section \<open>Reading agrees with scanning\<close>

text \<open>Reading only consumes scheduled faults: the files stay as they are.\<close>

definition same_files :: "wal \<Rightarrow> wal \<Rightarrow> bool" where
  "same_files g g' \<longleftrightarrow> (\<exists>d. g' = g\<lparr>w_disk := d\<rparr> \<and> md_names d = md_names (w_disk g) \<and>
     md_store d = md_store (w_disk g) \<and> (md_faults (w_disk g) = [] \<longrightarrow> md_faults d = []))"

lemma same_files_refl [simp, intro]: "same_files g g"
  unfolding same_files_def by (rule exI [of _ "w_disk g"]) simp

lemma same_files_trans: "same_files g g1 \<Longrightarrow> same_files g1 g2 \<Longrightarrow> same_files g g2"
  unfolding same_files_def by fastforce

lemma same_filesD:
  assumes "same_files g g'"
  shows "md_names (w_disk g') = md_names (w_disk g)" "md_store (w_disk g') = md_store (w_disk g)"
    "current_segment_index g' = current_segment_index g" "w_current g' = w_current g"
    "md_faults (w_disk g) = [] \<Longrightarrow> md_faults (w_disk g') = []"
  using assms by (auto simp: same_files_def)

lemma disk_check_faults:
  "disk_check op d = (r, d') \<Longrightarrow> md_faults d = [] \<Longrightarrow> r = Inr () \<and> md_faults d' = []"
  by (auto simp: disk_check_def faults_check_def faults_take_def)

lemma disk_open_same:
  assumes "disk_open name d = (r, d')"
  shows "md_names d' = md_names d" "md_store d' = md_store d" "md_faults d = [] \<Longrightarrow> md_faults d' = []"
  using assms
  by (auto simp: disk_open_def dest: disk_check_fields_eq disk_check_faults
      split: sum.splits prod.splits option.splits)

lemma file_read_at_spec:
  assumes "file_read_at f off n d = (r, d')"
  shows "md_names d' = md_names d" "md_store d' = md_store d" "md_faults d = [] \<Longrightarrow> md_faults d' = []"
    and "md_faults d = [] \<Longrightarrow> \<exists>bs. r = Inr bs"
    and "r = Inr bs \<Longrightarrow> bs = take n (drop off (md_store d ! f))"
  using assms
  by (auto simp: file_read_at_def Let_def sub_slice_def min_def dest: disk_check_fields_eq disk_check_faults
      split: sum.splits prod.splits if_splits)

definition seg_present :: "wal \<Rightarrow> nat \<Rightarrow> bool" where
  "seg_present g seg \<longleftrightarrow> seg = current_segment_index g \<or> seg_file (w_disk g) seg \<noteq> None"

definition seg_content :: "wal \<Rightarrow> nat \<Rightarrow> bytes" where
  "seg_content g seg =
     (if seg = current_segment_index g then md_store (w_disk g) ! w_current g
      else case seg_file (w_disk g) seg of None \<Rightarrow> [] | Some f \<Rightarrow> md_store (w_disk g) ! f)"

lemma same_files_view:
  assumes "same_files g g'"
  shows "seg_content g' = seg_content g" "seg_present g' = seg_present g"
  using same_filesD [OF assms]
  by (auto simp: fun_eq_iff seg_content_def seg_present_def seg_file_def split: option.splits)

lemma disk_open_segment:
  assumes "disk_open (wal_name_for seg) d = (r, d')"
  shows "r = Inr f \<Longrightarrow> seg_file d seg = Some f"
    and "md_faults d = [] \<Longrightarrow> seg_file d seg \<noteq> None \<Longrightarrow> \<exists>f. r = Inr f"
  using assms
  by (auto simp: disk_open_def validate_wal_name seg_file_def dest: disk_check_fields_eq disk_check_faults
      split: sum.splits prod.splits option.splits)

lemma segment_len_spec:
  assumes "segment_len seg g = (r, g')"
  shows "same_files g g'" and "r = Inr n \<Longrightarrow> n = length (seg_content g seg)"
    and "md_faults (w_disk g) = [] \<Longrightarrow> seg_present g seg \<Longrightarrow> \<exists>n. r = Inr n"
proof -
  show "same_files g g'"
    using assms disk_open_same
    by (auto simp: segment_len_def same_files_def split: if_splits sum.splits prod.splits)
      (metis wal.surjective wal.update_convs(1))
  show "r = Inr n \<Longrightarrow> n = length (seg_content g seg)"
    using assms disk_open_segment(1) disk_open_same(2)
    by (fastforce simp: segment_len_def seg_content_def file_len_def split: if_splits sum.splits prod.splits)
  show "md_faults (w_disk g) = [] \<Longrightarrow> seg_present g seg \<Longrightarrow> \<exists>n. r = Inr n"
    using assms disk_open_segment(2)
    by (fastforce simp: segment_len_def seg_present_def split: if_splits sum.splits prod.splits)
qed

lemma read_segment_spec:
  assumes "read_segment seg off n g = (r, g')"
  shows "same_files g g'" and "r = Inr bs \<Longrightarrow> bs = take n (drop off (seg_content g seg))"
    and "md_faults (w_disk g) = [] \<Longrightarrow> seg_present g seg \<Longrightarrow> \<exists>bs. r = Inr bs"
proof -
  have "same_files g g' \<and> (\<forall>bs. r = Inr bs \<longrightarrow> bs = take n (drop off (seg_content g seg))) \<and>
    (md_faults (w_disk g) = [] \<longrightarrow> seg_present g seg \<longrightarrow> (\<exists>bs. r = Inr bs))"
  proof (cases "seg = current_segment_index g")
    case True
    with assms obtain d where "file_read_at (w_current g) off n (w_disk g) = (r, d)"
      and "g' = g\<lparr>w_disk := d\<rparr>" by (auto simp: read_segment_def split: prod.splits)
    with True file_read_at_spec [OF this(1)] show ?thesis
      by (auto simp: same_files_def seg_content_def)
  next
    case False
    obtain q d where o: "disk_open (wal_name_for seg) (w_disk g) = (q, d)" by fastforce
    note os = disk_open_same [OF o] disk_open_segment [OF o]
    show ?thesis
    proof (cases q)
      case (Inl e)
      with assms False o os show ?thesis
        by (auto simp: read_segment_def same_files_def seg_present_def)
    next
      case (Inr f)
      with assms False o obtain d' where "file_read_at f off n d = (r, d')"
        and "g' = g\<lparr>w_disk := d'\<rparr>" by (auto simp: read_segment_def split: prod.splits)
      with file_read_at_spec [OF this(1)] os Inr False show ?thesis
        by (auto simp: same_files_def seg_content_def)
    qed
  qed
  then show "same_files g g'" and "r = Inr bs \<Longrightarrow> bs = take n (drop off (seg_content g seg))"
    and "md_faults (w_disk g) = [] \<Longrightarrow> seg_present g seg \<Longrightarrow> \<exists>bs. r = Inr bs" by auto
qed

lemma read_record_spec:
  assumes rr: "read_record seg (length (seg_content g seg)) r g = (res, r', g')"
    and off: "byte_offset (rp_position r) = off" "off \<le> length (seg_content g seg)"
  shows "same_files g g'"
    and "res = Inr x \<Longrightarrow> \<exists>p. x = Some p \<and> r' = r\<lparr>rp_position := LogOffset seg (off + (HEADER_LEN + length p))\<rparr> \<and>
      frame_split (drop off (seg_content g seg)) = Some (p, drop (off + (HEADER_LEN + length p)) (seg_content g seg))"
    and "res = Inl e \<Longrightarrow> r' = r"
    and "res = Inl e \<Longrightarrow> md_faults (w_disk g) = [] \<Longrightarrow> seg_present g seg \<Longrightarrow>
      frame_split (drop off (seg_content g seg)) = None \<and> (\<exists>msg. e = corrupt msg)"
proof -
  let ?c = "seg_content g seg"
  let ?P = "same_files g g' \<and> (\<forall>x. res = Inr x \<longrightarrow> (\<exists>p. x = Some p \<and>
      r' = r\<lparr>rp_position := LogOffset seg (off + (HEADER_LEN + length p))\<rparr> \<and>
      frame_split (drop off ?c) = Some (p, drop (off + (HEADER_LEN + length p)) ?c))) \<and>
    (\<forall>e. res = Inl e \<longrightarrow> r' = r \<and>
      (md_faults (w_disk g) = [] \<longrightarrow> seg_present g seg \<longrightarrow> frame_split (drop off ?c) = None \<and> (\<exists>msg. e = corrupt msg)))"
  have ?P
  proof (cases "length ?c - off < HEADER_LEN")
    case True
    with rr off show ?thesis by (auto simp: read_record_def frame_split_def)
  next
    case long: False
    obtain q g1 where h: "read_segment seg off HEADER_LEN g = (q, g1)" by fastforce
    note hs = read_segment_spec [OF h] and v1 = same_files_view [OF read_segment_spec(1) [OF h]]
    show ?thesis
    proof (cases q)
      case (Inl e)
      with rr off long h hs show ?thesis by (auto simp: read_record_def Let_def)
    next
      case (Inr hb)
      then have hb: "hb = take 8 (drop off ?c)" using hs(2) by (simp add: HEADER_LEN_def)
      let ?n = "unat (u32_of_le (take 4 (drop off ?c)))"
      have parse: "parse_header hb = Some \<lparr>h_len = u32_of_le (take 4 (drop off ?c)),
          h_crc = u32_of_le (take 4 (drop 4 (drop off ?c)))\<rparr>" and len8: "length hb = HEADER_LEN"
        using long by (auto simp: hb parse_header_def sub_slice_def HEADER_LEN_def take_drop min_def add.commute)
      show ?thesis
      proof (cases "MAX_PAYLOAD_LEN < ?n \<or> length ?c - off < HEADER_LEN + ?n")
        case True
        with rr off long h hs Inr parse len8 show ?thesis
          by (auto simp: read_record_def frame_split_def Let_def split: if_splits)
      next
        case fits: False
        obtain q2 g2 where h2: "read_segment seg (off + HEADER_LEN) ?n g1 = (q2, g2)" by fastforce
        note hs2 = read_segment_spec [OF h2]
        have sf: "same_files g g2" using same_files_trans hs(1) hs2(1) by blast
        show ?thesis
        proof (cases q2)
          case (Inl e)
          with rr off long h Inr parse len8 fits h2 have "res = Inl (WalIo e)" "r' = r" "g' = g2"
            by (auto simp: read_record_def Let_def)
          moreover have "\<not> (md_faults (w_disk g) = [] \<and> seg_present g seg)"
            using hs2(3) Inl v1(2) same_filesD(5) [OF hs(1)] by auto
          ultimately show ?thesis using sf by auto
        next
          case (Inr pl)
          then have pl: "pl = take ?n (drop 8 (drop off ?c))"
            using hs2(2) v1(1) by (simp add: HEADER_LEN_def add.commute)
          have lp: "length pl = ?n" using fits long by (auto simp: pl HEADER_LEN_def min_def)
          have body: "(res, r', g') = (if crc32c pl = u32_of_le (take 4 (drop 4 (drop off ?c)))
              then (Inr (Some pl), r\<lparr>rp_position := LogOffset seg (off + (HEADER_LEN + ?n))\<rparr>, g2)
              else (Inl (corrupt ''crc32c mismatch''), r, g2))"
            using rr off long h \<open>q = Inr hb\<close> parse len8 fits h2 Inr lp
            by (auto simp: read_record_def Let_def record_verify_def)
          have fs: "frame_split (drop off ?c) =
              (if crc32c pl = u32_of_le (take 4 (drop 4 (drop off ?c)))
               then Some (pl, drop (off + (HEADER_LEN + ?n)) ?c) else None)"
            using long fits by (auto simp: frame_split_def Let_def pl add.commute)
          show ?thesis using body fs sf lp by (auto split: if_splits)
        qed
      qed
    qed
  qed
  then show "same_files g g'"
    and "res = Inr x \<Longrightarrow> \<exists>p. x = Some p \<and> r' = r\<lparr>rp_position := LogOffset seg (off + (HEADER_LEN + length p))\<rparr> \<and>
      frame_split (drop off ?c) = Some (p, drop (off + (HEADER_LEN + length p)) ?c)"
    and "res = Inl e \<Longrightarrow> r' = r"
    and "res = Inl e \<Longrightarrow> md_faults (w_disk g) = [] \<Longrightarrow> seg_present g seg \<Longrightarrow>
      frame_split (drop off ?c) = None \<and> (\<exists>msg. e = corrupt msg)" by blast+
qed

text \<open>
  The cursor: \<open>at_cursor r g cs\<close> says that \<open>cs\<close> is what lies ahead, the rest of the current
  segment and then the later segments.
\<close>

definition at_cursor :: "replay \<Rightarrow> wal \<Rightarrow> bytes list \<Rightarrow> bool" where
  "at_cursor r g cs \<longleftrightarrow> \<not> rp_stopped r \<and> rp_init_error r = None \<and> distinct (rp_segments r) \<and>
     (\<forall>seg\<in>set (rp_segments r). seg_present g seg) \<and>
     (\<exists>pre seg post off. rp_segments r = pre @ seg # post \<and> rp_position r = LogOffset seg off \<and>
        off \<le> length (seg_content g seg) \<and>
        cs = drop off (seg_content g seg) # map (seg_content g) post)"

lemma at_cursorI:
  "rp_segments r = pre @ seg # post \<Longrightarrow> rp_position r = LogOffset seg off \<Longrightarrow>
   off \<le> length (seg_content g seg) \<Longrightarrow> \<not> rp_stopped r \<Longrightarrow> rp_init_error r = None \<Longrightarrow>
   distinct (rp_segments r) \<Longrightarrow> \<forall>s\<in>set (rp_segments r). seg_present g s \<Longrightarrow>
   at_cursor r g (drop off (seg_content g seg) # map (seg_content g) post)"
  unfolding at_cursor_def by blast

lemma binary_search_at: "distinct (pre @ x # post) \<Longrightarrow> binary_search (pre @ x # post) x = Some (length pre)"
  by (auto simp: binary_search_def takeWhile_append)

lemma parse_frames_Nil [simp]: "parse_frames [] = ([], [])"
  by (simp add: parse_frames.simps [of "[]"] frame_split_def HEADER_LEN_def)

lemma scan_hit:
  "frame_split c = Some (p, rest) \<Longrightarrow>
     scan_segments (c # cs) = (p # fst (scan_segments (rest # cs)), snd (scan_segments (rest # cs)))"
  by (simp add: parse_frames.simps [of c] split: prod.splits)

lemma scan_bad: "frame_split c = None \<Longrightarrow> c \<noteq> [] \<Longrightarrow> scan_segments (c # cs) = ([], True)"
  by (simp add: parse_frames.simps [of c])

lemma scan_skip: "scan_segments ([] # cs) = scan_segments cs"
  by (simp split: prod.splits)

definition read_outcome ::
  "replay \<Rightarrow> wal \<Rightarrow> bytes list \<Rightarrow> (wal_error + bytes option) \<times> replay \<times> wal \<Rightarrow> bool" where
  "read_outcome r g cs out \<longleftrightarrow> rp_segments (fst (snd out)) = rp_segments r \<and>
     (case out of
        (Inl e, r', g') \<Rightarrow> same_files g g' \<and>
          (md_faults (w_disk g) = [] \<longrightarrow> scan_segments cs = ([], True) \<and> (\<exists>msg. e = corrupt msg) \<and>
             (\<exists>cs'. at_cursor r' g' cs' \<and> hd cs' \<noteq> [] \<and> length (concat cs') = length (concat cs)))
      | (Inr None, r', g') \<Rightarrow> same_files g g' \<and> scan_segments cs = ([], False)
      | (Inr (Some p), r', g') \<Rightarrow> same_files g g' \<and>
          (\<exists>cs'. at_cursor r' g' cs' \<and> length (concat cs') < length (concat cs) \<and>
             length (concat cs) = HEADER_LEN + length p + length (concat cs') \<and>
             scan_segments cs = (p # fst (scan_segments cs'), snd (scan_segments cs'))))"

text \<open>One \<open>read_next\<close> returns, and returns what the scan says is next.\<close>

lemma read_next_spec:
  "at_cursor r g cs \<Longrightarrow> \<exists>out. read_next r g = Some out \<and> read_outcome r g cs out"
proof (induction "length cs" arbitrary: r g cs rule: less_induct)
  case less
  from less.prems obtain pre seg post off where segs: "rp_segments r = pre @ seg # post"
    and pos: "rp_position r = LogOffset seg off" and off: "off \<le> length (seg_content g seg)"
    and cs: "cs = drop off (seg_content g seg) # map (seg_content g) post"
    and live: "\<not> rp_stopped r" "rp_init_error r = None" and dist: "distinct (rp_segments r)"
    and here: "\<forall>s\<in>set (rp_segments r). seg_present g s"
    unfolding at_cursor_def by blast
  have bs: "binary_search (rp_segments r) seg = Some (length pre)"
    using binary_search_at dist segs by metis
  have nxt: "length (rp_segments r) = Suc (length pre + length post)"
    "rp_segments r ! Suc (length pre) = post ! 0" by (simp_all add: segs nth_append)
  obtain q g1 where sl: "segment_len seg g = (q, g1)" by fastforce
  note ls = segment_len_spec [OF sl]
  note view = same_files_view [OF ls(1)]
  show ?case
  proof (cases q)
    case (Inl e)
    then have "read_next r g = Some (Inl (WalIo e), r, g1)"
      by (simp add: read_next.simps [of r g] pos bs sl)
    moreover have "md_faults (w_disk g) \<noteq> []" using ls(3) Inl here segs by auto
    ultimately show ?thesis using ls(1) by (simp add: read_outcome_def)
  next
    case (Inr n)
    then have n: "n = length (seg_content g seg)" using ls(2) by simp
    show ?thesis
    proof (cases "n \<le> off")
      case True
      then have nil: "drop off (seg_content g seg) = []" by (simp add: n)
      show ?thesis
      proof (cases post)
        case Nil
        then have "read_next r g = Some (Inr None, r, g1)"
          using Inr True by (simp add: read_next.simps [of r g] pos bs sl nxt)
        then show ?thesis using ls(1) Nil nil by (simp add: read_outcome_def cs)
      next
        case (Cons s post')
        let ?r = "r\<lparr>rp_position := LogOffset s 0\<rparr>"
        have step: "read_next r g = read_next ?r g1"
          using Inr True Cons by (simp add: read_next.simps [of r g] pos bs sl nxt)
        have "rp_segments ?r = (pre @ [seg]) @ s # post'" by (simp add: segs Cons)
        then have "at_cursor ?r g1 (map (seg_content g) post)"
          using at_cursorI [of ?r "pre @ [seg]" s post' 0 g1] live dist here view Cons by simp
        moreover have "length (map (seg_content g) post) < length cs" by (simp add: cs)
        ultimately obtain out where out: "read_next ?r g1 = Some out"
          "read_outcome ?r g1 (map (seg_content g) post) out" using less.hyps by blast
        have "scan_segments cs = scan_segments (map (seg_content g) post)"
          unfolding cs nil by (rule scan_skip)
        moreover have "length (concat cs) = length (concat (map (seg_content g) post))"
          by (simp add: cs nil)
        ultimately have "read_outcome r g cs out"
          using out(2) same_files_trans [OF ls(1)] same_filesD(5) [OF ls(1)]
          unfolding read_outcome_def by (auto split: prod.splits sum.splits option.splits)
        with step out(1) show ?thesis by simp
      qed
    next
      case False
      obtain res r' g' where rr: "read_record seg (length (seg_content g1 seg)) r g1 = (res, r', g')"
        using prod_cases3 by blast
      have step: "read_next r g = Some (res, r', g')"
        using Inr False rr view by (simp add: read_next.simps [of r g] pos bs sl n)
      have bo: "byte_offset (rp_position r) = off" "off \<le> length (seg_content g1 seg)"
        using pos off view by simp_all
      note rs = read_record_spec [OF rr bo, unfolded view]
      have sf: "same_files g g'" using same_files_trans ls(1) rs(1) by blast
      have ne: "drop off (seg_content g seg) \<noteq> []" using False by (simp add: n)
      show ?thesis
      proof (cases res)
        case (Inl e)
        have "md_faults (w_disk g) = [] \<Longrightarrow> scan_segments cs = ([], True) \<and> (\<exists>msg. e = corrupt msg)"
          using rs(4) [OF Inl] same_filesD(5) [OF ls(1)] here segs ne scan_bad by (simp add: cs)
        moreover have "at_cursor r' g' cs"
          using at_cursorI [of r pre seg post off g'] segs pos off live dist here same_files_view [OF sf] rs(3) [OF Inl] by (simp add: cs)
        moreover have "hd cs \<noteq> []" using ne by (simp add: cs)
        ultimately have "read_outcome r g cs (res, r', g')" using Inl sf rs(3) [OF Inl] unfolding read_outcome_def by auto
        with step show ?thesis by blast
      next
        case (Inr x)
        from rs(2) [OF Inr] obtain p where p: "x = Some p"
          "r' = r\<lparr>rp_position := LogOffset seg (off + (HEADER_LEN + length p))\<rparr>"
          "frame_split (drop off (seg_content g seg)) =
             Some (p, drop (off + (HEADER_LEN + length p)) (seg_content g seg))" by blast
        let ?cs = "drop (off + (HEADER_LEN + length p)) (seg_content g seg) # map (seg_content g) post"
        have fits: "off + (HEADER_LEN + length p) \<le> length (seg_content g seg)"
          using p(3) False n by (auto simp: frame_split_def Let_def split: if_splits)
        then have "at_cursor r' g' ?cs"
          using at_cursorI [of r' pre seg post "off + (HEADER_LEN + length p)" g'] live dist here segs p(2)
            same_files_view [OF sf] by simp
        moreover have "length (concat ?cs) < length (concat cs)"
          using frame_split_shorter [OF p(3)] by (simp add: cs)
        moreover have "length (concat cs) = HEADER_LEN + length p + length (concat ?cs)"
          using fits by (simp add: cs)
        moreover have "rp_segments r' = rp_segments r" by (simp add: p(2))
        moreover have "scan_segments cs = (p # fst (scan_segments ?cs), snd (scan_segments ?cs))"
          using scan_hit [OF p(3)] by (simp add: cs)
        ultimately have "read_outcome r g cs (res, r', g')"
          unfolding read_outcome_def Inr p(1) prod.case sum.case option.case fst_conv snd_conv using sf by blast
        with step show ?thesis by blast
      qed
    qed
  qed
qed

text \<open>Collecting the whole replay: it returns, and agrees with the scan of what lies ahead.\<close>

lemma replay_collect_spec:
  "at_cursor r g cs \<Longrightarrow> \<exists>ps err r' g'. replay_collect acc r g = Some (acc @ ps, err, r', g') \<and>
     same_files g g' \<and> prefix ps (fst (scan_segments cs)) \<and> (err \<noteq> None \<longrightarrow> rp_stopped r') \<and>
     (err = None \<longrightarrow> scan_segments cs = (ps, False)) \<and>
     (md_faults (w_disk g) = [] \<longrightarrow> scan_segments cs = (ps, err \<noteq> None))"
proof (induction "length (concat cs)" arbitrary: r g cs acc rule: less_induct)
  case less
  obtain out where rn: "read_next r g = Some out" and out: "read_outcome r g cs out"
    using read_next_spec [OF less.prems] by blast
  obtain res r1 g1 where o: "out = (res, r1, g1)" by (metis prod_cases3)
  have live: "\<not> rp_stopped r" "rp_init_error r = None" using less.prems by (auto simp: at_cursor_def)
  consider (err) e where "res = Inl e" | (fin) "res = Inr None" | (hit) p where "res = Inr (Some p)"
    by (cases res) (metis option.exhaust)+
  then show ?case
  proof cases
    case err
    with rn live o have "replay_collect acc r g = Some (acc @ [], Some e, r1\<lparr>rp_stopped := True\<rparr>, g1)"
      by (simp add: replay_collect.simps [of acc r g] replay_next_def)
    with out err o show ?thesis
      by (intro exI [of _ "[]"] exI [of _ "Some e"] exI [of _ "r1\<lparr>rp_stopped := True\<rparr>"] exI [of _ g1])
        (simp add: read_outcome_def)
  next
    case fin
    with rn live o have "replay_collect acc r g = Some (acc @ [], None, r1, g1)"
      by (simp add: replay_collect.simps [of acc r g] replay_next_def)
    with out fin o show ?thesis
      by (intro exI [of _ "[]"] exI [of _ None] exI [of _ r1] exI [of _ g1]) (simp add: read_outcome_def)
  next
    case hit
    with out o obtain cs' where cs': "at_cursor r1 g1 cs'" "length (concat cs') < length (concat cs)"
      "scan_segments cs = (p # fst (scan_segments cs'), snd (scan_segments cs'))" and sf: "same_files g g1"
      by (auto simp: read_outcome_def)
    have step: "replay_collect acc r g = replay_collect (acc @ [p]) r1 g1"
      using rn live o hit by (simp add: replay_collect.simps [of acc r g] replay_next_def)
    from less.hyps [OF cs'(2,1), of "acc @ [p]"] obtain ps err r' g' where
      ih: "replay_collect (acc @ [p]) r1 g1 = Some ((acc @ [p]) @ ps, err, r', g')" "same_files g1 g'"
      "prefix ps (fst (scan_segments cs'))" "err \<noteq> None \<longrightarrow> rp_stopped r'"
      "err = None \<longrightarrow> scan_segments cs' = (ps, False)"
      "md_faults (w_disk g1) = [] \<longrightarrow> scan_segments cs' = (ps, err \<noteq> None)" by blast
    show ?thesis
      using step ih cs'(3) same_files_trans [OF sf ih(2)] same_filesD(5) [OF sf]
      by (intro exI [of _ "p # ps"] exI [of _ err] exI [of _ r'] exI [of _ g']) auto
  qed
qed

section \<open>Replay of a log\<close>

text \<open>
  A log with a damaged tail: \<open>wal_tail g L tail\<close> is a freshly opened or running log whose segment
  files hold the frames of \<open>L\<close>, the last one followed by the bytes \<open>tail\<close>.
\<close>

definition wal_tail :: "wal \<Rightarrow> bytes list list \<Rightarrow> bytes \<Rightarrow> bool" where
  "wal_tail g L tail \<longleftrightarrow> L \<noteq> [] \<and> wal_segment_list (w_disk g) = [0..<length L] \<and>
     (\<forall>i<length L. seg_present g i \<and>
        seg_content g i = seg_bytes (L ! i) @ (if i = length L - 1 then tail else [])) \<and>
     (\<forall>recs\<in>set L. \<forall>p\<in>set recs. length p \<le> MAX_PAYLOAD_LEN)"

lemma wal_holds_tail: "wal_holds g L \<Longrightarrow> wal_tail g L []"
proof -
  assume holds: "wal_holds g L"
  have "seg_present g i \<and> seg_content g i = seg_bytes (L ! i)" if "i < length L" for i
    using wal_holdsD(5) [OF holds that] wal_holdsD(6,7) [OF holds]
    by (auto simp: seg_present_def seg_content_def)
  with wal_holdsD(3,4,10) [OF holds] show ?thesis by (simp add: wal_tail_def)
qed

lemma MAX_PAYLOAD_u32: "n \<le> MAX_PAYLOAD_LEN \<Longrightarrow> unat (of_nat n :: u32) = n"
  by (rule unat_u32_of_nat) (simp add: MAX_PAYLOAD_LEN_def)

lemma frame_split_frame:
  "length p \<le> MAX_PAYLOAD_LEN \<Longrightarrow> frame_split (wal_frame p @ rest) = Some (p, rest)"
  by (simp add: frame_split_def record_encode_def HEADER_LEN_def Let_def MAX_PAYLOAD_u32)

text \<open>A proper prefix of a frame never passes for a frame: the torn write is seen.\<close>

lemma frame_split_torn:
  assumes "length p \<le> MAX_PAYLOAD_LEN" and "k < length (wal_frame p)"
  shows "frame_split (take k (wal_frame p)) = None"
proof (cases "k < HEADER_LEN")
  case True
  with assms(2) show ?thesis by (simp add: frame_split_def)
next
  case False
  then have "take 4 (take k (wal_frame p)) = u32_le (of_nat (length p))"
    by (simp add: record_encode_def HEADER_LEN_def min_def)
  with False assms show ?thesis by (simp add: frame_split_def Let_def MAX_PAYLOAD_u32)
qed

lemma parse_frames_segment:
  assumes "\<forall>p\<in>set recs. length p \<le> MAX_PAYLOAD_LEN" and "frame_split tail = None"
  shows "parse_frames (seg_bytes recs @ tail) = (recs, tail)"
  using assms(1)
proof (induction recs)
  case Nil
  then show ?case by (simp add: parse_frames.simps [of tail] assms(2))
next
  case (Cons p recs)
  then have "frame_split (seg_bytes (p # recs) @ tail) = Some (p, seg_bytes recs @ tail)"
    using frame_split_frame [of p "seg_bytes recs @ tail"] by (simp add: seg_bytes_def)
  with Cons show ?case by (simp add: parse_frames.simps [of "seg_bytes (p # recs) @ tail"])
qed

lemma scan_log:
  assumes "\<forall>recs\<in>set L. \<forall>p\<in>set recs. length p \<le> MAX_PAYLOAD_LEN" and "frame_split tail = None" and "L \<noteq> []"
  shows "scan_segments (map seg_bytes (butlast L) @ [seg_bytes (last L) @ tail]) = (concat L, tail \<noteq> [])"
  using assms(1,3)
proof (induction L)
  case (Cons recs L)
  have none: "frame_split [] = None" by (simp add: frame_split_def HEADER_LEN_def)
  show ?case
  proof (cases "L = []")
    case True
    with Cons.prems show ?thesis by (simp add: parse_frames_segment [OF _ assms(2)])
  next
    case False
    with Cons show ?thesis using parse_frames_segment [of recs "[]"] none by simp
  qed
qed simp

lemma wal_tail_contents:
  assumes "wal_tail g L tail"
  shows "map (seg_content g) [0..<length L] = map seg_bytes (butlast L) @ [seg_bytes (last L) @ tail]"
  using assms
  by (intro nth_equalityI) (auto simp: wal_tail_def nth_append nth_butlast last_conv_nth less_Suc_eq)

lemma replay_from_begin:
  assumes t: "wal_tail g L tail" and n: "Replay_new g Checkpoint_BEGIN = (r, g1)" and ok: "rp_init_error r = None"
  shows "at_cursor r g1 (map seg_bytes (butlast L) @ [seg_bytes (last L) @ tail])"
    and "same_files g g1"
proof -
  from n ok obtain segs d where l: "list_segments (w_disk g) = (Inr segs, d)" and g1: "g1 = g\<lparr>w_disk := d\<rparr>"
    and r: "r = \<lparr>rp_position = LogOffset 0 0, rp_segments = segs, rp_stopped = False, rp_init_error = None\<rparr>"
    by (auto simp: Replay_new_def known_segments_def Checkpoint_BEGIN_def LogOffset_ZERO_def
        split: prod.splits sum.splits)
  note ls = list_segments_ok [OF l]
  have "md_faults (w_disk g) = [] \<longrightarrow> md_faults d = []"
    using l by (auto simp: list_segments_def disk_list_def dest: disk_check_faults split: prod.splits sum.splits)
  with ls show sf: "same_files g g1" by (auto simp: same_files_def g1)
  have segs: "segs = [0..<length L]" and ne: "L \<noteq> []" using ls t by (auto simp: wal_tail_def)
  then have "segs = [] @ 0 # [1..<length L]" by (simp add: upt_conv_Cons)
  with at_cursorI [of r "[]" 0 "[1..<length L]" 0 g1] same_files_view [OF sf] t
  have "at_cursor r g1 (map (seg_content g) segs)" by (auto simp: r wal_tail_def segs)
  with wal_tail_contents [OF t] segs show "at_cursor r g1 (map seg_bytes (butlast L) @ [seg_bytes (last L) @ tail])"
    by simp
qed

lemma replay_collect_init_error:
  "rp_init_error r = Some e \<Longrightarrow> \<not> rp_stopped r \<Longrightarrow>
     replay_collect acc r g = Some (acc, Some e, r\<lparr>rp_init_error := None, rp_stopped := True\<rparr>, g)"
  by (simp add: replay_collect.simps [of acc r g] replay_next_def)

lemma Replay_new_faultless:
  "md_faults (w_disk g) = [] \<Longrightarrow> Replay_new g c = (r, g1) \<Longrightarrow> rp_init_error r = None"
  by (auto simp: Replay_new_def known_segments_def list_segments_def disk_list_def
      dest!: disk_check_faults split: prod.splits sum.splits)

lemma Replay_new_live: "Replay_new g c = (r, g1) \<Longrightarrow> \<not> rp_stopped r"
  by (auto simp: Replay_new_def split: prod.splits sum.splits)

text \<open>
  C33. Recovery reads back exactly what was acknowledged. On a log that holds \<open>L\<close>, replay from the
  beginning terminates; whatever reads fail, the payloads it yields are a prefix of the log's
  payloads in order; if it ends without an error they are all of them; and when no fault is scheduled
  it does end without an error.
\<close>

theorem replay_recovers:
  assumes "wal_holds g L" and "Replay_new g Checkpoint_BEGIN = (r, g1)"
  shows "\<exists>ps err r' g'. replay_collect [] r g1 = Some (ps, err, r', g') \<and> prefix ps (concat L) \<and>
     (err = None \<longrightarrow> ps = concat L) \<and> (md_faults (w_disk g) = [] \<longrightarrow> err = None)"
proof (cases "rp_init_error r")
  case (Some e)
  with replay_collect_init_error [OF Some Replay_new_live [OF assms(2)]]
    Replay_new_faultless [OF _ assms(2)] show ?thesis by auto
next
  case None
  note t = wal_holds_tail [OF assms(1)]
  note c = replay_from_begin [OF t assms(2) None]
  have "scan_segments (map seg_bytes (butlast L) @ [seg_bytes (last L) @ []]) = (concat L, False)"
    using scan_log [of L "[]"] t by (simp add: wal_tail_def frame_split_def HEADER_LEN_def)
  with replay_collect_spec [OF c(1), of "[]"] same_filesD(5) [OF c(2)] show ?thesis by auto
qed

text \<open>
  The torn-write contract: if a crash left only the first \<open>k\<close> bytes of a frame at the end of the
  last segment, replay yields every record before it, then exactly one error, and then \<open>None\<close> forever:
  no byte of the torn frame, and nothing after it, is ever returned.
\<close>

theorem replay_stops_at_torn_frame:
  assumes "wal_tail g L (take k (record_encode p []))" and "0 < k" and "k < HEADER_LEN + length p"
    and "length p \<le> MAX_PAYLOAD_LEN" and "md_faults (w_disk g) = []"
    and "Replay_new g Checkpoint_BEGIN = (r, g1)"
  shows "\<exists>e r' g'. replay_collect [] r g1 = Some (concat L, Some e, r', g') \<and>
     (\<forall>h. replay_next r' h = Some (None, r', h))"
proof -
  note ok = Replay_new_faultless [OF assms(5,6)]
  note c = replay_from_begin [OF assms(1,6) ok]
  have torn: "frame_split (take k (wal_frame p)) = None" "take k (wal_frame p) \<noteq> []"
    using frame_split_torn [of p k] length_wal_frame [of p] assms(2-4)
    by (simp_all add: take_eq_Nil HEADER_LEN_def flip: length_0_conv)
  have "scan_segments (map seg_bytes (butlast L) @ [seg_bytes (last L) @ take k (wal_frame p)])
      = (concat L, True)"
    using scan_log [OF _ torn(1)] torn(2) assms(1) by (simp add: wal_tail_def)
  with replay_collect_spec [OF c(1), of "[]"] same_filesD(5) [OF c(2)] assms(5)
  show ?thesis by (auto simp: replay_next_def)
qed

section \<open>Concrete instances\<close>

theorem replay_recovers_witness:
  "\<exists>r' g'. replay_collect [] (fst (Replay_new fresh_wal Checkpoint_BEGIN))
     (snd (Replay_new fresh_wal Checkpoint_BEGIN)) = Some ([], None, r', g')"
proof -
  have "md_faults (w_disk fresh_wal) = []" by (simp add: fresh_wal_def)
  with replay_recovers [OF fresh_wal_holds, of "fst (Replay_new fresh_wal Checkpoint_BEGIN)"
      "snd (Replay_new fresh_wal Checkpoint_BEGIN)"] show ?thesis by simp
qed

definition torn_wal :: wal where
  "torn_wal = fresh_wal\<lparr>w_disk := (w_disk fresh_wal)\<lparr>md_store := [wal_frame [1] @ take 5 (wal_frame [2, 3])]\<rparr>\<rparr>"

theorem replay_stops_at_torn_frame_witness:
  "\<exists>e r' g'. replay_collect [] (fst (Replay_new torn_wal Checkpoint_BEGIN))
     (snd (Replay_new torn_wal Checkpoint_BEGIN)) = Some ([[1]], Some e, r', g')"
proof -
  have t: "wal_tail torn_wal [[[1]]] (take 5 (record_encode [2, 3] []))"
    using wal_name_roundtrip [of 0]
    by (simp add: wal_tail_def torn_wal_def fresh_wal_def seg_present_def seg_content_def seg_bytes_def
        wal_segment_list_def map_filter_simps MAX_PAYLOAD_LEN_def)
  have "md_faults (w_disk torn_wal) = []" by (simp add: torn_wal_def fresh_wal_def)
  with replay_stops_at_torn_frame [OF t, of "fst (Replay_new torn_wal Checkpoint_BEGIN)"
      "snd (Replay_new torn_wal Checkpoint_BEGIN)"] show ?thesis
    by (auto simp: HEADER_LEN_def MAX_PAYLOAD_LEN_def)
qed

end
