(* ===== verification/Btree_Map.thy ===== *)
theory Btree_Map
  imports Stele_Prelude
begin

text \<open>
  The standard library's \<open>BTreeMap\<close>, which every tier of the storage engine keeps its rows in: an
  association list in strictly increasing key order. Lookup, insert, remove, iteration and the
  range queries the engine uses (\<open>range(lo..=hi)\<close>, \<open>range(..=hi).next_back()\<close>) are
  executable; \<open>bt_inv\<close> is the ordering invariant every operation keeps. The locale
  \<open>ordered_map\<close> is the contract the clients rely on, interpreted on these operations.
\<close>

section \<open>The contract\<close>

locale ordered_map =
  fixes empty :: 'm
    and get :: "'m \<Rightarrow> 'k::linorder \<Rightarrow> 'v option"
    and insert :: "'k \<Rightarrow> 'v \<Rightarrow> 'm \<Rightarrow> 'm"
    and remove :: "'k \<Rightarrow> 'm \<Rightarrow> 'm"
    and entries :: "'m \<Rightarrow> ('k \<times> 'v) list"
    and invar :: "'m \<Rightarrow> bool"
  assumes get_empty: "get empty = Map.empty"
    and get_insert: "invar m \<Longrightarrow> get (insert k v m) = (get m)(k \<mapsto> v)"
    and get_remove: "invar m \<Longrightarrow> get (remove k m) = (get m)(k := None)"
    and entries_get: "invar m \<Longrightarrow> map_of (entries m) = get m"
    and entries_sorted: "invar m \<Longrightarrow> sorted_wrt (<) (map fst (entries m))"
    and invar_empty: "invar empty"
    and invar_insert: "invar m \<Longrightarrow> invar (insert k v m)"
    and invar_remove: "invar m \<Longrightarrow> invar (remove k m)"
begin

text \<open>Folding inserts over a list: the last binding of a key wins.\<close>

lemma invar_fold_insert: "invar m \<Longrightarrow> invar (fold (\<lambda>x. insert (key x) (val x)) xs m)"
  by (induction xs arbitrary: m) (auto simp: invar_insert)

lemma get_fold_insert:
  "invar m \<Longrightarrow> get (fold (\<lambda>x. insert (key x) (val x)) xs m)
     = get m ++ map_of (rev (map (\<lambda>x. (key x, val x)) xs))"
  by (induction xs arbitrary: m) (auto simp: invar_insert get_insert map_add_upd_left map_add_assoc)

text \<open>Inserting the same binding twice is inserting it once.\<close>

lemma get_insert_twice:
  "invar m \<Longrightarrow> get (insert k v (insert k w m)) = get (insert k v m)"
  by (simp add: get_insert invar_insert)

lemma entries_iff: "invar m \<Longrightarrow> (k, v) \<in> set (entries m) \<longleftrightarrow> get m k = Some v"
proof -
  assume inv: "invar m"
  then have "distinct (map fst (entries m))"
    using entries_sorted strict_sorted_iff by blast
  then show ?thesis using inv by (metis entries_get map_of_eq_Some_iff)
qed

end

section \<open>Sorted association lists\<close>

type_synonym ('k, 'v) btree = "('k \<times> 'v) list"

definition bt_empty :: "('k, 'v) btree" where
  "bt_empty = []"

definition bt_get :: "('k, 'v) btree \<Rightarrow> 'k \<Rightarrow> 'v option" where
  "bt_get m k = map_of m k"

fun bt_insert :: "'k::linorder \<Rightarrow> 'v \<Rightarrow> ('k, 'v) btree \<Rightarrow> ('k, 'v) btree" where
  "bt_insert k v [] = [(k, v)]"
| "bt_insert k v ((k', v') # m) =
     (if k < k' then (k, v) # (k', v') # m
      else if k = k' then (k, v) # m
      else (k', v') # bt_insert k v m)"

definition bt_remove :: "'k \<Rightarrow> ('k, 'v) btree \<Rightarrow> ('k, 'v) btree" where
  "bt_remove k m = filter (\<lambda>e. fst e \<noteq> k) m"

definition bt_values :: "('k, 'v) btree \<Rightarrow> 'v list" where
  "bt_values m = map snd m"

definition bt_keys :: "('k, 'v) btree \<Rightarrow> 'k list" where
  "bt_keys m = map fst m"

text \<open>\<open>range((Included(lo), Included(hi)))\<close> and \<open>range(..=hi).next_back()\<close>.\<close>

definition bt_range :: "'k::linorder \<Rightarrow> 'k \<Rightarrow> ('k, 'v) btree \<Rightarrow> ('k, 'v) btree" where
  "bt_range lo hi m = filter (\<lambda>e. lo \<le> fst e \<and> fst e \<le> hi) m"

definition bt_last_le :: "'k::linorder \<Rightarrow> ('k, 'v) btree \<Rightarrow> ('k \<times> 'v) option" where
  "bt_last_le hi m =
     (case filter (\<lambda>e. fst e \<le> hi) m of [] \<Rightarrow> None | es \<Rightarrow> Some (last es))"

definition bt_inv :: "('k::linorder, 'v) btree \<Rightarrow> bool" where
  "bt_inv m \<longleftrightarrow> sorted_wrt (<) (map fst m)"

subsection \<open>Invariant and lookup\<close>

lemma set_bt_insert: "set (map fst (bt_insert k v m)) = insert k (set (map fst m))"
  by (induction k v m rule: bt_insert.induct) auto

lemma bt_inv_empty [simp]: "bt_inv bt_empty"
  by (simp add: bt_inv_def bt_empty_def)

lemma bt_inv_Nil [simp]: "bt_inv []"
  by (simp add: bt_inv_def)

lemma bt_inv_Cons:
  "bt_inv ((k, v) # m) \<longleftrightarrow> (\<forall>k'\<in>set (map fst m). k < k') \<and> bt_inv m"
  by (auto simp: bt_inv_def)

lemma bt_inv_insert [simp]: "bt_inv m \<Longrightarrow> bt_inv (bt_insert k v m)"
proof (induction k v m rule: bt_insert.induct)
  case (1 k v)
  then show ?case by (simp add: bt_inv_Cons)
next
  case (2 k v k' v' m)
  show ?case
  proof (cases "k < k' \<or> k = k'")
    case True
    with 2 show ?thesis by (fastforce simp: bt_inv_Cons)
  next
    case False
    with 2 have "bt_inv (bt_insert k v m)" by (simp add: bt_inv_Cons)
    with 2 False show ?thesis
      using set_bt_insert [of k v m] by (auto simp: bt_inv_Cons)
  qed
qed

lemma bt_inv_filter [simp]: "bt_inv m \<Longrightarrow> bt_inv (filter P m)"
  by (induction m) (auto simp: bt_inv_Cons)

lemma bt_inv_remove [simp]: "bt_inv m \<Longrightarrow> bt_inv (bt_remove k m)"
  by (simp add: bt_remove_def)

lemma bt_inv_sorted: "bt_inv m \<Longrightarrow> sorted_wrt (<) (map fst m)"
  by (simp add: bt_inv_def)

lemma bt_inv_distinct: "bt_inv m \<Longrightarrow> distinct (map fst m)"
  by (simp add: bt_inv_def strict_sorted_iff)

lemma bt_get_empty [simp]: "bt_get bt_empty k = None" "bt_get [] k = None"
  by (simp_all add: bt_get_def bt_empty_def)

lemma bt_get_insert [simp]: "bt_get (bt_insert k v m) k' = (if k' = k then Some v else bt_get m k')"
  by (induction k v m rule: bt_insert.induct) (auto simp: bt_get_def)

lemma bt_get_remove [simp]: "bt_get (bt_remove k m) k' = (if k' = k then None else bt_get m k')"
  by (induction m) (auto simp: bt_get_def bt_remove_def)

lemma bt_get_iff: "bt_inv m \<Longrightarrow> bt_get m k = Some v \<longleftrightarrow> (k, v) \<in> set m"
  by (simp add: bt_get_def bt_inv_distinct)

lemma bt_get_in_set: "bt_get m k = Some v \<Longrightarrow> (k, v) \<in> set m"
  by (simp add: bt_get_def map_of_SomeD)

text \<open>Two ordered maps with the same lookups are equal: the representation is canonical.\<close>

lemma bt_eqI:
  assumes "bt_inv m" and "bt_inv n" and "\<And>k. bt_get m k = bt_get n k"
  shows "m = n"
proof -
  have set_eq: "set m = set n"
    using assms by (auto simp: bt_get_iff [symmetric])
  have "map fst m = map fst n"
    using assms(1,2) set_eq
    by (metis bt_inv_def list.set_map sorted_distinct_set_unique strict_sorted_iff)
  moreover have "inj_on fst (set m \<union> set n)"
    using assms(1) set_eq by (metis Un_absorb bt_inv_distinct distinct_map)
  ultimately show ?thesis by (metis map_inj_on)
qed

interpretation btree: ordered_map bt_empty bt_get bt_insert bt_remove id bt_inv
  by unfold_locales (simp_all add: fun_eq_iff bt_get_def [symmetric] bt_inv_sorted)

text \<open>Removing what an insert of a fresh key added restores the map.\<close>

lemma bt_remove_insert:
  assumes "bt_inv m" and "bt_get m k = None"
  shows "bt_remove k (bt_insert k v m) = m"
  using assms by (intro bt_eqI) auto

lemma bt_insert_same:
  assumes "bt_inv m" and "bt_get m k = Some v"
  shows "bt_insert k v m = m"
  using assms by (intro bt_eqI) auto

subsection \<open>Ranges\<close>

lemma bt_range_get:
  assumes "bt_inv m"
  shows "bt_get (bt_range lo hi m) k = (if lo \<le> k \<and> k \<le> hi then bt_get m k else None)"
  by (induction m) (auto simp: bt_range_def bt_get_def)

lemma bt_inv_range [simp]: "bt_inv m \<Longrightarrow> bt_inv (bt_range lo hi m)"
  by (simp add: bt_range_def)

text \<open>\<open>range(..=hi).next_back()\<close> is the entry with the greatest key not above \<open>hi\<close>.\<close>

lemma bt_last_le_None: "bt_last_le hi m = None \<longleftrightarrow> (\<forall>k\<in>set (map fst m). \<not> k \<le> hi)"
proof -
  have "bt_last_le hi m = None \<longleftrightarrow> filter (\<lambda>e. fst e \<le> hi) m = []"
    by (simp add: bt_last_le_def split: list.splits)
  then show ?thesis by (auto simp: filter_empty_conv)
qed

lemma bt_last_le_Some:
  assumes inv: "bt_inv m" and last: "bt_last_le hi m = Some (k, v)"
  shows "bt_get m k = Some v" and "k \<le> hi"
    and "\<And>k' v'. bt_get m k' = Some v' \<Longrightarrow> k' \<le> hi \<Longrightarrow> k' \<le> k"
proof -
  let ?f = "filter (\<lambda>e. fst e \<le> hi) m"
  from last have ne: "?f \<noteq> []" and l: "last ?f = (k, v)"
    by (auto simp: bt_last_le_def split: list.splits)
  have mem: "(k, v) \<in> set ?f" using ne l last_in_set by metis
  then show "bt_get m k = Some v" and "k \<le> hi" using inv by (auto simp: bt_get_iff)
  fix k' v' assume "bt_get m k' = Some v'" and "k' \<le> hi"
  then have mem': "(k', v') \<in> set ?f" using inv by (auto simp: bt_get_iff)
  obtain front where f: "?f = front @ [(k, v)]" using ne l by (metis append_butlast_last_id)
  have "sorted_wrt (<) (map fst ?f)" using inv bt_inv_filter bt_inv_def by blast
  with f mem' show "k' \<le> k" by (auto simp: sorted_wrt_append intro: less_imp_le)
qed

text \<open>The largest key in range, given as a characterisation: what a scan of a version chain uses.\<close>

lemma bt_last_le_eqI:
  assumes inv: "bt_inv m" and get: "bt_get m k = Some v" and le: "k \<le> hi"
    and greatest: "\<And>k' v'. bt_get m k' = Some v' \<Longrightarrow> k' \<le> hi \<Longrightarrow> k' \<le> k"
  shows "bt_last_le hi m = Some (k, v)"
proof (cases "bt_last_le hi m")
  case None
  with get le show ?thesis
    using bt_get_in_set by (fastforce simp: bt_last_le_None)
next
  case (Some e)
  then obtain k2 v2 where e: "bt_last_le hi m = Some (k2, v2)" by (cases e) auto
  from bt_last_le_Some [OF inv e] get le greatest have "k2 = k"
    by (meson order.antisym)
  with bt_last_le_Some(1) [OF inv e] get Some e show ?thesis by simp
qed

end
