(* ===== verification/Txn_Manager.thy ===== *)
theory Txn_Manager
  imports Commit_Chain Wal_Replay Btree_Map
begin

text \<open>
  The transaction manager (\<open>crates/stele-txn/src/manager.rs\<close>): snapshots, first-committer-wins
  conflict detection, commit timestamps, the durable hash-chained commit record, and recovery.
  \<open>txn_manager\<close> is the manager with the state behind its mutex and its log; each call is atomic. The
  clock is read once per call, so a call takes the reading as an argument and what is proved holds
  for every clock, stalled or running backwards included. A business key is its bytes. Counter
  increments wrap, as Rust's release arithmetic does.
\<close>

section \<open>State\<close>

datatype txn_error = Conflict | TimeExhausted | TxnWal wal_error

datatype recover_error = RecoverChain chain_error | CounterExhausted string

type_synonym business_key = bytes

text \<open>\<open>BTreeSet<BusinessKey>\<close> is the map to unit the standard library builds it on.\<close>

record transaction =
  t_txn_id :: u64
  t_snapshot :: i64
  t_writes :: "(business_key, unit) btree"

record committed =
  c_txn_id :: u64
  c_commit_ts :: i64
  c_seq :: u64

record txn_manager =
  tm_wal :: wal
  tm_cursor :: i64
  tm_next_txn :: u64
  tm_next_seq :: u64
  tm_commit_head :: digest
  tm_write_index :: "(business_key, i64) btree"

section \<open>Operations\<close>

definition transaction_write :: "business_key \<Rightarrow> transaction \<Rightarrow> transaction" where
  "transaction_write key t = t\<lparr>t_writes := bt_insert key () (t_writes t)\<rparr>"

definition TxnManager_new :: "wal \<Rightarrow> txn_manager" where
  "TxnManager_new g =
     \<lparr>tm_wal = g, tm_cursor = i64_of 0, tm_next_txn = 1, tm_next_seq = 1,
      tm_commit_head = Digest_ZERO, tm_write_index = bt_empty\<rparr>"

text \<open>\<open>verify_chain_recover\<close> driven by the log's replay iterator, one item at a time.\<close>

partial_function (option) chain_replay ::
  "nat \<Rightarrow> recovered_chain \<Rightarrow> replay \<Rightarrow> wal \<Rightarrow> ((chain_error + recovered_chain) \<times> wal) option" where
  "chain_replay index st r g =
     (case replay_next r g of
        None \<Rightarrow> None
      | Some (None, r', g') \<Rightarrow> Some (Inr st, g')
      | Some (Some item, r', g') \<Rightarrow>
          (case chain_step index item st of
             Inl e \<Rightarrow> Some (Inl e, g')
           | Inr st' \<Rightarrow> chain_replay (Suc index) st' r' g'))"

definition resume_state :: "wal \<Rightarrow> recovered_chain \<Rightarrow> recover_error + txn_manager" where
  "resume_state g rc =
     result_bind (ok_or (u64_checked_add (rc_max_txn_id rc) 1) (CounterExhausted ''txn_id'')) (\<lambda>next_txn.
     result_bind (ok_or (u64_checked_add (rc_seq rc) 1) (CounterExhausted ''seq'')) (\<lambda>next_seq.
       Inr \<lparr>tm_wal = g, tm_cursor = rc_commit_ts rc, tm_next_txn = next_txn, tm_next_seq = next_seq,
            tm_commit_head = rc_head rc, tm_write_index = bt_empty\<rparr>))"

definition TxnManager_recover :: "wal \<Rightarrow> (recover_error + txn_manager) option" where
  "TxnManager_recover g =
     (case Replay_new g Checkpoint_BEGIN of (r, g1) \<Rightarrow>
        (case chain_replay 0 rc_genesis r g1 of
           None \<Rightarrow> None
         | Some (Inl e, g2) \<Rightarrow> Some (Inl (RecoverChain e))
         | Some (Inr rc, g2) \<Rightarrow> Some (resume_state g2 rc)))"

definition txn_begin :: "i64 \<Rightarrow> txn_manager \<Rightarrow> transaction \<times> txn_manager" where
  "txn_begin now m =
     (let snapshot = min (max now (tm_cursor m)) (i64_of (i64_val SYSTEM_TIME_OPEN - 1))
      in (\<lparr>t_txn_id = tm_next_txn m, t_snapshot = snapshot, t_writes = bt_empty\<rparr>,
          m\<lparr>tm_cursor := snapshot, tm_next_txn := tm_next_txn m + 1\<rparr>))"

definition txn_conflicts :: "transaction \<Rightarrow> txn_manager \<Rightarrow> bool" where
  "txn_conflicts t m =
     list_ex (\<lambda>key. case bt_get (tm_write_index m) key of
                      None \<Rightarrow> False | Some written_at \<Rightarrow> t_snapshot t < written_at)
       (bt_keys (t_writes t))"

definition txn_commit :: "i64 \<Rightarrow> transaction \<Rightarrow> txn_manager \<Rightarrow> (txn_error + committed) \<times> txn_manager" where
  "txn_commit now t m =
     (if txn_conflicts t m then (Inl Conflict, m)
      else
        (let commit_ts = max now (i64_saturating_add (tm_cursor m) (i64_of 1))
         in if SYSTEM_TIME_OPEN \<le> commit_ts then (Inl TimeExhausted, m)
            else
              (let seq = tm_next_seq m;
                   rec = \<lparr>cr_txn_id = t_txn_id t, cr_commit_ts = commit_ts, cr_seq = seq,
                          cr_prev_hash = tm_commit_head m\<rparr>
               in case log_append (CommitRecord_encode rec) (tm_wal m) of
                    (Inl e, g1) \<Rightarrow> (Inl (TxnWal e), m\<lparr>tm_wal := g1\<rparr>)
                  | (Inr _, g1) \<Rightarrow>
                      (case log_tick g1 of
                         (Inl e, g2) \<Rightarrow> (Inl (TxnWal e), m\<lparr>tm_wal := g2\<rparr>)
                       | (Inr _, g2) \<Rightarrow>
                           (Inr \<lparr>c_txn_id = t_txn_id t, c_commit_ts = commit_ts, c_seq = seq\<rparr>,
                            m\<lparr>tm_wal := g2, tm_cursor := commit_ts, tm_next_seq := seq + 1,
                              tm_commit_head := CommitRecord_hash rec,
                              tm_write_index := fold (\<lambda>key. bt_insert key commit_ts)
                                (bt_keys (t_writes t)) (tm_write_index m)\<rparr>)))))"

section \<open>The manager at work\<close>

text \<open>
  Clients around a manager: the transactions in flight, and, as a ghost history, the committed ones in
  commit order with the record each wrote.
\<close>

record txn_sys =
  s_mgr :: txn_manager
  s_active :: "transaction set"
  s_history :: "(transaction \<times> commit_record) list"

inductive txn_step :: "txn_sys \<Rightarrow> txn_sys \<Rightarrow> bool" where
  step_begin: "txn_begin now (s_mgr s) = (t, m) \<Longrightarrow>
     txn_step s (s\<lparr>s_mgr := m, s_active := insert t (s_active s)\<rparr>)"
| step_write: "t \<in> s_active s \<Longrightarrow>
     txn_step s (s\<lparr>s_active := insert (transaction_write key t) (s_active s - {t})\<rparr>)"
| step_drop: "t \<in> s_active s \<Longrightarrow> txn_step s (s\<lparr>s_active := s_active s - {t}\<rparr>)"
| step_commit: "t \<in> s_active s \<Longrightarrow> txn_commit now t (s_mgr s) = (Inr c, m) \<Longrightarrow>
     txn_step s (s\<lparr>s_mgr := m, s_active := s_active s - {t},
       s_history := s_history s @ [(t, \<lparr>cr_txn_id = c_txn_id c, cr_commit_ts = c_commit_ts c,
         cr_seq = c_seq c, cr_prev_hash = tm_commit_head (s_mgr s)\<rparr>)]\<rparr>)"
| step_commit_err: "t \<in> s_active s \<Longrightarrow> txn_commit now t (s_mgr s) = (Inl e, m) \<Longrightarrow>
     txn_step s (s\<lparr>s_mgr := m, s_active := s_active s - {t}\<rparr>)"

inductive txn_reachable :: "wal \<Rightarrow> txn_sys \<Rightarrow> bool" for g where
  reach_init: "txn_reachable g \<lparr>s_mgr = TxnManager_new g, s_active = {}, s_history = []\<rparr>"
| reach_step: "txn_reachable g s \<Longrightarrow> txn_step s s' \<Longrightarrow> txn_reachable g s'"

inductive_cases txn_stepE: "txn_step s s'"

section \<open>What each call does\<close>

abbreviation commit_rec :: "transaction \<Rightarrow> i64 \<Rightarrow> txn_manager \<Rightarrow> commit_record" where
  "commit_rec t ts m \<equiv> \<lparr>cr_txn_id = t_txn_id t, cr_commit_ts = ts, cr_seq = tm_next_seq m,
     cr_prev_hash = tm_commit_head m\<rparr>"

abbreviation write_keys :: "transaction \<Rightarrow> business_key set" where
  "write_keys t \<equiv> set (bt_keys (t_writes t))"

lemma txn_commit_ok:
  assumes "txn_commit now t m = (Inr c, m')"
  obtains ts x n g1 g2 where "\<not> txn_conflicts t m" "ts = max now (i64_saturating_add (tm_cursor m) (i64_of 1))"
    "\<not> SYSTEM_TIME_OPEN \<le> ts" "c = \<lparr>c_txn_id = t_txn_id t, c_commit_ts = ts, c_seq = tm_next_seq m\<rparr>"
    "log_append (CommitRecord_encode (commit_rec t ts m)) (tm_wal m) = (Inr x, g1)" "log_tick g1 = (Inr n, g2)"
    "m' = m\<lparr>tm_wal := g2, tm_cursor := ts, tm_next_seq := tm_next_seq m + 1,
       tm_commit_head := CommitRecord_hash (commit_rec t ts m),
       tm_write_index := fold (\<lambda>key. bt_insert key ts) (bt_keys (t_writes t)) (tm_write_index m)\<rparr>"
  using assms by (auto simp: txn_commit_def Let_def split: if_splits prod.splits sum.splits)

lemma txn_commit_err:
  assumes "txn_commit now t m = (Inl e, m')"
  obtains (clean) "m' = m"
  | (append) p e' g1 where "log_append p (tm_wal m) = (Inl e', g1)" "m' = m\<lparr>tm_wal := g1\<rparr>"
  | (sync) p x e' g1 g2 where "log_append p (tm_wal m) = (Inr x, g1)" "log_tick g1 = (Inl e', g2)"
      "m' = m\<lparr>tm_wal := g2\<rparr>"
proof -
  let ?ts = "max now (i64_saturating_add (tm_cursor m) (i64_of 1))"
  let ?p = "CommitRecord_encode (commit_rec t ?ts m)"
  obtain r g1 where a: "log_append ?p (tm_wal m) = (r, g1)" by (cases "log_append ?p (tm_wal m)")
  obtain q g2 where k: "log_tick g1 = (q, g2)" by (cases "log_tick g1")
  show thesis
  proof (cases "txn_conflicts t m \<or> SYSTEM_TIME_OPEN \<le> ?ts")
    case True
    with assms show thesis by (intro clean) (auto simp: txn_commit_def Let_def split: if_splits)
  next
    case go: False
    then have eq: "txn_commit now t m = (case r of Inl e \<Rightarrow> (Inl (TxnWal e), m\<lparr>tm_wal := g1\<rparr>)
      | Inr _ \<Rightarrow> (case q of Inl e \<Rightarrow> (Inl (TxnWal e), m\<lparr>tm_wal := g2\<rparr>) | Inr _ \<Rightarrow> txn_commit now t m))"
      using a k by (simp add: txn_commit_def Let_def split: sum.split)
    show thesis
    proof (cases r)
      case (Inl e')
      with eq assms have "m' = m\<lparr>tm_wal := g1\<rparr>" by simp
      with a Inl show thesis using append by simp
    next
      case (Inr x)
      show thesis
      proof (cases q)
        case (Inl e')
        with eq assms Inr have "m' = m\<lparr>tm_wal := g2\<rparr>" by simp
        with a k Inl Inr show thesis using sync by simp
      next
        case (Inr n)
        with go a k \<open>r = Inr x\<close> assms show thesis by (simp add: txn_commit_def Let_def)
      qed
    qed
  qed
qed

lemma commit_ts_above:
  assumes "tm_cursor m < I64_MAX"
  shows "tm_cursor m < max now (i64_saturating_add (tm_cursor m) (i64_of 1))"
  using i64_saturating_add_strict [OF _ assms, of "i64_of 1"]
  by (simp add: i64_val_of i64_min_def i64_max_def less_max_iff_disj)

lemma get_fold_write:
  "bt_get (fold (\<lambda>key. bt_insert key ts) ks w) k = (if k \<in> set ks then Some ts else bt_get w k)"
  by (induction ks arbitrary: w) auto

lemma txn_conflicts_iff:
  "txn_conflicts t m \<longleftrightarrow> (\<exists>k\<in>write_keys t. \<exists>ts. bt_get (tm_write_index m) k = Some ts \<and> t_snapshot t < ts)"
  by (auto simp: txn_conflicts_def list_ex_iff split: option.splits)

section \<open>The manager's invariant\<close>

text \<open>Two committed writers of one key never overlap: the later one's snapshot saw the earlier.\<close>

definition no_overlap :: "transaction \<times> commit_record \<Rightarrow> transaction \<times> commit_record \<Rightarrow> bool" where
  "no_overlap a b \<longleftrightarrow> write_keys (fst a) \<inter> write_keys (fst b) = {} \<or> cr_commit_ts (snd a) \<le> t_snapshot (fst b)"

definition time_inv :: "txn_sys \<Rightarrow> bool" where
  "time_inv s \<longleftrightarrow> tm_cursor (s_mgr s) < I64_MAX \<and> i64_of 0 \<le> tm_cursor (s_mgr s) \<and>
     (\<forall>t\<in>s_active s. t_snapshot t \<le> tm_cursor (s_mgr s)) \<and>
     (\<forall>(t, r)\<in>set (s_history s). t_snapshot t < cr_commit_ts r \<and> cr_commit_ts r \<le> tm_cursor (s_mgr s)) \<and>
     sorted_wrt (<) (map (cr_commit_ts \<circ> snd) (s_history s))"

definition index_inv :: "txn_sys \<Rightarrow> bool" where
  "index_inv s \<longleftrightarrow>
     (\<forall>(t, r)\<in>set (s_history s). \<forall>k\<in>write_keys t.
        \<exists>ts. bt_get (tm_write_index (s_mgr s)) k = Some ts \<and> cr_commit_ts r \<le> ts) \<and>
     (\<forall>k ts. bt_get (tm_write_index (s_mgr s)) k = Some ts \<longrightarrow>
        (\<exists>(t, r)\<in>set (s_history s). k \<in> write_keys t \<and> cr_commit_ts r = ts)) \<and>
     sorted_wrt no_overlap (s_history s)"

definition chain_inv :: "txn_sys \<Rightarrow> bool" where
  "chain_inv s \<longleftrightarrow>
     (let rs = map snd (s_history s) in
      linked Digest_ZERO rs \<and> list_all cr_wf rs \<and> tm_commit_head (s_mgr s) = chain_hash Digest_ZERO rs \<and>
      map cr_seq rs = map of_nat [1..<Suc (length rs)] \<and> tm_next_seq (s_mgr s) = of_nat (Suc (length rs)) \<and>
      length (as_bytes (tm_commit_head (s_mgr s))) = SHA256_LEN)"

lemma txn_begin_spec:
  assumes "txn_begin now m = (t, m')" "tm_cursor m < I64_MAX"
  shows "tm_cursor m \<le> tm_cursor m'" "t_snapshot t = tm_cursor m'" "tm_cursor m' < I64_MAX"
    "m' = m\<lparr>tm_cursor := tm_cursor m', tm_next_txn := tm_next_txn m + 1\<rparr>" "t_writes t = bt_empty"
proof -
  let ?top = "i64_of (i64_max - 1)"
  have top: "i64_val ?top = i64_max - 1" by (simp add: i64_val_of i64_min_def i64_max_def)
  have "tm_cursor m \<le> ?top" using assms(2) by (simp add: less_eq_i64_def less_i64_def i64_val_of i64_min_def i64_max_def)
  with assms(1) show "tm_cursor m \<le> tm_cursor m'" "t_snapshot t = tm_cursor m'"
    "m' = m\<lparr>tm_cursor := tm_cursor m', tm_next_txn := tm_next_txn m + 1\<rparr>" "t_writes t = bt_empty"
    by (auto simp: txn_begin_def Let_def SYSTEM_TIME_OPEN_def)
  have "?top < I64_MAX" by (simp add: less_i64_def top)
  then show "tm_cursor m' < I64_MAX"
    using assms(1) by (auto simp: txn_begin_def Let_def SYSTEM_TIME_OPEN_def min_less_iff_disj)
qed

lemma time_inv_step:
  assumes "time_inv s" "txn_step s s'"
  shows "time_inv s'"
  using assms(2)
proof cases
  case (step_begin now t m)
  note b = txn_begin_spec [OF step_begin(2)]
  from assms(1) b show ?thesis unfolding step_begin(1) time_inv_def by fastforce
next
  case (step_write t key)
  with assms(1) show ?thesis by (auto simp: time_inv_def transaction_write_def)
next
  case (step_drop t)
  with assms(1) show ?thesis by (auto simp: time_inv_def)
next
  case (step_commit t now c m)
  from step_commit(3) show ?thesis
  proof (rule txn_commit_ok)
    fix ts g2
    assume ts: "ts = max now (i64_saturating_add (tm_cursor (s_mgr s)) (i64_of 1))" "\<not> SYSTEM_TIME_OPEN \<le> ts"
      and c: "c = \<lparr>c_txn_id = t_txn_id t, c_commit_ts = ts, c_seq = tm_next_seq (s_mgr s)\<rparr>"
      and m: "m = (s_mgr s)\<lparr>tm_wal := g2, tm_cursor := ts, tm_next_seq := tm_next_seq (s_mgr s) + 1,
       tm_commit_head := CommitRecord_hash (commit_rec t ts (s_mgr s)),
       tm_write_index := fold (\<lambda>key. bt_insert key ts) (bt_keys (t_writes t)) (tm_write_index (s_mgr s))\<rparr>"
    have up: "tm_cursor (s_mgr s) < ts" using commit_ts_above assms(1) ts(1) by (auto simp: time_inv_def)
    have "\<forall>a\<in>set (s_history s). cr_commit_ts (snd a) < ts"
      using assms(1) up by (fastforce simp: time_inv_def)
    with assms(1) up ts(2) step_commit(2) show ?thesis
      unfolding step_commit(1) time_inv_def c m
      by (fastforce simp: sorted_wrt_append SYSTEM_TIME_OPEN_def)
  qed
next
  case (step_commit_err t now e m)
  from step_commit_err(3) have "tm_cursor m = tm_cursor (s_mgr s)"
    by (rule txn_commit_err) simp_all
  with assms(1) step_commit_err show ?thesis by (auto simp: time_inv_def)
qed

lemma index_inv_step:
  assumes "index_inv s" "time_inv s" "txn_step s s'"
  shows "index_inv s'"
  using assms(3)
proof cases
  case (step_begin now t m)
  have "tm_cursor (s_mgr s) < I64_MAX" using assms(2) by (simp add: time_inv_def)
  then have "tm_write_index m = tm_write_index (s_mgr s)"
    using txn_begin_spec(4) [OF step_begin(2)] by (metis txn_manager.ext_inject txn_manager.surjective txn_manager.update_convs)
  with assms(1) show ?thesis unfolding step_begin(1) index_inv_def by simp
next
  case (step_commit t now c m)
  from step_commit(3) show ?thesis
  proof (rule txn_commit_ok)
    fix ts g2
    assume ok: "\<not> txn_conflicts t (s_mgr s)" and ts: "ts = max now (i64_saturating_add (tm_cursor (s_mgr s)) (i64_of 1))"
      and c: "c = \<lparr>c_txn_id = t_txn_id t, c_commit_ts = ts, c_seq = tm_next_seq (s_mgr s)\<rparr>"
      and m: "m = (s_mgr s)\<lparr>tm_wal := g2, tm_cursor := ts, tm_next_seq := tm_next_seq (s_mgr s) + 1,
       tm_commit_head := CommitRecord_hash (commit_rec t ts (s_mgr s)),
       tm_write_index := fold (\<lambda>key. bt_insert key ts) (bt_keys (t_writes t)) (tm_write_index (s_mgr s))\<rparr>"
    have up: "tm_cursor (s_mgr s) < ts" using commit_ts_above assms(2) ts by (auto simp: time_inv_def)
    have below: "cr_commit_ts r \<le> ts" if "(t', r) \<in> set (s_history s)" for t' r
      using assms(2) up that by (fastforce simp: time_inv_def)
    have fresh: "no_overlap (t', r) (t, r')" if "(t', r) \<in> set (s_history s)" for t' r r'
    proof (rule ccontr)
      assume "\<not> no_overlap (t', r) (t, r')"
      then obtain k where k: "k \<in> write_keys t'" "k \<in> write_keys t" "\<not> cr_commit_ts r \<le> t_snapshot t"
        by (auto simp: no_overlap_def)
      with assms(1) that obtain x where "bt_get (tm_write_index (s_mgr s)) k = Some x" "cr_commit_ts r \<le> x"
        by (fastforce simp: index_inv_def)
      with ok k show False by (auto simp: txn_conflicts_iff)
    qed
    have "\<exists>x. bt_get (tm_write_index m) k = Some x \<and> cr_commit_ts r \<le> x"
      if "(t', r) \<in> set (s_history s)" "k \<in> write_keys t'" for t' r k
      using assms(1) that below [OF that(1)] by (fastforce simp: m get_fold_write index_inv_def)
    moreover have "\<exists>x. bt_get (tm_write_index m) k = Some x \<and> ts \<le> x" if "k \<in> write_keys t" for k
      using that by (simp add: m get_fold_write)
    moreover have "\<exists>(t', r)\<in>set (s_history s) \<union> {(t, commit_rec t ts (s_mgr s))}. k \<in> write_keys t' \<and> cr_commit_ts r = x"
      if "bt_get (tm_write_index m) k = Some x" for k x
      using that assms(1) by (fastforce simp: m get_fold_write index_inv_def split: if_splits)
    ultimately show ?thesis
      using assms(1) fresh unfolding step_commit(1) index_inv_def c by (auto simp: sorted_wrt_append)
  qed
next
  case (step_commit_err t now e m)
  from step_commit_err(3) have "tm_write_index m = tm_write_index (s_mgr s)"
    by (rule txn_commit_err) simp_all
  with assms(1) step_commit_err show ?thesis by (simp add: index_inv_def)
qed (use assms(1) in \<open>simp_all add: index_inv_def\<close>)

lemma chain_inv_step:
  assumes "chain_inv s" "tm_cursor (s_mgr s) < I64_MAX" "txn_step s s'"
  shows "chain_inv s'"
  using assms(3)
proof cases
  case (step_begin now t m)
  from txn_begin_spec(4) [OF step_begin(2) assms(2)]
  have "tm_commit_head m = tm_commit_head (s_mgr s)" "tm_next_seq m = tm_next_seq (s_mgr s)"
    by (metis txn_manager.ext_inject txn_manager.surjective txn_manager.update_convs)+
  with assms(1) show ?thesis unfolding step_begin(1) chain_inv_def by simp
next
  case (step_commit t now c m)
  from step_commit(3) show ?thesis
  proof (rule txn_commit_ok)
    fix ts g2
    assume c: "c = \<lparr>c_txn_id = t_txn_id t, c_commit_ts = ts, c_seq = tm_next_seq (s_mgr s)\<rparr>"
      and m: "m = (s_mgr s)\<lparr>tm_wal := g2, tm_cursor := ts, tm_next_seq := tm_next_seq (s_mgr s) + 1,
       tm_commit_head := CommitRecord_hash (commit_rec t ts (s_mgr s)),
       tm_write_index := fold (\<lambda>key. bt_insert key ts) (bt_keys (t_writes t)) (tm_write_index (s_mgr s))\<rparr>"
    show ?thesis
      using assms(1) unfolding step_commit(1) chain_inv_def c m
      by (auto simp: Let_def cr_wf_def CommitRecord_hash_def)
  qed
next
  case (step_commit_err t now e m)
  from step_commit_err(3) have "tm_commit_head m = tm_commit_head (s_mgr s)" "tm_next_seq m = tm_next_seq (s_mgr s)"
    by (rule txn_commit_err, simp_all)+
  with assms(1) step_commit_err show ?thesis by (simp add: chain_inv_def)
qed (use assms(1) in \<open>simp_all add: chain_inv_def\<close>)

text \<open>The log behind the manager: either it is dead or it holds exactly the committed records.\<close>

definition log_inv :: "txn_sys \<Rightarrow> bool" where
  "log_inv s \<longleftrightarrow> w_poisoned (tm_wal (s_mgr s)) \<or>
     log_holds (tm_wal (s_mgr s)) (map (CommitRecord_encode \<circ> snd) (s_history s))"

lemma log_inv_step:
  assumes inv: "wal_room (tm_wal (s_mgr s)) \<Longrightarrow> log_inv s" and step: "txn_step s s'"
    and room: "wal_room (tm_wal (s_mgr s'))"
  shows "log_inv s'"
  using step
proof cases
  case (step_begin now t m)
  then have "tm_wal m = tm_wal (s_mgr s)" by (auto simp: txn_begin_def Let_def)
  with inv room step_begin show ?thesis by (simp add: log_inv_def)
next
  case (step_commit t now c m)
  from step_commit(3) show ?thesis
  proof (rule txn_commit_ok)
    fix ts x n g1 g2
    assume c: "c = \<lparr>c_txn_id = t_txn_id t, c_commit_ts = ts, c_seq = tm_next_seq (s_mgr s)\<rparr>"
      and a: "log_append (CommitRecord_encode (commit_rec t ts (s_mgr s))) (tm_wal (s_mgr s)) = (Inr x, g1)"
      and k: "log_tick g1 = (Inr n, g2)"
      and m: "m = (s_mgr s)\<lparr>tm_wal := g2, tm_cursor := ts, tm_next_seq := tm_next_seq (s_mgr s) + 1,
       tm_commit_head := CommitRecord_hash (commit_rec t ts (s_mgr s)),
       tm_write_index := fold (\<lambda>key. bt_insert key ts) (bt_keys (t_writes t)) (tm_write_index (s_mgr s))\<rparr>"
    have r2: "wal_room g2" using room step_commit(1) m by simp
    have "wal_room (tm_wal (s_mgr s))"
      using wal_log.room_append [OF a] wal_log.room_sync [OF k r2] by blast
    then have "log_holds (tm_wal (s_mgr s)) (map (CommitRecord_encode \<circ> snd) (s_history s))"
      using inv wal_log.commit_alive [OF _ a] by (auto simp: log_inv_def)
    from wal_log.commit_ok [OF this a k r2] show ?thesis
      unfolding step_commit(1) log_inv_def c m by simp
  qed
next
  case (step_commit_err t now e m)
  have hist: "s_history s' = s_history s" "s_mgr s' = m" using step_commit_err(1) by simp_all
  from step_commit_err(3) show ?thesis
  proof (cases rule: txn_commit_err)
    case clean
    with inv room hist show ?thesis by (simp add: log_inv_def)
  next
    case (append p e' g1)
    have "wal_room g1" using room hist append by simp
    moreover from this have "log_inv s" using inv wal_log.room_append [OF append(1)] by blast
    ultimately show ?thesis
      using wal_log.commit_append_failed [OF _ append(1)] append(2) hist by (simp add: log_inv_def)
  next
    case (sync p x e' g1 g2)
    with wal_log.sync_err [OF sync(2)] hist show ?thesis by (simp add: log_inv_def)
  qed
qed (use inv room in \<open>simp_all add: log_inv_def\<close>)

lemma time_inv_init: "time_inv \<lparr>s_mgr = TxnManager_new g, s_active = {}, s_history = []\<rparr>"
  by (simp add: time_inv_def TxnManager_new_def less_i64_def i64_val_of i64_min_def i64_max_def)

lemma reachable_inv:
  assumes "txn_reachable g s"
  shows "time_inv s \<and> index_inv s \<and> chain_inv s"
  using assms
proof (induction rule: txn_reachable.induct)
  case reach_init
  have "length (as_bytes Digest_ZERO) = SHA256_LEN" by (simp add: Digest_ZERO_def)
  with time_inv_init show ?case
    by (simp add: index_inv_def chain_inv_def TxnManager_new_def)
next
  case (reach_step s s')
  then show ?case using time_inv_step index_inv_step chain_inv_step time_inv_def by metis
qed

lemma reachable_log:
  assumes "txn_reachable g s" "log_holds g []"
  shows "wal_room (tm_wal (s_mgr s)) \<Longrightarrow> log_inv s"
  using assms(1)
proof (induction rule: txn_reachable.induct)
  case reach_init
  with assms(2) show ?case by (simp add: log_inv_def TxnManager_new_def)
next
  case (reach_step s s')
  then show ?case using log_inv_step by blast
qed

section \<open>Snapshot isolation\<close>

text \<open>
  C1. First committer wins: in every reachable state, for any clock readings and any interleaving, if
  two committed transactions wrote a common key, the later one began at a snapshot that already
  includes the earlier commit. So no committed update is lost, and commit timestamps and sequence
  numbers strictly follow commit order.
\<close>

theorem txn_first_committer_wins:
  assumes "txn_reachable g s" and "i < j" and "j < length (s_history s)"
    and "s_history s ! i = (t1, r1)" and "s_history s ! j = (t2, r2)"
  shows "cr_commit_ts r1 < cr_commit_ts r2 \<and>
     (write_keys t1 \<inter> write_keys t2 \<noteq> {} \<longrightarrow> cr_commit_ts r1 \<le> t_snapshot t2) \<and>
     cr_seq r1 = of_nat (Suc i) \<and> cr_seq r2 = of_nat (Suc j)"
proof (intro conjI)
  note inv = reachable_inv [OF assms(1)]
  have "sorted_wrt (<) (map (cr_commit_ts \<circ> snd) (s_history s))" using inv by (simp add: time_inv_def)
  then show "cr_commit_ts r1 < cr_commit_ts r2"
    using assms(2-5) by (fastforce simp: sorted_wrt_iff_nth_less)
  have "sorted_wrt no_overlap (s_history s)" using inv by (simp add: index_inv_def)
  with assms(2-5) have "no_overlap (t1, r1) (t2, r2)" by (metis sorted_wrt_iff_nth_less)
  then show "write_keys t1 \<inter> write_keys t2 \<noteq> {} \<longrightarrow> cr_commit_ts r1 \<le> t_snapshot t2"
    by (auto simp: no_overlap_def)
  have seqs: "map cr_seq (map snd (s_history s)) = map of_nat [1..<Suc (length (s_history s))]"
    using inv by (simp add: chain_inv_def Let_def)
  have at: "cr_seq (snd (s_history s ! n)) = of_nat (Suc n)" if "n < length (s_history s)" for n
    using arg_cong [OF seqs, of "\<lambda>xs. xs ! n"] that by (simp del: upt_Suc)
  show "cr_seq r1 = of_nat (Suc i)" and "cr_seq r2 = of_nat (Suc j)"
    using at [of i] at [of j] assms(2-5) by simp_all
qed

text \<open>
  Snapshots are stable: a commit that succeeds in a reachable state gets a timestamp strictly
  above the snapshot of every transaction still in flight, above every earlier commit, and below
  the open sentinel. So no later commit can change what an outstanding snapshot reads.
\<close>

theorem txn_snapshots_stable:
  assumes "txn_reachable g s" and "txn_commit now t (s_mgr s) = (Inr c, m)"
  shows "(\<forall>t'\<in>s_active s. t_snapshot t' < c_commit_ts c) \<and>
     (\<forall>(t', r)\<in>set (s_history s). cr_commit_ts r < c_commit_ts c) \<and>
     c_commit_ts c < SYSTEM_TIME_OPEN \<and> now \<le> c_commit_ts c"
proof (intro conjI)
  have inv: "time_inv s" using reachable_inv [OF assms(1)] by simp
  from assms(2) have up: "tm_cursor (s_mgr s) < c_commit_ts c" and "\<not> SYSTEM_TIME_OPEN \<le> c_commit_ts c"
    and "now \<le> c_commit_ts c"
    using commit_ts_above inv by (auto elim!: txn_commit_ok simp: time_inv_def)
  then show "c_commit_ts c < SYSTEM_TIME_OPEN" and "now \<le> c_commit_ts c" by simp_all
  show "\<forall>t'\<in>s_active s. t_snapshot t' < c_commit_ts c"
    and "\<forall>(t', r)\<in>set (s_history s). cr_commit_ts r < c_commit_ts c"
    using inv up by (fastforce simp: time_inv_def)+
qed

text \<open>
  Conflict detection is exact: in a reachable state a commit is refused with \<open>Conflict\<close> if and
  only if a transaction that committed after this one's snapshot wrote one of its keys; and the
  refusal changes nothing.
\<close>

theorem txn_conflict_exact:
  assumes "txn_reachable g s"
  shows "(fst (txn_commit now t (s_mgr s)) = Inl Conflict \<longleftrightarrow>
     (\<exists>(t', r)\<in>set (s_history s). write_keys t' \<inter> write_keys t \<noteq> {} \<and> t_snapshot t < cr_commit_ts r)) \<and>
    (fst (txn_commit now t (s_mgr s)) = Inl Conflict \<longrightarrow> snd (txn_commit now t (s_mgr s)) = s_mgr s)"
proof (intro conjI)
  have idx: "index_inv s" using reachable_inv [OF assms] by simp
  have eq: "fst (txn_commit now t (s_mgr s)) = Inl Conflict \<longleftrightarrow> txn_conflicts t (s_mgr s)"
    by (auto simp: txn_commit_def Let_def split: sum.splits prod.splits)
  have "txn_conflicts t (s_mgr s) \<longleftrightarrow>
     (\<exists>(t', r)\<in>set (s_history s). write_keys t' \<inter> write_keys t \<noteq> {} \<and> t_snapshot t < cr_commit_ts r)"
  proof
    assume "txn_conflicts t (s_mgr s)"
    then obtain k ts where k: "k \<in> write_keys t" "bt_get (tm_write_index (s_mgr s)) k = Some ts" "t_snapshot t < ts"
      by (auto simp: txn_conflicts_iff)
    with idx obtain t' r where "(t', r) \<in> set (s_history s)" "k \<in> write_keys t'" "cr_commit_ts r = ts"
      unfolding index_inv_def by blast
    with k show "\<exists>(t', r)\<in>set (s_history s). write_keys t' \<inter> write_keys t \<noteq> {} \<and> t_snapshot t < cr_commit_ts r"
      by blast
  next
    assume "\<exists>(t', r)\<in>set (s_history s). write_keys t' \<inter> write_keys t \<noteq> {} \<and> t_snapshot t < cr_commit_ts r"
    then obtain t' r k where "(t', r) \<in> set (s_history s)" "k \<in> write_keys t'" "k \<in> write_keys t"
      "t_snapshot t < cr_commit_ts r" by blast
    moreover from this idx obtain ts where "bt_get (tm_write_index (s_mgr s)) k = Some ts" "cr_commit_ts r \<le> ts"
      unfolding index_inv_def by blast
    ultimately show "txn_conflicts t (s_mgr s)" unfolding txn_conflicts_iff by (meson order.strict_trans2)
  qed
  with eq show "fst (txn_commit now t (s_mgr s)) = Inl Conflict \<longleftrightarrow>
     (\<exists>(t', r)\<in>set (s_history s). write_keys t' \<inter> write_keys t \<noteq> {} \<and> t_snapshot t < cr_commit_ts r)" by simp
  show "fst (txn_commit now t (s_mgr s)) = Inl Conflict \<longrightarrow> snd (txn_commit now t (s_mgr s)) = s_mgr s"
    using eq by (simp add: txn_commit_def)
qed

section \<open>The commit log and recovery\<close>

lemma seq_of_last: "rs \<noteq> [] \<Longrightarrow> rc_seq (rc_of st rs) = cr_seq (last rs) \<and> rc_commit_ts (rc_of st rs) = cr_commit_ts (last rs)"
  by (cases rs rule: rev_cases) (simp_all add: rc_push_def)

lemma rc_of_len: "rc_len (rc_of st rs) = rc_len st + of_nat (length rs)"
  by (induction rs rule: rev_induct) (simp_all add: rc_push_def)

lemma rc_max_ge: "rc_max_txn_id st \<le> rc_max_txn_id (rc_of st rs) \<and>
   (\<forall>r\<in>set rs. cr_txn_id r \<le> rc_max_txn_id (rc_of st rs))"
  by (induction rs rule: rev_induct) (auto simp: rc_push_def intro: order.trans max.cobounded1)

lemma verify_linked:
  assumes "linked Digest_ZERO rs" "list_all cr_wf rs"
  shows "verify_chain_recover (log_items rs) = Inr (rc_of rc_genesis rs)"
  unfolding verify_chain_recover_def chain_loop_ok using assms by (auto simp: rc_genesis_def)

text \<open>
  C35. What was acknowledged is what the log proves: in every reachable state whose log has not
  failed, the log holds exactly the committed records in commit order, that log verifies from
  genesis, and it verifies against the manager's \<open>commit_head\<close>, with as many records as commits.
\<close>

theorem txn_log_verifies:
  assumes "txn_reachable g s" and "log_holds g []" and "wal_room (tm_wal (s_mgr s))"
    and "\<not> w_poisoned (tm_wal (s_mgr s))"
  shows "log_holds (tm_wal (s_mgr s)) (map (CommitRecord_encode \<circ> snd) (s_history s)) \<and>
     verify_chain_to (log_items (map snd (s_history s))) (tm_commit_head (s_mgr s)) =
       Inr \<lparr>ch_head = tm_commit_head (s_mgr s), ch_len = of_nat (length (s_history s))\<rparr>"
proof (intro conjI)
  show "log_holds (tm_wal (s_mgr s)) (map (CommitRecord_encode \<circ> snd) (s_history s))"
    using reachable_log [OF assms(1-3)] assms(4) by (simp add: log_inv_def)
  have inv: "linked Digest_ZERO (map snd (s_history s))" "list_all cr_wf (map snd (s_history s))"
    "tm_commit_head (s_mgr s) = chain_hash Digest_ZERO (map snd (s_history s))"
    using reachable_inv [OF assms(1)] by (auto simp: chain_inv_def Let_def)
  have "rc_head (rc_of rc_genesis (map snd (s_history s))) = tm_commit_head (s_mgr s)"
    unfolding inv(3) rc_of_head by (simp add: rc_genesis_def)
  moreover have "rc_len (rc_of rc_genesis (map snd (s_history s))) = of_nat (length (s_history s))"
    unfolding rc_of_len by (simp add: rc_genesis_def)
  ultimately show "verify_chain_to (log_items (map snd (s_history s))) (tm_commit_head (s_mgr s)) =
       Inr \<lparr>ch_head = tm_commit_head (s_mgr s), ch_len = of_nat (length (s_history s))\<rparr>"
    by (simp add: verify_chain_to_def verify_chain_def verify_linked [OF inv(1,2)])
qed

text \<open>Verification driven by replay agrees with verification of the scanned records.\<close>

lemma chain_replay_spec:
  "at_cursor r g cs \<Longrightarrow> \<exists>out g'. chain_replay i st r g = Some (out, g') \<and>
     (\<forall>st'. out = Inr st' \<longrightarrow> same_files g g' \<and>
        chain_loop i (map Inr (fst (scan_segments cs))) st = Inr st') \<and>
     (md_faults (w_disk g) = [] \<longrightarrow> \<not> snd (scan_segments cs) \<longrightarrow>
        out = chain_loop i (map Inr (fst (scan_segments cs))) st)"
proof (induction "length (concat cs)" arbitrary: r g cs i st rule: less_induct)
  case less
  obtain out where rn: "read_next r g = Some out" and out: "read_outcome r g cs out"
    using read_next_spec [OF less.prems] by blast
  obtain res r1 g1 where o: "out = (res, r1, g1)" by (metis prod_cases3)
  have live: "\<not> rp_stopped r" "rp_init_error r = None" using less.prems by (auto simp: at_cursor_def)
  consider (err) e where "res = Inl e" | (fin) "res = Inr None" | (hit) p where "res = Inr (Some p)"
    by (cases res) (metis option.exhaust)+
  then show ?case
  proof cases
    case err
    with rn live o have "chain_replay i st r g = Some (Inl (Replay i e), g1)"
      by (simp add: chain_replay.simps [of i st r g] replay_next_def chain_step_def)
    with out err o show ?thesis
      by (intro exI [of _ "Inl (Replay i e)"] exI [of _ g1]) (auto simp: read_outcome_def)
  next
    case fin
    with rn live o have "chain_replay i st r g = Some (Inr st, g1)"
      by (simp add: chain_replay.simps [of i st r g] replay_next_def)
    with out fin o show ?thesis
      by (intro exI [of _ "Inr st"] exI [of _ g1]) (simp add: read_outcome_def)
  next
    case hit
    with out o obtain cs' where cs': "at_cursor r1 g1 cs'" "length (concat cs') < length (concat cs)"
      "scan_segments cs = (p # fst (scan_segments cs'), snd (scan_segments cs'))" and sf: "same_files g g1"
      by (auto simp: read_outcome_def)
    have step: "chain_replay i st r g = (case chain_step i (Inr p) st of Inl e \<Rightarrow> Some (Inl e, g1)
        | Inr st' \<Rightarrow> chain_replay (Suc i) st' r1 g1)"
      using rn live o hit by (simp add: chain_replay.simps [of i st r g] replay_next_def)
    show ?thesis
    proof (cases "chain_step i (Inr p) st")
      case (Inl e)
      with step cs'(3) show ?thesis by simp
    next
      case (Inr st1)
      from less.hyps [OF cs'(2,1), of "Suc i" st1] obtain out' g' where
        ih: "chain_replay (Suc i) st1 r1 g1 = Some (out', g')"
        "\<forall>st'. out' = Inr st' \<longrightarrow> same_files g1 g' \<and>
           chain_loop (Suc i) (map Inr (fst (scan_segments cs'))) st1 = Inr st'"
        "md_faults (w_disk g1) = [] \<longrightarrow> \<not> snd (scan_segments cs') \<longrightarrow>
           out' = chain_loop (Suc i) (map Inr (fst (scan_segments cs'))) st1" by blast
      have run: "chain_replay i st r g = Some (out', g')" using step Inr ih(1) by simp
      have loop: "chain_loop i (map Inr (fst (scan_segments cs))) st =
          chain_loop (Suc i) (map Inr (fst (scan_segments cs'))) st1"
        using Inr cs'(3) by simp
      have bad: "snd (scan_segments cs) = snd (scan_segments cs')" using cs'(3) by simp
      show ?thesis
        unfolding loop bad using run ih(2,3) same_files_trans [OF sf] same_filesD(5) [OF sf] by blast
    qed
  qed
qed

lemma log_holds_same: "same_files g g' \<Longrightarrow> log_holds g ps \<Longrightarrow> log_holds g' ps"
  unfolding same_files_def log_holds_def using wal_holds_disk' by metis

text \<open>Recovery of a log that holds a linked chain, for any schedule of read faults.\<close>

lemma recover_linked:
  assumes holds: "log_holds g (map CommitRecord_encode rs)" and lk: "linked Digest_ZERO rs" "list_all cr_wf rs"
  shows "\<exists>out. TxnManager_recover g = Some out \<and>
     (\<forall>m. out = Inr m \<longrightarrow> (\<exists>g'. same_files g g' \<and> out = resume_state g' (rc_of rc_genesis rs))) \<and>
     (md_faults (w_disk g) = [] \<longrightarrow> (\<exists>g'. same_files g g' \<and> out = resume_state g' (rc_of rc_genesis rs)))"
proof -
  from holds obtain L where L: "wal_holds g L" "concat L = map CommitRecord_encode rs"
    by (auto simp: log_holds_def)
  obtain r g1 where n: "Replay_new g Checkpoint_BEGIN = (r, g1)" by (cases "Replay_new g Checkpoint_BEGIN")
  show ?thesis
  proof (cases "rp_init_error r")
    case (Some e)
    then have "chain_replay 0 rc_genesis r g1 = Some (Inl (Replay 0 e), g1)"
      using Replay_new_live [OF n] by (simp add: chain_replay.simps [of 0] replay_next_def chain_step_def)
    then show ?thesis using Replay_new_faultless [OF _ n] Some n by (auto simp: TxnManager_recover_def)
  next
    case None
    note t = wal_holds_tail [OF L(1)]
    note c = replay_from_begin [OF t n None]
    have scan: "scan_segments (map seg_bytes (butlast L) @ [seg_bytes (last L) @ []]) = (concat L, False)"
      using scan_log [of L "[]"] t by (simp add: wal_tail_def frame_split_def HEADER_LEN_def)
    have loop: "chain_loop 0 (map Inr (concat L)) rc_genesis = Inr (rc_of rc_genesis rs)"
      using verify_linked [OF lk] by (simp add: L(2) verify_chain_recover_def log_items_def comp_def)
    from chain_replay_spec [OF c(1), of 0 rc_genesis] obtain out g2 where
      o: "chain_replay 0 rc_genesis r g1 = Some (out, g2)"
        "\<forall>st'. out = Inr st' \<longrightarrow> same_files g1 g2 \<and> Inr (rc_of rc_genesis rs) = (Inr st' :: chain_error + recovered_chain)"
        "md_faults (w_disk g1) = [] \<longrightarrow> out = Inr (rc_of rc_genesis rs)"
      unfolding scan by (auto simp: loop)
    show ?thesis
    proof (cases out)
      case (Inl e)
      then show ?thesis using n o same_filesD(5) [OF c(2)] by (auto simp: TxnManager_recover_def)
    next
      case (Inr st')
      then have "TxnManager_recover g = Some (resume_state g2 (rc_of rc_genesis rs))" "same_files g g2"
        using n o same_files_trans [OF c(2)] by (auto simp: TxnManager_recover_def)
      then show ?thesis by blast
    qed
  qed
qed

lemma u64_checked_add_one:
  "u64_checked_add a 1 = Some b \<Longrightarrow> b = a + 1 \<and> a < b"
  "a \<noteq> U64_MAX \<Longrightarrow> \<exists>b. u64_checked_add a 1 = Some b"
proof -
  assume "u64_checked_add a 1 = Some b"
  then have n: "unat a + 1 < 2 ^ 64" and b: "b = a + 1" by (auto simp: u64_checked_add_def split: if_splits)
  have "unat (a + 1) = unat a + 1" using n by (subst unat_add_lem [THEN iffD1]) simp_all
  with b show "b = a + 1 \<and> a < b" by (simp add: word_less_nat_alt)
next
  assume "a \<noteq> U64_MAX"
  then have "unat a \<noteq> unat U64_MAX" by (simp add: word_unat_eq_iff)
  moreover have "unat U64_MAX = 2 ^ 64 - 1" by (simp add: U64_MAX_def)
  moreover have "unat a < 2 ^ 64" using unsigned_less [of a] by simp
  ultimately show "\<exists>b. u64_checked_add a 1 = Some b" by (simp add: u64_checked_add_def)
qed

lemma resume_state_ok:
  assumes "resume_state g rc = Inr m"
  shows "tm_commit_head m = rc_head rc" "tm_cursor m = rc_commit_ts rc" "tm_wal m = g"
    "tm_next_seq m = rc_seq rc + 1" "rc_max_txn_id rc < tm_next_txn m" "tm_write_index m = bt_empty"
  using assms u64_checked_add_one(1) by (auto simp: resume_state_def result_simps)

lemma rc_max_in: "rc_max_txn_id (rc_of rc_genesis rs) = 0 \<or> (\<exists>r\<in>set rs. rc_max_txn_id (rc_of rc_genesis rs) = cr_txn_id r)"
  by (induction rs rule: rev_induct) (auto simp: rc_genesis_def rc_push_def max_def)

text \<open>The tail state recovered from the records of a reachable history.\<close>

abbreviation history_tail :: "txn_sys \<Rightarrow> recovered_chain" where
  "history_tail s \<equiv> rc_of rc_genesis (map snd (s_history s))"

lemma history_tail_seq:
  assumes "chain_inv s"
  shows "rc_seq (history_tail s) = of_nat (length (s_history s))"
proof (cases "s_history s = []")
  case False
  have "map cr_seq (map snd (s_history s)) = map of_nat [1..<Suc (length (s_history s))]"
    using assms by (simp add: chain_inv_def Let_def)
  then have "last (map cr_seq (map snd (s_history s))) = of_nat (length (s_history s))"
    using False by (simp add: Suc_le_eq)
  with False seq_of_last [of "map snd (s_history s)" rc_genesis] show ?thesis by (simp add: last_map)
qed (simp add: rc_genesis_def)

lemma history_tail_cursor:
  assumes "time_inv s"
  shows "rc_commit_ts (history_tail s) \<le> tm_cursor (s_mgr s)"
    and "(t, r) \<in> set (s_history s) \<Longrightarrow> cr_commit_ts r \<le> rc_commit_ts (history_tail s)"
proof -
  let ?h = "s_history s"
  have tail: "?h \<noteq> [] \<Longrightarrow> rc_commit_ts (history_tail s) = cr_commit_ts (snd (last ?h))"
    using seq_of_last [of "map snd ?h" rc_genesis] by (simp add: last_map)
  show "rc_commit_ts (history_tail s) \<le> tm_cursor (s_mgr s)"
  proof (cases "?h = []")
    case True
    with assms show ?thesis by (simp add: time_inv_def rc_genesis_def)
  next
    case False
    then have "cr_commit_ts (snd (last ?h)) \<le> tm_cursor (s_mgr s)"
      using assms last_in_set [OF False] by (auto simp: time_inv_def split_beta)
    with False tail show ?thesis by simp
  qed
  assume mem: "(t, r) \<in> set ?h"
  then obtain xs x where h: "?h = xs @ [x]" by (cases ?h rule: rev_cases) auto
  have "sorted_wrt (<) (map (cr_commit_ts \<circ> snd) ?h)" using assms by (simp add: time_inv_def)
  then have "\<forall>a\<in>set xs. cr_commit_ts (snd a) < cr_commit_ts (snd x)" by (simp add: h sorted_wrt_append)
  with mem tail show "cr_commit_ts r \<le> rc_commit_ts (history_tail s)" by (fastforce simp: h)
qed

definition resumes :: "txn_sys \<Rightarrow> txn_manager \<Rightarrow> bool" where
  "resumes s m \<longleftrightarrow> tm_commit_head m = tm_commit_head (s_mgr s) \<and>
     tm_next_seq m = tm_next_seq (s_mgr s) \<and> tm_cursor m \<le> tm_cursor (s_mgr s) \<and>
     (\<forall>(t, r)\<in>set (s_history s). cr_commit_ts r \<le> tm_cursor m \<and> cr_txn_id r < tm_next_txn m) \<and>
     log_holds (tm_wal m) (map (CommitRecord_encode \<circ> snd) (s_history s))"

lemma resume_state_resumes:
  assumes "time_inv s" "chain_inv s" "log_holds g (map (CommitRecord_encode \<circ> snd) (s_history s))"
    and "resume_state g (history_tail s) = Inr m"
  shows "resumes s m"
proof -
  note f = resume_state_ok [OF assms(4)]
  have "tm_commit_head m = tm_commit_head (s_mgr s)" "tm_next_seq m = tm_next_seq (s_mgr s)"
    using assms(2) unfolding f(1,4) rc_of_head history_tail_seq [OF assms(2)]
    by (auto simp: chain_inv_def Let_def rc_genesis_def)
  moreover have "cr_txn_id r < tm_next_txn m" if "(t, r) \<in> set (s_history s)" for t r
    using rc_max_ge [of rc_genesis "map snd (s_history s)"] f(5) that by (force intro: order.strict_trans1)
  ultimately show ?thesis
    using history_tail_cursor [OF assms(1)] assms(3) f(2,3) by (auto simp: resumes_def)
qed

lemma resume_state_live:
  assumes "chain_inv s" "Suc (length (s_history s)) < 2 ^ 64"
    and "\<forall>(t, r)\<in>set (s_history s). cr_txn_id r \<noteq> U64_MAX"
  shows "\<exists>m. resume_state g (history_tail s) = Inr m"
proof -
  have "rc_max_txn_id (history_tail s) \<noteq> U64_MAX"
    using rc_max_in [of "map snd (s_history s)"] assms(3) by (auto simp: U64_MAX_def)
  moreover have "rc_seq (history_tail s) \<noteq> U64_MAX"
  proof
    assume "rc_seq (history_tail s) = U64_MAX"
    then have "unat (of_nat (length (s_history s)) :: u64) = 2 ^ 64 - 1"
      by (simp add: history_tail_seq [OF assms(1)] U64_MAX_def)
    moreover have "length (s_history s) < 2 ^ 64" using assms(2) by simp
    ultimately show False using unat_u64_of_nat [of "length (s_history s)"] assms(2) by simp
  qed
  ultimately obtain a b where "u64_checked_add (rc_max_txn_id (history_tail s)) 1 = Some a"
    "u64_checked_add (rc_seq (history_tail s)) 1 = Some b"
    using u64_checked_add_one(2) by blast
  then show ?thesis by (simp add: resume_state_def)
qed

text \<open>
  C3. Recovery resumes exactly where the manager stopped. Restarting on the log of any reachable
  state whose log has not failed returns, whatever reads fail; if it yields a manager, that
  manager has the same chain head and the same next sequence number, a cursor at or above every
  commit and not above the old one, a next transaction id above every committed one, and a log
  holding the same records. Without read faults it does yield a manager. (The counters are assumed
  not to be exhausted.)
\<close>

theorem txn_recovery_resumes:
  assumes "txn_reachable g s" and "log_holds g []" and "wal_room (tm_wal (s_mgr s))"
    and "\<not> w_poisoned (tm_wal (s_mgr s))" and "Suc (length (s_history s)) < 2 ^ 64"
    and "\<forall>(t, r)\<in>set (s_history s). cr_txn_id r \<noteq> U64_MAX"
  shows "\<exists>out. TxnManager_recover (tm_wal (s_mgr s)) = Some out \<and>
     (md_faults (w_disk (tm_wal (s_mgr s))) = [] \<longrightarrow> (\<exists>m. out = Inr m)) \<and>
     (\<forall>m. out = Inr m \<longrightarrow> resumes s m)"
proof -
  let ?w = "tm_wal (s_mgr s)"
  have holds: "log_holds ?w (map CommitRecord_encode (map snd (s_history s)))"
    using reachable_log [OF assms(1-3)] assms(4) by (simp add: log_inv_def)
  have inv: "time_inv s" "chain_inv s" using reachable_inv [OF assms(1)] by auto
  then have lk: "linked Digest_ZERO (map snd (s_history s))" "list_all cr_wf (map snd (s_history s))"
    by (auto simp: chain_inv_def Let_def)
  have good: "resumes s m" if "same_files ?w g'" "resume_state g' (history_tail s) = Inr m" for g' m
    using resume_state_resumes [OF inv _ that(2)] log_holds_same [OF that(1) holds] by simp
  from recover_linked [OF holds lk] obtain out where out: "TxnManager_recover ?w = Some out"
    "\<forall>m. out = Inr m \<longrightarrow> (\<exists>g'. same_files ?w g' \<and> out = resume_state g' (history_tail s))"
    "md_faults (w_disk ?w) = [] \<longrightarrow> (\<exists>g'. same_files ?w g' \<and> out = resume_state g' (history_tail s))" by blast
  show ?thesis
    using out good resume_state_live [OF inv(2) assms(5,6)] by (intro exI [of _ out]) metis
qed

section \<open>Progress\<close>

lemma log_commit_live:
  assumes "log_holds g ps" "md_faults (w_disk g) = []" "wal_room g" "length p \<le> MAX_PAYLOAD_LEN"
  shows "\<exists>x g1 n g2. log_append p g = (Inr x, g1) \<and> log_tick g1 = (Inr n, g2) \<and>
     md_faults (w_disk g2) = [] \<and> \<not> w_poisoned g2"
proof -
  from assms(1) obtain L where L: "wal_holds g L" by (auto simp: log_holds_def)
  from wal_append_live [OF L assms(2) _ assms(4)] assms(3) obtain x wk g1 where
    a: "wal_append p g = (Inr x, wk, g1)" "md_faults (w_disk g1) = []" by (auto simp: wal_room_def)
  from wal_append_ok [OF L _ a(1)] assms(3) obtain L1 where L1: "wal_holds g1 L1" by (auto simp: wal_room_def)
  from wal_tick_live [OF wal_holdsD(1) [OF L1] a(2)] obtain n wk2 g2 where
    t: "wal_tick g1 = (Inr n, wk2, g2)" "md_faults (w_disk g2) = []" by blast
  then have k: "log_tick g1 = (Inr n, g2)" by (simp add: log_tick_def)
  have "log_holds g2 (concat L1)" using wal_log.sync_ok [OF _ k, of "concat L1"] L1 by (auto simp: log_holds_def)
  then have "\<not> w_poisoned g2" using wal_holdsD(1) by (auto simp: log_holds_def)
  with a t k show ?thesis by (auto simp: log_append_def)
qed

lemma log_commit_index:
  assumes "log_append p g = (r, g1)" "log_tick g1 = (q, g2)"
  shows "current_segment_index g2 \<le> Suc (current_segment_index g)"
proof -
  have "current_segment_index g1 \<le> Suc (current_segment_index g)"
    using assms(1)
    by (auto simp: log_append_def wal_append_def rotate_def append_frame_def drain_all_waiters_def drain_waiters_def
        Let_def split: if_splits prod.splits sum.splits)
  moreover have "current_segment_index g2 = current_segment_index g1"
    using assms(2)
    by (auto simp: log_tick_def wal_tick_def drain_tick_def drain_all_waiters_def drain_waiters_def
        split: if_splits prod.splits sum.splits)
  ultimately show ?thesis by simp
qed

lemma txn_commit_live:
  assumes "txn_reachable g s" and "log_holds g []" and "wal_room (tm_wal (s_mgr s))"
    and "\<not> w_poisoned (tm_wal (s_mgr s))" and "md_faults (w_disk (tm_wal (s_mgr s))) = []"
    and "\<not> txn_conflicts t (s_mgr s)"
    and "max now (i64_saturating_add (tm_cursor (s_mgr s)) (i64_of 1)) < SYSTEM_TIME_OPEN"
  shows "\<exists>c m. txn_commit now t (s_mgr s) = (Inr c, m) \<and> c_txn_id c = t_txn_id t \<and>
     \<not> w_poisoned (tm_wal m) \<and> md_faults (w_disk (tm_wal m)) = [] \<and>
     current_segment_index (tm_wal m) \<le> Suc (current_segment_index (tm_wal (s_mgr s)))"
proof -
  let ?ts = "max now (i64_saturating_add (tm_cursor (s_mgr s)) (i64_of 1))"
  let ?p = "CommitRecord_encode (commit_rec t ?ts (s_mgr s))"
  have holds: "log_holds (tm_wal (s_mgr s)) (map (CommitRecord_encode \<circ> snd) (s_history s))"
    using reachable_log [OF assms(1-3)] assms(4) by (simp add: log_inv_def)
  have "cr_wf (commit_rec t ?ts (s_mgr s))"
    using reachable_inv [OF assms(1)] by (auto simp: chain_inv_def Let_def cr_wf_def)
  then have "length ?p \<le> MAX_PAYLOAD_LEN"
    by (simp add: length_CommitRecord_encode COMMIT_RECORD_LEN_def SHA256_LEN_def MAX_PAYLOAD_LEN_def)
  from log_commit_live [OF holds assms(5,3) this] obtain x g1 n g2 where
    l: "log_append ?p (tm_wal (s_mgr s)) = (Inr x, g1)" "log_tick g1 = (Inr n, g2)"
    "md_faults (w_disk g2) = []" "\<not> w_poisoned g2" by blast
  moreover have "\<not> SYSTEM_TIME_OPEN \<le> ?ts" using assms(7) leD by blast
  ultimately show ?thesis using assms(6) log_commit_index [OF l(1,2)] by (simp add: txn_commit_def Let_def)
qed

text \<open>
  Commits make progress: in a reachable state with a healthy log and no scheduled fault, a
  transaction that does not conflict commits, unless system time itself is exhausted.
\<close>

theorem txn_commit_progress:
  assumes "txn_reachable g s" and "log_holds g []" and "wal_room (tm_wal (s_mgr s))"
    and "\<not> w_poisoned (tm_wal (s_mgr s))" and "md_faults (w_disk (tm_wal (s_mgr s))) = []"
    and "\<not> txn_conflicts t (s_mgr s)"
    and "max now (i64_saturating_add (tm_cursor (s_mgr s)) (i64_of 1)) < SYSTEM_TIME_OPEN"
  shows "\<exists>c m. txn_commit now t (s_mgr s) = (Inr c, m) \<and> c_txn_id c = t_txn_id t \<and>
     \<not> w_poisoned (tm_wal m) \<and> md_faults (w_disk (tm_wal m)) = []"
  using txn_commit_live [OF assms] by blast

section \<open>Concrete instances\<close>

text \<open>One transaction, begun at 10, writing one key and committing at 20, on a fresh log.\<close>

definition demo_begun :: txn_sys where
  "demo_begun = \<lparr>s_mgr = snd (txn_begin (i64_of 10) (TxnManager_new fresh_wal)),
     s_active = {fst (txn_begin (i64_of 10) (TxnManager_new fresh_wal))}, s_history = []\<rparr>"

definition demo_txn :: transaction where
  "demo_txn = transaction_write [1] (fst (txn_begin (i64_of 10) (TxnManager_new fresh_wal)))"

definition demo_ready :: txn_sys where
  "demo_ready = demo_begun\<lparr>s_active := {demo_txn}\<rparr>"

lemma demo_ready_reachable: "txn_reachable fresh_wal demo_ready"
proof -
  let ?t = "fst (txn_begin (i64_of 10) (TxnManager_new fresh_wal))"
  have "txn_reachable fresh_wal demo_begun"
    using reach_step [OF reach_init step_begin [of "i64_of 10"]] by (simp add: demo_begun_def)
  from reach_step [OF this step_write [of ?t demo_begun "[1]"]] show ?thesis
    by (simp add: demo_begun_def demo_ready_def demo_txn_def)
qed

lemma fresh_log_holds: "log_holds fresh_wal []"
  using fresh_wal_holds by (auto simp: log_holds_def)

lemma demo_ready_fields:
  "tm_wal (s_mgr demo_ready) = fresh_wal" "tm_cursor (s_mgr demo_ready) = i64_of 10" "s_active demo_ready = {demo_txn}"
  "s_history demo_ready = []" "tm_write_index (s_mgr demo_ready) = bt_empty" "t_snapshot demo_txn = i64_of 10"
  by (simp_all add: demo_ready_def demo_begun_def demo_txn_def txn_begin_def TxnManager_new_def SYSTEM_TIME_OPEN_def
      transaction_write_def Let_def max_def min_def less_eq_i64_def i64_val_of i64_min_def i64_max_def)

lemma demo_ts: "max (i64_of 20) (i64_saturating_add (tm_cursor (s_mgr demo_ready)) (i64_of 1)) = i64_of 20"
  by (simp add: demo_ready_fields i64_saturating_add_def Let_def max_def less_eq_i64_def i64_val_of i64_min_def i64_max_def)

lemma demo_no_conflict: "\<not> txn_conflicts demo_txn (s_mgr demo_ready)"
  by (simp add: txn_conflicts_iff demo_ready_fields)

theorem txn_commit_progress_witness:
  "\<exists>c m. txn_commit (i64_of 20) demo_txn (s_mgr demo_ready) = (Inr c, m) \<and> c_txn_id c = t_txn_id demo_txn"
  using txn_commit_progress [OF demo_ready_reachable fresh_log_holds, of demo_txn "i64_of 20"] demo_no_conflict demo_ts
  by (auto simp: demo_ready_fields fresh_wal_def wal_room_def SYSTEM_TIME_OPEN_def less_i64_def i64_val_of
      i64_min_def i64_max_def)

theorem txn_conflict_exact_witness:
  "fst (txn_commit (i64_of 20) demo_txn (s_mgr demo_ready)) \<noteq> Inl Conflict"
  using txn_conflict_exact [OF demo_ready_reachable, of "i64_of 20" demo_txn] by (simp add: demo_ready_fields)

lemma demo_ready_facts:
  "wal_room (tm_wal (s_mgr demo_ready))" "\<not> w_poisoned (tm_wal (s_mgr demo_ready))"
  "md_faults (w_disk (tm_wal (s_mgr demo_ready))) = []"
  "max (i64_of 20) (i64_saturating_add (tm_cursor (s_mgr demo_ready)) (i64_of 1)) < SYSTEM_TIME_OPEN"
  by (simp_all only: demo_ts)
    (simp_all add: demo_ready_fields fresh_wal_def wal_room_def SYSTEM_TIME_OPEN_def less_i64_def i64_val_of
      i64_min_def i64_max_def)

theorem txn_snapshots_stable_witness:
  "\<exists>c m. txn_commit (i64_of 20) demo_txn (s_mgr demo_ready) = (Inr c, m) \<and> t_snapshot demo_txn < c_commit_ts c"
  using txn_commit_live [OF demo_ready_reachable fresh_log_holds demo_ready_facts(1-3) demo_no_conflict demo_ready_facts(4)]
    txn_snapshots_stable [OF demo_ready_reachable, of "i64_of 20" demo_txn]
  by (auto simp: demo_ready_fields)

theorem txn_log_verifies_witness:
  "verify_chain_to (log_items []) Digest_ZERO = Inr \<lparr>ch_head = Digest_ZERO, ch_len = 0\<rparr>"
  using txn_log_verifies [OF demo_ready_reachable fresh_log_holds demo_ready_facts(1,2)]
  by (simp add: demo_ready_def demo_begun_def txn_begin_def TxnManager_new_def Let_def)

theorem txn_recovery_resumes_witness:
  "\<exists>m. TxnManager_recover fresh_wal = Some (Inr m) \<and> resumes demo_ready m"
  using txn_recovery_resumes [OF demo_ready_reachable fresh_log_holds demo_ready_facts(1,2)] demo_ready_facts(3)
  by (auto simp: demo_ready_fields)

text \<open>Two commits in a row.\<close>

lemma demo_two_commits:
  "\<exists>s t1 r1 t2 r2. txn_reachable fresh_wal s \<and> s_history s = [(t1, r1), (t2, r2)]"
proof -
  obtain c m where c: "txn_commit (i64_of 20) demo_txn (s_mgr demo_ready) = (Inr c, m)"
    "\<not> w_poisoned (tm_wal m)" "md_faults (w_disk (tm_wal m)) = []" "current_segment_index (tm_wal m) \<le> 1"
    using txn_commit_live [OF demo_ready_reachable fresh_log_holds demo_ready_facts(1-3) demo_no_conflict demo_ready_facts(4)]
    by (auto simp: demo_ready_fields fresh_wal_def)
  let ?r1 = "\<lparr>cr_txn_id = c_txn_id c, cr_commit_ts = c_commit_ts c, cr_seq = c_seq c,
     cr_prev_hash = tm_commit_head (s_mgr demo_ready)\<rparr>"
  let ?s1 = "demo_ready\<lparr>s_mgr := m, s_active := {}, s_history := [(demo_txn, ?r1)]\<rparr>"
  have s1: "txn_reachable fresh_wal ?s1"
    using reach_step [OF demo_ready_reachable step_commit [OF _ c(1)]] by (simp add: demo_ready_fields)
  obtain t m2 where b: "txn_begin (i64_of 30) m = (t, m2)" by (cases "txn_begin (i64_of 30) m")
  let ?s2 = "?s1\<lparr>s_mgr := m2, s_active := {t}\<rparr>"
  have s2: "txn_reachable fresh_wal ?s2"
    using reach_step [OF s1 step_begin [of "i64_of 30" ?s1 t m2]] b by simp
  from c(1) have cur: "tm_cursor m = i64_of 20" using demo_ts by (auto elim!: txn_commit_ok)
  from b have m2: "tm_wal m2 = tm_wal m" "tm_cursor m2 = i64_of 30" "t_writes t = bt_empty"
    by (auto simp: txn_begin_def Let_def cur SYSTEM_TIME_OPEN_def max_def min_def less_eq_i64_def i64_val_of i64_min_def i64_max_def)
  have "max (i64_of 40) (i64_saturating_add (tm_cursor (s_mgr ?s2)) (i64_of 1)) < SYSTEM_TIME_OPEN"
    by (simp add: m2 i64_saturating_add_def Let_def max_def less_eq_i64_def less_i64_def SYSTEM_TIME_OPEN_def
        i64_val_of i64_min_def i64_max_def)
  moreover have "\<not> txn_conflicts t (s_mgr ?s2)" by (simp add: txn_conflicts_iff m2 bt_keys_def bt_empty_def)
  moreover have "wal_room (tm_wal (s_mgr ?s2))" using c(4) by (simp add: m2 wal_room_def)
  ultimately obtain c' m' where "txn_commit (i64_of 40) t (s_mgr ?s2) = (Inr c', m')"
    using txn_commit_live [OF s2 fresh_log_holds, of t "i64_of 40"] c(2,3) m2(1) by auto
  from reach_step [OF s2 step_commit [OF _ this]] show ?thesis by fastforce
qed

theorem txn_first_committer_wins_witness:
  "\<exists>s t1 r1 t2 r2. txn_reachable fresh_wal s \<and> s_history s = [(t1, r1), (t2, r2)] \<and>
     cr_commit_ts r1 < cr_commit_ts r2 \<and> cr_seq r2 = 2"
proof -
  from demo_two_commits obtain s t1 r1 t2 r2 where s: "txn_reachable fresh_wal s" "s_history s = [(t1, r1), (t2, r2)]"
    by blast
  with txn_first_committer_wins [OF s(1), of 0 1 t1 r1 t2 r2] show ?thesis by auto
qed

end
