(* ===== verification/Period.thy ===== *)
theory Period
  imports Stele_Prelude
begin

text \<open>
  Half-open temporal intervals and the SQL:2011 period predicates
  (\<open>crates/stele-common/src/period.rs\<close>, \<open>crates/stele-exec/src/period.rs\<close>): the value, its PostgreSQL
  \<open>tsrange\<close> wire form, and the predicate evaluator. The set of points a period covers is the
  reference each predicate is proved against.
\<close>

section \<open>Intervals\<close>

record interval =
  iv_from :: i64
  iv_to :: i64

datatype interval_error = EmptyOrReversed i64 i64

definition Interval_new :: "i64 \<Rightarrow> i64 \<Rightarrow> interval_error + interval" where
  "Interval_new from to =
     (if to \<le> from then Inl (EmptyOrReversed from to) else Inr \<lparr>iv_from = from, iv_to = to\<rparr>)"

definition contains_point :: "interval \<Rightarrow> i64 \<Rightarrow> bool" where
  "contains_point iv point \<longleftrightarrow> iv_from iv \<le> point \<and> point < iv_to iv"

definition interval_wf :: "interval \<Rightarrow> bool" where
  "interval_wf iv \<longleftrightarrow> iv_from iv < iv_to iv"

section \<open>The wire form\<close>

datatype period_wire_error =
    EmptyWire | EmptyRange | UnsupportedLowerBound | UnsupportedUpperBound | BadElementLength
  | TimestampOutOfRange | WireTruncated | WireTrailingBytes | WireInterval interval_error

definition PG_EPOCH_OFFSET_MICROS :: i64 where "PG_EPOCH_OFFSET_MICROS = i64_of 946684800000000"

definition RANGE_EMPTY :: u8 where "RANGE_EMPTY = 0x01"
definition RANGE_LB_INC :: u8 where "RANGE_LB_INC = 0x02"
definition RANGE_UB_INC :: u8 where "RANGE_UB_INC = 0x04"
definition RANGE_LB_INF :: u8 where "RANGE_LB_INF = 0x08"
definition RANGE_UB_INF :: u8 where "RANGE_UB_INF = 0x10"

text \<open>A codec that appends to \<open>out: &mut Vec\<close> returns its result and the buffer it leaves behind.\<close>

definition push_timestamp :: "bytes \<Rightarrow> i64 \<Rightarrow> (period_wire_error + unit) \<times> bytes" where
  "push_timestamp out unix_micros =
     (case i64_checked_sub unix_micros PG_EPOCH_OFFSET_MICROS of
        None \<Rightarrow> (Inl TimestampOutOfRange, out)
      | Some pg_micros \<Rightarrow> (Inr (), out @ word_be 4 (8 :: u32) @ i64_be pg_micros))"

definition to_pg_binary :: "interval \<Rightarrow> bytes \<Rightarrow> (period_wire_error + unit) \<times> bytes" where
  "to_pg_binary iv out =
     (let open_upper = (iv_to iv = I64_MAX);
          flags = (if open_upper then RANGE_LB_INC OR RANGE_UB_INF else RANGE_LB_INC)
      in case push_timestamp (out @ [flags]) (iv_from iv) of
           (Inl e, out1) \<Rightarrow> (Inl e, out1)
         | (Inr _, out1) \<Rightarrow> if open_upper then (Inr (), out1) else push_timestamp out1 (iv_to iv))"

text \<open>\<open>pop_timestamp\<close> returns the value and the rest it advances to.\<close>

definition pop_timestamp :: "bytes \<Rightarrow> period_wire_error + i64 \<times> bytes" where
  "pop_timestamp rest =
     (if length rest < 4 then Inl WireTruncated
      else if (from_be (take 4 rest) :: u32) \<noteq> 8 then Inl BadElementLength
      else if length (drop 4 rest) < 8 then Inl WireTruncated
      else map_sum id (\<lambda>t. (t, drop 12 rest))
             (ok_or (i64_checked_add (i64_of_be (take 8 (drop 4 rest))) PG_EPOCH_OFFSET_MICROS)
                TimestampOutOfRange))"

definition from_pg_binary :: "bytes \<Rightarrow> period_wire_error + interval" where
  "from_pg_binary bs =
     (case bs of [] \<Rightarrow> Inl EmptyWire
      | flags # rest \<Rightarrow>
          if flags AND RANGE_EMPTY \<noteq> 0 then Inl EmptyRange
          else if flags AND RANGE_LB_INF \<noteq> 0 \<or> flags AND RANGE_LB_INC = 0 then Inl UnsupportedLowerBound
          else result_bind (pop_timestamp rest) (\<lambda>(from, rest1).
               result_bind
                 (if flags AND RANGE_UB_INF \<noteq> 0 then Inr (I64_MAX, rest1)
                  else if flags AND RANGE_UB_INC \<noteq> 0 then Inl UnsupportedUpperBound
                  else pop_timestamp rest1) (\<lambda>(to, rest2).
               if rest2 \<noteq> [] then Inl WireTrailingBytes
               else map_err WireInterval (Interval_new from to))))"

section \<open>Predicates\<close>

datatype period_predicate =
    Contains | Overlaps | Equals | Precedes | Succeeds | ImmediatelyPrecedes | ImmediatelySucceeds

definition keyword :: "period_predicate \<Rightarrow> string" where
  "keyword p =
     (case p of Contains \<Rightarrow> ''CONTAINS'' | Overlaps \<Rightarrow> ''OVERLAPS'' | Equals \<Rightarrow> ''EQUALS''
      | Precedes \<Rightarrow> ''PRECEDES'' | Succeeds \<Rightarrow> ''SUCCEEDS''
      | ImmediatelyPrecedes \<Rightarrow> ''IMMEDIATELY PRECEDES'' | ImmediatelySucceeds \<Rightarrow> ''IMMEDIATELY SUCCEEDS'')"

definition evaluate :: "period_predicate \<Rightarrow> interval \<Rightarrow> interval \<Rightarrow> bool" where
  "evaluate p a b =
     (case p of
        Contains \<Rightarrow> iv_from a \<le> iv_from b \<and> iv_to b \<le> iv_to a
      | Overlaps \<Rightarrow> iv_from a < iv_to b \<and> iv_from b < iv_to a
      | Equals \<Rightarrow> iv_from a = iv_from b \<and> iv_to a = iv_to b
      | Precedes \<Rightarrow> iv_to a \<le> iv_from b
      | Succeeds \<Rightarrow> iv_to b \<le> iv_from a
      | ImmediatelyPrecedes \<Rightarrow> iv_to a = iv_from b
      | ImmediatelySucceeds \<Rightarrow> iv_from a = iv_to b)"

section \<open>Predicates are relations between the points covered\<close>

definition points :: "interval \<Rightarrow> i64 set" where
  "points iv = {p. contains_point iv p}"

lemma points_ivl: "points iv = {iv_from iv..<iv_to iv}"
  by (auto simp: points_def contains_point_def)

text \<open>The greatest point of a period is the one before its end.\<close>

definition last_point :: "interval \<Rightarrow> i64" where
  "last_point iv = i64_of (i64_val (iv_to iv) - 1)"

lemma last_point:
  assumes "interval_wf iv"
  shows "last_point iv \<in> points iv" "p \<in> points iv \<Longrightarrow> p \<le> last_point iv" "t \<le> last_point iv \<longleftrightarrow> t < iv_to iv"
proof -
  have "i64_min \<le> i64_val (iv_from iv)" "i64_val (iv_from iv) < i64_val (iv_to iv)" "i64_val (iv_to iv) \<le> i64_max"
    using assms i64_val_bounds by (auto simp: interval_wf_def less_i64_def)
  then have v: "i64_val (last_point iv) = i64_val (iv_to iv) - 1"
    by (simp add: last_point_def i64_val_of)
  with assms show "last_point iv \<in> points iv" "p \<in> points iv \<Longrightarrow> p \<le> last_point iv" "t \<le> last_point iv \<longleftrightarrow> t < iv_to iv"
    by (auto simp: points_ivl interval_wf_def less_eq_i64_def less_i64_def)
qed

lemma points_subset: "interval_wf b \<Longrightarrow> points b \<subseteq> points a \<longleftrightarrow> iv_from a \<le> iv_from b \<and> iv_to b \<le> iv_to a"
proof
  assume wf: "interval_wf b" and sub: "points b \<subseteq> points a"
  have "iv_from b \<in> points a" "last_point b \<in> points a"
    using sub wf last_point(1) [OF wf] by (auto simp: points_ivl interval_wf_def)
  then show "iv_from a \<le> iv_from b \<and> iv_to b \<le> iv_to a"
    using last_point(3) [OF wf, of "iv_to a"] by (auto simp: points_ivl not_less)
qed (auto simp: points_ivl)

lemma points_meet: "interval_wf a \<Longrightarrow> interval_wf b \<Longrightarrow>
    points a \<inter> points b \<noteq> {} \<longleftrightarrow> iv_from a < iv_to b \<and> iv_from b < iv_to a"
proof -
  assume wf: "interval_wf a" "interval_wf b"
  have "max (iv_from a) (iv_from b) \<in> points a \<inter> points b"
    if "iv_from a < iv_to b" "iv_from b < iv_to a"
    using that wf by (auto simp: points_ivl interval_wf_def max_def)
  then show ?thesis by (auto simp: points_ivl)
qed

lemma points_before: "interval_wf a \<Longrightarrow> interval_wf b \<Longrightarrow>
    (\<forall>p\<in>points a. \<forall>q\<in>points b. p < q) \<longleftrightarrow> iv_to a \<le> iv_from b"
proof
  assume wf: "interval_wf a" "interval_wf b" and "\<forall>p\<in>points a. \<forall>q\<in>points b. p < q"
  moreover have "iv_from b \<in> points b" using wf by (simp add: points_ivl interval_wf_def)
  ultimately have "last_point a < iv_from b" using last_point(1) by blast
  then show "iv_to a \<le> iv_from b" using last_point(3) [OF wf(1), of "iv_from b"] by (metis not_le less_le_not_le)
qed (auto simp: points_ivl)

lemma points_tile: "interval_wf a \<Longrightarrow> interval_wf b \<Longrightarrow>
    ((\<forall>p\<in>points a. \<forall>q\<in>points b. p < q) \<and> points a \<union> points b = {iv_from a..<iv_to b}) \<longleftrightarrow> iv_to a = iv_from b"
proof
  assume wf: "interval_wf a" "interval_wf b"
    and A: "(\<forall>p\<in>points a. \<forall>q\<in>points b. p < q) \<and> points a \<union> points b = {iv_from a..<iv_to b}"
  then have le: "iv_to a \<le> iv_from b" using points_before by blast
  show "iv_to a = iv_from b"
  proof (rule ccontr)
    assume "iv_to a \<noteq> iv_from b"
    with le wf have "iv_to a \<in> {iv_from a..<iv_to b}" "iv_to a \<notin> points a \<union> points b"
      by (auto simp: points_ivl interval_wf_def)
    with A show False by simp
  qed
next
  assume wf: "interval_wf a" "interval_wf b" and "iv_to a = iv_from b"
  then show "(\<forall>p\<in>points a. \<forall>q\<in>points b. p < q) \<and> points a \<union> points b = {iv_from a..<iv_to b}"
    by (auto simp: points_ivl interval_wf_def)
qed

text \<open>
  C32. The period predicates mean what SQL:2011 says of the instants covered: for well-formed
  periods, \<open>CONTAINS\<close> is inclusion, \<open>OVERLAPS\<close> a common instant, \<open>EQUALS\<close> the same
  instants, \<open>PRECEDES\<close> and \<open>SUCCEEDS\<close> every instant of the one before every instant of the other, and
  the immediate forms that, and that the two tile one gapless period.
\<close>

theorem evaluate_meaning:
  assumes "interval_wf a" and "interval_wf b"
  shows "(evaluate Contains a b \<longleftrightarrow> points b \<subseteq> points a) \<and>
    (evaluate Overlaps a b \<longleftrightarrow> points a \<inter> points b \<noteq> {}) \<and>
    (evaluate Equals a b \<longleftrightarrow> points a = points b) \<and>
    (evaluate Precedes a b \<longleftrightarrow> (\<forall>p\<in>points a. \<forall>q\<in>points b. p < q)) \<and>
    (evaluate Succeeds a b \<longleftrightarrow> (\<forall>p\<in>points b. \<forall>q\<in>points a. p < q)) \<and>
    (evaluate ImmediatelyPrecedes a b \<longleftrightarrow>
       evaluate Precedes a b \<and> points a \<union> points b = {iv_from a..<iv_to b}) \<and>
    (evaluate ImmediatelySucceeds a b \<longleftrightarrow>
       evaluate Succeeds a b \<and> points a \<union> points b = {iv_from b..<iv_to a})"
proof -
  have "points a = points b \<longleftrightarrow> iv_from a = iv_from b \<and> iv_to a = iv_to b"
    using points_subset [OF assms(1), of b] points_subset [OF assms(2), of a] by (metis order.antisym order.refl)
  then show ?thesis
    using points_subset [OF assms(2), of a] points_meet [OF assms] points_before [OF assms]
      points_before [OF assms(2,1)] points_tile [OF assms] points_tile [OF assms(2,1)]
    unfolding evaluate_def by (simp add: Un_commute) metis
qed

section \<open>The wire form round-trips\<close>

definition rebasable :: "i64 \<Rightarrow> bool" where
  "rebasable t \<longleftrightarrow> i64_min + 946684800000000 \<le> i64_val t"

lemma epoch_val: "i64_val PG_EPOCH_OFFSET_MICROS = 946684800000000"
  by (simp add: PG_EPOCH_OFFSET_MICROS_def i64_val_of i64_min_def i64_max_def)

lemma push_timestamp_ok:
  assumes "rebasable t"
  shows "\<exists>pg. (\<forall>out. push_timestamp out t = (Inr (), out @ word_be 4 (8 :: u32) @ i64_be pg)) \<and>
    i64_checked_add pg PG_EPOCH_OFFSET_MICROS = Some t"
proof -
  from assms have "i64_in_range (i64_val t - i64_val PG_EPOCH_OFFSET_MICROS)"
    using i64_val_bounds [of t] by (simp add: rebasable_def epoch_val i64_in_range_def)
  then obtain pg where s: "i64_checked_sub t PG_EPOCH_OFFSET_MICROS = Some pg"
    by (auto simp: i64_checked_sub_def Let_def)
  with i64_checked_sub_add [OF s] show ?thesis by (auto simp: push_timestamp_def)
qed

lemma push_timestamp_err: "\<not> rebasable t \<Longrightarrow> push_timestamp out t = (Inl TimestampOutOfRange, out)"
  using i64_val_bounds [of t]
  by (simp add: push_timestamp_def i64_checked_sub_def i64_in_range_def epoch_val rebasable_def Let_def)

lemma pop_timestamp_push:
  assumes "i64_checked_add pg PG_EPOCH_OFFSET_MICROS = Some t"
  shows "pop_timestamp (word_be 4 (8 :: u32) @ i64_be pg @ rest) = Inr (t, rest)"
  using assms by (simp add: pop_timestamp_def from_be_word_be)

text \<open>
  The \<open>tsrange\<close> codec round-trips: a well-formed period whose bounds can be re-based to the
  PostgreSQL epoch encodes without error after whatever the buffer held, decodes back to itself, and
  is refused as soon as one byte follows it; any other period is refused on encoding, with no
  instant silently wrapped.
\<close>

theorem period_wire_roundtrip:
  assumes "interval_wf iv"
  shows "(rebasable (iv_from iv) \<longrightarrow>
      (\<exists>w. to_pg_binary iv out = (Inr (), out @ w) \<and> from_pg_binary w = Inr iv \<and>
         (\<forall>x xs. from_pg_binary (w @ x # xs) = Inl WireTrailingBytes))) \<and>
    (\<not> rebasable (iv_from iv) \<longrightarrow> fst (to_pg_binary iv out) = Inl TimestampOutOfRange)"
proof (intro conjI impI)
  assume lo: "rebasable (iv_from iv)"
  have new: "Interval_new (iv_from iv) (iv_to iv) = Inr iv"
    using assms by (simp add: Interval_new_def interval_wf_def not_le)
  let ?flags = "if iv_to iv = I64_MAX then RANGE_LB_INC OR RANGE_UB_INF else RANGE_LB_INC"
  note bits = RANGE_EMPTY_def RANGE_LB_INC_def RANGE_UB_INC_def RANGE_LB_INF_def RANGE_UB_INF_def
  obtain pg where pg: "\<And>out. push_timestamp out (iv_from iv) = (Inr (), out @ word_be 4 (8 :: u32) @ i64_be pg)"
    "i64_checked_add pg PG_EPOCH_OFFSET_MICROS = Some (iv_from iv)"
    using push_timestamp_ok [OF lo] by blast
  show "\<exists>w. to_pg_binary iv out = (Inr (), out @ w) \<and> from_pg_binary w = Inr iv \<and>
      (\<forall>x xs. from_pg_binary (w @ x # xs) = Inl WireTrailingBytes)"
  proof (cases "iv_to iv = I64_MAX")
    case True
    then show ?thesis
      using pg pop_timestamp_push [OF pg(2), of "[]"] pop_timestamp_push [OF pg(2)] new
      by (intro exI [of _ "[RANGE_LB_INC OR RANGE_UB_INF] @ word_be 4 (8 :: u32) @ i64_be pg"])
        (simp add: to_pg_binary_def from_pg_binary_def bits)
  next
    case False
    have hi: "rebasable (iv_to iv)" using lo assms by (auto simp: rebasable_def interval_wf_def less_i64_def)
    obtain ph where ph: "\<And>out. push_timestamp out (iv_to iv) = (Inr (), out @ word_be 4 (8 :: u32) @ i64_be ph)"
      "i64_checked_add ph PG_EPOCH_OFFSET_MICROS = Some (iv_to iv)"
      using push_timestamp_ok [OF hi] by blast
    show ?thesis
      using False pg ph pop_timestamp_push [OF pg(2)] pop_timestamp_push [OF ph(2), of "[]"]
        pop_timestamp_push [OF ph(2)] new
      by (intro exI [of _ "[RANGE_LB_INC] @ (word_be 4 (8 :: u32) @ i64_be pg) @ word_be 4 (8 :: u32) @ i64_be ph"])
        (simp add: to_pg_binary_def from_pg_binary_def bits)
  qed
next
  assume "\<not> rebasable (iv_from iv)"
  then show "fst (to_pg_binary iv out) = Inl TimestampOutOfRange"
    by (simp add: to_pg_binary_def push_timestamp_err)
qed

section \<open>Concrete instances\<close>

abbreviation demo_period :: "int \<Rightarrow> int \<Rightarrow> interval" where
  "demo_period a b \<equiv> \<lparr>iv_from = i64_of a, iv_to = i64_of b\<rparr>"

lemmas demo_val = i64_val_of i64_min_def i64_max_def less_i64_def less_eq_i64_def

theorem evaluate_meaning_witness:
  "points (demo_period 10 20) \<inter> points (demo_period 20 30) = {} \<and>
   points (demo_period 10 20) \<union> points (demo_period 20 30) = {i64_of 10..<i64_of 30}"
  using evaluate_meaning [of "demo_period 10 20" "demo_period 20 30"]
  by (simp add: interval_wf_def evaluate_def demo_val)

theorem period_wire_roundtrip_witness:
  "\<exists>w. to_pg_binary (demo_period 10 20) [] = (Inr (), w) \<and> from_pg_binary w = Inr (demo_period 10 20)"
  using period_wire_roundtrip [of "demo_period 10 20" "[]"]
  by (auto simp: interval_wf_def rebasable_def demo_val)

end
