(* ===== verification/Row_Codec.thy ===== *)
theory Row_Codec
  imports Stele_Prelude
begin

text \<open>
  The row payload codec (\<open>crates/stele-common/src/row_codec.rs\<close>): a row's value cells packed into the
  one stored payload and sliced back. \<open>usize\<close> is 64 bits wide, so the \<open>LengthOverflow\<close> branch, for
  32-bit targets only, does not arise.
\<close>

type_synonym cell = "bytes option"

datatype row_codec_error =
    Truncated string nat
  | TrailingBytes nat nat
  | LengthOverflow u64
  | InvalidTag u8

definition encode_cell :: "cell \<Rightarrow> bytes" where
  "encode_cell c = (case c of None \<Rightarrow> [0] | Some bs \<Rightarrow> 1 # u64_le (of_nat (length bs)) @ bs)"

definition encode_payload :: "cell list \<Rightarrow> bytes option" where
  "encode_payload cells =
     (case cells of [] \<Rightarrow> None | [only] \<Rightarrow> only
      | _ \<Rightarrow> Some (foldl (\<lambda>out c. out @ encode_cell c) [] cells))"

definition take_bytes :: "bytes \<Rightarrow> nat \<Rightarrow> string \<Rightarrow> row_codec_error + bytes \<times> bytes" where
  "take_bytes buf n what =
     (if length buf < n then Inl (Truncated what (n - length buf)) else Inr (take n buf, drop n buf))"

definition decode_cell :: "bytes \<Rightarrow> row_codec_error + cell \<times> bytes" where
  "decode_cell rest =
     (case rest of [] \<Rightarrow> Inl (Truncated ''a cell presence byte'' 1)
      | tag # after_tag \<Rightarrow>
          if tag = 0 then Inr (None, after_tag)
          else if tag = 1
          then result_bind (take_bytes after_tag 8 ''a cell length'') (\<lambda>(len_bytes, after_len).
               result_bind (take_bytes after_len (unat (u64_of_le len_bytes)) ''a cell value'')
                 (\<lambda>(v, after_value). Inr (Some v, after_value)))
          else Inl (InvalidTag tag))"

fun decode_cells :: "nat \<Rightarrow> bytes \<Rightarrow> row_codec_error + cell list \<times> bytes" where
  "decode_cells 0 rest = Inr ([], rest)"
| "decode_cells (Suc n) rest =
     result_bind (decode_cell rest) (\<lambda>(c, rest1).
     result_bind (decode_cells n rest1) (\<lambda>(cs, rest2). Inr (c # cs, rest2)))"

definition decode_payload :: "nat \<Rightarrow> bytes option \<Rightarrow> row_codec_error + cell list" where
  "decode_payload count payload =
     (if count = 0 then Inr []
      else if count = 1 then Inr [payload]
      else (case payload of
              None \<Rightarrow> Inr (replicate count None)
            | Some rest \<Rightarrow>
                result_bind (decode_cells count rest) (\<lambda>(cells, rest1).
                  if rest1 \<noteq> [] then Inl (TrailingBytes count (length rest1)) else Inr cells)))"

section \<open>Round trips\<close>

definition cell_fits :: "cell \<Rightarrow> bool" where
  "cell_fits c \<longleftrightarrow> (case c of None \<Rightarrow> True | Some bs \<Rightarrow> length bs < 2 ^ 64)"

lemma encode_cells_concat: "foldl (\<lambda>out c. out @ encode_cell c) acc cells = acc @ concat (map encode_cell cells)"
  by (induction cells arbitrary: acc) auto

lemma encode_payload_many:
  "2 \<le> length cells \<Longrightarrow> encode_payload cells = Some (concat (map encode_cell cells))"
  by (auto simp: encode_payload_def encode_cells_concat split: list.splits)

lemma decode_encode_cell:
  assumes "cell_fits c"
  shows "decode_cell (encode_cell c @ rest) = Inr (c, rest)"
proof (cases c)
  case None
  then show ?thesis by (simp add: encode_cell_def decode_cell_def)
next
  case (Some bs)
  with assms have "unat (of_nat (length bs) :: u64) = length bs" by (intro unat_u64_of_nat) (simp add: cell_fits_def)
  with Some show ?thesis by (simp add: encode_cell_def decode_cell_def take_bytes_def)
qed

lemma encode_decode_cell:
  assumes "decode_cell bs = Inr (c, rest)"
  shows "bs = encode_cell c @ rest \<and> cell_fits c"
proof (cases bs)
  case Nil
  with assms show ?thesis by (simp add: decode_cell_def)
next
  case (Cons tag after)
  show ?thesis
  proof (cases "tag = 0")
    case True
    with assms Cons show ?thesis by (auto simp: decode_cell_def encode_cell_def cell_fits_def)
  next
    case False
    with assms Cons have tag: "tag = 1" and len: "8 \<le> length after"
      and n: "unat (u64_of_le (take 8 after)) \<le> length (drop 8 after)"
      and c: "c = Some (take (unat (u64_of_le (take 8 after))) (drop 8 after))"
        "rest = drop (unat (u64_of_le (take 8 after))) (drop 8 after)"
      by (auto simp: decode_cell_def take_bytes_def result_simps split: if_splits)
    have "u64_le (of_nat (unat (u64_of_le (take 8 after)))) = take 8 after"
      using len by (simp add: codec_inverse)
    moreover have "unat (u64_of_le (take 8 after)) < 2 ^ 64" using unsigned_less [of "u64_of_le (take 8 after)"] by simp
    moreover have "after = take 8 after @ take (unat (u64_of_le (take 8 after))) (drop 8 after) @
        drop (unat (u64_of_le (take 8 after))) (drop 8 after)"
      by (simp only: append_take_drop_id)
    ultimately show ?thesis
      using Cons tag n c by (simp add: encode_cell_def cell_fits_def del: drop_drop)
  qed
qed

lemma decode_encode_cells:
  "list_all cell_fits cells \<Longrightarrow>
     decode_cells (length cells) (concat (map encode_cell cells) @ rest) = Inr (cells, rest)"
  by (induction cells) (simp_all add: decode_encode_cell)

lemma encode_decode_cells:
  "decode_cells n bs = Inr (cells, rest) \<Longrightarrow>
     length cells = n \<and> bs = concat (map encode_cell cells) @ rest"
proof (induction n arbitrary: bs cells)
  case (Suc n)
  then obtain c rest1 cs where d: "decode_cell bs = Inr (c, rest1)" and ds: "decode_cells n rest1 = Inr (cs, rest)"
    and cells: "cells = c # cs" by (auto simp: result_simps)
  from Suc.IH [OF ds] encode_decode_cell [OF d] show ?case by (simp add: cells)
qed simp

text \<open>
  Rows round-trip: for any number of cells, present or \<open>NULL\<close>, decoding what was encoded for
  that many columns gives the cells back; and for a framed row (two columns or more) the frame
  is canonical: whatever decodes is exactly the encoding of what it decodes to, so no two payloads
  mean the same row and no truncated or padded payload is accepted.
\<close>

theorem row_codec_roundtrip:
  "(list_all cell_fits cells \<longrightarrow> decode_payload (length cells) (encode_payload cells) = Inr cells) \<and>
   (2 \<le> n \<longrightarrow> decode_payload n (Some bs) = Inr cells' \<longrightarrow>
      length cells' = n \<and> encode_payload cells' = Some bs)"
proof (intro conjI impI)
  assume fits: "list_all cell_fits cells"
  show "decode_payload (length cells) (encode_payload cells) = Inr cells"
  proof (cases "2 \<le> length cells")
    case True
    with decode_encode_cells [OF fits, of "[]"] show ?thesis
      by (simp add: decode_payload_def encode_payload_many)
  next
    case False
    then consider "cells = []" | c where "cells = [c]" by (cases cells; cases "tl cells") auto
    then show ?thesis by cases (simp_all add: decode_payload_def encode_payload_def)
  qed
next
  assume n: "2 \<le> n" "decode_payload n (Some bs) = Inr cells'"
  then have "decode_cells n bs = Inr (cells', [])"
    by (auto simp: decode_payload_def result_simps split: if_splits)
  from encode_decode_cells [OF this] n(1)
  show "length cells' = n" "encode_payload cells' = Some bs" by (auto simp: encode_payload_many)
qed

theorem row_codec_roundtrip_witness:
  "decode_payload 3 (encode_payload [Some [1, 2], None, Some []]) = Inr [Some [1, 2], None, Some []]"
proof -
  have "list_all cell_fits [Some [1, 2], None, Some []]" by (simp add: cell_fits_def)
  then have "decode_payload (length [Some [1, 2 :: u8], None, Some []]) (encode_payload [Some [1, 2], None, Some []])
      = Inr [Some [1, 2], None, Some []]"
    using row_codec_roundtrip by blast
  then show ?thesis by (simp add: numeral_3_eq_3)
qed

end
