(* ===== verification/Spill_Files.thy ===== *)
theory Spill_Files
  imports Backend File_Names
begin

text \<open>
  What the two spilling tiers (\<open>delta/spill.rs\<close> and \<open>validity/spill.rs\<close>) share: the whole-file read
  both \<open>read_spill\<close> functions perform, the view of a disk as a map from names to file contents, the
  effect of the disk operations on that view, and the contract of a self-delimiting frame codec.
\<close>

section \<open>A disk as a map from names to contents\<close>

definition file_at :: "mem_disk \<Rightarrow> string \<Rightarrow> bytes option" where
  "file_at d name = map_option (\<lambda>f. md_store d ! f) (map_of (md_names d) name)"

text \<open>Every name has a body of its own.\<close>

definition disk_wf :: "mem_disk \<Rightarrow> bool" where
  "disk_wf d \<longleftrightarrow> distinct (map fst (md_names d)) \<and> distinct (map snd (md_names d)) \<and>
     (\<forall>f \<in> set (map snd (md_names d)). f < length (md_store d))"

definition disk_same :: "mem_disk \<Rightarrow> mem_disk \<Rightarrow> bool" where
  "disk_same d d' \<longleftrightarrow> md_names d' = md_names d \<and> md_store d' = md_store d"

definition no_faults :: "mem_disk \<Rightarrow> bool" where
  "no_faults d \<longleftrightarrow> md_faults d = []"

lemma disk_wf_MemDisk [simp]: "disk_wf MemDisk_new" "disk_wf (MemDisk_with_faults q)"
  by (simp_all add: disk_wf_def MemDisk_new_def MemDisk_with_faults_def)

lemma disk_same_refl [simp]: "disk_same d d"
  by (simp add: disk_same_def)

lemma disk_same_trans: "disk_same a b \<Longrightarrow> disk_same b c \<Longrightarrow> disk_same a c"
  by (simp add: disk_same_def)

lemma disk_same_views:
  "disk_same d d' \<Longrightarrow> file_at d' = file_at d" "disk_same d d' \<Longrightarrow> disk_wf d' = disk_wf d"
  by (auto simp: disk_same_def file_at_def disk_wf_def fun_eq_iff)

lemma disk_check_same: "disk_check op d = (r, d') \<Longrightarrow> disk_same d d'"
  by (simp add: disk_same_def disk_check_fields_eq)

lemma disk_check_no_faults: "no_faults d \<Longrightarrow> disk_check op d = (Inr (), d)"
  by (simp add: no_faults_def faultless_check)

lemma disk_open_keeps: "disk_open name d = (r, d') \<Longrightarrow> disk_same d d'"
  by (auto simp: disk_open_def split: sum.splits prod.splits option.splits dest!: disk_check_same)

lemma disk_open_Inr:
  "disk_open name d = (Inr f, d') \<Longrightarrow> map_of (md_names d) name = Some f"
  by (auto simp: disk_open_def split: sum.splits prod.splits option.splits dest: disk_check_fields_eq)

lemma file_read_same: "file_read_at f a n d = (r, d') \<Longrightarrow> disk_same d d'"
  by (auto simp: file_read_at_def Let_def split: sum.splits prod.splits if_splits dest!: disk_check_same)

lemma file_read_whole:
  "file_read_at f 0 (length (md_store d ! f)) d = (Inr bs, d') \<Longrightarrow> bs = md_store d ! f"
  by (auto simp: file_read_at_def Let_def sub_slice_def split: sum.splits prod.splits if_splits
      dest: disk_check_fields_eq)

lemma disk_list_same: "disk_list d = (r, d') \<Longrightarrow> disk_same d d'"
  by (auto simp: disk_list_def split: sum.splits prod.splits dest!: disk_check_same)

lemma disk_list_Inr: "disk_list d = (Inr ns, d') \<Longrightarrow> ns = map fst (md_names d)"
  by (auto simp: disk_list_def split: sum.splits prod.splits dest: disk_check_fields_eq)

lemma map_of_filter_name:
  "map_of (filter (\<lambda>e. fst e \<noteq> name) xs) n = (if n = name then None else map_of xs n)"
  by (induction xs) auto

lemma disk_remove_cases:
  assumes "disk_remove name d = (r, d')"
  obtains (failed) e where "r = Inl e" "disk_same d d'"
  | (removed) "r = Inr ()" "md_store d' = md_store d" "md_names d' = filter (\<lambda>e. fst e \<noteq> name) (md_names d)"
proof (cases "validate_name name")
  case (Inl e)
  with assms show thesis by (intro failed [of e]) (simp_all add: disk_remove_def)
next
  case (Inr u)
  obtain q d1 where q: "disk_check Remove d = (q, d1)" by (cases "disk_check Remove d")
  note same = disk_check_fields_eq [OF q]
  show thesis
  proof (cases q)
    case (Inl e)
    with Inr q assms same show thesis by (intro failed [of e]) (simp_all add: disk_remove_def disk_same_def)
  next
    case (Inr v)
    with \<open>validate_name name = Inr u\<close> q assms failed removed same show thesis
      by (auto simp: disk_remove_def disk_same_def split: if_splits)
  qed
qed

lemma disk_remove_effect:
  assumes "disk_remove name d = (r, d')"
  shows "n \<noteq> name \<Longrightarrow> file_at d' n = file_at d n" "disk_wf d \<Longrightarrow> disk_wf d'"
  using assms
  by (cases rule: disk_remove_cases;
      auto simp: file_at_def map_of_filter_name disk_wf_def disk_same_def distinct_map_filter)+

text \<open>Creating a file: on success a new empty file, on failure nothing.\<close>

lemma disk_create_cases:
  assumes "disk_create name d = (r, d')"
  obtains (failed) e where "r = Inl e" "disk_same d d'"
  | (created) "r = Inr (length (md_store d))" "map_of (md_names d) name = None"
      "md_names d' = (name, length (md_store d)) # md_names d" "md_store d' = md_store d @ [[]]"
proof (cases "validate_name name")
  case (Inl e)
  with assms show thesis by (intro failed [of e]) (simp_all add: disk_create_def)
next
  case (Inr u)
  obtain q d1 where q: "disk_check Create d = (q, d1)" by (cases "disk_check Create d")
  note same = disk_check_fields_eq [OF q]
  show thesis
  proof (cases q)
    case (Inl e)
    with Inr q assms same show thesis by (intro failed [of e]) (simp_all add: disk_create_def disk_same_def)
  next
    case (Inr v)
    with \<open>validate_name name = Inr u\<close> q assms failed created same show thesis
      by (auto simp: disk_create_def disk_same_def split: if_splits)
  qed
qed

lemma disk_create_effect:
  assumes "disk_create name d = (r, d')" "disk_wf d"
  shows "disk_wf d'" "n \<noteq> name \<Longrightarrow> file_at d' n = file_at d n"
    "r = Inr f \<Longrightarrow> map_of (md_names d') name = Some f \<and> file_at d' name = Some [] \<and> file_at d name = None"
    "r = Inl e \<Longrightarrow> disk_same d d'"
proof -
  have bound: "f < length (md_store d)" if "map_of (md_names d) m = Some f" for m f
    using that assms(2) by (force simp: disk_wf_def dest: map_of_SomeD)
  have fresh: "length (md_store d) \<notin> set (map snd (md_names d))" using assms(2) by (auto simp: disk_wf_def)
  show "disk_wf d'" using assms(1)
  proof (cases rule: disk_create_cases)
    case created
    with assms(2) fresh show ?thesis by (auto simp: disk_wf_def map_of_eq_None_iff less_Suc_eq)
  qed (simp add: disk_same_views(2) [of d d'] assms(2))
  show "n \<noteq> name \<Longrightarrow> file_at d' n = file_at d n" using assms(1)
    by (cases rule: disk_create_cases)
       (auto simp: disk_same_def file_at_def nth_append bound intro!: option.map_cong)
  show "r = Inr f \<Longrightarrow> map_of (md_names d') name = Some f \<and> file_at d' name = Some [] \<and> file_at d name = None"
    "r = Inl e \<Longrightarrow> disk_same d d'"
    using assms(1) by (cases rule: disk_create_cases; simp add: file_at_def nth_append)+
qed

lemma file_append_effect:
  assumes "file_append f bs d = (r, d')" "disk_wf d" "map_of (md_names d) name = Some f"
  shows "disk_wf d'" "n \<noteq> name \<Longrightarrow> file_at d' n = file_at d n" "md_names d' = md_names d"
    "r = Inr () \<Longrightarrow> file_at d' name = Some (the (file_at d name) @ bs)"
proof -
  have f: "f < length (md_store d)" using assms by (auto simp: disk_wf_def dest: map_of_SomeD)
  show names: "md_names d' = md_names d" using file_append_fields(1) [OF assms(1)] .
  have len: "length (md_store d') = length (md_store d)" using file_append_fields(2) [OF assms(1)] .
  with assms(2) names show "disk_wf d'" by (simp add: disk_wf_def)
  have other: "md_store d' ! g = md_store d ! g" if "g \<noteq> f" for g
    using mem_file.append_other [of f g bs d] that assms(1) by (simp add: disk_content_def)
  have "g \<noteq> f" if "n \<noteq> name" "map_of (md_names d) n = Some g" for g
    using assms(2,3) that by (metis disk_wf_def distinct_map inj_on_eq_iff map_of_SomeD prod.inject snd_conv)
  with other names show "n \<noteq> name \<Longrightarrow> file_at d' n = file_at d n"
    by (cases "map_of (md_names d) n") (auto simp: file_at_def)
  show "r = Inr () \<Longrightarrow> file_at d' name = Some (the (file_at d name) @ bs)"
    using mem_file.append_ok [of d f bs d'] f assms(1,3) names by (simp add: file_at_def disk_content_def disk_has_def)
qed

section \<open>Spill names\<close>

lemma padded_no_slash: "CHR ''/'' \<notin> set (pad_zeros 20 (dec_digits n))"
  using dec_digits_props [of n] by (fastforce simp: list_all_iff is_digit_def pad_zeros_def)

lemma validate_spill_name:
  "validate_name (delta_spill_name n) = Inr ()" "validate_name (validity_spill_name n) = Inr ()"
proof -
  have s: "split_on (CHR ''/'') (delta_spill_name n) = [delta_spill_name n]"
    "split_on (CHR ''/'') (validity_spill_name n) = [validity_spill_name n]"
    using padded_no_slash [of n]
    by (intro split_on_none, simp add: delta_spill_name_def validity_spill_name_def)+
  obtain r t where "delta_spill_name n = CHR ''d'' # r" "validity_spill_name n = CHR ''v'' # t"
    by (auto simp: delta_spill_name_def validity_spill_name_def)
  with s show "validate_name (delta_spill_name n) = Inr ()" "validate_name (validity_spill_name n) = Inr ()"
    by (simp_all add: validate_name_def path_components_def component_of_def)
qed

lemma padded_inject: "pad_zeros 20 (dec_digits m) = pad_zeros 20 (dec_digits n) \<longleftrightarrow> m = n"
  using dec_digits_props [of m] dec_digits_props [of n] dec_value_zeros
  by (metis pad_zeros_def)

lemma spill_name_inject [simp]:
  "delta_spill_name m = delta_spill_name n \<longleftrightarrow> m = n"
  "validity_spill_name m = validity_spill_name n \<longleftrightarrow> m = n"
  by (simp_all add: delta_spill_name_def validity_spill_name_def padded_inject)

section \<open>Reading a whole spill file\<close>

text \<open>
  Both \<open>read_spill\<close> functions open the file, return nothing for an empty one, and otherwise read its
  whole length in one call, a short read being an error. \<open>usize\<close> is 64 bits, so the length always
  fits.
\<close>

definition read_spill_bytes :: "string \<Rightarrow> mem_disk \<Rightarrow> (io_error + bytes) \<times> mem_disk" where
  "read_spill_bytes name d =
     (case disk_open name d of
        (Inl e, d1) \<Rightarrow> (Inl e, d1)
      | (Inr f, d1) \<Rightarrow>
          (let len = file_len d1 f in
           if len = 0 then (Inr [], d1)
           else (case file_read_at f 0 len d1 of
                   (Inl e, d2) \<Rightarrow> (Inl e, d2)
                 | (Inr buf, d2) \<Rightarrow>
                     if length buf \<noteq> len then (Inl (IoError UnexpectedEof (name @ '' short read'')), d2)
                     else (Inr buf, d2))))"

lemma read_spill_bytes_same: "read_spill_bytes name d = (r, d') \<Longrightarrow> disk_same d d'"
  by (auto simp: read_spill_bytes_def Let_def split: sum.splits prod.splits if_splits
      dest!: disk_open_keeps file_read_same intro: disk_same_trans)

lemma read_spill_bytes_Inr:
  assumes "read_spill_bytes name d = (Inr bs, d')"
  shows "file_at d name = Some bs"
proof -
  from assms obtain f d1 where o: "disk_open name d = (Inr f, d1)"
    by (auto simp: read_spill_bytes_def split: sum.splits prod.splits)
  have same: "md_store d1 = md_store d" using disk_open_keeps [OF o] by (simp add: disk_same_def)
  have "bs = md_store d ! f"
    using assms o same by (auto simp: read_spill_bytes_def Let_def file_len_def
        split: sum.splits prod.splits if_splits dest: file_read_whole [of f d1, unfolded same])
  then show ?thesis using disk_open_Inr [OF o] by (simp add: file_at_def)
qed

lemma read_spill_bytes_no_faults:
  assumes "no_faults d" "validate_name name = Inr ()" "file_at d name = Some bs"
  shows "read_spill_bytes name d = (Inr bs, d)"
proof -
  obtain f where f: "map_of (md_names d) name = Some f" "md_store d ! f = bs"
    using assms(3) by (auto simp: file_at_def)
  then have "disk_open name d = (Inr f, d)" using assms(1,2) by (simp add: disk_open_def disk_check_no_faults)
  with assms(1) f show ?thesis
    by (simp add: read_spill_bytes_def file_len_def file_read_at_def disk_check_no_faults sub_slice_def Let_def)
qed

section \<open>Self-delimiting frames\<close>

text \<open>
  The contract of a frame codec whose decoder returns the number of bytes it consumed, so that a
  reader drives a cursor over concatenated frames: \<open>norm\<close> is what of a value survives the trip.
\<close>

locale frame_codec =
  fixes frame :: "'a \<Rightarrow> bytes"
    and decode :: "bytes \<Rightarrow> 'e + 'a \<times> nat"
    and encodable :: "'a \<Rightarrow> bool"
    and norm :: "'a \<Rightarrow> 'a"
    and decode_all :: "bytes \<Rightarrow> 'e + 'a list"
  assumes decode_frame: "encodable x \<Longrightarrow> decode (frame x @ rest) = Inr (norm x, length (frame x))"
    and frame_nonempty: "encodable x \<Longrightarrow> frame x \<noteq> []"
    and decode_all_Nil: "decode_all [] = Inr []"
    and decode_all_step: "bs \<noteq> [] \<Longrightarrow> decode bs = Inr (x, n) \<Longrightarrow>
      decode_all bs = result_bind (decode_all (drop n bs)) (\<lambda>xs. Inr (x # xs))"
begin

lemma decode_all_frames:
  "list_all encodable xs \<Longrightarrow> decode_all (concat (map frame xs)) = Inr (map norm xs)"
proof (induction xs)
  case Nil
  then show ?case by (simp add: decode_all_Nil)
next
  case (Cons x xs)
  have "decode_all (frame x @ concat (map frame xs)) =
      result_bind (decode_all (concat (map frame xs))) (\<lambda>xs. Inr (norm x # xs))"
    using Cons.prems frame_nonempty [of x] decode_frame [of x "concat (map frame xs)"]
      decode_all_step [of "frame x @ concat (map frame xs)" "norm x" "length (frame x)"] by simp
  with Cons show ?case by simp
qed

end

section \<open>Loops over spill files\<close>

text \<open>
  \<open>for meta in spills { for x in read_spill(..)? { out = f(x, out) } }\<close>, the loop every lookup of both
  tiers runs, with the early return of the \<open>?\<close>.
\<close>

fun spill_loop :: "('m \<Rightarrow> mem_disk \<Rightarrow> ('e + 'a list) \<times> mem_disk) \<Rightarrow> ('a \<Rightarrow> 'b \<Rightarrow> 'b) \<Rightarrow>
    'm list \<Rightarrow> 'b \<Rightarrow> mem_disk \<Rightarrow> ('e + 'b) \<times> mem_disk" where
  "spill_loop read f [] out d = (Inr out, d)"
| "spill_loop read f (m # ms) out d =
     (case read m d of
        (Inl e, d1) \<Rightarrow> (Inl e, d1)
      | (Inr xs, d1) \<Rightarrow> spill_loop read f ms (fold f xs out) d1)"

text \<open>
  What a tier relies on of its \<open>read_spill\<close>: it changes no file, whatever it returns is the content of
  the file, and without an injected fault it returns.
\<close>

locale spill_reader =
  fixes read :: "'m \<Rightarrow> mem_disk \<Rightarrow> ('e + 'a list) \<times> mem_disk"
    and contents :: "mem_disk \<Rightarrow> 'm \<Rightarrow> 'a list option"
  assumes read_same: "read m d = (r, d') \<Longrightarrow> disk_same d d'"
    and read_Inr: "read m d = (Inr xs, d') \<Longrightarrow> contents d m = Some xs"
    and read_live: "no_faults d \<Longrightarrow> contents d m = Some xs \<Longrightarrow> read m d = (Inr xs, d)"
    and contents_same: "disk_same d d' \<Longrightarrow> contents d' m = contents d m"
begin

lemma loop_same: "spill_loop read f ms out d = (r, d') \<Longrightarrow> disk_same d d'"
proof (induction ms arbitrary: out d)
  case (Cons m ms)
  obtain q d1 where q: "read m d = (q, d1)" by (cases "read m d")
  have same: "disk_same d d1" by (rule read_same [OF q])
  show ?case
  proof (cases q)
    case (Inl e)
    with q same Cons.prems show ?thesis by simp
  next
    case (Inr xs)
    with q Cons have "disk_same d1 d'" by simp
    with same show ?thesis by (rule disk_same_trans)
  qed
qed simp

lemma loop_Inr:
  "spill_loop read f ms out d = (Inr out', d') \<Longrightarrow>
     out' = fold f (concat (map (\<lambda>m. the (contents d m)) ms)) out"
proof (induction ms arbitrary: out d)
  case (Cons m ms)
  obtain q d1 where q: "read m d = (q, d1)" by (cases "read m d")
  with Cons.prems obtain xs where xs: "q = Inr xs" "spill_loop read f ms (fold f xs out) d1 = (Inr out', d')"
    by (cases q) simp_all
  have "contents d m = Some xs" using q xs read_Inr by simp
  moreover have "contents d1 = contents d" using contents_same [OF read_same [OF q]] by (rule ext)
  ultimately show ?case using Cons.IH [OF xs(2)] by simp
qed simp

lemma loop_live:
  "no_faults d \<Longrightarrow> \<forall>m \<in> set ms. contents d m \<noteq> None \<Longrightarrow>
     spill_loop read f ms out d = (Inr (fold f (concat (map (\<lambda>m. the (contents d m)) ms)) out), d)"
  by (induction ms arbitrary: out) (auto simp: read_live)

end

end
