(* ===== verification/Close_Record.thy ===== *)
theory Close_Record
  imports Spill_Files
begin

text \<open>
  Provenance (\<open>crates/stele-common/src/provenance.rs\<close>), the appended close record and the errors of
  the validity index (\<open>validity/index.rs\<close>), and the close record's binary frame, which the WAL and
  the index's spill files share. A business key is its bytes.
\<close>

record provenance =
  p_txn_id :: u64
  p_committed_at :: i64
  p_principal :: bytes

record closed_interval =
  ci_sys_to :: i64
  ci_closed_by :: provenance

record close =
  cl_business_key :: bytes
  cl_sys_from :: i64
  cl_seq :: u64
  cl_sys_to :: i64
  cl_closed_by :: provenance

text \<open>The identity of a version: \<open>(business_key, sys_from, seq)\<close>.\<close>

type_synonym version_key = "bytes \<times> i64 \<times> u64"

datatype validity_error =
    AlreadyClosed
  | VCorrupt string
  | VTooLarge nat
  | VIo io_error

section \<open>The frame\<close>

definition CLOSE_HEADER_LEN :: nat where
  "CLOSE_HEADER_LEN = 48"

definition MAX_CLOSE_FRAME_LEN :: nat where
  "MAX_CLOSE_FRAME_LEN = 16 * 1024 * 1024"

definition close_target :: "close \<Rightarrow> version_key" where
  "close_target c = (cl_business_key c, cl_sys_from c, cl_seq c)"

definition close_interval :: "close \<Rightarrow> closed_interval" where
  "close_interval c = \<lparr>ci_sys_to = cl_sys_to c, ci_closed_by = cl_closed_by c\<rparr>"

definition Close_encoded_size :: "close \<Rightarrow> nat" where
  "Close_encoded_size c =
     CLOSE_HEADER_LEN + length (cl_business_key c) + length (p_principal (cl_closed_by c))"

definition Close_check_encodable :: "close \<Rightarrow> validity_error + unit" where
  "Close_check_encodable c =
     (if u32_try_from (length (cl_business_key c)) = None \<or>
         u32_try_from (length (p_principal (cl_closed_by c))) = None \<or>
         MAX_CLOSE_FRAME_LEN < Close_encoded_size c
      then Inl (VTooLarge (Close_encoded_size c)) else Inr ())"

text \<open>\<open>encode(&self, out)\<close>: the buffer after the call; on an error nothing was appended.\<close>

definition Close_encode :: "close \<Rightarrow> bytes \<Rightarrow> validity_error + bytes" where
  "Close_encode c out =
     result_bind (Close_check_encodable c) (\<lambda>_.
     result_bind (ok_or (u32_try_from (length (cl_business_key c))) (VTooLarge (Close_encoded_size c))) (\<lambda>business_len.
     result_bind (ok_or (u32_try_from (length (p_principal (cl_closed_by c)))) (VTooLarge (Close_encoded_size c))) (\<lambda>principal_len.
       Inr (out @ u32_le business_len @ u32_le principal_len @ i64_le (cl_sys_from c) @ u64_le (cl_seq c) @
            i64_le (cl_sys_to c) @ u64_le (p_txn_id (cl_closed_by c)) @ i64_le (p_committed_at (cl_closed_by c)) @
            cl_business_key c @ p_principal (cl_closed_by c)))))"

definition Close_encoded :: "close \<Rightarrow> validity_error + bytes" where
  "Close_encoded c = Close_encode c []"

text \<open>The header readers \<open>rd_u32\<close>, \<open>rd_u64\<close> and \<open>rd_i64\<close> at a fixed offset.\<close>

definition rd_u32 :: "bytes \<Rightarrow> nat \<Rightarrow> u32" where
  "rd_u32 bs i = u32_of_le (sub_slice i (i + 4) bs)"

definition rd_u64 :: "bytes \<Rightarrow> nat \<Rightarrow> u64" where
  "rd_u64 bs i = u64_of_le (sub_slice i (i + 8) bs)"

definition rd_i64 :: "bytes \<Rightarrow> nat \<Rightarrow> i64" where
  "rd_i64 bs i = i64_of_le (sub_slice i (i + 8) bs)"

definition Close_decode :: "bytes \<Rightarrow> validity_error + close \<times> nat" where
  "Close_decode bs =
     (if length bs < CLOSE_HEADER_LEN then Inl (VCorrupt ''short read on close header'')
      else let business_len = unat (rd_u32 bs 0);
               principal_len = unat (rd_u32 bs 4);
               total = CLOSE_HEADER_LEN + business_len + principal_len;
               bk_end = CLOSE_HEADER_LEN + business_len
           in if 2 ^ 64 \<le> total then Inl (VCorrupt ''frame length overflows usize'')
              else if MAX_CLOSE_FRAME_LEN < total then Inl (VCorrupt ''frame length exceeds MAX_CLOSE_FRAME_LEN'')
              else if length bs < total then Inl (VCorrupt ''frame body shorter than declared'')
              else Inr (\<lparr>cl_business_key = sub_slice CLOSE_HEADER_LEN bk_end bs,
                         cl_sys_from = rd_i64 bs 8, cl_seq = rd_u64 bs 16, cl_sys_to = rd_i64 bs 24,
                         cl_closed_by = \<lparr>p_txn_id = rd_u64 bs 32, p_committed_at = rd_i64 bs 40,
                                         p_principal = sub_slice bk_end total bs\<rparr>\<rparr>, total))"

text \<open>The decode loop of \<open>read_spill\<close> over the concatenated frames.\<close>

lemma Close_decode_consumed:
  "Close_decode bs = Inr (c, n) \<Longrightarrow> CLOSE_HEADER_LEN \<le> n \<and> n \<le> length bs"
  by (auto simp: Close_decode_def Let_def split: if_splits)

function decode_closes :: "bytes \<Rightarrow> validity_error + close list" where
  "decode_closes bs =
     (if bs = [] then Inr []
      else (case Close_decode bs of
              Inl e \<Rightarrow> Inl e
            | Inr (c, consumed) \<Rightarrow> result_bind (decode_closes (drop consumed bs)) (\<lambda>cs. Inr (c # cs))))"
  by pat_completeness auto
termination
  by (relation "measure length") (auto simp: CLOSE_HEADER_LEN_def dest: Close_decode_consumed)

declare decode_closes.simps [simp del]

section \<open>Round trip\<close>

definition close_encodable :: "close \<Rightarrow> bool" where
  "close_encodable c \<longleftrightarrow> Close_check_encodable c = Inr ()"

definition close_frame :: "close \<Rightarrow> bytes" where
  "close_frame c =
     u32_le (of_nat (length (cl_business_key c))) @ u32_le (of_nat (length (p_principal (cl_closed_by c)))) @
     i64_le (cl_sys_from c) @ u64_le (cl_seq c) @ i64_le (cl_sys_to c) @ u64_le (p_txn_id (cl_closed_by c)) @
     i64_le (p_committed_at (cl_closed_by c)) @ cl_business_key c @ p_principal (cl_closed_by c)"

lemma close_encodable_iff:
  "close_encodable c \<longleftrightarrow> Close_encoded_size c \<le> MAX_CLOSE_FRAME_LEN"
  by (auto simp: close_encodable_def Close_check_encodable_def u32_try_from_def Close_encoded_size_def
      CLOSE_HEADER_LEN_def MAX_CLOSE_FRAME_LEN_def)

lemma close_encodable_bounds:
  assumes "close_encodable c"
  shows "length (cl_business_key c) < 2 ^ 32" "length (p_principal (cl_closed_by c)) < 2 ^ 32"
  using assms by (auto simp: close_encodable_iff Close_encoded_size_def CLOSE_HEADER_LEN_def MAX_CLOSE_FRAME_LEN_def)

lemma Close_encode_frame:
  "Close_encode c out = (if close_encodable c then Inr (out @ close_frame c) else Inl (VTooLarge (Close_encoded_size c)))"
proof (cases "close_encodable c")
  case True
  with close_encodable_bounds [OF True] show ?thesis
    by (simp add: Close_encode_def close_encodable_def u32_try_from_def close_frame_def)
next
  case False
  then show ?thesis by (auto simp: Close_encode_def close_encodable_def Close_check_encodable_def split: if_splits)
qed

lemma length_close_frame [simp]: "length (close_frame c) = Close_encoded_size c"
  by (simp add: close_frame_def Close_encoded_size_def CLOSE_HEADER_LEN_def)

lemma decode_close_frame:
  assumes "close_encodable c"
  shows "Close_decode (close_frame c @ rest) = Inr (c, length (close_frame c))"
proof -
  note b = close_encodable_bounds [OF assms]
  have hdr: "unat (rd_u32 (close_frame c @ rest) 0) = length (cl_business_key c)"
    "unat (rd_u32 (close_frame c @ rest) 4) = length (p_principal (cl_closed_by c))"
    using b by (simp_all add: rd_u32_def close_frame_def sub_slice_def)
  have fields: "rd_i64 (close_frame c @ rest) 8 = cl_sys_from c" "rd_u64 (close_frame c @ rest) 16 = cl_seq c"
    "rd_i64 (close_frame c @ rest) 24 = cl_sys_to c" "rd_u64 (close_frame c @ rest) 32 = p_txn_id (cl_closed_by c)"
    "rd_i64 (close_frame c @ rest) 40 = p_committed_at (cl_closed_by c)"
    by (simp_all add: rd_i64_def rd_u64_def close_frame_def sub_slice_def)
  have body: "sub_slice CLOSE_HEADER_LEN (CLOSE_HEADER_LEN + length (cl_business_key c)) (close_frame c @ rest) = cl_business_key c"
    "sub_slice (CLOSE_HEADER_LEN + length (cl_business_key c)) (Close_encoded_size c) (close_frame c @ rest) = p_principal (cl_closed_by c)"
    by (simp_all add: close_frame_def sub_slice_def CLOSE_HEADER_LEN_def Close_encoded_size_def)
  have total: "CLOSE_HEADER_LEN + length (cl_business_key c) + length (p_principal (cl_closed_by c)) = Close_encoded_size c"
    by (simp add: Close_encoded_size_def)
  have "Close_encoded_size c \<le> MAX_CLOSE_FRAME_LEN" using assms by (simp add: close_encodable_iff)
  then have "\<not> 2 ^ 64 \<le> Close_encoded_size c" "\<not> MAX_CLOSE_FRAME_LEN < Close_encoded_size c"
    by (simp_all add: MAX_CLOSE_FRAME_LEN_def)
  moreover have "CLOSE_HEADER_LEN \<le> Close_encoded_size c" by (simp add: Close_encoded_size_def)
  ultimately show ?thesis
    unfolding Close_decode_def hdr total Let_def by (simp add: fields body)
qed

interpretation close_codec: frame_codec close_frame Close_decode close_encodable id decode_closes
proof
  fix c rest assume c: "close_encodable c"
  then show "Close_decode (close_frame c @ rest) = Inr (id c, length (close_frame c))"
    by (simp add: decode_close_frame del: length_close_frame)
  have "length (close_frame c) \<noteq> 0" by (simp add: Close_encoded_size_def CLOSE_HEADER_LEN_def)
  then show "close_frame c \<noteq> []" by force
next
  show "decode_closes [] = Inr []" by (simp add: decode_closes.simps)
next
  fix bs c n assume "bs \<noteq> []" "Close_decode bs = Inr (c, n)"
  then show "decode_closes bs = result_bind (decode_closes (drop n bs)) (\<lambda>cs. Inr (c # cs))"
    by (simp add: decode_closes.simps [of bs])
qed

text \<open>
  The close record round-trips: a record is refused with its size when it is over the 16 MiB
  frame ceiling, and otherwise encodes to exactly \<open>encoded_size\<close> bytes that decode, whatever bytes
  follow them, to the same record and the number of bytes consumed; and the frames of several
  records, concatenated as in a spill file, decode to the records in order.
\<close>

theorem close_frame_roundtrip:
  assumes "list_all (\<lambda>c. Close_encoded_size c \<le> MAX_CLOSE_FRAME_LEN) cs"
  shows "\<exists>fs. map Close_encoded cs = map Inr fs \<and> map length fs = map Close_encoded_size cs \<and>
    decode_closes (concat fs) = Inr cs \<and>
    (\<forall>i < length cs. Close_decode (fs ! i @ rest) = Inr (cs ! i, Close_encoded_size (cs ! i))) \<and>
    (MAX_CLOSE_FRAME_LEN < Close_encoded_size d \<longrightarrow> Close_encoded d = Inl (VTooLarge (Close_encoded_size d)))"
proof -
  have enc: "list_all close_encodable cs" using assms by (simp add: list_all_iff close_encodable_iff)
  then have "map Close_encoded cs = map Inr (map close_frame cs)"
    by (simp add: list_all_iff Close_encoded_def Close_encode_frame)
  moreover have "decode_closes (concat (map close_frame cs)) = Inr cs"
    using close_codec.decode_all_frames [OF enc] by simp
  moreover have "\<forall>i < length cs. Close_decode (map close_frame cs ! i @ rest) = Inr (cs ! i, Close_encoded_size (cs ! i))"
    using enc by (auto simp: list_all_length decode_close_frame)
  moreover have "MAX_CLOSE_FRAME_LEN < Close_encoded_size d \<longrightarrow> Close_encoded d = Inl (VTooLarge (Close_encoded_size d))"
    by (simp add: Close_encoded_def Close_encode_frame close_encodable_iff)
  moreover have "map length (map close_frame cs) = map Close_encoded_size cs" by simp
  ultimately show ?thesis by (intro exI [of _ "map close_frame cs"]) blast
qed

definition example_close :: close where
  "example_close = \<lparr>cl_business_key = [107], cl_sys_from = i64_of 10, cl_seq = 3, cl_sys_to = i64_of 20,
     cl_closed_by = \<lparr>p_txn_id = 9, p_committed_at = i64_of 20, p_principal = [97, 98]\<rparr>\<rparr>"

lemma example_close_size: "Close_encoded_size example_close = 51"
  by (simp add: example_close_def Close_encoded_size_def CLOSE_HEADER_LEN_def)

theorem close_frame_roundtrip_witness:
  "\<exists>fs. map Close_encoded [example_close] = map Inr fs \<and> decode_closes (concat fs) = Inr [example_close]"
proof -
  have "list_all (\<lambda>c. Close_encoded_size c \<le> MAX_CLOSE_FRAME_LEN) [example_close]"
    by (simp add: example_close_size MAX_CLOSE_FRAME_LEN_def)
  from close_frame_roundtrip [OF this] show ?thesis by blast
qed

end
