(* ===== verification/Version.thy ===== *)
theory Version
  imports Close_Record
begin

text \<open>
  The version record of the delta tier (\<open>delta/version.rs\<close>) with its binary frame, shared by the WAL
  and the delta's spill files. \<open>sys_to\<close> and \<open>closed_by\<close> are the read-time overlay: they are fields of
  the record but not of the frame. The errors are those of \<open>delta/mod.rs\<close>.
\<close>

datatype delta_error =
    DCorrupt string
  | DTooLarge nat
  | DIo io_error
  | DValidity validity_error

record version =
  v_business_key :: bytes
  v_sys_from :: i64
  v_seq :: u64
  v_sys_to :: i64
  v_provenance :: provenance
  v_closed_by :: "provenance option"
  v_payload :: "bytes option"

definition VERSION_HEADER_LEN :: nat where
  "VERSION_HEADER_LEN = 44"

definition MAX_VERSION_FRAME_LEN :: nat where
  "MAX_VERSION_FRAME_LEN = 16 * 1024 * 1024"

definition PAYLOAD_NULL_SENTINEL :: u32 where
  "PAYLOAD_NULL_SENTINEL = 0xFFFFFFFF"

definition Version_open :: "bytes \<Rightarrow> i64 \<Rightarrow> u64 \<Rightarrow> provenance \<Rightarrow> bytes option \<Rightarrow> version" where
  "Version_open business_key sys_from seq prov payload =
     \<lparr>v_business_key = business_key, v_sys_from = sys_from, v_seq = seq, v_sys_to = SYSTEM_TIME_OPEN,
      v_provenance = prov, v_closed_by = None, v_payload = payload\<rparr>"

definition Version_encoded_size :: "version \<Rightarrow> nat" where
  "Version_encoded_size v =
     VERSION_HEADER_LEN + length (v_business_key v) +
     (case v_payload v of None \<Rightarrow> 0 | Some p \<Rightarrow> length p) + length (p_principal (v_provenance v))"

definition Version_check_encodable :: "version \<Rightarrow> delta_error + unit" where
  "Version_check_encodable v =
     (if u32_try_from (length (v_business_key v)) = None \<or>
         (case v_payload v of None \<Rightarrow> False | Some p \<Rightarrow> u32_try_from (length p) = None) \<or>
         u32_try_from (length (p_principal (v_provenance v))) = None
      then Inl (DTooLarge (Version_encoded_size v))
      else if MAX_VERSION_FRAME_LEN < Version_encoded_size v then Inl (DTooLarge (Version_encoded_size v))
      else Inr ())"

definition Version_encode :: "version \<Rightarrow> bytes \<Rightarrow> delta_error + bytes" where
  "Version_encode v out =
     result_bind (Version_check_encodable v) (\<lambda>_.
     result_bind (ok_or (u32_try_from (length (v_business_key v))) (DTooLarge (Version_encoded_size v))) (\<lambda>business_len.
     result_bind (case v_payload v of
                    None \<Rightarrow> Inr PAYLOAD_NULL_SENTINEL
                  | Some p \<Rightarrow> ok_or (u32_try_from (length p)) (DTooLarge (Version_encoded_size v))) (\<lambda>payload_len.
     result_bind (ok_or (u32_try_from (length (p_principal (v_provenance v)))) (DTooLarge (Version_encoded_size v))) (\<lambda>principal_len.
       Inr (out @ u32_le business_len @ u32_le payload_len @ u32_le principal_len @ i64_le (v_sys_from v) @
            u64_le (p_txn_id (v_provenance v)) @ i64_le (p_committed_at (v_provenance v)) @ u64_le (v_seq v) @
            v_business_key v @ (case v_payload v of None \<Rightarrow> [] | Some p \<Rightarrow> p) @ p_principal (v_provenance v))))))"

definition Version_encoded :: "version \<Rightarrow> delta_error + bytes" where
  "Version_encoded v = Version_encode v []"

definition Version_decode :: "bytes \<Rightarrow> delta_error + version \<times> nat" where
  "Version_decode bs =
     (if length bs < VERSION_HEADER_LEN then Inl (DCorrupt ''short read on version header'')
      else let business_len = unat (rd_u32 bs 0);
               payload_raw = rd_u32 bs 4;
               payload_is_null = (payload_raw = PAYLOAD_NULL_SENTINEL);
               payload_len = (if payload_is_null then 0 else unat payload_raw);
               principal_len = unat (rd_u32 bs 8);
               total = VERSION_HEADER_LEN + business_len + payload_len + principal_len;
               bk_end = VERSION_HEADER_LEN + business_len;
               payload_end = bk_end + payload_len;
               principal_end = payload_end + principal_len
           in if 2 ^ 64 \<le> total then Inl (DCorrupt ''frame length overflows usize'')
              else if MAX_VERSION_FRAME_LEN < total then Inl (DCorrupt ''frame length exceeds MAX_VERSION_FRAME_LEN'')
              else if length bs < total then Inl (DCorrupt ''frame body shorter than declared'')
              else Inr (Version_open (sub_slice VERSION_HEADER_LEN bk_end bs) (rd_i64 bs 12) (rd_u64 bs 36)
                          \<lparr>p_txn_id = rd_u64 bs 20, p_committed_at = rd_i64 bs 28,
                           p_principal = sub_slice payload_end principal_end bs\<rparr>
                          (if payload_is_null then None else Some (sub_slice bk_end payload_end bs)),
                        total))"

text \<open>The decode loop of \<open>read_spill\<close>.\<close>

lemma Version_decode_consumed:
  "Version_decode bs = Inr (v, n) \<Longrightarrow> VERSION_HEADER_LEN \<le> n \<and> n \<le> length bs"
  by (auto simp: Version_decode_def Let_def split: if_splits)

function decode_versions :: "bytes \<Rightarrow> delta_error + version list" where
  "decode_versions bs =
     (if bs = [] then Inr []
      else (case Version_decode bs of
              Inl e \<Rightarrow> Inl e
            | Inr (v, consumed) \<Rightarrow> result_bind (decode_versions (drop consumed bs)) (\<lambda>vs. Inr (v # vs))))"
  by pat_completeness auto
termination
  by (relation "measure length") (auto simp: VERSION_HEADER_LEN_def dest: Version_decode_consumed)

declare decode_versions.simps [simp del]

section \<open>Round trip\<close>

text \<open>What of a version the durable record keeps: everything but the overlay.\<close>

definition unresolved :: "version \<Rightarrow> version" where
  "unresolved v = v\<lparr>v_sys_to := SYSTEM_TIME_OPEN, v_closed_by := None\<rparr>"

definition version_encodable :: "version \<Rightarrow> bool" where
  "version_encodable v \<longleftrightarrow> Version_check_encodable v = Inr ()"

definition payload_bytes :: "version \<Rightarrow> bytes" where
  "payload_bytes v = (case v_payload v of None \<Rightarrow> [] | Some p \<Rightarrow> p)"

definition payload_field :: "version \<Rightarrow> u32" where
  "payload_field v = (case v_payload v of None \<Rightarrow> PAYLOAD_NULL_SENTINEL | Some p \<Rightarrow> of_nat (length p))"

definition version_frame :: "version \<Rightarrow> bytes" where
  "version_frame v =
     u32_le (of_nat (length (v_business_key v))) @ u32_le (payload_field v) @
     u32_le (of_nat (length (p_principal (v_provenance v)))) @ i64_le (v_sys_from v) @
     u64_le (p_txn_id (v_provenance v)) @ i64_le (p_committed_at (v_provenance v)) @ u64_le (v_seq v) @
     v_business_key v @ payload_bytes v @ p_principal (v_provenance v)"

lemma encoded_size_payload:
  "Version_encoded_size v =
     VERSION_HEADER_LEN + length (v_business_key v) + length (payload_bytes v) + length (p_principal (v_provenance v))"
  by (simp add: Version_encoded_size_def payload_bytes_def split: option.splits)

lemma version_encodable_iff:
  "version_encodable v \<longleftrightarrow> Version_encoded_size v \<le> MAX_VERSION_FRAME_LEN"
  by (auto simp: version_encodable_def Version_check_encodable_def u32_try_from_def Version_encoded_size_def
      VERSION_HEADER_LEN_def MAX_VERSION_FRAME_LEN_def split: option.splits)

lemma version_encodable_bounds:
  assumes "version_encodable v"
  shows "length (v_business_key v) < 2 ^ 32" "length (p_principal (v_provenance v)) < 2 ^ 32"
    "length (payload_bytes v) < 2 ^ 31"
  using assms by (auto simp: version_encodable_iff encoded_size_payload VERSION_HEADER_LEN_def MAX_VERSION_FRAME_LEN_def)

lemma Version_encode_frame:
  "Version_encode v out = (if version_encodable v then Inr (out @ version_frame v) else Inl (DTooLarge (Version_encoded_size v)))"
proof (cases "version_encodable v")
  case True
  with version_encodable_bounds [OF True] show ?thesis
    by (cases "v_payload v")
       (simp_all add: Version_encode_def version_encodable_def u32_try_from_def version_frame_def payload_field_def
        payload_bytes_def)
next
  case False
  then show ?thesis by (auto simp: Version_encode_def version_encodable_def Version_check_encodable_def split: if_splits)
qed

lemma length_version_frame [simp]: "length (version_frame v) = Version_encoded_size v"
  by (simp add: version_frame_def encoded_size_payload VERSION_HEADER_LEN_def)

text \<open>The sentinel is unambiguous: a present payload under the frame ceiling never has that length.\<close>

lemma payload_field_facts:
  assumes "version_encodable v"
  shows "payload_field v = PAYLOAD_NULL_SENTINEL \<longleftrightarrow> v_payload v = None"
    "(if payload_field v = PAYLOAD_NULL_SENTINEL then 0 else unat (payload_field v)) = length (payload_bytes v)"
    "(if payload_field v = PAYLOAD_NULL_SENTINEL then None else Some (payload_bytes v)) = v_payload v"
proof -
  have "of_nat (length p) \<noteq> PAYLOAD_NULL_SENTINEL" if "v_payload v = Some p" for p
  proof
    assume "of_nat (length p) = PAYLOAD_NULL_SENTINEL"
    then have "unat (of_nat (length p) :: u32) = unat PAYLOAD_NULL_SENTINEL" by simp
    moreover have "length p < 2 ^ 31" using version_encodable_bounds(3) [OF assms] that by (simp add: payload_bytes_def)
    ultimately show False by (simp add: PAYLOAD_NULL_SENTINEL_def)
  qed
  then show eq: "payload_field v = PAYLOAD_NULL_SENTINEL \<longleftrightarrow> v_payload v = None"
    by (cases "v_payload v") (simp_all add: payload_field_def)
  show "(if payload_field v = PAYLOAD_NULL_SENTINEL then 0 else unat (payload_field v)) = length (payload_bytes v)"
    "(if payload_field v = PAYLOAD_NULL_SENTINEL then None else Some (payload_bytes v)) = v_payload v"
    using eq version_encodable_bounds(3) [OF assms]
    by (cases "v_payload v"; simp add: payload_bytes_def payload_field_def)+
qed

lemma decode_version_frame:
  assumes "version_encodable v"
  shows "Version_decode (version_frame v @ rest) = Inr (unresolved v, length (version_frame v))"
proof -
  note b = version_encodable_bounds [OF assms] and pf = payload_field_facts [OF assms]
  let ?bs = "version_frame v @ rest"
  have hdr: "unat (rd_u32 ?bs 0) = length (v_business_key v)" "rd_u32 ?bs 4 = payload_field v"
    "unat (rd_u32 ?bs 8) = length (p_principal (v_provenance v))"
    using b by (simp_all add: rd_u32_def version_frame_def sub_slice_def)
  have fields: "rd_i64 ?bs 12 = v_sys_from v" "rd_u64 ?bs 20 = p_txn_id (v_provenance v)"
    "rd_i64 ?bs 28 = p_committed_at (v_provenance v)" "rd_u64 ?bs 36 = v_seq v"
    by (simp_all add: rd_i64_def rd_u64_def version_frame_def sub_slice_def)
  let ?k = "VERSION_HEADER_LEN + length (v_business_key v)"
  have body: "sub_slice VERSION_HEADER_LEN ?k ?bs = v_business_key v"
    "sub_slice ?k (?k + length (payload_bytes v)) ?bs = payload_bytes v"
    "sub_slice (?k + length (payload_bytes v)) (Version_encoded_size v) ?bs = p_principal (v_provenance v)"
    by (simp_all add: version_frame_def sub_slice_def VERSION_HEADER_LEN_def encoded_size_payload)
  have size: "Version_encoded_size v \<le> MAX_VERSION_FRAME_LEN" using assms by (simp add: version_encodable_iff)
  then have "\<not> 2 ^ 64 \<le> Version_encoded_size v" "\<not> MAX_VERSION_FRAME_LEN < Version_encoded_size v"
    by (simp_all add: MAX_VERSION_FRAME_LEN_def)
  moreover have "VERSION_HEADER_LEN \<le> Version_encoded_size v" by (simp add: Version_encoded_size_def)
  moreover have "Version_open (v_business_key v) (v_sys_from v) (v_seq v)
      \<lparr>p_txn_id = p_txn_id (v_provenance v), p_committed_at = p_committed_at (v_provenance v),
       p_principal = p_principal (v_provenance v)\<rparr> (v_payload v) = unresolved v"
    by (simp add: Version_open_def unresolved_def)
  ultimately show ?thesis
    unfolding Version_decode_def hdr Let_def pf(2) encoded_size_payload [symmetric] fields body pf(3) by simp
qed

interpretation version_codec: frame_codec version_frame Version_decode version_encodable unresolved decode_versions
proof
  fix v rest assume v: "version_encodable v"
  then show "Version_decode (version_frame v @ rest) = Inr (unresolved v, length (version_frame v))"
    by (rule decode_version_frame)
  have "length (version_frame v) \<noteq> 0" by (simp add: Version_encoded_size_def VERSION_HEADER_LEN_def)
  then show "version_frame v \<noteq> []" by force
next
  show "decode_versions [] = Inr []" by (simp add: decode_versions.simps)
next
  fix bs v n assume "bs \<noteq> []" "Version_decode bs = Inr (v, n)"
  then show "decode_versions bs = result_bind (decode_versions (drop n bs)) (\<lambda>vs. Inr (v # vs))"
    by (simp add: decode_versions.simps [of bs])
qed

text \<open>
  The version record round-trips up to its overlay: versions within the 16 MiB frame ceiling
  encode to exactly \<open>encoded_size\<close> bytes, and a spill file of their frames decodes to the same
  versions in order, a \<open>NULL\<close> payload kept apart from an empty one, with \<open>sys_to\<close> open and
  \<open>closed_by\<close> absent: the overlay is never persisted. A version over the ceiling is refused with its
  size and nothing is written.
\<close>

theorem version_frame_roundtrip:
  assumes "list_all (\<lambda>v. Version_encoded_size v \<le> MAX_VERSION_FRAME_LEN) vs"
  shows "\<exists>fs. map Version_encoded vs = map Inr fs \<and> map length fs = map Version_encoded_size vs \<and>
    decode_versions (concat fs) =
      Inr (map (\<lambda>v. v\<lparr>v_sys_to := SYSTEM_TIME_OPEN, v_closed_by := None\<rparr>) vs) \<and>
    (MAX_VERSION_FRAME_LEN < Version_encoded_size w \<longrightarrow>
       Version_encode w out = Inl (DTooLarge (Version_encoded_size w)))"
proof -
  have enc: "list_all version_encodable vs" using assms by (simp add: list_all_iff version_encodable_iff)
  then have "map Version_encoded vs = map Inr (map version_frame vs)"
    by (simp add: list_all_iff Version_encoded_def Version_encode_frame)
  moreover have "decode_versions (concat (map version_frame vs)) =
      Inr (map (\<lambda>v. v\<lparr>v_sys_to := SYSTEM_TIME_OPEN, v_closed_by := None\<rparr>) vs)"
    using version_codec.decode_all_frames [OF enc] by (simp add: unresolved_def)
  moreover have "map length (map version_frame vs) = map Version_encoded_size vs" by simp
  moreover have "MAX_VERSION_FRAME_LEN < Version_encoded_size w \<longrightarrow>
       Version_encode w out = Inl (DTooLarge (Version_encoded_size w))"
    by (simp add: Version_encode_frame version_encodable_iff)
  ultimately show ?thesis by (intro exI [of _ "map version_frame vs"]) blast
qed

definition example_version :: "bytes option \<Rightarrow> version" where
  "example_version payload = \<lparr>v_business_key = [107], v_sys_from = i64_of 10, v_seq = 3, v_sys_to = i64_of 20,
     v_provenance = \<lparr>p_txn_id = 9, p_committed_at = i64_of 10, p_principal = [97]\<rparr>,
     v_closed_by = Some \<lparr>p_txn_id = 10, p_committed_at = i64_of 20, p_principal = [98]\<rparr>, v_payload = payload\<rparr>"

theorem version_frame_roundtrip_witness:
  "\<exists>fs. map Version_encoded [example_version None, example_version (Some [])] = map Inr fs \<and>
     decode_versions (concat fs) = Inr [unresolved (example_version None), unresolved (example_version (Some []))]"
proof -
  have "list_all (\<lambda>v. Version_encoded_size v \<le> MAX_VERSION_FRAME_LEN) [example_version None, example_version (Some [])]"
    by (simp add: example_version_def Version_encoded_size_def VERSION_HEADER_LEN_def MAX_VERSION_FRAME_LEN_def)
  from version_frame_roundtrip [OF this, of "example_version None" "[]"] show ?thesis
    unfolding unresolved_def list.map by (elim exE conjE) (intro exI conjI)
qed

end
