(* ===== verification/Bloom.thy ===== *)
theory Bloom
  imports Stele_Prelude
begin

text \<open>
  The Bloom filter over byte keys (\<open>crates/stele-storage/src/bloom.rs\<close>) that lets a lookup skip a
  spill file or a sealed segment: FNV-1a double hashing, the power-of-two bit array and its
  persisted form.
\<close>

definition BLOOM_HASHES :: nat where "BLOOM_HASHES = 4"

definition DEFAULT_BITS_PER_KEY :: nat where "DEFAULT_BITS_PER_KEY = 12"

datatype bloom_error = Malformed string

record key_bloom =
  kb_bits :: "u64 list"
  kb_mask :: u64

definition fnv1a :: "u64 \<Rightarrow> bytes \<Rightarrow> u64" where
  "fnv1a seed bs = foldl (\<lambda>h b. (h XOR ucast b) * 0x100000001b3) seed bs"

definition bit_positions :: "u64 \<Rightarrow> bytes \<Rightarrow> u64 list" where
  "bit_positions m bs =
     (let h1 = fnv1a 0xcbf29ce484222325 bs;
          h2 = fnv1a 0x9e3779b97f4a7c15 bs OR 1
      in map (\<lambda>i. (h1 + of_nat i * h2) AND m) [0..<BLOOM_HASHES])"

text \<open>\<open>usize::next_power_of_two\<close>.\<close>

function pow2_from :: "nat \<Rightarrow> nat \<Rightarrow> nat" where
  "pow2_from p n = (if p = 0 \<or> n \<le> p then p else pow2_from (2 * p) n)"
  by pat_completeness auto
termination
  by (relation "measure (\<lambda>(p, n). n - p)") auto

declare pow2_from.simps [simp del]

definition next_power_of_two :: "nat \<Rightarrow> nat" where
  "next_power_of_two n = pow2_from 1 n"

definition bloom_bit_count :: "nat \<Rightarrow> nat \<Rightarrow> nat" where
  "bloom_bit_count bits_per_key n =
     max (next_power_of_two (min (n * max bits_per_key 1) (2 ^ 64 - 1))) 512"

definition set_bit_at :: "u64 list \<Rightarrow> u64 \<Rightarrow> u64 list" where
  "set_bit_at bits pos =
     (let i = unat (pos div 64) in bits[i := bits ! i OR push_bit (unat (pos mod 64)) 1])"

definition KeyBloom_build :: "nat \<Rightarrow> bytes list \<Rightarrow> key_bloom" where
  "KeyBloom_build bits_per_key keys =
     (let bit_count = bloom_bit_count bits_per_key (length keys);
          m = of_nat bit_count - 1
      in \<lparr>kb_bits = foldl (\<lambda>bits key. foldl set_bit_at bits (bit_positions m key))
                      (replicate (bit_count div 64) 0) keys,
          kb_mask = m\<rparr>)"

definition test_bit_at :: "u64 list \<Rightarrow> u64 \<Rightarrow> bool" where
  "test_bit_at bits pos \<longleftrightarrow> (bits ! unat (pos div 64)) AND push_bit (unat (pos mod 64)) 1 \<noteq> 0"

definition maybe_contains :: "key_bloom \<Rightarrow> bytes \<Rightarrow> bool" where
  "maybe_contains b key = list_all (test_bit_at (kb_bits b)) (bit_positions (kb_mask b) key)"

text \<open>\<open>None\<close> is the panic of \<open>expect("bloom word count fits in u32")\<close>.\<close>

definition KeyBloom_encode :: "key_bloom \<Rightarrow> bytes \<Rightarrow> bytes option" where
  "KeyBloom_encode b out =
     (if 2 ^ 32 \<le> length (kb_bits b) then None
      else Some (out @ [of_nat BLOOM_HASHES] @ u32_le (of_nat (length (kb_bits b))) @
                 concat (map u64_le (kb_bits b))))"

definition KeyBloom_encoded_len :: "key_bloom \<Rightarrow> nat" where
  "KeyBloom_encoded_len b = 1 + 4 + length (kb_bits b) * 8"

definition is_power_of_two :: "nat \<Rightarrow> bool" where
  "is_power_of_two n \<longleftrightarrow> n \<noteq> 0 \<and> next_power_of_two n = n"

definition KeyBloom_decode :: "bytes \<Rightarrow> bloom_error + key_bloom \<times> nat" where
  "KeyBloom_decode bs =
     (case bs of [] \<Rightarrow> Inl (Malformed ''missing probe count'')
      | hashes # rest \<Rightarrow>
          if unat hashes \<noteq> BLOOM_HASHES then Inl (Malformed ''unsupported probe count'')
          else if length rest < 4 then Inl (Malformed ''missing word count'')
          else (let word_count = unat (u32_of_le (take 4 rest));
                    bit_count = min (word_count * 64) (2 ^ 64 - 1);
                    words_end = 5 + word_count * 8
                in if word_count = 0 then Inl (Malformed ''zero word count'')
                   else if \<not> is_power_of_two bit_count then Inl (Malformed ''bit count is not a power of two'')
                   else if length bs < words_end then Inl (Malformed ''truncated bit words'')
                   else Inr (\<lparr>kb_bits = map u64_of_le (chunks_exact 8 (sub_slice 5 words_end bs)),
                             kb_mask = of_nat bit_count - 1\<rparr>, words_end)))"

section \<open>Sizing\<close>

lemma pow2_from_props:
  "0 < p \<Longrightarrow> (\<exists>k. pow2_from p n = p * 2 ^ k) \<and> n \<le> pow2_from p n \<and> (p \<le> 2 ^ m \<longrightarrow> (\<exists>j. p = 2 ^ j) \<longrightarrow> n \<le> 2 ^ m \<longrightarrow> pow2_from p n \<le> 2 ^ m)"
proof (induction p n rule: pow2_from.induct)
  case (1 p n)
  show ?case
  proof (cases "n \<le> p")
    case True
    with 1 show ?thesis by (auto simp: pow2_from.simps [of p n] intro: exI [of _ 0])
  next
    case False
    with 1 have ih: "(\<exists>k. pow2_from (2 * p) n = 2 * p * 2 ^ k) \<and> n \<le> pow2_from (2 * p) n \<and>
      (2 * p \<le> 2 ^ m \<longrightarrow> (\<exists>j. 2 * p = 2 ^ j) \<longrightarrow> n \<le> 2 ^ m \<longrightarrow> pow2_from (2 * p) n \<le> 2 ^ m)" by simp
    have eq: "pow2_from p n = pow2_from (2 * p) n" using False 1 by (simp add: pow2_from.simps [of p n])
    have "2 * p \<le> 2 ^ m" if "p = 2 ^ j" "n \<le> 2 ^ m" for j
    proof -
      have "(2 :: nat) ^ j < 2 ^ m" using that False by linarith
      then have "Suc j \<le> m" using power_less_imp_less_exp [of 2 j m] by simp
      then have "(2 :: nat) ^ Suc j \<le> 2 ^ m" by (intro power_increasing) simp_all
      with that show ?thesis by simp
    qed
    moreover have "\<exists>j. 2 * p = 2 ^ j" if "p = 2 ^ j" for j using that by (intro exI [of _ "Suc j"]) simp
    moreover have "\<exists>k. pow2_from (2 * p) n = p * 2 ^ k"
      using ih by (metis mult.assoc mult.commute power_Suc)
    ultimately show ?thesis unfolding eq using ih by blast
  qed
qed

lemma bloom_bit_count_props:
  assumes "n * max bits_per_key 1 \<le> 2 ^ c" "9 \<le> c"
  obtains k where "bloom_bit_count bits_per_key n = 2 ^ k" "9 \<le> k" "k \<le> c"
proof -
  let ?n = "min (n * max bits_per_key 1) (2 ^ 64 - 1)"
  have "1 \<le> (2 :: nat) ^ c" by simp
  moreover have "?n \<le> 2 ^ c" using assms(1) by (rule min.coboundedI1)
  moreover have "\<exists>j. 1 = (2 :: nat) ^ j" by (rule exI [of _ 0]) simp
  ultimately obtain k where k: "next_power_of_two ?n = 2 ^ k" "next_power_of_two ?n \<le> 2 ^ c"
    using pow2_from_props [of 1 ?n c] unfolding next_power_of_two_def by auto
  then have kc: "k \<le> c" using power_le_imp_le_exp [of "2 :: nat" k c] by simp
  show thesis
  proof (cases "k < 9")
    case True
    then have "(2 :: nat) ^ k \<le> 2 ^ 9" by (intro power_increasing) simp_all
    with k(1) assms show thesis by (intro that [of 9]) (simp_all add: bloom_bit_count_def)
  next
    case False
    then have "(2 :: nat) ^ 9 \<le> 2 ^ k" by (intro power_increasing) simp_all
    with k(1) kc False show thesis by (intro that [of k]) (simp_all add: bloom_bit_count_def)
  qed
qed

section \<open>Bits\<close>

lemma test_bit_at_bit: "test_bit_at bits pos \<longleftrightarrow> bit (bits ! unat (pos div 64)) (unat (pos mod 64))"
  by (simp add: test_bit_at_def and_exp_eq_0_iff_not_bit)

lemma length_set_bits [simp]: "length (foldl set_bit_at bits ps) = length bits"
  by (induction ps arbitrary: bits) (simp_all add: set_bit_at_def Let_def)

lemma set_bit_at_keeps: "test_bit_at bits q \<Longrightarrow> test_bit_at (set_bit_at bits p) q"
  by (cases "unat (p div 64) < length bits")
     (auto simp: test_bit_at_bit set_bit_at_def Let_def nth_list_update bit_simps list_update_beyond)

lemma set_bit_at_sets:
  assumes "unat (p div 64) < length bits"
  shows "test_bit_at (set_bit_at bits p) p"
proof -
  have "unat (p mod 64) < 64" by (simp add: unat_mod)
  with assms show ?thesis by (simp add: test_bit_at_bit set_bit_at_def Let_def bit_simps)
qed

lemma set_bits_keep: "test_bit_at bits q \<Longrightarrow> test_bit_at (foldl set_bit_at bits ps) q"
  by (induction ps arbitrary: bits) (simp_all add: set_bit_at_keeps)

lemma set_bits_set:
  "q \<in> set ps \<Longrightarrow> unat (q div 64) < length bits \<Longrightarrow> test_bit_at (foldl set_bit_at bits ps) q"
proof (induction ps arbitrary: bits)
  case (Cons p ps)
  have len: "length (set_bit_at bits p) = length bits" by (simp add: set_bit_at_def Let_def)
  with Cons show ?case by (cases "q = p") (simp_all add: set_bit_at_sets set_bits_keep)
qed simp

lemma length_set_keys [simp]:
  "length (foldl (\<lambda>bits key. foldl set_bit_at bits (f key)) bits keys) = length bits"
  by (induction keys arbitrary: bits) simp_all

lemma set_keys_keep:
  "test_bit_at bits q \<Longrightarrow> test_bit_at (foldl (\<lambda>bits key. foldl set_bit_at bits (f key)) bits keys) q"
  by (induction keys arbitrary: bits) (simp_all add: set_bits_keep)

lemma set_keys_set:
  "key \<in> set keys \<Longrightarrow> q \<in> set (f key) \<Longrightarrow> unat (q div 64) < length bits \<Longrightarrow>
   test_bit_at (foldl (\<lambda>bits key. foldl set_bit_at bits (f key)) bits keys) q"
  by (induction keys arbitrary: bits) (auto simp: set_keys_keep set_bits_set)

lemma word_mask_pow: "k < 64 \<Longrightarrow> of_nat (2 ^ k) - 1 = (mask k :: u64)"
  by (simp add: mask_eq_decr_exp)

lemma bit_positions_bound:
  assumes "k < 64" "q \<in> set (bit_positions (mask k) bs)"
  shows "unat q < 2 ^ k"
proof -
  obtain x where "q = x AND mask k" using assms(2) by (auto simp: bit_positions_def Let_def)
  then have "q = take_bit k x" by (simp add: take_bit_eq_mask)
  then have "unat q = take_bit k (unat x)" by (simp add: unsigned_take_bit_eq)
  then show ?thesis by simp
qed

lemma KeyBloom_build_shape:
  assumes "length keys * max bits_per_key 1 \<le> 2 ^ c" "9 \<le> c" "c \<le> 63"
  obtains k where "9 \<le> k" "k \<le> c" "kb_mask (KeyBloom_build bits_per_key keys) = mask k"
    "length (kb_bits (KeyBloom_build bits_per_key keys)) = 2 ^ (k - 6)"
    "bloom_bit_count bits_per_key (length keys) = 2 ^ k"
proof -
  obtain k where k: "bloom_bit_count bits_per_key (length keys) = 2 ^ k" "9 \<le> k" "k \<le> c"
    using bloom_bit_count_props [OF assms(1,2)] by blast
  have "(2 :: nat) ^ k = 2 ^ (k - 6) * 2 ^ 6" using k(2) by (subst power_add [symmetric]) simp
  then have "(2 :: nat) ^ k div 64 = 2 ^ (k - 6)" by simp
  with k assms(3) show thesis by (intro that [of k]) (simp_all add: KeyBloom_build_def Let_def word_mask_pow del: of_nat_power)
qed

text \<open>Every word index the code forms from a bit position is inside the bit array.\<close>

lemma bloom_index_in_range:
  assumes "length keys * max bits_per_key 1 \<le> 2 ^ 63"
    and "q \<in> set (bit_positions (kb_mask (KeyBloom_build bits_per_key keys)) key)"
  shows "unat (q div 64) < length (kb_bits (KeyBloom_build bits_per_key keys))"
proof -
  have c: "9 \<le> (63 :: nat)" "63 \<le> (63 :: nat)" by simp_all
  from KeyBloom_build_shape [OF assms(1) c] obtain k where k: "9 \<le> k" "k \<le> 63"
    "kb_mask (KeyBloom_build bits_per_key keys) = mask k"
    "length (kb_bits (KeyBloom_build bits_per_key keys)) = 2 ^ (k - 6)" by blast
  then have "unat q < 2 ^ k" using bit_positions_bound assms(2) by simp
  also have "(2 :: nat) ^ k = 2 ^ (k - 6) * 64" using k power_add [of "2 :: nat" "k - 6" 6] by simp
  finally have "unat q div 64 < 2 ^ (k - 6)" by (simp add: less_mult_imp_div_less)
  with k show ?thesis by (simp add: unat_div)
qed

lemma maybe_contains_built:
  assumes "length keys * max bits_per_key 1 \<le> 2 ^ 63" "key \<in> set keys"
  shows "maybe_contains (KeyBloom_build bits_per_key keys) key"
proof -
  have "test_bit_at (kb_bits (KeyBloom_build bits_per_key keys)) q"
    if q: "q \<in> set (bit_positions (kb_mask (KeyBloom_build bits_per_key keys)) key)" for q
    using set_keys_set [OF assms(2)] bloom_index_in_range [OF assms(1) q] q
    by (simp add: KeyBloom_build_def Let_def)
  then show ?thesis by (simp add: maybe_contains_def list_all_iff)
qed

text \<open>
  A Bloom filter has no false negatives: whatever the bits-per-key knob, \<open>maybe_contains\<close> is true
  of every key the filter was built over, so a negative answer proves absence; and no probe of any
  key, member or not, indexes outside the bit array. (The key count times the knob must be at most
  \<open>2 ^ 63\<close>, where \<open>next_power_of_two\<close> does not overflow.)
\<close>

theorem bloom_no_false_negatives:
  assumes "length keys * max bits_per_key 1 \<le> 2 ^ 63"
  shows "(key \<in> set keys \<longrightarrow> maybe_contains (KeyBloom_build bits_per_key keys) key) \<and>
    (\<forall>q \<in> set (bit_positions (kb_mask (KeyBloom_build bits_per_key keys)) key).
       unat (q div 64) < length (kb_bits (KeyBloom_build bits_per_key keys)))"
  using maybe_contains_built [OF assms] bloom_index_in_range [OF assms] by blast

theorem bloom_no_false_negatives_witness:
  "maybe_contains (KeyBloom_build 12 [[1, 2], [3]]) [3]"
  using bloom_no_false_negatives [of "[[1, 2], [3]]" 12 "[3]"] by simp

section \<open>Persistence\<close>

lemma chunks_exact_words: "map u64_of_le (chunks_exact 8 (concat (map u64_le ws))) = ws"
  by (induction ws) (simp_all add: chunks_exact_append chunks_exact_short)

lemma pow2_from_fix: "pow2_from (2 ^ j) (2 ^ k) = 2 ^ k" if "j \<le> k"
  using that
proof (induction "k - j" arbitrary: j)
  case 0
  then show ?case by (simp add: pow2_from.simps)
next
  case (Suc d)
  then have "pow2_from (2 ^ Suc j) (2 ^ k) = 2 ^ k" by (intro Suc.hyps(1)) simp_all
  with Suc show ?case by (subst pow2_from.simps) (simp add: power_le_imp_le_exp not_le)
qed

lemma is_power_of_two_pow: "is_power_of_two (2 ^ k)"
  using pow2_from_fix [of 0 k] by (simp add: is_power_of_two_def next_power_of_two_def)

lemma concat_u64_le_length [simp]: "length (concat (map u64_le ws)) = 8 * length ws"
  by (induction ws) simp_all

lemma bloom_roundtrip_aux:
  assumes "length keys * max bits_per_key 1 \<le> 2 ^ 37"
    and b: "b = KeyBloom_build bits_per_key keys"
  obtains e where "KeyBloom_encode b [] = Some e" "length e = KeyBloom_encoded_len b"
    "KeyBloom_decode (e @ rest) = Inr (b, length e)"
proof -
  have c: "9 \<le> (37 :: nat)" "37 \<le> (63 :: nat)" by simp_all
  from KeyBloom_build_shape [OF assms(1) c, folded b] obtain k where k: "9 \<le> k" "k \<le> 37" "kb_mask b = mask k"
    "length (kb_bits b) = 2 ^ (k - 6)" by blast
  let ?e = "[of_nat BLOOM_HASHES] @ u32_le (of_nat (length (kb_bits b))) @ concat (map u64_le (kb_bits b))"
  have "(2 :: nat) ^ (k - 6) \<le> 2 ^ 31" using k by (intro power_increasing) simp_all
  then have small: "length (kb_bits b) < 2 ^ 32" using k by simp
  then have wc: "unat (of_nat (length (kb_bits b)) :: u32) = length (kb_bits b)" by (simp add: unsigned_of_nat take_bit_nat_eq_self)
  have "length (kb_bits b) * 64 = 2 ^ k" using k power_add [of "2 :: nat" "k - 6" 6] by simp
  moreover have "(2 :: nat) ^ k \<le> 2 ^ 37" using k by (intro power_increasing) simp_all
  ultimately have bc: "min (length (kb_bits b) * 64) (2 ^ 64 - 1) = 2 ^ k" by simp
  have mk: "of_nat (2 ^ k) - 1 = kb_mask b" using k by (simp add: word_mask_pow del: of_nat_power)
  have sl: "sub_slice 5 (5 + length (kb_bits b) * 8) (?e @ rest) = concat (map u64_le (kb_bits b))"
    by (simp add: sub_slice_def mult.commute)
  have ne: "length (kb_bits b) \<noteq> 0" using k(4) by simp
  have e: "?e @ rest = of_nat BLOOM_HASHES # (u32_le (of_nat (length (kb_bits b))) @ concat (map u64_le (kb_bits b)) @ rest)"
    by simp
  have "KeyBloom_decode (?e @ rest) = Inr (b, length ?e)"
    unfolding KeyBloom_decode_def sl [unfolded e] e list.case
    by (simp add: BLOOM_HASHES_def Let_def wc ne [simplified] bc [simplified] is_power_of_two_pow mk sl [unfolded e BLOOM_HASHES_def, simplified]
        chunks_exact_words mult.commute del: of_nat_power)
  with small show thesis by (intro that [of ?e]) (simp_all add: KeyBloom_encode_def KeyBloom_encoded_len_def mult.commute)
qed

text \<open>
  The persisted segment Bloom round-trips: a filter whose bit count fits the \<open>u32\<close> word count
  (the key count times the knob at most \<open>2 ^ 37\<close>) encodes without panicking into exactly
  \<open>encoded_len\<close> bytes, and decoding those bytes, whatever follows them, gives back the same filter
  and the number of bytes consumed.
\<close>

theorem bloom_persist_roundtrip:
  assumes "length keys * max bits_per_key 1 \<le> 2 ^ 37"
  shows "\<exists>e. KeyBloom_encode (KeyBloom_build bits_per_key keys) [] = Some e \<and>
    length e = KeyBloom_encoded_len (KeyBloom_build bits_per_key keys) \<and>
    KeyBloom_decode (e @ rest) = Inr (KeyBloom_build bits_per_key keys, length e)"
  using bloom_roundtrip_aux [OF assms refl] by metis

theorem bloom_persist_roundtrip_witness:
  "\<exists>e. KeyBloom_encode (KeyBloom_build 12 [[1, 2], [3]]) [] = Some e \<and>
    length e = KeyBloom_encoded_len (KeyBloom_build 12 [[1, 2], [3]]) \<and>
    KeyBloom_decode (e @ [7]) = Inr (KeyBloom_build 12 [[1, 2], [3]], length e)"
  by (rule bloom_persist_roundtrip) simp

end
