(* ===== verification/Validity_Index.thy ===== *)
theory Validity_Index
  imports Close_Record Bloom Btree_Map
begin

text \<open>
  The validity index (\<open>validity/index.rs\<close>, \<open>validity/spill.rs\<close>): the write-once map from a version's
  identity to its materialised system-time end, resident entries in a \<open>BTreeMap\<close>, older ones frozen
  into spill files with an in-memory key-range and Bloom summary. The index owns its disk; since the
  disk carries an arbitrary fault schedule, a lookup returns the state it leaves behind as well.
  The abstraction \<open>vi_abs\<close> is the plain map the index stands for.
\<close>

section \<open>Spill files\<close>

record spill_meta =
  sm_index :: nat
  sm_min_key :: bytes
  sm_max_key :: bytes
  sm_bloom :: key_bloom

definition may_contain :: "spill_meta \<Rightarrow> bytes \<Rightarrow> bool" where
  "may_contain m key \<longleftrightarrow> sm_min_key m \<le> key \<and> key \<le> sm_max_key m \<and> maybe_contains (sm_bloom m) key"

text \<open>The checked accumulation of the encoded lengths, and the encoding loop.\<close>

fun closes_total :: "nat \<Rightarrow> close list \<Rightarrow> nat option" where
  "closes_total acc [] = Some acc"
| "closes_total acc (c # cs) =
     (let t = acc + Close_encoded_size c in if t < 2 ^ 64 then closes_total t cs else None)"

fun encode_closes :: "close list \<Rightarrow> bytes \<Rightarrow> validity_error + bytes" where
  "encode_closes [] buf = Inr buf"
| "encode_closes (c # cs) buf = result_bind (Close_encode c buf) (encode_closes cs)"

text \<open>\<open>write_spill\<close>; its \<open>expect\<close> on an empty batch is an error value no caller meets.\<close>

definition validity_write_spill :: "nat \<Rightarrow> close list \<Rightarrow> mem_disk \<Rightarrow> (validity_error + spill_meta) \<times> mem_disk" where
  "validity_write_spill index closes d =
     (let name = validity_spill_name index in
      case disk_create name d of
        (Inl e, d1) \<Rightarrow> (Inl (VIo e), d1)
      | (Inr file, d1) \<Rightarrow>
          (case closes_total 0 closes of
             None \<Rightarrow> (Inl (VIo (IoError InvalidData (name @ '' total encoded length overflows u64''))), d1)
           | Some total_len \<Rightarrow>
               (case encode_closes closes [] of
                  Inl e \<Rightarrow> (Inl e, d1)
                | Inr buf \<Rightarrow>
                    (case file_append file buf d1 of
                       (Inl e, d2) \<Rightarrow> (Inl (VIo e), d2)
                     | (Inr _, d2) \<Rightarrow>
                         (case file_sync file d2 of
                            (Inl e, d3) \<Rightarrow> (Inl (VIo e), d3)
                          | (Inr _, d3) \<Rightarrow>
                              if closes = [] then (Inl (VCorrupt ''write_spill called with no closes''), d3)
                              else (Inr \<lparr>sm_index = index,
                                         sm_min_key = cl_business_key (hd closes),
                                         sm_max_key = cl_business_key (last closes),
                                         sm_bloom = KeyBloom_build DEFAULT_BITS_PER_KEY (map cl_business_key closes)\<rparr>,
                                    d3))))))"

definition validity_read_spill :: "nat \<Rightarrow> mem_disk \<Rightarrow> (validity_error + close list) \<times> mem_disk" where
  "validity_read_spill index d =
     (case read_spill_bytes (validity_spill_name index) d of
        (Inl e, d1) \<Rightarrow> (Inl (VIo e), d1)
      | (Inr buf, d1) \<Rightarrow> (decode_closes buf, d1))"

definition validity_list_spills :: "mem_disk \<Rightarrow> (io_error + nat list) \<times> mem_disk" where
  "validity_list_spills d =
     (case disk_list d of
        (Inl e, d1) \<Rightarrow> (Inl e, d1)
      | (Inr names, d1) \<Rightarrow> (Inr (sort (List.map_filter validity_spill_index_of names)), d1))"

fun validity_remove_spills :: "nat list \<Rightarrow> mem_disk \<Rightarrow> (io_error + unit) \<times> mem_disk" where
  "validity_remove_spills [] d = (Inr (), d)"
| "validity_remove_spills (idx # rest) d =
     (case disk_remove (validity_spill_name idx) d of
        (Inr _, d1) \<Rightarrow> validity_remove_spills rest d1
      | (Inl e, d1) \<Rightarrow> if io_kind e = NotFound then validity_remove_spills rest d1 else (Inl e, d1))"

definition validity_discard_stale_spills :: "mem_disk \<Rightarrow> (io_error + unit) \<times> mem_disk" where
  "validity_discard_stale_spills d =
     (case validity_list_spills d of
        (Inl e, d1) \<Rightarrow> (Inl e, d1)
      | (Inr idxs, d1) \<Rightarrow> validity_remove_spills idxs d1)"

section \<open>The index\<close>

text \<open>The \<open>u64\<close> byte counter saturates; it is kept as a natural number below \<open>2 ^ 64\<close>.\<close>

record validity_index =
  vi_disk :: mem_disk
  vi_threshold :: nat
  vi_mem :: "(version_key, closed_interval) btree"
  vi_byte_size :: nat
  vi_next_spill :: nat
  vi_spills :: "spill_meta list"

datatype upper_bound = Bounded i64 | Unbounded

definition superseded_at_or_before :: "upper_bound \<Rightarrow> i64 \<Rightarrow> bool" where
  "superseded_at_or_before b snapshot =
     (case b of Bounded max_sys_to \<Rightarrow> max_sys_to \<le> snapshot | Unbounded \<Rightarrow> False)"

definition u64_saturating_add :: "nat \<Rightarrow> nat \<Rightarrow> nat" where
  "u64_saturating_add a b = min (a + b) (2 ^ 64 - 1)"

definition ValidityIndex_open :: "mem_disk \<Rightarrow> nat \<Rightarrow> (validity_error + validity_index) \<times> mem_disk" where
  "ValidityIndex_open d threshold =
     (case validity_list_spills d of
        (Inl e, d1) \<Rightarrow> (Inl (VIo e), d1)
      | (Inr existing, d1) \<Rightarrow>
          (let next_spill_index = (if existing = [] then 0 else last existing + 1) in
           case validity_discard_stale_spills d1 of
             (Inl e, d2) \<Rightarrow> (Inl (VIo e), d2)
           | (Inr _, d2) \<Rightarrow>
               (Inr \<lparr>vi_disk = d2, vi_threshold = threshold, vi_mem = bt_empty, vi_byte_size = 0,
                     vi_next_spill = next_spill_index, vi_spills = []\<rparr>, d2)))"

fun close_of_spills :: "version_key \<Rightarrow> spill_meta list \<Rightarrow> mem_disk \<Rightarrow>
    (validity_error + closed_interval option) \<times> mem_disk" where
  "close_of_spills k [] d = (Inr None, d)"
| "close_of_spills k (m # ms) d =
     (if \<not> may_contain m (fst k) then close_of_spills k ms d
      else (case validity_read_spill (sm_index m) d of
              (Inl e, d1) \<Rightarrow> (Inl e, d1)
            | (Inr closes, d1) \<Rightarrow>
                (case find (\<lambda>c. close_target c = k) closes of
                   Some c \<Rightarrow> (Inr (Some (close_interval c)), d1)
                 | None \<Rightarrow> close_of_spills k ms d1)))"

definition close_of :: "version_key \<Rightarrow> validity_index \<Rightarrow>
    (validity_error + closed_interval option) \<times> validity_index" where
  "close_of k s =
     (case bt_get (vi_mem s) k of
        Some interval \<Rightarrow> (Inr (Some interval), s)
      | None \<Rightarrow> (case close_of_spills k (vi_spills s) (vi_disk s) of (r, d) \<Rightarrow> (r, s\<lparr>vi_disk := d\<rparr>)))"

text \<open>The entry of a resident binding, as the spill writer and \<open>remove_close\<close> rebuild it.\<close>

fun entry_close :: "version_key \<times> closed_interval \<Rightarrow> close" where
  "entry_close ((business_key, sys_from, seq), interval) =
     \<lparr>cl_business_key = business_key, cl_sys_from = sys_from, cl_seq = seq,
      cl_sys_to = ci_sys_to interval, cl_closed_by = ci_closed_by interval\<rparr>"

definition validity_spill_in_memory :: "validity_index \<Rightarrow> (validity_error + unit) \<times> validity_index" where
  "validity_spill_in_memory s =
     (if vi_mem s = [] then (Inr (), s)
      else (let closes = map entry_close (vi_mem s);
                idx = vi_next_spill s;
                s1 = s\<lparr>vi_next_spill := idx + 1\<rparr>
            in case validity_write_spill idx closes (vi_disk s1) of
                 (Inl e, d) \<Rightarrow> (Inl e, s1\<lparr>vi_disk := d\<rparr>)
               | (Inr meta, d) \<Rightarrow>
                   (Inr (), s1\<lparr>vi_disk := d, vi_spills := vi_spills s1 @ [meta], vi_mem := bt_empty,
                              vi_byte_size := 0\<rparr>)))"

definition insert_close_inner :: "close \<Rightarrow> bool \<Rightarrow> validity_index \<Rightarrow> (validity_error + unit) \<times> validity_index" where
  "insert_close_inner c allow_spill s =
     (case Close_check_encodable c of
        Inl e \<Rightarrow> (Inl e, s)
      | Inr _ \<Rightarrow>
          (case close_of (close_target c) s of
             (Inl e, s1) \<Rightarrow> (Inl e, s1)
           | (Inr (Some existing), s1) \<Rightarrow>
               if existing = close_interval c then (Inr (), s1) else (Inl AlreadyClosed, s1)
           | (Inr None, s1) \<Rightarrow>
               (let incoming = Close_encoded_size c;
                    projected = u64_saturating_add (vi_byte_size s1) incoming
                in case (if allow_spill \<and> vi_threshold s1 < projected \<and> vi_mem s1 \<noteq> []
                         then validity_spill_in_memory s1 else (Inr (), s1)) of
                     (Inl e, s2) \<Rightarrow> (Inl e, s2)
                   | (Inr _, s2) \<Rightarrow>
                       (Inr (), s2\<lparr>vi_byte_size := u64_saturating_add (vi_byte_size s2) incoming,
                                  vi_mem := bt_insert (close_target c) (close_interval c) (vi_mem s2)\<rparr>))))"

definition insert_close :: "close \<Rightarrow> validity_index \<Rightarrow> (validity_error + unit) \<times> validity_index" where
  "insert_close c = insert_close_inner c True"

definition insert_close_resident :: "close \<Rightarrow> validity_index \<Rightarrow> (validity_error + unit) \<times> validity_index" where
  "insert_close_resident c = insert_close_inner c False"

definition remove_close :: "version_key \<Rightarrow> validity_index \<Rightarrow> bool \<times> validity_index" where
  "remove_close k s =
     (case bt_get (vi_mem s) k of
        None \<Rightarrow> (False, s)
      | Some interval \<Rightarrow>
          (True, s\<lparr>vi_mem := bt_remove k (vi_mem s),
                  vi_byte_size := vi_byte_size s - Close_encoded_size (entry_close (k, interval))\<rparr>))"

section \<open>Lookups\<close>

definition key_range :: "bytes \<Rightarrow> version_key \<times> version_key" where
  "key_range key = ((key, I64_MIN, 0), (key, I64_MAX, U64_MAX))"

definition mem_range :: "bytes \<Rightarrow> (version_key, 'v) btree \<Rightarrow> (version_key, 'v) btree" where
  "mem_range key m = bt_range (fst (key_range key)) (snd (key_range key)) m"

definition closes_for :: "bytes \<Rightarrow> validity_index \<Rightarrow>
    (validity_error + (i64 \<times> u64, closed_interval) btree) \<times> validity_index" where
  "closes_for key s =
     (case spill_loop (\<lambda>m. validity_read_spill (sm_index m))
             (\<lambda>c out. if cl_business_key c = key then bt_insert (cl_sys_from c, cl_seq c) (close_interval c) out else out)
             (filter (\<lambda>m. may_contain m key) (vi_spills s)) bt_empty (vi_disk s) of
        (Inl e, d) \<Rightarrow> (Inl e, s\<lparr>vi_disk := d\<rparr>)
      | (Inr out, d) \<Rightarrow>
          (Inr (fold (\<lambda>e. bt_insert (snd (fst e)) (snd e)) (mem_range key (vi_mem s)) out), s\<lparr>vi_disk := d\<rparr>))"

definition materialize :: "validity_index \<Rightarrow>
    (validity_error + (version_key, closed_interval) btree) \<times> validity_index" where
  "materialize s =
     (case spill_loop (\<lambda>m. validity_read_spill (sm_index m))
             (\<lambda>c. bt_insert (close_target c) (close_interval c)) (vi_spills s) bt_empty (vi_disk s) of
        (Inl e, d) \<Rightarrow> (Inl e, s\<lparr>vi_disk := d\<rparr>)
      | (Inr out, d) \<Rightarrow> (Inr (fold (\<lambda>e. bt_insert (fst e) (snd e)) (vi_mem s) out), s\<lparr>vi_disk := d\<rparr>))"

text \<open>A \<open>BTreeSet\<close> of keys is its ascending list.\<close>

definition closes_for_keys :: "bytes list \<Rightarrow> validity_index \<Rightarrow>
    (validity_error + (version_key, closed_interval) btree) \<times> validity_index" where
  "closes_for_keys keys s =
     (let selected = filter (\<lambda>m. list_ex (may_contain m) keys) (vi_spills s)
      in if selected \<noteq> [] \<and> length selected = length (vi_spills s) then materialize s
         else (case spill_loop (\<lambda>m. validity_read_spill (sm_index m))
                      (\<lambda>c out. if cl_business_key c \<in> set keys
                               then bt_insert (close_target c) (close_interval c) out else out)
                      selected bt_empty (vi_disk s) of
                 (Inl e, d) \<Rightarrow> (Inl e, s\<lparr>vi_disk := d\<rparr>)
               | (Inr out, d) \<Rightarrow>
                   (Inr (fold (\<lambda>key. fold (\<lambda>e. bt_insert (key, snd (fst e)) (snd e)) (mem_range key (vi_mem s))) keys out),
                    s\<lparr>vi_disk := d\<rparr>)))"

definition active_at :: "bytes \<Rightarrow> i64 \<Rightarrow> validity_index \<Rightarrow>
    (validity_error + (i64 \<times> u64) option) \<times> validity_index" where
  "active_at key t s =
     (case closes_for key s of
        (Inl e, s1) \<Rightarrow> (Inl e, s1)
      | (Inr closes, s1) \<Rightarrow>
          (Inr (case bt_last_le (t, U64_MAX) closes of
                  None \<Rightarrow> None
                | Some (k, interval) \<Rightarrow> if t < ci_sys_to interval then Some k else None), s1))"

fun upper_bound_loop :: "version_key list \<Rightarrow> i64 \<Rightarrow> validity_index \<Rightarrow> (validity_error + upper_bound) \<times> validity_index" where
  "upper_bound_loop [] max_sys_to s = (Inr (Bounded max_sys_to), s)"
| "upper_bound_loop (k # ks) max_sys_to s =
     (case bt_get (vi_mem s) k of
        Some interval \<Rightarrow> upper_bound_loop ks (max max_sys_to (ci_sys_to interval)) s
      | None \<Rightarrow>
          if vi_spills s = [] then (Inr Unbounded, s)
          else (case close_of k s of
                  (Inl e, s1) \<Rightarrow> (Inl e, s1)
                | (Inr (Some interval), s1) \<Rightarrow> upper_bound_loop ks (max max_sys_to (ci_sys_to interval)) s1
                | (Inr None, s1) \<Rightarrow> (Inr Unbounded, s1)))"

definition sys_upper_bound :: "version_key list \<Rightarrow> validity_index \<Rightarrow> (validity_error + upper_bound) \<times> validity_index" where
  "sys_upper_bound versions s = upper_bound_loop versions I64_MIN s"

definition vi_len :: "validity_index \<Rightarrow> (validity_error + nat) \<times> validity_index" where
  "vi_len s = (case materialize s of (Inl e, s1) \<Rightarrow> (Inl e, s1) | (Inr m, s1) \<Rightarrow> (Inr (length m), s1))"

definition vi_is_empty :: "validity_index \<Rightarrow> bool" where
  "vi_is_empty s \<longleftrightarrow> vi_mem s = [] \<and> vi_spills s = []"

definition vi_spill_count :: "validity_index \<Rightarrow> nat" where
  "vi_spill_count s = length (vi_spills s)"

section \<open>The abstract map and the invariant\<close>

definition spill_contents :: "mem_disk \<Rightarrow> spill_meta \<Rightarrow> close list option" where
  "spill_contents d m =
     (case file_at d (validity_spill_name (sm_index m)) of
        None \<Rightarrow> None
      | Some bs \<Rightarrow> (case decode_closes bs of Inl _ \<Rightarrow> None | Inr cs \<Rightarrow> Some cs))"

definition spilled_closes :: "validity_index \<Rightarrow> close list" where
  "spilled_closes s = concat (map (\<lambda>m. the (spill_contents (vi_disk s) m)) (vi_spills s))"

definition close_map :: "close list \<Rightarrow> version_key \<Rightarrow> closed_interval option" where
  "close_map cs = map_of (map (\<lambda>c. (close_target c, close_interval c)) cs)"

definition vi_abs :: "validity_index \<Rightarrow> version_key \<Rightarrow> closed_interval option" where
  "vi_abs s = close_map (spilled_closes s) ++ bt_get (vi_mem s)"

definition mem_bytes :: "(version_key, closed_interval) btree \<Rightarrow> nat" where
  "mem_bytes m = sum_list (map (\<lambda>e. Close_encoded_size (entry_close e)) m)"

definition spill_ok :: "mem_disk \<Rightarrow> spill_meta \<Rightarrow> bool" where
  "spill_ok d m \<longleftrightarrow> (case spill_contents d m of None \<Rightarrow> False
     | Some cs \<Rightarrow> \<forall>c \<in> set cs. may_contain m (cl_business_key c))"

definition vi_inv :: "validity_index \<Rightarrow> bool" where
  "vi_inv s \<longleftrightarrow> disk_wf (vi_disk s) \<and> bt_inv (vi_mem s) \<and>
     (\<forall>m \<in> set (vi_spills s). spill_ok (vi_disk s) m \<and> sm_index m < vi_next_spill s) \<and>
     distinct (map close_target (spilled_closes s)) \<and>
     set (map close_target (spilled_closes s)) \<inter> set (map fst (vi_mem s)) = {} \<and>
     vi_byte_size s \<le> mem_bytes (vi_mem s)"

text \<open>Two index states that differ at most in the fault schedule of their disk.\<close>

definition vi_same :: "validity_index \<Rightarrow> validity_index \<Rightarrow> bool" where
  "vi_same s s' \<longleftrightarrow> (\<exists>d. disk_same (vi_disk s) d \<and> s' = s\<lparr>vi_disk := d\<rparr>)"

section \<open>Spill files\<close>

lemma spill_contents_same: "disk_same d d' \<Longrightarrow> spill_contents d' m = spill_contents d m"
  by (simp add: spill_contents_def disk_same_views(1) [of d d'])

interpretation vspill: spill_reader "\<lambda>m. validity_read_spill (sm_index m)" spill_contents
proof
  fix m :: spill_meta and d r d' assume r: "validity_read_spill (sm_index m) d = (r, d')"
  obtain q d1 where q: "read_spill_bytes (validity_spill_name (sm_index m)) d = (q, d1)"
    by (cases "read_spill_bytes (validity_spill_name (sm_index m)) d")
  have d1: "d' = d1" using r q by (cases q) (simp_all add: validity_read_spill_def)
  with q show "disk_same d d'" using read_spill_bytes_same by simp
next
  fix m :: spill_meta and d xs d' assume r: "validity_read_spill (sm_index m) d = (Inr xs, d')"
  then obtain bs where "read_spill_bytes (validity_spill_name (sm_index m)) d = (Inr bs, d')" "decode_closes bs = Inr xs"
    by (auto simp: validity_read_spill_def split: sum.splits prod.splits)
  then show "spill_contents d m = Some xs" by (simp add: spill_contents_def read_spill_bytes_Inr)
next
  fix m d xs assume "no_faults d" "spill_contents d m = Some xs"
  then show "validity_read_spill (sm_index m) d = (Inr xs, d)"
    by (auto simp: spill_contents_def validity_read_spill_def read_spill_bytes_no_faults validate_spill_name
        split: option.splits sum.splits)
qed (rule spill_contents_same)

lemma encode_closes_frames:
  "encode_closes cs buf = Inr out \<Longrightarrow> list_all close_encodable cs \<and> out = buf @ concat (map close_frame cs)"
proof (induction cs arbitrary: buf)
  case (Cons c cs)
  then have "close_encodable c" "encode_closes cs (buf @ close_frame c) = Inr out"
    by (auto simp: Close_encode_frame split: if_splits)
  with Cons.IH [of "buf @ close_frame c"] show ?case by simp
qed simp

lemma closes_total_Some:
  "closes_total acc cs = Some n \<Longrightarrow> n = acc + sum_list (map Close_encoded_size cs) \<and> (cs \<noteq> [] \<longrightarrow> n < 2 ^ 64)"
proof (induction cs arbitrary: acc)
  case (Cons c cs)
  then have "acc + Close_encoded_size c < 2 ^ 64" "closes_total (acc + Close_encoded_size c) cs = Some n"
    by (simp_all add: Let_def split: if_splits)
  with Cons.IH [of "acc + Close_encoded_size c"] show ?case by (cases cs) simp_all
qed simp

lemma closes_count_bound: "length cs * 48 \<le> sum_list (map Close_encoded_size cs)"
  by (induction cs) (simp_all add: Close_encoded_size_def CLOSE_HEADER_LEN_def)

lemma write_spill_frame:
  assumes "validity_write_spill idx cs d = (r, d')" "disk_wf d"
  shows "disk_wf d'" "n \<noteq> validity_spill_name idx \<Longrightarrow> file_at d' n = file_at d n"
proof -
  let ?name = "validity_spill_name idx"
  obtain q d1 where q: "disk_create ?name d = (q, d1)" by (cases "disk_create ?name d")
  note c = disk_create_effect [OF q assms(2)]
  have "disk_wf d' \<and> (n \<noteq> ?name \<longrightarrow> file_at d' n = file_at d n)"
  proof (cases "\<exists>f buf. q = Inr f \<and> closes_total 0 cs \<noteq> None \<and> encode_closes cs [] = Inr buf")
    case False
    then have "d' = d1" using assms(1) q
      by (auto simp: validity_write_spill_def Let_def split: sum.splits option.splits prod.splits)
    with c show ?thesis by simp
  next
    case True
    then obtain f buf where f: "q = Inr f" "closes_total 0 cs \<noteq> None" "encode_closes cs [] = Inr buf" by auto
    obtain a d2 where a: "file_append f buf d1 = (a, d2)" by (cases "file_append f buf d1")
    have name: "map_of (md_names d1) ?name = Some f" using c(3) [OF f(1)] by simp
    note e = file_append_effect [OF a c(1) name]
    have "d' = d2 \<or> (\<exists>u. file_sync f d2 = (u, d'))"
      using assms(1) q f a by (auto simp: validity_write_spill_def Let_def split: sum.splits option.splits prod.splits if_splits)
    then have "disk_same d2 d'" using disk_sync_fields(1) by (auto simp: disk_same_def)
    then show ?thesis using e c by (simp add: disk_same_views [of d2 d'])
  qed
  then show "disk_wf d'" "n \<noteq> ?name \<Longrightarrow> file_at d' n = file_at d n" by auto
qed

lemma write_spill_Inr:
  assumes "validity_write_spill idx cs d = (Inr meta, d')" "disk_wf d"
  shows "list_all close_encodable cs" "cs \<noteq> []"
    "file_at d' (validity_spill_name idx) = Some (concat (map close_frame cs))"
    "sum_list (map Close_encoded_size cs) < 2 ^ 64"
    "meta = \<lparr>sm_index = idx, sm_min_key = cl_business_key (hd cs), sm_max_key = cl_business_key (last cs),
       sm_bloom = KeyBloom_build DEFAULT_BITS_PER_KEY (map cl_business_key cs)\<rparr>"
proof -
  let ?name = "validity_spill_name idx"
  from assms(1) obtain f d1 n buf d2 where s: "disk_create ?name d = (Inr f, d1)" "closes_total 0 cs = Some n"
    "encode_closes cs [] = Inr buf" "file_append f buf d1 = (Inr (), d2)" "file_sync f d2 = (Inr (), d')" "cs \<noteq> []"
    and meta: "meta = \<lparr>sm_index = idx, sm_min_key = cl_business_key (hd cs), sm_max_key = cl_business_key (last cs),
       sm_bloom = KeyBloom_build DEFAULT_BITS_PER_KEY (map cl_business_key cs)\<rparr>"
    by (auto simp: validity_write_spill_def Let_def split: sum.splits option.splits prod.splits if_splits)
  show "cs \<noteq> []" "meta = \<lparr>sm_index = idx, sm_min_key = cl_business_key (hd cs), sm_max_key = cl_business_key (last cs),
       sm_bloom = KeyBloom_build DEFAULT_BITS_PER_KEY (map cl_business_key cs)\<rparr>" by (fact s meta)+
  note c = disk_create_effect [OF s(1) assms(2)]
  have name: "map_of (md_names d1) ?name = Some f" "file_at d1 ?name = Some []" using c(3) by simp_all
  note e = file_append_effect [OF s(4) c(1) name(1)]
  have "disk_same d2 d'" using disk_sync_fields(1) [OF s(5)] by (auto simp: disk_same_def)
  then have "file_at d' ?name = Some buf" using e(4) name(2) by (simp add: disk_same_views [of d2 d'])
  then show "list_all close_encodable cs" "file_at d' ?name = Some (concat (map close_frame cs))"
    using encode_closes_frames [OF s(3)] by simp_all
  show "sum_list (map Close_encoded_size cs) < 2 ^ 64" using closes_total_Some [OF s(2)] s(6) by simp
qed

text \<open>The summary of a spill admits every key the spill holds, if the batch is in key order.\<close>

lemma summary_admits:
  assumes "cs \<noteq> []" "sorted (map cl_business_key cs)" "sum_list (map Close_encoded_size cs) < 2 ^ 64" "c \<in> set cs"
    and "meta = \<lparr>sm_index = idx, sm_min_key = cl_business_key (hd cs), sm_max_key = cl_business_key (last cs),
       sm_bloom = KeyBloom_build DEFAULT_BITS_PER_KEY (map cl_business_key cs)\<rparr>"
  shows "may_contain meta (cl_business_key c)"
proof -
  have "length cs * 48 < 2 ^ 64" using assms(3) closes_count_bound [of cs] by simp
  then have "length (map cl_business_key cs) * max DEFAULT_BITS_PER_KEY 1 \<le> 2 ^ 63"
    by (simp add: DEFAULT_BITS_PER_KEY_def)
  moreover have "cl_business_key c \<in> set (map cl_business_key cs)" using assms(4) by simp
  ultimately have "maybe_contains (KeyBloom_build DEFAULT_BITS_PER_KEY (map cl_business_key cs)) (cl_business_key c)"
    by (rule maybe_contains_built)
  moreover have "cl_business_key (hd cs) \<le> cl_business_key c"
    using assms(1,2,4) by (cases cs) auto
  moreover have "cl_business_key c \<le> cl_business_key (last cs)"
  proof -
    obtain front l where "cs = front @ [l]" using assms(1) by (cases cs rule: rev_cases) auto
    with assms(2,4) show ?thesis by (auto simp: sorted_append)
  qed
  ultimately show ?thesis using assms(5) by (simp add: may_contain_def)
qed

section \<open>States that differ in the fault schedule only\<close>

lemma vi_same_refl [simp]: "vi_same s s"
  by (auto simp: vi_same_def intro: exI [of _ "vi_disk s"])

lemma vi_same_disk: "disk_same (vi_disk s) d \<Longrightarrow> vi_same s (s\<lparr>vi_disk := d\<rparr>)"
  by (auto simp: vi_same_def)

lemma vi_same_trans: "vi_same a b \<Longrightarrow> vi_same b c \<Longrightarrow> vi_same a c"
  by (fastforce simp: vi_same_def dest: disk_same_trans)

lemma vi_same_fields:
  assumes "vi_same s s'"
  shows "vi_mem s' = vi_mem s" "vi_spills s' = vi_spills s" "vi_byte_size s' = vi_byte_size s"
    "vi_next_spill s' = vi_next_spill s" "vi_threshold s' = vi_threshold s" "disk_same (vi_disk s) (vi_disk s')"
  using assms by (auto simp: vi_same_def)

lemma vi_same_views:
  assumes "vi_same s s'"
  shows "spilled_closes s' = spilled_closes s" "vi_abs s' = vi_abs s" "vi_inv s' = vi_inv s"
proof -
  note f = vi_same_fields [OF assms]
  have c: "spill_contents (vi_disk s') = spill_contents (vi_disk s)" using spill_contents_same [OF f(6)] by (rule ext)
  show sp: "spilled_closes s' = spilled_closes s" by (simp add: spilled_closes_def c f)
  then show "vi_abs s' = vi_abs s" by (simp add: vi_abs_def f)
  show "vi_inv s' = vi_inv s" by (simp add: vi_inv_def sp f spill_ok_def c disk_same_views(2) [OF f(6)])
qed

section \<open>Lookups\<close>

lemma close_map_Nil [simp]: "close_map [] = Map.empty"
  by (simp add: close_map_def)

lemma close_map_append: "close_map (xs @ ys) = close_map ys ++ close_map xs"
  by (simp add: close_map_def)

lemma dom_close_map: "dom (close_map cs) = set (map close_target cs)"
  by (simp add: close_map_def dom_map_of_conv_image_fst image_image)

lemma dom_bt_get: "dom (bt_get m) = set (map fst m)"
  by (simp add: bt_get_def [abs_def] dom_map_of_conv_image_fst)

lemma close_map_find:
  "close_map cs k = map_option close_interval (find (\<lambda>c. close_target c = k) cs)"
  by (induction cs) (auto simp: close_map_def)

lemma close_map_target: "close_map cs k = Some i \<Longrightarrow> \<exists>c \<in> set cs. close_target c = k \<and> close_interval c = i"
  by (auto simp: close_map_def dest!: map_of_SomeD)

lemma spill_ok_same: "disk_same d d' \<Longrightarrow> spill_ok d' m = spill_ok d m"
  by (simp add: spill_ok_def spill_contents_same)

lemma spill_skip:
  assumes "spill_ok d m" "\<not> may_contain m (fst k)"
  shows "close_map (the (spill_contents d m)) k = None"
proof (rule ccontr)
  assume "close_map (the (spill_contents d m)) k \<noteq> None"
  then obtain c where "c \<in> set (the (spill_contents d m))" "close_target c = k"
    using close_map_target by blast
  with assms show False by (auto simp: spill_ok_def close_target_def split: option.splits)
qed

lemma close_of_spills_spec:
  "\<forall>m \<in> set ms. spill_ok d m \<Longrightarrow> close_of_spills k ms d = (r, d') \<Longrightarrow>
     disk_same d d' \<and> (\<forall>v. r = Inr v \<longrightarrow> v = close_map (concat (map (\<lambda>m. the (spill_contents d m)) ms)) k)"
proof (induction ms arbitrary: d)
  case (Cons m ms)
  let ?cs = "the (spill_contents d m)"
  show ?case
  proof (cases "may_contain m (fst k)")
    case False
    with Cons show ?thesis using spill_skip [of d m k] by (simp add: close_map_append map_add_def split: option.splits)
  next
    case True
    obtain q d1 where q: "validity_read_spill (sm_index m) d = (q, d1)" by (cases "validity_read_spill (sm_index m) d")
    note same = vspill.read_same [OF q]
    show ?thesis
    proof (cases q)
      case (Inl e)
      with True q same Cons.prems show ?thesis by auto
    next
      case (Inr cs)
      then have cs: "spill_contents d m = Some cs" using q vspill.read_Inr by simp
      have c1: "spill_contents d1 = spill_contents d" using spill_contents_same [OF same] by (rule ext)
      show ?thesis
      proof (cases "find (\<lambda>c. close_target c = k) cs")
        case (Some c)
        with True q Inr same Cons.prems cs show ?thesis
          by (auto simp: close_map_append close_map_find map_add_def)
      next
        case None
        have "\<forall>m \<in> set ms. spill_ok d1 m" using Cons.prems(1) by (simp add: spill_ok_same [OF same])
        moreover have "close_of_spills k ms d1 = (r, d')" using True q Inr None Cons.prems(2) by simp
        ultimately have "disk_same d1 d' \<and> (\<forall>v. r = Inr v \<longrightarrow> v = close_map (concat (map (\<lambda>m. the (spill_contents d1 m)) ms)) k)"
          by (rule Cons.IH)
        then show ?thesis using same cs None
          by (auto simp: c1 close_map_append close_map_find [of cs] map_add_def intro: disk_same_trans split: option.splits)
      qed
    qed
  qed
qed auto

lemma close_of_spills_live:
  "no_faults d \<Longrightarrow> \<forall>m \<in> set ms. spill_ok d m \<Longrightarrow> \<exists>v. close_of_spills k ms d = (Inr v, d)"
proof (induction ms)
  case (Cons m ms)
  then obtain cs where "spill_contents d m = Some cs" by (auto simp: spill_ok_def split: option.splits)
  with Cons vspill.read_live [of d m cs] show ?case by (auto split: option.splits)
qed simp

lemma close_of_spec:
  assumes "vi_inv s" "close_of k s = (r, s')"
  shows "vi_same s s'" "r = Inr v \<Longrightarrow> v = vi_abs s k"
proof -
  have ok: "\<forall>m \<in> set (vi_spills s). spill_ok (vi_disk s) m" using assms(1) by (simp add: vi_inv_def)
  obtain q d where q: "close_of_spills k (vi_spills s) (vi_disk s) = (q, d)"
    by (cases "close_of_spills k (vi_spills s) (vi_disk s)")
  note spec = close_of_spills_spec [OF ok q]
  show "vi_same s s'" using assms(2) q spec
    by (auto simp: close_of_def vi_same_disk split: option.splits)
  show "r = Inr v \<Longrightarrow> v = vi_abs s k"
    using assms(2) q spec by (auto simp: close_of_def vi_abs_def spilled_closes_def map_add_def split: option.splits)
qed

lemma close_of_live:
  assumes "vi_inv s" "no_faults (vi_disk s)"
  shows "close_of k s = (Inr (vi_abs s k), s)"
proof -
  have ok: "\<forall>m \<in> set (vi_spills s). spill_ok (vi_disk s) m" using assms(1) by (simp add: vi_inv_def)
  from close_of_spills_live [OF assms(2) ok, of k]
  obtain v where "close_of_spills k (vi_spills s) (vi_disk s) = (Inr v, vi_disk s)" by blast
  then obtain w where w: "close_of k s = (Inr w, s)" by (cases "bt_get (vi_mem s) k") (simp_all add: close_of_def)
  with close_of_spec(2) [OF assms(1) w] show ?thesis by simp
qed

section \<open>Spilling\<close>

lemma entry_close_simps [simp]:
  "close_target (entry_close e) = fst e" "close_interval (entry_close e) = snd e"
  "cl_business_key (entry_close e) = fst (fst e)"
  by (cases e rule: entry_close.cases; simp add: close_target_def close_interval_def)+

lemma entry_close_of [simp]: "entry_close (close_target c, close_interval c) = c"
  by (simp add: close_target_def close_interval_def)

lemma close_map_entries: "close_map (map entry_close m) = bt_get m"
  by (simp add: close_map_def bt_get_def [abs_def] comp_def)

lemma sorted_business_keys:
  assumes "bt_inv (m :: (version_key, 'v) btree)"
  shows "sorted (map (\<lambda>e. fst (fst e)) m)"
proof -
  have "sorted_wrt (\<lambda>a b. fst a \<le> fst b) (map fst m)"
    using assms unfolding bt_inv_def
    by (rule sorted_wrt_mono_rel [rotated]) (auto simp: less_prod_def less_eq_prod_def)
  then show ?thesis by (simp add: sorted_wrt_map comp_def)
qed

lemma mem_bytes_sum: "sum_list (map Close_encoded_size (map entry_close m)) = mem_bytes m"
  by (simp add: mem_bytes_def comp_def)

lemma spill_in_memory_spec:
  assumes "vi_inv s" "validity_spill_in_memory s = (r, s')"
  shows "vi_inv s'" "vi_abs s' = vi_abs s" "r = Inr () \<Longrightarrow> vi_mem s' = []"
    "r = Inl e \<Longrightarrow> vi_mem s' = vi_mem s" "vi_threshold s' = vi_threshold s"
proof -
  have "vi_inv s' \<and> vi_abs s' = vi_abs s \<and> (r = Inr () \<longrightarrow> vi_mem s' = []) \<and> (r = Inl e \<longrightarrow> vi_mem s' = vi_mem s) \<and>
      vi_threshold s' = vi_threshold s"
  proof (cases "vi_mem s = []")
    case True
    with assms show ?thesis by (simp add: validity_spill_in_memory_def)
  next
    case False
    let ?cs = "map entry_close (vi_mem s)" and ?i = "vi_next_spill s"
    obtain q d where q: "validity_write_spill ?i ?cs (vi_disk s) = (q, d)"
      by (cases "validity_write_spill ?i ?cs (vi_disk s)")
    have wf: "disk_wf (vi_disk s)" using assms(1) by (simp add: vi_inv_def)
    note fr = write_spill_frame [OF q wf]
    have old: "spill_contents d m = spill_contents (vi_disk s) m" if "m \<in> set (vi_spills s)" for m
    proof -
      have "sm_index m \<noteq> ?i" using that assms(1) by (auto simp: vi_inv_def)
      then show ?thesis using fr(2) by (simp add: spill_contents_def)
    qed
    then have old_sp: "concat (map (\<lambda>m. the (spill_contents d m)) (vi_spills s)) = spilled_closes s"
      unfolding spilled_closes_def by (metis (no_types, lifting) map_eq_conv)
    have old_ok: "\<forall>m \<in> set (vi_spills s). spill_ok d m \<and> sm_index m < Suc ?i"
      using assms(1) old by (fastforce simp: vi_inv_def spill_ok_def)
    show ?thesis
    proof (cases q)
      case (Inl e')
      then have s': "s' = s\<lparr>vi_next_spill := Suc ?i, vi_disk := d\<rparr>" "r = Inl e'"
        using assms(2) False q by (simp_all add: validity_spill_in_memory_def Let_def)
      then have sp: "spilled_closes s' = spilled_closes s" using old_sp by (simp add: spilled_closes_def)
      have "vi_inv s'" using assms(1) fr(1) old_ok unfolding vi_inv_def sp by (simp add: s')
      with sp s' show ?thesis by (simp add: vi_abs_def)
    next
      case (Inr meta)
      then have w: "validity_write_spill ?i ?cs (vi_disk s) = (Inr meta, d)" using q by simp
      note wi = write_spill_Inr [OF w wf]
      have s': "s' = s\<lparr>vi_next_spill := Suc ?i, vi_disk := d, vi_spills := vi_spills s @ [meta], vi_mem := [], vi_byte_size := 0\<rparr>"
        "r = Inr ()"
        using assms(2) False q Inr by (simp_all add: validity_spill_in_memory_def Let_def bt_empty_def)
      have c: "spill_contents d meta = Some ?cs"
        using wi(3,5) close_codec.decode_all_frames [OF wi(1)] by (simp add: spill_contents_def)
      have adm: "may_contain meta (cl_business_key c)" if "c \<in> set ?cs" for c
      proof (rule summary_admits [OF wi(2) _ wi(4) that wi(5)])
        show "sorted (map cl_business_key ?cs)"
          using assms(1) sorted_business_keys by (auto simp: vi_inv_def comp_def)
      qed
      have sp: "spilled_closes s' = spilled_closes s @ ?cs" using old_sp c s' by (simp add: spilled_closes_def)
      have disj: "dom (close_map (spilled_closes s)) \<inter> dom (bt_get (vi_mem s)) = {}"
        using assms(1) by (simp add: vi_inv_def dom_close_map dom_bt_get)
      have "bt_get (vi_mem s') = Map.empty" by (simp add: s' fun_eq_iff)
      then have "vi_abs s' = vi_abs s"
        using map_add_comm [OF disj] by (simp add: vi_abs_def sp close_map_append close_map_entries)
      moreover have "distinct (map close_target (spilled_closes s'))"
        using assms(1) bt_inv_distinct [of "vi_mem s"] by (simp add: vi_inv_def sp comp_def)
      moreover have "spill_ok d meta \<and> sm_index meta < Suc ?i"
        using c adm wi(5) by (auto simp: spill_ok_def)
      ultimately show ?thesis using old_ok fr(1) s' by (auto simp: vi_inv_def)
    qed
  qed
  then show "vi_inv s'" "vi_abs s' = vi_abs s" "r = Inr () \<Longrightarrow> vi_mem s' = []" "r = Inl e \<Longrightarrow> vi_mem s' = vi_mem s"
    "vi_threshold s' = vi_threshold s"
    by auto
qed

section \<open>Inserting and removing a close\<close>

lemma mem_bytes_insert:
  assumes "bt_inv m" "bt_get m k = None"
  shows "mem_bytes (bt_insert k v m) = mem_bytes m + Close_encoded_size (entry_close (k, v))"
  using assms
proof (induction k v m rule: bt_insert.induct)
  case (2 k v k' v' m)
  then have "k \<noteq> k'" "bt_inv m" "bt_get m k = None" by (auto simp: bt_get_def bt_inv_Cons split: if_splits)
  with 2 show ?case by (auto simp: mem_bytes_def)
qed (simp add: mem_bytes_def)

lemma mem_bytes_remove:
  assumes "bt_inv m" "bt_get m k = Some v"
  shows "mem_bytes (bt_remove k m) + Close_encoded_size (entry_close (k, v)) = mem_bytes m"
proof -
  have "bt_insert k v (bt_remove k m) = m"
    using assms by (intro bt_eqI) auto
  then show ?thesis using mem_bytes_insert [of "bt_remove k m" k v] assms by simp
qed

lemma vi_abs_None:
  "vi_abs s k = None \<longleftrightarrow> k \<notin> set (map close_target (spilled_closes s)) \<and> bt_get (vi_mem s) k = None"
  unfolding vi_abs_def dom_close_map [symmetric] by auto

text \<open>Adding a resident entry for a version that is open.\<close>

definition vi_add :: "close \<Rightarrow> validity_index \<Rightarrow> validity_index" where
  "vi_add c s = s\<lparr>vi_byte_size := u64_saturating_add (vi_byte_size s) (Close_encoded_size c),
                vi_mem := bt_insert (close_target c) (close_interval c) (vi_mem s)\<rparr>"

lemma vi_add_spec:
  assumes "vi_inv s" "vi_abs s (close_target c) = None"
  shows "vi_inv (vi_add c s)" "vi_abs (vi_add c s) = (vi_abs s)(close_target c \<mapsto> close_interval c)"
proof -
  have sp: "spilled_closes (vi_add c s) = spilled_closes s" by (simp add: spilled_closes_def vi_add_def)
  note n = assms(2) [unfolded vi_abs_None]
  have "bt_inv (vi_mem s)" using assms(1) by (simp add: vi_inv_def)
  then have "mem_bytes (vi_mem (vi_add c s)) = mem_bytes (vi_mem s) + Close_encoded_size c"
    using mem_bytes_insert [of "vi_mem s" "close_target c" "close_interval c"] n by (simp add: vi_add_def)
  then have "vi_byte_size (vi_add c s) \<le> mem_bytes (vi_mem (vi_add c s))"
    using assms(1) by (simp add: vi_add_def u64_saturating_add_def vi_inv_def min.coboundedI1)
  moreover have "set (map fst (vi_mem (vi_add c s))) = insert (close_target c) (set (map fst (vi_mem s)))"
    using set_bt_insert [of "close_target c" "close_interval c" "vi_mem s"] by (simp add: vi_add_def)
  ultimately show "vi_inv (vi_add c s)" using assms(1) n unfolding vi_inv_def sp by (auto simp: vi_add_def)
  have "bt_get (vi_mem (vi_add c s)) = (bt_get (vi_mem s))(close_target c \<mapsto> close_interval c)"
    by (simp add: vi_add_def fun_eq_iff)
  then show "vi_abs (vi_add c s) = (vi_abs s)(close_target c \<mapsto> close_interval c)"
    by (simp add: vi_abs_def sp)
qed

text \<open>Only the write-once check answers \<open>AlreadyClosed\<close>.\<close>

lemma decode_closes_error: "decode_closes bs = Inl e \<Longrightarrow> e \<noteq> AlreadyClosed"
proof (induction bs rule: decode_closes.induct)
  case (1 bs)
  show ?case
  proof (cases "Close_decode bs")
    case (Inl e')
    with 1(2) have "Close_decode bs = Inl e" by (simp add: decode_closes.simps [of bs] split: if_splits)
    then show ?thesis by (auto simp: Close_decode_def Let_def split: if_splits)
  next
    case (Inr cn)
    then obtain c n where cn: "Close_decode bs = Inr (c, n)" by (cases cn) auto
    have "bs \<noteq> []" using 1(2) by (auto simp: decode_closes.simps)
    with 1(2) cn have "decode_closes (drop n bs) = Inl e"
      by (simp add: decode_closes.simps [of bs] result_simps)
    with 1(1) [OF \<open>bs \<noteq> []\<close> cn refl] show ?thesis by simp
  qed
qed

lemma read_spill_error: "validity_read_spill i d = (Inl e, d') \<Longrightarrow> e \<noteq> AlreadyClosed"
  by (auto simp: validity_read_spill_def split: sum.splits prod.splits dest: decode_closes_error)

lemma close_of_spills_error: "close_of_spills k ms d = (Inl e, d') \<Longrightarrow> e \<noteq> AlreadyClosed"
  by (induction ms arbitrary: d)
     (auto split: if_splits sum.splits prod.splits option.splits dest: read_spill_error)

lemma close_of_error: "close_of k s = (Inl e, s') \<Longrightarrow> e \<noteq> AlreadyClosed"
  by (auto simp: close_of_def split: option.splits prod.splits dest: close_of_spills_error)

lemma encode_closes_error: "encode_closes cs buf = Inl e \<Longrightarrow> e \<noteq> AlreadyClosed"
  by (induction cs arbitrary: buf) (auto simp: Close_encode_frame split: if_splits)

lemma spill_error: "validity_spill_in_memory s = (Inl e, s') \<Longrightarrow> e \<noteq> AlreadyClosed"
  by (auto simp: validity_spill_in_memory_def validity_write_spill_def Let_def
      split: if_splits sum.splits prod.splits option.splits dest: encode_closes_error)

text \<open>The whole of \<open>insert_close_inner\<close>, case by case.\<close>

lemma insert_close_inner_cases:
  assumes "vi_inv s" "insert_close_inner c allow s = (r, s')"
  obtains (too_large) "r = Inl (VTooLarge (Close_encoded_size c))" "s' = s" "\<not> close_encodable c"
  | (io) e where "r = Inl e" "e \<noteq> AlreadyClosed" "vi_inv s'" "vi_abs s' = vi_abs s" "vi_mem s' = vi_mem s"
  | (idempotent) "r = Inr ()" "vi_abs s (close_target c) = Some (close_interval c)" "vi_same s s'"
  | (conflict) i where "r = Inl AlreadyClosed" "vi_abs s (close_target c) = Some i" "i \<noteq> close_interval c" "vi_same s s'"
  | (added) s2 where "r = Inr ()" "vi_abs s (close_target c) = None" "s' = vi_add c s2" "vi_inv s2" "vi_abs s2 = vi_abs s"
      "vi_threshold s2 = vi_threshold s" "vi_mem s2 = vi_mem s \<and> vi_byte_size s2 = vi_byte_size s \<or> allow \<and> vi_mem s2 = []"
      "allow \<Longrightarrow> vi_mem s2 = [] \<or> u64_saturating_add (vi_byte_size s2) (Close_encoded_size c) \<le> vi_threshold s2"
proof (cases "Close_check_encodable c")
  case (Inl e)
  then have "e = VTooLarge (Close_encoded_size c)" by (auto simp: Close_check_encodable_def split: if_splits)
  with Inl assms(2) have "r = Inl (VTooLarge (Close_encoded_size c))" "s' = s" by (simp_all add: insert_close_inner_def)
  with Inl show thesis by (intro too_large) (simp_all add: close_encodable_def)
next
  case (Inr u)
  note enc = this
  obtain q s1 where q: "close_of (close_target c) s = (q, s1)" by (cases "close_of (close_target c) s")
  note spec = close_of_spec [OF assms(1) q] and fields = vi_same_fields [OF close_of_spec(1) [OF assms(1) q]]
  note views = vi_same_views [OF spec(1)]
  show thesis
  proof (cases q)
    case (Inl e)
    with enc q assms(2) have "r = Inl e" "s' = s1" by (simp_all add: insert_close_inner_def)
    with Inl q close_of_error views fields assms(1) show thesis by (intro io) simp_all
  next
    case (Inr v)
    show thesis
    proof (cases v)
      case (Some existing)
      then have abs: "vi_abs s (close_target c) = Some existing" using spec(2) Inr by simp
      show thesis
      proof (cases "existing = close_interval c")
        case True
        with enc q Inr Some assms(2) abs spec(1) show thesis by (intro idempotent) (simp_all add: insert_close_inner_def)
      next
        case False
        with enc q Inr Some assms(2) abs spec(1) show thesis by (intro conflict) (simp_all add: insert_close_inner_def)
      qed
    next
      case None
      then have abs: "vi_abs s (close_target c) = None" using spec(2) Inr by simp
      let ?full = "allow \<and> vi_threshold s1 < u64_saturating_add (vi_byte_size s1) (Close_encoded_size c) \<and> vi_mem s1 \<noteq> []"
      have inv1: "vi_inv s1" using views assms(1) by simp
      show thesis
      proof (cases ?full)
        case False
        with enc q Inr None assms(2) have "r = Inr ()" "s' = vi_add c s1"
          by (auto simp: insert_close_inner_def Let_def vi_add_def)
        with False abs inv1 views fields show thesis by (intro added [of s1]) auto
      next
        case True
        obtain w s2 where w: "validity_spill_in_memory s1 = (w, s2)" by (cases "validity_spill_in_memory s1")
        note sim = spill_in_memory_spec [OF inv1 w]
        show thesis
        proof (cases w)
          case (Inl e)
          with True enc q Inr None assms(2) w have "r = Inl e" "s' = s2" by (simp_all add: insert_close_inner_def Let_def)
          with sim Inl w spill_error views fields show thesis by (intro io) simp_all
        next
          case (Inr _)
          with True enc q \<open>q = Inr v\<close> None assms(2) w have "r = Inr ()" "s' = vi_add c s2"
            by (simp_all add: insert_close_inner_def Let_def vi_add_def)
          with sim Inr True abs views fields show thesis by (intro added [of s2]) simp_all
        qed
      qed
    qed
  qed
qed

lemma insert_close_inner_inv:
  assumes "vi_inv s" "insert_close_inner c allow s = (r, s')"
  shows "vi_inv s'"
  using assms(2,1)
  by (cases rule: insert_close_inner_cases [OF assms]) (simp_all add: vi_same_views(3) [of s s'] vi_add_spec)

end
