(* ===== verification/Validity_Lookups.thy ===== *)
theory Validity_Lookups
  imports Validity_Index
begin

text \<open>
  What the validity index promises: exact roll-back, exact lookups whatever has spilled, range
  containment and segment pruning, progress on a disk without faults; and the interface
  \<open>write_once_index\<close> its clients rely on.
\<close>

section \<open>Writes\<close>

text \<open>
  C29. The validity index is a write-once map under every fault schedule. From any state that satisfies
  the invariant, \<open>insert_close\<close> (spilling) and \<open>insert_close_resident\<close> keep the invariant and answer
  exactly as follows. \<open>Ok\<close>: the version was open, or already closed with the identical interval, and
  is now closed with it, every other version unchanged. \<open>AlreadyClosed\<close>: exactly when the version is
  closed with a different interval that could be read. Any other error (a record over the frame
  ceiling, an I/O failure reading or writing a spill) leaves every binding as it was: no close is lost
  by a failed spill.
\<close>

theorem validity_write_once:
  assumes "vi_inv s" "insert_close_inner c allow_spill s = (r, s')"
  shows "vi_inv s' \<and>
    (case r of
       Inr _ \<Rightarrow> vi_abs s (close_target c) \<in> {None, Some (close_interval c)} \<and>
                vi_abs s' = (vi_abs s)(close_target c \<mapsto> close_interval c)
     | Inl e \<Rightarrow> vi_abs s' = vi_abs s \<and>
                (e = AlreadyClosed \<longrightarrow> vi_abs s (close_target c) \<notin> {None, Some (close_interval c)}))"
  using assms
proof (cases rule: insert_close_inner_cases)
  case idempotent
  then show ?thesis using insert_close_inner_inv [OF assms] by (auto simp: vi_same_views(2) [of s s'])
next
  case (conflict i)
  then show ?thesis using insert_close_inner_inv [OF assms] by (auto simp: vi_same_views(2) [of s s'])
next
  case (added s2)
  then show ?thesis using insert_close_inner_inv [OF assms] vi_add_spec(2) [of s2 c] by simp
qed (use assms in auto)

lemma remove_close_spec:
  assumes "vi_inv s" "remove_close k s = (removed, s')"
  shows "vi_inv s'" "removed \<longleftrightarrow> bt_get (vi_mem s) k \<noteq> None"
    "vi_abs s' = (if removed then (vi_abs s)(k := None) else vi_abs s)"
proof -
  have inv: "bt_inv (vi_mem s)" using assms(1) by (simp add: vi_inv_def)
  have "vi_inv s' \<and> removed = (bt_get (vi_mem s) k \<noteq> None) \<and>
      vi_abs s' = (if removed then (vi_abs s)(k := None) else vi_abs s)"
  proof (cases "bt_get (vi_mem s) k")
    case None
    with assms show ?thesis by (simp add: remove_close_def)
  next
    case (Some v)
    let ?n = "Close_encoded_size (entry_close (k, v))"
    from Some assms(2) have s': "removed" "s' = s\<lparr>vi_mem := bt_remove k (vi_mem s), vi_byte_size := vi_byte_size s - ?n\<rparr>"
      by (simp_all add: remove_close_def)
    have sp: "spilled_closes s' = spilled_closes s" by (simp add: s' spilled_closes_def)
    have "k \<in> set (map fst (vi_mem s))" using Some bt_get_in_set by force
    then have out: "close_map (spilled_closes s) k = None"
      using assms(1) unfolding vi_inv_def dom_close_map [symmetric] by blast
    have "mem_bytes (bt_remove k (vi_mem s)) + ?n = mem_bytes (vi_mem s)" by (rule mem_bytes_remove [OF inv Some])
    then have "vi_byte_size s - ?n \<le> mem_bytes (bt_remove k (vi_mem s))"
      using assms(1) by (auto simp: vi_inv_def)
    moreover have "set (map fst (bt_remove k (vi_mem s))) \<subseteq> set (map fst (vi_mem s))" by (auto simp: bt_remove_def)
    ultimately have "vi_inv s'" using assms(1) unfolding vi_inv_def sp by (auto simp: s')
    moreover have "vi_abs s' = (vi_abs s)(k := None)"
      using out unfolding vi_abs_def sp by (auto simp: s' map_add_def fun_eq_iff)
    ultimately show ?thesis using s'(1) Some by simp
  qed
  then show "vi_inv s'" "removed \<longleftrightarrow> bt_get (vi_mem s) k \<noteq> None"
    "vi_abs s' = (if removed then (vi_abs s)(k := None) else vi_abs s)" by auto
qed

text \<open>
  Rolling a transaction back undoes its closes exactly: after a successful
  \<open>insert_close_resident\<close> of a version that was open, \<open>remove_close\<close> finds the entry resident, and the
  index stands for the map it stood for before, with the same resident entries and, as long as the
  byte counter did not saturate, the same byte count.
\<close>

theorem validity_rollback:
  assumes "vi_inv s" "vi_abs s (close_target c) = None" "insert_close_resident c s = (Inr (), s1)"
  shows "\<exists>s2. remove_close (close_target c) s1 = (True, s2) \<and> vi_inv s2 \<and> vi_abs s2 = vi_abs s \<and>
    vi_mem s2 = vi_mem s \<and>
    (vi_byte_size s + Close_encoded_size c < 2 ^ 64 \<longrightarrow> vi_byte_size s2 = vi_byte_size s)"
  using assms(1) assms(3) [unfolded insert_close_resident_def]
proof (cases rule: insert_close_inner_cases)
  case (added s0)
  have m: "vi_mem s0 = vi_mem s" "vi_byte_size s0 = vi_byte_size s" using added by simp_all
  obtain b s2 where r: "remove_close (close_target c) s1 = (b, s2)" by (cases "remove_close (close_target c) s1")
  have inv1: "vi_inv s1" using added vi_add_spec(1) [of s0 c] by simp
  note spec = remove_close_spec [OF inv1 r]
  have b: "b" using spec(2) added by (simp add: vi_add_def)
  have abs: "vi_abs s2 = vi_abs s"
    using spec(3) b added vi_add_spec(2) [of s0 c] assms(2) by (auto simp: fun_eq_iff)
  have "bt_get (vi_mem s) (close_target c) = None" using assms(2) by (simp add: vi_abs_None)
  then have mem: "bt_remove (close_target c) (bt_insert (close_target c) (close_interval c) (vi_mem s)) = vi_mem s"
    using assms(1) by (intro bt_remove_insert) (simp_all add: vi_inv_def)
  from r have "vi_mem s2 = vi_mem s"
    "vi_byte_size s2 = u64_saturating_add (vi_byte_size s) (Close_encoded_size c) - Close_encoded_size c"
    using added m mem by (auto simp: remove_close_def vi_add_def)
  then show ?thesis using r b abs spec(1) by (auto simp: u64_saturating_add_def)
qed (use assms in \<open>auto simp: vi_same_views\<close>)

section \<open>Folding closes into a map\<close>

lemma fold_if: "fold (\<lambda>x out. if P x then f x out else out) xs = fold f (filter P xs)"
  by (induction xs) auto

lemma fold_fold_concat: "fold (\<lambda>k. fold f (g k)) ks = fold f (concat (map g ks))"
  by (induction ks) simp_all

lemma bt_inv_fold: "bt_inv m \<Longrightarrow> bt_inv (fold (\<lambda>x. bt_insert (kf x) (vf x)) xs m)"
  by (induction xs arbitrary: m) simp_all

lemma get_fold_miss:
  "\<forall>x \<in> set xs. kf x \<noteq> k \<Longrightarrow> bt_get (fold (\<lambda>x. bt_insert (kf x) (vf x)) xs m) k = bt_get m k"
  by (induction xs arbitrary: m) auto

lemma get_fold_hit:
  assumes "x \<in> set xs" "kf x = k" "\<forall>y \<in> set xs. kf y = k \<longrightarrow> vf y = vf x"
  shows "bt_get (fold (\<lambda>x. bt_insert (kf x) (vf x)) xs m) k = Some (vf x)"
proof -
  obtain ys z zs where s: "xs = ys @ z # zs" "kf z = k" "\<forall>w \<in> set zs. kf w \<noteq> k"
    using assms(1,2) split_list_last_prop [of xs "\<lambda>x. kf x = k"] by blast
  then have "vf z = vf x" using assms(3) by simp
  with s get_fold_miss [of zs kf k vf] show ?thesis by simp
qed

lemma mem_range_filter: "mem_range key m = filter (\<lambda>e. fst (fst e) = key) m"
  unfolding mem_range_def key_range_def bt_range_def
  by (intro filter_cong refl) (auto simp: less_eq_prod_def)

lemma mem_range_get: "bt_get (mem_range key m) k = (if fst k = key then bt_get m k else None)"
  unfolding mem_range_filter by (induction m) (auto simp: bt_get_def)

lemma set_mem_range: "set (mem_range key m) = {e \<in> set m. fst (fst e) = key}"
  by (auto simp: mem_range_filter)

text \<open>The abstract map, as the union of the spilled closes and the resident entries.\<close>

lemma spilled_functional:
  assumes "vi_inv s" "c \<in> set (spilled_closes s)" "c' \<in> set (spilled_closes s)" "close_target c = close_target c'"
  shows "c = c'"
  using assms by (auto simp: vi_inv_def distinct_map dest: inj_onD)

lemma vi_abs_spilled:
  assumes "vi_inv s" "c \<in> set (spilled_closes s)"
  shows "vi_abs s (close_target c) = Some (close_interval c)"
proof -
  have "close_target c \<notin> set (map fst (vi_mem s))" using assms by (auto simp: vi_inv_def)
  then have "bt_get (vi_mem s) (close_target c) = None" unfolding dom_bt_get [symmetric] by blast
  moreover have "close_map (spilled_closes s) (close_target c) = Some (close_interval c)"
    using assms by (auto simp: close_map_def vi_inv_def comp_def intro!: map_of_is_SomeI)
  ultimately show ?thesis by (simp add: vi_abs_def map_add_def)
qed

lemma vi_abs_cases:
  assumes "vi_inv s"
  obtains (resident) i where "vi_abs s k = Some i" "(k, i) \<in> set (vi_mem s)"
  | (spilled) c where "c \<in> set (spilled_closes s)" "close_target c = k" "vi_abs s k = Some (close_interval c)"
      "\<forall>e \<in> set (vi_mem s). fst e \<noteq> k"
  | (opened) "vi_abs s k = None" "\<forall>c \<in> set (spilled_closes s). close_target c \<noteq> k" "\<forall>e \<in> set (vi_mem s). fst e \<noteq> k"
proof (cases "bt_get (vi_mem s) k")
  case (Some i)
  then show thesis by (intro resident [of i]) (simp_all add: vi_abs_def bt_get_in_set)
next
  case None
  then have mem: "\<forall>e \<in> set (vi_mem s). fst e \<noteq> k" using dom_bt_get [of "vi_mem s"] by force
  show thesis
  proof (cases "\<exists>c \<in> set (spilled_closes s). close_target c = k")
    case True
    then show thesis using spilled vi_abs_spilled [OF assms] mem by blast
  next
    case False
    then show thesis using opened mem None by (auto simp: vi_abs_None)
  qed
qed

lemma entry_value: "bt_inv m \<Longrightarrow> e \<in> set m \<Longrightarrow> e' \<in> set m \<Longrightarrow> fst e = fst e' \<Longrightarrow> snd e = snd e'"
  by (metis bt_get_iff option.inject prod.collapse)

text \<open>
  The common shape of the three map lookups: insert some of the spilled closes, then some of the
  resident entries, under a key that keeps the targets of interest apart.
\<close>

lemma lookup_fold:
  assumes inv: "vi_inv s"
    and cs: "set cs \<subseteq> set (spilled_closes s)" and es: "set es \<subseteq> set (vi_mem s)"
    and full: "\<forall>c \<in> set (spilled_closes s). close_target c = k \<longrightarrow> c \<in> set cs" "\<forall>e \<in> set (vi_mem s). fst e = k \<longrightarrow> e \<in> set es"
    and kf: "\<forall>c \<in> set cs. kf (close_target c) = kf k \<longrightarrow> close_target c = k" "\<forall>e \<in> set es. kf (fst e) = kf k \<longrightarrow> fst e = k"
  shows "bt_get (fold (\<lambda>e. bt_insert (kf (fst e)) (snd e)) es
            (fold (\<lambda>c. bt_insert (kf (close_target c)) (close_interval c)) cs bt_empty)) (kf k) = vi_abs s k"
  using inv
proof (cases rule: vi_abs_cases [where k = k])
  case (resident i)
  have inv_m: "bt_inv (vi_mem s)" using inv by (simp add: vi_inv_def)
  have "(k, i) \<in> set es" using full(2) resident(2) by simp
  moreover have "snd e = i" if "e \<in> set es" "kf (fst e) = kf k" for e
    using entry_value [OF inv_m, of e "(k, i)"] that kf(2) es resident(2) by auto
  ultimately have "bt_get (fold (\<lambda>e. bt_insert (kf (fst e)) (snd e)) es m) (kf k) = Some (snd (k, i))" for m
    by (intro get_fold_hit [where kf = "\<lambda>e. kf (fst e)"]) auto
  then show ?thesis unfolding resident(1) by simp
next
  case (spilled c)
  have "\<forall>e \<in> set es. kf (fst e) \<noteq> kf k" using kf(2) es spilled(4) by blast
  note miss = get_fold_miss [of es "\<lambda>e. kf (fst e)", OF this]
  have "\<forall>c' \<in> set cs. kf (close_target c') = kf k \<longrightarrow> close_interval c' = close_interval c"
    using kf(1) cs spilled spilled_functional [OF inv] by (metis subsetD)
  moreover have "c \<in> set cs" "kf (close_target c) = kf k" using spilled(1,2) full(1) by auto
  ultimately have "bt_get (fold (\<lambda>c. bt_insert (kf (close_target c)) (close_interval c)) cs bt_empty) (kf k) = Some (close_interval c)"
    using get_fold_hit [of c cs "\<lambda>c. kf (close_target c)" "kf k" close_interval bt_empty] by blast
  with spilled(3) show ?thesis unfolding miss by simp
next
  case opened
  have "\<forall>e \<in> set es. kf (fst e) \<noteq> kf k" using kf(2) es opened(3) by blast
  note miss = get_fold_miss [of es "\<lambda>e. kf (fst e)", OF this]
  have "\<forall>c \<in> set cs. kf (close_target c) \<noteq> kf k" using kf(1) cs opened(2) by blast
  note miss2 = get_fold_miss [of cs "\<lambda>c. kf (close_target c)", OF this]
  show ?thesis using opened(1) unfolding miss miss2 by simp
qed

section \<open>The lookups are exact\<close>

lemma spilled_from:
  assumes "vi_inv s" "c \<in> set (spilled_closes s)"
  shows "\<exists>m \<in> set (vi_spills s). c \<in> set (the (spill_contents (vi_disk s) m)) \<and> may_contain m (cl_business_key c)"
proof -
  from assms(2) obtain m where "m \<in> set (vi_spills s)" "c \<in> set (the (spill_contents (vi_disk s) m))"
    by (auto simp: spilled_closes_def)
  moreover have "spill_ok (vi_disk s) m" using assms(1) calculation(1) by (simp add: vi_inv_def)
  ultimately show ?thesis by (intro bexI [of _ m]) (auto simp: spill_ok_def split: option.splits)
qed

definition selected_closes :: "(spill_meta \<Rightarrow> bool) \<Rightarrow> validity_index \<Rightarrow> close list" where
  "selected_closes P s = concat (map (\<lambda>m. the (spill_contents (vi_disk s) m)) (filter P (vi_spills s)))"

lemma selected_closes_sub: "set (selected_closes P s) \<subseteq> set (spilled_closes s)"
  by (auto simp: selected_closes_def spilled_closes_def)

lemma selected_closes_mem:
  assumes "vi_inv s" "c \<in> set (spilled_closes s)" "\<And>m. may_contain m (cl_business_key c) \<Longrightarrow> P m"
  shows "c \<in> set (selected_closes P s)"
  using spilled_from [OF assms(1,2)] assms(3) by (auto simp: selected_closes_def)

lemma spills_present: "vi_inv s \<Longrightarrow> \<forall>m \<in> set (vi_spills s). spill_contents (vi_disk s) m \<noteq> None"
  by (auto simp: vi_inv_def spill_ok_def split: option.splits)

text \<open>Each lookup runs the spill loop and then adds resident entries.\<close>

lemma selected_loop:
  assumes "spill_loop (\<lambda>m. validity_read_spill (sm_index m)) f (filter P (vi_spills s)) bt_empty (vi_disk s) = (r, d)"
  shows "vi_same s (s\<lparr>vi_disk := d\<rparr>)" "r = Inr out \<Longrightarrow> out = fold f (selected_closes P s) bt_empty"
  using vspill.loop_same [OF assms] vspill.loop_Inr [of f "filter P (vi_spills s)" bt_empty "vi_disk s" out d] assms
  by (auto simp: vi_same_disk selected_closes_def)

lemma selected_loop_live:
  assumes "vi_inv s" "no_faults (vi_disk s)"
  shows "\<exists>out. spill_loop (\<lambda>m. validity_read_spill (sm_index m)) f (filter P (vi_spills s)) bt_empty (vi_disk s) =
    (Inr out, vi_disk s)"
  using vspill.loop_live [of "vi_disk s" "filter P (vi_spills s)" f bt_empty] spills_present [OF assms(1)] assms(2) by auto

lemma closes_for_spec:
  assumes "vi_inv s" "closes_for key s = (r, s')"
  shows "vi_same s s'" "r = Inr out \<Longrightarrow> bt_inv out" "r = Inr out \<Longrightarrow> bt_get out (t, n) = vi_abs s (key, t, n)"
proof -
  let ?P = "\<lambda>m. may_contain m key"
  let ?f = "\<lambda>c out. if cl_business_key c = key then bt_insert (cl_sys_from c, cl_seq c) (close_interval c) out else out"
  obtain q d where q: "spill_loop (\<lambda>m. validity_read_spill (sm_index m)) ?f (filter ?P (vi_spills s)) bt_empty (vi_disk s) = (q, d)"
    by (rule prod.exhaust)
  note loop = selected_loop [OF q]
  show "vi_same s s'" using loop(1) assms(2) q by (cases q) (auto simp: closes_for_def)
  assume r: "r = Inr out"
  let ?cs = "filter (\<lambda>c. cl_business_key c = key) (selected_closes ?P s)"
  have out: "out = fold (\<lambda>e. bt_insert (snd (fst e)) (snd e)) (mem_range key (vi_mem s))
      (fold (\<lambda>c. bt_insert (snd (close_target c)) (close_interval c)) ?cs bt_empty)"
    using assms(2) q loop(2) r by (cases q) (auto simp: closes_for_def fold_if close_target_def)
  then show "bt_inv out" by (simp add: bt_inv_fold)
  have "bt_get out (snd (key, t, n)) = vi_abs s (key, t, n)"
    unfolding out
  proof (rule lookup_fold [OF assms(1)])
    show "\<forall>c \<in> set (spilled_closes s). close_target c = (key, t, n) \<longrightarrow> c \<in> set ?cs"
      using selected_closes_mem [OF assms(1)] by (auto simp: close_target_def)
    show "set ?cs \<subseteq> set (spilled_closes s)" using selected_closes_sub by auto
  qed (auto simp: set_mem_range close_target_def)
  then show "bt_get out (t, n) = vi_abs s (key, t, n)" by simp
qed

lemma closes_for_live:
  assumes "vi_inv s" "no_faults (vi_disk s)"
  shows "\<exists>out. closes_for key s = (Inr out, s)"
proof -
  obtain out where "spill_loop (\<lambda>m. validity_read_spill (sm_index m))
      (\<lambda>c out. if cl_business_key c = key then bt_insert (cl_sys_from c, cl_seq c) (close_interval c) out else out)
      (filter (\<lambda>m. may_contain m key) (vi_spills s)) bt_empty (vi_disk s) = (Inr out, vi_disk s)"
    using selected_loop_live [OF assms] by blast
  then show ?thesis by (simp add: closes_for_def)
qed

lemma materialize_spec:
  assumes "vi_inv s" "materialize s = (r, s')"
  shows "vi_same s s'" "r = Inr out \<Longrightarrow> bt_inv out" "r = Inr out \<Longrightarrow> bt_get out k = vi_abs s k"
proof -
  let ?f = "\<lambda>c. bt_insert (close_target c) (close_interval c)"
  obtain q d where q: "spill_loop (\<lambda>m. validity_read_spill (sm_index m)) ?f (filter (\<lambda>_. True) (vi_spills s)) bt_empty (vi_disk s) = (q, d)"
    by (rule prod.exhaust)
  note loop = selected_loop [OF q]
  show "vi_same s s'" using loop(1) assms(2) q by (cases q) (auto simp: materialize_def)
  assume r: "r = Inr out"
  have "selected_closes (\<lambda>_. True) s = spilled_closes s" by (simp add: selected_closes_def spilled_closes_def)
  then have out: "out = fold (\<lambda>e. bt_insert (fst e) (snd e)) (vi_mem s) (fold ?f (spilled_closes s) bt_empty)"
    using assms(2) q loop(2) r by (cases q) (auto simp: materialize_def)
  then show "bt_inv out" by (simp add: bt_inv_fold)
  show "bt_get out k = vi_abs s k"
    unfolding out using assms(1) by (intro lookup_fold [where kf = id, simplified]) auto
qed

lemma materialize_live:
  assumes "vi_inv s" "no_faults (vi_disk s)"
  shows "\<exists>out. materialize s = (Inr out, s)"
  using selected_loop_live [OF assms, of "\<lambda>c. bt_insert (close_target c) (close_interval c)" "\<lambda>_. True"]
  by (auto simp: materialize_def)

lemma closes_for_keys_spec:
  assumes "vi_inv s" "closes_for_keys keys s = (r, s')"
  shows "vi_same s s'" "r = Inr out \<Longrightarrow> bt_inv out" "r = Inr out \<Longrightarrow> fst k \<in> set keys \<Longrightarrow> bt_get out k = vi_abs s k"
proof -
  let ?P = "\<lambda>m. list_ex (may_contain m) keys"
  let ?g = "\<lambda>c. bt_insert (close_target c) (close_interval c)"
  let ?f = "\<lambda>c out. if cl_business_key c \<in> set keys then ?g c out else out"
  have "vi_same s s' \<and> (r = Inr out \<longrightarrow> bt_inv out \<and> (fst k \<in> set keys \<longrightarrow> bt_get out k = vi_abs s k))"
  proof (cases "filter ?P (vi_spills s) \<noteq> [] \<and> length (filter ?P (vi_spills s)) = length (vi_spills s)")
    case True
    then have "materialize s = (r, s')" using assms(2) by (simp add: closes_for_keys_def)
    then show ?thesis using materialize_spec [OF assms(1)] by blast
  next
    case False
    obtain q d where q: "spill_loop (\<lambda>m. validity_read_spill (sm_index m)) ?f (filter ?P (vi_spills s)) bt_empty (vi_disk s) = (q, d)"
      by (rule prod.exhaust)
    note loop = selected_loop [OF q]
    have same: "vi_same s s'"
      using loop(1) assms(2) q False by (cases q) (auto simp: closes_for_keys_def Let_def)
    let ?cs = "filter (\<lambda>c. cl_business_key c \<in> set keys) (selected_closes ?P s)"
    let ?es = "concat (map (\<lambda>key. mem_range key (vi_mem s)) keys)"
    have cong: "fold (\<lambda>e. bt_insert (key, snd (fst e)) (snd e)) (mem_range key (vi_mem s)) =
        fold (\<lambda>e. bt_insert (fst e) (snd e)) (mem_range key (vi_mem s))" for key
      by (rule ext, intro fold_cong) (auto simp: set_mem_range)
    have out: "out = fold (\<lambda>e. bt_insert (fst e) (snd e)) ?es (fold ?g ?cs bt_empty)" if "r = Inr out"
      using assms(2) q loop(2) that False
      by (cases q) (auto simp: closes_for_keys_def Let_def fold_if cong fold_fold_concat)
    have "bt_get (fold (\<lambda>e. bt_insert (id (fst e)) (snd e)) ?es (fold (\<lambda>c. bt_insert (id (close_target c)) (close_interval c)) ?cs bt_empty)) (id k)
        = vi_abs s k" if "fst k \<in> set keys"
    proof (rule lookup_fold [OF assms(1)])
      show "\<forall>c \<in> set (spilled_closes s). close_target c = k \<longrightarrow> c \<in> set ?cs"
      proof (intro ballI impI)
        fix c assume c: "c \<in> set (spilled_closes s)" "close_target c = k"
        then have key: "cl_business_key c \<in> set keys" using that by (auto simp: close_target_def)
        then have "c \<in> set (selected_closes ?P s)"
          by (intro selected_closes_mem [OF assms(1) c(1)]) (auto simp: list_ex_iff)
        with key show "c \<in> set ?cs" by simp
      qed
      show "set ?cs \<subseteq> set (spilled_closes s)" using selected_closes_sub by auto
    qed (use that in \<open>auto simp: set_mem_range\<close>)
    with same out show ?thesis by (auto simp: bt_inv_fold)
  qed
  then show "vi_same s s'" "r = Inr out \<Longrightarrow> bt_inv out" "r = Inr out \<Longrightarrow> fst k \<in> set keys \<Longrightarrow> bt_get out k = vi_abs s k"
    by auto
qed

lemma closes_for_keys_live:
  assumes "vi_inv s" "no_faults (vi_disk s)"
  shows "\<exists>out. closes_for_keys keys s = (Inr out, s)"
proof -
  obtain out where "spill_loop (\<lambda>m. validity_read_spill (sm_index m))
      (\<lambda>c out. if cl_business_key c \<in> set keys then bt_insert (close_target c) (close_interval c) out else out)
      (filter (\<lambda>m. list_ex (may_contain m) keys) (vi_spills s)) bt_empty (vi_disk s) = (Inr out, vi_disk s)"
    using selected_loop_live [OF assms] by blast
  with materialize_live [OF assms] show ?thesis by (auto simp: closes_for_keys_def Let_def)
qed

text \<open>
  C31. Every lookup of the validity index is exact, spilled or resident: whenever \<open>close_of\<close>,
  \<open>closes_for\<close>, \<open>closes_for_keys\<close> or \<open>materialize\<close> returns, it returns the abstract map (at the
  version, at the key, at the requested keys, in full), so neither the Bloom and key-range summaries
  that skip spill files nor the full-sweep shortcut can hide a close; no lookup changes what the index
  stands for, and on a disk without a pending fault each of them returns.
\<close>

theorem validity_lookups_exact:
  assumes "vi_inv s"
  shows "(\<forall>r s'. close_of k s = (r, s') \<longrightarrow> vi_inv s' \<and> vi_abs s' = vi_abs s \<and> (\<forall>v. r = Inr v \<longrightarrow> v = vi_abs s k)) \<and>
    (\<forall>r s'. closes_for key s = (r, s') \<longrightarrow> vi_inv s' \<and> vi_abs s' = vi_abs s \<and>
       (\<forall>m. r = Inr m \<longrightarrow> bt_inv m \<and> (\<forall>t n. bt_get m (t, n) = vi_abs s (key, t, n)))) \<and>
    (\<forall>r s'. closes_for_keys keys s = (r, s') \<longrightarrow> vi_inv s' \<and> vi_abs s' = vi_abs s \<and>
       (\<forall>m. r = Inr m \<longrightarrow> bt_inv m \<and> (\<forall>k. fst k \<in> set keys \<longrightarrow> bt_get m k = vi_abs s k))) \<and>
    (\<forall>r s'. materialize s = (r, s') \<longrightarrow> vi_inv s' \<and> vi_abs s' = vi_abs s \<and>
       (\<forall>m. r = Inr m \<longrightarrow> bt_inv m \<and> bt_get m = vi_abs s)) \<and>
    (no_faults (vi_disk s) \<longrightarrow>
       (\<exists>a b c d. close_of k s = (Inr a, s) \<and> closes_for key s = (Inr b, s) \<and>
          closes_for_keys keys s = (Inr c, s) \<and> materialize s = (Inr d, s)))"
proof (intro conjI)
  note same = vi_same_views
  show "\<forall>r s'. close_of k s = (r, s') \<longrightarrow> vi_inv s' \<and> vi_abs s' = vi_abs s \<and> (\<forall>v. r = Inr v \<longrightarrow> v = vi_abs s k)"
    using close_of_spec [OF assms] assms same by blast
  show "\<forall>r s'. closes_for key s = (r, s') \<longrightarrow> vi_inv s' \<and> vi_abs s' = vi_abs s \<and>
       (\<forall>m. r = Inr m \<longrightarrow> bt_inv m \<and> (\<forall>t n. bt_get m (t, n) = vi_abs s (key, t, n)))"
    using closes_for_spec [OF assms] assms same by blast
  show "\<forall>r s'. closes_for_keys keys s = (r, s') \<longrightarrow> vi_inv s' \<and> vi_abs s' = vi_abs s \<and>
       (\<forall>m. r = Inr m \<longrightarrow> bt_inv m \<and> (\<forall>k. fst k \<in> set keys \<longrightarrow> bt_get m k = vi_abs s k))"
    using closes_for_keys_spec [OF assms] assms same by blast
  show "\<forall>r s'. materialize s = (r, s') \<longrightarrow> vi_inv s' \<and> vi_abs s' = vi_abs s \<and>
       (\<forall>m. r = Inr m \<longrightarrow> bt_inv m \<and> bt_get m = vi_abs s)"
    using materialize_spec [OF assms] assms same by blast
  show "no_faults (vi_disk s) \<longrightarrow> (\<exists>a b c d. close_of k s = (Inr a, s) \<and> closes_for key s = (Inr b, s) \<and>
          closes_for_keys keys s = (Inr c, s) \<and> materialize s = (Inr d, s))"
    using close_of_live [OF assms] closes_for_live [OF assms] closes_for_keys_live [OF assms] materialize_live [OF assms]
    by blast
qed

section \<open>Range containment and the upper bound\<close>

lemma le_tick: "k \<le> (t, U64_MAX) \<longleftrightarrow> fst k \<le> (t :: i64)"
  by (cases k) (auto simp: less_eq_prod_def)

text \<open>
  \<open>active_at\<close> is a range-containment lookup: when the closed intervals of a key do not overlap,
  it returns a version exactly when that version's materialised interval \<open>[sys_from, sys_to)\<close>
  contains the instant.
\<close>

theorem validity_active_at:
  assumes "vi_inv s" "active_at key t s = (Inr r, s')"
    and "\<And>a b i j. vi_abs s (key, a) = Some i \<Longrightarrow> vi_abs s (key, b) = Some j \<Longrightarrow> a < b \<Longrightarrow> ci_sys_to i \<le> fst b"
  shows "r = Some v \<longleftrightarrow> (\<exists>i. vi_abs s (key, v) = Some i \<and> fst v \<le> t \<and> t < ci_sys_to i)"
proof -
  from assms(2) obtain m where m: "closes_for key s = (Inr m, s')"
    and r: "r = (case bt_last_le (t, U64_MAX) m of None \<Rightarrow> None
                 | Some (k, interval) \<Rightarrow> if t < ci_sys_to interval then Some k else None)"
    by (auto simp: active_at_def split: sum.splits prod.splits)
  have inv: "bt_inv m" and get: "\<And>k. bt_get m k = vi_abs s (key, k)"
    using closes_for_spec(2,3) [OF assms(1) m] by (auto simp: split_paired_all)
  show ?thesis
  proof
    assume "r = Some v"
    then obtain i where l: "bt_last_le (t, U64_MAX) m = Some (v, i)" "t < ci_sys_to i"
      using r by (auto split: option.splits if_splits)
    with bt_last_le_Some(1,2) [OF inv l(1)] get show "\<exists>i. vi_abs s (key, v) = Some i \<and> fst v \<le> t \<and> t < ci_sys_to i"
      by (auto simp: le_tick)
  next
    assume "\<exists>i. vi_abs s (key, v) = Some i \<and> fst v \<le> t \<and> t < ci_sys_to i"
    then obtain i where i: "vi_abs s (key, v) = Some i" "fst v \<le> t" "t < ci_sys_to i" by blast
    have "bt_last_le (t, U64_MAX) m = Some (v, i)"
    proof (rule bt_last_le_eqI [OF inv])
      show "bt_get m v = Some i" "v \<le> (t, U64_MAX)" using i get by (simp_all add: le_tick)
      fix k' v' assume k': "bt_get m k' = Some v'" "k' \<le> (t, U64_MAX)"
      show "k' \<le> v"
      proof (rule ccontr)
        assume "\<not> k' \<le> v"
        then have "ci_sys_to i \<le> fst k'" using assms(3) [OF i(1), of k' v'] k' get by simp
        with i(3) k'(2) show False by (simp add: le_tick)
      qed
    qed
    with r i show "r = Some v" by simp
  qed
qed

lemma upper_bound_loop_spec:
  assumes "vi_inv s"
  shows "upper_bound_loop ks b s = (r, s') \<Longrightarrow> vi_same s s' \<and>
    (\<forall>u. r = Inr u \<longrightarrow> (superseded_at_or_before u t \<longleftrightarrow>
       b \<le> t \<and> (\<forall>k \<in> set ks. \<exists>i. vi_abs s k = Some i \<and> ci_sys_to i \<le> t)))"
  using assms
proof (induction ks arbitrary: b s)
  case Nil
  then show ?case by (auto simp: superseded_at_or_before_def)
next
  case (Cons k ks)
  show ?case
  proof (cases "bt_get (vi_mem s) k")
    case (Some i)
    then have "vi_abs s k = Some i" by (simp add: vi_abs_def)
    with Some Cons.IH [of "max b (ci_sys_to i)" s] Cons.prems show ?thesis by auto
  next
    case None
    show ?thesis
    proof (cases "vi_spills s = []")
      case True
      then have "vi_abs s k = None" using None by (simp add: vi_abs_None spilled_closes_def)
      with True None Cons.prems show ?thesis by (auto simp: superseded_at_or_before_def)
    next
      case False
      obtain q s1 where q: "close_of k s = (q, s1)" by (cases "close_of k s")
      note spec = close_of_spec [OF Cons.prems(2) q]
      note views = vi_same_views [OF spec(1)]
      show ?thesis
      proof (cases q)
        case (Inl e)
        with None False q Cons.prems spec show ?thesis by auto
      next
        case (Inr v)
        then have v: "vi_abs s k = v" using spec(2) by simp
        show ?thesis
        proof (cases v)
          case None
          with \<open>bt_get (vi_mem s) k = None\<close> False q Inr Cons.prems spec v show ?thesis
            by (auto simp: superseded_at_or_before_def)
        next
          case (Some i)
          with \<open>bt_get (vi_mem s) k = None\<close> False q Inr Cons.prems(1)
          have "upper_bound_loop ks (max b (ci_sys_to i)) s1 = (r, s')" by simp
          with Cons.IH [of "max b (ci_sys_to i)" s1] views Cons.prems(2) have "vi_same s1 s' \<and>
              (\<forall>u. r = Inr u \<longrightarrow> (superseded_at_or_before u t \<longleftrightarrow>
                 max b (ci_sys_to i) \<le> t \<and> (\<forall>k \<in> set ks. \<exists>i. vi_abs s k = Some i \<and> ci_sys_to i \<le> t)))"
            by simp
          with v Some spec(1) show ?thesis by (auto intro: vi_same_trans)
        qed
      qed
    qed
  qed
qed

text \<open>
  The segment prune is exact: whenever \<open>sys_upper_bound\<close> returns for a set of versions, the bound
  is superseded at a snapshot if and only if every one of them is closed with an end at or before the
  snapshot. So a skipped segment holds no visible row, a single open version keeps the segment, and an
  empty set is always skipped.
\<close>

theorem validity_prune_exact:
  assumes "vi_inv s" "sys_upper_bound versions s = (Inr b, s')"
  shows "superseded_at_or_before b snapshot \<longleftrightarrow>
    (\<forall>v \<in> set versions. \<exists>i. vi_abs s v = Some i \<and> ci_sys_to i \<le> snapshot)"
  using upper_bound_loop_spec [OF assms(1), of versions I64_MIN "Inr b" s'] assms(2) by (simp add: sys_upper_bound_def)

section \<open>The interface its clients use\<close>

text \<open>A loop that applies a fallible operation to each item and returns on the first error.\<close>

fun try_all :: "('c \<Rightarrow> 's \<Rightarrow> ('e + unit) \<times> 's) \<Rightarrow> 'c list \<Rightarrow> 's \<Rightarrow> ('e + unit) \<times> 's" where
  "try_all f [] s = (Inr (), s)"
| "try_all f (c # cs) s = (case f c s of (Inl e, s1) \<Rightarrow> (Inl e, s1) | (Inr _, s1) \<Rightarrow> try_all f cs s1)"

locale write_once_index =
  fixes insert :: "'c \<Rightarrow> 's \<Rightarrow> ('e + unit) \<times> 's"
    and abs :: "'s \<Rightarrow> 'k \<Rightarrow> 'i option"
    and inv :: "'s \<Rightarrow> bool"
    and target :: "'c \<Rightarrow> 'k"
    and ends :: "'c \<Rightarrow> 'i"
  assumes insert_inv: "inv s \<Longrightarrow> insert c s = (r, s') \<Longrightarrow> inv s'"
    and insert_ok: "inv s \<Longrightarrow> insert c s = (Inr (), s') \<Longrightarrow>
      abs s (target c) \<in> {None, Some (ends c)} \<and> abs s' = (abs s)(target c \<mapsto> ends c)"
    and insert_err: "inv s \<Longrightarrow> insert c s = (Inl e, s') \<Longrightarrow> abs s' = abs s"
begin

lemma insert_grows: "inv s \<Longrightarrow> insert c s = (r, s') \<Longrightarrow> abs s \<subseteq>\<^sub>m abs s'"
  using insert_ok [of s c s'] insert_err [of s c _ s'] by (cases r) (auto simp: map_le_def)

lemma try_all_inv: "inv s \<Longrightarrow> try_all insert cs s = (r, s') \<Longrightarrow> inv s' \<and> abs s \<subseteq>\<^sub>m abs s'"
proof (induction cs arbitrary: s)
  case (Cons c cs)
  obtain q s1 where q: "insert c s = (q, s1)" by (cases "insert c s")
  note step = insert_inv [OF Cons.prems(1) q] insert_grows [OF Cons.prems(1) q]
  with Cons.IH [of s1] Cons.prems(2) q show ?case by (cases q) (auto intro: map_le_trans)
qed simp

text \<open>After a run that succeeds the index holds exactly what it held and the inserted ends.\<close>

lemma try_all_ok:
  "inv s \<Longrightarrow> try_all insert cs s = (Inr (), s') \<Longrightarrow>
     (\<forall>c \<in> set cs. abs s' (target c) = Some (ends c)) \<and> (\<forall>k. k \<notin> target ` set cs \<longrightarrow> abs s' k = abs s k)"
proof (induction cs arbitrary: s)
  case (Cons c cs)
  obtain s1 where q: "insert c s = (Inr (), s1)" "try_all insert cs s1 = (Inr (), s')"
    using Cons.prems(2) by (cases "insert c s") (auto split: sum.splits)
  have inv1: "inv s1" using insert_inv [OF Cons.prems(1) q(1)] .
  have "abs s1 (target c) = Some (ends c)" using insert_ok [OF Cons.prems(1) q(1)] by simp
  then have "abs s' (target c) = Some (ends c)"
    using try_all_inv [OF inv1 q(2)] by (metis domI map_le_def)
  moreover have "k \<noteq> target c \<Longrightarrow> abs s1 k = abs s k" for k using insert_ok [OF Cons.prems(1) q(1)] by simp
  ultimately show ?case using Cons.IH [OF inv1 q(2)] by auto
qed simp

end

interpretation vindex: write_once_index insert_close vi_abs vi_inv close_target close_interval
proof
  fix s c r s' assume "vi_inv s" "insert_close c s = (r, s')"
  then show "vi_inv s'" unfolding insert_close_def by (rule insert_close_inner_inv)
next
  fix s c s' assume a: "vi_inv s" "insert_close c s = (Inr (), s')"
  from a(1) a(2) [unfolded insert_close_def]
  show "vi_abs s (close_target c) \<in> {None, Some (close_interval c)} \<and> vi_abs s' = (vi_abs s)(close_target c \<mapsto> close_interval c)"
    by (cases rule: insert_close_inner_cases)
       (auto simp: vi_same_views(2) [of s s'] vi_add_spec(2))
next
  fix s c e s' assume a: "vi_inv s" "insert_close c s = (Inl e, s')"
  from a(1) a(2) [unfolded insert_close_def] show "vi_abs s' = vi_abs s"
    by (cases rule: insert_close_inner_cases) (auto simp: vi_same_views(2) [of s s'])
qed

section \<open>Opening\<close>

lemma list_spills_same: "validity_list_spills d = (r, d') \<Longrightarrow> disk_same d d'"
  by (auto simp: validity_list_spills_def split: sum.splits prod.splits dest: disk_list_same)

lemma remove_spills_wf: "disk_wf d \<Longrightarrow> validity_remove_spills idxs d = (r, d') \<Longrightarrow> disk_wf d'"
  by (induction idxs arbitrary: d)
     (auto split: sum.splits prod.splits if_splits dest: disk_remove_effect(2))

lemma ValidityIndex_open_ok:
  assumes "disk_wf d" "ValidityIndex_open d threshold = (Inr s, d')"
  shows "vi_inv s" "vi_abs s = Map.empty" "vi_disk s = d'" "vi_mem s = []" "vi_spills s = []"
proof -
  from assms(2) obtain idxs d1 d2 where o: "validity_list_spills d = (Inr idxs, d1)"
      "validity_discard_stale_spills d1 = (Inr (), d2)" "d' = d2"
      "s = \<lparr>vi_disk = d2, vi_threshold = threshold, vi_mem = [], vi_byte_size = 0,
            vi_next_spill = (if idxs = [] then 0 else last idxs + 1), vi_spills = []\<rparr>"
    by (auto simp: ValidityIndex_open_def Let_def bt_empty_def split: sum.splits prod.splits)
  have "disk_wf d1" using list_spills_same [OF o(1)] assms(1) by (simp add: disk_same_views(2))
  moreover obtain js d3 where j: "validity_list_spills d1 = (Inr js, d3)" "validity_remove_spills js d3 = (Inr (), d2)"
    using o(2) by (auto simp: validity_discard_stale_spills_def split: sum.splits prod.splits)
  ultimately have "disk_wf d2" using list_spills_same [OF j(1)] remove_spills_wf [OF _ j(2)] by (simp add: disk_same_views(2))
  with o show "vi_inv s" by (simp add: vi_inv_def spilled_closes_def)
  show "vi_abs s = Map.empty" "vi_disk s = d'" "vi_mem s = []" "vi_spills s = []"
    using o by (simp_all add: vi_abs_def spilled_closes_def fun_eq_iff bt_get_def [abs_def])
qed

section \<open>Progress without faults\<close>

text \<open>
  Nothing is pending on the fault schedule, no file occupies a spill name still to be used, the
  resident entries encode, and the byte counter is exact.
\<close>

definition vi_ready :: "validity_index \<Rightarrow> bool" where
  "vi_ready s \<longleftrightarrow> vi_inv s \<and> no_faults (vi_disk s) \<and>
     (\<forall>n \<ge> vi_next_spill s. file_at (vi_disk s) (validity_spill_name n) = None) \<and>
     list_all (\<lambda>e. close_encodable (entry_close e)) (vi_mem s) \<and>
     vi_byte_size s = mem_bytes (vi_mem s) \<and> vi_byte_size s \<le> max (vi_threshold s) MAX_CLOSE_FRAME_LEN \<and>
     vi_threshold s < 2 ^ 63"

lemma closes_total_live: "acc + sum_list (map Close_encoded_size cs) < 2 ^ 64 \<Longrightarrow> closes_total acc cs \<noteq> None"
  by (induction cs arbitrary: acc) (simp_all add: Let_def add.assoc)

lemma encode_closes_live: "list_all close_encodable cs \<Longrightarrow> encode_closes cs buf = Inr (buf @ concat (map close_frame cs))"
  by (induction cs arbitrary: buf) (simp_all add: Close_encode_frame)

lemma disk_ops_no_faults:
  assumes "no_faults d"
  shows "no_faults (snd (disk_create name d))" "no_faults (snd (file_append f bs d))" "\<exists>d'. file_append f bs d = (Inr (), d')"
    "file_sync f d = (Inr (), d)"
  using assms
  by (auto simp: disk_create_def file_append_def file_sync_def disk_check_no_faults no_faults_def faults_take_def
      split: sum.splits)

lemma write_spill_live:
  assumes "no_faults d" "file_at d (validity_spill_name idx) = None" "list_all close_encodable cs" "cs \<noteq> []"
    "sum_list (map Close_encoded_size cs) < 2 ^ 64"
  shows "\<exists>meta d'. validity_write_spill idx cs d = (Inr meta, d') \<and> no_faults d'"
proof -
  let ?name = "validity_spill_name idx"
  obtain f d1 where c: "disk_create ?name d = (Inr f, d1)"
    using assms(1,2) by (simp add: disk_create_def validate_spill_name disk_check_no_faults file_at_def)
  have nf1: "no_faults d1" using disk_ops_no_faults(1) [OF assms(1), of ?name] c by simp
  obtain n where n: "closes_total 0 cs = Some n" using closes_total_live [of 0 cs] assms(5) by auto
  obtain d2 where a: "file_append f (concat (map close_frame cs)) d1 = (Inr (), d2)"
    using disk_ops_no_faults(3) [OF nf1] by blast
  have nf2: "no_faults d2" using disk_ops_no_faults(2) [OF nf1, of f "concat (map close_frame cs)"] a by simp
  show ?thesis
    using c n a nf2 disk_ops_no_faults(4) [OF nf2] assms(4) encode_closes_live [OF assms(3)]
    by (simp add: validity_write_spill_def Let_def)
qed

lemma spill_in_memory_live:
  assumes "vi_ready s"
  shows "\<exists>s'. validity_spill_in_memory s = (Inr (), s') \<and> vi_ready s'"
proof (cases "vi_mem s = []")
  case True
  with assms show ?thesis by (simp add: validity_spill_in_memory_def)
next
  case False
  let ?cs = "map entry_close (vi_mem s)" and ?i = "vi_next_spill s"
  have r: "vi_inv s" "no_faults (vi_disk s)" "file_at (vi_disk s) (validity_spill_name ?i) = None"
    "list_all close_encodable ?cs" "disk_wf (vi_disk s)"
    using assms by (simp_all add: vi_ready_def list_all_iff vi_inv_def)
  have "mem_bytes (vi_mem s) \<le> max (vi_threshold s) MAX_CLOSE_FRAME_LEN" "vi_threshold s < 2 ^ 63"
    using assms by (simp_all add: vi_ready_def)
  then have "sum_list (map Close_encoded_size ?cs) < 2 ^ 64"
    unfolding mem_bytes_sum by (simp add: MAX_CLOSE_FRAME_LEN_def max_def split: if_splits)
  with write_spill_live [OF r(2,3,4)] False obtain meta d where w: "validity_write_spill ?i ?cs (vi_disk s) = (Inr meta, d)"
    "no_faults d" by auto
  let ?s = "s\<lparr>vi_next_spill := Suc ?i, vi_disk := d, vi_spills := vi_spills s @ [meta], vi_mem := bt_empty, vi_byte_size := 0\<rparr>"
  have sim: "validity_spill_in_memory s = (Inr (), ?s)"
    using False w by (simp add: validity_spill_in_memory_def Let_def)
  have "file_at d (validity_spill_name n) = None" if "Suc ?i \<le> n" for n
    using write_spill_frame(2) [OF w(1) r(5), of "validity_spill_name n"] that assms by (simp add: vi_ready_def)
  with sim spill_in_memory_spec(1) [OF r(1) sim] w(2) assms show ?thesis
    by (auto simp: vi_ready_def mem_bytes_def bt_empty_def)
qed

lemma set_bt_insert_entries: "set (bt_insert k v m) \<subseteq> insert (k, v) (set m)"
  by (induction k v m rule: bt_insert.induct) auto

lemma vi_add_ready:
  assumes "vi_ready s" "close_encodable c" "vi_abs s (close_target c) = None"
    "vi_mem s = [] \<or> u64_saturating_add (vi_byte_size s) (Close_encoded_size c) \<le> vi_threshold s"
  shows "vi_ready (vi_add c s)"
proof -
  have inv: "vi_inv s" "bt_inv (vi_mem s)" using assms(1) by (auto simp: vi_ready_def vi_inv_def)
  have none: "bt_get (vi_mem s) (close_target c) = None" using assms(3) by (simp add: vi_abs_None)
  have mb: "mem_bytes (vi_mem (vi_add c s)) = mem_bytes (vi_mem s) + Close_encoded_size c"
    using mem_bytes_insert [OF inv(2) none, of "close_interval c"] by (simp add: vi_add_def)
  have size: "Close_encoded_size c \<le> MAX_CLOSE_FRAME_LEN" using assms(2) by (simp add: close_encodable_iff)
  have th: "vi_threshold s < 2 ^ 63" using assms(1) by (simp add: vi_ready_def)
  have "vi_byte_size s + Close_encoded_size c \<le> max (vi_threshold s) MAX_CLOSE_FRAME_LEN"
  proof (cases "vi_mem s = []")
    case True
    then have "vi_byte_size s = 0" using assms(1) by (simp add: vi_ready_def mem_bytes_def)
    with size show ?thesis by simp
  next
    case False
    with assms(4) th show ?thesis by (simp add: u64_saturating_add_def min_def split: if_splits)
  qed
  moreover from this th have "u64_saturating_add (vi_byte_size s) (Close_encoded_size c) = vi_byte_size s + Close_encoded_size c"
    by (simp add: u64_saturating_add_def MAX_CLOSE_FRAME_LEN_def max_def split: if_splits)
  moreover have "list_all (\<lambda>e. close_encodable (entry_close e)) (bt_insert (close_target c) (close_interval c) (vi_mem s))"
    using assms(1,2) by (fastforce simp: list_all_iff vi_ready_def dest: subsetD [OF set_bt_insert_entries])
  ultimately show ?thesis
    using assms(1) vi_add_spec(1) [OF inv(1) assms(3)] mb by (auto simp: vi_ready_def vi_add_def)
qed

lemma insert_close_live:
  assumes "vi_ready s" "close_encodable c" "vi_abs s (close_target c) \<in> {None, Some (close_interval c)}"
  shows "\<exists>s'. insert_close c s = (Inr (), s') \<and> vi_ready s'"
proof -
  have inv: "vi_inv s" and nf: "no_faults (vi_disk s)" using assms(1) by (auto simp: vi_ready_def)
  have enc: "Close_check_encodable c = Inr ()" using assms(2) by (simp add: close_encodable_def)
  note look = close_of_live [OF inv nf, of "close_target c"]
  show ?thesis
  proof (cases "vi_abs s (close_target c)")
    case (Some i)
    with assms look enc show ?thesis by (simp add: insert_close_def insert_close_inner_def)
  next
    case None
    let ?full = "vi_threshold s < u64_saturating_add (vi_byte_size s) (Close_encoded_size c) \<and> vi_mem s \<noteq> []"
    show ?thesis
    proof (cases ?full)
      case False
      then have "insert_close c s = (Inr (), vi_add c s)"
        using None look enc by (auto simp: insert_close_def insert_close_inner_def Let_def vi_add_def)
      with vi_add_ready [OF assms(1,2) None] False show ?thesis by auto
    next
      case True
      obtain s2 where s2: "validity_spill_in_memory s = (Inr (), s2)" "vi_ready s2"
        using spill_in_memory_live [OF assms(1)] by blast
      note sp = spill_in_memory_spec [OF inv s2(1)]
      have "insert_close c s = (Inr (), vi_add c s2)"
        using True None look enc s2(1) by (simp add: insert_close_def insert_close_inner_def Let_def vi_add_def)
      with vi_add_ready [OF s2(2) assms(2)] sp None show ?thesis by simp
    qed
  qed
qed

section \<open>Witnesses\<close>

definition empty_index :: validity_index where
  "empty_index = \<lparr>vi_disk = MemDisk_new, vi_threshold = 60, vi_mem = [], vi_byte_size = 0, vi_next_spill = 0, vi_spills = []\<rparr>"

text \<open>A second close of the same key, at a later system time.\<close>

definition later_close :: close where
  "later_close = example_close\<lparr>cl_sys_from := i64_of 20, cl_sys_to := i64_of 30, cl_seq := 4\<rparr>"

definition one_close_index :: validity_index where
  "one_close_index = vi_add example_close empty_index"

text \<open>The index after the second insert has crossed the threshold and spilled the first close.\<close>

definition two_close_index :: validity_index where
  "two_close_index = snd (insert_close later_close one_close_index)"

lemma empty_index_opens: "ValidityIndex_open MemDisk_new 60 = (Inr empty_index, MemDisk_new)"
  by (simp add: ValidityIndex_open_def validity_list_spills_def validity_discard_stale_spills_def disk_list_def
      disk_check_def faults_check_def faults_take_def MemDisk_new_def empty_index_def bt_empty_def)

lemma empty_index_inv: "vi_inv empty_index" "vi_abs empty_index = Map.empty"
  using ValidityIndex_open_ok [OF _ empty_index_opens] by simp_all

lemma one_close_index_inv:
  "vi_inv one_close_index" "vi_abs one_close_index = [close_target example_close \<mapsto> close_interval example_close]"
  unfolding one_close_index_def using vi_add_spec [OF empty_index_inv(1)] by (simp_all add: empty_index_inv)

lemma example_targets:
  "close_target example_close = ([107], i64_of 10, 3)" "close_target later_close = ([107], i64_of 20, 4)"
  "ci_sys_to (close_interval example_close) = i64_of 20" "ci_sys_to (close_interval later_close) = i64_of 30"
  by (simp_all add: example_close_def later_close_def close_target_def close_interval_def)

lemma example_encodable: "Close_check_encodable example_close = Inr ()" "Close_check_encodable later_close = Inr ()"
  by (simp_all add: example_close_def later_close_def Close_check_encodable_def u32_try_from_def Close_encoded_size_def
      CLOSE_HEADER_LEN_def MAX_CLOSE_FRAME_LEN_def)

lemma insert_example:
  "insert_close_inner example_close allow empty_index = (Inr (), one_close_index)"
  by (simp add: insert_close_inner_def example_encodable close_of_def empty_index_def one_close_index_def vi_add_def)

theorem validity_write_once_witness:
  "vi_inv one_close_index \<and> vi_abs one_close_index = (vi_abs empty_index)(close_target example_close \<mapsto> close_interval example_close)"
  using validity_write_once [OF empty_index_inv(1) insert_example [of True]] by simp

theorem validity_rollback_witness:
  "\<exists>s2. remove_close (close_target example_close) one_close_index = (True, s2) \<and> vi_abs s2 = vi_abs empty_index"
  using validity_rollback [OF empty_index_inv(1) _ insert_example [of False, folded insert_close_resident_def]]
  by (auto simp: empty_index_inv)

lemma one_close_index_ready: "vi_ready one_close_index"
proof -
  have "vi_ready empty_index"
    using empty_index_inv by (simp add: vi_ready_def empty_index_def MemDisk_new_def no_faults_def file_at_def mem_bytes_def)
  then show ?thesis unfolding one_close_index_def
    using example_encodable empty_index_inv(2)
    by (intro vi_add_ready) (simp_all add: close_encodable_def, simp add: empty_index_def)
qed

lemma two_close_index_spilled:
  "vi_inv two_close_index" "no_faults (vi_disk two_close_index)" "vi_spills two_close_index \<noteq> []"
proof -
  have abs: "vi_abs one_close_index (close_target later_close) = None"
    by (simp add: one_close_index_inv example_targets)
  have size: "Close_encoded_size later_close = 51"
    using example_close_size by (simp add: later_close_def Close_encoded_size_def)
  have bytes: "vi_byte_size one_close_index = 51" "vi_mem one_close_index \<noteq> []" "vi_threshold one_close_index = 60"
    by (simp_all add: one_close_index_def vi_add_def empty_index_def u64_saturating_add_def example_close_size)
  obtain s2 where s2: "validity_spill_in_memory one_close_index = (Inr (), s2)"
    using spill_in_memory_live [OF one_close_index_ready] by blast
  have "close_of (close_target later_close) one_close_index = (Inr None, one_close_index)"
    using close_of_live [OF one_close_index_inv(1)] one_close_index_ready abs by (simp add: vi_ready_def)
  then have "insert_close later_close one_close_index = (Inr (), vi_add later_close s2)"
    using s2 bytes size example_encodable(2)
    by (simp add: insert_close_def insert_close_inner_def Let_def u64_saturating_add_def vi_add_def)
  then have two: "two_close_index = vi_add later_close s2" by (simp add: two_close_index_def)
  have "vi_spills s2 \<noteq> []"
    using s2 bytes(2) by (auto simp: validity_spill_in_memory_def Let_def split: sum.splits prod.splits)
  then show "vi_spills two_close_index \<noteq> []" unfolding two vi_add_def by simp
  obtain s3 where "insert_close later_close one_close_index = (Inr (), s3)" "vi_ready s3"
    using insert_close_live [OF one_close_index_ready, of later_close] example_encodable(2) abs
    by (auto simp: close_encodable_def)
  then show "vi_inv two_close_index" "no_faults (vi_disk two_close_index)"
    by (simp_all add: two_close_index_def vi_ready_def)
qed

theorem validity_lookups_exact_witness:
  "vi_spills two_close_index \<noteq> [] \<and>
   (\<exists>m. materialize two_close_index = (Inr m, two_close_index) \<and> bt_get m = vi_abs two_close_index)"
  using validity_lookups_exact [OF two_close_index_spilled(1)] two_close_index_spilled by metis

lemma active_example: "active_at [107] (i64_of 15) one_close_index = (Inr (Some (i64_of 10, 3)), one_close_index)"
  by (simp add: active_at_def closes_for_def one_close_index_def vi_add_def empty_index_def mem_range_filter
      example_close_def close_target_def close_interval_def bt_empty_def bt_last_le_def less_eq_prod_def
      less_eq_i64_def less_i64_def i64_val_of i64_min_def i64_max_def)

theorem validity_active_at_witness:
  "\<exists>i. vi_abs one_close_index ([107], i64_of 10, 3) = Some i \<and> i64_of 10 \<le> i64_of 15 \<and> i64_of 15 < ci_sys_to i"
proof -
  have "(Some (i64_of 10, 3) = Some (i64_of 10, 3 :: u64)) =
      (\<exists>i. vi_abs one_close_index ([107], i64_of 10, 3) = Some i \<and> fst (i64_of 10, 3 :: u64) \<le> i64_of 15 \<and> i64_of 15 < ci_sys_to i)"
    by (rule validity_active_at [OF one_close_index_inv(1) active_example])
       (auto simp: one_close_index_inv example_targets split: if_splits)
  then show ?thesis by simp
qed

theorem validity_prune_exact_witness:
  "superseded_at_or_before (Bounded (i64_of 20)) (i64_of 25) \<and>
   (\<exists>i. vi_abs one_close_index ([107], i64_of 10, 3) = Some i \<and> ci_sys_to i \<le> i64_of 25)"
proof -
  have "sys_upper_bound [([107], i64_of 10, 3)] one_close_index = (Inr (Bounded (i64_of 20)), one_close_index)"
    by (simp add: sys_upper_bound_def one_close_index_def vi_add_def empty_index_def example_close_def close_target_def
        close_interval_def bt_get_def max_def less_eq_i64_def i64_val_of i64_min_def i64_max_def)
  from validity_prune_exact [OF one_close_index_inv(1) this, of "i64_of 25"] show ?thesis
    by (simp add: superseded_at_or_before_def less_eq_i64_def i64_val_of i64_min_def i64_max_def)
qed

end
