(* ===== verification/Merge.thy ===== *)
theory Merge
  imports Version Validity_Lookups
begin

text \<open>
  The cross-tier read merge (\<open>merge.rs\<close>): staged and sealed versions are grouped into per-key chains,
  each version's end is overlaid from the validity index, and a snapshot read takes from each chain the
  version whose interval contains the snapshot. The reference is the set of versions of the pool whose
  overlaid interval contains it.
\<close>

section \<open>Chains and the overlay\<close>

type_synonym version_chain = "(i64 \<times> u64, version) btree"
type_synonym key_chains = "(bytes, version_chain) btree"

definition overlay :: "closed_interval \<Rightarrow> version \<Rightarrow> version" where
  "overlay interval v = v\<lparr>v_sys_to := ci_sys_to interval, v_closed_by := Some (ci_closed_by interval)\<rparr>"

definition overlay_chain :: "version_chain \<Rightarrow> (i64 \<times> u64, closed_interval) btree \<Rightarrow> version_chain" where
  "overlay_chain chain closes =
     map (\<lambda>(k, v). (k, case bt_get closes k of None \<Rightarrow> v | Some interval \<Rightarrow> overlay interval v)) chain"

text \<open>\<open>chains.entry(key).or_default().insert((sys_from, seq), v)\<close>.\<close>

definition chain_insert :: "version \<Rightarrow> key_chains \<Rightarrow> key_chains" where
  "chain_insert v chs =
     bt_insert (v_business_key v)
       (bt_insert (v_sys_from v, v_seq v) v
          (case bt_get chs (v_business_key v) of None \<Rightarrow> bt_empty | Some chain \<Rightarrow> chain)) chs"

text \<open>The inner loop of \<open>fold_chains\<close>: stamp a chain from the key's run of the closes.\<close>

definition stamp_chain :: "(version_key, closed_interval) btree \<Rightarrow> bytes \<Rightarrow> version_chain \<Rightarrow> version_chain" where
  "stamp_chain closes key chain =
     fold (\<lambda>e chain. case bt_get chain (snd (fst e)) of
                       None \<Rightarrow> chain
                     | Some v \<Rightarrow> bt_insert (snd (fst e)) (overlay (snd e) v) chain)
       (mem_range key closes) chain"

definition fold_chains :: "version list \<Rightarrow> validity_index \<Rightarrow> (validity_error + key_chains) \<times> validity_index" where
  "fold_chains versions index =
     (let chs = fold chain_insert versions bt_empty;
          keys = bt_keys chs
      in case closes_for_keys keys index of
           (Inl e, index1) \<Rightarrow> (Inl e, index1)
         | (Inr closes, index1) \<Rightarrow> (Inr (map (\<lambda>(key, chain). (key, stamp_chain closes key chain)) chs), index1))"

definition live_in_chain :: "version_chain \<Rightarrow> i64 \<Rightarrow> version option" where
  "live_in_chain chain snapshot =
     (case bt_last_le (snapshot, U64_MAX) chain of
        None \<Rightarrow> None
      | Some (_, v) \<Rightarrow> if snapshot < v_sys_to v then Some v else None)"

definition resolve_snapshot :: "key_chains \<Rightarrow> i64 \<Rightarrow> version list" where
  "resolve_snapshot chs snapshot = List.map_filter (\<lambda>chain. live_in_chain chain snapshot) (bt_values chs)"

definition resolve_open :: "version list \<Rightarrow> version list \<Rightarrow> bytes \<Rightarrow> i64 \<Rightarrow> validity_index \<Rightarrow>
    (validity_error + version option) \<times> validity_index" where
  "resolve_open delta_versions sealed_versions key t index =
     (let insert_v = (\<lambda>v. bt_insert (v_sys_from v, v_seq v) v);
          chain1 = fold insert_v (filter (\<lambda>v. v_business_key v = key) sealed_versions) bt_empty;
          chain = fold insert_v (filter (\<lambda>v. v_business_key v = key) delta_versions) chain1
      in case closes_for key index of
           (Inl e, index1) \<Rightarrow> (Inl e, index1)
         | (Inr closes, index1) \<Rightarrow> (Inr (live_in_chain (overlay_chain chain closes) t), index1))"

section \<open>The reference: the resolved pool\<close>

definition vkey :: "version \<Rightarrow> version_key" where
  "vkey v = (v_business_key v, v_sys_from v, v_seq v)"

text \<open>The pool as a map; of two versions with one identity the later in the list counts.\<close>

definition pool :: "version list \<Rightarrow> version_key \<Rightarrow> version option" where
  "pool vs = map_of (rev (map (\<lambda>v. (vkey v, v)) vs))"

definition resolve :: "(version_key \<Rightarrow> closed_interval option) \<Rightarrow> version_key \<Rightarrow> version \<Rightarrow> version" where
  "resolve ends k v = (case ends k of None \<Rightarrow> v | Some interval \<Rightarrow> overlay interval v)"

definition resolved :: "(version_key \<Rightarrow> closed_interval option) \<Rightarrow> version list \<Rightarrow> version_key \<Rightarrow> version option" where
  "resolved ends vs k = map_option (resolve ends k) (pool vs k)"

text \<open>The intervals of a key follow one another: a version ends before or when the next one starts.\<close>

definition intervals_ordered :: "(version_key \<Rightarrow> closed_interval option) \<Rightarrow> version list \<Rightarrow> bool" where
  "intervals_ordered ends vs \<longleftrightarrow>
     (\<forall>key a b v. (key, b) \<in> dom (pool vs) \<longrightarrow> resolved ends vs (key, a) = Some v \<longrightarrow> a < b \<longrightarrow> v_sys_to v \<le> fst b)"

definition visible :: "(version_key \<Rightarrow> closed_interval option) \<Rightarrow> version list \<Rightarrow> i64 \<Rightarrow> version set" where
  "visible ends vs t = {v. \<exists>k. resolved ends vs k = Some v \<and> fst (snd k) \<le> t \<and> t < v_sys_to v}"

lemma pool_Nil [simp]: "pool [] = Map.empty"
  by (simp add: pool_def)

lemma pool_snoc: "pool (vs @ [v]) = (pool vs)(vkey v \<mapsto> v)"
  by (simp add: pool_def fun_eq_iff)

lemma pool_vkey: "pool vs k = Some v \<Longrightarrow> vkey v = k \<and> v \<in> set vs"
  by (auto simp: pool_def dest!: map_of_SomeD)

lemma resolve_keeps [simp]:
  "v_business_key (resolve ends k v) = v_business_key v" "v_sys_from (resolve ends k v) = v_sys_from v"
  "v_seq (resolve ends k v) = v_seq v" "v_payload (resolve ends k v) = v_payload v"
  "v_provenance (resolve ends k v) = v_provenance v"
  by (simp_all add: resolve_def overlay_def split: option.splits)

lemma resolved_vkey: "resolved ends vs k = Some v \<Longrightarrow> vkey v = k"
  by (auto simp: resolved_def vkey_def dest!: pool_vkey)

section \<open>Grouping\<close>

definition chains_get :: "key_chains \<Rightarrow> version_key \<Rightarrow> version option" where
  "chains_get chs k = (case bt_get chs (fst k) of None \<Rightarrow> None | Some chain \<Rightarrow> bt_get chain (snd k))"

definition chains_inv :: "key_chains \<Rightarrow> bool" where
  "chains_inv chs \<longleftrightarrow> bt_inv chs \<and> (\<forall>key chain. bt_get chs key = Some chain \<longrightarrow> bt_inv chain)"

lemma chain_insert_inv: "chains_inv chs \<Longrightarrow> chains_inv (chain_insert v chs)"
  by (auto simp: chains_inv_def chain_insert_def bt_empty_def split: option.splits if_splits)

lemma chain_insert_get:
  "chains_inv chs \<Longrightarrow> chains_get (chain_insert v chs) = (chains_get chs)(vkey v \<mapsto> v)"
  by (auto simp: fun_eq_iff chains_get_def chain_insert_def vkey_def bt_empty_def split: option.splits)

lemma fold_chain_insert:
  "chains_inv (fold chain_insert vs bt_empty) \<and> chains_get (fold chain_insert vs bt_empty) = pool vs"
proof (induction vs rule: rev_induct)
  case Nil
  show ?case by (simp add: chains_inv_def chains_get_def fun_eq_iff)
next
  case (snoc v vs)
  then show ?case by (simp add: chain_insert_inv chain_insert_get pool_snoc)
qed

lemma pool_key_in_chains:
  "pool vs k \<noteq> None \<Longrightarrow> fst k \<in> set (bt_keys (fold chain_insert vs bt_empty))"
proof -
  assume "pool vs k \<noteq> None"
  then have "chains_get (fold chain_insert vs bt_empty) k \<noteq> None" using fold_chain_insert [of vs] by simp
  then have "fst k \<in> dom (bt_get (fold chain_insert vs bt_empty))" by (auto simp: chains_get_def split: option.splits)
  then show ?thesis by (simp add: dom_bt_get bt_keys_def)
qed

section \<open>Overlaying\<close>

lemma stamp_fold:
  assumes "distinct (map (\<lambda>e. snd (fst e)) es)" "bt_inv chain"
  shows "bt_inv (fold (\<lambda>e chain. case bt_get chain (snd (fst e)) of None \<Rightarrow> chain
             | Some v \<Rightarrow> bt_insert (snd (fst e)) (overlay (snd e) v) chain) es chain) \<and>
    (\<forall>k. bt_get (fold (\<lambda>e chain. case bt_get chain (snd (fst e)) of None \<Rightarrow> chain
             | Some v \<Rightarrow> bt_insert (snd (fst e)) (overlay (snd e) v) chain) es chain) k =
       map_option (\<lambda>v. case map_of (map (\<lambda>e. (snd (fst e), snd e)) es) k of None \<Rightarrow> v | Some i \<Rightarrow> overlay i v)
         (bt_get chain k))"
  using assms
proof (induction es arbitrary: chain)
  case Nil
  then show ?case by (simp add: option.map_ident)
next
  case (Cons e es)
  let ?c = "case bt_get chain (snd (fst e)) of None \<Rightarrow> chain | Some v \<Rightarrow> bt_insert (snd (fst e)) (overlay (snd e) v) chain"
  have "bt_inv ?c" using Cons.prems(2) by (simp split: option.splits)
  note ih = Cons.IH [OF _ this]
  have out: "map_of (map (\<lambda>e. (snd (fst e), snd e)) es) (snd (fst e)) = None"
    using Cons.prems(1) by (auto simp: map_of_eq_None_iff image_image)
  have "bt_get ?c k = (if k = snd (fst e) then map_option (overlay (snd e)) (bt_get chain k) else bt_get chain k)" for k
    by (simp split: option.splits)
  with ih Cons.prems(1) out show ?case by (auto simp: option.map_comp comp_def split: option.splits)
qed

lemma map_of_mem_range:
  "map_of (map (\<lambda>e. (snd (fst e), snd e)) (mem_range key m)) k = bt_get m (key, k)"
  unfolding mem_range_filter by (induction m) (auto simp: bt_get_def)

lemma distinct_mem_range: "bt_inv m \<Longrightarrow> distinct (map (\<lambda>e. snd (fst e)) (mem_range key m))"
  unfolding mem_range_filter
proof (induction m)
  case (Cons e m)
  have "snd (fst e') \<noteq> snd (fst e)" if "e' \<in> set m" "fst (fst e') = fst (fst e)" for e'
  proof -
    have "fst e < fst e'" using that(1) Cons.prems by (cases e) (auto simp: bt_inv_Cons)
    then show ?thesis using that(2) by (metis less_irrefl prod.collapse)
  qed
  with Cons show ?case by (cases e) (auto simp: bt_inv_Cons)
qed simp

lemma stamp_chain_get:
  assumes "bt_inv closes" "bt_inv chain"
  shows "bt_inv (stamp_chain closes key chain)"
    "bt_get (stamp_chain closes key chain) k = map_option (resolve (bt_get closes) (key, k)) (bt_get chain k)"
  using stamp_fold [OF distinct_mem_range [OF assms(1)] assms(2), of key, THEN conjunct1]
    stamp_fold [OF distinct_mem_range [OF assms(1)] assms(2), of key, THEN conjunct2, THEN spec, of k]
  by (simp_all add: stamp_chain_def map_of_mem_range resolve_def [abs_def])

lemma bt_map_values:
  "bt_inv (map (\<lambda>(k, v). (k, f k v)) m) = bt_inv m" "bt_get (map (\<lambda>(k, v). (k, f k v)) m) k = map_option (f k) (bt_get m k)"
  by (simp add: bt_inv_def comp_def case_prod_beta, induction m) (auto simp: bt_get_def)

lemma overlay_chain_get:
  "bt_inv chain \<Longrightarrow> bt_inv (overlay_chain chain closes)"
  "bt_get (overlay_chain chain closes) k =
     map_option (\<lambda>v. case bt_get closes k of None \<Rightarrow> v | Some interval \<Rightarrow> overlay interval v) (bt_get chain k)"
  using bt_map_values [of "\<lambda>k v. case bt_get closes k of None \<Rightarrow> v | Some interval \<Rightarrow> overlay interval v" chain]
  by (simp_all add: overlay_chain_def)

lemma fold_chains_spec:
  assumes "vi_inv s" "fold_chains vs s = (r, s')"
  shows "vi_same s s'" "r = Inr chs \<Longrightarrow> chains_inv chs" "r = Inr chs \<Longrightarrow> chains_get chs k = resolved (vi_abs s) vs k"
proof -
  let ?c = "fold chain_insert vs bt_empty"
  obtain q s1 where q: "closes_for_keys (bt_keys ?c) s = (q, s1)" by (rule prod.exhaust)
  note spec = closes_for_keys_spec [OF assms(1) q] and grp = fold_chain_insert [of vs]
  show "vi_same s s'" using assms(2) q spec(1) by (cases q) (auto simp: fold_chains_def Let_def)
  assume r: "r = Inr chs"
  obtain closes where c: "q = Inr closes" "chs = map (\<lambda>(key, chain). (key, stamp_chain closes key chain)) ?c"
    using assms(2) q r by (cases q) (auto simp: fold_chains_def Let_def)
  have inv: "bt_inv closes" using spec(2) c(1) by simp
  have get: "bt_get chs key = map_option (stamp_chain closes key) (bt_get ?c key)" for key
    unfolding c(2) by (rule bt_map_values(2))
  have "bt_inv chs" using grp unfolding c(2) bt_map_values(1) by (simp add: chains_inv_def)
  then show "chains_inv chs" using grp get inv stamp_chain_get(1) by (auto simp: chains_inv_def)
  have eq: "chains_get chs k = map_option (resolve (bt_get closes) k) (pool vs k)"
  proof (cases "bt_get ?c (fst k)")
    case None
    then show ?thesis using grp get by (simp add: chains_get_def flip: grp [THEN conjunct2])
  next
    case (Some chain)
    then have "bt_inv chain" using grp by (auto simp: chains_inv_def)
    with Some show ?thesis using get stamp_chain_get(2) [OF inv, of chain "fst k" "snd k"]
      by (simp add: chains_get_def flip: grp [THEN conjunct2])
  qed
  show "chains_get chs k = resolved (vi_abs s) vs k"
  proof (cases "pool vs k")
    case None
    with eq show ?thesis by (simp add: resolved_def)
  next
    case (Some v)
    then have "bt_get closes k = vi_abs s k" using spec(3) [OF c(1)] pool_key_in_chains [of vs k] by simp
    with eq Some show ?thesis by (simp add: resolved_def resolve_def)
  qed
qed

lemma fold_chains_live:
  assumes "vi_inv s" "no_faults (vi_disk s)"
  shows "\<exists>chs. fold_chains vs s = (Inr chs, s)"
  using closes_for_keys_live [OF assms, of "bt_keys (fold chain_insert vs bt_empty)"] by (auto simp: fold_chains_def Let_def)

section \<open>Resolution\<close>

lemma live_in_chain_latest:
  assumes "bt_inv chain"
  shows "live_in_chain chain t = Some v \<longleftrightarrow>
    (\<exists>k. bt_get chain k = Some v \<and> fst k \<le> t \<and> t < v_sys_to v \<and>
       (\<forall>k' v'. bt_get chain k' = Some v' \<longrightarrow> fst k' \<le> t \<longrightarrow> k' \<le> k))"
proof
  assume "live_in_chain chain t = Some v"
  then obtain k where l: "bt_last_le (t, U64_MAX) chain = Some (k, v)" "t < v_sys_to v"
    by (auto simp: live_in_chain_def split: option.splits if_splits)
  with bt_last_le_Some [OF assms l(1)] show "\<exists>k. bt_get chain k = Some v \<and> fst k \<le> t \<and> t < v_sys_to v \<and>
       (\<forall>k' v'. bt_get chain k' = Some v' \<longrightarrow> fst k' \<le> t \<longrightarrow> k' \<le> k)"
    unfolding le_tick by blast
next
  assume "\<exists>k. bt_get chain k = Some v \<and> fst k \<le> t \<and> t < v_sys_to v \<and>
       (\<forall>k' v'. bt_get chain k' = Some v' \<longrightarrow> fst k' \<le> t \<longrightarrow> k' \<le> k)"
  then obtain k where k: "bt_get chain k = Some v" "fst k \<le> t" "t < v_sys_to v"
    "\<And>k' v'. bt_get chain k' = Some v' \<Longrightarrow> fst k' \<le> t \<Longrightarrow> k' \<le> k" by blast
  then have "bt_last_le (t, U64_MAX) chain = Some (k, v)"
    by (intro bt_last_le_eqI [OF assms]) (simp_all add: le_tick)
  with k show "live_in_chain chain t = Some v" by (simp add: live_in_chain_def)
qed

text \<open>On a chain that carries a key's resolved pool, the live version is the visible one.\<close>

lemma live_in_chain_visible:
  assumes "bt_inv chain" "\<And>k. bt_get chain k = resolved ends vs (key, k)" "intervals_ordered ends vs"
  shows "live_in_chain chain t = Some v \<longleftrightarrow> v \<in> visible ends vs t \<and> v_business_key v = key"
proof
  assume "live_in_chain chain t = Some v"
  then obtain k where "resolved ends vs (key, k) = Some v" "fst k \<le> t" "t < v_sys_to v"
    unfolding live_in_chain_latest [OF assms(1)] assms(2) by blast
  then show "v \<in> visible ends vs t \<and> v_business_key v = key"
    using resolved_vkey by (fastforce simp: visible_def vkey_def)
next
  assume "v \<in> visible ends vs t \<and> v_business_key v = key"
  then obtain k where k: "resolved ends vs (key, k) = Some v" "fst k \<le> t" "t < v_sys_to v"
    using resolved_vkey by (fastforce simp: visible_def vkey_def)
  have "k' \<le> k" if "resolved ends vs (key, k') = Some v'" "fst k' \<le> t" for k' v'
  proof (rule ccontr)
    assume "\<not> k' \<le> k"
    moreover have "(key, k') \<in> dom (pool vs)" using that(1) by (auto simp: resolved_def)
    ultimately have "v_sys_to v \<le> fst k'" using assms(3) k(1) unfolding intervals_ordered_def by (metis not_le)
    with k(3) that(2) show False by simp
  qed
  with k show "live_in_chain chain t = Some v"
    unfolding live_in_chain_latest [OF assms(1)] assms(2) by blast
qed

lemma set_resolve_snapshot:
  "v \<in> set (resolve_snapshot chs t) \<longleftrightarrow> (\<exists>e \<in> set chs. live_in_chain (snd e) t = Some v)"
  by (force simp: resolve_snapshot_def List.map_filter_def bt_values_def)

lemma sorted_resolve_snapshot:
  assumes "bt_inv chs" "\<And>key chain v. (key, chain) \<in> set chs \<Longrightarrow> live_in_chain chain t = Some v \<Longrightarrow> v_business_key v = key"
  shows "sorted_wrt (<) (map v_business_key (resolve_snapshot chs t))"
  using assms
proof (induction chs)
  case (Cons e chs)
  then have ih: "sorted_wrt (<) (map v_business_key (resolve_snapshot chs t))" by (cases e) (auto simp: bt_inv_Cons)
  have above: "fst e < v_business_key v" if "v \<in> set (resolve_snapshot chs t)" for v
    using that Cons.prems by (cases e) (fastforce simp: set_resolve_snapshot bt_inv_Cons)
  show ?case
  proof (cases "live_in_chain (snd e) t")
    case None
    with ih show ?thesis by (simp add: resolve_snapshot_def bt_values_def List.map_filter_def)
  next
    case (Some v)
    then have "v_business_key v = fst e" using Cons.prems(2) [of "fst e" "snd e" v] by simp
    moreover have "resolve_snapshot (e # chs) t = v # resolve_snapshot chs t"
      using Some by (simp add: resolve_snapshot_def bt_values_def List.map_filter_def)
    ultimately show ?thesis using ih above by simp
  qed
qed (simp add: resolve_snapshot_def bt_values_def List.map_filter_def)

lemma fold_chains_snapshot:
  assumes "vi_inv s" "intervals_ordered (vi_abs s) vs" "fold_chains vs s = (Inr chs, s')"
  shows "set (resolve_snapshot chs t) = visible (vi_abs s) vs t"
    "sorted_wrt (<) (map v_business_key (resolve_snapshot chs t))" "vi_inv s'" "vi_abs s' = vi_abs s"
proof -
  note f = assms(3)
  note spec = fold_chains_spec [OF assms(1) f] and views = vi_same_views [OF fold_chains_spec(1) [OF assms(1) f]]
  have inv: "bt_inv chs" using spec(2) by (simp add: chains_inv_def)
  have live: "live_in_chain chain t = Some v \<longleftrightarrow> v \<in> visible (vi_abs s) vs t \<and> v_business_key v = key"
    if "(key, chain) \<in> set chs" for key chain v
  proof (rule live_in_chain_visible [OF _ _ assms(2)])
    have get: "bt_get chs key = Some chain" using that inv by (simp add: bt_get_iff)
    then show "bt_inv chain" using spec(2) by (simp add: chains_inv_def)
    show "bt_get chain k = resolved (vi_abs s) vs (key, k)" for k
      using spec(3) [OF refl, of "(key, k)"] get by (simp add: chains_get_def)
  qed
  have "v \<in> set (resolve_snapshot chs t)" if vis: "v \<in> visible (vi_abs s) vs t" for v
  proof -
    obtain k where k: "resolved (vi_abs s) vs k = Some v" using vis by (auto simp: visible_def)
    then obtain chain where "bt_get chs (fst k) = Some chain"
      using spec(3) [OF refl, of k] by (auto simp: chains_get_def split: option.splits)
    moreover have "v_business_key v = fst k" using resolved_vkey [OF k] by (auto simp: vkey_def)
    ultimately show ?thesis using live [of "fst k" chain v] vis bt_get_in_set set_resolve_snapshot by fastforce
  qed
  with live show "set (resolve_snapshot chs t) = visible (vi_abs s) vs t" by (fastforce simp: set_resolve_snapshot)
  show "sorted_wrt (<) (map v_business_key (resolve_snapshot chs t))"
    using live by (intro sorted_resolve_snapshot [OF inv]) simp
  show "vi_inv s'" "vi_abs s' = vi_abs s" using views assms(1) by simp_all
qed

text \<open>
  C30. A snapshot read is correct: folding any pool of versions against a validity index in any state,
  whenever it returns, and resolving at a snapshot yields, in strictly ascending key order and hence at
  most once per key, exactly the versions whose overlaid interval \<open>[sys_from, sys_to)\<close> contains the
  snapshot, provided a key's intervals follow one another (equal start times included, told apart by
  \<open>seq\<close>). The read leaves the index as it was, and returns when no fault is pending.
\<close>

theorem merge_snapshot_read:
  assumes "vi_inv s" "intervals_ordered (vi_abs s) vs"
  shows "(\<forall>chs s'. fold_chains vs s = (Inr chs, s') \<longrightarrow>
       set (resolve_snapshot chs t) = visible (vi_abs s) vs t \<and>
       sorted_wrt (<) (map v_business_key (resolve_snapshot chs t)) \<and> vi_inv s' \<and> vi_abs s' = vi_abs s) \<and>
    (no_faults (vi_disk s) \<longrightarrow> (\<exists>chs. fold_chains vs s = (Inr chs, s)))"
  using fold_chains_snapshot [OF assms] fold_chains_live [OF assms(1)] by blast

lemma open_chain:
  "bt_inv (fold (\<lambda>v. bt_insert (v_sys_from v, v_seq v) v) (filter (\<lambda>v. v_business_key v = key) vs) bt_empty) \<and>
   bt_get (fold (\<lambda>v. bt_insert (v_sys_from v, v_seq v) v) (filter (\<lambda>v. v_business_key v = key) vs) bt_empty) k = pool vs (key, k)"
proof (induction vs rule: rev_induct)
  case (snoc v vs)
  then show ?case by (auto simp: pool_snoc vkey_def)
qed simp

lemma resolve_open_visible:
  assumes "vi_inv s" "intervals_ordered (vi_abs s) (sealed @ staged)" "resolve_open staged sealed key t s = (Inr r, s')"
  shows "r = Some v \<longleftrightarrow> v \<in> visible (vi_abs s) (sealed @ staged) t \<and> v_business_key v = key"
proof -
  let ?c = "fold (\<lambda>v. bt_insert (v_sys_from v, v_seq v) v) (filter (\<lambda>v. v_business_key v = key) (sealed @ staged)) bt_empty"
  from assms(3) obtain closes where c: "closes_for key s = (Inr closes, s')" "r = live_in_chain (overlay_chain ?c closes) t"
    by (auto simp: resolve_open_def Let_def split: sum.splits prod.splits)
  note spec = closes_for_spec [OF assms(1) c(1)]
  note oc = open_chain [of key "sealed @ staged"]
  have get: "bt_get (overlay_chain ?c closes) k = resolved (vi_abs s) (sealed @ staged) (key, k)" for k
    using oc [of k] spec(3) [OF refl, of "fst k" "snd k"]
    by (simp add: overlay_chain_get(2) resolved_def resolve_def [abs_def])
  have inv: "bt_inv (overlay_chain ?c closes)" using oc overlay_chain_get(1) by blast
  show ?thesis unfolding c(2) by (rule live_in_chain_visible [OF inv get assms(2)])
qed

lemma resolve_open_same: "vi_inv s \<Longrightarrow> resolve_open staged sealed key t s = (r, s') \<Longrightarrow> vi_same s s'"
  by (auto simp: resolve_open_def Let_def split: sum.splits prod.splits dest: closes_for_spec(1))

lemma resolve_open_live:
  "vi_inv s \<Longrightarrow> no_faults (vi_disk s) \<Longrightarrow> \<exists>r. resolve_open staged sealed key t s = (Inr r, s)"
  using closes_for_live [of s key] by (auto simp: resolve_open_def Let_def)

text \<open>
  The write path's liveness check agrees with the read path: whenever \<open>resolve_open\<close> returns for a
  key at an instant, it returns the version of that key visible at that instant in the pool of sealed
  and staged versions (the staged copy of an identity shadowing the sealed one), or nothing when none
  is; it leaves the index as it was and returns when no fault is pending.
\<close>

theorem merge_resolve_open:
  assumes "vi_inv s" "intervals_ordered (vi_abs s) (sealed @ staged)"
  shows "(\<forall>r s'. resolve_open staged sealed key t s = (Inr r, s') \<longrightarrow>
       (\<forall>v. r = Some v \<longleftrightarrow> v \<in> visible (vi_abs s) (sealed @ staged) t \<and> v_business_key v = key) \<and>
       vi_inv s' \<and> vi_abs s' = vi_abs s) \<and>
    (no_faults (vi_disk s) \<longrightarrow> (\<exists>r. resolve_open staged sealed key t s = (Inr r, s)))"
proof (intro conjI allI impI)
  fix r s' assume r: "resolve_open staged sealed key t s = (Inr r, s')"
  show "r = Some v \<longleftrightarrow> v \<in> visible (vi_abs s) (sealed @ staged) t \<and> v_business_key v = key" for v
    by (rule resolve_open_visible [OF assms r])
  show "vi_inv s'" "vi_abs s' = vi_abs s" using vi_same_views [OF resolve_open_same [OF assms(1) r]] assms(1) by simp_all
qed (rule resolve_open_live [OF assms(1)])

section \<open>Witnesses\<close>

text \<open>One key: a version closed at 20 by its successor, which is still open.\<close>

definition first_version :: version where
  "first_version = Version_open [107] (i64_of 10) 3 \<lparr>p_txn_id = 8, p_committed_at = i64_of 10, p_principal = []\<rparr> (Some [1])"

definition second_version :: version where
  "second_version = Version_open [107] (i64_of 20) 4 \<lparr>p_txn_id = 9, p_committed_at = i64_of 20, p_principal = []\<rparr> None"

lemma example_pool:
  "pool [first_version, second_version] k =
     (if k = ([107], i64_of 20, 4) then Some second_version else if k = ([107], i64_of 10, 3) then Some first_version else None)"
  by (simp add: pool_def vkey_def first_version_def second_version_def Version_open_def)

lemma example_ordered: "intervals_ordered (vi_abs one_close_index) [first_version, second_version]"
proof -
  have lt: "i64_of 10 < i64_of 20" "\<not> i64_of 20 < i64_of 10"
    by (simp_all add: less_i64_def i64_val_of i64_min_def i64_max_def)
  have "i64_of 10 \<noteq> i64_of 20" using lt by auto
  with lt show ?thesis
    unfolding intervals_ordered_def
    by (auto simp: example_pool resolved_def resolve_def one_close_index_inv example_targets overlay_def less_prod_def
        split: if_splits)
qed

lemma one_close_no_faults: "no_faults (vi_disk one_close_index)"
  using one_close_index_ready by (simp add: vi_ready_def)

theorem merge_snapshot_read_witness:
  "\<exists>chs. fold_chains [first_version, second_version] one_close_index = (Inr chs, one_close_index) \<and>
     set (resolve_snapshot chs (i64_of 15)) = visible (vi_abs one_close_index) [first_version, second_version] (i64_of 15)"
  using merge_snapshot_read [OF one_close_index_inv(1) example_ordered, of "i64_of 15"] one_close_no_faults by blast

theorem merge_resolve_open_witness:
  "\<exists>r. resolve_open [second_version] [first_version] [107] (i64_of 25) one_close_index = (Inr r, one_close_index) \<and>
     (r = Some second_version \<longleftrightarrow> second_version \<in> visible (vi_abs one_close_index) ([first_version] @ [second_version]) (i64_of 25) \<and>
        v_business_key second_version = [107])"
proof -
  have "intervals_ordered (vi_abs one_close_index) ([first_version] @ [second_version])" using example_ordered by simp
  from merge_resolve_open [OF one_close_index_inv(1) this, of "[107]" "i64_of 25"] one_close_no_faults show ?thesis by blast
qed

end
