(* ===== verification/Mem_Tier.thy ===== *)
theory Mem_Tier
  imports Merge
begin

text \<open>
  The resident half of the delta tier (\<open>delta/mem.rs\<close>): versions grouped by business key, each group
  ordered by \<open>(sys_from, seq)\<close>, with a running count of their encoded bytes. The lemmas relate the
  grouped representation to the plain map from identities to versions and show that the byte count is
  exact.
\<close>

section \<open>The tier\<close>

record mem_tier =
  mt_rows :: key_chains
  mt_byte_size :: nat

definition MemTier_new :: mem_tier where
  "MemTier_new = \<lparr>mt_rows = bt_empty, mt_byte_size = 0\<rparr>"

definition MemTier_insert :: "version \<Rightarrow> mem_tier \<Rightarrow> mem_tier" where
  "MemTier_insert v t =
     (let added = Version_encoded_size v;
          chain = (case bt_get (mt_rows t) (v_business_key v) of None \<Rightarrow> bt_empty | Some chain \<Rightarrow> chain);
          size = (case bt_get chain (v_sys_from v, v_seq v) of
                    None \<Rightarrow> mt_byte_size t
                  | Some prev \<Rightarrow> mt_byte_size t - Version_encoded_size prev)
      in \<lparr>mt_rows = bt_insert (v_business_key v) (bt_insert (v_sys_from v, v_seq v) v chain) (mt_rows t),
          mt_byte_size = u64_saturating_add size added\<rparr>)"

definition MemTier_remove :: "bytes \<Rightarrow> i64 \<Rightarrow> u64 \<Rightarrow> mem_tier \<Rightarrow> bool \<times> mem_tier" where
  "MemTier_remove business_key sys_from seq t =
     (case bt_get (mt_rows t) business_key of
        None \<Rightarrow> (False, t)
      | Some chain \<Rightarrow>
          (case bt_get chain (sys_from, seq) of
             None \<Rightarrow> (False, t)
           | Some removed \<Rightarrow>
               (let chain' = bt_remove (sys_from, seq) chain
                in (True, \<lparr>mt_rows = (if chain' = [] then bt_remove business_key (mt_rows t)
                                       else bt_insert business_key chain' (mt_rows t)),
                          mt_byte_size = mt_byte_size t - Version_encoded_size removed\<rparr>))))"

definition MemTier_len :: "mem_tier \<Rightarrow> nat" where
  "MemTier_len t = sum_list (map length (bt_values (mt_rows t)))"

text \<open>\<open>rows.values().flat_map(|chain| chain.values())\<close>, also the order a drain yields.\<close>

definition chain_values :: "key_chains \<Rightarrow> version list" where
  "chain_values chs = concat (map bt_values (bt_values chs))"

definition MemTier_iter :: "mem_tier \<Rightarrow> version list" where
  "MemTier_iter t = chain_values (mt_rows t)"

definition MemTier_drain_sorted :: "mem_tier \<Rightarrow> version list \<times> mem_tier" where
  "MemTier_drain_sorted t = (chain_values (mt_rows t), \<lparr>mt_rows = bt_empty, mt_byte_size = 0\<rparr>)"

section \<open>Grouped rows as a map\<close>

text \<open>Every version sits under its own identity and no group is empty.\<close>

definition rows_inv :: "key_chains \<Rightarrow> bool" where
  "rows_inv chs \<longleftrightarrow> chains_inv chs \<and> (\<forall>k v. chains_get chs k = Some v \<longrightarrow> vkey v = k) \<and>
     (\<forall>key. bt_get chs key \<noteq> Some [])"

lemma rows_invD:
  assumes "rows_inv chs"
  shows "chains_inv chs" "bt_inv chs" "bt_get chs key = Some chain \<Longrightarrow> bt_inv chain"
    "bt_get chs key = Some chain \<Longrightarrow> chain \<noteq> []" "chains_get chs k = Some v \<Longrightarrow> vkey v = k"
  using assms unfolding rows_inv_def chains_inv_def by blast+

lemma rows_inv_empty [simp]: "rows_inv bt_empty" "rows_inv []"
  by (simp_all add: rows_inv_def chains_inv_def chains_get_def)

lemma rows_inv_insert: "rows_inv chs \<Longrightarrow> rows_inv (chain_insert v chs)"
proof -
  assume inv: "rows_inv chs"
  have "bt_insert k v chain \<noteq> []" for k and chain :: version_chain
    by (cases chain) (auto split: if_splits)
  moreover have "chains_get (chain_insert v chs) = (chains_get chs)(vkey v \<mapsto> v)"
    using inv by (intro chain_insert_get) (simp add: rows_inv_def)
  moreover have "chains_inv (chain_insert v chs)" using inv by (simp add: rows_inv_def chain_insert_inv)
  moreover have "bt_get (chain_insert v chs) key \<noteq> Some []" for key
    using inv \<open>\<And>k chain. bt_insert k v chain \<noteq> []\<close> by (simp add: rows_inv_def chain_insert_def)
  ultimately show ?thesis using inv by (simp add: rows_inv_def)
qed

lemma chain_values_empty [simp]: "chain_values bt_empty = []" "chain_values [] = []"
  by (simp_all add: chain_values_def bt_empty_def bt_values_def)

lemma set_chain_values:
  assumes "rows_inv chs"
  shows "v \<in> set (chain_values chs) \<longleftrightarrow> chains_get chs (vkey v) = Some v"
proof
  assume "v \<in> set (chain_values chs)"
  then obtain key chain k where "(key, chain) \<in> set chs" "(k, v) \<in> set chain"
    by (auto simp: chain_values_def bt_values_def)
  then have "chains_get chs (key, k) = Some v"
    using rows_invD(2,3) [OF assms] by (simp add: chains_get_def flip: bt_get_iff)
  then show "chains_get chs (vkey v) = Some v" using rows_invD(5) [OF assms] by metis
next
  assume "chains_get chs (vkey v) = Some v"
  then obtain chain where "bt_get chs (fst (vkey v)) = Some chain" "bt_get chain (snd (vkey v)) = Some v"
    by (auto simp: chains_get_def split: option.splits)
  then show "v \<in> set (chain_values chs)" by (force simp: chain_values_def bt_values_def dest: bt_get_in_set)
qed

lemma sorted_chain_values:
  assumes "bt_inv chs" "\<And>key chain. (key, chain) \<in> set chs \<Longrightarrow> bt_inv chain \<and> map vkey (bt_values chain) = map (\<lambda>e. (key, fst e)) chain"
  shows "sorted_wrt (<) (map vkey (chain_values chs))"
  using assms
proof (induction chs)
  case (Cons e chs)
  obtain key chain where e: "e = (key, chain)" by (rule prod.exhaust)
  with Cons.prems have inv: "bt_inv chs" "\<forall>k \<in> set (map fst chs). key < k" and chain: "bt_inv chain"
      "map vkey (bt_values chain) = map (\<lambda>e. (key, fst e)) chain"
    by (auto simp: bt_inv_Cons)
  have "sorted_wrt (<) (map vkey (chain_values chs))" 
    by (rule Cons.IH [OF inv(1)]) (rule Cons.prems(2), simp)
  moreover have "sorted_wrt (<) (map vkey (bt_values chain))"
    using chain by (simp add: bt_inv_def sorted_wrt_map less_prod_def)
  moreover have "a < b" if "a \<in> set (map vkey (bt_values chain))" "b \<in> set (map vkey (chain_values chs))" for a b
  proof -
    have "fst a = key" using that(1) unfolding chain(2) by auto
    moreover from that(2) obtain key' chain' where k': "(key', chain') \<in> set chs" "b \<in> set (map vkey (bt_values chain'))"
      by (fastforce simp: chain_values_def bt_values_def)
    moreover have "fst b = key'" using k'(2) Cons.prems(2) [of key' chain'] k'(1) by auto
    ultimately have "fst a < fst b" using inv(2) by force
    then show ?thesis by (simp add: less_prod_def')
  qed
  moreover have "chain_values (e # chs) = bt_values chain @ chain_values chs" by (simp add: e chain_values_def bt_values_def)
  ultimately show ?case unfolding \<open>chain_values (e # chs) = _\<close> map_append sorted_wrt_append by blast
qed simp

lemma rows_sorted:
  assumes "rows_inv chs"
  shows "sorted_wrt (<) (map vkey (chain_values chs))" "distinct (map vkey (chain_values chs))"
proof -
  show "sorted_wrt (<) (map vkey (chain_values chs))"
  proof (rule sorted_chain_values)
    show "bt_inv chs" by (rule rows_invD(2) [OF assms])
    fix key chain assume "(key, chain) \<in> set chs"
    then have get: "bt_get chs key = Some chain" using rows_invD(2) [OF assms] by (simp add: bt_get_iff)
    then have inv: "bt_inv chain" by (rule rows_invD(3) [OF assms])
    have "vkey v = (key, k)" if "(k, v) \<in> set chain" for k v
      using that get inv by (intro rows_invD(5) [OF assms]) (simp add: chains_get_def bt_get_iff)
    then show "bt_inv chain \<and> map vkey (bt_values chain) = map (\<lambda>e. (key, fst e)) chain"
      using inv by (auto simp: bt_values_def)
  qed
  then show "distinct (map vkey (chain_values chs))" by (simp add: strict_sorted_iff)
qed

text \<open>A list of versions with distinct identities, as a map.\<close>

lemma pool_distinct: "distinct (map vkey vs) \<Longrightarrow> pool vs k = Some v \<longleftrightarrow> v \<in> set vs \<and> vkey v = k"
  by (auto simp: pool_def rev_map comp_def distinct_map dest: inj_onD)

lemma pool_chain_values: "rows_inv chs \<Longrightarrow> pool (chain_values chs) = chains_get chs"
proof -
  assume inv: "rows_inv chs"
  have "pool (chain_values chs) k = Some v \<longleftrightarrow> chains_get chs k = Some v" for k v
    using pool_distinct [OF rows_sorted(2) [OF inv], of k v] set_chain_values [OF inv, of v] rows_invD(5) [OF inv, of k v]
    by auto
  then show ?thesis by (metis ext not_None_eq)
qed

section \<open>The operations on that map\<close>

definition mt_abs :: "mem_tier \<Rightarrow> version_key \<Rightarrow> version option" where
  "mt_abs t = chains_get (mt_rows t)"

definition mt_inv :: "mem_tier \<Rightarrow> bool" where
  "mt_inv t \<longleftrightarrow> rows_inv (mt_rows t)"

lemma MemTier_insert_rows: "mt_rows (MemTier_insert v t) = chain_insert v (mt_rows t)"
  by (simp add: MemTier_insert_def Let_def chain_insert_def)

lemma MemTier_insert_spec:
  assumes "mt_inv t"
  shows "mt_inv (MemTier_insert v t)" "mt_abs (MemTier_insert v t) = (mt_abs t)(vkey v \<mapsto> v)"
  using assms by (simp_all add: mt_inv_def mt_abs_def MemTier_insert_rows rows_inv_insert chain_insert_get rows_invD(1))

lemma MemTier_iter_spec:
  assumes "mt_inv t"
  shows "pool (MemTier_iter t) = mt_abs t" "sorted_wrt (<) (map vkey (MemTier_iter t))"
    "distinct (map vkey (MemTier_iter t))" "v \<in> set (MemTier_iter t) \<longleftrightarrow> mt_abs t (vkey v) = Some v"
  using assms by (simp_all add: mt_inv_def mt_abs_def MemTier_iter_def pool_chain_values rows_sorted set_chain_values)

lemma mt_new [simp]: "mt_inv MemTier_new" "mt_abs MemTier_new = Map.empty" "MemTier_iter MemTier_new = []"
  "mt_byte_size MemTier_new = 0"
  by (simp_all add: mt_inv_def mt_abs_def MemTier_new_def MemTier_iter_def chains_get_def fun_eq_iff)

lemma MemTier_drain_eq: "MemTier_drain_sorted t = (MemTier_iter t, MemTier_new)"
  by (simp add: MemTier_drain_sorted_def MemTier_iter_def MemTier_new_def)

lemma MemTier_len_eq: "MemTier_len t = length (MemTier_iter t)"
  by (simp add: MemTier_len_def MemTier_iter_def chain_values_def length_concat comp_def bt_values_def)

lemma mt_abs_eqI: "mt_inv t \<Longrightarrow> mt_inv u \<Longrightarrow> mt_abs t = mt_abs u \<Longrightarrow> mt_rows t = mt_rows u"
proof -
  assume a: "mt_inv t" "mt_inv u" "mt_abs t = mt_abs u"
  note r = rows_invD [of "mt_rows t"] rows_invD [of "mt_rows u"]
  have eq: "\<And>k. chains_get (mt_rows t) k = chains_get (mt_rows u) k" using a(3) by (simp add: mt_abs_def)
  have inner: "c = c'" if "bt_get (mt_rows t) key = Some c" "bt_get (mt_rows u) key = Some c'" for key c c'
    using that a r eq [of "(key, k)" for k] by (intro bt_eqI) (auto simp: mt_inv_def chains_get_def)
  have nonempty: "\<exists>k. chains_get m (key, k) \<noteq> None" if "rows_inv m" "bt_get m key = Some c" for m key c
  proof -
    have "c \<noteq> []" using that by (rule rows_invD(4))
    then obtain k v c' where "c = (k, v) # c'" by (cases c) auto
    with that have "chains_get m (key, k) = Some v" by (simp add: chains_get_def bt_get_def)
    then show ?thesis by (intro exI [of _ k]) simp
  qed
  have none: "bt_get (mt_rows t) key = None \<longleftrightarrow> bt_get (mt_rows u) key = None" for key
  proof -
    have "chains_get m (key, k) = None" if "bt_get m key = None" for m k using that by (simp add: chains_get_def)
    then show ?thesis using nonempty a(1,2) eq unfolding mt_inv_def by (metis not_Some_eq)
  qed
  show ?thesis
  proof (rule bt_eqI)
    show "bt_get (mt_rows t) key = bt_get (mt_rows u) key" for key
      using none [of key] inner [of key] by (cases "bt_get (mt_rows t) key") auto
  qed (use a r in \<open>simp_all add: mt_inv_def\<close>)
qed

lemma MemTier_remove_spec:
  assumes "mt_inv t" "MemTier_remove key sf seq t = (b, t')"
  shows "mt_inv t'" "b \<longleftrightarrow> mt_abs t (key, sf, seq) \<noteq> None" "mt_abs t' = (mt_abs t)((key, sf, seq) := None)"
proof -
  note inv = rows_invD [OF assms(1) [unfolded mt_inv_def]]
  consider (absent) "mt_abs t (key, sf, seq) = None" "b = False" "t' = t"
    | (present) chain v where "bt_get (mt_rows t) key = Some chain" "bt_get chain (sf, seq) = Some v" "b"
        "mt_rows t' = (if bt_remove (sf, seq) chain = [] then bt_remove key (mt_rows t)
                       else bt_insert key (bt_remove (sf, seq) chain) (mt_rows t))"
    using assms(2) by (auto simp: MemTier_remove_def mt_abs_def chains_get_def Let_def split: option.splits)
  then have "mt_inv t' \<and> (b \<longleftrightarrow> mt_abs t (key, sf, seq) \<noteq> None) \<and> mt_abs t' = (mt_abs t)((key, sf, seq) := None)"
  proof cases
    case absent
    with assms(1) show ?thesis by (simp add: fun_upd_idem)
  next
    case present
    have chain: "bt_inv chain" using inv(3) present(1) .
    have abs: "chains_get (mt_rows t') = (chains_get (mt_rows t))((key, sf, seq) := None)"
    proof (rule ext)
      fix k
      show "chains_get (mt_rows t') k = ((chains_get (mt_rows t))((key, sf, seq) := None)) k"
      proof (cases "bt_remove (sf, seq) chain = []")
        case True
        then have "bt_get chain x = None" if "x \<noteq> (sf, seq)" for x
          using that bt_get_remove [of "(sf, seq)" chain x] by simp
        with True present show ?thesis by (cases k) (auto simp: chains_get_def)
      next
        case False
        with present show ?thesis by (cases k) (auto simp: chains_get_def)
      qed
    qed
    have "vkey v = k" if "chains_get (mt_rows t') k = Some v" for k v
      using that inv(5) [of k v] unfolding abs by (auto split: if_splits)
    moreover have "chains_inv (mt_rows t')"
      using present(4) inv(1) chain by (auto simp: chains_inv_def split: if_splits)
    moreover have "bt_get (mt_rows t') key' \<noteq> Some []" for key'
      using present(4) inv(4) [of key' "[]"] by (auto split: if_splits)
    ultimately have "mt_inv t'" unfolding mt_inv_def rows_inv_def by blast
    then show ?thesis using abs present by (simp add: mt_abs_def chains_get_def)
  qed
  then show "mt_inv t'" "b \<longleftrightarrow> mt_abs t (key, sf, seq) \<noteq> None" "mt_abs t' = (mt_abs t)((key, sf, seq) := None)"
    by auto
qed

section \<open>The byte count\<close>

definition mt_bytes :: "mem_tier \<Rightarrow> nat" where
  "mt_bytes t = sum_list (map Version_encoded_size (MemTier_iter t))"

text \<open>The counter never overstates the resident bytes; \<open>mt_exact\<close> is that it is exact.\<close>

definition mt_exact :: "mem_tier \<Rightarrow> bool" where
  "mt_exact t \<longleftrightarrow> mt_byte_size t = mt_bytes t"

lemma mt_bytes_sum: "mt_inv t \<Longrightarrow> mt_bytes t = (\<Sum>v | mt_abs t (vkey v) = Some v. Version_encoded_size v)"
proof -
  assume inv: "mt_inv t"
  have "distinct (MemTier_iter t)" using MemTier_iter_spec(3) [OF inv] by (simp add: distinct_map)
  moreover have "set (MemTier_iter t) = {v. mt_abs t (vkey v) = Some v}" using MemTier_iter_spec(4) [OF inv] by auto
  ultimately show ?thesis by (simp add: mt_bytes_def sum_list_distinct_conv_sum_set)
qed

lemma mt_finite: "mt_inv t \<Longrightarrow> finite {v. mt_abs t (vkey v) = Some v}"
  using MemTier_iter_spec(4) [of t] by (metis (mono_tags) finite_set mem_Collect_eq subsetI finite_subset)

lemma mt_vkey: "mt_inv t \<Longrightarrow> mt_abs t k = Some v \<Longrightarrow> vkey v = k"
  by (simp add: mt_inv_def mt_abs_def rows_invD(5))

lemma mt_bytes_take_out:
  assumes "mt_inv t" "mt_inv u" "mt_abs u = (mt_abs t)(k := None)"
  shows "mt_bytes t = mt_bytes u + (case mt_abs t k of None \<Rightarrow> 0 | Some v \<Rightarrow> Version_encoded_size v)"
proof (cases "mt_abs t k")
  case None
  with assms(3) have "mt_abs u = mt_abs t" by (simp add: fun_upd_idem)
  with None assms(1,2) show ?thesis by (simp add: mt_bytes_sum)
next
  case (Some v)
  have k: "vkey v = k" using mt_vkey [OF assms(1) Some] .
  have "{w. mt_abs t (vkey w) = Some w} = insert v {w. mt_abs u (vkey w) = Some w}"
    using Some k by (auto simp: assms(3))
  moreover have "v \<notin> {w. mt_abs u (vkey w) = Some w}" using k by (simp add: assms(3))
  ultimately show ?thesis using Some mt_finite [OF assms(2)] assms(1,2) by (simp add: mt_bytes_sum)
qed

lemma MemTier_insert_bytes:
  assumes "mt_inv t"
  shows "mt_bytes (MemTier_insert v t) +
      (case mt_abs t (vkey v) of None \<Rightarrow> 0 | Some w \<Rightarrow> Version_encoded_size w) = mt_bytes t + Version_encoded_size v"
    "(case mt_abs t (vkey v) of None \<Rightarrow> 0 | Some w \<Rightarrow> Version_encoded_size w) \<le> mt_bytes t"
proof -
  obtain b u where u: "MemTier_remove (v_business_key v) (v_sys_from v) (v_seq v) t = (b, u)" by (rule prod.exhaust)
  note r = MemTier_remove_spec [OF assms u] and i = MemTier_insert_spec [OF assms, of v]
  have ku: "mt_abs u = (mt_abs t)(vkey v := None)" using r(3) by (simp add: vkey_def)
  have out: "mt_bytes t = mt_bytes u + (case mt_abs t (vkey v) of None \<Rightarrow> 0 | Some w \<Rightarrow> Version_encoded_size w)"
    by (rule mt_bytes_take_out [OF assms r(1) ku])
  moreover have "mt_bytes (MemTier_insert v t) = mt_bytes u + Version_encoded_size v"
    using mt_bytes_take_out [OF i(1) r(1), of "vkey v"] ku i(2) by simp
  ultimately show "mt_bytes (MemTier_insert v t) +
      (case mt_abs t (vkey v) of None \<Rightarrow> 0 | Some w \<Rightarrow> Version_encoded_size w) = mt_bytes t + Version_encoded_size v" by simp
  show "(case mt_abs t (vkey v) of None \<Rightarrow> 0 | Some w \<Rightarrow> Version_encoded_size w) \<le> mt_bytes t"
    using out by simp
qed

lemma MemTier_insert_size:
  "mt_byte_size (MemTier_insert v t) = u64_saturating_add
     (mt_byte_size t - (case mt_abs t (vkey v) of None \<Rightarrow> 0 | Some w \<Rightarrow> Version_encoded_size w)) (Version_encoded_size v)"
  by (simp add: MemTier_insert_def Let_def mt_abs_def chains_get_def vkey_def split: option.splits)

lemma MemTier_remove_size:
  "MemTier_remove key sf seq t = (b, t') \<Longrightarrow> mt_byte_size t' =
     mt_byte_size t - (case mt_abs t (key, sf, seq) of None \<Rightarrow> 0 | Some w \<Rightarrow> Version_encoded_size w)"
  by (auto simp: MemTier_remove_def Let_def mt_abs_def chains_get_def split: option.splits)

lemma mt_exact_insert:
  assumes "mt_inv t" "mt_exact t" "mt_bytes t + Version_encoded_size v < 2 ^ 64"
  shows "mt_exact (MemTier_insert v t)"
  using assms MemTier_insert_bytes [OF assms(1), of v]
  by (auto simp: mt_exact_def MemTier_insert_size u64_saturating_add_def min_def split: option.splits)

lemma mt_exact_remove:
  assumes "mt_inv t" "mt_exact t" "MemTier_remove key sf seq t = (b, t')"
  shows "mt_exact t'"
proof -
  note r = MemTier_remove_spec [OF assms(1,3)]
  show ?thesis using assms(2) MemTier_remove_size [OF assms(3)] mt_bytes_take_out [OF assms(1) r(1) r(3)]
    by (simp add: mt_exact_def)
qed

end
