(* ===== verification/Delta.thy ===== *)
theory Delta
  imports Mem_Tier
begin

text \<open>
  The delta tier (\<open>delta/mod.rs\<close>, \<open>delta/spill.rs\<close>): recent versions, resident ones in a \<open>MemTier\<close>,
  older ones frozen into numbered spill files, and the staged retractions. The tier owns its disk; a
  read returns the tier it leaves behind because the disk carries an arbitrary fault schedule. The
  abstraction \<open>delta_abs\<close> is the map from identities to staged versions. Spill indices are natural
  numbers, \<open>usize\<close> is 64 bits.
\<close>

section \<open>Spill files\<close>

fun encode_versions :: "version list \<Rightarrow> bytes \<Rightarrow> delta_error + bytes" where
  "encode_versions [] buf = Inr buf"
| "encode_versions (v # vs) buf = result_bind (Version_encode v buf) (encode_versions vs)"

definition delta_write_spill :: "nat \<Rightarrow> version list \<Rightarrow> mem_disk \<Rightarrow> (delta_error + unit) \<times> mem_disk" where
  "delta_write_spill index rows d =
     (case disk_create (delta_spill_name index) d of
        (Inl e, d1) \<Rightarrow> (Inl (DIo e), d1)
      | (Inr file, d1) \<Rightarrow>
          (case encode_versions rows [] of
             Inl e \<Rightarrow> (Inl e, d1)
           | Inr buf \<Rightarrow>
               (case file_append file buf d1 of
                  (Inl e, d2) \<Rightarrow> (Inl (DIo e), d2)
                | (Inr _, d2) \<Rightarrow>
                    (case file_sync file d2 of
                       (Inl e, d3) \<Rightarrow> (Inl (DIo e), d3)
                     | (Inr _, d3) \<Rightarrow> (Inr (), d3)))))"

definition delta_read_spill :: "nat \<Rightarrow> mem_disk \<Rightarrow> (delta_error + version list) \<times> mem_disk" where
  "delta_read_spill index d =
     (case read_spill_bytes (delta_spill_name index) d of
        (Inl e, d1) \<Rightarrow> (Inl (DIo e), d1)
      | (Inr buf, d1) \<Rightarrow> (decode_versions buf, d1))"

definition delta_list_spills :: "mem_disk \<Rightarrow> (io_error + nat list) \<times> mem_disk" where
  "delta_list_spills d =
     (case disk_list d of
        (Inl e, d1) \<Rightarrow> (Inl e, d1)
      | (Inr names, d1) \<Rightarrow> (Inr (sort (List.map_filter delta_spill_index_of names)), d1))"

definition delta_remove_spill :: "nat \<Rightarrow> mem_disk \<Rightarrow> (io_error + unit) \<times> mem_disk" where
  "delta_remove_spill index d =
     (case disk_remove (delta_spill_name index) d of
        (Inr _, d1) \<Rightarrow> (Inr (), d1)
      | (Inl e, d1) \<Rightarrow> if io_kind e = NotFound then (Inr (), d1) else (Inl e, d1))"

text \<open>The loop of \<open>discard_stale_spills\<close>, which stops at the first other error.\<close>

fun delta_remove_spills :: "nat list \<Rightarrow> mem_disk \<Rightarrow> (io_error + unit) \<times> mem_disk" where
  "delta_remove_spills [] d = (Inr (), d)"
| "delta_remove_spills (idx # rest) d =
     (case disk_remove (delta_spill_name idx) d of
        (Inr _, d1) \<Rightarrow> delta_remove_spills rest d1
      | (Inl e, d1) \<Rightarrow> if io_kind e = NotFound then delta_remove_spills rest d1 else (Inl e, d1))"

definition delta_discard_stale_spills :: "mem_disk \<Rightarrow> (io_error + unit) \<times> mem_disk" where
  "delta_discard_stale_spills d =
     (case delta_list_spills d of
        (Inl e, d1) \<Rightarrow> (Inl e, d1)
      | (Inr idxs, d1) \<Rightarrow> delta_remove_spills idxs d1)"

section \<open>The tier\<close>

record delta =
  dl_disk :: mem_disk
  dl_threshold :: nat
  dl_mem :: mem_tier
  dl_next_spill :: nat
  dl_live_spills :: "nat list"
  dl_spilled_rows :: nat
  dl_retractions :: "(version_key, close) btree"

definition Delta_open :: "mem_disk \<Rightarrow> nat \<Rightarrow> (delta_error + delta) \<times> mem_disk" where
  "Delta_open d threshold =
     (case delta_list_spills d of
        (Inl e, d1) \<Rightarrow> (Inl (DIo e), d1)
      | (Inr existing, d1) \<Rightarrow>
          (let next_spill_index = (if existing = [] then 0 else last existing + 1) in
           case delta_discard_stale_spills d1 of
             (Inl e, d2) \<Rightarrow> (Inl (DIo e), d2)
           | (Inr _, d2) \<Rightarrow>
               (Inr \<lparr>dl_disk = d2, dl_threshold = threshold, dl_mem = MemTier_new, dl_next_spill = next_spill_index,
                     dl_live_spills = [], dl_spilled_rows = 0, dl_retractions = bt_empty\<rparr>, d2)))"

definition delta_spill_in_memory :: "delta \<Rightarrow> (delta_error + unit) \<times> delta" where
  "delta_spill_in_memory s =
     (case MemTier_drain_sorted (dl_mem s) of (rows, mem') \<Rightarrow>
       (let s1 = s\<lparr>dl_mem := mem'\<rparr> in
        if rows = [] then (Inr (), s1)
        else (let idx = dl_next_spill s1;
                  s2 = s1\<lparr>dl_next_spill := idx + 1\<rparr>
              in case delta_write_spill idx rows (dl_disk s2) of
                   (Inl e, d) \<Rightarrow> (Inl e, s2\<lparr>dl_disk := d\<rparr>)
                 | (Inr _, d) \<Rightarrow>
                     (Inr (), s2\<lparr>dl_disk := d, dl_live_spills := dl_live_spills s2 @ [idx],
                                dl_spilled_rows := dl_spilled_rows s2 + length rows\<rparr>))))"

definition delta_insert_inner :: "version \<Rightarrow> bool \<Rightarrow> delta \<Rightarrow> (delta_error + unit) \<times> delta" where
  "delta_insert_inner v allow_spill s =
     (case Version_check_encodable v of
        Inl e \<Rightarrow> (Inl e, s)
      | Inr _ \<Rightarrow>
          (let incoming = Version_encoded_size v;
               projected = u64_saturating_add (mt_byte_size (dl_mem s)) incoming
           in case (if allow_spill \<and> dl_threshold s < projected \<and> 0 < mt_byte_size (dl_mem s)
                    then delta_spill_in_memory s else (Inr (), s)) of
                (Inl e, s1) \<Rightarrow> (Inl e, s1)
              | (Inr _, s1) \<Rightarrow> (Inr (), s1\<lparr>dl_mem := MemTier_insert v (dl_mem s1)\<rparr>)))"

definition delta_insert :: "version \<Rightarrow> delta \<Rightarrow> (delta_error + unit) \<times> delta" where
  "delta_insert v = delta_insert_inner v True"

definition delta_insert_resident :: "version \<Rightarrow> delta \<Rightarrow> (delta_error + unit) \<times> delta" where
  "delta_insert_resident v = delta_insert_inner v False"

definition remove_version :: "bytes \<Rightarrow> i64 \<Rightarrow> u64 \<Rightarrow> delta \<Rightarrow> bool \<times> delta" where
  "remove_version business_key sys_from seq s =
     (case MemTier_remove business_key sys_from seq (dl_mem s) of (b, mem') \<Rightarrow> (b, s\<lparr>dl_mem := mem'\<rparr>))"

definition remove_retraction :: "bytes \<Rightarrow> i64 \<Rightarrow> u64 \<Rightarrow> delta \<Rightarrow> bool \<times> delta" where
  "remove_retraction business_key sys_from seq s =
     (bt_get (dl_retractions s) (business_key, sys_from, seq) \<noteq> None,
      s\<lparr>dl_retractions := bt_remove (business_key, sys_from, seq) (dl_retractions s)\<rparr>)"

definition delta_byte_size :: "delta \<Rightarrow> nat" where
  "delta_byte_size s = mt_byte_size (dl_mem s)"

definition is_spilled :: "delta \<Rightarrow> bool" where
  "is_spilled s \<longleftrightarrow> dl_live_spills s \<noteq> []"

section \<open>Reads\<close>

datatype key_bound = Bound_Included bytes | Bound_Excluded bytes | Bound_Unbounded

definition in_range :: "bytes \<Rightarrow> key_bound \<times> key_bound \<Rightarrow> bool" where
  "in_range key bounds =
     (let above_start = (case fst bounds of
                           Bound_Included s \<Rightarrow> s \<le> key | Bound_Excluded s \<Rightarrow> s < key | Bound_Unbounded \<Rightarrow> True);
          below_end = (case snd bounds of
                         Bound_Included e \<Rightarrow> key \<le> e | Bound_Excluded e \<Rightarrow> key < e | Bound_Unbounded \<Rightarrow> True)
      in above_start \<and> below_end)"

definition range_scan :: "key_bound \<times> key_bound \<Rightarrow> i64 \<Rightarrow> delta \<Rightarrow> validity_index \<Rightarrow>
    (delta_error + version list) \<times> delta \<times> validity_index" where
  "range_scan bounds snapshot s index =
     (case spill_loop delta_read_spill (\<lambda>v out. if in_range (v_business_key v) bounds then out @ [v] else out)
             (dl_live_spills s) (filter (\<lambda>v. in_range (v_business_key v) bounds) (MemTier_iter (dl_mem s))) (dl_disk s) of
        (Inl e, d) \<Rightarrow> (Inl e, s\<lparr>dl_disk := d\<rparr>, index)
      | (Inr candidates, d) \<Rightarrow>
          (case fold_chains candidates index of
             (Inl e, index1) \<Rightarrow> (Inl (DValidity e), s\<lparr>dl_disk := d\<rparr>, index1)
           | (Inr chs, index1) \<Rightarrow> (Inr (resolve_snapshot chs snapshot), s\<lparr>dl_disk := d\<rparr>, index1)))"

definition merge_staged :: "delta \<Rightarrow> (delta_error + version list) \<times> delta" where
  "merge_staged s =
     (case spill_loop delta_read_spill chain_insert (dl_live_spills s)
             (fold chain_insert (MemTier_iter (dl_mem s)) bt_empty) (dl_disk s) of
        (Inl e, d) \<Rightarrow> (Inl e, s\<lparr>dl_disk := d\<rparr>)
      | (Inr merged, d) \<Rightarrow> (Inr (chain_values merged), s\<lparr>dl_disk := d\<rparr>))"

text \<open>\<open>let _ = spill::remove_spill(..)\<close> over the taken spill list: every failure is ignored.\<close>

fun drop_spills :: "nat list \<Rightarrow> mem_disk \<Rightarrow> mem_disk" where
  "drop_spills [] d = d"
| "drop_spills (idx # rest) d = drop_spills rest (snd (delta_remove_spill idx d))"

definition flush_to_segment :: "delta \<Rightarrow> (delta_error + version list) \<times> delta" where
  "flush_to_segment s =
     (case merge_staged s of
        (Inl e, s1) \<Rightarrow> (Inl e, s1)
      | (Inr out, s1) \<Rightarrow>
          (let spills = dl_live_spills s1
           in (Inr out, s1\<lparr>dl_live_spills := [], dl_mem := MemTier_new, dl_spilled_rows := 0,
                          dl_disk := drop_spills spills (dl_disk s1)\<rparr>)))"

definition staged_versions :: "delta \<Rightarrow> (delta_error + version list) \<times> delta" where
  "staged_versions s = merge_staged s"

definition staged_len :: "delta \<Rightarrow> nat" where
  "staged_len s = MemTier_len (dl_mem s) + dl_spilled_rows s"

definition staged_retractions :: "delta \<Rightarrow> close list" where
  "staged_retractions s = bt_values (dl_retractions s)"

definition clear_staged :: "delta \<Rightarrow> delta" where
  "clear_staged s =
     s\<lparr>dl_mem := MemTier_new, dl_spilled_rows := 0, dl_retractions := bt_empty,
       dl_live_spills := [], dl_disk := drop_spills (dl_live_spills s) (dl_disk s)\<rparr>"

definition discard_flushed :: "delta \<Rightarrow> delta" where
  "discard_flushed s = clear_staged s"

definition discard_staged :: "delta \<Rightarrow> delta" where
  "discard_staged s = clear_staged s"

definition stage_retraction :: "close \<Rightarrow> delta \<Rightarrow> delta" where
  "stage_retraction c s =
     s\<lparr>dl_retractions := bt_insert (cl_business_key c, cl_sys_from c, cl_seq c) c (dl_retractions s)\<rparr>"

definition take_retractions :: "delta \<Rightarrow> close list \<times> delta" where
  "take_retractions s = (bt_values (dl_retractions s), s\<lparr>dl_retractions := bt_empty\<rparr>)"

definition candidate_versions :: "bytes \<Rightarrow> delta \<Rightarrow> (delta_error + version list) \<times> delta" where
  "candidate_versions key s =
     (case spill_loop delta_read_spill (\<lambda>v out. if v_business_key v = key then out @ [v] else out)
             (dl_live_spills s) (filter (\<lambda>v. v_business_key v = key) (MemTier_iter (dl_mem s))) (dl_disk s) of
        (r, d) \<Rightarrow> (r, s\<lparr>dl_disk := d\<rparr>))"

end
