(* ===== verification/Delta_Contents.thy ===== *)
theory Delta_Contents
  imports Delta
begin

text \<open>
  What the delta tier holds: the set \<open>staged_set\<close> of the resident and the spilled versions, the
  invariant \<open>delta_inv\<close>, and the effect of every operation on both.
\<close>

section \<open>Contents and invariant\<close>

definition delta_contents :: "mem_disk \<Rightarrow> nat \<Rightarrow> version list option" where
  "delta_contents d i =
     (case file_at d (delta_spill_name i) of
        None \<Rightarrow> None
      | Some bs \<Rightarrow> (case decode_versions bs of Inl _ \<Rightarrow> None | Inr vs \<Rightarrow> Some vs))"

definition spilled_versions :: "delta \<Rightarrow> version list" where
  "spilled_versions s = concat (map (\<lambda>i. the (delta_contents (dl_disk s) i)) (dl_live_spills s))"

definition delta_rows :: "delta \<Rightarrow> version list" where
  "delta_rows s = MemTier_iter (dl_mem s) @ spilled_versions s"

definition staged_set :: "delta \<Rightarrow> version set" where
  "staged_set s = set (delta_rows s)"

text \<open>One version per identity: what makes re-staging a record idempotent.\<close>

definition unique_ids :: "version set \<Rightarrow> bool" where
  "unique_ids V \<longleftrightarrow> inj_on vkey V"

text \<open>A version as every writer stages it: within the frame ceiling, its end not yet known.\<close>

definition stageable :: "version \<Rightarrow> bool" where
  "stageable v \<longleftrightarrow> version_encodable v \<and> unresolved v = v"

definition delta_inv :: "delta \<Rightarrow> bool" where
  "delta_inv s \<longleftrightarrow> disk_wf (dl_disk s) \<and> mt_inv (dl_mem s) \<and> (\<forall>v \<in> staged_set s. stageable v) \<and>
     unique_ids (staged_set s) \<and>
     (\<forall>i \<in> set (dl_live_spills s). delta_contents (dl_disk s) i \<noteq> None \<and> i < dl_next_spill s) \<and>
     (\<forall>i. dl_next_spill s \<le> i \<longrightarrow> i < 2 ^ 64 \<longrightarrow> file_at (dl_disk s) (delta_spill_name i) = None) \<and>
     dl_spilled_rows s = length (spilled_versions s) \<and> bt_inv (dl_retractions s)"

text \<open>Two tier states that differ at most in the fault schedule of their disk.\<close>

definition dl_same :: "delta \<Rightarrow> delta \<Rightarrow> bool" where
  "dl_same s s' \<longleftrightarrow> (\<exists>d. disk_same (dl_disk s) d \<and> s' = s\<lparr>dl_disk := d\<rparr>)"

section \<open>Spill files\<close>

lemma delta_contents_same: "disk_same d d' \<Longrightarrow> delta_contents d' i = delta_contents d i"
  by (simp add: delta_contents_def disk_same_views(1) [of d d'])

interpretation dspill: spill_reader delta_read_spill delta_contents
proof
  fix i d r d' assume r: "delta_read_spill i d = (r, d')"
  obtain q d1 where q: "read_spill_bytes (delta_spill_name i) d = (q, d1)" by (rule prod.exhaust)
  have "d' = d1" using r q by (cases q) (simp_all add: delta_read_spill_def)
  with q show "disk_same d d'" using read_spill_bytes_same by simp
next
  fix i d xs d' assume "delta_read_spill i d = (Inr xs, d')"
  then obtain bs where "read_spill_bytes (delta_spill_name i) d = (Inr bs, d')" "decode_versions bs = Inr xs"
    by (auto simp: delta_read_spill_def split: sum.splits prod.splits)
  then show "delta_contents d i = Some xs" by (simp add: delta_contents_def read_spill_bytes_Inr)
next
  fix i d xs assume "no_faults d" "delta_contents d i = Some xs"
  then show "delta_read_spill i d = (Inr xs, d)"
    by (auto simp: delta_contents_def delta_read_spill_def read_spill_bytes_no_faults validate_spill_name
        split: option.splits sum.splits)
qed (rule delta_contents_same)

lemma encode_versions_frames:
  "encode_versions vs buf =
     (if list_all version_encodable vs then Inr (buf @ concat (map version_frame vs))
      else Inl (DTooLarge (Version_encoded_size (hd (filter (\<lambda>v. \<not> version_encodable v) vs)))))"
  by (induction vs arbitrary: buf) (simp_all add: Version_encode_frame)

text \<open>Creating a file, appending once and syncing: the shape of a spill write.\<close>

lemma delta_write_spill_steps:
  assumes "delta_write_spill idx rows d = (r, d')"
  obtains (created) q d1 where "disk_create (delta_spill_name idx) d = (q, d1)" "d' = d1" "r \<noteq> Inr ()"
  | (appended) f d1 a d2 where "disk_create (delta_spill_name idx) d = (Inr f, d1)" "list_all version_encodable rows"
      "file_append f (concat (map version_frame rows)) d1 = (a, d2)" "disk_same d2 d'" "r = Inr () \<longrightarrow> a = Inr ()"
proof -
  obtain q d1 where q: "disk_create (delta_spill_name idx) d = (q, d1)" by (rule prod.exhaust)
  show thesis
  proof (cases "(\<exists>f. q = Inr f) \<and> list_all version_encodable rows")
    case False
    with assms q show thesis
      by (intro created [of q d1]) (auto simp: delta_write_spill_def encode_versions_frames split: sum.splits)
  next
    case True
    then obtain f where f: "q = Inr f" "encode_versions rows [] = Inr (concat (map version_frame rows))"
      by (auto simp: encode_versions_frames)
    obtain a d2 where a: "file_append f (concat (map version_frame rows)) d1 = (a, d2)" by (rule prod.exhaust)
    obtain b d3 where b: "file_sync f d2 = (b, d3)" by (rule prod.exhaust)
    have same: "disk_same d2 d3" using disk_sync_fields(1) [OF b] by (auto simp: disk_same_def)
    have "d' = (case a of Inl _ \<Rightarrow> d2 | Inr _ \<Rightarrow> d3)" "r = Inr () \<longrightarrow> a = Inr ()"
      using assms q f a b by (auto simp: delta_write_spill_def split: sum.splits)
    with same True q f a show thesis by (intro appended [of f d1 a d2]) (auto split: sum.splits)
  qed
qed

lemma delta_write_spill_frame:
  assumes "delta_write_spill idx rows d = (r, d')" "disk_wf d"
  shows "disk_wf d' \<and> (n \<noteq> delta_spill_name idx \<longrightarrow> file_at d' n = file_at d n)"
  using assms(1)
proof (cases rule: delta_write_spill_steps)
  case (created q d1)
  with disk_create_effect [OF created(1) assms(2)] show ?thesis by simp
next
  case (appended f d1 a d2)
  note c = disk_create_effect [OF appended(1) assms(2)]
  have "map_of (md_names d1) (delta_spill_name idx) = Some f" using c(3) by simp
  note e = file_append_effect [OF appended(3) c(1) this]
  show ?thesis using e c by (simp add: disk_same_views [OF appended(4)])
qed

lemma delta_write_spill_Inr:
  assumes "delta_write_spill idx rows d = (Inr (), d')" "disk_wf d"
  shows "list_all version_encodable rows \<and> delta_contents d' idx = Some (map unresolved rows)"
  using assms(1)
proof (cases rule: delta_write_spill_steps)
  case (appended f d1 a d2)
  note c = disk_create_effect [OF appended(1) assms(2)]
  have name: "map_of (md_names d1) (delta_spill_name idx) = Some f" "file_at d1 (delta_spill_name idx) = Some []"
    using c(3) by simp_all
  note e = file_append_effect [OF appended(3) c(1) name(1)]
  have "file_at d' (delta_spill_name idx) = Some (concat (map version_frame rows))"
    using e(4) name(2) appended(5) by (simp add: disk_same_views [OF appended(4)])
  then show ?thesis
    using version_codec.decode_all_frames [OF appended(2)] appended(2) by (simp add: delta_contents_def)
qed simp

lemma delta_write_spill_live:
  assumes "no_faults d" "file_at d (delta_spill_name idx) = None" "list_all version_encodable rows"
  shows "\<exists>d'. delta_write_spill idx rows d = (Inr (), d') \<and> no_faults d'"
proof -
  let ?name = "delta_spill_name idx" and ?buf = "concat (map version_frame rows)"
  obtain f d1 where c: "disk_create ?name d = (Inr f, d1)"
    using assms(1,2) by (simp add: disk_create_def validate_spill_name disk_check_no_faults file_at_def)
  have nf1: "no_faults d1" using disk_ops_no_faults(1) [OF assms(1), of ?name] c by simp
  obtain d2 where a: "file_append f ?buf d1 = (Inr (), d2)" using disk_ops_no_faults(3) [OF nf1] by blast
  have nf2: "no_faults d2" using disk_ops_no_faults(2) [OF nf1, of f ?buf] a by simp
  show ?thesis using c a nf2 disk_ops_no_faults(4) [OF nf2] assms(3)
    by (simp add: delta_write_spill_def encode_versions_frames)
qed

section \<open>States that differ in the fault schedule only\<close>

lemma dl_same_refl [simp]: "dl_same s s"
  by (auto simp: dl_same_def intro: exI [of _ "dl_disk s"])

lemma dl_same_disk: "disk_same (dl_disk s) d \<Longrightarrow> dl_same s (s\<lparr>dl_disk := d\<rparr>)"
  by (auto simp: dl_same_def)

lemma dl_same_fields:
  assumes "dl_same s s'"
  shows "dl_mem s' = dl_mem s" "dl_live_spills s' = dl_live_spills s" "dl_next_spill s' = dl_next_spill s"
    "dl_spilled_rows s' = dl_spilled_rows s" "dl_retractions s' = dl_retractions s" "dl_threshold s' = dl_threshold s"
    "disk_same (dl_disk s) (dl_disk s')"
  using assms by (auto simp: dl_same_def)

lemma dl_same_views:
  assumes "dl_same s s'"
  shows "spilled_versions s' = spilled_versions s" "delta_rows s' = delta_rows s" "staged_set s' = staged_set s"
    "delta_inv s' = delta_inv s" "staged_len s' = staged_len s"
proof -
  note f = dl_same_fields [OF assms]
  have c: "delta_contents (dl_disk s') = delta_contents (dl_disk s)" using delta_contents_same [OF f(7)] by (rule ext)
  show sp: "spilled_versions s' = spilled_versions s" by (simp add: spilled_versions_def c f)
  then show rows: "delta_rows s' = delta_rows s" by (simp add: delta_rows_def f)
  then show st: "staged_set s' = staged_set s" by (simp add: staged_set_def)
  show "delta_inv s' = delta_inv s" by (simp add: delta_inv_def st sp f c disk_same_views [OF f(7)])
  show "staged_len s' = staged_len s" by (simp add: staged_len_def f)
qed

section \<open>Spilling and inserting\<close>

lemma staged_set_Un: "staged_set s = set (MemTier_iter (dl_mem s)) \<union> set (spilled_versions s)"
  by (simp add: staged_set_def delta_rows_def)

lemma unique_ids_mono: "unique_ids V \<Longrightarrow> W \<subseteq> V \<Longrightarrow> unique_ids W"
  by (auto simp: unique_ids_def intro: inj_on_subset)

lemma unique_ids_insert:
  "unique_ids V \<Longrightarrow> (\<And>w. w \<in> V \<Longrightarrow> vkey w = vkey v \<Longrightarrow> w = v) \<Longrightarrow> unique_ids (insert v V)"
  unfolding unique_ids_def by (auto simp: inj_on_def)

text \<open>
  The spill of the resident rows. When the write fails the rows are gone: they were drained before
  the write.
\<close>

lemma delta_spill_cases:
  assumes "delta_inv s" "delta_spill_in_memory s = (r, s')"
  obtains (spilled) "r = Inr ()" "delta_inv s'" "staged_set s' = staged_set s" "dl_mem s' = MemTier_new"
      "dl_threshold s' = dl_threshold s" "dl_retractions s' = dl_retractions s" "dl_next_spill s' \<le> Suc (dl_next_spill s)"
  | (failed) e where "r = Inl e" "delta_inv s'" "staged_set s' = set (spilled_versions s)" "dl_mem s' = MemTier_new"
      "dl_live_spills s' = dl_live_spills s" "dl_retractions s' = dl_retractions s"
proof (cases "MemTier_iter (dl_mem s) = []")
  case True
  then have s': "r = Inr ()" "s' = s\<lparr>dl_mem := MemTier_new\<rparr>"
    using assms(2) by (simp_all add: delta_spill_in_memory_def MemTier_drain_eq Let_def)
  have sp: "spilled_versions s' = spilled_versions s" by (simp add: s' spilled_versions_def)
  then have st: "staged_set s' = staged_set s" using True s' by (simp add: staged_set_Un)
  have "delta_inv s'" using assms(1) st sp unfolding delta_inv_def by (simp add: s')
  with s' st show thesis by (intro spilled) simp_all
next
  case False
  let ?i = "dl_next_spill s" and ?rows = "MemTier_iter (dl_mem s)"
  obtain q d where q: "delta_write_spill ?i ?rows (dl_disk s) = (q, d)" by (rule prod.exhaust)
  have wf: "disk_wf (dl_disk s)" and live: "\<And>i. i \<in> set (dl_live_spills s) \<Longrightarrow> i < ?i"
    using assms(1) by (auto simp: delta_inv_def)
  note fr = delta_write_spill_frame [OF q wf]
  have old: "delta_contents d i = delta_contents (dl_disk s) i" if "i \<noteq> ?i" for i
    using fr [of "delta_spill_name i"] that by (simp add: delta_contents_def)
  have old_sp: "concat (map (\<lambda>i. the (delta_contents d i)) (dl_live_spills s)) = spilled_versions s"
    unfolding spilled_versions_def using old live
    by (metis (no_types, lifting) map_eq_conv nat_neq_iff)
  have fresh: "file_at d (delta_spill_name n) = None" if "Suc ?i \<le> n" "n < 2 ^ 64" for n
    using fr [of "delta_spill_name n"] that assms(1) by (simp add: delta_inv_def)
  have old_ok: "\<forall>i \<in> set (dl_live_spills s). delta_contents d i \<noteq> None \<and> i < Suc ?i"
    using assms(1) old live by (fastforce simp: delta_inv_def)
  have sub: "set (spilled_versions s) \<subseteq> staged_set s" by (simp add: staged_set_Un)
  show thesis
  proof (cases q)
    case (Inl e)
    then have s': "r = Inl e" "s' = s\<lparr>dl_mem := MemTier_new, dl_next_spill := Suc ?i, dl_disk := d\<rparr>"
      using assms(2) q False by (simp_all add: delta_spill_in_memory_def MemTier_drain_eq Let_def)
    have sp: "spilled_versions s' = spilled_versions s" using old_sp by (simp add: s' spilled_versions_def)
    then have st: "staged_set s' = set (spilled_versions s)" by (simp add: staged_set_Un s')
    have "(\<forall>v \<in> staged_set s'. stageable v) \<and> unique_ids (staged_set s')"
      using assms(1) sub unique_ids_mono unfolding st delta_inv_def by blast
    then have "delta_inv s'" using assms(1) fr old_ok fresh sp unfolding delta_inv_def by (simp add: s')
    with s' st show thesis by (intro failed [of e]) simp_all
  next
    case (Inr u)
    then have s': "r = Inr ()" "s' = s\<lparr>dl_mem := MemTier_new, dl_next_spill := Suc ?i, dl_disk := d,
        dl_live_spills := dl_live_spills s @ [?i], dl_spilled_rows := dl_spilled_rows s + length ?rows\<rparr>"
      using assms(2) q False by (simp_all add: delta_spill_in_memory_def MemTier_drain_eq Let_def)
    have w: "delta_write_spill ?i ?rows (dl_disk s) = (Inr (), d)" using q Inr by simp
    have "map unresolved ?rows = ?rows" using assms(1) by (auto simp: delta_inv_def staged_set_Un stageable_def intro!: map_idI)
    then have c: "delta_contents d ?i = Some ?rows" using delta_write_spill_Inr [OF w wf] by simp
    then have sp: "spilled_versions s' = spilled_versions s @ ?rows" using old_sp by (simp add: s' spilled_versions_def)
    then have st: "staged_set s' = staged_set s" by (auto simp: staged_set_Un s')
    have "delta_inv s'" using assms(1) fr old_ok fresh c unfolding delta_inv_def st sp by (auto simp: s')
    with s' st show thesis by (intro spilled) simp_all
  qed
qed

lemma delta_add_spec:
  assumes "delta_inv s" "stageable v" "\<And>w. w \<in> staged_set s \<Longrightarrow> vkey w = vkey v \<Longrightarrow> w = v"
    and s': "s' = s\<lparr>dl_mem := MemTier_insert v (dl_mem s)\<rparr>"
  shows "delta_inv s'" "staged_set s' = insert v (staged_set s)"
proof -
  have mi: "mt_inv (dl_mem s)" using assms(1) by (simp add: delta_inv_def)
  note i = MemTier_insert_spec [OF mi, of v]
  have sp: "spilled_versions s' = spilled_versions s" by (simp add: s' spilled_versions_def)
  have "w \<in> set (MemTier_iter (MemTier_insert v (dl_mem s))) \<longleftrightarrow> w = v \<or> w \<in> set (MemTier_iter (dl_mem s))" for w
    using assms(3) [of w] MemTier_iter_spec(4) [OF i(1)] MemTier_iter_spec(4) [OF mi]
    by (auto simp: i(2) staged_set_Un)
  then show st: "staged_set s' = insert v (staged_set s)" unfolding staged_set_Un sp by (auto simp: s')
  have "unique_ids (insert v (staged_set s))"
    using assms(1,3) by (intro unique_ids_insert) (simp_all add: delta_inv_def)
  then show "delta_inv s'" using assms(1,2) i(1) unfolding delta_inv_def st sp by (simp add: s')
qed

lemma delta_insert_inner_cases:
  assumes "delta_inv s" "delta_insert_inner v allow s = (r, s')"
  obtains (too_large) "r = Inl (DTooLarge (Version_encoded_size v))" "s' = s" "\<not> version_encodable v"
  | (lost) e where "r = Inl e" "allow" "version_encodable v" "delta_inv s'" "staged_set s' = set (spilled_versions s)"
      "dl_mem s' = MemTier_new" "dl_live_spills s' = dl_live_spills s" "dl_retractions s' = dl_retractions s"
      "delta_spill_in_memory s = (Inl e, s')"
  | (added) s2 where "r = Inr ()" "version_encodable v" "s' = s2\<lparr>dl_mem := MemTier_insert v (dl_mem s2)\<rparr>"
      "delta_inv s2" "staged_set s2 = staged_set s" "dl_threshold s2 = dl_threshold s" "dl_retractions s2 = dl_retractions s"
      "dl_next_spill s2 \<le> Suc (dl_next_spill s)"
      "s2 = s \<or> allow \<and> dl_mem s2 = MemTier_new"
      "allow \<Longrightarrow> mt_byte_size (dl_mem s2) = 0 \<or>
         u64_saturating_add (mt_byte_size (dl_mem s2)) (Version_encoded_size v) \<le> dl_threshold s"
proof (cases "version_encodable v")
  case False
  then have "Version_check_encodable v = Inl (DTooLarge (Version_encoded_size v))"
    by (auto simp: version_encodable_def Version_check_encodable_def split: if_splits)
  with assms(2) False show thesis by (intro too_large) (simp_all add: delta_insert_inner_def)
next
  case True
  then have enc: "Version_check_encodable v = Inr ()" by (simp add: version_encodable_def)
  let ?full = "allow \<and> dl_threshold s < u64_saturating_add (mt_byte_size (dl_mem s)) (Version_encoded_size v) \<and>
    0 < mt_byte_size (dl_mem s)"
  show thesis
  proof (cases ?full)
    case False
    with assms(2) enc have "r = Inr ()" "s' = s\<lparr>dl_mem := MemTier_insert v (dl_mem s)\<rparr>"
      by (auto simp: delta_insert_inner_def Let_def)
    with False True assms(1) show thesis by (intro added [of s]) auto
  next
    case full: True
    obtain w s2 where w: "delta_spill_in_memory s = (w, s2)" by (rule prod.exhaust)
    from assms(1) w show thesis
    proof (cases rule: delta_spill_cases)
      case spilled
      with assms(2) enc full w have "r = Inr ()" "s' = s2\<lparr>dl_mem := MemTier_insert v (dl_mem s2)\<rparr>"
        by (simp_all add: delta_insert_inner_def Let_def)
      with spilled full True show thesis by (intro added [of s2]) simp_all
    next
      case (failed e)
      with assms(2) enc full w have "r = Inl e" "s' = s2" by (simp_all add: delta_insert_inner_def Let_def)
      with failed full True w show thesis by (intro lost [of e]) simp_all
    qed
  qed
qed

lemma delta_insert_inner_ok:
  assumes "delta_inv s" "delta_insert_inner v allow s = (Inr (), s')" "unresolved v = v"
    and "\<And>w. w \<in> staged_set s \<Longrightarrow> vkey w = vkey v \<Longrightarrow> w = v"
  shows "delta_inv s'" "staged_set s' = insert v (staged_set s)" "dl_retractions s' = dl_retractions s"
    "dl_threshold s' = dl_threshold s" "dl_next_spill s' \<le> Suc (dl_next_spill s)"
proof -
  from assms(1,2) obtain s2 where a: "version_encodable v" "s' = s2\<lparr>dl_mem := MemTier_insert v (dl_mem s2)\<rparr>"
      "delta_inv s2" "staged_set s2 = staged_set s" "dl_threshold s2 = dl_threshold s" "dl_retractions s2 = dl_retractions s"
      "dl_next_spill s2 \<le> Suc (dl_next_spill s)"
    by (cases rule: delta_insert_inner_cases) simp_all
  have "stageable v" using a(1) assms(3) by (simp add: stageable_def)
  from delta_add_spec [OF a(3) this _ a(2)] assms(4) a(4)
  show "delta_inv s'" "staged_set s' = insert v (staged_set s)" by auto
  show "dl_retractions s' = dl_retractions s" "dl_threshold s' = dl_threshold s" "dl_next_spill s' \<le> Suc (dl_next_spill s)"
    using a by simp_all
qed

lemma delta_spill_live:
  assumes "delta_inv s" "no_faults (dl_disk s)" "dl_next_spill s < 2 ^ 64"
  shows "\<exists>s'. delta_spill_in_memory s = (Inr (), s') \<and> no_faults (dl_disk s')"
proof -
  have "list_all version_encodable (MemTier_iter (dl_mem s))"
    using assms(1) by (auto simp: delta_inv_def staged_set_Un stageable_def list_all_iff)
  moreover have "file_at (dl_disk s) (delta_spill_name (dl_next_spill s)) = None"
    using assms(1,3) by (simp add: delta_inv_def)
  ultimately obtain d where "delta_write_spill (dl_next_spill s) (MemTier_iter (dl_mem s)) (dl_disk s) = (Inr (), d)" "no_faults d"
    using delta_write_spill_live [OF assms(2)] by blast
  with assms(2) show ?thesis by (simp add: delta_spill_in_memory_def MemTier_drain_eq Let_def)
qed

lemma delta_insert_live:
  assumes "delta_inv s" "no_faults (dl_disk s)" "dl_next_spill s < 2 ^ 64" "version_encodable v"
  shows "\<exists>s'. delta_insert_inner v allow s = (Inr (), s') \<and> no_faults (dl_disk s')"
proof -
  have enc: "Version_check_encodable v = Inr ()" using assms(4) by (simp add: version_encodable_def)
  from delta_spill_live [OF assms(1-3)] obtain s2 where "delta_spill_in_memory s = (Inr (), s2)" "no_faults (dl_disk s2)" by blast
  with enc assms(2) show ?thesis by (simp add: delta_insert_inner_def Let_def)
qed

end
