(* ===== verification/Delta_Props.thy ===== *)
theory Delta_Props
  imports Delta_Contents
begin

text \<open>
  The properties of the delta tier: opening and crash replay, snapshot reads over the staged versions,
  flushing, rolling back an aborted transaction's resident rows, the byte accounting, and the loss of
  resident rows when a spill write fails.
\<close>

section \<open>Opening\<close>

lemma delta_name_roundtrip: "n < 2 ^ 64 \<Longrightarrow> delta_spill_index_of (delta_spill_name n) = Some n"
  using parse_padded [of n 20] strip_simps(1) [of "''delta-spill-''"]
  by (simp only: delta_spill_index_of_def delta_spill_name_def strip_simps bind.simps)

lemma delta_list_spills_Inr:
  assumes "delta_list_spills d = (Inr idxs, d')"
  shows "disk_same d d'" "sorted idxs" "n < 2 ^ 64 \<Longrightarrow> file_at d (delta_spill_name n) \<noteq> None \<Longrightarrow> n \<in> set idxs"
proof -
  from assms obtain names where l: "disk_list d = (Inr names, d')" "idxs = sort (List.map_filter delta_spill_index_of names)"
    by (auto simp: delta_list_spills_def split: sum.splits prod.splits)
  show "disk_same d d'" using disk_list_same [OF l(1)] .
  show "sorted idxs" using l(2) by simp
  assume n: "n < 2 ^ 64" and "file_at d (delta_spill_name n) \<noteq> None"
  then have "delta_spill_name n \<in> set names"
    using disk_list_Inr [OF l(1)] by (auto simp: file_at_def dest!: map_of_SomeD intro: rev_image_eqI)
  then show "n \<in> set idxs" using delta_name_roundtrip [OF n] l(2) by (force simp: List.map_filter_def)
qed

lemma disk_remove_no_faults: "no_faults d \<Longrightarrow> no_faults (snd (disk_remove name d))"
  by (auto simp: disk_remove_def disk_check_no_faults no_faults_def split: sum.splits)

lemma disk_remove_shrinks: "disk_remove name d = (r, d') \<Longrightarrow> file_at d n = None \<Longrightarrow> file_at d' n = None"
  by (elim disk_remove_cases) (auto simp: file_at_def disk_same_def map_of_filter_name)

lemma disk_remove_gone:
  assumes "disk_remove name d = (Inr (), d')"
  shows "file_at d' name = None"
  using assms by (elim disk_remove_cases) (auto simp: file_at_def map_of_filter_name)

lemma disk_remove_not_found:
  assumes "disk_remove name d = (Inl e, d')" "io_kind e = NotFound" "no_faults d" "validate_name name = Inr ()"
  shows "file_at d' name = None"
  using assms by (auto simp: disk_remove_def disk_check_no_faults file_at_def map_of_eq_None_iff split: if_splits)

lemma delta_remove_spills_spec:
  "disk_wf d \<Longrightarrow> delta_remove_spills idxs d = (r, d') \<Longrightarrow>
     disk_wf d' \<and> (\<forall>n. file_at d n = None \<longrightarrow> file_at d' n = None)"
proof (induction idxs arbitrary: d)
  case (Cons i idxs)
  obtain q d1 where q: "disk_remove (delta_spill_name i) d = (q, d1)" by (rule prod.exhaust)
  have step: "disk_wf d1" "\<And>n. file_at d n = None \<Longrightarrow> file_at d1 n = None"
    using disk_remove_effect(2) [OF q Cons.prems(1)] disk_remove_shrinks [OF q] by auto
  have "d' = d1 \<or> delta_remove_spills idxs d1 = (r, d')" using Cons.prems(2) q by (auto split: sum.splits if_splits)
  with step Cons.IH [of d1] show ?case by auto
qed simp

lemma sorted_le_last: "sorted xs \<Longrightarrow> x \<in> set xs \<Longrightarrow> x \<le> last xs"
  by (induction xs rule: rev_induct) (auto simp: sorted_append)

lemma Delta_open_ok:
  assumes "disk_wf d" "Delta_open d threshold = (Inr s, d')"
  shows "delta_inv s" "staged_set s = {}" "dl_disk s = d'" "dl_threshold s = threshold" "dl_mem s = MemTier_new"
    "dl_live_spills s = []" "dl_retractions s = []"
proof -
  from assms(2) obtain idxs d1 d2 where o: "delta_list_spills d = (Inr idxs, d1)"
      "delta_discard_stale_spills d1 = (Inr (), d2)" "d' = d2"
      "s = \<lparr>dl_disk = d2, dl_threshold = threshold, dl_mem = MemTier_new,
            dl_next_spill = (if idxs = [] then 0 else last idxs + 1), dl_live_spills = [], dl_spilled_rows = 0,
            dl_retractions = []\<rparr>"
    by (auto simp: Delta_open_def Let_def bt_empty_def split: sum.splits prod.splits)
  obtain js d3 where j: "delta_list_spills d1 = (Inr js, d3)" "delta_remove_spills js d3 = (Inr (), d2)"
    using o(2) by (auto simp: delta_discard_stale_spills_def split: sum.splits prod.splits)
  note l = delta_list_spills_Inr [OF o(1)] and l' = delta_list_spills_Inr(1) [OF j(1)]
  have same: "disk_same d d3" using l(1) l' by (rule disk_same_trans)
  then have "disk_wf d3" using assms(1) by (simp add: disk_same_views(2) [of d d3])
  note rm = delta_remove_spills_spec [OF this j(2)]
  have "file_at d2 (delta_spill_name n) = None" if n: "(if idxs = [] then 0 else last idxs + 1) \<le> n" "n < 2 ^ 64" for n
  proof -
    have "n \<notin> set idxs"
    proof
      assume n_in: "n \<in> set idxs"
      then have "n \<le> last idxs" by (rule sorted_le_last [OF l(2)])
      with n(1) n_in show False by (auto split: if_splits)
    qed
    then have "file_at d (delta_spill_name n) = None" using l(3) n(2) by blast
    then show ?thesis using rm by (simp add: disk_same_views(1) [OF same])
  qed
  then show "delta_inv s" using rm o(4) by (auto simp: delta_inv_def staged_set_Un spilled_versions_def unique_ids_def)
  show "staged_set s = {}" "dl_disk s = d'" "dl_threshold s = threshold" "dl_mem s = MemTier_new"
    "dl_live_spills s = []" "dl_retractions s = []"
    using o by (simp_all add: staged_set_Un spilled_versions_def)
qed

section \<open>Reads\<close>

lemma fold_collect: "fold (\<lambda>v out. if P v then out @ [v] else out) vs out = out @ filter P vs"
  by (induction vs arbitrary: out) simp_all

lemma pool_unique: "unique_ids (set vs) \<Longrightarrow> pool vs k = Some v \<longleftrightarrow> v \<in> set vs \<and> vkey v = k"
proof
  assume u: "unique_ids (set vs)" and v: "v \<in> set vs \<and> vkey v = k"
  then have "k \<in> dom (pool vs)" by (auto simp: pool_def dom_map_of_conv_image_fst image_image)
  then obtain w where w: "pool vs k = Some w" by blast
  from pool_vkey [OF w] u v have "w = v" by (auto simp: unique_ids_def dest: inj_onD)
  with w show "pool vs k = Some v" by simp
qed (auto dest: pool_vkey)

lemma spills_readable: "delta_inv s \<Longrightarrow> \<forall>i \<in> set (dl_live_spills s). delta_contents (dl_disk s) i \<noteq> None"
  by (simp add: delta_inv_def)

lemma collect_loop:
  assumes "spill_loop delta_read_spill (\<lambda>v out. if P v then out @ [v] else out) (dl_live_spills s)
      (filter P (MemTier_iter (dl_mem s))) (dl_disk s) = (r, d)"
  shows "disk_same (dl_disk s) d" "r = Inr out \<Longrightarrow> out = filter P (delta_rows s)"
  using assms dspill.loop_same dspill.loop_Inr by (fastforce simp: fold_collect delta_rows_def spilled_versions_def)+

lemma collect_loop_live:
  assumes "delta_inv s" "no_faults (dl_disk s)"
  shows "spill_loop delta_read_spill (\<lambda>v out. if P v then out @ [v] else out) (dl_live_spills s)
      (filter P (MemTier_iter (dl_mem s))) (dl_disk s) = (Inr (filter P (delta_rows s)), dl_disk s)"
  by (simp add: dspill.loop_live [OF assms(2) spills_readable [OF assms(1)]] fold_collect delta_rows_def spilled_versions_def)

lemma candidate_versions_spec:
  assumes "candidate_versions key s = (r, s')"
  shows "dl_same s s'" "r = Inr out \<Longrightarrow> out = filter (\<lambda>v. v_business_key v = key) (delta_rows s)"
proof -
  obtain q d where q: "spill_loop delta_read_spill (\<lambda>v out. if v_business_key v = key then out @ [v] else out)
      (dl_live_spills s) (filter (\<lambda>v. v_business_key v = key) (MemTier_iter (dl_mem s))) (dl_disk s) = (q, d)"
    by (rule prod.exhaust)
  then have s': "r = q" "s' = s\<lparr>dl_disk := d\<rparr>" using assms by (simp_all add: candidate_versions_def)
  show "dl_same s s'" unfolding s' by (rule dl_same_disk [OF collect_loop(1) [OF q]])
  show "r = Inr out \<Longrightarrow> out = filter (\<lambda>v. v_business_key v = key) (delta_rows s)"
    unfolding s' by (rule collect_loop(2) [OF q])
qed

text \<open>The staged versions in identity order, each once.\<close>

lemma sorted_ids_unique:
  assumes "sorted_wrt (<) (map vkey xs)" "set xs = set ys" "unique_ids (set ys)"
  shows "xs = sort_key vkey (remdups ys)"
proof -
  let ?zs = "sort_key vkey (remdups ys)"
  have "inj_on vkey (set xs \<union> set ?zs)" using assms(2,3) by (simp add: unique_ids_def)
  moreover have "distinct (map vkey ?zs)" using assms(3) by (simp add: distinct_map unique_ids_def)
  then have "map vkey xs = map vkey ?zs"
    using assms(1,2) by (intro sorted_distinct_set_unique) (auto simp: strict_sorted_iff)
  ultimately show ?thesis by (metis map_inj_on)
qed

lemma rows_inv_fold: "rows_inv (fold chain_insert vs bt_empty)"
  by (induction vs rule: rev_induct) (simp_all add: rows_inv_insert)

lemma chain_values_grouped:
  assumes "unique_ids (set vs)"
  shows "chain_values (fold chain_insert vs bt_empty) = sort_key vkey (remdups vs)"
proof (rule sorted_ids_unique [OF _ _ assms])
  let ?c = "fold chain_insert vs bt_empty"
  show "sorted_wrt (<) (map vkey (chain_values ?c))" by (rule rows_sorted(1) [OF rows_inv_fold])
  have "v \<in> set (chain_values ?c) \<longleftrightarrow> v \<in> set vs" for v
    using set_chain_values [OF rows_inv_fold, of v vs] fold_chain_insert [of vs] pool_unique [OF assms] by simp
  then show "set (chain_values ?c) = set vs" by blast
qed

definition staged_list :: "delta \<Rightarrow> version list" where
  "staged_list s = sort_key vkey (remdups (delta_rows s))"

lemma staged_list_facts:
  assumes "delta_inv s"
  shows "set (staged_list s) = staged_set s" "sorted_wrt (<) (map vkey (staged_list s))"
    "set vs = staged_set s \<Longrightarrow> staged_list s = sort_key vkey (remdups vs)"
proof -
  have u: "unique_ids (set (delta_rows s))" using assms by (simp add: delta_inv_def staged_set_def)
  show "set (staged_list s) = staged_set s" by (simp add: staged_list_def staged_set_def)
  show sorted: "sorted_wrt (<) (map vkey (staged_list s))"
    unfolding staged_list_def chain_values_grouped [OF u, symmetric] by (rule rows_sorted(1) [OF rows_inv_fold])
  show "set vs = staged_set s \<Longrightarrow> staged_list s = sort_key vkey (remdups vs)"
    using sorted u by (intro sorted_ids_unique) (simp_all add: staged_list_def staged_set_def)
qed

lemma merge_staged_spec:
  assumes "delta_inv s" "merge_staged s = (r, s')"
  shows "dl_same s s'" "r = Inr out \<Longrightarrow> out = staged_list s"
proof -
  let ?init = "fold chain_insert (MemTier_iter (dl_mem s)) bt_empty"
  obtain q d where q: "spill_loop delta_read_spill chain_insert (dl_live_spills s) ?init (dl_disk s) = (q, d)"
    by (rule prod.exhaust)
  have "s' = s\<lparr>dl_disk := d\<rparr>" using assms(2) q by (auto simp: merge_staged_def split: sum.splits)
  then show "dl_same s s'" using dspill.loop_same [OF q] by (simp add: dl_same_disk)
  assume "r = Inr out"
  then obtain m where m: "q = Inr m" "out = chain_values m" using assms(2) q by (auto simp: merge_staged_def split: sum.splits)
  have "m = fold chain_insert (delta_rows s) bt_empty"
    using dspill.loop_Inr [OF q [unfolded m(1)]] by (simp add: delta_rows_def spilled_versions_def)
  moreover have "unique_ids (set (delta_rows s))" using assms(1) by (simp add: delta_inv_def staged_set_def)
  ultimately show "out = staged_list s" by (simp add: m(2) chain_values_grouped staged_list_def)
qed

lemma merge_staged_live:
  assumes "delta_inv s" "no_faults (dl_disk s)"
  shows "merge_staged s = (Inr (staged_list s), s)"
proof -
  have "\<exists>out. merge_staged s = (Inr out, s)"
    by (simp add: dspill.loop_live [OF assms(2) spills_readable [OF assms(1)]] merge_staged_def)
  then show ?thesis using merge_staged_spec(2) [OF assms(1)] by fastforce
qed

section \<open>Crash replay\<close>

lemma try_all_insert_live:
  assumes "delta_inv s" "no_faults (dl_disk s)" "\<forall>v \<in> set vs. stageable v" "unique_ids (staged_set s \<union> set vs)"
    "dl_next_spill s + length vs \<le> 2 ^ 64"
  shows "\<exists>s'. try_all delta_insert vs s = (Inr (), s') \<and> delta_inv s' \<and> no_faults (dl_disk s') \<and>
    staged_set s' = staged_set s \<union> set vs"
  using assms
proof (induction vs arbitrary: s)
  case (Cons v vs)
  have v: "version_encodable v" "unresolved v = v" and n: "dl_next_spill s < 2 ^ 64"
    using Cons.prems(3,5) by (auto simp: stageable_def)
  obtain s1 where s1: "delta_insert v s = (Inr (), s1)" "no_faults (dl_disk s1)"
    using delta_insert_live [OF Cons.prems(1,2) n v(1)] by (auto simp: delta_insert_def)
  have same: "w = v" if "w \<in> staged_set s" "vkey w = vkey v" for w
    using inj_onD [OF Cons.prems(4) [unfolded unique_ids_def] that(2)] that(1) by simp
  note ok = delta_insert_inner_ok [OF Cons.prems(1) s1(1) [unfolded delta_insert_def] v(2) same]
  have "unique_ids (staged_set s1 \<union> set vs)" using Cons.prems(4) by (simp add: ok(2))
  with Cons.IH [OF ok(1) s1(2)] Cons.prems(3,5) ok(5) obtain s' where
    "try_all delta_insert vs s1 = (Inr (), s')" "delta_inv s'" "no_faults (dl_disk s')" "staged_set s' = staged_set s1 \<union> set vs"
    by auto
  then show ?case using s1(1) ok(2) by simp
qed simp

text \<open>
  Crash-replay equivalence of the delta tier: opening it over whatever files a crashed process left
  behind and replaying a log of versions, in any order, with any repetitions and under any spill
  threshold, ends, when no fault strikes, in a tier whose staged versions are exactly the logged ones,
  each once, in \<open>(business_key, sys_from, seq)\<close> order. Nothing of a stale spill file is read back, and
  which rows happen to be on disk makes no difference.
\<close>

theorem delta_crash_replay:
  assumes "disk_wf d" "Delta_open d threshold = (Inr s0, d')" "no_faults d'"
    and "\<forall>v \<in> set vs. stageable v" "unique_ids (set vs)" "dl_next_spill s0 + length vs \<le> 2 ^ 64"
  shows "\<exists>s. try_all delta_insert vs s0 = (Inr (), s) \<and> delta_inv s \<and>
    staged_versions s = (Inr (sort_key vkey (remdups vs)), s)"
proof -
  note o = Delta_open_ok [OF assms(1,2)]
  have "no_faults (dl_disk s0)" "unique_ids (staged_set s0 \<union> set vs)" using assms(3,5) o by simp_all
  from try_all_insert_live [OF o(1) this(1) assms(4) this(2) assms(6)] obtain s where
    s: "try_all delta_insert vs s0 = (Inr (), s)" "delta_inv s" "no_faults (dl_disk s)" "staged_set s = set vs"
    using o(2) by auto
  then have "staged_versions s = (Inr (sort_key vkey (remdups vs)), s)"
    using merge_staged_live [OF s(2,3)] staged_list_facts(3) [OF s(2), of vs] by (simp add: staged_versions_def)
  with s show ?thesis by blast
qed

section \<open>Snapshot reads\<close>

lemma pool_filter:
  "pool (filter (\<lambda>v. P (v_business_key v)) vs) k = (if P (fst k) then pool vs k else None)"
  by (induction vs rule: rev_induct) (auto simp: pool_snoc vkey_def)

lemma resolved_filter:
  "resolved ends (filter (\<lambda>v. P (v_business_key v)) vs) k = (if P (fst k) then resolved ends vs k else None)"
  by (simp add: resolved_def pool_filter)

lemma intervals_ordered_filter:
  assumes "intervals_ordered ends vs"
  shows "intervals_ordered ends (filter (\<lambda>v. P (v_business_key v)) vs)"
  unfolding intervals_ordered_def resolved_filter
proof (intro allI impI)
  fix key a b v
  assume "(key, b) \<in> dom (pool (filter (\<lambda>v. P (v_business_key v)) vs))"
    "(if P (fst (key, a)) then resolved ends vs (key, a) else None) = Some v" "a < b"
  then have "(key, b) \<in> dom (pool vs)" "resolved ends vs (key, a) = Some v" "a < b"
    by (auto simp: pool_filter split: if_splits)
  then show "v_sys_to v \<le> fst b" using assms unfolding intervals_ordered_def by blast
qed

lemma visible_filter:
  "visible ends (filter (\<lambda>v. P (v_business_key v)) vs) t = {v \<in> visible ends vs t. P (v_business_key v)}"
proof -
  have "(if P (fst k) then resolved ends vs k else None) = Some v \<longleftrightarrow> resolved ends vs k = Some v \<and> P (v_business_key v)" for k v
    using resolved_vkey [of ends vs k v] by (auto simp: vkey_def)
  then show ?thesis unfolding visible_def resolved_filter by blast
qed

text \<open>
  A snapshot scan of the delta tier returns, in strictly ascending key order, exactly the staged
  versions in the key range whose interval, its end taken from the validity index, contains the
  snapshot, whether a version is resident or spilled. Neither the tier nor the index is changed, and
  the scan returns when no fault is pending on either disk.
\<close>

theorem delta_range_scan:
  assumes "delta_inv s" "vi_inv index" "intervals_ordered (vi_abs index) (delta_rows s)"
  shows "(\<forall>out s' index'. range_scan bounds t s index = (Inr out, s', index') \<longrightarrow>
       set out = {v \<in> visible (vi_abs index) (delta_rows s) t. in_range (v_business_key v) bounds} \<and>
       sorted_wrt (<) (map v_business_key out) \<and>
       delta_inv s' \<and> staged_set s' = staged_set s \<and> vi_inv index' \<and> vi_abs index' = vi_abs index) \<and>
    (no_faults (dl_disk s) \<and> no_faults (vi_disk index) \<longrightarrow> (\<exists>out. range_scan bounds t s index = (Inr out, s, index)))"
proof (intro conjI allI impI)
  let ?P = "\<lambda>v. in_range (v_business_key v) bounds"
  note ordered = intervals_ordered_filter [OF assms(3), of "\<lambda>k. in_range k bounds"]
  { fix out s' index' assume r: "range_scan bounds t s index = (Inr out, s', index')"
    obtain q d where q: "spill_loop delta_read_spill (\<lambda>v out. if ?P v then out @ [v] else out) (dl_live_spills s)
        (filter ?P (MemTier_iter (dl_mem s))) (dl_disk s) = (q, d)" by (rule prod.exhaust)
    obtain chs where f: "fold_chains (filter ?P (delta_rows s)) index = (Inr chs, index')" "out = resolve_snapshot chs t"
        "s' = s\<lparr>dl_disk := d\<rparr>"
      using r q collect_loop(2) [OF q] by (auto simp: range_scan_def split: sum.splits prod.splits)
    note snap = fold_chains_snapshot [OF assms(2) ordered f(1)]
    show "set out = {v \<in> visible (vi_abs index) (delta_rows s) t. ?P v}"
      using snap(1) visible_filter [of _ "\<lambda>k. in_range k bounds"] by (simp add: f(2))
    show "sorted_wrt (<) (map v_business_key out)" "vi_inv index'" "vi_abs index' = vi_abs index" using snap(2-) by (simp_all add: f(2))
    have "dl_same s s'" unfolding f(3) by (rule dl_same_disk [OF collect_loop(1) [OF q]])
    from dl_same_views [OF this] show "delta_inv s'" "staged_set s' = staged_set s" using assms(1) by simp_all }
  assume nf: "no_faults (dl_disk s) \<and> no_faults (vi_disk index)"
  obtain chs where "fold_chains (filter ?P (delta_rows s)) index = (Inr chs, index)"
    using fold_chains_live [OF assms(2)] nf by blast
  then show "\<exists>out. range_scan bounds t s index = (Inr out, s, index)"
    using collect_loop_live [OF assms(1), of ?P] nf by (simp add: range_scan_def)
qed

section \<open>Flushing\<close>

lemma drop_spills_spec:
  "disk_wf d \<Longrightarrow> disk_wf (drop_spills idxs d) \<and> (\<forall>n. file_at d n = None \<longrightarrow> file_at (drop_spills idxs d) n = None)"
proof (induction idxs arbitrary: d)
  case (Cons i idxs)
  obtain q d1 where q: "disk_remove (delta_spill_name i) d = (q, d1)" by (rule prod.exhaust)
  have "snd (delta_remove_spill i d) = d1" using q by (auto simp: delta_remove_spill_def split: sum.splits)
  with Cons.IH [of d1] disk_remove_effect(2) [OF q Cons.prems] disk_remove_shrinks [OF q] show ?case by simp
qed simp

lemma emptied_inv:
  assumes "delta_inv s" "dl_live_spills s' = []" "dl_mem s' = MemTier_new" "dl_spilled_rows s' = 0"
    "dl_disk s' = drop_spills (dl_live_spills s) (dl_disk s)" "dl_next_spill s' = dl_next_spill s" "bt_inv (dl_retractions s')"
  shows "delta_inv s'" "staged_set s' = {}" "staged_len s' = 0"
proof -
  have "disk_wf (dl_disk s)" using assms(1) by (simp add: delta_inv_def)
  from drop_spills_spec [OF this] assms show "delta_inv s'"
    by (simp add: delta_inv_def staged_set_Un spilled_versions_def unique_ids_def)
  show "staged_set s' = {}" "staged_len s' = 0"
    using assms by (simp_all add: staged_set_Un spilled_versions_def staged_len_def MemTier_len_eq)
qed

text \<open>
  C24. Flushing drains the tier exactly: when \<open>flush_to_segment\<close> returns, the rows it hands over are the
  staged versions, each once, in strictly increasing identity order, and the tier is empty, the staged
  retractions kept; when a spill cannot be read it fails with every staged version still in place. It
  returns when no fault is pending, and a spill file that cannot be removed does not fail it.
  Discarding the staged contents empties the tier, retractions included.
\<close>

theorem delta_flush_drains:
  assumes "delta_inv s"
  shows "(\<forall>out s'. flush_to_segment s = (Inr out, s') \<longrightarrow>
       set out = staged_set s \<and> sorted_wrt (<) (map vkey out) \<and>
       delta_inv s' \<and> staged_set s' = {} \<and> staged_len s' = 0 \<and> staged_retractions s' = staged_retractions s) \<and>
    (\<forall>e s'. flush_to_segment s = (Inl e, s') \<longrightarrow>
       delta_inv s' \<and> staged_set s' = staged_set s \<and> staged_len s' = staged_len s \<and>
       staged_retractions s' = staged_retractions s) \<and>
    (no_faults (dl_disk s) \<longrightarrow> (\<exists>out s'. flush_to_segment s = (Inr out, s'))) \<and>
    delta_inv (discard_flushed s) \<and> staged_set (discard_flushed s) = {} \<and> staged_retractions (discard_flushed s) = []"
proof -
  obtain q s1 where q: "merge_staged s = (q, s1)" by (rule prod.exhaust)
  note m = merge_staged_spec [OF assms q] and f = dl_same_fields [OF merge_staged_spec(1) [OF assms q]]
    and views = dl_same_views [OF merge_staged_spec(1) [OF assms q]]
  have inv1: "delta_inv s1" using views assms by simp
  have br: "bt_inv (dl_retractions s1)" using inv1 by (simp add: delta_inv_def)
  have ok: "set out = staged_set s \<and> sorted_wrt (<) (map vkey out) \<and> delta_inv s' \<and> staged_set s' = {} \<and> staged_len s' = 0 \<and>
      staged_retractions s' = staged_retractions s" if "flush_to_segment s = (Inr out, s')" for out s'
  proof -
    have s': "q = Inr out" "s' = s1\<lparr>dl_live_spills := [], dl_mem := MemTier_new, dl_spilled_rows := 0,
        dl_disk := drop_spills (dl_live_spills s1) (dl_disk s1)\<rparr>"
      using that q by (auto simp: flush_to_segment_def split: sum.splits)
    have "out = staged_list s" using m(2) s'(1) by simp
    moreover have "delta_inv s' \<and> staged_set s' = {} \<and> staged_len s' = 0"
      using emptied_inv [OF inv1, of s'] br by (simp add: s'(2))
    ultimately show ?thesis using staged_list_facts(1,2) [OF assms] f(5) by (simp add: s'(2) staged_retractions_def)
  qed
  have err: "s' = s1" if "flush_to_segment s = (Inl e, s')" for e s'
    using that q by (auto simp: flush_to_segment_def split: sum.splits)
  have live: "\<exists>out s'. flush_to_segment s = (Inr out, s')" if "no_faults (dl_disk s)"
    using merge_staged_live [OF assms that] by (simp add: flush_to_segment_def)
  have "delta_inv (discard_flushed s) \<and> staged_set (discard_flushed s) = {}"
    using emptied_inv [OF assms, of "discard_flushed s"] by (simp add: discard_flushed_def clear_staged_def)
  with ok err live views assms f(5) show ?thesis
    by (auto simp: staged_retractions_def discard_flushed_def clear_staged_def bt_values_def bt_empty_def)
qed

section \<open>Rolling back an aborted transaction\<close>

definition undo_version :: "version \<Rightarrow> delta \<Rightarrow> delta" where
  "undo_version v s = snd (remove_version (v_business_key v) (v_sys_from v) (v_seq v) s)"

lemma try_all_resident:
  assumes "mt_inv (dl_mem s)" "mt_exact (dl_mem s)" "\<forall>v \<in> set vs. version_encodable v"
    "mt_bytes (dl_mem s) + sum_list (map Version_encoded_size vs) < 2 ^ 64"
  shows "\<exists>t. try_all delta_insert_resident vs s = (Inr (), s\<lparr>dl_mem := t\<rparr>) \<and> mt_inv t \<and> mt_exact t \<and>
    mt_abs t = mt_abs (dl_mem s) ++ pool vs"
  using assms
proof (induction vs arbitrary: s)
  case Nil
  then show ?case by (intro exI [of _ "dl_mem s"]) simp
next
  case (Cons v vs)
  let ?t = "MemTier_insert v (dl_mem s)" and ?s = "s\<lparr>dl_mem := MemTier_insert v (dl_mem s)\<rparr>"
  have ins: "delta_insert_resident v s = (Inr (), ?s)"
    using Cons.prems(3) by (simp add: delta_insert_resident_def delta_insert_inner_def version_encodable_def Let_def)
  note i = MemTier_insert_spec [OF Cons.prems(1), of v]
  have ex: "mt_exact ?t" using Cons.prems by (intro mt_exact_insert) simp_all
  have "mt_bytes ?t \<le> mt_bytes (dl_mem s) + Version_encoded_size v"
    using MemTier_insert_bytes(1) [OF Cons.prems(1), of v] by linarith
  with Cons.prems(3,4) ex i(1) obtain t where
    t: "try_all delta_insert_resident vs ?s = (Inr (), s\<lparr>dl_mem := t\<rparr>)" "mt_inv t" "mt_exact t" "mt_abs t = mt_abs ?t ++ pool vs"
    using Cons.IH [of ?s] by auto
  have "pool (v # vs) = [vkey v \<mapsto> v] ++ pool vs" by (simp add: pool_def fun_eq_iff map_add_def split: option.splits)
  then have "mt_abs t = mt_abs (dl_mem s) ++ pool (v # vs)" using t(4) i(2) by (auto simp: fun_eq_iff map_add_def split: option.splits)
  with t ins show ?case by auto
qed

lemma undo_versions:
  assumes "mt_inv (dl_mem s)" "mt_exact (dl_mem s)"
  shows "\<exists>t. fold undo_version ws s = s\<lparr>dl_mem := t\<rparr> \<and> mt_inv t \<and> mt_exact t \<and>
    mt_abs t = mt_abs (dl_mem s) |` (- vkey ` set ws)"
  using assms
proof (induction ws arbitrary: s)
  case Nil
  then show ?case by (intro exI [of _ "dl_mem s"]) simp
next
  case (Cons w ws)
  obtain b u where u: "MemTier_remove (v_business_key w) (v_sys_from w) (v_seq w) (dl_mem s) = (b, u)" by (rule prod.exhaust)
  note r = MemTier_remove_spec [OF Cons.prems(1) u] and e = mt_exact_remove [OF Cons.prems u]
  have step: "undo_version w s = s\<lparr>dl_mem := u\<rparr>" using u by (simp add: undo_version_def remove_version_def)
  obtain t where t: "fold undo_version ws (s\<lparr>dl_mem := u\<rparr>) = s\<lparr>dl_mem := t\<rparr>" "mt_inv t" "mt_exact t"
      "mt_abs t = mt_abs u |` (- vkey ` set ws)"
    using Cons.IH [of "s\<lparr>dl_mem := u\<rparr>"] r(1) e by auto
  then have "mt_abs t = mt_abs (dl_mem s) |` (- vkey ` set (w # ws))"
    using r(3) by (auto simp: vkey_def fun_eq_iff restrict_map_def)
  with t step show ?case by auto
qed

lemma mt_eqI: "mt_inv t \<Longrightarrow> mt_inv u \<Longrightarrow> mt_exact t \<Longrightarrow> mt_exact u \<Longrightarrow> mt_abs t = mt_abs u \<Longrightarrow> t = u"
  using mt_abs_eqI [of t u] by (cases t; cases u) (simp add: mt_exact_def mt_bytes_def MemTier_iter_def)

text \<open>
  An aborted transaction leaves no trace in the delta tier: staging fresh versions with the
  non-spilling insert always succeeds, whatever the disk's faults and however full the tier, and
  removing them again in any order restores the tier exactly, byte count, spill files and all; a
  staged retraction is undone the same way.
\<close>

theorem delta_resident_rollback:
  assumes "delta_inv s" "mt_exact (dl_mem s)" "\<forall>v \<in> set vs. version_encodable v \<and> vkey v \<notin> vkey ` staged_set s"
    and "mt_bytes (dl_mem s) + sum_list (map Version_encoded_size vs) < 2 ^ 64" "set ws = set vs"
    and "bt_get (dl_retractions s) (cl_business_key c, cl_sys_from c, cl_seq c) = None"
  shows "\<exists>s1. try_all delta_insert_resident vs s = (Inr (), s1) \<and> fold undo_version ws s1 = s \<and>
    remove_retraction (cl_business_key c) (cl_sys_from c) (cl_seq c) (stage_retraction c s) = (True, s)"
proof -
  have inv: "mt_inv (dl_mem s)" "bt_inv (dl_retractions s)" using assms(1) by (simp_all add: delta_inv_def)
  obtain t where t: "try_all delta_insert_resident vs s = (Inr (), s\<lparr>dl_mem := t\<rparr>)" "mt_inv t" "mt_exact t"
      "mt_abs t = mt_abs (dl_mem s) ++ pool vs"
    using try_all_resident [OF inv(1) assms(2) _ assms(4)] assms(3) by blast
  obtain u where u: "fold undo_version ws (s\<lparr>dl_mem := t\<rparr>) = s\<lparr>dl_mem := u\<rparr>" "mt_inv u" "mt_exact u"
      "mt_abs u = mt_abs t |` (- vkey ` set vs)"
    using undo_versions [of "s\<lparr>dl_mem := t\<rparr>" ws] t(2,3) assms(5) by auto
  have "mt_abs (dl_mem s) k = None" if "k \<in> vkey ` set vs" for k
  proof (rule ccontr)
    assume "mt_abs (dl_mem s) k \<noteq> None"
    then obtain v where v: "mt_abs (dl_mem s) k = Some v" by blast
    then have "v \<in> staged_set s" using mt_vkey [OF inv(1)] MemTier_iter_spec(4) [OF inv(1)] by (fastforce simp: staged_set_Un)
    with mt_vkey [OF inv(1) v] assms(3) that show False by (metis imageE image_eqI)
  qed
  moreover have "pool vs k = None" if "k \<notin> vkey ` set vs" for k
    using that pool_vkey [of vs k] by (cases "pool vs k") auto
  ultimately have "mt_abs u = mt_abs (dl_mem s)" using u(4) t(4) by (auto simp: fun_eq_iff map_add_def restrict_map_def split: option.splits)
  then have "u = dl_mem s" using mt_eqI u(2,3) inv(1) assms(2) by blast
  with u(1) t(1) show ?thesis
    using bt_remove_insert [OF inv(2) assms(6), of c] by (simp add: remove_retraction_def stage_retraction_def)
qed

section \<open>Bounds\<close>

lemma card_staged: "finite (staged_set s)" "delta_inv s \<Longrightarrow> card (staged_set s) \<le> staged_len s"
proof -
  show "finite (staged_set s)" by (simp add: staged_set_def)
  assume "delta_inv s"
  then have "length (delta_rows s) = staged_len s" by (simp add: delta_inv_def delta_rows_def staged_len_def MemTier_len_eq)
  then show "card (staged_set s) \<le> staged_len s" using card_length [of "delta_rows s"] by (simp add: staged_set_def)
qed

text \<open>
  C25. The resident size of the delta tier is bounded and exactly accounted: after every successful
  spilling insert the byte counter equals the encoded bytes of the resident rows and is at most the
  larger of the spill threshold and the inserted row, and the row count reported without reading a
  spill is never below the number of staged versions.
\<close>

theorem delta_insert_bounds:
  assumes "delta_inv s" "mt_exact (dl_mem s)" "dl_threshold s < 2 ^ 63" "stageable v"
    and "\<forall>w \<in> staged_set s. vkey w = vkey v \<longrightarrow> w = v" "delta_insert v s = (Inr (), s')"
  shows "delta_byte_size s' = mt_bytes (dl_mem s') \<and>
    delta_byte_size s' \<le> max (dl_threshold s) (Version_encoded_size v) \<and>
    card (staged_set s') \<le> staged_len s'"
proof -
  have un: "unresolved v = v" and enc: "version_encodable v" using assms(4) by (simp_all add: stageable_def)
  have ins: "delta_insert_inner v True s = (Inr (), s')" using assms(6) by (simp add: delta_insert_def)
  from assms(1) ins obtain s2 where a: "s' = s2\<lparr>dl_mem := MemTier_insert v (dl_mem s2)\<rparr>" "delta_inv s2"
      "s2 = s \<or> dl_mem s2 = MemTier_new"
      "mt_byte_size (dl_mem s2) = 0 \<or> u64_saturating_add (mt_byte_size (dl_mem s2)) (Version_encoded_size v) \<le> dl_threshold s"
    by (cases rule: delta_insert_inner_cases) auto
  have inv: "mt_inv (dl_mem s2)" using a(2) by (simp add: delta_inv_def)
  have ex: "mt_exact (dl_mem s2)" using a(3) assms(2) by (auto simp: mt_exact_def mt_bytes_def)
  have size: "Version_encoded_size v \<le> MAX_VERSION_FRAME_LEN" using enc by (simp add: version_encodable_iff)
  have le: "mt_bytes (dl_mem s2) + Version_encoded_size v \<le> max (dl_threshold s) (Version_encoded_size v)"
    using a(4) ex assms(3) by (auto simp: mt_exact_def u64_saturating_add_def min_def split: if_splits)
  then have "mt_bytes (dl_mem s2) + Version_encoded_size v < 2 ^ 64"
    using size assms(3) by (simp add: MAX_VERSION_FRAME_LEN_def max_def split: if_splits)
  then have "mt_exact (dl_mem s')" using mt_exact_insert [OF inv ex] a(1) by simp
  moreover have "mt_bytes (dl_mem s') \<le> max (dl_threshold s) (Version_encoded_size v)"
    using MemTier_insert_bytes(1) [OF inv, of v] le a(1) by simp
  moreover have "delta_inv s'" using delta_insert_inner_ok(1) [OF assms(1) ins un] assms(5) by blast
  ultimately show ?thesis using card_staged(2) by (simp add: delta_byte_size_def mt_exact_def)
qed

section \<open>A failed spill\<close>

text \<open>
  C28. A spill write that fails loses the resident rows: when an insert of an encodable version returns
  an error, every resident version is gone from the tier and only what had been spilled before is still
  staged, although those rows had been inserted successfully. The rows are drained from memory before
  the file is written; the validity index writes first and clears afterwards.
\<close>

theorem delta_failed_spill_loses_rows:
  assumes "delta_inv s" "delta_insert v s = (Inl e, s')" "Version_encoded_size v \<le> MAX_VERSION_FRAME_LEN"
  shows "MemTier_iter (dl_mem s') = [] \<and> staged_set s' = set (spilled_versions s) \<and>
    dl_live_spills s' = dl_live_spills s \<and> delta_inv s'"
  using assms(1) assms(2) [unfolded delta_insert_def]
  by (cases rule: delta_insert_inner_cases) (use assms(3) in \<open>simp_all add: version_encodable_iff\<close>)

section \<open>Witnesses\<close>

definition delta_over :: "mem_disk \<Rightarrow> delta" where
  "delta_over d = \<lparr>dl_disk = d, dl_threshold = 50, dl_mem = MemTier_new, dl_next_spill = 0, dl_live_spills = [],
     dl_spilled_rows = 0, dl_retractions = []\<rparr>"

text \<open>One resident version; two resident versions; one, with a failing disk below it.\<close>

definition one_delta :: "mem_disk \<Rightarrow> delta" where
  "one_delta d = (delta_over d)\<lparr>dl_mem := MemTier_insert first_version (dl_mem (delta_over d))\<rparr>"

definition two_delta :: delta where
  "two_delta = (one_delta MemDisk_new)\<lparr>dl_mem := MemTier_insert second_version (dl_mem (one_delta MemDisk_new))\<rparr>"

definition failing_disk :: mem_disk where
  "failing_disk = MemDisk_with_faults (faults_schedule Create StorageFull [])"

lemma delta_over_opens: "Delta_open MemDisk_new 50 = (Inr (delta_over MemDisk_new), MemDisk_new)"
  by (simp add: Delta_open_def delta_list_spills_def delta_discard_stale_spills_def disk_list_def faultless_check
      MemDisk_new_def List.map_filter_def delta_over_def bt_empty_def Let_def)

lemma delta_over_inv: "md_names d = [] \<Longrightarrow> md_store d = [] \<Longrightarrow> delta_inv (delta_over d)" "staged_set (delta_over d) = {}"
  by (simp_all add: delta_inv_def delta_over_def staged_set_Un spilled_versions_def unique_ids_def disk_wf_def file_at_def)

lemma example_stageable: "stageable first_version" "stageable second_version"
  by (simp_all add: stageable_def version_encodable_iff first_version_def second_version_def Version_open_def
      Version_encoded_size_def VERSION_HEADER_LEN_def MAX_VERSION_FRAME_LEN_def unresolved_def)

lemma example_vkeys: "vkey first_version \<noteq> vkey second_version"
  by (simp add: vkey_def first_version_def second_version_def Version_open_def)

lemma example_unique: "unique_ids {first_version, second_version}"
  using example_vkeys by (auto simp: unique_ids_def)

lemma one_delta_inv:
  assumes "md_names d = []" "md_store d = []"
  shows "delta_inv (one_delta d)" "staged_set (one_delta d) = {first_version}"
  using delta_add_spec [OF delta_over_inv(1) [OF assms] example_stageable(1) _ one_delta_def]
  by (simp_all add: delta_over_inv(2))

lemma two_delta_inv: "delta_inv two_delta" "staged_set two_delta = {second_version, first_version}"
  using delta_add_spec [OF one_delta_inv(1) example_stageable(2) _ two_delta_def] one_delta_inv(2) [of MemDisk_new] example_vkeys
  by (auto simp: MemDisk_new_def)

lemma two_delta_rows: "delta_rows two_delta = [first_version, second_version]"
proof -
  have lt: "i64_of 10 < i64_of 20" "\<not> i64_of 20 < i64_of 10"
    by (simp_all add: less_i64_def i64_val_of i64_min_def i64_max_def)
  then have "i64_of 10 \<noteq> i64_of 20" by auto
  with lt show ?thesis
    by (simp add: delta_rows_def spilled_versions_def two_delta_def one_delta_def delta_over_def MemTier_iter_def
        MemTier_insert_rows chain_values_def chain_insert_def MemTier_new_def bt_values_def bt_empty_def bt_get_def
        first_version_def second_version_def Version_open_def)
qed

theorem delta_crash_replay_witness:
  "\<exists>s. try_all delta_insert [second_version, first_version, second_version] (delta_over MemDisk_new) = (Inr (), s) \<and>
     staged_versions s = (Inr (sort_key vkey (remdups [second_version, first_version, second_version])), s)"
proof -
  have "unique_ids (set [second_version, first_version, second_version])"
    using example_unique by (simp add: insert_commute)
  moreover have "no_faults MemDisk_new" by (simp add: no_faults_def MemDisk_new_def)
  ultimately show ?thesis
    using delta_crash_replay [OF disk_wf_MemDisk(1) delta_over_opens, of "[second_version, first_version, second_version]"]
      example_stageable by (auto simp: delta_over_def)
qed

theorem delta_range_scan_witness:
  "\<exists>out. range_scan (Bound_Included [107], Bound_Unbounded) (i64_of 15) two_delta one_close_index = (Inr out, two_delta, one_close_index) \<and>
     set out = {v \<in> visible (vi_abs one_close_index) [first_version, second_version] (i64_of 15). in_range (v_business_key v) (Bound_Included [107], Bound_Unbounded)}"
proof -
  have "intervals_ordered (vi_abs one_close_index) (delta_rows two_delta)" using example_ordered by (simp add: two_delta_rows)
  moreover have "no_faults (dl_disk two_delta)" by (simp add: no_faults_def two_delta_def one_delta_def delta_over_def MemDisk_new_def)
  ultimately show ?thesis
    using delta_range_scan [OF two_delta_inv(1) one_close_index_inv(1), of "(Bound_Included [107], Bound_Unbounded)" "i64_of 15"]
      one_close_no_faults unfolding two_delta_rows by blast
qed

theorem delta_flush_drains_witness:
  "\<exists>out s'. flush_to_segment two_delta = (Inr out, s') \<and> set out = {second_version, first_version} \<and> staged_set s' = {}"
proof -
  have "no_faults (dl_disk two_delta)" by (simp add: no_faults_def two_delta_def one_delta_def delta_over_def MemDisk_new_def)
  then show ?thesis using delta_flush_drains [OF two_delta_inv(1)] unfolding two_delta_inv(2) by blast
qed

lemma one_delta_mem: "dl_mem (one_delta d) = MemTier_insert first_version MemTier_new"
  by (simp add: one_delta_def delta_over_def)

lemma first_size: "Version_encoded_size first_version = 46" "Version_encoded_size second_version = 45"
  by (simp_all add: first_version_def second_version_def Version_open_def Version_encoded_size_def VERSION_HEADER_LEN_def)

lemma one_delta_exact: "mt_exact (dl_mem (one_delta d))" "mt_bytes (dl_mem (one_delta d)) = 46" "mt_byte_size (dl_mem (one_delta d)) = 46"
proof -
  have n: "mt_exact MemTier_new" "mt_bytes MemTier_new = 0" by (simp_all add: mt_exact_def mt_bytes_def)
  show e: "mt_exact (dl_mem (one_delta d))"
    unfolding one_delta_mem by (rule mt_exact_insert [OF mt_new(1) n(1)]) (simp add: n(2) first_size)
  show "mt_bytes (dl_mem (one_delta d)) = 46"
    using MemTier_insert_bytes(1) [OF mt_new(1), of first_version] n(2) by (simp add: one_delta_mem first_size)
  then show "mt_byte_size (dl_mem (one_delta d)) = 46" using e by (simp add: mt_exact_def)
qed

theorem delta_resident_rollback_witness:
  "\<exists>s1. try_all delta_insert_resident [second_version] (one_delta MemDisk_new) = (Inr (), s1) \<and>
     fold undo_version [second_version] s1 = one_delta MemDisk_new"
proof -
  have inv: "delta_inv (one_delta MemDisk_new)" "staged_set (one_delta MemDisk_new) = {first_version}"
    using one_delta_inv [of MemDisk_new] by (simp_all add: MemDisk_new_def)
  have "\<forall>v \<in> set [second_version]. version_encodable v \<and> vkey v \<notin> vkey ` staged_set (one_delta MemDisk_new)"
    using inv(2) example_vkeys example_stageable(2) by (auto simp: stageable_def)
  moreover have "mt_bytes (dl_mem (one_delta MemDisk_new)) + sum_list (map Version_encoded_size [second_version]) < 2 ^ 64"
    unfolding one_delta_exact(2) by (simp add: first_size)
  moreover have "bt_get (dl_retractions (one_delta MemDisk_new)) k = None" for k by (simp add: one_delta_def delta_over_def)
  ultimately show ?thesis using delta_resident_rollback [OF inv(1) one_delta_exact(1) _ _ refl] by blast
qed

theorem delta_insert_bounds_witness:
  "\<exists>s'. delta_insert second_version (one_delta MemDisk_new) = (Inr (), s') \<and> delta_byte_size s' \<le> 50 \<and>
     card (staged_set s') \<le> staged_len s'"
proof -
  let ?s = "one_delta MemDisk_new"
  have inv: "delta_inv ?s" "staged_set ?s = {first_version}"
    using one_delta_inv [of MemDisk_new] by (simp_all add: MemDisk_new_def)
  have nf: "no_faults (dl_disk ?s)" and n: "dl_next_spill ?s < 2 ^ 64" and th: "dl_threshold ?s = 50"
    by (simp_all add: no_faults_def one_delta_def delta_over_def MemDisk_new_def)
  obtain s' where s': "delta_insert second_version ?s = (Inr (), s')"
    using delta_insert_live [OF inv(1) nf n, of second_version True] example_stageable(2) by (auto simp: delta_insert_def stageable_def)
  have "\<forall>w \<in> staged_set ?s. vkey w = vkey second_version \<longrightarrow> w = second_version" using inv(2) example_vkeys by simp
  from delta_insert_bounds [OF inv(1) one_delta_exact(1) _ example_stageable(2) this s'] th s' show ?thesis
    by (simp add: first_size)
qed

theorem delta_failed_spill_loses_rows_witness:
  "staged_set (one_delta failing_disk) = {first_version} \<and>
   (\<exists>e s'. delta_insert second_version (one_delta failing_disk) = (Inl e, s') \<and> staged_set s' = {})"
proof -
  let ?s = "one_delta failing_disk"
  have inv: "delta_inv ?s" "staged_set ?s = {first_version}"
    using one_delta_inv [of failing_disk] by (simp_all add: failing_disk_def MemDisk_with_faults_def)
  have mem: "MemTier_iter (dl_mem ?s) \<noteq> []" using one_delta_exact(2) [of failing_disk] by (auto simp: mt_bytes_def)
  obtain e d where c: "disk_create (delta_spill_name 0) failing_disk = (Inl e, d)"
    by (simp add: disk_create_def validate_spill_name failing_disk_def MemDisk_with_faults_def disk_check_def faults_check_def
        faults_schedule_def faults_take_def)
  have f: "dl_disk ?s = failing_disk" "dl_next_spill ?s = 0" "dl_threshold ?s = 50" "dl_live_spills ?s = []"
    by (simp_all add: one_delta_def delta_over_def)
  have "Version_check_encodable second_version = Inr ()" using example_stageable(2) by (simp add: stageable_def version_encodable_def)
  then have "\<exists>e s'. delta_insert second_version ?s = (Inl e, s')"
    using mem c by (simp add: delta_insert_def delta_insert_inner_def Let_def f one_delta_exact(3) first_size u64_saturating_add_def
        delta_spill_in_memory_def MemTier_drain_eq delta_write_spill_def)
  then obtain e' s' where i: "delta_insert second_version ?s = (Inl e', s')" by blast
  have "staged_set s' = {}"
    using delta_failed_spill_loses_rows [OF inv(1) i] by (simp add: first_size MAX_VERSION_FRAME_LEN_def spilled_versions_def f)
  with i inv(2) show ?thesis by blast
qed

end
