(* ===== verification/Rebuild.thy ===== *)
theory Rebuild
  imports Merge
begin

text \<open>
  The from-scratch rebuild of the validity index from the segment store (\<open>rebuild.rs\<close>): retractions are
  authoritative, supersessions are re-derived from version adjacency, and a retracted version is never
  closed by adjacency.
\<close>

section \<open>The algorithm\<close>

text \<open>\<open>windows(2)\<close>.\<close>

fun windows2 :: "'a list \<Rightarrow> ('a \<times> 'a) list" where
  "windows2 (x # y # xs) = (x, y) # windows2 (y # xs)"
| "windows2 _ = []"

definition supersession_close :: "bytes \<Rightarrow> version \<Rightarrow> version \<Rightarrow> close" where
  "supersession_close key prior nxt =
     \<lparr>cl_business_key = key, cl_sys_from = v_sys_from prior, cl_seq = v_seq prior,
      cl_sys_to = v_sys_from nxt, cl_closed_by = v_provenance nxt\<rparr>"

definition rebuild_pair :: "version_key set \<Rightarrow> bytes \<Rightarrow> version \<times> version \<Rightarrow> validity_index \<Rightarrow>
    (validity_error + unit) \<times> validity_index" where
  "rebuild_pair retracted key p index =
     (if (key, v_sys_from (fst p), v_seq (fst p)) \<in> retracted then (Inr (), index)
      else insert_close (supersession_close key (fst p) (snd p)) index)"

definition rebuild_chain :: "version_key set \<Rightarrow> bytes \<times> version_chain \<Rightarrow> validity_index \<Rightarrow>
    (validity_error + unit) \<times> validity_index" where
  "rebuild_chain retracted kc index =
     try_all (rebuild_pair retracted (fst kc)) (windows2 (bt_values (snd kc))) index"

definition rebuild_index_from_segments :: "version list \<Rightarrow> close list \<Rightarrow> validity_index \<Rightarrow>
    (validity_error + unit) \<times> validity_index" where
  "rebuild_index_from_segments versions retractions index =
     (case try_all insert_close retractions index of
        (Inl e, index1) \<Rightarrow> (Inl e, index1)
      | (Inr _, index1) \<Rightarrow>
          (let retracted = set (map close_target retractions);
               chs = fold chain_insert versions bt_empty
           in try_all (rebuild_chain retracted) chs index1))"

section \<open>Flattening the loops\<close>

lemma try_all_append:
  "try_all f (xs @ ys) s = (case try_all f xs s of (Inl e, s1) \<Rightarrow> (Inl e, s1) | (Inr _, s1) \<Rightarrow> try_all f ys s1)"
  by (induction xs arbitrary: s) (auto split: sum.splits prod.splits)

lemma try_all_concat: "try_all (\<lambda>x. try_all f (g x)) xs s = try_all f (concat (map g xs)) s"
  by (induction xs arbitrary: s) (auto simp: try_all_append split: sum.splits prod.splits)

lemma try_all_filter: "try_all (\<lambda>x s. if P x then (Inr (), s) else f (g x) s) xs s = try_all f (map g (filter (\<lambda>x. \<not> P x) xs)) s"
  by (induction xs arbitrary: s) (auto split: sum.splits prod.splits)

definition chain_closes :: "version_key set \<Rightarrow> bytes \<times> version_chain \<Rightarrow> close list" where
  "chain_closes retracted kc =
     map (\<lambda>p. supersession_close (fst kc) (fst p) (snd p))
       (filter (\<lambda>p. (fst kc, v_sys_from (fst p), v_seq (fst p)) \<notin> retracted) (windows2 (bt_values (snd kc))))"

definition adjacency_closes :: "version list \<Rightarrow> close list \<Rightarrow> close list" where
  "adjacency_closes vs rs =
     concat (map (chain_closes (set (map close_target rs))) (fold chain_insert vs bt_empty))"

lemma rebuild_is_inserts:
  "rebuild_index_from_segments vs rs s = try_all insert_close (rs @ adjacency_closes vs rs) s"
proof -
  have "rebuild_pair retracted key = (\<lambda>p s. if (key, v_sys_from (fst p), v_seq (fst p)) \<in> retracted then (Inr (), s)
      else insert_close (supersession_close key (fst p) (snd p)) s)" for retracted key
    by (intro ext) (simp add: rebuild_pair_def)
  then have "rebuild_chain retracted = (\<lambda>kc. try_all insert_close (chain_closes retracted kc))" for retracted
    using try_all_filter [where f = insert_close]
    by (intro ext) (simp add: rebuild_chain_def chain_closes_def)
  then show ?thesis
    by (simp add: rebuild_index_from_segments_def adjacency_closes_def try_all_append try_all_concat Let_def
        split: sum.splits prod.splits)
qed

section \<open>Adjacency\<close>

definition successor :: "version list \<Rightarrow> version_key \<Rightarrow> version \<Rightarrow> bool" where
  "successor vs k n \<longleftrightarrow> (\<exists>b. pool vs (fst k, b) = Some n \<and> snd k < b \<and>
     (\<forall>c. (fst k, c) \<in> dom (pool vs) \<longrightarrow> snd k < c \<longrightarrow> b \<le> c))"

lemma windows2_sorted:
  assumes "bt_inv m"
  shows "(e, e') \<in> set (windows2 m) \<longleftrightarrow>
    e \<in> set m \<and> e' \<in> set m \<and> fst e < fst e' \<and> (\<forall>x \<in> set m. fst e < fst x \<longrightarrow> fst e' \<le> fst x)"
  using assms
proof (induction m rule: windows2.induct)
  case (1 x y xs)
  have x: "fst x < fst z" if "z \<in> set (y # xs)" for z
    using that 1(2) by (cases x) (auto simp: bt_inv_Cons)
  have inv: "bt_inv (y # xs)" using 1(2) by (cases x) (simp add: bt_inv_Cons)
  have y: "fst y \<le> fst z" if "z \<in> set (y # xs)" for z
    using that inv by (cases y) (auto simp: bt_inv_Cons intro: less_imp_le)
  have inj: "z = y" if "z \<in> set (y # xs)" "fst z \<le> fst y" for z
    using that inv by (cases y) (auto simp: bt_inv_Cons)
  show ?case (is "_ \<longleftrightarrow> ?r")
  proof (cases "e = x")
    case True
    have "(e, e') \<notin> set (windows2 (y # xs))" using 1(1) [OF inv] x True by (metis less_irrefl)
    then have "(e, e') \<in> set (windows2 (x # y # xs)) \<longleftrightarrow> e' = y" using True by simp
    moreover have "e' = y" if ?r
    proof (rule inj)
      show "e' \<in> set (y # xs)" using that True by auto
      show "fst e' \<le> fst y" using that True x [of y] by simp
    qed
    moreover have ?r if "e' = y"
    proof (intro conjI ballI impI)
      show "e \<in> set (x # y # xs)" "e' \<in> set (x # y # xs)" "fst e < fst e'" using that True x [of y] by simp_all
      fix z assume "z \<in> set (x # y # xs)" "fst e < fst z"
      then have "z \<in> set (y # xs)" using True by auto
      then show "fst e' \<le> fst z" using that y by simp
    qed
    ultimately show ?thesis by blast
  next
    case False
    have "\<not> fst e < fst x" if "e \<in> set (y # xs)" using x [OF that] by (rule less_not_sym)
    moreover have "e' \<noteq> x" if "e \<in> set (y # xs)" "fst e < fst e'" using x [OF that(1)] that(2) by (auto dest: less_asym)
    ultimately show ?thesis using False 1(1) [OF inv] by auto
  qed
qed auto

lemma windows2_map: "windows2 (map f xs) = map (map_prod f f) (windows2 xs)"
  by (induction xs rule: windows2.induct) simp_all

lemma adjacency_close_iff:
  "c \<in> set (adjacency_closes vs rs) \<longleftrightarrow>
     (\<exists>k v n. pool vs k = Some v \<and> successor vs k n \<and> k \<notin> set (map close_target rs) \<and>
        c = supersession_close (fst k) v n)"
proof -
  let ?chs = "fold chain_insert vs bt_empty" and ?R = "set (map close_target rs)"
  have inv: "bt_inv ?chs" and ci: "\<And>key chain. bt_get ?chs key = Some chain \<Longrightarrow> bt_inv chain"
    and get: "\<And>k. chains_get ?chs k = pool vs k"
    using fold_chain_insert [of vs] by (auto simp: chains_inv_def)
  have entry: "(k, v) \<in> set chain \<longleftrightarrow> pool vs (key, k) = Some v" if "(key, chain) \<in> set ?chs" for key chain k v
  proof -
    have "bt_get ?chs key = Some chain" using that inv by (simp add: bt_get_iff)
    then show ?thesis using get [of "(key, k)"] ci [of key chain] bt_get_iff [of chain k v] by (auto simp: chains_get_def)
  qed
  have win: "(v, n) \<in> set (windows2 (bt_values chain)) \<longleftrightarrow>
      (\<exists>k. pool vs (key, k) = Some v \<and> successor vs (key, k) n)" if m: "(key, chain) \<in> set ?chs" for key chain v n
  proof -
    have "bt_get ?chs key = Some chain" using m inv by (simp add: bt_get_iff)
    then have ch: "bt_inv chain" by (rule ci)
    have "(v, n) \<in> set (windows2 (bt_values chain)) \<longleftrightarrow> (\<exists>a b. ((a, v), (b, n)) \<in> set (windows2 chain))"
      by (force simp: bt_values_def windows2_map)
    also have "\<dots> \<longleftrightarrow> (\<exists>k. pool vs (key, k) = Some v \<and> successor vs (key, k) n)"
    proof -
      have all: "(\<forall>x \<in> set chain. a < fst x \<longrightarrow> b \<le> fst x) \<longleftrightarrow>
          (\<forall>c. (key, c) \<in> dom (pool vs) \<longrightarrow> a < c \<longrightarrow> b \<le> c)" for a b
      proof (intro iffI ballI allI impI)
        fix c assume "\<forall>x \<in> set chain. a < fst x \<longrightarrow> b \<le> fst x" "(key, c) \<in> dom (pool vs)" "a < c"
        then show "b \<le> c" using entry [OF m] by fastforce
      next
        fix x assume "\<forall>c. (key, c) \<in> dom (pool vs) \<longrightarrow> a < c \<longrightarrow> b \<le> c" "x \<in> set chain" "a < fst x"
        moreover have "(key, fst x) \<in> dom (pool vs)" using entry [OF m, of "fst x" "snd x"] calculation(2) by (simp add: domI)
        ultimately show "b \<le> fst x" by blast
      qed
      show ?thesis unfolding windows2_sorted [OF ch] entry [OF m] successor_def fst_conv snd_conv all by blast
    qed
    finally show ?thesis .
  qed
  have ident: "(key, v_sys_from v, v_seq v) = (key, k)" if "pool vs (key, k) = Some v" for key k v
    using pool_vkey [OF that] by (simp add: vkey_def)
  have "c \<in> set (adjacency_closes vs rs) \<longleftrightarrow> (\<exists>key chain v n. (key, chain) \<in> set ?chs \<and>
      (v, n) \<in> set (windows2 (bt_values chain)) \<and> (key, v_sys_from v, v_seq v) \<notin> ?R \<and> c = supersession_close key v n)"
  proof -
    have one: "c \<in> set (chain_closes ?R (key, chain)) \<longleftrightarrow> (\<exists>v n. (v, n) \<in> set (windows2 (bt_values chain)) \<and>
        (key, v_sys_from v, v_seq v) \<notin> ?R \<and> c = supersession_close key v n)" for key chain
      by (auto simp: chain_closes_def image_iff)
    have "c \<in> set (adjacency_closes vs rs) \<longleftrightarrow> (\<exists>key chain. (key, chain) \<in> set ?chs \<and> c \<in> set (chain_closes ?R (key, chain)))"
      unfolding adjacency_closes_def by auto
    then show ?thesis unfolding one by blast
  qed
  also have "\<dots> \<longleftrightarrow> (\<exists>key chain k v n. (key, chain) \<in> set ?chs \<and> pool vs (key, k) = Some v \<and> successor vs (key, k) n \<and>
      (key, k) \<notin> ?R \<and> c = supersession_close key v n)"
  proof (intro iffI; elim exE conjE)
    fix key chain v n assume a: "(key, chain) \<in> set ?chs" "(v, n) \<in> set (windows2 (bt_values chain))"
      "(key, v_sys_from v, v_seq v) \<notin> ?R" "c = supersession_close key v n"
    then obtain k where k: "pool vs (key, k) = Some v" "successor vs (key, k) n" using win [OF a(1)] by blast
    have "(key, k) \<notin> ?R" using ident [OF k(1)] a(3) by simp
    with a(1,4) k show "\<exists>key chain k v n. (key, chain) \<in> set ?chs \<and> pool vs (key, k) = Some v \<and> successor vs (key, k) n \<and>
      (key, k) \<notin> ?R \<and> c = supersession_close key v n" by blast
  next
    fix key chain k v n assume a: "(key, chain) \<in> set ?chs" "pool vs (key, k) = Some v" "successor vs (key, k) n"
      "(key, k) \<notin> ?R" "c = supersession_close key v n"
    then have "(v, n) \<in> set (windows2 (bt_values chain))" using win [OF a(1)] by blast
    moreover have "(key, v_sys_from v, v_seq v) \<notin> ?R" using ident [OF a(2)] a(4) by simp
    ultimately show "\<exists>key chain v n. (key, chain) \<in> set ?chs \<and> (v, n) \<in> set (windows2 (bt_values chain)) \<and>
      (key, v_sys_from v, v_seq v) \<notin> ?R \<and> c = supersession_close key v n" using a(1,5) by blast
  qed
  also have "\<dots> \<longleftrightarrow> (\<exists>k v n. pool vs k = Some v \<and> successor vs k n \<and> k \<notin> ?R \<and> c = supersession_close (fst k) v n)"
  proof -
    have "\<exists>chain. (fst k, chain) \<in> set ?chs" if "pool vs k = Some v" for k v
      using get [of k] that by (auto simp: chains_get_def dest: bt_get_in_set split: option.splits)
    then show ?thesis by (metis (no_types, lifting) fst_conv prod.collapse)
  qed
  finally show ?thesis .
qed

section \<open>The rebuilt index\<close>

text \<open>
  The ends a history leaves behind: a retracted version ends as its retraction says, any other version
  ends where its successor starts, closed by the successor's transaction, and the last one is open.
\<close>

definition supersession_end :: "version \<Rightarrow> closed_interval" where
  "supersession_end n = \<lparr>ci_sys_to = v_sys_from n, ci_closed_by = v_provenance n\<rparr>"

definition history_ends :: "version list \<Rightarrow> close list \<Rightarrow> (version_key \<Rightarrow> closed_interval option) \<Rightarrow> bool" where
  "history_ends vs rs ends \<longleftrightarrow>
     (\<forall>c \<in> set rs. ends (close_target c) = Some (close_interval c)) \<and>
     (\<forall>k. k \<notin> close_target ` set rs \<longrightarrow>
        (\<forall>n. pool vs k \<noteq> None \<and> successor vs k n \<longrightarrow> ends k = Some (supersession_end n)) \<and>
        (pool vs k = None \<or> (\<forall>n. \<not> successor vs k n) \<longrightarrow> ends k = None))"

lemma supersession_close_parts:
  "pool vs k = Some v \<Longrightarrow> close_target (supersession_close (fst k) v n) = k"
  "close_interval (supersession_close key v n) = supersession_end n"
  by (auto simp: supersession_close_def close_target_def close_interval_def supersession_end_def vkey_def dest!: pool_vkey)

lemma rebuild_records:
  assumes "history_ends vs rs ends" "c \<in> set (rs @ adjacency_closes vs rs)"
  shows "ends (close_target c) = Some (close_interval c)"
proof (cases "c \<in> set rs")
  case True
  with assms(1) show ?thesis by (simp add: history_ends_def)
next
  case False
  with assms(2) obtain k v n where k: "pool vs k = Some v" "successor vs k n" "k \<notin> set (map close_target rs)"
    "c = supersession_close (fst k) v n" unfolding adjacency_close_iff set_append Un_iff by blast
  with assms(1) have "ends k = Some (supersession_end n)" unfolding history_ends_def set_map by blast
  with k supersession_close_parts(1) [OF k(1)] show ?thesis by (simp add: supersession_close_parts(2))
qed

lemma rebuild_complete:
  assumes "history_ends vs rs ends" "k \<notin> close_target ` set (rs @ adjacency_closes vs rs)"
  shows "ends k = None"
proof -
  have k: "k \<notin> close_target ` set rs" using assms(2) by auto
  have "pool vs k = None \<or> (\<forall>n. \<not> successor vs k n)"
  proof (rule ccontr)
    assume "\<not> (pool vs k = None \<or> (\<forall>n. \<not> successor vs k n))"
    then obtain v n where v: "pool vs k = Some v" "successor vs k n" by auto
    have "supersession_close (fst k) v n \<in> set (adjacency_closes vs rs)"
      unfolding adjacency_close_iff set_map using v k by blast
    moreover have "close_target (supersession_close (fst k) v n) = k" by (rule supersession_close_parts(1) [OF v(1)])
    ultimately show False using assms(2) by force
  qed
  with assms(1) k show ?thesis unfolding history_ends_def by blast
qed

lemma map_le_SomeD: "m \<subseteq>\<^sub>m n \<Longrightarrow> m k = Some v \<Longrightarrow> n k = Some v"
  by (metis domI map_le_def)

lemma try_all_live:
  assumes "\<forall>c \<in> set cs. ends (close_target c) = Some (close_interval c) \<and> close_encodable c"
    and "vi_ready s" "vi_abs s \<subseteq>\<^sub>m ends"
  shows "\<exists>s'. try_all insert_close cs s = (Inr (), s') \<and> vi_ready s'"
  using assms
proof (induction cs arbitrary: s)
  case (Cons c cs)
  have "vi_abs s (close_target c) \<in> {None, Some (close_interval c)}"
    using Cons.prems(1,3) by (cases "vi_abs s (close_target c)") (auto dest: map_le_SomeD)
  then obtain s1 where s1: "insert_close c s = (Inr (), s1)" "vi_ready s1"
    using insert_close_live [OF Cons.prems(2)] Cons.prems(1) by auto
  have "vi_abs s1 = (vi_abs s)(close_target c \<mapsto> close_interval c)"
    using vindex.insert_ok [OF _ s1(1)] Cons.prems(2) by (simp add: vi_ready_def)
  then have "vi_abs s1 \<subseteq>\<^sub>m ends" using Cons.prems(1,3) by (auto simp: map_le_def)
  with Cons.IH [OF _ s1(2)] Cons.prems(1) s1(1) show ?case by simp
qed simp

lemma rebuild_exact:
  assumes "vi_inv s" "vi_abs s = Map.empty" "history_ends vs rs ends" "rebuild_index_from_segments vs rs s = (Inr (), s')"
  shows "vi_inv s'" "vi_abs s' = ends"
proof -
  let ?cs = "rs @ adjacency_closes vs rs"
  have run: "try_all insert_close ?cs s = (Inr (), s')" using assms(4) by (simp only: rebuild_is_inserts)
  show "vi_inv s'" using vindex.try_all_inv [OF assms(1) run] by simp
  have "vi_abs s' k = ends k" for k
  proof (cases "k \<in> close_target ` set ?cs")
    case True
    then show ?thesis using vindex.try_all_ok [OF assms(1) run] rebuild_records [OF assms(3)] by auto
  next
    case False
    then have "vi_abs s' k = vi_abs s k" using vindex.try_all_ok [OF assms(1) run] by blast
    with rebuild_complete [OF assms(3) False] assms(2) show ?thesis by simp
  qed
  then show "vi_abs s' = ends" by (rule ext)
qed

lemma rebuild_live:
  assumes "vi_abs s = Map.empty" "history_ends vs rs ends" "vi_ready s" "list_all close_encodable (rs @ adjacency_closes vs rs)"
  shows "\<exists>s'. rebuild_index_from_segments vs rs s = (Inr (), s')"
proof -
  have "\<forall>c \<in> set (rs @ adjacency_closes vs rs). ends (close_target c) = Some (close_interval c) \<and> close_encodable c"
    using rebuild_records [OF assms(2)] assms(4) by (simp add: list_all_iff)
  moreover have "vi_abs s \<subseteq>\<^sub>m ends" by (simp add: assms(1))
  ultimately show ?thesis unfolding rebuild_is_inserts using try_all_live [OF _ assms(3)] by blast
qed

text \<open>
  The rebuild from the segment store reproduces the index exactly. Given the ends the history left
  behind (retracted versions end where their retraction says, every other version where its successor
  in \<open>(sys_from, seq)\<close> order starts, the last one open), a rebuild that starts from an empty index and
  returns \<open>Ok\<close>, under any fault schedule, leaves precisely those ends: no deleted version is closed at
  its re-insert and so resurrected across the deletion gap, and no open version is closed. Without
  faults, and with every record within the frame ceiling, the rebuild does return \<open>Ok\<close>.
\<close>

theorem rebuild_reproduces_index:
  assumes "vi_inv s" "vi_abs s = Map.empty" "history_ends vs rs ends"
  shows "(\<forall>s'. rebuild_index_from_segments vs rs s = (Inr (), s') \<longrightarrow> vi_inv s' \<and> vi_abs s' = ends) \<and>
    (vi_ready s \<longrightarrow> list_all close_encodable (rs @ adjacency_closes vs rs) \<longrightarrow>
       (\<exists>s'. rebuild_index_from_segments vs rs s = (Inr (), s')))"
  using rebuild_exact [OF assms] rebuild_live [OF assms(2,3)] by blast

text \<open>The first version was deleted at 12 and the key re-inserted at 20: the deletion gap stays.\<close>

definition delete_at_12 :: close where
  "delete_at_12 = \<lparr>cl_business_key = [107], cl_sys_from = i64_of 10, cl_seq = 3, cl_sys_to = i64_of 12,
     cl_closed_by = \<lparr>p_txn_id = 10, p_committed_at = i64_of 12, p_principal = []\<rparr>\<rparr>"

lemma deletion_history:
  "history_ends [first_version, second_version] [delete_at_12] [close_target delete_at_12 \<mapsto> close_interval delete_at_12]"
proof -
  have lt: "\<not> i64_of 20 < i64_of 10" "i64_of 10 \<noteq> i64_of 20"
    using less_i64_def i64_val_of [of 10] i64_val_of [of 20] i64_val_inject by (auto simp: i64_min_def i64_max_def)
  have t: "close_target delete_at_12 = ([107], i64_of 10, 3)" by (simp add: delete_at_12_def close_target_def)
  have "\<not> successor [first_version, second_version] ([107], i64_of 20, 4) n" for n
    using lt by (auto simp: successor_def example_pool less_prod_def split: if_splits)
  then show ?thesis using lt by (auto simp: history_ends_def example_pool t split: if_splits)
qed

theorem rebuild_reproduces_index_witness:
  "\<exists>s'. rebuild_index_from_segments [first_version, second_version] [delete_at_12] empty_index = (Inr (), s') \<and>
     vi_abs s' = [close_target delete_at_12 \<mapsto> close_interval delete_at_12]"
proof -
  have adj: "adjacency_closes [first_version, second_version] [delete_at_12] = []"
  proof -
    have False if "c \<in> set (adjacency_closes [first_version, second_version] [delete_at_12])" for c
    proof -
      from that obtain k v n where k: "pool [first_version, second_version] k = Some v"
        "successor [first_version, second_version] k n" "k \<notin> close_target ` set [delete_at_12]"
        by (auto simp: adjacency_close_iff)
      then have "[close_target delete_at_12 \<mapsto> close_interval delete_at_12] k = Some (supersession_end n)"
        using deletion_history unfolding history_ends_def by blast
      with k(3) show False by (auto split: if_splits)
    qed
    then show ?thesis by (cases "adjacency_closes [first_version, second_version] [delete_at_12]") auto
  qed
  have "list_all close_encodable ([delete_at_12] @ adjacency_closes [first_version, second_version] [delete_at_12])"
    unfolding adj by (simp add: close_encodable_iff delete_at_12_def Close_encoded_size_def CLOSE_HEADER_LEN_def MAX_CLOSE_FRAME_LEN_def)
  moreover have "vi_ready empty_index"
    using empty_index_inv by (simp add: vi_ready_def empty_index_def MemDisk_new_def no_faults_def file_at_def mem_bytes_def)
  ultimately show ?thesis
    using rebuild_reproduces_index [OF empty_index_inv deletion_history] by blast
qed

end
