(* ===== verification/Systime.thy ===== *)
theory Systime
  imports Delta_Props Rebuild
begin

text \<open>
  The system-time write path (\<open>systime.rs\<close>): a write is stamped with the clock's reading, resolved
  against the staged versions, the sealed versions and the validity index, and applied as a set of redo
  entries. A clock reading is an argument of the write; the sealed lookup, a trait in the code, is an
  argument too, with its in-memory implementations below. The two tiers are threaded as a pair.
\<close>

section \<open>Redo entries, sealed lookups and errors\<close>

datatype redo = Insert version | Close close | Retract close

datatype segment_error =
    SegIo io_error
  | SegCorrupt string
  | SegUnsupportedVersion "16 word" "16 word"
  | SegTooLarge string

type_synonym sealed_lookup = "bytes \<Rightarrow> segment_error + version list"

definition EmptySealed_versions_for :: sealed_lookup where
  "EmptySealed_versions_for key = Inr []"

definition SealedVersions_extend :: "version list \<Rightarrow> version list \<Rightarrow> version list" where
  "SealedVersions_extend versions new_versions = versions @ new_versions"

definition SealedVersions_versions_for :: "version list \<Rightarrow> sealed_lookup" where
  "SealedVersions_versions_for versions key = Inr (filter (\<lambda>v. v_business_key v = key) versions)"

datatype systime_error =
    KeyExists
  | KeyNotFound
  | TimeExhausted
  | ClockRegressed
  | StDelta delta_error
  | StValidity validity_error
  | StSealed segment_error

type_synonym tiers = "delta \<times> validity_index"

section \<open>Stamping and resolving\<close>

text \<open>The writer's state is the last commit timestamp it issued.\<close>

definition next_commit_ts :: "i64 \<Rightarrow> i64 option \<Rightarrow> (systime_error + i64) \<times> i64 option" where
  "next_commit_ts now last_commit =
     (if (case last_commit of Some prev \<Rightarrow> now < prev | None \<Rightarrow> False) then (Inl ClockRegressed, last_commit)
      else if SYSTEM_TIME_OPEN \<le> now then (Inl TimeExhausted, last_commit)
      else (Inr now, Some now))"

definition systime_close_of :: "bytes \<Rightarrow> version \<Rightarrow> i64 \<Rightarrow> u64 \<Rightarrow> bytes \<Rightarrow> close" where
  "systime_close_of key prior commit txn_id prin =
     \<lparr>cl_business_key = key, cl_sys_from = v_sys_from prior, cl_seq = v_seq prior, cl_sys_to = commit,
      cl_closed_by = \<lparr>p_txn_id = txn_id, p_committed_at = commit, p_principal = prin\<rparr>\<rparr>"

definition open_version :: "bytes \<Rightarrow> i64 \<Rightarrow> u64 \<Rightarrow> bytes option \<Rightarrow> u64 \<Rightarrow> bytes \<Rightarrow> version" where
  "open_version key commit seq payload txn_id prin =
     Version_open key commit seq \<lparr>p_txn_id = txn_id, p_committed_at = commit, p_principal = prin\<rparr> payload"

definition resolve_live :: "sealed_lookup \<Rightarrow> bytes \<Rightarrow> i64 \<Rightarrow> tiers \<Rightarrow> (systime_error + version option) \<times> tiers" where
  "resolve_live lookup key at ts =
     (case candidate_versions key (fst ts) of
        (Inl e, delta) \<Rightarrow> (Inl (StDelta e), delta, snd ts)
      | (Inr delta_versions, delta) \<Rightarrow>
          (case lookup key of
             Inl e \<Rightarrow> (Inl (StSealed e), delta, snd ts)
           | Inr sealed_versions \<Rightarrow>
               (case resolve_open delta_versions sealed_versions key at (snd ts) of
                  (Inl e, index) \<Rightarrow> (Inl (StValidity e), delta, index)
                | (Inr r, index) \<Rightarrow> (Inr r, delta, index))))"

section \<open>Applying and undoing a redo set\<close>

definition apply_redo :: "redo \<Rightarrow> tiers \<Rightarrow> (systime_error + unit) \<times> tiers" where
  "apply_redo r ts =
     (case r of
        Insert v \<Rightarrow>
          (case delta_insert v (fst ts) of
             (Inl e, delta) \<Rightarrow> (Inl (StDelta e), delta, snd ts)
           | (Inr _, delta) \<Rightarrow> (Inr (), delta, snd ts))
      | Close c \<Rightarrow>
          (case insert_close c (snd ts) of
             (Inl e, index) \<Rightarrow> (Inl (StValidity e), fst ts, index)
           | (Inr _, index) \<Rightarrow> (Inr (), fst ts, index))
      | Retract c \<Rightarrow>
          (case insert_close c (snd ts) of
             (Inl e, index) \<Rightarrow> (Inl (StValidity e), fst ts, index)
           | (Inr _, index) \<Rightarrow> (Inr (), stage_retraction c (fst ts), index)))"

definition apply_redos :: "redo list \<Rightarrow> tiers \<Rightarrow> (systime_error + unit) \<times> tiers" where
  "apply_redos redos ts = try_all apply_redo redos ts"

definition apply_redo_resident :: "redo \<Rightarrow> tiers \<Rightarrow> (systime_error + unit) \<times> tiers" where
  "apply_redo_resident r ts =
     (case r of
        Insert v \<Rightarrow>
          (case delta_insert_resident v (fst ts) of
             (Inl e, delta) \<Rightarrow> (Inl (StDelta e), delta, snd ts)
           | (Inr _, delta) \<Rightarrow> (Inr (), delta, snd ts))
      | Close c \<Rightarrow>
          (case insert_close_resident c (snd ts) of
             (Inl e, index) \<Rightarrow> (Inl (StValidity e), fst ts, index)
           | (Inr _, index) \<Rightarrow> (Inr (), fst ts, index))
      | Retract c \<Rightarrow>
          (case insert_close_resident c (snd ts) of
             (Inl e, index) \<Rightarrow> (Inl (StValidity e), fst ts, index)
           | (Inr _, index) \<Rightarrow> (Inr (), stage_retraction c (fst ts), index)))"

definition apply_redos_resident :: "redo list \<Rightarrow> tiers \<Rightarrow> (systime_error + unit) \<times> tiers" where
  "apply_redos_resident redos ts = try_all apply_redo_resident redos ts"

definition undo_redo :: "redo \<Rightarrow> tiers \<Rightarrow> tiers" where
  "undo_redo r ts =
     (case r of
        Insert v \<Rightarrow> (snd (remove_version (v_business_key v) (v_sys_from v) (v_seq v) (fst ts)), snd ts)
      | Close c \<Rightarrow> (fst ts, snd (remove_close (cl_business_key c, cl_sys_from c, cl_seq c) (snd ts)))
      | Retract c \<Rightarrow>
          (snd (remove_retraction (cl_business_key c) (cl_sys_from c) (cl_seq c) (fst ts)),
           snd (remove_close (cl_business_key c, cl_sys_from c, cl_seq c) (snd ts))))"

definition undo_redos :: "redo list \<Rightarrow> tiers \<Rightarrow> tiers" where
  "undo_redos redos ts = fold undo_redo (rev redos) ts"

section \<open>The writes\<close>

type_synonym writer = "i64 option \<times> tiers"

text \<open>The resolution half of a write: the stamped commit and the redo set, the tiers only read.\<close>

definition stage_insert :: "sealed_lookup \<Rightarrow> bytes \<Rightarrow> bytes option \<Rightarrow> u64 \<Rightarrow> u64 \<Rightarrow> bytes \<Rightarrow> i64 \<Rightarrow> writer \<Rightarrow>
    (systime_error + i64 \<times> redo list) \<times> writer" where
  "stage_insert lookup key payload seq txn_id prin now w =
     (case next_commit_ts now (fst w) of
        (Inl e, last_commit) \<Rightarrow> (Inl e, last_commit, snd w)
      | (Inr commit, last_commit) \<Rightarrow>
          (case resolve_live lookup key commit (snd w) of
             (Inl e, ts) \<Rightarrow> (Inl e, last_commit, ts)
           | (Inr (Some _), ts) \<Rightarrow> (Inl KeyExists, last_commit, ts)
           | (Inr None, ts) \<Rightarrow>
               (Inr (commit, [Insert (open_version key commit seq payload txn_id prin)]), last_commit, ts)))"

definition stage_update :: "sealed_lookup \<Rightarrow> bytes \<Rightarrow> bytes option \<Rightarrow> u64 \<Rightarrow> u64 \<Rightarrow> bytes \<Rightarrow> i64 \<Rightarrow> writer \<Rightarrow>
    (systime_error + i64 \<times> redo list) \<times> writer" where
  "stage_update lookup key payload seq txn_id prin now w =
     (case next_commit_ts now (fst w) of
        (Inl e, last_commit) \<Rightarrow> (Inl e, last_commit, snd w)
      | (Inr commit, last_commit) \<Rightarrow>
          (case resolve_live lookup key commit (snd w) of
             (Inl e, ts) \<Rightarrow> (Inl e, last_commit, ts)
           | (Inr None, ts) \<Rightarrow> (Inl KeyNotFound, last_commit, ts)
           | (Inr (Some prior), ts) \<Rightarrow>
               (Inr (commit, [Close (systime_close_of key prior commit txn_id prin),
                              Insert (open_version key commit seq payload txn_id prin)]), last_commit, ts)))"

definition stage_delete :: "sealed_lookup \<Rightarrow> bytes \<Rightarrow> u64 \<Rightarrow> bytes \<Rightarrow> i64 \<Rightarrow> writer \<Rightarrow>
    (systime_error + i64 \<times> redo list) \<times> writer" where
  "stage_delete lookup key txn_id prin now w =
     (case next_commit_ts now (fst w) of
        (Inl e, last_commit) \<Rightarrow> (Inl e, last_commit, snd w)
      | (Inr commit, last_commit) \<Rightarrow>
          (case resolve_live lookup key commit (snd w) of
             (Inl e, ts) \<Rightarrow> (Inl e, last_commit, ts)
           | (Inr None, ts) \<Rightarrow> (Inl KeyNotFound, last_commit, ts)
           | (Inr (Some prior), ts) \<Rightarrow>
               (Inr (commit, [Retract (systime_close_of key prior commit txn_id prin)]), last_commit, ts)))"

text \<open>The direct writes, which resolve and apply in one call.\<close>

definition systime_insert :: "sealed_lookup \<Rightarrow> bytes \<Rightarrow> bytes option \<Rightarrow> u64 \<Rightarrow> u64 \<Rightarrow> bytes \<Rightarrow> i64 \<Rightarrow> writer \<Rightarrow>
    (systime_error + i64) \<times> writer" where
  "systime_insert lookup key payload seq txn_id prin now w =
     (case next_commit_ts now (fst w) of
        (Inl e, last_commit) \<Rightarrow> (Inl e, last_commit, snd w)
      | (Inr commit, last_commit) \<Rightarrow>
          (case resolve_live lookup key commit (snd w) of
             (Inl e, ts) \<Rightarrow> (Inl e, last_commit, ts)
           | (Inr (Some _), ts) \<Rightarrow> (Inl KeyExists, last_commit, ts)
           | (Inr None, ts) \<Rightarrow>
               (case apply_redos [Insert (open_version key commit seq payload txn_id prin)] ts of
                  (Inl e, ts1) \<Rightarrow> (Inl e, last_commit, ts1)
                | (Inr _, ts1) \<Rightarrow> (Inr commit, last_commit, ts1))))"

definition systime_update :: "sealed_lookup \<Rightarrow> bytes \<Rightarrow> bytes option \<Rightarrow> u64 \<Rightarrow> u64 \<Rightarrow> bytes \<Rightarrow> i64 \<Rightarrow> writer \<Rightarrow>
    (systime_error + i64) \<times> writer" where
  "systime_update lookup key payload seq txn_id prin now w =
     (case next_commit_ts now (fst w) of
        (Inl e, last_commit) \<Rightarrow> (Inl e, last_commit, snd w)
      | (Inr commit, last_commit) \<Rightarrow>
          (case resolve_live lookup key commit (snd w) of
             (Inl e, ts) \<Rightarrow> (Inl e, last_commit, ts)
           | (Inr None, ts) \<Rightarrow> (Inl KeyNotFound, last_commit, ts)
           | (Inr (Some prior), ts) \<Rightarrow>
               (case apply_redos [Close (systime_close_of key prior commit txn_id prin),
                                  Insert (open_version key commit seq payload txn_id prin)] ts of
                  (Inl e, ts1) \<Rightarrow> (Inl e, last_commit, ts1)
                | (Inr _, ts1) \<Rightarrow> (Inr commit, last_commit, ts1))))"

definition systime_delete :: "sealed_lookup \<Rightarrow> bytes \<Rightarrow> u64 \<Rightarrow> bytes \<Rightarrow> i64 \<Rightarrow> writer \<Rightarrow>
    (systime_error + i64) \<times> writer" where
  "systime_delete lookup key txn_id prin now w =
     (case next_commit_ts now (fst w) of
        (Inl e, last_commit) \<Rightarrow> (Inl e, last_commit, snd w)
      | (Inr commit, last_commit) \<Rightarrow>
          (case resolve_live lookup key commit (snd w) of
             (Inl e, ts) \<Rightarrow> (Inl e, last_commit, ts)
           | (Inr None, ts) \<Rightarrow> (Inl KeyNotFound, last_commit, ts)
           | (Inr (Some prior), ts) \<Rightarrow>
               (case apply_redos [Retract (systime_close_of key prior commit txn_id prin)] ts of
                  (Inl e, ts1) \<Rightarrow> (Inl e, last_commit, ts1)
                | (Inr _, ts1) \<Rightarrow> (Inr commit, last_commit, ts1))))"

end
