(* ===== verification/Timeline.thy ===== *)
theory Timeline
  imports Systime
begin

text \<open>
  The history a table's writes leave behind, free of tiers and files: the versions, the retractions and
  the materialised ends. \<open>timeline\<close> is the invariant of such a history, \<open>snapshot\<close> what an \<open>AS OF\<close> read
  of it returns, and the lemmas give the effect of an insert, a supersession and a deletion on both.
\<close>

definition vord :: "version \<Rightarrow> i64 \<times> u64" where
  "vord v = (v_sys_from v, v_seq v)"

definition end_of :: "(version_key \<Rightarrow> closed_interval option) \<Rightarrow> version \<Rightarrow> i64" where
  "end_of ends v = (case ends (vkey v) of None \<Rightarrow> SYSTEM_TIME_OPEN | Some i \<Rightarrow> ci_sys_to i)"

text \<open>The versions an \<open>AS OF\<close> read returns, as they were written (without the overlaid end).\<close>

definition snapshot :: "(version_key \<Rightarrow> closed_interval option) \<Rightarrow> version list \<Rightarrow> i64 \<Rightarrow> version set" where
  "snapshot ends vs t = unresolved ` visible ends vs t"

text \<open>
  No two versions share an identity and none starts after the high-water mark \<open>hw\<close>; a version that
  has a successor ends no later than the successor starts; an end belongs to a version, lies at or
  after its start and at or before \<open>hw\<close>; and the ends are the ones the retractions and the adjacency
  of the versions determine.
\<close>

definition timeline :: "version list \<Rightarrow> close list \<Rightarrow> (version_key \<Rightarrow> closed_interval option) \<Rightarrow> i64 \<Rightarrow> bool" where
  "timeline vs rs ends hw \<longleftrightarrow> unique_ids (set vs) \<and> hw < SYSTEM_TIME_OPEN \<and>
     (\<forall>v \<in> set vs. unresolved v = v \<and> v_sys_from v \<le> hw) \<and>
     (\<forall>v \<in> set vs. \<forall>w \<in> set vs. v_business_key v = v_business_key w \<longrightarrow> vord v < vord w \<longrightarrow>
        ends (vkey v) \<noteq> None \<and> end_of ends v \<le> v_sys_from w) \<and>
     (\<forall>k i. ends k = Some i \<longrightarrow> k \<in> vkey ` set vs \<and> fst (snd k) \<le> ci_sys_to i \<and> ci_sys_to i \<le> hw) \<and>
     history_ends vs rs ends"

lemma vkey_vord: "vkey v = (v_business_key v, vord v)"
  by (simp add: vkey_def vord_def)

lemma unresolved_fields [simp]: "vkey (unresolved v) = vkey v" "v_business_key (unresolved v) = v_business_key v"
  "v_sys_from (unresolved v) = v_sys_from v" "unresolved (resolve ends k v) = unresolved v"
  by (simp_all add: unresolved_def vkey_def resolve_def overlay_def split: option.splits)

lemma unresolved_open: "unresolved v = v \<Longrightarrow> v_sys_to v = SYSTEM_TIME_OPEN"
  by (metis unresolved_def version.select_convs(4) version.surjective version.update_convs(4,6))

lemma resolve_end: "unresolved v = v \<Longrightarrow> v_sys_to (resolve ends (vkey v) v) = end_of ends v"
  by (auto simp: resolve_def end_of_def overlay_def unresolved_open split: option.splits)

lemma snapshot_iff:
  assumes "unique_ids (set vs)" "\<forall>v \<in> set vs. unresolved v = v"
  shows "v \<in> snapshot ends vs t \<longleftrightarrow> v \<in> set vs \<and> v_sys_from v \<le> t \<and> t < end_of ends v"
proof
  assume "v \<in> snapshot ends vs t"
  then obtain r k where r: "v = unresolved r" "resolved ends vs k = Some r" "fst (snd k) \<le> t" "t < v_sys_to r"
    by (auto simp: snapshot_def visible_def)
  then obtain w where w: "pool vs k = Some w" "r = resolve ends k w" by (auto simp: resolved_def)
  then have "w \<in> set vs" "vkey w = k" using pool_vkey by auto
  with r w assms(2) show "v \<in> set vs \<and> v_sys_from v \<le> t \<and> t < end_of ends v"
    by (auto simp: vkey_def resolve_end [unfolded vkey_def])
next
  assume v: "v \<in> set vs \<and> v_sys_from v \<le> t \<and> t < end_of ends v"
  then have "resolved ends vs (vkey v) = Some (resolve ends (vkey v) v)"
    using pool_unique [OF assms(1), of "vkey v" v] by (simp add: resolved_def)
  moreover have "unresolved (resolve ends (vkey v) v) = v" "v_sys_to (resolve ends (vkey v) v) = end_of ends v"
    using v assms(2) by (simp_all add: resolve_end)
  ultimately show "v \<in> snapshot ends vs t"
    using v unfolding snapshot_def visible_def by (force simp: vkey_def intro!: rev_image_eqI)
qed

lemma timelineD:
  assumes "timeline vs rs ends hw"
  shows "unique_ids (set vs)" "hw < SYSTEM_TIME_OPEN" "v \<in> set vs \<Longrightarrow> unresolved v = v" "v \<in> set vs \<Longrightarrow> v_sys_from v \<le> hw"
    "v \<in> set vs \<Longrightarrow> w \<in> set vs \<Longrightarrow> v_business_key v = v_business_key w \<Longrightarrow> vord v < vord w \<Longrightarrow>
       ends (vkey v) \<noteq> None \<and> end_of ends v \<le> v_sys_from w"
    "ends k = Some i \<Longrightarrow> k \<in> vkey ` set vs \<and> fst (snd k) \<le> ci_sys_to i \<and> ci_sys_to i \<le> hw"
    "history_ends vs rs ends"
  using assms unfolding timeline_def by blast+

lemma timeline_snapshot:
  "timeline vs rs ends hw \<Longrightarrow> v \<in> snapshot ends vs t \<longleftrightarrow> v \<in> set vs \<and> v_sys_from v \<le> t \<and> t < end_of ends v"
  by (rule snapshot_iff) (simp_all add: timelineD)

lemma timeline_ordered:
  assumes "timeline vs rs ends hw"
  shows "intervals_ordered ends vs"
  unfolding intervals_ordered_def
proof (intro allI impI)
  fix key a b v assume b: "(key, b) \<in> dom (pool vs)" and v: "resolved ends vs (key, a) = Some v" and lt: "a < b"
  note u = timelineD(1) [OF assms]
  obtain w x where w: "pool vs (key, b) = Some w" and x: "pool vs (key, a) = Some x" "v = resolve ends (key, a) x"
    using b v by (auto simp: resolved_def)
  have wx: "w \<in> set vs" "vkey w = (key, b)" "x \<in> set vs" "vkey x = (key, a)" using w x(1) pool_unique [OF u] by simp_all
  then have "v_business_key x = v_business_key w" "vord x < vord w" "v_sys_from w = fst b" using lt by (auto simp: vkey_vord vord_def)
  with timelineD(5) [OF assms wx(3,1)] have "end_of ends x \<le> fst b" by simp
  then show "v_sys_to v \<le> fst b" using resolve_end [of x ends] timelineD(3) [OF assms wx(3)] wx(4) by (simp add: x(2))
qed

text \<open>At or after the high-water mark, what is visible of a key is its open version.\<close>

lemma visible_open:
  assumes "timeline vs rs ends hw" "hw \<le> t" "t < SYSTEM_TIME_OPEN"
  shows "v \<in> visible ends vs t \<longleftrightarrow> v \<in> set vs \<and> ends (vkey v) = None"
proof
  note u = timelineD(1) [OF assms(1)]
  { assume "v \<in> visible ends vs t"
    then obtain k w where w: "pool vs k = Some w" "v = resolve ends k w" "t < v_sys_to v" by (auto simp: visible_def resolved_def)
    then have wk: "w \<in> set vs" "vkey w = k" using pool_vkey by auto
    have "t < end_of ends w" using w wk resolve_end [of w ends] timelineD(3) [OF assms(1) wk(1)] by simp
    then have "ends k = None"
      using timelineD(6) [OF assms(1), of k] assms(2) wk(2) by (cases "ends k") (auto simp: end_of_def)
    with w wk show "v \<in> set vs \<and> ends (vkey v) = None" by (simp add: resolve_def) }
  assume v: "v \<in> set vs \<and> ends (vkey v) = None"
  then have "resolved ends vs (vkey v) = Some v" using pool_unique [OF u, of "vkey v" v] by (simp add: resolved_def resolve_def)
  moreover have "v_sys_from v \<le> t" using timelineD(4) [OF assms(1), of v] v assms(2) by simp
  moreover have "v_sys_to v = SYSTEM_TIME_OPEN" using timelineD(3) [OF assms(1), of v] v unresolved_open by simp
  ultimately show "v \<in> visible ends vs t" using assms(3) unfolding visible_def by (force simp: vkey_def)
qed

lemma open_is_last:
  assumes "timeline vs rs ends hw" "v \<in> set vs" "ends (vkey v) = None" "w \<in> set vs" "v_business_key w = v_business_key v"
  shows "vord w \<le> vord v"
  using timelineD(5) [OF assms(1,2,4)] assms(3,5) by (metis not_le)

lemma open_unique:
  assumes "timeline vs rs ends hw" "v \<in> set vs" "ends (vkey v) = None" "w \<in> set vs" "ends (vkey w) = None"
    "v_business_key w = v_business_key v"
  shows "w = v"
proof -
  have "vord w = vord v"
    using open_is_last [OF assms(1,2,3,4)] open_is_last [OF assms(1,4,5,2)] assms(6) by (simp add: order_antisym)
  then show ?thesis
    using inj_onD [OF timelineD(1) [OF assms(1), unfolded unique_ids_def], of w v] assms by (simp add: vkey_vord)
qed

section \<open>Successors by set\<close>

lemma successor_iff:
  assumes "unique_ids (set vs)"
  shows "successor vs k n \<longleftrightarrow> n \<in> set vs \<and> v_business_key n = fst k \<and> snd k < vord n \<and>
    (\<forall>w \<in> set vs. v_business_key w = fst k \<longrightarrow> snd k < vord w \<longrightarrow> vord n \<le> vord w)"
proof -
  have dom: "(fst k, c) \<in> dom (pool vs) \<longleftrightarrow> (\<exists>w \<in> set vs. v_business_key w = fst k \<and> vord w = c)" for c
  proof -
    have "(fst k, c) \<in> dom (pool vs) \<longleftrightarrow> (\<exists>w. pool vs (fst k, c) = Some w)" by blast
    then show ?thesis unfolding pool_unique [OF assms] vkey_vord by auto
  qed
  show ?thesis unfolding successor_def dom pool_unique [OF assms] vkey_vord prod.inject by blast
qed

lemma history_ends_iff:
  assumes "unique_ids (set vs)"
  shows "history_ends vs rs ends \<longleftrightarrow>
    (\<forall>c \<in> set rs. ends (close_target c) = Some (close_interval c)) \<and>
    (\<forall>k. k \<notin> close_target ` set rs \<longrightarrow>
       (\<forall>n. k \<in> vkey ` set vs \<and> successor vs k n \<longrightarrow> ends k = Some (supersession_end n)) \<and>
       (k \<notin> vkey ` set vs \<or> (\<forall>n. \<not> successor vs k n) \<longrightarrow> ends k = None))"
proof -
  have none: "pool vs k = None \<longleftrightarrow> k \<notin> vkey ` set vs" for k
    using pool_unique [OF assms, of k] by (metis image_iff not_None_eq)
  show ?thesis unfolding history_ends_def none not_not ..
qed

text \<open>Two lists of the same versions have the same timelines and the same snapshots.\<close>

lemma timeline_cong:
  assumes "set vs' = set vs" "set rs' = set rs"
  shows "timeline vs' rs' ends hw = timeline vs rs ends hw"
proof -
  have "history_ends vs' rs' ends = history_ends vs rs ends" if u: "unique_ids (set vs)"
  proof -
    have u': "unique_ids (set vs')" using u assms(1) by simp
    have "successor vs' = successor vs" by (simp add: fun_eq_iff successor_iff [OF u] successor_iff [OF u'] assms(1))
    then show ?thesis unfolding history_ends_iff [OF u] history_ends_iff [OF u'] by (simp add: assms)
  qed
  then show ?thesis unfolding timeline_def by (auto simp: assms)
qed

lemma snapshot_cong:
  assumes "set vs' = set vs" "timeline vs rs ends hw"
  shows "snapshot ends vs' t = snapshot ends vs t"
proof -
  have "timeline vs' rs ends hw" using assms by (simp add: timeline_cong [of vs' vs rs rs])
  then show ?thesis using assms by (auto simp: timeline_snapshot)
qed

section \<open>Adding a version\<close>

text \<open>
  The ends after a version is added: the open version of its key, if there is one, ends where the new
  version starts, closed by the new version's transaction.
\<close>

definition superseded :: "(version_key \<Rightarrow> closed_interval option) \<Rightarrow> version list \<Rightarrow> version \<Rightarrow> version_key \<Rightarrow> closed_interval option" where
  "superseded ends vs v k =
     (if ends k = None \<and> fst k = v_business_key v \<and> k \<in> vkey ` set vs then Some (supersession_end v) else ends k)"

lemma superseded_id:
  assumes "\<And>w. w \<in> set vs \<Longrightarrow> v_business_key w = v_business_key v \<Longrightarrow> ends (vkey w) \<noteq> None"
  shows "superseded ends vs v = ends"
  using assms by (auto simp: superseded_def fun_eq_iff vkey_def)

lemma superseded_upd:
  assumes "timeline vs rs ends hw" "p \<in> set vs" "ends (vkey p) = None" "v_business_key p = v_business_key v"
  shows "superseded ends vs v = ends(vkey p \<mapsto> supersession_end v)"
proof
  fix k
  show "superseded ends vs v k = (ends(vkey p \<mapsto> supersession_end v)) k"
  proof (cases "ends k = None \<and> fst k = v_business_key v \<and> k \<in> vkey ` set vs")
    case True
    then obtain w where w: "w \<in> set vs" "k = vkey w" by blast
    have "ends (vkey w) = None" "v_business_key w = v_business_key p" using True w(2) assms(4) by (simp, simp add: vkey_def)
    then have "w = p" by (rule open_unique [OF assms(1-3) w(1)])
    with True w show ?thesis by (simp add: superseded_def)
  next
    case False
    have "fst (vkey p) = v_business_key v" using assms(4) by (simp add: vkey_def)
    with False assms(2,3) have "k \<noteq> vkey p" by blast
    with False show ?thesis unfolding superseded_def by simp
  qed
qed

lemma end_of_superseded:
  assumes "w \<in> set vs"
  shows "end_of (superseded ends vs v) w =
    (if ends (vkey w) = None \<and> v_business_key w = v_business_key v then v_sys_from v else end_of ends w)"
  using assms by (auto simp: end_of_def superseded_def supersession_end_def vkey_def)

lemma successor_after_add:
  assumes u: "unique_ids (set vs)" "unique_ids (set vs')" and vs': "set vs' = insert v (set vs)"
    and ab: "\<forall>w \<in> set vs. v_business_key w = v_business_key v \<longrightarrow> vord w < vord v"
    and k: "k \<in> vkey ` set vs"
  shows "fst k \<noteq> v_business_key v \<Longrightarrow> successor vs' k n = successor vs k n"
    "successor vs k m \<Longrightarrow> successor vs' k n \<longleftrightarrow> n = m"
    "fst k = v_business_key v \<Longrightarrow> \<forall>m. \<not> successor vs k m \<Longrightarrow> successor vs' k n \<longleftrightarrow> n = v"
proof -
  note above = ab [rule_format]
  have same: "a = b" if "a \<in> set vs'" "b \<in> set vs'" "v_business_key a = v_business_key b" "vord a = vord b" for a b
    using inj_onD [OF u(2) [unfolded unique_ids_def], of a b] that by (simp add: vkey_vord)
  show "fst k \<noteq> v_business_key v \<Longrightarrow> successor vs' k n = successor vs k n"
    unfolding successor_iff [OF u(1)] successor_iff [OF u(2)] vs' by auto
  have vk: "snd k < vord v" if "fst k = v_business_key v" using k above that by (auto simp: vkey_vord)
  { assume m: "successor vs k m"
    then have m': "m \<in> set vs" "v_business_key m = fst k" "snd k < vord m"
      "\<And>w. w \<in> set vs \<Longrightarrow> v_business_key w = fst k \<Longrightarrow> snd k < vord w \<Longrightarrow> vord m \<le> vord w"
      unfolding successor_iff [OF u(1)] by blast+
    have mv: "vord m < vord v" if "fst k = v_business_key v" using above m' that by simp
    have succ: "successor vs' k m"
      unfolding successor_iff [OF u(2)] vs' using m' mv by (auto intro: less_imp_le)
    have "n = m" if n: "successor vs' k n"
    proof (rule same)
      show "n \<in> set vs'" "m \<in> set vs'" "v_business_key n = v_business_key m"
        using n m' unfolding successor_iff [OF u(2)] vs' by auto
      have "vord n \<le> vord m" "vord m \<le> vord n" using n succ unfolding successor_iff [OF u(2)] by auto
      then show "vord n = vord m" by simp
    qed
    with succ show "successor vs' k n \<longleftrightarrow> n = m" by blast }
  assume key: "fst k = v_business_key v" and none: "\<forall>m. \<not> successor vs k m"
  have "\<not> snd k < vord w" if "w \<in> set vs" "v_business_key w = fst k" for w
  proof
    assume "snd k < vord w"
    let ?above = "{x \<in> set vs. v_business_key x = fst k \<and> snd k < vord x}"
    have "finite ?above" "?above \<noteq> {}" using that \<open>snd k < vord w\<close> by auto
    then obtain m where "m \<in> ?above" "\<forall>x \<in> ?above. vord m \<le> vord x" by (metis (no_types, lifting) arg_min_if_finite not_le)
    then have "successor vs k m" unfolding successor_iff [OF u(1)] by auto
    with none show False by blast
  qed
  then show "successor vs' k n \<longleftrightarrow> n = v"
    unfolding successor_iff [OF u(2)] vs' using key vk by auto
qed

lemma timeline_add:
  assumes tl: "timeline vs rs ends hw" and now: "hw \<le> now" "now < SYSTEM_TIME_OPEN"
    and v: "v_sys_from v = now" "unresolved v = v" and vs': "set vs' = insert v (set vs)"
    and above: "\<And>w. w \<in> set vs \<Longrightarrow> v_business_key w = v_business_key v \<Longrightarrow> vord w < vord v"
  shows "timeline vs' rs (superseded ends vs v) now"
    "t < SYSTEM_TIME_OPEN \<Longrightarrow> snapshot (superseded ends vs v) vs' t =
       (if t < now then snapshot ends vs t else insert v {w \<in> snapshot ends vs t. v_business_key w \<noteq> v_business_key v})"
proof -
  note d = timelineD [OF tl]
  let ?e = "superseded ends vs v"
  have ab: "\<forall>w \<in> set vs. v_business_key w = v_business_key v \<longrightarrow> vord w < vord v" using above by blast
  have fresh: "vkey v \<notin> vkey ` set vs" using above by (force simp: vkey_vord)
  then have none: "ends (vkey v) = None" using d(6) [of "vkey v"] by (cases "ends (vkey v)") auto
  then have none': "?e (vkey v) = None" using fresh by (simp add: superseded_def)
  have u': "unique_ids (set vs')" unfolding vs' using d(1) fresh by (intro unique_ids_insert) (auto dest: sym)
  have keep: "?e k = ends k" if "ends k \<noteq> None" for k using that by (simp add: superseded_def)
  have closed: "end_of ends w \<le> hw" if "w \<in> set vs" "ends (vkey w) \<noteq> None" for w
    using that d(6) [of "vkey w"] by (cases "ends (vkey w)") (auto simp: end_of_def)
  have hist: "history_ends vs' rs ?e"
    unfolding history_ends_iff [OF u']
  proof (intro conjI ballI allI impI)
    fix c assume "c \<in> set rs"
    then show "?e (close_target c) = Some (close_interval c)"
      using d(7) keep unfolding history_ends_def by simp
  next
    note h = d(7) [unfolded history_ends_iff [OF d(1)], THEN conjunct2, rule_format]
    fix k assume k: "k \<notin> close_target ` set rs"
    { fix n assume n: "k \<in> vkey ` set vs' \<and> successor vs' k n"
      have kv: "k \<in> vkey ` set vs"
      proof (rule ccontr)
        assume "k \<notin> vkey ` set vs"
        then have "k = vkey v" using n vs' by auto
        with n have "n \<in> insert v (set vs)" "v_business_key n = v_business_key v" "vord v < vord n"
          unfolding successor_iff [OF u'] vs' by (auto simp: vkey_vord)
        with above [of n] show False by auto
      qed
      note s = successor_after_add [OF d(1) u' vs' ab kv]
      show "?e k = Some (supersession_end n)"
      proof (cases "\<exists>m. successor vs k m")
        case True
        then obtain m where m: "successor vs k m" by blast
        have "ends k = Some (supersession_end m)" using h [OF k] kv m by blast
        moreover have "n = m" using s(2) [OF m] n by blast
        ultimately show ?thesis using keep [of k] by simp
      next
        case False
        then have "ends k = None" using h [OF k] by blast
        moreover have "fst k = v_business_key v" using s(1) n False by blast
        moreover have "n = v" using s(3) [OF \<open>fst k = v_business_key v\<close>] n False by blast
        ultimately show ?thesis using kv by (simp add: superseded_def)
      qed }
    assume no: "k \<notin> vkey ` set vs' \<or> (\<forall>n. \<not> successor vs' k n)"
    show "?e k = None"
    proof (cases "k \<in> vkey ` set vs")
      case False
      then show ?thesis using h [OF k] by (simp add: superseded_def)
    next
      case kv: True
      then have no': "\<forall>n. \<not> successor vs' k n" using no vs' by auto
      note s = successor_after_add [OF d(1) u' vs' ab kv]
      have "\<not> successor vs k m" for m using s(2) [of m m] no' by blast
      then show ?thesis using h [OF k] s(3) no' kv by (auto simp: superseded_def)
    qed
  qed
  have chain: "?e (vkey x) \<noteq> None \<and> end_of ?e x \<le> v_sys_from y"
    if "x \<in> set vs'" "y \<in> set vs'" "v_business_key x = v_business_key y" "vord x < vord y" for x y
  proof -
    have x: "x \<in> set vs" using that vs' above [of y] by auto
    show ?thesis
    proof (cases "y \<in> set vs")
      case True
      then show ?thesis using d(5) [OF x True that(3,4)] by (auto simp: superseded_def end_of_superseded x)
    next
      case False
      then have y: "y = v" using that(2) vs' by simp
      then have "fst (vkey x) = v_business_key v" "v_business_key x = v_business_key v" using that(3) by (simp_all add: vkey_def)
      then show ?thesis using closed [OF x] now(1) x v(1) unfolding y end_of_superseded [OF x]
        by (auto simp: superseded_def)
    qed
  qed
  have bounds: "k \<in> vkey ` set vs' \<and> fst (snd k) \<le> ci_sys_to i \<and> ci_sys_to i \<le> now" if "?e k = Some i" for k i
  proof (cases "ends k = None")
    case True
    then have "k \<in> vkey ` set vs" "i = supersession_end v" using that by (auto simp: superseded_def split: if_splits)
    moreover obtain w where "w \<in> set vs" "k = vkey w" using calculation(1) by blast
    ultimately show ?thesis using d(4) [of w] now v(1) by (auto simp: vs' vkey_def supersession_end_def)
  next
    case False
    then have "ends k = Some i" using that keep by simp
    from d(6) [OF this] now(1) vs' show ?thesis by auto
  qed
  have "\<forall>w \<in> set vs'. unresolved w = w \<and> v_sys_from w \<le> now" using d(3,4) v now vs' by fastforce
  with u' now(2) chain bounds hist show tl': "timeline vs' rs ?e now" unfolding timeline_def by blast
  assume t: "t < SYSTEM_TIME_OPEN"
  have old: "w \<in> snapshot ?e vs' t \<longleftrightarrow>
      (if t < now then w \<in> snapshot ends vs t else w \<in> snapshot ends vs t \<and> v_business_key w \<noteq> v_business_key v)"
    if "w \<in> set vs" for w
  proof -
    have "ends (vkey w) = None \<Longrightarrow> end_of ends w = SYSTEM_TIME_OPEN" by (simp add: end_of_def)
    then show ?thesis
      unfolding timeline_snapshot [OF tl] timeline_snapshot [OF tl'] end_of_superseded [OF that]
      using that closed [OF that] now t v(1) vs' by (cases "ends (vkey w) = None") auto
  qed
  have new: "v \<in> snapshot ?e vs' t \<longleftrightarrow> now \<le> t"
    using v(1) t none' vs' by (simp add: timeline_snapshot [OF tl'] end_of_def)
  have sub: "snapshot ?e vs' t \<subseteq> insert v (set vs)" "snapshot ends vs t \<subseteq> set vs" "v \<notin> set vs"
    using fresh vs' by (auto simp: timeline_snapshot [OF tl] timeline_snapshot [OF tl'])
  show "snapshot ?e vs' t =
      (if t < now then snapshot ends vs t else insert v {w \<in> snapshot ends vs t. v_business_key w \<noteq> v_business_key v})"
    using old new sub by (auto split: if_splits)
qed

section \<open>Ending a version\<close>

lemma timeline_retract:
  assumes tl: "timeline vs rs ends hw" and now: "hw \<le> now" "now < SYSTEM_TIME_OPEN"
    and p: "p \<in> set vs" "ends (vkey p) = None"
    and c: "close_target c = vkey p" "cl_sys_to c = now" "set rs' = insert c (set rs)"
  shows "timeline vs rs' (ends(vkey p \<mapsto> close_interval c)) now"
    "t < SYSTEM_TIME_OPEN \<Longrightarrow> snapshot (ends(vkey p \<mapsto> close_interval c)) vs t =
       (if t < now then snapshot ends vs t else {w \<in> snapshot ends vs t. v_business_key w \<noteq> v_business_key p})"
proof -
  note d = timelineD [OF tl]
  let ?e = "ends(vkey p \<mapsto> close_interval c)"
  have i: "ci_sys_to (close_interval c) = now" using c(2) by (simp add: close_interval_def)
  have not_rs: "vkey p \<notin> close_target ` set rs"
    using d(7) p(2) unfolding history_ends_def by (metis imageE option.distinct(1))
  have last: "\<not> vord p < vord w" if "w \<in> set vs" "v_business_key w = v_business_key p" for w
    using open_is_last [OF tl p that] by simp
  have same: "w = p" if "w \<in> set vs" "vkey w = vkey p" for w
    using inj_onD [OF d(1) [unfolded unique_ids_def]] that p(1) by blast
  have hist: "history_ends vs rs' ?e"
    unfolding history_ends_iff [OF d(1)] c(3)
  proof (intro conjI ballI allI impI)
    note h = d(7) [unfolded history_ends_iff [OF d(1)]]
    fix c' assume c': "c' \<in> insert c (set rs)"
    show "?e (close_target c') = Some (close_interval c')"
    proof (cases "c' \<in> set rs")
      case True
      then have "close_target c' \<noteq> vkey p" using not_rs by force
      with True h show ?thesis by simp
    qed (use c' c(1) in simp)
  next
    note h = d(7) [unfolded history_ends_iff [OF d(1)], THEN conjunct2, rule_format]
    fix k assume "k \<notin> close_target ` insert c (set rs)"
    then have k: "k \<notin> close_target ` set rs" and e: "?e k = ends k" using c(1) by auto
    show "?e k = Some (supersession_end n)" if "k \<in> vkey ` set vs \<and> successor vs k n" for n
      unfolding e using h [OF k] that by blast
    show "?e k = None" if "k \<notin> vkey ` set vs \<or> (\<forall>n. \<not> successor vs k n)"
      unfolding e using h [OF k] that by blast
  qed
  have chain: "?e (vkey x) \<noteq> None \<and> end_of ?e x \<le> v_sys_from y"
    if "x \<in> set vs" "y \<in> set vs" "v_business_key x = v_business_key y" "vord x < vord y" for x y
  proof -
    have "x \<noteq> p" using last [OF that(2)] that(3,4) by auto
    then have "vkey x \<noteq> vkey p" using same that(1) by blast
    then show ?thesis using d(5) [OF that] by (simp add: end_of_def)
  qed
  have bounds: "k \<in> vkey ` set vs \<and> fst (snd k) \<le> ci_sys_to j \<and> ci_sys_to j \<le> now" if "?e k = Some j" for k j
  proof (cases "k = vkey p")
    case True
    then have "j = close_interval c" using that by simp
    then show ?thesis using True p(1) d(4) [OF p(1)] now i by (auto simp: vkey_def)
  next
    case False
    then have "ends k = Some j" using that by simp
    from d(6) [OF this] now(1) show ?thesis by auto
  qed
  have "\<forall>w \<in> set vs. unresolved w = w \<and> v_sys_from w \<le> now" using d(3,4) now by fastforce
  with d(1) now(2) chain bounds hist show tl': "timeline vs rs' ?e now" unfolding timeline_def by blast
  assume t: "t < SYSTEM_TIME_OPEN"
  have ends': "end_of ?e w = (if w = p then now else end_of ends w)" if "w \<in> set vs" for w
    using same [OF that] i by (auto simp: end_of_def)
  have other: "end_of ends w \<le> now" if "w \<in> set vs" "v_business_key w = v_business_key p" "w \<noteq> p" for w
  proof -
    have "ends (vkey w) \<noteq> None" using open_unique [OF tl p that(1)] that(2,3) by blast
    then show ?thesis using d(6) [of "vkey w"] now(1) by (cases "ends (vkey w)") (auto simp: end_of_def)
  qed
  have "w \<in> snapshot ?e vs t \<longleftrightarrow>
      (if t < now then w \<in> snapshot ends vs t else w \<in> snapshot ends vs t \<and> v_business_key w \<noteq> v_business_key p)" for w
    using ends' [of w] other [of w] p t
    by (auto simp: timeline_snapshot [OF tl] timeline_snapshot [OF tl'] end_of_def [of ends p] split: if_splits)
  then show "snapshot ?e vs t = (if t < now then snapshot ends vs t else {w \<in> snapshot ends vs t. v_business_key w \<noteq> v_business_key p})"
    by (intro set_eqI) (simp split: if_splits)
qed

end
