(* ===== verification/Systime_Props.thy ===== *)
theory Systime_Props
  imports Timeline
begin

text \<open>
  The write path against the history it builds. A table is the writer's clock mark, the two tiers and
  the sealed versions and retractions; its invariant is that versions, retractions and materialised
  ends form a timeline. The properties: what each write does to every \<open>AS OF\<close> read, that no sequence of
  writes and flushes changes a read of the past, that the index can always be rebuilt from versions and
  retractions, and that undoing an aborted transaction's redo set leaves no trace.
\<close>

section \<open>Tables\<close>

record table =
  tb_last :: "i64 option"
  tb_delta :: delta
  tb_index :: validity_index
  tb_sealed :: "version list"
  tb_retracted :: "close list"

definition tb_versions :: "table \<Rightarrow> version list" where
  "tb_versions t = tb_sealed t @ delta_rows (tb_delta t)"

definition tb_retractions :: "table \<Rightarrow> close list" where
  "tb_retractions t = tb_retracted t @ staged_retractions (tb_delta t)"

definition as_of :: "table \<Rightarrow> i64 \<Rightarrow> version set" where
  "as_of t x = snapshot (vi_abs (tb_index t)) (tb_versions t) x"

definition high_water :: "i64 option \<Rightarrow> i64" where
  "high_water last_commit = (case last_commit of None \<Rightarrow> I64_MIN | Some p \<Rightarrow> p)"

definition retractions_keyed :: "delta \<Rightarrow> bool" where
  "retractions_keyed d \<longleftrightarrow> (\<forall>k c. bt_get (dl_retractions d) k = Some c \<longrightarrow> close_target c = k)"

definition table_inv :: "table \<Rightarrow> bool" where
  "table_inv t \<longleftrightarrow> delta_inv (tb_delta t) \<and> vi_inv (tb_index t) \<and> retractions_keyed (tb_delta t) \<and>
     timeline (tb_versions t) (tb_retractions t) (vi_abs (tb_index t)) (high_water (tb_last t))"

text \<open>A write of \<open>systime.rs\<close> on a table, with the sealed versions as its lookup.\<close>

definition table_write :: "(sealed_lookup \<Rightarrow> writer \<Rightarrow> (systime_error + 'a) \<times> writer) \<Rightarrow> table \<Rightarrow> (systime_error + 'a) \<times> table" where
  "table_write f t =
     (case f (SealedVersions_versions_for (tb_sealed t)) (tb_last t, tb_delta t, tb_index t) of
        (r, last_commit, delta, index) \<Rightarrow> (r, t\<lparr>tb_last := last_commit, tb_delta := delta, tb_index := index\<rparr>))"

definition table_insert :: "bytes \<Rightarrow> bytes option \<Rightarrow> u64 \<Rightarrow> u64 \<Rightarrow> bytes \<Rightarrow> i64 \<Rightarrow> table \<Rightarrow> (systime_error + i64) \<times> table" where
  "table_insert key payload seq txn_id prin now =
     table_write (\<lambda>lookup. systime_insert lookup key payload seq txn_id prin now)"

definition table_update :: "bytes \<Rightarrow> bytes option \<Rightarrow> u64 \<Rightarrow> u64 \<Rightarrow> bytes \<Rightarrow> i64 \<Rightarrow> table \<Rightarrow> (systime_error + i64) \<times> table" where
  "table_update key payload seq txn_id prin now =
     table_write (\<lambda>lookup. systime_update lookup key payload seq txn_id prin now)"

definition table_delete :: "bytes \<Rightarrow> u64 \<Rightarrow> bytes \<Rightarrow> i64 \<Rightarrow> table \<Rightarrow> (systime_error + i64) \<times> table" where
  "table_delete key txn_id prin now = table_write (\<lambda>lookup. systime_delete lookup key txn_id prin now)"

text \<open>The caller's contract on \<open>seq\<close>: above that of every version of the key stamped with the same tick.\<close>

definition seq_fresh :: "bytes \<Rightarrow> i64 \<Rightarrow> u64 \<Rightarrow> table \<Rightarrow> bool" where
  "seq_fresh key now seq t \<longleftrightarrow>
     (\<forall>w \<in> set (tb_versions t). v_business_key w = key \<longrightarrow> v_sys_from w = now \<longrightarrow> v_seq w < seq)"

section \<open>Stamping and resolving\<close>

lemma I64_MIN_le [simp]: "I64_MIN \<le> x"
  using i64_val_bounds(1) [of x] by (simp add: less_eq_i64_def)

lemma next_commit_cases:
  assumes "next_commit_ts now last_commit = (r, last')"
  obtains (refused) e where "r = Inl e" "e \<in> {ClockRegressed, TimeExhausted}" "last' = last_commit"
  | (stamped) "r = Inr now" "last' = Some now" "high_water last_commit \<le> now" "now < SYSTEM_TIME_OPEN"
proof (cases "high_water last_commit \<le> now \<and> now < SYSTEM_TIME_OPEN")
  case True
  with assms have "r = Inr now" "last' = Some now"
    by (auto simp: next_commit_ts_def high_water_def split: option.splits if_splits)
  with True show thesis by (intro stamped) simp_all
next
  case False
  with assms have "(r = Inl ClockRegressed \<or> r = Inl TimeExhausted) \<and> last' = last_commit"
    by (auto simp: next_commit_ts_def high_water_def split: option.splits if_splits)
  with refused show thesis by blast
qed

lemma timeline_mono:
  "timeline vs rs ends hw \<Longrightarrow> hw \<le> now \<Longrightarrow> now < SYSTEM_TIME_OPEN \<Longrightarrow> timeline vs rs ends now"
  unfolding timeline_def by (meson order_trans)

lemma tables_same:
  assumes "dl_same (tb_delta t) d" "vi_same (tb_index t) i"
  shows "delta_inv (tb_delta t) \<Longrightarrow> delta_inv d" "vi_inv (tb_index t) \<Longrightarrow> vi_inv i" "vi_abs i = vi_abs (tb_index t)"
    "delta_rows d = delta_rows (tb_delta t)" "staged_set d = staged_set (tb_delta t)"
    "dl_retractions d = dl_retractions (tb_delta t)"
  using dl_same_views [OF assms(1)] dl_same_fields(5) [OF assms(1)] vi_same_views [OF assms(2)] by simp_all

lemma table_inv_moved:
  assumes "table_inv t" "dl_same (tb_delta t) d" "vi_same (tb_index t) i"
    "last' = tb_last t \<or> last' = Some now \<and> high_water (tb_last t) \<le> now \<and> now < SYSTEM_TIME_OPEN"
  shows "table_inv (t\<lparr>tb_last := last', tb_delta := d, tb_index := i\<rparr>)"
    "as_of (t\<lparr>tb_last := last', tb_delta := d, tb_index := i\<rparr>) x = as_of t x"
    "tb_versions (t\<lparr>tb_last := last', tb_delta := d, tb_index := i\<rparr>) = tb_versions t"
  using assms(1,4) tables_same [OF assms(2,3)] timeline_mono
  by (auto simp: table_inv_def as_of_def tb_versions_def tb_retractions_def staged_retractions_def retractions_keyed_def
      high_water_def)

lemma resolve_live_spec:
  assumes inv: "table_inv t" and at: "high_water (tb_last t) \<le> at" "at < SYSTEM_TIME_OPEN"
    and r: "resolve_live (SealedVersions_versions_for (tb_sealed t)) key at (tb_delta t, tb_index t) = (r, d, i)"
  shows "dl_same (tb_delta t) d" "vi_same (tb_index t) i"
    "r = Inr q \<Longrightarrow> q = Some p \<longleftrightarrow> p \<in> set (tb_versions t) \<and> v_business_key p = key \<and> vi_abs (tb_index t) (vkey p) = None"
proof -
  let ?s = "filter (\<lambda>v. v_business_key v = key)" and ?d = "tb_delta t" and ?i = "tb_index t"
  have vi: "vi_inv ?i" and tl: "timeline (tb_versions t) (tb_retractions t) (vi_abs ?i) (high_water (tb_last t))"
    using inv by (simp_all add: table_inv_def)
  obtain qc d1 where c: "candidate_versions key ?d = (qc, d1)" by (rule prod.exhaust)
  note cs = candidate_versions_spec [OF c]
  show "dl_same ?d d" using r c cs(1) by (auto simp: resolve_live_def SealedVersions_versions_for_def split: sum.splits prod.splits)
  show "vi_same ?i i"
    using r c vi by (auto simp: resolve_live_def SealedVersions_versions_for_def split: sum.splits prod.splits dest: resolve_open_same)
  assume "r = Inr q"
  then have ro: "resolve_open (?s (delta_rows ?d)) (?s (tb_sealed t)) key at ?i = (Inr q, i)"
    using r c cs(2) by (auto simp: resolve_live_def SealedVersions_versions_for_def split: sum.splits prod.splits)
  have vs: "?s (tb_sealed t) @ ?s (delta_rows ?d) = ?s (tb_versions t)" by (simp add: tb_versions_def)
  have ord: "intervals_ordered (vi_abs ?i) (?s (tb_sealed t) @ ?s (delta_rows ?d))"
    unfolding vs by (rule intervals_ordered_filter [OF timeline_ordered [OF tl], of "\<lambda>k. k = key"])
  show "q = Some p \<longleftrightarrow> p \<in> set (tb_versions t) \<and> v_business_key p = key \<and> vi_abs ?i (vkey p) = None"
    unfolding resolve_open_visible [OF vi ord ro] vs visible_filter [of _ "\<lambda>k. k = key"]
    using visible_open [OF tl at] by auto
qed

section \<open>What a write does\<close>

text \<open>The versions of the key all come before a version stamped now with a fresh \<open>seq\<close>.\<close>

lemma stamped_above:
  assumes "table_inv t" "seq_fresh key now seq t" "high_water (tb_last t) \<le> now" "w \<in> set (tb_versions t)"
    "v_business_key w = key" "v_sys_from v = now" "v_seq v = seq"
  shows "vord w < vord v"
proof -
  have "v_sys_from w \<le> now" using assms(1,3,4) by (auto simp: table_inv_def dest: timelineD(4))
  then show ?thesis using assms(2,4-) by (auto simp: seq_fresh_def vord_def less_prod_def')
qed

lemma open_version_simps [simp]:
  "v_business_key (open_version key c seq payload txn_id prin) = key" "v_sys_from (open_version key c seq payload txn_id prin) = c"
  "v_seq (open_version key c seq payload txn_id prin) = seq"
  "unresolved (open_version key c seq payload txn_id prin) = open_version key c seq payload txn_id prin"
  "v_provenance (open_version key c seq payload txn_id prin) = \<lparr>p_txn_id = txn_id, p_committed_at = c, p_principal = prin\<rparr>"
  by (simp_all add: open_version_def Version_open_def unresolved_def)

lemma systime_close_simps [simp]:
  "v_business_key p = key \<Longrightarrow> close_target (systime_close_of key p c txn_id prin) = vkey p"
  "cl_sys_to (systime_close_of key p c txn_id prin) = c"
  "close_interval (systime_close_of key p c txn_id prin) = supersession_end (open_version key c seq payload txn_id prin)"
  by (simp_all add: systime_close_of_def close_target_def close_interval_def vkey_def supersession_end_def)

lemma delta_staged:
  assumes inv: "delta_inv d" and ins: "delta_insert v d = (Inr (), d')" and "unresolved v = v"
    and "\<forall>w \<in> set (delta_rows d). vkey w \<noteq> vkey v"
  shows "delta_inv d'" "set (delta_rows d') = insert v (set (delta_rows d))" "dl_retractions d' = dl_retractions d"
  using delta_insert_inner_ok [OF inv ins [unfolded delta_insert_def] assms(3)] assms(4) by (auto simp: staged_set_def)

text \<open>Adding a version to the tiers, the ends being those the addition leaves.\<close>

lemma table_added:
  assumes inv: "table_inv t" and now: "high_water (tb_last t) \<le> now" "now < SYSTEM_TIME_OPEN"
    and v: "v_sys_from v = now" "unresolved v = v" and fresh: "seq_fresh (v_business_key v) now (v_seq v) t"
    and ins: "delta_insert v d = (Inr (), d')" "dl_same (tb_delta t) d"
    and i: "vi_inv i" "vi_abs i = superseded (vi_abs (tb_index t)) (tb_versions t) v"
    and t': "t' = t\<lparr>tb_last := Some now, tb_delta := d', tb_index := i\<rparr>"
  shows "table_inv t'"
    "x < SYSTEM_TIME_OPEN \<Longrightarrow> as_of t' x =
       (if x < now then as_of t x else insert v {w \<in> as_of t x. v_business_key w \<noteq> v_business_key v})"
proof -
  have tl: "timeline (tb_versions t) (tb_retractions t) (vi_abs (tb_index t)) (high_water (tb_last t))"
    and dinv: "delta_inv d" and rows: "delta_rows d = delta_rows (tb_delta t)" and ret: "dl_retractions d = dl_retractions (tb_delta t)"
    using inv dl_same_views [OF ins(2)] dl_same_fields(5) [OF ins(2)] by (simp_all add: table_inv_def)
  have above: "vord w < vord v" if "w \<in> set (tb_versions t)" "v_business_key w = v_business_key v" for w
    using stamped_above [OF inv fresh now(1) that v(1) refl] .
  have "vkey w \<noteq> vkey v" if "w \<in> set (delta_rows d)" for w
    using above [of w] that rows by (auto simp: vkey_vord tb_versions_def)
  then have ne: "\<forall>w \<in> set (delta_rows d). vkey w \<noteq> vkey v" by blast
  note st = delta_staged [OF dinv ins(1) v(2) ne]
  have vs: "set (tb_versions t') = insert v (set (tb_versions t))" using st(2) rows by (auto simp: t' tb_versions_def)
  have rs: "tb_retractions t' = tb_retractions t" using st(3) ret by (simp add: t' tb_retractions_def staged_retractions_def)
  note add = timeline_add [OF tl now v vs above]
  have "retractions_keyed d'" using inv st(3) ret by (simp add: table_inv_def retractions_keyed_def)
  then show "table_inv t'" using add(1) st(1) i rs unfolding table_inv_def by (simp add: t' high_water_def)
  show "x < SYSTEM_TIME_OPEN \<Longrightarrow> as_of t' x =
       (if x < now then as_of t x else insert v {w \<in> as_of t x. v_business_key w \<noteq> v_business_key v})"
    using add(2) [of x] i(2) by (simp add: as_of_def t')
qed

text \<open>The common shape of the three writes: stamp, resolve, then a continuation on what was resolved.\<close>

definition stamp_and_resolve :: "bytes \<Rightarrow> i64 \<Rightarrow> (version option \<Rightarrow> writer \<Rightarrow> (systime_error + 'a) \<times> writer) \<Rightarrow>
    sealed_lookup \<Rightarrow> writer \<Rightarrow> (systime_error + 'a) \<times> writer" where
  "stamp_and_resolve key now k lookup w =
     (case next_commit_ts now (fst w) of
        (Inl e, last_commit) \<Rightarrow> (Inl e, last_commit, snd w)
      | (Inr commit, last_commit) \<Rightarrow>
          (case resolve_live lookup key commit (snd w) of
             (Inl e, ts) \<Rightarrow> (Inl e, last_commit, ts)
           | (Inr q, ts) \<Rightarrow> k q (last_commit, ts)))"

definition commit_redos :: "i64 \<Rightarrow> redo list \<Rightarrow> writer \<Rightarrow> (systime_error + i64) \<times> writer" where
  "commit_redos commit redos w =
     (case apply_redos redos (snd w) of
        (Inl e, ts1) \<Rightarrow> (Inl e, fst w, ts1)
      | (Inr _, ts1) \<Rightarrow> (Inr commit, fst w, ts1))"

lemma next_commit_Inr: "next_commit_ts now l = (Inr c, l') \<Longrightarrow> c = now"
  by (auto simp: next_commit_ts_def split: if_splits)

lemma writes_shape:
  "systime_insert lookup key payload seq txn_id prin now w = stamp_and_resolve key now
     (\<lambda>q w. case q of Some _ \<Rightarrow> (Inl KeyExists, w)
        | None \<Rightarrow> commit_redos now [Insert (open_version key now seq payload txn_id prin)] w) lookup w"
  "systime_update lookup key payload seq txn_id prin now w = stamp_and_resolve key now
     (\<lambda>q w. case q of None \<Rightarrow> (Inl KeyNotFound, w)
        | Some prior \<Rightarrow> commit_redos now [Close (systime_close_of key prior now txn_id prin),
            Insert (open_version key now seq payload txn_id prin)] w) lookup w"
  "systime_delete lookup key txn_id prin now w = stamp_and_resolve key now
     (\<lambda>q w. case q of None \<Rightarrow> (Inl KeyNotFound, w)
        | Some prior \<Rightarrow> commit_redos now [Retract (systime_close_of key prior now txn_id prin)] w) lookup w"
  by (auto simp: systime_insert_def systime_update_def systime_delete_def stamp_and_resolve_def commit_redos_def
      split: sum.splits prod.splits option.splits dest: next_commit_Inr)

lemma write_cases:
  assumes inv: "table_inv t" and w: "table_write (stamp_and_resolve key now k) t = (r, t')"
  obtains (unstamped) e where "r = Inl e" "t' = t"
  | (unresolved) e where "r = Inl e" "table_inv t'" "\<And>x. as_of t' x = as_of t x" "high_water (tb_last t) \<le> high_water (tb_last t')"
  | (resolved) q d i l d' i' where "dl_same (tb_delta t) d" "vi_same (tb_index t) i" "high_water (tb_last t) \<le> now" "now < SYSTEM_TIME_OPEN"
      "\<And>p. q = Some p \<longleftrightarrow> p \<in> set (tb_versions t) \<and> v_business_key p = key \<and> vi_abs (tb_index t) (vkey p) = None"
      "k q (Some now, d, i) = (r, l, d', i')" "t' = t\<lparr>tb_last := l, tb_delta := d', tb_index := i'\<rparr>"
proof -
  let ?lk = "SealedVersions_versions_for (tb_sealed t)"
  obtain nc l0 where n: "next_commit_ts now (tb_last t) = (nc, l0)" by (rule prod.exhaust)
  then show thesis
  proof (cases rule: next_commit_cases)
    case (refused e)
    with w n have "r = Inl e" "t' = t\<lparr>tb_last := tb_last t, tb_delta := tb_delta t, tb_index := tb_index t\<rparr>"
      by (simp_all add: table_write_def stamp_and_resolve_def)
    then show thesis by (intro unstamped [of e]) simp_all
  next
    case stamped
    obtain q d i where r: "resolve_live ?lk key now (tb_delta t, tb_index t) = (q, d, i)" by (metis prod.exhaust)
    note rs = resolve_live_spec [OF inv stamped(3,4) r]
    show thesis
    proof (cases q)
      case (Inl e)
      with w n stamped r have t': "r = Inl e" "t' = t\<lparr>tb_last := Some now, tb_delta := d, tb_index := i\<rparr>"
        by (simp_all add: table_write_def stamp_and_resolve_def)
      note m = table_inv_moved [OF inv rs(1,2), of "Some now" now]
      show thesis using m(1,2) t' stamped(3,4) by (intro unresolved [of e]) (simp_all add: high_water_def)
    next
      case (Inr v)
      obtain l d' i' where k: "k v (Some now, d, i) = (r, l, d', i')" "t' = t\<lparr>tb_last := l, tb_delta := d', tb_index := i'\<rparr>"
        using w n stamped r Inr by (auto simp: table_write_def stamp_and_resolve_def split: prod.splits)
      show thesis by (rule resolved [OF rs(1,2) stamped(3,4) rs(3) [OF Inr] k])
    qed
  qed
qed

text \<open>The redo sets of the three writes, when they apply.\<close>

lemma apply_insert_ok:
  "apply_redos [Insert v] (d, i) = (Inr (), d', i') \<Longrightarrow> delta_insert v d = (Inr (), d') \<and> i' = i"
  by (auto simp: apply_redos_def apply_redo_def split: sum.splits prod.splits)

lemma apply_update_ok:
  "apply_redos [Close c, Insert v] (d, i) = (Inr (), d', i') \<Longrightarrow>
     insert_close c i = (Inr (), i') \<and> delta_insert v d = (Inr (), d')"
  by (auto simp: apply_redos_def apply_redo_def split: sum.splits prod.splits)

lemma apply_delete_ok:
  "apply_redos [Retract c] (d, i) = (Inr (), d', i') \<Longrightarrow> insert_close c i = (Inr (), i') \<and> d' = stage_retraction c d"
  by (auto simp: apply_redos_def apply_redo_def split: sum.splits prod.splits)

lemma commit_redos_Inr:
  "commit_redos c redos (l, ts) = (Inr c', l', ts') \<Longrightarrow> apply_redos redos ts = (Inr (), ts') \<and> c' = c \<and> l' = l"
  by (auto simp: commit_redos_def split: sum.splits prod.splits)

definition after_write :: "table \<Rightarrow> table \<Rightarrow> bytes \<Rightarrow> i64 \<Rightarrow> version set \<Rightarrow> bool" where
  "after_write t t' key now V \<longleftrightarrow> table_inv t' \<and> tb_last t' = Some now \<and> high_water (tb_last t) \<le> now \<and>
     (\<forall>x < SYSTEM_TIME_OPEN. as_of t' x = (if x < now then as_of t x else V \<union> {w \<in> as_of t x. v_business_key w \<noteq> key}))"

lemma table_insert_ok:
  assumes inv: "table_inv t" and fresh: "seq_fresh key now seq t"
    and w: "table_insert key payload seq txn_id prin now t = (Inr c, t')"
  shows "c = now" "after_write t t' key now {open_version key now seq payload txn_id prin}"
    "\<forall>v \<in> set (tb_versions t). v_business_key v = key \<longrightarrow> vi_abs (tb_index t) (vkey v) \<noteq> None"
proof -
  let ?v = "open_version key now seq payload txn_id prin"
  have "table_write (stamp_and_resolve key now (\<lambda>q w. case q of Some _ \<Rightarrow> (Inl KeyExists, w)
        | None \<Rightarrow> commit_redos now [Insert ?v] w)) t = (Inr c, t')"
    using w unfolding table_insert_def writes_shape by simp
  with inv have "c = now \<and> after_write t t' key now {?v} \<and>
      (\<forall>v \<in> set (tb_versions t). v_business_key v = key \<longrightarrow> vi_abs (tb_index t) (vkey v) \<noteq> None)"
  proof (cases rule: write_cases)
    case (resolved q d i l d' i')
    have q: "q = None" using resolved(6) by (cases q) auto
    then have c: "apply_redos [Insert ?v] (d, i) = (Inr (), d', i')" "c = now" "l = Some now"
      using commit_redos_Inr [of now "[Insert ?v]" "Some now" "(d, i)" c] resolved(6) by simp_all
    note a = apply_insert_ok [OF c(1)]
    have none: "\<forall>v \<in> set (tb_versions t). v_business_key v = key \<longrightarrow> vi_abs (tb_index t) (vkey v) \<noteq> None"
      using resolved(5) q by auto
    then have sup: "superseded (vi_abs (tb_index t)) (tb_versions t) ?v = vi_abs (tb_index t)"
      by (intro superseded_id) simp
    have fresh': "seq_fresh (v_business_key ?v) now (v_seq ?v) t" using fresh by simp
    have i': "vi_inv i'" "vi_abs i' = superseded (vi_abs (tb_index t)) (tb_versions t) ?v"
      using a inv vi_same_views [OF resolved(2)] sup by (simp_all add: table_inv_def)
    have t': "t' = t\<lparr>tb_last := Some now, tb_delta := d', tb_index := i'\<rparr>" using resolved(7) c(3) by simp
    note add = table_added [OF inv resolved(3,4) _ _ fresh' conjunct1 [OF a] resolved(1) i' t']
    show ?thesis using add none c(2) resolved(3) t' by (simp add: after_write_def)
  qed simp_all
  then show "c = now" "after_write t t' key now {?v}"
    "\<forall>v \<in> set (tb_versions t). v_business_key v = key \<longrightarrow> vi_abs (tb_index t) (vkey v) \<noteq> None" by blast+
qed

lemma table_update_ok:
  assumes inv: "table_inv t" and fresh: "seq_fresh key now seq t"
    and w: "table_update key payload seq txn_id prin now t = (Inr c, t')"
  shows "c = now" "after_write t t' key now {open_version key now seq payload txn_id prin}"
    "\<exists>v \<in> set (tb_versions t). v_business_key v = key \<and> vi_abs (tb_index t) (vkey v) = None"
proof -
  let ?v = "open_version key now seq payload txn_id prin"
  have "table_write (stamp_and_resolve key now (\<lambda>q w. case q of None \<Rightarrow> (Inl KeyNotFound, w)
        | Some prior \<Rightarrow> commit_redos now [Close (systime_close_of key prior now txn_id prin), Insert ?v] w)) t = (Inr c, t')"
    using w unfolding table_update_def writes_shape by simp
  with inv have "c = now \<and> after_write t t' key now {?v} \<and>
      (\<exists>v \<in> set (tb_versions t). v_business_key v = key \<and> vi_abs (tb_index t) (vkey v) = None)"
  proof (cases rule: write_cases)
    case (resolved q d i l d' i')
    obtain p where q: "q = Some p" using resolved(6) by (cases q) auto
    then have p: "p \<in> set (tb_versions t)" "v_business_key p = key" "vi_abs (tb_index t) (vkey p) = None"
      using resolved(5) by simp_all
    let ?c = "systime_close_of key p now txn_id prin"
    have c: "apply_redos [Close ?c, Insert ?v] (d, i) = (Inr (), d', i')" "c = now" "l = Some now"
      using commit_redos_Inr [of now "[Close ?c, Insert ?v]" "Some now" "(d, i)" c] resolved(6) q by simp_all
    note a = apply_update_ok [OF c(1)]
    have tl: "timeline (tb_versions t) (tb_retractions t) (vi_abs (tb_index t)) (high_water (tb_last t))"
      and vi: "vi_inv i" "vi_abs i = vi_abs (tb_index t)"
      using inv vi_same_views [OF resolved(2)] by (simp_all add: table_inv_def)
    have "superseded (vi_abs (tb_index t)) (tb_versions t) ?v = (vi_abs (tb_index t))(vkey p \<mapsto> supersession_end ?v)"
      using superseded_upd [OF tl p(1,3), of ?v] p(2) by simp
    then have i': "vi_inv i'" "vi_abs i' = superseded (vi_abs (tb_index t)) (tb_versions t) ?v"
      using vindex.insert_inv [OF vi(1) conjunct1 [OF a]] vindex.insert_ok [OF vi(1) conjunct1 [OF a]] vi(2) p(2)
        systime_close_simps(3) [of key p now txn_id prin seq payload] by simp_all
    have fresh': "seq_fresh (v_business_key ?v) now (v_seq ?v) t" using fresh by simp
    have t': "t' = t\<lparr>tb_last := Some now, tb_delta := d', tb_index := i'\<rparr>" using resolved(7) c(3) by simp
    note add = table_added [OF inv resolved(3,4) _ _ fresh' conjunct2 [OF a] resolved(1) i' t']
    show ?thesis using add p c(2) resolved(3) t' by (auto simp: after_write_def)
  qed simp_all
  then show "c = now" "after_write t t' key now {?v}"
    "\<exists>v \<in> set (tb_versions t). v_business_key v = key \<and> vi_abs (tb_index t) (vkey v) = None" by blast+
qed

lemma stage_retraction_facts:
  assumes "bt_get (dl_retractions d) (close_target c) = None" "bt_inv (dl_retractions d)"
  shows "set (staged_retractions (stage_retraction c d)) = insert c (set (staged_retractions d))"
    "retractions_keyed d \<Longrightarrow> retractions_keyed (stage_retraction c d)" "delta_inv d \<Longrightarrow> delta_inv (stage_retraction c d)"
    "delta_rows (stage_retraction c d) = delta_rows d"
proof -
  have k: "(cl_business_key c, cl_sys_from c, cl_seq c) = close_target c" by (simp add: close_target_def)
  have "set (bt_insert k v m) = insert (k, v) (set m)" if "bt_get m k = None" for k v and m :: "(version_key, close) btree"
    using that by (induction k v m rule: bt_insert.induct) (auto simp: bt_get_def split: if_splits)
  then show "set (staged_retractions (stage_retraction c d)) = insert c (set (staged_retractions d))"
    using assms(1) by (simp add: staged_retractions_def stage_retraction_def bt_values_def k)
  show "retractions_keyed d \<Longrightarrow> retractions_keyed (stage_retraction c d)"
    unfolding retractions_keyed_def stage_retraction_def k by (auto split: if_splits)
  have sp: "spilled_versions (stage_retraction c d) = spilled_versions d" by (simp add: spilled_versions_def stage_retraction_def)
  then show rows: "delta_rows (stage_retraction c d) = delta_rows d" by (simp add: delta_rows_def stage_retraction_def)
  then have "staged_set (stage_retraction c d) = staged_set d" by (simp add: staged_set_def)
  then show "delta_inv d \<Longrightarrow> delta_inv (stage_retraction c d)"
    using sp assms(2) by (simp add: delta_inv_def stage_retraction_def)
qed

lemma table_delete_ok:
  assumes inv: "table_inv t" and w: "table_delete key txn_id prin now t = (Inr c, t')"
  shows "c = now" "after_write t t' key now {}"
    "\<exists>v \<in> set (tb_versions t). v_business_key v = key \<and> vi_abs (tb_index t) (vkey v) = None"
proof -
  have "table_write (stamp_and_resolve key now (\<lambda>q w. case q of None \<Rightarrow> (Inl KeyNotFound, w)
        | Some prior \<Rightarrow> commit_redos now [Retract (systime_close_of key prior now txn_id prin)] w)) t = (Inr c, t')"
    using w unfolding table_delete_def writes_shape by simp
  with inv have "c = now \<and> after_write t t' key now {} \<and>
      (\<exists>v \<in> set (tb_versions t). v_business_key v = key \<and> vi_abs (tb_index t) (vkey v) = None)"
  proof (cases rule: write_cases)
    case (resolved q d i l d' i')
    obtain p where q: "q = Some p" using resolved(6) by (cases q) auto
    then have p: "p \<in> set (tb_versions t)" "v_business_key p = key" "vi_abs (tb_index t) (vkey p) = None"
      using resolved(5) by simp_all
    let ?c = "systime_close_of key p now txn_id prin"
    have c: "apply_redos [Retract ?c] (d, i) = (Inr (), d', i')" "c = now" "l = Some now"
      using commit_redos_Inr [of now "[Retract ?c]" "Some now" "(d, i)" c] resolved(6) q by simp_all
    note a = apply_delete_ok [OF c(1)]
    have tl: "timeline (tb_versions t) (tb_retractions t) (vi_abs (tb_index t)) (high_water (tb_last t))"
      using inv by (simp add: table_inv_def)
    note sm = tables_same [OF resolved(1,2)]
    have ret: "staged_retractions d = staged_retractions (tb_delta t)" using sm(6) by (simp add: staged_retractions_def)
    have vi: "vi_inv i" "vi_abs i = vi_abs (tb_index t)" and di: "delta_inv d" "retractions_keyed d"
      using inv sm by (simp_all add: table_inv_def retractions_keyed_def)
    have tgt: "close_target ?c = vkey p" using p(2) by simp
    have "bt_get (dl_retractions d) (vkey p) = None"
    proof (rule ccontr)
      assume "bt_get (dl_retractions d) (vkey p) \<noteq> None"
      then obtain c' where c': "bt_get (dl_retractions d) (vkey p) = Some c'" by blast
      then have "c' \<in> set (staged_retractions d)"
        using bt_get_in_set [OF c'] by (auto simp: staged_retractions_def bt_values_def intro: rev_image_eqI)
      then have "c' \<in> set (tb_retractions t)" using ret by (simp add: tb_retractions_def)
      moreover have "close_target c' = vkey p" using c' di(2) unfolding retractions_keyed_def by blast
      ultimately show False using timelineD(7) [OF tl] p(3) unfolding history_ends_def by force
    qed
    then have sr: "set (staged_retractions d') = insert ?c (set (staged_retractions d))" "retractions_keyed d'" "delta_inv d'"
      "delta_rows d' = delta_rows d"
      using stage_retraction_facts [of d ?c] di a tgt by (simp_all add: delta_inv_def)
    have t': "t' = t\<lparr>tb_last := Some now, tb_delta := d', tb_index := i'\<rparr>" using resolved(7) c(3) by simp
    have i': "vi_inv i'" "vi_abs i' = (vi_abs (tb_index t))(vkey p \<mapsto> close_interval ?c)"
      using vindex.insert_inv [OF vi(1) conjunct1 [OF a]] vindex.insert_ok [OF vi(1) conjunct1 [OF a]] vi(2) tgt by simp_all
    have rs: "set (tb_retractions t') = insert ?c (set (tb_retractions t))"
      using sr(1) ret by (auto simp: t' tb_retractions_def)
    have vs: "tb_versions t' = tb_versions t" using sr(4) sm(4) by (simp add: t' tb_versions_def)
    note step = timeline_retract [OF tl resolved(3,4) p(1,3) tgt systime_close_simps(2) rs]
    have "table_inv t'" using step(1) i' sr(2,3) vs unfolding table_inv_def by (simp add: t' high_water_def)
    moreover have "as_of t' x = (if x < now then as_of t x else {w \<in> as_of t x. v_business_key w \<noteq> key})"
      if "x < SYSTEM_TIME_OPEN" for x
      using step(2) [OF that] i'(2) vs p(2) by (simp add: as_of_def t')
    ultimately show ?thesis using p c(2) resolved(3) t' by (auto simp: after_write_def)
  qed simp_all
  then show "c = now" "after_write t t' key now {}"
    "\<exists>v \<in> set (tb_versions t). v_business_key v = key \<and> vi_abs (tb_index t) (vkey v) = None" by blast+
qed

text \<open>
  C21. Each write changes exactly what it should of every read. Whenever an insert, an update or a
  delete of a key succeeds, it is stamped with the clock's reading, which is not before any earlier
  stamp, and from then on every \<open>AS OF\<close> read at or after the stamp returns what it returned before with
  the key's version replaced by the new one (an insert or update) or removed (a delete), while every
  read before the stamp returns what it returned before. An insert succeeds only if the key had no open
  version, an update or delete only if it had one. Versions, retractions and ends stay a timeline.
\<close>

theorem systime_write_semantics:
  assumes "table_inv t" "seq_fresh key now seq t"
  shows "(\<forall>c t'. table_insert key payload seq txn_id prin now t = (Inr c, t') \<longrightarrow>
       c = now \<and> table_inv t' \<and> high_water (tb_last t) \<le> now \<and>
       (\<forall>v \<in> set (tb_versions t). v_business_key v = key \<longrightarrow> vi_abs (tb_index t) (vkey v) \<noteq> None) \<and>
       (\<forall>x < SYSTEM_TIME_OPEN. as_of t' x = (if x < now then as_of t x
          else {open_version key now seq payload txn_id prin} \<union> {w \<in> as_of t x. v_business_key w \<noteq> key}))) \<and>
    (\<forall>c t'. table_update key payload seq txn_id prin now t = (Inr c, t') \<longrightarrow>
       c = now \<and> table_inv t' \<and> high_water (tb_last t) \<le> now \<and>
       (\<exists>v \<in> set (tb_versions t). v_business_key v = key \<and> vi_abs (tb_index t) (vkey v) = None) \<and>
       (\<forall>x < SYSTEM_TIME_OPEN. as_of t' x = (if x < now then as_of t x
          else {open_version key now seq payload txn_id prin} \<union> {w \<in> as_of t x. v_business_key w \<noteq> key}))) \<and>
    (\<forall>c t'. table_delete key txn_id prin now t = (Inr c, t') \<longrightarrow>
       c = now \<and> table_inv t' \<and> high_water (tb_last t) \<le> now \<and>
       (\<exists>v \<in> set (tb_versions t). v_business_key v = key \<and> vi_abs (tb_index t) (vkey v) = None) \<and>
       (\<forall>x < SYSTEM_TIME_OPEN. as_of t' x = (if x < now then as_of t x else {w \<in> as_of t x. v_business_key w \<noteq> key})))"
  using table_insert_ok [OF assms] table_update_ok [OF assms] table_delete_ok [OF assms(1)]
  unfolding after_write_def by simp

section \<open>Progress\<close>

lemma resolve_live_progress:
  assumes inv: "table_inv t" and "no_faults (dl_disk (tb_delta t))" "no_faults (vi_disk (tb_index t))"
  shows "\<exists>q. resolve_live (SealedVersions_versions_for (tb_sealed t)) key at (tb_delta t, tb_index t) = (Inr q, tb_delta t, tb_index t)"
proof -
  let ?s = "filter (\<lambda>v. v_business_key v = key)"
  have i: "delta_inv (tb_delta t)" "vi_inv (tb_index t)" using inv by (simp_all add: table_inv_def)
  then have "candidate_versions key (tb_delta t) = (Inr (?s (delta_rows (tb_delta t))), tb_delta t)"
    using collect_loop_live [OF i(1) assms(2), of "\<lambda>v. v_business_key v = key"] by (simp add: candidate_versions_def)
  moreover obtain q where "resolve_open (?s (delta_rows (tb_delta t))) (?s (tb_sealed t)) key at (tb_index t) = (Inr q, tb_index t)"
    using resolve_open_live [OF i(2) assms(3)] by blast
  ultimately show ?thesis by (simp add: resolve_live_def SealedVersions_versions_for_def)
qed

definition table_ready :: "table \<Rightarrow> i64 \<Rightarrow> bool" where
  "table_ready t now \<longleftrightarrow> table_inv t \<and> no_faults (dl_disk (tb_delta t)) \<and> vi_ready (tb_index t) \<and>
     dl_next_spill (tb_delta t) < 2 ^ 64 \<and> high_water (tb_last t) \<le> now \<and> now < SYSTEM_TIME_OPEN"

definition live_key :: "table \<Rightarrow> bytes \<Rightarrow> bool" where
  "live_key t key \<longleftrightarrow> (\<exists>v \<in> set (tb_versions t). v_business_key v = key \<and> vi_abs (tb_index t) (vkey v) = None)"

lemma write_resolves:
  assumes "table_ready t now"
  obtains q where "\<And>k :: version option \<Rightarrow> writer \<Rightarrow> (systime_error + i64) \<times> writer. table_write (stamp_and_resolve key now k) t =
      (case k q (Some now, tb_delta t, tb_index t) of (r, l, d, i) \<Rightarrow> (r, t\<lparr>tb_last := l, tb_delta := d, tb_index := i\<rparr>))"
    and "\<And>p. q = Some p \<longleftrightarrow> p \<in> set (tb_versions t) \<and> v_business_key p = key \<and> vi_abs (tb_index t) (vkey p) = None"
proof -
  have r: "table_inv t" "no_faults (dl_disk (tb_delta t))" "no_faults (vi_disk (tb_index t))" "high_water (tb_last t) \<le> now"
    "now < SYSTEM_TIME_OPEN" using assms by (simp_all add: table_ready_def vi_ready_def)
  obtain q where q: "resolve_live (SealedVersions_versions_for (tb_sealed t)) key now (tb_delta t, tb_index t) = (Inr q, tb_delta t, tb_index t)"
    using resolve_live_progress [OF r(1-3)] by blast
  have "next_commit_ts now (tb_last t) = (Inr now, Some now)"
    using r(4,5) by (auto simp: next_commit_ts_def high_water_def split: option.splits)
  then show thesis
    using q by (intro that [of q] resolve_live_spec(3) [OF r(1,4,5) q refl]) (simp add: table_write_def stamp_and_resolve_def)
qed

lemma insert_close_progress:
  assumes "table_ready t now" "p \<in> set (tb_versions t)" "v_business_key p = key" "vi_abs (tb_index t) (vkey p) = None"
    "48 + length key + length prin \<le> MAX_CLOSE_FRAME_LEN"
  shows "\<exists>i. insert_close (systime_close_of key p now txn_id prin) (tb_index t) = (Inr (), i)"
proof -
  have "close_encodable (systime_close_of key p now txn_id prin)"
    using assms(5) by (simp add: close_encodable_iff Close_encoded_size_def CLOSE_HEADER_LEN_def systime_close_of_def)
  moreover have "close_target (systime_close_of key p now txn_id prin) = vkey p" using assms(3) by simp
  ultimately show ?thesis
    using insert_close_live [of "tb_index t" "systime_close_of key p now txn_id prin"] assms(1,4) by (auto simp: table_ready_def)
qed

lemma delete_outcome:
  assumes "table_ready t now" "48 + length key + length prin \<le> MAX_CLOSE_FRAME_LEN"
  shows "fst (table_delete key txn_id prin now t) = (if live_key t key then Inr now else Inl KeyNotFound)"
proof -
  obtain q where w: "\<And>k :: version option \<Rightarrow> writer \<Rightarrow> (systime_error + i64) \<times> writer. table_write (stamp_and_resolve key now k) t =
        (case k q (Some now, tb_delta t, tb_index t) of (r, l, d, i) \<Rightarrow> (r, t\<lparr>tb_last := l, tb_delta := d, tb_index := i\<rparr>))"
    and q: "\<And>p. q = Some p \<longleftrightarrow> p \<in> set (tb_versions t) \<and> v_business_key p = key \<and> vi_abs (tb_index t) (vkey p) = None"
    using write_resolves [OF assms(1), of key] by blast
  show ?thesis
  proof (cases q)
    case None
    then have "\<not> live_key t key" using q by (auto simp: live_key_def)
    then show ?thesis unfolding table_delete_def writes_shape using None by (simp add: w)
  next
    case (Some p)
    then have p: "p \<in> set (tb_versions t)" "v_business_key p = key" "vi_abs (tb_index t) (vkey p) = None" using q by simp_all
    then have live: "live_key t key" by (auto simp: live_key_def)
    obtain i where "insert_close (systime_close_of key p now txn_id prin) (tb_index t) = (Inr (), i)"
      using insert_close_progress [OF assms(1) p assms(2)] by blast
    then show ?thesis unfolding table_delete_def writes_shape
      using Some live by (simp add: w commit_redos_def apply_redos_def apply_redo_def)
  qed
qed

lemma write_outcomes:
  assumes "table_ready t now" "version_encodable (open_version key now seq payload txn_id prin)"
    and "48 + length key + length prin \<le> MAX_CLOSE_FRAME_LEN"
  shows "fst (table_insert key payload seq txn_id prin now t) = (if live_key t key then Inl KeyExists else Inr now)"
    "fst (table_update key payload seq txn_id prin now t) = (if live_key t key then Inr now else Inl KeyNotFound)"
proof -
  let ?v = "open_version key now seq payload txn_id prin" and ?d = "tb_delta t" and ?i = "tb_index t"
  have r: "table_inv t" "delta_inv ?d" "no_faults (dl_disk ?d)" "dl_next_spill ?d < 2 ^ 64"
    using assms(1) by (simp_all add: table_ready_def table_inv_def)
  obtain q where w: "\<And>k :: version option \<Rightarrow> writer \<Rightarrow> (systime_error + i64) \<times> writer. table_write (stamp_and_resolve key now k) t =
        (case k q (Some now, ?d, ?i) of (r, l, d, i) \<Rightarrow> (r, t\<lparr>tb_last := l, tb_delta := d, tb_index := i\<rparr>))"
    and q: "\<And>p. q = Some p \<longleftrightarrow> p \<in> set (tb_versions t) \<and> v_business_key p = key \<and> vi_abs ?i (vkey p) = None"
    using write_resolves [OF assms(1), of key] by blast
  obtain d where d: "delta_insert ?v ?d = (Inr (), d)"
    using delta_insert_live [OF r(2-4) assms(2), of True] by (auto simp: delta_insert_def)
  note shapes = table_insert_def table_update_def writes_shape
  have "fst (table_insert key payload seq txn_id prin now t) = (if live_key t key then Inl KeyExists else Inr now) \<and>
    fst (table_update key payload seq txn_id prin now t) = (if live_key t key then Inr now else Inl KeyNotFound)"
  proof (cases q)
    case None
    then have "\<not> live_key t key" using q by (auto simp: live_key_def)
    then show ?thesis unfolding shapes
      using None d by (simp add: w commit_redos_def apply_redos_def apply_redo_def)
  next
    case (Some p)
    then have p: "p \<in> set (tb_versions t)" "v_business_key p = key" "vi_abs ?i (vkey p) = None" using q by simp_all
    then have live: "live_key t key" by (auto simp: live_key_def)
    obtain i where "insert_close (systime_close_of key p now txn_id prin) ?i = (Inr (), i)"
      using insert_close_progress [OF assms(1) p assms(3)] by blast
    then show ?thesis unfolding shapes
      using Some d live by (simp add: w commit_redos_def apply_redos_def apply_redo_def)
  qed
  then show "fst (table_insert key payload seq txn_id prin now t) = (if live_key t key then Inl KeyExists else Inr now)"
    "fst (table_update key payload seq txn_id prin now t) = (if live_key t key then Inr now else Inl KeyNotFound)" by blast+
qed

text \<open>A refused write leaves the tiers as they are; only the stamp is used up.\<close>

lemma oversized_insert:
  assumes "\<not> version_encodable v"
  shows "delta_insert v d = (Inl (DTooLarge (Version_encoded_size v)), d)"
proof -
  have "Version_check_encodable v = Inl (DTooLarge (Version_encoded_size v))"
    using assms by (auto simp: version_encodable_def Version_check_encodable_def split: if_splits)
  then show ?thesis by (simp add: delta_insert_def delta_insert_inner_def)
qed

lemma write_refused:
  assumes "table_ready t now"
  shows "live_key t key \<Longrightarrow> table_insert key payload seq txn_id prin now t = (Inl KeyExists, t\<lparr>tb_last := Some now\<rparr>)"
    "\<not> live_key t key \<Longrightarrow> table_update key payload seq txn_id prin now t = (Inl KeyNotFound, t\<lparr>tb_last := Some now\<rparr>)"
    "\<not> live_key t key \<Longrightarrow> table_delete key txn_id prin now t = (Inl KeyNotFound, t\<lparr>tb_last := Some now\<rparr>)"
    "\<not> live_key t key \<Longrightarrow> \<not> version_encodable (open_version key now seq payload txn_id prin) \<Longrightarrow>
       table_insert key payload seq txn_id prin now t =
         (Inl (StDelta (DTooLarge (Version_encoded_size (open_version key now seq payload txn_id prin)))), t\<lparr>tb_last := Some now\<rparr>)"
proof -
  obtain q where w: "\<And>k :: version option \<Rightarrow> writer \<Rightarrow> (systime_error + i64) \<times> writer. table_write (stamp_and_resolve key now k) t =
        (case k q (Some now, tb_delta t, tb_index t) of (r, l, d, i) \<Rightarrow> (r, t\<lparr>tb_last := l, tb_delta := d, tb_index := i\<rparr>))"
    and q: "\<And>p. q = Some p \<longleftrightarrow> p \<in> set (tb_versions t) \<and> v_business_key p = key \<and> vi_abs (tb_index t) (vkey p) = None"
    using write_resolves [OF assms, of key] by blast
  have lk: "live_key t key \<longleftrightarrow> q \<noteq> None" using q by (cases q) (auto simp: live_key_def)
  have same: "t\<lparr>tb_last := Some now, tb_delta := tb_delta t, tb_index := tb_index t\<rparr> = t\<lparr>tb_last := Some now\<rparr>" by simp
  note shapes = table_insert_def table_update_def table_delete_def writes_shape
  show "live_key t key \<Longrightarrow> table_insert key payload seq txn_id prin now t = (Inl KeyExists, t\<lparr>tb_last := Some now\<rparr>)"
    "\<not> live_key t key \<Longrightarrow> table_update key payload seq txn_id prin now t = (Inl KeyNotFound, t\<lparr>tb_last := Some now\<rparr>)"
    "\<not> live_key t key \<Longrightarrow> table_delete key txn_id prin now t = (Inl KeyNotFound, t\<lparr>tb_last := Some now\<rparr>)"
    unfolding shapes by (auto simp: w lk same)
  show "table_insert key payload seq txn_id prin now t =
         (Inl (StDelta (DTooLarge (Version_encoded_size (open_version key now seq payload txn_id prin)))), t\<lparr>tb_last := Some now\<rparr>)"
    if "\<not> live_key t key" "\<not> version_encodable (open_version key now seq payload txn_id prin)"
    unfolding shapes using that by (simp add: w lk commit_redos_def apply_redos_def apply_redo_def oversized_insert)
qed

text \<open>A clock that cannot stamp refuses every write before it looks at the table.\<close>

lemma write_unstamped:
  assumes "next_commit_ts now (tb_last t) = (Inl e, tb_last t)"
  shows "table_insert key payload seq txn_id prin now t = (Inl e, t)" "table_update key payload seq txn_id prin now t = (Inl e, t)"
    "table_delete key txn_id prin now t = (Inl e, t)"
  unfolding table_insert_def table_update_def table_delete_def writes_shape
  using assms by (simp_all add: table_write_def stamp_and_resolve_def)

text \<open>
  C26. On healthy disks, and with the key and principal within the frame of a close, every write has
  exactly the outcome the clock, the key's state and the frame call for. A clock reading before the last
  stamp is refused as \<open>ClockRegressed\<close> and one at the open sentinel as \<open>TimeExhausted\<close>, by insert, update
  and delete alike and with the table untouched. Otherwise an insert is refused as \<open>KeyExists\<close> if the key
  has an open version, and as \<open>TooLarge\<close> if the new version is over the frame ceiling, and an update or a
  delete is refused as \<open>KeyNotFound\<close> if the key has none; these use up the stamp and leave everything else
  as it was. In the remaining cases the write commits at the reading, except for an update to a version
  over the ceiling, which is not covered here.
\<close>

theorem systime_write_outcomes:
  assumes "table_ready t now" "48 + length key + length prin \<le> MAX_CLOSE_FRAME_LEN"
  shows "(if live_key t key then table_insert key payload seq txn_id prin now t = (Inl KeyExists, t\<lparr>tb_last := Some now\<rparr>)
      else if version_encodable (open_version key now seq payload txn_id prin) then fst (table_insert key payload seq txn_id prin now t) = Inr now
      else table_insert key payload seq txn_id prin now t =
        (Inl (StDelta (DTooLarge (Version_encoded_size (open_version key now seq payload txn_id prin)))), t\<lparr>tb_last := Some now\<rparr>)) \<and>
    (if live_key t key
      then version_encodable (open_version key now seq payload txn_id prin) \<longrightarrow> fst (table_update key payload seq txn_id prin now t) = Inr now
      else table_update key payload seq txn_id prin now t = (Inl KeyNotFound, t\<lparr>tb_last := Some now\<rparr>)) \<and>
    (if live_key t key then fst (table_delete key txn_id prin now t) = Inr now
      else table_delete key txn_id prin now t = (Inl KeyNotFound, t\<lparr>tb_last := Some now\<rparr>)) \<and>
    (\<forall>early. tb_last t \<noteq> None \<and> early < high_water (tb_last t) \<longrightarrow>
       table_insert key payload seq txn_id prin early t = (Inl ClockRegressed, t) \<and>
       table_update key payload seq txn_id prin early t = (Inl ClockRegressed, t) \<and>
       table_delete key txn_id prin early t = (Inl ClockRegressed, t)) \<and>
    table_insert key payload seq txn_id prin SYSTEM_TIME_OPEN t = (Inl TimeExhausted, t) \<and>
    table_update key payload seq txn_id prin SYSTEM_TIME_OPEN t = (Inl TimeExhausted, t) \<and>
    table_delete key txn_id prin SYSTEM_TIME_OPEN t = (Inl TimeExhausted, t)"
proof -
  have "next_commit_ts early (tb_last t) = (Inl ClockRegressed, tb_last t)" if "tb_last t \<noteq> None \<and> early < high_water (tb_last t)" for early
    using that by (auto simp: next_commit_ts_def high_water_def)
  note early = write_unstamped [OF this]
  have "high_water (tb_last t) < SYSTEM_TIME_OPEN" using assms(1) by (auto simp: table_ready_def intro: order_le_less_trans)
  then have "next_commit_ts SYSTEM_TIME_OPEN (tb_last t) = (Inl TimeExhausted, tb_last t)"
    by (auto simp: next_commit_ts_def high_water_def split: option.splits)
  note late = write_unstamped [OF this]
  have "fst (table_delete key txn_id prin now t) = Inr now" if "live_key t key"
    using delete_outcome [OF assms] that by simp
  then show ?thesis
    using early late write_outcomes(1,2) [OF assms(1) _ assms(2)] write_refused [OF assms(1)] by simp
qed

text \<open>
  C27. A direct update is not atomic: when the new version is over the frame ceiling, the update fails
  with \<open>TooLarge\<close>, but the prior version has already been closed, so that from the stamp on the key has
  no version although the update reported an error and nothing was deleted.
\<close>

theorem systime_oversized_update_closes:
  assumes "table_ready t now" "live_key t key" "48 + length key + length prin \<le> MAX_CLOSE_FRAME_LEN"
    and "MAX_VERSION_FRAME_LEN < Version_encoded_size (open_version key now seq payload txn_id prin)"
  shows "\<exists>n t'. table_update key payload seq txn_id prin now t = (Inl (StDelta (DTooLarge n)), t') \<and>
    (\<forall>x. now \<le> x \<longrightarrow> (\<forall>v \<in> as_of t' x. v_business_key v \<noteq> key))"
proof -
  let ?v = "open_version key now seq payload txn_id prin" and ?d = "tb_delta t" and ?i = "tb_index t"
  obtain q where w: "\<And>k :: version option \<Rightarrow> writer \<Rightarrow> (systime_error + i64) \<times> writer. table_write (stamp_and_resolve key now k) t =
        (case k q (Some now, ?d, ?i) of (r, l, d, i) \<Rightarrow> (r, t\<lparr>tb_last := l, tb_delta := d, tb_index := i\<rparr>))"
    and q: "\<And>p. q = Some p \<longleftrightarrow> p \<in> set (tb_versions t) \<and> v_business_key p = key \<and> vi_abs ?i (vkey p) = None"
    using write_resolves [OF assms(1), of key] by blast
  obtain p where p: "p \<in> set (tb_versions t)" "v_business_key p = key" "vi_abs ?i (vkey p) = None" "q = Some p"
    using assms(2) q by (auto simp: live_key_def)
  let ?c = "systime_close_of key p now txn_id prin"
  obtain i where i: "insert_close ?c ?i = (Inr (), i)" using insert_close_progress [OF assms(1) p(1-3) assms(3)] by blast
  have "\<not> version_encodable ?v" using assms(4) by (simp add: version_encodable_iff)
  then have d: "delta_insert ?v ?d = (Inl (DTooLarge (Version_encoded_size ?v)), ?d)" by (rule oversized_insert)
  let ?t = "t\<lparr>tb_last := Some now, tb_delta := ?d, tb_index := i\<rparr>"
  have "table_update key payload seq txn_id prin now t = (Inl (StDelta (DTooLarge (Version_encoded_size ?v))), ?t)"
    unfolding table_update_def writes_shape using p(4) i d by (simp add: w commit_redos_def apply_redos_def apply_redo_def)
  moreover have "v_business_key v \<noteq> key" if "now \<le> x" "v \<in> as_of ?t x" for v x
  proof
    assume key: "v_business_key v = key"
    have tl: "timeline (tb_versions t) (tb_retractions t) (vi_abs ?i) (high_water (tb_last t))" "vi_inv ?i" "high_water (tb_last t) \<le> now"
      using assms(1) by (simp_all add: table_ready_def table_inv_def)
    have ends: "vi_abs i = (vi_abs ?i)(vkey p \<mapsto> close_interval ?c)" using vindex.insert_ok [OF tl(2) i] p(2) by simp
    have v: "v \<in> set (tb_versions t)" "x < end_of (vi_abs i) v"
      using that(2) snapshot_iff [OF timelineD(1) [OF tl(1)], of v "vi_abs i" x] timelineD(3) [OF tl(1)]
      by (simp_all add: as_of_def tb_versions_def)
    show False
    proof (cases "vkey v = vkey p")
      case True
      then have "end_of (vi_abs i) v = now" using ends by (simp add: end_of_def close_interval_def)
      with v(2) that(1) show False by simp
    next
      case False
      then have "v \<noteq> p" by auto
      then have "vi_abs ?i (vkey v) \<noteq> None" using open_unique [OF tl(1) p(1,3) v(1)] key p(2) by auto
      then have "end_of (vi_abs i) v \<le> high_water (tb_last t)"
        using False ends timelineD(6) [OF tl(1), of "vkey v"] by (cases "vi_abs ?i (vkey v)") (auto simp: end_of_def)
      with v(2) that(1) tl(3) show False by simp
    qed
  qed
  ultimately show ?thesis by blast
qed

section \<open>Histories of writes\<close>

text \<open>
  What a table goes through: writes that succeed, writes that are refused, and flushes, which move the
  staged versions and retractions to the sealed ones. A tier operation that fails with an I/O error is
  not a step: it may lose resident rows.
\<close>

definition refusal :: "systime_error \<Rightarrow> bool" where
  "refusal e \<longleftrightarrow> e \<in> {KeyExists, KeyNotFound, ClockRegressed, TimeExhausted}"

inductive table_step :: "table \<Rightarrow> table \<Rightarrow> bool" where
  inserted: "table_insert key payload seq txn_id prin now t = (Inr c, t') \<Longrightarrow> seq_fresh key now seq t \<Longrightarrow> table_step t t'"
| updated: "table_update key payload seq txn_id prin now t = (Inr c, t') \<Longrightarrow> seq_fresh key now seq t \<Longrightarrow> table_step t t'"
| deleted: "table_delete key txn_id prin now t = (Inr c, t') \<Longrightarrow> table_step t t'"
| insert_refused: "table_insert key payload seq txn_id prin now t = (Inl e, t') \<Longrightarrow> refusal e \<Longrightarrow> table_step t t'"
| update_refused: "table_update key payload seq txn_id prin now t = (Inl e, t') \<Longrightarrow> refusal e \<Longrightarrow> table_step t t'"
| delete_refused: "table_delete key txn_id prin now t = (Inl e, t') \<Longrightarrow> refusal e \<Longrightarrow> table_step t t'"
| flushed: "flush_to_segment (tb_delta t) = (Inr out, d) \<Longrightarrow> take_retractions d = (rs, d') \<Longrightarrow>
     table_step t (t\<lparr>tb_delta := d', tb_sealed := SealedVersions_extend (tb_sealed t) out, tb_retracted := tb_retracted t @ rs\<rparr>)"

text \<open>A step leaves the past alone and never moves the high-water mark back.\<close>

definition keeps_past :: "table \<Rightarrow> table \<Rightarrow> bool" where
  "keeps_past t t' \<longleftrightarrow> table_inv t' \<and> high_water (tb_last t) \<le> high_water (tb_last t') \<and>
     (\<forall>x < high_water (tb_last t). as_of t' x = as_of t x)"

lemma keeps_past_trans: "keeps_past t t' \<Longrightarrow> keeps_past t' t'' \<Longrightarrow> keeps_past t t''"
  by (fastforce simp: keeps_past_def)

lemma after_write_keeps_past: "table_inv t \<Longrightarrow> after_write t t' key now V \<Longrightarrow> keeps_past t t'"
proof -
  assume inv: "table_inv t" and w: "after_write t t' key now V"
  have "high_water (tb_last t) < SYSTEM_TIME_OPEN" using inv by (auto simp: table_inv_def dest: timelineD(2))
  then have "as_of t' x = as_of t x" if "x < high_water (tb_last t)" for x
    using w that unfolding after_write_def by (meson less_le_trans order_less_trans)
  with w show ?thesis by (simp add: after_write_def keeps_past_def high_water_def)
qed

lemma refused_keeps_past:
  assumes inv: "table_inv t" and w: "table_write (stamp_and_resolve key now k) t = (Inl e, t')" and "refusal e"
    and k: "\<And>q w r w'. k q w = (r, w') \<Longrightarrow> (\<exists>e. r = Inl e \<and> w' = w) \<or> (\<exists>redos. commit_redos now redos w = (r, w'))"
  shows "keeps_past t t'"
  using inv w
proof (cases rule: write_cases)
  case (unstamped e')
  with inv show ?thesis by (simp add: keeps_past_def)
next
  case (unresolved e')
  then show ?thesis by (simp add: keeps_past_def)
next
  case (resolved q d i l d' i')
  have not_commit: False if c: "commit_redos now redos w = (Inl e, w')" for redos w w'
  proof -
    have "try_all apply_redo redos ts = (Inl e, ts') \<Longrightarrow> \<not> refusal e" for ts ts'
      by (induction redos arbitrary: ts)
         (auto simp: apply_redo_def refusal_def split: redo.splits sum.splits prod.splits)
    moreover obtain ts' where "try_all apply_redo redos (snd w) = (Inl e, ts')"
      using c by (auto simp: commit_redos_def apply_redos_def split: sum.splits prod.splits)
    ultimately show False using assms(3) by blast
  qed
  then have "(l, d', i') = (Some now, d, i)" using k [OF resolved(6)] by blast
  then have same: "l = Some now" "d' = d" "i' = i" by simp_all
  have "table_inv t'" "\<And>x. as_of t' x = as_of t x"
    using table_inv_moved [OF inv resolved(1,2), of "Some now" now] resolved(3,4,7) same by simp_all
  moreover have "high_water (tb_last t) \<le> high_water (tb_last t')" using resolved(3,7) same by (simp add: high_water_def)
  ultimately show ?thesis by (simp add: keeps_past_def)
qed

lemma flush_keeps:
  assumes inv: "table_inv t" and f: "flush_to_segment (tb_delta t) = (Inr out, d)" and r: "take_retractions d = (rs, d')"
    and t': "t' = t\<lparr>tb_delta := d', tb_sealed := SealedVersions_extend (tb_sealed t) out, tb_retracted := tb_retracted t @ rs\<rparr>"
  shows "keeps_past t t'" "as_of t' x = as_of t x" "staged_set (tb_delta t') = {}"
proof -
  let ?d = "tb_delta t"
  have dinv: "delta_inv ?d" and tl: "timeline (tb_versions t) (tb_retractions t) (vi_abs (tb_index t)) (high_water (tb_last t))"
    using inv by (simp_all add: table_inv_def)
  obtain s1 where m: "merge_staged ?d = (Inr out, s1)" "d = s1\<lparr>dl_live_spills := [], dl_mem := MemTier_new, dl_spilled_rows := 0,
        dl_disk := drop_spills (dl_live_spills s1) (dl_disk s1)\<rparr>"
    using f by (auto simp: flush_to_segment_def split: sum.splits prod.splits)
  have same: "dl_same ?d s1" and out: "out = staged_list ?d" using merge_staged_spec [OF dinv m(1)] by simp_all
  have inv1: "delta_inv s1" using dl_same_views(4) [OF same] dinv by simp
  have d': "d' = d\<lparr>dl_retractions := []\<rparr>" "rs = staged_retractions ?d"
    using r dl_same_fields(5) [OF same] by (simp_all add: m(2) take_retractions_def staged_retractions_def bt_empty_def)
  have e: "delta_inv d'" "staged_set d' = {}"
    using emptied_inv [OF inv1, of d'] by (simp_all add: d'(1) m(2))
  then have rows: "delta_rows d' = []" by (simp add: staged_set_def)
  have vs: "set (tb_versions t') = set (tb_versions t)"
    using staged_list_facts(1) [OF dinv] by (simp add: t' tb_versions_def SealedVersions_extend_def rows out staged_set_def)
  have ret: "staged_retractions d' = []" "retractions_keyed d'"
    by (simp_all add: d'(1) staged_retractions_def bt_values_def retractions_keyed_def)
  then have rts: "tb_retractions t' = tb_retractions t" by (simp add: t' tb_retractions_def d'(2))
  have tl': "timeline (tb_versions t') (tb_retractions t') (vi_abs (tb_index t)) (high_water (tb_last t))"
    using tl timeline_cong [OF vs] rts by simp
  then have "table_inv t'" using inv e(1) ret(2) unfolding table_inv_def by (simp add: t')
  moreover show same_read: "as_of t' x = as_of t x" for x
    using snapshot_cong [OF vs tl] by (simp add: as_of_def t')
  ultimately show "keeps_past t t'" by (simp add: keeps_past_def t')
  show "staged_set (tb_delta t') = {}" using e(2) by (simp add: t')
qed

lemma step_keeps_past: "table_step t t' \<Longrightarrow> table_inv t \<Longrightarrow> keeps_past t t'"
proof (induction rule: table_step.induct)
  case (inserted key payload seq txn_id prin now t c t')
  then show ?case using table_insert_ok(2) after_write_keeps_past by blast
next
  case (updated key payload seq txn_id prin now t c t')
  then show ?case using table_update_ok(2) after_write_keeps_past by blast
next
  case (deleted key txn_id prin now t c t')
  then show ?case using table_delete_ok(2) after_write_keeps_past by blast
next
  case (insert_refused key payload seq txn_id prin now t e t')
  then show ?case unfolding table_insert_def writes_shape
    by (intro refused_keeps_past [of t key now _ e t']) (auto split: option.splits)
next
  case (update_refused key payload seq txn_id prin now t e t')
  then show ?case unfolding table_update_def writes_shape
    by (intro refused_keeps_past [of t key now _ e t']) (auto split: option.splits)
next
  case (delete_refused key txn_id prin now t e t')
  then show ?case unfolding table_delete_def writes_shape
    by (intro refused_keeps_past [of t key now _ e t']) (auto split: option.splits)
next
  case (flushed t out d rs d')
  then show ?case using flush_keeps(1) by blast
qed

text \<open>
  C22. The past is immutable. Along every sequence of committed inserts, updates and deletes, of writes
  refused for the clock or the key's state, and of flushes, starting from any consistent table, an \<open>AS OF\<close>
  read at any instant before the table's current high-water mark returns forever what it returns now, and
  the table stays consistent: per key the system-time intervals never overlap and at most the last version
  is open. Writes that fail on I/O or on the frame ceiling are not part of these sequences.
\<close>

theorem as_of_reads_immutable:
  assumes "table_inv t" "table_step\<^sup>*\<^sup>* t t'"
  shows "table_inv t' \<and> intervals_ordered (vi_abs (tb_index t')) (tb_versions t') \<and>
    (\<forall>x < high_water (tb_last t). as_of t' x = as_of t x)"
proof -
  have "keeps_past t t'" using assms(2)
  proof (induction rule: rtranclp_induct)
    case base
    show ?case using assms(1) by (simp add: keeps_past_def)
  next
    case (step t1 t2)
    then have "table_inv t1" by (simp add: keeps_past_def)
    with step show ?case using step_keeps_past keeps_past_trans by blast
  qed
  then show ?thesis using timeline_ordered by (auto simp: keeps_past_def table_inv_def)
qed

text \<open>
  The validity index can always be rebuilt. After any sequence of writes, refused writes and
  flushes from a freshly opened table, rebuilding an empty index from the table's versions and
  retractions alone reproduces, when it returns \<open>Ok\<close>, every materialised end, so that every \<open>AS OF\<close> read
  against the rebuilt index equals the read against the original, and it does return \<open>Ok\<close> on a healthy
  disk when the closes it derives fit their frames. If a flush follows, the sealed versions and sealed
  retractions alone determine the same ends.
\<close>

theorem rebuild_after_writes:
  assumes "table_inv t0" "table_step\<^sup>*\<^sup>* t0 t" "vi_inv s0" "vi_abs s0 = Map.empty"
  shows "(\<forall>s. rebuild_index_from_segments (tb_versions t) (tb_retractions t) s0 = (Inr (), s) \<longrightarrow>
       vi_inv s \<and> vi_abs s = vi_abs (tb_index t) \<and> (\<forall>x. as_of (t\<lparr>tb_index := s\<rparr>) x = as_of t x)) \<and>
    (vi_ready s0 \<and> list_all close_encodable (tb_retractions t @ adjacency_closes (tb_versions t) (tb_retractions t)) \<longrightarrow>
       (\<exists>s. rebuild_index_from_segments (tb_versions t) (tb_retractions t) s0 = (Inr (), s))) \<and>
    (\<forall>out d rs d'. flush_to_segment (tb_delta t) = (Inr out, d) \<and> take_retractions d = (rs, d') \<longrightarrow>
       history_ends (tb_sealed t @ out) (tb_retracted t @ rs) (vi_abs (tb_index t)))"
proof -
  have run: "table_inv t" using assms(2,1)
  proof (induction rule: rtranclp_induct)
    case (step t1 t2)
    then show ?case using step_keeps_past by (auto simp: keeps_past_def)
  qed
  then have h: "history_ends (tb_versions t) (tb_retractions t) (vi_abs (tb_index t))"
    by (auto simp: table_inv_def dest: timelineD(7))
  have exact: "vi_inv s \<and> vi_abs s = vi_abs (tb_index t) \<and> (\<forall>x. as_of (t\<lparr>tb_index := s\<rparr>) x = as_of t x)"
    if "rebuild_index_from_segments (tb_versions t) (tb_retractions t) s0 = (Inr (), s)" for s
    using rebuild_exact [OF assms(3,4) h that] by (auto simp: as_of_def tb_versions_def)
  have flushed: "history_ends (tb_sealed t @ out) (tb_retracted t @ rs) (vi_abs (tb_index t))"
    if f: "flush_to_segment (tb_delta t) = (Inr out, d)" "take_retractions d = (rs, d')" for out d rs d'
  proof -
    let ?t = "t\<lparr>tb_delta := d', tb_sealed := SealedVersions_extend (tb_sealed t) out, tb_retracted := tb_retracted t @ rs\<rparr>"
    note k = flush_keeps [OF run f refl]
    have "delta_rows d' = []" using k(3) by (simp add: staged_set_def)
    moreover have "staged_retractions d' = []" using f(2) by (auto simp: take_retractions_def staged_retractions_def bt_empty_def bt_values_def)
    ultimately have "tb_versions ?t = tb_sealed t @ out" "tb_retractions ?t = tb_retracted t @ rs"
      by (simp_all add: tb_versions_def tb_retractions_def SealedVersions_extend_def)
    moreover have "history_ends (tb_versions ?t) (tb_retractions ?t) (vi_abs (tb_index t))"
      using k(1) by (auto simp: keeps_past_def table_inv_def dest: timelineD(7))
    ultimately show ?thesis by simp
  qed
  show ?thesis using exact rebuild_live [OF assms(4) h] flushed by blast
qed

section \<open>Witnesses\<close>

text \<open>A fresh table, and the table with the first version inserted at 10.\<close>

definition new_table :: table where
  "new_table = \<lparr>tb_last = None, tb_delta = delta_over MemDisk_new, tb_index = empty_index, tb_sealed = [], tb_retracted = []\<rparr>"

definition first_table :: table where
  "first_table = snd (table_insert [107] (Some [1]) 3 8 [] (i64_of 10) new_table)"

lemma MIN_less_OPEN: "I64_MIN < SYSTEM_TIME_OPEN" "i64_of 10 < SYSTEM_TIME_OPEN" "i64_of 20 < SYSTEM_TIME_OPEN" "i64_of 15 < i64_of 20"
    "i64_of 10 < i64_of 20"
  by (simp_all add: SYSTEM_TIME_OPEN_def less_i64_def i64_val_of i64_min_def i64_max_def)

lemma new_table_inv: "table_inv new_table"
  using delta_over_inv(1) [of MemDisk_new] delta_over_inv(2) [of MemDisk_new] empty_index_inv MIN_less_OPEN(1)
  by (simp add: table_inv_def new_table_def timeline_def tb_versions_def tb_retractions_def staged_set_def unique_ids_def
      MemDisk_new_def retractions_keyed_def high_water_def history_ends_def staged_retractions_def bt_values_def delta_over_def)

lemma new_table_ready: "table_ready new_table (i64_of 10)"
  using new_table_inv MIN_less_OPEN empty_index_inv(1) [unfolded empty_index_def MemDisk_new_def]
  by (simp add: table_ready_def new_table_def vi_ready_def delta_over_def empty_index_def no_faults_def
      MemDisk_new_def high_water_def file_at_def mem_bytes_def bt_empty_def MAX_CLOSE_FRAME_LEN_def)

lemma first_is_open: "open_version [107] (i64_of 10) 3 (Some [1]) 8 [] = first_version"
  by (simp add: open_version_def first_version_def)

lemma first_table_inserts: "table_insert [107] (Some [1]) 3 8 [] (i64_of 10) new_table = (Inr (i64_of 10), first_table)"
proof -
  have "\<not> live_key new_table [107]"
    by (simp add: live_key_def new_table_def tb_versions_def delta_rows_def spilled_versions_def delta_over_def)
  then have "fst (table_insert [107] (Some [1]) 3 8 [] (i64_of 10) new_table) = Inr (i64_of 10)"
    using write_outcomes(1) [OF new_table_ready, of "[107]" 3 "Some [1]" 8 "[]"] example_stageable(1)
    by (simp add: first_is_open stageable_def MAX_CLOSE_FRAME_LEN_def)
  then show ?thesis by (simp add: first_table_def prod_eq_iff)
qed

lemma new_seq_fresh: "seq_fresh key now seq new_table"
  by (simp add: seq_fresh_def new_table_def tb_versions_def delta_rows_def spilled_versions_def delta_over_def)

lemma first_table_eq:
  "first_table = \<lparr>tb_last = Some (i64_of 10), tb_delta = one_delta MemDisk_new, tb_index = empty_index, tb_sealed = [], tb_retracted = []\<rparr>"
proof -
  have "\<not> live_key new_table [107]"
    by (simp add: live_key_def new_table_def tb_versions_def delta_rows_def spilled_versions_def delta_over_def)
  moreover obtain q where w: "\<And>k :: version option \<Rightarrow> writer \<Rightarrow> (systime_error + i64) \<times> writer.
        table_write (stamp_and_resolve [107] (i64_of 10) k) new_table =
        (case k q (Some (i64_of 10), tb_delta new_table, tb_index new_table) of
           (r, l, d, i) \<Rightarrow> (r, new_table\<lparr>tb_last := l, tb_delta := d, tb_index := i\<rparr>))"
    and q: "\<And>p. q = Some p \<longleftrightarrow> p \<in> set (tb_versions new_table) \<and> v_business_key p = [107] \<and> vi_abs (tb_index new_table) (vkey p) = None"
    using write_resolves [OF new_table_ready, of "[107]"] by blast
  ultimately have "q = None" using q unfolding live_key_def by (metis not_None_eq)
  moreover have "delta_insert first_version (delta_over MemDisk_new) = (Inr (), one_delta MemDisk_new)"
    using example_stageable(1)
    by (simp add: delta_insert_def delta_insert_inner_def stageable_def version_encodable_def Let_def delta_over_def one_delta_def)
  ultimately show ?thesis
    unfolding first_table_def table_insert_def writes_shape w
    by (simp add: first_is_open commit_redos_def apply_redos_def apply_redo_def new_table_def)
qed

lemma first_table_inv: "table_inv first_table"
  using table_insert_ok(2) [OF new_table_inv new_seq_fresh first_table_inserts] by (simp add: after_write_def)

lemma first_table_ready: "table_ready first_table (i64_of 20)"
proof -
  have "vi_ready empty_index" "no_faults MemDisk_new"
    using new_table_ready by (simp_all add: table_ready_def new_table_def no_faults_def MemDisk_new_def)
  then show ?thesis
    using first_table_inv MIN_less_OPEN(3,5) unfolding table_ready_def
    by (simp add: first_table_eq high_water_def one_delta_def delta_over_def less_imp_le)
qed

lemma first_table_versions: "set (tb_versions first_table) = {first_version}" "live_key first_table [107]"
proof -
  show v: "set (tb_versions first_table) = {first_version}"
    using one_delta_inv(2) [of MemDisk_new] by (simp add: first_table_eq tb_versions_def staged_set_def MemDisk_new_def)
  show "live_key first_table [107]"
    unfolding live_key_def v by (simp add: first_table_eq empty_index_inv first_version_def Version_open_def)
qed

lemma second_is_open: "open_version [107] (i64_of 20) 4 None 9 [] = second_version"
  by (simp add: open_version_def second_version_def)

lemma first_table_update: "\<exists>t'. table_update [107] None 4 9 [] (i64_of 20) first_table = (Inr (i64_of 20), t')"
proof -
  have "fst (table_update [107] None 4 9 [] (i64_of 20) first_table) = Inr (i64_of 20)"
    using write_outcomes(2) [OF first_table_ready, of "[107]" 4 None 9 "[]"] first_table_versions(2) example_stageable(2)
    by (simp add: second_is_open stageable_def MAX_CLOSE_FRAME_LEN_def)
  then show ?thesis by (metis prod.collapse)
qed

lemma first_seq_fresh: "seq_fresh [107] (i64_of 20) 4 first_table"
  using MIN_less_OPEN(5) unfolding seq_fresh_def first_table_versions(1) by (auto simp: first_version_def Version_open_def)

theorem systime_write_semantics_witness:
  "\<exists>t'. table_update [107] None 4 9 [] (i64_of 20) first_table = (Inr (i64_of 20), t') \<and> table_inv t' \<and>
     as_of t' (i64_of 15) = as_of first_table (i64_of 15) \<and> second_version \<in> as_of t' (i64_of 20)"
proof -
  obtain t' where t': "table_update [107] None 4 9 [] (i64_of 20) first_table = (Inr (i64_of 20), t')"
    using first_table_update by blast
  note s = systime_write_semantics [OF first_table_inv first_seq_fresh, of None 9 "[]",
      THEN conjunct2, THEN conjunct1, rule_format, OF t']
  have "i64_of 15 < SYSTEM_TIME_OPEN" using MIN_less_OPEN(3,4) by (rule order_less_trans [rotated])
  with s MIN_less_OPEN(3,4) t' show ?thesis by (auto simp: second_is_open)
qed

theorem systime_write_outcomes_witness:
  "table_ready first_table (i64_of 20) \<and>
   table_insert [107] None 4 9 [] (i64_of 20) first_table = (Inl KeyExists, first_table\<lparr>tb_last := Some (i64_of 20)\<rparr>) \<and>
   fst (table_update [107] None 4 9 [] (i64_of 20) first_table) = Inr (i64_of 20) \<and>
   table_delete [107] 9 [] SYSTEM_TIME_OPEN first_table = (Inl TimeExhausted, first_table)"
  using systime_write_outcomes [OF first_table_ready, of "[107]" "[]" None 4 9] first_table_versions(2) example_stageable(2) first_table_ready
  by (simp add: second_is_open stageable_def MAX_CLOSE_FRAME_LEN_def)

theorem systime_oversized_update_closes_witness:
  "\<exists>n t'. table_update [107] (Some (replicate 20000000 0)) 4 9 [] (i64_of 20) first_table = (Inl (StDelta (DTooLarge n)), t') \<and>
     (\<forall>v \<in> as_of t' (i64_of 20). v_business_key v \<noteq> [107])"
proof -
  have "MAX_VERSION_FRAME_LEN < Version_encoded_size (open_version [107] (i64_of 20) 4 (Some (replicate 20000000 0)) 9 [])"
    by (simp add: MAX_VERSION_FRAME_LEN_def Version_encoded_size_def VERSION_HEADER_LEN_def open_version_def Version_open_def)
  moreover have "48 + length [107 :: u8] + length ([] :: bytes) \<le> MAX_CLOSE_FRAME_LEN" by (simp add: MAX_CLOSE_FRAME_LEN_def)
  ultimately show ?thesis
    using systime_oversized_update_closes [OF first_table_ready first_table_versions(2), of "[]" 4 "Some (replicate 20000000 0)" 9] by blast
qed

theorem as_of_reads_immutable_witness:
  "\<exists>t'. table_step\<^sup>*\<^sup>* first_table t' \<and> as_of t' (i64_of 5) = as_of first_table (i64_of 5) \<and> tb_last t' = Some (i64_of 20)"
proof -
  obtain t' where t': "table_update [107] None 4 9 [] (i64_of 20) first_table = (Inr (i64_of 20), t')"
    using first_table_update by blast
  then have "table_step first_table t'" using first_seq_fresh by (rule table_step.updated)
  then have r: "table_step\<^sup>*\<^sup>* first_table t'" by blast
  have "i64_of 5 < high_water (tb_last first_table)"
    by (simp add: first_table_eq high_water_def less_i64_def i64_val_of i64_min_def i64_max_def)
  moreover have "tb_last t' = Some (i64_of 20)"
    using table_update_ok(2) [OF first_table_inv first_seq_fresh t'] by (simp add: after_write_def)
  ultimately show ?thesis using as_of_reads_immutable [OF first_table_inv r] r by blast
qed

theorem rebuild_after_writes_witness:
  "\<exists>t s. table_step\<^sup>*\<^sup>* new_table t \<and> rebuild_index_from_segments (tb_versions t) (tb_retractions t) empty_index = (Inr (), s) \<and>
     vi_abs s = vi_abs (tb_index t) \<and> tb_versions t = [first_version]"
proof -
  have "table_step new_table first_table" using first_table_inserts new_seq_fresh by (rule table_step.inserted)
  then have r: "table_step\<^sup>*\<^sup>* new_table first_table" by blast
  have vs: "tb_versions first_table = [first_version]" "tb_retractions first_table = []"
    by (simp_all add: first_table_eq tb_versions_def tb_retractions_def staged_retractions_def bt_values_def one_delta_def delta_over_def
        delta_rows_def spilled_versions_def MemTier_iter_def MemTier_insert_rows chain_values_def chain_insert_def MemTier_new_def bt_empty_def)
  then have "rebuild_index_from_segments (tb_versions first_table) (tb_retractions first_table) empty_index = (Inr (), empty_index)"
    by (simp add: rebuild_index_from_segments_def rebuild_chain_def chain_insert_def bt_empty_def bt_values_def Let_def)
  with rebuild_after_writes [OF new_table_inv r empty_index_inv] r vs show ?thesis by blast
qed

end
