(* ===== verification/Interval_Summary.thy ===== *)
theory Interval_Summary
  imports Stele_Prelude
begin

text \<open>
  The per-segment valid-time interval summary (\<open>ValidIntervalSummary\<close> in \<open>validtime.rs\<close>): the union
  of the valid-time windows a segment's rows carry, coalesced and, above a cap, widened by merging the
  smallest gaps. A read at an instant the summary does not cover skips the whole segment, so the summary
  must never lose a covered instant. \<open>i64\<close> boundaries keep their width; gaps are integers, as the
  source computes them in \<open>i128\<close>.
\<close>

section \<open>Model\<close>

record valid_interval_summary =
  vs_intervals :: "(i64 \<times> i64) list"

definition DEFAULT_VALID_INTERVAL_CAP :: nat where
  "DEFAULT_VALID_INTERVAL_CAP = 256"

text \<open>One turn of the coalescing loop: extend the last window or open a new one.\<close>

definition coalesce_step :: "(i64 \<times> i64) list \<Rightarrow> i64 \<times> i64 \<Rightarrow> (i64 \<times> i64) list" where
  "coalesce_step merged iv =
     (if merged \<noteq> [] \<and> fst iv \<le> snd (last merged)
      then merged[length merged - 1 := (fst (last merged), max (snd (last merged)) (snd iv))]
      else merged @ [iv])"

text \<open>The scan for the smallest gap between adjacent windows: the first minimum wins.\<close>

definition gap_at :: "(i64 \<times> i64) list \<Rightarrow> nat \<Rightarrow> int" where
  "gap_at merged i = i64_val (fst (merged ! (i + 1))) - i64_val (snd (merged ! i))"

definition I128_MAX :: int where
  "I128_MAX = 2 ^ 127 - 1"

definition best_gap :: "(i64 \<times> i64) list \<Rightarrow> nat \<times> int" where
  "best_gap merged =
     foldl (\<lambda>(best, gap) i. if gap_at merged i < gap then (i, gap_at merged i) else (best, gap))
       (0, I128_MAX) [0..<length merged - 1]"

text \<open>\<open>merged[best].1 = max(..); merged.remove(best + 1)\<close>.\<close>

definition merge_at :: "nat \<Rightarrow> (i64 \<times> i64) list \<Rightarrow> (i64 \<times> i64) list" where
  "merge_at best merged =
     (let widened = merged[best := (fst (merged ! best), max (snd (merged ! best)) (snd (merged ! (best + 1))))]
      in take (best + 1) widened @ drop (best + 2) widened)"

text \<open>The widening loop, with \<open>cap.max(1)\<close> as its bound.\<close>

function merge_gaps :: "nat \<Rightarrow> (i64 \<times> i64) list \<Rightarrow> (i64 \<times> i64) list" where
  "merge_gaps cap merged =
     (if max cap 1 < length merged then merge_gaps cap (merge_at (fst (best_gap merged)) merged) else merged)"
  by pat_completeness auto

definition Summary_build :: "(i64 \<times> i64) list \<Rightarrow> nat \<Rightarrow> valid_interval_summary" where
  "Summary_build pairs cap =
     (let ivs = sort (filter (\<lambda>(f, t). f < t) pairs);
          merged = foldl coalesce_step [] ivs
      in \<lparr>vs_intervals = merge_gaps cap merged\<rparr>)"

text \<open>\<open>partition_point\<close> of a partitioned slice: the length of the prefix that satisfies the predicate.\<close>

definition partition_point :: "('a \<Rightarrow> bool) \<Rightarrow> 'a list \<Rightarrow> nat" where
  "partition_point P xs = length (takeWhile P xs)"

definition Summary_covers :: "valid_interval_summary \<Rightarrow> i64 \<Rightarrow> bool" where
  "Summary_covers s point =
     (let idx = partition_point (\<lambda>iv. fst iv \<le> point) (vs_intervals s)
      in 0 < idx \<and> point < snd (vs_intervals s ! (idx - 1)))"

definition Summary_overlaps :: "valid_interval_summary \<Rightarrow> i64 \<Rightarrow> i64 \<Rightarrow> bool" where
  "Summary_overlaps s lo hi =
     (if hi \<le> lo then False
      else let idx = partition_point (\<lambda>iv. fst iv < hi) (vs_intervals s)
           in 0 < idx \<and> lo < snd (vs_intervals s ! (idx - 1)))"

definition Summary_is_empty :: "valid_interval_summary \<Rightarrow> bool" where
  "Summary_is_empty s \<longleftrightarrow> vs_intervals s = []"

text \<open>\<open>encode\<close> panics when the count does not fit a \<open>u32\<close>; a panic is \<open>None\<close>.\<close>

definition Summary_encode :: "valid_interval_summary \<Rightarrow> bytes \<Rightarrow> bytes option" where
  "Summary_encode s out =
     map_option (\<lambda>n. out @ u32_le n @ concat (map (\<lambda>(f, t). i64_le f @ i64_le t) (vs_intervals s)))
       (u32_try_from (length (vs_intervals s)))"

definition Summary_encoded_len :: "valid_interval_summary \<Rightarrow> nat" where
  "Summary_encoded_len s = 4 + length (vs_intervals s) * 16"

text \<open>The loop of \<open>decode\<close> over the 16-byte pairs, with the intervals read so far.\<close>

fun decode_pairs :: "bytes list \<Rightarrow> (i64 \<times> i64) list \<Rightarrow> string + (i64 \<times> i64) list" where
  "decode_pairs [] intervals = Inr intervals"
| "decode_pairs (pair # rest) intervals =
     (let f = i64_of_le (sub_slice 0 8 pair); t = i64_of_le (sub_slice 8 16 pair)
      in if t \<le> f then Inl ''empty or inverted valid interval in footer''
         else if intervals \<noteq> [] \<and> f \<le> snd (last intervals)
         then Inl ''valid intervals are not strictly ascending and disjoint''
         else decode_pairs rest (intervals @ [(f, t)]))"

definition Summary_decode :: "bytes \<Rightarrow> string + valid_interval_summary \<times> nat" where
  "Summary_decode bs =
     (if length bs < 4 then Inl ''missing valid-interval count''
      else let n = unat (u32_of_le (sub_slice 0 4 bs)); stop = 4 + n * 16
           in if n = 0 then Inl ''zero valid-interval count''
              else if length bs < stop then Inl ''truncated valid-interval section''
              else result_bind (decode_pairs (chunks_exact 16 (sub_slice 4 stop bs)) [])
                     (\<lambda>ivs. Inr (\<lparr>vs_intervals = ivs\<rparr>, stop)))"

fun encode_entries :: "valid_interval_summary option list \<Rightarrow> bytes \<Rightarrow> bytes option" where
  "encode_entries [] out = Some out"
| "encode_entries (entry # rest) out =
     (case (case entry of Some s \<Rightarrow> Summary_encode s out | None \<Rightarrow> Some (out @ u32_le 0)) of
        None \<Rightarrow> None | Some out1 \<Rightarrow> encode_entries rest out1)"

definition encode_per_row_group :: "valid_interval_summary option list \<Rightarrow> bytes \<Rightarrow> bytes option" where
  "encode_per_row_group summaries out =
     (case u32_try_from (length summaries) of
        None \<Rightarrow> None | Some n \<Rightarrow> encode_entries summaries (out @ u32_le n))"

text \<open>The loop of \<open>decode_per_row_group\<close>: the entries still to read, the cursor, the entries read.\<close>

fun decode_entries :: "bytes \<Rightarrow> nat \<Rightarrow> nat \<Rightarrow> valid_interval_summary option list \<Rightarrow>
    string + valid_interval_summary option list \<times> nat" where
  "decode_entries bs 0 cursor out = Inr (out, cursor)"
| "decode_entries bs (Suc n) cursor out =
     (if length bs < cursor then Inl ''truncated per-row-group valid-interval section''
      else let rest = drop cursor bs
           in if length rest < 4 then Inl ''missing per-row-group valid-interval entry count''
              else if u32_of_le (sub_slice 0 4 rest) = 0 then decode_entries bs n (cursor + 4) (out @ [None])
              else result_bind (Summary_decode rest)
                     (\<lambda>(s, consumed). decode_entries bs n (cursor + consumed) (out @ [Some s])))"

definition decode_per_row_group :: "bytes \<Rightarrow> nat \<Rightarrow> string + valid_interval_summary option list \<times> nat" where
  "decode_per_row_group bs expected =
     (if length bs < 4 then Inl ''missing per-row-group valid-interval count''
      else let n = unat (u32_of_le (sub_slice 0 4 bs))
           in if n \<noteq> expected then Inl ''per-row-group valid-interval count disagrees with row-group count''
              else decode_entries bs n 4 [])"

section \<open>The widening loop ends\<close>

lemma best_gap_bound:
  "1 < length merged \<Longrightarrow> fst (best_gap merged) + 1 < length merged"
proof -
  assume len: "1 < length merged"
  have "fst (foldl (\<lambda>(best, gap) i. if gap_at merged i < gap then (i, gap_at merged i) else (best, gap)) p is) \<in> insert (fst p) (set is)"
    for p "is" by (induction "is" arbitrary: p) (auto split: if_splits prod.splits, fastforce+)
  from this [of "(0, I128_MAX)" "[0..<length merged - 1]"] len show ?thesis by (auto simp: best_gap_def)
qed

lemma length_merge_at: "best + 1 < length merged \<Longrightarrow> length (merge_at best merged) = length merged - 1"
  by (simp add: merge_at_def Let_def)

termination merge_gaps
  by (relation "measure (length \<circ> snd)") (auto simp: length_merge_at [OF best_gap_bound])

declare merge_gaps.simps [simp del]

lemma length_merge_gaps: "length (merge_gaps cap merged) = min (max cap 1) (length merged)"
proof (induction cap merged rule: merge_gaps.induct)
  case (1 cap merged)
  show ?case
  proof (cases "max cap 1 < length merged")
    case True
    then have "length (merge_at (fst (best_gap merged)) merged) = length merged - 1"
      by (intro length_merge_at best_gap_bound) simp
    with True 1 show ?thesis by (subst merge_gaps.simps) auto
  next
    case False
    then show ?thesis by (subst merge_gaps.simps) auto
  qed
qed

section \<open>Windows and their union\<close>

text \<open>The invariant of a summary: non-empty windows, in order, with a gap between any two.\<close>

definition windows_wf :: "(i64 \<times> i64) list \<Rightarrow> bool" where
  "windows_wf ivs \<longleftrightarrow> sorted_wrt (\<lambda>a b. snd a < fst b) ivs \<and> (\<forall>iv \<in> set ivs. fst iv < snd iv)"

definition points :: "(i64 \<times> i64) list \<Rightarrow> i64 set" where
  "points ivs = {x. \<exists>iv \<in> set ivs. fst iv \<le> x \<and> x < snd iv}"

lemma mem_points: "x \<in> points ivs \<longleftrightarrow> (\<exists>f t. (f, t) \<in> set ivs \<and> f \<le> x \<and> x < t)"
  by (force simp: points_def)

lemma windows_meet: "points ivs \<inter> {lo ..< hi} \<noteq> {} \<longleftrightarrow> (\<exists>f t. (f, t) \<in> set ivs \<and> (\<exists>p. f \<le> p \<and> p < t \<and> lo \<le> p \<and> p < hi))"
  unfolding ex_in_conv [symmetric] by (simp add: mem_points) blast

lemma points_simps [simp]:
  "points [] = {}" "points (iv # ivs) = {fst iv ..< snd iv} \<union> points ivs" "points (xs @ ys) = points xs \<union> points ys"
  by (auto simp: points_def)

lemma windows_wf_append:
  "windows_wf (xs @ ys) \<longleftrightarrow> windows_wf xs \<and> windows_wf ys \<and> (\<forall>a \<in> set xs. \<forall>b \<in> set ys. snd a < fst b)"
  by (auto simp: windows_wf_def sorted_wrt_append)

lemma windows_wf_Cons:
  "windows_wf (iv # ys) \<longleftrightarrow> fst iv < snd iv \<and> windows_wf ys \<and> (\<forall>b \<in> set ys. snd iv < fst b)"
  by (auto simp: windows_wf_def)

lemma windows_wf_Nil [simp]: "windows_wf []"
  by (simp add: windows_wf_def)

lemmas windows_wf_simps = windows_wf_append windows_wf_Cons

lemma windows_snoc:
  assumes "windows_wf (xs @ [l])" "snd l < fst iv" "fst iv < snd iv"
  shows "windows_wf (xs @ [l, iv])"
  using assms by (fastforce simp: windows_wf_simps)

text \<open>One turn of the coalescing loop keeps the invariant and adds exactly the window's points.\<close>

lemma coalesce_step_wf:
  assumes "windows_wf merged" "fst iv < snd iv" "merged \<noteq> [] \<longrightarrow> fst (last merged) \<le> fst iv"
  shows "windows_wf (coalesce_step merged iv) \<and> points (coalesce_step merged iv) = points merged \<union> {fst iv ..< snd iv} \<and>
    coalesce_step merged iv \<noteq> [] \<and> fst (last (coalesce_step merged iv)) \<le> fst iv"
proof (cases merged rule: rev_cases)
  case Nil
  with assms show ?thesis by (simp add: coalesce_step_def windows_wf_simps)
next
  case (snoc xs l)
  show ?thesis
  proof (cases "fst iv \<le> snd l")
    case True
    then have "coalesce_step merged iv = xs @ [(fst l, max (snd l) (snd iv))]" by (simp add: coalesce_step_def snoc)
    moreover have "{fst l ..< max (snd l) (snd iv)} = {fst l ..< snd l} \<union> {fst iv ..< snd iv}"
      using True assms(2,3) snoc by (auto simp: less_max_iff_disj)
    ultimately show ?thesis using assms snoc by (auto simp: windows_wf_simps less_max_iff_disj)
  next
    case False
    with snoc have "coalesce_step merged iv = xs @ [l, iv]" by (simp add: coalesce_step_def)
    with False assms snoc show ?thesis using windows_snoc [of xs l iv] by auto
  qed
qed

lemma coalesce_wf:
  assumes "windows_wf merged" "sorted ivs" "\<forall>iv \<in> set ivs. fst iv < snd iv"
    and "merged \<noteq> [] \<longrightarrow> (\<forall>iv \<in> set ivs. fst (last merged) \<le> fst iv)"
  shows "windows_wf (foldl coalesce_step merged ivs) \<and> points (foldl coalesce_step merged ivs) = points merged \<union> points ivs"
  using assms
proof (induction ivs arbitrary: merged)
  case (Cons iv ivs)
  let ?m = "coalesce_step merged iv"
  have step: "windows_wf ?m" "points ?m = points merged \<union> {fst iv ..< snd iv}" "?m \<noteq> []" "fst (last ?m) \<le> fst iv"
    using coalesce_step_wf [of merged iv] Cons.prems by auto
  have "fst iv \<le> fst jv" if "jv \<in> set ivs" for jv
    using Cons.prems(2) that by (cases iv; cases jv) (fastforce simp: less_eq_prod_def)
  with step Cons.prems have "windows_wf (foldl coalesce_step ?m ivs) \<and> points (foldl coalesce_step ?m ivs) = points ?m \<union> points ivs"
    by (intro Cons.IH) (auto intro: order_trans)
  with step show ?case by auto
qed simp

text \<open>A turn of the widening loop keeps the invariant and only adds points.\<close>

lemma merge_at_wf:
  assumes "windows_wf merged" "best + 1 < length merged"
  shows "windows_wf (merge_at best merged) \<and> points merged \<subseteq> points (merge_at best merged)"
proof -
  obtain xs a b ys where m: "merged = xs @ a # b # ys" and l: "best = length xs"
    using assms(2) id_take_nth_drop [of best merged] Cons_nth_drop_Suc [of "best + 1" merged]
    by (metis Suc_eq_plus1 add_lessD1 length_take min.absorb4)
  have "merge_at best merged = xs @ (fst a, max (snd a) (snd b)) # ys"
    by (simp add: merge_at_def Let_def m l nth_append list_update_append)
  with assms(1) show ?thesis by (fastforce simp: m windows_wf_simps less_max_iff_disj)
qed

lemma merge_gaps_wf:
  "windows_wf merged \<Longrightarrow> windows_wf (merge_gaps cap merged) \<and> points merged \<subseteq> points (merge_gaps cap merged)"
proof (induction cap merged rule: merge_gaps.induct)
  case (1 cap merged)
  show ?case
  proof (cases "max cap 1 < length merged")
    case True
    then have "windows_wf (merge_at (fst (best_gap merged)) merged) \<and> points merged \<subseteq> points (merge_at (fst (best_gap merged)) merged)"
      using 1(2) by (intro merge_at_wf best_gap_bound) simp_all
    with 1(1) [OF True] True show ?thesis by (subst (1 2) merge_gaps.simps) auto
  next
    case False
    with 1(2) show ?thesis by (subst (1 2) merge_gaps.simps) auto
  qed
qed

lemma length_coalesce: "length (foldl coalesce_step merged ivs) \<le> length merged + length ivs"
proof (induction ivs arbitrary: merged)
  case (Cons iv ivs)
  have "length (coalesce_step merged iv) \<le> length merged + 1" by (simp add: coalesce_step_def)
  with Cons [of "coalesce_step merged iv"] show ?case by simp
qed simp

lemma Summary_build_shape:
  fixes pairs :: "(i64 \<times> i64) list" and cap :: nat
  defines "s \<equiv> Summary_build pairs cap"
  shows "windows_wf (vs_intervals s)" "points pairs \<subseteq> points (vs_intervals s)"
    "length (vs_intervals s) \<le> max cap 1" "length pairs \<le> cap \<Longrightarrow> points (vs_intervals s) = points pairs"
proof -
  let ?ivs = "sort (filter (\<lambda>(f, t). f < t) pairs)"
  let ?m = "foldl coalesce_step [] ?ivs"
  have p: "points ?ivs = points pairs" by (auto simp: set_eq_iff mem_points) (meson order_le_less_trans)
  have m: "windows_wf ?m" "points ?m = points pairs" using coalesce_wf [of "[]" ?ivs] p by auto
  have s: "vs_intervals s = merge_gaps cap ?m" by (simp add: s_def Summary_build_def Let_def)
  show "windows_wf (vs_intervals s)" "points pairs \<subseteq> points (vs_intervals s)" using merge_gaps_wf [OF m(1)] m(2) by (auto simp: s)
  show "length (vs_intervals s) \<le> max cap 1" by (simp add: s length_merge_gaps)
  show "points (vs_intervals s) = points pairs" if "length pairs \<le> cap"
  proof -
    have "length ?ivs \<le> length pairs" unfolding length_sort by (rule length_filter_le)
    moreover have "length ?m \<le> length ?ivs" using length_coalesce [of "[]" ?ivs] by (simp only: list.size add_0)
    ultimately have "length ?m \<le> length pairs" by (rule le_trans [rotated])
    with that have "merge_gaps cap ?m = ?m" by (subst merge_gaps.simps) simp
    with m(2) show ?thesis by (simp add: s)
  qed
qed

section \<open>Probes\<close>

text \<open>
  The probe on the last window of a prefix: windows end in the order they start, so the last window the
  prefix holds reaches furthest.
\<close>

lemma last_of_prefix:
  assumes wf: "windows_wf ivs" and P: "\<And>x y. x \<le> y \<Longrightarrow> P y \<Longrightarrow> P x"
  shows "(0 < partition_point (\<lambda>iv. P (fst iv)) ivs \<and> q < snd (ivs ! (partition_point (\<lambda>iv. P (fst iv)) ivs - 1))) \<longleftrightarrow>
    (\<exists>iv \<in> set ivs. P (fst iv) \<and> q < snd iv)"
proof -
  define pre where "pre = takeWhile (\<lambda>iv. P (fst iv)) ivs"
  define post where "post = dropWhile (\<lambda>iv. P (fst iv)) ivs"
  have ivs: "ivs = pre @ post" by (simp add: pre_def post_def)
  have post: "\<not> P (fst iv)" if "iv \<in> set post" for iv
  proof (cases post)
    case (Cons h tl)
    then have "\<not> P (fst h)" unfolding post_def by (simp add: dropWhile_eq_Cons_conv)
    moreover have "fst h \<le> fst iv" using that wf by (auto simp: ivs Cons windows_wf_simps)
    ultimately show ?thesis using P by blast
  qed (use that in simp)
  have pre: "P (fst iv)" if "iv \<in> set pre" for iv using that set_takeWhileD by (fastforce simp: pre_def)
  have idx: "partition_point (\<lambda>iv. P (fst iv)) ivs = length pre" by (simp add: partition_point_def pre_def)
  have "(\<exists>iv \<in> set ivs. P (fst iv) \<and> q < snd iv) \<longleftrightarrow> (\<exists>iv \<in> set pre. q < snd iv)" using post pre unfolding ivs set_append by blast
  also have "\<dots> \<longleftrightarrow> pre \<noteq> [] \<and> q < snd (last pre)"
  proof (cases pre rule: rev_cases)
    case (snoc xs l)
    with wf have "\<forall>iv \<in> set xs. snd iv < snd l" by (fastforce simp: ivs windows_wf_simps)
    with snoc show ?thesis by (auto dest: order_less_trans)
  qed simp
  also have "\<dots> \<longleftrightarrow> 0 < partition_point (\<lambda>iv. P (fst iv)) ivs \<and> q < snd (ivs ! (partition_point (\<lambda>iv. P (fst iv)) ivs - 1))"
    unfolding idx by (auto simp: last_conv_nth nth_append ivs)
  finally show ?thesis by simp
qed

lemma Summary_covers_iff: "windows_wf (vs_intervals s) \<Longrightarrow> Summary_covers s p \<longleftrightarrow> p \<in> points (vs_intervals s)"
  using last_of_prefix [of "vs_intervals s" "\<lambda>x. x \<le> p" p] by (auto simp: Summary_covers_def Let_def points_def)

lemma Summary_overlaps_iff:
  "windows_wf (vs_intervals s) \<Longrightarrow> Summary_overlaps s lo hi \<longleftrightarrow> points (vs_intervals s) \<inter> {lo ..< hi} \<noteq> {}"
proof -
  assume wf: "windows_wf (vs_intervals s)"
  have "(\<exists>iv \<in> set (vs_intervals s). fst iv < hi \<and> lo < snd iv) \<longleftrightarrow> points (vs_intervals s) \<inter> {lo ..< hi} \<noteq> {}" if "lo < hi"
  proof
    assume "\<exists>iv \<in> set (vs_intervals s). fst iv < hi \<and> lo < snd iv"
    then obtain iv where iv: "iv \<in> set (vs_intervals s)" "fst iv < hi" "lo < snd iv" by blast
    moreover have "fst iv < snd iv" using wf iv(1) by (simp add: windows_wf_def)
    ultimately have "max (fst iv) lo \<in> points (vs_intervals s) \<inter> {lo ..< hi}" using that by (auto simp: points_def intro!: bexI [of _ iv])
    then show "points (vs_intervals s) \<inter> {lo ..< hi} \<noteq> {}" by blast
  qed (fastforce simp: points_def)
  with last_of_prefix [OF wf, of "\<lambda>x. x < hi" lo] show ?thesis by (auto simp: Summary_overlaps_def Let_def)
qed

text \<open>
  C19. Skipping a segment on its valid-time summary never loses a row. For every multiset of row windows
  and every cap, building the summary returns a list of at most \<open>max(cap, 1)\<close> disjoint ordered windows
  such that the point probe answers true at every instant some row is valid and the range probe
  answers true for every range some row overlaps; when there are no more rows than the cap, both probes
  answer true exactly then.
\<close>

theorem summary_prune_sound:
  "(let s = Summary_build pairs cap in
     windows_wf (vs_intervals s) \<and> length (vs_intervals s) \<le> max cap 1 \<and>
     (\<forall>(f, t) \<in> set pairs. \<forall>p. f \<le> p \<and> p < t \<longrightarrow> Summary_covers s p) \<and>
     (\<forall>(f, t) \<in> set pairs. \<forall>lo hi. f < t \<and> lo < hi \<and> f < hi \<and> lo < t \<longrightarrow> Summary_overlaps s lo hi) \<and>
     (length pairs \<le> cap \<longrightarrow>
       (\<forall>p. Summary_covers s p \<longleftrightarrow> (\<exists>(f, t) \<in> set pairs. f \<le> p \<and> p < t)) \<and>
       (\<forall>lo hi. Summary_overlaps s lo hi \<longleftrightarrow> (\<exists>(f, t) \<in> set pairs. \<exists>p. f \<le> p \<and> p < t \<and> lo \<le> p \<and> p < hi))))"
proof -
  let ?s = "Summary_build pairs cap"
  note shape = Summary_build_shape [of pairs cap]
  note probes = Summary_covers_iff [OF shape(1)] Summary_overlaps_iff [OF shape(1)]
  have hit: "max f lo \<in> points pairs \<inter> {lo ..< hi}" if "(f, t) \<in> set pairs" "f < t" "lo < hi" "f < hi" "lo < t" for f t lo hi
    using that by (force simp: points_def)
  have 1: "\<forall>(f, t) \<in> set pairs. \<forall>p. f \<le> p \<and> p < t \<longrightarrow> Summary_covers ?s p"
    using shape(2) by (force simp: probes points_def)
  have 2: "\<forall>(f, t) \<in> set pairs. \<forall>lo hi. f < t \<and> lo < hi \<and> f < hi \<and> lo < t \<longrightarrow> Summary_overlaps ?s lo hi"
    using shape(2) hit unfolding probes by blast
  have 3: "length pairs \<le> cap \<Longrightarrow> Summary_covers ?s p \<longleftrightarrow> (\<exists>(f, t) \<in> set pairs. f \<le> p \<and> p < t)" for p
    unfolding probes shape(4) by (auto simp: mem_points)
  have 4: "length pairs \<le> cap \<Longrightarrow>
      Summary_overlaps ?s lo hi \<longleftrightarrow> (\<exists>(f, t) \<in> set pairs. \<exists>p. f \<le> p \<and> p < t \<and> lo \<le> p \<and> p < hi)" for lo hi
    unfolding probes shape(4) windows_meet by auto
  show ?thesis unfolding Let_def by (intro conjI allI impI shape(1,3) 1 2) (simp_all only: 3 4)
qed

theorem summary_prune_sound_witness:
  "Summary_covers (Summary_build [(i64_of 0, i64_of 10), (i64_of 50, i64_of 60)] 1) (i64_of 55)"
  using summary_prune_sound [of "[(i64_of 0, i64_of 10), (i64_of 50, i64_of 60)]" 1]
  by (simp add: Let_def less_eq_i64_def less_i64_def i64_val_of i64_min_def i64_max_def)

section \<open>The footer codec\<close>

definition window_bytes :: "i64 \<times> i64 \<Rightarrow> bytes" where
  "window_bytes iv = i64_le (fst iv) @ i64_le (snd iv)"

lemma length_window_bytes [simp]: "length (window_bytes iv) = 16"
  by (simp add: window_bytes_def)

lemma chunks_of_windows: "chunks_exact 16 (concat (map window_bytes ivs)) = map window_bytes ivs"
  by (induction ivs) (simp_all add: chunks_exact_append chunks_exact_short)

lemma length_windows [simp]: "length (concat (map window_bytes ivs)) = length ivs * 16"
  by (induction ivs) simp_all

lemma Summary_encode_windows:
  "Summary_encode s out = (if length (vs_intervals s) < 2 ^ 32
     then Some (out @ u32_le (of_nat (length (vs_intervals s))) @ concat (map window_bytes (vs_intervals s))) else None)"
  by (simp add: Summary_encode_def u32_try_from_def window_bytes_def [abs_def] case_prod_beta')

lemma decode_pairs_windows:
  "windows_wf (acc @ ivs) \<Longrightarrow> decode_pairs (map window_bytes ivs) acc = Inr (acc @ ivs)"
proof (induction ivs arbitrary: acc)
  case (Cons iv ivs)
  have "sub_slice 0 8 (window_bytes iv) = i64_le (fst iv)" "sub_slice 8 16 (window_bytes iv) = i64_le (snd iv)"
    by (simp_all add: window_bytes_def sub_slice_def)
  moreover have "fst iv < snd iv" "acc \<noteq> [] \<Longrightarrow> snd (last acc) < fst iv" using Cons.prems by (auto simp: windows_wf_simps)
  moreover have "decode_pairs (map window_bytes ivs) (acc @ [iv]) = Inr ((acc @ [iv]) @ ivs)" using Cons.prems by (intro Cons.IH) simp
  ultimately show ?case by (auto simp: Let_def not_le)
qed simp

text \<open>What the loop accepts is exactly an encoding of well-formed windows.\<close>

lemma decode_pairs_inverse:
  assumes "decode_pairs cs acc = Inr out" "\<forall>c \<in> set cs. length c = 16" "windows_wf acc"
  shows "windows_wf out \<and> (\<exists>ivs. out = acc @ ivs \<and> cs = map window_bytes ivs)"
  using assms
proof (induction cs arbitrary: acc)
  case (Cons c cs)
  let ?iv = "(i64_of_le (sub_slice 0 8 c), i64_of_le (sub_slice 8 16 c))"
  have lt: "fst ?iv < snd ?iv" and last: "acc \<noteq> [] \<Longrightarrow> snd (last acc) < fst ?iv"
    and rec: "decode_pairs cs (acc @ [?iv]) = Inr out"
    using Cons.prems(1) by (auto simp: Let_def split: if_splits)
  have "window_bytes ?iv = c"
    using Cons.prems(2) codec_inverse(3) sub_slice_drop [of 0 8 c] sub_slice_drop [of 8 16 c] by (simp add: window_bytes_def)
  moreover have "windows_wf (acc @ [?iv])"
  proof (cases acc rule: rev_cases)
    case (snoc xs l)
    then show ?thesis using windows_snoc [of xs l ?iv] Cons.prems(3) lt last by simp
  qed (use lt in \<open>simp add: windows_wf_simps\<close>)
  ultimately show ?case using Cons.IH [OF rec] Cons.prems(2) by auto
qed simp

lemma Summary_decode_encoded:
  assumes "windows_wf (vs_intervals s)" "vs_intervals s \<noteq> []" "length (vs_intervals s) < 2 ^ 32"
  shows "Summary_decode (u32_le (of_nat (length (vs_intervals s))) @ concat (map window_bytes (vs_intervals s)) @ rest) =
    Inr (s, Summary_encoded_len s)"
proof -
  let ?n = "length (vs_intervals s)" and ?body = "concat (map window_bytes (vs_intervals s))"
  let ?bs = "u32_le (of_nat ?n) @ ?body @ rest"
  have "sub_slice 0 4 ?bs = u32_le (of_nat ?n)" "sub_slice 4 (4 + ?n * 16) ?bs = ?body" by (simp_all add: sub_slice_def)
  moreover have "unat (of_nat ?n :: u32) = ?n" using assms(3) by simp
  ultimately show ?thesis using assms(1,2) decode_pairs_windows [of "[]" "vs_intervals s"]
    by (simp add: Summary_decode_def Let_def chunks_of_windows Summary_encoded_len_def)
qed

lemma Summary_decode_inverse:
  assumes "Summary_decode bs = Inr (s, n)"
  shows "windows_wf (vs_intervals s) \<and> vs_intervals s \<noteq> [] \<and> n = Summary_encoded_len s \<and> n \<le> length bs \<and>
    Summary_encode s [] = Some (take n bs)"
proof -
  let ?k = "unat (u32_of_le (sub_slice 0 4 bs))"
  let ?body = "sub_slice 4 (4 + ?k * 16) bs"
  have len: "4 \<le> length bs" "?k \<noteq> 0" "4 + ?k * 16 \<le> length bs" and n: "n = 4 + ?k * 16"
    and d: "decode_pairs (chunks_exact 16 ?body) [] = Inr (vs_intervals s)"
    using assms by (auto simp: Summary_decode_def Let_def result_simps split: if_splits)
  have "windows_wf (vs_intervals s) \<and> (\<exists>ivs. vs_intervals s = [] @ ivs \<and> chunks_exact 16 ?body = map window_bytes ivs)"
    by (rule decode_pairs_inverse [OF d]) (auto dest: chunks_exact_length)
  then have wf: "windows_wf (vs_intervals s)" and c: "chunks_exact 16 ?body = map window_bytes (vs_intervals s)" by auto
  have "length ?body = ?k * 16" using len by simp
  then have body: "concat (chunks_exact 16 ?body) = ?body \<and> length (chunks_exact 16 ?body) = ?k"
    by (rule concat_chunks_exact) simp
  then have k: "length (vs_intervals s) = ?k" using c by simp
  have "?k < 2 ^ 32" using unsigned_less [of "u32_of_le (sub_slice 0 4 bs)"] by simp
  moreover have "u32_le (u32_of_le (sub_slice 0 4 bs)) = sub_slice 0 4 bs" using len by (intro codec_inverse) simp
  moreover have "sub_slice 0 4 bs @ ?body = take n bs"
    by (simp add: sub_slice_def n take_add)
  ultimately show ?thesis using wf k len body c
    by (auto simp: Summary_encode_windows Summary_encoded_len_def n)
qed

text \<open>
  C20. The valid-time summary keeps its shape through building, writing and reading. \<open>build\<close> makes only
  well-formed summaries, of at most the capped number of windows. A well-formed summary of at least one
  and fewer than \<open>2^32\<close> windows encodes into exactly \<open>encoded_len\<close> bytes that decode, whatever follows
  them, to the same summary; the empty one encodes to a count that \<open>decode\<close> refuses. Everything \<open>decode\<close>
  accepts, of any bytes whatever, is a well-formed non-empty summary whose encoding is the bytes consumed,
  so the probes' search is sound on any footer that decodes.
\<close>

theorem summary_codec_type:
  "(\<forall>pairs cap. windows_wf (vs_intervals (Summary_build pairs cap)) \<and> length (vs_intervals (Summary_build pairs cap)) \<le> max cap 1) \<and>
   (\<forall>s rest. windows_wf (vs_intervals s) \<and> vs_intervals s \<noteq> [] \<and> length (vs_intervals s) < 2 ^ 32 \<longrightarrow>
      (\<exists>e. Summary_encode s [] = Some e \<and> length e = Summary_encoded_len s \<and> Summary_decode (e @ rest) = Inr (s, length e))) \<and>
   (\<forall>s rest. vs_intervals s = [] \<longrightarrow>
      (\<exists>e. Summary_encode s [] = Some e \<and> Summary_decode (e @ rest) = Inl ''zero valid-interval count'')) \<and>
   (\<forall>bs s n. Summary_decode bs = Inr (s, n) \<longrightarrow>
      windows_wf (vs_intervals s) \<and> vs_intervals s \<noteq> [] \<and> n = Summary_encoded_len s \<and> n \<le> length bs \<and> Summary_encode s [] = Some (take n bs) \<and>
      (\<forall>p. Summary_covers s p \<longleftrightarrow> p \<in> points (vs_intervals s)))"
proof (intro conjI allI impI, goal_cases)
  case (1 pairs cap)
  show ?case by (rule Summary_build_shape)
next
  case (2 pairs cap)
  show ?case by (rule Summary_build_shape)
next
  case (3 s rest)
  then show ?case using Summary_decode_encoded [of s rest] by (auto simp: Summary_encode_windows Summary_encoded_len_def)
next
  case (4 s rest)
  then show ?case by (simp add: Summary_encode_def Summary_decode_def u32_try_from_def sub_slice_def)
next
  case (6 bs s n)
  then show ?case by (auto simp: Summary_decode_inverse)
next
  case (10 bs s n p)
  then show ?case using Summary_decode_inverse Summary_covers_iff by blast
qed (use Summary_decode_inverse in blast)+

text \<open>The witness: one window, written and read back, and a footer whose windows overlap.\<close>

theorem summary_codec_type_witness:
  "\<exists>e. Summary_encode (Summary_build [(i64_of 0, i64_of 10)] 1) [] = Some e \<and>
    Summary_decode (e @ [255]) = Inr (Summary_build [(i64_of 0, i64_of 10)] 1, length e)"
proof -
  let ?s = "Summary_build [(i64_of 0, i64_of 10)] 1"
  have "i64_of 0 < i64_of 10" by (simp add: less_i64_def i64_val_of i64_min_def i64_max_def)
  then have "vs_intervals ?s = [(i64_of 0, i64_of 10)]"
    by (simp add: Summary_build_def coalesce_step_def merge_gaps.simps)
  with Summary_build_shape(1) [of "[(i64_of 0, i64_of 10)]" 1] summary_codec_type show ?thesis
    by (metis length_Cons list.distinct(1) list.size(3) one_less_numeral_iff One_nat_def power_one_right semiring_norm(76) one_less_power zero_less_numeral)
qed

subsection \<open>Per-row-group sections\<close>

definition entry_bytes :: "valid_interval_summary option \<Rightarrow> bytes" where
  "entry_bytes entry =
     (case entry of None \<Rightarrow> u32_le 0
      | Some s \<Rightarrow> u32_le (of_nat (length (vs_intervals s))) @ concat (map window_bytes (vs_intervals s)))"

definition entry_wf :: "valid_interval_summary option \<Rightarrow> bool" where
  "entry_wf entry \<longleftrightarrow> (\<forall>s. entry = Some s \<longrightarrow> windows_wf (vs_intervals s) \<and> vs_intervals s \<noteq> [] \<and> length (vs_intervals s) < 2 ^ 32)"

lemma encode_entries_bytes:
  "\<forall>e \<in> set es. entry_wf e \<Longrightarrow> encode_entries es out = Some (out @ concat (map entry_bytes es))"
  by (induction es arbitrary: out) (auto simp: entry_wf_def entry_bytes_def Summary_encode_windows split: option.split)

lemma decode_entries_bytes:
  assumes "\<forall>e \<in> set es. entry_wf e"
  shows "decode_entries (pre @ concat (map entry_bytes es) @ rest) (length es) (length pre) out =
    Inr (out @ es, length pre + length (concat (map entry_bytes es)))"
  using assms
proof (induction es arbitrary: pre out)
  case (Cons e es)
  let ?tail = "concat (map entry_bytes es) @ rest"
  have rec: "decode_entries (pre @ entry_bytes e @ ?tail) (length es) (length pre + length (entry_bytes e)) (out @ [e]) =
      Inr (out @ e # es, length pre + length (entry_bytes e) + length (concat (map entry_bytes es)))"
    using Cons.IH [of "pre @ entry_bytes e" "out @ [e]"] Cons.prems by simp
  show ?case
  proof (cases e)
    case None
    then have "entry_bytes e = u32_le 0" by (simp add: entry_bytes_def)
    with rec None show ?thesis by (simp add: sub_slice_def)
  next
    case (Some s)
    let ?n = "length (vs_intervals s)"
    have wf: "windows_wf (vs_intervals s)" "vs_intervals s \<noteq> []" "?n < 2 ^ 32" using Cons.prems Some by (auto simp: entry_wf_def)
    have e: "entry_bytes e = u32_le (of_nat ?n) @ concat (map window_bytes (vs_intervals s))" by (simp add: entry_bytes_def Some)
    have "(of_nat ?n :: u32) \<noteq> 0" using wf(2,3) unat_u32_of_nat [of ?n] by (metis length_0_conv unsigned_0)
    moreover have "Summary_decode (entry_bytes e @ ?tail) = Inr (s, Summary_encoded_len s)"
      unfolding e using Summary_decode_encoded [OF wf, of ?tail] by simp
    moreover have "Summary_encoded_len s = length (entry_bytes e)" by (simp add: Summary_encoded_len_def e)
    moreover have "4 \<le> length (entry_bytes e)" "sub_slice 0 4 (entry_bytes e @ ?tail) = u32_le (of_nat ?n)"
      by (simp_all add: e sub_slice_def)
    ultimately show ?thesis using rec Some by (simp add: Let_def add.assoc)
  qed
qed simp

text \<open>A row-group section, admit-all slots included, is read back slot for slot.\<close>

lemma per_row_group_roundtrip:
  assumes "\<forall>e \<in> set es. entry_wf e" "length es < 2 ^ 32"
  shows "\<exists>bs. encode_per_row_group es [] = Some bs \<and> decode_per_row_group (bs @ rest) (length es) = Inr (es, length bs)"
proof -
  let ?bs = "u32_le (of_nat (length es)) @ concat (map entry_bytes es)"
  have "encode_per_row_group es [] = Some ?bs"
    using assms by (simp add: encode_per_row_group_def u32_try_from_def encode_entries_bytes)
  moreover have "decode_per_row_group (?bs @ rest) (length es) = Inr (es, length ?bs)"
    using decode_entries_bytes [OF assms(1), of "u32_le (of_nat (length es))" rest "[]"] assms(2)
    by (simp add: decode_per_row_group_def Let_def sub_slice_def)
  ultimately show ?thesis by blast
qed

end
