(* ===== verification/Valid_Time.thy ===== *)
theory Valid_Time
  imports Systime_Props Interval_Summary
begin

text \<open>
  Valid-time ingestion (\<open>validtime.rs\<close>): the writer-supplied interval rides as a 16-byte prefix of the
  stored payload, present exactly when the table opted in; the writes check that policy and hand the
  framed payload to the system-time writer. The table's flag is an argument, as it never changes.
\<close>

section \<open>Model\<close>

definition VALID_TIME_PREFIX_LEN :: nat where
  "VALID_TIME_PREFIX_LEN = 16"

datatype valid_time_error =
    EmptyInterval i64 i64
  | ValidTimeRequired
  | ValidTimeNotSupported
  | VtTruncated
  | VtSysTime systime_error

record valid_interval =
  vt_from :: i64
  vt_to :: i64

definition ValidInterval_new :: "i64 \<Rightarrow> i64 \<Rightarrow> valid_time_error + valid_interval" where
  "ValidInterval_new f t = (if t \<le> f then Inl (EmptyInterval f t) else Inr \<lparr>vt_from = f, vt_to = t\<rparr>)"

definition ValidInterval_contains :: "valid_interval \<Rightarrow> i64 \<Rightarrow> bool" where
  "ValidInterval_contains iv point \<longleftrightarrow> vt_from iv \<le> point \<and> point < vt_to iv"

definition encode_prefix :: "valid_interval \<Rightarrow> bytes \<Rightarrow> bytes" where
  "encode_prefix iv out = out @ i64_le (vt_from iv) @ i64_le (vt_to iv)"

definition decode_prefix :: "bytes \<Rightarrow> valid_time_error + valid_interval" where
  "decode_prefix bs =
     (if length bs < VALID_TIME_PREFIX_LEN then Inl VtTruncated
      else ValidInterval_new (i64_of_le (sub_slice 0 8 bs)) (i64_of_le (sub_slice 8 16 bs)))"

definition frame_payload :: "bool \<Rightarrow> valid_interval option \<Rightarrow> bytes option \<Rightarrow> valid_time_error + bytes option" where
  "frame_payload enabled valid user_payload =
     (case (enabled, valid) of
        (True, Some iv) \<Rightarrow> Inr (Some (encode_prefix iv [] @ (case user_payload of None \<Rightarrow> [] | Some u \<Rightarrow> u)))
      | (True, None) \<Rightarrow> Inl ValidTimeRequired
      | (False, None) \<Rightarrow> Inr user_payload
      | (False, Some _) \<Rightarrow> Inl ValidTimeNotSupported)"

definition unframe_payload :: "bool \<Rightarrow> bytes \<Rightarrow> valid_time_error + valid_interval option \<times> bytes" where
  "unframe_payload enabled stored =
     (if enabled then result_bind (decode_prefix stored) (\<lambda>iv. Inr (Some iv, drop VALID_TIME_PREFIX_LEN stored))
      else Inr (None, stored))"

definition reframe_payload :: "i64 \<Rightarrow> i64 \<Rightarrow> bytes \<Rightarrow> bytes" where
  "reframe_payload valid_from valid_to user = i64_le valid_from @ i64_le valid_to @ user"

text \<open>The writes: frame first, then the system-time write on the framed payload.\<close>

definition vt_lift :: "(systime_error + 'a) \<times> writer \<Rightarrow> (valid_time_error + 'a) \<times> writer" where
  "vt_lift rw = (map_err VtSysTime (fst rw), snd rw)"

definition vt_insert :: "bool \<Rightarrow> sealed_lookup \<Rightarrow> bytes \<Rightarrow> valid_interval option \<Rightarrow> bytes option \<Rightarrow> u64 \<Rightarrow> u64 \<Rightarrow> bytes \<Rightarrow>
    i64 \<Rightarrow> writer \<Rightarrow> (valid_time_error + i64) \<times> writer" where
  "vt_insert enabled lookup key valid payload seq txn_id prin now w =
     (case frame_payload enabled valid payload of
        Inl e \<Rightarrow> (Inl e, w)
      | Inr framed \<Rightarrow> vt_lift (systime_insert lookup key framed seq txn_id prin now w))"

definition vt_update :: "bool \<Rightarrow> sealed_lookup \<Rightarrow> bytes \<Rightarrow> valid_interval option \<Rightarrow> bytes option \<Rightarrow> u64 \<Rightarrow> u64 \<Rightarrow> bytes \<Rightarrow>
    i64 \<Rightarrow> writer \<Rightarrow> (valid_time_error + i64) \<times> writer" where
  "vt_update enabled lookup key valid payload seq txn_id prin now w =
     (case frame_payload enabled valid payload of
        Inl e \<Rightarrow> (Inl e, w)
      | Inr framed \<Rightarrow> vt_lift (systime_update lookup key framed seq txn_id prin now w))"

definition vt_delete :: "sealed_lookup \<Rightarrow> bytes \<Rightarrow> u64 \<Rightarrow> bytes \<Rightarrow> i64 \<Rightarrow> writer \<Rightarrow> (valid_time_error + i64) \<times> writer" where
  "vt_delete lookup key txn_id prin now w = vt_lift (systime_delete lookup key txn_id prin now w)"

definition vt_stage_insert :: "bool \<Rightarrow> sealed_lookup \<Rightarrow> bytes \<Rightarrow> valid_interval option \<Rightarrow> bytes option \<Rightarrow> u64 \<Rightarrow> u64 \<Rightarrow>
    bytes \<Rightarrow> i64 \<Rightarrow> writer \<Rightarrow> (valid_time_error + i64 \<times> redo list) \<times> writer" where
  "vt_stage_insert enabled lookup key valid payload seq txn_id prin now w =
     (case frame_payload enabled valid payload of
        Inl e \<Rightarrow> (Inl e, w)
      | Inr framed \<Rightarrow> vt_lift (stage_insert lookup key framed seq txn_id prin now w))"

definition vt_stage_update :: "bool \<Rightarrow> sealed_lookup \<Rightarrow> bytes \<Rightarrow> valid_interval option \<Rightarrow> bytes option \<Rightarrow> u64 \<Rightarrow> u64 \<Rightarrow>
    bytes \<Rightarrow> i64 \<Rightarrow> writer \<Rightarrow> (valid_time_error + i64 \<times> redo list) \<times> writer" where
  "vt_stage_update enabled lookup key valid payload seq txn_id prin now w =
     (case frame_payload enabled valid payload of
        Inl e \<Rightarrow> (Inl e, w)
      | Inr framed \<Rightarrow> vt_lift (stage_update lookup key framed seq txn_id prin now w))"

definition vt_stage_delete :: "sealed_lookup \<Rightarrow> bytes \<Rightarrow> u64 \<Rightarrow> bytes \<Rightarrow> i64 \<Rightarrow> writer \<Rightarrow>
    (valid_time_error + i64 \<times> redo list) \<times> writer" where
  "vt_stage_delete lookup key txn_id prin now w = vt_lift (stage_delete lookup key txn_id prin now w)"

section \<open>Framing\<close>

definition interval_wf :: "valid_interval \<Rightarrow> bool" where
  "interval_wf iv \<longleftrightarrow> vt_from iv < vt_to iv"

lemma decode_prefix_encode: "interval_wf iv \<Longrightarrow> decode_prefix (encode_prefix iv [] @ rest) = Inr iv"
  by (simp add: decode_prefix_def encode_prefix_def VALID_TIME_PREFIX_LEN_def sub_slice_def ValidInterval_new_def interval_wf_def)

lemma decode_prefix_wf:
  assumes "decode_prefix bs = Inr iv"
  shows "interval_wf iv" "bs = encode_prefix iv [] @ drop 16 bs"
proof -
  have len: "16 \<le> length bs" and iv: "vt_from iv = i64_of_le (sub_slice 0 8 bs)" "vt_to iv = i64_of_le (sub_slice 8 16 bs)"
    and lt: "vt_from iv < vt_to iv"
    using assms by (auto simp: decode_prefix_def VALID_TIME_PREFIX_LEN_def ValidInterval_new_def split: if_splits)
  show "interval_wf iv" using lt by (simp add: interval_wf_def)
  show "bs = encode_prefix iv [] @ drop 16 bs"
    using len codec_inverse(3) sub_slice_drop [of 0 8 bs] sub_slice_drop [of 8 16 bs] by (simp add: encode_prefix_def iv)
qed

text \<open>
  The valid-time framing loses nothing and enforces the table's policy. On a table that opted in, the
  payload framed with an interval reads back as that interval and the user's bytes, and the payload a
  segment rebuilds from its interval columns is byte for byte the framed one; on a system-only table the
  payload is stored as given, \<open>NULL\<close> kept. A missing or a forbidden interval is refused before the clock
  is read or a tier touched. Whatever decodes as a framed payload carries a non-empty interval and is
  the framing of what was read.
\<close>

theorem valid_time_framing:
  "(\<forall>iv user. interval_wf iv \<longrightarrow> (\<exists>stored. frame_payload True (Some iv) (Some user) = Inr (Some stored) \<and>
      unframe_payload True stored = Inr (Some iv, user) \<and> reframe_payload (vt_from iv) (vt_to iv) user = stored)) \<and>
   (\<forall>payload. frame_payload False None payload = Inr payload) \<and> (\<forall>raw. unframe_payload False raw = Inr (None, raw)) \<and>
   (\<forall>lookup key payload seq txn_id prin now w.
      vt_insert True lookup key None payload seq txn_id prin now w = (Inl ValidTimeRequired, w) \<and>
      vt_update True lookup key None payload seq txn_id prin now w = (Inl ValidTimeRequired, w)) \<and>
   (\<forall>lookup key iv payload seq txn_id prin now w.
      vt_insert False lookup key (Some iv) payload seq txn_id prin now w = (Inl ValidTimeNotSupported, w) \<and>
      vt_update False lookup key (Some iv) payload seq txn_id prin now w = (Inl ValidTimeNotSupported, w)) \<and>
   (\<forall>raw iv' user'. unframe_payload True raw = Inr (iv', user') \<longrightarrow>
      (\<exists>iv. iv' = Some iv \<and> interval_wf iv \<and> frame_payload True iv' (Some user') = Inr (Some raw)))"
proof -
  have 1: "\<exists>stored. frame_payload True (Some iv) (Some user) = Inr (Some stored) \<and>
      unframe_payload True stored = Inr (Some iv, user) \<and> reframe_payload (vt_from iv) (vt_to iv) user = stored"
    if "interval_wf iv" for iv user
  proof (intro exI conjI)
    let ?stored = "encode_prefix iv [] @ user"
    show "frame_payload True (Some iv) (Some user) = Inr (Some ?stored)" by (simp add: frame_payload_def)
    have "drop VALID_TIME_PREFIX_LEN ?stored = user" by (simp add: encode_prefix_def VALID_TIME_PREFIX_LEN_def)
    with that show "unframe_payload True ?stored = Inr (Some iv, user)" by (simp add: unframe_payload_def decode_prefix_encode)
    show "reframe_payload (vt_from iv) (vt_to iv) user = ?stored" by (simp add: encode_prefix_def reframe_payload_def)
  qed
  have 2: "\<exists>iv. iv' = Some iv \<and> interval_wf iv \<and> frame_payload True iv' (Some user') = Inr (Some raw)"
    if u: "unframe_payload True raw = Inr (iv', user')" for raw iv' user'
  proof -
    obtain iv where iv: "decode_prefix raw = Inr iv" "iv' = Some iv" "user' = drop 16 raw"
      using u by (auto simp: unframe_payload_def result_simps VALID_TIME_PREFIX_LEN_def)
    with decode_prefix_wf [OF iv(1)] show ?thesis by (simp add: frame_payload_def)
  qed
  have 3: "frame_payload False None payload = Inr payload" "unframe_payload False raw = Inr (None, raw)"
    "vt_insert True lookup key None payload seq txn_id prin now w = (Inl ValidTimeRequired, w) \<and>
      vt_update True lookup key None payload seq txn_id prin now w = (Inl ValidTimeRequired, w)"
    "vt_insert False lookup key (Some iv) payload seq txn_id prin now w = (Inl ValidTimeNotSupported, w) \<and>
      vt_update False lookup key (Some iv) payload seq txn_id prin now w = (Inl ValidTimeNotSupported, w)"
    for payload raw lookup key seq txn_id prin now w iv
    by (simp_all add: frame_payload_def unframe_payload_def vt_insert_def vt_update_def)
  show ?thesis by (intro conjI allI impI 1 2 3) (simp_all only: 3)
qed

theorem valid_time_framing_witness:
  "interval_wf \<lparr>vt_from = i64_of 5, vt_to = i64_of 9\<rparr> \<and>
   (\<exists>stored. frame_payload True (Some \<lparr>vt_from = i64_of 5, vt_to = i64_of 9\<rparr>) (Some [1, 2]) = Inr (Some stored) \<and>
      unframe_payload True stored = Inr (Some \<lparr>vt_from = i64_of 5, vt_to = i64_of 9\<rparr>, [1, 2]))"
proof -
  have "interval_wf \<lparr>vt_from = i64_of 5, vt_to = i64_of 9\<rparr>"
    by (simp add: interval_wf_def less_i64_def i64_val_of i64_min_def i64_max_def)
  with conjunct1 [OF valid_time_framing, rule_format, OF this, of "[1, 2]"] show ?thesis by blast
qed

end
