(* ===== verification/Segment_Format.thy ===== *)
theory Segment_Format
  imports Valid_Time Bloom
begin

text \<open>
  The on-disk vocabulary of sealed segments (\<open>segment/format.rs\<close>): magics, lengths and flag bits, the
  column codecs, and the column ids with their types and the schemas they make up. A computation of the
  segment code that may fail or panic is a \<open>seg\<close>: \<open>None\<close> is a panic (an \<open>unreachable!\<close>, an \<open>expect\<close>, an
  index out of bounds). Error texts keep the source's words, a dash written as a hyphen.
\<close>

section \<open>Fallible computations\<close>

type_synonym 'a seg = "(segment_error + 'a) option"

definition seg_bind :: "'a seg \<Rightarrow> ('a \<Rightarrow> 'b seg) \<Rightarrow> 'b seg" where
  "seg_bind r f = (case r of None \<Rightarrow> None | Some (Inl e) \<Rightarrow> Some (Inl e) | Some (Inr x) \<Rightarrow> f x)"

text \<open>A loop that pushes one result per element and stops at the first error.\<close>

fun seg_map :: "('a \<Rightarrow> 'b seg) \<Rightarrow> 'a list \<Rightarrow> 'b list seg" where
  "seg_map f [] = Some (Inr [])"
| "seg_map f (x # xs) = seg_bind (f x) (\<lambda>y. seg_bind (seg_map f xs) (\<lambda>ys. Some (Inr (y # ys))))"

lemma seg_bind_simps [simp]:
  "seg_bind None f = None" "seg_bind (Some (Inl e)) f = Some (Inl e)" "seg_bind (Some (Inr x)) f = f x"
  by (simp_all add: seg_bind_def)

lemma seg_bind_Inr [result_simps]: "seg_bind r f = Some (Inr y) \<longleftrightarrow> (\<exists>x. r = Some (Inr x) \<and> f x = Some (Inr y))"
  by (auto simp: seg_bind_def split: option.splits sum.splits)

lemma seg_map_Inr: "seg_map f xs = Some (Inr ys) \<longleftrightarrow> list_all2 (\<lambda>x y. f x = Some (Inr y)) xs ys"
  by (induction xs arbitrary: ys) (auto simp: seg_bind_Inr list_all2_Cons1)

section \<open>Constants\<close>

text \<open>The magics \<open>STLSEG\0\0\<close> and \<open>STLSEGFT\<close>.\<close>

definition HEADER_MAGIC :: bytes where "HEADER_MAGIC = [0x53, 0x54, 0x4C, 0x53, 0x45, 0x47, 0, 0]"
definition TRAILER_MAGIC :: bytes where "TRAILER_MAGIC = [0x53, 0x54, 0x4C, 0x53, 0x45, 0x47, 0x46, 0x54]"
definition FORMAT_VERSION :: "16 word" where "FORMAT_VERSION = 14"
definition FOOTER_FLAG_BLOOM :: u32 where "FOOTER_FLAG_BLOOM = 1"
definition FOOTER_FLAG_VALID_INTERVALS :: u32 where "FOOTER_FLAG_VALID_INTERVALS = 2"
definition FOOTER_FLAG_RG_VALID_INTERVALS :: u32 where "FOOTER_FLAG_RG_VALID_INTERVALS = 4"
definition BYTES_NULL_SENTINEL :: u32 where "BYTES_NULL_SENTINEL = 0xFFFFFFFF"
definition STAT_MIN_UNBOUNDED :: u8 where "STAT_MIN_UNBOUNDED = 1"
definition STAT_MAX_UNBOUNDED :: u8 where "STAT_MAX_UNBOUNDED = 2"
definition SEG_HEADER_LEN :: nat where "SEG_HEADER_LEN = 16"
definition TRAILER_LEN :: nat where "TRAILER_LEN = 16"
definition CHUNK_HEADER_LEN :: nat where "CHUNK_HEADER_LEN = 16"
definition MAX_BYTES_STAT_PREFIX_LEN :: nat where "MAX_BYTES_STAT_PREFIX_LEN = 64"
definition SCHEMA_ID_IMPLICIT_VERSION :: u32 where "SCHEMA_ID_IMPLICIT_VERSION = 0"

section \<open>Codecs and columns\<close>

datatype codec = Plain | Dict

definition Codec_from_byte :: "u8 \<Rightarrow> codec option" where
  "Codec_from_byte b = (if b = 0 then Some Plain else if b = 1 then Some Dict else None)"

fun Codec_as_byte :: "codec \<Rightarrow> u8" where
  "Codec_as_byte Plain = 0" | "Codec_as_byte Dict = 1"

definition code_width_for :: "nat \<Rightarrow> nat" where
  "code_width_for dict_count = (if dict_count \<le> 256 then 1 else if dict_count \<le> 65536 then 2 else 4)"

datatype column_id =
    ColBusinessKey | ColSysFrom | ColPayload | ColTxnId | ColCommittedAt | ColPrincipal | ColValidFrom | ColValidTo
  | ColRetractKey | ColRetractSysFrom | ColRetractClosedAt | ColRetractClosedByTxn | ColRetractClosedByCommittedAt
  | ColRetractClosedByPrincipal | ColSeq | ColRetractSeq

datatype column_type = TyBytes | TyI64

definition ColumnId_ALL :: "column_id list" where
  "ColumnId_ALL = [ColBusinessKey, ColSysFrom, ColSeq, ColPayload, ColTxnId, ColCommittedAt, ColPrincipal]"

definition ColumnId_ALL_WITH_VALID_TIME :: "column_id list" where
  "ColumnId_ALL_WITH_VALID_TIME =
     [ColBusinessKey, ColSysFrom, ColSeq, ColPayload, ColTxnId, ColCommittedAt, ColPrincipal, ColValidFrom, ColValidTo]"

definition ColumnId_RETRACTION :: "column_id list" where
  "ColumnId_RETRACTION =
     [ColRetractKey, ColRetractSysFrom, ColRetractSeq, ColRetractClosedAt, ColRetractClosedByTxn,
      ColRetractClosedByCommittedAt, ColRetractClosedByPrincipal]"

definition ColumnId_schema :: "bool \<Rightarrow> column_id list" where
  "ColumnId_schema valid_time = (if valid_time then ColumnId_ALL_WITH_VALID_TIME else ColumnId_ALL)"

definition ColumnId_ty :: "column_id \<Rightarrow> column_type" where
  "ColumnId_ty c =
     (case c of
        ColBusinessKey \<Rightarrow> TyBytes | ColPayload \<Rightarrow> TyBytes | ColPrincipal \<Rightarrow> TyBytes
      | ColRetractKey \<Rightarrow> TyBytes | ColRetractClosedByPrincipal \<Rightarrow> TyBytes
      | _ \<Rightarrow> TyI64)"

fun ColumnId_as_u16 :: "column_id \<Rightarrow> 16 word" where
  "ColumnId_as_u16 ColBusinessKey = 0"
| "ColumnId_as_u16 ColSysFrom = 1"
| "ColumnId_as_u16 ColPayload = 2"
| "ColumnId_as_u16 ColTxnId = 3"
| "ColumnId_as_u16 ColCommittedAt = 4"
| "ColumnId_as_u16 ColPrincipal = 5"
| "ColumnId_as_u16 ColValidFrom = 6"
| "ColumnId_as_u16 ColValidTo = 7"
| "ColumnId_as_u16 ColRetractKey = 8"
| "ColumnId_as_u16 ColRetractSysFrom = 9"
| "ColumnId_as_u16 ColRetractClosedAt = 10"
| "ColumnId_as_u16 ColRetractClosedByTxn = 11"
| "ColumnId_as_u16 ColRetractClosedByCommittedAt = 12"
| "ColumnId_as_u16 ColRetractClosedByPrincipal = 13"
| "ColumnId_as_u16 ColSeq = 14"
| "ColumnId_as_u16 ColRetractSeq = 15"

definition ColumnId_from_u16 :: "16 word \<Rightarrow> column_id option" where
  "ColumnId_from_u16 v =
     (if v = 0 then Some ColBusinessKey else if v = 1 then Some ColSysFrom else if v = 2 then Some ColPayload
      else if v = 3 then Some ColTxnId else if v = 4 then Some ColCommittedAt else if v = 5 then Some ColPrincipal
      else if v = 6 then Some ColValidFrom else if v = 7 then Some ColValidTo else if v = 8 then Some ColRetractKey
      else if v = 9 then Some ColRetractSysFrom else if v = 10 then Some ColRetractClosedAt
      else if v = 11 then Some ColRetractClosedByTxn else if v = 12 then Some ColRetractClosedByCommittedAt
      else if v = 13 then Some ColRetractClosedByPrincipal else if v = 14 then Some ColSeq
      else if v = 15 then Some ColRetractSeq else None)"

text \<open>The derived order of the ids is that of their discriminants.\<close>

lemma ColumnId_from_as [simp]: "ColumnId_from_u16 (ColumnId_as_u16 c) = Some c"
  by (cases c) (simp_all add: ColumnId_from_u16_def)

lemma ColumnId_as_u16_inject: "ColumnId_as_u16 c = ColumnId_as_u16 c' \<longleftrightarrow> c = c'"
  by (metis ColumnId_from_as option.inject)

instantiation column_id :: linorder
begin

definition less_eq_column_id :: "column_id \<Rightarrow> column_id \<Rightarrow> bool" where
  "less_eq_column_id a b \<longleftrightarrow> ColumnId_as_u16 a \<le> ColumnId_as_u16 b"

definition less_column_id :: "column_id \<Rightarrow> column_id \<Rightarrow> bool" where
  "less_column_id a b \<longleftrightarrow> ColumnId_as_u16 a < ColumnId_as_u16 b"

instance
  by standard (auto simp: less_eq_column_id_def less_column_id_def ColumnId_as_u16_inject order.strict_iff_order)

end

lemma Codec_from_as [simp]: "Codec_from_byte (Codec_as_byte c) = Some c"
  by (cases c) (simp_all add: Codec_from_byte_def)

end
