(* ===== verification/Zone_Map.thy ===== *)
theory Zone_Map
  imports Segment_Format
begin

text \<open>
  Zone maps (\<open>segment/zone_map.rs\<close>, and the merging of chunk statistics in \<open>segment/reader.rs\<close>): per
  column an interval that covers the column's cells, with open ends where no bound could be recorded. A
  read skips a segment or row group whose zones exclude its predicate, so a zone map must never exclude
  a predicate some row satisfies.
\<close>

section \<open>Model\<close>

datatype cmp_ordering = Less | Equal | Greater

definition cmp :: "'a::linorder \<Rightarrow> 'a \<Rightarrow> cmp_ordering" where
  "cmp a b = (if a < b then Less else if a = b then Equal else Greater)"

datatype zone_bound = ZI64 i64 | ZBytes bytes

datatype zone_end = ZValue zone_bound | ZUnbounded

record column_zone =
  z_min :: zone_end
  z_max :: zone_end

record zone_map =
  zm_columns :: "(column_id \<times> column_zone) list"

fun cmp_same_variant :: "zone_bound \<Rightarrow> zone_bound \<Rightarrow> cmp_ordering option" where
  "cmp_same_variant (ZI64 a) (ZI64 b) = Some (cmp a b)"
| "cmp_same_variant (ZBytes a) (ZBytes b) = Some (cmp a b)"
| "cmp_same_variant _ _ = None"

definition is_below :: "zone_bound \<Rightarrow> zone_bound \<Rightarrow> bool" where
  "is_below a b \<longleftrightarrow> cmp_same_variant a b = Some Less"

definition is_above :: "zone_bound \<Rightarrow> zone_bound \<Rightarrow> bool" where
  "is_above a b \<longleftrightarrow> cmp_same_variant a b = Some Greater"

definition prunes_below :: "zone_end \<Rightarrow> zone_bound \<Rightarrow> bool" where
  "prunes_below e value = (case e of ZValue lo \<Rightarrow> is_below value lo | ZUnbounded \<Rightarrow> False)"

definition prunes_above :: "zone_end \<Rightarrow> zone_bound \<Rightarrow> bool" where
  "prunes_above e value = (case e of ZValue hi \<Rightarrow> is_above value hi | ZUnbounded \<Rightarrow> False)"

text \<open>Only a column with both bounds gets a zone; the zones are kept in column order.\<close>

definition ZoneMap_from_bounds :: "(column_id \<times> zone_end option \<times> zone_end option) list \<Rightarrow> zone_map" where
  "ZoneMap_from_bounds bounds =
     \<lparr>zm_columns = sort_key fst
        (List.map_filter (\<lambda>(col, lo, hi).
           case (lo, hi) of (Some lo, Some hi) \<Rightarrow> Some (col, \<lparr>z_min = lo, z_max = hi\<rparr>) | _ \<Rightarrow> None) bounds)\<rparr>"

definition ZoneMap_column :: "zone_map \<Rightarrow> column_id \<Rightarrow> column_zone option" where
  "ZoneMap_column zm column = map_option snd (List.find (\<lambda>(c, _). c = column) (zm_columns zm))"

datatype predicate =
    PAll
  | PEq column_id zone_bound
  | PRange column_id zone_bound zone_bound
  | PAnd "predicate list"

definition snapshot_overlaps :: "zone_map \<Rightarrow> i64 \<Rightarrow> bool" where
  "snapshot_overlaps zm s =
     (case ZoneMap_column zm ColSysFrom of
        Some zone \<Rightarrow> (case z_min zone of ZValue (ZI64 min_sys_from) \<Rightarrow> \<not> s < min_sys_from | _ \<Rightarrow> True)
      | None \<Rightarrow> True)"

fun satisfies :: "zone_map \<Rightarrow> predicate \<Rightarrow> bool" where
  "satisfies zm PAll = True"
| "satisfies zm (PAnd parts) = list_all (satisfies zm) parts"
| "satisfies zm (PEq column value) =
     (case ZoneMap_column zm column of
        None \<Rightarrow> True
      | Some zone \<Rightarrow> \<not> prunes_below (z_min zone) value \<and> \<not> prunes_above (z_max zone) value)"
| "satisfies zm (PRange column low high) =
     (case ZoneMap_column zm column of
        None \<Rightarrow> True
      | Some zone \<Rightarrow> \<not> prunes_below (z_min zone) high \<and> \<not> prunes_above (z_max zone) low)"

definition ZoneMap_might_contain :: "zone_map \<Rightarrow> predicate \<Rightarrow> i64 \<Rightarrow> bool" where
  "ZoneMap_might_contain zm pred at \<longleftrightarrow> snapshot_overlaps zm at \<and> satisfies zm pred"

section \<open>Merging the statistics of chunks\<close>

record column_chunk_meta =
  cm_column_id :: column_id
  cm_codec :: codec
  cm_offset :: u64
  cm_length :: u64
  cm_value_count :: u32
  cm_stat_min :: "zone_end option"
  cm_stat_max :: "zone_end option"

definition end_is_smaller :: "zone_end \<Rightarrow> zone_end option \<Rightarrow> bool" where
  "end_is_smaller cand cur =
     (case (cur, cand) of
        (Some ZUnbounded, _) \<Rightarrow> False
      | (None, _) \<Rightarrow> True
      | (Some (ZValue c), ZUnbounded) \<Rightarrow> True
      | (Some (ZValue c), ZValue v) \<Rightarrow> cmp_same_variant v c = Some Less)"

definition end_is_larger :: "zone_end \<Rightarrow> zone_end option \<Rightarrow> bool" where
  "end_is_larger cand cur =
     (case (cur, cand) of
        (Some ZUnbounded, _) \<Rightarrow> False
      | (None, _) \<Rightarrow> True
      | (Some (ZValue c), ZUnbounded) \<Rightarrow> True
      | (Some (ZValue c), ZValue v) \<Rightarrow> cmp_same_variant v c = Some Greater)"

text \<open>The columns present, in order of first appearance; then per column the running bounds.\<close>

definition present_columns :: "column_chunk_meta list \<Rightarrow> column_id list" where
  "present_columns metas =
     foldl (\<lambda>present c. if cm_column_id c \<in> set present then present else present @ [cm_column_id c]) [] metas"

definition merge_min :: "zone_end option \<Rightarrow> column_chunk_meta \<Rightarrow> zone_end option" where
  "merge_min cur c = (case cm_stat_min c of Some m \<Rightarrow> if end_is_smaller m cur then Some m else cur | None \<Rightarrow> cur)"

definition merge_max :: "zone_end option \<Rightarrow> column_chunk_meta \<Rightarrow> zone_end option" where
  "merge_max cur c = (case cm_stat_max c of Some m \<Rightarrow> if end_is_larger m cur then Some m else cur | None \<Rightarrow> cur)"

definition zone_map_from_metas :: "column_chunk_meta list \<Rightarrow> zone_map" where
  "zone_map_from_metas metas =
     ZoneMap_from_bounds (map (\<lambda>col.
        let of_col = filter (\<lambda>c. cm_column_id c = col) metas
        in (col, foldl merge_min None of_col, foldl merge_max None of_col)) (present_columns metas))"

section \<open>Soundness\<close>

text \<open>
  The meaning of a predicate on a row, given by its cells (no cell where the row has no value in the
  column): equality and inclusive ranges.
\<close>

type_synonym cells = "column_id \<Rightarrow> zone_bound option"

fun same_variant :: "zone_bound \<Rightarrow> zone_bound \<Rightarrow> bool" where
  "same_variant (ZI64 a) (ZI64 b) = True"
| "same_variant (ZBytes a) (ZBytes b) = True"
| "same_variant _ _ = False"

definition bound_le :: "zone_bound \<Rightarrow> zone_bound \<Rightarrow> bool" where
  "bound_le a b \<longleftrightarrow> same_variant a b \<and> \<not> is_below b a"

fun row_matches :: "cells \<Rightarrow> predicate \<Rightarrow> bool" where
  "row_matches cells PAll = True"
| "row_matches cells (PAnd parts) = list_all (row_matches cells) parts"
| "row_matches cells (PEq column value) = (cells column = Some value)"
| "row_matches cells (PRange column low high) =
     (case cells column of None \<Rightarrow> False | Some x \<Rightarrow> bound_le low x \<and> bound_le x high)"

definition zone_has :: "column_zone \<Rightarrow> zone_bound \<Rightarrow> bool" where
  "zone_has zone x \<longleftrightarrow> \<not> prunes_below (z_min zone) x \<and> \<not> prunes_above (z_max zone) x"

definition zones_cover :: "zone_map \<Rightarrow> cells \<Rightarrow> bool" where
  "zones_cover zm cells \<longleftrightarrow> (\<forall>c zone x. ZoneMap_column zm c = Some zone \<longrightarrow> cells c = Some x \<longrightarrow> zone_has zone x)"

lemma cmp_cases: "cmp a b = Less \<longleftrightarrow> a < b" "cmp a b = Equal \<longleftrightarrow> a = b" "cmp a b = Greater \<longleftrightarrow> b < a"
  by (auto simp: cmp_def)

lemma above_is_below: "is_above a b \<longleftrightarrow> is_below b a"
  by (cases a; cases b) (auto simp: is_above_def is_below_def cmp_cases)

lemma below_le_trans: "bound_le x y \<Longrightarrow> is_below y z \<Longrightarrow> is_below x z"
  by (cases x; cases y; cases z) (auto simp: bound_le_def is_below_def cmp_cases)

lemma below_le_trans2: "bound_le y z \<Longrightarrow> is_below x y \<Longrightarrow> is_below x z"
  by (cases x; cases y; cases z) (auto simp: bound_le_def is_below_def cmp_cases)

lemma prunes_below_mono: "bound_le x y \<Longrightarrow> \<not> prunes_below e x \<Longrightarrow> \<not> prunes_below e y"
  by (auto simp: prunes_below_def split: zone_end.split dest: below_le_trans)

lemma prunes_above_mono: "bound_le x y \<Longrightarrow> \<not> prunes_above e y \<Longrightarrow> \<not> prunes_above e x"
  by (auto simp: prunes_above_def above_is_below split: zone_end.split dest: below_le_trans2)

lemma satisfies_sound: "zones_cover zm cells \<Longrightarrow> row_matches cells pred \<Longrightarrow> satisfies zm pred"
proof (induction pred)
  case (PRange c low high)
  then obtain x where x: "cells c = Some x" "bound_le low x" "bound_le x high" by (auto split: option.splits)
  have "zone_has zone x" if "ZoneMap_column zm c = Some zone" for zone using PRange.prems(1) x(1) that by (simp add: zones_cover_def)
  then show ?case using prunes_below_mono [OF x(3)] prunes_above_mono [OF x(2)] by (auto simp: zone_has_def split: option.split)
qed (auto simp: zones_cover_def zone_has_def list_all_iff split: option.split)

lemma might_contain_sound:
  assumes "zones_cover zm cells" "row_matches cells pred" "cells ColSysFrom = Some (ZI64 sf)" "sf \<le> at"
  shows "ZoneMap_might_contain zm pred at"
proof -
  have "snapshot_overlaps zm at"
    using assms(1,3,4) unfolding zones_cover_def zone_has_def snapshot_overlaps_def
    by (fastforce simp: prunes_below_def is_below_def cmp_cases split: option.split zone_end.split zone_bound.split)
  then show ?thesis using satisfies_sound [OF assms(1,2)] by (simp add: ZoneMap_might_contain_def)
qed

subsection \<open>Merged statistics cover every chunk\<close>

text \<open>
  The statistics of a chunk cover the cells of the chunk: each recorded bound holds of every cell, a
  missing bound means there is no cell, and bounds and cells have the column's type.
\<close>

fun bound_ty :: "zone_bound \<Rightarrow> column_type" where
  "bound_ty (ZI64 _) = TyI64" | "bound_ty (ZBytes _) = TyBytes"

definition end_typed :: "column_type \<Rightarrow> zone_end \<Rightarrow> bool" where
  "end_typed t e = (case e of ZValue b \<Rightarrow> bound_ty b = t | ZUnbounded \<Rightarrow> True)"

definition chunk_covers :: "column_chunk_meta \<Rightarrow> zone_bound \<Rightarrow> bool" where
  "chunk_covers m x \<longleftrightarrow> bound_ty x = ColumnId_ty (cm_column_id m) \<and>
     (\<exists>lo hi. cm_stat_min m = Some lo \<and> cm_stat_max m = Some hi \<and> \<not> prunes_below lo x \<and> \<not> prunes_above hi x)"

definition meta_typed :: "column_chunk_meta \<Rightarrow> bool" where
  "meta_typed m \<longleftrightarrow> pred_option (end_typed (ColumnId_ty (cm_column_id m))) (cm_stat_min m) \<and>
     pred_option (end_typed (ColumnId_ty (cm_column_id m))) (cm_stat_max m)"

lemma end_is_smaller_covers:
  assumes "end_typed t e" "end_typed t cur" "bound_ty x = t" "\<not> prunes_below cur x" "end_is_smaller e (Some cur)"
  shows "\<not> prunes_below e x"
  using assms by (cases e; cases cur; cases x)
    (auto simp: end_typed_def prunes_below_def is_below_def end_is_smaller_def cmp_cases elim!: bound_ty.elims)

lemma not_smaller_covers:
  assumes "end_typed t e" "end_typed t cur" "bound_ty x = t" "\<not> prunes_below e x" "\<not> end_is_smaller e (Some cur)"
  shows "\<not> prunes_below cur x"
  using assms by (cases e; cases cur; cases x)
    (auto simp: end_typed_def prunes_below_def is_below_def end_is_smaller_def cmp_cases elim!: bound_ty.elims)

lemma end_is_larger_covers:
  assumes "end_typed t e" "end_typed t cur" "bound_ty x = t" "\<not> prunes_above cur x" "end_is_larger e (Some cur)"
  shows "\<not> prunes_above e x"
  using assms by (cases e; cases cur; cases x)
    (auto simp: end_typed_def prunes_above_def is_above_def end_is_larger_def cmp_cases elim!: bound_ty.elims)

lemma not_larger_covers:
  assumes "end_typed t e" "end_typed t cur" "bound_ty x = t" "\<not> prunes_above e x" "\<not> end_is_larger e (Some cur)"
  shows "\<not> prunes_above cur x"
  using assms by (cases e; cases cur; cases x)
    (auto simp: end_typed_def prunes_above_def is_above_def end_is_larger_def cmp_cases elim!: bound_ty.elims)

text \<open>One step keeps what the running bound covers and takes in the chunk's own cells; so does the whole fold.\<close>

lemma merge_step:
  assumes "meta_typed m" "pred_option (end_typed (ColumnId_ty (cm_column_id m))) lo" "pred_option (end_typed (ColumnId_ty (cm_column_id m))) hi"
    and "bound_ty x = ColumnId_ty (cm_column_id m)"
    and "chunk_covers m x \<or> (\<exists>l h. lo = Some l \<and> hi = Some h \<and> \<not> prunes_below l x \<and> \<not> prunes_above h x)"
  shows "\<exists>l h. merge_min lo m = Some l \<and> merge_max hi m = Some h \<and> \<not> prunes_below l x \<and> \<not> prunes_above h x"
proof -
  let ?t = "ColumnId_ty (cm_column_id m)"
  have "\<exists>l. merge_min lo m = Some l \<and> \<not> prunes_below l x"
  proof (cases lo)
    case None
    then show ?thesis using assms(5) by (auto simp: chunk_covers_def merge_min_def end_is_smaller_def split: option.split)
  next
    case (Some c)
    show ?thesis
    proof (cases "cm_stat_min m")
      case None
      then show ?thesis using assms(5) Some by (auto simp: merge_min_def chunk_covers_def)
    next
      case e: (Some e)
      have "end_typed ?t e" "end_typed ?t c" using assms(1,2) e Some by (auto simp: meta_typed_def)
      note co = end_is_smaller_covers [OF this assms(4)] not_smaller_covers [OF this assms(4)]
      have "\<not> prunes_below e x \<or> \<not> prunes_below c x" using assms(5) e Some by (auto simp: chunk_covers_def)
      then show ?thesis using co e Some by (cases "end_is_smaller e (Some c)") (auto simp: merge_min_def)
    qed
  qed
  moreover have "\<exists>h. merge_max hi m = Some h \<and> \<not> prunes_above h x"
  proof (cases hi)
    case None
    then show ?thesis using assms(5) by (auto simp: chunk_covers_def merge_max_def end_is_larger_def split: option.split)
  next
    case (Some c)
    show ?thesis
    proof (cases "cm_stat_max m")
      case None
      then show ?thesis using assms(5) Some by (auto simp: merge_max_def chunk_covers_def)
    next
      case e: (Some e)
      have "end_typed ?t e" "end_typed ?t c" using assms(1,3) e Some by (auto simp: meta_typed_def)
      note co = end_is_larger_covers [OF this assms(4)] not_larger_covers [OF this assms(4)]
      have "\<not> prunes_above e x \<or> \<not> prunes_above c x" using assms(5) e Some by (auto simp: chunk_covers_def)
      then show ?thesis using co e Some by (cases "end_is_larger e (Some c)") (auto simp: merge_max_def)
    qed
  qed
  ultimately show ?thesis by blast
qed

lemma merge_typed:
  assumes "meta_typed m" "t = ColumnId_ty (cm_column_id m)"
  shows "pred_option (end_typed t) lo \<Longrightarrow> pred_option (end_typed t) (merge_min lo m)"
    and "pred_option (end_typed t) hi \<Longrightarrow> pred_option (end_typed t) (merge_max hi m)"
  using assms by (auto simp: merge_min_def merge_max_def meta_typed_def split: option.split)

lemma merge_fold:
  assumes "\<forall>m \<in> set metas. meta_typed m \<and> cm_column_id m = col" "bound_ty x = ColumnId_ty col"
    and "pred_option (end_typed (ColumnId_ty col)) lo" "pred_option (end_typed (ColumnId_ty col)) hi"
    and "(\<exists>m \<in> set metas. chunk_covers m x) \<or> (\<exists>l h. lo = Some l \<and> hi = Some h \<and> \<not> prunes_below l x \<and> \<not> prunes_above h x)"
  shows "\<exists>l h. foldl merge_min lo metas = Some l \<and> foldl merge_max hi metas = Some h \<and> \<not> prunes_below l x \<and> \<not> prunes_above h x"
  using assms
proof (induction metas arbitrary: lo hi)
  case (Cons m metas)
  have m: "meta_typed m" "cm_column_id m = col" using Cons.prems(1) by auto
  note ty = merge_typed [OF m(1) sym [OF arg_cong [OF m(2), of ColumnId_ty]]]
  have "(\<exists>m \<in> set metas. chunk_covers m x) \<or>
    (\<exists>l h. merge_min lo m = Some l \<and> merge_max hi m = Some h \<and> \<not> prunes_below l x \<and> \<not> prunes_above h x)"
    using Cons.prems(5) merge_step [OF m(1), of lo hi x] Cons.prems(2-4) m(2) by auto
  then show ?case
    using Cons.IH [of "merge_min lo m" "merge_max hi m"] Cons.prems ty by auto
qed simp

lemma set_present_columns: "set (present_columns metas) = cm_column_id ` set metas"
proof -
  have "set (foldl (\<lambda>present c. if cm_column_id c \<in> set present then present else present @ [cm_column_id c]) acc metas) =
      set acc \<union> cm_column_id ` set metas" for acc
    by (induction metas arbitrary: acc) auto
  then show ?thesis by (simp add: present_columns_def)
qed

lemma ZoneMap_column_mem: "ZoneMap_column zm c = Some zone \<Longrightarrow> (c, zone) \<in> set (zm_columns zm)"
  by (auto simp: ZoneMap_column_def find_Some_iff in_set_conv_nth)

lemma zone_from_metas:
  assumes "ZoneMap_column (zone_map_from_metas metas) c = Some zone"
  shows "Some (z_min zone) = foldl merge_min None (filter (\<lambda>m. cm_column_id m = c) metas)"
    and "Some (z_max zone) = foldl merge_max None (filter (\<lambda>m. cm_column_id m = c) metas)"
  using ZoneMap_column_mem [OF assms]
  by (auto simp: zone_map_from_metas_def ZoneMap_from_bounds_def map_filter_def Let_def split: option.splits)

text \<open>A row all of whose cells are covered by some chunk of their column is covered by the merged map.\<close>

lemma zones_cover_metas:
  assumes "\<forall>m \<in> set metas. meta_typed m"
    and "\<And>c x. cells c = Some x \<Longrightarrow> c \<in> cm_column_id ` set metas \<Longrightarrow> \<exists>m \<in> set metas. cm_column_id m = c \<and> chunk_covers m x"
  shows "zones_cover (zone_map_from_metas metas) cells"
  unfolding zones_cover_def
proof (intro allI impI)
  fix c zone x assume z: "ZoneMap_column (zone_map_from_metas metas) c = Some zone" and x: "cells c = Some x"
  let ?ms = "filter (\<lambda>m. cm_column_id m = c) metas"
  have "?ms \<noteq> []" using zone_from_metas(1) [OF z] by (metis foldl_Nil option.distinct(1))
  then have "c \<in> cm_column_id ` set metas" by (auto simp: filter_empty_conv)
  then obtain m where m: "m \<in> set metas" "cm_column_id m = c" "chunk_covers m x" using assms(2) [OF x] by blast
  have "\<exists>l h. foldl merge_min None ?ms = Some l \<and> foldl merge_max None ?ms = Some h \<and> \<not> prunes_below l x \<and> \<not> prunes_above h x"
    using assms(1) m by (intro merge_fold [where col = c]) (auto simp: chunk_covers_def)
  then show "zone_has zone x" using zone_from_metas [OF z] by (auto simp: zone_has_def)
qed

end
