(* ===== verification/Segment_Columns.thy ===== *)
theory Segment_Columns
  imports Zone_Map
begin

text \<open>
  The column chunks of a segment: the encoders of \<open>segment/writer.rs\<close> (plain and dictionary byte
  columns, integer columns, the bounded-prefix statistics) and the decoders of \<open>segment/reader.rs\<close> with
  the cursor they read through. A decoded column is the encoded one, and the statistics bound every cell.
\<close>

section \<open>The encoders\<close>

datatype stat_bound = Absent | StatValue bytes | StatUnbounded

fun StatBound_flag :: "stat_bound \<Rightarrow> u8 \<Rightarrow> u8" where
  "StatBound_flag StatUnbounded unbounded_bit = unbounded_bit"
| "StatBound_flag Absent unbounded_bit = 0"
| "StatBound_flag (StatValue v) unbounded_bit = 0"

fun StatBound_bytes :: "stat_bound \<Rightarrow> bytes" where
  "StatBound_bytes (StatValue v) = v"
| "StatBound_bytes Absent = []"
| "StatBound_bytes StatUnbounded = []"

record encoded_column =
  ec_codec :: codec
  ec_payload :: bytes
  ec_stat_min :: stat_bound
  ec_stat_max :: stat_bound

definition bound_or_unbounded :: "bytes \<Rightarrow> stat_bound" where
  "bound_or_unbounded pfx = (if pfx = [] then StatUnbounded else StatValue pfx)"

definition bounded_min_prefix :: "bytes \<Rightarrow> bytes" where
  "bounded_min_prefix v = take (min (length v) MAX_BYTES_STAT_PREFIX_LEN) v"

text \<open>The loop that rounds a prefix up: drop trailing \<open>0xFF\<close> bytes, increment the last other one.\<close>

function round_up :: "bytes \<Rightarrow> bytes" where
  "round_up pfx =
     (if pfx = [] then []
      else if last pfx < 0xFF then butlast pfx @ [last pfx + 1]
      else round_up (butlast pfx))"
  by pat_completeness auto
termination
  by (relation "measure length") auto

declare round_up.simps [simp del]

definition bounded_max_prefix :: "bytes \<Rightarrow> bytes" where
  "bounded_max_prefix v = (if length v \<le> MAX_BYTES_STAT_PREFIX_LEN then v else round_up (take MAX_BYTES_STAT_PREFIX_LEN v))"

text \<open>The first loop of \<open>encode_bytes_values\<close>: the length check and the running minimum and maximum.\<close>

fun bytes_minmax :: "bytes option list \<Rightarrow> bytes option \<Rightarrow> bytes option \<Rightarrow> segment_error + bytes option \<times> bytes option" where
  "bytes_minmax [] lo hi = Inr (lo, hi)"
| "bytes_minmax (None # vs) lo hi = bytes_minmax vs lo hi"
| "bytes_minmax (Some b # vs) lo hi =
     (if u32_try_from (length b) = None then Inl (SegTooLarge ''value length exceeds u32::MAX in one chunk'')
      else bytes_minmax vs
             (Some (case lo of None \<Rightarrow> b | Some m \<Rightarrow> if b < m then b else m))
             (Some (case hi of None \<Rightarrow> b | Some m \<Rightarrow> if m < b then b else m)))"

text \<open>One cell, length-prefixed; \<open>NULL\<close> is the sentinel length. The length was checked to fit.\<close>

definition cell_bytes :: "bytes option \<Rightarrow> bytes" where
  "cell_bytes v = (case v of None \<Rightarrow> u32_le BYTES_NULL_SENTINEL | Some b \<Rightarrow> u32_le (of_nat (length b)) @ b)"

definition encode_plain_bytes :: "bytes option list \<Rightarrow> bytes" where
  "encode_plain_bytes vs = concat (map cell_bytes vs)"

text \<open>
  The dictionary: distinct values in order of first appearance, one code per value. The row count was
  checked to fit \<open>u32\<close>, so codes and count do.
\<close>

fun dict_loop :: "bytes option list \<Rightarrow> (bytes option \<rightharpoonup> nat) \<Rightarrow> bytes option list \<Rightarrow> nat list \<Rightarrow> bytes option list \<times> nat list" where
  "dict_loop [] index distinct_vals codes = (distinct_vals, codes)"
| "dict_loop (v # vs) index distinct_vals codes =
     (case index v of
        Some c \<Rightarrow> dict_loop vs index distinct_vals (codes @ [c])
      | None \<Rightarrow> (let c = length distinct_vals
                 in dict_loop vs (index(v \<mapsto> c)) (distinct_vals @ [v]) (codes @ [c])))"

definition push_code :: "nat \<Rightarrow> nat \<Rightarrow> bytes" where
  "push_code code code_width = take code_width (u32_le (of_nat code))"

definition build_dict_payload :: "bytes option list \<Rightarrow> bytes option" where
  "build_dict_payload vs =
     (if vs = [] then None
      else let (distinct_vals, codes) = dict_loop vs Map.empty [] [] in
           if length distinct_vals = length vs then None
           else let code_width = code_width_for (length distinct_vals) in
                Some ([of_nat code_width] @ u32_le (of_nat (length distinct_vals)) @
                      concat (map cell_bytes distinct_vals) @ concat (map (\<lambda>c. push_code c code_width) codes)))"

definition plain_size :: "bytes option list \<Rightarrow> nat" where
  "plain_size vs = sum_list (map (\<lambda>v. 4 + (case v of None \<Rightarrow> 0 | Some b \<Rightarrow> length b)) vs)"

definition encode_bytes_values :: "bytes option list \<Rightarrow> bool \<Rightarrow> segment_error + encoded_column" where
  "encode_bytes_values vs use_dict =
     result_bind (bytes_minmax vs None None) (\<lambda>(lo, hi).
       let stat_min = (case lo of None \<Rightarrow> Absent | Some m \<Rightarrow> bound_or_unbounded (bounded_min_prefix m));
           stat_max = (case hi of None \<Rightarrow> Absent | Some m \<Rightarrow> bound_or_unbounded (bounded_max_prefix m));
           (codec, payload) =
             (case (if use_dict then build_dict_payload vs else None) of
                Some dict \<Rightarrow> if length dict < plain_size vs then (Dict, dict) else (Plain, encode_plain_bytes vs)
              | None \<Rightarrow> (Plain, encode_plain_bytes vs))
       in Inr \<lparr>ec_codec = codec, ec_payload = payload, ec_stat_min = stat_min, ec_stat_max = stat_max\<rparr>)"

definition i64_minmax :: "i64 option \<times> i64 option \<Rightarrow> i64 \<Rightarrow> i64 option \<times> i64 option" where
  "i64_minmax lh v =
     (Some (case fst lh of None \<Rightarrow> v | Some m \<Rightarrow> min m v), Some (case snd lh of None \<Rightarrow> v | Some m \<Rightarrow> max m v))"

definition encode_i64_values :: "i64 list \<Rightarrow> encoded_column" where
  "encode_i64_values vs =
     (let (lo, hi) = foldl i64_minmax (None, None) vs;
          stat = (\<lambda>b. case b of None \<Rightarrow> Absent | Some v \<Rightarrow> StatValue (i64_le v))
      in \<lparr>ec_codec = Plain, ec_payload = concat (map i64_le vs), ec_stat_min = stat lo, ec_stat_max = stat hi\<rparr>)"

section \<open>The cursor and the decoders\<close>

record parser =
  pa_bytes :: bytes
  pa_cursor :: nat

type_synonym 'a parsed = "segment_error + 'a \<times> parser"

definition parser_new :: "bytes \<Rightarrow> parser" where
  "parser_new bs = \<lparr>pa_bytes = bs, pa_cursor = 0\<rparr>"

definition parser_is_empty :: "parser \<Rightarrow> bool" where
  "parser_is_empty p \<longleftrightarrow> pa_cursor p = length (pa_bytes p)"

definition parser_take :: "nat \<Rightarrow> parser \<Rightarrow> bytes parsed" where
  "parser_take n p =
     (let stop = pa_cursor p + n in
      if 2 ^ 64 \<le> stop then Inl (SegCorrupt ''parser offset overflow'')
      else if length (pa_bytes p) < stop then Inl (SegCorrupt ''short read parsing footer/chunk'')
      else Inr (sub_slice (pa_cursor p) stop (pa_bytes p), p\<lparr>pa_cursor := stop\<rparr>))"

definition parser_u8 :: "parser \<Rightarrow> u8 parsed" where
  "parser_u8 p = result_bind (parser_take 1 p) (\<lambda>(bs, p). Inr (bs ! 0, p))"

definition parser_u16 :: "parser \<Rightarrow> 16 word parsed" where
  "parser_u16 p = result_bind (parser_take 2 p) (\<lambda>(bs, p). Inr (from_le bs, p))"

definition parser_u32 :: "parser \<Rightarrow> u32 parsed" where
  "parser_u32 p = result_bind (parser_take 4 p) (\<lambda>(bs, p). Inr (from_le bs, p))"

definition parser_u64 :: "parser \<Rightarrow> u64 parsed" where
  "parser_u64 p = result_bind (parser_take 8 p) (\<lambda>(bs, p). Inr (from_le bs, p))"

text \<open>\<open>bytes\<close> is \<open>take\<close>; \<open>code\<close> widens a little-endian code with zero bytes.\<close>

definition parser_code :: "nat \<Rightarrow> parser \<Rightarrow> u32 parsed" where
  "parser_code code_width p =
     result_bind (parser_take code_width p) (\<lambda>(bs, p). Inr (from_le (bs @ replicate (4 - code_width) 0), p))"

text \<open>\<open>for _ in 0..n\<close> with one item pushed per turn.\<close>

fun parse_n :: "nat \<Rightarrow> (parser \<Rightarrow> 'a parsed) \<Rightarrow> parser \<Rightarrow> 'a list parsed" where
  "parse_n 0 f p = Inr ([], p)"
| "parse_n (Suc n) f p =
     result_bind (f p) (\<lambda>(x, p). result_bind (parse_n n f p) (\<lambda>(xs, p). Inr (x # xs, p)))"

definition MAX_DECODED_CHUNK_LEN :: nat where
  "MAX_DECODED_CHUNK_LEN = 4 * 1024 * 1024 * 1024"

text \<open>The loop bodies of the three byte-column decoders.\<close>

definition parse_present :: "parser \<Rightarrow> bytes parsed" where
  "parse_present p = result_bind (parser_u32 p) (\<lambda>(len, p). parser_take (unat len) p)"

definition parse_nullable :: "parser \<Rightarrow> bytes option parsed" where
  "parse_nullable p =
     result_bind (parser_u32 p) (\<lambda>(len, p).
       if len = BYTES_NULL_SENTINEL then Inr (None, p)
       else result_bind (parser_take (unat len) p) (\<lambda>(bs, p). Inr (Some bs, p)))"

definition parse_dict_entry :: "parser \<Rightarrow> bytes option parsed" where
  "parse_dict_entry p =
     result_bind (parser_u32 p) (\<lambda>(len, p).
       if len = BYTES_NULL_SENTINEL then Inr (None, p)
       else if MAX_VERSION_FRAME_LEN < unat len then Inl (SegTooLarge ''dictionary entry exceeds frame limit'')
       else result_bind (parser_take (unat len) p) (\<lambda>(bs, p). Inr (Some bs, p)))"

definition usize_saturating_add :: "nat \<Rightarrow> nat \<Rightarrow> nat" where
  "usize_saturating_add a b = min (a + b) (2 ^ 64 - 1)"

fun expand_codes :: "nat \<Rightarrow> nat \<Rightarrow> bytes option list \<Rightarrow> nat \<Rightarrow> parser \<Rightarrow> bytes option list parsed" where
  "expand_codes 0 code_width dict expanded p = Inr ([], p)"
| "expand_codes (Suc n) code_width dict expanded p =
     result_bind (parser_code code_width p) (\<lambda>(code, p).
       if length dict \<le> unat code then Inl (SegCorrupt ''dictionary code out of range'')
       else let entry = dict ! unat code;
                expanded = (case entry of None \<Rightarrow> expanded | Some b \<Rightarrow> usize_saturating_add expanded (length b))
            in if entry \<noteq> None \<and> MAX_DECODED_CHUNK_LEN < expanded
               then Inl (SegTooLarge ''dictionary column expands past the decode limit'')
               else result_bind (expand_codes n code_width dict expanded p) (\<lambda>(cells, p). Inr (entry # cells, p)))"

definition decode_dict_bytes_chunk :: "bytes \<Rightarrow> u32 \<Rightarrow> bytes option list \<Rightarrow> segment_error + bytes option list" where
  "decode_dict_bytes_chunk payload value_count out =
     result_bind (parser_u8 (parser_new payload)) (\<lambda>(w, p).
       let code_width = unat w in
       if code_width \<notin> {1, 2, 4} then Inl (SegCorrupt ''invalid dictionary code width'')
       else result_bind (parser_u32 p) (\<lambda>(dict_count, p).
         if code_width < code_width_for (unat dict_count)
         then Inl (SegCorrupt ''dictionary code width too narrow for dictionary size'')
         else result_bind (parse_n (unat dict_count) parse_dict_entry p) (\<lambda>(dict, p).
           result_bind (expand_codes (unat value_count) code_width dict 0 p) (\<lambda>(cells, p).
             if \<not> parser_is_empty p then Inl (SegCorrupt ''trailing bytes in dictionary column'')
             else Inr (out @ cells)))))"

definition decode_bytes_chunk :: "bytes \<Rightarrow> u32 \<Rightarrow> bytes list \<Rightarrow> segment_error + bytes list" where
  "decode_bytes_chunk payload value_count out =
     result_bind (parse_n (unat value_count) parse_present (parser_new payload)) (\<lambda>(cells, p).
       if \<not> parser_is_empty p then Inl (SegCorrupt ''trailing bytes in bytes column'') else Inr (out @ cells))"

definition decode_nullable_bytes_chunk :: "bytes \<Rightarrow> u32 \<Rightarrow> bytes option list \<Rightarrow> segment_error + bytes option list" where
  "decode_nullable_bytes_chunk payload value_count out =
     result_bind (parse_n (unat value_count) parse_nullable (parser_new payload)) (\<lambda>(cells, p).
       if \<not> parser_is_empty p then Inl (SegCorrupt ''trailing bytes in bytes column'') else Inr (out @ cells))"

definition decode_i64_chunk :: "bytes \<Rightarrow> u32 \<Rightarrow> i64 list \<Rightarrow> segment_error + i64 list" where
  "decode_i64_chunk payload value_count out =
     (if length payload \<noteq> unat value_count * 8 then Inl (SegCorrupt ''i64 column payload length is not value_count * 8'')
      else Inr (out @ map (\<lambda>i. i64_of_le (sub_slice (i * 8) (i * 8 + 8) payload)) [0..<unat value_count]))"

definition append_nullable_bytes_cells :: "codec \<Rightarrow> bytes \<Rightarrow> u32 \<Rightarrow> bytes option list \<Rightarrow> segment_error + bytes option list" where
  "append_nullable_bytes_cells codec payload value_count out =
     (case codec of
        Plain \<Rightarrow> decode_nullable_bytes_chunk payload value_count out
      | Dict \<Rightarrow> decode_dict_bytes_chunk payload value_count out)"

fun push_present :: "bytes option list \<Rightarrow> bytes list \<Rightarrow> segment_error + bytes list" where
  "push_present [] out = Inr out"
| "push_present (Some v # cells) out = push_present cells (out @ [v])"
| "push_present (None # cells) out = Inl (SegCorrupt ''NULL cell in a non-nullable dictionary column'')"

definition append_present_bytes_cells :: "codec \<Rightarrow> bytes \<Rightarrow> u32 \<Rightarrow> bytes list \<Rightarrow> segment_error + bytes list" where
  "append_present_bytes_cells codec payload value_count out =
     (case codec of
        Plain \<Rightarrow> decode_bytes_chunk payload value_count out
      | Dict \<Rightarrow> result_bind (decode_dict_bytes_chunk payload value_count []) (\<lambda>cells. push_present cells out))"

definition append_i64_cells :: "codec \<Rightarrow> bytes \<Rightarrow> u32 \<Rightarrow> i64 list \<Rightarrow> segment_error + i64 list" where
  "append_i64_cells codec payload value_count out =
     (case codec of
        Plain \<Rightarrow> decode_i64_chunk payload value_count out
      | Dict \<Rightarrow> Inl (SegCorrupt ''dictionary codec on an i64 column''))"

section \<open>The cursor over known bytes\<close>

definition parser_at :: "bytes \<Rightarrow> bytes \<Rightarrow> parser" where
  "parser_at pre post = \<lparr>pa_bytes = pre @ post, pa_cursor = length pre\<rparr>"

lemma parser_new_at: "parser_new bs = parser_at [] bs"
  by (simp add: parser_new_def parser_at_def)

lemma parser_at_empty [simp]: "parser_is_empty (parser_at pre post) \<longleftrightarrow> post = []"
  by (simp add: parser_is_empty_def parser_at_def)

lemma parser_take_at:
  "length xs = n \<Longrightarrow> length pre + n < 2 ^ 64 \<Longrightarrow> parser_take n (parser_at pre (xs @ post)) = Inr (xs, parser_at (pre @ xs) post)"
  by (simp add: parser_take_def parser_at_def sub_slice_def)

lemma parser_word_at:
  "length pre + 1 < 2 ^ 64 \<Longrightarrow> parser_u8 (parser_at pre (b # post)) = Inr (b, parser_at (pre @ [b]) post)"
  "length pre + 2 < 2 ^ 64 \<Longrightarrow> parser_u16 (parser_at pre (word_le 2 h @ post)) = Inr (h, parser_at (pre @ word_le 2 h) post)"
  "length pre + 4 < 2 ^ 64 \<Longrightarrow> parser_u32 (parser_at pre (u32_le w @ post)) = Inr (w, parser_at (pre @ u32_le w) post)"
  "length pre + 8 < 2 ^ 64 \<Longrightarrow> parser_u64 (parser_at pre (u64_le d @ post)) = Inr (d, parser_at (pre @ u64_le d) post)"
  using parser_take_at [of "[b]" 1 pre post]
  by (simp_all add: parser_u8_def parser_u16_def parser_u32_def parser_u64_def parser_take_at from_le_word_le)

lemma parse_n_at:
  assumes "\<And>x pre post. x \<in> set xs \<Longrightarrow> length pre + length (enc x) < 2 ^ 64 \<Longrightarrow>
      f (parser_at pre (enc x @ post)) = Inr (x, parser_at (pre @ enc x) post)"
    and "length pre + length (concat (map enc xs)) < 2 ^ 64" "length xs = n"
  shows "parse_n n f (parser_at pre (concat (map enc xs) @ post)) = Inr (xs, parser_at (pre @ concat (map enc xs)) post)"
  using assms
proof (induction xs arbitrary: n pre)
  case (Cons x xs)
  from Cons.prems(3) obtain m where n: "n = Suc m" "length xs = m" by (cases n) auto
  have "f (parser_at pre (enc x @ concat (map enc xs) @ post)) = Inr (x, parser_at (pre @ enc x) (concat (map enc xs) @ post))"
    using Cons.prems(2) by (intro Cons.prems(1)) simp_all
  moreover have "parse_n m f (parser_at (pre @ enc x) (concat (map enc xs) @ post)) =
      Inr (xs, parser_at ((pre @ enc x) @ concat (map enc xs)) post)"
    using Cons.prems n(2) by (intro Cons.IH) simp_all
  ultimately show ?case by (simp add: n(1))
qed simp

section \<open>Decoding what was encoded\<close>

definition cell_fits :: "nat \<Rightarrow> bytes option \<Rightarrow> bool" where
  "cell_fits limit v = (case v of None \<Rightarrow> True | Some b \<Rightarrow> length b \<le> limit)"

lemma sentinel_free: "n < 2 ^ 32 - 1 \<Longrightarrow> (of_nat n :: u32) \<noteq> BYTES_NULL_SENTINEL"
proof
  assume n: "n < 2 ^ 32 - 1" "(of_nat n :: u32) = BYTES_NULL_SENTINEL"
  then have "unat (of_nat n :: u32) = unat BYTES_NULL_SENTINEL" by simp
  with n(1) show False by (simp add: BYTES_NULL_SENTINEL_def)
qed

lemma parse_nullable_at:
  assumes "cell_fits (2 ^ 32 - 2) v" "length pre + length (cell_bytes v) < 2 ^ 64"
  shows "parse_nullable (parser_at pre (cell_bytes v @ post)) = Inr (v, parser_at (pre @ cell_bytes v) post)"
proof (cases v)
  case (Some b)
  then have "(of_nat (length b) :: u32) \<noteq> BYTES_NULL_SENTINEL" "length b < 2 ^ 32" "length pre + 4 + length b < 2 ^ 64"
    using assms by (auto simp: cell_fits_def cell_bytes_def intro!: sentinel_free)
  then show ?thesis by (simp add: Some parse_nullable_def cell_bytes_def parser_word_at parser_take_at)
qed (use assms in \<open>simp_all add: parse_nullable_def cell_bytes_def parser_word_at\<close>)

lemma parse_dict_entry_at:
  assumes "cell_fits MAX_VERSION_FRAME_LEN v" "length pre + length (cell_bytes v) < 2 ^ 64"
  shows "parse_dict_entry (parser_at pre (cell_bytes v @ post)) = Inr (v, parser_at (pre @ cell_bytes v) post)"
proof (cases v)
  case (Some b)
  then have "length b \<le> MAX_VERSION_FRAME_LEN" "length pre + 4 + length b < 2 ^ 64"
    using assms by (auto simp: cell_fits_def cell_bytes_def)
  moreover from this have "(of_nat (length b) :: u32) \<noteq> BYTES_NULL_SENTINEL" "length b < 2 ^ 32"
    by (auto simp: MAX_VERSION_FRAME_LEN_def intro!: sentinel_free)
  ultimately show ?thesis by (simp add: Some parse_dict_entry_def cell_bytes_def parser_word_at parser_take_at)
qed (use assms in \<open>simp_all add: parse_dict_entry_def cell_bytes_def parser_word_at\<close>)

lemma parse_present_at:
  assumes "length b < 2 ^ 32" "length pre + length (cell_bytes (Some b)) < 2 ^ 64"
  shows "parse_present (parser_at pre (cell_bytes (Some b) @ post)) = Inr (b, parser_at (pre @ cell_bytes (Some b)) post)"
  using assms by (simp add: parse_present_def cell_bytes_def parser_word_at parser_take_at)

lemma decode_plain_nullable:
  assumes "\<forall>v \<in> set vs. cell_fits (2 ^ 32 - 2) v" "length (encode_plain_bytes vs) < 2 ^ 64" "length vs < 2 ^ 32"
  shows "decode_nullable_bytes_chunk (encode_plain_bytes vs) (of_nat (length vs)) out = Inr (out @ vs)"
proof -
  have "parse_n (length vs) parse_nullable (parser_at [] (concat (map cell_bytes vs) @ [])) =
      Inr (vs, parser_at ([] @ concat (map cell_bytes vs)) [])"
    using assms by (intro parse_n_at parse_nullable_at) (auto simp: encode_plain_bytes_def)
  then show ?thesis using assms(3) by (simp add: decode_nullable_bytes_chunk_def parser_new_at encode_plain_bytes_def)
qed

lemma decode_plain_present:
  assumes "\<forall>b \<in> set bs. length b < 2 ^ 32" "length (encode_plain_bytes (map Some bs)) < 2 ^ 64" "length bs < 2 ^ 32"
  shows "decode_bytes_chunk (encode_plain_bytes (map Some bs)) (of_nat (length bs)) out = Inr (out @ bs)"
proof -
  have "parse_n (length bs) parse_present (parser_at [] (concat (map (\<lambda>b. cell_bytes (Some b)) bs) @ [])) =
      Inr (bs, parser_at ([] @ concat (map (\<lambda>b. cell_bytes (Some b)) bs)) [])"
    using assms by (intro parse_n_at parse_present_at) (auto simp: encode_plain_bytes_def comp_def)
  then show ?thesis using assms(3) by (simp add: decode_bytes_chunk_def parser_new_at encode_plain_bytes_def comp_def)
qed

lemma length_concat_fixed: "\<forall>x \<in> set xs. length (f x) = n \<Longrightarrow> length (concat (map f xs)) = length xs * n"
  by (induction xs) auto

lemma sub_slice_concat:
  assumes "i < length xs" "\<forall>x \<in> set xs. length (f x) = n"
  shows "sub_slice (i * n) (i * n + n) (concat (map f xs)) = f (xs ! i)"
proof -
  have "concat (map f xs) = concat (map f (take i xs)) @ f (xs ! i) @ concat (map f (drop (Suc i) xs))"
    using assms(1) by (metis Cons_nth_drop_Suc append_take_drop_id concat.simps(2) concat_append list.simps(9) map_append)
  moreover have "length (concat (map f (take i xs))) = i * n"
    using assms by (subst length_concat_fixed [of _ _ n]) (auto dest: in_set_takeD)
  moreover have "length (f (xs ! i)) = n" using assms by simp
  ultimately show ?thesis by (simp add: sub_slice_def)
qed

lemma decode_i64_encoded:
  assumes "length vs < 2 ^ 32"
  shows "decode_i64_chunk (concat (map i64_le vs)) (of_nat (length vs)) out = Inr (out @ vs)"
proof -
  have "map (\<lambda>i. i64_of_le (sub_slice (i * 8) (i * 8 + 8) (concat (map i64_le vs)))) [0..<length vs] = vs"
    by (rule nth_equalityI) (simp_all add: sub_slice_concat)
  then show ?thesis using assms by (simp add: decode_i64_chunk_def length_concat_fixed [of _ _ 8])
qed

subsection \<open>Dictionaries\<close>

lemma from_le_pad: "from_le (bs @ replicate k 0) = from_le bs"
  by (rule bit_word_eqI) (auto simp: bit_from_le nth_append)

lemma from_le_take_word:
  assumes "unat c < 2 ^ (8 * w)" "w \<le> 4"
  shows "from_le (take w (u32_le c)) = (c :: u32)"
proof (rule bit_word_eqI)
  fix n assume n: "n < LENGTH(32)"
  have "\<not> bit c n" if "8 * w \<le> n"
  proof -
    have "unat c < 2 ^ n" using assms(1) that by (meson less_le_trans one_le_numeral power_increasing)
    then have "\<not> bit (unat c) n" by (simp add: bit_iff_odd)
    then show ?thesis by (simp add: bit_unsigned_iff)
  qed
  moreover have "n div 8 < w \<longleftrightarrow> n < 8 * w" by auto
  ultimately show "bit (from_le (take w (u32_le c)) :: u32) n = bit c n"
    using n assms(2) by (auto simp: bit_from_le word_le_def take_map bit_ucast_iff bit_drop_bit_eq)
qed

lemma code_width_bound: "n < 2 ^ 32 \<Longrightarrow> c < n \<Longrightarrow> c < 2 ^ (8 * code_width_for n)"
  by (auto simp: code_width_for_def split: if_splits)

lemma code_width_in: "code_width_for n \<in> {1, 2, 4}"
  by (simp add: code_width_for_def)

lemma parser_code_at:
  assumes "c < n" "n < 2 ^ 32" "w = code_width_for n" "length pre + w < 2 ^ 64"
  shows "parser_code w (parser_at pre (push_code c w @ post)) = Inr (of_nat c, parser_at (pre @ push_code c w) post)"
proof -
  have "w \<le> 4" using code_width_in [of n] assms(3) by auto
  moreover have "unat (of_nat c :: u32) < 2 ^ (8 * w)" using code_width_bound assms by simp
  ultimately show ?thesis
    using assms(4) by (simp add: parser_code_def parser_take_at push_code_def from_le_pad from_le_take_word)
qed

text \<open>The dictionary's index agrees with its entries, and the codes spell the values.\<close>

definition dict_inv :: "(bytes option \<rightharpoonup> nat) \<Rightarrow> bytes option list \<Rightarrow> bool" where
  "dict_inv index ds \<longleftrightarrow> (\<forall>v c. index v = Some c \<longrightarrow> c < length ds \<and> ds ! c = v)"

lemma dict_loop_spec:
  assumes "dict_inv index ds" "dict_loop vs index ds codes = (ds', codes')"
  shows "\<exists>new cs. ds' = ds @ new \<and> codes' = codes @ cs \<and> length cs = length vs \<and> set new \<subseteq> set vs \<and>
    (\<forall>c \<in> set cs. c < length ds') \<and> map (nth ds') cs = vs \<and> length new \<le> length vs"
  using assms
proof (induction vs index ds codes rule: dict_loop.induct)
  case (2 v vs index ds codes)
  show ?case
  proof (cases "index v")
    case (Some c)
    have "dict_loop vs index ds (codes @ [c]) = (ds', codes')" using 2(4) Some by simp
    from 2(2) [OF Some 2(3) this] obtain new cs where r: "ds' = ds @ new" "codes' = (codes @ [c]) @ cs" "length cs = length vs" "set new \<subseteq> set vs"
      "\<forall>c \<in> set cs. c < length ds'" "map (nth ds') cs = vs" "length new \<le> length vs" by blast
    moreover have "c < length ds" "ds ! c = v" using Some 2(3) by (auto simp: dict_inv_def)
    ultimately show ?thesis by (intro exI [of _ new] exI [of _ "c # cs"]) (auto simp: nth_append)
  next
    case None
    have inv: "dict_inv (index(v \<mapsto> length ds)) (ds @ [v])" using 2(3) by (auto simp: dict_inv_def nth_append intro: less_SucI)
    have "dict_loop vs (index(v \<mapsto> length ds)) (ds @ [v]) (codes @ [length ds]) = (ds', codes')" using 2(4) None by (simp add: Let_def)
    from 2(1) [OF None refl inv this] obtain new cs where r: "ds' = (ds @ [v]) @ new" "codes' = (codes @ [length ds]) @ cs" "length cs = length vs"
      "set new \<subseteq> set vs" "\<forall>c \<in> set cs. c < length ds'" "map (nth ds') cs = vs" "length new \<le> length vs" by blast
    then show ?thesis by (intro exI [of _ "v # new"] exI [of _ "length ds # cs"]) (auto simp: nth_append)
  qed
qed simp

definition expansion :: "bytes option list \<Rightarrow> nat" where
  "expansion vs = sum_list (map (\<lambda>v. case v of None \<Rightarrow> 0 | Some b \<Rightarrow> length b) vs)"

lemma expand_codes_at:
  assumes "\<forall>c \<in> set cs. c < length dict" "length dict < 2 ^ 32" "w = code_width_for (length dict)"
    and "length pre + length (concat (map (\<lambda>c. push_code c w) cs)) < 2 ^ 64"
    and "expanded + expansion (map (nth dict) cs) \<le> MAX_DECODED_CHUNK_LEN"
  shows "expand_codes (length cs) w dict expanded (parser_at pre (concat (map (\<lambda>c. push_code c w) cs) @ post)) =
    Inr (map (nth dict) cs, parser_at (pre @ concat (map (\<lambda>c. push_code c w) cs)) post)"
  using assms
proof (induction cs arbitrary: pre expanded)
  case (Cons c cs)
  let ?rest = "concat (map (\<lambda>c. push_code c w) cs)"
  let ?e = "expanded + (case dict ! c of None \<Rightarrow> 0 | Some b \<Rightarrow> length b)"
  have w: "w \<le> 4" using code_width_in [of "length dict"] Cons.prems(3) by auto
  then have len: "length (push_code c w) = w" by (simp add: push_code_def)
  have c: "c < length dict" "unat (of_nat c :: u32) = c" using Cons.prems(1,2) by auto
  have code: "parser_code w (parser_at pre (push_code c w @ ?rest @ post)) = Inr (of_nat c, parser_at (pre @ push_code c w) (?rest @ post))"
    using Cons.prems c(1) len by (intro parser_code_at) auto
  have e: "?e + expansion (map (nth dict) cs) \<le> MAX_DECODED_CHUNK_LEN" using Cons.prems(5) by (simp add: expansion_def)
  have "expand_codes (length cs) w dict ?e (parser_at (pre @ push_code c w) (?rest @ post)) =
      Inr (map (nth dict) cs, parser_at ((pre @ push_code c w) @ ?rest) post)"
    using Cons.prems e by (intro Cons.IH) auto
  moreover have "usize_saturating_add expanded (length b) = ?e \<and> ?e \<le> MAX_DECODED_CHUNK_LEN" if "dict ! c = Some b" for b
    using e that by (auto simp: usize_saturating_add_def MAX_DECODED_CHUNK_LEN_def)
  ultimately show ?case
    using code c by (cases "dict ! c") (auto simp: Let_def)
qed simp

lemma dict_payload_form:
  assumes "build_dict_payload vs = Some payload" "length vs < 2 ^ 32"
  obtains ds cs where "payload = [of_nat (code_width_for (length ds))] @ u32_le (of_nat (length ds)) @
      concat (map cell_bytes ds) @ concat (map (\<lambda>c. push_code c (code_width_for (length ds))) cs)"
    and "map (nth ds) cs = vs" "length cs = length vs" "\<forall>c \<in> set cs. c < length ds" "set ds \<subseteq> set vs" "length ds < 2 ^ 32"
proof -
  obtain ds cs where l: "dict_loop vs Map.empty [] [] = (ds, cs)" by fastforce
  have "dict_inv Map.empty []" by (simp add: dict_inv_def)
  note spec = dict_loop_spec [OF this l]
  show ?thesis by (rule that [of ds cs]) (use assms l spec in \<open>auto simp: build_dict_payload_def Let_def split: if_splits\<close>)
qed

lemma decode_dict_encoded:
  assumes "build_dict_payload vs = Some payload" "length vs < 2 ^ 32" "\<forall>v \<in> set vs. cell_fits MAX_VERSION_FRAME_LEN v"
    and "expansion vs \<le> MAX_DECODED_CHUNK_LEN" "length payload < 2 ^ 64"
  shows "decode_dict_bytes_chunk payload (of_nat (length vs)) out = Inr (out @ vs)"
proof -
  obtain ds cs where f: "payload = [of_nat (code_width_for (length ds))] @ u32_le (of_nat (length ds)) @
      concat (map cell_bytes ds) @ concat (map (\<lambda>c. push_code c (code_width_for (length ds))) cs)"
    "map (nth ds) cs = vs" "length cs = length vs" "\<forall>c \<in> set cs. c < length ds" "set ds \<subseteq> set vs" "length ds < 2 ^ 32"
    by (rule dict_payload_form [OF assms(1,2)])
  let ?w = "code_width_for (length ds)" and ?hd = "(of_nat (code_width_for (length ds)) :: u8) # u32_le (of_nat (length ds))"
  let ?ds = "concat (map cell_bytes ds)" and ?cs = "concat (map (\<lambda>c. push_code c (code_width_for (length ds))) cs)"
  have w: "unat (of_nat ?w :: u8) = ?w" "?w = 1 \<or> ?w = 2 \<or> ?w = 4" by (auto simp: code_width_for_def)
  have total: "5 + length ?ds + length ?cs < 2 ^ 64" using assms(5) f(1) by simp
  have "parse_n (length ds) parse_dict_entry (parser_at ?hd (?ds @ ?cs)) = Inr (ds, parser_at (?hd @ ?ds) ?cs)"
    using assms(3) f(5) total by (intro parse_n_at parse_dict_entry_at) auto
  moreover have "expand_codes (length cs) ?w ds 0 (parser_at (?hd @ ?ds) (?cs @ [])) = Inr (map (nth ds) cs, parser_at ((?hd @ ?ds) @ ?cs) [])"
    using f total assms(4) by (intro expand_codes_at) auto
  ultimately show ?thesis
    using w f(2,3,6) assms(2) by (simp add: decode_dict_bytes_chunk_def parser_new_at f(1) parser_word_at Let_def)
qed

subsection \<open>Whole columns\<close>

text \<open>Which byte columns can be read back: lengths below the sentinel, and the limits of dictionary decoding.\<close>

definition column_fits :: "bool \<Rightarrow> bytes option list \<Rightarrow> bool" where
  "column_fits use_dict vs \<longleftrightarrow> length vs < 2 ^ 32 \<and> (\<forall>v \<in> set vs. cell_fits (2 ^ 32 - 2) v) \<and>
     (use_dict \<longrightarrow> (\<forall>v \<in> set vs. cell_fits MAX_VERSION_FRAME_LEN v) \<and> expansion vs \<le> MAX_DECODED_CHUNK_LEN)"

lemma length_plain: "length (encode_plain_bytes vs) = plain_size vs"
  by (induction vs) (simp_all add: encode_plain_bytes_def plain_size_def cell_bytes_def split: option.split)

lemma encode_bytes_payload:
  assumes "encode_bytes_values vs use_dict = Inr enc"
  shows "ec_codec enc = Plain \<and> ec_payload enc = encode_plain_bytes vs \<or>
    use_dict \<and> ec_codec enc = Dict \<and> build_dict_payload vs = Some (ec_payload enc) \<and> length (ec_payload enc) < plain_size vs"
proof -
  obtain lo hi where "bytes_minmax vs None None = Inr (lo, hi)" using assms by (auto simp: encode_bytes_values_def result_bind_Inr)
  then show ?thesis using assms
    by (cases "if use_dict then build_dict_payload vs else None"; cases "use_dict \<and> length (the (build_dict_payload vs)) < plain_size vs")
      (simp_all add: encode_bytes_values_def Let_def split: if_splits, auto)
qed

lemma nullable_column_roundtrip:
  assumes "encode_bytes_values vs use_dict = Inr enc" "column_fits use_dict vs" "length (ec_payload enc) < 2 ^ 64"
  shows "append_nullable_bytes_cells (ec_codec enc) (ec_payload enc) (of_nat (length vs)) out = Inr (out @ vs)"
  using encode_bytes_payload [OF assms(1)] assms(2,3) decode_plain_nullable [of vs out] decode_dict_encoded [of vs "ec_payload enc" out]
  by (auto simp: append_nullable_bytes_cells_def column_fits_def)

lemma push_present_all: "push_present (map Some bs) out = Inr (out @ bs)"
  by (induction bs arbitrary: out) simp_all

lemma present_column_roundtrip:
  assumes "encode_bytes_values (map Some bs) use_dict = Inr enc" "column_fits use_dict (map Some bs)" "length (ec_payload enc) < 2 ^ 64"
  shows "append_present_bytes_cells (ec_codec enc) (ec_payload enc) (of_nat (length bs)) out = Inr (out @ bs)"
  using encode_bytes_payload [OF assms(1)]
proof (elim disjE conjE)
  assume "ec_codec enc = Plain" "ec_payload enc = encode_plain_bytes (map Some bs)"
  moreover have "\<forall>b \<in> set bs. length b < 2 ^ 32" using assms(2) by (auto simp: column_fits_def cell_fits_def)
  ultimately show ?thesis
    using assms(2,3) decode_plain_present [of bs out] by (simp add: append_present_bytes_cells_def column_fits_def)
next
  assume use_dict "ec_codec enc = Dict" "build_dict_payload (map Some bs) = Some (ec_payload enc)" "length (ec_payload enc) < plain_size (map Some bs)"
  moreover from this have "decode_dict_bytes_chunk (ec_payload enc) (of_nat (length (map Some bs))) [] = Inr ([] @ map Some bs)"
    using assms(2,3) by (intro decode_dict_encoded) (auto simp: column_fits_def)
  ultimately show ?thesis by (simp add: append_present_bytes_cells_def push_present_all)
qed

lemma i64_column_roundtrip:
  "length vs < 2 ^ 32 \<Longrightarrow> append_i64_cells (ec_codec (encode_i64_values vs)) (ec_payload (encode_i64_values vs)) (of_nat (length vs)) out = Inr (out @ vs)"
  by (simp add: append_i64_cells_def encode_i64_values_def Let_def decode_i64_encoded split: prod.split)

section \<open>Statistics bound every cell\<close>

lemma prefix_le: "(xs :: bytes) \<le> xs @ ys"
  by (induction xs) simp_all

lemma bounded_min_le: "bounded_min_prefix v \<le> v"
  using prefix_le [of "bounded_min_prefix v" "drop (min (length v) MAX_BYTES_STAT_PREFIX_LEN) v"]
  by (simp add: bounded_min_prefix_def)

lemma bump_last: "(x :: u8) < y \<Longrightarrow> (xs @ [x]) @ zs < xs @ [y]"
  by (induction xs) simp_all

lemma round_up_bound: "round_up p \<noteq> [] \<Longrightarrow> p @ zs < round_up p"
proof (induction p arbitrary: zs rule: round_up.induct)
  case (1 p)
  show ?case
  proof (cases "p = [] \<or> last p < 0xFF")
    case True
    with 1(2) have p: "p \<noteq> []" "last p < 0xFF" by (auto simp: round_up.simps [of p])
    have "last p < last p + 1" using p(2) by (simp add: word_less_nat_alt unat_word_ariths)
    then have "(butlast p @ [last p]) @ zs < butlast p @ [last p + 1]" by (rule bump_last)
    then show ?thesis using p by (simp add: round_up.simps [of p])
  next
    case False
    then have "round_up p = round_up (butlast p)" by (simp add: round_up.simps [of p])
    moreover have "butlast p @ (last p # zs) < round_up (butlast p)" using False 1 \<open>round_up p = _\<close> by simp
    moreover have "butlast p @ (last p # zs) = p @ zs" using False by simp
    ultimately show ?thesis by simp
  qed
qed

lemma bounded_max_ge: "bounded_max_prefix v \<noteq> [] \<Longrightarrow> v \<le> bounded_max_prefix v"
  using round_up_bound [of "take MAX_BYTES_STAT_PREFIX_LEN v" "drop MAX_BYTES_STAT_PREFIX_LEN v"]
  by (auto simp: bounded_max_prefix_def split: if_splits)

definition covers_min :: "bytes option \<Rightarrow> bytes \<Rightarrow> bool" where
  "covers_min lo b = (case lo of None \<Rightarrow> False | Some m \<Rightarrow> m \<le> b)"

definition covers_max :: "bytes option \<Rightarrow> bytes \<Rightarrow> bool" where
  "covers_max hi b = (case hi of None \<Rightarrow> False | Some m \<Rightarrow> b \<le> m)"

lemma bytes_minmax_bounds:
  assumes "bytes_minmax vs lo hi = Inr (lo', hi')" "Some b \<in> set vs \<or> covers_min lo b \<and> covers_max hi b"
  shows "covers_min lo' b \<and> covers_max hi' b"
  using assms
proof (induction vs lo hi rule: bytes_minmax.induct)
  case (3 x vs lo hi)
  let ?lo = "Some (case lo of None \<Rightarrow> x | Some m \<Rightarrow> if x < m then x else m)"
  let ?hi = "Some (case hi of None \<Rightarrow> x | Some m \<Rightarrow> if m < x then x else m)"
  have len: "u32_try_from (length x) \<noteq> None" "bytes_minmax vs ?lo ?hi = Inr (lo', hi')" using 3(2) by (auto split: if_splits)
  have "covers_min ?lo b" if "b = x \<or> covers_min lo b" using that by (auto simp: covers_min_def split: option.splits)
  moreover have "covers_max ?hi b" if "b = x \<or> covers_max hi b" using that by (auto simp: covers_max_def split: option.splits)
  ultimately have "Some b \<in> set vs \<or> covers_min ?lo b \<and> covers_max ?hi b" using 3(3) by auto
  then show ?case by (rule 3(1) [OF len])
qed auto

lemma bytes_minmax_lengths: "bytes_minmax vs lo hi = Inr r \<Longrightarrow> Some b \<in> set vs \<Longrightarrow> length b < 2 ^ 32"
  by (induction vs lo hi rule: bytes_minmax.induct) (auto simp: u32_try_from_def split: if_splits)

text \<open>The recorded ends, as the reader materialises them.\<close>

definition stat_end :: "column_type \<Rightarrow> stat_bound \<Rightarrow> zone_end option" where
  "stat_end ty b =
     (case b of
        Absent \<Rightarrow> None
      | StatUnbounded \<Rightarrow> Some ZUnbounded
      | StatValue v \<Rightarrow> Some (ZValue (case ty of TyBytes \<Rightarrow> ZBytes v | TyI64 \<Rightarrow> ZI64 (i64_of_le v))))"

definition stats_cover :: "column_type \<Rightarrow> encoded_column \<Rightarrow> zone_bound \<Rightarrow> bool" where
  "stats_cover ty enc x \<longleftrightarrow>
     (\<exists>lo hi. stat_end ty (ec_stat_min enc) = Some lo \<and> stat_end ty (ec_stat_max enc) = Some hi \<and>
        \<not> prunes_below lo x \<and> \<not> prunes_above hi x)"

text \<open>A statistic the footer can carry: a value field is never empty, and eight bytes for an integer.\<close>

definition stat_ok :: "column_type \<Rightarrow> stat_bound \<Rightarrow> bool" where
  "stat_ok ty b =
     (case b of
        Absent \<Rightarrow> True
      | StatUnbounded \<Rightarrow> ty = TyBytes
      | StatValue v \<Rightarrow> v \<noteq> [] \<and> length v \<le> MAX_BYTES_STAT_PREFIX_LEN \<and> (ty = TyI64 \<longrightarrow> length v = 8))"

lemma encode_bytes_stats:
  assumes "encode_bytes_values vs use_dict = Inr enc"
  obtains lo hi where "bytes_minmax vs None None = Inr (lo, hi)"
    and "ec_stat_min enc = (case lo of None \<Rightarrow> Absent | Some m \<Rightarrow> bound_or_unbounded (bounded_min_prefix m))"
    and "ec_stat_max enc = (case hi of None \<Rightarrow> Absent | Some m \<Rightarrow> bound_or_unbounded (bounded_max_prefix m))"
  using assms by (auto simp: encode_bytes_values_def result_bind_Inr Let_def case_prod_unfold)

lemma bytes_stats_cover:
  assumes "encode_bytes_values vs use_dict = Inr enc" "Some b \<in> set vs"
  shows "stats_cover TyBytes enc (ZBytes b)"
proof -
  obtain lo hi where mm: "bytes_minmax vs None None = Inr (lo, hi)"
    and st: "ec_stat_min enc = (case lo of None \<Rightarrow> Absent | Some m \<Rightarrow> bound_or_unbounded (bounded_min_prefix m))"
      "ec_stat_max enc = (case hi of None \<Rightarrow> Absent | Some m \<Rightarrow> bound_or_unbounded (bounded_max_prefix m))"
    by (rule encode_bytes_stats [OF assms(1)])
  have "covers_min lo b" "covers_max hi b" using bytes_minmax_bounds [OF mm, of b] assms(2) by simp_all
  then obtain l h where lh: "lo = Some l" "l \<le> b" "hi = Some h" "b \<le> h" by (auto simp: covers_min_def covers_max_def split: option.splits)
  have "bounded_min_prefix l \<le> b" using bounded_min_le [of l] lh(2) by (rule order_trans)
  moreover have "bounded_max_prefix h \<noteq> [] \<Longrightarrow> b \<le> bounded_max_prefix h" using bounded_max_ge [of h] lh(4) by (rule_tac order_trans)
  ultimately show ?thesis
    by (simp add: stats_cover_def st lh bound_or_unbounded_def stat_end_def prunes_below_def prunes_above_def is_below_def is_above_def cmp_cases not_less)
qed

lemma length_round_up: "length (round_up p) \<le> length p"
proof (induction p rule: round_up.induct)
  case (1 p)
  then show ?case by (cases "p = [] \<or> last p < 0xFF") (auto simp: round_up.simps [of p] Suc_le_eq)
qed

lemma bytes_stats_ok:
  assumes "encode_bytes_values vs use_dict = Inr enc"
  shows "stat_ok TyBytes (ec_stat_min enc)" "stat_ok TyBytes (ec_stat_max enc)"
proof -
  have "length (bounded_min_prefix m) \<le> MAX_BYTES_STAT_PREFIX_LEN" "length (bounded_max_prefix m) \<le> MAX_BYTES_STAT_PREFIX_LEN" for m
    using length_round_up [of "take MAX_BYTES_STAT_PREFIX_LEN m"] by (auto simp: bounded_min_prefix_def bounded_max_prefix_def)
  then show "stat_ok TyBytes (ec_stat_min enc)" "stat_ok TyBytes (ec_stat_max enc)"
    by (auto simp: stat_ok_def bound_or_unbounded_def split: option.split intro: encode_bytes_stats [OF assms])
qed

lemma i64_minmax_fold:
  "foldl i64_minmax (Some l, Some h) vs = (Some (Min (insert l (set vs))), Some (Max (insert h (set vs))))"
proof (induction vs arbitrary: l h)
  case (Cons v vs)
  have "Min (insert (min l v) (set vs)) = Min (insert l (insert v (set vs)))" "Max (insert (max h v) (set vs)) = Max (insert h (insert v (set vs)))"
    by (cases "set vs = {}"; simp add: min.assoc max.assoc)+
  moreover have "i64_minmax (Some l, Some h) v = (Some (min l v), Some (max h v))" by (simp add: i64_minmax_def)
  ultimately show ?case by (simp only: foldl_Cons Cons list.set)
qed simp

lemma i64_stats:
  "vs = [] \<Longrightarrow> ec_stat_min (encode_i64_values vs) = Absent \<and> ec_stat_max (encode_i64_values vs) = Absent"
  "vs \<noteq> [] \<Longrightarrow> ec_stat_min (encode_i64_values vs) = StatValue (i64_le (Min (set vs))) \<and>
     ec_stat_max (encode_i64_values vs) = StatValue (i64_le (Max (set vs)))"
proof -
  show "vs = [] \<Longrightarrow> ec_stat_min (encode_i64_values vs) = Absent \<and> ec_stat_max (encode_i64_values vs) = Absent"
    by (simp add: encode_i64_values_def)
  assume "vs \<noteq> []"
  then obtain v ws where vs: "vs = v # ws" by (cases vs) auto
  have "foldl i64_minmax (None, None) vs = (Some (Min (set vs)), Some (Max (set vs)))"
    using i64_minmax_fold [of v v ws] by (simp add: vs i64_minmax_def)
  then show "ec_stat_min (encode_i64_values vs) = StatValue (i64_le (Min (set vs))) \<and>
     ec_stat_max (encode_i64_values vs) = StatValue (i64_le (Max (set vs)))" by (simp add: encode_i64_values_def)
qed

lemma i64_stats_cover: "v \<in> set vs \<Longrightarrow> stats_cover TyI64 (encode_i64_values vs) (ZI64 v)"
  using i64_stats(2) [of vs, OF length_pos_if_in_set [THEN length_greater_0_conv [THEN iffD1]]]
  by (auto simp: stats_cover_def stat_end_def prunes_below_def prunes_above_def is_below_def is_above_def cmp_cases not_less)

lemma i64_stats_ok: "stat_ok TyI64 (ec_stat_min (encode_i64_values vs))" "stat_ok TyI64 (ec_stat_max (encode_i64_values vs))"
proof -
  have "i64_le v \<noteq> []" for v by (metis codec_roundtrips(5) list.size(3) zero_neq_numeral)
  then show "stat_ok TyI64 (ec_stat_min (encode_i64_values vs))" "stat_ok TyI64 (ec_stat_max (encode_i64_values vs))"
    using i64_stats [of vs] by (cases "vs = []"; simp add: stat_ok_def MAX_BYTES_STAT_PREFIX_LEN_def)+
qed

end
