(* ===== verification/Checkpoint.thy ===== *)
theory Checkpoint
  imports Wal Spill_Files
begin

text \<open>
  The recovery checkpoint (\<open>checkpoint.rs\<close>): an append-only file of self-checksummed records, each a
  recovery point, in two formats. \<open>store\<close> appends and syncs one; \<open>load\<close> scans for the last intact one.
\<close>

section \<open>Records\<close>

record recovery_point =
  replay_floor :: log_offset
  durable_fence :: log_offset
  live_segments :: "u64 list"

definition CHECKPOINT_FILENAME :: string where "CHECKPOINT_FILENAME = ''stele.checkpoint''"

text \<open>The magics \<open>STCK\<close> and \<open>STMF\<close>.\<close>

definition LEGACY_MAGIC :: bytes where "LEGACY_MAGIC = [0x53, 0x54, 0x43, 0x4B]"
definition MANIFEST_MAGIC :: bytes where "MANIFEST_MAGIC = [0x53, 0x54, 0x4D, 0x46]"

definition LEGACY_RECORD_LEN :: nat where "LEGACY_RECORD_LEN = 4 + 16 + 16 + 8 + 4"
definition MANIFEST_HEADER_LEN :: nat where "MANIFEST_HEADER_LEN = 4 + 16 + 16 + 4"
definition MAX_LIVE_SEGMENTS :: nat where "MAX_LIVE_SEGMENTS = 2 ^ 20"

text \<open>The two functions write into and read from a zeroed buffer at an offset; here the sixteen bytes themselves.\<close>

definition put_offset :: "log_offset \<Rightarrow> bytes" where
  "put_offset off = u64_le (of_nat (segment_index off)) @ u64_le (of_nat (byte_offset off))"

definition get_offset :: "bytes \<Rightarrow> nat \<Rightarrow> log_offset" where
  "get_offset buf at = LogOffset (unat (u64_of_le (sub_slice at (at + 8) buf))) (unat (u64_of_le (sub_slice (at + 8) (at + 16) buf)))"

text \<open>More than \<open>u32::MAX\<close> live segments panics (\<open>expect\<close>): \<open>None\<close>.\<close>

definition manifest_encode :: "recovery_point \<Rightarrow> bytes option" where
  "manifest_encode point =
     (if length (live_segments point) < 2 ^ 32
      then Some (let body = MANIFEST_MAGIC @ put_offset (replay_floor point) @ put_offset (durable_fence point) @
                   u32_le (of_nat (length (live_segments point))) @ concat (map u64_le (live_segments point))
                 in body @ u32_le (crc32c body))
      else None)"

definition decode_legacy :: "bytes \<Rightarrow> recovery_point option" where
  "decode_legacy buf =
     (let crc_offset = LEGACY_RECORD_LEN - 4; stored = u32_of_le (drop crc_offset buf) in
      if crc32c (take crc_offset buf) \<noteq> stored then None
      else let segment_count = u64_of_le (sub_slice 36 44 buf) in
           if MAX_LIVE_SEGMENTS < unat segment_count then None
           else Some \<lparr>replay_floor = get_offset buf 4, durable_fence = get_offset buf 20,
                      live_segments = map of_nat [0..<unat segment_count]\<rparr>)"

definition manifest_decode :: "bytes \<Rightarrow> recovery_point option" where
  "manifest_decode rec =
     (let crc_offset = length rec - 4; stored = u32_of_le (drop crc_offset rec) in
      if crc32c (take crc_offset rec) \<noteq> stored then None
      else Some \<lparr>replay_floor = get_offset rec 4, durable_fence = get_offset rec 20,
                 live_segments = map u64_of_le (chunks_exact 8 (sub_slice MANIFEST_HEADER_LEN crc_offset rec))\<rparr>)"

section \<open>Storing and loading\<close>

definition checkpoint_store :: "recovery_point \<Rightarrow> mem_disk \<Rightarrow> ((io_error + unit) \<times> mem_disk) option" where
  "checkpoint_store point d =
     (case manifest_encode point of
        None \<Rightarrow> None
      | Some rec \<Rightarrow> Some
          (let write = (\<lambda>f d. case file_append f rec d of
                 (Inl e, d1) \<Rightarrow> (Inl e, d1)
               | (Inr _, d1) \<Rightarrow> file_sync f d1) in
           case disk_open CHECKPOINT_FILENAME d of
             (Inr f, d1) \<Rightarrow> write f d1
           | (Inl e, d1) \<Rightarrow>
               if io_kind e = NotFound
               then (case disk_create CHECKPOINT_FILENAME d1 of
                       (Inl e, d2) \<Rightarrow> (Inl e, d2)
                     | (Inr f, d2) \<Rightarrow>
                         (case disk_sync_dir d2 of
                            (Inl e, d3) \<Rightarrow> (Inl e, snd (disk_remove CHECKPOINT_FILENAME d3))
                          | (Inr _, d3) \<Rightarrow> write f d3))
               else (Inl e, d1)))"

text \<open>The scan: whole records only, up to the first one that does not decode.\<close>

function load_loop :: "file_id \<Rightarrow> nat \<Rightarrow> nat \<Rightarrow> recovery_point option \<Rightarrow> mem_disk \<Rightarrow>
    (io_error + recovery_point option) \<times> mem_disk" where
  "load_loop f len offset found d =
     (if len < offset + MANIFEST_HEADER_LEN then (Inr found, d)
      else case file_read_at f offset MANIFEST_HEADER_LEN d of
        (Inl e, d1) \<Rightarrow> (Inl e, d1)
      | (Inr header, d1) \<Rightarrow>
          if length header < MANIFEST_HEADER_LEN then (Inr found, d1)
          else if take 4 header = LEGACY_MAGIC
          then (if len < offset + LEGACY_RECORD_LEN then (Inr found, d1)
                else case file_read_at f offset LEGACY_RECORD_LEN d1 of
                  (Inl e, d2) \<Rightarrow> (Inl e, d2)
                | (Inr rec, d2) \<Rightarrow>
                    if length rec < LEGACY_RECORD_LEN then (Inr found, d2)
                    else (case decode_legacy rec of
                            None \<Rightarrow> (Inr found, d2)
                          | Some point \<Rightarrow> load_loop f len (offset + LEGACY_RECORD_LEN) (Some point) d2))
          else if take 4 header = MANIFEST_MAGIC
          then (let count = unat (u32_of_le (sub_slice 36 40 header)); record_len = MANIFEST_HEADER_LEN + count * 8 + 4 in
                if MAX_LIVE_SEGMENTS < count then (Inr found, d1)
                else if len < offset + record_len then (Inr found, d1)
                else case file_read_at f offset record_len d1 of
                  (Inl e, d2) \<Rightarrow> (Inl e, d2)
                | (Inr rec, d2) \<Rightarrow>
                    if length rec < record_len then (Inr found, d2)
                    else (case manifest_decode rec of
                            None \<Rightarrow> (Inr found, d2)
                          | Some point \<Rightarrow> load_loop f len (offset + record_len) (Some point) d2))
          else (Inr found, d1))"
  by pat_completeness auto
termination
  by (relation "measure (\<lambda>(f, len, offset, found, d). len - offset)") (auto simp: LEGACY_RECORD_LEN_def MANIFEST_HEADER_LEN_def)

declare load_loop.simps [simp del]

definition checkpoint_load :: "mem_disk \<Rightarrow> (io_error + recovery_point option) \<times> mem_disk" where
  "checkpoint_load d =
     (case disk_open CHECKPOINT_FILENAME d of
        (Inl e, d1) \<Rightarrow> if io_kind e = NotFound then (Inr None, d1) else (Inl e, d1)
      | (Inr f, d1) \<Rightarrow> load_loop f (file_len d1 f) 0 None d1)"

section \<open>The file as a sequence of records\<close>

datatype manifest_record = Manifest recovery_point | Legacy log_offset log_offset u64

fun record_body :: "manifest_record \<Rightarrow> bytes" where
  "record_body (Manifest p) = MANIFEST_MAGIC @ put_offset (replay_floor p) @ put_offset (durable_fence p) @
     u32_le (of_nat (length (live_segments p))) @ concat (map u64_le (live_segments p))"
| "record_body (Legacy fl fe n) = LEGACY_MAGIC @ put_offset fl @ put_offset fe @ u64_le n"

definition manifest_bytes :: "manifest_record \<Rightarrow> bytes" where
  "manifest_bytes r = record_body r @ u32_le (crc32c (record_body r))"

fun record_point :: "manifest_record \<Rightarrow> recovery_point" where
  "record_point (Manifest p) = p"
| "record_point (Legacy fl fe n) = \<lparr>replay_floor = fl, durable_fence = fe, live_segments = map of_nat [0..<unat n]\<rparr>"

definition offset_fits :: "log_offset \<Rightarrow> bool" where
  "offset_fits off \<longleftrightarrow> segment_index off < 2 ^ 64 \<and> byte_offset off < 2 ^ 64"

definition point_fits :: "recovery_point \<Rightarrow> bool" where
  "point_fits p \<longleftrightarrow> offset_fits (replay_floor p) \<and> offset_fits (durable_fence p) \<and> length (live_segments p) \<le> MAX_LIVE_SEGMENTS"

fun record_fits :: "manifest_record \<Rightarrow> bool" where
  "record_fits (Manifest p) \<longleftrightarrow> point_fits p"
| "record_fits (Legacy fl fe n) \<longleftrightarrow> offset_fits fl \<and> offset_fits fe \<and> unat n \<le> MAX_LIVE_SEGMENTS"

text \<open>The last point of a sequence of records.\<close>

definition last_point :: "manifest_record list \<Rightarrow> recovery_point option" where
  "last_point rs = (if rs = [] then None else Some (record_point (last rs)))"

text \<open>Whether bytes begin with an intact record.\<close>

definition starts_record :: "bytes \<Rightarrow> bool" where
  "starts_record bs \<longleftrightarrow> (\<exists>r rest. record_fits r \<and> bs = manifest_bytes r @ rest)"

lemma length_put_offset [simp]: "length (put_offset off) = 16"
  by (simp add: put_offset_def)

lemma length_live [simp]: "length (concat (map u64_le xs)) = 8 * length xs"
  by (induction xs) simp_all

lemma chunks_live: "map u64_of_le (chunks_exact 8 (concat (map u64_le xs))) = xs"
  by (induction xs) (simp_all add: chunks_exact_append chunks_exact_short)

lemma magics: "length LEGACY_MAGIC = 4" "length MANIFEST_MAGIC = 4" "LEGACY_MAGIC \<noteq> MANIFEST_MAGIC"
  by (simp_all add: LEGACY_MAGIC_def MANIFEST_MAGIC_def)

lemma length_manifest_bytes:
  "length (manifest_bytes (Manifest p)) = MANIFEST_HEADER_LEN + length (live_segments p) * 8 + 4"
  "length (manifest_bytes (Legacy fl fe n)) = LEGACY_RECORD_LEN"
  by (simp_all add: manifest_bytes_def magics MANIFEST_HEADER_LEN_def LEGACY_RECORD_LEN_def)

lemma get_put_offset:
  assumes "offset_fits off" "length xs = at"
  shows "get_offset (xs @ put_offset off @ ys) at = off"
  using assms by (cases off) (simp add: get_offset_def put_offset_def offset_fits_def sub_slice_frame unat_u64_of_nat sub_slice_def)

lemma manifest_decode_bytes:
  assumes "point_fits p"
  shows "manifest_decode (manifest_bytes (Manifest p)) = Some p"
proof -
  let ?b = "record_body (Manifest p)"
  have l: "length ?b = 40 + 8 * length (live_segments p)" by (simp add: magics)
  have "get_offset (manifest_bytes (Manifest p)) 4 = replay_floor p"
    using get_put_offset [of "replay_floor p" MANIFEST_MAGIC 4] assms by (simp add: manifest_bytes_def magics point_fits_def)
  moreover have "get_offset (manifest_bytes (Manifest p)) 20 = durable_fence p"
    using get_put_offset [of "durable_fence p" "MANIFEST_MAGIC @ put_offset (replay_floor p)" 20] assms
    by (simp add: manifest_bytes_def magics point_fits_def)
  moreover have "sub_slice MANIFEST_HEADER_LEN (length (manifest_bytes (Manifest p)) - 4) (manifest_bytes (Manifest p)) = concat (map u64_le (live_segments p))"
    by (simp add: manifest_bytes_def sub_slice_def MANIFEST_HEADER_LEN_def magics)
  moreover have "drop (length (manifest_bytes (Manifest p)) - 4) (manifest_bytes (Manifest p)) = u32_le (crc32c ?b)"
    "take (length (manifest_bytes (Manifest p)) - 4) (manifest_bytes (Manifest p)) = ?b"
    by (simp_all add: manifest_bytes_def)
  ultimately show ?thesis by (simp add: manifest_decode_def Let_def chunks_live)
qed

lemma decode_legacy_bytes:
  assumes "record_fits (Legacy fl fe n)"
  shows "decode_legacy (manifest_bytes (Legacy fl fe n)) = Some (record_point (Legacy fl fe n))"
proof -
  let ?b = "record_body (Legacy fl fe n)"
  have "get_offset (manifest_bytes (Legacy fl fe n)) 4 = fl"
    using get_put_offset [of fl LEGACY_MAGIC 4] assms by (simp add: manifest_bytes_def magics)
  moreover have "get_offset (manifest_bytes (Legacy fl fe n)) 20 = fe"
    using get_put_offset [of fe "LEGACY_MAGIC @ put_offset fl" 20] assms by (simp add: manifest_bytes_def magics)
  moreover have "sub_slice 36 44 (manifest_bytes (Legacy fl fe n)) = u64_le n"
    by (simp add: manifest_bytes_def sub_slice_def magics)
  moreover have "drop (LEGACY_RECORD_LEN - 4) (manifest_bytes (Legacy fl fe n)) = u32_le (crc32c ?b)"
    "take (LEGACY_RECORD_LEN - 4) (manifest_bytes (Legacy fl fe n)) = ?b"
    by (simp_all add: manifest_bytes_def LEGACY_RECORD_LEN_def magics)
  ultimately show ?thesis using assms by (simp add: decode_legacy_def Let_def)
qed

section \<open>Scanning\<close>

lemma faultless_read:
  "no_faults d \<Longrightarrow> file_read_at f off n d = (Inr (take n (drop off (md_store d ! f))), d)"
  by (simp add: file_read_at_def disk_check_no_faults Let_def sub_slice_def min_def)

text \<open>One turn of the scan over what lies at the offset.\<close>

lemma load_loop_manifest:
  assumes d: "no_faults d" and c: "md_store d ! f = pre @ bs" and b: "MANIFEST_HEADER_LEN \<le> length bs" "take 4 bs = MANIFEST_MAGIC"
    and n: "n = MANIFEST_HEADER_LEN + unat (u32_of_le (sub_slice 36 40 bs)) * 8 + 4"
  shows "load_loop f (length (md_store d ! f)) (length pre) found d =
     (if MAX_LIVE_SEGMENTS < unat (u32_of_le (sub_slice 36 40 bs)) \<or> length bs < n then (Inr found, d)
      else case manifest_decode (take n bs) of
        None \<Rightarrow> (Inr found, d)
      | Some point \<Rightarrow> load_loop f (length (md_store d ! f)) (length pre + n) (Some point) d)"
proof -
  have h: "take 4 (take MANIFEST_HEADER_LEN bs) = MANIFEST_MAGIC" "sub_slice 36 40 (take MANIFEST_HEADER_LEN bs) = sub_slice 36 40 bs"
    using b by (simp_all add: MANIFEST_HEADER_LEN_def sub_slice_def drop_take min_def)
  have rd: "drop (length pre) (md_store d ! f) = bs" "length (md_store d ! f) = length pre + length bs" by (simp_all add: c)
  show ?thesis
    unfolding load_loop.simps [of f _ "length pre" found d] faultless_read [OF d] rd
    using b(1) unfolding n by (simp add: h magics(3) [symmetric] Let_def faultless_read [OF d] rd(1) del: take_take)
qed

lemma load_loop_legacy:
  assumes d: "no_faults d" and c: "md_store d ! f = pre @ bs" and b: "LEGACY_RECORD_LEN \<le> length bs" "take 4 bs = LEGACY_MAGIC"
  shows "load_loop f (length (md_store d ! f)) (length pre) found d =
     (case decode_legacy (take LEGACY_RECORD_LEN bs) of
        None \<Rightarrow> (Inr found, d)
      | Some point \<Rightarrow> load_loop f (length (md_store d ! f)) (length pre + LEGACY_RECORD_LEN) (Some point) d)"
proof -
  have h: "take 4 (take MANIFEST_HEADER_LEN bs) = LEGACY_MAGIC" "MANIFEST_HEADER_LEN \<le> length bs"
    using b by (simp_all add: MANIFEST_HEADER_LEN_def LEGACY_RECORD_LEN_def min_def)
  have rd: "drop (length pre) (md_store d ! f) = bs" "length (md_store d ! f) = length pre + length bs" by (simp_all add: c)
  show ?thesis
    unfolding load_loop.simps [of f _ "length pre" found d] faultless_read [OF d] rd
    using b(1) h(2) by (simp add: h(1) faultless_read [OF d] rd(1) del: take_take)
qed

lemma manifest_header:
  assumes "point_fits p" "MANIFEST_HEADER_LEN \<le> k"
  shows "take 4 (take k (manifest_bytes (Manifest p))) = MANIFEST_MAGIC"
    "unat (u32_of_le (sub_slice 36 40 (take k (manifest_bytes (Manifest p))))) = length (live_segments p)"
    "length (live_segments p) \<le> MAX_LIVE_SEGMENTS"
proof -
  show "length (live_segments p) \<le> MAX_LIVE_SEGMENTS" using assms(1) by (simp add: point_fits_def)
  have "take 40 (take k (manifest_bytes (Manifest p))) = take 40 (manifest_bytes (Manifest p))"
    using assms(2) by (simp add: MANIFEST_HEADER_LEN_def)
  also have "\<dots> = MANIFEST_MAGIC @ put_offset (replay_floor p) @ put_offset (durable_fence p) @ u32_le (of_nat (length (live_segments p)))"
    by (simp add: manifest_bytes_def magics)
  finally have t: "take 40 (take k (manifest_bytes (Manifest p)))
      = MANIFEST_MAGIC @ put_offset (replay_floor p) @ put_offset (durable_fence p) @ u32_le (of_nat (length (live_segments p)))" .
  have "take 4 (take 40 (take k (manifest_bytes (Manifest p)))) = MANIFEST_MAGIC" unfolding t by (simp add: magics)
  then show "take 4 (take k (manifest_bytes (Manifest p))) = MANIFEST_MAGIC" by (simp add: min_def split: if_splits)
  have "sub_slice 36 40 (take k (manifest_bytes (Manifest p))) = drop 36 (take 40 (take k (manifest_bytes (Manifest p))))"
    using assms(2) by (simp add: sub_slice_def drop_take MANIFEST_HEADER_LEN_def)
  also have "\<dots> = u32_le (of_nat (length (live_segments p)))" unfolding t by (simp add: magics)
  finally show "unat (u32_of_le (sub_slice 36 40 (take k (manifest_bytes (Manifest p))))) = length (live_segments p)"
    using assms(1) by (simp add: point_fits_def unat_u32_of_nat MAX_LIVE_SEGMENTS_def)
qed

lemma load_loop_record:
  assumes d: "no_faults d" and c: "md_store d ! f = pre @ manifest_bytes r @ rest" and r: "record_fits r"
  shows "load_loop f (length (md_store d ! f)) (length pre) found d
      = load_loop f (length (md_store d ! f)) (length pre + length (manifest_bytes r)) (Some (record_point r)) d"
proof (cases r)
  case (Manifest p)
  note len = length_manifest_bytes(1) [of p]
  note h = manifest_header [of p "length (manifest_bytes (Manifest p))"]
  have m: "take 4 (manifest_bytes r @ rest) = MANIFEST_MAGIC" "unat (u32_of_le (sub_slice 36 40 (manifest_bytes r @ rest))) = length (live_segments p)"
    using h r len by (simp_all add: Manifest sub_slice_def MANIFEST_HEADER_LEN_def)
  have tk: "take (MANIFEST_HEADER_LEN + length (live_segments p) * 8 + 4) (manifest_bytes r @ rest) = manifest_bytes r"
    using len by (simp add: Manifest)
  have "MANIFEST_HEADER_LEN \<le> length (manifest_bytes r @ rest)" using len by (simp add: Manifest)
  from load_loop_manifest [OF d c this m(1) refl] show ?thesis
    unfolding m(2) tk using len r h(3) by (simp add: Manifest manifest_decode_bytes)
next
  case (Legacy fl fe n)
  note len = length_manifest_bytes(2) [of fl fe n]
  have "take 4 (manifest_bytes r @ rest) = LEGACY_MAGIC" by (simp add: Legacy manifest_bytes_def magics)
  moreover have "LEGACY_RECORD_LEN \<le> length (manifest_bytes r @ rest)" "take LEGACY_RECORD_LEN (manifest_bytes r @ rest) = manifest_bytes r"
    using len by (simp_all add: Legacy)
  ultimately show ?thesis using load_loop_legacy [OF d c] len decode_legacy_bytes r by (simp add: Legacy)
qed

lemma load_loop_records:
  assumes "no_faults d" "md_store d ! f = pre @ concat (map manifest_bytes rs) @ rest" "list_all record_fits rs"
  shows "load_loop f (length (md_store d ! f)) (length pre) found d
      = load_loop f (length (md_store d ! f)) (length (pre @ concat (map manifest_bytes rs))) (if rs = [] then found else last_point rs) d"
  using assms(2,3)
proof (induction rs arbitrary: pre found)
  case (Cons r rs)
  have "load_loop f (length (md_store d ! f)) (length pre) found d
      = load_loop f (length (md_store d ! f)) (length (pre @ manifest_bytes r)) (Some (record_point r)) d"
    using load_loop_record [OF assms(1), of f pre r "concat (map manifest_bytes rs) @ rest"] Cons.prems by simp
  also have "\<dots> = load_loop f (length (md_store d ! f)) (length ((pre @ manifest_bytes r) @ concat (map manifest_bytes rs)))
      (if rs = [] then Some (record_point r) else last_point rs) d"
    using Cons.prems by (intro Cons.IH) simp_all
  finally show ?case by (simp add: last_point_def)
qed simp

lemma load_loop_torn:
  assumes d: "no_faults d" and c: "md_store d ! f = pre @ take k (manifest_bytes (Manifest p))" and k: "k < length (manifest_bytes (Manifest p))"
    and p: "point_fits p"
  shows "load_loop f (length (md_store d ! f)) (length pre) found d = (Inr found, d)"
proof (cases "k < MANIFEST_HEADER_LEN")
  case True
  then have "length (md_store d ! f) < length pre + MANIFEST_HEADER_LEN" using k by (simp add: c)
  then show ?thesis by (simp add: load_loop.simps [of f _ "length pre" found d])
next
  case False
  let ?bs = "take k (manifest_bytes (Manifest p))"
  have len: "length (manifest_bytes (Manifest p)) = MANIFEST_HEADER_LEN + length (live_segments p) * 8 + 4" by (rule length_manifest_bytes(1))
  note h = manifest_header [OF p, of k]
  from load_loop_manifest [OF d c _ _ refl] False k h len show ?thesis by simp
qed

lemma load_loop_foreign:
  assumes d: "no_faults d" and c: "md_store d ! f = pre @ rest" and m: "take 4 rest \<noteq> LEGACY_MAGIC" "take 4 rest \<noteq> MANIFEST_MAGIC"
  shows "load_loop f (length (md_store d ! f)) (length pre) found d = (Inr found, d)"
proof -
  have "take 4 (take MANIFEST_HEADER_LEN rest) = take 4 rest" by (simp add: MANIFEST_HEADER_LEN_def min_def)
  then show ?thesis using m by (simp add: load_loop.simps [of f _ "length pre" found d] faultless_read [OF d] c)
qed

text \<open>Every record the scan accepts is the bytes of an intact record, so it stops at anything else.\<close>

lemma put_get_offset:
  assumes "at + 16 \<le> length buf"
  shows "put_offset (get_offset buf at) = sub_slice at (at + 16) buf" "offset_fits (get_offset buf at)"
proof -
  have "u64_le (u64_of_le (sub_slice at (at + 8) buf)) = sub_slice at (at + 8) buf"
    "u64_le (u64_of_le (sub_slice (at + 8) (at + 16) buf)) = sub_slice (at + 8) (at + 16) buf"
    using assms by (intro codec_inverse; simp)+
  moreover have "sub_slice at (at + 8) buf @ sub_slice (at + 8) (at + 16) buf = sub_slice at (at + 16) buf"
    using take_add [of 8 8 "drop at buf"] by (simp add: sub_slice_def ac_simps)
  ultimately show "put_offset (get_offset buf at) = sub_slice at (at + 16) buf" by (simp add: put_offset_def get_offset_def)
  show "offset_fits (get_offset buf at)"
    using unsigned_less [of "u64_of_le (sub_slice at (at + 8) buf)"] unsigned_less [of "u64_of_le (sub_slice (at + 8) (at + 16) buf)"]
    by (simp add: offset_fits_def get_offset_def)
qed

lemma live_chunks:
  assumes "length bs = n * 8"
  shows "concat (map u64_le (map u64_of_le (chunks_exact 8 bs))) = bs" "length (chunks_exact 8 bs) = n"
proof -
  have "map (u64_le \<circ> u64_of_le) (chunks_exact 8 bs) = chunks_exact 8 bs"
    by (rule map_idI) (simp add: codec_inverse chunks_exact_length)
  then show "concat (map u64_le (map u64_of_le (chunks_exact 8 bs))) = bs" "length (chunks_exact 8 bs) = n"
    using concat_chunks_exact [OF assms] by simp_all
qed

lemma manifest_decode_inverse:
  assumes "manifest_decode rec = Some p" "take 4 rec = MANIFEST_MAGIC" "unat (u32_of_le (sub_slice 36 40 rec)) = n"
    "length rec = MANIFEST_HEADER_LEN + n * 8 + 4" "n \<le> MAX_LIVE_SEGMENTS"
  shows "rec = manifest_bytes (Manifest p) \<and> record_fits (Manifest p)"
proof -
  let ?k = "length rec - 4"
  have k: "?k = 40 + n * 8" "44 \<le> length rec" using assms(4) by (simp_all add: MANIFEST_HEADER_LEN_def)
  have p: "p = \<lparr>replay_floor = get_offset rec 4, durable_fence = get_offset rec 20, live_segments = map u64_of_le (chunks_exact 8 (sub_slice 40 ?k rec))\<rparr>"
    and crc: "crc32c (take ?k rec) = u32_of_le (drop ?k rec)"
    using assms(1) by (auto simp: manifest_decode_def Let_def MANIFEST_HEADER_LEN_def split: if_splits)
  have "length (sub_slice 40 ?k rec) = n * 8" using k by simp
  note live = live_chunks [OF this]
  have "u32_le (of_nat n) = sub_slice 36 40 rec"
    using codec_inverse(1) [of "sub_slice 36 40 rec"] k unfolding assms(3) [symmetric] by simp
  then have "record_body (Manifest p) = ((((take 4 rec @ sub_slice 4 20 rec) @ sub_slice 20 36 rec) @ sub_slice 36 40 rec) @ sub_slice 40 ?k rec)"
    using put_get_offset(1) [of 4 rec] put_get_offset(1) [of 20 rec] k live assms(2) by (simp add: p)
  also have "\<dots> = take ?k rec" using k by (simp only: take_sub_slice)
  finally have "record_body (Manifest p) = take ?k rec" .
  moreover have "u32_le (crc32c (take ?k rec)) = drop ?k rec" unfolding crc using k by (intro codec_inverse) simp
  ultimately have "rec = manifest_bytes (Manifest p)" by (simp add: manifest_bytes_def del: record_body.simps)
  moreover have "point_fits p" using put_get_offset(2) [of 4 rec] put_get_offset(2) [of 20 rec] k live(2) assms(5) by (simp add: point_fits_def p)
  ultimately show ?thesis by simp
qed

lemma decode_legacy_inverse:
  assumes "decode_legacy rec = Some p" "take 4 rec = LEGACY_MAGIC" "length rec = LEGACY_RECORD_LEN"
  shows "\<exists>r. rec = manifest_bytes r \<and> record_fits r"
proof -
  let ?n = "u64_of_le (sub_slice 36 44 rec)"
  let ?r = "Legacy (get_offset rec 4) (get_offset rec 20) ?n"
  have k: "length rec = 48" using assms(3) by (simp add: LEGACY_RECORD_LEN_def)
  have n: "unat ?n \<le> MAX_LIVE_SEGMENTS" and crc: "crc32c (take 44 rec) = u32_of_le (drop 44 rec)"
    using assms(1) by (auto simp: decode_legacy_def Let_def LEGACY_RECORD_LEN_def split: if_splits)
  have "record_body ?r = (((take 4 rec @ sub_slice 4 20 rec) @ sub_slice 20 36 rec) @ sub_slice 36 44 rec)"
    using put_get_offset(1) [of 4 rec] put_get_offset(1) [of 20 rec] k assms(2) by (simp add: codec_inverse)
  also have "\<dots> = take 44 rec" by (simp only: take_sub_slice)
  finally have "record_body ?r = take 44 rec" .
  moreover have "u32_le (crc32c (take 44 rec)) = drop 44 rec" unfolding crc using k by (intro codec_inverse) simp
  ultimately have "rec = manifest_bytes ?r" by (simp add: manifest_bytes_def del: record_body.simps)
  moreover have "record_fits ?r" using put_get_offset(2) [of 4 rec] put_get_offset(2) [of 20 rec] k n by simp
  ultimately show ?thesis by blast
qed

lemma starts_record_magic:
  assumes "starts_record bs"
  shows "take 4 bs = LEGACY_MAGIC \<or> take 4 bs = MANIFEST_MAGIC \<and> unat (u32_of_le (sub_slice 36 40 bs)) \<le> MAX_LIVE_SEGMENTS"
proof -
  obtain r rest where r: "record_fits r" "bs = manifest_bytes r @ rest" using assms by (auto simp: starts_record_def)
  show ?thesis
  proof (cases r)
    case (Manifest p)
    note h = manifest_header [of p "length (manifest_bytes (Manifest p))"] and len = length_manifest_bytes(1) [of p]
    then show ?thesis using r by (simp add: Manifest sub_slice_def MANIFEST_HEADER_LEN_def)
  next
    case (Legacy fl fe n)
    then show ?thesis using r(2) by (simp add: manifest_bytes_def magics)
  qed
qed

lemma load_loop_garbage:
  assumes d: "no_faults d" and c: "md_store d ! f = pre @ bs" and g: "\<not> starts_record bs"
  shows "load_loop f (length (md_store d ! f)) (length pre) found d = (Inr found, d)"
proof -
  consider "length bs < MANIFEST_HEADER_LEN" | "take 4 bs \<noteq> LEGACY_MAGIC" "take 4 bs \<noteq> MANIFEST_MAGIC"
    | "MANIFEST_HEADER_LEN \<le> length bs" "take 4 bs = MANIFEST_MAGIC" | "MANIFEST_HEADER_LEN \<le> length bs" "take 4 bs = LEGACY_MAGIC"
    by linarith
  then show ?thesis
  proof cases
    case 1
    then show ?thesis by (simp add: load_loop.simps [of f _ "length pre" found d] c)
  next
    case 2
    then show ?thesis by (rule load_loop_foreign [OF d c])
  next
    case 3
    let ?n = "MANIFEST_HEADER_LEN + unat (u32_of_le (sub_slice 36 40 bs)) * 8 + 4"
    have "manifest_decode (take ?n bs) = None" if n: "?n \<le> length bs" "unat (u32_of_le (sub_slice 36 40 bs)) \<le> MAX_LIVE_SEGMENTS"
    proof (rule ccontr)
      assume "manifest_decode (take ?n bs) \<noteq> None"
      then obtain p where p: "manifest_decode (take ?n bs) = Some p" by auto
      have h: "take 4 (take ?n bs) = MANIFEST_MAGIC" "sub_slice 36 40 (take ?n bs) = sub_slice 36 40 bs"
        using 3 by (simp_all add: MANIFEST_HEADER_LEN_def sub_slice_def drop_take min_def)
      have "take ?n bs = manifest_bytes (Manifest p) \<and> record_fits (Manifest p)"
        using manifest_decode_inverse [OF p h(1) _ _ n(2)] n(1) h(2) by simp
      then show False using g append_take_drop_id [of ?n bs] unfolding starts_record_def by metis
    qed
    then show ?thesis using load_loop_manifest [OF d c 3 refl] by auto
  next
    case 4
    show ?thesis
    proof (cases "LEGACY_RECORD_LEN \<le> length bs")
      case True
      have "decode_legacy (take LEGACY_RECORD_LEN bs) = None"
      proof (rule ccontr)
        assume "decode_legacy (take LEGACY_RECORD_LEN bs) \<noteq> None"
        then obtain p where "decode_legacy (take LEGACY_RECORD_LEN bs) = Some p" by auto
        then obtain r where "take LEGACY_RECORD_LEN bs = manifest_bytes r" "record_fits r"
          using decode_legacy_inverse [of "take LEGACY_RECORD_LEN bs" p] True 4(2) by (auto simp: LEGACY_RECORD_LEN_def)
        then show False using g append_take_drop_id [of LEGACY_RECORD_LEN bs] unfolding starts_record_def by metis
      qed
      then show ?thesis using load_loop_legacy [OF d c True 4(2)] by simp
    next
      case False
      have "take 4 (take MANIFEST_HEADER_LEN bs) = LEGACY_MAGIC" using 4 by (simp add: MANIFEST_HEADER_LEN_def min_def)
      then show ?thesis using False 4(1)
        unfolding load_loop.simps [of f _ "length pre" found d] by (simp add: faultless_read [OF d] c)
    qed
  qed
qed

section \<open>Loading a file\<close>

lemma validate_checkpoint: "validate_name CHECKPOINT_FILENAME = Inr ()"
  by code_simp

lemma checkpoint_load_scan:
  assumes d: "no_faults d" and c: "file_at d CHECKPOINT_FILENAME = Some (concat (map manifest_bytes rs) @ rest)" and rs: "list_all record_fits rs"
    and rest: "\<And>f found. md_store d ! f = concat (map manifest_bytes rs) @ rest \<Longrightarrow>
      load_loop f (length (md_store d ! f)) (length (concat (map manifest_bytes rs))) found d = (Inr found, d)"
  shows "checkpoint_load d = (Inr (last_point rs), d)"
proof -
  obtain f where f: "map_of (md_names d) CHECKPOINT_FILENAME = Some f" "md_store d ! f = concat (map manifest_bytes rs) @ rest"
    using c by (auto simp: file_at_def)
  have o: "disk_open CHECKPOINT_FILENAME d = (Inr f, d)" by (simp add: disk_open_def validate_checkpoint disk_check_no_faults [OF d] f(1))
  have "load_loop f (length (md_store d ! f)) 0 None d
      = load_loop f (length (md_store d ! f)) (length (concat (map manifest_bytes rs))) (if rs = [] then None else last_point rs) d"
    using load_loop_records [OF d, of f "[]" rs rest None] f(2) rs by simp
  then show ?thesis using rest [OF f(2)] by (simp add: checkpoint_load_def o file_len_def last_point_def)
qed

section \<open>Storing\<close>

lemma manifest_encode_bytes: "manifest_encode p = Some rec \<Longrightarrow> rec = manifest_bytes (Manifest p)"
  by (auto simp: manifest_encode_def manifest_bytes_def Let_def split: if_splits)

lemma file_append_torn:
  assumes "file_append f bs d = (Inl e, d')" "disk_wf d" "map_of (md_names d) name = Some f"
  shows "\<exists>k. file_at d' name = Some (the (file_at d name) @ take k bs) \<and> k \<le> length bs"
proof -
  obtain fault q where q: "faults_take Append (md_faults d) = (Some fault, q)"
    using assms(1) by (auto simp: file_append_def split: prod.splits option.splits)
  have f: "f < length (md_store d)" using assms by (auto simp: disk_wf_def dest: map_of_SomeD)
  let ?k = "min (torn_prefix fault) (length bs)"
  have d': "md_names d' = md_names d" "md_store d' = (if 0 < ?k then (md_store d)[f := md_store d ! f @ take ?k bs] else md_store d)"
    using assms(1) q by (auto simp: file_append_def Let_def)
  show ?thesis
    by (rule exI [of _ ?k]) (use d' assms(3) f in \<open>auto simp: file_at_def\<close>)
qed

text \<open>
  Whatever fails, a store leaves the file with the records it had, followed by nothing, a torn prefix of
  the new record, or the whole of it; it leaves all other files alone.
\<close>

lemma checkpoint_store_effect:
  assumes st: "checkpoint_store p d = Some (r, d')" and wf: "disk_wf d" and old: "file_at d CHECKPOINT_FILENAME = Some bs \<or> file_at d CHECKPOINT_FILENAME = None \<and> bs = []"
  shows "disk_wf d' \<and> (\<forall>n. n \<noteq> CHECKPOINT_FILENAME \<longrightarrow> file_at d' n = file_at d n) \<and>
     (r = Inr () \<longrightarrow> file_at d' CHECKPOINT_FILENAME = Some (bs @ manifest_bytes (Manifest p))) \<and>
     (file_at d' CHECKPOINT_FILENAME = None \<and> bs = [] \<or>
      (\<exists>k \<le> length (manifest_bytes (Manifest p)). file_at d' CHECKPOINT_FILENAME = Some (bs @ take k (manifest_bytes (Manifest p)))))"
proof -
  let ?N = CHECKPOINT_FILENAME and ?rec = "manifest_bytes (Manifest p)"
  obtain rec where rec: "manifest_encode p = Some rec" using st by (auto simp: checkpoint_store_def split: option.splits)
  have recb: "rec = ?rec" using manifest_encode_bytes [OF rec] .
  define put where "put f d = (case file_append f rec d of (Inl e, d1) \<Rightarrow> (Inl e, d1) | (Inr _, d1) \<Rightarrow> file_sync f d1)" for f d
  have wr: "disk_wf d2 \<and> (\<forall>n. n \<noteq> ?N \<longrightarrow> file_at d2 n = file_at d1 n) \<and> (q = Inr () \<longrightarrow> file_at d2 ?N = Some (bs @ ?rec)) \<and>
      (\<exists>k \<le> length ?rec. file_at d2 ?N = Some (bs @ take k ?rec))"
    if w: "put f d1 = (q, d2)" and d1: "disk_wf d1" "map_of (md_names d1) ?N = Some f" "file_at d1 ?N = Some bs" for f d1 d2 q
  proof -
    obtain a d3 where a: "file_append f rec d1 = (a, d3)" by (rule prod.exhaust)
    note e = file_append_effect [OF a d1(1,2)]
    show ?thesis
    proof (cases a)
      case (Inl x)
      then have "q = Inl x" "d2 = d3" using w a by (simp_all add: put_def)
      then show ?thesis using e file_append_torn [OF a [unfolded Inl] d1(1,2)] d1(3) recb by auto
    next
      case (Inr u)
      then have s: "file_sync f d3 = (q, d2)" using w a by (simp add: put_def)
      then have "disk_same d3 d2" by (auto simp: file_sync_def dest: disk_check_same)
      then have v: "file_at d2 = file_at d3" "disk_wf d2 = disk_wf d3" using disk_same_views by auto
      have "file_at d3 ?N = Some (bs @ ?rec)" using e(4) Inr d1(3) recb by simp
      then show ?thesis using v e(1,2) by (auto intro: exI [of _ "length ?rec"])
    qed
  qed
  have cs: "(case disk_open ?N d of
             (Inr f, d1) \<Rightarrow> put f d1
           | (Inl e, d1) \<Rightarrow>
               if io_kind e = NotFound
               then (case disk_create ?N d1 of
                       (Inl e, d2) \<Rightarrow> (Inl e, d2)
                     | (Inr f, d2) \<Rightarrow>
                         (case disk_sync_dir d2 of
                            (Inl e, d3) \<Rightarrow> (Inl e, snd (disk_remove ?N d3))
                          | (Inr _, d3) \<Rightarrow> put f d3))
               else (Inl e, d1)) = (r, d')"
    using st unfolding checkpoint_store_def rec option.case Let_def put_def [abs_def] by simp
  obtain q d1 where o: "disk_open ?N d = (q, d1)" by (rule prod.exhaust)
  note same = disk_open_keeps [OF o]
  note v = disk_same_views [OF same]
  have wf1: "disk_wf d1" using v(2) wf by simp
  show ?thesis
  proof (cases q)
    case (Inr f)
    then have "map_of (md_names d1) ?N = Some f" using disk_open_Inr [OF o [unfolded Inr]] same by (simp add: disk_same_def)
    moreover from this have "file_at d1 ?N \<noteq> None" by (simp add: file_at_def)
    then have "file_at d1 ?N = Some bs" using old v(1) by auto
    ultimately show ?thesis using wr [OF _ wf1] cs o Inr v(1) by auto
  next
    case (Inl e)
    show ?thesis
    proof (cases "io_kind e = NotFound")
      case False
      then have "r = Inl e" "d' = d1" using cs o Inl by simp_all
      then show ?thesis using old v wf1 by (auto intro: exI [of _ 0])
    next
      case True
      obtain c d2 where c: "disk_create ?N d1 = (c, d2)" by (rule prod.exhaust)
      note ce = disk_create_effect [OF c wf1]
      show ?thesis
      proof (cases c)
        case i: (Inl x)
        then have "r = Inl x" "d' = d2" using cs o Inl True c by simp_all
        moreover have "disk_same d1 d2" using ce(4) i by blast
        ultimately show ?thesis using old v wf1 disk_same_views [of d1 d2] by (auto intro: exI [of _ 0])
      next
        case i: (Inr f)
        have ne: "file_at d1 ?N = None" "file_at d2 ?N = Some []" "map_of (md_names d2) ?N = Some f" using ce(3) i by auto
        then have bs: "bs = []" using old v(1) by auto
        obtain y d3 where y: "disk_sync_dir d2 = (y, d3)" by (rule prod.exhaust)
        have s3: "disk_same d2 d3" using y by (auto simp: disk_sync_dir_def dest: disk_check_same)
        note v3 = disk_same_views [OF s3]
        have wf3: "disk_wf d3" "map_of (md_names d3) ?N = Some f" using ce(1) v3(2) s3 ne(3) by (auto simp: disk_same_def)
        show ?thesis
        proof (cases y)
          case (Inl z)
          obtain rm d4 where rm: "disk_remove ?N d3 = (rm, d4)" by (rule prod.exhaust)
          have rr: "r = Inl z" "d' = d4" using cs o \<open>q = Inl e\<close> True c i y Inl rm by simp_all
          from rm have "file_at d4 ?N = None \<or> file_at d4 ?N = Some []"
          proof (cases rule: disk_remove_cases)
            case (failed w)
            then show ?thesis using disk_same_views(1) [of d3 d4] v3(1) ne(2) by simp
          next
            case removed
            then show ?thesis by (simp add: file_at_def map_of_filter_name)
          qed
          then show ?thesis using rr bs disk_remove_effect [OF rm] wf3(1) v3(1) ce(2) v(1) by (auto intro: exI [of _ 0])
        next
          case (Inr u)
          then have "put f d3 = (r, d')" using cs o \<open>q = Inl e\<close> True c i y by simp
          from wr [OF this wf3] show ?thesis using bs v3(1) ne(2) ce(2) v(1) by auto
        qed
      qed
    qed
  qed
qed

section \<open>What a boot sees\<close>

lemma load_after_records:
  assumes "no_faults d" "file_at d CHECKPOINT_FILENAME = Some (concat (map manifest_bytes rs) @ take k (manifest_bytes (Manifest p)))"
    "k \<le> length (manifest_bytes (Manifest p))" "list_all record_fits rs" "point_fits p"
  shows "checkpoint_load d = (Inr (if k = length (manifest_bytes (Manifest p)) then Some p else last_point rs), d)"
proof (cases "k = length (manifest_bytes (Manifest p))")
  case True
  have "checkpoint_load d = (Inr (last_point (rs @ [Manifest p])), d)"
  proof (rule checkpoint_load_scan [OF assms(1), of _ "[]"])
    show "load_loop f (length (md_store d ! f)) (length (concat (map manifest_bytes (rs @ [Manifest p])))) found d = (Inr found, d)"
      if "md_store d ! f = concat (map manifest_bytes (rs @ [Manifest p])) @ []" for f found
      using that by (simp add: load_loop.simps [of f _ _ found d] MANIFEST_HEADER_LEN_def)
  qed (use assms True in simp_all)
  then show ?thesis using True by (simp add: last_point_def)
next
  case False
  then have "k < length (manifest_bytes (Manifest p))" using assms(3) by simp
  then show ?thesis
    using False load_loop_torn [OF assms(1) _ _ assms(5)] by (subst checkpoint_load_scan [OF assms(1,2,4)]) simp_all
qed

lemma load_absent: "no_faults d \<Longrightarrow> file_at d CHECKPOINT_FILENAME = None \<Longrightarrow> checkpoint_load d = (Inr None, d)"
  by (simp add: checkpoint_load_def disk_open_def validate_checkpoint disk_check_no_faults file_at_def)

text \<open>
  C11. A checkpoint is atomic. On a file of intact records, old or new format, a store under any faults
  leaves a disk whose next boot loads either the point that was there or the new one, and the new one
  when the store reported success; a torn append, a failed sync or a failed directory fence never
  exposes a third state, and no other file changes.
\<close>

theorem checkpoint_atomic:
  assumes "disk_wf d" "file_at d CHECKPOINT_FILENAME = (if created then Some (concat (map manifest_bytes rs)) else None)" "created \<or> rs = []"
    and "list_all record_fits rs" "point_fits p" "checkpoint_store p d = Some (r, d')" "disk_same d' boot" "no_faults boot"
  shows "\<exists>x. checkpoint_load boot = (Inr x, boot) \<and> x \<in> {last_point rs, Some p} \<and> (r = Inr () \<longrightarrow> x = Some p) \<and>
     (\<forall>n. n \<noteq> CHECKPOINT_FILENAME \<longrightarrow> file_at boot n = file_at d n)"
proof -
  let ?bs = "concat (map manifest_bytes rs)" and ?rec = "manifest_bytes (Manifest p)"
  have ne: "0 < length ?rec" using length_manifest_bytes(1) [of p] by simp
  have old: "file_at d CHECKPOINT_FILENAME = Some ?bs \<or> file_at d CHECKPOINT_FILENAME = None \<and> ?bs = []" using assms(2,3) by auto
  have v: "file_at boot = file_at d'" using disk_same_views(1) [OF assms(7)] .
  note e = checkpoint_store_effect [OF assms(6,1) old, folded v]
  then have "file_at boot CHECKPOINT_FILENAME = None \<and> ?bs = [] \<or>
      (\<exists>k \<le> length ?rec. file_at boot CHECKPOINT_FILENAME = Some (?bs @ take k ?rec))" by (elim conjE)
  then have "\<exists>x. checkpoint_load boot = (Inr x, boot) \<and> x \<in> {last_point rs, Some p} \<and> (r = Inr () \<longrightarrow> x = Some p)"
  proof (elim disjE exE conjE)
    assume gone: "file_at boot CHECKPOINT_FILENAME = None" "?bs = []"
    have "r \<noteq> Inr ()" using e gone(1) by auto
    moreover have "manifest_bytes x \<noteq> []" for x by (cases x) (simp_all add: manifest_bytes_def magics flip: length_0_conv)
    then have "rs = []" using gone(2) by (cases rs) simp_all
    ultimately show ?thesis using load_absent [OF assms(8) gone(1)] by (simp add: last_point_def)
  next
    fix k assume there: "k \<le> length ?rec" "file_at boot CHECKPOINT_FILENAME = Some (?bs @ take k ?rec)"
    have "take k ?rec = ?rec" if "r = Inr ()" using e there(2) that by simp
    then have "r = Inr () \<Longrightarrow> k = length ?rec" using there(1) by (metis length_take min.absorb2)
    then show ?thesis using load_after_records [OF assms(8) there(2,1) assms(4,5)] by auto
  qed
  then show ?thesis using e by blast
qed

text \<open>
  C12. A torn checkpoint hides every later one. Suppose an append was torn at any point inside its record.
  A store that then succeeds, append and sync included, is not what the next boot loads: the scan stops
  at the torn bytes and returns the point from before them. For a tear of four bytes or more this needs
  that the torn bytes followed by the new record do not by accident begin with a record whose checksum
  holds; for a shorter tear the magic number already rules that out.
\<close>

theorem checkpoint_torn_hides_later:
  assumes "disk_wf d" "file_at d CHECKPOINT_FILENAME = Some (concat (map manifest_bytes rs) @ take k (manifest_bytes (Manifest q)))"
    and "0 < k" "k < length (manifest_bytes (Manifest q))" "k < 4 \<or> \<not> starts_record (take k (manifest_bytes (Manifest q)) @ manifest_bytes (Manifest p))"
    and "list_all record_fits rs" "checkpoint_store p d = Some (Inr (), d')" "disk_same d' boot" "no_faults boot"
  shows "checkpoint_load boot = (Inr (last_point rs), boot)"
proof -
  let ?rec = "manifest_bytes (Manifest p)" and ?torn = "take k (manifest_bytes (Manifest q))"
  have f: "file_at boot CHECKPOINT_FILENAME = Some (concat (map manifest_bytes rs) @ ?torn @ ?rec)"
    using checkpoint_store_effect [OF assms(7,1), of "concat (map manifest_bytes rs) @ ?torn"] assms(2) disk_same_views(1) [OF assms(8)] by simp
  have "\<not> starts_record (?torn @ ?rec)" if "k < 4"
  proof -
    have "k = 1 \<or> k = 2 \<or> k = 3" using assms(3) that by linarith
    then have "take 4 (?torn @ ?rec) \<noteq> LEGACY_MAGIC" "take 4 (?torn @ ?rec) \<noteq> MANIFEST_MAGIC"
      by (auto simp: manifest_bytes_def MANIFEST_MAGIC_def LEGACY_MAGIC_def)
    then show ?thesis using starts_record_magic by blast
  qed
  then have g: "\<not> starts_record (?torn @ ?rec)" using assms(5) by blast
  show ?thesis by (rule checkpoint_load_scan [OF assms(9) f assms(6)]) (rule load_loop_garbage [OF assms(9) _ g])
qed

section \<open>Concrete instances\<close>

definition first_point :: recovery_point where
  "first_point = \<lparr>replay_floor = LogOffset 0 0, durable_fence = LogOffset 0 55, live_segments = [0]\<rparr>"

definition second_point :: recovery_point where
  "second_point = \<lparr>replay_floor = LogOffset 0 55, durable_fence = LogOffset 1 9, live_segments = [0, 1]\<rparr>"

definition point_disk :: "bytes \<Rightarrow> mem_disk" where
  "point_disk bs = \<lparr>md_names = [(CHECKPOINT_FILENAME, 0)], md_store = [bs], md_faults = []\<rparr>"

lemma points_fit: "point_fits first_point" "point_fits second_point"
  by (simp_all add: point_fits_def offset_fits_def first_point_def second_point_def MAX_LIVE_SEGMENTS_def)

lemma point_disk_facts: "disk_wf (point_disk bs)" "file_at (point_disk bs) CHECKPOINT_FILENAME = Some bs" "no_faults (point_disk bs)"
  by (simp_all add: disk_wf_def point_disk_def file_at_def no_faults_def)

lemma store_on_point_disk:
  "checkpoint_store second_point (point_disk bs) = Some (Inr (), point_disk (bs @ manifest_bytes (Manifest second_point)))"
proof -
  have e: "manifest_encode second_point = Some (manifest_bytes (Manifest second_point))"
    by (simp add: manifest_encode_def second_point_def manifest_bytes_def Let_def)
  have "disk_open CHECKPOINT_FILENAME (point_disk bs) = (Inr 0, point_disk bs)"
    by (simp add: disk_open_def validate_checkpoint disk_check_no_faults [OF point_disk_facts(3)]) (simp add: point_disk_def)
  moreover have "file_append 0 xs (point_disk bs) = (Inr (), point_disk (bs @ xs))" for xs
    by (simp add: file_append_def faults_take_def point_disk_def)
  ultimately show ?thesis
    by (simp add: checkpoint_store_def e Let_def file_sync_def disk_check_no_faults [OF point_disk_facts(3)])
qed

theorem checkpoint_atomic_witness:
  "checkpoint_load (point_disk (manifest_bytes (Manifest first_point) @ manifest_bytes (Manifest second_point))) =
     (Inr (Some second_point), point_disk (manifest_bytes (Manifest first_point) @ manifest_bytes (Manifest second_point)))"
  using checkpoint_atomic [OF point_disk_facts(1) _ _ _ points_fit(2) store_on_point_disk [of "manifest_bytes (Manifest first_point)"]
      disk_same_refl point_disk_facts(3), of True "[Manifest first_point]"] point_disk_facts(2) points_fit(1)
  by auto

text \<open>A tear in front of the segment count: what follows claims more segments than any record may name.\<close>

lemma torn_before_count: "\<not> starts_record (take 36 (manifest_bytes (Manifest second_point)) @ manifest_bytes (Manifest second_point))"
  (is "\<not> starts_record ?bs")
proof -
  have "sub_slice 36 40 (take 36 (manifest_bytes (Manifest second_point)) @ manifest_bytes (Manifest second_point)) = MANIFEST_MAGIC"
    using length_manifest_bytes(1) [of second_point] by (simp add: sub_slice_def manifest_bytes_def magics MANIFEST_HEADER_LEN_def)
  moreover have "u32_of_le MANIFEST_MAGIC = 0x464D5453" by (simp add: MANIFEST_MAGIC_def)
  moreover have "take 4 (take 36 (manifest_bytes (Manifest second_point)) @ manifest_bytes (Manifest second_point)) = MANIFEST_MAGIC"
    by (simp add: manifest_bytes_def magics)
  ultimately show ?thesis using starts_record_magic [of ?bs] magics(3) by (auto simp: MAX_LIVE_SEGMENTS_def simp del: take_append)
qed

theorem checkpoint_torn_hides_later_witness:
  "\<exists>d'. checkpoint_store second_point (point_disk (manifest_bytes (Manifest first_point) @ take 36 (manifest_bytes (Manifest second_point)))) = Some (Inr (), d') \<and>
     checkpoint_load d' = (Inr (Some first_point), d')"
proof -
  let ?bs = "manifest_bytes (Manifest first_point) @ take 36 (manifest_bytes (Manifest second_point))"
  let ?d = "point_disk (?bs @ manifest_bytes (Manifest second_point))"
  have "36 < length (manifest_bytes (Manifest second_point))" by (simp add: length_manifest_bytes MANIFEST_HEADER_LEN_def)
  moreover have "file_at (point_disk ?bs) CHECKPOINT_FILENAME =
      Some (concat (map manifest_bytes [Manifest first_point]) @ take 36 (manifest_bytes (Manifest second_point)))"
    by (simp only: point_disk_facts(2)) simp
  ultimately have "checkpoint_load ?d = (Inr (last_point [Manifest first_point]), ?d)"
    using checkpoint_torn_hides_later [OF point_disk_facts(1) _ _ _ disjI2 [OF torn_before_count] _ store_on_point_disk disk_same_refl point_disk_facts(3),
      of ?bs "[Manifest first_point]"] points_fit(1) by simp
  then show ?thesis using store_on_point_disk [of ?bs] by (simp add: last_point_def)
qed

end
