(* ===== verification/Segment_Writer.thy ===== *)
theory Segment_Writer
  imports Segment_Columns Checkpoint
begin

text \<open>
  Sealing a segment (\<open>segment/writer.rs\<close>): rows and retractions are buffered, and \<open>finish\<close> encodes them
  column by column per row group, writes the chunks, the footer and the trailer, and syncs. Offsets are
  file positions (\<open>nat\<close>), written as \<open>u64\<close>.
\<close>

section \<open>Rows to columns\<close>

record encoded_chunk =
  ch_col :: column_id
  ch_codec :: codec
  ch_offset :: nat
  ch_length :: nat
  ch_value_count :: u32
  ch_payload :: bytes
  ch_stat_min :: stat_bound
  ch_stat_max :: stat_bound

record row_group_chunks =
  gc_row_count :: u32
  gc_chunks :: "encoded_chunk list"

definition extract_bytes :: "column_id \<Rightarrow> version \<Rightarrow> bool \<Rightarrow> bytes option seg" where
  "extract_bytes col row valid_time =
     (case col of
        ColBusinessKey \<Rightarrow> Some (Inr (Some (v_business_key row)))
      | ColPayload \<Rightarrow>
          (case v_payload row of
             None \<Rightarrow> Some (Inr None)
           | Some bs \<Rightarrow>
               if valid_time
               then (if VALID_TIME_PREFIX_LEN \<le> length bs then Some (Inr (Some (drop VALID_TIME_PREFIX_LEN bs)))
                     else Some (Inl (SegCorrupt ''valid-time payload shorter than its interval prefix'')))
               else Some (Inr (Some bs)))
      | ColPrincipal \<Rightarrow> Some (Inr (Some (p_principal (v_provenance row))))
      | _ \<Rightarrow> None)"

definition extract_i64 :: "column_id \<Rightarrow> version \<Rightarrow> i64 option" where
  "extract_i64 col row =
     (case col of
        ColSysFrom \<Rightarrow> Some (v_sys_from row)
      | ColSeq \<Rightarrow> Some (I64 (v_seq row))
      | ColTxnId \<Rightarrow> Some (I64 (p_txn_id (v_provenance row)))
      | ColCommittedAt \<Rightarrow> Some (p_committed_at (v_provenance row))
      | _ \<Rightarrow> None)"

definition decode_valid_pair :: "version \<Rightarrow> (i64 \<times> i64) seg" where
  "decode_valid_pair row =
     (case v_payload row of
        None \<Rightarrow> Some (Inl (SegCorrupt ''valid-time row has a NULL payload, which cannot carry a valid-time interval''))
      | Some stored \<Rightarrow>
          (case unframe_payload True stored of
             Inl _ \<Rightarrow> Some (Inl (SegCorrupt ''valid-time payload could not be decoded into valid_from/valid_to columns''))
           | Inr (None, _) \<Rightarrow> None
           | Inr (Some iv, _) \<Rightarrow> Some (Inr (vt_from iv, vt_to iv))))"

definition decode_valid_pairs :: "version list \<Rightarrow> (i64 \<times> i64) list seg" where
  "decode_valid_pairs rows = seg_map decode_valid_pair rows"

text \<open>The integer of one row: the valid-time columns take the decoded pair at the row's index.\<close>

definition row_i64 :: "column_id \<Rightarrow> (i64 \<times> i64) list option \<Rightarrow> nat \<times> version \<Rightarrow> i64 seg" where
  "row_i64 col valid_pairs irow =
     (let of_pair = (\<lambda>f. case valid_pairs of
            None \<Rightarrow> None
          | Some pairs \<Rightarrow> if fst irow < length pairs then Some (Inr (f (pairs ! fst irow))) else None)
      in case col of
           ColValidFrom \<Rightarrow> of_pair fst
         | ColValidTo \<Rightarrow> of_pair snd
         | _ \<Rightarrow> map_option Inr (extract_i64 col (snd irow)))"

definition encode_column :: "column_id \<Rightarrow> version list \<Rightarrow> (i64 \<times> i64) list option \<Rightarrow> bool \<Rightarrow> encoded_column seg" where
  "encode_column col rows valid_pairs use_dict =
     (case ColumnId_ty col of
        TyBytes \<Rightarrow>
          seg_bind (seg_map (\<lambda>row. extract_bytes col row (valid_pairs \<noteq> None)) rows)
            (\<lambda>vals. Some (encode_bytes_values vals use_dict))
      | TyI64 \<Rightarrow>
          seg_bind (seg_map (row_i64 col valid_pairs) (enumerate 0 rows)) (\<lambda>vals. Some (Inr (encode_i64_values vals))))"

definition encode_retraction_column :: "column_id \<Rightarrow> close list \<Rightarrow> bool \<Rightarrow> encoded_column seg" where
  "encode_retraction_column col closes use_dict =
     (case col of
        ColRetractKey \<Rightarrow> Some (encode_bytes_values (map (Some \<circ> cl_business_key) closes) use_dict)
      | ColRetractClosedByPrincipal \<Rightarrow>
          Some (encode_bytes_values (map (Some \<circ> p_principal \<circ> cl_closed_by) closes) use_dict)
      | ColRetractSysFrom \<Rightarrow> Some (Inr (encode_i64_values (map cl_sys_from closes)))
      | ColRetractSeq \<Rightarrow> Some (Inr (encode_i64_values (map (I64 \<circ> cl_seq) closes)))
      | ColRetractClosedAt \<Rightarrow> Some (Inr (encode_i64_values (map cl_sys_to closes)))
      | ColRetractClosedByTxn \<Rightarrow> Some (Inr (encode_i64_values (map (I64 \<circ> p_txn_id \<circ> cl_closed_by) closes)))
      | ColRetractClosedByCommittedAt \<Rightarrow> Some (Inr (encode_i64_values (map (p_committed_at \<circ> cl_closed_by) closes)))
      | _ \<Rightarrow> None)"

section \<open>The footer\<close>

definition encode_chunk_meta :: "encoded_chunk \<Rightarrow> segment_error + bytes" where
  "encode_chunk_meta chunk =
     (let stat_flags = StatBound_flag (ch_stat_min chunk) STAT_MIN_UNBOUNDED OR StatBound_flag (ch_stat_max chunk) STAT_MAX_UNBOUNDED;
          min_bytes = StatBound_bytes (ch_stat_min chunk); max_bytes = StatBound_bytes (ch_stat_max chunk)
      in result_bind (ok_or (u32_try_from (length min_bytes)) (SegTooLarge ''stat min length exceeds u32::MAX'')) (\<lambda>min_len.
         result_bind (ok_or (u32_try_from (length max_bytes)) (SegTooLarge ''stat max length exceeds u32::MAX'')) (\<lambda>max_len.
           Inr (word_le 2 (ColumnId_as_u16 (ch_col chunk)) @ [Codec_as_byte (ch_codec chunk)] @ [stat_flags] @
                u64_le (of_nat (ch_offset chunk)) @ u64_le (of_nat (ch_length chunk)) @ u32_le (ch_value_count chunk) @
                u32_le 0 @ u32_le min_len @ min_bytes @ u32_le max_len @ max_bytes))))"

fun encode_chunk_metas :: "encoded_chunk list \<Rightarrow> segment_error + bytes" where
  "encode_chunk_metas [] = Inr []"
| "encode_chunk_metas (c # cs) =
     result_bind (encode_chunk_meta c) (\<lambda>bs. result_bind (encode_chunk_metas cs) (\<lambda>rest. Inr (bs @ rest)))"

fun encode_row_groups :: "row_group_chunks list \<Rightarrow> segment_error + bytes" where
  "encode_row_groups [] = Inr []"
| "encode_row_groups (g # gs) =
     result_bind (ok_or (u32_try_from (length (gc_chunks g))) (SegTooLarge ''column count exceeds u32::MAX'')) (\<lambda>column_count.
     result_bind (encode_chunk_metas (gc_chunks g)) (\<lambda>metas.
     result_bind (encode_row_groups gs) (\<lambda>rest.
       Inr (u32_le (gc_row_count g) @ u32_le column_count @ metas @ rest))))"

definition footer_flags :: "key_bloom option \<Rightarrow> valid_interval_summary option \<Rightarrow> valid_interval_summary option list option \<Rightarrow> u32" where
  "footer_flags bloom valid_summary rg_summaries =
     (if bloom \<noteq> None then FOOTER_FLAG_BLOOM else 0) OR
     (if valid_summary \<noteq> None then FOOTER_FLAG_VALID_INTERVALS else 0) OR
     (if rg_summaries \<noteq> None then FOOTER_FLAG_RG_VALID_INTERVALS else 0)"

text \<open>The optional sections are appended in place; their \<open>expect\<close>s are the panics of \<open>None\<close>.\<close>

definition encode_optional :: "('a \<Rightarrow> bytes \<Rightarrow> bytes option) \<Rightarrow> 'a option \<Rightarrow> bytes \<Rightarrow> bytes option" where
  "encode_optional enc section out = (case section of None \<Rightarrow> Some out | Some s \<Rightarrow> enc s out)"

definition encode_footer :: "row_group_chunks list \<Rightarrow> encoded_chunk list \<Rightarrow> key_bloom option \<Rightarrow>
    valid_interval_summary option \<Rightarrow> valid_interval_summary option list option \<Rightarrow> bytes seg" where
  "encode_footer row_groups retraction_chunks bloom valid_summary rg_summaries =
     seg_bind (Some (ok_or (u32_try_from (length row_groups)) (SegTooLarge ''row-group count exceeds u32::MAX''))) (\<lambda>row_group_count.
     seg_bind (Some (encode_row_groups row_groups)) (\<lambda>groups.
     let retraction_count = (case retraction_chunks of [] \<Rightarrow> 0 | c # _ \<Rightarrow> ch_value_count c) in
     seg_bind (Some (ok_or (u32_try_from (length retraction_chunks)) (SegTooLarge ''retraction column count exceeds u32::MAX''))) (\<lambda>retraction_columns.
     seg_bind (Some (encode_chunk_metas retraction_chunks)) (\<lambda>retractions.
     let out = u32_le SCHEMA_ID_IMPLICIT_VERSION @ u32_le (footer_flags bloom valid_summary rg_summaries) @ u32_le row_group_count @
               groups @ u32_le retraction_count @ u32_le retraction_columns @ retractions
     in case encode_optional KeyBloom_encode bloom out of
          None \<Rightarrow> None
        | Some out \<Rightarrow>
            (case encode_optional Summary_encode valid_summary out of
               None \<Rightarrow> None
             | Some out \<Rightarrow> map_option Inr (encode_optional encode_per_row_group rg_summaries out))))))"

section \<open>The writer\<close>

record segment_writer =
  sw_file :: file_id
  sw_rows :: "version list"
  sw_retractions :: "close list"
  sw_valid_time :: bool
  sw_max_row_group_rows :: "nat option"
  sw_bloom_bits_per_key :: nat
  sw_valid_interval_cap :: nat
  sw_dictionary :: bool

definition segment_header :: bytes where
  "segment_header = HEADER_MAGIC @ word_le 2 FORMAT_VERSION @ word_le 2 (0 :: 16 word) @ u32_le 0"

definition SegmentWriter_create_inner :: "string \<Rightarrow> bool \<Rightarrow> mem_disk \<Rightarrow> (segment_error + segment_writer) \<times> mem_disk" where
  "SegmentWriter_create_inner name valid_time d =
     (case disk_create name d of
        (Inl e, d1) \<Rightarrow> (Inl (SegIo e), d1)
      | (Inr f, d1) \<Rightarrow>
          (case file_append f segment_header d1 of
             (Inl e, d2) \<Rightarrow> (Inl (SegIo e), d2)
           | (Inr _, d2) \<Rightarrow>
               (Inr \<lparr>sw_file = f, sw_rows = [], sw_retractions = [], sw_valid_time = valid_time,
                     sw_max_row_group_rows = None, sw_bloom_bits_per_key = DEFAULT_BITS_PER_KEY,
                     sw_valid_interval_cap = DEFAULT_VALID_INTERVAL_CAP, sw_dictionary = False\<rparr>, d2)))"

definition SegmentWriter_create :: "string \<Rightarrow> mem_disk \<Rightarrow> (segment_error + segment_writer) \<times> mem_disk" where
  "SegmentWriter_create name = SegmentWriter_create_inner name False"

definition create_valid_time :: "string \<Rightarrow> mem_disk \<Rightarrow> (segment_error + segment_writer) \<times> mem_disk" where
  "create_valid_time name = SegmentWriter_create_inner name True"

definition with_dictionary :: "bool \<Rightarrow> segment_writer \<Rightarrow> segment_writer" where
  "with_dictionary enabled w = w\<lparr>sw_dictionary := enabled\<rparr>"

definition with_bloom_bits_per_key :: "nat \<Rightarrow> segment_writer \<Rightarrow> segment_writer" where
  "with_bloom_bits_per_key bits w = w\<lparr>sw_bloom_bits_per_key := bits\<rparr>"

definition with_valid_interval_cap :: "nat \<Rightarrow> segment_writer \<Rightarrow> segment_writer" where
  "with_valid_interval_cap cap w = w\<lparr>sw_valid_interval_cap := cap\<rparr>"

definition with_max_row_group_rows :: "nat \<Rightarrow> segment_writer \<Rightarrow> segment_writer" where
  "with_max_row_group_rows rows w = w\<lparr>sw_max_row_group_rows := Some (max rows 1)\<rparr>"

text \<open>\<open>From<DeltaError> for SegmentError\<close> (\<open>segment/mod.rs\<close>).\<close>

fun segment_of_delta :: "delta_error \<Rightarrow> segment_error" where
  "segment_of_delta (DTooLarge _) = SegTooLarge ''version frame too large''"
| "segment_of_delta (DCorrupt msg) = SegCorrupt msg"
| "segment_of_delta (DIo e) = SegIo e"
| "segment_of_delta (DValidity _) = SegCorrupt ''unexpected validity-index error on the segment path''"

definition segment_push :: "version \<Rightarrow> segment_writer \<Rightarrow> (segment_error + unit) \<times> segment_writer" where
  "segment_push v w =
     (case Version_check_encodable v of
        Inl e \<Rightarrow> (Inl (segment_of_delta e), w)
      | Inr _ \<Rightarrow> (Inr (), w\<lparr>sw_rows := sw_rows w @ [v]\<rparr>))"

definition push_retraction :: "close \<Rightarrow> segment_writer \<Rightarrow> (segment_error + unit) \<times> segment_writer" where
  "push_retraction c w =
     (if u32_try_from (length (cl_business_key c)) = None \<or> u32_try_from (length (p_principal (cl_closed_by c))) = None
      then (Inl (SegTooLarge ''retraction key/principal length exceeds u32::MAX in one chunk''), w)
      else (Inr (), w\<lparr>sw_retractions := sw_retractions w @ [c]\<rparr>))"

definition business_key_bloom :: "segment_writer \<Rightarrow> key_bloom option" where
  "business_key_bloom w =
     (if 0 < sw_bloom_bits_per_key w \<and> sw_rows w \<noteq> []
      then Some (KeyBloom_build (sw_bloom_bits_per_key w) (map v_business_key (sw_rows w))) else None)"

definition valid_interval_summary_for :: "segment_writer \<Rightarrow> (i64 \<times> i64) list \<Rightarrow> valid_interval_summary option" where
  "valid_interval_summary_for w pairs =
     (if sw_valid_interval_cap w = 0 \<or> pairs = [] then None
      else let s = Summary_build pairs (sw_valid_interval_cap w) in if Summary_is_empty s then None else Some s)"

definition writer_valid_interval_summary :: "segment_writer \<Rightarrow> (i64 \<times> i64) list option \<Rightarrow> valid_interval_summary option" where
  "writer_valid_interval_summary w valid_pairs =
     (case valid_pairs of None \<Rightarrow> None | Some pairs \<Rightarrow> valid_interval_summary_for w pairs)"

section \<open>Finishing\<close>

text \<open>\<open>slice::chunks\<close>.\<close>

function chunks_of :: "nat \<Rightarrow> 'a list \<Rightarrow> 'a list list" where
  "chunks_of n xs = (if xs = [] \<or> n = 0 then [] else take n xs # chunks_of n (drop n xs))"
  by pat_completeness auto
termination
  by (relation "measure (length \<circ> snd)") auto

declare chunks_of.simps [simp del]

definition row_groups_of :: "segment_writer \<Rightarrow> version list list" where
  "row_groups_of w =
     (if sw_rows w = [] then [[]]
      else chunks_of (case sw_max_row_group_rows w of None \<Rightarrow> 2 ^ 64 - 1 | Some n \<Rightarrow> n) (sw_rows w))"

text \<open>The chunks of one section: encode each column of the schema and lay it out behind the previous one.\<close>

fun encode_chunks :: "(column_id \<Rightarrow> encoded_column seg) \<Rightarrow> u32 \<Rightarrow> column_id list \<Rightarrow> nat \<Rightarrow> (encoded_chunk list \<times> nat) seg" where
  "encode_chunks enc value_count [] offset = Some (Inr ([], offset))"
| "encode_chunks enc value_count (col # cols) offset =
     seg_bind (enc col) (\<lambda>e.
       let len = CHUNK_HEADER_LEN + length (ec_payload e) in
       seg_bind (encode_chunks enc value_count cols (offset + len)) (\<lambda>(chunks, stop).
         Some (Inr (\<lparr>ch_col = col, ch_codec = ec_codec e, ch_offset = offset, ch_length = len, ch_value_count = value_count,
                     ch_payload = ec_payload e, ch_stat_min = ec_stat_min e, ch_stat_max = ec_stat_max e\<rparr> # chunks, stop))))"

text \<open>The row-group loop, with the running row base and offset.\<close>

fun encode_groups :: "segment_writer \<Rightarrow> (i64 \<times> i64) list option \<Rightarrow> version list list \<Rightarrow> nat \<Rightarrow> nat \<Rightarrow>
    (row_group_chunks list \<times> valid_interval_summary option list \<times> nat) seg" where
  "encode_groups w valid_pairs [] row_base offset = Some (Inr ([], [], offset))"
| "encode_groups w valid_pairs (grp # groups) row_base offset =
     (case u32_try_from (length grp) of
        None \<Rightarrow> Some (Inl (SegTooLarge ''row count exceeds u32::MAX in one row-group''))
      | Some version_count \<Rightarrow>
          let group_pairs = map_option (sub_slice row_base (row_base + length grp)) valid_pairs;
              summary = (case group_pairs of None \<Rightarrow> None | Some gp \<Rightarrow> valid_interval_summary_for w gp)
          in seg_bind (encode_chunks (\<lambda>col. encode_column col grp group_pairs (sw_dictionary w)) version_count
                         (ColumnId_schema (sw_valid_time w)) offset) (\<lambda>(chunks, offset).
             seg_bind (encode_groups w valid_pairs groups (row_base + length grp) offset) (\<lambda>(rgs, summaries, offset).
               Some (Inr (\<lparr>gc_row_count = version_count, gc_chunks = chunks\<rparr> # rgs, summary # summaries, offset)))))"

definition encode_retractions :: "segment_writer \<Rightarrow> nat \<Rightarrow> encoded_chunk list seg" where
  "encode_retractions w offset =
     (case u32_try_from (length (sw_retractions w)) of
        None \<Rightarrow> Some (Inl (SegTooLarge ''retraction count exceeds u32::MAX''))
      | Some retraction_count \<Rightarrow>
          if sw_retractions w = [] then Some (Inr [])
          else seg_bind (encode_chunks (\<lambda>col. encode_retraction_column col (sw_retractions w) (sw_dictionary w))
                 retraction_count ColumnId_RETRACTION offset) (\<lambda>(chunks, _). Some (Inr chunks)))"

definition chunk_prefix :: "encoded_chunk \<Rightarrow> u32 \<Rightarrow> bytes" where
  "chunk_prefix chunk payload_len =
     u32_le payload_len @ u32_le (ch_value_count chunk) @ [Codec_as_byte (ch_codec chunk)] @ [0, 0, 0]"

fun write_chunks :: "file_id \<Rightarrow> encoded_chunk list \<Rightarrow> mem_disk \<Rightarrow> (segment_error + unit) \<times> mem_disk" where
  "write_chunks f [] d = (Inr (), d)"
| "write_chunks f (chunk # chunks) d =
     (case u32_try_from (length (ch_payload chunk)) of
        None \<Rightarrow> (Inl (SegTooLarge ''column-chunk payload exceeds u32::MAX bytes''), d)
      | Some payload_len \<Rightarrow>
          let pfx = chunk_prefix chunk payload_len; crc = crc32c (pfx @ ch_payload chunk) in
          (case file_append f (pfx @ u32_le crc) d of
             (Inl e, d1) \<Rightarrow> (Inl (SegIo e), d1)
           | (Inr _, d1) \<Rightarrow>
               (case file_append f (ch_payload chunk) d1 of
                  (Inl e, d2) \<Rightarrow> (Inl (SegIo e), d2)
                | (Inr _, d2) \<Rightarrow> write_chunks f chunks d2)))"

text \<open>The tail of \<open>finish\<close>: footer, trailer, sync.\<close>

definition write_footer :: "file_id \<Rightarrow> bytes \<Rightarrow> mem_disk \<Rightarrow> (segment_error + unit) \<times> mem_disk" where
  "write_footer f footer d =
     (case u32_try_from (length footer) of
        None \<Rightarrow> (Inl (SegTooLarge ''footer exceeds u32::MAX bytes''), d)
      | Some footer_len \<Rightarrow>
          (case file_append f footer d of
             (Inl e, d1) \<Rightarrow> (Inl (SegIo e), d1)
           | (Inr _, d1) \<Rightarrow>
               (case file_append f (u32_le (crc32c footer) @ u32_le footer_len @ TRAILER_MAGIC) d1 of
                  (Inl e, d2) \<Rightarrow> (Inl (SegIo e), d2)
                | (Inr _, d2) \<Rightarrow>
                    (case file_sync f d2 of
                       (Inl e, d3) \<Rightarrow> (Inl (SegIo e), d3)
                     | (Inr _, d3) \<Rightarrow> (Inr (), d3)))))"

definition writer_valid_pairs :: "segment_writer \<Rightarrow> (i64 \<times> i64) list option seg" where
  "writer_valid_pairs w =
     (if sw_valid_time w then seg_bind (decode_valid_pairs (sw_rows w)) (\<lambda>pairs. Some (Inr (Some pairs))) else Some (Inr None))"

definition segment_finish :: "segment_writer \<Rightarrow> mem_disk \<Rightarrow> ((segment_error + unit) \<times> mem_disk) option" where
  "segment_finish w d =
     (case (seg_bind (writer_valid_pairs w) (\<lambda>valid_pairs.
            seg_bind (encode_groups w valid_pairs (row_groups_of w) 0 SEG_HEADER_LEN) (\<lambda>(row_groups, rg_summaries, offset).
            seg_bind (encode_retractions w offset) (\<lambda>retraction_chunks.
              Some (Inr (valid_pairs, row_groups, rg_summaries, retraction_chunks)))))) of
        None \<Rightarrow> None
      | Some (Inl e) \<Rightarrow> Some (Inl e, d)
      | Some (Inr (valid_pairs, row_groups, rg_summaries, retraction_chunks)) \<Rightarrow>
          (case write_chunks (sw_file w) (concat (map gc_chunks row_groups) @ retraction_chunks) d of
             (Inl e, d1) \<Rightarrow> Some (Inl e, d1)
           | (Inr _, d1) \<Rightarrow>
               let valid_summary = writer_valid_interval_summary w valid_pairs in
               (case encode_footer row_groups retraction_chunks (business_key_bloom w) valid_summary
                       (map_option (\<lambda>_. rg_summaries) valid_summary) of
                  None \<Rightarrow> None
                | Some (Inl e) \<Rightarrow> Some (Inl e, d1)
                | Some (Inr footer) \<Rightarrow> Some (write_footer (sw_file w) footer d1))))"

end
