(* ===== verification/Segment_Reader.thy ===== *)
theory Segment_Reader
  imports Segment_Writer
begin

text \<open>
  Reading a sealed segment (\<open>segment/reader.rs\<close>): \<open>open\<close> checks the header and the trailer, parses the
  checksummed footer and merges the zone maps; the column reads verify each chunk against its footer
  entry and checksum; whole versions and retractions are reassembled from the columns. Reads go through
  the disk, so a read may fail and the disk's fault schedule is threaded.
\<close>

section \<open>The footer\<close>

record row_group =
  rg_row_count :: u32
  rg_columns :: "column_chunk_meta list"

record footer =
  ft_schema_id :: u32
  ft_row_groups :: "row_group list"
  ft_retractions :: "column_chunk_meta list"
  ft_retraction_count :: u32
  ft_bloom :: "key_bloom option"
  ft_valid_intervals :: "valid_interval_summary option"
  ft_row_group_valid_intervals :: "valid_interval_summary option list option"

record segment_reader =
  sr_file :: file_id
  sr_footer :: footer
  sr_zone_map :: zone_map

definition decode_stat :: "column_id \<Rightarrow> bytes \<Rightarrow> bool \<Rightarrow> segment_error + zone_end option" where
  "decode_stat col bs unbounded =
     (if unbounded
      then (if ColumnId_ty col \<noteq> TyBytes then Inl (SegCorrupt ''unbounded stat flag set on a non-bytes column'')
            else if bs \<noteq> [] then Inl (SegCorrupt ''unbounded stat flag set but the stat field carries bytes'')
            else Inr (Some ZUnbounded))
      else if bs = [] then Inr None
      else case ColumnId_ty col of
             TyI64 \<Rightarrow> if length bs \<noteq> 8 then Inl (SegCorrupt ''i64 column stat is not 8 bytes'')
                      else Inr (Some (ZValue (ZI64 (i64_of_le bs))))
           | TyBytes \<Rightarrow> Inr (Some (ZValue (ZBytes bs))))"

definition parse_chunk_meta :: "u32 \<Rightarrow> string \<Rightarrow> parser \<Rightarrow> column_chunk_meta parsed" where
  "parse_chunk_meta expected_value_count what p =
     result_bind (parser_u16 p) (\<lambda>(column_id_raw, p).
     result_bind (ok_or (ColumnId_from_u16 column_id_raw) (SegCorrupt ''unknown column id in footer'')) (\<lambda>column_id.
     result_bind (parser_u8 p) (\<lambda>(codec_raw, p).
     result_bind (ok_or (Codec_from_byte codec_raw) (SegCorrupt ''unknown codec in footer'')) (\<lambda>codec.
     result_bind (parser_u8 p) (\<lambda>(stat_flags, p).
     result_bind (parser_u64 p) (\<lambda>(offset, p).
     result_bind (parser_u64 p) (\<lambda>(len, p).
     result_bind (parser_u32 p) (\<lambda>(value_count, p).
     result_bind (parser_u32 p) (\<lambda>(_, p).
     result_bind (parser_u32 p) (\<lambda>(min_len, p).
     result_bind (parser_take (unat min_len) p) (\<lambda>(min_bytes, p).
     result_bind (parser_u32 p) (\<lambda>(max_len, p).
     result_bind (parser_take (unat max_len) p) (\<lambda>(max_bytes, p).
     result_bind (decode_stat column_id min_bytes (stat_flags AND STAT_MIN_UNBOUNDED \<noteq> 0)) (\<lambda>stat_min.
     result_bind (decode_stat column_id max_bytes (stat_flags AND STAT_MAX_UNBOUNDED \<noteq> 0)) (\<lambda>stat_max.
       if value_count \<noteq> expected_value_count
       then Inl (SegCorrupt (if what = ''retraction_count'' then ''retraction column value_count disagrees with retraction_count''
                             else ''column value_count disagrees with row-group row_count''))
       else Inr (\<lparr>cm_column_id = column_id, cm_codec = codec, cm_offset = offset, cm_length = len, cm_value_count = value_count,
                  cm_stat_min = stat_min, cm_stat_max = stat_max\<rparr>, p))))))))))))))))"

definition parse_row_group :: "parser \<Rightarrow> row_group parsed" where
  "parse_row_group p =
     result_bind (parser_u32 p) (\<lambda>(row_count, p).
     result_bind (parser_u32 p) (\<lambda>(column_count, p).
     result_bind (parse_n (unat column_count) (parse_chunk_meta row_count ''row-group row_count'') p) (\<lambda>(columns, p).
       Inr (\<lparr>rg_row_count = row_count, rg_columns = columns\<rparr>, p))))"

text \<open>An optional section: decoded from the rest of the footer when its flag is set, then skipped.\<close>

definition parse_section :: "bool \<Rightarrow> (bytes \<Rightarrow> 'e + 'a \<times> nat) \<Rightarrow> string \<Rightarrow> parser \<Rightarrow> 'a option parsed" where
  "parse_section present dec msg p =
     (if present
      then (case dec (drop (pa_cursor p) (pa_bytes p)) of
              Inl _ \<Rightarrow> Inl (SegCorrupt msg)
            | Inr (x, consumed) \<Rightarrow> result_bind (parser_take consumed p) (\<lambda>(_, p). Inr (Some x, p)))
      else Inr (None, p))"

definition parse_footer :: "bytes \<Rightarrow> segment_error + footer" where
  "parse_footer bs =
     result_bind (parser_u32 (parser_new bs)) (\<lambda>(schema_id, p).
     if schema_id \<noteq> 0 then Inl (SegCorrupt ''unknown schema id in footer'') else
     result_bind (parser_u32 p) (\<lambda>(flags, p).
     if flags AND NOT (FOOTER_FLAG_BLOOM OR FOOTER_FLAG_VALID_INTERVALS OR FOOTER_FLAG_RG_VALID_INTERVALS) \<noteq> 0
     then Inl (SegCorrupt ''unknown footer flag bits set'') else
     result_bind (parser_u32 p) (\<lambda>(row_group_count, p).
     result_bind (parse_n (unat row_group_count) parse_row_group p) (\<lambda>(row_groups, p).
     result_bind (parser_u32 p) (\<lambda>(retraction_count, p).
     result_bind (parser_u32 p) (\<lambda>(retraction_columns, p).
     result_bind (parse_n (unat retraction_columns) (parse_chunk_meta retraction_count ''retraction_count'') p) (\<lambda>(retractions, p).
     if (retraction_count = 0) \<noteq> (retractions = [])
     then Inl (SegCorrupt ''retraction section inconsistent: row count and column presence disagree'') else
     result_bind (parse_section (flags AND FOOTER_FLAG_BLOOM \<noteq> 0) KeyBloom_decode ''malformed segment bloom in footer'' p) (\<lambda>(bloom, p).
     result_bind (parse_section (flags AND FOOTER_FLAG_VALID_INTERVALS \<noteq> 0) Summary_decode
       ''malformed valid-interval summary in footer'' p) (\<lambda>(valid_intervals, p).
     result_bind (parse_section (flags AND FOOTER_FLAG_RG_VALID_INTERVALS \<noteq> 0) (\<lambda>bs. decode_per_row_group bs (length row_groups))
       ''malformed per-row-group valid-interval summaries in footer'' p) (\<lambda>(rg_valid_intervals, p).
     if \<not> parser_is_empty p then Inl (SegCorrupt ''trailing bytes in footer'')
     else Inr \<lparr>ft_schema_id = schema_id, ft_row_groups = row_groups, ft_retractions = retractions,
               ft_retraction_count = retraction_count, ft_bloom = bloom, ft_valid_intervals = valid_intervals,
               ft_row_group_valid_intervals = rg_valid_intervals\<rparr>))))))))))"

section \<open>Opening\<close>

definition validate_header :: "file_id \<Rightarrow> mem_disk \<Rightarrow> (segment_error + unit) \<times> mem_disk" where
  "validate_header f d =
     (if file_len d f < SEG_HEADER_LEN + TRAILER_LEN
      then (Inl (SegCorrupt ''file shorter than minimum (header + trailer)''), d)
      else case file_read_at f 0 SEG_HEADER_LEN d of
        (Inl e, d1) \<Rightarrow> (Inl (SegIo e), d1)
      | (Inr buf, d1) \<Rightarrow>
          if length buf \<noteq> SEG_HEADER_LEN then (Inl (SegCorrupt ''short read on header''), d1)
          else if sub_slice 0 8 buf \<noteq> HEADER_MAGIC then (Inl (SegCorrupt ''header magic mismatch''), d1)
          else let ver = from_le (sub_slice 8 10 buf) in
               if ver \<noteq> FORMAT_VERSION then (Inl (SegUnsupportedVersion ver FORMAT_VERSION), d1)
               else (Inr (), d1))"

definition read_footer :: "file_id \<Rightarrow> mem_disk \<Rightarrow> (segment_error + footer) \<times> mem_disk" where
  "read_footer f d =
     (if file_len d f < TRAILER_LEN then (Inl (SegCorrupt ''file shorter than trailer''), d)
      else let trailer_off = file_len d f - TRAILER_LEN in
      case file_read_at f trailer_off TRAILER_LEN d of
        (Inl e, d1) \<Rightarrow> (Inl (SegIo e), d1)
      | (Inr trailer, d1) \<Rightarrow>
          if length trailer \<noteq> TRAILER_LEN then (Inl (SegCorrupt ''short read on trailer''), d1)
          else let footer_crc = u32_of_le (sub_slice 0 4 trailer); footer_len = unat (u32_of_le (sub_slice 4 8 trailer)) in
          if sub_slice 8 16 trailer \<noteq> TRAILER_MAGIC then (Inl (SegCorrupt ''trailer magic mismatch''), d1)
          else if trailer_off < footer_len then (Inl (SegCorrupt ''footer length exceeds file size''), d1)
          else let footer_off = trailer_off - footer_len in
          if footer_off < SEG_HEADER_LEN then (Inl (SegCorrupt ''footer overlaps header''), d1)
          else case file_read_at f footer_off footer_len d1 of
            (Inl e, d2) \<Rightarrow> (Inl (SegIo e), d2)
          | (Inr payload, d2) \<Rightarrow>
              if length payload \<noteq> footer_len then (Inl (SegCorrupt ''short read on footer''), d2)
              else if crc32c payload \<noteq> footer_crc then (Inl (SegCorrupt ''footer CRC mismatch''), d2)
              else (parse_footer payload, d2))"

definition build_zone_map :: "footer \<Rightarrow> zone_map" where
  "build_zone_map ft = zone_map_from_metas (concat (map rg_columns (ft_row_groups ft)) @ ft_retractions ft)"

definition SegmentReader_open :: "string \<Rightarrow> mem_disk \<Rightarrow> (segment_error + segment_reader) \<times> mem_disk" where
  "SegmentReader_open name d =
     (case disk_open name d of
        (Inl e, d1) \<Rightarrow> (Inl (SegIo e), d1)
      | (Inr f, d1) \<Rightarrow>
          (case validate_header f d1 of
             (Inl e, d2) \<Rightarrow> (Inl e, d2)
           | (Inr _, d2) \<Rightarrow>
               (case read_footer f d2 of
                  (Inl e, d3) \<Rightarrow> (Inl e, d3)
                | (Inr ft, d3) \<Rightarrow> (Inr \<lparr>sr_file = f, sr_footer = ft, sr_zone_map = build_zone_map ft\<rparr>, d3))))"

section \<open>Pruning\<close>

definition segment_row_count :: "segment_reader \<Rightarrow> u64" where
  "segment_row_count r = sum_list (map (\<lambda>g. ucast (rg_row_count g)) (ft_row_groups (sr_footer r)))"

definition row_group_row_counts :: "segment_reader \<Rightarrow> u32 list" where
  "row_group_row_counts r = map rg_row_count (ft_row_groups (sr_footer r))"

definition row_group_zone_maps :: "segment_reader \<Rightarrow> zone_map list" where
  "row_group_zone_maps r = map (\<lambda>g. zone_map_from_metas (rg_columns g)) (ft_row_groups (sr_footer r))"

definition segment_might_contain :: "segment_reader \<Rightarrow> predicate \<Rightarrow> i64 \<Rightarrow> bool" where
  "segment_might_contain r pred at = ZoneMap_might_contain (sr_zone_map r) pred at"

definition might_contain_key :: "segment_reader \<Rightarrow> bytes \<Rightarrow> bool" where
  "might_contain_key r key =
     (case ft_bloom (sr_footer r) of None \<Rightarrow> True | Some bloom \<Rightarrow> maybe_contains bloom key)"

definition might_contain_valid :: "segment_reader \<Rightarrow> i64 \<Rightarrow> bool" where
  "might_contain_valid r point =
     (case ft_valid_intervals (sr_footer r) of None \<Rightarrow> True | Some s \<Rightarrow> Summary_covers s point)"

definition might_overlap_valid :: "segment_reader \<Rightarrow> i64 \<Rightarrow> i64 \<Rightarrow> bool" where
  "might_overlap_valid r lo hi =
     (case ft_valid_intervals (sr_footer r) of None \<Rightarrow> True | Some s \<Rightarrow> Summary_overlaps s lo hi)"

text \<open>The entry of a row group, if the segment has summaries and the group one.\<close>

definition row_group_summary :: "segment_reader \<Rightarrow> nat \<Rightarrow> valid_interval_summary option" where
  "row_group_summary r g =
     (case ft_row_group_valid_intervals (sr_footer r) of
        None \<Rightarrow> None
      | Some summaries \<Rightarrow> if g < length summaries then summaries ! g else None)"

definition row_group_might_contain_valid :: "segment_reader \<Rightarrow> nat \<Rightarrow> i64 \<Rightarrow> bool" where
  "row_group_might_contain_valid r g point =
     (case row_group_summary r g of None \<Rightarrow> True | Some s \<Rightarrow> Summary_covers s point)"

definition row_group_might_overlap_valid :: "segment_reader \<Rightarrow> nat \<Rightarrow> i64 \<Rightarrow> i64 \<Rightarrow> bool" where
  "row_group_might_overlap_valid r g lo hi =
     (case row_group_summary r g of None \<Rightarrow> True | Some s \<Rightarrow> Summary_overlaps s lo hi)"

definition column_byte_len :: "segment_reader \<Rightarrow> column_id \<Rightarrow> u64 option" where
  "column_byte_len r col =
     (let of_col = filter (\<lambda>c. cm_column_id c = col) (concat (map rg_columns (ft_row_groups (sr_footer r))))
      in if of_col = [] then None
         else Some (foldl (\<lambda>acc c. if unat acc + unat (cm_length c) < 2 ^ 64 then acc + cm_length c else U64_MAX) 0 of_col))"

definition has_column :: "segment_reader \<Rightarrow> column_id \<Rightarrow> bool" where
  "has_column r col = list_ex (\<lambda>g. list_ex (\<lambda>c. cm_column_id c = col) (rg_columns g)) (ft_row_groups (sr_footer r))"

section \<open>Reading columns\<close>

datatype column_data = DataBytes "bytes list" | DataNullable "bytes option list" | DataI64 "i64 list"

definition chunk_meta :: "column_chunk_meta list \<Rightarrow> column_id \<Rightarrow> string \<Rightarrow> segment_error + column_chunk_meta" where
  "chunk_meta columns col msg = ok_or (List.find (\<lambda>c. cm_column_id c = col) columns) (SegCorrupt msg)"

definition read_chunk_payload :: "file_id \<Rightarrow> column_chunk_meta \<Rightarrow> mem_disk \<Rightarrow> (segment_error + bytes) \<times> mem_disk" where
  "read_chunk_payload f meta d =
     (let len = unat (cm_length meta) in
      if len < CHUNK_HEADER_LEN then (Inl (SegCorrupt ''chunk shorter than its own header - footer disagrees with file''), d)
      else case u64_checked_add (cm_offset meta) (cm_length meta) of
        None \<Rightarrow> (Inl (SegCorrupt ''chunk offset + length overflows u64''), d)
      | Some stop \<Rightarrow>
          if file_len d f < unat stop then (Inl (SegCorrupt ''chunk extends past end of file - footer disagrees with file''), d)
          else case file_read_at f (unat (cm_offset meta)) len d of
            (Inl e, d1) \<Rightarrow> (Inl (SegIo e), d1)
          | (Inr buf, d1) \<Rightarrow>
              if length buf \<noteq> len then (Inl (SegCorrupt ''short read on column chunk''), d1)
              else let payload_len = unat (u32_of_le (sub_slice 0 4 buf)); value_count = u32_of_le (sub_slice 4 8 buf);
                       codec_raw = buf ! 8; crc = u32_of_le (sub_slice 12 16 buf) in
                if Codec_from_byte codec_raw \<noteq> Some (cm_codec meta) then (Inl (SegCorrupt ''chunk codec disagrees with footer entry''), d1)
                else if value_count \<noteq> cm_value_count meta then (Inl (SegCorrupt ''chunk value_count disagrees with footer entry''), d1)
                else if CHUNK_HEADER_LEN + payload_len \<noteq> len then (Inl (SegCorrupt ''chunk length disagrees with declared payload''), d1)
                else if Crc32c_finish (Crc32c_update (Crc32c_update Crc32c_new (sub_slice 0 12 buf)) (drop CHUNK_HEADER_LEN buf)) \<noteq> crc
                then (Inl (SegCorrupt ''chunk CRC mismatch''), d1)
                else (Inr (drop CHUNK_HEADER_LEN buf), d1))"

text \<open>The loop of \<open>read_column_from\<close> over row groups, for the cell decoder of the column's type.\<close>

fun read_groups :: "(codec \<Rightarrow> bytes \<Rightarrow> u32 \<Rightarrow> 'a list \<Rightarrow> segment_error + 'a list) \<Rightarrow> file_id \<Rightarrow> column_id \<Rightarrow>
    row_group list \<Rightarrow> 'a list \<Rightarrow> mem_disk \<Rightarrow> (segment_error + 'a list) \<times> mem_disk" where
  "read_groups append_cells f col [] out d = (Inr out, d)"
| "read_groups append_cells f col (rg # rgs) out d =
     (case chunk_meta (rg_columns rg) col ''column missing from row-group'' of
        Inl e \<Rightarrow> (Inl e, d)
      | Inr meta \<Rightarrow>
          (case read_chunk_payload f meta d of
             (Inl e, d1) \<Rightarrow> (Inl e, d1)
           | (Inr payload, d1) \<Rightarrow>
               (case append_cells (cm_codec meta) payload (cm_value_count meta) out of
                  Inl e \<Rightarrow> (Inl e, d1)
                | Inr out \<Rightarrow> read_groups append_cells f col rgs out d1)))"

definition lift_data :: "('a \<Rightarrow> 'b) \<Rightarrow> (segment_error + 'a) \<times> mem_disk \<Rightarrow> (segment_error + 'b) \<times> mem_disk" where
  "lift_data c rd = (result_bind (fst rd) (\<lambda>x. Inr (c x)), snd rd)"

definition read_column_from :: "segment_reader \<Rightarrow> column_id \<Rightarrow> row_group list \<Rightarrow> mem_disk \<Rightarrow> (segment_error + column_data) \<times> mem_disk" where
  "read_column_from r col row_groups d =
     (case ColumnId_ty col of
        TyBytes \<Rightarrow>
          if col = ColPayload then lift_data DataNullable (read_groups append_nullable_bytes_cells (sr_file r) col row_groups [] d)
          else lift_data DataBytes (read_groups append_present_bytes_cells (sr_file r) col row_groups [] d)
      | TyI64 \<Rightarrow> lift_data DataI64 (read_groups append_i64_cells (sr_file r) col row_groups [] d))"

definition read_column :: "segment_reader \<Rightarrow> column_id \<Rightarrow> mem_disk \<Rightarrow> (segment_error + column_data) \<times> mem_disk" where
  "read_column r col d = read_column_from r col (ft_row_groups (sr_footer r)) d"

text \<open>A chosen set of row groups, ascending as \<open>BTreeSet\<close> iterates; an index out of range panics.\<close>

definition read_column_in_row_groups :: "segment_reader \<Rightarrow> column_id \<Rightarrow> nat list \<Rightarrow> mem_disk \<Rightarrow>
    ((segment_error + column_data) \<times> mem_disk) option" where
  "read_column_in_row_groups r col gs d =
     (if list_all (\<lambda>g. g < length (ft_row_groups (sr_footer r))) gs
      then Some (read_column_from r col (map (nth (ft_row_groups (sr_footer r))) gs) d) else None)"

definition mismatch :: "segment_error" where
  "mismatch = SegCorrupt ''column data type mismatched expected schema''"

definition as_bytes :: "segment_error \<Rightarrow> (segment_error + column_data) \<times> mem_disk \<Rightarrow> (segment_error + bytes list) \<times> mem_disk" where
  "as_bytes err rd = (result_bind (fst rd) (\<lambda>data. case data of DataBytes v \<Rightarrow> Inr v | _ \<Rightarrow> Inl err), snd rd)"

definition as_i64 :: "segment_error \<Rightarrow> (segment_error + column_data) \<times> mem_disk \<Rightarrow> (segment_error + i64 list) \<times> mem_disk" where
  "as_i64 err rd = (result_bind (fst rd) (\<lambda>data. case data of DataI64 v \<Rightarrow> Inr v | _ \<Rightarrow> Inl err), snd rd)"

definition read_bytes_column :: "segment_reader \<Rightarrow> column_id \<Rightarrow> mem_disk \<Rightarrow> (segment_error + bytes list) \<times> mem_disk" where
  "read_bytes_column r col d = as_bytes mismatch (read_column r col d)"

definition read_nullable_bytes_column :: "segment_reader \<Rightarrow> column_id \<Rightarrow> mem_disk \<Rightarrow> (segment_error + bytes option list) \<times> mem_disk" where
  "read_nullable_bytes_column r col d =
     (case read_column r col d of (res, d1) \<Rightarrow>
        (result_bind res (\<lambda>data. case data of DataNullable v \<Rightarrow> Inr v | _ \<Rightarrow> Inl mismatch), d1))"

definition read_i64_column :: "segment_reader \<Rightarrow> column_id \<Rightarrow> mem_disk \<Rightarrow> (segment_error + i64 list) \<times> mem_disk" where
  "read_i64_column r col d = as_i64 mismatch (read_column r col d)"

section \<open>Reassembling rows\<close>

text \<open>Sequencing of fallible disk reads.\<close>

definition io_bind :: "(segment_error + 'a) \<times> mem_disk \<Rightarrow> ('a \<Rightarrow> mem_disk \<Rightarrow> (segment_error + 'b) \<times> mem_disk) \<Rightarrow>
    (segment_error + 'b) \<times> mem_disk" where
  "io_bind rd f = (case rd of (Inl e, d) \<Rightarrow> (Inl e, d) | (Inr x, d) \<Rightarrow> f x d)"

definition assemble_version_keys :: "bytes list \<Rightarrow> i64 list \<Rightarrow> i64 list \<Rightarrow> segment_error + (bytes \<times> i64 \<times> u64) list" where
  "assemble_version_keys business_keys sys_from seqs =
     (if length business_keys \<noteq> length sys_from \<or> length business_keys \<noteq> length seqs
      then Inl (SegCorrupt ''business_key / sys_from / seq value counts disagree'')
      else Inr (map (\<lambda>((bk, sf), seq). (bk, sf, i64_bits seq)) (zip (zip business_keys sys_from) seqs)))"

definition version_keys :: "segment_reader \<Rightarrow> mem_disk \<Rightarrow> (segment_error + (bytes \<times> i64 \<times> u64) list) \<times> mem_disk" where
  "version_keys r d =
     io_bind (read_bytes_column r ColBusinessKey d) (\<lambda>business_keys d.
     io_bind (read_i64_column r ColSysFrom d) (\<lambda>sys_from d.
     io_bind (read_i64_column r ColSeq d) (\<lambda>seqs d. (assemble_version_keys business_keys sys_from seqs, d))))"

definition version_keys_in_row_groups :: "segment_reader \<Rightarrow> nat list \<Rightarrow> mem_disk \<Rightarrow>
    ((segment_error + (bytes \<times> i64 \<times> u64) list) \<times> mem_disk) option" where
  "version_keys_in_row_groups r gs d =
     (case map_option (as_bytes mismatch) (read_column_in_row_groups r ColBusinessKey gs d) of
        None \<Rightarrow> None
      | Some (Inl e, d1) \<Rightarrow> Some (Inl e, d1)
      | Some (Inr business_keys, d1) \<Rightarrow>
          (case map_option (as_i64 mismatch) (read_column_in_row_groups r ColSysFrom gs d1) of
             None \<Rightarrow> None
           | Some (Inl e, d2) \<Rightarrow> Some (Inl e, d2)
           | Some (Inr sys_from, d2) \<Rightarrow>
               (case map_option (as_i64 mismatch) (read_column_in_row_groups r ColSeq gs d2) of
                  None \<Rightarrow> None
                | Some (Inl e, d3) \<Rightarrow> Some (Inl e, d3)
                | Some (Inr seqs, d3) \<Rightarrow> Some (assemble_version_keys business_keys sys_from seqs, d3))))"

definition reframe_rows :: "i64 list \<Rightarrow> i64 list \<Rightarrow> bytes option list \<Rightarrow> bytes option list" where
  "reframe_rows valid_from valid_to payloads =
     map (\<lambda>i. map_option (reframe_payload (valid_from ! i) (valid_to ! i)) (payloads ! i)) [0..<length payloads]"

definition assemble_versions :: "bytes list \<Rightarrow> bytes option list \<Rightarrow> bytes list \<Rightarrow> i64 list \<Rightarrow> i64 list \<Rightarrow> i64 list \<Rightarrow> i64 list \<Rightarrow> version list" where
  "assemble_versions business_keys payloads principals sys_from seqs txn_ids committed_ats =
     map (\<lambda>i. Version_open (business_keys ! i) (sys_from ! i) (i64_bits (seqs ! i))
                \<lparr>p_txn_id = i64_bits (txn_ids ! i), p_committed_at = committed_ats ! i, p_principal = principals ! i\<rparr> (payloads ! i))
       [0..<length business_keys]"

definition read_versions :: "segment_reader \<Rightarrow> mem_disk \<Rightarrow> (segment_error + version list) \<times> mem_disk" where
  "read_versions r d =
     io_bind (read_bytes_column r ColBusinessKey d) (\<lambda>business_keys d.
     io_bind (read_nullable_bytes_column r ColPayload d) (\<lambda>payloads d.
     io_bind (read_bytes_column r ColPrincipal d) (\<lambda>principals d.
     io_bind (read_i64_column r ColSysFrom d) (\<lambda>sys_from d.
     io_bind (read_i64_column r ColSeq d) (\<lambda>seqs d.
     io_bind (read_i64_column r ColTxnId d) (\<lambda>txn_ids d.
     io_bind (read_i64_column r ColCommittedAt d) (\<lambda>committed_ats d.
       let n = length business_keys in
       if \<not> list_all (\<lambda>len. len = n) [length payloads, length principals, length sys_from, length seqs, length txn_ids, length committed_ats]
       then (Inl (SegCorrupt ''per-column value counts disagree within row-group''), d)
       else if has_column r ColValidFrom \<noteq> has_column r ColValidTo
       then (Inl (SegCorrupt ''valid-time columns must be present as a pair (valid_from with valid_to)''), d)
       else if has_column r ColValidFrom
       then io_bind (read_i64_column r ColValidFrom d) (\<lambda>valid_from d.
            io_bind (read_i64_column r ColValidTo d) (\<lambda>valid_to d.
              if length valid_from \<noteq> n \<or> length valid_to \<noteq> n
              then (Inl (SegCorrupt ''valid-time column value counts disagree within row-group''), d)
              else (Inr (assemble_versions business_keys (reframe_rows valid_from valid_to payloads) principals sys_from seqs txn_ids
                           committed_ats), d)))
       else (Inr (assemble_versions business_keys payloads principals sys_from seqs txn_ids committed_ats), d))))))))"

definition read_retraction_column :: "segment_reader \<Rightarrow> column_id \<Rightarrow> mem_disk \<Rightarrow> (segment_error + column_data) \<times> mem_disk" where
  "read_retraction_column r col d =
     (case chunk_meta (ft_retractions (sr_footer r)) col ''retraction column missing from segment'' of
        Inl e \<Rightarrow> (Inl e, d)
      | Inr meta \<Rightarrow>
          io_bind (read_chunk_payload (sr_file r) meta d) (\<lambda>payload d.
            case ColumnId_ty col of
              TyBytes \<Rightarrow> (result_bind (append_present_bytes_cells (cm_codec meta) payload (cm_value_count meta) []) (\<lambda>v. Inr (DataBytes v)), d)
            | TyI64 \<Rightarrow> (result_bind (append_i64_cells (cm_codec meta) payload (cm_value_count meta) []) (\<lambda>v. Inr (DataI64 v)), d)))"

definition retraction_mismatch :: "segment_error" where
  "retraction_mismatch = SegCorrupt ''retraction column data type mismatched expected schema''"

definition read_retraction_bytes :: "segment_reader \<Rightarrow> column_id \<Rightarrow> mem_disk \<Rightarrow> (segment_error + bytes list) \<times> mem_disk" where
  "read_retraction_bytes r col d = as_bytes retraction_mismatch (read_retraction_column r col d)"

definition read_retraction_i64 :: "segment_reader \<Rightarrow> column_id \<Rightarrow> mem_disk \<Rightarrow> (segment_error + i64 list) \<times> mem_disk" where
  "read_retraction_i64 r col d = as_i64 retraction_mismatch (read_retraction_column r col d)"

definition assemble_closes :: "bytes list \<Rightarrow> bytes list \<Rightarrow> i64 list \<Rightarrow> i64 list \<Rightarrow> i64 list \<Rightarrow> i64 list \<Rightarrow> i64 list \<Rightarrow> close list" where
  "assemble_closes keys principals sys_from seqs closed_at closed_txn closed_committed =
     map (\<lambda>i. \<lparr>cl_business_key = keys ! i, cl_sys_from = sys_from ! i, cl_seq = i64_bits (seqs ! i), cl_sys_to = closed_at ! i,
               cl_closed_by = \<lparr>p_txn_id = i64_bits (closed_txn ! i), p_committed_at = closed_committed ! i,
                               p_principal = principals ! i\<rparr>\<rparr>) [0..<length keys]"

definition read_retractions :: "segment_reader \<Rightarrow> mem_disk \<Rightarrow> (segment_error + close list) \<times> mem_disk" where
  "read_retractions r d =
     (if ft_retractions (sr_footer r) = [] then (Inr [], d)
      else
     io_bind (read_retraction_bytes r ColRetractKey d) (\<lambda>keys d.
     io_bind (read_retraction_bytes r ColRetractClosedByPrincipal d) (\<lambda>principals d.
     io_bind (read_retraction_i64 r ColRetractSysFrom d) (\<lambda>sys_from d.
     io_bind (read_retraction_i64 r ColRetractSeq d) (\<lambda>seqs d.
     io_bind (read_retraction_i64 r ColRetractClosedAt d) (\<lambda>closed_at d.
     io_bind (read_retraction_i64 r ColRetractClosedByTxn d) (\<lambda>closed_txn d.
     io_bind (read_retraction_i64 r ColRetractClosedByCommittedAt d) (\<lambda>closed_committed d.
       if \<not> list_all (\<lambda>len. len = length keys)
            [length principals, length sys_from, length seqs, length closed_at, length closed_txn, length closed_committed]
       then (Inl (SegCorrupt ''per-column value counts disagree within retraction section''), d)
       else (Inr (assemble_closes keys principals sys_from seqs closed_at closed_txn closed_committed), d)))))))))"

end
