(* ===== verification/Segment_Layout.thy ===== *)
theory Segment_Layout
  imports Segment_Reader
begin

text \<open>
  The bytes of a sealed segment: header, one frame per column chunk, footer, trailer. The reader's
  footer parser inverts the writer's footer, and a chunk read at its recorded place returns its payload.
\<close>

section \<open>Footer entries\<close>

definition chunk_ok :: "encoded_chunk \<Rightarrow> bool" where
  "chunk_ok c \<longleftrightarrow> stat_ok (ColumnId_ty (ch_col c)) (ch_stat_min c) \<and> stat_ok (ColumnId_ty (ch_col c)) (ch_stat_max c)"

definition meta_of :: "encoded_chunk \<Rightarrow> column_chunk_meta" where
  "meta_of c = \<lparr>cm_column_id = ch_col c, cm_codec = ch_codec c, cm_offset = of_nat (ch_offset c), cm_length = of_nat (ch_length c),
     cm_value_count = ch_value_count c, cm_stat_min = stat_end (ColumnId_ty (ch_col c)) (ch_stat_min c),
     cm_stat_max = stat_end (ColumnId_ty (ch_col c)) (ch_stat_max c)\<rparr>"

definition chunk_meta_bytes :: "encoded_chunk \<Rightarrow> bytes" where
  "chunk_meta_bytes c =
     word_le 2 (ColumnId_as_u16 (ch_col c)) @ [Codec_as_byte (ch_codec c)] @
     [StatBound_flag (ch_stat_min c) STAT_MIN_UNBOUNDED OR StatBound_flag (ch_stat_max c) STAT_MAX_UNBOUNDED] @
     u64_le (of_nat (ch_offset c)) @ u64_le (of_nat (ch_length c)) @ u32_le (ch_value_count c) @ u32_le 0 @
     u32_le (of_nat (length (StatBound_bytes (ch_stat_min c)))) @ StatBound_bytes (ch_stat_min c) @
     u32_le (of_nat (length (StatBound_bytes (ch_stat_max c)))) @ StatBound_bytes (ch_stat_max c)"

lemma stat_ok_length: "stat_ok ty b \<Longrightarrow> length (StatBound_bytes b) \<le> 64"
  by (cases b) (auto simp: stat_ok_def MAX_BYTES_STAT_PREFIX_LEN_def)

lemma length_chunk_meta_bytes: "chunk_ok c \<Longrightarrow> length (chunk_meta_bytes c) \<le> 164"
  using stat_ok_length [of "ColumnId_ty (ch_col c)" "ch_stat_min c"] stat_ok_length [of "ColumnId_ty (ch_col c)" "ch_stat_max c"]
  by (simp add: chunk_meta_bytes_def chunk_ok_def)

lemma encode_chunk_meta_bytes: "chunk_ok c \<Longrightarrow> encode_chunk_meta c = Inr (chunk_meta_bytes c)"
  using stat_ok_length [of "ColumnId_ty (ch_col c)" "ch_stat_min c"] stat_ok_length [of "ColumnId_ty (ch_col c)" "ch_stat_max c"]
  by (simp add: encode_chunk_meta_def chunk_ok_def u32_try_from_def chunk_meta_bytes_def Let_def)

lemma flags_and:
  "(StatBound_flag a STAT_MIN_UNBOUNDED OR StatBound_flag b STAT_MAX_UNBOUNDED) AND STAT_MIN_UNBOUNDED \<noteq> 0 \<longleftrightarrow> a = StatUnbounded"
  "(StatBound_flag a STAT_MIN_UNBOUNDED OR StatBound_flag b STAT_MAX_UNBOUNDED) AND STAT_MAX_UNBOUNDED \<noteq> 0 \<longleftrightarrow> b = StatUnbounded"
  by (cases a; cases b; simp add: STAT_MIN_UNBOUNDED_def STAT_MAX_UNBOUNDED_def)+

lemma decode_stat_ok:
  "stat_ok (ColumnId_ty col) b \<Longrightarrow> decode_stat col (StatBound_bytes b) (b = StatUnbounded) = Inr (stat_end (ColumnId_ty col) b)"
  by (cases b) (auto simp: stat_ok_def decode_stat_def stat_end_def split: column_type.split)

lemma parse_chunk_meta_at:
  assumes "chunk_ok c" "ch_value_count c = n" "length pre + length (chunk_meta_bytes c) < 2 ^ 64"
  shows "parse_chunk_meta n what (parser_at pre (chunk_meta_bytes c @ post)) = Inr (meta_of c, parser_at (pre @ chunk_meta_bytes c) post)"
proof -
  have len: "length (StatBound_bytes (ch_stat_min c)) \<le> 64" "length (StatBound_bytes (ch_stat_max c)) \<le> 64"
    using assms(1) stat_ok_length by (auto simp: chunk_ok_def)
  have st: "decode_stat (ch_col c) (StatBound_bytes (ch_stat_min c)) (ch_stat_min c = StatUnbounded) = Inr (cm_stat_min (meta_of c))"
    "decode_stat (ch_col c) (StatBound_bytes (ch_stat_max c)) (ch_stat_max c = StatUnbounded) = Inr (cm_stat_max (meta_of c))"
    using assms(1) decode_stat_ok by (auto simp: chunk_ok_def meta_of_def)
  show ?thesis using assms(2,3) len
    by (simp add: parse_chunk_meta_def chunk_meta_bytes_def parser_word_at parser_take_at flags_and st) (simp add: meta_of_def)
qed

lemma encode_chunk_metas_bytes: "\<forall>c \<in> set cs. chunk_ok c \<Longrightarrow> encode_chunk_metas cs = Inr (concat (map chunk_meta_bytes cs))"
  by (induction cs) (simp_all add: encode_chunk_meta_bytes)

lemma parse_chunk_metas_at:
  assumes "\<forall>c \<in> set cs. chunk_ok c \<and> ch_value_count c = n" "length pre + length (concat (map chunk_meta_bytes cs)) < 2 ^ 64"
  shows "parse_n (length cs) (parse_chunk_meta n what) (parser_at pre (concat (map chunk_meta_bytes cs) @ post)) =
    Inr (map meta_of cs, parser_at (pre @ concat (map chunk_meta_bytes cs)) post)"
  using assms
proof (induction cs arbitrary: pre)
  case (Cons c cs)
  have "parse_chunk_meta n what (parser_at pre (chunk_meta_bytes c @ concat (map chunk_meta_bytes cs) @ post)) =
      Inr (meta_of c, parser_at (pre @ chunk_meta_bytes c) (concat (map chunk_meta_bytes cs) @ post))"
    using Cons.prems by (intro parse_chunk_meta_at) auto
  moreover have "parse_n (length cs) (parse_chunk_meta n what) (parser_at (pre @ chunk_meta_bytes c) (concat (map chunk_meta_bytes cs) @ post)) =
      Inr (map meta_of cs, parser_at ((pre @ chunk_meta_bytes c) @ concat (map chunk_meta_bytes cs)) post)"
    using Cons.prems by (intro Cons.IH) auto
  ultimately show ?case by simp
qed simp

definition group_ok :: "row_group_chunks \<Rightarrow> bool" where
  "group_ok g \<longleftrightarrow> length (gc_chunks g) < 2 ^ 32 \<and> (\<forall>c \<in> set (gc_chunks g). chunk_ok c \<and> ch_value_count c = gc_row_count g)"

definition group_of :: "row_group_chunks \<Rightarrow> row_group" where
  "group_of g = \<lparr>rg_row_count = gc_row_count g, rg_columns = map meta_of (gc_chunks g)\<rparr>"

definition group_bytes :: "row_group_chunks \<Rightarrow> bytes" where
  "group_bytes g = u32_le (gc_row_count g) @ u32_le (of_nat (length (gc_chunks g))) @ concat (map chunk_meta_bytes (gc_chunks g))"

lemma encode_row_groups_bytes: "\<forall>g \<in> set gs. group_ok g \<Longrightarrow> encode_row_groups gs = Inr (concat (map group_bytes gs))"
  by (induction gs) (simp_all add: group_ok_def encode_chunk_metas_bytes u32_try_from_def group_bytes_def)

lemma parse_row_group_at:
  assumes "group_ok g" "length pre + length (group_bytes g) < 2 ^ 64"
  shows "parse_row_group (parser_at pre (group_bytes g @ post)) = Inr (group_of g, parser_at (pre @ group_bytes g) post)"
proof -
  let ?hd = "pre @ u32_le (gc_row_count g) @ u32_le (of_nat (length (gc_chunks g)))"
  have "parse_n (length (gc_chunks g)) (parse_chunk_meta (gc_row_count g) ''row-group row_count'')
      (parser_at ?hd (concat (map chunk_meta_bytes (gc_chunks g)) @ post)) =
      Inr (map meta_of (gc_chunks g), parser_at (?hd @ concat (map chunk_meta_bytes (gc_chunks g))) post)"
    using assms by (intro parse_chunk_metas_at) (auto simp: group_ok_def group_bytes_def)
  then show ?thesis using assms
    by (simp add: parse_row_group_def group_bytes_def parser_word_at group_ok_def group_of_def)
qed

lemma parse_row_groups_at:
  assumes "\<forall>g \<in> set gs. group_ok g" "length pre + length (concat (map group_bytes gs)) < 2 ^ 64"
  shows "parse_n (length gs) parse_row_group (parser_at pre (concat (map group_bytes gs) @ post)) =
    Inr (map group_of gs, parser_at (pre @ concat (map group_bytes gs)) post)"
  using assms
proof (induction gs arbitrary: pre)
  case (Cons g gs)
  have "parse_row_group (parser_at pre (group_bytes g @ concat (map group_bytes gs) @ post)) =
      Inr (group_of g, parser_at (pre @ group_bytes g) (concat (map group_bytes gs) @ post))"
    using Cons.prems by (intro parse_row_group_at) auto
  moreover have "parse_n (length gs) parse_row_group (parser_at (pre @ group_bytes g) (concat (map group_bytes gs) @ post)) =
      Inr (map group_of gs, parser_at ((pre @ group_bytes g) @ concat (map group_bytes gs)) post)"
    using Cons.prems by (intro Cons.IH) auto
  ultimately show ?case by simp
qed simp

section \<open>Optional sections\<close>

text \<open>What the footer needs of the codec of a section: it appends, and decoding stops at its end.\<close>

definition section_ok :: "('a \<Rightarrow> bytes \<Rightarrow> bytes option) \<Rightarrow> (bytes \<Rightarrow> 'e + 'a \<times> nat) \<Rightarrow> 'a option \<Rightarrow> bytes \<Rightarrow> bool" where
  "section_ok enc dec s e \<longleftrightarrow>
     (case s of None \<Rightarrow> e = []
      | Some x \<Rightarrow> (\<forall>out. enc x out = Some (out @ e)) \<and> (\<forall>rest. dec (e @ rest) = Inr (x, length e)))"

lemma encode_optional_ok: "section_ok enc dec s e \<Longrightarrow> encode_optional enc s out = Some (out @ e)"
  by (auto simp: section_ok_def encode_optional_def split: option.splits)

lemma parse_section_at:
  assumes "section_ok enc dec s e" "length pre + length e < 2 ^ 64"
  shows "parse_section (s \<noteq> None) dec msg (parser_at pre (e @ post)) = Inr (s, parser_at (pre @ e) post)"
proof (cases s)
  case (Some x)
  then have "dec (e @ post) = Inr (x, length e)" using assms(1) by (simp add: section_ok_def)
  then have "dec (drop (pa_cursor (parser_at pre (e @ post))) (pa_bytes (parser_at pre (e @ post)))) = Inr (x, length e)"
    by (simp add: parser_at_def)
  then show ?thesis using assms(2) by (simp add: Some parse_section_def parser_take_at)
qed (use assms(1) in \<open>simp add: section_ok_def parse_section_def\<close>)

lemma footer_flag_bits:
  "footer_flags b v g AND NOT FOOTER_FLAG_BLOOM AND NOT FOOTER_FLAG_VALID_INTERVALS AND NOT FOOTER_FLAG_RG_VALID_INTERVALS = 0"
  "footer_flags b v g AND NOT (FOOTER_FLAG_BLOOM OR FOOTER_FLAG_VALID_INTERVALS OR FOOTER_FLAG_RG_VALID_INTERVALS) = 0"
  "footer_flags b v g AND FOOTER_FLAG_BLOOM \<noteq> 0 \<longleftrightarrow> b \<noteq> None"
  "footer_flags b v g AND FOOTER_FLAG_VALID_INTERVALS \<noteq> 0 \<longleftrightarrow> v \<noteq> None"
  "footer_flags b v g AND FOOTER_FLAG_RG_VALID_INTERVALS \<noteq> 0 \<longleftrightarrow> g \<noteq> None"
  by (cases b; cases v; cases g; simp add: footer_flags_def FOOTER_FLAG_BLOOM_def FOOTER_FLAG_VALID_INTERVALS_def FOOTER_FLAG_RG_VALID_INTERVALS_def)+

definition retraction_count_of :: "encoded_chunk list \<Rightarrow> u32" where
  "retraction_count_of cs = (case cs of [] \<Rightarrow> 0 | c # _ \<Rightarrow> ch_value_count c)"

definition retractions_ok :: "encoded_chunk list \<Rightarrow> bool" where
  "retractions_ok cs \<longleftrightarrow> length cs < 2 ^ 32 \<and> (\<forall>c \<in> set cs. chunk_ok c \<and> ch_value_count c = retraction_count_of cs) \<and>
     (cs \<noteq> [] \<longrightarrow> retraction_count_of cs \<noteq> 0)"

definition footer_bytes :: "row_group_chunks list \<Rightarrow> encoded_chunk list \<Rightarrow> u32 \<Rightarrow> bytes \<Rightarrow> bytes" where
  "footer_bytes gs rs flags sections =
     u32_le 0 @ u32_le flags @ u32_le (of_nat (length gs)) @ concat (map group_bytes gs) @
     u32_le (retraction_count_of rs) @ u32_le (of_nat (length rs)) @ concat (map chunk_meta_bytes rs) @ sections"

lemma encode_footer_bytes:
  assumes "\<forall>g \<in> set gs. group_ok g" "length gs < 2 ^ 32" "retractions_ok rs"
    and "section_ok KeyBloom_encode decb b eb" "section_ok Summary_encode decv v ev" "section_ok encode_per_row_group decg g eg"
  shows "encode_footer gs rs b v g = Some (Inr (footer_bytes gs rs (footer_flags b v g) (eb @ ev @ eg)))"
  using assms(1-3)
  by (simp add: encode_footer_def u32_try_from_def encode_row_groups_bytes encode_chunk_metas_bytes retractions_ok_def
      encode_optional_ok [OF assms(4)] encode_optional_ok [OF assms(5)] encode_optional_ok [OF assms(6)]
      footer_bytes_def SCHEMA_ID_IMPLICIT_VERSION_def retraction_count_of_def Let_def)

lemma parse_footer_bytes:
  assumes "\<forall>g \<in> set gs. group_ok g" "length gs < 2 ^ 32" "retractions_ok rs"
    and "section_ok KeyBloom_encode KeyBloom_decode b eb" "section_ok Summary_encode Summary_decode v ev"
    and "section_ok encode_per_row_group (\<lambda>bs. decode_per_row_group bs (length gs)) g eg"
    and len: "length (footer_bytes gs rs (footer_flags b v g) (eb @ ev @ eg)) < 2 ^ 64"
  shows "parse_footer (footer_bytes gs rs (footer_flags b v g) (eb @ ev @ eg)) =
    Inr \<lparr>ft_schema_id = 0, ft_row_groups = map group_of gs, ft_retractions = map meta_of rs, ft_retraction_count = retraction_count_of rs,
         ft_bloom = b, ft_valid_intervals = v, ft_row_group_valid_intervals = g\<rparr>"
proof -
  let ?h1 = "u32_le 0 @ u32_le (footer_flags b v g) @ u32_le (of_nat (length gs))" and ?g = "concat (map group_bytes gs)"
  let ?h2 = "u32_le (retraction_count_of rs) @ u32_le (of_nat (length rs))" and ?r = "concat (map chunk_meta_bytes rs)"
  have bound: "12 + length ?g + 8 + length ?r + length eb + length ev + length eg < 2 ^ 64" using len by (simp add: footer_bytes_def)
  have "parse_n (length gs) parse_row_group (parser_at ?h1 (?g @ (?h2 @ ?r @ eb @ ev @ eg))) =
      Inr (map group_of gs, parser_at (?h1 @ ?g) (?h2 @ ?r @ eb @ ev @ eg))"
    using assms(1) bound by (intro parse_row_groups_at) simp_all
  moreover have "parse_n (length rs) (parse_chunk_meta (retraction_count_of rs) ''retraction_count'')
      (parser_at (?h1 @ ?g @ ?h2) (?r @ (eb @ ev @ eg))) = Inr (map meta_of rs, parser_at ((?h1 @ ?g @ ?h2) @ ?r) (eb @ ev @ eg))"
    using assms(3) bound by (intro parse_chunk_metas_at) (simp_all add: retractions_ok_def)
  moreover have "parse_section (b \<noteq> None) KeyBloom_decode msg (parser_at (?h1 @ ?g @ ?h2 @ ?r) (eb @ (ev @ eg))) =
      Inr (b, parser_at ((?h1 @ ?g @ ?h2 @ ?r) @ eb) (ev @ eg))" for msg
    using bound by (intro parse_section_at [OF assms(4)]) simp
  moreover have "parse_section (v \<noteq> None) Summary_decode msg (parser_at (?h1 @ ?g @ ?h2 @ ?r @ eb) (ev @ eg)) =
      Inr (v, parser_at ((?h1 @ ?g @ ?h2 @ ?r @ eb) @ ev) eg)" for msg
    using bound by (intro parse_section_at [OF assms(5)]) simp
  moreover have "parse_section (g \<noteq> None) (\<lambda>bs. decode_per_row_group bs (length gs)) msg (parser_at (?h1 @ ?g @ ?h2 @ ?r @ eb @ ev) (eg @ [])) =
      Inr (g, parser_at ((?h1 @ ?g @ ?h2 @ ?r @ eb @ ev) @ eg) [])" for msg
    using bound by (intro parse_section_at [OF assms(6)]) simp
  moreover have "(retraction_count_of rs = 0) = (rs = [])" using assms(3) by (auto simp: retractions_ok_def retraction_count_of_def)
  ultimately show ?thesis
    using assms(2,3) bound
    by (simp add: parse_footer_def footer_bytes_def parser_new_at parser_word_at footer_flag_bits retractions_ok_def del: not_None_eq)
qed

section \<open>Chunks on disk\<close>

definition chunk_frame :: "encoded_chunk \<Rightarrow> bytes" where
  "chunk_frame c =
     (let pfx = chunk_prefix c (of_nat (length (ch_payload c)))
      in pfx @ u32_le (crc32c (pfx @ ch_payload c)) @ ch_payload c)"

lemma length_chunk_prefix [simp]: "length (chunk_prefix c n) = 12"
  by (simp add: chunk_prefix_def)

lemma length_chunk_frame [simp]: "length (chunk_frame c) = CHUNK_HEADER_LEN + length (ch_payload c)"
  by (simp add: chunk_frame_def Let_def CHUNK_HEADER_LEN_def)

text \<open>Chunks one behind the other from an offset, each recording its own place.\<close>

fun laid_out :: "nat \<Rightarrow> encoded_chunk list \<Rightarrow> bool" where
  "laid_out off [] = True"
| "laid_out off (c # cs) \<longleftrightarrow> ch_offset c = off \<and> ch_length c = CHUNK_HEADER_LEN + length (ch_payload c) \<and> laid_out (off + ch_length c) cs"

lemma laid_out_append:
  "laid_out off (xs @ ys) \<longleftrightarrow> laid_out off xs \<and> laid_out (off + length (concat (map chunk_frame xs))) ys"
  by (induction xs arbitrary: off) (auto simp: add.assoc)

lemma laid_out_split:
  assumes "laid_out off cs" "c \<in> set cs"
  obtains pre post where "concat (map chunk_frame cs) = pre @ chunk_frame c @ post" "ch_offset c = off + length pre"
    "ch_length c = CHUNK_HEADER_LEN + length (ch_payload c)"
proof -
  obtain xs ys where cs: "cs = xs @ c # ys" using assms(2) by (meson split_list)
  show ?thesis using assms(1) by (intro that [of "concat (map chunk_frame xs)" "concat (map chunk_frame ys)"]) (auto simp: cs laid_out_append)
qed

lemma read_chunk_at:
  assumes "no_faults d" "md_store d ! f = pre @ chunk_frame c @ post" "ch_offset c = length pre"
    and "ch_length c = CHUNK_HEADER_LEN + length (ch_payload c)" "length (ch_payload c) < 2 ^ 32" "length (md_store d ! f) < 2 ^ 64"
  shows "read_chunk_payload f (meta_of c) d = (Inr (ch_payload c), d)"
proof -
  let ?n = "of_nat (length (ch_payload c)) :: u32"
  have total: "length pre + (16 + length (ch_payload c)) + length post < 2 ^ 64" using assms(2,6) by (simp add: CHUNK_HEADER_LEN_def)
  then have u: "unat (of_nat (length pre) :: u64) = length pre" "unat (of_nat (16 + length (ch_payload c)) :: u64) = 16 + length (ch_payload c)"
    by (intro unat_u64_of_nat; simp)+
  have add: "u64_checked_add (of_nat (length pre)) (of_nat (16 + length (ch_payload c))) = Some (of_nat (length pre + (16 + length (ch_payload c))))"
    using total u by (simp add: u64_checked_add_def)
  have stop: "unat (of_nat (length pre + (16 + length (ch_payload c))) :: u64) = length pre + (16 + length (ch_payload c))"
    using total by (intro unat_u64_of_nat) simp
  have rd: "file_read_at f (length pre) (16 + length (ch_payload c)) d = (Inr (chunk_frame c), d)"
    using assms(2) by (simp add: faultless_read [OF assms(1)] CHUNK_HEADER_LEN_def)
  have fields: "sub_slice 0 4 (chunk_frame c) = u32_le ?n" "sub_slice 4 8 (chunk_frame c) = u32_le (ch_value_count c)"
    "chunk_frame c ! 8 = Codec_as_byte (ch_codec c)" "sub_slice 12 16 (chunk_frame c) = u32_le (crc32c (chunk_prefix c ?n @ ch_payload c))"
    "sub_slice 0 12 (chunk_frame c) = chunk_prefix c ?n" "drop 16 (chunk_frame c) = ch_payload c"
    by (simp_all add: chunk_frame_def chunk_prefix_def Let_def sub_slice_def nth_append)
  have len: "length pre + (16 + length (ch_payload c)) \<le> length (md_store d ! f)" using assms(2) by (simp add: CHUNK_HEADER_LEN_def)
  have crc: "Crc32c_finish (Crc32c_update (Crc32c_update Crc32c_new xs) ys) = crc32c (xs @ ys)" for xs ys
    by (simp add: Crc32c_update_ref crc32c_def)
  show ?thesis using assms(5) len
    by (simp add: read_chunk_payload_def meta_of_def assms(3,4) CHUNK_HEADER_LEN_def u [unfolded of_nat_add] u(2) add stop rd fields crc file_len_def
      del: of_nat_add of_nat_numeral)
qed

subsection \<open>What the writer leaves\<close>

lemma segment_append_effect:
  assumes "file_append f bs d = (Inr u, d')" "disk_has d f"
  shows "md_store d' ! f = md_store d ! f @ bs" "disk_has d' f" "md_names d' = md_names d" "g \<noteq> f \<Longrightarrow> md_store d' ! g = md_store d ! g"
    "length (md_store d') = length (md_store d)"
  using assms mem_file.append_ok [of d f bs d'] mem_file.append_other [of f g bs d] file_append_fields [OF assms(1)]
  by (auto simp: disk_content_def disk_has_def)

definition only_grows :: "file_id \<Rightarrow> bytes \<Rightarrow> mem_disk \<Rightarrow> mem_disk \<Rightarrow> bool" where
  "only_grows f bs d d' \<longleftrightarrow> md_store d' ! f = md_store d ! f @ bs \<and> md_names d' = md_names d \<and>
     length (md_store d') = length (md_store d) \<and> (\<forall>g. g \<noteq> f \<longrightarrow> md_store d' ! g = md_store d ! g)"

lemma only_grows_trans: "only_grows f xs a b \<Longrightarrow> only_grows f ys b c \<Longrightarrow> only_grows f (xs @ ys) a c"
  by (simp add: only_grows_def)

lemma append_grows: "file_append f bs d = (Inr u, d') \<Longrightarrow> disk_has d f \<Longrightarrow> only_grows f bs d d'"
  using segment_append_effect [of f bs d u d'] by (auto simp: only_grows_def)

lemma only_grows_has: "only_grows f bs d d' \<Longrightarrow> disk_has d' g = disk_has d g"
  by (simp add: only_grows_def disk_has_def)

lemma write_chunks_grows:
  assumes "write_chunks f cs d = (Inr (), d')" "disk_has d f"
  shows "only_grows f (concat (map chunk_frame cs)) d d' \<and> (\<forall>c \<in> set cs. length (ch_payload c) < 2 ^ 32)"
  using assms
proof (induction cs arbitrary: d)
  case (Cons c cs)
  have len: "length (ch_payload c) < 2 ^ 32" using Cons.prems(1) by (auto simp: u32_try_from_def split: if_splits)
  let ?p = "chunk_prefix c (of_nat (length (ch_payload c)))"
  obtain d1 d2 u v where a: "file_append f (?p @ u32_le (crc32c (?p @ ch_payload c))) d = (Inr u, d1)"
    "file_append f (ch_payload c) d1 = (Inr v, d2)" "write_chunks f cs d2 = (Inr (), d')"
    using Cons.prems(1) len by (auto simp: u32_try_from_def Let_def split: prod.splits sum.splits)
  note g1 = append_grows [OF a(1) Cons.prems(2)]
  have h1: "disk_has d1 f" using g1 Cons.prems(2) by (simp add: only_grows_has)
  note g2 = append_grows [OF a(2) h1]
  have h2: "disk_has d2 f" using g2 h1 by (simp add: only_grows_has)
  have "only_grows f (chunk_frame c) d d2" using only_grows_trans [OF g1 g2] by (simp add: chunk_frame_def Let_def)
  then show ?case using Cons.IH [OF a(3) h2] len only_grows_trans by fastforce
qed (auto simp: only_grows_def)

definition segment_trailer :: "bytes \<Rightarrow> bytes" where
  "segment_trailer footer = u32_le (crc32c footer) @ u32_le (of_nat (length footer)) @ TRAILER_MAGIC"

lemma write_footer_grows:
  assumes "write_footer f footer d = (Inr (), d')" "disk_has d f"
  shows "only_grows f (footer @ segment_trailer footer) d d' \<and> length footer < 2 ^ 32"
proof -
  have len: "length footer < 2 ^ 32" using assms(1) by (auto simp: write_footer_def u32_try_from_def split: if_splits)
  obtain d1 d2 u v where a: "file_append f footer d = (Inr u, d1)" "file_append f (segment_trailer footer) d1 = (Inr v, d2)"
    "file_sync f d2 = (Inr (), d')"
    using assms(1) len by (auto simp: write_footer_def u32_try_from_def segment_trailer_def split: prod.splits sum.splits)
  note g1 = append_grows [OF a(1) assms(2)]
  have h1: "disk_has d1 f" using g1 assms(2) by (simp add: only_grows_has)
  have "only_grows f (footer @ segment_trailer footer) d d2" using only_grows_trans [OF g1 append_grows [OF a(2) h1]] .
  then show ?thesis using disk_sync_fields(1) [OF a(3)] len by (simp add: only_grows_def)
qed

section \<open>Opening\<close>

definition segment_bytes :: "encoded_chunk list \<Rightarrow> bytes \<Rightarrow> bytes" where
  "segment_bytes cs footer = segment_header @ concat (map chunk_frame cs) @ footer @ segment_trailer footer"

lemma length_segment_header [simp]: "length segment_header = 16"
  by (simp add: segment_header_def HEADER_MAGIC_def)

lemma length_segment_trailer [simp]: "length (segment_trailer footer) = 16"
  by (simp add: segment_trailer_def TRAILER_MAGIC_def)

lemma open_sealed:
  assumes "no_faults d" "validate_name name = Inr ()" "map_of (md_names d) name = Some f" "md_store d ! f = segment_bytes cs footer"
    and "length footer < 2 ^ 32" "parse_footer footer = Inr ft"
  shows "SegmentReader_open name d = (Inr \<lparr>sr_file = f, sr_footer = ft, sr_zone_map = build_zone_map ft\<rparr>, d)"
proof -
  define k where "k = 16 + length (concat (map chunk_frame cs))"
  let ?b = "segment_bytes cs footer"
  have b: "?b = (segment_header @ concat (map chunk_frame cs)) @ footer @ segment_trailer footer" by (simp add: segment_bytes_def)
  have fl: "file_len d f = k + length footer + 16" by (simp add: file_len_def assms(4) segment_bytes_def k_def)
  have k16: "16 \<le> k" by (simp add: k_def)
  have hd: "file_read_at f 0 16 d = (Inr segment_header, d)" by (simp add: faultless_read [OF assms(1)] assms(4) segment_bytes_def)
  have tr: "file_read_at f (k + length footer) 16 d = (Inr (segment_trailer footer), d)"
    by (simp add: faultless_read [OF assms(1)] assms(4) b k_def)
  have ftr: "file_read_at f k (length footer) d = (Inr footer, d)" by (simp add: faultless_read [OF assms(1)] assms(4) b k_def)
  have t: "sub_slice 0 4 (segment_trailer footer) = u32_le (crc32c footer)" "sub_slice 4 8 (segment_trailer footer) = u32_le (of_nat (length footer))"
    "sub_slice 8 16 (segment_trailer footer) = TRAILER_MAGIC"
    by (simp_all add: segment_trailer_def sub_slice_def TRAILER_MAGIC_def)
  have h: "sub_slice 0 8 segment_header = HEADER_MAGIC" "sub_slice 8 10 segment_header = word_le 2 FORMAT_VERSION"
    by (simp_all add: segment_header_def sub_slice_def HEADER_MAGIC_def)
  have "validate_header f d = (Inr (), d)" using fl k16
    by (simp add: validate_header_def SEG_HEADER_LEN_def TRAILER_LEN_def hd h from_le_word_le)
  moreover have "read_footer f d = (Inr ft, d)" using fl assms(5,6) k16
    by (simp add: tr ftr read_footer_def SEG_HEADER_LEN_def TRAILER_LEN_def Let_def t)
  ultimately show ?thesis by (simp add: SegmentReader_open_def disk_open_def assms(2,3) disk_check_no_faults [OF assms(1)])
qed

end
