(* ===== verification/Segment_Props.thy ===== *)
theory Segment_Props
  imports Segment_Layout
begin

text \<open>
  A sealed segment read back: the rows and retractions that were pushed, under every writer option, and
  pruning structures that never exclude a row of the segment.
\<close>

section \<open>What the encoding loops produce\<close>

definition chunk_of :: "encoded_chunk \<Rightarrow> encoded_column \<Rightarrow> bool" where
  "chunk_of c e \<longleftrightarrow> ch_codec c = ec_codec e \<and> ch_payload c = ec_payload e \<and> ch_stat_min c = ec_stat_min e \<and> ch_stat_max c = ec_stat_max e"

lemma encode_chunks_spec:
  assumes "encode_chunks enc n cols off = Some (Inr (cs, stop))"
  shows "map ch_col cs = cols \<and> laid_out off cs \<and> stop = off + length (concat (map chunk_frame cs)) \<and>
    (\<forall>c \<in> set cs. ch_value_count c = n \<and> (\<exists>e. enc (ch_col c) = Some (Inr e) \<and> chunk_of c e))"
  using assms
proof (induction cols arbitrary: off cs)
  case (Cons col cols)
  obtain e rest where e: "enc col = Some (Inr e)"
    and r: "encode_chunks enc n cols (off + (CHUNK_HEADER_LEN + length (ec_payload e))) = Some (Inr (rest, stop))"
    and cs: "cs = \<lparr>ch_col = col, ch_codec = ec_codec e, ch_offset = off, ch_length = CHUNK_HEADER_LEN + length (ec_payload e),
      ch_value_count = n, ch_payload = ec_payload e, ch_stat_min = ec_stat_min e, ch_stat_max = ec_stat_max e\<rparr> # rest"
    using Cons.prems by (auto simp: seg_bind_Inr Let_def)
  show ?case using Cons.IH [OF r] e by (auto simp: cs chunk_of_def)
qed simp

text \<open>The decoded valid-time pairs of a row group: none without valid time, one per row with it.\<close>

definition pairs_ok :: "bool \<Rightarrow> version list \<Rightarrow> (i64 \<times> i64) list option \<Rightarrow> bool" where
  "pairs_ok valid_time rows ps \<longleftrightarrow>
     (case ps of None \<Rightarrow> \<not> valid_time | Some ps \<Rightarrow> valid_time \<and> list_all2 (\<lambda>r p. decode_valid_pair r = Some (Inr p)) rows ps)"

definition group_spec :: "segment_writer \<Rightarrow> version list \<Rightarrow> row_group_chunks \<Rightarrow> valid_interval_summary option \<Rightarrow> bool" where
  "group_spec w grp g summ \<longleftrightarrow>
     length grp < 2 ^ 32 \<and> gc_row_count g = of_nat (length grp) \<and> map ch_col (gc_chunks g) = ColumnId_schema (sw_valid_time w) \<and>
     (\<exists>gp. pairs_ok (sw_valid_time w) grp gp \<and> summ = (case gp of None \<Rightarrow> None | Some ps \<Rightarrow> valid_interval_summary_for w ps) \<and>
        (\<forall>c \<in> set (gc_chunks g). ch_value_count c = of_nat (length grp) \<and>
           (\<exists>e. encode_column (ch_col c) grp gp (sw_dictionary w) = Some (Inr e) \<and> chunk_of c e)))"

lemma writer_valid_pairs_ok: "writer_valid_pairs w = Some (Inr ps) \<Longrightarrow> pairs_ok (sw_valid_time w) (sw_rows w) ps"
  by (auto simp: writer_valid_pairs_def pairs_ok_def decode_valid_pairs_def seg_bind_Inr seg_map_Inr split: if_splits)

lemma pairs_ok_slice:
  assumes "pairs_ok vt (pre @ grp @ post) ps"
  shows "pairs_ok vt grp (map_option (sub_slice (length pre) (length pre + length grp)) ps)"
proof (cases ps)
  case (Some qs)
  then obtain a b c where "qs = a @ b @ c" "length a = length pre" "list_all2 (\<lambda>r p. decode_valid_pair r = Some (Inr p)) grp b"
    using assms by (auto simp: pairs_ok_def list_all2_append1 dest: list_all2_lengthD)
  moreover from this have "length b = length grp" by (auto dest: list_all2_lengthD)
  ultimately show ?thesis using assms Some by (simp add: pairs_ok_def sub_slice_def)
qed (use assms in \<open>simp add: pairs_ok_def\<close>)

lemma encode_groups_spec:
  assumes "encode_groups w ps grps (length pre) off = Some (Inr (gs, summs, stop))" "pairs_ok (sw_valid_time w) (pre @ concat grps) ps"
  shows "length summs = length grps \<and> list_all2 (\<lambda>grp (g, s). group_spec w grp g s) grps (zip gs summs) \<and> length gs = length grps \<and>
    laid_out off (concat (map gc_chunks gs)) \<and> stop = off + length (concat (map chunk_frame (concat (map gc_chunks gs))))"
  using assms
proof (induction grps arbitrary: pre off gs summs)
  case (Cons grp grps)
  let ?gp = "map_option (sub_slice (length pre) (length pre + length grp)) ps"
  have len: "length grp < 2 ^ 32" using Cons.prems(1) by (auto simp: u32_try_from_def split: if_splits)
  obtain cs off1 gs' summs' where
      c: "encode_chunks (\<lambda>col. encode_column col grp ?gp (sw_dictionary w)) (of_nat (length grp)) (ColumnId_schema (sw_valid_time w)) off =
        Some (Inr (cs, off1))"
    and r: "encode_groups w ps grps (length pre + length grp) off1 = Some (Inr (gs', summs', stop))"
    and gs: "gs = \<lparr>gc_row_count = of_nat (length grp), gc_chunks = cs\<rparr> # gs'"
    and summs: "summs = (case ?gp of None \<Rightarrow> None | Some gp \<Rightarrow> valid_interval_summary_for w gp) # summs'"
    using Cons.prems(1) len by (auto simp: u32_try_from_def seg_bind_Inr Let_def)
  have gp: "pairs_ok (sw_valid_time w) grp ?gp" using pairs_ok_slice [of _ pre grp "concat grps"] Cons.prems(2) by simp
  note ch = encode_chunks_spec [OF c]
  have "group_spec w grp (hd gs) (hd summs)"
    unfolding group_spec_def gs summs using len ch gp by (auto intro!: exI [of _ ?gp])
  moreover have "length summs' = length grps \<and> list_all2 (\<lambda>grp (g, s). group_spec w grp g s) grps (zip gs' summs') \<and> length gs' = length grps \<and>
    laid_out off1 (concat (map gc_chunks gs')) \<and> stop = off1 + length (concat (map chunk_frame (concat (map gc_chunks gs'))))"
    using r Cons.prems(2) by (intro Cons.IH [of "pre @ grp"]) simp_all
  ultimately show ?case using ch by (simp add: gs summs laid_out_append)
qed simp

section \<open>Columns of a row group\<close>

text \<open>The payload without its valid-time prefix, and the pair of that prefix.\<close>

definition bare_payload :: "bool \<Rightarrow> version \<Rightarrow> bytes option" where
  "bare_payload vt row = (if vt then map_option (drop VALID_TIME_PREFIX_LEN) (v_payload row) else v_payload row)"

definition valid_pair_of :: "version \<Rightarrow> i64 \<times> i64" where
  "valid_pair_of row = (case decode_valid_pair row of Some (Inr p) \<Rightarrow> p | _ \<Rightarrow> (I64 0, I64 0))"

text \<open>The cells of a row as the columns hold them.\<close>

definition bytes_cell :: "bool \<Rightarrow> column_id \<Rightarrow> version \<Rightarrow> bytes option" where
  "bytes_cell vt col row =
     (case col of ColBusinessKey \<Rightarrow> Some (v_business_key row) | ColPrincipal \<Rightarrow> Some (p_principal (v_provenance row))
      | _ \<Rightarrow> bare_payload vt row)"

definition i64_cell :: "column_id \<Rightarrow> version \<Rightarrow> i64" where
  "i64_cell col row =
     (case col of ColSysFrom \<Rightarrow> v_sys_from row | ColSeq \<Rightarrow> I64 (v_seq row) | ColTxnId \<Rightarrow> I64 (p_txn_id (v_provenance row))
      | ColCommittedAt \<Rightarrow> p_committed_at (v_provenance row) | ColValidFrom \<Rightarrow> fst (valid_pair_of row) | _ \<Rightarrow> snd (valid_pair_of row))"

lemma schema_cols:
  "col \<in> set (ColumnId_schema vt) \<Longrightarrow> ColumnId_ty col = TyBytes \<Longrightarrow> col \<in> {ColBusinessKey, ColPayload, ColPrincipal}"
  "col \<in> set (ColumnId_schema vt) \<Longrightarrow> ColumnId_ty col = TyI64 \<Longrightarrow>
     col \<in> {ColSysFrom, ColSeq, ColTxnId, ColCommittedAt} \<or> vt \<and> col \<in> {ColValidFrom, ColValidTo}"
  by (auto simp: ColumnId_schema_def ColumnId_ALL_def ColumnId_ALL_WITH_VALID_TIME_def ColumnId_ty_def split: if_splits)

lemma encode_bytes_column:
  assumes "encode_column col grp gp dict = Some (Inr e)" "pairs_ok vt grp gp" "col \<in> {ColBusinessKey, ColPayload, ColPrincipal}"
  shows "encode_bytes_values (map (bytes_cell vt col) grp) dict = Inr e"
proof -
  have vt: "(gp \<noteq> None) = vt" using assms(2) by (auto simp: pairs_ok_def split: option.splits)
  have "ColumnId_ty col = TyBytes" using assms(3) by (auto simp: ColumnId_ty_def)
  then obtain vals where v: "list_all2 (\<lambda>r y. extract_bytes col r vt = Some (Inr y)) grp vals" "encode_bytes_values vals dict = Inr e"
    using assms(1) by (auto simp: encode_column_def vt seg_bind_Inr seg_map_Inr simp del: not_None_eq)
  have "y = bytes_cell vt col r" if "extract_bytes col r vt = Some (Inr y)" for r y
    using that assms(3) by (auto simp: extract_bytes_def bytes_cell_def bare_payload_def split: option.splits if_splits)
  then have "vals = map (bytes_cell vt col) grp"
    using v(1) by (auto simp: list_all2_conv_all_nth intro!: nth_equalityI)
  then show ?thesis using v(2) by simp
qed

lemma encode_i64_column:
  assumes "encode_column col grp gp dict = Some (Inr e)" "pairs_ok vt grp gp" "col \<in> set (ColumnId_schema vt)" "ColumnId_ty col = TyI64"
  shows "e = encode_i64_values (map (i64_cell col) grp)"
proof -
  obtain vals where v: "list_all2 (\<lambda>ir y. row_i64 col gp ir = Some (Inr y)) (enumerate 0 grp) vals" "e = encode_i64_values vals"
    using assms(1,4) by (auto simp: encode_column_def seg_bind_Inr seg_map_Inr)
  have len: "length vals = length grp" using v(1) by (auto dest: list_all2_lengthD)
  have "vals ! i = i64_cell col (grp ! i)" if i: "i < length grp" for i
  proof -
    have y: "row_i64 col gp (i, grp ! i) = Some (Inr (vals ! i))"
      using v(1) i by (auto simp: list_all2_conv_all_nth nth_enumerate_eq)
    show ?thesis
    proof (cases gp)
      case None
      then show ?thesis using y schema_cols(2) [OF assms(3,4)] assms(2)
        by (auto simp: row_i64_def extract_i64_def i64_cell_def pairs_ok_def)
    next
      case (Some ps)
      then have "decode_valid_pair (grp ! i) = Some (Inr (ps ! i))" "i < length ps"
        using assms(2) i by (auto simp: pairs_ok_def list_all2_conv_all_nth)
      then show ?thesis using y schema_cols(2) [OF assms(3,4)] Some
        by (auto simp: row_i64_def extract_i64_def i64_cell_def valid_pair_of_def)
    qed
  qed
  then have "vals = map (i64_cell col) grp" using len by (intro nth_equalityI) auto
  then show ?thesis using v(2) by simp
qed

section \<open>Segments that can be read back\<close>

text \<open>
  The limits a segment must respect to be readable: frames within the frame limit (what the tiers above
  check), a bloom and summaries within their counts, and, for dictionary columns, a decoded size within
  the reader's limit. The writer checks the first for versions only, and the last not at all.
\<close>

definition writer_fits :: "segment_writer \<Rightarrow> bool" where
  "writer_fits w \<longleftrightarrow>
     (\<forall>v \<in> set (sw_rows w). version_encodable v) \<and> (\<forall>c \<in> set (sw_retractions w). close_encodable c) \<and>
     (sw_dictionary w \<longrightarrow> (\<forall>grp \<in> set (row_groups_of w). sum_list (map Version_encoded_size grp) \<le> MAX_DECODED_CHUNK_LEN) \<and>
        sum_list (map Close_encoded_size (sw_retractions w)) \<le> MAX_DECODED_CHUNK_LEN) \<and>
     length (sw_rows w) * max (sw_bloom_bits_per_key w) 1 \<le> 2 ^ 37 \<and> sw_valid_interval_cap w < 2 ^ 32 \<and>
     sw_max_row_group_rows w \<noteq> Some 0"

lemma concat_chunks_of: "0 < n \<Longrightarrow> concat (chunks_of n xs) = xs"
proof (induction n xs rule: chunks_of.induct)
  case (1 n xs)
  then show ?case by (cases "xs = []") (simp_all add: chunks_of.simps [of n xs] chunks_of.simps [of n "[]"])
qed

lemma concat_row_groups: "sw_max_row_group_rows w \<noteq> Some 0 \<Longrightarrow> concat (row_groups_of w) = sw_rows w"
  by (auto simp: row_groups_of_def concat_chunks_of split: option.split)

lemma bytes_cell_size: "case bytes_cell vt col v of None \<Rightarrow> True | Some b \<Rightarrow> length b \<le> Version_encoded_size v"
  by (auto simp: bytes_cell_def bare_payload_def Version_encoded_size_def split: column_id.split option.split)

lemma expansion_le:
  assumes "\<And>x. x \<in> set xs \<Longrightarrow> (case f x of None \<Rightarrow> 0 | Some b \<Rightarrow> length b) \<le> g x"
  shows "expansion (map f xs) \<le> sum_list (map g xs)"
  using assms by (induction xs) (auto simp: expansion_def intro!: add_mono)

lemma version_column_fits:
  assumes "\<forall>v \<in> set grp. version_encodable v" "dict \<longrightarrow> sum_list (map Version_encoded_size grp) \<le> MAX_DECODED_CHUNK_LEN" "length grp < 2 ^ 32"
  shows "column_fits dict (map (bytes_cell vt col) grp)"
proof -
  have cell: "cell_fits MAX_VERSION_FRAME_LEN (bytes_cell vt col v)" if "v \<in> set grp" for v
    using that assms(1) bytes_cell_size [where vt = vt and col = col and v = v] by (auto simp: cell_fits_def version_encodable_iff split: option.splits)
  then have "cell_fits (2 ^ 32 - 2) (bytes_cell vt col v)" if "v \<in> set grp" for v
    using that by (fastforce simp: cell_fits_def MAX_VERSION_FRAME_LEN_def split: option.splits)
  moreover have "expansion (map (bytes_cell vt col) grp) \<le> sum_list (map Version_encoded_size grp)"
    using bytes_cell_size [where vt = vt and col = col] by (intro expansion_le) (fastforce split: option.splits)
  ultimately show ?thesis using assms cell by (auto simp: column_fits_def)
qed

lemma close_column_fits:
  assumes "\<forall>c \<in> set cs. close_encodable c" "dict \<longrightarrow> sum_list (map Close_encoded_size cs) \<le> MAX_DECODED_CHUNK_LEN" "length cs < 2 ^ 32"
    and "f = cl_business_key \<or> f = p_principal \<circ> cl_closed_by"
  shows "column_fits dict (map Some (map f cs))"
proof -
  have size: "length (f c) \<le> Close_encoded_size c" for c using assms(4) by (auto simp: Close_encoded_size_def)
  have cell: "length (f c) \<le> MAX_VERSION_FRAME_LEN" if "c \<in> set cs" for c
    using that assms(1) size [of c] by (auto simp: close_encodable_iff MAX_CLOSE_FRAME_LEN_def MAX_VERSION_FRAME_LEN_def)
  have "expansion (map (\<lambda>c. Some (f c)) cs) \<le> sum_list (map Close_encoded_size cs)" using size by (intro expansion_le) simp
  then show ?thesis using assms(2,3) cell by (fastforce simp: column_fits_def cell_fits_def comp_def MAX_VERSION_FRAME_LEN_def)
qed

section \<open>Reading the columns back\<close>

lemma group_chunk:
  assumes "group_spec w grp g s" "c \<in> set (gc_chunks g)"
  obtains gp e where "pairs_ok (sw_valid_time w) grp gp" "encode_column (ch_col c) grp gp (sw_dictionary w) = Some (Inr e)" "chunk_of c e"
    "ch_value_count c = of_nat (length grp)" "ch_col c \<in> set (ColumnId_schema (sw_valid_time w))" "length grp < 2 ^ 32"
proof -
  have "ch_col c \<in> set (map ch_col (gc_chunks g))" using assms(2) by simp
  then have "ch_col c \<in> set (ColumnId_schema (sw_valid_time w))" using assms(1) by (simp only: group_spec_def)
  with assms that show thesis unfolding group_spec_def by blast
qed

lemma group_bytes_cells:
  assumes "group_spec w grp g s" "c \<in> set (gc_chunks g)" "ColumnId_ty (ch_col c) = TyBytes"
  obtains e where "encode_bytes_values (map (bytes_cell (sw_valid_time w) (ch_col c)) grp) (sw_dictionary w) = Inr e" "chunk_of c e"
    "ch_value_count c = of_nat (length grp)" "length grp < 2 ^ 32"
  by (rule group_chunk [OF assms(1,2)]) (use encode_bytes_column schema_cols(1) assms(3) that in blast)

lemma group_i64_cells:
  assumes "group_spec w grp g s" "c \<in> set (gc_chunks g)" "ColumnId_ty (ch_col c) = TyI64"
  shows "chunk_of c (encode_i64_values (map (i64_cell (ch_col c)) grp)) \<and> ch_value_count c = of_nat (length grp) \<and> length grp < 2 ^ 32"
  by (rule group_chunk [OF assms(1,2)]) (use encode_i64_column assms(3) in blast)

lemma group_chunks_ok: "group_spec w grp g s \<Longrightarrow> group_ok g"
proof -
  assume g: "group_spec w grp g s"
  have "chunk_ok c" if c: "c \<in> set (gc_chunks g)" for c
  proof (cases "ColumnId_ty (ch_col c)")
    case TyBytes
    then show ?thesis by (rule group_bytes_cells [OF g c]) (auto simp: chunk_ok_def chunk_of_def TyBytes bytes_stats_ok)
  next
    case TyI64
    then show ?thesis using group_i64_cells [OF g c TyI64] by (auto simp: chunk_ok_def chunk_of_def TyI64 i64_stats_ok)
  qed
  moreover have "length (gc_chunks g) = length (ColumnId_schema (sw_valid_time w))" using g unfolding group_spec_def by (metis length_map)
  moreover have "length (ColumnId_schema (sw_valid_time w)) < 2 ^ 32"
    by (simp add: ColumnId_schema_def ColumnId_ALL_def ColumnId_ALL_WITH_VALID_TIME_def)
  ultimately show ?thesis using g unfolding group_ok_def by (auto simp: group_spec_def)
qed

text \<open>One column over all row groups: the lookup, the chunk and the decoder of each group in turn.\<close>

lemma find_meta:
  assumes "col \<in> set (map ch_col cs)"
  obtains c where "c \<in> set cs" "ch_col c = col" "List.find (\<lambda>m. cm_column_id m = col) (map meta_of cs) = Some (meta_of c)"
proof -
  obtain i where "List.find (\<lambda>m. cm_column_id m = col) (map meta_of cs) = Some (meta_of (cs ! i))" "i < length cs" "cm_column_id (meta_of (cs ! i)) = col"
    using assms by (cases "List.find (\<lambda>m. cm_column_id m = col) (map meta_of cs)")
      (auto simp: find_None_iff find_Some_iff meta_of_def)
  then show thesis by (intro that [of "cs ! i"]) (auto simp: meta_of_def)
qed

lemma read_groups_at:
  assumes "list_all2 P grps gs"
    and "\<And>grp g. P grp g \<Longrightarrow> g \<in> set gs \<Longrightarrow> col \<in> set (map ch_col (gc_chunks g))"
    and "\<And>grp g c out. P grp g \<Longrightarrow> c \<in> set (gc_chunks g) \<Longrightarrow> ch_col c = col \<Longrightarrow> g \<in> set gs \<Longrightarrow> grp \<in> set grps \<Longrightarrow>
      append_cells (ch_codec c) (ch_payload c) (ch_value_count c) out = Inr (out @ cells grp)"
    and "\<And>c. c \<in> set (concat (map gc_chunks gs)) \<Longrightarrow> read_chunk_payload f (meta_of c) d = (Inr (ch_payload c), d)"
  shows "read_groups append_cells f col (map group_of gs) out d = (Inr (out @ concat (map cells grps)), d)"
  using assms
proof (induction grps gs arbitrary: out rule: list_all2_induct)
  case (Cons grp grps g gs)
  obtain c where c: "c \<in> set (gc_chunks g)" "ch_col c = col"
    "List.find (\<lambda>m. cm_column_id m = col) (map meta_of (gc_chunks g)) = Some (meta_of c)"
    by (rule find_meta [OF Cons.prems(1) [OF Cons.hyps(1)]]) auto
  have "read_chunk_payload f (meta_of c) d = (Inr (ch_payload c), d)" using c(1) by (intro Cons.prems(3)) auto
  moreover have "append_cells (ch_codec c) (ch_payload c) (ch_value_count c) out = Inr (out @ cells grp)"
    using c(1,2) Cons.hyps(1) by (intro Cons.prems(2)) auto
  moreover have "cm_codec (meta_of c) = ch_codec c" "cm_value_count (meta_of c) = ch_value_count c" "rg_columns (group_of g) = map meta_of (gc_chunks g)"
    by (simp_all add: meta_of_def group_of_def)
  moreover have "read_groups append_cells f col (map group_of gs) (out @ cells grp) d = (Inr ((out @ cells grp) @ concat (map cells grps)), d)"
    using Cons.prems by (intro Cons.IH) auto
  ultimately show ?case using c(3) by (simp add: chunk_meta_def)
qed simp

section \<open>The sealed file\<close>

lemma bloom_section:
  assumes "length (sw_rows w) * max (sw_bloom_bits_per_key w) 1 \<le> 2 ^ 37"
  obtains e where "section_ok KeyBloom_encode KeyBloom_decode (business_key_bloom w) e"
proof (cases "business_key_bloom w")
  case None
  then show thesis by (intro that [of "[]"]) (simp add: section_ok_def)
next
  case (Some b)
  let ?keys = "map v_business_key (sw_rows w)"
  have b: "b = KeyBloom_build (sw_bloom_bits_per_key w) ?keys" using Some by (auto simp: business_key_bloom_def split: if_splits)
  have k: "length ?keys * max (sw_bloom_bits_per_key w) 1 \<le> 2 ^ 37" using assms by simp
  obtain e where e: "KeyBloom_encode b [] = Some e" using bloom_roundtrip_aux [OF k b] by metis
  have "KeyBloom_decode (e @ rest) = Inr (b, length e)" for rest
    using bloom_roundtrip_aux [OF k b, of rest] e by (metis option.inject)
  moreover have "KeyBloom_encode b out = Some (out @ e)" for out using e by (auto simp: KeyBloom_encode_def split: if_splits)
  ultimately show thesis using Some by (intro that [of e]) (simp add: section_ok_def)
qed

lemma summary_for_wf:
  assumes "valid_interval_summary_for w ps = Some s" "sw_valid_interval_cap w < 2 ^ 32"
  shows "windows_wf (vs_intervals s) \<and> vs_intervals s \<noteq> [] \<and> length (vs_intervals s) < 2 ^ 32"
  using assms Summary_build_shape [of ps "sw_valid_interval_cap w"]
  by (auto simp: valid_interval_summary_for_def Let_def Summary_is_empty_def split: if_splits)

lemma summary_section:
  assumes "\<And>x. s = Some x \<Longrightarrow> windows_wf (vs_intervals x) \<and> vs_intervals x \<noteq> [] \<and> length (vs_intervals x) < 2 ^ 32"
  obtains e where "section_ok Summary_encode Summary_decode s e"
proof (cases s)
  case None
  then show thesis by (intro that [of "[]"]) (simp add: section_ok_def)
next
  case (Some x)
  let ?e = "u32_le (of_nat (length (vs_intervals x))) @ concat (map window_bytes (vs_intervals x))"
  show thesis using assms [OF Some] Summary_decode_encoded [of x]
    by (intro that [of ?e]) (simp add: section_ok_def Some Summary_encode_windows Summary_encoded_len_def)
qed

lemma per_row_group_section:
  assumes "\<And>es. g = Some es \<Longrightarrow> (\<forall>e \<in> set es. entry_wf e) \<and> length es = n" "n < 2 ^ 32"
  obtains e where "section_ok encode_per_row_group (\<lambda>bs. decode_per_row_group bs n) g e"
proof (cases g)
  case None
  then show thesis by (intro that [of "[]"]) (simp add: section_ok_def)
next
  case (Some es)
  let ?e = "u32_le (of_nat n) @ concat (map entry_bytes es)"
  note es = assms(1) [OF Some]
  have "decode_per_row_group (?e @ rest) n = Inr (es, length ?e)" for rest
    using decode_entries_bytes [of es "u32_le (of_nat n)" rest "[]"] es assms(2)
    by (simp add: decode_per_row_group_def sub_slice_def Let_def)
  then show thesis using es assms(2)
    by (intro that [of ?e]) (simp add: section_ok_def Some encode_per_row_group_def u32_try_from_def encode_entries_bytes)
qed

text \<open>The retraction section: absent, or one chunk per retraction column.\<close>

definition retraction_spec :: "segment_writer \<Rightarrow> encoded_chunk list \<Rightarrow> bool" where
  "retraction_spec w rs \<longleftrightarrow> length (sw_retractions w) < 2 ^ 32 \<and>
     (if sw_retractions w = [] then rs = []
      else map ch_col rs = ColumnId_RETRACTION \<and>
        (\<forall>c \<in> set rs. ch_value_count c = of_nat (length (sw_retractions w)) \<and>
           (\<exists>e. encode_retraction_column (ch_col c) (sw_retractions w) (sw_dictionary w) = Some (Inr e) \<and> chunk_of c e)))"

lemma encode_retractions_spec:
  assumes "encode_retractions w off = Some (Inr rs)"
  shows "retraction_spec w rs \<and> laid_out off rs"
  using assms encode_chunks_spec [of "\<lambda>col. encode_retraction_column col (sw_retractions w) (sw_dictionary w)"]
  by (auto simp: encode_retractions_def retraction_spec_def u32_try_from_def seg_bind_Inr split: if_splits)

lemma retraction_chunk_ok:
  assumes "encode_retraction_column (ch_col c) closes dict = Some (Inr e)" "chunk_of c e"
  shows "chunk_ok c"
proof -
  have "stat_ok (ColumnId_ty (ch_col c)) (ec_stat_min e) \<and> stat_ok (ColumnId_ty (ch_col c)) (ec_stat_max e)"
    using assms(1) by (cases "ch_col c") (auto simp: encode_retraction_column_def ColumnId_ty_def bytes_stats_ok i64_stats_ok)
  then show ?thesis using assms(2) by (simp add: chunk_ok_def chunk_of_def)
qed

lemma retraction_spec_ok: "retraction_spec w rs \<Longrightarrow> retractions_ok rs"
proof -
  assume r: "retraction_spec w rs"
  show ?thesis
  proof (cases "sw_retractions w = []")
    case True
    then show ?thesis using r by (simp add: retraction_spec_def retractions_ok_def)
  next
    case False
    then have cols: "map ch_col rs = ColumnId_RETRACTION" and vc: "\<forall>c \<in> set rs. ch_value_count c = of_nat (length (sw_retractions w))"
      and ok: "\<forall>c \<in> set rs. chunk_ok c" and len: "length (sw_retractions w) < 2 ^ 32"
      using r retraction_chunk_ok by (auto simp: retraction_spec_def)
    have "length rs = 7" using arg_cong [OF cols, of length] by (simp add: ColumnId_RETRACTION_def)
    moreover have "retraction_count_of rs = of_nat (length (sw_retractions w))"
      using vc calculation by (cases rs) (simp_all add: retraction_count_of_def)
    moreover have "(of_nat (length (sw_retractions w)) :: u32) \<noteq> 0"
      using unat_u32_of_nat [OF len] False by (metis length_0_conv unat_0)
    ultimately show ?thesis using vc ok by (simp add: retractions_ok_def)
  qed
qed

definition sealed :: "segment_writer \<Rightarrow> row_group_chunks list \<Rightarrow> valid_interval_summary option list \<Rightarrow> encoded_chunk list \<Rightarrow> bool" where
  "sealed w gs summs rs \<longleftrightarrow>
     length gs = length (row_groups_of w) \<and> length summs = length (row_groups_of w) \<and>
     list_all2 (\<lambda>grp (g, s). group_spec w grp g s) (row_groups_of w) (zip gs summs) \<and> retraction_spec w rs \<and>
     laid_out SEG_HEADER_LEN (concat (map gc_chunks gs) @ rs) \<and>
     (\<forall>c \<in> set (concat (map gc_chunks gs) @ rs). length (ch_payload c) < 2 ^ 32)"

lemma sealed_groups:
  assumes "sealed w gs summs rs" "i < length (row_groups_of w)"
  shows "group_spec w (row_groups_of w ! i) (gs ! i) (summs ! i)"
  using assms list_all2_nthD [of _ "row_groups_of w" "zip gs summs" i] by (auto simp: sealed_def)

lemma summary_entries_wf:
  assumes "sealed w gs summs rs" "sw_valid_interval_cap w < 2 ^ 32"
  shows "\<forall>e \<in> set summs. entry_wf e"
proof
  fix e assume "e \<in> set summs"
  then obtain i where "i < length summs" "e = summs ! i" by (auto simp: in_set_conv_nth)
  then have "group_spec w (row_groups_of w ! i) (gs ! i) e" using sealed_groups [OF assms(1)] assms(1) by (simp add: sealed_def)
  then obtain gp where "e = (case gp of None \<Rightarrow> None | Some ps \<Rightarrow> valid_interval_summary_for w ps)" by (auto simp: group_spec_def)
  then show "entry_wf e" using summary_for_wf [OF _ assms(2)] by (auto simp: entry_wf_def split: option.splits)
qed

definition sealed_footer :: "segment_writer \<Rightarrow> row_group_chunks list \<Rightarrow> valid_interval_summary option list \<Rightarrow> encoded_chunk list \<Rightarrow>
    (i64 \<times> i64) list option \<Rightarrow> footer" where
  "sealed_footer w gs summs rs ps =
     \<lparr>ft_schema_id = 0, ft_row_groups = map group_of gs, ft_retractions = map meta_of rs, ft_retraction_count = retraction_count_of rs,
      ft_bloom = business_key_bloom w, ft_valid_intervals = writer_valid_interval_summary w ps,
      ft_row_group_valid_intervals = map_option (\<lambda>_. summs) (writer_valid_interval_summary w ps)\<rparr>"

lemma sealed_footer_parses:
  assumes "sealed w gs summs rs" "writer_fits w"
    and "encode_footer gs rs (business_key_bloom w) (writer_valid_interval_summary w ps)
      (map_option (\<lambda>_. summs) (writer_valid_interval_summary w ps)) = Some (Inr footer)" "length footer < 2 ^ 32"
  shows "parse_footer footer = Inr (sealed_footer w gs summs rs ps)"
proof -
  let ?v = "writer_valid_interval_summary w ps"
  have cap: "sw_valid_interval_cap w < 2 ^ 32" using assms(2) by (simp add: writer_fits_def)
  have n: "length gs < 2 ^ 32" using assms(3) by (auto simp: encode_footer_def u32_try_from_def split: if_splits)
  have gok: "\<forall>g \<in> set gs. group_ok g"
  proof
    fix g assume "g \<in> set gs"
    then obtain i where "i < length gs" "g = gs ! i" by (auto simp: in_set_conv_nth)
    then show "group_ok g" using sealed_groups [OF assms(1), of i] group_chunks_ok assms(1) by (auto simp: sealed_def)
  qed
  have rok: "retractions_ok rs" using assms(1) retraction_spec_ok by (auto simp: sealed_def)
  obtain eb where eb: "section_ok KeyBloom_encode KeyBloom_decode (business_key_bloom w) eb"
    using bloom_section assms(2) unfolding writer_fits_def by blast
  obtain ev where ev: "section_ok Summary_encode Summary_decode ?v ev"
    by (rule summary_section [of ?v]) (use summary_for_wf [OF _ cap] in \<open>auto simp: writer_valid_interval_summary_def split: option.splits\<close>)
  obtain eg where eg: "section_ok encode_per_row_group (\<lambda>bs. decode_per_row_group bs (length gs)) (map_option (\<lambda>_. summs) ?v) eg"
    by (rule per_row_group_section [of "map_option (\<lambda>_. summs) ?v" "length gs"])
      (use summary_entries_wf [OF assms(1) cap] assms(1) n in \<open>auto simp: sealed_def\<close>)
  have ft: "footer = footer_bytes gs rs (footer_flags (business_key_bloom w) ?v (map_option (\<lambda>_. summs) ?v)) (eb @ ev @ eg)"
    using encode_footer_bytes [OF gok n rok eb ev eg] assms(3) by simp
  show ?thesis using parse_footer_bytes [OF gok n rok eb ev eg] assms(4) unfolding ft sealed_footer_def by simp
qed

lemma finish_sealed:
  assumes "segment_finish w d = Some (Inr (), d')" "disk_has d (sw_file w)" "md_store d ! sw_file w = segment_header" "writer_fits w"
  obtains gs summs rs ps footer where "sealed w gs summs rs" "pairs_ok (sw_valid_time w) (sw_rows w) ps"
    "md_store d' ! sw_file w = segment_bytes (concat (map gc_chunks gs) @ rs) footer" "md_names d' = md_names d"
    "length footer < 2 ^ 32" "parse_footer footer = Inr (sealed_footer w gs summs rs ps)"
proof -
  obtain ps gs summs off rs d1 footer where
      ps: "writer_valid_pairs w = Some (Inr ps)"
    and gs: "encode_groups w ps (row_groups_of w) 0 SEG_HEADER_LEN = Some (Inr (gs, summs, off))"
    and rs: "encode_retractions w off = Some (Inr rs)"
    and wc: "write_chunks (sw_file w) (concat (map gc_chunks gs) @ rs) d = (Inr (), d1)"
    and ft: "encode_footer gs rs (business_key_bloom w) (writer_valid_interval_summary w ps)
      (map_option (\<lambda>_. summs) (writer_valid_interval_summary w ps)) = Some (Inr footer)"
    and wf: "write_footer (sw_file w) footer d1 = (Inr (), d')"
    using assms(1) by (auto simp: segment_finish_def Let_def split: option.splits sum.splits prod.splits simp: seg_bind_Inr)
  have pok: "pairs_ok (sw_valid_time w) (sw_rows w) ps" by (rule writer_valid_pairs_ok [OF ps])
  have cat: "concat (row_groups_of w) = sw_rows w" using assms(4) by (intro concat_row_groups) (simp add: writer_fits_def)
  note g = encode_groups_spec [of w ps "row_groups_of w" "[]", simplified, OF gs, unfolded cat, OF pok]
  note r = encode_retractions_spec [OF rs]
  note c = write_chunks_grows [OF wc assms(2)]
  have h: "disk_has d1 (sw_file w)" using c assms(2) by (auto simp: only_grows_has)
  note f = write_footer_grows [OF wf h]
  have sealed: "sealed w gs summs rs" using g r c by (auto simp: sealed_def laid_out_append simp flip: map_concat)
  moreover have "md_store d' ! sw_file w = segment_bytes (concat (map gc_chunks gs) @ rs) footer" "md_names d' = md_names d"
    using c f assms(3) by (auto simp: only_grows_def segment_bytes_def)
  ultimately show thesis using pok f sealed_footer_parses [OF sealed assms(4) ft] by (intro that) auto
qed

end
