(* ===== verification/Segment_Reopened.thy ===== *)
theory Segment_Reopened
  imports Segment_Props
begin

text \<open>
  A reader on a sealed segment: opening it gives the parsed footer, every column reads as the cells of the
  pushed rows, and the zone maps and summaries cover each row.
\<close>

section \<open>A reopened segment\<close>

text \<open>The situation of a reader on a sealed file: the file's bytes, the parsed footer and no fault.\<close>

definition reopened :: "segment_writer \<Rightarrow> row_group_chunks list \<Rightarrow> valid_interval_summary option list \<Rightarrow> encoded_chunk list \<Rightarrow>
    (i64 \<times> i64) list option \<Rightarrow> segment_reader \<Rightarrow> mem_disk \<Rightarrow> bool" where
  "reopened w gs summs rs ps r d \<longleftrightarrow> sealed w gs summs rs \<and> pairs_ok (sw_valid_time w) (sw_rows w) ps \<and> writer_fits w \<and>
     sr_footer r = sealed_footer w gs summs rs ps \<and> sr_zone_map r = build_zone_map (sr_footer r) \<and>
     (\<forall>c \<in> set (concat (map gc_chunks gs) @ rs). read_chunk_payload (sr_file r) (meta_of c) d = (Inr (ch_payload c), d))"

lemma create_effect:
  assumes "SegmentWriter_create_inner name vt d0 = (Inr w, d)"
  shows "validate_name name = Inr () \<and> map_of (md_names d) name = Some (sw_file w) \<and> disk_has d (sw_file w) \<and>
    md_store d ! sw_file w = segment_header"
proof -
  obtain f d1 u where a: "disk_create name d0 = (Inr f, d1)" "file_append f segment_header d1 = (Inr u, d)" "sw_file w = f"
    using assms by (auto simp: SegmentWriter_create_inner_def split: prod.splits sum.splits)
  have c: "validate_name name = Inr ()" "map_of (md_names d1) name = Some f" "disk_has d1 f" "md_store d1 ! f = []"
    using a(1) by (auto simp: disk_create_def disk_has_def split: prod.splits sum.splits if_splits)
  show ?thesis using segment_append_effect [OF a(2) c(3)] c a(3) by simp
qed

lemma reopen_bytes:
  assumes "SegmentWriter_create_inner name vt d0 = (Inr w0, d)" "sw_file w = sw_file w0" "writer_fits w" "segment_finish w d = Some (Inr (), d')"
    and "file_len d' (sw_file w) < 2 ^ 64" "no_faults boot" "validate_name n = Inr ()" "file_at boot n = Some (md_store d' ! sw_file w)"
  obtains gs summs rs ps r where "SegmentReader_open n boot = (Inr r, boot)" "reopened w gs summs rs ps r boot"
proof -
  note cr = create_effect [OF assms(1)]
  obtain gs summs rs ps footer where f: "sealed w gs summs rs" "pairs_ok (sw_valid_time w) (sw_rows w) ps"
    "md_store d' ! sw_file w = segment_bytes (concat (map gc_chunks gs) @ rs) footer"
    "length footer < 2 ^ 32" "parse_footer footer = Inr (sealed_footer w gs summs rs ps)"
    by (rule finish_sealed [OF assms(4)]) (use cr assms(2,3) in auto)
  obtain g where g: "map_of (md_names boot) n = Some g" "md_store boot ! g = segment_bytes (concat (map gc_chunks gs) @ rs) footer"
    using assms(8) f(3) by (auto simp: file_at_def)
  let ?cs = "concat (map gc_chunks gs) @ rs"
  let ?r = "\<lparr>sr_file = g, sr_footer = sealed_footer w gs summs rs ps, sr_zone_map = build_zone_map (sealed_footer w gs summs rs ps)\<rparr>"
  have op: "SegmentReader_open n boot = (Inr ?r, boot)" by (rule open_sealed [OF assms(6,7) g f(4,5)])
  have "read_chunk_payload g (meta_of c) boot = (Inr (ch_payload c), boot)" if c: "c \<in> set ?cs" for c
  proof -
    have lo: "laid_out SEG_HEADER_LEN ?cs" "length (ch_payload c) < 2 ^ 32" using f(1) c by (auto simp: sealed_def)
    obtain pre post where p: "concat (map chunk_frame ?cs) = pre @ chunk_frame c @ post" "ch_offset c = SEG_HEADER_LEN + length pre"
      "ch_length c = CHUNK_HEADER_LEN + length (ch_payload c)" by (rule laid_out_split [OF lo(1) c])
    have bytes: "md_store boot ! g = (segment_header @ pre) @ chunk_frame c @ (post @ footer @ segment_trailer footer)"
      unfolding g(2) segment_bytes_def p(1) by simp
    show ?thesis
      by (rule read_chunk_at [OF assms(6) bytes _ p(3) lo(2)]) (use p(2) assms(5) f(3) g(2) in \<open>simp_all add: SEG_HEADER_LEN_def file_len_def\<close>)
  qed
  then have "reopened w gs summs rs ps ?r boot" using f(1,2) assms(3) by (simp add: reopened_def)
  then show thesis using op that by blast
qed

lemma reopen:
  assumes "SegmentWriter_create_inner name vt d0 = (Inr w0, d)" "sw_file w = sw_file w0" "writer_fits w"
    and "segment_finish w d = Some (Inr (), d')" "disk_same d' boot" "no_faults boot" "file_len d' (sw_file w) < 2 ^ 64"
  obtains gs summs rs ps r where "SegmentReader_open name boot = (Inr r, boot)" "reopened w gs summs rs ps r boot"
proof -
  note cr = create_effect [OF assms(1)]
  have "disk_has d (sw_file w)" "md_store d ! sw_file w = segment_header" using cr assms(2) by auto
  then have "md_names d' = md_names d" by (rule finish_sealed [OF assms(4) _ _ assms(3)])
  then have at: "file_at boot name = Some (md_store d' ! sw_file w)" using cr assms(2,5) by (simp add: file_at_def disk_same_def)
  show thesis by (rule reopen_bytes [OF assms(1-4,7,6) _ at]) (use cr that in blast)+
qed

section \<open>Reading versions\<close>

lemma reopened_list_all2:
  assumes "reopened w gs summs rs ps r d"
  shows "list_all2 (\<lambda>grp g. \<exists>s. group_spec w grp g s) (row_groups_of w) gs"
proof -
  have "sealed w gs summs rs" using assms by (simp add: reopened_def)
  then show ?thesis using sealed_groups [of w gs summs rs] unfolding list_all2_conv_all_nth by (metis sealed_def)
qed

text \<open>Every column of the schema reads as the cells of the rows, in order.\<close>

lemma read_groups_column:
  assumes "reopened w gs summs rs ps r d" "col \<in> set (ColumnId_schema (sw_valid_time w))"
    and "\<And>grp g s c out. group_spec w grp g s \<Longrightarrow> grp \<in> set (row_groups_of w) \<Longrightarrow> c \<in> set (gc_chunks g) \<Longrightarrow> ch_col c = col \<Longrightarrow>
      length (ch_payload c) < 2 ^ 32 \<Longrightarrow> append_cells (ch_codec c) (ch_payload c) (ch_value_count c) out = Inr (out @ map h grp)"
  shows "read_groups append_cells (sr_file r) col (ft_row_groups (sr_footer r)) [] d = (Inr (map h (sw_rows w)), d)"
proof -
  have cat: "concat (map (map h) (row_groups_of w)) = map h (sw_rows w)"
    using assms(1) concat_row_groups by (simp add: reopened_def writer_fits_def flip: map_concat)
  have small: "\<forall>c \<in> set (concat (map gc_chunks gs)). length (ch_payload c) < 2 ^ 32"
    and rd: "\<And>c. c \<in> set (concat (map gc_chunks gs)) \<Longrightarrow> read_chunk_payload (sr_file r) (meta_of c) d = (Inr (ch_payload c), d)"
    using assms(1) by (auto simp: reopened_def sealed_def)
  have "read_groups append_cells (sr_file r) col (map group_of gs) [] d = (Inr ([] @ concat (map (map h) (row_groups_of w))), d)"
  proof (rule read_groups_at [OF reopened_list_all2 [OF assms(1)] _ _ rd])
    show "col \<in> set (map ch_col (gc_chunks g))" if "\<exists>s. group_spec w grp g s" for grp g
      using that assms(2) unfolding group_spec_def by (auto simp del: set_map)
    show "append_cells (ch_codec c) (ch_payload c) (ch_value_count c) out = Inr (out @ map h grp)"
      if "\<exists>s. group_spec w grp g s" "c \<in> set (gc_chunks g)" "ch_col c = col" "g \<in> set gs" "grp \<in> set (row_groups_of w)" for grp g c out
      using that small assms(3) by fastforce
  qed
  then show ?thesis using assms(1) cat by (simp add: reopened_def sealed_footer_def)
qed

lemma group_rows_fit:
  assumes "writer_fits w" "grp \<in> set (row_groups_of w)" "length grp < 2 ^ 32"
  shows "column_fits (sw_dictionary w) (map (bytes_cell (sw_valid_time w) col) grp)"
proof (rule version_column_fits)
  have "set grp \<subseteq> set (sw_rows w)" using assms(1,2) concat_row_groups [of w] unfolding writer_fits_def by (metis UN_upper set_concat)
  then show "\<forall>v \<in> set grp. version_encodable v" using assms(1) by (auto simp: writer_fits_def)
qed (use assms in \<open>auto simp: writer_fits_def\<close>)

lemma read_present_column:
  assumes "reopened w gs summs rs ps r d" "col \<in> {ColBusinessKey, ColPrincipal}"
  shows "read_bytes_column r col d = (Inr (map (the \<circ> bytes_cell (sw_valid_time w) col) (sw_rows w)), d)"
proof -
  have ty: "ColumnId_ty col = TyBytes" and sch: "col \<in> set (ColumnId_schema (sw_valid_time w))" and np: "col \<noteq> ColPayload"
    using assms(2) by (auto simp: ColumnId_ty_def ColumnId_schema_def ColumnId_ALL_def ColumnId_ALL_WITH_VALID_TIME_def)
  have "read_groups append_present_bytes_cells (sr_file r) col (ft_row_groups (sr_footer r)) [] d =
      (Inr (map (the \<circ> bytes_cell (sw_valid_time w) col) (sw_rows w)), d)"
  proof (rule read_groups_column [OF assms(1) sch])
    fix grp g s c out
    assume g: "group_spec w grp g s" "grp \<in> set (row_groups_of w)" "c \<in> set (gc_chunks g)" "ch_col c = col" "length (ch_payload c) < 2 ^ 32"
    have tyc: "ColumnId_ty (ch_col c) = TyBytes" using ty g(4) by simp
    have cells: "map (bytes_cell (sw_valid_time w) col) grp = map Some (map (the \<circ> bytes_cell (sw_valid_time w) col) grp)"
      using assms(2) by (auto simp: bytes_cell_def)
    show "append_present_bytes_cells (ch_codec c) (ch_payload c) (ch_value_count c) out = Inr (out @ map (the \<circ> bytes_cell (sw_valid_time w) col) grp)"
    proof (rule group_bytes_cells [OF g(1,3) tyc])
      fix e assume e: "encode_bytes_values (map (bytes_cell (sw_valid_time w) (ch_col c)) grp) (sw_dictionary w) = Inr e" "chunk_of c e"
        "ch_value_count c = of_nat (length grp)" "length grp < 2 ^ 32"
      have "column_fits (sw_dictionary w) (map (bytes_cell (sw_valid_time w) col) grp)"
        using assms(1) g(2) e(4) group_rows_fit by (simp add: reopened_def)
      then show ?thesis
        using present_column_roundtrip [of "map (the \<circ> bytes_cell (sw_valid_time w) col) grp" "sw_dictionary w" e out] e g(4,5)
        by (simp add: chunk_of_def cells [symmetric] del: map_map)
    qed
  qed
  then show ?thesis using ty np by (simp add: read_bytes_column_def read_column_def read_column_from_def lift_data_def as_bytes_def)
qed

lemma read_payload_column:
  assumes "reopened w gs summs rs ps r d"
  shows "read_nullable_bytes_column r ColPayload d = (Inr (map (bare_payload (sw_valid_time w)) (sw_rows w)), d)"
proof -
  have ty: "ColumnId_ty ColPayload = TyBytes" and sch: "ColPayload \<in> set (ColumnId_schema (sw_valid_time w))"
    by (auto simp: ColumnId_ty_def ColumnId_schema_def ColumnId_ALL_def ColumnId_ALL_WITH_VALID_TIME_def)
  have bc: "bytes_cell (sw_valid_time w) ColPayload = bare_payload (sw_valid_time w)" by (auto simp: bytes_cell_def)
  have "read_groups append_nullable_bytes_cells (sr_file r) ColPayload (ft_row_groups (sr_footer r)) [] d =
      (Inr (map (bare_payload (sw_valid_time w)) (sw_rows w)), d)"
  proof (rule read_groups_column [OF assms(1) sch])
    fix grp g s c out
    assume g: "group_spec w grp g s" "grp \<in> set (row_groups_of w)" "c \<in> set (gc_chunks g)" "ch_col c = ColPayload" "length (ch_payload c) < 2 ^ 32"
    have tyc: "ColumnId_ty (ch_col c) = TyBytes" using ty g(4) by simp
    show "append_nullable_bytes_cells (ch_codec c) (ch_payload c) (ch_value_count c) out = Inr (out @ map (bare_payload (sw_valid_time w)) grp)"
    proof (rule group_bytes_cells [OF g(1,3) tyc])
      fix e assume e: "encode_bytes_values (map (bytes_cell (sw_valid_time w) (ch_col c)) grp) (sw_dictionary w) = Inr e" "chunk_of c e"
        "ch_value_count c = of_nat (length grp)" "length grp < 2 ^ 32"
      have "column_fits (sw_dictionary w) (map (bytes_cell (sw_valid_time w) ColPayload) grp)"
        using assms(1) g(2) e(4) group_rows_fit by (simp add: reopened_def)
      then show ?thesis
        using nullable_column_roundtrip [of "map (bare_payload (sw_valid_time w)) grp" "sw_dictionary w" e out] e g(4,5)
        by (simp add: chunk_of_def bc)
    qed
  qed
  then show ?thesis using ty by (simp add: read_nullable_bytes_column_def read_column_def read_column_from_def lift_data_def)
qed

lemma read_integer_column:
  assumes "reopened w gs summs rs ps r d" "col \<in> set (ColumnId_schema (sw_valid_time w))" "ColumnId_ty col = TyI64"
  shows "read_i64_column r col d = (Inr (map (i64_cell col) (sw_rows w)), d)"
proof -
  have "read_groups append_i64_cells (sr_file r) col (ft_row_groups (sr_footer r)) [] d = (Inr (map (i64_cell col) (sw_rows w)), d)"
  proof (rule read_groups_column [OF assms(1,2)])
    fix grp g s c out
    assume g: "group_spec w grp g s" "c \<in> set (gc_chunks g)" "ch_col c = col"
    then have "chunk_of c (encode_i64_values (map (i64_cell col) grp)) \<and> ch_value_count c = of_nat (length grp) \<and> length grp < 2 ^ 32"
      using group_i64_cells [OF g(1,2)] assms(3) by simp
    then show "append_i64_cells (ch_codec c) (ch_payload c) (ch_value_count c) out = Inr (out @ map (i64_cell col) grp)"
      using i64_column_roundtrip [of "map (i64_cell col) grp" out] by (simp add: chunk_of_def)
  qed
  then show ?thesis using assms(3) by (simp add: read_i64_column_def read_column_def read_column_from_def lift_data_def as_i64_def)
qed

lemma io_bind_simps [simp]: "io_bind (Inr x, d) f = f x d" "io_bind (Inl e, d) f = (Inl e, d)"
  by (simp_all add: io_bind_def)

lemma reopened_has_column:
  assumes "reopened w gs summs rs ps r d" "col \<in> {ColValidFrom, ColValidTo}"
  shows "has_column r col = sw_valid_time w"
proof -
  have cols: "cm_column_id ` set (rg_columns (group_of g)) = set (ColumnId_schema (sw_valid_time w))" if mem: "g \<in> set gs" for g
  proof -
    obtain i where "i < length gs" "g = gs ! i" using mem by (auto simp: in_set_conv_nth)
    then have "group_spec w (row_groups_of w ! i) g (summs ! i)" using assms(1) sealed_groups [of w gs summs rs i] unfolding reopened_def by (metis sealed_def)
    then have "set (map ch_col (gc_chunks g)) = set (ColumnId_schema (sw_valid_time w))" unfolding group_spec_def by metis
    then show ?thesis by (simp add: group_of_def image_image meta_of_def)
  qed
  have "row_groups_of w \<noteq> []"
    using assms(1) concat_row_groups [of w] by (cases "sw_rows w = []") (auto simp: reopened_def writer_fits_def row_groups_of_def)
  then have ne: "gs \<noteq> []" using assms(1) by (auto simp: reopened_def sealed_def)
  have "has_column r col \<longleftrightarrow> (\<exists>g \<in> set gs. col \<in> cm_column_id ` set (rg_columns (group_of g)))"
    using assms(1) by (auto simp: has_column_def reopened_def sealed_footer_def list_ex_iff)
  also have "\<dots> \<longleftrightarrow> col \<in> set (ColumnId_schema (sw_valid_time w))" using cols ne by (cases gs) auto
  finally show ?thesis using assms(2) by (auto simp: ColumnId_schema_def ColumnId_ALL_def ColumnId_ALL_WITH_VALID_TIME_def)
qed

lemma reframe_bare:
  assumes "decode_valid_pair row = Some (Inr p)"
  shows "map_option (reframe_payload (fst p) (snd p)) (bare_payload True row) = v_payload row"
proof -
  obtain s where s: "v_payload row = Some s" "16 \<le> length s" "p = (i64_of_le (sub_slice 0 8 s), i64_of_le (sub_slice 8 16 s))"
    using assms by (auto simp: decode_valid_pair_def unframe_payload_def decode_prefix_def ValidInterval_new_def VALID_TIME_PREFIX_LEN_def
        split: option.splits sum.splits if_splits)
  have "i64_le (fst p) = sub_slice 0 8 s" "i64_le (snd p) = sub_slice 8 16 s" using s by (simp_all add: codec_inverse)
  then show ?thesis using s(1) sub_slice_drop [of 0 8 s] sub_slice_drop [of 8 16 s]
    by (simp add: bare_payload_def reframe_payload_def VALID_TIME_PREFIX_LEN_def)
qed

lemma reopened_versions:
  assumes "reopened w gs summs rs ps r d"
  shows "read_versions r d = (Inr (map unresolved (sw_rows w)), d)"
proof -
  let ?vt = "sw_valid_time w" and ?rows = "sw_rows w"
  note pres = read_present_column [OF assms]
  have sch: "\<And>c. c \<in> {ColSysFrom, ColSeq, ColTxnId, ColCommittedAt} \<Longrightarrow> c \<in> set (ColumnId_schema ?vt) \<and> ColumnId_ty c = TyI64"
    "\<And>c. c \<in> {ColValidFrom, ColValidTo} \<Longrightarrow> ?vt \<Longrightarrow> c \<in> set (ColumnId_schema ?vt) \<and> ColumnId_ty c = TyI64"
    by (auto simp: ColumnId_schema_def ColumnId_ALL_def ColumnId_ALL_WITH_VALID_TIME_def ColumnId_ty_def)
  have i: "\<And>c. c \<in> {ColSysFrom, ColSeq, ColTxnId, ColCommittedAt} \<or> ?vt \<and> c \<in> {ColValidFrom, ColValidTo} \<Longrightarrow>
      read_i64_column r c d = (Inr (map (i64_cell c) ?rows), d)"
    using read_integer_column [OF assms] sch by blast
  have rf: "reframe_rows (map (i64_cell ColValidFrom) ?rows) (map (i64_cell ColValidTo) ?rows) (map (bare_payload ?vt) ?rows) = map v_payload ?rows" if vt: "?vt"
  proof (rule nth_equalityI)
    fix k assume "k < length (reframe_rows (map (i64_cell ColValidFrom) ?rows) (map (i64_cell ColValidTo) ?rows) (map (bare_payload ?vt) ?rows))"
    then have k: "k < length ?rows" by (simp add: reframe_rows_def)
    obtain p where p: "decode_valid_pair (?rows ! k) = Some (Inr p)"
      using assms vt k by (auto simp: reopened_def pairs_ok_def list_all2_conv_all_nth split: option.splits)
    show "reframe_rows (map (i64_cell ColValidFrom) ?rows) (map (i64_cell ColValidTo) ?rows) (map (bare_payload ?vt) ?rows) ! k = map v_payload ?rows ! k"
      using reframe_bare [OF p] k p vt by (simp add: reframe_rows_def i64_cell_def valid_pair_of_def)
  qed (simp add: reframe_rows_def)
  have asm: "assemble_versions (map (the \<circ> bytes_cell ?vt ColBusinessKey) ?rows) (map v_payload ?rows) (map (the \<circ> bytes_cell ?vt ColPrincipal) ?rows)
      (map (i64_cell ColSysFrom) ?rows) (map (i64_cell ColSeq) ?rows) (map (i64_cell ColTxnId) ?rows) (map (i64_cell ColCommittedAt) ?rows) =
      map unresolved ?rows"
    by (rule nth_equalityI) (simp_all add: assemble_versions_def bytes_cell_def i64_cell_def Version_open_def unresolved_def)
  have bare: "bare_payload False = v_payload" by (simp add: bare_payload_def fun_eq_iff)
  show ?thesis
    using rf asm bare by (cases ?vt) (simp_all add: read_versions_def pres read_payload_column [OF assms] i reopened_has_column [OF assms] Let_def)
qed

lemma reopened_version_keys:
  assumes "reopened w gs summs rs ps r d"
  shows "version_keys r d = (Inr (map (\<lambda>v. (v_business_key v, v_sys_from v, v_seq v)) (sw_rows w)), d)"
proof -
  have sch: "ColSysFrom \<in> set (ColumnId_schema (sw_valid_time w))" "ColSeq \<in> set (ColumnId_schema (sw_valid_time w))"
    "ColumnId_ty ColSysFrom = TyI64" "ColumnId_ty ColSeq = TyI64"
    by (auto simp: ColumnId_schema_def ColumnId_ALL_def ColumnId_ALL_WITH_VALID_TIME_def ColumnId_ty_def)
  have "map (\<lambda>((bk, sf), seq). (bk, sf, i64_bits seq)) (zip (zip (map (the \<circ> bytes_cell vt ColBusinessKey) rows) (map (i64_cell ColSysFrom) rows))
      (map (i64_cell ColSeq) rows)) = map (\<lambda>v. (v_business_key v, v_sys_from v, v_seq v)) rows" for vt and rows :: "version list"
    by (induction rows) (simp_all add: bytes_cell_def i64_cell_def)
  then show ?thesis
    by (simp add: version_keys_def read_present_column [OF assms] read_integer_column [OF assms sch(1,3)] read_integer_column [OF assms sch(2,4)]
        assemble_version_keys_def)
qed

section \<open>Reading retractions\<close>

lemma retraction_column_chunk:
  assumes "reopened w gs summs rs ps r d" "sw_retractions w \<noteq> []" "col \<in> set ColumnId_RETRACTION"
  obtains c e where "chunk_meta (ft_retractions (sr_footer r)) col msg = Inr (meta_of c)"
    "read_chunk_payload (sr_file r) (meta_of c) d = (Inr (ch_payload c), d)"
    "encode_retraction_column col (sw_retractions w) (sw_dictionary w) = Some (Inr e)" "chunk_of c e" "length (ec_payload e) < 2 ^ 64"
    "cm_codec (meta_of c) = ec_codec e" "cm_value_count (meta_of c) = of_nat (length (sw_retractions w))" "length (sw_retractions w) < 2 ^ 32"
proof -
  have spec: "retraction_spec w rs" and rd: "\<forall>c \<in> set rs. read_chunk_payload (sr_file r) (meta_of c) d = (Inr (ch_payload c), d)"
    and small: "\<forall>c \<in> set rs. length (ch_payload c) < 2 ^ 32" and ft: "ft_retractions (sr_footer r) = map meta_of rs"
    using assms(1) by (auto simp: reopened_def sealed_def sealed_footer_def)
  have "col \<in> set (map ch_col rs)" using spec assms(2,3) by (simp add: retraction_spec_def del: set_map)
  then obtain c where c: "c \<in> set rs" "ch_col c = col" "List.find (\<lambda>m. cm_column_id m = col) (map meta_of rs) = Some (meta_of c)"
    by (rule find_meta)
  obtain e where e: "encode_retraction_column col (sw_retractions w) (sw_dictionary w) = Some (Inr e)" "chunk_of c e"
    "ch_value_count c = of_nat (length (sw_retractions w))" "length (sw_retractions w) < 2 ^ 32"
    using spec assms(2) c(1,2) by (auto simp: retraction_spec_def)
  have "length (ec_payload e) < 2 ^ 32" using small c(1) e(2) by (auto simp: chunk_of_def)
  then have "length (ec_payload e) < 2 ^ 64" by simp
  then show thesis using c rd e by (intro that [of c e]) (auto simp: chunk_meta_def ft meta_of_def chunk_of_def)
qed

lemma read_retraction_bytes_column:
  assumes "reopened w gs summs rs ps r d" "sw_retractions w \<noteq> []"
    and "(col, h) \<in> {(ColRetractKey, cl_business_key), (ColRetractClosedByPrincipal, p_principal \<circ> cl_closed_by)}"
  shows "read_retraction_bytes r col d = (Inr (map h (sw_retractions w)), d)"
proof -
  let ?rs = "sw_retractions w"
  have col: "col \<in> set ColumnId_RETRACTION" and ty: "ColumnId_ty col = TyBytes"
    and h: "h = cl_business_key \<or> h = p_principal \<circ> cl_closed_by"
    using assms(3) by (auto simp: ColumnId_RETRACTION_def ColumnId_ty_def)
  obtain c e where c: "chunk_meta (ft_retractions (sr_footer r)) col ''retraction column missing from segment'' = Inr (meta_of c)"
    "read_chunk_payload (sr_file r) (meta_of c) d = (Inr (ch_payload c), d)"
    "encode_retraction_column col (sw_retractions w) (sw_dictionary w) = Some (Inr e)" "chunk_of c e" "length (ec_payload e) < 2 ^ 64"
    "cm_codec (meta_of c) = ec_codec e" "cm_value_count (meta_of c) = of_nat (length ?rs)" "length ?rs < 2 ^ 32"
    by (rule retraction_column_chunk [OF assms(1,2) col])
  have enc: "encode_bytes_values (map Some (map h ?rs)) (sw_dictionary w) = Inr e"
    using c(3) assms(3) by (auto simp: encode_retraction_column_def comp_def)
  have fits: "column_fits (sw_dictionary w) (map Some (map h ?rs))"
    using assms(1) c(8) h by (intro close_column_fits) (auto simp: reopened_def writer_fits_def)
  have "append_present_bytes_cells (ec_codec e) (ec_payload e) (of_nat (length ?rs)) [] = Inr (map h ?rs)"
    using present_column_roundtrip [OF enc fits c(5), of "[]"] by simp
  moreover have "ch_payload c = ec_payload e" using c(4) by (simp add: chunk_of_def)
  ultimately show ?thesis using c(1,2,6,7) ty by (simp add: read_retraction_bytes_def read_retraction_column_def as_bytes_def)
qed

lemma read_retraction_i64_column:
  assumes "reopened w gs summs rs ps r d" "sw_retractions w \<noteq> []"
    and "(col, h) \<in> {(ColRetractSysFrom, cl_sys_from), (ColRetractSeq, I64 \<circ> cl_seq), (ColRetractClosedAt, cl_sys_to),
      (ColRetractClosedByTxn, I64 \<circ> p_txn_id \<circ> cl_closed_by), (ColRetractClosedByCommittedAt, p_committed_at \<circ> cl_closed_by)}"
  shows "read_retraction_i64 r col d = (Inr (map h (sw_retractions w)), d)"
proof -
  let ?rs = "sw_retractions w"
  have col: "col \<in> set ColumnId_RETRACTION" and ty: "ColumnId_ty col = TyI64"
    using assms(3) by (auto simp: ColumnId_RETRACTION_def ColumnId_ty_def)
  obtain c e where c: "chunk_meta (ft_retractions (sr_footer r)) col ''retraction column missing from segment'' = Inr (meta_of c)"
    "read_chunk_payload (sr_file r) (meta_of c) d = (Inr (ch_payload c), d)"
    "encode_retraction_column col (sw_retractions w) (sw_dictionary w) = Some (Inr e)" "chunk_of c e" "length (ec_payload e) < 2 ^ 64"
    "cm_codec (meta_of c) = ec_codec e" "cm_value_count (meta_of c) = of_nat (length ?rs)" "length ?rs < 2 ^ 32"
    by (rule retraction_column_chunk [OF assms(1,2) col])
  have "e = encode_i64_values (map h ?rs)" using c(3) assms(3) by (auto simp: encode_retraction_column_def)
  then have "append_i64_cells (ec_codec e) (ec_payload e) (of_nat (length ?rs)) [] = Inr (map h ?rs)"
    using i64_column_roundtrip [of "map h ?rs" "[]"] c(8) by simp
  moreover have "ch_payload c = ec_payload e" using c(4) by (simp add: chunk_of_def)
  ultimately show ?thesis using c(1,2,6,7) ty by (simp add: read_retraction_i64_def read_retraction_column_def as_i64_def)
qed

lemma reopened_retractions:
  assumes "reopened w gs summs rs ps r d"
  shows "read_retractions r d = (Inr (sw_retractions w), d)"
proof (cases "sw_retractions w = []")
  case True
  then show ?thesis using assms by (simp add: reopened_def sealed_def retraction_spec_def read_retractions_def sealed_footer_def)
next
  case False
  have "map ch_col rs = ColumnId_RETRACTION" using assms False by (simp add: reopened_def sealed_def retraction_spec_def)
  then have "rs \<noteq> []" by (auto simp: ColumnId_RETRACTION_def)
  then have ne: "ft_retractions (sr_footer r) \<noteq> []" using assms by (simp add: reopened_def sealed_footer_def)
  have asm: "assemble_closes (map cl_business_key cs) (map (p_principal \<circ> cl_closed_by) cs) (map cl_sys_from cs) (map (I64 \<circ> cl_seq) cs)
      (map cl_sys_to cs) (map (I64 \<circ> p_txn_id \<circ> cl_closed_by) cs) (map (p_committed_at \<circ> cl_closed_by) cs) = cs" for cs :: "close list"
    by (rule nth_equalityI) (simp_all add: assemble_closes_def)
  note b = read_retraction_bytes_column [OF assms False]
  note i = read_retraction_i64_column [OF assms False]
  have "read_retraction_bytes r ColRetractKey d = (Inr (map cl_business_key (sw_retractions w)), d)"
    "read_retraction_bytes r ColRetractClosedByPrincipal d = (Inr (map (p_principal \<circ> cl_closed_by) (sw_retractions w)), d)"
    "read_retraction_i64 r ColRetractSysFrom d = (Inr (map cl_sys_from (sw_retractions w)), d)"
    "read_retraction_i64 r ColRetractSeq d = (Inr (map (I64 \<circ> cl_seq) (sw_retractions w)), d)"
    "read_retraction_i64 r ColRetractClosedAt d = (Inr (map cl_sys_to (sw_retractions w)), d)"
    "read_retraction_i64 r ColRetractClosedByTxn d = (Inr (map (I64 \<circ> p_txn_id \<circ> cl_closed_by) (sw_retractions w)), d)"
    "read_retraction_i64 r ColRetractClosedByCommittedAt d = (Inr (map (p_committed_at \<circ> cl_closed_by) (sw_retractions w)), d)"
    by (intro b i; simp)+
  then show ?thesis using ne asm by (simp add: read_retractions_def)
qed

section \<open>Pruning\<close>

text \<open>The cells a predicate sees: bare payloads and the decoded valid-time pair; a NULL payload has no cell.\<close>

definition row_cells :: "bool \<Rightarrow> version \<Rightarrow> cells" where
  "row_cells vt v col =
     (if col \<in> set (ColumnId_schema vt)
      then (case ColumnId_ty col of TyBytes \<Rightarrow> map_option ZBytes (bytes_cell vt col v) | TyI64 \<Rightarrow> Some (ZI64 (i64_cell col v)))
      else None)"

lemma row_cells_sys_from: "row_cells vt v ColSysFrom = Some (ZI64 (v_sys_from v))"
  by (auto simp: row_cells_def ColumnId_schema_def ColumnId_ALL_def ColumnId_ALL_WITH_VALID_TIME_def ColumnId_ty_def i64_cell_def)

lemma meta_of_typed: "meta_typed (meta_of c)"
  by (auto simp: meta_typed_def meta_of_def stat_end_def end_typed_def split: stat_bound.split column_type.split)

lemma group_cell_covered:
  assumes "group_spec w grp g s" "v \<in> set grp" "row_cells (sw_valid_time w) v col = Some x"
  obtains c where "c \<in> set (gc_chunks g)" "ch_col c = col" "chunk_covers (meta_of c) x"
proof -
  have col: "col \<in> set (ColumnId_schema (sw_valid_time w))" using assms(3) by (auto simp: row_cells_def split: if_splits)
  then have "col \<in> set (map ch_col (gc_chunks g))" using assms(1) unfolding group_spec_def by metis
  then obtain c where c: "c \<in> set (gc_chunks g)" "ch_col c = col" by auto
  have "chunk_covers (meta_of c) x"
  proof (cases "ColumnId_ty col")
    case TyBytes
    then obtain b where b: "bytes_cell (sw_valid_time w) col v = Some b" "x = ZBytes b" using assms(3) col by (auto simp: row_cells_def)
    have "ColumnId_ty (ch_col c) = TyBytes" using TyBytes c(2) by simp
    then show ?thesis
    proof (rule group_bytes_cells [OF assms(1) c(1)])
      fix e assume e: "encode_bytes_values (map (bytes_cell (sw_valid_time w) (ch_col c)) grp) (sw_dictionary w) = Inr e" "chunk_of c e"
      have "Some b \<in> set (map (bytes_cell (sw_valid_time w) (ch_col c)) grp)" using b(1) assms(2) c(2) by (metis image_eqI set_map)
      then have "stats_cover TyBytes e x" using bytes_stats_cover [OF e(1)] b(2) by simp
      then show ?thesis using e(2) c(2) TyBytes b(2) by (simp add: chunk_covers_def stats_cover_def meta_of_def chunk_of_def)
    qed
  next
    case TyI64
    then have x: "x = ZI64 (i64_cell col v)" using assms(3) col by (auto simp: row_cells_def)
    have "chunk_of c (encode_i64_values (map (i64_cell col) grp))" using group_i64_cells [OF assms(1) c(1)] TyI64 c(2) by simp
    moreover have "stats_cover TyI64 (encode_i64_values (map (i64_cell col) grp)) x" unfolding x using assms(2) by (intro i64_stats_cover) simp
    ultimately show ?thesis using c(2) TyI64 x by (simp add: chunk_covers_def stats_cover_def meta_of_def chunk_of_def)
  qed
  then show thesis using c that by blast
qed

lemma metas_cover_row:
  assumes "group_spec w grp g s" "v \<in> set grp" "set (gc_chunks g) \<subseteq> set cs"
  shows "zones_cover (zone_map_from_metas (map meta_of cs)) (row_cells (sw_valid_time w) v)"
proof (rule zones_cover_metas)
  show "\<forall>m \<in> set (map meta_of cs). meta_typed m" by (simp add: meta_of_typed)
  fix col x assume "row_cells (sw_valid_time w) v col = Some x"
  then obtain c where "c \<in> set (gc_chunks g)" "ch_col c = col" "chunk_covers (meta_of c) x" by (rule group_cell_covered [OF assms(1,2)])
  then show "\<exists>m \<in> set (map meta_of cs). cm_column_id m = col \<and> chunk_covers m x"
    using assms(3) by (auto intro!: bexI [of _ c] simp: meta_of_def)
qed

lemma pairs_ok_mem:
  assumes "pairs_ok vt rows (Some qs)" "v \<in> set rows"
  shows "valid_pair_of v \<in> set qs"
  using assms by (auto simp: pairs_ok_def valid_pair_of_def list_all2_conv_all_nth in_set_conv_nth)

lemma summary_for_covers:
  assumes "valid_interval_summary_for w qs = Some s" "p \<in> set qs"
  shows "fst p \<le> point \<Longrightarrow> point < snd p \<Longrightarrow> Summary_covers s point"
    and "fst p \<le> q \<Longrightarrow> q < snd p \<Longrightarrow> lo \<le> q \<Longrightarrow> q < hi \<Longrightarrow> Summary_overlaps s lo hi"
proof -
  have s: "s = Summary_build qs (sw_valid_interval_cap w)" using assms(1) by (auto simp: valid_interval_summary_for_def Let_def split: if_splits)
  note sh = Summary_build_shape(1,2) [of qs "sw_valid_interval_cap w", folded s]
  have pt: "q \<in> points (vs_intervals s)" if "fst p \<le> q" "q < snd p" for q
    using sh(2) assms(2) that by (auto simp: points_def)
  show "fst p \<le> point \<Longrightarrow> point < snd p \<Longrightarrow> Summary_covers s point" using pt sh(1) by (simp add: Summary_covers_iff)
  show "fst p \<le> q \<Longrightarrow> q < snd p \<Longrightarrow> lo \<le> q \<Longrightarrow> q < hi \<Longrightarrow> Summary_overlaps s lo hi"
    using pt [of q] sh(1) by (auto simp: Summary_overlaps_iff)
qed

text \<open>What a summary, or its absence, admits.\<close>

lemma segment_summary_admits:
  assumes "pairs_ok vt rows gp" "v \<in> set rows" "fst (valid_pair_of v) \<le> q" "q < snd (valid_pair_of v)"
    and "summ = (case gp of None \<Rightarrow> None | Some ps \<Rightarrow> valid_interval_summary_for w ps)"
  shows "case summ of None \<Rightarrow> True | Some s \<Rightarrow> Summary_covers s q"
    and "lo \<le> q \<Longrightarrow> q < hi \<Longrightarrow> case summ of None \<Rightarrow> True | Some s \<Rightarrow> Summary_overlaps s lo hi"
proof -
  have mem: "valid_pair_of v \<in> set qs" if "gp = Some qs" for qs using pairs_ok_mem [of vt rows qs v] assms(1,2) that by simp
  have "Summary_covers s q \<and> (lo \<le> q \<longrightarrow> q < hi \<longrightarrow> Summary_overlaps s lo hi)" if s: "summ = Some s" for s
  proof -
    obtain qs where qs: "gp = Some qs" "valid_interval_summary_for w qs = Some s" using s assms(5) by (cases gp) auto
    note c = summary_for_covers [OF qs(2) mem [OF qs(1)]]
    show ?thesis using c(1) [OF assms(3,4)] c(2) [OF assms(3,4)] by simp
  qed
  then show "case summ of None \<Rightarrow> True | Some s \<Rightarrow> Summary_covers s q"
    "lo \<le> q \<Longrightarrow> q < hi \<Longrightarrow> case summ of None \<Rightarrow> True | Some s \<Rightarrow> Summary_overlaps s lo hi"
    by (simp_all split: option.split)
qed

section \<open>Properties\<close>

text \<open>
  A writer created for a file, whatever was pushed and whichever options were set since, sealed under
  any faults that did not stop it, and then found by a boot without faults.
\<close>

definition sealed_run :: "string \<Rightarrow> segment_writer \<Rightarrow> mem_disk \<Rightarrow> bool" where
  "sealed_run name w boot \<longleftrightarrow>
     (\<exists>vt d0 w0 d d'. SegmentWriter_create_inner name vt d0 = (Inr w0, d) \<and> sw_file w = sw_file w0 \<and>
        segment_finish w d = Some (Inr (), d') \<and> disk_same d' boot \<and> no_faults boot \<and> file_len d' (sw_file w) < 2 ^ 64)"

lemma sealed_run_reopen:
  assumes "sealed_run name w boot" "writer_fits w"
  obtains gs summs rs ps r where "SegmentReader_open name boot = (Inr r, boot)" "reopened w gs summs rs ps r boot"
  using assms(1) unfolding sealed_run_def by (elim exE conjE) (rule reopen [OF _ _ assms(2)])

lemma reopened_zone_maps:
  assumes "reopened w gs summs rs ps r d" "i < length (row_groups_of w)" "v \<in> set (row_groups_of w ! i)"
  shows "zones_cover (sr_zone_map r) (row_cells (sw_valid_time w) v)" "zones_cover (row_group_zone_maps r ! i) (row_cells (sw_valid_time w) v)"
proof -
  have s: "sealed w gs summs rs" "sr_footer r = sealed_footer w gs summs rs ps" "sr_zone_map r = build_zone_map (sr_footer r)"
    using assms(1) by (auto simp: reopened_def)
  have i: "i < length gs" using s(1) assms(2) by (simp add: sealed_def)
  note g = sealed_groups [OF s(1) assms(2)]
  have "concat (map rg_columns (map group_of gs)) @ map meta_of rs = map meta_of (concat (map gc_chunks gs) @ rs)"
    by (simp add: map_concat comp_def group_of_def)
  moreover have "set (gc_chunks (gs ! i)) \<subseteq> set (concat (map gc_chunks gs) @ rs)" using i by (auto intro!: bexI [of _ "gs ! i"])
  ultimately show "zones_cover (sr_zone_map r) (row_cells (sw_valid_time w) v)"
    using metas_cover_row [OF g assms(3), of "concat (map gc_chunks gs) @ rs"] by (simp add: s(2,3) build_zone_map_def sealed_footer_def)
  show "zones_cover (row_group_zone_maps r ! i) (row_cells (sw_valid_time w) v)"
    using metas_cover_row [OF g assms(3) subset_refl] i by (simp add: row_group_zone_maps_def s(2) sealed_footer_def group_of_def)
qed

end
