(* ===== verification/Segment_Seals.thy ===== *)
theory Segment_Seals
  imports Segment_Reopened
begin

text \<open>
  Sealing succeeds: without faults and within explicit size bounds every encoding loop, the writes and
  the footer go through. With it the read-back properties apply to concrete segments.
\<close>

section \<open>Encoding within bounds\<close>

lemma bytes_minmax_ok: "\<forall>b. Some b \<in> set vs \<longrightarrow> length b < 2 ^ 32 \<Longrightarrow> \<exists>r. bytes_minmax vs lo hi = Inr r"
  by (induction vs lo hi rule: bytes_minmax.induct) (auto simp: u32_try_from_def)

lemma encode_bytes_values_ok:
  assumes "\<forall>b. Some b \<in> set vs \<longrightarrow> length b < 2 ^ 32"
  obtains e where "encode_bytes_values vs dict = Inr e" "length (ec_payload e) \<le> plain_size vs"
proof -
  obtain lo hi where "bytes_minmax vs None None = Inr (lo, hi)" using bytes_minmax_ok [OF assms, of None None] by auto
  then obtain e where e: "encode_bytes_values vs dict = Inr e" by (simp add: encode_bytes_values_def Let_def case_prod_unfold)
  then show thesis using encode_bytes_payload [OF e] that [OF e] by (auto simp: length_plain)
qed

lemma plain_size_le:
  assumes "\<And>x. x \<in> set xs \<Longrightarrow> 4 + (case f x of None \<Rightarrow> 0 | Some b \<Rightarrow> length b) \<le> g x"
  shows "plain_size (map f xs) \<le> sum_list (map g xs)"
  using assms by (induction xs) (auto simp: plain_size_def intro!: add_mono)

lemma cell_size: "4 + (case bytes_cell vt col v of None \<Rightarrow> 0 | Some b \<Rightarrow> length b) \<le> Version_encoded_size v"
  by (auto simp: bytes_cell_def bare_payload_def Version_encoded_size_def VERSION_HEADER_LEN_def split: column_id.split option.split)

lemma rows_size: "length grp * 44 \<le> sum_list (map Version_encoded_size grp)"
  by (induction grp) (auto simp: Version_encoded_size_def VERSION_HEADER_LEN_def)

lemma closes_size: "length cs * 40 \<le> sum_list (map Close_encoded_size cs)"
  by (induction cs) (auto simp: Close_encoded_size_def CLOSE_HEADER_LEN_def)

lemma seg_map_ok: "\<forall>x \<in> set xs. f x = Some (Inr (g x)) \<Longrightarrow> seg_map f xs = Some (Inr (map g xs))"
  by (induction xs) simp_all

lemma valid_payload_prefix: "decode_valid_pair row = Some (Inr p) \<Longrightarrow> \<exists>s. v_payload row = Some s \<and> VALID_TIME_PREFIX_LEN \<le> length s"
  by (auto simp: decode_valid_pair_def unframe_payload_def decode_prefix_def split: option.splits sum.splits if_splits)

lemma length_i64_payload: "length (ec_payload (encode_i64_values vs)) = length vs * 8"
  by (simp add: encode_i64_values_def case_prod_unfold Let_def length_concat_fixed [of _ _ 8])

lemma encode_column_ok:
  assumes "pairs_ok vt grp gp" "col \<in> set (ColumnId_schema vt)" "\<forall>v \<in> set grp. version_encodable v"
  obtains e where "encode_column col grp gp dict = Some (Inr e)" "length (ec_payload e) \<le> sum_list (map Version_encoded_size grp)"
proof (cases "ColumnId_ty col")
  case TyBytes
  then have col: "col \<in> {ColBusinessKey, ColPayload, ColPrincipal}" using schema_cols(1) assms(2) by simp
  have vt: "(gp \<noteq> None) = vt" using assms(1) by (auto simp: pairs_ok_def split: option.splits)
  have pay: "vt \<Longrightarrow> \<exists>s. v_payload v = Some s \<and> VALID_TIME_PREFIX_LEN \<le> length s" if "v \<in> set grp" for v
    using assms(1) that valid_payload_prefix by (fastforce simp: pairs_ok_def list_all2_conv_all_nth in_set_conv_nth split: option.splits)
  have "extract_bytes col v vt = Some (Inr (bytes_cell vt col v))" if "v \<in> set grp" for v
    using col pay [OF that] by (auto simp: extract_bytes_def bytes_cell_def bare_payload_def split: option.split)
  then have m: "seg_map (\<lambda>row. extract_bytes col row vt) grp = Some (Inr (map (bytes_cell vt col) grp))" by (intro seg_map_ok) simp
  have "\<forall>b. Some b \<in> set (map (bytes_cell vt col) grp) \<longrightarrow> length b < 2 ^ 32"
  proof (intro allI impI)
    fix b assume "Some b \<in> set (map (bytes_cell vt col) grp)"
    then obtain v where v: "v \<in> set grp" "bytes_cell vt col v = Some b" by auto
    show "length b < 2 ^ 32" using cell_size [of vt col v] v assms(3) by (fastforce simp: version_encodable_iff MAX_VERSION_FRAME_LEN_def)
  qed
  then show thesis
  proof (rule encode_bytes_values_ok)
    fix e assume e: "encode_bytes_values (map (bytes_cell vt col) grp) dict = Inr e" "length (ec_payload e) \<le> plain_size (map (bytes_cell vt col) grp)"
    have "plain_size (map (bytes_cell vt col) grp) \<le> sum_list (map Version_encoded_size grp)" by (intro plain_size_le cell_size)
    then show thesis using e m TyBytes vt by (intro that [of e]) (simp_all add: encode_column_def del: not_None_eq)
  qed
next
  case TyI64
  have "row_i64 col gp ir = Some (Inr (i64_cell col (snd ir)))" if ir: "ir \<in> set (enumerate 0 grp)" for ir
  proof -
    define i where "i = fst ir"
    have i: "ir = (i, grp ! i)" "i < length grp" using ir by (auto simp: in_set_enumerate_eq i_def prod_eq_iff)
    have p: "decode_valid_pair (grp ! i) = Some (Inr (qs ! i))" "i < length qs" if "gp = Some qs" for qs
      using assms(1) i(2) that by (auto simp: pairs_ok_def list_all2_conv_all_nth)
    show ?thesis using schema_cols(2) [OF assms(2) TyI64] assms(1) p
      by (cases gp) (auto simp: row_i64_def extract_i64_def i64_cell_def valid_pair_of_def pairs_ok_def i(1))
  qed
  then have m: "seg_map (row_i64 col gp) (enumerate 0 grp) = Some (Inr (map (i64_cell col \<circ> snd) (enumerate 0 grp)))"
    by (intro seg_map_ok) simp
  show thesis using length_i64_payload m TyI64 rows_size [of grp] by (intro that [of "encode_i64_values (map (i64_cell col \<circ> snd) (enumerate 0 grp))"])
      (simp_all add: encode_column_def)
qed

lemma encode_retraction_column_ok:
  assumes "col \<in> set ColumnId_RETRACTION" "\<forall>c \<in> set cs. close_encodable c"
  obtains e where "encode_retraction_column col cs dict = Some (Inr e)" "length (ec_payload e) \<le> sum_list (map Close_encoded_size cs)"
proof -
  have b: "\<exists>e. encode_bytes_values (map (Some \<circ> h) cs) dict = Inr e \<and> length (ec_payload e) \<le> sum_list (map Close_encoded_size cs)"
    if h: "\<And>c. 4 + length (h c) \<le> Close_encoded_size c" for h
  proof -
    have small: "\<forall>b. Some b \<in> set (map (Some \<circ> h) cs) \<longrightarrow> length b < 2 ^ 32"
    proof (intro allI impI)
      fix b assume "Some b \<in> set (map (Some \<circ> h) cs)"
      then obtain c where c: "c \<in> set cs" "b = h c" by auto
      have "Close_encoded_size c \<le> MAX_CLOSE_FRAME_LEN" using assms(2) c(1) by (simp add: close_encodable_iff)
      then show "length b < 2 ^ 32" using h [of c] c(2) by (simp add: MAX_CLOSE_FRAME_LEN_def)
    qed
    have size: "plain_size (map (Some \<circ> h) cs) \<le> sum_list (map Close_encoded_size cs)" using h by (intro plain_size_le) simp
    show ?thesis by (rule encode_bytes_values_ok [OF small, of dict]) (use size in \<open>auto intro: order_trans\<close>)
  qed
  have "\<exists>e. encode_retraction_column col cs dict = Some (Inr e) \<and> length (ec_payload e) \<le> sum_list (map Close_encoded_size cs)"
    using assms(1) b [of cl_business_key] b [of "p_principal \<circ> cl_closed_by"] closes_size [of cs]
    by (auto simp: ColumnId_RETRACTION_def encode_retraction_column_def length_i64_payload comp_assoc Close_encoded_size_def CLOSE_HEADER_LEN_def)
  then show thesis using that by blast
qed

lemma encode_chunks_ok:
  assumes "\<And>col. col \<in> set cols \<Longrightarrow> \<exists>e. enc col = Some (Inr e) \<and> length (ec_payload e) \<le> n"
  shows "\<exists>cs stop. encode_chunks enc vc cols off = Some (Inr (cs, stop)) \<and> (\<forall>c \<in> set cs. length (ch_payload c) \<le> n)"
  using assms
proof (induction cols arbitrary: off)
  case (Cons col cols)
  obtain e where e: "enc col = Some (Inr e)" "length (ec_payload e) \<le> n" using Cons.prems by auto
  obtain cs stop where "encode_chunks enc vc cols (off + (CHUNK_HEADER_LEN + length (ec_payload e))) = Some (Inr (cs, stop))"
    "\<forall>c \<in> set cs. length (ch_payload c) \<le> n" using Cons by (metis list.set_intros(2))
  then show ?case using e by (simp add: Let_def)
qed simp

lemma encode_groups_ok:
  assumes "pairs_ok (sw_valid_time w) (pre @ concat grps) ps" "\<forall>v \<in> set (concat grps). version_encodable v"
    and "\<forall>grp \<in> set grps. length grp < 2 ^ 32" "sum_list (map Version_encoded_size (concat grps)) \<le> n"
  shows "\<exists>gs summs stop. encode_groups w ps grps (length pre) off = Some (Inr (gs, summs, stop)) \<and>
    (\<forall>g \<in> set gs. \<forall>c \<in> set (gc_chunks g). length (ch_payload c) \<le> n)"
  using assms
proof (induction grps arbitrary: pre off)
  case (Cons grp grps)
  let ?gp = "map_option (sub_slice (length pre) (length pre + length grp)) ps"
  have gp: "pairs_ok (sw_valid_time w) grp ?gp" using pairs_ok_slice [of _ pre grp "concat grps"] Cons.prems(1) by simp
  have "\<exists>e. encode_column col grp ?gp (sw_dictionary w) = Some (Inr e) \<and> length (ec_payload e) \<le> n" if "col \<in> set (ColumnId_schema (sw_valid_time w))" for col
    by (rule encode_column_ok [OF gp that, of "sw_dictionary w"]) (use Cons.prems(2,4) in auto)
  then obtain cs stop where cs: "encode_chunks (\<lambda>col. encode_column col grp ?gp (sw_dictionary w)) (of_nat (length grp))
      (ColumnId_schema (sw_valid_time w)) off = Some (Inr (cs, stop))" "\<forall>c \<in> set cs. length (ch_payload c) \<le> n"
    using encode_chunks_ok [of "ColumnId_schema (sw_valid_time w)" "\<lambda>col. encode_column col grp ?gp (sw_dictionary w)" n "of_nat (length grp)" off] by blast
  obtain gs summs stop2 where "encode_groups w ps grps (length (pre @ grp)) stop = Some (Inr (gs, summs, stop2))"
    "\<forall>g \<in> set gs. \<forall>c \<in> set (gc_chunks g). length (ch_payload c) \<le> n"
    using Cons.IH [of "pre @ grp" stop] Cons.prems by auto
  then show ?case using cs Cons.prems(3) by (simp add: u32_try_from_def Let_def)
qed simp

section \<open>The size of a footer\<close>

definition segment_small :: "segment_writer \<Rightarrow> bool" where
  "segment_small w \<longleftrightarrow>
     length (sw_rows w) \<le> 2 ^ 20 \<and> length (sw_retractions w) \<le> 2 ^ 20 \<and>
     sum_list (map Version_encoded_size (sw_rows w)) \<le> 2 ^ 31 \<and> sum_list (map Close_encoded_size (sw_retractions w)) \<le> 2 ^ 31 \<and>
     sw_bloom_bits_per_key w \<le> 64 \<and> (sw_valid_time w \<longrightarrow> (\<forall>v \<in> set (sw_rows w). \<exists>p. decode_valid_pair v = Some (Inr p)))"

lemma length_chunks_of: "length (chunks_of n xs) \<le> length xs \<and> (\<forall>c \<in> set (chunks_of n xs). length c \<le> length xs)"
proof (induction n xs rule: chunks_of.induct)
  case (1 n xs)
  show ?case
  proof (cases "xs = [] \<or> n = 0")
    case True
    then show ?thesis by (simp add: chunks_of.simps [of n xs])
  next
    case False
    with 1 have ih: "length (chunks_of n (drop n xs)) \<le> length xs - n" "\<forall>c \<in> set (chunks_of n (drop n xs)). length c \<le> length xs - n" by auto
    have "length xs - n < length xs" using False by (cases xs) auto
    then have "length (chunks_of n (drop n xs)) < length xs" by (rule le_less_trans [OF ih(1)])
    then show ?thesis using ih(2) False by (auto simp: chunks_of.simps [of n xs] Suc_le_eq)
  qed
qed

lemma row_groups_small:
  "length (row_groups_of w) \<le> max 1 (length (sw_rows w))" "grp \<in> set (row_groups_of w) \<Longrightarrow> length grp \<le> length (sw_rows w)"
proof -
  note small = length_chunks_of [of "case sw_max_row_group_rows w of None \<Rightarrow> 2 ^ 64 - 1 | Some n \<Rightarrow> n" "sw_rows w"]
  show "length (row_groups_of w) \<le> max 1 (length (sw_rows w))"
    using small by (cases "sw_rows w = []") (simp_all add: row_groups_of_def le_max_iff_disj)
  show "length grp \<le> length (sw_rows w)" if mem: "grp \<in> set (row_groups_of w)"
    using small mem by (cases "sw_rows w = []") (simp_all add: row_groups_of_def)
qed

lemma bloom_section_length:
  assumes "section_ok KeyBloom_encode KeyBloom_decode (business_key_bloom w) e" "length (sw_rows w) \<le> 2 ^ 20" "sw_bloom_bits_per_key w \<le> 64"
  shows "length e \<le> 5 + 2 ^ 23"
proof (cases "business_key_bloom w")
  case (Some b)
  let ?keys = "map v_business_key (sw_rows w)"
  have b: "b = KeyBloom_build (sw_bloom_bits_per_key w) ?keys" using Some by (auto simp: business_key_bloom_def split: if_splits)
  have "length (sw_rows w) * max (sw_bloom_bits_per_key w) 1 \<le> 2 ^ 20 * 64" using assms(2,3) by (intro mult_le_mono) auto
  then have "length ?keys * max (sw_bloom_bits_per_key w) 1 \<le> 2 ^ 26" by simp
  then obtain k where k: "k \<le> 26" "length (kb_bits b) = 2 ^ (k - 6)"
    by (rule KeyBloom_build_shape [of ?keys "sw_bloom_bits_per_key w" 26]) (use b in auto)
  have "KeyBloom_encode b [] = Some e" using assms(1) Some by (simp add: section_ok_def)
  then have "length e = 5 + 8 * length (kb_bits b)" by (auto simp: KeyBloom_encode_def split: if_splits)
  moreover have "(2 :: nat) ^ (k - 6) \<le> 2 ^ 20" using k(1) by (intro power_increasing) simp_all
  ultimately show ?thesis using k(2) by simp
qed (use assms(1) in \<open>simp add: section_ok_def\<close>)

lemma summary_for_length: "valid_interval_summary_for w ps = Some s \<Longrightarrow> length (vs_intervals s) \<le> length ps"
proof -
  assume "valid_interval_summary_for w ps = Some s"
  then have "s = Summary_build ps (sw_valid_interval_cap w)" by (auto simp: valid_interval_summary_for_def Let_def split: if_splits)
  moreover have "length (foldl coalesce_step [] (sort (filter (\<lambda>(f, t). f < t) ps))) \<le> length ps"
    by (rule order_trans [OF length_coalesce]) (simp add: length_filter_le)
  ultimately show ?thesis by (simp add: Summary_build_def Let_def length_merge_gaps)
qed

lemma summary_section_length:
  assumes "section_ok Summary_encode Summary_decode (writer_valid_interval_summary w ps) e" "pairs_ok (sw_valid_time w) (sw_rows w) ps"
    and "length (sw_rows w) \<le> 2 ^ 20"
  shows "length e \<le> 4 + 2 ^ 24"
proof (cases "writer_valid_interval_summary w ps")
  case (Some s)
  then obtain qs where qs: "ps = Some qs" "valid_interval_summary_for w qs = Some s" by (auto simp: writer_valid_interval_summary_def split: option.splits)
  then have "length qs = length (sw_rows w)" using assms(2) by (auto simp: pairs_ok_def dest: list_all2_lengthD)
  then have "length (vs_intervals s) \<le> 2 ^ 20" using summary_for_length [OF qs(2)] assms(3) by simp
  moreover have "Summary_encode s [] = Some e" using assms(1) Some by (simp add: section_ok_def)
  ultimately show ?thesis by (auto simp: Summary_encode_windows split: if_splits)
qed (use assms(1) in \<open>simp add: section_ok_def\<close>)

lemma entries_length:
  assumes "list_all2 (\<lambda>grp (g, s). group_spec w grp g s) grps (zip gs summs)" "length gs = length grps" "length summs = length grps"
  shows "length (concat (map entry_bytes summs)) \<le> 4 * length grps + 16 * length (concat grps)"
  using assms
proof (induction grps arbitrary: gs summs)
  case (Cons grp grps)
  obtain g gs' s summs' where e: "gs = g # gs'" "summs = s # summs'" using Cons.prems(2,3) by (metis length_Suc_conv list.size(4) add_Suc_right add_0_right)
  then have g: "group_spec w grp g s" using Cons.prems(1) by simp
  have "length (entry_bytes s) \<le> 4 + 16 * length grp"
  proof (cases s)
    case (Some x)
    then obtain qs where "pairs_ok (sw_valid_time w) grp (Some qs)" "valid_interval_summary_for w qs = Some x"
      using g by (auto simp: group_spec_def split: option.splits)
    then have "length (vs_intervals x) \<le> length grp" using summary_for_length [of w qs x] by (auto simp: pairs_ok_def dest: list_all2_lengthD)
    then show ?thesis by (simp add: entry_bytes_def Some)
  qed (simp add: entry_bytes_def)
  moreover have "length (concat (map entry_bytes summs')) \<le> 4 * length grps + 16 * length (concat grps)"
    using Cons.prems e by (intro Cons.IH) auto
  ultimately show ?case by (simp add: e)
qed simp

lemma per_row_group_section_length:
  assumes "section_ok encode_per_row_group dec (map_option (\<lambda>_. summs) v) e" "sealed w gs summs rs" "writer_fits w" "length (sw_rows w) \<le> 2 ^ 20"
  shows "length e \<le> 4 + 2 ^ 22 + 2 ^ 24"
proof (cases v)
  case (Some x)
  have n: "length (row_groups_of w) \<le> 2 ^ 20" using row_groups_small(1) [of w] assms(4) by simp
  have cat: "concat (row_groups_of w) = sw_rows w" using assms(3) by (intro concat_row_groups) (simp add: writer_fits_def)
  have wf: "\<forall>e \<in> set summs. entry_wf e" using summary_entries_wf [OF assms(2)] assms(3) by (simp add: writer_fits_def)
  have "encode_per_row_group summs [] = Some e" using assms(1) Some by (simp add: section_ok_def)
  then have "length e = 4 + length (concat (map entry_bytes summs))"
    using wf by (auto simp: encode_per_row_group_def u32_try_from_def encode_entries_bytes split: if_splits)
  moreover have "length (concat (map entry_bytes summs)) \<le> 4 * length (row_groups_of w) + 16 * length (sw_rows w)"
    using entries_length [of w "row_groups_of w" gs summs] assms(2) cat by (simp add: sealed_def)
  ultimately show ?thesis using n assms(4) by simp
qed (use assms(1) in \<open>simp add: section_ok_def\<close>)

lemma length_concat_bound: "\<forall>x \<in> set xs. length (f x) \<le> k \<Longrightarrow> length (concat (map f xs)) \<le> k * length xs"
  by (induction xs) auto

lemma group_bytes_length:
  assumes "group_spec w grp g s"
  shows "length (group_bytes g) \<le> 1484"
proof -
  have "length (gc_chunks g) = length (ColumnId_schema (sw_valid_time w))" using assms unfolding group_spec_def by (metis length_map)
  then have n: "length (gc_chunks g) \<le> 9" by (simp add: ColumnId_schema_def ColumnId_ALL_def ColumnId_ALL_WITH_VALID_TIME_def)
  have "length (concat (map chunk_meta_bytes (gc_chunks g))) \<le> 164 * length (gc_chunks g)"
    using group_chunks_ok [OF assms] length_chunk_meta_bytes by (intro length_concat_bound) (auto simp: group_ok_def)
  with n show ?thesis by (simp add: group_bytes_def)
qed

lemma retraction_metas_length:
  assumes "retraction_spec w rs"
  shows "length (concat (map chunk_meta_bytes rs)) \<le> 1148" "length rs \<le> 7"
proof -
  have "map ch_col rs = ColumnId_RETRACTION \<or> rs = []" using assms by (auto simp: retraction_spec_def split: if_splits)
  then show n: "length rs \<le> 7" by (auto simp: ColumnId_RETRACTION_def dest: arg_cong [of _ _ length])
  have "length (concat (map chunk_meta_bytes rs)) \<le> 164 * length rs"
    using retraction_spec_ok [OF assms] length_chunk_meta_bytes by (intro length_concat_bound) (auto simp: retractions_ok_def)
  with n show "length (concat (map chunk_meta_bytes rs)) \<le> 1148" by simp
qed

lemma encode_footer_small:
  assumes "sealed w gs summs rs" "writer_fits w" "segment_small w" "pairs_ok (sw_valid_time w) (sw_rows w) ps"
  shows "\<exists>footer. encode_footer gs rs (business_key_bloom w) (writer_valid_interval_summary w ps)
      (map_option (\<lambda>_. summs) (writer_valid_interval_summary w ps)) = Some (Inr footer) \<and> length footer < 2 ^ 32"
proof -
  let ?v = "writer_valid_interval_summary w ps"
  have cap: "sw_valid_interval_cap w < 2 ^ 32" using assms(2) by (simp add: writer_fits_def)
  have rows: "length (sw_rows w) \<le> 2 ^ 20" "sw_bloom_bits_per_key w \<le> 64" using assms(3) by (auto simp: segment_small_def)
  have n: "length gs \<le> 2 ^ 20" using row_groups_small(1) [of w] rows assms(1) by (simp add: sealed_def)
  have spec: "\<exists>grp s. group_spec w grp g s" if "g \<in> set gs" for g
  proof -
    obtain i where "i < length gs" "g = gs ! i" using \<open>g \<in> set gs\<close> by (metis in_set_conv_nth)
    then show ?thesis using sealed_groups [OF assms(1), of i] assms(1) by (auto simp: sealed_def)
  qed
  have gok: "\<forall>g \<in> set gs. group_ok g" using spec group_chunks_ok by blast
  have rspec: "retraction_spec w rs" using assms(1) by (simp add: sealed_def)
  obtain eb where eb: "section_ok KeyBloom_encode KeyBloom_decode (business_key_bloom w) eb"
    using bloom_section assms(2) unfolding writer_fits_def by blast
  obtain ev where ev: "section_ok Summary_encode Summary_decode ?v ev"
    by (rule summary_section [of ?v]) (use summary_for_wf [OF _ cap] in \<open>auto simp: writer_valid_interval_summary_def split: option.splits\<close>)
  obtain eg where eg: "section_ok encode_per_row_group (\<lambda>bs. decode_per_row_group bs (length gs)) (map_option (\<lambda>_. summs) ?v) eg"
    by (rule per_row_group_section [of "map_option (\<lambda>_. summs) ?v" "length gs"])
      (use summary_entries_wf [OF assms(1) cap] assms(1) n in \<open>auto simp: sealed_def\<close>)
  have "length gs < 2 ^ 32" using n by simp
  note ft = encode_footer_bytes [OF gok this retraction_spec_ok [OF rspec] eb ev eg]
  have "length (concat (map group_bytes gs)) \<le> 1484 * length gs" using spec group_bytes_length by (intro length_concat_bound) blast
  then show ?thesis
    using ft n retraction_metas_length(1) [OF rspec] bloom_section_length [OF eb rows] summary_section_length [OF ev assms(4) rows(1)]
      per_row_group_section_length [OF eg assms(1,2) rows(1)]
    by (simp add: footer_bytes_def)
qed

section \<open>Sealing without faults\<close>

lemma write_chunks_live:
  assumes "no_faults d" "\<forall>c \<in> set cs. length (ch_payload c) < 2 ^ 32"
  shows "\<exists>d'. write_chunks f cs d = (Inr (), d') \<and> no_faults d'"
  using assms
proof (induction cs arbitrary: d)
  case (Cons c cs)
  let ?p = "chunk_prefix c (of_nat (length (ch_payload c)))"
  let ?h = "?p @ u32_le (crc32c (?p @ ch_payload c))"
  obtain d1 where d1: "file_append f ?h d = (Inr (), d1)" using disk_ops_no_faults(3) [OF Cons.prems(1)] by blast
  have nf1: "no_faults d1" using disk_ops_no_faults(2) [OF Cons.prems(1), of f ?h] d1 by simp
  obtain d2 where d2: "file_append f (ch_payload c) d1 = (Inr (), d2)" using disk_ops_no_faults(3) [OF nf1] by blast
  have "no_faults d2" using disk_ops_no_faults(2) [OF nf1, of f "ch_payload c"] d2 by simp
  then obtain d' where "write_chunks f cs d2 = (Inr (), d')" "no_faults d'" using Cons by auto
  then show ?case using d1 d2 Cons.prems(2) by (simp add: u32_try_from_def Let_def)
qed simp

lemma write_footer_live:
  assumes "no_faults d" "length footer < 2 ^ 32"
  shows "\<exists>d'. write_footer f footer d = (Inr (), d') \<and> no_faults d'"
proof -
  let ?t = "u32_le (crc32c footer) @ u32_le (of_nat (length footer)) @ TRAILER_MAGIC"
  obtain d1 where d1: "file_append f footer d = (Inr (), d1)" using disk_ops_no_faults(3) [OF assms(1)] by blast
  have nf1: "no_faults d1" using disk_ops_no_faults(2) [OF assms(1), of f footer] d1 by simp
  obtain d2 where d2: "file_append f ?t d1 = (Inr (), d2)" using disk_ops_no_faults(3) [OF nf1] by blast
  have nf2: "no_faults d2" using disk_ops_no_faults(2) [OF nf1, of f ?t] d2 by simp
  show ?thesis using d1 d2 nf2 disk_ops_no_faults(4) [OF nf2] assms(2) by (simp add: write_footer_def u32_try_from_def)
qed

lemma writer_valid_pairs_small:
  assumes "segment_small w"
  obtains ps where "writer_valid_pairs w = Some (Inr ps)"
proof (cases "sw_valid_time w")
  case True
  have "\<forall>v \<in> set (sw_rows w). decode_valid_pair v = Some (Inr (valid_pair_of v))"
    using assms True by (auto simp: segment_small_def valid_pair_of_def)
  note seg_map_ok [OF this]
  then show thesis using True that by (simp add: writer_valid_pairs_def decode_valid_pairs_def)
qed (use that in \<open>simp add: writer_valid_pairs_def\<close>)

lemma encode_retractions_small:
  assumes "segment_small w" "writer_fits w"
  shows "\<exists>rs. encode_retractions w off = Some (Inr rs) \<and> (\<forall>c \<in> set rs. length (ch_payload c) \<le> 2 ^ 31)"
proof -
  have "\<exists>e. encode_retraction_column col (sw_retractions w) (sw_dictionary w) = Some (Inr e) \<and> length (ec_payload e) \<le> 2 ^ 31"
    if "col \<in> set ColumnId_RETRACTION" for col
    by (rule encode_retraction_column_ok [OF that, of "sw_retractions w" "sw_dictionary w"]) (use assms in \<open>auto simp: segment_small_def writer_fits_def\<close>)
  then have "\<exists>cs stop. encode_chunks (\<lambda>col. encode_retraction_column col (sw_retractions w) (sw_dictionary w)) (of_nat (length (sw_retractions w)))
      ColumnId_RETRACTION off = Some (Inr (cs, stop)) \<and> (\<forall>c \<in> set cs. length (ch_payload c) \<le> 2 ^ 31)" by (rule encode_chunks_ok)
  then show ?thesis using assms(1) by (auto simp: encode_retractions_def u32_try_from_def segment_small_def)
qed

lemma sealed_chunk_count:
  assumes "sealed w gs summs rs" "segment_small w"
  shows "length (concat (map gc_chunks gs) @ rs) \<le> 2 ^ 24"
proof -
  have "length (gc_chunks g) \<le> 9" if g: "g \<in> set gs" for g
  proof -
    obtain i where "i < length gs" "g = gs ! i" using g by (metis in_set_conv_nth)
    then have "group_spec w (row_groups_of w ! i) g (summs ! i)" using sealed_groups [OF assms(1), of i] assms(1) by (auto simp: sealed_def)
    then have "length (gc_chunks g) = length (ColumnId_schema (sw_valid_time w))" unfolding group_spec_def by (metis length_map)
    then show ?thesis by (simp add: ColumnId_schema_def ColumnId_ALL_def ColumnId_ALL_WITH_VALID_TIME_def)
  qed
  then have "length (concat (map gc_chunks gs)) \<le> 9 * length gs" by (intro length_concat_bound) blast
  moreover have "length (sw_rows w) \<le> 2 ^ 20" "length gs = length (row_groups_of w)" using assms by (simp_all add: sealed_def segment_small_def)
  then have "length gs \<le> 2 ^ 20" using row_groups_small(1) [of w] by simp
  moreover have "length rs \<le> 7" using assms(1) retraction_metas_length(2) by (auto simp: sealed_def)
  ultimately show ?thesis by simp
qed

lemma finish_small:
  assumes d: "no_faults d" "disk_has d (sw_file w)" "md_store d ! sw_file w = segment_header" and w: "writer_fits w" "segment_small w"
  shows "\<exists>d'. segment_finish w d = Some (Inr (), d') \<and> no_faults d' \<and> file_len d' (sw_file w) < 2 ^ 64"
proof -
  obtain ps where ps: "writer_valid_pairs w = Some (Inr ps)" using w(2) by (rule writer_valid_pairs_small)
  have pok: "pairs_ok (sw_valid_time w) (sw_rows w) ps" by (rule writer_valid_pairs_ok [OF ps])
  have cat: "concat (row_groups_of w) = sw_rows w" using w(1) by (intro concat_row_groups) (simp add: writer_fits_def)
  have lens: "\<forall>grp \<in> set (row_groups_of w). length grp < 2 ^ 32" using row_groups_small(2) [of _ w] w(2) by (fastforce simp: segment_small_def)
  have "\<exists>gs summs stop. encode_groups w ps (row_groups_of w) (length ([] :: version list)) SEG_HEADER_LEN = Some (Inr (gs, summs, stop)) \<and>
      (\<forall>g \<in> set gs. \<forall>c \<in> set (gc_chunks g). length (ch_payload c) \<le> 2 ^ 31)"
    by (rule encode_groups_ok) (use pok cat lens w in \<open>simp_all add: writer_fits_def segment_small_def\<close>)
  then obtain gs summs stop where gs: "encode_groups w ps (row_groups_of w) 0 SEG_HEADER_LEN = Some (Inr (gs, summs, stop))"
    "\<forall>g \<in> set gs. \<forall>c \<in> set (gc_chunks g). length (ch_payload c) \<le> 2 ^ 31" by auto
  obtain rs where rs: "encode_retractions w stop = Some (Inr rs)" "\<forall>c \<in> set rs. length (ch_payload c) \<le> 2 ^ 31"
    using encode_retractions_small [OF w(2,1)] by blast
  let ?cs = "concat (map gc_chunks gs) @ rs"
  have small: "\<forall>c \<in> set ?cs. length (ch_payload c) \<le> 2 ^ 31" using gs(2) rs(2) by auto
  have "\<forall>c \<in> set ?cs. length (ch_payload c) < 2 ^ 32" using small by fastforce
  then obtain d1 where d1: "write_chunks (sw_file w) ?cs d = (Inr (), d1)" "no_faults d1" using write_chunks_live [OF d(1)] by blast
  note g = encode_groups_spec [of w ps "row_groups_of w" "[]", simplified, OF gs(1), unfolded cat, OF pok]
  note c = write_chunks_grows [OF d1(1) d(2)]
  have sealed: "sealed w gs summs rs" using g c encode_retractions_spec [OF rs(1)]
    by (auto simp: sealed_def laid_out_append simp flip: map_concat)
  obtain footer where ft: "encode_footer gs rs (business_key_bloom w) (writer_valid_interval_summary w ps)
      (map_option (\<lambda>_. summs) (writer_valid_interval_summary w ps)) = Some (Inr footer)" "length footer < 2 ^ 32"
    using encode_footer_small [OF sealed w pok] by blast
  obtain d' where d': "write_footer (sw_file w) footer d1 = (Inr (), d')" "no_faults d'" using write_footer_live [OF d1(2) ft(2)] by blast
  have h: "disk_has d1 (sw_file w)" using c d(2) by (auto simp: only_grows_has)
  have bytes: "md_store d' ! sw_file w = segment_header @ concat (map chunk_frame ?cs) @ footer @ segment_trailer footer"
    using c write_footer_grows [OF d'(1) h] d(3) by (auto simp: only_grows_def)
  have "\<forall>c \<in> set ?cs. length (chunk_frame c) \<le> 2 ^ 32"
  proof
    fix c assume "c \<in> set ?cs"
    then have "length (ch_payload c) \<le> 2 ^ 31" using small by blast
    then show "length (chunk_frame c) \<le> 2 ^ 32" by (simp add: chunk_frame_def Let_def)
  qed
  then have "length (concat (map chunk_frame ?cs)) \<le> 2 ^ 32 * length ?cs" by (rule length_concat_bound)
  also have "\<dots> \<le> 2 ^ 32 * 2 ^ 24" using sealed_chunk_count [OF sealed w(2)] by (intro mult_le_mono) simp_all
  finally have "file_len d' (sw_file w) < 2 ^ 64" using ft(2) unfolding file_len_def bytes by (simp add: segment_trailer_def TRAILER_MAGIC_def segment_header_def HEADER_MAGIC_def)
  moreover have "segment_finish w d = Some (Inr (), d')" using ps gs(1) rs(1) d1(1) ft(1) d'(1) by (simp add: segment_finish_def Let_def)
  ultimately show ?thesis using d'(2) by blast
qed

lemma create_live:
  assumes "no_faults d0" "validate_name name = Inr ()" "file_at d0 name = None"
  shows "\<exists>w0 d. SegmentWriter_create_inner name vt d0 = (Inr w0, d) \<and> no_faults d \<and> sw_file w0 = length (md_store d0)"
proof -
  obtain f d1 where c: "disk_create name d0 = (Inr f, d1)" "f = length (md_store d0)"
    using assms by (simp add: disk_create_def disk_check_no_faults file_at_def)
  have nf1: "no_faults d1" using disk_ops_no_faults(1) [OF assms(1), of name] c by simp
  obtain d2 where a: "file_append f segment_header d1 = (Inr (), d2)" using disk_ops_no_faults(3) [OF nf1] by blast
  have "no_faults d2" using disk_ops_no_faults(2) [OF nf1, of f segment_header] a by simp
  then show ?thesis using c a by (simp add: SegmentWriter_create_inner_def)
qed

lemma seal_live:
  assumes "SegmentWriter_create_inner name vt d0 = (Inr w0, d)" "no_faults d" "sw_file w = sw_file w0" "writer_fits w" "segment_small w"
  shows "\<exists>d'. segment_finish w d = Some (Inr (), d') \<and> no_faults d' \<and> file_len d' (sw_file w) < 2 ^ 64"
  using finish_small [OF assms(2) _ _ assms(4,5)] create_effect [OF assms(1)] assms(3) by simp

text \<open>
  C15. Sealing makes progress: on a fault-free disk with a fresh, valid name the writer is created, and
  whatever encodable rows and retractions are pushed into it, within explicit size bounds, \<open>finish\<close> returns
  success without a panic or an error and leaves a sealed segment on the disk.
\<close>

theorem segment_seals:
  assumes "no_faults d0" "validate_name name = Inr ()" "file_at d0 name = None"
  shows "\<exists>w0 d. SegmentWriter_create_inner name vt d0 = (Inr w0, d) \<and>
    (\<forall>w. sw_file w = sw_file w0 \<and> writer_fits w \<and> segment_small w \<longrightarrow>
       (\<exists>d'. segment_finish w d = Some (Inr (), d') \<and> no_faults d' \<and> sealed_run name w d'))"
proof -
  obtain w0 d where c: "SegmentWriter_create_inner name vt d0 = (Inr w0, d)" "no_faults d" using create_live [OF assms, of vt] by blast
  show ?thesis using c seal_live [OF c] unfolding sealed_run_def disk_same_def by metis
qed

text \<open>
  C13. A sealed segment reads back what was pushed. For every writer option (valid time, row-group size,
  dictionary, bloom and summary settings), if \<open>finish\<close> returned and the rows respect the reader's limits,
  then a later boot opens the file, and reads exactly the pushed versions (their durable part), the
  pushed retractions and the version keys, in order.
\<close>

theorem segment_roundtrip:
  assumes "sealed_run name w boot" "writer_fits w"
  shows "\<exists>r. SegmentReader_open name boot = (Inr r, boot) \<and>
    read_versions r boot = (Inr (map unresolved (sw_rows w)), boot) \<and>
    read_retractions r boot = (Inr (sw_retractions w), boot) \<and>
    version_keys r boot = (Inr (map (\<lambda>v. (v_business_key v, v_sys_from v, v_seq v)) (sw_rows w)), boot)"
  by (rule sealed_run_reopen [OF assms]) (intro exI conjI reopened_versions reopened_retractions reopened_version_keys)

text \<open>
  C14. Pruning a sealed segment never loses a row: the zone map admits every predicate a row satisfies at
  every snapshot that sees the row, the bloom admits the row's key, and the valid-time summary admits
  every instant and range of the row's interval; likewise the zone map and summary of the row's group.
\<close>

theorem segment_pruning_sound:
  assumes "sealed_run name w boot" "writer_fits w"
  shows "\<exists>r. SegmentReader_open name boot = (Inr r, boot) \<and>
    (\<forall>g < length (row_groups_of w). \<forall>v \<in> set (row_groups_of w ! g).
       (\<forall>pred at. row_matches (row_cells (sw_valid_time w) v) pred \<and> v_sys_from v \<le> at \<longrightarrow>
          segment_might_contain r pred at \<and> ZoneMap_might_contain (row_group_zone_maps r ! g) pred at) \<and>
       might_contain_key r (v_business_key v) \<and>
       (\<forall>q. fst (valid_pair_of v) \<le> q \<and> q < snd (valid_pair_of v) \<longrightarrow>
          might_contain_valid r q \<and> row_group_might_contain_valid r g q \<and>
          (\<forall>lo hi. lo \<le> q \<and> q < hi \<longrightarrow> might_overlap_valid r lo hi \<and> row_group_might_overlap_valid r g lo hi)))"
proof (rule sealed_run_reopen [OF assms])
  fix gs summs rs ps r assume op: "SegmentReader_open name boot = (Inr r, boot)" and re: "reopened w gs summs rs ps r boot"
  have s: "sealed w gs summs rs" "pairs_ok (sw_valid_time w) (sw_rows w) ps" "sr_footer r = sealed_footer w gs summs rs ps"
    using re by (auto simp: reopened_def)
  have row: "v \<in> set (sw_rows w)" if "g < length (row_groups_of w)" "v \<in> set (row_groups_of w ! g)" for g v
    using that concat_row_groups [of w] assms(2) unfolding writer_fits_def by (metis nth_mem UN_I set_concat)
  have seg: "ft_valid_intervals (sr_footer r) = (case ps of None \<Rightarrow> None | Some ps \<Rightarrow> valid_interval_summary_for w ps)"
    by (simp add: s(3) sealed_footer_def writer_valid_interval_summary_def)
  have grp: "\<exists>gp. pairs_ok (sw_valid_time w) (row_groups_of w ! g) gp \<and>
      (row_group_summary r g = None \<or> row_group_summary r g = (case gp of None \<Rightarrow> None | Some ps \<Rightarrow> valid_interval_summary_for w ps))"
    if "g < length (row_groups_of w)" for g
    using sealed_groups [OF s(1) that] s(1) by (auto simp: row_group_summary_def s(3) sealed_footer_def group_spec_def sealed_def split: option.split)
  show ?thesis
  proof (intro exI [of _ r] conjI op allI impI ballI, goal_cases)
    case (1 g v pred at)
    then show ?case using might_contain_sound [OF reopened_zone_maps(1) [OF re 1(1,2)] _ row_cells_sys_from] by (simp add: segment_might_contain_def)
  next
    case (2 g v pred at)
    then show ?case using might_contain_sound [OF reopened_zone_maps(2) [OF re 2(1,2)] _ row_cells_sys_from] by simp
  next
    case (3 g v)
    have "maybe_contains (KeyBloom_build (sw_bloom_bits_per_key w) (map v_business_key (sw_rows w))) (v_business_key v)"
      using assms(2) row [OF 3] by (intro maybe_contains_built) (auto simp: writer_fits_def)
    then show ?case by (simp add: might_contain_key_def s(3) sealed_footer_def business_key_bloom_def split: option.split)
  next
    case (4 g v q)
    then show ?case using segment_summary_admits(1) [OF s(2) row [OF 4(1,2)] _ _ seg] by (simp add: might_contain_valid_def)
  next
    case (5 g v q)
    obtain gp where gp: "pairs_ok (sw_valid_time w) (row_groups_of w ! g) gp"
      "row_group_summary r g = None \<or> row_group_summary r g = (case gp of None \<Rightarrow> None | Some ps \<Rightarrow> valid_interval_summary_for w ps)"
      using grp [OF 5(1)] by blast
    then show ?case using segment_summary_admits(1) [OF gp(1) 5(2) _ _ refl] 5(3) by (auto simp: row_group_might_contain_valid_def)
  next
    case (6 g v q lo hi)
    then show ?case using segment_summary_admits(2) [OF s(2) row [OF 6(1,2)] conjunct1 conjunct2 seg, OF 6(3) 6(3), of lo hi] by (simp add: might_overlap_valid_def)
  next
    case (7 g v q lo hi)
    obtain gp where gp: "pairs_ok (sw_valid_time w) (row_groups_of w ! g) gp"
      "row_group_summary r g = None \<or> row_group_summary r g = (case gp of None \<Rightarrow> None | Some ps \<Rightarrow> valid_interval_summary_for w ps)"
      using grp [OF 7(1)] by blast
    then show ?case using segment_summary_admits(2) [OF gp(1) 7(2) _ _ refl] 7(3,4) by (auto simp: row_group_might_overlap_valid_def)
  qed
qed

section \<open>A concrete segment\<close>

definition example_row :: "bytes \<Rightarrow> nat \<Rightarrow> version" where
  "example_row key n = (example_version (Some (i64_le (i64_of 5) @ i64_le (i64_of 9) @ [1])))\<lparr>v_business_key := key, v_seq := of_nat n\<rparr>"

definition example_writer :: segment_writer where
  "example_writer = \<lparr>sw_file = 0, sw_rows = [example_row [107] 1, example_row [108] 2], sw_retractions = [example_close], sw_valid_time = True,
     sw_max_row_group_rows = Some 1, sw_bloom_bits_per_key = 10, sw_valid_interval_cap = 4, sw_dictionary = True\<rparr>"

lemma example_row_pair: "decode_valid_pair (example_row key n) = Some (Inr (i64_of 5, i64_of 9))"
proof -
  have "\<not> i64_of 9 \<le> i64_of 5" by code_simp
  then show ?thesis
    by (simp add: example_row_def example_version_def decode_valid_pair_def unframe_payload_def decode_prefix_def ValidInterval_new_def
        VALID_TIME_PREFIX_LEN_def sub_slice_def codec_inverse)
qed

lemma example_row_encodable: "length key = 1 \<Longrightarrow> Version_encoded_size (example_row key n) \<le> 200 \<and> version_encodable (example_row key n)"
  by (simp add: example_row_def example_version_def Version_encoded_size_def VERSION_HEADER_LEN_def version_encodable_iff MAX_VERSION_FRAME_LEN_def)

lemma example_groups: "row_groups_of example_writer = [[example_row [107] 1], [example_row [108] 2]]"
  by (simp add: row_groups_of_def example_writer_def chunks_of.simps)

lemma example_fits: "writer_fits example_writer"
  using example_row_encodable [of "[107]" 1] example_row_encodable [of "[108]" 2] example_close_size example_groups
  by (simp add: writer_fits_def) (simp add: example_writer_def MAX_DECODED_CHUNK_LEN_def close_encodable_iff MAX_CLOSE_FRAME_LEN_def)

lemma example_small: "segment_small example_writer"
  using example_row_encodable [of "[107]" 1] example_row_encodable [of "[108]" 2] example_close_size example_row_pair by (simp add: segment_small_def example_writer_def)

lemma seg_name: "validate_name ''seg-1'' = Inr ()"
  by code_simp

lemma example_sealed: "\<exists>boot. sealed_run ''seg-1'' example_writer boot"
proof -
  have nf: "no_faults MemDisk_new" "file_at MemDisk_new ''seg-1'' = None" "length (md_store MemDisk_new) = 0"
    by (simp_all add: no_faults_def MemDisk_new_def file_at_def)
  obtain w0 d where c: "SegmentWriter_create_inner ''seg-1'' True MemDisk_new = (Inr w0, d)" "no_faults d" "sw_file w0 = 0"
    using create_live [OF nf(1) seg_name nf(2), of True] nf(3) by auto
  then have f: "sw_file example_writer = sw_file w0" by (simp add: example_writer_def)
  show ?thesis using c seal_live [OF c(1,2) f example_fits example_small] f unfolding sealed_run_def disk_same_def by metis
qed

theorem segment_roundtrip_witness:
  "\<exists>boot r. SegmentReader_open ''seg-1'' boot = (Inr r, boot) \<and>
    read_versions r boot = (Inr [unresolved (example_row [107] 1), unresolved (example_row [108] 2)], boot) \<and>
    read_retractions r boot = (Inr [example_close], boot)"
proof -
  obtain boot where "sealed_run ''seg-1'' example_writer boot" using example_sealed by blast
  from segment_roundtrip [OF this example_fits] show ?thesis by (auto simp: example_writer_def)
qed

theorem segment_pruning_sound_witness:
  "\<exists>boot r. SegmentReader_open ''seg-1'' boot = (Inr r, boot) \<and> might_contain_key r [107] \<and> might_contain_key r [108] \<and>
    row_group_might_contain_valid r 0 (i64_of 7) \<and> row_group_might_contain_valid r 1 (i64_of 7)"
proof -
  obtain boot where b: "sealed_run ''seg-1'' example_writer boot" using example_sealed by blast
  have seven: "i64_of 5 \<le> i64_of 7" "i64_of 7 < i64_of 9" by code_simp+
  have p: "valid_pair_of (example_row key n) = (i64_of 5, i64_of 9)" for key n by (simp add: valid_pair_of_def example_row_pair)
  have k: "v_business_key (example_row key n) = key" for key n by (simp add: example_row_def)
  from segment_pruning_sound [OF b example_fits] obtain r where o: "SegmentReader_open ''seg-1'' boot = (Inr r, boot)"
    and r: "\<forall>g < length (row_groups_of example_writer). \<forall>v \<in> set (row_groups_of example_writer ! g).
      might_contain_key r (v_business_key v) \<and>
      (\<forall>q. fst (valid_pair_of v) \<le> q \<and> q < snd (valid_pair_of v) \<longrightarrow> row_group_might_contain_valid r g q)" by blast
  have "might_contain_key r [107] \<and> row_group_might_contain_valid r 0 (i64_of 7)"
    using r [rule_format, of 0 "example_row [107] 1"] seven by (simp add: example_groups p k)
  moreover have "might_contain_key r [108] \<and> row_group_might_contain_valid r 1 (i64_of 7)"
    using r [rule_format, of 1 "example_row [108] 2"] seven by (simp add: example_groups p k)
  ultimately show ?thesis using o by blast
qed

theorem segment_seals_witness:
  "\<exists>w0 d. SegmentWriter_create_inner ''seg-1'' True MemDisk_new = (Inr w0, d) \<and>
    (\<exists>d'. segment_finish (example_writer\<lparr>sw_file := sw_file w0\<rparr>) d = Some (Inr (), d') \<and> no_faults d')"
proof -
  have nf: "no_faults MemDisk_new" "file_at MemDisk_new ''seg-1'' = None" by (simp_all add: no_faults_def MemDisk_new_def file_at_def)
  have fits: "writer_fits (example_writer\<lparr>sw_file := f\<rparr>)" "segment_small (example_writer\<lparr>sw_file := f\<rparr>)" for f
    using example_fits example_small by (simp_all add: writer_fits_def segment_small_def row_groups_of_def)
  obtain w0 d where c: "SegmentWriter_create_inner ''seg-1'' True MemDisk_new = (Inr w0, d)"
    and s: "\<And>w. sw_file w = sw_file w0 \<and> writer_fits w \<and> segment_small w \<Longrightarrow>
       \<exists>d'. segment_finish w d = Some (Inr (), d') \<and> no_faults d' \<and> sealed_run ''seg-1'' w d'"
    using segment_seals [OF nf(1) seg_name nf(2), of True] by blast
  show ?thesis using c s [of "example_writer\<lparr>sw_file := sw_file w0\<rparr>"] fits by auto
qed

end
