(* ===== verification/Segment_Limits.thy ===== *)
theory Segment_Limits
  imports Segment_Seals
begin

text \<open>
  The decode limit of dictionary columns: the reader refuses a dictionary chunk that expands past
  \<open>MAX_DECODED_CHUNK_LEN\<close>, and the writer seals such chunks.
\<close>

section \<open>Expansion past the limit\<close>

lemma expand_codes_over:
  assumes "\<forall>c \<in> set cs. c < length dict" "length dict < 2 ^ 32" "w = code_width_for (length dict)"
    and "length pre + length (concat (map (\<lambda>c. push_code c w) cs)) < 2 ^ 64"
    and "expanded \<le> MAX_DECODED_CHUNK_LEN" "MAX_DECODED_CHUNK_LEN < expanded + expansion (map (nth dict) cs)"
  shows "expand_codes (length cs) w dict expanded (parser_at pre (concat (map (\<lambda>c. push_code c w) cs) @ post)) =
    Inl (SegTooLarge ''dictionary column expands past the decode limit'')"
  using assms
proof (induction cs arbitrary: pre expanded)
  case (Cons c cs)
  let ?rest = "concat (map (\<lambda>c. push_code c w) cs)"
  let ?e = "expanded + (case dict ! c of None \<Rightarrow> 0 | Some b \<Rightarrow> length b)"
  have "w \<le> 4" using code_width_in [of "length dict"] Cons.prems(3) by auto
  then have len: "length (push_code c w) = w" by (simp add: push_code_def)
  have c: "c < length dict" "unat (of_nat c :: u32) = c" using Cons.prems(1,2) by auto
  have code: "parser_code w (parser_at pre (push_code c w @ ?rest @ post)) = Inr (of_nat c, parser_at (pre @ push_code c w) (?rest @ post))"
    using Cons.prems c(1) len by (intro parser_code_at) auto
  have ih: "expand_codes (length cs) w dict ?e (parser_at (pre @ push_code c w) (?rest @ post)) =
      Inl (SegTooLarge ''dictionary column expands past the decode limit'')" if "?e \<le> MAX_DECODED_CHUNK_LEN"
    using Cons.prems that by (intro Cons.IH) (auto simp: expansion_def)
  have sat: "usize_saturating_add expanded (length b) = ?e \<or> MAX_DECODED_CHUNK_LEN < usize_saturating_add expanded (length b) \<and> MAX_DECODED_CHUNK_LEN < ?e"
    if "dict ! c = Some b" for b using that by (auto simp: usize_saturating_add_def MAX_DECODED_CHUNK_LEN_def min_def)
  show ?case
  proof (cases "dict ! c")
    case None
    then show ?thesis using code c ih Cons.prems(5) by (simp add: Let_def)
  next
    case (Some b)
    then show ?thesis using code c ih sat [OF Some] by (cases "?e \<le> MAX_DECODED_CHUNK_LEN") (auto simp: Let_def)
  qed
qed (simp add: expansion_def)

lemma decode_dict_over:
  assumes "build_dict_payload vs = Some payload" "length vs < 2 ^ 32" "\<forall>v \<in> set vs. cell_fits MAX_VERSION_FRAME_LEN v"
    and "MAX_DECODED_CHUNK_LEN < expansion vs" "length payload < 2 ^ 64"
  shows "decode_dict_bytes_chunk payload (of_nat (length vs)) out = Inl (SegTooLarge ''dictionary column expands past the decode limit'')"
proof -
  obtain ds cs where f: "payload = [of_nat (code_width_for (length ds))] @ u32_le (of_nat (length ds)) @
      concat (map cell_bytes ds) @ concat (map (\<lambda>c. push_code c (code_width_for (length ds))) cs)"
    "map (nth ds) cs = vs" "length cs = length vs" "\<forall>c \<in> set cs. c < length ds" "set ds \<subseteq> set vs" "length ds < 2 ^ 32"
    by (rule dict_payload_form [OF assms(1,2)])
  let ?w = "code_width_for (length ds)" and ?hd = "(of_nat (code_width_for (length ds)) :: u8) # u32_le (of_nat (length ds))"
  let ?ds = "concat (map cell_bytes ds)" and ?cs = "concat (map (\<lambda>c. push_code c (code_width_for (length ds))) cs)"
  have w: "unat (of_nat ?w :: u8) = ?w" "?w = 1 \<or> ?w = 2 \<or> ?w = 4" by (auto simp: code_width_for_def)
  have total: "5 + length ?ds + length ?cs < 2 ^ 64" using assms(5) f(1) by simp
  have "parse_n (length ds) parse_dict_entry (parser_at ?hd (?ds @ ?cs)) = Inr (ds, parser_at (?hd @ ?ds) ?cs)"
    using assms(3) f(5) total by (intro parse_n_at parse_dict_entry_at) auto
  moreover have "expand_codes (length cs) ?w ds 0 (parser_at (?hd @ ?ds) (?cs @ [])) =
      Inl (SegTooLarge ''dictionary column expands past the decode limit'')"
    using f total assms(4) by (intro expand_codes_over) auto
  ultimately show ?thesis
    using w f(2,3,6) assms(2) by (simp add: decode_dict_bytes_chunk_def parser_new_at f(1) parser_word_at Let_def)
qed

section \<open>Columns of one repeated value\<close>

lemma dict_loop_replicate:
  "index v = Some 0 \<Longrightarrow> dict_loop (replicate n v) index [v] codes = ([v], codes @ replicate n 0)"
  by (induction n arbitrary: codes) (simp_all add: replicate_append_same)

lemma build_dict_replicate:
  "build_dict_payload (replicate (Suc (Suc n)) v) = Some ([1] @ u32_le 1 @ cell_bytes v @ replicate (Suc (Suc n)) 0)"
proof -
  have l: "dict_loop (replicate (Suc (Suc n)) v) Map.empty [] [] = ([v], replicate (Suc (Suc n)) 0)"
    using dict_loop_replicate [of "[v \<mapsto> 0]" v "Suc n" "[0]"] by (simp add: Let_def)
  have z: "u32_le (0 :: u32) = [0, 0, 0, 0]" by code_simp
  have p: "push_code 0 (Suc 0) = [0]" by (simp add: push_code_def z)
  have "concat (replicate m [0 :: u8]) = replicate m 0" for m by (induction m) simp_all
  then show ?thesis unfolding build_dict_payload_def l by (simp add: code_width_for_def p)
qed

lemma encode_replicate:
  assumes "8 \<le> length bs" "length bs < 2 ^ 32"
  obtains e where "encode_bytes_values (replicate (Suc (Suc n)) (Some bs)) True = Inr e" "ec_codec e = Dict"
    "build_dict_payload (replicate (Suc (Suc n)) (Some bs)) = Some (ec_payload e)" "length (ec_payload e) = 11 + length bs + n"
proof -
  let ?vs = "replicate (Suc (Suc n)) (Some bs)"
  obtain lo hi where m: "bytes_minmax ?vs None None = Inr (lo, hi)" using bytes_minmax_ok [of ?vs None None] assms(2) by auto
  let ?p = "[1] @ u32_le 1 @ cell_bytes (Some bs) @ replicate (Suc (Suc n)) 0"
  have len: "length ?p = 11 + length bs + n" by (simp add: cell_bytes_def)
  have ps: "plain_size ?vs = Suc (Suc n) * (4 + length bs)" by (simp add: plain_size_def sum_list_replicate)
  have "11 + length bs + n < Suc (Suc n) * (4 + length bs)" using assms(1) by (simp add: algebra_simps)
  then have lt: "length ?p < plain_size ?vs" using len ps by simp
  obtain e where "encode_bytes_values ?vs True = Inr e" "ec_codec e = Dict" "ec_payload e = ?p"
    using m lt by (simp add: encode_bytes_values_def build_dict_replicate Let_def del: replicate.simps)
  then show thesis using that [of e] len build_dict_replicate [of n "Some bs"] by simp
qed

text \<open>
  C16. The writer does not check the limit the reader enforces: a column of one repeated value, each far
  below the frame limit, whose total exceeds \<open>MAX_DECODED_CHUNK_LEN\<close> is accepted by the dictionary encoder,
  giving a small chunk, and every attempt to decode that chunk is refused.
\<close>

theorem dictionary_limit:
  assumes "8 \<le> length bs" "length bs \<le> MAX_VERSION_FRAME_LEN" "n < 2 ^ 32 - 2" "MAX_DECODED_CHUNK_LEN < (n + 2) * length bs"
  shows "\<exists>e. encode_bytes_values (replicate (n + 2) (Some bs)) True = Inr e \<and> length (ec_payload e) = 11 + length bs + n \<and>
    (\<forall>out. append_nullable_bytes_cells (ec_codec e) (ec_payload e) (of_nat (n + 2)) out =
       Inl (SegTooLarge ''dictionary column expands past the decode limit'')) \<and>
    (\<forall>out. append_present_bytes_cells (ec_codec e) (ec_payload e) (of_nat (n + 2)) out =
       Inl (SegTooLarge ''dictionary column expands past the decode limit''))"
proof -
  let ?vs = "replicate (Suc (Suc n)) (Some bs)"
  have b: "length bs < 2 ^ 32" using assms(2) by (simp add: MAX_VERSION_FRAME_LEN_def)
  obtain e where e: "encode_bytes_values ?vs True = Inr e" "ec_codec e = Dict" "build_dict_payload ?vs = Some (ec_payload e)"
    "length (ec_payload e) = 11 + length bs + n" by (rule encode_replicate [OF assms(1) b])
  have "expansion ?vs = Suc (Suc n) * length bs" by (simp add: expansion_def sum_list_replicate)
  then have over: "MAX_DECODED_CHUNK_LEN < expansion ?vs" using assms(4) by simp
  have "decode_dict_bytes_chunk (ec_payload e) (of_nat (length ?vs)) out = Inl (SegTooLarge ''dictionary column expands past the decode limit'')" for out
    by (rule decode_dict_over [OF e(3) _ _ over]) (use assms(2,3) b e(4) in \<open>auto simp: cell_fits_def\<close>)
  then show ?thesis using e by (intro exI [of _ e]) (simp add: append_nullable_bytes_cells_def append_present_bytes_cells_def)
qed

theorem dictionary_limit_witness:
  "\<exists>e. encode_bytes_values (replicate (1022 + 2) (Some (replicate 4194305 0))) True = Inr e \<and> length (ec_payload e) = 4195338 \<and>
    append_present_bytes_cells (ec_codec e) (ec_payload e) (of_nat (1022 + 2)) [] =
      Inl (SegTooLarge ''dictionary column expands past the decode limit'')"
  using dictionary_limit [of "replicate 4194305 0" 1022]
  by (simp only: length_replicate MAX_VERSION_FRAME_LEN_def MAX_DECODED_CHUNK_LEN_def) auto

end
