(* ===== verification/Systime_Undo.thy ===== *)
theory Systime_Undo
  imports Systime_Props
begin

text \<open>
  Aborting a transaction: \<open>undo\<close> after \<open>apply_resident\<close> (\<open>systime.rs\<close>), also when the redo set was only
  partly applied; and what a failed update leaves behind when nothing is undone.
\<close>

section \<open>Undoing a redo set\<close>

lemma insert_close_resident_cases:
  assumes "vi_inv s" "insert_close_resident c s = (r, s')"
  obtains (unchanged) "vi_same s s'" | (added) s0 where "vi_same s s0" "vi_abs s (close_target c) = None" "s' = vi_add c s0"
proof -
  obtain q s1 where q: "close_of (close_target c) s = (q, s1)" by (rule prod.exhaust)
  note spec = close_of_spec [OF assms(1) q]
  show thesis
  proof (cases "Close_check_encodable c = Inr () \<and> q = Inr None")
    case True
    then have "s' = vi_add c s1" using assms(2) q
      by (simp add: insert_close_resident_def insert_close_inner_def Let_def vi_add_def)
    with spec True show thesis by (intro added [of s1]) auto
  next
    case False
    then have "s' = s \<or> s' = s1" using assms(2) q
      by (auto simp: insert_close_resident_def insert_close_inner_def split: sum.splits option.splits if_splits)
    with spec(1) show thesis by (auto intro: unchanged)
  qed
qed

text \<open>The tiers agree with the ones before the transaction except at the given identities.\<close>

definition differs :: "tiers \<Rightarrow> version_key set \<Rightarrow> version_key set \<Rightarrow> version_key set \<Rightarrow> tiers \<Rightarrow> bool" where
  "differs ts V C R ts1 \<longleftrightarrow>
     (\<exists>t m. fst ts1 = (fst ts)\<lparr>dl_mem := t, dl_retractions := m\<rparr> \<and> mt_inv t \<and> mt_exact t \<and> bt_inv m \<and>
        (\<forall>k. k \<notin> V \<longrightarrow> mt_abs t k = mt_abs (dl_mem (fst ts)) k) \<and>
        (\<forall>k. k \<notin> R \<longrightarrow> bt_get m k = bt_get (dl_retractions (fst ts)) k)) \<and>
     (\<exists>d m. disk_same (vi_disk (snd ts)) d \<and> snd ts1 = (snd ts)\<lparr>vi_disk := d, vi_mem := m, vi_byte_size := mem_bytes m\<rparr> \<and>
        vi_inv (snd ts1) \<and> (\<forall>k. k \<notin> C \<longrightarrow> bt_get m k = bt_get (vi_mem (snd ts)) k))"

lemma differs_refl:
  assumes "delta_inv d" "mt_exact (dl_mem d)" "vi_inv i" "vi_byte_size i = mem_bytes (vi_mem i)"
  shows "differs (d, i) V C R (d, i)"
proof -
  have "d = d\<lparr>dl_mem := dl_mem d, dl_retractions := dl_retractions d\<rparr>" by simp
  moreover have "i = i\<lparr>vi_disk := vi_disk i, vi_mem := vi_mem i, vi_byte_size := mem_bytes (vi_mem i)\<rparr>" using assms(4) by simp
  moreover have "mt_inv (dl_mem d)" "bt_inv (dl_retractions d)" using assms(1) by (simp_all add: delta_inv_def)
  ultimately show ?thesis using assms(2,3) disk_same_refl unfolding differs_def fst_conv snd_conv by blast
qed

lemma differs_empty:
  assumes "differs (d, i) {} {} {} (d1, i1)" "delta_inv d" "mt_exact (dl_mem d)" "vi_inv i" "vi_byte_size i = mem_bytes (vi_mem i)"
  shows "d1 = d" "vi_same i i1"
proof -
  obtain t m where d1: "d1 = d\<lparr>dl_mem := t, dl_retractions := m\<rparr>" "mt_inv t" "mt_exact t" "bt_inv m"
      "\<And>k. mt_abs t k = mt_abs (dl_mem d) k" "\<And>k. bt_get m k = bt_get (dl_retractions d) k"
    using assms(1) unfolding differs_def by auto
  have dinv: "mt_inv (dl_mem d)" "bt_inv (dl_retractions d)" using assms(2) by (simp_all add: delta_inv_def)
  have "t = dl_mem d" using mt_eqI [OF d1(2) dinv(1) d1(3) assms(3)] d1(5) by blast
  moreover have "m = dl_retractions d" using bt_eqI [OF d1(4) dinv(2) d1(6)] .
  ultimately show "d1 = d" using d1(1) by simp
  obtain dk mm where i1: "disk_same (vi_disk i) dk" "i1 = i\<lparr>vi_disk := dk, vi_mem := mm, vi_byte_size := mem_bytes mm\<rparr>"
      "vi_inv i1" "\<And>k. bt_get mm k = bt_get (vi_mem i) k"
    using assms(1) unfolding differs_def by auto
  have "bt_inv mm" using i1(2,3) by (simp add: vi_inv_def)
  moreover have "bt_inv (vi_mem i)" using assms(4) by (simp add: vi_inv_def)
  ultimately have "mm = vi_mem i" using bt_eqI i1(4) by blast
  with i1 assms(5) show "vi_same i i1" unfolding vi_same_def by auto
qed

text \<open>The encoded bytes a redo entry adds to the delta tier and to the index.\<close>

fun redo_version_bytes :: "redo \<Rightarrow> nat" where
  "redo_version_bytes (Insert v) = Version_encoded_size v"
| "redo_version_bytes (Close c) = 0"
| "redo_version_bytes (Retract c) = 0"

fun redo_close_bytes :: "redo \<Rightarrow> nat" where
  "redo_close_bytes (Insert v) = 0"
| "redo_close_bytes (Close c) = Close_encoded_size c"
| "redo_close_bytes (Retract c) = Close_encoded_size c"

fun redo_versions :: "redo \<Rightarrow> version_key set" where
  "redo_versions (Insert v) = {vkey v}"
| "redo_versions (Close c) = {}"
| "redo_versions (Retract c) = {}"

fun redo_closes :: "redo \<Rightarrow> version_key set" where
  "redo_closes (Insert v) = {}"
| "redo_closes (Close c) = {close_target c}"
| "redo_closes (Retract c) = {close_target c}"

fun redo_retractions :: "redo \<Rightarrow> version_key set" where
  "redo_retractions (Insert v) = {}"
| "redo_retractions (Close c) = {}"
| "redo_retractions (Retract c) = {close_target c}"

definition tier_bytes :: "tiers \<Rightarrow> nat \<times> nat" where
  "tier_bytes ts = (mt_bytes (dl_mem (fst ts)), mem_bytes (vi_mem (snd ts)))"

text \<open>Changing the delta tier or the index at one identity.\<close>

lemma differs_version:
  assumes "differs ts V C R (d1, i1)" "mt_inv t" "mt_exact t" "\<And>k. k \<notin> V' \<Longrightarrow> mt_abs t k = mt_abs (dl_mem (fst ts)) k"
  shows "differs ts V' C R (d1\<lparr>dl_mem := t\<rparr>, i1)"
proof -
  obtain u m where "d1 = (fst ts)\<lparr>dl_mem := u, dl_retractions := m\<rparr>" "bt_inv m"
      "\<forall>k. k \<notin> R \<longrightarrow> bt_get m k = bt_get (dl_retractions (fst ts)) k"
    using assms(1) unfolding differs_def by auto
  then have "\<exists>t' m. d1\<lparr>dl_mem := t\<rparr> = (fst ts)\<lparr>dl_mem := t', dl_retractions := m\<rparr> \<and> mt_inv t' \<and> mt_exact t' \<and> bt_inv m \<and>
        (\<forall>k. k \<notin> V' \<longrightarrow> mt_abs t' k = mt_abs (dl_mem (fst ts)) k) \<and>
        (\<forall>k. k \<notin> R \<longrightarrow> bt_get m k = bt_get (dl_retractions (fst ts)) k)"
    using assms(2-4) by (intro exI [of _ t] exI [of _ m]) simp
  then show ?thesis using assms(1) unfolding differs_def by simp
qed

lemma differs_retraction:
  assumes "differs ts V C R (d1, i1)" "bt_inv m" "\<And>k. k \<notin> R' \<Longrightarrow> bt_get m k = bt_get (dl_retractions (fst ts)) k"
  shows "differs ts V C R' (d1\<lparr>dl_retractions := m\<rparr>, i1)"
proof -
  obtain t u where "d1 = (fst ts)\<lparr>dl_mem := t, dl_retractions := u\<rparr>" "mt_inv t" "mt_exact t"
      "\<forall>k. k \<notin> V \<longrightarrow> mt_abs t k = mt_abs (dl_mem (fst ts)) k"
    using assms(1) unfolding differs_def by auto
  then have "\<exists>t m'. d1\<lparr>dl_retractions := m\<rparr> = (fst ts)\<lparr>dl_mem := t, dl_retractions := m'\<rparr> \<and> mt_inv t \<and> mt_exact t \<and> bt_inv m' \<and>
        (\<forall>k. k \<notin> V \<longrightarrow> mt_abs t k = mt_abs (dl_mem (fst ts)) k) \<and>
        (\<forall>k. k \<notin> R' \<longrightarrow> bt_get m' k = bt_get (dl_retractions (fst ts)) k)"
    using assms(2,3) by (intro exI [of _ t] exI [of _ m]) simp
  then show ?thesis using assms(1) unfolding differs_def by simp
qed

lemma differs_close:
  assumes "differs ts V C R (d1, i1)" "disk_same (vi_disk i1) dk"
    "i2 = i1\<lparr>vi_disk := dk, vi_mem := m, vi_byte_size := mem_bytes m\<rparr>" "vi_inv i2"
    "\<And>k. k \<notin> C' \<Longrightarrow> bt_get m k = bt_get (vi_mem (snd ts)) k"
  shows "differs ts V C' R (d1, i2)"
proof -
  obtain d m' where d: "disk_same (vi_disk (snd ts)) d" "i1 = (snd ts)\<lparr>vi_disk := d, vi_mem := m', vi_byte_size := mem_bytes m'\<rparr>"
    using assms(1) unfolding differs_def by auto
  then have "disk_same (vi_disk (snd ts)) dk" using assms(2) by (auto intro: disk_same_trans)
  then have "\<exists>d m. disk_same (vi_disk (snd ts)) d \<and> i2 = (snd ts)\<lparr>vi_disk := d, vi_mem := m, vi_byte_size := mem_bytes m\<rparr> \<and>
        vi_inv i2 \<and> (\<forall>k. k \<notin> C' \<longrightarrow> bt_get m k = bt_get (vi_mem (snd ts)) k)"
    using d assms(3-5) by (intro exI [of _ dk] exI [of _ m]) simp
  then show ?thesis using assms(1) unfolding differs_def by simp
qed

lemma differs_parts:
  assumes "differs ts V C R (d1, i1)"
  shows "mt_inv (dl_mem d1)" "mt_exact (dl_mem d1)" "bt_inv (dl_retractions d1)" "vi_inv i1"
    "vi_byte_size i1 = mem_bytes (vi_mem i1)" "k \<notin> V \<Longrightarrow> mt_abs (dl_mem d1) k = mt_abs (dl_mem (fst ts)) k"
    "k \<notin> R \<Longrightarrow> bt_get (dl_retractions d1) k = bt_get (dl_retractions (fst ts)) k"
    "k \<notin> C \<Longrightarrow> bt_get (vi_mem i1) k = bt_get (vi_mem (snd ts)) k"
proof -
  obtain t m where d1: "d1 = (fst ts)\<lparr>dl_mem := t, dl_retractions := m\<rparr>" "mt_inv t" "mt_exact t" "bt_inv m"
      "\<And>k. k \<notin> V \<Longrightarrow> mt_abs t k = mt_abs (dl_mem (fst ts)) k" "\<And>k. k \<notin> R \<Longrightarrow> bt_get m k = bt_get (dl_retractions (fst ts)) k"
    using assms unfolding differs_def fst_conv snd_conv by blast
  obtain d mm where i1: "i1 = (snd ts)\<lparr>vi_disk := d, vi_mem := mm, vi_byte_size := mem_bytes mm\<rparr>" "vi_inv i1"
      "\<And>k. k \<notin> C \<Longrightarrow> bt_get mm k = bt_get (vi_mem (snd ts)) k"
    using assms unfolding differs_def fst_conv snd_conv by blast
  have "dl_mem d1 = t" "dl_retractions d1 = m" "vi_mem i1 = mm" "vi_byte_size i1 = mem_bytes mm"
    unfolding d1(1) by (simp, simp, simp add: i1(1), simp add: i1(1))
  note f = this
  show "mt_inv (dl_mem d1)" "mt_exact (dl_mem d1)" "bt_inv (dl_retractions d1)" "vi_inv i1"
    "vi_byte_size i1 = mem_bytes (vi_mem i1)" unfolding f by (fact d1 i1 refl)+
  show "k \<notin> V \<Longrightarrow> mt_abs (dl_mem d1) k = mt_abs (dl_mem (fst ts)) k" unfolding f by (rule d1(5))
  show "k \<notin> R \<Longrightarrow> bt_get (dl_retractions d1) k = bt_get (dl_retractions (fst ts)) k" unfolding f by (rule d1(6))
  show "k \<notin> C \<Longrightarrow> bt_get (vi_mem i1) k = bt_get (vi_mem (snd ts)) k" unfolding f by (rule i1(3))
qed

lemma differs_insert_close:
  assumes "differs ts V C R (d1, i1)" "close_target c \<in> C" "mem_bytes (vi_mem i1) + Close_encoded_size c < 2 ^ 64"
    "insert_close_resident c i1 = (q, i2)"
  shows "differs ts V C R (d1, i2) \<and> mem_bytes (vi_mem i2) \<le> mem_bytes (vi_mem i1) + Close_encoded_size c"
proof -
  note p = differs_parts [OF assms(1)]
  from p(4) assms(4) show ?thesis
  proof (cases rule: insert_close_resident_cases)
    case unchanged
    then obtain dk where dk: "disk_same (vi_disk i1) dk" "i2 = i1\<lparr>vi_disk := dk\<rparr>" by (auto simp: vi_same_def)
    have "vi_inv i2" using vi_same_views(3) [OF unchanged] p(4) by simp
    then have "differs ts V C R (d1, i2)" using dk p(5,8) by (intro differs_close [OF assms(1) dk(1), where m = "vi_mem i1"]) auto
    then show ?thesis using dk by simp
  next
    case (added s0)
    then obtain dk where dk: "disk_same (vi_disk i1) dk" "s0 = i1\<lparr>vi_disk := dk\<rparr>" by (auto simp: vi_same_def)
    let ?m = "bt_insert (close_target c) (close_interval c) (vi_mem i1)"
    have none: "vi_abs s0 (close_target c) = None" using vi_same_views(2) [OF added(1)] added(2) by simp
    then have mb: "mem_bytes ?m = mem_bytes (vi_mem i1) + Close_encoded_size c"
      using mem_bytes_insert [of "vi_mem i1" "close_target c" "close_interval c"] p(4) dk(2) by (simp add: vi_abs_None vi_inv_def)
    have i2: "i2 = i1\<lparr>vi_disk := dk, vi_mem := ?m, vi_byte_size := mem_bytes ?m\<rparr>"
      using added(3) dk(2) p(5) assms(3) mb by (simp add: vi_add_def u64_saturating_add_def)
    have "vi_inv i2" unfolding added(3) using vi_add_spec(1) [OF _ none] vi_same_views(3) [OF added(1)] p(4) by simp
    then have "differs ts V C R (d1, i2)"
      using p(8) assms(2) by (intro differs_close [OF assms(1) dk(1) i2]) auto
    then show ?thesis using i2 mb by simp
  qed
qed

lemma apply_resident_differs:
  assumes "differs ts V C R (d1, i1)" "redo_versions r \<subseteq> V" "redo_closes r \<subseteq> C" "redo_retractions r \<subseteq> R"
    "mt_bytes (dl_mem d1) + redo_version_bytes r < 2 ^ 64" "mem_bytes (vi_mem i1) + redo_close_bytes r < 2 ^ 64"
    "apply_redo_resident r (d1, i1) = (q, d2, i2)"
  shows "differs ts V C R (d2, i2) \<and> mt_bytes (dl_mem d2) \<le> mt_bytes (dl_mem d1) + redo_version_bytes r \<and>
    mem_bytes (vi_mem i2) \<le> mem_bytes (vi_mem i1) + redo_close_bytes r"
proof (cases r)
  case (Insert v)
  note p = differs_parts [OF assms(1)]
  let ?t = "MemTier_insert v (dl_mem d1)"
  have d2: "d2 = d1 \<or> d2 = d1\<lparr>dl_mem := ?t\<rparr>" and i2: "i2 = i1"
    using assms(7) Insert by (auto simp: apply_redo_resident_def delta_insert_resident_def delta_insert_inner_def Let_def split: sum.splits)
  have "differs ts V C R (d1\<lparr>dl_mem := ?t\<rparr>, i1)"
  proof (rule differs_version [OF assms(1)])
    show "mt_inv ?t" by (rule MemTier_insert_spec(1) [OF p(1)])
    show "mt_exact ?t" using mt_exact_insert [OF p(1,2)] assms(5) Insert by simp
    show "mt_abs ?t k = mt_abs (dl_mem (fst ts)) k" if "k \<notin> V" for k
      using that p(6) assms(2) Insert MemTier_insert_spec(2) [OF p(1), of v] by auto
  qed
  moreover have "mt_bytes ?t \<le> mt_bytes (dl_mem d1) + Version_encoded_size v"
    using MemTier_insert_bytes(1) [OF p(1), of v] by linarith
  ultimately show ?thesis using d2 i2 assms(1) Insert by auto
next
  case (Close c)
  obtain a i' where a: "insert_close_resident c i1 = (a, i')" by (rule prod.exhaust)
  then have "d2 = d1" "i2 = i'" using assms(7) Close by (auto simp: apply_redo_resident_def split: sum.splits)
  with differs_insert_close [OF assms(1) _ _ a] assms(3,6) Close show ?thesis by simp
next
  case (Retract c)
  obtain a i' where a: "insert_close_resident c i1 = (a, i')" by (rule prod.exhaust)
  then have d2: "d2 = d1 \<or> d2 = stage_retraction c d1" "i2 = i'" using assms(7) Retract by (auto simp: apply_redo_resident_def split: sum.splits)
  note ic = differs_insert_close [OF assms(1) _ _ a]
  have dd: "differs ts V C R (d1, i')" using ic assms(3,6) Retract by simp
  have "differs ts V C R (stage_retraction c d1, i')"
    unfolding stage_retraction_def
  proof (rule differs_retraction [OF dd])
    note p = differs_parts [OF assms(1)]
    show "bt_inv (bt_insert (cl_business_key c, cl_sys_from c, cl_seq c) c (dl_retractions d1))" using p(3) by simp
    show "bt_get (bt_insert (cl_business_key c, cl_sys_from c, cl_seq c) c (dl_retractions d1)) k =
        bt_get (dl_retractions (fst ts)) k" if "k \<notin> R" for k
      using that p(7) assms(4) Retract by (auto simp: close_target_def)
  qed
  moreover have "mt_bytes (dl_mem (stage_retraction c d1)) = mt_bytes (dl_mem d1)" by (simp add: stage_retraction_def)
  ultimately show ?thesis using d2 dd ic assms(3,6) Retract by auto
qed

lemma try_all_differs:
  assumes "differs ts V C R (d1, i1)" "\<forall>r \<in> set redos. redo_versions r \<subseteq> V \<and> redo_closes r \<subseteq> C \<and> redo_retractions r \<subseteq> R"
    "mt_bytes (dl_mem d1) + sum_list (map redo_version_bytes redos) < 2 ^ 64"
    "mem_bytes (vi_mem i1) + sum_list (map redo_close_bytes redos) < 2 ^ 64"
    "try_all apply_redo_resident redos (d1, i1) = (q, ts2)"
  shows "differs ts V C R ts2"
  using assms
proof (induction redos arbitrary: d1 i1)
  case (Cons r redos)
  obtain a d2 i2 where a: "apply_redo_resident r (d1, i1) = (a, d2, i2)" by (metis prod.exhaust)
  have step: "differs ts V C R (d2, i2) \<and> mt_bytes (dl_mem d2) \<le> mt_bytes (dl_mem d1) + redo_version_bytes r \<and>
      mem_bytes (vi_mem i2) \<le> mem_bytes (vi_mem i1) + redo_close_bytes r"
    using Cons.prems(2-4) by (intro apply_resident_differs [OF Cons.prems(1) _ _ _ _ _ a]) auto
  show ?case
  proof (cases a)
    case (Inl e)
    with a step Cons.prems(5) show ?thesis by auto
  next
    case (Inr u)
    have "mt_bytes (dl_mem d2) + sum_list (map redo_version_bytes redos) < 2 ^ 64"
      "mem_bytes (vi_mem i2) + sum_list (map redo_close_bytes redos) < 2 ^ 64"
      using step Cons.prems(3,4) by auto
    moreover have "try_all apply_redo_resident redos (d2, i2) = (q, ts2)" using Cons.prems(5) a Inr by simp
    moreover have "\<forall>r \<in> set redos. redo_versions r \<subseteq> V \<and> redo_closes r \<subseteq> C \<and> redo_retractions r \<subseteq> R"
      using Cons.prems(2) by simp
    ultimately show ?thesis using Cons.IH [OF conjunct1 [OF step]] by blast
  qed
qed simp

text \<open>An entry is fresh when nothing is recorded yet at the identities it touches.\<close>

definition redo_fresh :: "tiers \<Rightarrow> redo \<Rightarrow> bool" where
  "redo_fresh ts r \<longleftrightarrow>
     (\<forall>k \<in> redo_versions r. k \<notin> vkey ` staged_set (fst ts)) \<and>
     (\<forall>k \<in> redo_closes r. vi_abs (snd ts) k = None) \<and>
     (\<forall>k \<in> redo_retractions r. bt_get (dl_retractions (fst ts)) k = None)"

lemma redo_fresh_absent:
  assumes "redo_fresh (d, i) r" "mt_inv (dl_mem d)"
  shows "k \<in> redo_versions r \<Longrightarrow> mt_abs (dl_mem d) k = None" "k \<in> redo_closes r \<Longrightarrow> bt_get (vi_mem i) k = None"
proof -
  assume "k \<in> redo_versions r"
  then have out: "k \<notin> vkey ` set (MemTier_iter (dl_mem d))" using assms(1) by (auto simp: redo_fresh_def staged_set_Un)
  show "mt_abs (dl_mem d) k = None"
  proof (rule ccontr)
    assume "mt_abs (dl_mem d) k \<noteq> None"
    then obtain v where v: "mt_abs (dl_mem d) k = Some v" by blast
    with mt_vkey [OF assms(2) v] have "v \<in> set (MemTier_iter (dl_mem d))" using MemTier_iter_spec(4) [OF assms(2)] by simp
    with mt_vkey [OF assms(2) v] out show False by blast
  qed
qed (use assms(1) in \<open>simp add: redo_fresh_def vi_abs_None\<close>)

lemma differs_remove_close:
  assumes "differs ts V C R (d1, i1)" "bt_get (vi_mem (snd ts)) k = None"
  shows "differs ts V (C - {k}) R (d1, snd (remove_close k i1))"
proof -
  note p = differs_parts [OF assms(1)]
  obtain b i2 where b: "remove_close k i1 = (b, i2)" by (rule prod.exhaust)
  have inv: "vi_inv i2" using remove_close_spec(1) [OF p(4) b] .
  have bi: "bt_inv (vi_mem i1)" using p(4) by (simp add: vi_inv_def)
  let ?m = "bt_remove k (vi_mem i1)"
  have m: "?m = vi_mem i1" if "bt_get (vi_mem i1) k = None" using that bi by (intro bt_eqI) auto
  have i2: "i2 = i1\<lparr>vi_disk := vi_disk i1, vi_mem := ?m, vi_byte_size := mem_bytes ?m\<rparr>"
  proof (cases "bt_get (vi_mem i1) k")
    case None
    with b m p(5) show ?thesis by (simp add: remove_close_def)
  next
    case (Some v)
    with b p(5) mem_bytes_remove [OF bi Some] show ?thesis by (auto simp: remove_close_def)
  qed
  have "differs ts V (C - {k}) R (d1, i2)"
    using p(8) assms(2) by (intro differs_close [OF assms(1) disk_same_refl i2 inv]) auto
  then show ?thesis by (simp add: b)
qed

lemma undo_differs:
  assumes "differs (d, i) V C R ts1" "redo_fresh (d, i) r" "mt_inv (dl_mem d)"
  shows "differs (d, i) (V - redo_versions r) (C - redo_closes r) (R - redo_retractions r) (undo_redo r ts1)"
proof -
  obtain d1 i1 where ts1: "ts1 = (d1, i1)" by (rule prod.exhaust)
  note df = assms(1) [unfolded ts1] and p = differs_parts [OF assms(1) [unfolded ts1]]
  have absent: "\<And>k. k \<in> redo_versions r \<Longrightarrow> mt_abs (dl_mem d) k = None" "\<And>k. k \<in> redo_closes r \<Longrightarrow> bt_get (vi_mem i) k = None"
    "\<And>k. k \<in> redo_retractions r \<Longrightarrow> bt_get (dl_retractions d) k = None"
    using redo_fresh_absent [OF assms(2,3)] assms(2) by (simp_all add: redo_fresh_def)
  show ?thesis
  proof (cases r)
    case (Insert v)
    obtain b t where b: "MemTier_remove (v_business_key v) (v_sys_from v) (v_seq v) (dl_mem d1) = (b, t)" by (rule prod.exhaust)
    note rm = MemTier_remove_spec [OF p(1) b]
    have "differs (d, i) (V - {vkey v}) C R (d1\<lparr>dl_mem := t\<rparr>, i1)"
    proof (rule differs_version [OF df rm(1) mt_exact_remove [OF p(1,2) b]])
      show "mt_abs t k = mt_abs (dl_mem (fst (d, i))) k" if "k \<notin> V - {vkey v}" for k
        using that p(6) [of k] rm(3) absent(1) [of k] Insert by (auto simp: vkey_def)
    qed
    then show ?thesis using Insert b by (simp add: ts1 undo_redo_def remove_version_def)
  next
    case (Close c)
    have "bt_get (vi_mem (snd (d, i))) (close_target c) = None" using absent(2) Close by simp
    from differs_remove_close [OF df this] show ?thesis using Close by (simp add: ts1 undo_redo_def close_target_def)
  next
    case (Retract c)
    let ?k = "close_target c"
    have "bt_get (vi_mem (snd (d, i))) ?k = None" using absent(2) Retract by simp
    from differs_remove_close [OF df this] have c: "differs (d, i) V (C - {?k}) R (d1, snd (remove_close ?k i1))" .
    have "differs (d, i) V (C - {?k}) (R - {?k}) (d1\<lparr>dl_retractions := bt_remove ?k (dl_retractions d1)\<rparr>, snd (remove_close ?k i1))"
      using p(3,7) absent(3) Retract by (intro differs_retraction [OF c]) auto
    then show ?thesis using Retract by (simp add: ts1 undo_redo_def remove_retraction_def close_target_def)
  qed
qed

lemma undo_all_differs:
  assumes "differs (d, i) V C R ts1" "\<forall>r \<in> set rs. redo_fresh (d, i) r" "mt_inv (dl_mem d)"
  shows "differs (d, i) (V - \<Union> (redo_versions ` set rs)) (C - \<Union> (redo_closes ` set rs)) (R - \<Union> (redo_retractions ` set rs))
    (fold undo_redo rs ts1)"
  using assms
proof (induction rs arbitrary: V C R ts1)
  case (Cons r rs)
  have "redo_fresh (d, i) r" using Cons.prems(2) by simp
  from Cons.IH [OF undo_differs [OF Cons.prems(1) this Cons.prems(3)]] Cons.prems(2,3) show ?case
    by (simp add: Diff_Un Int_Diff Diff_Int_distrib Set.Diff_eq Int_assoc)
qed simp

text \<open>
  C23. Aborting a transaction leaves no trace. Applying any redo set of fresh entries without spilling,
  whether it applies in full or stops at an error partway, and then undoing the whole set restores the
  delta tier exactly, resident rows, byte count, staged retractions and spill files included, and the
  validity index with the same resident entries, byte count and spill files, whatever faults its disk
  serves on the way.
\<close>

theorem undo_restores_tiers:
  assumes "delta_inv d" "mt_exact (dl_mem d)" "vi_inv i" "vi_byte_size i = mem_bytes (vi_mem i)"
    and "\<forall>r \<in> set redos. redo_fresh (d, i) r"
    and "mt_bytes (dl_mem d) + sum_list (map redo_version_bytes redos) < 2 ^ 64"
    and "mem_bytes (vi_mem i) + sum_list (map redo_close_bytes redos) < 2 ^ 64"
    and "apply_redos_resident redos (d, i) = (r, ts1)"
  shows "\<exists>disk. undo_redos redos ts1 = (d, i\<lparr>vi_disk := disk\<rparr>) \<and> disk_same (vi_disk i) disk"
proof -
  let ?V = "\<Union> (redo_versions ` set redos)" and ?C = "\<Union> (redo_closes ` set redos)" and ?R = "\<Union> (redo_retractions ` set redos)"
  have mi: "mt_inv (dl_mem d)" using assms(1) by (simp add: delta_inv_def)
  have "differs (d, i) ?V ?C ?R ts1"
    by (rule try_all_differs [OF differs_refl [OF assms(1-4)] _ assms(6,7) assms(8) [unfolded apply_redos_resident_def]]) auto
  from undo_all_differs [OF this, of "rev redos"] assms(5) mi
  have u: "differs (d, i) {} {} {} (undo_redos redos ts1)" by (simp add: undo_redos_def)
  obtain d2 i2 where ts2: "undo_redos redos ts1 = (d2, i2)" by (rule prod.exhaust)
  note e = differs_empty [OF u [unfolded ts2] assms(1-4)]
  then show ?thesis using ts2 by (auto simp: vi_same_def)
qed

text \<open>An aborted update of the first version.\<close>

definition aborted_update :: "redo list" where
  "aborted_update = [Close (systime_close_of [107] first_version (i64_of 20) 9 []), Insert second_version]"

theorem undo_restores_tiers_witness:
  "\<exists>r ts1 disk. apply_redos_resident aborted_update (one_delta MemDisk_new, empty_index) = (r, ts1) \<and>
     undo_redos aborted_update ts1 = (one_delta MemDisk_new, empty_index\<lparr>vi_disk := disk\<rparr>)"
proof -
  have d: "delta_inv (one_delta MemDisk_new)" "staged_set (one_delta MemDisk_new) = {first_version}"
    using one_delta_inv [of MemDisk_new] by (simp_all add: MemDisk_new_def)
  have i: "vi_byte_size empty_index = mem_bytes (vi_mem empty_index)" "vi_mem empty_index = []"
    by (simp_all add: empty_index_def mem_bytes_def)
  have "\<forall>r \<in> set aborted_update. redo_fresh (one_delta MemDisk_new, empty_index) r"
    using example_vkeys d(2) by (auto simp: aborted_update_def redo_fresh_def empty_index_inv)
  moreover have "mt_bytes (dl_mem (one_delta MemDisk_new)) + sum_list (map redo_version_bytes aborted_update) < 2 ^ 64"
    unfolding one_delta_exact(2) by (simp add: aborted_update_def first_size)
  moreover have "mem_bytes (vi_mem empty_index) + sum_list (map redo_close_bytes aborted_update) < 2 ^ 64"
    by (simp add: i(2) mem_bytes_def aborted_update_def Close_encoded_size_def CLOSE_HEADER_LEN_def systime_close_of_def)
  moreover obtain r ts1 where "apply_redos_resident aborted_update (one_delta MemDisk_new, empty_index) = (r, ts1)"
    by (rule prod.exhaust)
  ultimately show ?thesis
    using undo_restores_tiers [OF d(1) one_delta_exact(1) empty_index_inv(1) i(1)] by blast
qed

end
