(* ===== verification/Redo_View.thy ===== *)
theory Redo_View
  imports Systime_Undo
begin

text \<open>
  What a redo set does to the tiers, free of spill files and byte counts: \<open>tier_view\<close> is what a read can
  tell of a delta tier and a validity index, and \<open>redo_view\<close> the effect of one entry on it. Both appliers
  of \<open>systime.rs\<close>, the spilling and the resident one, implement it (locale \<open>redo_applier\<close>); without faults
  the spilling one succeeds on every entry the view admits, which is what replaying a log relies on.
\<close>

section \<open>Views\<close>

record tier_view =
  tv_versions :: "version set"
  tv_ends :: "version_key \<Rightarrow> closed_interval option"
  tv_retractions :: "version_key \<Rightarrow> close option"

definition view_of :: "tiers \<Rightarrow> tier_view" where
  "view_of ts = \<lparr>tv_versions = staged_set (fst ts), tv_ends = vi_abs (snd ts),
     tv_retractions = bt_get (dl_retractions (fst ts))\<rparr>"

fun redo_view :: "redo \<Rightarrow> tier_view \<Rightarrow> tier_view" where
  "redo_view (Insert v) tv = tv\<lparr>tv_versions := insert v (tv_versions tv)\<rparr>"
| "redo_view (Close c) tv = tv\<lparr>tv_ends := (tv_ends tv)(close_target c \<mapsto> close_interval c)\<rparr>"
| "redo_view (Retract c) tv = tv\<lparr>tv_ends := (tv_ends tv)(close_target c \<mapsto> close_interval c),
     tv_retractions := (tv_retractions tv)(close_target c \<mapsto> c)\<rparr>"

text \<open>An entry that clashes with nothing recorded: a new identity or the version already there.\<close>

fun redo_admitted :: "redo \<Rightarrow> tier_view \<Rightarrow> bool" where
  "redo_admitted (Insert v) tv \<longleftrightarrow> unresolved v = v \<and> (\<forall>w \<in> tv_versions tv. vkey w = vkey v \<longrightarrow> w = v)"
| "redo_admitted (Close c) tv \<longleftrightarrow> tv_ends tv (close_target c) \<in> {None, Some (close_interval c)}"
| "redo_admitted (Retract c) tv \<longleftrightarrow> tv_ends tv (close_target c) \<in> {None, Some (close_interval c)}"

fun redos_admitted :: "redo list \<Rightarrow> tier_view \<Rightarrow> bool" where
  "redos_admitted [] tv \<longleftrightarrow> True"
| "redos_admitted (r # rs) tv \<longleftrightarrow> redo_admitted r tv \<and> redos_admitted rs (redo_view r tv)"

lemma redos_admitted_append:
  "redos_admitted (rs @ qs) tv \<longleftrightarrow> redos_admitted rs tv \<and> redos_admitted qs (fold redo_view rs tv)"
  by (induction rs arbitrary: tv) auto

definition tiers_inv :: "tiers \<Rightarrow> bool" where
  "tiers_inv ts \<longleftrightarrow> delta_inv (fst ts) \<and> vi_inv (snd ts)"

section \<open>Appliers\<close>

interpretation vresident: write_once_index insert_close_resident vi_abs vi_inv close_target close_interval
proof
  fix s c r s' assume "vi_inv s" "insert_close_resident c s = (r, s')"
  then show "vi_inv s'" unfolding insert_close_resident_def by (rule insert_close_inner_inv)
next
  fix s c s' assume a: "vi_inv s" "insert_close_resident c s = (Inr (), s')"
  from a(1) a(2) [unfolded insert_close_resident_def]
  show "vi_abs s (close_target c) \<in> {None, Some (close_interval c)} \<and> vi_abs s' = (vi_abs s)(close_target c \<mapsto> close_interval c)"
    by (cases rule: insert_close_inner_cases) (auto simp: vi_same_views(2) [of s s'] vi_add_spec(2))
next
  fix s c e s' assume a: "vi_inv s" "insert_close_resident c s = (Inl e, s')"
  from a(1) a(2) [unfolded insert_close_resident_def] show "vi_abs s' = vi_abs s"
    by (cases rule: insert_close_inner_cases) (auto simp: vi_same_views(2) [of s s'])
qed

locale redo_applier =
  fixes step :: "redo \<Rightarrow> tiers \<Rightarrow> (systime_error + unit) \<times> tiers"
  assumes step_ok: "tiers_inv ts \<Longrightarrow> redo_admitted r (view_of ts) \<Longrightarrow> step r ts = (Inr (), ts') \<Longrightarrow>
    tiers_inv ts' \<and> view_of ts' = redo_view r (view_of ts)"
begin

lemma all_ok:
  assumes "tiers_inv ts" "redos_admitted rs (view_of ts)" "try_all step rs ts = (Inr (), ts')"
  shows "tiers_inv ts' \<and> view_of ts' = fold redo_view rs (view_of ts)"
  using assms
proof (induction rs arbitrary: ts)
  case (Cons r rs)
  then obtain ts1 where s: "step r ts = (Inr (), ts1)" "try_all step rs ts1 = (Inr (), ts')"
    by (cases "step r ts") (auto split: sum.splits)
  have "tiers_inv ts1 \<and> view_of ts1 = redo_view r (view_of ts)" using Cons.prems(1,2) s(1) by (intro step_ok) simp_all
  with Cons.IH [OF _ _ s(2)] Cons.prems(2) show ?case by simp
qed simp

end

lemma stage_retraction_view:
  assumes "delta_inv d"
  shows "delta_inv (stage_retraction c d)" "staged_set (stage_retraction c d) = staged_set d"
    "bt_get (dl_retractions (stage_retraction c d)) = (bt_get (dl_retractions d))(close_target c \<mapsto> c)"
proof -
  have sp: "spilled_versions (stage_retraction c d) = spilled_versions d" by (simp add: spilled_versions_def stage_retraction_def)
  then show st: "staged_set (stage_retraction c d) = staged_set d"
    by (simp add: staged_set_def delta_rows_def stage_retraction_def)
  have b: "bt_inv (dl_retractions d)" using assms by (simp add: delta_inv_def)
  then show "bt_get (dl_retractions (stage_retraction c d)) = (bt_get (dl_retractions d))(close_target c \<mapsto> c)"
    by (auto simp: stage_retraction_def close_target_def fun_eq_iff)
  show "delta_inv (stage_retraction c d)" using assms st sp b by (simp add: delta_inv_def stage_retraction_def)
qed

text \<open>One step of either applier, given what its two tier operations do.\<close>

lemma step_view:
  assumes inv: "tiers_inv (d, i)" and ad: "redo_admitted r (view_of (d, i))"
    and v: "\<And>v. r = Insert v \<Longrightarrow> \<exists>allow. delta_insert_inner v allow d = (Inr (), d') \<and> i' = i"
    and c: "\<And>c. r = Close c \<Longrightarrow> vi_inv i' \<and> vi_abs i' = (vi_abs i)(close_target c \<mapsto> close_interval c) \<and> d' = d"
    and t: "\<And>c. r = Retract c \<Longrightarrow> vi_inv i' \<and> vi_abs i' = (vi_abs i)(close_target c \<mapsto> close_interval c) \<and> d' = stage_retraction c d"
  shows "tiers_inv (d', i') \<and> view_of (d', i') = redo_view r (view_of (d, i))"
proof (cases r)
  case (Insert v)
  with assms(3) obtain allow where a: "delta_insert_inner v allow d = (Inr (), d')" "i' = i" by blast
  have "delta_inv d" "unresolved v = v" "\<And>w. w \<in> staged_set d \<Longrightarrow> vkey w = vkey v \<Longrightarrow> w = v"
    using inv ad Insert by (auto simp: tiers_inv_def view_of_def)
  from delta_insert_inner_ok [OF this(1) a(1) this(2,3)] inv a(2) Insert show ?thesis by (simp add: tiers_inv_def view_of_def)
next
  case (Close x)
  with c inv show ?thesis by (simp add: tiers_inv_def view_of_def)
next
  case (Retract x)
  with t inv stage_retraction_view [of d x] show ?thesis by (simp add: tiers_inv_def view_of_def)
qed

interpretation spilling: redo_applier apply_redo
proof
  fix ts :: tiers and r ts' assume h: "tiers_inv ts" "redo_admitted r (view_of ts)" "apply_redo r ts = (Inr (), ts')"
  obtain d i d' i' where ts: "ts = (d, i)" "ts' = (d', i')" by (metis prod.exhaust)
  show "tiers_inv ts' \<and> view_of ts' = redo_view r (view_of ts)"
    unfolding ts
  proof (rule step_view)
    show "tiers_inv (d, i)" "redo_admitted r (view_of (d, i))" using h(1,2) by (simp_all add: ts)
    show "\<exists>allow. delta_insert_inner v allow d = (Inr (), d') \<and> i' = i" if "r = Insert v" for v
      using h(3) that by (auto simp: ts apply_redo_def delta_insert_def split: sum.splits prod.splits)
    have vi: "vi_inv i" using h(1) by (simp add: ts tiers_inv_def)
    have ic: "vi_inv i' \<and> vi_abs i' = (vi_abs i)(close_target c \<mapsto> close_interval c)" if "insert_close c i = (Inr (), i')" for c
      using vindex.insert_inv [OF vi that] vindex.insert_ok [OF vi that] by simp
    show "vi_inv i' \<and> vi_abs i' = (vi_abs i)(close_target c \<mapsto> close_interval c) \<and> d' = d" if "r = Close c" for c
      using h(3) that ic [of c] by (auto simp: ts apply_redo_def split: sum.splits prod.splits)
    show "vi_inv i' \<and> vi_abs i' = (vi_abs i)(close_target c \<mapsto> close_interval c) \<and> d' = stage_retraction c d" if "r = Retract c" for c
      using h(3) that ic [of c] by (auto simp: ts apply_redo_def split: sum.splits prod.splits)
  qed
qed

interpretation resident: redo_applier apply_redo_resident
proof
  fix ts :: tiers and r ts' assume h: "tiers_inv ts" "redo_admitted r (view_of ts)" "apply_redo_resident r ts = (Inr (), ts')"
  obtain d i d' i' where ts: "ts = (d, i)" "ts' = (d', i')" by (metis prod.exhaust)
  show "tiers_inv ts' \<and> view_of ts' = redo_view r (view_of ts)"
    unfolding ts
  proof (rule step_view)
    show "tiers_inv (d, i)" "redo_admitted r (view_of (d, i))" using h(1,2) by (simp_all add: ts)
    show "\<exists>allow. delta_insert_inner v allow d = (Inr (), d') \<and> i' = i" if "r = Insert v" for v
      using h(3) that by (auto simp: ts apply_redo_resident_def delta_insert_resident_def split: sum.splits prod.splits)
    have vi: "vi_inv i" using h(1) by (simp add: ts tiers_inv_def)
    have ic: "vi_inv i' \<and> vi_abs i' = (vi_abs i)(close_target c \<mapsto> close_interval c)" if "insert_close_resident c i = (Inr (), i')" for c
      using vresident.insert_inv [OF vi that] vresident.insert_ok [OF vi that] by simp
    show "vi_inv i' \<and> vi_abs i' = (vi_abs i)(close_target c \<mapsto> close_interval c) \<and> d' = d" if "r = Close c" for c
      using h(3) that ic [of c] by (auto simp: ts apply_redo_resident_def split: sum.splits prod.splits)
    show "vi_inv i' \<and> vi_abs i' = (vi_abs i)(close_target c \<mapsto> close_interval c) \<and> d' = stage_retraction c d" if "r = Retract c" for c
      using h(3) that ic [of c] by (auto simp: ts apply_redo_resident_def split: sum.splits prod.splits)
  qed
qed

section \<open>Progress\<close>

text \<open>Healthy disks and room for \<open>n\<close> more spill files.\<close>

definition tiers_ready :: "nat \<Rightarrow> tiers \<Rightarrow> bool" where
  "tiers_ready n ts \<longleftrightarrow> delta_inv (fst ts) \<and> no_faults (dl_disk (fst ts)) \<and> vi_ready (snd ts) \<and>
     dl_next_spill (fst ts) + n \<le> 2 ^ 64"

fun redo_encodable :: "redo \<Rightarrow> bool" where
  "redo_encodable (Insert v) \<longleftrightarrow> version_encodable v"
| "redo_encodable (Close c) \<longleftrightarrow> close_encodable c"
| "redo_encodable (Retract c) \<longleftrightarrow> close_encodable c"

lemma apply_redo_live:
  assumes "tiers_ready (Suc n) ts" "redo_admitted r (view_of ts)" "redo_encodable r"
  shows "\<exists>ts'. apply_redo r ts = (Inr (), ts') \<and> tiers_ready n ts'"
proof -
  obtain d i where ts: "ts = (d, i)" by (rule prod.exhaust)
  have d: "delta_inv d" "no_faults (dl_disk d)" "dl_next_spill d < 2 ^ 64" and i: "vi_ready i"
    using assms(1) by (auto simp: ts tiers_ready_def)
  have close: "\<exists>i'. insert_close c i = (Inr (), i') \<and> vi_ready i'"
    if "close_encodable c" "vi_abs i (close_target c) \<in> {None, Some (close_interval c)}" for c
    using insert_close_live [OF i that] .
  show ?thesis
  proof (cases r)
    case (Insert v)
    then have v: "version_encodable v" "unresolved v = v" "\<And>w. w \<in> staged_set d \<Longrightarrow> vkey w = vkey v \<Longrightarrow> w = v"
      using assms(2,3) by (auto simp: ts view_of_def)
    obtain d' where d': "delta_insert v d = (Inr (), d')" "no_faults (dl_disk d')"
      using delta_insert_live [OF d v(1)] by (auto simp: delta_insert_def)
    note ok = delta_insert_inner_ok [OF d(1) d'(1) [unfolded delta_insert_def] v(2,3)]
    have "tiers_ready n (d', i)" using assms(1) ok(1,5) d'(2) i by (simp add: ts tiers_ready_def)
    then show ?thesis using d'(1) Insert by (simp add: ts apply_redo_def)
  next
    case (Close c)
    then obtain i' where "insert_close c i = (Inr (), i')" "vi_ready i'" using close assms(2,3) by (auto simp: ts view_of_def)
    then show ?thesis using assms(1) Close by (simp add: ts tiers_ready_def apply_redo_def)
  next
    case (Retract c)
    then obtain i' where "insert_close c i = (Inr (), i')" "vi_ready i'" using close assms(2,3) by (auto simp: ts view_of_def)
    then show ?thesis using assms(1) Retract stage_retraction_view(1) [OF d(1), of c]
      by (simp add: ts tiers_ready_def apply_redo_def) (simp add: stage_retraction_def)
  qed
qed

lemma tiers_ready_inv: "tiers_ready n ts \<Longrightarrow> tiers_inv ts"
  by (simp add: tiers_ready_def tiers_inv_def vi_ready_def)

lemma apply_redos_live:
  assumes "tiers_ready (length rs + n) ts" "redos_admitted rs (view_of ts)" "list_all redo_encodable rs"
  shows "\<exists>ts'. apply_redos rs ts = (Inr (), ts') \<and> tiers_ready n ts' \<and> view_of ts' = fold redo_view rs (view_of ts)"
  using assms
proof (induction rs arbitrary: ts)
  case (Cons r rs)
  have ready: "tiers_ready (Suc (length rs + n)) ts" and r: "redo_admitted r (view_of ts)" "redo_encodable r"
    using Cons.prems by simp_all
  from apply_redo_live [OF this] obtain ts1 where s: "apply_redo r ts = (Inr (), ts1)" "tiers_ready (length rs + n) ts1" by blast
  have "view_of ts1 = redo_view r (view_of ts)" using spilling.step_ok [OF tiers_ready_inv [OF ready] r(1) s(1)] by simp
  with Cons.IH [OF s(2)] Cons.prems(2,3) s(1) show ?case by (simp add: apply_redos_def)
qed (simp add: apply_redos_def)

end
