(* ===== verification/Dml.thy ===== *)
theory Dml
  imports Valid_Time Redo_View Wal_Replay
begin

text \<open>
  The DML write path (\<open>dml.rs\<close>): a write is resolved into a redo set, logged as one record of the WAL and
  applied to the tiers; a group defers the record of a whole transaction to its commit; a bulk group
  logs a record per chunk. Recovery decodes the same records and applies them with the same step. The
  clock reading and the sealed lookup are arguments, as in the system-time writer; waking the tasks
  parked on the log is the log's own effect and does not show here.
\<close>

section \<open>Redo records\<close>

datatype dml_error =
    DmlResolve valid_time_error
  | DmlWal wal_error
  | DmlDelta delta_error
  | DmlValidity validity_error
  | DmlApply systime_error

definition REDO_TAG_INSERT :: u8 where "REDO_TAG_INSERT = 0"
definition REDO_TAG_CLOSE :: u8 where "REDO_TAG_CLOSE = 1"
definition REDO_TAG_RETRACT :: u8 where "REDO_TAG_RETRACT = 2"
definition TWO_PHASE_RECORD_TAG :: u8 where "TWO_PHASE_RECORD_TAG = 0xFF"

text \<open>One turn of the encoding loop.\<close>

definition encode_entry :: "redo \<Rightarrow> bytes \<Rightarrow> dml_error + bytes" where
  "encode_entry r buf =
     (case r of
        Insert v \<Rightarrow> map_err DmlDelta (Version_encode v (buf @ [REDO_TAG_INSERT]))
      | Close c \<Rightarrow> map_err DmlValidity (Close_encode c (buf @ [REDO_TAG_CLOSE]))
      | Retract c \<Rightarrow> map_err DmlValidity (Close_encode c (buf @ [REDO_TAG_RETRACT])))"

fun encode_redos :: "redo list \<Rightarrow> bytes \<Rightarrow> dml_error + bytes" where
  "encode_redos [] buf = Inr buf"
| "encode_redos (r # rs) buf = result_bind (encode_entry r buf) (encode_redos rs)"

definition encode_redo :: "redo list \<Rightarrow> dml_error + bytes" where
  "encode_redo redos = encode_redos redos []"

text \<open>One turn of the decoding loop: the entry behind the tag and the bytes after it.\<close>

definition decode_entry :: "u8 \<Rightarrow> bytes \<Rightarrow> dml_error + redo \<times> bytes" where
  "decode_entry tag body =
     (if tag = REDO_TAG_INSERT
      then result_bind (map_err DmlDelta (Version_decode body)) (\<lambda>(v, consumed). Inr (Insert v, drop consumed body))
      else if tag = REDO_TAG_CLOSE
      then result_bind (map_err DmlValidity (Close_decode body)) (\<lambda>(c, consumed). Inr (Close c, drop consumed body))
      else if tag = REDO_TAG_RETRACT
      then result_bind (map_err DmlValidity (Close_decode body)) (\<lambda>(c, consumed). Inr (Retract c, drop consumed body))
      else Inl (DmlDelta (DCorrupt ''unknown redo tag byte'')))"

lemma decode_entry_shorter: "decode_entry tag body = Inr (r, rest) \<Longrightarrow> length rest \<le> length body"
  by (auto simp: decode_entry_def result_simps split: if_splits)

function decode_redos :: "bytes \<Rightarrow> redo list \<Rightarrow> dml_error + redo list" where
  "decode_redos [] redos = Inr redos"
| "decode_redos (tag # body) redos =
     (case decode_entry tag body of
        Inl e \<Rightarrow> Inl e
      | Inr (r, rest) \<Rightarrow> decode_redos rest (redos @ [r]))"
  by pat_completeness auto
termination
  by (relation "measure (length \<circ> fst)") (auto dest: decode_entry_shorter simp: less_Suc_eq_le)

definition decode_redo :: "bytes \<Rightarrow> dml_error + redo list" where
  "decode_redo bs = decode_redos bs []"

definition split_record :: "bytes \<Rightarrow> dml_error + u64 option \<times> bytes" where
  "split_record payload =
     (case payload of
        [] \<Rightarrow> Inr (None, payload)
      | tag # rest \<Rightarrow>
          if tag = TWO_PHASE_RECORD_TAG
          then (if length rest < 8
                then Inl (DmlDelta (DCorrupt ''two-phase redo record truncated before its transaction id''))
                else Inr (Some (u64_of_le (take 8 rest)), drop 8 rest))
          else Inr (None, payload))"

section \<open>The writer\<close>

record dml_outcome =
  do_commit :: i64
  do_wal :: log_offset

record dml_writer =
  dw_wal :: wal
  dw_last :: "i64 option"
  dw_valid_time :: bool
  dw_group :: "redo list option"
  dw_group_bulk :: bool

definition DmlWriter_new :: "wal \<Rightarrow> bool \<Rightarrow> dml_writer" where
  "DmlWriter_new g valid_time =
     \<lparr>dw_wal = g, dw_last = None, dw_valid_time = valid_time, dw_group = None, dw_group_bulk = False\<rparr>"

definition log_and_apply :: "i64 \<Rightarrow> redo list \<Rightarrow> dml_writer \<Rightarrow> tiers \<Rightarrow> (dml_error + dml_outcome) \<times> dml_writer \<times> tiers" where
  "log_and_apply commit redos w ts =
     (case dw_group w of
        Some buffer \<Rightarrow>
          (let off = wal_durable_end (dw_wal w); w1 = w\<lparr>dw_group := Some (buffer @ redos)\<rparr> in
           case (if dw_group_bulk w then apply_redos redos ts else apply_redos_resident redos ts) of
             (Inl e, ts1) \<Rightarrow> (Inl (DmlApply e), w1, ts1)
           | (Inr _, ts1) \<Rightarrow> (Inr \<lparr>do_commit = commit, do_wal = off\<rparr>, w1, ts1))
      | None \<Rightarrow>
          (case encode_redo redos of
             Inl e \<Rightarrow> (Inl e, w, ts)
           | Inr rec \<Rightarrow>
               (case log_append rec (dw_wal w) of
                  (Inl e, g) \<Rightarrow> (Inl (DmlWal e), w\<lparr>dw_wal := g\<rparr>, ts)
                | (Inr off, g) \<Rightarrow>
                    (case apply_redos redos ts of
                       (Inl e, ts1) \<Rightarrow> (Inl (DmlApply e), w\<lparr>dw_wal := g\<rparr>, ts1)
                     | (Inr _, ts1) \<Rightarrow> (Inr \<lparr>do_commit = commit, do_wal = off\<rparr>, w\<lparr>dw_wal := g\<rparr>, ts1)))))"

text \<open>The three statements: stage, then log and apply; a staging error leaves the stamped clock behind.\<close>

definition dml_run :: "((valid_time_error + i64 \<times> redo list) \<times> writer) \<Rightarrow> dml_writer \<Rightarrow> (dml_error + dml_outcome) \<times> dml_writer \<times> tiers" where
  "dml_run staged w =
     (case staged of
        (Inl e, last_commit, ts) \<Rightarrow> (Inl (DmlResolve e), w\<lparr>dw_last := last_commit\<rparr>, ts)
      | (Inr (commit, redos), last_commit, ts) \<Rightarrow> log_and_apply commit redos (w\<lparr>dw_last := last_commit\<rparr>) ts)"

definition dml_insert :: "sealed_lookup \<Rightarrow> bytes \<Rightarrow> valid_interval option \<Rightarrow> bytes option \<Rightarrow> u64 \<Rightarrow> u64 \<Rightarrow> bytes \<Rightarrow> i64 \<Rightarrow>
    dml_writer \<Rightarrow> tiers \<Rightarrow> (dml_error + dml_outcome) \<times> dml_writer \<times> tiers" where
  "dml_insert lookup key valid payload seq txn_id prin now w ts =
     dml_run (vt_stage_insert (dw_valid_time w) lookup key valid payload seq txn_id prin now (dw_last w, ts)) w"

definition dml_update :: "sealed_lookup \<Rightarrow> bytes \<Rightarrow> valid_interval option \<Rightarrow> bytes option \<Rightarrow> u64 \<Rightarrow> u64 \<Rightarrow> bytes \<Rightarrow> i64 \<Rightarrow>
    dml_writer \<Rightarrow> tiers \<Rightarrow> (dml_error + dml_outcome) \<times> dml_writer \<times> tiers" where
  "dml_update lookup key valid payload seq txn_id prin now w ts =
     dml_run (vt_stage_update (dw_valid_time w) lookup key valid payload seq txn_id prin now (dw_last w, ts)) w"

definition dml_delete :: "sealed_lookup \<Rightarrow> bytes \<Rightarrow> u64 \<Rightarrow> bytes \<Rightarrow> i64 \<Rightarrow>
    dml_writer \<Rightarrow> tiers \<Rightarrow> (dml_error + dml_outcome) \<times> dml_writer \<times> tiers" where
  "dml_delete lookup key txn_id prin now w ts = dml_run (vt_stage_delete lookup key txn_id prin now (dw_last w, ts)) w"

subsection \<open>Groups\<close>

definition begin_group :: "dml_writer \<Rightarrow> dml_writer" where
  "begin_group w = w\<lparr>dw_group := Some [], dw_group_bulk := False\<rparr>"

definition begin_bulk_group :: "dml_writer \<Rightarrow> dml_writer" where
  "begin_bulk_group w = w\<lparr>dw_group := Some [], dw_group_bulk := True\<rparr>"

definition end_bulk_group :: "dml_writer \<Rightarrow> dml_writer" where
  "end_bulk_group w = w\<lparr>dw_group := None, dw_group_bulk := False\<rparr>"

definition group_record :: "u64 option \<Rightarrow> redo list \<Rightarrow> dml_error + bytes" where
  "group_record txn_id redos =
     (case txn_id of
        None \<Rightarrow> encode_redo redos
      | Some t \<Rightarrow> result_bind (encode_redo redos) (\<lambda>bs. Inr (TWO_PHASE_RECORD_TAG # u64_le t @ bs)))"

definition append_group_record :: "u64 option \<Rightarrow> redo list \<Rightarrow> wal \<Rightarrow> (dml_error + unit) \<times> wal" where
  "append_group_record txn_id redos g =
     (case group_record txn_id redos of
        Inl e \<Rightarrow> (Inl e, g)
      | Inr rec \<Rightarrow>
          (case log_append rec g of
             (Inl e, g1) \<Rightarrow> (Inl (DmlWal e), g1)
           | (Inr _, g1) \<Rightarrow> (Inr (), g1)))"

definition finish_group :: "u64 option \<Rightarrow> dml_writer \<Rightarrow> tiers \<Rightarrow> (dml_error + log_offset) \<times> dml_writer \<times> tiers" where
  "finish_group txn_id w ts =
     (let redos = (case dw_group w of None \<Rightarrow> [] | Some buffer \<Rightarrow> buffer); w1 = w\<lparr>dw_group := None\<rparr> in
      if redos = [] then (Inr (wal_durable_end (dw_wal w1)), w1, ts)
      else (case append_group_record txn_id redos (dw_wal w1) of
              (Inl e, g) \<Rightarrow> (Inl e, w1\<lparr>dw_wal := g\<rparr>, undo_redos redos ts)
            | (Inr _, g) \<Rightarrow>
                (case log_tick g of
                   (Inl e, g1) \<Rightarrow> (Inl (DmlWal e), w1\<lparr>dw_wal := g1\<rparr>, ts)
                 | (Inr _, g1) \<Rightarrow> (Inr (wal_durable_end g1), w1\<lparr>dw_wal := g1\<rparr>, ts))))"

definition commit_group :: "dml_writer \<Rightarrow> tiers \<Rightarrow> (dml_error + log_offset) \<times> dml_writer \<times> tiers" where
  "commit_group w ts = finish_group None w ts"

definition commit_group_two_phase :: "u64 \<Rightarrow> dml_writer \<Rightarrow> tiers \<Rightarrow> (dml_error + log_offset) \<times> dml_writer \<times> tiers" where
  "commit_group_two_phase txn_id w ts = finish_group (Some txn_id) w ts"

text \<open>
  A chunk commit outside a group panics (\<open>expect\<close>), which is \<open>None\<close>; the \<open>debug_assert\<close> on the bulk flag
  is compiled out of release builds and left out.
\<close>

definition commit_bulk_chunk :: "u64 \<Rightarrow> dml_writer \<Rightarrow> ((dml_error + log_offset) \<times> dml_writer) option" where
  "commit_bulk_chunk txn_id w =
     (case dw_group w of
        None \<Rightarrow> None
      | Some redos \<Rightarrow>
          Some (let w1 = w\<lparr>dw_group := Some []\<rparr> in
                if redos = [] then (Inr (wal_durable_end (dw_wal w1)), w1)
                else (case append_group_record (Some txn_id) redos (dw_wal w1) of
                        (Inl e, g) \<Rightarrow> (Inl e, w1\<lparr>dw_wal := g\<rparr>)
                      | (Inr _, g) \<Rightarrow>
                          (case log_tick g of
                             (Inl e, g1) \<Rightarrow> (Inl (DmlWal e), w1\<lparr>dw_wal := g1\<rparr>)
                           | (Inr _, g1) \<Rightarrow> (Inr (wal_durable_end g1), w1\<lparr>dw_wal := g1\<rparr>)))))"

definition abort_group :: "dml_writer \<Rightarrow> tiers \<Rightarrow> dml_writer \<times> tiers" where
  "abort_group w ts =
     (let w1 = w\<lparr>dw_group_bulk := False, dw_group := None\<rparr> in
      if dw_group_bulk w then (w1, discard_staged (fst ts), snd ts)
      else (case dw_group w of None \<Rightarrow> (w1, ts) | Some redos \<Rightarrow> (w1, undo_redos redos ts)))"

section \<open>Replay and recovery\<close>

text \<open>The loop of \<open>replay\<close> over the log's iterator; \<open>None\<close> is a replay that does not return.\<close>

partial_function (option) dml_replay_loop ::
  "nat \<Rightarrow> replay \<Rightarrow> wal \<Rightarrow> tiers \<Rightarrow> ((dml_error + nat) \<times> wal \<times> tiers) option" where
  "dml_replay_loop applied r g ts =
     (case replay_next r g of
        None \<Rightarrow> None
      | Some (None, r1, g1) \<Rightarrow> Some (Inr applied, g1, ts)
      | Some (Some (Inl e), r1, g1) \<Rightarrow> Some (Inl (DmlWal e), g1, ts)
      | Some (Some (Inr payload), r1, g1) \<Rightarrow>
          (case result_bind (split_record payload) (\<lambda>p. decode_redo (snd p)) of
             Inl e \<Rightarrow> Some (Inl e, g1, ts)
           | Inr redos \<Rightarrow>
               (case apply_redos redos ts of
                  (Inl e, ts1) \<Rightarrow> Some (Inl (DmlApply e), g1, ts1)
                | (Inr _, ts1) \<Rightarrow> dml_replay_loop (applied + length redos) r1 g1 ts1)))"

definition dml_replay :: "log_offset \<Rightarrow> wal \<Rightarrow> tiers \<Rightarrow> ((dml_error + nat) \<times> wal \<times> tiers) option" where
  "dml_replay checkpoint g ts = (case Replay_new g checkpoint of (r, g1) \<Rightarrow> dml_replay_loop 0 r g1 ts)"

datatype committed_txns = All | Only "u64 set"

definition admits :: "committed_txns \<Rightarrow> u64 \<Rightarrow> bool" where
  "admits committed txn_id = (case committed of All \<Rightarrow> True | Only ids \<Rightarrow> txn_id \<in> ids)"

text \<open>The loop of \<open>recover_replay\<close>: a torn record at or past the fence ends it.\<close>

partial_function (option) recover_loop ::
  "log_offset \<Rightarrow> committed_txns \<Rightarrow> nat \<Rightarrow> replay \<Rightarrow> wal \<Rightarrow> tiers \<Rightarrow> ((dml_error + nat) \<times> wal \<times> tiers) option" where
  "recover_loop fence committed applied r g ts =
     (case replay_next r g of
        None \<Rightarrow> None
      | Some (None, r1, g1) \<Rightarrow> Some (Inr applied, g1, ts)
      | Some (Some (Inl e), r1, g1) \<Rightarrow>
          (if (case e of WalIo io \<Rightarrow> io_kind io = InvalidData | _ \<Rightarrow> False) \<and> fence \<le> rp_position r1
           then Some (Inr applied, g1, ts) else Some (Inl (DmlWal e), g1, ts))
      | Some (Some (Inr payload), r1, g1) \<Rightarrow>
          (case split_record payload of
             Inl e \<Rightarrow> Some (Inl e, g1, ts)
           | Inr (txn_id, redo_bytes) \<Rightarrow>
               if (case txn_id of Some t \<Rightarrow> \<not> admits committed t | None \<Rightarrow> False)
               then recover_loop fence committed applied r1 g1 ts
               else (case decode_redo redo_bytes of
                       Inl e \<Rightarrow> Some (Inl e, g1, ts)
                     | Inr redos \<Rightarrow>
                         (case apply_redos redos ts of
                            (Inl e, ts1) \<Rightarrow> Some (Inl (DmlApply e), g1, ts1)
                          | (Inr _, ts1) \<Rightarrow> recover_loop fence committed (applied + length redos) r1 g1 ts1))))"

definition recover_replay :: "log_offset \<Rightarrow> log_offset \<Rightarrow> committed_txns \<Rightarrow> wal \<Rightarrow> tiers \<Rightarrow>
    ((dml_error + nat) \<times> wal \<times> tiers) option" where
  "recover_replay start fence committed g ts =
     (case Replay_new g start of (r, g1) \<Rightarrow> recover_loop fence committed 0 r g1 ts)"

end
