(* ===== verification/Engine.thy ===== *)
theory Engine
  imports Dml Rebuild Segment_Reader
begin

text \<open>
  The storage engine (\<open>engine.rs\<close>): one log, one delta tier, one validity index and the set of sealed
  segments, with the boot and recovery flow, the writes, \<open>checkpoint\<close>, \<open>flush\<close>, \<open>compact\<close> and the reads.

  The engine's disk is split by name space: the segments and the checkpoint file, the log's segments, the
  delta's spills and the index's spills each have a disk of their own, with a fault schedule of its own.
  The name spaces are disjoint (\<open>seg-\<close>, \<open>wal-\<close>, \<open>delta-spill-\<close>, \<open>validity-spill-\<close>), so every run of the
  shared disk is a run of the split one. The log handle the engine clones is the writer's. Clock readings
  are arguments. \<open>None\<close> is a panic of an \<open>expect\<close>, or a replay that does not return.
\<close>

section \<open>Names\<close>

definition SEGMENT_FILENAME_PREFIX :: string where "SEGMENT_FILENAME_PREFIX = ''seg-''"
definition SEGMENT_FILENAME_SUFFIX :: string where "SEGMENT_FILENAME_SUFFIX = ''.seg''"
definition DEFAULT_FLUSH_ROW_GROUP_ROWS :: nat where "DEFAULT_FLUSH_ROW_GROUP_ROWS = 1024"

text \<open>The defaults of the three configurations.\<close>

definition WAL_DEFAULT_SEGMENT_SIZE :: nat where "WAL_DEFAULT_SEGMENT_SIZE = 64 * 1024 * 1024"
definition DELTA_DEFAULT_SPILL_THRESHOLD :: nat where "DELTA_DEFAULT_SPILL_THRESHOLD = 64 * 1024 * 1024"
definition VALIDITY_DEFAULT_SPILL_THRESHOLD :: nat where "VALIDITY_DEFAULT_SPILL_THRESHOLD = 64 * 1024 * 1024"

definition segment_name :: "u64 \<Rightarrow> string" where
  "segment_name index = SEGMENT_FILENAME_PREFIX @ pad_zeros 20 (dec_digits (unat index)) @ SEGMENT_FILENAME_SUFFIX"

definition segment_index_of :: "string \<Rightarrow> u64 option" where
  "segment_index_of name =
     Option.bind (strip_prefix SEGMENT_FILENAME_PREFIX name) (\<lambda>rest.
     Option.bind (strip_suffix SEGMENT_FILENAME_SUFFIX rest) (\<lambda>stem. map_option of_nat (parse_u64 stem)))"

definition list_segment_names :: "mem_disk \<Rightarrow> (io_error + string list) \<times> mem_disk" where
  "list_segment_names d =
     (case disk_list d of
        (Inl e, d1) \<Rightarrow> (Inl e, d1)
      | (Inr names, d1) \<Rightarrow>
          (Inr (filter (\<lambda>name. strip_prefix SEGMENT_FILENAME_PREFIX name \<noteq> None \<and> strip_suffix SEGMENT_FILENAME_SUFFIX name \<noteq> None) names), d1))"

section \<open>The engine\<close>

datatype engine_error =
    EWal wal_error
  | EDelta delta_error
  | EValidity validity_error
  | ESegment segment_error
  | EDml dml_error
  | EIo io_error

record recovery_marks =
  max_commit :: i64
  max_txn_id :: u64

record compaction_outcome =
  segments_in :: nat
  co_output :: "string option"

record engine =
  en_disk :: mem_disk
  en_valid_time :: bool
  en_writer :: dml_writer
  en_tiers :: tiers
  en_sealed :: "version list"
  en_segment_names :: "string list"
  en_next_segment_index :: u64
  en_replay_floor :: log_offset
  en_checkpoint :: "log_offset option"
  en_flush_row_group_rows :: nat

text \<open>The disk of an engine, by name space: segments and checkpoint, log, delta spills, index spills.\<close>

type_synonym disks = "mem_disk \<times> mem_disk \<times> mem_disk \<times> mem_disk"

definition Engine_open :: "disks \<Rightarrow> bool \<Rightarrow> (engine_error + engine) \<times> disks" where
  "Engine_open ds valid_time =
     (case ds of (sd, wd, dd, vd) \<Rightarrow>
       (case wal_open wd WAL_DEFAULT_SEGMENT_SIZE of
          (Inl e, wd) \<Rightarrow> (Inl (EWal e), sd, wd, dd, vd)
        | (Inr g, wd) \<Rightarrow>
            (case Delta_open dd DELTA_DEFAULT_SPILL_THRESHOLD of
               (Inl e, dd) \<Rightarrow> (Inl (EDelta e), sd, wd, dd, vd)
             | (Inr delta, dd) \<Rightarrow>
                 (case ValidityIndex_open vd VALIDITY_DEFAULT_SPILL_THRESHOLD of
                    (Inl e, vd) \<Rightarrow> (Inl (EValidity e), sd, wd, dd, vd)
                  | (Inr index, vd) \<Rightarrow>
                      (Inr \<lparr>en_disk = sd, en_valid_time = valid_time, en_writer = DmlWriter_new g valid_time,
                            en_tiers = (delta, index), en_sealed = [], en_segment_names = [], en_next_segment_index = 0,
                            en_replay_floor = LogOffset_ZERO, en_checkpoint = None,
                            en_flush_row_group_rows = DEFAULT_FLUSH_ROW_GROUP_ROWS\<rparr>, sd, wd, dd, vd)))))"

section \<open>Recovery\<close>

text \<open>Dropping dead segments, best effort.\<close>

fun drop_dead_segments :: "u64 list \<Rightarrow> string list \<Rightarrow> mem_disk \<Rightarrow> mem_disk" where
  "drop_dead_segments live [] d = d"
| "drop_dead_segments live (name # names) d =
     drop_dead_segments live names
       (if case segment_index_of name of None \<Rightarrow> False | Some idx \<Rightarrow> idx \<in> set live then d else snd (disk_remove name d))"

text \<open>Opening the named segments in turn and reading all they hold.\<close>

fun read_segments :: "string list \<Rightarrow> mem_disk \<Rightarrow> (segment_error + version list \<times> close list) \<times> mem_disk" where
  "read_segments [] d = (Inr ([], []), d)"
| "read_segments (name # names) d =
     io_bind (SegmentReader_open name d) (\<lambda>reader d.
     io_bind (read_versions reader d) (\<lambda>versions d.
     io_bind (read_retractions reader d) (\<lambda>retractions d.
     io_bind (read_segments names d) (\<lambda>(vs, rs) d. (Inr (versions @ vs, retractions @ rs), d)))))"

definition recover_with_commits :: "disks \<Rightarrow> bool \<Rightarrow> committed_txns \<Rightarrow> ((engine_error + engine) \<times> disks) option" where
  "recover_with_commits ds valid_time committed =
     (case ds of (sd, wd, dd, vd) \<Rightarrow>
       (case checkpoint_load sd of
          (Inl e, sd) \<Rightarrow> Some (Inl (EIo e), sd, wd, dd, vd)
        | (Inr recovery, sd) \<Rightarrow>
            (let replay_from = (case recovery of None \<Rightarrow> LogOffset_ZERO | Some p \<Rightarrow> replay_floor p);
                 fence = (case recovery of None \<Rightarrow> LogOffset_ZERO | Some p \<Rightarrow> durable_fence p);
                 live = sort (remdups (case recovery of None \<Rightarrow> [] | Some p \<Rightarrow> live_segments p))
             in case list_segment_names sd of
                  (Inl e, sd) \<Rightarrow> Some (Inl (EIo e), sd, wd, dd, vd)
                | (Inr names, sd) \<Rightarrow>
                    (let sd = drop_dead_segments live names sd; segment_names = map segment_name live in
                     case read_segments segment_names sd of
                       (Inl e, sd) \<Rightarrow> Some (Inl (ESegment e), sd, wd, dd, vd)
                     | (Inr (versions, retractions), sd) \<Rightarrow>
                         (case wal_open wd WAL_DEFAULT_SEGMENT_SIZE of
                            (Inl e, wd) \<Rightarrow> Some (Inl (EWal e), sd, wd, dd, vd)
                          | (Inr g, wd) \<Rightarrow>
                              (case Delta_open dd DELTA_DEFAULT_SPILL_THRESHOLD of
                                 (Inl e, dd) \<Rightarrow> Some (Inl (EDelta e), sd, wd, dd, vd)
                               | (Inr delta, dd) \<Rightarrow>
                                   (case ValidityIndex_open vd VALIDITY_DEFAULT_SPILL_THRESHOLD of
                                      (Inl e, vd) \<Rightarrow> Some (Inl (EValidity e), sd, wd, dd, vd)
                                    | (Inr index, vd) \<Rightarrow>
                                        (case rebuild_index_from_segments versions retractions index of
                                           (Inl e, index) \<Rightarrow> Some (Inl (EValidity e), sd, wd, dd, vi_disk index)
                                         | (Inr _, index) \<Rightarrow>
                                             (case recover_replay replay_from fence committed g (delta, index) of
                                                None \<Rightarrow> None
                                              | Some (Inl e, g, ts) \<Rightarrow> Some (Inl (EDml e), sd, w_disk g, dl_disk (fst ts), vi_disk (snd ts))
                                              | Some (Inr _, g, ts) \<Rightarrow>
                                                  Some (Inr \<lparr>en_disk = sd, en_valid_time = valid_time, en_writer = DmlWriter_new g valid_time,
                                                             en_tiers = ts, en_sealed = versions, en_segment_names = segment_names,
                                                             en_next_segment_index = (if live = [] then 0 else last live + 1),
                                                             en_replay_floor = replay_from,
                                                             en_checkpoint = (if recovery = None then None else Some fence),
                                                             en_flush_row_group_rows = DEFAULT_FLUSH_ROW_GROUP_ROWS\<rparr>,
                                                        sd, w_disk g, dl_disk (fst ts), vi_disk (snd ts)))))))))))"

definition engine_recover :: "disks \<Rightarrow> bool \<Rightarrow> ((engine_error + engine) \<times> disks) option" where
  "engine_recover ds valid_time = recover_with_commits ds valid_time All"

definition with_flush_row_group_rows :: "nat \<Rightarrow> engine \<Rightarrow> engine" where
  "with_flush_row_group_rows rows e = e\<lparr>en_flush_row_group_rows := max rows 1\<rparr>"

section \<open>Writes\<close>

text \<open>A call of the writer on the engine's tiers, its error wrapped.\<close>

definition engine_write :: "(dml_writer \<Rightarrow> tiers \<Rightarrow> (dml_error + 'a) \<times> dml_writer \<times> tiers) \<Rightarrow> engine \<Rightarrow> (engine_error + 'a) \<times> engine" where
  "engine_write f e =
     (case f (en_writer e) (en_tiers e) of (r, w, ts) \<Rightarrow> (map_err EDml r, e\<lparr>en_writer := w, en_tiers := ts\<rparr>))"

definition engine_insert :: "bytes \<Rightarrow> valid_interval option \<Rightarrow> bytes option \<Rightarrow> u64 \<Rightarrow> u64 \<Rightarrow> bytes \<Rightarrow> i64 \<Rightarrow> engine \<Rightarrow>
    (engine_error + dml_outcome) \<times> engine" where
  "engine_insert key valid payload seq txn_id prin now e =
     engine_write (dml_insert (SealedVersions_versions_for (en_sealed e)) key valid payload seq txn_id prin now) e"

definition engine_update :: "bytes \<Rightarrow> valid_interval option \<Rightarrow> bytes option \<Rightarrow> u64 \<Rightarrow> u64 \<Rightarrow> bytes \<Rightarrow> i64 \<Rightarrow> engine \<Rightarrow>
    (engine_error + dml_outcome) \<times> engine" where
  "engine_update key valid payload seq txn_id prin now e =
     engine_write (dml_update (SealedVersions_versions_for (en_sealed e)) key valid payload seq txn_id prin now) e"

definition engine_delete :: "bytes \<Rightarrow> u64 \<Rightarrow> bytes \<Rightarrow> i64 \<Rightarrow> engine \<Rightarrow> (engine_error + dml_outcome) \<times> engine" where
  "engine_delete key txn_id prin now e =
     engine_write (dml_delete (SealedVersions_versions_for (en_sealed e)) key txn_id prin now) e"

definition engine_begin_group :: "engine \<Rightarrow> engine" where
  "engine_begin_group e = e\<lparr>en_writer := begin_group (en_writer e)\<rparr>"

definition engine_begin_bulk_group :: "engine \<Rightarrow> engine" where
  "engine_begin_bulk_group e = e\<lparr>en_writer := begin_bulk_group (en_writer e)\<rparr>"

definition engine_commit_bulk_chunk :: "u64 \<Rightarrow> engine \<Rightarrow> ((engine_error + log_offset) \<times> engine) option" where
  "engine_commit_bulk_chunk txn_id e =
     map_option (\<lambda>(r, w). (map_err EDml r, e\<lparr>en_writer := w\<rparr>)) (commit_bulk_chunk txn_id (en_writer e))"

definition engine_end_bulk_group :: "engine \<Rightarrow> engine" where
  "engine_end_bulk_group e = e\<lparr>en_writer := end_bulk_group (en_writer e)\<rparr>"

definition engine_commit_group :: "engine \<Rightarrow> (engine_error + log_offset) \<times> engine" where
  "engine_commit_group e = engine_write commit_group e"

definition engine_commit_group_two_phase :: "u64 \<Rightarrow> engine \<Rightarrow> (engine_error + log_offset) \<times> engine" where
  "engine_commit_group_two_phase txn_id e = engine_write (commit_group_two_phase txn_id) e"

definition engine_abort_group :: "engine \<Rightarrow> engine" where
  "engine_abort_group e = (case abort_group (en_writer e) (en_tiers e) of (w, ts) \<Rightarrow> e\<lparr>en_writer := w, en_tiers := ts\<rparr>)"

definition engine_is_poisoned :: "engine \<Rightarrow> bool" where
  "engine_is_poisoned e = wal_is_poisoned (dw_wal (en_writer e))"

section \<open>Checkpoint, flush and compaction\<close>

text \<open>The manifest list of the engine's names; a name that is not a segment name panics.\<close>

definition live_indexes :: "engine \<Rightarrow> u64 list option" where
  "live_indexes e =
     (let parsed = map segment_index_of (en_segment_names e) in if None \<in> set parsed then None else Some (map the parsed))"

text \<open>A manifest record for the given point, stored on the engine's disk.\<close>

definition store_point :: "recovery_point \<Rightarrow> engine \<Rightarrow> ((engine_error + unit) \<times> engine) option" where
  "store_point p e = map_option (\<lambda>(r, d). (map_err EIo r, e\<lparr>en_disk := d\<rparr>)) (checkpoint_store p (en_disk e))"

text \<open>The tick of the log, with the fence it leaves.\<close>

definition engine_tick :: "engine \<Rightarrow> (engine_error + log_offset) \<times> engine" where
  "engine_tick e =
     (case log_tick (dw_wal (en_writer e)) of
        (r, g) \<Rightarrow> (map_sum EWal (\<lambda>_. wal_durable_end g) r, e\<lparr>en_writer := (en_writer e)\<lparr>dw_wal := g\<rparr>\<rparr>))"

definition engine_checkpoint :: "engine \<Rightarrow> ((engine_error + log_offset) \<times> engine) option" where
  "engine_checkpoint e =
     (case engine_tick e of
        (Inl x, e) \<Rightarrow> Some (Inl x, e)
      | (Inr fence, e) \<Rightarrow>
          (case live_indexes e of
             None \<Rightarrow> None
           | Some live \<Rightarrow>
               (case store_point \<lparr>replay_floor = en_replay_floor e, durable_fence = fence, live_segments = live\<rparr> e of
                  None \<Rightarrow> None
                | Some (Inl x, e) \<Rightarrow> Some (Inl x, e)
                | Some (Inr _, e) \<Rightarrow> Some (Inr fence, e\<lparr>en_checkpoint := Some fence\<rparr>))))"

text \<open>Sealing rows and retractions under a fresh name: the loops of pushes, \<open>finish\<close> and the directory fence.\<close>

fun push_all :: "('a \<Rightarrow> segment_writer \<Rightarrow> (segment_error + unit) \<times> segment_writer) \<Rightarrow> 'a list \<Rightarrow> segment_writer \<Rightarrow>
    (segment_error + unit) \<times> segment_writer" where
  "push_all push [] w = (Inr (), w)"
| "push_all push (x # xs) w = (case push x w of (Inl e, w) \<Rightarrow> (Inl e, w) | (Inr _, w) \<Rightarrow> push_all push xs w)"

definition seal_segment :: "bool \<Rightarrow> nat \<Rightarrow> bool \<Rightarrow> string \<Rightarrow> version list \<Rightarrow> close list \<Rightarrow> mem_disk \<Rightarrow> ((engine_error + unit) \<times> mem_disk) option" where
  "seal_segment valid_time row_group_rows dictionary name versions retractions d =
     (let d = snd (disk_remove name d) in
      case (if valid_time then create_valid_time name d else SegmentWriter_create name d) of
        (Inl x, d) \<Rightarrow> Some (Inl (ESegment x), d)
      | (Inr w, d) \<Rightarrow>
          (let w = with_max_row_group_rows row_group_rows w; w = (if dictionary then with_dictionary True w else w) in
           case push_all segment_push versions w of
             (Inl x, _) \<Rightarrow> Some (Inl (ESegment x), d)
           | (Inr _, w) \<Rightarrow>
               (case push_all push_retraction retractions w of
                  (Inl x, _) \<Rightarrow> Some (Inl (ESegment x), d)
                | (Inr _, w) \<Rightarrow>
                    (case segment_finish w d of
                       None \<Rightarrow> None
                     | Some (Inl x, d) \<Rightarrow> Some (Inl (ESegment x), d)
                     | Some (Inr _, d) \<Rightarrow>
                         (case disk_sync_dir d of
                            (Inl x, d) \<Rightarrow> Some (Inl (EIo x), d)
                          | (Inr _, d) \<Rightarrow> Some (Inr (), d))))))"

definition engine_flush :: "engine \<Rightarrow> ((engine_error + log_offset) \<times> engine) option" where
  "engine_flush e =
     (case engine_tick e of
        (Inl x, e) \<Rightarrow> Some (Inl x, e)
      | (Inr fence, e) \<Rightarrow>
          (case staged_versions (fst (en_tiers e)) of
             (Inl x, delta) \<Rightarrow> Some (Inl (EDelta x), e\<lparr>en_tiers := (delta, snd (en_tiers e))\<rparr>)
           | (Inr versions, delta) \<Rightarrow>
               (let e = e\<lparr>en_tiers := (delta, snd (en_tiers e))\<rparr>; retractions = staged_retractions delta in
                if versions = [] \<and> retractions = []
                then (case live_indexes e of
                        None \<Rightarrow> None
                      | Some live \<Rightarrow>
                          (case store_point \<lparr>replay_floor = en_replay_floor e, durable_fence = fence, live_segments = live\<rparr> e of
                             None \<Rightarrow> None
                           | Some (Inl x, e) \<Rightarrow> Some (Inl x, e)
                           | Some (Inr _, e) \<Rightarrow> Some (Inr (en_replay_floor e), e\<lparr>en_checkpoint := Some fence\<rparr>)))
                else (let idx = en_next_segment_index e; name = segment_name idx in
                      case seal_segment (en_valid_time e) (en_flush_row_group_rows e) False name versions retractions (en_disk e) of
                        None \<Rightarrow> None
                      | Some (Inl x, d) \<Rightarrow> Some (Inl x, e\<lparr>en_disk := d\<rparr>)
                      | Some (Inr _, d) \<Rightarrow>
                          (case live_indexes e of
                             None \<Rightarrow> None
                           | Some live \<Rightarrow>
                               (case store_point \<lparr>replay_floor = fence, durable_fence = fence, live_segments = live @ [idx]\<rparr> (e\<lparr>en_disk := d\<rparr>) of
                                  None \<Rightarrow> None
                                | Some (Inl x, e) \<Rightarrow> Some (Inl x, e)
                                | Some (Inr _, e) \<Rightarrow>
                                    Some (Inr fence, e\<lparr>en_sealed := SealedVersions_extend (en_sealed e) versions,
                                                       en_segment_names := en_segment_names e @ [name],
                                                       en_next_segment_index := idx + 1, en_replay_floor := fence,
                                                       en_checkpoint := Some fence,
                                                       en_tiers := (discard_flushed (fst (en_tiers e)), snd (en_tiers e))\<rparr>)))))))"

fun retire_segments :: "string list \<Rightarrow> mem_disk \<Rightarrow> mem_disk" where
  "retire_segments [] d = d"
| "retire_segments (name # names) d = retire_segments names (snd (disk_remove name d))"

definition engine_compact :: "engine \<Rightarrow> ((engine_error + compaction_outcome) \<times> engine) option" where
  "engine_compact e =
     (if length (en_segment_names e) < 2 then Some (Inr \<lparr>segments_in = 0, co_output = None\<rparr>, e)
      else case engine_tick e of
        (Inl x, e) \<Rightarrow> Some (Inl x, e)
      | (Inr fence, e) \<Rightarrow>
          (case read_segments (en_segment_names e) (en_disk e) of
             (Inl x, d) \<Rightarrow> Some (Inl (ESegment x), e\<lparr>en_disk := d\<rparr>)
           | (Inr (vs, rs), d) \<Rightarrow>
               (let versions = sort_key vkey vs; retractions = sort_key close_target rs;
                    idx = en_next_segment_index e; name = segment_name idx in
                case seal_segment (en_valid_time e) (en_flush_row_group_rows e) True name versions retractions d of
                  None \<Rightarrow> None
                | Some (Inl x, d) \<Rightarrow> Some (Inl x, e\<lparr>en_disk := d\<rparr>)
                | Some (Inr _, d) \<Rightarrow>
                    (case store_point \<lparr>replay_floor = en_replay_floor e, durable_fence = fence, live_segments = [idx]\<rparr> (e\<lparr>en_disk := d\<rparr>) of
                       None \<Rightarrow> None
                     | Some (Inl x, e) \<Rightarrow> Some (Inl x, e)
                     | Some (Inr _, e) \<Rightarrow>
                         Some (Inr \<lparr>segments_in = length (en_segment_names e), co_output = Some name\<rparr>,
                               e\<lparr>en_disk := retire_segments (en_segment_names e) (en_disk e), en_segment_names := [name],
                                 en_sealed := versions, en_next_segment_index := idx + 1, en_checkpoint := Some fence\<rparr>)))))"

section \<open>Reads\<close>

definition engine_as_of :: "bytes \<Rightarrow> i64 \<Rightarrow> engine \<Rightarrow> (engine_error + version option) \<times> engine" where
  "engine_as_of key t e =
     (case candidate_versions key (fst (en_tiers e)) of
        (Inl x, delta) \<Rightarrow> (Inl (EDelta x), e\<lparr>en_tiers := (delta, snd (en_tiers e))\<rparr>)
      | (Inr candidates, delta) \<Rightarrow>
          (case resolve_open candidates (en_sealed e) key t (snd (en_tiers e)) of
             (r, index) \<Rightarrow> (map_err EValidity r, e\<lparr>en_tiers := (delta, index)\<rparr>)))"

definition engine_as_of_payload :: "bytes \<Rightarrow> i64 \<Rightarrow> engine \<Rightarrow> (engine_error + bytes option option) \<times> engine" where
  "engine_as_of_payload key t e =
     (case engine_as_of key t e of (r, e) \<Rightarrow> (map_sum id (map_option v_payload) r, e))"

definition engine_materialize_index :: "engine \<Rightarrow> (engine_error + (version_key, closed_interval) btree) \<times> engine" where
  "engine_materialize_index e =
     (case materialize (snd (en_tiers e)) of (r, index) \<Rightarrow> (map_err EValidity r, e\<lparr>en_tiers := (fst (en_tiers e), index)\<rparr>))"

text \<open>The keys of a \<open>BTreeSet\<close>, ascending.\<close>

definition resident_keys :: "engine \<Rightarrow> (engine_error + bytes list) \<times> engine" where
  "resident_keys e =
     (case staged_versions (fst (en_tiers e)) of
        (Inl x, delta) \<Rightarrow> (Inl (EDelta x), e\<lparr>en_tiers := (delta, snd (en_tiers e))\<rparr>)
      | (Inr versions, delta) \<Rightarrow>
          (Inr (sort (remdups (map v_business_key versions @ map v_business_key (en_sealed e)))),
           e\<lparr>en_tiers := (delta, snd (en_tiers e))\<rparr>))"

text \<open>The loop that selects keys by their version at a snapshot.\<close>

fun select_keys :: "i64 \<Rightarrow> (version \<Rightarrow> bool) \<Rightarrow> bytes list \<Rightarrow> engine \<Rightarrow> (engine_error + bytes list) \<times> engine" where
  "select_keys t sel [] e = (Inr [], e)"
| "select_keys t sel (key # keys) e =
     (case engine_as_of key t e of
        (Inl x, e) \<Rightarrow> (Inl x, e)
      | (Inr found, e) \<Rightarrow>
          (case select_keys t sel keys e of
             (Inl x, e) \<Rightarrow> (Inl x, e)
           | (Inr rest, e) \<Rightarrow> (Inr (case found of None \<Rightarrow> rest | Some v \<Rightarrow> if sel v then key # rest else rest), e)))"

text \<open>The loop of deletes; the clock is read once per delete.\<close>

fun delete_keys :: "bytes list \<Rightarrow> u64 \<Rightarrow> bytes \<Rightarrow> (nat \<Rightarrow> i64) \<Rightarrow> engine \<Rightarrow> (engine_error + unit) \<times> engine" where
  "delete_keys [] txn_id prin clock e = (Inr (), e)"
| "delete_keys (key # keys) txn_id prin clock e =
     (case engine_delete key txn_id prin (clock 0) e of
        (Inl x, e) \<Rightarrow> (Inl x, e)
      | (Inr _, e) \<Rightarrow> delete_keys keys txn_id prin (\<lambda>n. clock (Suc n)) e)"

definition close_selected :: "i64 \<Rightarrow> (version \<Rightarrow> bool) \<Rightarrow> u64 \<Rightarrow> bytes \<Rightarrow> (nat \<Rightarrow> i64) \<Rightarrow> engine \<Rightarrow> (engine_error + nat) \<times> engine" where
  "close_selected t sel txn_id prin clock e =
     (case resident_keys e of
        (Inl x, e) \<Rightarrow> (Inl x, e)
      | (Inr keys, e) \<Rightarrow>
          (case select_keys t sel keys e of
             (Inl x, e) \<Rightarrow> (Inl x, e)
           | (Inr chosen, e) \<Rightarrow>
               (case delete_keys chosen txn_id prin clock e of
                  (Inl x, e) \<Rightarrow> (Inl x, e)
                | (Inr _, e) \<Rightarrow> (Inr (length chosen), e))))"

definition close_all_open :: "i64 \<Rightarrow> u64 \<Rightarrow> bytes \<Rightarrow> (nat \<Rightarrow> i64) \<Rightarrow> engine \<Rightarrow> (engine_error + nat) \<times> engine" where
  "close_all_open at = close_selected at (\<lambda>_. True)"

definition close_dropped_era :: "i64 \<Rightarrow> i64 \<Rightarrow> u64 \<Rightarrow> bytes \<Rightarrow> (nat \<Rightarrow> i64) \<Rightarrow> engine \<Rightarrow> (engine_error + nat) \<times> engine" where
  "close_dropped_era at now = close_selected now (\<lambda>cur. v_sys_from cur \<le> at)"

definition mark_fold :: "provenance \<Rightarrow> recovery_marks \<Rightarrow> recovery_marks" where
  "mark_fold p m = \<lparr>max_commit = max (max_commit m) (p_committed_at p), max_txn_id = max (max_txn_id m) (p_txn_id p)\<rparr>"

definition engine_recovery_marks :: "engine \<Rightarrow> (engine_error + recovery_marks) \<times> engine" where
  "engine_recovery_marks e =
     (case staged_versions (fst (en_tiers e)) of
        (Inl x, delta) \<Rightarrow> (Inl (EDelta x), e\<lparr>en_tiers := (delta, snd (en_tiers e))\<rparr>)
      | (Inr staged, delta) \<Rightarrow>
          (case materialize (snd (en_tiers e)) of
             (Inl x, index) \<Rightarrow> (Inl (EValidity x), e\<lparr>en_tiers := (delta, index)\<rparr>)
           | (Inr closes, index) \<Rightarrow>
               (Inr (fold (mark_fold \<circ> ci_closed_by) (bt_values closes)
                      (fold (mark_fold \<circ> v_provenance) (en_sealed e)
                        (fold (mark_fold \<circ> v_provenance) staged \<lparr>max_commit = I64 0, max_txn_id = 0\<rparr>))),
                e\<lparr>en_tiers := (delta, index)\<rparr>)))"

fun open_readers :: "string list \<Rightarrow> mem_disk \<Rightarrow> (segment_error + segment_reader list) \<times> mem_disk" where
  "open_readers [] d = (Inr [], d)"
| "open_readers (name # names) d =
     io_bind (SegmentReader_open name d) (\<lambda>r d. io_bind (open_readers names d) (\<lambda>rs d. (Inr (r # rs), d)))"

text \<open>\<open>SealedSegments::versions_for\<close> (\<open>systime.rs\<close>): the zone map of the business key prunes segments.\<close>

fun SealedSegments_versions_for :: "segment_reader list \<Rightarrow> bytes \<Rightarrow> mem_disk \<Rightarrow> (segment_error + version list) \<times> mem_disk" where
  "SealedSegments_versions_for [] key d = (Inr [], d)"
| "SealedSegments_versions_for (r # rs) key d =
     (if \<not> segment_might_contain r (PEq ColBusinessKey (ZBytes key)) SYSTEM_TIME_OPEN then SealedSegments_versions_for rs key d
      else io_bind (read_versions r d) (\<lambda>vs d. io_bind (SealedSegments_versions_for rs key d) (\<lambda>rest d.
             (Inr (filter (\<lambda>v. v_business_key v = key) vs @ rest), d))))"

fun read_all_versions :: "segment_reader list \<Rightarrow> mem_disk \<Rightarrow> (segment_error + version list) \<times> mem_disk" where
  "read_all_versions [] d = (Inr [], d)"
| "read_all_versions (r # rs) d = io_bind (read_versions r d) (\<lambda>vs d. io_bind (read_all_versions rs d) (\<lambda>rest d. (Inr (vs @ rest), d)))"

text \<open>The frame of a staged valid-time payload, stripped.\<close>

fun unframe_versions :: "version list \<Rightarrow> valid_time_error + version list" where
  "unframe_versions [] = Inr []"
| "unframe_versions (v # vs) =
     (case v_payload v of
        None \<Rightarrow> result_bind (unframe_versions vs) (\<lambda>rest. Inr (v # rest))
      | Some stored \<Rightarrow>
          result_bind (unframe_payload True stored) (\<lambda>(_, bare).
          result_bind (unframe_versions vs) (\<lambda>rest. Inr (v\<lparr>v_payload := Some bare\<rparr> # rest))))"

definition version_history :: "bytes option \<Rightarrow> engine \<Rightarrow> (engine_error + version list) \<times> engine" where
  "version_history key e =
     (case open_readers (en_segment_names e) (en_disk e) of
        (Inl x, d) \<Rightarrow> (Inl (ESegment x), e\<lparr>en_disk := d\<rparr>)
      | (Inr readers, d) \<Rightarrow>
          (let e = e\<lparr>en_disk := d\<rparr> in
           case (case key of Some k \<Rightarrow> candidate_versions k (fst (en_tiers e)) | None \<Rightarrow> staged_versions (fst (en_tiers e))) of
             (Inl x, delta) \<Rightarrow> (Inl (EDelta x), e\<lparr>en_tiers := (delta, snd (en_tiers e))\<rparr>)
           | (Inr staged, delta) \<Rightarrow>
               (let e = e\<lparr>en_tiers := (delta, snd (en_tiers e))\<rparr> in
                case (if en_valid_time e then unframe_versions staged else Inr staged) of
                  Inl x \<Rightarrow> (Inl (EDml (DmlResolve x)), e)
                | Inr staged \<Rightarrow>
                    (case (case key of Some k \<Rightarrow> SealedSegments_versions_for readers k (en_disk e)
                                     | None \<Rightarrow> read_all_versions readers (en_disk e)) of
                       (Inl x, d) \<Rightarrow> (Inl (ESegment x), e\<lparr>en_disk := d\<rparr>)
                     | (Inr sealed, d) \<Rightarrow>
                         (case fold_chains (staged @ sealed) (snd (en_tiers e)) of
                            (Inl x, index) \<Rightarrow> (Inl (EValidity x), e\<lparr>en_disk := d, en_tiers := (delta, index)\<rparr>)
                          | (Inr chs, index) \<Rightarrow>
                              (Inr (concat (map bt_values (bt_values chs))), e\<lparr>en_disk := d, en_tiers := (delta, index)\<rparr>))))))"

definition live_version_estimate :: "engine \<Rightarrow> nat" where
  "live_version_estimate e = min (length (en_sealed e) + staged_len (fst (en_tiers e))) (2 ^ 64 - 1)"

section \<open>Segment metadata\<close>

record segment_meta =
  sm_name :: "string option"
  sm_rows :: u64
  sm_sys_min :: "i64 option"
  sm_sys_max :: "i64 option"
  sm_key_min :: "bytes option"
  sm_key_max :: "bytes option"
  sm_byte_size :: "nat option"

definition zone_end_of :: "zone_map \<Rightarrow> column_id \<Rightarrow> bool \<Rightarrow> zone_end option" where
  "zone_end_of zone col is_min = map_option (\<lambda>cz. if is_min then z_min cz else z_max cz) (ZoneMap_column zone col)"

definition zone_i64 :: "zone_map \<Rightarrow> column_id \<Rightarrow> bool \<Rightarrow> i64 option" where
  "zone_i64 zone col is_min = (case zone_end_of zone col is_min of Some (ZValue (ZI64 v)) \<Rightarrow> Some v | _ \<Rightarrow> None)"

definition zone_bytes :: "zone_map \<Rightarrow> column_id \<Rightarrow> bool \<Rightarrow> bytes option" where
  "zone_bytes zone col is_min = (case zone_end_of zone col is_min of Some (ZValue (ZBytes b)) \<Rightarrow> Some b | _ \<Rightarrow> None)"

definition sealed_meta :: "mem_disk \<Rightarrow> string \<times> segment_reader \<Rightarrow> segment_meta" where
  "sealed_meta d nr =
     (case nr of (name, r) \<Rightarrow>
       \<lparr>sm_name = Some name, sm_rows = segment_row_count r,
        sm_sys_min = zone_i64 (sr_zone_map r) ColSysFrom True, sm_sys_max = zone_i64 (sr_zone_map r) ColSysFrom False,
        sm_key_min = zone_bytes (sr_zone_map r) ColBusinessKey True, sm_key_max = zone_bytes (sr_zone_map r) ColBusinessKey False,
        sm_byte_size = Some (file_len d (sr_file r))\<rparr>)"

text \<open>\<open>Iterator::min\<close> and \<open>max\<close> of a nonempty list.\<close>

definition hot_meta :: "version list \<Rightarrow> segment_meta" where
  "hot_meta staged =
     \<lparr>sm_name = None, sm_rows = of_nat (length staged),
      sm_sys_min = Some (Min (set (map v_sys_from staged))), sm_sys_max = Some (Max (set (map v_sys_from staged))),
      sm_key_min = Some (Min (set (map v_business_key staged))), sm_key_max = Some (Max (set (map v_business_key staged))),
      sm_byte_size = None\<rparr>"

definition segment_metadata :: "engine \<Rightarrow> (engine_error + segment_meta list) \<times> engine" where
  "segment_metadata e =
     (case open_readers (en_segment_names e) (en_disk e) of
        (Inl x, d) \<Rightarrow> (Inl (ESegment x), e\<lparr>en_disk := d\<rparr>)
      | (Inr readers, d) \<Rightarrow>
          (case staged_versions (fst (en_tiers e)) of
             (Inl x, delta) \<Rightarrow> (Inl (EDelta x), e\<lparr>en_disk := d, en_tiers := (delta, snd (en_tiers e))\<rparr>)
           | (Inr staged, delta) \<Rightarrow>
               (Inr (map (sealed_meta d) (zip (en_segment_names e) readers) @ (if staged = [] then [] else [hot_meta staged])),
                e\<lparr>en_disk := d, en_tiers := (delta, snd (en_tiers e))\<rparr>)))"

end
