(* ===== verification/Segment_Files.thy ===== *)
theory Segment_Files
  imports Engine Segment_Seals
begin

text \<open>
  Sealed segments as files of the engine. A read that succeeds under faults returns what it would have
  returned without them, so what a segment file holds is a matter of its bytes; sealing under any faults
  leaves, when it succeeds, a file that holds the rows and retractions pushed, and touches no other file.
\<close>

section \<open>Honest reads\<close>

definition quiet :: "mem_disk \<Rightarrow> mem_disk" where
  "quiet d = d\<lparr>md_faults := []\<rparr>"

definition honest :: "(mem_disk \<Rightarrow> ('e + 'a) \<times> mem_disk) \<Rightarrow> bool" where
  "honest f \<longleftrightarrow> (\<forall>d x d'. f d = (x, d') \<longrightarrow> disk_same d d' \<and> (\<forall>v. x = Inr v \<longrightarrow> f (quiet d) = (Inr v, quiet d)))"

lemma honestI:
  assumes "\<And>d x d'. f d = (x, d') \<Longrightarrow> disk_same d d'" "\<And>d v d'. f d = (Inr v, d') \<Longrightarrow> f (quiet d) = (Inr v, quiet d)"
  shows "honest f"
  using assms unfolding honest_def by blast

lemma honestD:
  assumes "honest f" "f d = (x, d')"
  shows "disk_same d d'" "x = Inr v \<Longrightarrow> f (quiet d) = (Inr v, quiet d)"
  using assms unfolding honest_def by blast+

lemma quiet_simps [simp]: "no_faults (quiet d)" "disk_same d (quiet d)" "quiet (quiet d) = quiet d" "md_store (quiet d) = md_store d"
  "md_names (quiet d) = md_names d" "file_len (quiet d) f = file_len d f" "disk_check op (quiet d) = (Inr (), quiet d)"
proof -
  show "no_faults (quiet d)" by (simp add: quiet_def no_faults_def)
  then show "disk_check op (quiet d) = (Inr (), quiet d)" by (rule disk_check_no_faults)
qed (simp_all add: quiet_def disk_same_def file_len_def)

lemma quiet_same: "disk_same d d' \<Longrightarrow> quiet d' = quiet d"
  by (simp add: quiet_def disk_same_def)

lemma quiet_no_faults: "no_faults d \<Longrightarrow> quiet d = d"
  by (simp add: quiet_def no_faults_def)

lemma honest_still: "honest f \<Longrightarrow> no_faults d \<Longrightarrow> f d = (Inr v, d') \<Longrightarrow> d' = d"
  using honestD(2) [of f d "Inr v" d' v] quiet_no_faults by fastforce

named_theorems honest_intros

lemma honest_open [honest_intros]: "honest (disk_open name)"
  by (rule honestI) (auto simp: disk_open_def simp: disk_same_def dest!: disk_check_same split: sum.splits prod.splits option.splits)

lemma honest_read [honest_intros]: "honest (file_read_at f a n)"
  by (rule honestI) (auto simp: file_read_at_def Let_def disk_same_def dest!: disk_check_same split: sum.splits prod.splits if_splits)

lemma honest_return [honest_intros]: "honest (\<lambda>d. (r, d))"
  by (rule honestI) auto

lemma honest_case [honest_intros]:
  assumes "honest f" "\<And>v. honest (h v)"
  shows "honest (\<lambda>d. case f d of (Inl e, d) \<Rightarrow> (Inl (g e), d) | (Inr v, d) \<Rightarrow> h v d)"
proof (rule honestI)
  fix d x d' assume s: "(case f d of (Inl e, d) \<Rightarrow> (Inl (g e), d) | (Inr v, d) \<Rightarrow> h v d) = (x, d')"
  obtain y d1 where y: "f d = (y, d1)" by (rule prod.exhaust)
  note f = honestD [OF assms(1) y]
  show "disk_same d d'"
  proof (cases y)
    case (Inr v)
    then show ?thesis using s y honestD(1) [OF assms(2), of v d1] f(1) disk_same_trans by auto
  qed (use s y f(1) in simp)
next
  fix d v d' assume s: "(case f d of (Inl e, d) \<Rightarrow> (Inl (g e), d) | (Inr v, d) \<Rightarrow> h v d) = (Inr v, d')"
  then obtain u d1 where y: "f d = (Inr u, d1)" "h u d1 = (Inr v, d')" by (cases "f d") (auto split: sum.splits)
  note f = honestD [OF assms(1) y(1)] and g = honestD [OF assms(2) y(2)]
  show "(case f (quiet d) of (Inl e, d) \<Rightarrow> (Inl (g e), d) | (Inr v, d) \<Rightarrow> h v d) = (Inr v, quiet d)"
    using f(2) [OF refl] g(2) [OF refl] quiet_same [OF f(1)] by simp
qed

lemma honest_bind [honest_intros]: "honest f \<Longrightarrow> (\<And>v. honest (h v)) \<Longrightarrow> honest (\<lambda>d. io_bind (f d) h)"
  unfolding io_bind_def by (rule honest_case)

lemma honest_if [honest_intros]: "honest f \<Longrightarrow> honest g \<Longrightarrow> honest (\<lambda>d. if c then f d else g d)"
  by (cases c) simp_all

lemma honest_sum [honest_intros]: "(\<And>e. honest (f e)) \<Longrightarrow> (\<And>v. honest (g v)) \<Longrightarrow> honest (\<lambda>d. case x of Inl e \<Rightarrow> f e d | Inr v \<Rightarrow> g v d)"
  by (cases x) simp_all

lemma honest_option [honest_intros]: "honest f \<Longrightarrow> (\<And>v. honest (g v)) \<Longrightarrow> honest (\<lambda>d. case x of None \<Rightarrow> f d | Some v \<Rightarrow> g v d)"
  by (cases x) simp_all

lemma honest_type [honest_intros]: "honest f \<Longrightarrow> honest g \<Longrightarrow> honest (\<lambda>d. case ty of TyBytes \<Rightarrow> f d | TyI64 \<Rightarrow> g d)"
  by (cases ty) simp_all

lemma honest_Let [honest_intros]: "(\<And>y. honest (f y)) \<Longrightarrow> honest (\<lambda>d. Let x (\<lambda>y. f y d))"
  by simp

lemma honest_len:
  assumes "\<And>n. honest (h n)"
  shows "honest (\<lambda>d. h (file_len d f) d)"
proof (rule honestI)
  fix d x d' assume "h (file_len d f) d = (x, d')"
  then show "disk_same d d'" by (rule honestD [OF assms])
next
  fix d v d' assume "h (file_len d f) d = (Inr v, d')"
  then show "h (file_len (quiet d) f) (quiet d) = (Inr v, quiet d)" using honestD(2) [OF assms] by simp
qed

lemma honest_post [honest_intros]: "honest f \<Longrightarrow> honest (\<lambda>d. (result_bind (fst (f d)) k, snd (f d)))"
  using honest_case [of f "\<lambda>v d. (k v, d)" "\<lambda>e. e"] by (rule back_subst [of honest]) (auto simp: fun_eq_iff result_simps honest_return split: prod.splits sum.splits)

section \<open>The reader is honest\<close>

lemma honest_validate_header [honest_intros]: "honest (validate_header f)"
proof -
  let ?h = "\<lambda>n d. if n < SEG_HEADER_LEN + TRAILER_LEN then (Inl (SegCorrupt ''file shorter than minimum (header + trailer)''), d)
      else case file_read_at f 0 SEG_HEADER_LEN d of
        (Inl e, d1) \<Rightarrow> (Inl (SegIo e), d1)
      | (Inr buf, d1) \<Rightarrow>
          if length buf \<noteq> SEG_HEADER_LEN then (Inl (SegCorrupt ''short read on header''), d1)
          else if sub_slice 0 8 buf \<noteq> HEADER_MAGIC then (Inl (SegCorrupt ''header magic mismatch''), d1)
          else let ver = from_le (sub_slice 8 10 buf) in
               if ver \<noteq> FORMAT_VERSION then (Inl (SegUnsupportedVersion ver FORMAT_VERSION), d1)
               else (Inr (), d1)"
  have "honest (?h n)" for n by (intro honest_intros)
  from honest_len [of ?h, OF this] show ?thesis unfolding validate_header_def [abs_def] .
qed

lemma honest_read_footer [honest_intros]: "honest (read_footer f)"
proof -
  let ?h = "\<lambda>n d. if n < TRAILER_LEN then (Inl (SegCorrupt ''file shorter than trailer''), d)
      else let trailer_off = n - TRAILER_LEN in
      case file_read_at f trailer_off TRAILER_LEN d of
        (Inl e, d1) \<Rightarrow> (Inl (SegIo e), d1)
      | (Inr trailer, d1) \<Rightarrow>
          if length trailer \<noteq> TRAILER_LEN then (Inl (SegCorrupt ''short read on trailer''), d1)
          else let footer_crc = u32_of_le (sub_slice 0 4 trailer); footer_len = unat (u32_of_le (sub_slice 4 8 trailer)) in
          if sub_slice 8 16 trailer \<noteq> TRAILER_MAGIC then (Inl (SegCorrupt ''trailer magic mismatch''), d1)
          else if trailer_off < footer_len then (Inl (SegCorrupt ''footer length exceeds file size''), d1)
          else let footer_off = trailer_off - footer_len in
          if footer_off < SEG_HEADER_LEN then (Inl (SegCorrupt ''footer overlaps header''), d1)
          else case file_read_at f footer_off footer_len d1 of
            (Inl e, d2) \<Rightarrow> (Inl (SegIo e), d2)
          | (Inr payload, d2) \<Rightarrow>
              if length payload \<noteq> footer_len then (Inl (SegCorrupt ''short read on footer''), d2)
              else if crc32c payload \<noteq> footer_crc then (Inl (SegCorrupt ''footer CRC mismatch''), d2)
              else (parse_footer payload, d2)"
  have "honest (?h n)" for n by (intro honest_intros)
  from honest_len [of ?h, OF this] show ?thesis unfolding read_footer_def [abs_def] .
qed

lemma honest_open_segment [honest_intros]: "honest (SegmentReader_open name)"
  unfolding SegmentReader_open_def [abs_def]
  by (rule honest_case [of _ _ SegIo]) (intro honest_intros honest_case [where g = "\<lambda>e. e"])+

lemma honest_chunk [honest_intros]: "honest (read_chunk_payload f meta)"
proof -
  let ?h = "\<lambda>n d. let len = unat (cm_length meta) in
      if len < CHUNK_HEADER_LEN then (Inl (SegCorrupt ''chunk shorter than its own header - footer disagrees with file''), d)
      else case u64_checked_add (cm_offset meta) (cm_length meta) of
        None \<Rightarrow> (Inl (SegCorrupt ''chunk offset + length overflows u64''), d)
      | Some stop \<Rightarrow>
          if n < unat stop then (Inl (SegCorrupt ''chunk extends past end of file - footer disagrees with file''), d)
          else case file_read_at f (unat (cm_offset meta)) len d of
            (Inl e, d1) \<Rightarrow> (Inl (SegIo e), d1)
          | (Inr buf, d1) \<Rightarrow>
              if length buf \<noteq> len then (Inl (SegCorrupt ''short read on column chunk''), d1)
              else let payload_len = unat (u32_of_le (sub_slice 0 4 buf)); value_count = u32_of_le (sub_slice 4 8 buf);
                       codec_raw = buf ! 8; crc = u32_of_le (sub_slice 12 16 buf) in
                if Codec_from_byte codec_raw \<noteq> Some (cm_codec meta) then (Inl (SegCorrupt ''chunk codec disagrees with footer entry''), d1)
                else if value_count \<noteq> cm_value_count meta then (Inl (SegCorrupt ''chunk value_count disagrees with footer entry''), d1)
                else if CHUNK_HEADER_LEN + payload_len \<noteq> len then (Inl (SegCorrupt ''chunk length disagrees with declared payload''), d1)
                else if Crc32c_finish (Crc32c_update (Crc32c_update Crc32c_new (sub_slice 0 12 buf)) (drop CHUNK_HEADER_LEN buf)) \<noteq> crc
                then (Inl (SegCorrupt ''chunk CRC mismatch''), d1)
                else (Inr (drop CHUNK_HEADER_LEN buf), d1)"
  have "honest (?h n)" for n by (intro honest_intros)
  from honest_len [of ?h, OF this] show ?thesis unfolding read_chunk_payload_def [abs_def] .
qed

lemma honest_read_groups [honest_intros]: "honest (read_groups app f col rgs out)"
proof (induction rgs arbitrary: out)
  case Nil
  then show ?case by (simp add: honest_return)
next
  case (Cons rg rgs)
  have "read_groups app f col (rg # rgs) out = (\<lambda>d. case chunk_meta (rg_columns rg) col ''column missing from row-group'' of
        Inl e \<Rightarrow> (Inl e, d)
      | Inr meta \<Rightarrow>
          (case read_chunk_payload f meta d of
             (Inl e, d1) \<Rightarrow> (Inl e, d1)
           | (Inr payload, d1) \<Rightarrow>
               (case app (cm_codec meta) payload (cm_value_count meta) out of
                  Inl e \<Rightarrow> (Inl e, d1)
                | Inr out \<Rightarrow> read_groups app f col rgs out d1)))" by (simp add: fun_eq_iff)
  then show ?case by (simp only:) (intro honest_intros honest_case [where g = "\<lambda>e. e"] Cons.IH)
qed

lemma honest_columns [honest_intros]: "honest (read_column r col)" "honest (read_bytes_column r col)" "honest (read_nullable_bytes_column r col)"
  "honest (read_i64_column r col)" "honest (read_retraction_column r col)" "honest (read_retraction_bytes r col)" "honest (read_retraction_i64 r col)"
proof -
  show c: "honest (read_column r col)"
    unfolding read_column_def [abs_def] read_column_from_def lift_data_def by (cases "ColumnId_ty col"; cases "col = ColPayload") (simp_all add: honest_intros)
  show "honest (read_bytes_column r col)" "honest (read_i64_column r col)"
    unfolding read_bytes_column_def [abs_def] read_i64_column_def [abs_def] as_bytes_def as_i64_def by (intro honest_post c)+
  show "honest (read_nullable_bytes_column r col)"
    unfolding read_nullable_bytes_column_def [abs_def] case_prod_unfold by (intro honest_post c)
  show rc: "honest (read_retraction_column r col)"
    unfolding read_retraction_column_def [abs_def] by (intro honest_intros)
  show "honest (read_retraction_bytes r col)" "honest (read_retraction_i64 r col)"
    unfolding read_retraction_bytes_def [abs_def] read_retraction_i64_def [abs_def] as_bytes_def as_i64_def by (intro honest_post rc)+
qed

lemma honest_versions [honest_intros]: "honest (read_versions r)"
  unfolding read_versions_def [abs_def] by (intro honest_intros)

lemma honest_retractions [honest_intros]: "honest (read_retractions r)"
  unfolding read_retractions_def [abs_def] by (intro honest_intros)

lemma honest_segments [honest_intros]: "honest (read_segments names)"
proof (induction names)
  case Nil
  then show ?case by (simp add: honest_return)
next
  case (Cons name names)
  have "read_segments (name # names) = (\<lambda>d. io_bind (SegmentReader_open name d) (\<lambda>reader d.
     io_bind (read_versions reader d) (\<lambda>versions d.
     io_bind (read_retractions reader d) (\<lambda>retractions d.
     io_bind (read_segments names d) (\<lambda>x d. (Inr (versions @ fst x, retractions @ snd x), d))))))" by (simp add: fun_eq_iff case_prod_unfold)
  then show ?case by (simp only:) (intro honest_intros Cons.IH)
qed

section \<open>What a segment file holds\<close>

definition segment_holds :: "bytes \<Rightarrow> version list \<Rightarrow> close list \<Rightarrow> bool" where
  "segment_holds bs vs rs \<longleftrightarrow>
     (\<forall>d name. no_faults d \<longrightarrow> validate_name name = Inr () \<longrightarrow> file_at d name = Some bs \<longrightarrow> read_segments [name] d = (Inr (vs, rs), d))"

lemma finish_holds:
  assumes "SegmentWriter_create_inner name vt d0 = (Inr w0, d)" "sw_file w = sw_file w0" "writer_fits w" "segment_finish w d = Some (Inr (), d')"
    and "file_len d' (sw_file w) < 2 ^ 64"
  shows "segment_holds (md_store d' ! sw_file w) (map unresolved (sw_rows w)) (sw_retractions w)"
  unfolding segment_holds_def
proof (intro allI impI)
  fix boot n assume b: "no_faults boot" "validate_name n = Inr ()" "file_at boot n = Some (md_store d' ! sw_file w)"
  obtain gs summs rs ps r where r: "SegmentReader_open n boot = (Inr r, boot)" "reopened w gs summs rs ps r boot"
    by (rule reopen_bytes [OF assms b])
  show "read_segments [n] boot = (Inr (map unresolved (sw_rows w), sw_retractions w), boot)"
    using reopened_versions [OF r(2)] reopened_retractions [OF r(2)] r(1) by simp
qed

text \<open>A list of segment files, each with what it holds.\<close>

definition segments_hold :: "mem_disk \<Rightarrow> string list \<Rightarrow> (version list \<times> close list) list \<Rightarrow> bool" where
  "segments_hold d names segs \<longleftrightarrow>
     list_all2 (\<lambda>name seg. validate_name name = Inr () \<and> (\<exists>bs. file_at d name = Some bs \<and> segment_holds bs (fst seg) (snd seg))) names segs"

lemma segments_hold_read:
  assumes "segments_hold d names segs" "no_faults d"
  shows "read_segments names d = (Inr (concat (map fst segs), concat (map snd segs)), d)"
  using assms(1) unfolding segments_hold_def
proof (induction rule: list_all2_induct)
  case (Cons name names seg segs)
  then have "read_segments [name] d = (Inr (fst seg, snd seg), d)" using assms(2) by (auto simp: segment_holds_def)
  then obtain r d1 d2 where o: "SegmentReader_open name d = (Inr r, d1)" "read_versions r d1 = (Inr (fst seg), d2)" "read_retractions r d2 = (Inr (snd seg), d)"
    by (auto simp: io_bind_def split: prod.splits sum.splits)
  have d1: "d1 = d" by (rule honest_still [OF honest_open_segment assms(2) o(1)])
  moreover have "d2 = d" by (rule honest_still [OF honest_versions assms(2) o(2) [unfolded d1]])
  ultimately have r: "SegmentReader_open name d = (Inr r, d)" "read_versions r d = (Inr (fst seg), d)" "read_retractions r d = (Inr (snd seg), d)"
    using o by simp_all
  then show ?case using Cons.IH by simp
qed simp

lemma segments_hold_honest:
  assumes "segments_hold d names segs" "read_segments names d = (Inr x, d')"
  shows "x = (concat (map fst segs), concat (map snd segs))" "disk_same d d'"
proof -
  note h = honestD [OF honest_segments assms(2)]
  have "segments_hold (quiet d) names segs" using assms(1) disk_same_views(1) [of d "quiet d"] by (simp add: segments_hold_def)
  from segments_hold_read [OF this] show "x = (concat (map fst segs), concat (map snd segs))" using h(2) by simp
  show "disk_same d d'" by (rule h(1))
qed

section \<open>Sealing\<close>

text \<open>Nothing but one file body changes.\<close>

definition writes_only :: "file_id \<Rightarrow> mem_disk \<Rightarrow> mem_disk \<Rightarrow> bool" where
  "writes_only f d d' \<longleftrightarrow> md_names d' = md_names d \<and> length (md_store d') = length (md_store d) \<and>
     (\<forall>g. g \<noteq> f \<longrightarrow> md_store d' ! g = md_store d ! g)"

lemma writes_only_refl [simp]: "writes_only f d d"
  by (simp add: writes_only_def)

lemma writes_only_trans: "writes_only f a b \<Longrightarrow> writes_only f b c \<Longrightarrow> writes_only f a c"
  by (simp add: writes_only_def)

lemma writes_only_append: "file_append f bs d = (r, d') \<Longrightarrow> writes_only f d d'"
  by (auto simp: writes_only_def file_append_def Let_def split: prod.splits option.splits if_splits)

lemma writes_only_same: "disk_same d d' \<Longrightarrow> writes_only f d d'"
  by (simp add: writes_only_def disk_same_def)

lemma writes_only_sync: "file_sync f d = (r, d') \<Longrightarrow> writes_only g d d'"
  by (auto simp: file_sync_def intro!: writes_only_same dest: disk_check_same)

lemma writes_only_chunks: "write_chunks f cs d = (r, d') \<Longrightarrow> writes_only f d d'"
proof (induction cs arbitrary: d)
  case (Cons c cs)
  then show ?case
    by (auto simp: Let_def split: option.splits prod.splits sum.splits dest!: writes_only_append dest: writes_only_trans)
qed simp

lemma writes_only_footer: "write_footer f footer d = (r, d') \<Longrightarrow> writes_only f d d'"
  by (auto simp: write_footer_def split: option.splits prod.splits sum.splits dest!: writes_only_append writes_only_sync [where g = f] dest: writes_only_trans)

lemma writes_only_finish:
  assumes "segment_finish w d = Some (r, d')"
  shows "writes_only (sw_file w) d d'"
proof -
  consider "d' = d" | cs where "write_chunks (sw_file w) cs d = (r, d')"
    | cs d1 where "write_chunks (sw_file w) cs d = (Inr (), d1)" "d' = d1 \<or> (\<exists>ft. write_footer (sw_file w) ft d1 = (r, d'))"
    using assms by (auto simp: segment_finish_def Let_def split: option.splits prod.splits sum.splits)
  then show ?thesis by cases (auto dest!: writes_only_chunks writes_only_footer dest: writes_only_trans)
qed

lemma writes_only_files:
  assumes "writes_only f d d'" "disk_wf d" "map_of (md_names d) name = Some f"
  shows "disk_wf d'" "n \<noteq> name \<Longrightarrow> file_at d' n = file_at d n" "file_at d' name = Some (md_store d' ! f)"
proof -
  show "disk_wf d'" "file_at d' name = Some (md_store d' ! f)" using assms by (simp_all add: disk_wf_def writes_only_def file_at_def)
  have "g \<noteq> f" if "n \<noteq> name" "map_of (md_names d) n = Some g" for g
    using assms(2,3) that unfolding disk_wf_def by (metis distinct_map inj_onD map_of_SomeD snd_conv prod.inject)
  then show "n \<noteq> name \<Longrightarrow> file_at d' n = file_at d n" using assms(1) by (cases "map_of (md_names d) n") (auto simp: file_at_def writes_only_def)
qed

definition sealable :: "bool \<Rightarrow> version list \<Rightarrow> close list \<Rightarrow> bool" where
  "sealable dict vs rs \<longleftrightarrow> length vs \<le> 2 ^ 33 \<and>
     (dict \<longrightarrow> sum_list (map Version_encoded_size vs) \<le> MAX_DECODED_CHUNK_LEN \<and> sum_list (map Close_encoded_size rs) \<le> MAX_DECODED_CHUNK_LEN)"

lemma sum_part_le: "grp \<in> set gs \<Longrightarrow> sum_list (map f grp) \<le> sum_list (map f (concat gs))" for f :: "'a \<Rightarrow> nat"
  by (induction gs) auto

lemma sealable_fits:
  assumes "sealable (sw_dictionary w) (sw_rows w) (sw_retractions w)" "sw_max_row_group_rows w = Some (max n 1)" "sw_bloom_bits_per_key w = DEFAULT_BITS_PER_KEY"
    "sw_valid_interval_cap w = DEFAULT_VALID_INTERVAL_CAP" "\<forall>v \<in> set (sw_rows w). version_encodable v" "\<forall>c \<in> set (sw_retractions w). close_encodable c"
  shows "writer_fits w"
proof -
  have cat: "concat (row_groups_of w) = sw_rows w" using assms(2) by (intro concat_row_groups) simp
  have "sum_list (map Version_encoded_size grp) \<le> sum_list (map Version_encoded_size (sw_rows w))" if "grp \<in> set (row_groups_of w)" for grp
    using sum_part_le [OF that, of Version_encoded_size] unfolding cat .
  then show ?thesis using assms unfolding writer_fits_def sealable_def DEFAULT_BITS_PER_KEY_def DEFAULT_VALID_INTERVAL_CAP_def
    by (auto intro: order_trans)
qed

lemma push_all_rows:
  "push_all segment_push vs w = (Inr (), w') \<Longrightarrow> w' = w\<lparr>sw_rows := sw_rows w @ vs\<rparr> \<and> (\<forall>v \<in> set vs. version_encodable v)"
  by (induction vs arbitrary: w) (fastforce simp: segment_push_def version_encodable_def split: sum.splits)+

lemma push_all_retractions: "push_all push_retraction cs w = (Inr (), w') \<Longrightarrow> w' = w\<lparr>sw_retractions := sw_retractions w @ cs\<rparr>"
  by (induction cs arbitrary: w) (fastforce simp: push_retraction_def split: if_splits)+

lemma create_files:
  assumes "SegmentWriter_create_inner name vt d = (r, d')" "disk_wf d"
  shows "disk_wf d'" "n \<noteq> name \<Longrightarrow> file_at d' n = file_at d n"
    "r = Inr w \<Longrightarrow> w = \<lparr>sw_file = sw_file w, sw_rows = [], sw_retractions = [], sw_valid_time = vt, sw_max_row_group_rows = None,
       sw_bloom_bits_per_key = DEFAULT_BITS_PER_KEY, sw_valid_interval_cap = DEFAULT_VALID_INTERVAL_CAP, sw_dictionary = False\<rparr>"
proof -
  obtain x d1 where c: "disk_create name d = (x, d1)" by (rule prod.exhaust)
  note ce = disk_create_effect [OF c assms(2)]
  have "disk_wf d' \<and> (\<forall>n. n \<noteq> name \<longrightarrow> file_at d' n = file_at d n)"
  proof (cases x)
    case (Inr f)
    obtain y where a: "file_append f segment_header d1 = (y, d')"
      using assms(1) c Inr by (auto simp: SegmentWriter_create_inner_def split: prod.splits sum.splits)
    show ?thesis using writes_only_files [OF writes_only_append [OF a] ce(1), of name] ce(2,3) Inr by auto
  qed (use assms c ce disk_same_views in \<open>auto simp: SegmentWriter_create_inner_def\<close>)
  then show "disk_wf d'" "n \<noteq> name \<Longrightarrow> file_at d' n = file_at d n" by auto
  show "r = Inr w \<Longrightarrow> w = \<lparr>sw_file = sw_file w, sw_rows = [], sw_retractions = [], sw_valid_time = vt, sw_max_row_group_rows = None,
       sw_bloom_bits_per_key = DEFAULT_BITS_PER_KEY, sw_valid_interval_cap = DEFAULT_VALID_INTERVAL_CAP, sw_dictionary = False\<rparr>"
    using assms(1) by (auto simp: SegmentWriter_create_inner_def split: prod.splits sum.splits)
qed

text \<open>Whatever fails, sealing touches its own file only; when it succeeds the file holds what was pushed.\<close>

lemma seal_segment_effect:
  assumes s: "seal_segment vt n dict name vs rs d = Some (r, d')" and wf: "disk_wf d"
  shows "disk_wf d'" "m \<noteq> name \<Longrightarrow> file_at d' m = file_at d m"
    "r = Inr () \<Longrightarrow> sealable dict vs rs \<Longrightarrow> \<forall>c \<in> set rs. close_encodable c \<Longrightarrow> (\<And>bs. file_at d' name = Some bs \<Longrightarrow> length bs < 2 ^ 64) \<Longrightarrow>
       validate_name name = Inr () \<and> (\<exists>bs. file_at d' name = Some bs \<and> segment_holds bs (map unresolved vs) rs)"
proof -
  obtain z d0 where rm: "disk_remove name d = (z, d0)" by (rule prod.exhaust)
  note re = disk_remove_effect [OF rm]
  obtain x d1 where c: "SegmentWriter_create_inner name vt d0 = (x, d1)" by (rule prod.exhaust)
  note ce = create_files [OF c re(2) [OF wf]]
  have cr: "(if vt then create_valid_time name d0 else SegmentWriter_create name d0) = (x, d1)"
    using c by (cases vt) (simp_all add: SegmentWriter_create_def create_valid_time_def)
  define prep where "prep w = (let w = with_max_row_group_rows n w in if dict then with_dictionary True w else w)" for w
  have outcome: "d' = d1 \<and> r \<noteq> Inr () \<or> (\<exists>w0 w1 w2 q d2. x = Inr w0 \<and> push_all segment_push vs (prep w0) = (Inr (), w1) \<and>
      push_all push_retraction rs w1 = (Inr (), w2) \<and> segment_finish w2 d1 = Some (q, d2) \<and> disk_same d2 d' \<and> (r = Inr () \<longrightarrow> q = Inr ()))"
    using s unfolding seal_segment_def rm snd_conv cr Let_def prep_def
    by (auto split: sum.splits prod.splits option.splits simp: disk_sync_dir_def dest!: disk_check_same)
  have files: "disk_wf d' \<and> (\<forall>m. m \<noteq> name \<longrightarrow> file_at d' m = file_at d m)"
    using outcome
  proof (elim disjE exE conjE)
    fix w0 w1 w2 q d2 assume w: "x = Inr w0" "push_all segment_push vs (prep w0) = (Inr (), w1)" "push_all push_retraction rs w1 = (Inr (), w2)"
      "segment_finish w2 d1 = Some (q, d2)" "disk_same d2 d'"
    have "sw_file w2 = sw_file w0" using push_all_rows [OF w(2)] push_all_retractions [OF w(3)]
      by (simp add: prep_def with_max_row_group_rows_def with_dictionary_def Let_def)
    then have "map_of (md_names d1) name = Some (sw_file w2)" using create_effect [OF c [unfolded w(1)]] by simp
    from writes_only_files [OF writes_only_finish [OF w(4)] ce(1) this] ce(2) re(1) show ?thesis using disk_same_views [OF w(5)] by auto
  qed (use ce re(1) in auto)
  then show "disk_wf d'" "m \<noteq> name \<Longrightarrow> file_at d' m = file_at d m" by auto
  assume h: "r = Inr ()" "sealable dict vs rs" "\<forall>c \<in> set rs. close_encodable c" "\<And>bs. file_at d' name = Some bs \<Longrightarrow> length bs < 2 ^ 64"
  from outcome h(1) obtain w0 w1 w2 d2 where w: "x = Inr w0" "push_all segment_push vs (prep w0) = (Inr (), w1)"
      "push_all push_retraction rs w1 = (Inr (), w2)" "segment_finish w2 d1 = Some (Inr (), d2)" "disk_same d2 d'" by auto
  note p = push_all_rows [OF w(2)] push_all_retractions [OF w(3)] ce(3) [OF w(1)] and cr' = create_effect [OF c [unfolded w(1)]]
  have "sw_rows w0 = []" "sw_retractions w0 = []" "sw_dictionary w0 = False" "sw_bloom_bits_per_key w0 = DEFAULT_BITS_PER_KEY"
      "sw_valid_interval_cap w0 = DEFAULT_VALID_INTERVAL_CAP" by (subst p(3), simp)+
  then have f: "sw_file w2 = sw_file w0" "sw_rows w2 = vs" "sw_retractions w2 = rs" "sw_dictionary w2 = dict" "sw_max_row_group_rows w2 = Some (max n 1)"
      "sw_bloom_bits_per_key w2 = DEFAULT_BITS_PER_KEY" "sw_valid_interval_cap w2 = DEFAULT_VALID_INTERVAL_CAP"
    using p(1,2) by (simp_all add: prep_def with_max_row_group_rows_def with_dictionary_def Let_def)
  have fits: "writer_fits w2" by (rule sealable_fits) (use f h(2,3) p(1) in simp_all)
  have at: "file_at d' name = Some (md_store d2 ! sw_file w2)"
    using writes_only_files(3) [OF writes_only_finish [OF w(4)] ce(1), of name] cr' f(1) disk_same_views(1) [OF w(5)] by simp
  then have "segment_holds (md_store d2 ! sw_file w2) (map unresolved (sw_rows w2)) (sw_retractions w2)"
    using h(4) by (intro finish_holds [OF c [unfolded w(1)] f(1) fits w(4)]) (simp add: file_len_def)
  then show "validate_name name = Inr () \<and> (\<exists>bs. file_at d' name = Some bs \<and> segment_holds bs (map unresolved vs) rs)"
    using at cr' f(2,3) by auto
qed

end
