(* ===== verification/Dml_Records.thy ===== *)
theory Dml_Records
  imports Dml
begin

text \<open>
  The records of the DML path on the log: encoding and decoding a redo set, the two-phase envelope, and
  what a truncated record is taken for.
\<close>

section \<open>Frames of redo entries\<close>

fun entry_frame :: "redo \<Rightarrow> bytes" where
  "entry_frame (Insert v) = REDO_TAG_INSERT # version_frame v"
| "entry_frame (Close c) = REDO_TAG_CLOSE # close_frame c"
| "entry_frame (Retract c) = REDO_TAG_RETRACT # close_frame c"

text \<open>What of an entry survives the log: everything but the overlaid end of a version.\<close>

fun redo_norm :: "redo \<Rightarrow> redo" where
  "redo_norm (Insert v) = Insert (unresolved v)"
| "redo_norm (Close c) = Close c"
| "redo_norm (Retract c) = Retract c"

definition redos_frame :: "redo list \<Rightarrow> bytes" where
  "redos_frame rs = concat (map entry_frame rs)"

lemma redo_tags: "REDO_TAG_CLOSE \<noteq> REDO_TAG_INSERT" "REDO_TAG_RETRACT \<noteq> REDO_TAG_INSERT" "REDO_TAG_RETRACT \<noteq> REDO_TAG_CLOSE"
  "TWO_PHASE_RECORD_TAG \<noteq> REDO_TAG_INSERT" "TWO_PHASE_RECORD_TAG \<noteq> REDO_TAG_CLOSE" "TWO_PHASE_RECORD_TAG \<noteq> REDO_TAG_RETRACT"
  by (simp_all add: REDO_TAG_INSERT_def REDO_TAG_CLOSE_def REDO_TAG_RETRACT_def TWO_PHASE_RECORD_TAG_def)

lemma encode_redos_frame:
  "encode_redos rs buf = Inr out \<longleftrightarrow> list_all redo_encodable rs \<and> out = buf @ redos_frame rs"
proof (induction rs arbitrary: buf)
  case (Cons r rs)
  have "encode_entry r buf = Inr b \<longleftrightarrow> redo_encodable r \<and> b = buf @ entry_frame r" for b
    by (cases r) (auto simp: encode_entry_def Version_encode_frame Close_encode_frame)
  with Cons show ?case by (auto simp: result_simps redos_frame_def)
qed (auto simp: redos_frame_def)

lemma encode_redo_frame: "encode_redo rs = Inr out \<longleftrightarrow> list_all redo_encodable rs \<and> out = redos_frame rs"
  by (simp add: encode_redo_def encode_redos_frame)

lemma decode_entry_frame:
  assumes "redo_encodable r"
  shows "\<exists>tag body. entry_frame r @ rest = tag # body \<and> decode_entry tag body = Inr (redo_norm r, rest)"
proof (cases r)
  case (Insert v)
  with assms show ?thesis by (simp add: decode_entry_def decode_version_frame)
qed (use assms in \<open>simp_all add: decode_entry_def decode_close_frame redo_tags\<close>)

lemma decode_redos_frame:
  "list_all redo_encodable rs \<Longrightarrow> decode_redos (redos_frame rs @ rest) acc = decode_redos rest (acc @ map redo_norm rs)"
proof (induction rs arbitrary: acc)
  case (Cons r rs)
  then obtain tag body where t: "entry_frame r @ redos_frame rs @ rest = tag # body"
      "decode_entry tag body = Inr (redo_norm r, redos_frame rs @ rest)"
    using decode_entry_frame [of r "redos_frame rs @ rest"] by auto
  have "redos_frame (r # rs) @ rest = tag # body" using t(1) by (simp add: redos_frame_def)
  with t(2) Cons show ?case by simp
qed (simp add: redos_frame_def)

lemma decode_redo_frame: "list_all redo_encodable rs \<Longrightarrow> decode_redo (redos_frame rs) = Inr (map redo_norm rs)"
  using decode_redos_frame [of rs "[]" "[]"] by (simp add: decode_redo_def)

lemma split_plain: "rs \<noteq> [] \<Longrightarrow> split_record (redos_frame rs) = Inr (None, redos_frame rs)"
  by (cases rs; cases "hd rs") (auto simp: split_record_def redos_frame_def redo_tags redo_tags [symmetric])

lemma split_two_phase: "split_record (TWO_PHASE_RECORD_TAG # u64_le t @ bs) = Inr (Some t, bs)"
  by (simp add: split_record_def)

section \<open>Truncation\<close>

lemma sub_slice_mono: "b \<le> length bs \<Longrightarrow> sub_slice a b (bs @ rest) = sub_slice a b bs"
  by (cases "a \<le> b") (simp_all add: sub_slice_def)

text \<open>A decoder that accepts a prefix accepts it the same way whatever follows.\<close>

lemma Version_decode_mono: "Version_decode bs = Inr x \<Longrightarrow> Version_decode (bs @ rest) = Inr x"
  by (auto simp: Version_decode_def Let_def rd_u32_def rd_u64_def rd_i64_def sub_slice_mono VERSION_HEADER_LEN_def
      split: if_splits)

lemma Close_decode_mono: "Close_decode bs = Inr x \<Longrightarrow> Close_decode (bs @ rest) = Inr x"
  by (auto simp: Close_decode_def Let_def rd_u32_def rd_u64_def rd_i64_def sub_slice_mono CLOSE_HEADER_LEN_def
      split: if_splits)

lemma decode_truncated:
  fixes decode :: "bytes \<Rightarrow> 'e + 'a \<times> nat"
  assumes "decode frame = Inr (x, length frame)" "k < length frame"
    and "\<And>bs y rest. decode bs = Inr y \<Longrightarrow> decode (bs @ rest) = Inr y" "\<And>bs y n. decode bs = Inr (y, n) \<Longrightarrow> n \<le> length bs"
  shows "\<exists>e. decode (take k frame) = Inl e"
proof (cases "decode (take k frame)")
  case (Inr yn)
  obtain y n where yn: "yn = (y, n)" by (rule prod.exhaust)
  have "decode (take k frame @ drop k frame) = Inr (y, n)" using assms(3) Inr yn by blast
  then have "n = length frame" using assms(1) by simp
  moreover have "n \<le> length (take k frame)" using assms(4) Inr yn by blast
  ultimately show ?thesis using assms(2) by simp
qed simp

lemma frame_truncated:
  "version_encodable v \<Longrightarrow> j < length (version_frame v) \<Longrightarrow> \<exists>e. Version_decode (take j (version_frame v)) = Inl e"
  "close_encodable c \<Longrightarrow> j < length (close_frame c) \<Longrightarrow> \<exists>e. Close_decode (take j (close_frame c)) = Inl e"
  using decode_truncated [of Version_decode "version_frame v" "unresolved v" j] decode_version_frame [of v "[]"]
    decode_truncated [of Close_decode "close_frame c" c j] decode_close_frame [of c "[]"]
    Version_decode_mono Version_decode_consumed Close_decode_mono Close_decode_consumed by auto

lemma decode_entry_truncated:
  assumes "redo_encodable r" "0 < k" "k < length (entry_frame r)"
  shows "\<exists>tag body e. take k (entry_frame r) = tag # body \<and> decode_entry tag body = Inl e"
proof -
  obtain j where k: "k = Suc j" using assms(2) by (cases k) simp_all
  show ?thesis
  proof (cases r)
    case (Insert v)
    with frame_truncated(1) [of v j] assms k show ?thesis by (auto simp: decode_entry_def)
  next
    case (Close c)
    with frame_truncated(2) [of c j] assms k show ?thesis by (auto simp: decode_entry_def redo_tags)
  next
    case (Retract c)
    with frame_truncated(2) [of c j] assms k show ?thesis by (auto simp: decode_entry_def redo_tags)
  qed
qed

text \<open>
  C18. A redo record carries its redo set exactly. A set encodes when every entry is within its frame
  ceiling; the record decodes to the same entries in order (a version without its overlaid end, which no
  writer sets), as a plain record by itself and under the two-phase envelope with the transaction's id,
  the two framings never being taken for each other. A record cut anywhere inside its last entry is
  refused, never read as a shorter set.
\<close>

theorem redo_record_roundtrip:
  "(\<forall>redos. (\<exists>bs. encode_redo redos = Inr bs) \<longleftrightarrow> list_all redo_encodable redos) \<and>
   (\<forall>redos bs t. encode_redo redos = Inr bs \<longrightarrow>
      decode_redo bs = Inr (map redo_norm redos) \<and> (redos \<noteq> [] \<longrightarrow> split_record bs = Inr (None, bs)) \<and>
      split_record (TWO_PHASE_RECORD_TAG # u64_le t @ bs) = Inr (Some t, bs)) \<and>
   (\<forall>redos r bs k. encode_redo (redos @ [r]) = Inr bs \<and> 0 < k \<and> k < length (entry_frame r) \<longrightarrow>
      (\<exists>e. decode_redo (take (length (redos_frame redos) + k) bs) = Inl e))"
proof (intro conjI allI impI)
  fix redos show "(\<exists>bs. encode_redo redos = Inr bs) \<longleftrightarrow> list_all redo_encodable redos" by (simp add: encode_redo_frame)
next
  fix redos bs and t :: u64 assume "encode_redo redos = Inr bs"
  then have e: "list_all redo_encodable redos" "bs = redos_frame redos" by (simp_all add: encode_redo_frame)
  show "decode_redo bs = Inr (map redo_norm redos)" by (simp add: e decode_redo_frame)
  show "split_record bs = Inr (None, bs)" if "redos \<noteq> []" using that by (simp add: e split_plain)
  show "split_record (TWO_PHASE_RECORD_TAG # u64_le t @ bs) = Inr (Some t, bs)" by (rule split_two_phase)
next
  fix redos r bs k assume h: "encode_redo (redos @ [r]) = Inr bs \<and> 0 < k \<and> k < length (entry_frame r)"
  then have e: "list_all redo_encodable redos" "redo_encodable r" "bs = redos_frame redos @ entry_frame r"
    by (auto simp: encode_redo_frame redos_frame_def)
  obtain tag body x where t: "take k (entry_frame r) = tag # body" "decode_entry tag body = Inl x"
    using decode_entry_truncated [OF e(2)] h by blast
  have "take (length (redos_frame redos) + k) bs = redos_frame redos @ tag # body" by (simp add: e(3) t(1))
  then show "\<exists>e. decode_redo (take (length (redos_frame redos) + k) bs) = Inl e"
    using decode_redos_frame [OF e(1), of "tag # body" "[]"] t(2) by (simp add: decode_redo_def)
qed

theorem redo_record_roundtrip_witness:
  "\<exists>bs. encode_redo [Insert first_version] = Inr bs \<and> decode_redo bs = Inr [Insert first_version] \<and>
     split_record bs = Inr (None, bs)"
proof -
  have "version_encodable first_version" "unresolved first_version = first_version"
    using example_stageable(1) by (simp_all add: stageable_def)
  then have "list_all redo_encodable [Insert first_version]" "map redo_norm [Insert first_version] = [Insert first_version]" by simp_all
  with redo_record_roundtrip show ?thesis by (metis list.distinct(1))
qed

end
