(* ===== verification/Staging.thy ===== *)
theory Staging
  imports Dml_Records
begin

text \<open>
  What staging a statement yields: the redo sets of the three statements are admitted by the tiers they
  were resolved against, touch only fresh identities, and take a consistent table to a consistent table
  however they are applied.
\<close>

section \<open>Tables and views\<close>

abbreviation retier :: "table \<Rightarrow> i64 option \<Rightarrow> tiers \<Rightarrow> table" where
  "retier t l ts \<equiv> t\<lparr>tb_last := l, tb_delta := fst ts, tb_index := snd ts\<rparr>"

definition tb_tiers :: "table \<Rightarrow> tiers" where
  "tb_tiers t = (tb_delta t, tb_index t)"

lemma view_of_simps [simp]:
  "tv_versions (view_of ts) = staged_set (fst ts)" "tv_ends (view_of ts) = vi_abs (snd ts)"
  "tv_retractions (view_of ts) = bt_get (dl_retractions (fst ts))"
  by (simp_all add: view_of_def)

lemma view_of_same: "dl_same d d' \<Longrightarrow> vi_same i i' \<Longrightarrow> view_of (d', i') = view_of (d, i)"
  by (simp add: view_of_def dl_same_views(3) [of d d'] dl_same_fields(5) [of d d'] vi_same_views(2) [of i i'])

lemma tiers_inv_same: "dl_same d d' \<Longrightarrow> vi_same i i' \<Longrightarrow> tiers_inv (d', i') = tiers_inv (d, i)"
  by (simp add: tiers_inv_def dl_same_views(4) [of d d'] vi_same_views(3) [of i i'])

lemma retraction_none:
  assumes "table_inv t" "vi_abs (tb_index t) k = None"
  shows "bt_get (dl_retractions (tb_delta t)) k = None"
proof (rule ccontr)
  assume "bt_get (dl_retractions (tb_delta t)) k \<noteq> None"
  then obtain c where c: "bt_get (dl_retractions (tb_delta t)) k = Some c" by blast
  then have "c \<in> set (tb_retractions t)"
    using bt_get_in_set [OF c] by (auto simp: tb_retractions_def staged_retractions_def bt_values_def intro: rev_image_eqI)
  moreover have "close_target c = k" using c assms(1) unfolding table_inv_def retractions_keyed_def by blast
  moreover have "history_ends (tb_versions t) (tb_retractions t) (vi_abs (tb_index t))"
    using assms(1) by (auto simp: table_inv_def dest: timelineD(7))
  ultimately show False using assms(2) unfolding history_ends_def by force
qed

lemma timeline_set:
  assumes "set vs' = set vs" "timeline vs rs ends hw"
  shows "timeline vs' rs ends hw"
proof -
  have "unique_ids (set vs)" using timelineD(1) [OF assms(2)] .
  then have "pool vs' k = Some v \<longleftrightarrow> pool vs k = Some v" for k v using pool_unique assms(1) by metis
  then have "pool vs' = pool vs" using option.exhaust by (metis ext not_None_eq)
  then have "history_ends vs' rs ends" using timelineD(7) [OF assms(2)] by (simp add: history_ends_def successor_def)
  then show ?thesis using assms unfolding timeline_def by simp
qed

text \<open>A version added on the system axis, seen through the views.\<close>

lemma table_added_view:
  assumes inv: "table_inv t" and now: "high_water (tb_last t) \<le> now" "now < SYSTEM_TIME_OPEN"
    and v: "v_sys_from v = now" "unresolved v = v" and fresh: "seq_fresh (v_business_key v) now (v_seq v) t"
    and ts: "tiers_inv ts" "staged_set (fst ts) = insert v (staged_set (tb_delta t))"
      "bt_get (dl_retractions (fst ts)) = bt_get (dl_retractions (tb_delta t))"
      "vi_abs (snd ts) = superseded (vi_abs (tb_index t)) (tb_versions t) v"
  shows "table_inv (retier t (Some now) ts)"
proof -
  let ?t = "retier t (Some now) ts"
  have tl: "timeline (tb_versions t) (tb_retractions t) (vi_abs (tb_index t)) (high_water (tb_last t))"
    and b: "bt_inv (dl_retractions (tb_delta t))" "bt_inv (dl_retractions (fst ts))"
    using inv ts(1) by (simp_all add: table_inv_def delta_inv_def tiers_inv_def)
  have ret: "dl_retractions (fst ts) = dl_retractions (tb_delta t)" by (rule bt_eqI [OF b(2,1)]) (simp add: ts(3))
  have above: "vord w < vord v" if "w \<in> set (tb_versions t)" "v_business_key w = v_business_key v" for w
    using stamped_above [OF inv fresh now(1) that v(1) refl] .
  have vs: "set (tb_versions ?t) = insert v (set (tb_versions t))" using ts(2) by (auto simp: tb_versions_def staged_set_def)
  note add = timeline_add [OF tl now v vs above]
  have rs: "tb_retractions ?t = tb_retractions t" by (simp add: tb_retractions_def staged_retractions_def ret)
  have "retractions_keyed (fst ts)" using inv ret by (simp add: table_inv_def retractions_keyed_def)
  then show ?thesis using add(1) ts(1,4) rs unfolding table_inv_def by (simp add: high_water_def tiers_inv_def)
qed

lemma table_retracted_view:
  assumes inv: "table_inv t" and now: "high_water (tb_last t) \<le> now" "now < SYSTEM_TIME_OPEN"
    and p: "p \<in> set (tb_versions t)" "vi_abs (tb_index t) (vkey p) = None" "close_target c = vkey p" "cl_sys_to c = now"
    and ts: "tiers_inv ts" "staged_set (fst ts) = staged_set (tb_delta t)"
      "bt_get (dl_retractions (fst ts)) = (bt_get (dl_retractions (tb_delta t)))(close_target c \<mapsto> c)"
      "vi_abs (snd ts) = (vi_abs (tb_index t))(close_target c \<mapsto> close_interval c)"
  shows "table_inv (retier t (Some now) ts)"
proof -
  let ?t = "retier t (Some now) ts" and ?d = "stage_retraction c (tb_delta t)"
  have tl: "timeline (tb_versions t) (tb_retractions t) (vi_abs (tb_index t)) (high_water (tb_last t))"
    and di: "delta_inv (tb_delta t)" "retractions_keyed (tb_delta t)" and b: "bt_inv (dl_retractions (fst ts))" "bt_inv (dl_retractions (tb_delta t))"
    using inv ts(1) by (simp_all add: table_inv_def tiers_inv_def delta_inv_def)
  have none: "bt_get (dl_retractions (tb_delta t)) (close_target c) = None" using retraction_none [OF inv] p by simp
  have "bt_inv (dl_retractions ?d)" using stage_retraction_view(1) [OF di(1)] by (simp add: delta_inv_def)
  then have ret: "dl_retractions (fst ts) = dl_retractions ?d"
    by (intro bt_eqI [OF b(1)]) (simp_all add: ts(3) stage_retraction_view(3) [OF di(1)])
  note sr = stage_retraction_facts [OF none b(2)]
  have rs: "set (tb_retractions ?t) = insert c (set (tb_retractions t))"
    using sr(1) by (auto simp: tb_retractions_def staged_retractions_def ret)
  have sv: "set (tb_versions ?t) = set (tb_versions t)" using ts(2) by (simp add: tb_versions_def staged_set_def)
  note step = timeline_retract [OF tl now p(1,2) p(3,4) rs]
  have "timeline (tb_versions ?t) (tb_retractions ?t) (vi_abs (snd ts)) now"
    using step(1) p(3) ts(4) timeline_set [OF sv] by simp
  moreover have "retractions_keyed (fst ts)" using sr(2) [OF di(2)] by (simp add: retractions_keyed_def ret)
  ultimately show ?thesis using ts(1) by (simp add: table_inv_def high_water_def tiers_inv_def)
qed

section \<open>Staged redo sets\<close>

text \<open>
  What a staged redo set guarantees of the tiers it was resolved against: it touches only fresh
  identities, is admitted by their view, and however it is applied, its effect is a consistent table.
\<close>

definition staged_set_ok :: "table \<Rightarrow> i64 option \<Rightarrow> redo list \<Rightarrow> bool" where
  "staged_set_ok t l redos \<longleftrightarrow> redos \<noteq> [] \<and> redos_admitted redos (view_of (tb_tiers t)) \<and>
     (\<forall>r \<in> set redos. redo_fresh (tb_tiers t) r \<and> redo_norm r = r) \<and>
     high_water (tb_last t) \<le> high_water l \<and>
     (\<forall>ts. tiers_inv ts \<and> view_of ts = fold redo_view redos (view_of (tb_tiers t)) \<longrightarrow> table_inv (retier t l ts))"

lemma stage_shape:
  "stage_insert lookup key payload seq txn_id prin now w = stamp_and_resolve key now
     (\<lambda>q w. case q of Some _ \<Rightarrow> (Inl KeyExists, w)
        | None \<Rightarrow> (Inr (now, [Insert (open_version key now seq payload txn_id prin)]), w)) lookup w"
  "stage_update lookup key payload seq txn_id prin now w = stamp_and_resolve key now
     (\<lambda>q w. case q of None \<Rightarrow> (Inl KeyNotFound, w)
        | Some prior \<Rightarrow> (Inr (now, [Close (systime_close_of key prior now txn_id prin),
            Insert (open_version key now seq payload txn_id prin)]), w)) lookup w"
  "stage_delete lookup key txn_id prin now w = stamp_and_resolve key now
     (\<lambda>q w. case q of None \<Rightarrow> (Inl KeyNotFound, w)
        | Some prior \<Rightarrow> (Inr (now, [Retract (systime_close_of key prior now txn_id prin)]), w)) lookup w"
  by (auto simp: stage_insert_def stage_update_def stage_delete_def stamp_and_resolve_def
      split: sum.splits prod.splits option.splits dest: next_commit_Inr)

lemma view_eqI:
  "view_of ts = fold redo_view redos tv \<Longrightarrow> staged_set (fst ts) = tv_versions (fold redo_view redos tv)"
  "view_of ts = fold redo_view redos tv \<Longrightarrow> vi_abs (snd ts) = tv_ends (fold redo_view redos tv)"
  "view_of ts = fold redo_view redos tv \<Longrightarrow> bt_get (dl_retractions (fst ts)) = tv_retractions (fold redo_view redos tv)"
  by (simp_all flip: view_of_simps)

lemma fresh_version:
  assumes "table_inv t" "seq_fresh key now seq t" "high_water (tb_last t) \<le> now"
  shows "vkey (open_version key now seq payload txn_id prin) \<notin> vkey ` staged_set (tb_delta t)"
proof
  let ?v = "open_version key now seq payload txn_id prin"
  assume "vkey ?v \<in> vkey ` staged_set (tb_delta t)"
  then obtain w where w: "w \<in> staged_set (tb_delta t)" "vkey ?v = vkey w" by (rule imageE)
  have "w \<in> set (tb_versions t)" using w(1) by (simp add: tb_versions_def staged_set_def)
  with stamped_above [OF assms this, of ?v] w(2) show False by (auto simp: vkey_vord)
qed

lemma staged_insert_ok:
  assumes inv: "table_inv t" and fresh: "seq_fresh key now seq t" and now: "high_water (tb_last t) \<le> now" "now < SYSTEM_TIME_OPEN"
    and none: "\<And>p. p \<in> set (tb_versions t) \<Longrightarrow> v_business_key p = key \<Longrightarrow> vi_abs (tb_index t) (vkey p) \<noteq> None"
  shows "staged_set_ok t (Some now) [Insert (open_version key now seq payload txn_id prin)]"
proof -
  let ?v = "open_version key now seq payload txn_id prin"
  note ne = fresh_version [OF inv fresh now(1), of payload txn_id prin]
  have sup: "superseded (vi_abs (tb_index t)) (tb_versions t) ?v = vi_abs (tb_index t)" using none by (intro superseded_id) auto
  have "table_inv (retier t (Some now) ts)" if ts: "tiers_inv ts" "view_of ts = fold redo_view [Insert ?v] (view_of (tb_tiers t))" for ts
  proof (rule table_added_view [OF inv now _ _ _ ts(1)])
    show "vi_abs (snd ts) = superseded (vi_abs (tb_index t)) (tb_versions t) ?v"
      unfolding sup using view_eqI(2) [OF ts(2)] by (simp add: tb_tiers_def)
  qed (use view_eqI [OF ts(2)] fresh in \<open>simp_all add: tb_tiers_def\<close>)
  moreover have "redos_admitted [Insert ?v] (view_of (tb_tiers t))" "redo_fresh (tb_tiers t) (Insert ?v)"
    using ne by (auto simp: tb_tiers_def redo_fresh_def image_iff)
  ultimately show ?thesis using now by (simp add: staged_set_ok_def high_water_def)
qed

lemma staged_update_ok:
  assumes inv: "table_inv t" and fresh: "seq_fresh key now seq t" and now: "high_water (tb_last t) \<le> now" "now < SYSTEM_TIME_OPEN"
    and p: "p \<in> set (tb_versions t)" "v_business_key p = key" "vi_abs (tb_index t) (vkey p) = None"
  shows "staged_set_ok t (Some now) [Close (systime_close_of key p now txn_id prin), Insert (open_version key now seq payload txn_id prin)]"
proof -
  let ?v = "open_version key now seq payload txn_id prin" and ?c = "systime_close_of key p now txn_id prin"
  note ne = fresh_version [OF inv fresh now(1), of payload txn_id prin]
  have tl: "timeline (tb_versions t) (tb_retractions t) (vi_abs (tb_index t)) (high_water (tb_last t))"
    using inv by (simp add: table_inv_def)
  have c: "close_target ?c = vkey p" "close_interval ?c = supersession_end ?v"
    using p(2) systime_close_simps(3) [of key p now txn_id prin seq payload] by simp_all
  have sup: "superseded (vi_abs (tb_index t)) (tb_versions t) ?v = (vi_abs (tb_index t))(vkey p \<mapsto> supersession_end ?v)"
    using superseded_upd [OF tl p(1,3), of ?v] p(2) by simp
  have "table_inv (retier t (Some now) ts)"
    if ts: "tiers_inv ts" "view_of ts = fold redo_view [Close ?c, Insert ?v] (view_of (tb_tiers t))" for ts
  proof (rule table_added_view [OF inv now _ _ _ ts(1)])
    show "vi_abs (snd ts) = superseded (vi_abs (tb_index t)) (tb_versions t) ?v"
      unfolding sup using view_eqI(2) [OF ts(2)] c by (simp add: tb_tiers_def)
  qed (use view_eqI [OF ts(2)] fresh in \<open>simp_all add: tb_tiers_def\<close>)
  moreover have "redos_admitted [Close ?c, Insert ?v] (view_of (tb_tiers t))" "redo_fresh (tb_tiers t) (Insert ?v)"
    "redo_fresh (tb_tiers t) (Close ?c)"
    using ne p c by (auto simp: tb_tiers_def redo_fresh_def image_iff)
  ultimately show ?thesis using now by (simp add: staged_set_ok_def high_water_def)
qed

lemma staged_delete_ok:
  assumes inv: "table_inv t" and now: "high_water (tb_last t) \<le> now" "now < SYSTEM_TIME_OPEN"
    and p: "p \<in> set (tb_versions t)" "v_business_key p = key" "vi_abs (tb_index t) (vkey p) = None"
  shows "staged_set_ok t (Some now) [Retract (systime_close_of key p now txn_id prin)]"
proof -
  let ?c = "systime_close_of key p now txn_id prin"
  have c: "close_target ?c = vkey p" using p(2) by simp
  have "table_inv (retier t (Some now) ts)"
    if ts: "tiers_inv ts" "view_of ts = fold redo_view [Retract ?c] (view_of (tb_tiers t))" for ts
    using view_eqI [OF ts(2)] c by (intro table_retracted_view [OF inv now p(1,3) c _ ts(1)]) (simp_all add: tb_tiers_def)
  then show ?thesis using now p c retraction_none [OF inv p(3)]
    by (auto simp: staged_set_ok_def redo_fresh_def tb_tiers_def high_water_def)
qed

text \<open>Stamping and resolving against a table: the tiers keep their contents whatever happens.\<close>

definition last_ok :: "table \<Rightarrow> i64 option \<Rightarrow> bool" where
  "last_ok t l \<longleftrightarrow> l = tb_last t \<or> (\<exists>now. l = Some now \<and> high_water (tb_last t) \<le> now \<and> now < SYSTEM_TIME_OPEN)"

lemma resolve_cases:
  fixes k :: "version option \<Rightarrow> writer \<Rightarrow> (systime_error + 'a) \<times> writer"
  assumes inv: "table_inv t"
    and w: "stamp_and_resolve key now k (SealedVersions_versions_for (tb_sealed t)) (tb_last t, tb_tiers t) = (r, l, d', i')"
  obtains (failed) e where "r = Inl e" "dl_same (tb_delta t) d'" "vi_same (tb_index t) i'" "last_ok t l"
  | (resolved) q d i where "dl_same (tb_delta t) d" "vi_same (tb_index t) i" "high_water (tb_last t) \<le> now" "now < SYSTEM_TIME_OPEN"
      "\<And>p. q = Some p \<longleftrightarrow> p \<in> set (tb_versions t) \<and> v_business_key p = key \<and> vi_abs (tb_index t) (vkey p) = None"
      "k q (Some now, d, i) = (r, l, d', i')"
proof -
  let ?lk = "SealedVersions_versions_for (tb_sealed t)"
  obtain nc l0 where n: "next_commit_ts now (tb_last t) = (nc, l0)" by (rule prod.exhaust)
  then show thesis
  proof (cases rule: next_commit_cases)
    case (refused e)
    with w n have "r = Inl e" "l = tb_last t" "d' = tb_delta t" "i' = tb_index t" by (simp_all add: stamp_and_resolve_def tb_tiers_def)
    then show thesis by (intro failed [of e]) (simp_all add: last_ok_def vi_same_refl)
  next
    case stamped
    obtain q d i where rl: "resolve_live ?lk key now (tb_delta t, tb_index t) = (q, d, i)" by (metis prod.exhaust)
    note rs = resolve_live_spec [OF inv stamped(3,4) rl]
    show thesis
    proof (cases q)
      case (Inl e)
      with w n stamped rl have "r = Inl e" "l = Some now" "d' = d" "i' = i" by (simp_all add: stamp_and_resolve_def tb_tiers_def)
      with rs(1,2) stamped show thesis by (intro failed [of e]) (simp_all add: last_ok_def)
    next
      case (Inr v)
      with w n stamped rl have "k v (Some now, d, i) = (r, l, d', i')" by (simp add: stamp_and_resolve_def tb_tiers_def)
      then show thesis by (rule resolved [OF rs(1,2) stamped(3,4) rs(3) [OF Inr]])
    qed
  qed
qed

text \<open>The three statements at the valid-time writer, and the bytes their redo sets can add.\<close>

definition stmt_bytes :: "bytes \<Rightarrow> bytes option \<Rightarrow> bytes \<Rightarrow> nat" where
  "stmt_bytes key payload prin =
     VERSION_HEADER_LEN + VALID_TIME_PREFIX_LEN + length key + (case payload of None \<Rightarrow> 0 | Some u \<Rightarrow> length u) + length prin"

definition stmt_room :: "table \<Rightarrow> bytes \<Rightarrow> bytes option \<Rightarrow> bytes \<Rightarrow> bool" where
  "stmt_room t key payload prin \<longleftrightarrow> mt_bytes (dl_mem (tb_delta t)) + stmt_bytes key payload prin < 2 ^ 64 \<and>
     mem_bytes (vi_mem (tb_index t)) + (CLOSE_HEADER_LEN + length key + length prin) < 2 ^ 64"

text \<open>
  A statement as the engine issues it: under the writer's \<open>seq\<close> contract, and while the resident bytes
  of the tiers are countable in 64 bits.
\<close>

inductive statement :: "bool \<Rightarrow> table \<Rightarrow> (valid_time_error + i64 \<times> redo list) \<times> writer \<Rightarrow> bool"
  for enabled t where
  insert_stmt: "seq_fresh key now seq t \<Longrightarrow> stmt_room t key payload prin \<Longrightarrow>
     statement enabled t (vt_stage_insert enabled (SealedVersions_versions_for (tb_sealed t)) key valid payload seq txn_id prin now
       (tb_last t, tb_tiers t))"
| update_stmt: "seq_fresh key now seq t \<Longrightarrow> stmt_room t key payload prin \<Longrightarrow>
     statement enabled t (vt_stage_update enabled (SealedVersions_versions_for (tb_sealed t)) key valid payload seq txn_id prin now
       (tb_last t, tb_tiers t))"
| delete_stmt: "stmt_room t key None prin \<Longrightarrow>
     statement enabled t (vt_stage_delete (SealedVersions_versions_for (tb_sealed t)) key txn_id prin now (tb_last t, tb_tiers t))"

definition redo_room :: "tiers \<Rightarrow> redo list \<Rightarrow> bool" where
  "redo_room ts redos \<longleftrightarrow> mt_bytes (dl_mem (fst ts)) + sum_list (map redo_version_bytes redos) < 2 ^ 64 \<and>
     mem_bytes (vi_mem (snd ts)) + sum_list (map redo_close_bytes redos) < 2 ^ 64"

lemma framed_length:
  "frame_payload enabled valid payload = Inr framed \<Longrightarrow>
     (case framed of None \<Rightarrow> 0 | Some u \<Rightarrow> length u) \<le> VALID_TIME_PREFIX_LEN + (case payload of None \<Rightarrow> 0 | Some u \<Rightarrow> length u)"
  by (auto simp: frame_payload_def encode_prefix_def VALID_TIME_PREFIX_LEN_def split: bool.splits option.splits)

lemma redo_sizes:
  "frame_payload enabled valid payload = Inr framed \<Longrightarrow>
     Version_encoded_size (open_version key now seq framed txn_id prin) \<le> stmt_bytes key payload prin"
  "Close_encoded_size (systime_close_of key p now txn_id prin) = CLOSE_HEADER_LEN + length key + length prin"
  using framed_length [of enabled valid payload framed]
  by (simp_all add: Version_encoded_size_def open_version_def Version_open_def stmt_bytes_def systime_close_of_def Close_encoded_size_def
      split: option.splits)

lemma same_bytes:
  "dl_same d d' \<Longrightarrow> mt_bytes (dl_mem d') = mt_bytes (dl_mem d)" "vi_same i i' \<Longrightarrow> mem_bytes (vi_mem i') = mem_bytes (vi_mem i)"
  by (simp_all add: dl_same_fields(1) vi_same_fields)

lemma staged_set_ok_same:
  assumes "staged_set_ok t l redos" "dl_same (tb_delta t) d" "vi_same (tb_index t) i"
  shows "staged_set_ok (retier t (tb_last t) (d, i)) l redos"
proof -
  have v: "view_of (d, i) = view_of (tb_tiers t)" using view_of_same [OF assms(2,3)] by (simp add: tb_tiers_def)
  have "redo_fresh (d, i) r = redo_fresh (tb_tiers t) r" for r
    by (simp add: redo_fresh_def tb_tiers_def dl_same_views(3) [OF assms(2)] vi_same_views(2) [OF assms(3)] dl_same_fields(5) [OF assms(2)])
  then show ?thesis using assms(1) v by (simp add: staged_set_ok_def tb_tiers_def)
qed

lemma statement_cases:
  assumes inv: "table_inv t" and st: "statement enabled t (r, l, d, i)"
  obtains (refused) e where "r = Inl e" "dl_same (tb_delta t) d" "vi_same (tb_index t) i" "last_ok t l"
  | (staged) now redos where "r = Inr (now, redos)" "dl_same (tb_delta t) d" "vi_same (tb_index t) i" "last_ok t l"
      "staged_set_ok (retier t (tb_last t) (d, i)) l redos" "redo_room (d, i) redos"
proof -
  let ?lk = "SealedVersions_versions_for (tb_sealed t)"
  have finish: thesis
    if w: "vt_lift (stamp_and_resolve key now k ?lk (tb_last t, tb_tiers t)) = (r, l, d, i)"
      and k: "\<And>q d0 i0. dl_same (tb_delta t) d0 \<Longrightarrow> vi_same (tb_index t) i0 \<Longrightarrow> high_water (tb_last t) \<le> now \<Longrightarrow> now < SYSTEM_TIME_OPEN \<Longrightarrow>
        (\<And>p. q = Some p \<longleftrightarrow> p \<in> set (tb_versions t) \<and> v_business_key p = key \<and> vi_abs (tb_index t) (vkey p) = None) \<Longrightarrow>
        (\<exists>e. k q (Some now, d0, i0) = (Inl e, Some now, d0, i0)) \<or>
        (\<exists>redos. k q (Some now, d0, i0) = (Inr (now, redos), Some now, d0, i0) \<and> staged_set_ok t (Some now) redos \<and> redo_room (tb_tiers t) redos)"
    for key now and k :: "version option \<Rightarrow> writer \<Rightarrow> (systime_error + i64 \<times> redo list) \<times> writer"
  proof -
    obtain r0 where r0: "stamp_and_resolve key now k ?lk (tb_last t, tb_tiers t) = (r0, l, d, i)" "r = map_err VtSysTime r0"
      using w by (cases "stamp_and_resolve key now k ?lk (tb_last t, tb_tiers t)") (simp add: vt_lift_def)
    from inv r0(1) show thesis
    proof (cases rule: resolve_cases)
      case (failed e)
      with r0(2) show thesis by (intro refused [of "VtSysTime e"]) simp_all
    next
      case (resolved q d0 i0)
      have ok: "last_ok t (Some now)" using resolved(3,4) by (simp add: last_ok_def)
      from k [OF resolved(1-5)] resolved(6) consider
          e where "r0 = Inl e" "l = Some now" "d = d0" "i = i0"
        | redos where "r0 = Inr (now, redos)" "l = Some now" "d = d0" "i = i0" "staged_set_ok t (Some now) redos" "redo_room (tb_tiers t) redos"
        by auto
      then show thesis
      proof cases
        case (1 e)
        with r0(2) resolved(1,2) ok show thesis by (intro refused [of "VtSysTime e"]) simp_all
      next
        case (2 redos)
        have "redo_room (d, i) redos"
          using 2(6) same_bytes(1) [OF resolved(1)] same_bytes(2) [OF resolved(2)] 2(3,4)
          by (simp add: redo_room_def tb_tiers_def)
        with staged_set_ok_same [OF 2(5) resolved(1,2)] 2 r0(2) resolved(1,2) ok show thesis by (intro staged [of now redos]) simp_all
      qed
    qed
  qed
  have on_prior: thesis
    if w: "vt_lift (stamp_and_resolve key now (\<lambda>q w. case q of None \<Rightarrow> (Inl KeyNotFound, w) | Some prior \<Rightarrow> (Inr (now, f prior), w))
        ?lk (tb_last t, tb_tiers t)) = (r, l, d, i)"
      and f: "\<And>p. high_water (tb_last t) \<le> now \<Longrightarrow> now < SYSTEM_TIME_OPEN \<Longrightarrow>
        p \<in> set (tb_versions t) \<Longrightarrow> v_business_key p = key \<Longrightarrow> vi_abs (tb_index t) (vkey p) = None \<Longrightarrow>
        staged_set_ok t (Some now) (f p) \<and> redo_room (tb_tiers t) (f p)"
    for key now and f :: "version \<Rightarrow> redo list"
  proof (rule finish [OF w])
    fix q d0 i0
    assume q: "\<And>p. q = Some p \<longleftrightarrow> p \<in> set (tb_versions t) \<and> v_business_key p = key \<and> vi_abs (tb_index t) (vkey p) = None"
      and n: "high_water (tb_last t) \<le> now" "now < SYSTEM_TIME_OPEN"
    show "(\<exists>e. (case q of None \<Rightarrow> (Inl KeyNotFound, Some now, d0, i0) | Some prior \<Rightarrow> (Inr (now, f prior), Some now, d0, i0))
          = (Inl e, Some now, d0, i0)) \<or>
        (\<exists>redos. (case q of None \<Rightarrow> (Inl KeyNotFound, Some now, d0, i0) | Some prior \<Rightarrow> (Inr (now, f prior), Some now, d0, i0))
          = (Inr (now, redos), Some now, d0, i0) \<and> staged_set_ok t (Some now) redos \<and> redo_room (tb_tiers t) redos)"
    proof (cases q)
      case (Some p)
      have p: "p \<in> set (tb_versions t)" "v_business_key p = key" "vi_abs (tb_index t) (vkey p) = None" using q [of p] Some by simp_all
      show ?thesis using f [OF n p] by (simp add: Some)
    qed simp
  qed
  from st show thesis
  proof (cases rule: statement.cases)
    case (insert_stmt key now seq payload prin valid txn_id)
    show thesis
    proof (cases "frame_payload enabled valid payload")
      case (Inl e)
      with insert_stmt show thesis by (intro refused [of e]) (simp_all add: vt_stage_insert_def tb_tiers_def last_ok_def)
    next
      case (Inr framed)
      have room: "redo_room (tb_tiers t) [Insert (open_version key now seq framed txn_id prin)]"
        using insert_stmt(3) redo_sizes(1) [OF Inr, of key now seq txn_id prin] by (simp add: redo_room_def stmt_room_def tb_tiers_def)
      note sio = staged_insert_ok [OF inv insert_stmt(2), of framed txn_id prin]
      show thesis
      proof (rule finish)
        show "vt_lift (stamp_and_resolve key now (\<lambda>q w. case q of Some _ \<Rightarrow> (Inl KeyExists, w)
            | None \<Rightarrow> (Inr (now, [Insert (open_version key now seq framed txn_id prin)]), w)) ?lk (tb_last t, tb_tiers t)) = (r, l, d, i)"
          using insert_stmt(1) Inr by (simp add: vt_stage_insert_def stage_shape)
      qed (use sio room in \<open>auto split: option.split\<close>)
    qed
  next
    case (update_stmt key now seq payload prin valid txn_id)
    show thesis
    proof (cases "frame_payload enabled valid payload")
      case (Inl e)
      with update_stmt show thesis by (intro refused [of e]) (simp_all add: vt_stage_update_def tb_tiers_def last_ok_def)
    next
      case (Inr framed)
      have room: "redo_room (tb_tiers t) [Close (systime_close_of key p now txn_id prin), Insert (open_version key now seq framed txn_id prin)]" for p
        using update_stmt(3) redo_sizes(1) [OF Inr, of key now seq txn_id prin] redo_sizes(2) [of key p now txn_id prin]
        by (simp add: redo_room_def stmt_room_def tb_tiers_def)
      show thesis
      proof (rule on_prior)
        show "vt_lift (stamp_and_resolve key now (\<lambda>q w. case q of None \<Rightarrow> (Inl KeyNotFound, w)
            | Some prior \<Rightarrow> (Inr (now, [Close (systime_close_of key prior now txn_id prin), Insert (open_version key now seq framed txn_id prin)]), w))
            ?lk (tb_last t, tb_tiers t)) = (r, l, d, i)"
          using update_stmt(1) Inr by (simp add: vt_stage_update_def stage_shape)
      qed (simp add: room staged_update_ok [OF inv update_stmt(2)])
    qed
  next
    case (delete_stmt key prin txn_id now)
    have room: "redo_room (tb_tiers t) [Retract (systime_close_of key p now txn_id prin)]" for p
      using delete_stmt(2) redo_sizes(2) [of key p now txn_id prin] by (simp add: redo_room_def stmt_room_def tb_tiers_def)
    show thesis
    proof (rule on_prior)
      show "vt_lift (stamp_and_resolve key now (\<lambda>q w. case q of None \<Rightarrow> (Inl KeyNotFound, w)
          | Some prior \<Rightarrow> (Inr (now, [Retract (systime_close_of key prior now txn_id prin)]), w))
          ?lk (tb_last t, tb_tiers t)) = (r, l, d, i)"
        using delete_stmt(1) by (simp add: vt_stage_delete_def stage_shape)
    qed (simp add: room staged_delete_ok [OF inv])
  qed
qed

end
