(* ===== verification/Log_Floor.thy ===== *)
theory Log_Floor
  imports Wal_Replay
begin

text \<open>
  Recovery points of a log: an offset at a record boundary splits the log into the records before it and
  those behind it. Appends and syncs keep the split, a rotation moves on to the next segment, and a
  replay from the offset yields exactly the records behind it.
\<close>

section \<open>Splitting a log at an offset\<close>

definition floor_at :: "bytes list list \<Rightarrow> log_offset \<Rightarrow> bytes list \<Rightarrow> bytes list \<Rightarrow> bool" where
  "floor_at L off P Q \<longleftrightarrow>
     (\<exists>s a b. s < length L \<and> L ! s = a @ b \<and> off = LogOffset s (length (seg_bytes a)) \<and>
        P = concat (take s L) @ a \<and> Q = b @ concat (drop (Suc s) L))"

lemma floor_atI: "s < length L \<Longrightarrow> L ! s = a @ b \<Longrightarrow> floor_at L (LogOffset s (length (seg_bytes a))) (concat (take s L) @ a) (b @ concat (drop (Suc s) L))"
  unfolding floor_at_def by blast

lemma floor_concat: "floor_at L off P Q \<Longrightarrow> concat L = P @ Q"
proof -
  assume "floor_at L off P Q"
  then obtain s a b where s: "s < length L" "L ! s = a @ b" "P = concat (take s L) @ a" "Q = b @ concat (drop (Suc s) L)"
    unfolding floor_at_def by blast
  have "concat L = concat (take s L @ L ! s # drop (Suc s) L)" using id_take_nth_drop [OF s(1)] by metis
  then show ?thesis using s by simp
qed

lemma floor_begin: "L \<noteq> [] \<Longrightarrow> floor_at L LogOffset_ZERO [] (concat L)"
  using floor_atI [of 0 L "[]" "hd L"] by (cases L) (simp_all add: LogOffset_ZERO_def seg_bytes_def)

lemma floor_end:
  assumes "L \<noteq> []"
  shows "floor_at L (LogOffset (length L - 1) (length (seg_bytes (last L)))) (concat L) []"
proof -
  have "concat (take (length L - 1) L) @ last L = concat (butlast L @ [last L])" by (simp add: butlast_conv_take)
  then have "concat (take (length L - 1) L) @ last L = concat L" using assms by simp
  then show ?thesis using floor_atI [of "length L - 1" L "last L" "[]"] assms by (simp add: last_conv_nth)
qed

lemma floor_segment:
  assumes "floor_at L off P Q"
  shows "floor_at (L @ [x]) off P (Q @ x)"
proof -
  obtain s a b where s: "s < length L" "L ! s = a @ b" "off = LogOffset s (length (seg_bytes a))"
    "P = concat (take s L) @ a" "Q = b @ concat (drop (Suc s) L)" using assms unfolding floor_at_def by blast
  then show ?thesis using floor_atI [of s "L @ [x]" a b] by (simp add: nth_append)
qed

lemma floor_record:
  assumes "floor_at L off P Q"
  shows "floor_at (butlast L @ [last L @ [p]]) off P (Q @ [p])"
proof -
  obtain s a b where s: "s < length L" "L ! s = a @ b" "off = LogOffset s (length (seg_bytes a))"
    "P = concat (take s L) @ a" "Q = b @ concat (drop (Suc s) L)" using assms unfolding floor_at_def by blast
  then have L: "L = butlast L @ [last L]" by (cases L rule: rev_cases) simp_all
  show ?thesis
  proof (cases "s = length L - 1")
    case True
    moreover have "L \<noteq> []" using s(1) by auto
    ultimately have "last L = a @ b" "take s L = butlast L" "drop (Suc s) L = []" using s(1,2) by (auto simp: butlast_conv_take last_conv_nth)
    then show ?thesis using floor_atI [of "length (butlast L)" "butlast L @ [last L @ [p]]" a "b @ [p]"] True s(3-5)
      by (simp add: nth_append)
  next
    case False
    then have lt: "s < length (butlast L)" using s(1) by simp
    then have n: "(butlast L @ [last L @ [p]]) ! s = a @ b" using s(2) by (simp add: nth_append nth_butlast)
    have t: "take s (butlast L @ [last L @ [p]]) = take s L" using lt by (simp add: butlast_conv_take)
    have "drop (Suc s) L = drop (Suc s) (butlast L) @ [last L]" by (subst L) (use lt in simp)
    then have "Q @ [p] = b @ concat (drop (Suc s) (butlast L @ [last L @ [p]]))" using s(5) lt by simp
    then show ?thesis using floor_atI [OF _ n] lt s(3,4) t by simp
  qed
qed

section \<open>The records behind a recovery point\<close>

definition log_from :: "log_offset \<Rightarrow> log_offset \<Rightarrow> bytes list \<Rightarrow> wal \<Rightarrow> bytes list \<Rightarrow> bool" where
  "log_from off fence P g ps \<longleftrightarrow> (\<exists>L. wal_holds g L \<and> floor_at L off P ps \<and> (\<exists>A B. floor_at L fence A B))"

lemma log_from_begin: "log_from LogOffset_ZERO LogOffset_ZERO [] g ps \<longleftrightarrow> log_holds g ps"
proof
  assume "log_holds g ps"
  then show "log_from LogOffset_ZERO LogOffset_ZERO [] g ps" unfolding log_holds_def log_from_def using floor_begin wal_holdsD(3) by blast
next
  assume "log_from LogOffset_ZERO LogOffset_ZERO [] g ps"
  then show "log_holds g ps" unfolding log_holds_def log_from_def using floor_concat by (metis append_Nil)
qed

interpretation floored: durable_log log_append log_tick "log_from off fence P" w_poisoned wal_room for off fence P
proof
  fix g g' ps p x assume h: "log_from off fence P g ps" "wal_room g'" "log_append p g = (Inr x, g')"
  from h(3) obtain wk where a: "wal_append p g = (Inr x, wk, g')" by (rule log_append_steps)
  from h(1) obtain L A B where L: "wal_holds g L" "floor_at L off P ps" "floor_at L fence A B" by (auto simp: log_from_def)
  have "Suc (current_segment_index g) < 2 ^ 64" using wal_room_mono [OF wal_append_index [OF a] h(2)] by (simp add: wal_room_def)
  from wal_append_grows [OF L(1) this a] show "log_from off fence P g' (ps @ [p])"
    unfolding log_from_def using floor_record [OF L(2), of p] floor_segment [OF L(2), of "[p]"] floor_record [OF L(3), of p] floor_segment [OF L(3), of "[p]"] by blast
next
  fix g g' ps p e assume h: "log_from off fence P g ps" "wal_room g'" "log_append p g = (Inl e, g')"
  from h(3) obtain wk where a: "wal_append p g = (Inl e, wk, g')" by (rule log_append_steps)
  from h(1) obtain L A B where L: "wal_holds g L" "floor_at L off P ps" "floor_at L fence A B" by (auto simp: log_from_def)
  have "Suc (current_segment_index g) < 2 ^ 64" using wal_room_mono [OF wal_append_index [OF a] h(2)] by (simp add: wal_room_def)
  from wal_append_refused [OF L(1) this a] show "w_poisoned g' \<or> log_from off fence P g' ps"
    unfolding log_from_def using L(2,3) floor_segment [OF L(2), of "[]"] floor_segment [OF L(3), of "[]"] by auto
next
  fix g g' ps n assume h: "log_from off fence P g ps" "log_tick g = (Inr n, g')"
  from h(1) obtain L A B where L: "wal_holds g L" "floor_at L off P ps" "floor_at L fence A B" by (auto simp: log_from_def)
  then have "log_holds g (concat L)" by (auto simp: log_holds_def)
  from wal_log.sync_ok [OF this h(2)] have np: "\<not> w_poisoned g'" using wal_holdsD(1) by (auto simp: log_holds_def)
  from h(2) obtain wk where "wal_tick g = (Inr n, wk, g')" by (rule log_tick_steps)
  from wal_tick_holds [OF L(1) this] np L(2,3) show "log_from off fence P g' ps" by (auto simp: log_from_def)
qed (fact wal_log.sync_err wal_log.dead_append wal_log.dead_sync wal_log.room_append wal_log.room_sync)+

lemma fence_reached:
  assumes "floor_at L fence A B"
  shows "fence \<le> LogOffset (length L - 1) (length (seg_bytes (last L)))"
proof -
  obtain s a b where s: "s < length L" "L ! s = a @ b" "fence = LogOffset s (length (seg_bytes a))" using assms unfolding floor_at_def by blast
  show ?thesis
  proof (cases "s = length L - 1")
    case True
    moreover have "L \<noteq> []" using s(1) by auto
    ultimately have "last L = a @ b" using s(1,2) by (metis last_conv_nth)
    then show ?thesis using True s(3) by (simp add: seg_bytes_def less_eq_log_offset_def)
  next
    case False
    then show ?thesis using s(1,3) by (simp add: less_eq_log_offset_def)
  qed
qed

section \<open>Replay from a recovery point\<close>

text \<open>The segments ahead of the offset: the rest of its own and the later ones.\<close>

lemma segments_from:
  assumes "k < length L" "\<And>i. i < length L \<Longrightarrow> f i = h (L ! i) @ (if i = length L - 1 then tail else [])"
  shows "map f [k..<length L] = map h (butlast (drop k L)) @ [h (last (drop k L)) @ tail]"
proof -
  have "[k..<length L] = [k..<length L - 1] @ [length L - 1]" using assms(1) by (cases "length L") simp_all
  moreover have "map f [k..<length L - 1] = map h (butlast (drop k L))"
    by (rule nth_equalityI) (auto simp: assms(2) nth_butlast)
  moreover have "last (drop k L) = L ! (length L - 1)" using assms(1) by (simp add: last_conv_nth)
  ultimately show ?thesis using assms by simp
qed

lemma replay_from_floor:
  assumes t: "wal_tail g L tail" and f: "floor_at L off P Q" and n: "Replay_new g off = (r, g1)" and ok: "rp_init_error r = None"
  obtains M where "at_cursor r g1 (map seg_bytes (butlast M) @ [seg_bytes (last M) @ tail])" "same_files g g1" "M \<noteq> []" "concat M = Q"
    "\<forall>recs \<in> set M. \<forall>p \<in> set recs. length p \<le> MAX_PAYLOAD_LEN" "rp_segments r = [0..<length L]"
proof -
  obtain s a b where s: "s < length L" "L ! s = a @ b" "off = LogOffset s (length (seg_bytes a))" "Q = b @ concat (drop (Suc s) L)"
    using f unfolding floor_at_def by blast
  from n ok obtain segs d where l: "list_segments (w_disk g) = (Inr segs, d)" and g1: "g1 = g\<lparr>w_disk := d\<rparr>"
    and r: "r = \<lparr>rp_position = off, rp_segments = segs, rp_stopped = False, rp_init_error = None\<rparr>"
    by (auto simp: Replay_new_def known_segments_def split: prod.splits sum.splits)
  note ls = list_segments_ok [OF l]
  have "md_faults (w_disk g) = [] \<longrightarrow> md_faults d = []"
    using l by (auto simp: list_segments_def disk_list_def dest: disk_check_faults split: prod.splits sum.splits)
  with ls have sf: "same_files g g1" by (auto simp: same_files_def g1)
  have segs: "segs = [0..<length L]" using ls t by (auto simp: wal_tail_def)
  then have split: "rp_segments r = [0..<s] @ s # [Suc s..<length L]" using s(1) unfolding r replay.simps by (metis less_imp_le_nat upt_add_eq_append upt_conv_Cons le0 le_add_diff_inverse)
  let ?M = "b # drop (Suc s) L"
  have content: "\<And>i. i < length L \<Longrightarrow> seg_content g i = seg_bytes (L ! i) @ (if i = length L - 1 then tail else [])"
    using t by (simp add: wal_tail_def)
  have sb: "seg_bytes (a @ b) = seg_bytes a @ seg_bytes b" by (simp add: seg_bytes_def)
  have "\<forall>i < length L. seg_present g i" using t by (simp add: wal_tail_def)
  then have pres: "\<forall>i \<in> set segs. seg_present g1 i" using same_files_view [OF sf] by (simp add: segs)
  have "at_cursor r g1 (drop (length (seg_bytes a)) (seg_content g1 s) # map (seg_content g1) [Suc s..<length L])"
    by (rule at_cursorI [OF split]) (use pres same_files_view [OF sf] content [OF s(1)] in \<open>auto simp: r s(2,3) sb segs\<close>)
  then have "at_cursor r g1 (drop (length (seg_bytes a)) (seg_content g s) # map (seg_content g) [Suc s..<length L])"
    using same_files_view [OF sf] by simp
  moreover have "drop (length (seg_bytes a)) (seg_content g s) # map (seg_content g) [Suc s..<length L] =
      map seg_bytes (butlast ?M) @ [seg_bytes (last ?M) @ tail]"
  proof (cases "s = length L - 1")
    case True
    have "seg_content g s = seg_bytes (a @ b) @ (if s = length L - 1 then tail else [])" using content [OF s(1)] unfolding s(2) .
    then have "seg_content g s = (seg_bytes a @ seg_bytes b) @ tail" unfolding sb if_P [OF True] .
    then have "drop (length (seg_bytes a)) (seg_content g s) = seg_bytes b @ tail" by simp
    moreover have "drop (Suc s) L = []" "[Suc s..<length L] = []" using True by simp_all
    ultimately show ?thesis by simp
  next
    case False
    then have ne: "drop (Suc s) L \<noteq> []" using s(1) by simp
    then have "Suc s < length L" by simp
    from segments_from [OF this content]
    have "map (seg_content g) [Suc s..<length L] = map seg_bytes (butlast (drop (Suc s) L)) @ [seg_bytes (last (drop (Suc s) L)) @ tail]" .
    moreover have "seg_content g s = seg_bytes (a @ b) @ []" using content [OF s(1)] unfolding s(2) if_not_P [OF False] .
    ultimately show ?thesis using ne by (simp add: sb)
  qed
  moreover have "\<forall>recs \<in> set ?M. \<forall>p \<in> set recs. length p \<le> MAX_PAYLOAD_LEN"
  proof -
    have "\<forall>recs \<in> set L. \<forall>p \<in> set recs. length p \<le> MAX_PAYLOAD_LEN" using t by (simp add: wal_tail_def)
    moreover have "a @ b \<in> set L" using s(1,2) by (metis nth_mem)
    ultimately show ?thesis using set_drop_subset [of "Suc s" L] by fastforce
  qed
  ultimately show thesis using that [of ?M] sf s(4) segs by (simp add: r)
qed

end
