(* ===== verification/Dml_Recovery.thy ===== *)
theory Dml_Recovery
  imports Staging Log_Floor
begin

text \<open>
  Recovery of a table from its log: the replay loop returns, it applies exactly the admitted records of
  the log in order, stops cleanly at a torn tail, and rebuilds the view their redo entries describe.
\<close>

section \<open>What recovery makes of a payload sequence\<close>

fun recover_payloads :: "committed_txns \<Rightarrow> nat \<Rightarrow> bytes list \<Rightarrow> tiers \<Rightarrow> (dml_error + nat) \<times> tiers" where
  "recover_payloads committed n [] ts = (Inr n, ts)"
| "recover_payloads committed n (p # ps) ts =
     (case split_record p of
        Inl e \<Rightarrow> (Inl e, ts)
      | Inr (txn_id, redo_bytes) \<Rightarrow>
          if (case txn_id of Some t \<Rightarrow> \<not> admits committed t | None \<Rightarrow> False) then recover_payloads committed n ps ts
          else (case decode_redo redo_bytes of
                  Inl e \<Rightarrow> (Inl e, ts)
                | Inr redos \<Rightarrow>
                    (case apply_redos redos ts of
                       (Inl e, ts1) \<Rightarrow> (Inl (DmlApply e), ts1)
                     | (Inr _, ts1) \<Rightarrow> recover_payloads committed (n + length redos) ps ts1)))"

text \<open>
  The loop on a healthy disk: it returns, with what the payload sequence gives; a damaged tail is the
  end of the log when its position is at or past the fence.
\<close>

definition recovered :: "log_offset \<Rightarrow> bytes list \<Rightarrow> replay \<Rightarrow> wal \<Rightarrow> (dml_error + nat) \<times> tiers \<Rightarrow> (dml_error + nat) \<times> tiers \<Rightarrow> bool" where
  "recovered fence cs r g ref out \<longleftrightarrow>
     (case ref of
        (Inl e, ts) \<Rightarrow> out = (Inl e, ts)
      | (Inr n, ts) \<Rightarrow>
          if snd (scan_segments cs)
          then (\<exists>cs' r' msg. at_cursor r' g cs' \<and> rp_segments r' = rp_segments r \<and> hd cs' \<noteq> [] \<and>
                  length (concat cs) = length (seg_bytes (fst (scan_segments cs))) + length (concat cs') \<and>
                  out = (if fence \<le> rp_position r' then Inr n else Inl (DmlWal (corrupt msg)), ts))
          else out = (Inr n, ts))"

lemma same_files_cursor: "same_files g g' \<Longrightarrow> at_cursor r g' cs = at_cursor r g cs"
  by (simp add: at_cursor_def same_files_view)

lemma recover_loop_spec:
  assumes "at_cursor r g cs" "md_faults (w_disk g) = []"
  shows "\<exists>out g' ts'. recover_loop fence committed n r g ts = Some (out, g', ts') \<and> same_files g g' \<and>
     recovered fence cs r g (recover_payloads committed n (fst (scan_segments cs)) ts) (out, ts')"
  using assms
proof (induction "length (concat cs)" arbitrary: r g cs n ts rule: less_induct)
  case less
  obtain res r1 g1 where rn: "read_next r g = Some (res, r1, g1)" and o: "read_outcome r g cs (res, r1, g1)"
    using read_next_spec [OF less.prems(1)] by (metis prod_cases3)
  have live: "\<not> rp_stopped r" "rp_init_error r = None" using less.prems(1) by (auto simp: at_cursor_def)
  consider (err) e where "res = Inl e" | (fin) "res = Inr None" | (hit) p where "res = Inr (Some p)"
    by (cases res) (metis option.exhaust)+
  then show ?case
  proof cases
    case err
    have nx: "replay_next r g = Some (Some (Inl e), r1\<lparr>rp_stopped := True\<rparr>, g1)" using rn live err by (simp add: replay_next_def)
    from o less.prems(2) err obtain cs' msg where e: "e = corrupt msg" and sc: "scan_segments cs = ([], True)" and sf: "same_files g g1"
      and c: "at_cursor r1 g1 cs'" "hd cs' \<noteq> []" "length (concat cs') = length (concat cs)" "rp_segments r1 = rp_segments r"
      unfolding read_outcome_def by auto
    have "recover_loop fence committed n r g ts =
        Some (if fence \<le> rp_position r1 then Inr n else Inl (DmlWal (corrupt msg)), g1, ts)"
      by (simp add: recover_loop.simps [of fence committed n r g ts] nx e corrupt_def)
    moreover have "recovered fence cs r g (recover_payloads committed n (fst (scan_segments cs)) ts)
        (if fence \<le> rp_position r1 then Inr n else Inl (DmlWal (corrupt msg)), ts)"
      using c same_files_cursor [OF sf, of r1 cs'] by (auto simp: recovered_def sc seg_bytes_def intro!: exI [of _ cs'] exI [of _ r1])
    ultimately show ?thesis using sf by blast
  next
    case fin
    then have nx: "replay_next r g = Some (None, r1, g1)" using rn live by (simp add: replay_next_def)
    from o fin show ?thesis
      by (simp add: recover_loop.simps [of fence committed n r g ts] nx read_outcome_def recovered_def)
  next
    case hit
    then have nx: "replay_next r g = Some (Some (Inr p), r1, g1)" using rn live by (simp add: replay_next_def)
    from o hit obtain cs' where sf: "same_files g g1" and c: "at_cursor r1 g1 cs'" "length (concat cs') < length (concat cs)"
      "length (concat cs) = HEADER_LEN + length p + length (concat cs')" "rp_segments r1 = rp_segments r"
      "scan_segments cs = (p # fst (scan_segments cs'), snd (scan_segments cs'))"
      unfolding read_outcome_def by auto
    have f1: "md_faults (w_disk g1) = []" using same_filesD(5) [OF sf] less.prems(2) by simp
    have total: "length (seg_bytes (fst (scan_segments cs))) = HEADER_LEN + length p + length (seg_bytes (fst (scan_segments cs')))"
      using c(5) by (simp add: seg_bytes_def)
    have up: "recovered fence cs r g ref out" if "recovered fence cs' r1 g1 ref out" for ref out
    proof -
      have "length (concat cs) = length (seg_bytes (fst (scan_segments cs))) + k \<longleftrightarrow>
          length (concat cs') = length (seg_bytes (fst (scan_segments cs'))) + k" for k
        using total c(3) by simp
      with that show ?thesis
        by (simp only: recovered_def c(4,5) snd_conv same_files_cursor [OF sf])
    qed
    have go: "\<exists>out g' ts'. recover_loop fence committed m r1 g1 ts1 = Some (out, g', ts') \<and> same_files g g' \<and>
        recovered fence cs r g (recover_payloads committed m (fst (scan_segments cs')) ts1) (out, ts')" for m ts1
      using less.hyps [OF c(2,1) f1, of m ts1] up same_files_trans [OF sf] by blast
    have stop: ?thesis if "recover_loop fence committed n r g ts = Some (Inl e, g1, ts1)"
        "recover_payloads committed n (p # fst (scan_segments cs')) ts = (Inl e, ts1)" for e ts1
      using that sf by (auto simp: recovered_def c(5))
    note unfold = recover_loop.simps [of fence committed n r g ts]
    show ?thesis
    proof (cases "split_record p")
      case (Inl e)
      then show ?thesis by (intro stop [of e ts]) (simp_all add: unfold nx)
    next
      case (Inr tb)
      obtain txn_id rb where tb: "tb = (txn_id, rb)" by (rule prod.exhaust)
      show ?thesis
      proof (cases "case txn_id of Some t \<Rightarrow> \<not> admits committed t | None \<Rightarrow> False")
        case True
        then show ?thesis using go [of n ts] by (simp add: unfold nx Inr tb c(5))
      next
        case False
        show ?thesis
        proof (cases "decode_redo rb")
          case (Inl e)
          then show ?thesis using False by (intro stop [of e ts]) (simp_all add: unfold nx Inr tb)
        next
          case d: (Inr redos)
          obtain q ts1 where q: "apply_redos redos ts = (q, ts1)" by (rule prod.exhaust)
          show ?thesis
          proof (cases q)
            case (Inl e)
            then show ?thesis using False d q by (intro stop [of "DmlApply e" ts1]) (simp_all add: unfold nx Inr tb)
          next
            case ok: (Inr u)
            then show ?thesis using False d q go [of "n + length redos" ts1] by (simp add: unfold nx Inr tb c(5))
          qed
        qed
      qed
    qed
  qed
qed

text \<open>Where the torn tail of a log begins.\<close>

definition torn_at :: "bytes list list \<Rightarrow> log_offset" where
  "torn_at L = LogOffset (length L - 1) (length (seg_bytes (last L)))"

lemma torn_position:
  assumes t: "wal_tail g L tail" and c: "at_cursor r g cs" "rp_segments r = [0..<length L]" "hd cs \<noteq> []" "length (concat cs) = length tail"
  shows "rp_position r = torn_at L"
proof -
  obtain pre seg post off where segs: "rp_segments r = pre @ seg # post" and pos: "rp_position r = LogOffset seg off"
    and off: "off \<le> length (seg_content g seg)" and cs: "cs = drop off (seg_content g seg) # map (seg_content g) post"
    using c(1) unfolding at_cursor_def by blast
  have content: "seg_content g (length L - 1) = seg_bytes (last L) @ tail" using t by (auto simp: wal_tail_def last_conv_nth)
  have lst: "last (pre @ seg # post) = length L - 1" using segs c(2) t by (simp add: wal_tail_def flip: segs)
  have "post = []"
  proof (rule ccontr)
    assume "post \<noteq> []"
    then have "length L - 1 \<in> set post" using lst by (metis last_ConsR last_appendR last_in_set list.distinct(1))
    then have "length (seg_content g (length L - 1)) \<le> length (concat (map (seg_content g) post))"
      by (simp add: length_concat member_le_sum_list)
    then show False using c(3,4) content by (simp add: cs)
  qed
  then show ?thesis using lst c(4) off content pos by (simp add: cs torn_at_def)
qed

lemma seg_bytes_concat: "concat (map seg_bytes L) = seg_bytes (concat L)"
  by (induction L) (simp_all add: seg_bytes_def)

lemma recover_replay_spec:
  assumes t: "wal_tail g L tail" "frame_split tail = None" and f: "md_faults (w_disk g) = []" and fl: "floor_at L off P Q"
  obtains g' msg where "same_files g g'" "recover_replay off fence committed g ts = Some
      (case recover_payloads committed 0 Q ts of
         (Inl e, ts1) \<Rightarrow> (Inl e, g', ts1)
       | (Inr n, ts1) \<Rightarrow> (if tail = [] \<or> fence \<le> torn_at L then Inr n else Inl (DmlWal (corrupt msg)), g', ts1))"
proof -
  obtain r g1 where n: "Replay_new g off = (r, g1)" by (rule prod.exhaust)
  obtain M where c: "at_cursor r g1 (map seg_bytes (butlast M) @ [seg_bytes (last M) @ tail])" "same_files g g1" and M: "M \<noteq> []" "concat M = Q"
      "\<forall>recs \<in> set M. \<forall>p \<in> set recs. length p \<le> MAX_PAYLOAD_LEN" and segs: "rp_segments r = [0..<length L]"
    by (rule replay_from_floor [OF t(1) fl n Replay_new_faultless [OF f n]])
  let ?cs = "map seg_bytes (butlast M) @ [seg_bytes (last M) @ tail]"
  have sc: "scan_segments ?cs = (Q, tail \<noteq> [])" using scan_log [OF M(3) t(2) M(1)] M(2) by simp
  have "concat (map seg_bytes (butlast M)) @ seg_bytes (last M) = concat (map seg_bytes (butlast M @ [last M]))" by simp
  also have "\<dots> = seg_bytes Q" using M(1,2) seg_bytes_concat [of M] by simp
  finally have "length (concat (map seg_bytes (butlast M)) @ seg_bytes (last M)) = length (seg_bytes Q)" by simp
  then have len: "length (concat ?cs) = length (seg_bytes Q) + length tail" by simp
  obtain out g' ts' where o: "recover_loop fence committed 0 r g1 ts = Some (out, g', ts')" "same_files g1 g'"
      "recovered fence ?cs r g1 (recover_payloads committed 0 Q ts) (out, ts')"
    using recover_loop_spec [OF c(1) same_filesD(5) [OF c(2) f], of fence committed 0 ts] sc by auto
  have rr: "recover_replay off fence committed g ts = Some (out, g', ts')" using n o(1) by (simp add: recover_replay_def)
  note sf = same_files_trans [OF c(2) o(2)]
  obtain q ts1 where q: "recover_payloads committed 0 Q ts = (q, ts1)" by (rule prod.exhaust)
  show thesis
  proof (cases q)
    case (Inl e)
    then show thesis using o(3) rr sf by (intro that [of g']) (simp_all add: q recovered_def)
  next
    case (Inr n)
    show thesis
    proof (cases "tail = []")
      case True
      then show thesis using o(3) rr sf Inr sc by (intro that [of g']) (simp_all add: q recovered_def)
    next
      case False
      with o(3) Inr sc obtain cs' r' msg where c': "at_cursor r' g1 cs'" "rp_segments r' = rp_segments r" "hd cs' \<noteq> []"
          "length (concat ?cs) = length (seg_bytes Q) + length (concat cs')"
          "(out, ts') = (if fence \<le> rp_position r' then Inr n else Inl (DmlWal (corrupt msg)), ts1)"
        unfolding recovered_def q by auto
      have "rp_position r' = torn_at L"
        using c' len segs same_files_cursor [OF c(2)] by (intro torn_position [OF t(1), of r' cs']) simp_all
      then show thesis using c'(5) False rr sf Inr by (intro that [of g' msg]) (simp_all add: q)
    qed
  qed
qed

section \<open>Logged records\<close>

text \<open>A record of the log: the transaction id of a two-phase leg, and its redo set.\<close>

type_synonym logged = "u64 option \<times> redo list"

definition record_bytes :: "logged \<Rightarrow> bytes" where
  "record_bytes rec = (case fst rec of
     None \<Rightarrow> redos_frame (snd rec)
   | Some t \<Rightarrow> TWO_PHASE_RECORD_TAG # u64_le t @ redos_frame (snd rec))"

definition record_ok :: "logged \<Rightarrow> bool" where
  "record_ok rec \<longleftrightarrow> snd rec \<noteq> [] \<and> list_all redo_encodable (snd rec) \<and> map redo_norm (snd rec) = snd rec"

definition vouched :: "committed_txns \<Rightarrow> logged \<Rightarrow> bool" where
  "vouched committed rec \<longleftrightarrow> (case fst rec of None \<Rightarrow> True | Some t \<Rightarrow> admits committed t)"

definition vouched_redos :: "committed_txns \<Rightarrow> logged list \<Rightarrow> redo list" where
  "vouched_redos committed recs = concat (map snd (filter (vouched committed) recs))"

lemma split_record_bytes:
  "record_ok rec \<Longrightarrow> split_record (record_bytes rec) = Inr (fst rec, redos_frame (snd rec))"
  by (cases rec; cases "fst rec") (simp_all add: record_bytes_def record_ok_def split_plain split_two_phase)

lemma group_record_bytes:
  "redos \<noteq> [] \<Longrightarrow> map redo_norm redos = redos \<Longrightarrow> group_record txn_id redos = Inr bs \<Longrightarrow>
     bs = record_bytes (txn_id, redos) \<and> record_ok (txn_id, redos)"
  by (cases txn_id) (auto simp: group_record_def record_bytes_def record_ok_def encode_redo_frame result_simps)

lemma recover_records:
  assumes "list_all record_ok recs" "tiers_ready (length (vouched_redos committed recs) + m) ts"
    "redos_admitted (vouched_redos committed recs) (view_of ts)"
  shows "\<exists>ts'. recover_payloads committed n (map record_bytes recs) ts = (Inr (n + length (vouched_redos committed recs)), ts') \<and>
     tiers_ready m ts' \<and> view_of ts' = fold redo_view (vouched_redos committed recs) (view_of ts)"
  using assms
proof (induction recs arbitrary: n ts)
  case (Cons rec recs)
  have ok: "record_ok rec" using Cons.prems(1) by simp
  note sr = split_record_bytes [OF ok]
  show ?case
  proof (cases "vouched committed rec")
    case False
    then have v: "vouched_redos committed (rec # recs) = vouched_redos committed recs" by (simp add: vouched_redos_def)
    have "recover_payloads committed n (map record_bytes (rec # recs)) ts = recover_payloads committed n (map record_bytes recs) ts"
      using False by (auto simp: sr vouched_def split: option.splits)
    with Cons.IH [of ts n] Cons.prems show ?thesis by (simp add: v)
  next
    case True
    then have v: "vouched_redos committed (rec # recs) = snd rec @ vouched_redos committed recs" by (simp add: vouched_redos_def)
    have dec: "decode_redo (redos_frame (snd rec)) = Inr (snd rec)" using ok by (simp add: record_ok_def decode_redo_frame)
    obtain ts1 where a: "apply_redos (snd rec) ts = (Inr (), ts1)" "tiers_ready (length (vouched_redos committed recs) + m) ts1"
        "view_of ts1 = fold redo_view (snd rec) (view_of ts)"
      using apply_redos_live [of "snd rec" "length (vouched_redos committed recs) + m" ts] Cons.prems(2,3) ok
      by (auto simp: v redos_admitted_append record_ok_def add.assoc)
    have "recover_payloads committed n (map record_bytes (rec # recs)) ts
        = recover_payloads committed (n + length (snd rec)) (map record_bytes recs) ts1"
      using True by (auto simp: sr dec a(1) vouched_def split: option.splits)
    with Cons.IH [of ts1 "n + length (snd rec)"] Cons.prems a(2,3) show ?thesis by (simp add: v redos_admitted_append add.assoc)
  qed
qed (simp add: vouched_redos_def)

section \<open>Termination\<close>

text \<open>Both loops return under every fault schedule, and agree where the plain one succeeds.\<close>

definition loops_agree :: "committed_txns \<Rightarrow> ((dml_error + nat) \<times> wal \<times> tiers) option \<Rightarrow> ((dml_error + nat) \<times> wal \<times> tiers) option \<Rightarrow> bool" where
  "loops_agree committed x y \<longleftrightarrow> (\<exists>a b. x = Some a \<and> y = Some b \<and> (committed = All \<and> (\<exists>n. fst a = Inr n) \<longrightarrow> b = a))"

lemma recover_loop_returns: "at_cursor r g cs \<Longrightarrow> \<exists>b. recover_loop fence committed n r g ts = Some b"
proof (induction "length (concat cs)" arbitrary: r g cs n ts rule: less_induct)
  case less
  obtain res r1 g1 where rn: "read_next r g = Some (res, r1, g1)" and o: "read_outcome r g cs (res, r1, g1)"
    using read_next_spec [OF less.prems] by (metis prod_cases3)
  have live: "\<not> rp_stopped r" "rp_init_error r = None" using less.prems by (auto simp: at_cursor_def)
  note unfold = recover_loop.simps [of fence committed n r g ts] replay_next_def
  show ?case
  proof (cases "\<exists>p. res = Inr (Some p)")
    case True
    with o obtain p cs' where c: "res = Inr (Some p)" "at_cursor r1 g1 cs'" "length (concat cs') < length (concat cs)"
      unfolding read_outcome_def by auto
    note ih = less.hyps [OF c(3,2)]
    show ?thesis using ih by (auto simp: unfold rn live c(1) split: sum.split prod.split option.split)
  next
    case False
    then show ?thesis using rn live by (cases res) (auto simp: unfold split: option.split wal_error.split)
  qed
qed

lemma replay_loops:
  "at_cursor r g cs \<Longrightarrow> loops_agree committed (dml_replay_loop n r g ts) (recover_loop fence committed n r g ts)"
proof (induction "length (concat cs)" arbitrary: r g cs n ts rule: less_induct)
  case less
  obtain b where b: "recover_loop fence committed n r g ts = Some b" using recover_loop_returns [OF less.prems] by blast
  obtain res r1 g1 where rn: "read_next r g = Some (res, r1, g1)" and o: "read_outcome r g cs (res, r1, g1)"
    using read_next_spec [OF less.prems] by (metis prod_cases3)
  have live: "\<not> rp_stopped r" "rp_init_error r = None" using less.prems by (auto simp: at_cursor_def)
  note unfold = dml_replay_loop.simps [of n r g ts] recover_loop.simps [of fence committed n r g ts] replay_next_def
  show ?case
  proof (cases "\<exists>p. res = Inr (Some p)")
    case True
    with o obtain p cs' where c: "res = Inr (Some p)" "at_cursor r1 g1 cs'" "length (concat cs') < length (concat cs)"
      unfolding read_outcome_def by auto
    have stop: "loops_agree committed (Some (Inl e, g2, ts2)) (Some b)" for e g2 ts2 by (simp add: loops_agree_def)
    show ?thesis
    proof (cases "result_bind (split_record p) (\<lambda>q. decode_redo (snd q))")
      case (Inl e)
      then have "dml_replay_loop n r g ts = Some (Inl e, g1, ts)" by (simp add: unfold rn live c(1))
      then show ?thesis using stop b by simp
    next
      case (Inr redos)
      then obtain txn_id rb where sp: "split_record p = Inr (txn_id, rb)" "decode_redo rb = Inr redos" by (auto simp: result_simps)
      obtain q ts1 where q: "apply_redos redos ts = (q, ts1)" by (rule prod.exhaust)
      show ?thesis
      proof (cases q)
        case (Inl e)
        then have "dml_replay_loop n r g ts = Some (Inl (DmlApply e), g1, ts1)" using Inr q by (simp add: unfold rn live c(1))
        then show ?thesis using stop b by simp
      next
        case ok: (Inr u)
        have d: "dml_replay_loop n r g ts = dml_replay_loop (n + length redos) r1 g1 ts1" using Inr q ok by (simp add: unfold rn live c(1))
        note ih = less.hyps [OF c(3,2), of "n + length redos" ts1]
        show ?thesis
        proof (cases "committed = All")
          case True
          then have "recover_loop fence committed n r g ts = recover_loop fence committed (n + length redos) r1 g1 ts1"
            using sp q ok by (simp add: recover_loop.simps [of fence All n r g ts] replay_next_def rn live c(1) admits_def split: option.split)
          with ih d show ?thesis by simp
        next
          case False
          then show ?thesis using ih d b unfolding loops_agree_def by metis
        qed
      qed
    qed
  next
    case False
    then show ?thesis using rn live b by (cases res) (auto simp: unfold loops_agree_def split: option.splits)
  qed
qed

text \<open>
  C17. Replay always comes back. From the start of any log whose segments hold whole records, but for
  damaged bytes at the end of the last one, with any fault schedule on its disk, whatever
  the records decode to and however the tiers refuse them, both replay loops return; and where the plain
  replay of an intact log succeeds, crash recovery that admits every transaction returns the same count,
  log and tiers, for every fence.
\<close>

theorem replay_terminates:
  assumes "wal_tail g L tail"
  shows "\<exists>a b. dml_replay Checkpoint_BEGIN g ts = Some a \<and> recover_replay Checkpoint_BEGIN fence committed g ts = Some b \<and>
     (committed = All \<and> (\<exists>n. fst a = Inr n) \<longrightarrow> b = a)"
proof -
  obtain r g1 where n: "Replay_new g Checkpoint_BEGIN = (r, g1)" by (rule prod.exhaust)
  have "loops_agree committed (dml_replay_loop 0 r g1 ts) (recover_loop fence committed 0 r g1 ts)"
  proof (cases "rp_init_error r")
    case None
    from replay_loops [OF replay_from_begin(1) [OF assms n None]] show ?thesis .
  next
    case (Some e)
    then show ?thesis using Replay_new_live [OF n]
      by (auto simp: loops_agree_def dml_replay_loop.simps [of 0 r g1 ts] recover_loop.simps [of fence committed 0 r g1 ts] replay_next_def)
  qed
  then show ?thesis by (simp add: n dml_replay_def recover_replay_def loops_agree_def)
qed

theorem replay_terminates_witness:
  "\<exists>a b. dml_replay Checkpoint_BEGIN torn_wal (tb_tiers new_table) = Some a \<and>
     recover_replay Checkpoint_BEGIN (LogOffset 0 9) (Only {}) torn_wal (tb_tiers new_table) = Some b"
proof -
  have t: "wal_tail torn_wal [[[1]]] (take 5 (record_encode [2, 3] []))"
    using wal_name_roundtrip [of 0]
    by (simp add: wal_tail_def torn_wal_def fresh_wal_def seg_present_def seg_content_def seg_bytes_def
        wal_segment_list_def map_filter_simps MAX_PAYLOAD_LEN_def)
  from replay_terminates [OF t] show ?thesis by blast
qed

end
