(* ===== verification/Dml_Steps.thy ===== *)
theory Dml_Steps
  imports Dml_Recovery
begin

text \<open>
  Any sequence of DML calls on one table, as a step relation: writes in auto-commit mode, groups with
  their commits, two-phase commits and aborts, and bulk groups with their chunks; disk faults may strike
  anywhere but while an already logged record is applied. Along every run the log holds exactly the redo
  sets of what the tiers show, so recovery from the log rebuilds the tiers.
\<close>

section \<open>Byte counters\<close>

definition exact :: "tiers \<Rightarrow> bool" where
  "exact ts \<longleftrightarrow> mt_exact (dl_mem (fst ts)) \<and> vi_byte_size (snd ts) = mem_bytes (vi_mem (snd ts))"

lemma exact_insert:
  assumes "delta_inv d" "mt_exact (dl_mem d)" "mt_bytes (dl_mem d) + Version_encoded_size v < 2 ^ 64"
    "delta_insert_inner v allow d = (Inr (), d')"
  shows "mt_exact (dl_mem d') \<and> mt_bytes (dl_mem d') \<le> mt_bytes (dl_mem d) + Version_encoded_size v"
proof -
  from assms(1,4) obtain s2 where a: "d' = s2\<lparr>dl_mem := MemTier_insert v (dl_mem s2)\<rparr>" "delta_inv s2" "s2 = d \<or> dl_mem s2 = MemTier_new"
    by (cases rule: delta_insert_inner_cases) auto
  have s2: "mt_inv (dl_mem s2)" "mt_exact (dl_mem s2)" "mt_bytes (dl_mem s2) \<le> mt_bytes (dl_mem d)"
    using a(2,3) assms(2) by (auto simp: delta_inv_def mt_exact_def mt_bytes_def)
  with assms(3) mt_exact_insert [OF s2(1,2)] MemTier_insert_bytes(1) [OF s2(1), of v] a(1) show ?thesis by force
qed

lemma exact_close:
  assumes "vi_inv i" "vi_byte_size i = mem_bytes (vi_mem i)" "mem_bytes (vi_mem i) + Close_encoded_size c < 2 ^ 64"
    "insert_close_inner c allow i = (Inr (), i')"
  shows "vi_byte_size i' = mem_bytes (vi_mem i') \<and> mem_bytes (vi_mem i') \<le> mem_bytes (vi_mem i) + Close_encoded_size c"
  using assms(1,4)
proof (cases rule: insert_close_inner_cases)
  case idempotent
  then show ?thesis using assms(2) by (simp add: vi_same_fields)
next
  case (added s2)
  have s2: "vi_byte_size s2 = mem_bytes (vi_mem s2)" "mem_bytes (vi_mem s2) \<le> mem_bytes (vi_mem i)"
    using added(4,7) assms(2) by (auto simp: vi_inv_def mem_bytes_def)
  have "vi_abs s2 (close_target c) = None" using added(2,5) by simp
  then have "bt_get (vi_mem s2) (close_target c) = None" "bt_inv (vi_mem s2)"
    using added(4) by (simp_all add: vi_inv_def vi_abs_None)
  then have "mem_bytes (vi_mem i') = mem_bytes (vi_mem s2) + Close_encoded_size c"
    using mem_bytes_insert [of "vi_mem s2" "close_target c" "close_interval c"] by (simp add: added(3) vi_add_def)
  moreover have "vi_byte_size i' = u64_saturating_add (vi_byte_size s2) (Close_encoded_size c)" by (simp add: added(3) vi_add_def)
  ultimately show ?thesis using s2 assms(3) by (simp add: u64_saturating_add_def)
qed simp_all

lemma exact_redo:
  assumes "tiers_inv ts" "exact ts" "mt_bytes (dl_mem (fst ts)) + redo_version_bytes r < 2 ^ 64"
    "mem_bytes (vi_mem (snd ts)) + redo_close_bytes r < 2 ^ 64" "apply_redo r ts = (Inr (), ts')"
  shows "exact ts' \<and> mt_bytes (dl_mem (fst ts')) \<le> mt_bytes (dl_mem (fst ts)) + redo_version_bytes r \<and>
    mem_bytes (vi_mem (snd ts')) \<le> mem_bytes (vi_mem (snd ts)) + redo_close_bytes r"
proof -
  obtain d i d' i' where ts: "ts = (d, i)" "ts' = (d', i')" by (metis prod.exhaust)
  have inv: "delta_inv d" "mt_exact (dl_mem d)" "vi_inv i" "vi_byte_size i = mem_bytes (vi_mem i)"
    using assms(1,2) by (simp_all add: ts tiers_inv_def exact_def)
  have mem: "dl_mem (stage_retraction c d) = dl_mem d" for c by (simp add: stage_retraction_def)
  show ?thesis
  proof (cases r)
    case (Insert v)
    then have "delta_insert_inner v True d = (Inr (), d')" "i' = i"
      using assms(5) by (auto simp: ts apply_redo_def delta_insert_def split: sum.splits prod.splits)
    with exact_insert [OF inv(1,2)] assms(3) inv(4) Insert show ?thesis by (simp add: ts exact_def)
  next
    case (Close c)
    then have "insert_close_inner c True i = (Inr (), i')" "d' = d"
      using assms(5) by (auto simp: ts apply_redo_def insert_close_def split: sum.splits prod.splits)
    with exact_close [OF inv(3,4)] assms(4) inv(2) Close show ?thesis by (simp add: ts exact_def)
  next
    case (Retract c)
    then have "insert_close_inner c True i = (Inr (), i')" "d' = stage_retraction c d"
      using assms(5) by (auto simp: ts apply_redo_def insert_close_def split: sum.splits prod.splits)
    with exact_close [OF inv(3,4)] assms(4) inv(2) mem [of c] Retract show ?thesis by (simp add: ts exact_def)
  qed
qed

text \<open>Applying a redo set with spilling: view, invariant and counters.\<close>

lemma apply_redos_ok:
  assumes "tiers_inv ts" "exact ts" "redos_admitted rs (view_of ts)" "redo_room ts rs" "apply_redos rs ts = (Inr (), ts')"
  shows "tiers_inv ts' \<and> exact ts' \<and> view_of ts' = fold redo_view rs (view_of ts)"
  using assms
proof (induction rs arbitrary: ts)
  case (Cons r rs)
  then obtain ts1 where s: "apply_redo r ts = (Inr (), ts1)" "apply_redos rs ts1 = (Inr (), ts')"
    by (cases "apply_redo r ts") (auto simp: apply_redos_def split: sum.splits)
  have r: "redo_admitted r (view_of ts)" using Cons.prems(3) by simp
  note v = spilling.step_ok [OF Cons.prems(1) r s(1)]
  note e = exact_redo [OF Cons.prems(1,2) _ _ s(1)]
  have room: "mt_bytes (dl_mem (fst ts)) + redo_version_bytes r < 2 ^ 64" "mem_bytes (vi_mem (snd ts)) + redo_close_bytes r < 2 ^ 64"
    using Cons.prems(4) by (auto simp: redo_room_def)
  have "redo_room ts1 rs" using Cons.prems(4) e [OF room] by (auto simp: redo_room_def)
  with Cons.IH [of ts1] v e [OF room] Cons.prems(3) s(2) show ?case by simp
qed (simp add: apply_redos_def)

section \<open>Steps\<close>

definition dml_buffer :: "dml_writer \<Rightarrow> redo list" where
  "dml_buffer w = (case dw_group w of None \<Rightarrow> [] | Some buffer \<Rightarrow> buffer)"

definition apply_failed :: "dml_error + 'a \<Rightarrow> bool" where
  "apply_failed r \<longleftrightarrow> (case r of Inl (DmlApply e) \<Rightarrow> True | _ \<Rightarrow> False)"

text \<open>
  The calls a session makes, on a table with the sealed versions of \<open>t0\<close>. A statement that fails inside
  a group while its entries are applied is followed by the group's abort; a bulk group is left through
  \<open>end_bulk_group\<close> with its buffer logged. Three outcomes end a run, since after them the live tiers and
  the log part: an auto-commit write whose record was logged and then failed to apply, a bulk chunk whose
  append or sync failed or whose entry failed to apply, and the abort of a bulk group, which drops the staged rows of the whole tier.
\<close>

inductive dml_step :: "table \<Rightarrow> dml_writer \<times> tiers \<Rightarrow> dml_writer \<times> tiers \<Rightarrow> bool" for t0 where
  wrote: "statement (dw_valid_time w) (retier t0 (dw_last w) ts) staged \<Longrightarrow> dml_run staged w = (res, w', ts') \<Longrightarrow>
     \<not> apply_failed res \<Longrightarrow> wal_room (dw_wal w') \<Longrightarrow> dml_step t0 (w, ts) (w', ts')"
| failed_in_group: "statement (dw_valid_time w) (retier t0 (dw_last w) ts) staged \<Longrightarrow> dml_run staged w = (res, w', ts') \<Longrightarrow>
     apply_failed res \<Longrightarrow> dw_group w \<noteq> None \<Longrightarrow> \<not> dw_group_bulk w \<Longrightarrow> dml_step t0 (w, ts) (abort_group w' ts')"
| began: "dw_group w = None \<Longrightarrow> dml_step t0 (w, ts) (begin_group w, ts)"
| committed: "\<not> dw_group_bulk w \<Longrightarrow> finish_group txn_id w ts = (res, w', ts') \<Longrightarrow> wal_room (dw_wal w') \<Longrightarrow> dml_step t0 (w, ts) (w', ts')"
| aborted: "\<not> dw_group_bulk w \<Longrightarrow> dml_step t0 (w, ts) (abort_group w ts)"
| began_bulk: "dw_group w = None \<Longrightarrow> dml_step t0 (w, ts) (begin_bulk_group w, ts)"
| chunk: "dw_group_bulk w \<Longrightarrow> commit_bulk_chunk txn_id w = Some (Inr off, w') \<Longrightarrow> wal_room (dw_wal w') \<Longrightarrow> dml_step t0 (w, ts) (w', ts)"
| ended_bulk: "dw_group_bulk w \<Longrightarrow> dw_group w = Some [] \<Longrightarrow> dml_step t0 (w, ts) (end_bulk_group w, ts)"

section \<open>The invariant\<close>

text \<open>The tiers before the open group, and that undoing its buffer leads back to them.\<close>

definition undoable :: "table \<Rightarrow> i64 option \<Rightarrow> tiers \<Rightarrow> redo list \<Rightarrow> tiers \<Rightarrow> bool" where
  "undoable t0 l base buf ts \<longleftrightarrow> table_inv (retier t0 l base) \<and> exact base \<and> (\<forall>r \<in> set buf. redo_fresh base r) \<and>
     differs base (\<Union> (redo_versions ` set buf)) (\<Union> (redo_closes ` set buf)) (\<Union> (redo_retractions ` set buf)) ts"

definition live :: "table \<Rightarrow> tier_view \<Rightarrow> redo list \<Rightarrow> dml_writer \<Rightarrow> tiers \<Rightarrow> bool" where
  "live t0 V0 rs w ts \<longleftrightarrow> table_inv (retier t0 (dw_last w) ts) \<and> exact ts \<and>
     map redo_norm (dml_buffer w) = dml_buffer w \<and> redos_admitted (rs @ dml_buffer w) V0 \<and>
     view_of ts = fold redo_view (rs @ dml_buffer w) V0 \<and>
     (\<not> dw_group_bulk w \<longrightarrow> (\<exists>base. view_of base = fold redo_view rs V0 \<and> undoable t0 (dw_last w) base (dml_buffer w) ts))"

text \<open>\<open>H\<close> says which records the log holds: all of it, or those behind a recovery point.\<close>

definition dml_inv :: "(wal \<Rightarrow> bytes list \<Rightarrow> bool) \<Rightarrow> table \<Rightarrow> tier_view \<Rightarrow> dml_writer \<times> tiers \<Rightarrow> bool" where
  "dml_inv H t0 V0 s \<longleftrightarrow> w_poisoned (dw_wal (fst s)) \<or>
     (\<exists>recs. H (dw_wal (fst s)) (map record_bytes recs) \<and> list_all record_ok recs \<and>
        live t0 V0 (vouched_redos All recs) (fst s) (snd s))"

lemma table_inv_tiers: "table_inv (retier t0 l ts) \<Longrightarrow> tiers_inv ts"
  by (simp add: table_inv_def tiers_inv_def)

lemma undoable_refl:
  assumes "table_inv (retier t0 l ts)" "exact ts"
  shows "undoable t0 l ts [] ts"
  using assms differs_refl [of "fst ts" "snd ts"] by (simp add: undoable_def table_inv_def exact_def)

lemma undoable_undo:
  assumes "undoable t0 l base buf ts"
  shows "table_inv (retier t0 l (undo_redos buf ts))" "exact (undo_redos buf ts)" "view_of (undo_redos buf ts) = view_of base"
proof -
  obtain d i where b: "base = (d, i)" by (rule prod.exhaust)
  obtain d2 i2 where u: "undo_redos buf ts = (d2, i2)" by (rule prod.exhaust)
  have inv: "table_inv (retier t0 l (d, i))" "delta_inv d" "mt_exact (dl_mem d)" "vi_inv i" "vi_byte_size i = mem_bytes (vi_mem i)" "mt_inv (dl_mem d)"
    using assms by (auto simp: undoable_def b table_inv_def exact_def delta_inv_def)
  have "differs (d, i) {} {} {} (undo_redos buf ts)"
    using undo_all_differs [of d i "\<Union> (redo_versions ` set buf)" "\<Union> (redo_closes ` set buf)" "\<Union> (redo_retractions ` set buf)" ts "rev buf"]
      assms inv(6) by (simp add: undoable_def undo_redos_def b)
  from differs_empty [OF this [unfolded u] inv(2-5)] have e: "d2 = d" "vi_same i i2" by auto
  then show "view_of (undo_redos buf ts) = view_of base" using view_of_same [of d d i i2] by (simp add: u b)
  show "exact (undo_redos buf ts)" using e inv(3,5) by (simp add: u exact_def vi_same_fields)
  show "table_inv (retier t0 l (undo_redos buf ts))" using table_inv_moved(1) [OF inv(1), of d i2 l] e by (simp add: u)
qed

text \<open>Reads move only the fault schedule of the disks; a stamp moves only the clock mark.\<close>

lemma differs_moved:
  assumes "differs base V C R ts" "dl_same (fst ts) d" "vi_same (snd ts) i"
  obtains b where "dl_same (fst base) b" "differs (b, snd base) V C R (d, i)"
proof -
  obtain t m where f: "fst ts = (fst base)\<lparr>dl_mem := t, dl_retractions := m\<rparr>" "mt_inv t" "mt_exact t" "bt_inv m"
      "\<forall>k. k \<notin> V \<longrightarrow> mt_abs t k = mt_abs (dl_mem (fst base)) k" "\<forall>k. k \<notin> R \<longrightarrow> bt_get m k = bt_get (dl_retractions (fst base)) k"
    using assms(1) unfolding differs_def by blast
  obtain dk mm where g: "disk_same (vi_disk (snd base)) dk" "snd ts = (snd base)\<lparr>vi_disk := dk, vi_mem := mm, vi_byte_size := mem_bytes mm\<rparr>"
      "vi_inv (snd ts)" "\<forall>k. k \<notin> C \<longrightarrow> bt_get mm k = bt_get (vi_mem (snd base)) k"
    using assms(1) unfolding differs_def by blast
  obtain d1 where d1: "disk_same (dl_disk (fst ts)) d1" "d = (fst ts)\<lparr>dl_disk := d1\<rparr>" using assms(2) by (auto simp: dl_same_def)
  obtain d2 where d2: "disk_same (vi_disk (snd ts)) d2" "i = (snd ts)\<lparr>vi_disk := d2\<rparr>" using assms(3) by (auto simp: vi_same_def)
  let ?b = "(fst base)\<lparr>dl_disk := d1\<rparr>"
  have "dl_same (fst base) ?b" using d1(1) f(1) by (auto simp: dl_same_def)
  moreover have "d = ?b\<lparr>dl_mem := t, dl_retractions := m\<rparr>" by (simp add: d1(2) f(1))
  moreover have "i = (snd base)\<lparr>vi_disk := d2, vi_mem := mm, vi_byte_size := mem_bytes mm\<rparr>" by (simp add: d2(2) g(2))
  moreover have "disk_same (vi_disk (snd base)) d2" using g(1,2) d2(1) by (simp add: disk_same_def)
  moreover have "vi_inv i" using g(3) vi_same_views(3) [OF assms(3)] by simp
  ultimately have "dl_same (fst base) ?b" "differs (?b, snd base) V C R (d, i)"
    using f g unfolding differs_def by (auto intro!: exI [of _ t] exI [of _ m] exI [of _ d2] exI [of _ mm])
  then show thesis by (rule that)
qed

lemma differs_mono:
  assumes "differs base V C R ts" "V \<subseteq> V'" "C \<subseteq> C'" "R \<subseteq> R'"
  shows "differs base V' C' R' ts"
proof -
  obtain t m where f: "fst ts = (fst base)\<lparr>dl_mem := t, dl_retractions := m\<rparr>" "mt_inv t" "mt_exact t" "bt_inv m"
      "\<forall>k. k \<notin> V \<longrightarrow> mt_abs t k = mt_abs (dl_mem (fst base)) k" "\<forall>k. k \<notin> R \<longrightarrow> bt_get m k = bt_get (dl_retractions (fst base)) k"
    using assms(1) unfolding differs_def by blast
  obtain dk mm where g: "disk_same (vi_disk (snd base)) dk" "snd ts = (snd base)\<lparr>vi_disk := dk, vi_mem := mm, vi_byte_size := mem_bytes mm\<rparr>"
      "vi_inv (snd ts)" "\<forall>k. k \<notin> C \<longrightarrow> bt_get mm k = bt_get (vi_mem (snd base)) k"
    using assms(1) unfolding differs_def by blast
  have "\<forall>k. k \<notin> V' \<longrightarrow> mt_abs t k = mt_abs (dl_mem (fst base)) k" "\<forall>k. k \<notin> R' \<longrightarrow> bt_get m k = bt_get (dl_retractions (fst base)) k"
    "\<forall>k. k \<notin> C' \<longrightarrow> bt_get mm k = bt_get (vi_mem (snd base)) k"
    using f(5,6) g(4) assms(2-4) by blast+
  with f(1-4) g(1-3) show ?thesis unfolding differs_def by blast
qed

lemma redo_fresh_same: "dl_same d d' \<Longrightarrow> redo_fresh (d', i) r = redo_fresh (d, i) r"
  by (simp add: redo_fresh_def dl_same_views(3) [of d d'] dl_same_fields(5) [of d d'])

lemma live_moved:
  assumes lv: "live t0 V0 rs w ts" and sm: "dl_same (fst ts) d" "vi_same (snd ts) i" and l: "last_ok (retier t0 (dw_last w) ts) l"
  shows "live t0 V0 rs (w\<lparr>dw_last := l\<rparr>) (d, i)"
proof -
  obtain n where l': "l = dw_last w \<or> l = Some n \<and> high_water (dw_last w) \<le> n \<and> n < SYSTEM_TIME_OPEN"
    using l by (auto simp: last_ok_def)
  have moved: "table_inv (retier t0 l (d', i'))"
    if "table_inv (retier t0 (dw_last w) us)" "dl_same (fst us) d'" "vi_same (snd us) i'" for us d' i'
    using table_inv_moved(1) [OF that(1), of d' i' l n] that(2,3) l' by simp
  have ti: "table_inv (retier t0 l (d, i))" using moved [OF _ sm] lv by (simp add: live_def)
  have ex: "exact (d, i)" using lv sm by (simp add: live_def exact_def dl_same_fields(1) [of "fst ts" d] vi_same_fields [of "snd ts" i])
  have vw: "view_of (d, i) = view_of ts" using view_of_same [OF sm] by simp
  have "\<exists>base. view_of base = fold redo_view rs V0 \<and> undoable t0 l base (dml_buffer w) (d, i)" if nb: "\<not> dw_group_bulk w"
  proof -
    obtain base where b: "view_of base = fold redo_view rs V0" "undoable t0 (dw_last w) base (dml_buffer w) ts"
      using lv nb unfolding live_def by blast
    obtain b' where b': "dl_same (fst base) b'"
        "differs (b', snd base) (\<Union> (redo_versions ` set (dml_buffer w))) (\<Union> (redo_closes ` set (dml_buffer w)))
          (\<Union> (redo_retractions ` set (dml_buffer w))) (d, i)"
      using differs_moved [OF _ sm] b(2) unfolding undoable_def by blast
    have "view_of (b', snd base) = fold redo_view rs V0" using view_of_same [OF b'(1) vi_same_refl, of "snd base"] b(1) by simp
    moreover have "table_inv (retier t0 l (b', snd base))" using b(2) moved [OF _ b'(1) vi_same_refl] by (simp add: undoable_def)
    moreover have "exact (b', snd base)" using b(2) dl_same_fields(1) [OF b'(1)] by (simp add: undoable_def exact_def)
    moreover have "\<forall>r \<in> set (dml_buffer w). redo_fresh (b', snd base) r"
      using b(2) redo_fresh_same [OF b'(1)] by (simp add: undoable_def)
    ultimately show ?thesis using b'(2) unfolding undoable_def by blast
  qed
  with ti ex vw lv show ?thesis by (simp add: live_def dml_buffer_def)
qed

text \<open>Applying a staged set: what is fresh now was fresh before the group.\<close>

lemma redo_view_mono:
  "tv_versions tv \<subseteq> tv_versions (fold redo_view rs tv)" "tv_ends (fold redo_view rs tv) k = None \<Longrightarrow> tv_ends tv k = None"
  "tv_retractions (fold redo_view rs tv) k = None \<Longrightarrow> tv_retractions tv k = None"
proof (induction rs arbitrary: tv)
  case (Cons r rs)
  case 1
  show ?case using Cons(1) [of "redo_view r tv"] by (cases r) auto
next
  case (Cons r rs)
  case 2
  show ?case using Cons(2) [of "redo_view r tv"] 2 by (cases r) (auto split: if_splits)
next
  case (Cons r rs)
  case 3
  show ?case using Cons(3) [of "redo_view r tv"] 3 by (cases r) (auto split: if_splits)
qed simp_all

lemma redo_fresh_before:
  assumes "redo_fresh ts r" "view_of ts = fold redo_view rs (view_of base)"
  shows "redo_fresh base r"
proof -
  note m = redo_view_mono [where tv = "view_of base" and rs = rs, folded assms(2), unfolded view_of_simps]
  show ?thesis using assms(1) m unfolding redo_fresh_def by blast
qed

lemma live_applied:
  assumes lv: "live t0 V0 rs w ts" and ok: "staged_set_ok (retier t0 (dw_last w) ts) l redos"
    and ap: "tiers_inv ts' \<and> exact ts' \<and> view_of ts' = fold redo_view redos (view_of ts)"
  shows "table_inv (retier t0 l ts')" "redos_admitted ((rs @ dml_buffer w) @ redos) V0"
    "view_of ts' = fold redo_view ((rs @ dml_buffer w) @ redos) V0" "map redo_norm (dml_buffer w @ redos) = dml_buffer w @ redos"
proof -
  have tt: "tb_tiers (retier t0 (dw_last w) ts) = ts" by (simp add: tb_tiers_def)
  have vt: "view_of ts = fold redo_view (rs @ dml_buffer w) V0" using lv by (simp add: live_def)
  show "table_inv (retier t0 l ts')" using ok ap unfolding staged_set_ok_def tt by simp
  show "redos_admitted ((rs @ dml_buffer w) @ redos) V0" using lv ok vt unfolding staged_set_ok_def tt live_def
    by (simp only: redos_admitted_append)
  show "view_of ts' = fold redo_view ((rs @ dml_buffer w) @ redos) V0" using ap vt by simp
  have "map redo_norm redos = redos" using ok by (simp add: staged_set_ok_def map_idI)
  then show "map redo_norm (dml_buffer w @ redos) = dml_buffer w @ redos" using lv by (simp add: live_def)
qed

lemma undoable_write:
  assumes lv: "live t0 V0 rs w ts" "\<not> dw_group_bulk w" and ok: "staged_set_ok (retier t0 (dw_last w) ts) l redos" "last_ok (retier t0 (dw_last w) ts) l"
    and room: "redo_room ts redos" and ap: "apply_redos_resident redos ts = (q, ts')"
  shows "\<exists>base. view_of base = fold redo_view rs V0 \<and> undoable t0 l base (dml_buffer w @ redos) ts'"
proof -
  obtain base where b: "view_of base = fold redo_view rs V0" "undoable t0 (dw_last w) base (dml_buffer w) ts"
    using lv unfolding live_def by blast
  let ?V = "\<Union> (redo_versions ` set (dml_buffer w @ redos))" and ?C = "\<Union> (redo_closes ` set (dml_buffer w @ redos))"
  let ?R = "\<Union> (redo_retractions ` set (dml_buffer w @ redos))"
  have "differs base ?V ?C ?R ts" using b(2) unfolding undoable_def by (elim conjE) (erule differs_mono; auto)
  then have df: "differs base ?V ?C ?R ts'"
    using try_all_differs [of base ?V ?C ?R "fst ts" "snd ts" redos q ts'] room ap
    by (auto simp: redo_room_def apply_redos_resident_def)
  have vb: "view_of ts = fold redo_view (dml_buffer w) (view_of base)" using lv(1) b(1) by (simp add: live_def)
  have "\<forall>r \<in> set redos. redo_fresh ts r" using ok(1) by (simp add: staged_set_ok_def tb_tiers_def)
  then have "\<forall>r \<in> set redos. redo_fresh base r" using redo_fresh_before [OF _ vb] by blast
  moreover have "table_inv (retier t0 l base)"
    using b(2) ok(2) table_inv_moved(1) [of "retier t0 (dw_last w) base" "fst base" "snd base" l]
    by (auto simp: undoable_def last_ok_def vi_same_refl)
  ultimately have "undoable t0 l base (dml_buffer w @ redos) ts'" using b(2) df unfolding undoable_def by auto
  with b(1) show ?thesis by blast
qed

section \<open>Every step keeps it\<close>

lemma live_reset:
  assumes "table_inv (retier t0 (dw_last w) ts)" "exact ts" "dml_buffer w = []" "redos_admitted rs V0" "view_of ts = fold redo_view rs V0"
  shows "live t0 V0 rs w ts"
proof -
  have "\<exists>base. view_of base = fold redo_view rs V0 \<and> undoable t0 (dw_last w) base (dml_buffer w) ts"
    using assms(3,5) undoable_refl [OF assms(1,2)] by metis
  with assms show ?thesis unfolding live_def by simp
qed

lemma live_undone:
  assumes "undoable t0 (dw_last w) base buf ts" "view_of base = fold redo_view rs V0" "redos_admitted rs V0" "dml_buffer w = []"
  shows "live t0 V0 rs w (undo_redos buf ts)"
  using undoable_undo [OF assms(1)] assms(2-4) by (intro live_reset) simp_all

lemma live_cong: "dw_last w' = dw_last w \<Longrightarrow> dml_buffer w' = dml_buffer w \<Longrightarrow> dw_group_bulk w' = dw_group_bulk w \<Longrightarrow>
    live t0 V0 rs w' ts = live t0 V0 rs w ts"
  by (simp add: live_def)

lemma live_admitted: "live t0 V0 rs w ts \<Longrightarrow> redos_admitted rs V0"
  by (simp add: live_def redos_admitted_append)

lemma undoable_exact: "undoable t0 l base buf ts \<Longrightarrow> exact ts"
  using differs_parts [of base _ _ _ "fst ts" "snd ts"] by (auto simp: undoable_def exact_def)

lemma vouched_all [simp]: "vouched_redos All (recs @ [(x, rs)]) = vouched_redos All recs @ rs" "vouched_redos All [] = []"
  by (simp_all add: vouched_redos_def vouched_def admits_def split: option.split)

lemma dml_invI:
  "H (dw_wal w) (map record_bytes recs) \<Longrightarrow> list_all record_ok recs \<Longrightarrow> live t0 V0 (vouched_redos All recs) w ts \<Longrightarrow> dml_inv H t0 V0 (w, ts)"
  by (auto simp: dml_inv_def)

lemma live_logged:
  assumes lv: "live t0 V0 rs w ts" "table_inv (retier t0 (dw_last w) ts)" and w': "dw_last w' = dw_last w" "dml_buffer w' = []"
  shows "live t0 V0 (rs @ dml_buffer w) w' ts"
  using lv w' by (intro live_reset) (simp_all add: live_def)

text \<open>A statement, staged and then logged and applied.\<close>

lemma wrote_inv:
  assumes dl: "durable_log log_append log_tick H w_poisoned wal_room"
    and h: "H (dw_wal w) (map record_bytes recs)" "list_all record_ok recs" "live t0 V0 (vouched_redos All recs) w ts"
    and ok: "staged_set_ok (retier t0 (dw_last w) ts) l redos" "last_ok (retier t0 (dw_last w) ts) l" "redo_room ts redos"
    and run: "log_and_apply now redos (w\<lparr>dw_last := l\<rparr>) ts = (res, w', ts')" "\<not> apply_failed res" "wal_room (dw_wal w')"
  shows "dml_inv H t0 V0 (w', ts')"
proof -
  have inv: "tiers_inv ts" "exact ts" using h(3) table_inv_tiers unfolding live_def by blast+
  have tt: "tb_tiers (retier t0 (dw_last w) ts) = ts" by (simp add: tb_tiers_def)
  have ad: "redos_admitted redos (view_of ts)" and ne: "redos \<noteq> []" and nm: "map redo_norm redos = redos"
    using ok(1) unfolding staged_set_ok_def tt by (simp_all add: map_idI)
  have still: "live t0 V0 (vouched_redos All recs) (w\<lparr>dw_last := l\<rparr>) ts"
    using live_moved [OF h(3) _ vi_same_refl ok(2), of "fst ts"] by simp
  note spill = apply_redos_ok [OF inv ad ok(3)]
  show ?thesis
  proof (cases "dw_group w")
    case (Some buf)
    then have buf: "dml_buffer w = buf" by (simp add: dml_buffer_def)
    let ?w = "w\<lparr>dw_last := l, dw_group := Some (buf @ redos)\<rparr>"
    have rb: "dml_buffer ?w = dml_buffer w @ redos" by (simp add: dml_buffer_def Some)
    obtain u where ap: "(if dw_group_bulk w then apply_redos redos ts else apply_redos_resident redos ts) = (Inr u, ts')" and w': "w' = ?w"
      using run(1,2) Some by (auto simp: log_and_apply_def Let_def apply_failed_def split: sum.splits prod.splits if_splits)
    have base: "\<exists>base. view_of base = fold redo_view (vouched_redos All recs) V0 \<and> undoable t0 l base (dml_buffer w @ redos) ts'"
      if "\<not> dw_group_bulk w" using that ap undoable_write [OF h(3) that ok] by simp
    have ap': "tiers_inv ts' \<and> exact ts' \<and> view_of ts' = fold redo_view redos (view_of ts)"
    proof (cases "dw_group_bulk w")
      case True
      then show ?thesis using ap spill by simp
    next
      case False
      have "exact ts'" using base [OF False] undoable_exact by blast
      then show ?thesis using False ap resident.all_ok [OF inv(1) ad] by (simp add: apply_redos_resident_def)
    qed
    note la = live_applied [OF h(3) ok(1) ap']
    have "dw_last w' = l" "dw_group_bulk w' = dw_group_bulk w" "dml_buffer w' = dml_buffer w @ redos" using w' rb by simp_all
    then have "live t0 V0 (vouched_redos All recs) w' ts'"
      using base la ap' unfolding live_def append_assoc by (simp only: simp_thms) blast
    then show ?thesis using h(1,2) w' by (intro dml_invI) simp_all
  next
    case None
    then have buf: "dml_buffer w = []" by (simp add: dml_buffer_def)
    show ?thesis
    proof (cases "encode_redo redos")
      case (Inl e)
      then have "w' = w\<lparr>dw_last := l\<rparr>" "ts' = ts" using run(1) None by (simp_all add: log_and_apply_def)
      then show ?thesis using h(1,2) still by (auto intro: dml_invI)
    next
      case (Inr rec)
      then have rec: "rec = record_bytes (None, redos)" "record_ok (None, redos)"
        using ne nm by (simp_all add: encode_redo_frame record_bytes_def record_ok_def)
      obtain a g where a: "log_append rec (dw_wal w) = (a, g)" by (rule prod.exhaust)
      have g: "dw_wal w' = g" using run(1) None Inr a by (auto simp: log_and_apply_def split: sum.splits prod.splits)
      note room = run(3) [unfolded g]
      show ?thesis
      proof (cases a)
        case (Inl e)
        then have "w' = w\<lparr>dw_last := l, dw_wal := g\<rparr>" "ts' = ts" using run(1) None Inr a by (simp_all add: log_and_apply_def)
        then show ?thesis
          using durable_log.append_err [OF dl h(1) room a [unfolded Inl]] h(2) still live_cong [of w' "w\<lparr>dw_last := l\<rparr>"]
          by (auto simp: dml_inv_def dml_buffer_def)
      next
        case ok': (Inr off)
        obtain u where ap: "apply_redos redos ts = (Inr u, ts')" and w': "w' = w\<lparr>dw_last := l, dw_wal := g\<rparr>"
          using run(1,2) None Inr a ok' by (auto simp: log_and_apply_def apply_failed_def split: sum.splits prod.splits)
        have "apply_redos redos ts = (Inr (), ts')" using ap by simp
        note sp = spill [OF this]
        have "live t0 V0 (vouched_redos All recs @ redos) w' ts'"
          using live_applied [OF h(3) ok(1) sp, unfolded buf] sp by (intro live_reset) (simp_all add: w' dml_buffer_def None)
        then show ?thesis using durable_log.append_ok [OF dl h(1) room a [unfolded ok']] h(2) rec
          by (intro dml_invI [of H w' "recs @ [(None, redos)]"]) (simp_all add: w')
      qed
    qed
  qed
qed

text \<open>The end of a group, undone or committed, and an aborted one.\<close>

lemma poisoned_inv: "w_poisoned (dw_wal w) \<Longrightarrow> dml_inv H t0 V0 (w, ts)"
  by (simp add: dml_inv_def)

lemma committed_inv:
  assumes dl: "durable_log log_append log_tick H w_poisoned wal_room"
    and h: "H (dw_wal w) (map record_bytes recs)" "list_all record_ok recs" "live t0 V0 (vouched_redos All recs) w ts"
    and nb: "\<not> dw_group_bulk w" and run: "finish_group txn_id w ts = (res, w', ts')" "wal_room (dw_wal w')"
  shows "dml_inv H t0 V0 (w', ts')"
proof -
  let ?buf = "dml_buffer w"
  obtain base where b: "view_of base = fold redo_view (vouched_redos All recs) V0" "undoable t0 (dw_last w) base ?buf ts"
    using h(3) nb unfolding live_def by blast
  have nm: "map redo_norm ?buf = ?buf" using h(3) by (simp add: live_def)
  have empty: "dml_buffer (w\<lparr>dw_group := None, dw_wal := g\<rparr>) = []" "dml_buffer (w\<lparr>dw_group := None\<rparr>) = []" for g by (simp_all add: dml_buffer_def)
  have undone: "live t0 V0 (vouched_redos All recs) (w\<lparr>dw_group := None, dw_wal := g\<rparr>) (undo_redos ?buf ts)" for g
    using b live_admitted [OF h(3)] empty by (intro live_undone [of t0 _ base ?buf ts]) simp_all
  note fg = run(1) [unfolded finish_group_def Let_def, folded dml_buffer_def]
  show ?thesis
  proof (cases "?buf = []")
    case True
    then have "w' = w\<lparr>dw_group := None\<rparr>" "ts' = ts" using fg by (simp_all add: dml_buffer_def [symmetric])
    moreover have "live t0 V0 (vouched_redos All recs) (w\<lparr>dw_group := None\<rparr>) ts"
      using h(3) True empty live_cong [of "w\<lparr>dw_group := None\<rparr>" w] by simp
    ultimately show ?thesis using h(1,2) by (auto intro: dml_invI)
  next
    case ne: False
    show ?thesis
    proof (cases "group_record txn_id ?buf")
      case (Inl e)
      then have "w' = w\<lparr>dw_group := None, dw_wal := dw_wal w\<rparr>" "ts' = undo_redos ?buf ts" using fg ne by (auto simp: append_group_record_def)
      then show ?thesis using h(1,2) undone [of "dw_wal w"] by (auto intro: dml_invI)
    next
      case (Inr rec)
      note rec = group_record_bytes [OF ne nm Inr]
      obtain a g where a: "log_append rec (dw_wal w) = (a, g)" by (rule prod.exhaust)
      show ?thesis
      proof (cases a)
        case (Inl e)
        then have w': "w' = w\<lparr>dw_group := None, dw_wal := g\<rparr>" "ts' = undo_redos ?buf ts" using fg ne Inr a by (simp_all add: append_group_record_def)
        then show ?thesis using durable_log.append_err [OF dl h(1) _ a [unfolded Inl]] run(2) h(2) undone [of g] by (auto simp: dml_inv_def)
      next
        case ok: (Inr off)
        obtain t g1 where t: "log_tick g = (t, g1)" by (rule prod.exhaust)
        have w': "w' = w\<lparr>dw_group := None, dw_wal := g1\<rparr>" "ts' = ts"
          using fg ne Inr a ok t by (auto simp: append_group_record_def split: sum.splits)
        show ?thesis
        proof (cases t)
          case (Inl e)
          then show ?thesis using wal_log.sync_err t by (simp add: w' poisoned_inv)
        next
          case (Inr n)
          have "H g1 (map record_bytes recs @ [rec])"
            using durable_log.commit_ok [OF dl h(1) a [unfolded ok] t [unfolded Inr]] run(2) by (simp add: w')
          moreover have "live t0 V0 (vouched_redos All recs @ ?buf) w' ts"
            using h(3) empty by (intro live_logged [OF h(3)]) (simp_all add: w' live_def)
          ultimately show ?thesis using rec h(2) by (intro dml_invI [of H w' "recs @ [(txn_id, ?buf)]"]) (simp_all add: w')
        qed
      qed
    qed
  qed
qed

lemma chunk_inv:
  assumes dl: "durable_log log_append log_tick H w_poisoned wal_room"
    and h: "H (dw_wal w) (map record_bytes recs)" "list_all record_ok recs" "live t0 V0 (vouched_redos All recs) w ts"
    and run: "commit_bulk_chunk txn_id w = Some (Inr off, w')" "wal_room (dw_wal w')"
  shows "dml_inv H t0 V0 (w', ts)"
proof -
  obtain buf where buf: "dw_group w = Some buf" using run(1) by (auto simp: commit_bulk_chunk_def split: option.splits)
  then have db: "dml_buffer w = buf" by (simp add: dml_buffer_def)
  show ?thesis
  proof (cases "buf = []")
    case True
    then have "w' = w\<lparr>dw_group := Some []\<rparr>" using run(1) buf by (simp add: commit_bulk_chunk_def)
    then have "dw_wal w' = dw_wal w" "live t0 V0 (vouched_redos All recs) w' ts = live t0 V0 (vouched_redos All recs) w ts"
      using True db by (simp_all add: live_def dml_buffer_def)
    with h show ?thesis by (auto intro: dml_invI)
  next
    case ne: False
    have nm: "map redo_norm buf = buf" using h(3) db by (simp add: live_def)
    obtain rec x g n g1 where s: "group_record (Some txn_id) buf = Inr rec" "log_append rec (dw_wal w) = (Inr x, g)" "log_tick g = (Inr n, g1)"
      and w': "w' = w\<lparr>dw_group := Some [], dw_wal := g1\<rparr>"
      using run(1) buf ne by (auto simp: commit_bulk_chunk_def append_group_record_def Let_def split: sum.splits prod.splits)
    note rec = group_record_bytes [OF ne nm s(1)]
    have "H g1 (map record_bytes recs @ [rec])" using durable_log.commit_ok [OF dl h(1) s(2,3)] run(2) by (simp add: w')
    moreover have "live t0 V0 (vouched_redos All recs @ buf) w' ts"
      using h(3) live_logged [OF h(3), of w'] by (simp add: w' live_def db) (simp add: dml_buffer_def)
    ultimately show ?thesis using rec h(2) by (intro dml_invI [of H w' "recs @ [(Some txn_id, buf)]"]) (simp_all add: w')
  qed
qed

lemma aborted_inv:
  assumes h: "H (dw_wal w) (map record_bytes recs)" "list_all record_ok recs" "redos_admitted (vouched_redos All recs) V0"
    and nb: "\<not> dw_group_bulk w" and b: "view_of base = fold redo_view (vouched_redos All recs) V0" "undoable t0 (dw_last w) base (dml_buffer w) ts"
  shows "dml_inv H t0 V0 (abort_group w ts)"
proof -
  let ?w = "w\<lparr>dw_group_bulk := False, dw_group := None\<rparr>"
  have "undo_redos [] ts = ts" by (simp add: undo_redos_def)
  then have "abort_group w ts = (?w, undo_redos (dml_buffer w) ts)"
    using nb by (simp add: abort_group_def Let_def dml_buffer_def split: option.split)
  moreover have "live t0 V0 (vouched_redos All recs) ?w (undo_redos (dml_buffer w) ts)"
    using b h(3) by (intro live_undone [of t0 _ base]) (simp_all add: dml_buffer_def)
  ultimately show ?thesis using h(1,2) by (simp add: dml_invI)
qed

lemma poisoned_log:
  "w_poisoned g \<Longrightarrow> log_append p g = (r, g') \<Longrightarrow> w_poisoned g'" "w_poisoned g \<Longrightarrow> log_tick g = (r', g') \<Longrightarrow> w_poisoned g'"
  using wal_log.dead_append wal_log.dead_sync by blast+

lemma poisoned_run:
  assumes "w_poisoned (dw_wal w)" "dml_run staged w = (res, w', ts')"
  shows "w_poisoned (dw_wal w')"
  using assms poisoned_log(1)
  by (fastforce simp: dml_run_def log_and_apply_def Let_def split: sum.splits prod.splits option.splits if_splits)

lemma poisoned_record:
  assumes "w_poisoned g" "append_group_record txn_id redos g = (r, g')"
  shows "w_poisoned g'"
proof (cases "group_record txn_id redos")
  case (Inr rec)
  obtain a g1 where a: "log_append rec g = (a, g1)" by (rule prod.exhaust)
  then have "g' = g1" using assms(2) Inr by (cases a) (simp_all add: append_group_record_def)
  then show ?thesis using poisoned_log(1) [OF assms(1) a] by simp
qed (use assms in \<open>simp add: append_group_record_def\<close>)

lemma poisoned_finish:
  assumes "w_poisoned (dw_wal w)" "finish_group txn_id w ts = (res, w', ts')"
  shows "w_poisoned (dw_wal w')"
proof (cases "dml_buffer w = []")
  case True
  then show ?thesis using assms by (auto simp: finish_group_def Let_def dml_buffer_def)
next
  case False
  obtain a g where a: "append_group_record txn_id (dml_buffer w) (dw_wal w) = (a, g)" by (rule prod.exhaust)
  obtain t g1 where t: "log_tick g = (t, g1)" by (rule prod.exhaust)
  have "dw_wal w' = g \<or> dw_wal w' = g1"
    using assms(2) False a t by (cases a; cases t) (auto simp: finish_group_def Let_def simp flip: dml_buffer_def)
  then show ?thesis using poisoned_record [OF assms(1) a] poisoned_log(2) [OF _ t] by auto
qed

lemma poisoned_chunk:
  assumes "w_poisoned (dw_wal w)" "commit_bulk_chunk txn_id w = Some (res, w')"
  shows "w_poisoned (dw_wal w')"
proof -
  obtain buf where buf: "dw_group w = Some buf" using assms(2) by (auto simp: commit_bulk_chunk_def split: option.splits)
  obtain a g where a: "append_group_record (Some txn_id) buf (dw_wal w) = (a, g)" by (rule prod.exhaust)
  obtain t g1 where t: "log_tick g = (t, g1)" by (rule prod.exhaust)
  have "map_option (dw_wal \<circ> snd) (commit_bulk_chunk txn_id w) \<in> {Some (dw_wal w), Some g, Some g1}"
    using buf a t by (cases "buf = []"; cases a; cases t) (simp_all add: commit_bulk_chunk_def Let_def)
  then show ?thesis using assms poisoned_record [OF assms(1) a] poisoned_log(2) [OF _ t] by auto
qed

lemma abort_wal [simp]: "dw_wal (fst (abort_group w ts)) = dw_wal w"
  by (simp add: abort_group_def Let_def split: option.split)

lemma dml_poisoned_step: "dml_step t0 s s' \<Longrightarrow> w_poisoned (dw_wal (fst s)) \<Longrightarrow> w_poisoned (dw_wal (fst s'))"
  by (cases rule: dml_step.cases)
    (auto dest: poisoned_run poisoned_finish poisoned_chunk simp: begin_group_def begin_bulk_group_def end_bulk_group_def)

text \<open>Staging reads move nothing but the fault schedules; then the statement is logged and applied.\<close>

lemma staged_run_cases:
  assumes lv: "live t0 V0 rs w ts" and st: "statement e (retier t0 (dw_last w) ts) staged" and run: "dml_run staged w = (res, w', ts')"
  obtains (refused) l d i where "w' = w\<lparr>dw_last := l\<rparr>" "ts' = (d, i)" "\<not> apply_failed res" "live t0 V0 rs (w\<lparr>dw_last := l\<rparr>) (d, i)"
  | (staged) now redos l d i where "live t0 V0 rs w (d, i)" "staged_set_ok (retier t0 (dw_last w) (d, i)) l redos"
      "last_ok (retier t0 (dw_last w) (d, i)) l" "redo_room (d, i) redos"
      "log_and_apply now redos (w\<lparr>dw_last := l\<rparr>) (d, i) = (res, w', ts')"
proof -
  obtain r l d i where s: "staged = (r, l, d, i)" by (metis prod.exhaust)
  have inv: "table_inv (retier t0 (dw_last w) ts)" using lv by (simp add: live_def)
  from inv st [unfolded s] show thesis
  proof (cases rule: statement_cases)
    case (refused x)
    have "live t0 V0 rs (w\<lparr>dw_last := l\<rparr>) (d, i)" using refused(2-4) by (intro live_moved [OF lv]) simp_all
    then show thesis using run refused(1) by (intro that(1) [of l d i]) (auto simp: s dml_run_def apply_failed_def)
  next
    case (staged now redos)
    have "last_ok (retier t0 (dw_last w) ts) (dw_last w)" by (simp add: last_ok_def)
    then have "live t0 V0 rs w (d, i)" using live_moved [OF lv, of d i "dw_last w"] staged(2,3) by simp
    then show thesis using run staged by (intro that(2) [of d i l redos now]) (auto simp: s dml_run_def last_ok_def)
  qed
qed

lemma step_inv:
  assumes dl: "durable_log log_append log_tick H w_poisoned wal_room" and st: "dml_step t0 s s'" and inv: "dml_inv H t0 V0 s"
  shows "dml_inv H t0 V0 s'"
proof -
  show ?thesis
  proof (cases "w_poisoned (dw_wal (fst s))")
    case True
    then show ?thesis using dml_poisoned_step [OF st] by (simp add: dml_inv_def)
  next
    case False
    then obtain recs where h: "H (dw_wal (fst s)) (map record_bytes recs)" "list_all record_ok recs"
        "live t0 V0 (vouched_redos All recs) (fst s) (snd s)"
      using inv unfolding dml_inv_def by blast
    from st show ?thesis
    proof cases
      case (wrote w ts staged res w' ts')
      note h = h [unfolded wrote(1) fst_conv snd_conv]
      from h(3) wrote(3,4) show ?thesis
      proof (cases rule: staged_run_cases)
        case (refused l d i)
        then show ?thesis using h(1,2) by (simp add: wrote(2) dml_invI)
      next
        case (staged now redos l d i)
        then show ?thesis unfolding wrote(2) by (rule wrote_inv [OF dl h(1,2)]) (fact wrote(5,6))+
      qed
    next
      case (failed_in_group w ts staged res w' ts')
      note h = h [unfolded failed_in_group(1) fst_conv snd_conv]
      from h(3) failed_in_group(3,4) show ?thesis
      proof (cases rule: staged_run_cases)
        case (refused l d i)
        then show ?thesis using failed_in_group(5) by simp
      next
        case (staged now redos l d i)
        obtain buf where buf: "dw_group w = Some buf" using failed_in_group(6) by blast
        obtain q where q: "apply_redos_resident redos (d, i) = (q, ts')" and w': "w' = w\<lparr>dw_last := l, dw_group := Some (buf @ redos)\<rparr>"
          using staged(5) buf failed_in_group(7) by (auto simp: log_and_apply_def Let_def split: sum.splits prod.splits)
        obtain base where b: "view_of base = fold redo_view (vouched_redos All recs) V0" "undoable t0 l base (dml_buffer w @ redos) ts'"
          using undoable_write [OF staged(1) failed_in_group(7) staged(2-4) q] by blast
        show ?thesis unfolding failed_in_group(2)
          by (rule aborted_inv [where H = H, OF _ h(2) live_admitted [OF h(3)] _ b(1)]) (use w' h(1) b(2) buf failed_in_group(7) in \<open>simp_all add: dml_buffer_def\<close>)
      qed
    next
      case (began w ts)
      have "live t0 V0 (vouched_redos All recs) (begin_group w) ts" 
        using h(3) by (intro live_reset) (simp_all add: began begin_group_def dml_buffer_def live_def)
      then show ?thesis using h(1,2) by (simp add: began(1,2) dml_invI begin_group_def)
    next
      case (committed w txn_id ts res w' ts')
      note h = h [unfolded committed(1) fst_conv snd_conv]
      show ?thesis unfolding committed(2) by (rule committed_inv [OF dl h committed(3-5)])
    next
      case (aborted w ts)
      note h = h [unfolded aborted(1) fst_conv snd_conv]
      obtain base where b: "view_of base = fold redo_view (vouched_redos All recs) V0" "undoable t0 (dw_last w) base (dml_buffer w) ts"
        using h(3) aborted(3) unfolding live_def by blast
      show ?thesis unfolding aborted(2) by (rule aborted_inv [where H = H, OF h(1,2) live_admitted [OF h(3)] aborted(3) b])
    next
      case (began_bulk w ts)
      have "live t0 V0 (vouched_redos All recs) (begin_bulk_group w) ts"
        using h(3) by (intro live_reset) (simp_all add: began_bulk begin_bulk_group_def dml_buffer_def live_def)
      then show ?thesis using h(1,2) by (simp add: began_bulk(1,2) dml_invI begin_bulk_group_def)
    next
      case (chunk w txn_id off w' ts)
      note h = h [unfolded chunk(1) fst_conv snd_conv]
      show ?thesis unfolding chunk(2) by (rule chunk_inv [OF dl h chunk(4,5)])
    next
      case (ended_bulk w ts)
      have "live t0 V0 (vouched_redos All recs) (end_bulk_group w) ts"
        using h(3) ended_bulk(4) by (intro live_reset) (simp_all add: ended_bulk(1,2) end_bulk_group_def dml_buffer_def live_def)
      then show ?thesis using h(1,2) by (simp add: ended_bulk(1,2) dml_invI end_bulk_group_def)
    qed
  qed
qed

end
