(* ===== verification/Dml_Props.thy ===== *)
theory Dml_Props
  imports Dml_Steps
begin

text \<open>
  Recovery against the runs of the write path: the recovered table is the live one with its open group
  aborted, legs of unresolved two-phase transactions are dropped whole, and damage before the fence is
  reported, never skipped.
\<close>

section \<open>Recovery\<close>

lemma wal_holds_unique:
  assumes "wal_holds g L" "wal_holds g L'"
  shows "L = L'"
proof (rule nth_equalityI)
  show len: "length L = length L'" using wal_holdsD(4) [OF assms(1)] wal_holdsD(4) [OF assms(2)] by (metis length_upt minus_nat.diff_0)
  fix i assume i: "i < length L"
  have "seg_bytes (L ! i) = seg_bytes (L' ! i)" using wal_holdsD(5) [OF assms(1), of i] wal_holdsD(5) [OF assms(2), of i] i len by auto
  moreover have "parse_frames (seg_bytes (M ! i)) = (M ! i, [])" if "wal_holds g M" "i < length M" for M
    using parse_frames_segment [of "M ! i" "[]"] wal_holdsD(10) [OF that(1) nth_mem [OF that(2)]] by (simp add: frame_split_def HEADER_LEN_def)
  ultimately show "L ! i = L' ! i" using assms i len by (metis prod.inject)
qed

lemma table_inv_view:
  assumes "table_inv (retier t0 l ts)" "tiers_inv ts'" "view_of ts' = view_of ts"
  shows "table_inv (retier t0 l ts')" "as_of (retier t0 l ts') x = as_of (retier t0 l ts) x"
proof -
  let ?t = "retier t0 l ts" and ?t' = "retier t0 l ts'"
  have v: "staged_set (fst ts') = staged_set (fst ts)" "vi_abs (snd ts') = vi_abs (snd ts)"
      "bt_get (dl_retractions (fst ts')) = bt_get (dl_retractions (fst ts))"
    using assms(3) view_of_simps [of ts] view_of_simps [of ts'] by auto
  have b: "bt_inv (dl_retractions (fst ts'))" "bt_inv (dl_retractions (fst ts))"
    using assms(1,2) by (simp_all add: tiers_inv_def table_inv_def delta_inv_def)
  have r: "dl_retractions (fst ts') = dl_retractions (fst ts)" by (rule bt_eqI [OF b]) (simp add: v(3))
  have sv: "set (tb_versions ?t') = set (tb_versions ?t)" using v(1) by (simp add: tb_versions_def staged_set_def)
  have rs: "tb_retractions ?t' = tb_retractions ?t" by (simp add: tb_retractions_def staged_retractions_def r)
  have tl: "timeline (tb_versions ?t) (tb_retractions ?t) (vi_abs (snd ts)) (high_water l)" using assms(1) by (simp add: table_inv_def)
  note tl' = timeline_set [OF sv tl]
  have "retractions_keyed (fst ts')" using assms(1) r by (simp add: table_inv_def retractions_keyed_def)
  then show "table_inv ?t'" using assms(2) tl' rs v(2) by (simp add: table_inv_def tiers_inv_def)
  show "as_of ?t' x = as_of ?t x"
    using timeline_snapshot [OF tl, of _ x] timeline_snapshot [OF tl', of _ x] sv v(2) by (auto simp: as_of_def)
qed

lemma tiers_ready_mono: "tiers_ready n ts \<Longrightarrow> m \<le> n \<Longrightarrow> tiers_ready m ts"
  by (simp add: tiers_ready_def)

lemma vouched_length: "length (vouched_redos committed recs) \<le> length (concat (map record_bytes recs))"
proof (induction recs)
  case (Cons rec recs)
  have "length rs \<le> length (redos_frame rs)" for rs
  proof (induction rs)
    case (Cons r rs)
    have "Suc 0 \<le> length (entry_frame r)" by (cases r) simp_all
    with Cons show ?case by (simp add: redos_frame_def)
  qed simp
  then have "length (snd rec) \<le> length (redos_frame (snd rec))" .
  also have "\<dots> \<le> length (record_bytes rec)" by (simp add: record_bytes_def split: option.split)
  finally show ?case using Cons by (simp add: vouched_redos_def)
qed (simp add: vouched_redos_def)

lemma recover_log:
  assumes t: "wal_tail g L tail" "frame_split tail = None" "md_faults (w_disk g) = []" and fl: "floor_at L off P (map record_bytes recs)"
    and ok: "list_all record_ok recs"
    and r: "tiers_ready (length (concat (map record_bytes recs))) ts" "redos_admitted (vouched_redos committed recs) (view_of ts)"
  shows "\<exists>q g' ts'. recover_replay off fence committed g ts = Some (q, g', ts') \<and> same_files g g' \<and> tiers_inv ts' \<and>
     view_of ts' = fold redo_view (vouched_redos committed recs) (view_of ts) \<and>
     (if tail = [] \<or> fence \<le> torn_at L then q = Inr (length (vouched_redos committed recs)) else \<exists>msg. q = Inl (DmlWal (corrupt msg)))"
proof -
  have "tiers_ready (length (vouched_redos committed recs) + 0) ts"
    using tiers_ready_mono [OF r(1)] vouched_length [of committed recs] by simp
  from recover_records [OF ok this r(2), of 0] obtain ts' where
    ts': "recover_payloads committed 0 (map record_bytes recs) ts = (Inr (length (vouched_redos committed recs)), ts')" "tiers_ready 0 ts'"
      "view_of ts' = fold redo_view (vouched_redos committed recs) (view_of ts)" by auto
  obtain g' msg where o: "same_files g g'" "recover_replay off fence committed g ts =
      Some (if tail = [] \<or> fence \<le> torn_at L then Inr (length (vouched_redos committed recs)) else Inl (DmlWal (corrupt msg)), g', ts')"
    by (rule recover_replay_spec [OF t fl, of fence committed ts]) (simp add: ts'(1))
  show ?thesis by (rule exI, rule exI, rule exI, rule conjI [OF o(2)]) (use o(1) ts'(3) tiers_ready_inv [OF ts'(2)] in auto)
qed

lemma floor_whole:
  assumes "wal_tail g L tail" "concat L = ps"
  shows "floor_at L Checkpoint_BEGIN [] ps"
  using floor_begin [of L] assms by (auto simp: wal_tail_def Checkpoint_BEGIN_def LogOffset_ZERO_def)

text \<open>
  C9. A crash loses nothing that was committed and keeps nothing that was not, along the runs of \<open>dml_step\<close>.
  Start a writer on an empty log and run any sequence of auto-commit writes, groups, two-phase commits,
  aborts of plain groups and bulk groups whose chunks are all committed, with fresh sequence numbers and
  within the size bounds \<open>stmt_room\<close> and \<open>wal_room\<close>. Any call may fail on a disk fault,
  except that no auto-commit record that is already logged and no entry of a bulk group fails to apply, and a
  statement that fails while it is applied inside a plain group is followed by the group's abort. At the
  end of such a run, the log not poisoned and no bulk group open, recovery of a fresh node from the
  segments of that log, on a disk that does not fail, returns, even when a torn frame follows the last
  record at or past the fence, and every \<open>AS OF\<close> read of the recovered table is the one of the live table
  with its open group, if any, aborted.
\<close>

theorem recovery_reproduces_live_table:
  assumes "table_inv (retier t0 None ts0)" "exact ts0" "log_holds g0 []"
    and "(dml_step t0)\<^sup>*\<^sup>* (DmlWriter_new g0 valid_time, ts0) (w, ts)" "\<not> w_poisoned (dw_wal w)" "\<not> dw_group_bulk w"
    and "wal_holds (dw_wal w) L" "wal_tail g L tail" "frame_split tail = None" "md_faults (w_disk g) = []"
    and "tail = [] \<or> fence \<le> torn_at L"
    and "tiers_ready (length (concat (concat L))) rs0" "view_of rs0 = view_of ts0"
  shows "\<exists>n g' rs. recover_replay Checkpoint_BEGIN fence All g rs0 = Some (Inr n, g', rs) \<and>
     view_of rs = view_of (snd (abort_group w ts)) \<and> table_inv (retier t0 (dw_last w) rs) \<and>
     (\<forall>x. as_of (retier t0 (dw_last w) rs) x = as_of (retier t0 (dw_last w) (snd (abort_group w ts))) x)"
proof -
  let ?V0 = "view_of ts0"
  have "live t0 ?V0 (vouched_redos All []) (DmlWriter_new g0 valid_time) ts0"
    using assms(1,2) by (intro live_reset) (simp_all add: DmlWriter_new_def dml_buffer_def)
  then have "dml_inv log_holds t0 ?V0 (DmlWriter_new g0 valid_time, ts0)"
    using assms(3) by (intro dml_invI [of log_holds _ "[]"]) (simp_all add: DmlWriter_new_def)
  then have "dml_inv log_holds t0 ?V0 (w, ts)"
    using rtranclp_induct [OF assms(4), of "dml_inv log_holds t0 ?V0"] step_inv [OF wal_log.durable_log_axioms] by blast
  then obtain recs where h: "log_holds (dw_wal w) (map record_bytes recs)" "list_all record_ok recs" "live t0 ?V0 (vouched_redos All recs) w ts"
    using assms(5) by (auto simp: dml_inv_def)
  have L: "concat L = map record_bytes recs" using h(1) assms(7) wal_holds_unique by (auto simp: log_holds_def)
  obtain n g' rs where o: "recover_replay Checkpoint_BEGIN fence All g rs0 = Some (Inr n, g', rs)" "tiers_inv rs"
      "view_of rs = fold redo_view (vouched_redos All recs) ?V0"
    using recover_log [OF assms(8-10) floor_whole [OF assms(8) L] h(2), of rs0 All fence] live_admitted [OF h(3)] assms(11-13) L by auto
  obtain base where b: "view_of base = fold redo_view (vouched_redos All recs) ?V0" "undoable t0 (dw_last w) base (dml_buffer w) ts"
    using h(3) assms(6) unfolding live_def by blast
  have ab: "snd (abort_group w ts) = undo_redos (dml_buffer w) ts"
    using assms(6) by (simp add: abort_group_def Let_def dml_buffer_def undo_redos_def split: option.split)
  have vw: "view_of rs = view_of (snd (abort_group w ts))" using undoable_undo(3) [OF b(2)] b(1) o(3) by (simp add: ab)
  have "table_inv (retier t0 (dw_last w) (snd (abort_group w ts)))" using undoable_undo(1) [OF b(2)] by (simp add: ab)
  from table_inv_view [OF this o(2) vw] o(1) vw show ?thesis by blast
qed


section \<open>Concrete instances\<close>

text \<open>One insert on a fresh table over a fresh log, as a plain record and as a two-phase leg.\<close>

definition first_record :: "u64 option \<Rightarrow> bytes" where
  "first_record txn_id = record_bytes (txn_id, [Insert first_version])"

lemma first_record_facts: "encode_redo [Insert first_version] = Inr (first_record None)" "record_ok (txn_id, [Insert first_version])"
  "length (first_record None) = 47" "length (first_record (Some 7)) = 56"
proof -
  have e: "version_encodable first_version" "unresolved first_version = first_version" using example_stageable(1) by (simp_all add: stageable_def)
  then show "encode_redo [Insert first_version] = Inr (first_record None)" "record_ok (txn_id, [Insert first_version])"
    by (simp_all add: encode_redo_frame first_record_def record_ok_def record_bytes_def)
  have "length (redos_frame [Insert first_version]) = 47" by code_simp
  then show "length (first_record None) = 47" "length (first_record (Some 7)) = 56" by (simp_all add: first_record_def record_bytes_def)
qed

definition logged_wal :: "bytes \<Rightarrow> wal" where
  "logged_wal p = snd (log_append p fresh_wal)"

lemma logged_wal:
  assumes "length p < 60"
  shows "log_append p fresh_wal = (Inr (LogOffset 0 (8 + length p)), logged_wal p)" "wal_room (logged_wal p)" "md_faults (w_disk (logged_wal p)) = []"
    "\<not> w_poisoned (logged_wal p)" "\<exists>L. wal_holds (logged_wal p) L \<and> concat L = [p]"
proof -
  show a: "log_append p fresh_wal = (Inr (LogOffset 0 (8 + length p)), logged_wal p)" and r: "wal_room (logged_wal p)"
    and "md_faults (w_disk (logged_wal p)) = []" "\<not> w_poisoned (logged_wal p)"
    using assms by (simp_all add: logged_wal_def log_append_def wal_append_def append_frame_def file_append_def faults_take_def fresh_wal_def
        disk_check_def faults_check_def wal_room_def HEADER_LEN_def MAX_PAYLOAD_LEN_def Let_def)
  have "log_holds fresh_wal []" using fresh_wal_holds unfolding log_holds_def by (metis concat.simps append_Nil)
  then show "\<exists>L. wal_holds (logged_wal p) L \<and> concat L = [p]" using wal_log.append_ok [OF _ r a, of "[]"] by (simp add: log_holds_def)
qed

lemma staged_first:
  "vt_stage_insert False (SealedVersions_versions_for []) [107] None (Some [1]) 3 8 [] (i64_of 10) (None, tb_tiers new_table)
     = (Inr (i64_of 10, [Insert first_version]), Some (i64_of 10), tb_tiers new_table)"
  by code_simp

lemma new_tiers_ready: "n \<le> 100 \<Longrightarrow> tiers_ready n (tb_tiers new_table)" "exact (tb_tiers new_table)"
  using new_table_ready new_table_inv
  by (simp_all add: tiers_ready_def tb_tiers_def table_ready_def table_inv_def new_table_def delta_over_def exact_def mt_exact_def
      mt_bytes_def empty_index_def mem_bytes_def bt_empty_def)

lemma first_applied: "apply_redos [Insert first_version] (tb_tiers new_table) = (Inr (), tb_tiers first_table)"
proof -
  have "delta_insert first_version (delta_over MemDisk_new) = (Inr (), one_delta MemDisk_new)"
    using example_stageable(1)
    by (simp add: delta_insert_def delta_insert_inner_def stageable_def version_encodable_def Let_def delta_over_def one_delta_def)
  then show ?thesis by (simp add: apply_redos_def apply_redo_def tb_tiers_def new_table_def first_table_eq)
qed

theorem recovery_reproduces_live_table_witness:
  "\<exists>w n g' rs. dml_insert (SealedVersions_versions_for []) [107] None (Some [1]) 3 8 [] (i64_of 10) (DmlWriter_new fresh_wal False) (tb_tiers new_table)
       = (Inr \<lparr>do_commit = i64_of 10, do_wal = LogOffset 0 55\<rparr>, w, tb_tiers first_table) \<and>
     recover_replay Checkpoint_BEGIN (LogOffset 0 0) All (dw_wal w) (tb_tiers new_table) = Some (Inr n, g', rs) \<and>
     as_of (retier new_table (dw_last w) rs) (i64_of 15) = as_of (retier new_table (dw_last w) (tb_tiers first_table)) (i64_of 15)"
proof -
  let ?g = "logged_wal (first_record None)" and ?start = "DmlWriter_new fresh_wal False"
  let ?w = "?start\<lparr>dw_last := Some (i64_of 10), dw_wal := ?g\<rparr>"
  note lw = logged_wal [of "first_record None", unfolded first_record_facts(3), simplified]
  have run: "dml_run (Inr (i64_of 10, [Insert first_version]), Some (i64_of 10), tb_tiers new_table) ?start
      = (Inr \<lparr>do_commit = i64_of 10, do_wal = LogOffset 0 55\<rparr>, ?w, tb_tiers first_table)"
    by (simp add: dml_run_def log_and_apply_def DmlWriter_new_def first_record_facts(1) lw(1) first_applied)
  have t: "retier new_table None (tb_tiers new_table) = new_table" by (simp add: tb_tiers_def new_table_def)
  have "statement False new_table (vt_stage_insert False (SealedVersions_versions_for (tb_sealed new_table)) [107] None (Some [1]) 3 8 [] (i64_of 10)
      (tb_last new_table, tb_tiers new_table))"
    by (rule statement.intros(1) [OF new_seq_fresh])
      (simp add: stmt_room_def new_table_def delta_over_def mt_bytes_def stmt_bytes_def empty_index_def mem_bytes_def bt_empty_def
        VERSION_HEADER_LEN_def VALID_TIME_PREFIX_LEN_def CLOSE_HEADER_LEN_def)
  then have st: "statement False new_table (Inr (i64_of 10, [Insert first_version]), Some (i64_of 10), tb_tiers new_table)"
    using staged_first by (simp add: new_table_def)
  have "dml_step new_table (?start, tb_tiers new_table) (?w, tb_tiers first_table)"
    by (rule dml_step.wrote [OF _ run]) (use st t lw(2) in \<open>simp_all add: DmlWriter_new_def apply_failed_def\<close>)
  then have steps: "(dml_step new_table)\<^sup>*\<^sup>* (?start, tb_tiers new_table) (?w, tb_tiers first_table)" by blast
  obtain L where L: "wal_holds ?g L" "concat L = [first_record None]" using lw(5) by blast
  have "log_holds fresh_wal []" using fresh_wal_holds unfolding log_holds_def by (metis concat.simps append_Nil)
  from recovery_reproduces_live_table [OF _ new_tiers_ready(2) this steps, of L ?g "[]" "LogOffset 0 0" "tb_tiers new_table"]
  obtain n g' rs where "recover_replay Checkpoint_BEGIN (LogOffset 0 0) All ?g (tb_tiers new_table) = Some (Inr n, g', rs)"
      "\<forall>x. as_of (retier new_table (Some (i64_of 10)) rs) x = as_of (retier new_table (Some (i64_of 10)) (snd (abort_group ?w (tb_tiers first_table)))) x"
    using new_table_inv t L lw wal_holds_tail [OF L(1)] new_tiers_ready(1) [of 47]
    by (auto simp: DmlWriter_new_def frame_split_def HEADER_LEN_def first_record_facts(3))
  moreover have "snd (abort_group ?w (tb_tiers first_table)) = tb_tiers first_table" by (simp add: abort_group_def DmlWriter_new_def)
  moreover have "dml_insert (SealedVersions_versions_for []) [107] None (Some [1]) 3 8 [] (i64_of 10) ?start (tb_tiers new_table)
      = (Inr \<lparr>do_commit = i64_of 10, do_wal = LogOffset 0 55\<rparr>, ?w, tb_tiers first_table)"
    using run staged_first by (simp add: dml_insert_def DmlWriter_new_def)
  ultimately show ?thesis by (intro exI [of _ ?w] exI [of _ n] exI [of _ g'] exI [of _ rs]) simp
qed


end
