(* ===== verification/Engine_Inv.thy ===== *)
theory Engine_Inv
  imports Segment_Files Dml_Props Checkpoint
begin

text \<open>
  The invariant of a running engine: the segment files the manifest names hold the sealed versions and
  retractions, the log behind the replay floor holds the redo sets of everything staged since, and
  together they are the table the engine shows. What the log's tick, a checkpoint, a flush and a
  compaction do to it, under any faults.
\<close>

section \<open>Segment names\<close>

lemma segment_name_index: "segment_index_of (segment_name i) = Some i"
  using parse_padded [of "unat i" 20] unsigned_less [where 'a = nat, of i] by (simp add: segment_index_of_def segment_name_def)

lemma segment_name_inj [simp]: "segment_name i = segment_name j \<longleftrightarrow> i = j"
  by (metis option.inject segment_name_index)

lemma segment_name_checkpoint [simp]: "segment_name i \<noteq> CHECKPOINT_FILENAME" "CHECKPOINT_FILENAME \<noteq> segment_name i"
  by (simp_all add: segment_name_def SEGMENT_FILENAME_PREFIX_def CHECKPOINT_FILENAME_def)

section \<open>The table of an engine\<close>

definition engine_table :: "close list \<Rightarrow> engine \<Rightarrow> table" where
  "engine_table R e = \<lparr>tb_last = dw_last (en_writer e), tb_delta = fst (en_tiers e), tb_index = snd (en_tiers e),
     tb_sealed = en_sealed e, tb_retracted = R\<rparr>"

lemma engine_table_simps [simp]: "tb_sealed (engine_table R e) = en_sealed e" "tb_retracted (engine_table R e) = R"
  "tb_last (engine_table R e) = dw_last (en_writer e)" "tb_delta (engine_table R e) = fst (en_tiers e)" "tb_index (engine_table R e) = snd (en_tiers e)"
  "retier (engine_table R e) (dw_last (en_writer e)) (en_tiers e) = engine_table R e"
  by (simp_all add: engine_table_def)

lemma retier_engine: "en_sealed e' = en_sealed e \<Longrightarrow> retier (engine_table R e') l ts = retier (engine_table R e) l ts"
  by (simp add: engine_table_def)

lemma live_engine: "en_sealed e' = en_sealed e \<Longrightarrow> live (engine_table R e') V rs w ts = live (engine_table R e) V rs w ts"
  by (simp add: live_def undoable_def retier_engine [of e' e])

lemma dml_inv_engine: "en_sealed e' = en_sealed e \<Longrightarrow> dml_inv H (engine_table R e') V s = dml_inv H (engine_table R e) V s"
  by (simp add: dml_inv_def live_engine [of e' e])

text \<open>Permuting what is sealed changes nothing.\<close>

lemma table_inv_sealed:
  assumes "set (tb_sealed t') = set (tb_sealed t)" "set (tb_retracted t') = set (tb_retracted t)" "table_inv (retier t l ts)"
  shows "table_inv (retier t' l ts)" "as_of (retier t' l ts) x = as_of (retier t l ts) x"
proof -
  have v: "set (tb_versions (retier t' l ts)) = set (tb_versions (retier t l ts))" using assms(1) by (simp add: tb_versions_def)
  have r: "set (tb_retractions (retier t' l ts)) = set (tb_retractions (retier t l ts))" using assms(2) by (simp add: tb_retractions_def)
  have tl: "timeline (tb_versions (retier t l ts)) (tb_retractions (retier t l ts)) (vi_abs (snd ts)) (high_water l)"
    using assms(3) by (simp add: table_inv_def)
  then have tl': "timeline (tb_versions (retier t' l ts)) (tb_retractions (retier t' l ts)) (vi_abs (snd ts)) (high_water l)"
    using timeline_cong [OF v r] by simp
  then show "table_inv (retier t' l ts)" using assms(3) by (simp add: table_inv_def)
  show "as_of (retier t' l ts) x = as_of (retier t l ts) x"
    using timeline_snapshot [OF tl] timeline_snapshot [OF tl'] v by (auto simp: as_of_def)
qed

lemma live_sealed:
  assumes "set (tb_sealed t') = set (tb_sealed t)" "set (tb_retracted t') = set (tb_retracted t)" "live t V rs w ts"
  shows "live t' V rs w ts"
  using assms(3) table_inv_sealed(1) [OF assms(1,2)] unfolding live_def undoable_def by blast

section \<open>The log after a tick\<close>

lemma synced_floor:
  assumes "log_from off fence P g ps" "durable_end g = staged_end g"
  shows "log_from (wal_durable_end g) (wal_durable_end g) (P @ ps) g []" "log_from off (wal_durable_end g) P g ps"
proof -
  from assms(1) obtain L A B where L: "wal_holds g L" "floor_at L off P ps" "floor_at L fence A B" by (auto simp: log_from_def)
  have "wal_durable_end g = LogOffset (length L - 1) (length (seg_bytes (last L)))"
    using L(1) assms(2) by (simp add: wal_durable_end_def wal_holds_def)
  then show "log_from (wal_durable_end g) (wal_durable_end g) (P @ ps) g []" "log_from off (wal_durable_end g) P g ps"
    using floor_end [OF wal_holdsD(3) [OF L(1)]] L floor_concat [OF L(2)] unfolding log_from_def by auto
qed

lemma log_tick_synced:
  assumes "log_tick g = (Inr n, g')"
  shows "durable_end g' = staged_end g'" "\<not> w_poisoned g" "\<not> w_poisoned g'"
proof -
  from assms obtain wk where t: "wal_tick g = (Inr n, wk, g')" by (rule log_tick_steps)
  then show "durable_end g' = staged_end g'" "\<not> w_poisoned g" "\<not> w_poisoned g'" by (auto simp: wal_tick_def drain_tick_def drain_waiters_def Let_def split: prod.splits sum.splits if_splits)
qed

section \<open>The invariant\<close>

definition sealed_view :: "(version_key \<Rightarrow> closed_interval option) \<Rightarrow> tier_view" where
  "sealed_view ends = \<lparr>tv_versions = {}, tv_ends = ends, tv_retractions = Map.empty\<rparr>"

text \<open>Every materialised end was logged as a close, so its record encodes.\<close>

definition ends_encodable :: "(version_key \<Rightarrow> closed_interval option) \<Rightarrow> bool" where
  "ends_encodable ends \<longleftrightarrow> (\<forall>k i. ends k = Some i \<longrightarrow> close_encodable (entry_close (k, i)))"

text \<open>What an engine keeps, whichever manifest record \<open>q\<close> names its segments, its floor and its fence.\<close>

definition sealed_ok :: "mem_disk \<Rightarrow> recovery_point \<Rightarrow> version list \<Rightarrow> close list \<Rightarrow> (version_key \<Rightarrow> closed_interval option) \<Rightarrow> bool" where
  "sealed_ok d q vs R ends \<longleftrightarrow> disk_wf d \<and> sorted_wrt (<) (live_segments q) \<and>
     (\<exists>segs. segments_hold d (map segment_name (live_segments q)) segs \<and> vs = concat (map fst segs) \<and> R = concat (map snd segs)) \<and>
     (\<forall>v \<in> set vs. version_encodable v) \<and> (\<forall>c \<in> set R. close_encodable c) \<and> (\<exists>hw. timeline vs R ends hw) \<and>
     ends_encodable ends"

definition engine_core :: "engine \<Rightarrow> recovery_point \<Rightarrow> bool" where
  "engine_core e q \<longleftrightarrow> en_segment_names e = map segment_name (live_segments q) \<and>
     (\<forall>i \<in> set (live_segments q). i < en_next_segment_index e) \<and>
     (\<exists>R ends P. sealed_ok (en_disk e) q (en_sealed e) R ends \<and>
        dml_inv (log_from (replay_floor q) (durable_fence q) P) (engine_table R e) (sealed_view ends) (en_writer e, en_tiers e))"

lemma engine_coreE:
  assumes "engine_core e q"
  obtains R ends P where "sealed_ok (en_disk e) q (en_sealed e) R ends"
    "dml_inv (log_from (replay_floor q) (durable_fence q) P) (engine_table R e) (sealed_view ends) (en_writer e, en_tiers e)"
  using assms unfolding engine_core_def by blast

lemma engine_coreI:
  assumes "en_segment_names e = map segment_name (live_segments q)" "\<And>i. i \<in> set (live_segments q) \<Longrightarrow> i < en_next_segment_index e"
    "sealed_ok (en_disk e) q (en_sealed e) R ends"
    "dml_inv (log_from (replay_floor q) (durable_fence q) P) (engine_table R e) (sealed_view ends) (en_writer e, en_tiers e)"
  shows "engine_core e q"
  using assms unfolding engine_core_def by blast

lemma live_indexes_core: "engine_core e q \<Longrightarrow> live_indexes e = Some (live_segments q)"
  by (auto simp: engine_core_def live_indexes_def Let_def segment_name_index comp_def)

text \<open>Disk changes that leave the live segments alone.\<close>

lemma sealed_ok_disk:
  assumes "sealed_ok d q vs R ends" "disk_wf d'" "\<And>i. i \<in> set (live_segments q) \<Longrightarrow> file_at d' (segment_name i) = file_at d (segment_name i)"
  shows "sealed_ok d' q vs R ends"
proof -
  have "segments_hold d' (map segment_name (live_segments q)) segs" if "segments_hold d (map segment_name (live_segments q)) segs" for segs
    using that assms(3) unfolding segments_hold_def list_all2_conv_all_nth by auto
  then show ?thesis using assms(1,2) unfolding sealed_ok_def by blast
qed

lemma core_disk:
  assumes "engine_core e q" "disk_wf d'" "\<And>i. i \<in> set (live_segments q) \<Longrightarrow> file_at d' (segment_name i) = file_at (en_disk e) (segment_name i)"
  shows "engine_core (e\<lparr>en_disk := d'\<rparr>) q"
proof -
  obtain R ends P where c: "sealed_ok (en_disk e) q (en_sealed e) R ends"
      "dml_inv (log_from (replay_floor q) (durable_fence q) P) (engine_table R e) (sealed_view ends) (en_writer e, en_tiers e)"
    by (rule engine_coreE [OF assms(1)])
  show ?thesis
    by (rule engine_coreI [of _ _ R ends P])
      (use assms(1) sealed_ok_disk [OF c(1) assms(2,3)] c(2) dml_inv_engine [of "e\<lparr>en_disk := d'\<rparr>" e] in \<open>auto simp: engine_core_def\<close>)
qed

text \<open>The checkpoint mark is not part of the invariant.\<close>

lemma core_mark: "engine_core (e\<lparr>en_checkpoint := x\<rparr>) q = engine_core e q"
  using dml_inv_engine [of "e\<lparr>en_checkpoint := x\<rparr>" e] by (simp add: engine_core_def)

section \<open>The tick\<close>

lemma core_tick:
  assumes c: "engine_core e q" and t: "engine_tick e = (r, e')"
  shows "engine_core e' q" "en_disk e' = en_disk e" "en_tiers e' = en_tiers e" "en_sealed e' = en_sealed e" "en_next_segment_index e' = en_next_segment_index e"
    "en_segment_names e' = en_segment_names e" "en_replay_floor e' = en_replay_floor e" "en_valid_time e' = en_valid_time e"
    "en_flush_row_group_rows e' = en_flush_row_group_rows e" "\<exists>g. en_writer e' = (en_writer e)\<lparr>dw_wal := g\<rparr>"
    "r = Inr fence \<Longrightarrow> engine_core e' (q\<lparr>durable_fence := fence\<rparr>)" "r = Inr fence \<Longrightarrow> \<not> w_poisoned (dw_wal (en_writer e'))"
    "r = Inr fence \<Longrightarrow> fence = wal_durable_end (dw_wal (en_writer e'))"
    "r = Inr fence \<Longrightarrow> durable_end (dw_wal (en_writer e')) = staged_end (dw_wal (en_writer e'))"
proof -
  obtain y g where g: "log_tick (dw_wal (en_writer e)) = (y, g)" by (rule prod.exhaust)
  have e': "e' = e\<lparr>en_writer := (en_writer e)\<lparr>dw_wal := g\<rparr>\<rparr>" and r: "r = map_sum EWal (\<lambda>_. wal_durable_end g) y"
    using t g by (simp_all add: engine_tick_def)
  show "en_disk e' = en_disk e" "en_tiers e' = en_tiers e" "en_sealed e' = en_sealed e" "en_next_segment_index e' = en_next_segment_index e"
    "en_segment_names e' = en_segment_names e" "en_replay_floor e' = en_replay_floor e" "en_valid_time e' = en_valid_time e"
    "en_flush_row_group_rows e' = en_flush_row_group_rows e" "\<exists>g. en_writer e' = (en_writer e)\<lparr>dw_wal := g\<rparr>"
    by (auto simp: e')
  obtain R ends P where s: "sealed_ok (en_disk e) q (en_sealed e) R ends"
      "dml_inv (log_from (replay_floor q) (durable_fence q) P) (engine_table R e) (sealed_view ends) (en_writer e, en_tiers e)"
    by (rule engine_coreE [OF c])
  have names: "en_segment_names e = map segment_name (live_segments q)" "\<And>i. i \<in> set (live_segments q) \<Longrightarrow> i < en_next_segment_index e"
    using c by (auto simp: engine_core_def)
  have core: "engine_core e' q'" if "live_segments q' = live_segments q"
      "w_poisoned g \<or> (\<exists>recs. log_from (replay_floor q') (durable_fence q') P g (map record_bytes recs) \<and> list_all record_ok recs \<and>
         live (engine_table R e) (sealed_view ends) (vouched_redos All recs) (en_writer e) (en_tiers e))" for q'
  proof (rule engine_coreI [of _ _ R ends P])
    have "dml_inv (log_from (replay_floor q') (durable_fence q') P) (engine_table R e) (sealed_view ends) ((en_writer e)\<lparr>dw_wal := g\<rparr>, en_tiers e)"
      using that(2) live_cong [of "(en_writer e)\<lparr>dw_wal := g\<rparr>" "en_writer e"] unfolding dml_inv_def by (auto simp: dml_buffer_def)
    then show "dml_inv (log_from (replay_floor q') (durable_fence q') P) (engine_table R e') (sealed_view ends) (en_writer e', en_tiers e')"
      using dml_inv_engine [of e' e] by (simp add: e')
    show "sealed_ok (en_disk e') q' (en_sealed e') R ends" using s(1) that(1) by (simp add: e' sealed_ok_def)
  qed (use names that(1) in \<open>simp_all add: e'\<close>)
  show "r = Inr fence \<Longrightarrow> \<not> w_poisoned (dw_wal (en_writer e'))"
    "r = Inr fence \<Longrightarrow> fence = wal_durable_end (dw_wal (en_writer e'))"
    "r = Inr fence \<Longrightarrow> durable_end (dw_wal (en_writer e')) = staged_end (dw_wal (en_writer e'))"
    using g log_tick_synced [of "dw_wal (en_writer e)" _ g] by (cases y; simp add: r e')+
  have held: "\<exists>recs. log_from (replay_floor q) (durable_fence q) P g (map record_bytes recs) \<and> list_all record_ok recs \<and>
      live (engine_table R e) (sealed_view ends) (vouched_redos All recs) (en_writer e) (en_tiers e)" if "y = Inr n" for n
    using s(2) log_tick_synced(2) [of _ n g] g floored.sync_ok [of "replay_floor q" "durable_fence q" P "dw_wal (en_writer e)" _ n g] that
    unfolding dml_inv_def by auto
  show "engine_core e' q" using held g wal_log.sync_err by (intro core) (cases y; auto)+
  assume "r = Inr fence"
  then obtain n where n: "y = Inr n" "fence = wal_durable_end g" by (cases y) (auto simp: r)
  from held [OF n(1)] show "engine_core e' (q\<lparr>durable_fence := fence\<rparr>)"
    using synced_floor(2) [OF _ log_tick_synced(1) [OF g [unfolded n(1)]]] by (intro core) (auto simp: n(2))
qed

lemma core_delta_same:
  assumes "engine_core e q" "dl_same (fst (en_tiers e)) d"
  shows "engine_core (e\<lparr>en_tiers := (d, snd (en_tiers e))\<rparr>) q"
proof -
  obtain R ends P where c: "sealed_ok (en_disk e) q (en_sealed e) R ends"
      "dml_inv (log_from (replay_floor q) (durable_fence q) P) (engine_table R e) (sealed_view ends) (en_writer e, en_tiers e)"
    by (rule engine_coreE [OF assms(1)])
  have "dml_inv (log_from (replay_floor q) (durable_fence q) P) (engine_table R e) (sealed_view ends) (en_writer e, d, snd (en_tiers e))"
    using c(2) live_moved [OF _ assms(2) vi_same_refl, of "engine_table R e" _ _ "en_writer e" "dw_last (en_writer e)"] unfolding dml_inv_def
    by (auto simp: last_ok_def)
  then show ?thesis using assms(1) c(1) dml_inv_engine [of "e\<lparr>en_tiers := (d, snd (en_tiers e))\<rparr>" e]
    by (intro engine_coreI [of _ _ R ends P]) (auto simp: engine_core_def)
qed

section \<open>Reads\<close>

text \<open>What \<open>AS OF\<close> reads of the engine return.\<close>

definition engine_snapshot :: "engine \<Rightarrow> i64 \<Rightarrow> version set" where
  "engine_snapshot e x = snapshot (vi_abs (snd (en_tiers e))) (en_sealed e @ delta_rows (fst (en_tiers e))) x"

lemma engine_snapshot_table: "as_of (engine_table R e) x = engine_snapshot e x"
  by (simp add: as_of_def engine_snapshot_def tb_versions_def)

section \<open>Flush\<close>

lemma view_retractions:
  "tv_retractions (fold redo_view rs V) k = Some c \<Longrightarrow> Retract c \<in> set rs \<or> tv_retractions V k = Some c"
proof (induction rs arbitrary: V)
  case (Cons r rs)
  then show ?case by (cases r) (fastforce split: if_splits)+
qed simp

lemma view_ends:
  "tv_ends (fold redo_view rs V) k = Some i \<Longrightarrow> (\<exists>c. entry_close (k, i) = c \<and> (Close c \<in> set rs \<or> Retract c \<in> set rs)) \<or> tv_ends V k = Some i"
proof (induction rs arbitrary: V)
  case (Cons r rs)
  have "entry_close (close_target c, close_interval c) = c" for c
    by (cases c) (simp add: close_target_def close_interval_def)
  with Cons show ?case by (cases r) (fastforce split: if_splits)+
qed simp

lemma vouched_encodable: "list_all record_ok recs \<Longrightarrow> r \<in> set (vouched_redos committed recs) \<Longrightarrow> redo_encodable r"
  by (auto simp: vouched_redos_def record_ok_def list_all_iff)

lemma discarded:
  assumes "delta_inv d"
  shows "delta_inv (discard_flushed d)" "delta_rows (discard_flushed d) = []" "dl_retractions (discard_flushed d) = []" "mt_exact (dl_mem (discard_flushed d))"
proof -
  have "bt_inv (dl_retractions (discard_flushed d))" by (simp add: discard_flushed_def clear_staged_def)
  from emptied_inv(1,2) [OF assms, of "discard_flushed d"] this
  show "delta_inv (discard_flushed d)" "delta_rows (discard_flushed d) = []"
    by (simp_all add: discard_flushed_def clear_staged_def staged_set_def)
  show "dl_retractions (discard_flushed d) = []" "mt_exact (dl_mem (discard_flushed d))"
    by (simp_all add: discard_flushed_def clear_staged_def bt_empty_def mt_exact_def MemTier_new_def mt_bytes_def MemTier_iter_def bt_values_def)
qed

lemma core_encodable:
  assumes c: "engine_core e q" and g: "\<not> w_poisoned (dw_wal (en_writer e))" "dml_buffer (en_writer e) = []"
  shows "cl \<in> set (staged_retractions (fst (en_tiers e))) \<Longrightarrow> close_encodable cl"
    "ends_encodable (vi_abs (snd (en_tiers e)))"
proof -
  let ?d = "fst (en_tiers e)"
  obtain R ends P where s: "sealed_ok (en_disk e) q (en_sealed e) R ends"
      "dml_inv (log_from (replay_floor q) (durable_fence q) P) (engine_table R e) (sealed_view ends) (en_writer e, en_tiers e)"
    by (rule engine_coreE [OF c])
  obtain recs where h: "list_all record_ok recs" "live (engine_table R e) (sealed_view ends) (vouched_redos All recs) (en_writer e) (en_tiers e)"
    using s(2) g(1) by (auto simp: dml_inv_def)
  have vw: "view_of (en_tiers e) = fold redo_view (vouched_redos All recs) (sealed_view ends)" and di: "delta_inv ?d"
    using h(2) g(2) by (simp_all add: live_def table_inv_def)
  have old: "ends_encodable ends" using s(1) by (simp add: sealed_ok_def)
  have E: "vi_abs (snd (en_tiers e)) = tv_ends (fold redo_view (vouched_redos All recs) (sealed_view ends))" by (simp add: view_of_def flip: vw)
  show "ends_encodable (vi_abs (snd (en_tiers e)))"
    unfolding ends_encodable_def E
  proof (intro allI impI)
    fix k i assume "tv_ends (fold redo_view (vouched_redos All recs) (sealed_view ends)) k = Some i"
    from view_ends [OF this] show "close_encodable (entry_close (k, i))"
    proof
      assume "tv_ends (sealed_view ends) k = Some i"
      then have "ends k = Some i" by (simp add: sealed_view_def)
      then show ?thesis using old unfolding ends_encodable_def by blast
    qed (use vouched_encodable [OF h(1)] in fastforce)
  qed
  assume "cl \<in> set (staged_retractions (fst (en_tiers e)))"
  then obtain k where "(k, cl) \<in> set (dl_retractions ?d)" unfolding staged_retractions_def bt_values_def set_map by force
  then have "bt_get (dl_retractions ?d) k = Some cl" using di by (simp add: delta_inv_def bt_get_iff)
  then have "tv_retractions (view_of (en_tiers e)) k = Some cl" by (simp add: view_of_def)
  then have "Retract cl \<in> set (vouched_redos All recs)" using view_retractions [of "vouched_redos All recs" "sealed_view ends"] by (simp add: vw sealed_view_def)
  from vouched_encodable [OF h(1) this] show "close_encodable cl" by simp
qed

lemma core_flushed:
  assumes c: "engine_core e q" and g: "\<not> w_poisoned (dw_wal (en_writer e))" "durable_end (dw_wal (en_writer e)) = staged_end (dw_wal (en_writer e))"
      "dml_buffer (en_writer e) = []"
    and d: "disk_wf d'" "\<And>i. i \<in> set (live_segments q) \<Longrightarrow> file_at d' (segment_name i) = file_at (en_disk e) (segment_name i)"
    and sg: "validate_name (segment_name idx) = Inr ()" "file_at d' (segment_name idx) = Some bs"
      "segment_holds bs (map unresolved (staged_list (fst (en_tiers e)))) (staged_retractions (fst (en_tiers e)))"
    and idx: "idx = en_next_segment_index e" "idx < idx + 1"
    and e': "e' = e\<lparr>en_disk := d', en_sealed := en_sealed e @ staged_list (fst (en_tiers e)), en_segment_names := en_segment_names e @ [segment_name idx],
      en_next_segment_index := idx + 1, en_replay_floor := fence, en_checkpoint := x,
      en_tiers := (discard_flushed (fst (en_tiers e)), snd (en_tiers e))\<rparr>"
    and fence: "fence = wal_durable_end (dw_wal (en_writer e))"
  shows "engine_core e' \<lparr>replay_floor = fence, durable_fence = fence, live_segments = live_segments q @ [idx]\<rparr>" "engine_snapshot e' t = engine_snapshot e t"
proof -
  let ?w = "en_writer e" and ?d = "fst (en_tiers e)" and ?i = "snd (en_tiers e)" and ?vs = "staged_list (fst (en_tiers e))"
  obtain R ends P where s: "sealed_ok (en_disk e) q (en_sealed e) R ends"
      "dml_inv (log_from (replay_floor q) (durable_fence q) P) (engine_table R e) (sealed_view ends) (?w, en_tiers e)"
    by (rule engine_coreE [OF c])
  obtain recs where h: "log_from (replay_floor q) (durable_fence q) P (dw_wal ?w) (map record_bytes recs)" "list_all record_ok recs"
      "live (engine_table R e) (sealed_view ends) (vouched_redos All recs) ?w (en_tiers e)"
    using s(2) g(1) by (auto simp: dml_inv_def)
  have ti: "table_inv (engine_table R e)" and ex: "exact (en_tiers e)"
    using h(3) by (simp_all add: live_def)
  let ?R = "R @ staged_retractions ?d" and ?E = "vi_abs ?i"
  have di: "delta_inv ?d" "vi_inv ?i" "retractions_keyed ?d" and tl: "timeline (tb_versions (engine_table R e)) (tb_retractions (engine_table R e)) ?E (high_water (dw_last ?w))"
    using ti by (simp_all add: table_inv_def)
  have vs: "set ?vs = set (delta_rows ?d)" using staged_list_facts(1) [OF di(1)] by (simp add: staged_set_def)
  have tl': "timeline (en_sealed e @ ?vs) ?R ?E (high_water (dw_last ?w))"
    using tl timeline_cong [of "en_sealed e @ ?vs" "tb_versions (engine_table R e)" ?R "tb_retractions (engine_table R e)"] vs
    by (simp add: tb_versions_def tb_retractions_def)
  have un: "map unresolved ?vs = ?vs" using timelineD(3) [OF tl'] by (simp add: map_idI)
  show snap: "engine_snapshot e' t = engine_snapshot e t"
    using timeline_snapshot [OF tl'] timeline_snapshot [OF tl] vs discarded(2) [OF di(1)]
    by (auto simp: engine_snapshot_def e' tb_versions_def)
  obtain segs where segs: "segments_hold (en_disk e) (map segment_name (live_segments q)) segs" "en_sealed e = concat (map fst segs)" "R = concat (map snd segs)"
    using s(1) by (auto simp: sealed_ok_def)
  let ?q = "\<lparr>replay_floor = fence, durable_fence = fence, live_segments = live_segments q @ [idx]\<rparr>"
  have "sealed_ok d' q (en_sealed e) R ends" by (rule sealed_ok_disk [OF s(1) d])
  have hold: "segments_hold d' (map segment_name (live_segments q)) segs"
    using segs(1) d(2) unfolding segments_hold_def list_all2_conv_all_nth by auto
  have "segments_hold d' (map segment_name (live_segments ?q)) (segs @ [(?vs, staged_retractions ?d)])"
    using hold sg un by (auto simp: segments_hold_def intro!: list_all2_appendI)
  moreover have "\<forall>v \<in> set ?vs. version_encodable v" using di(1) vs by (auto simp: delta_inv_def staged_set_def stageable_def)
  moreover have "\<forall>c \<in> set (staged_retractions ?d). close_encodable c" using core_encodable(1) [OF c g(1,3)] by blast
  moreover have "sorted_wrt (<) (live_segments q @ [idx])" using s(1) c idx by (auto simp: sealed_ok_def engine_core_def sorted_wrt_append)
  ultimately have so: "sealed_ok d' ?q (en_sealed e @ ?vs) ?R ?E"
    using s(1) segs(2,3) d(1) tl' core_encodable(2) [OF c g(1,3)] unfolding sealed_ok_def by (auto intro!: exI [of _ "segs @ [(?vs, staged_retractions ?d)]"])
  have log: "log_from fence fence (P @ map record_bytes recs) (dw_wal ?w) (map record_bytes [])"
    using synced_floor(1) [OF h(1) g(2)] by (simp add: fence)
  have ti': "table_inv (retier (engine_table ?R e') (dw_last ?w) (discard_flushed ?d, ?i))"
    using tl' discarded [OF di(1)] di(2)
    by (simp add: table_inv_def e' tb_versions_def tb_retractions_def staged_retractions_def retractions_keyed_def bt_values_def bt_get_def)
  have "live (engine_table ?R e') (sealed_view ?E) (vouched_redos All []) ?w (discard_flushed ?d, ?i)"
    using ti' discarded [OF di(1)] ex g(3)
    by (intro live_reset) (auto simp: exact_def view_of_def sealed_view_def staged_set_def bt_get_def)
  then have "dml_inv (log_from fence fence (P @ map record_bytes recs)) (engine_table ?R e') (sealed_view ?E) (?w, discard_flushed ?d, ?i)"
    using log by (intro dml_invI [of _ _ "[]"]) simp_all
  then show "engine_core e' ?q" using so c idx
    by (intro engine_coreI [of _ _ ?R ?E "P @ map record_bytes recs"]) (auto simp: e' engine_core_def intro: less_trans)
qed

section \<open>Compaction\<close>

lemma core_compacted:
  assumes names: "en_segment_names e = map segment_name (live_segments q)" "\<And>i. i \<in> set (live_segments q) \<Longrightarrow> i < en_next_segment_index e"
    and s: "sealed_ok (en_disk e) q (en_sealed e) R ends"
      "dml_inv (log_from (replay_floor q) (durable_fence q) P) (engine_table R e) (sealed_view ends) (en_writer e, en_tiers e)"
    and d: "disk_wf d'" and g: "\<not> w_poisoned (dw_wal (en_writer e))"
    and sg: "validate_name (segment_name idx) = Inr ()" "file_at d' (segment_name idx) = Some bs"
      "segment_holds bs (map unresolved (sort_key vkey (en_sealed e))) (sort_key close_target R)"
    and idx: "idx = en_next_segment_index e" "idx < idx + 1"
    and e': "e' = e\<lparr>en_disk := d', en_sealed := sort_key vkey (en_sealed e), en_segment_names := [segment_name idx],
      en_next_segment_index := idx + 1, en_checkpoint := x\<rparr>"
  shows "engine_core e' \<lparr>replay_floor = replay_floor q, durable_fence = durable_fence q, live_segments = [idx]\<rparr>" "engine_snapshot e' t = engine_snapshot e t"
proof -
  let ?vs = "sort_key vkey (en_sealed e)" and ?R = "sort_key close_target R"
  obtain hw where tl: "timeline (en_sealed e) R ends hw" using s(1) by (auto simp: sealed_ok_def)
  then have tl': "timeline ?vs ?R ends hw" using timeline_cong [of ?vs "en_sealed e" ?R R] by simp
  have un: "map unresolved ?vs = ?vs" using timelineD(3) [OF tl'] by (intro map_idI) simp
  have "segments_hold d' [segment_name idx] [(?vs, ?R)]" using sg un by (auto simp: segments_hold_def)
  then have so: "sealed_ok d' \<lparr>replay_floor = replay_floor q, durable_fence = durable_fence q, live_segments = [idx]\<rparr> ?vs ?R ends"
    using s(1) tl' d unfolding sealed_ok_def by (auto intro!: exI [of _ "[(?vs, ?R)]"])
  have "dml_inv (log_from (replay_floor q) (durable_fence q) P) (engine_table ?R e') (sealed_view ends) (en_writer e, en_tiers e)"
    using s(2) live_sealed [of "engine_table ?R e'" "engine_table R e" "sealed_view ends" _ "en_writer e" "en_tiers e"] unfolding dml_inv_def by (simp add: e') blast
  then show "engine_core e' \<lparr>replay_floor = replay_floor q, durable_fence = durable_fence q, live_segments = [idx]\<rparr>"
    using so idx by (intro engine_coreI [of _ _ ?R ends P]) (auto simp: e')
  have "table_inv (engine_table R e)" using s(2) g by (auto simp: dml_inv_def live_def)
  then show "engine_snapshot e' t = engine_snapshot e t"
    using table_inv_sealed(2) [where t' = "engine_table ?R e'" and t = "engine_table R e" and l = "dw_last (en_writer e)" and ts = "en_tiers e" and x = t] engine_snapshot_table [of ?R e' t] engine_snapshot_table [of R e t]
    by (simp add: e' engine_table_def)
qed

end
