(* ===== verification/Engine_Steps.thy ===== *)
theory Engine_Steps
  imports Engine_Inv
begin

text \<open>
  Runs of an engine: sessions write through its writer, and between writes it checkpoints, flushes and
  compacts, with faults striking anywhere. A maintenance call never changes a read; whatever it returns,
  the disk it leaves recovers to the same reads; and the invariant survives every call that succeeded or
  left the manifest file as it was.
\<close>

section \<open>The manifest\<close>

definition intact :: "mem_disk \<Rightarrow> recovery_point option \<Rightarrow> bool" where
  "intact d p \<longleftrightarrow> (\<exists>recs. (file_at d CHECKPOINT_FILENAME = Some (concat (map manifest_bytes recs)) \<or> file_at d CHECKPOINT_FILENAME = None \<and> recs = []) \<and>
     list_all record_fits recs \<and> last_point recs = p)"

text \<open>Whatever the file's tail, the next boot loads \<open>p\<close>.\<close>

definition boots :: "mem_disk \<Rightarrow> recovery_point option \<Rightarrow> bool" where
  "boots d p \<longleftrightarrow> (\<forall>boot. no_faults boot \<longrightarrow> file_at boot CHECKPOINT_FILENAME = file_at d CHECKPOINT_FILENAME \<longrightarrow> checkpoint_load boot = (Inr p, boot))"

definition manifest_point :: "recovery_point option \<Rightarrow> recovery_point" where
  "manifest_point p = (case p of None \<Rightarrow> \<lparr>replay_floor = LogOffset_ZERO, durable_fence = LogOffset_ZERO, live_segments = []\<rparr> | Some p \<Rightarrow> p)"

lemma intact_boots: "intact d p \<Longrightarrow> boots d p"
  unfolding boots_def
proof (intro allI impI)
  fix boot assume h: "intact d p" "no_faults boot" "file_at boot CHECKPOINT_FILENAME = file_at d CHECKPOINT_FILENAME"
  then obtain recs where r: "file_at boot CHECKPOINT_FILENAME = Some (concat (map manifest_bytes recs)) \<or> file_at boot CHECKPOINT_FILENAME = None \<and> recs = []"
    "list_all record_fits recs" "last_point recs = p" unfolding intact_def by auto
  from r(1) show "checkpoint_load boot = (Inr p, boot)"
  proof
    assume "file_at boot CHECKPOINT_FILENAME = Some (concat (map manifest_bytes recs))"
    with load_after_records [OF h(2), of recs 0 first_point] r(2,3) points_fit(1) length_manifest_bytes(1) [of first_point] show ?thesis by simp
  next
    assume "file_at boot CHECKPOINT_FILENAME = None \<and> recs = []"
    with load_absent [OF h(2)] r(3) show ?thesis by (simp add: last_point_def)
  qed
qed

lemma record_point_fits: "record_fits r \<Longrightarrow> point_fits (record_point r)"
  by (cases r) (simp_all add: point_fits_def)

lemma intact_fits:
  assumes "intact d p"
  shows "point_fits (manifest_point p)"
proof -
  obtain recs where r: "list_all record_fits recs" "last_point recs = p" using assms unfolding intact_def by blast
  show ?thesis
  proof (cases "recs = []")
    case True
    then show ?thesis using r(2) by (auto simp: last_point_def manifest_point_def point_fits_def offset_fits_def LogOffset_ZERO_def)
  next
    case False
    then have "record_fits (last recs)" using r(1) by (simp add: list_all_iff)
    then show ?thesis using False r(2) record_point_fits by (auto simp: last_point_def manifest_point_def)
  qed
qed

lemma store_manifest:
  assumes st: "checkpoint_store p d = Some (r, d')" and d: "disk_wf d" "intact d p0" and p: "point_fits p"
  shows "disk_wf d'" "n \<noteq> CHECKPOINT_FILENAME \<Longrightarrow> file_at d' n = file_at d n" "r = Inr () \<Longrightarrow> intact d' (Some p)"
    "file_at d' CHECKPOINT_FILENAME = file_at d CHECKPOINT_FILENAME \<Longrightarrow> intact d' p0" "boots d' p0 \<or> boots d' (Some p)"
proof -
  obtain recs where r: "file_at d CHECKPOINT_FILENAME = Some (concat (map manifest_bytes recs)) \<or> file_at d CHECKPOINT_FILENAME = None \<and> recs = []"
    "list_all record_fits recs" "last_point recs = p0" using d(2) unfolding intact_def by blast
  let ?bs = "concat (map manifest_bytes recs)" and ?rec = "manifest_bytes (Manifest p)"
  have old: "file_at d CHECKPOINT_FILENAME = Some ?bs \<or> file_at d CHECKPOINT_FILENAME = None \<and> ?bs = []" using r(1) by auto
  note e = checkpoint_store_effect [OF st d(1) old]
  show "disk_wf d'" "n \<noteq> CHECKPOINT_FILENAME \<Longrightarrow> file_at d' n = file_at d n" using e by auto
  show "file_at d' CHECKPOINT_FILENAME = file_at d CHECKPOINT_FILENAME \<Longrightarrow> intact d' p0" using d(2) by (simp add: intact_def)
  show "r = Inr () \<Longrightarrow> intact d' (Some p)"
    using e r(2) p unfolding intact_def by (intro exI [of _ "recs @ [Manifest p]"]) (simp add: last_point_def)
  from e have "file_at d' CHECKPOINT_FILENAME = None \<and> ?bs = [] \<or>
      (\<exists>k \<le> length ?rec. file_at d' CHECKPOINT_FILENAME = Some (?bs @ take k ?rec))" by (elim conjE)
  then show "boots d' p0 \<or> boots d' (Some p)"
  proof (elim disjE exE conjE)
    assume gone: "file_at d' CHECKPOINT_FILENAME = None" "?bs = []"
    have "manifest_bytes x \<noteq> []" for x by (cases x) (simp_all add: manifest_bytes_def magics flip: length_0_conv)
    then have "recs = []" using gone(2) by (cases recs) simp_all
    then show ?thesis using load_absent gone(1) r(3) by (simp add: boots_def last_point_def)
  next
    fix k assume "k \<le> length ?rec" "file_at d' CHECKPOINT_FILENAME = Some (?bs @ take k ?rec)"
    then show ?thesis using load_after_records [of _ recs k p] r(2,3) p unfolding boots_def by (cases "k = length ?rec") auto
  qed
qed

section \<open>Committing to the manifest\<close>

definition engine_inv :: "(mem_disk \<Rightarrow> recovery_point option \<Rightarrow> bool) \<Rightarrow> engine \<Rightarrow> bool" where
  "engine_inv M e \<longleftrightarrow> (\<exists>p. M (en_disk e) p \<and> engine_core e (manifest_point p) \<and> en_replay_floor e = replay_floor (manifest_point p))"

text \<open>The disk and the log of \<open>e'\<close> belong to an engine with the reads of \<open>e\<close>, whichever manifest a boot finds.\<close>

definition crash_safe :: "engine \<Rightarrow> engine \<Rightarrow> bool" where
  "crash_safe e e' \<longleftrightarrow> (\<exists>e2. engine_inv boots e2 \<and> en_disk e2 = en_disk e' \<and> en_writer e2 = en_writer e' \<and>
     (\<forall>x. engine_snapshot e2 x = engine_snapshot e x))"

lemma engine_inv_boots: "engine_inv intact e \<Longrightarrow> engine_inv boots e"
  using intact_boots unfolding engine_inv_def by blast

lemma core_wf: "engine_core e q \<Longrightarrow> disk_wf (en_disk e)"
  by (auto simp: engine_core_def sealed_ok_def)

text \<open>
  The one way a maintenance call commits: from \<open>e1\<close> it stores the record \<open>pn\<close> under which \<open>e2\<close> is the
  engine, with the same disk and log.
\<close>

lemma store_outcome:
  assumes m: "intact (en_disk e1) p0" "engine_core e1 (manifest_point p0)" "en_replay_floor e1 = replay_floor (manifest_point p0)"
    and e2: "engine_core e2 pn" "en_replay_floor e2 = replay_floor pn" "en_disk e2 = en_disk e1" "en_writer e2 = en_writer e1"
      "\<And>x. engine_snapshot e2 x = engine_snapshot e1 x"
    and st: "checkpoint_store pn (en_disk e1) = Some (r, d')" "point_fits pn"
  shows "r = Inr () \<Longrightarrow> engine_inv intact (e2\<lparr>en_disk := d'\<rparr>)"
    "file_at d' CHECKPOINT_FILENAME = file_at (en_disk e1) CHECKPOINT_FILENAME \<Longrightarrow> engine_inv intact (e1\<lparr>en_disk := d'\<rparr>)"
    "crash_safe e1 (e1\<lparr>en_disk := d'\<rparr>)" "disk_wf d'" "n \<noteq> CHECKPOINT_FILENAME \<Longrightarrow> file_at d' n = file_at (en_disk e1) n"
proof -
  note s = store_manifest [OF st(1) core_wf [OF m(2)] m(1) st(2)]
  show "disk_wf d'" "n \<noteq> CHECKPOINT_FILENAME \<Longrightarrow> file_at d' n = file_at (en_disk e1) n" by (fact s)+
  have c1: "engine_core (e1\<lparr>en_disk := d'\<rparr>) (manifest_point p0)" by (rule core_disk [OF m(2) s(1)]) (use s(2) in simp)
  have c2: "engine_core (e2\<lparr>en_disk := d'\<rparr>) pn" by (rule core_disk [OF e2(1) s(1)]) (use s(2) e2(3) in simp)
  have i1: "M d' p0 \<Longrightarrow> engine_inv M (e1\<lparr>en_disk := d'\<rparr>)" for M unfolding engine_inv_def using c1 m(3) by auto
  have i2: "M d' (Some pn) \<Longrightarrow> engine_inv M (e2\<lparr>en_disk := d'\<rparr>)" for M
    unfolding engine_inv_def using c2 e2(2) by (auto simp: manifest_point_def intro!: exI [of _ "Some pn"])
  show "r = Inr () \<Longrightarrow> engine_inv intact (e2\<lparr>en_disk := d'\<rparr>)" using i2 s(3) by blast
  show "file_at d' CHECKPOINT_FILENAME = file_at (en_disk e1) CHECKPOINT_FILENAME \<Longrightarrow> engine_inv intact (e1\<lparr>en_disk := d'\<rparr>)" using i1 s(4) by blast
  have snap: "engine_snapshot (e\<lparr>en_disk := d'\<rparr>) x = engine_snapshot e x" for e x by (simp add: engine_snapshot_def)
  from s(5) show "crash_safe e1 (e1\<lparr>en_disk := d'\<rparr>)"
    unfolding crash_safe_def using i1 [of boots] i2 [of boots] e2(4,5) snap
    by (elim disjE) (intro exI [of _ "e1\<lparr>en_disk := d'\<rparr>"], simp, intro exI [of _ "e2\<lparr>en_disk := d'\<rparr>"], simp)
qed

section \<open>Maintenance calls\<close>

definition is_ok :: "'e + 'a \<Rightarrow> bool" where
  "is_ok r \<longleftrightarrow> (case r of Inl _ \<Rightarrow> False | Inr _ \<Rightarrow> True)"

lemma is_ok_simps [simp]: "is_ok (Inr x)" "\<not> is_ok (Inl e)" "is_ok (map_sum f g r) = is_ok r"
  by (cases r; simp add: is_ok_def)+

definition kept :: "engine \<Rightarrow> bool \<Rightarrow> engine \<Rightarrow> bool" where
  "kept e ok e' \<longleftrightarrow> (\<forall>x. engine_snapshot e' x = engine_snapshot e x) \<and> crash_safe e e' \<and>
     (ok \<or> file_at (en_disk e') CHECKPOINT_FILENAME = file_at (en_disk e) CHECKPOINT_FILENAME \<longrightarrow> engine_inv intact e')"

lemma kept_inv: "engine_inv intact e' \<Longrightarrow> (\<And>x. engine_snapshot e' x = engine_snapshot e x) \<Longrightarrow> kept e ok e'"
  unfolding kept_def crash_safe_def using engine_inv_boots by blast

lemma kept_same:
  "en_tiers e' = en_tiers e \<Longrightarrow> en_sealed e' = en_sealed e \<Longrightarrow> engine_inv intact e' \<Longrightarrow> kept e ok e'"
  by (rule kept_inv) (simp_all add: engine_snapshot_def)

lemma engine_inv_mark [simp]: "engine_inv M (e\<lparr>en_checkpoint := x\<rparr>) = engine_inv M e"
  by (simp add: engine_inv_def core_mark)

text \<open>Files, log offsets and segment numbers below \<open>2^64\<close>, and no more live segments than a manifest can name.\<close>

definition engine_room :: "engine \<Rightarrow> engine \<Rightarrow> bool" where
  "engine_room e e' \<longleftrightarrow> offset_fits (wal_durable_end (dw_wal (en_writer e'))) \<and> length (en_segment_names e) < MAX_LIVE_SEGMENTS \<and>
     en_next_segment_index e < en_next_segment_index e + 1 \<and> list_all (\<lambda>(n, f). length (md_store (en_disk e') ! f) < 2 ^ 64) (md_names (en_disk e'))"

lemma engine_room_file: "engine_room e e' \<Longrightarrow> file_at (en_disk e') n = Some bs \<Longrightarrow> length bs < 2 ^ 64"
  by (auto simp: engine_room_def file_at_def list_all_iff dest: map_of_SomeD)

lemma inv_tick:
  assumes "engine_inv intact e" "engine_tick e = (r, e')"
  shows "engine_inv intact e'"
  using assms(1) core_tick(1,2,7) [OF _ assms(2)] unfolding engine_inv_def by metis

lemma store_point_cases:
  assumes "store_point p e = Some (r, e')"
  obtains q d where "checkpoint_store p (en_disk e) = Some (q, d)" "e' = e\<lparr>en_disk := d\<rparr>" "r = map_err EIo q"
  using assms by (auto simp: store_point_def)

text \<open>The record a call stores when segments and floor stay: the fence moves up.\<close>

lemma fence_outcome:
  assumes m: "intact (en_disk e1) p0" "engine_core e1 (manifest_point p0)" "en_replay_floor e1 = replay_floor (manifest_point p0)"
    "engine_core e1 ((manifest_point p0)\<lparr>durable_fence := fence\<rparr>)"
    and fits: "offset_fits fence" and li: "live_indexes e1 = Some idxs"
    and st: "store_point \<lparr>replay_floor = en_replay_floor e1, durable_fence = fence, live_segments = idxs\<rparr> e1 = Some (r, e2)"
  shows "kept e1 (is_ok r) e2"
proof -
  let ?pn = "(manifest_point p0)\<lparr>durable_fence := fence\<rparr>"
  have pn: "\<lparr>replay_floor = en_replay_floor e1, durable_fence = fence, live_segments = idxs\<rparr> = ?pn"
    using live_indexes_core [OF m(2)] li m(3) by (cases "manifest_point p0") simp
  obtain q d where q: "checkpoint_store ?pn (en_disk e1) = Some (q, d)" "e2 = e1\<lparr>en_disk := d\<rparr>" "r = map_err EIo q"
    using st unfolding pn by (rule store_point_cases)
  have "point_fits ?pn" using intact_fits [OF m(1)] fits by (simp add: point_fits_def)
  note o = store_outcome [OF m(1-3) m(4) _ refl refl refl q(1) this]
  have "is_ok r \<Longrightarrow> engine_inv intact e2" using o(1) m(3) unfolding q(2,3) by (cases q) auto
  then show ?thesis using o(2,3) m(3) unfolding kept_def q(2) by (auto simp: engine_snapshot_def)
qed

lemma kept_trans_tick:
  assumes "engine_inv intact e" "engine_tick e = (r, e1)" "kept e1 ok e2"
  shows "kept e ok e2"
proof -
  obtain p0 where "engine_core e (manifest_point p0)" using assms(1) unfolding engine_inv_def by blast
  note c = core_tick [OF this assms(2)]
  have "engine_snapshot e1 x = engine_snapshot e x" for x using c(3,4) by (simp add: engine_snapshot_def)
  then show ?thesis using assms(3) c(2) by (simp add: kept_def crash_safe_def)
qed

lemma kept_mark [simp]: "kept e ok (e'\<lparr>en_checkpoint := x\<rparr>) = kept e ok e'"
  by (simp add: kept_def crash_safe_def engine_snapshot_def)

lemma checkpoint_kept:
  assumes inv: "engine_inv intact e" and k: "engine_checkpoint e = Some (r, e')" and room: "engine_room e e'"
  shows "kept e (is_ok r) e'"
proof -
  obtain y e1 where t: "engine_tick e = (y, e1)" by (rule prod.exhaust)
  have i1: "engine_inv intact e1" by (rule inv_tick [OF inv t])
  show ?thesis
  proof (cases y)
    case (Inl x)
    then have "e' = e1" using k t by (simp add: engine_checkpoint_def)
    then show ?thesis using kept_trans_tick [OF inv t kept_same [of e1 e1]] i1 by simp
  next
    case (Inr fence)
    then obtain idxs r2 e2 where s: "live_indexes e1 = Some idxs"
        "store_point \<lparr>replay_floor = en_replay_floor e1, durable_fence = fence, live_segments = idxs\<rparr> e1 = Some (r2, e2)"
        "is_ok r = is_ok r2" "e' = e2 \<or> e' = e2\<lparr>en_checkpoint := Some fence\<rparr>"
      using k t by (auto simp: engine_checkpoint_def split: option.splits sum.splits prod.splits)
    obtain p0 where p0: "intact (en_disk e) p0" "engine_core e (manifest_point p0)" "en_replay_floor e = replay_floor (manifest_point p0)"
      using inv unfolding engine_inv_def by blast
    note c = core_tick [OF p0(2) t]
    have "en_writer e' = en_writer e1" using s(2,4) by (auto simp: store_point_def)
    then have "offset_fits fence" using room c(13) [OF Inr] by (simp add: engine_room_def)
    then have "kept e1 (is_ok r2) e2" using fence_outcome [OF _ c(1) _ c(11) [OF Inr] _ s(1,2)] p0 c(2,7) by simp
    then show ?thesis using s(3,4) kept_trans_tick [OF inv t] by auto
  qed
qed

section \<open>Flush\<close>

lemma snapshot_moved: "dl_same (fst (en_tiers e)) d \<Longrightarrow> engine_snapshot (e\<lparr>en_tiers := (d, snd (en_tiers e))\<rparr>) x = engine_snapshot e x"
  using dl_same_views(2) by (simp add: engine_snapshot_def)

lemma kept_trans:
  assumes "\<And>x. engine_snapshot e1 x = engine_snapshot e x" "file_at (en_disk e1) CHECKPOINT_FILENAME = file_at (en_disk e) CHECKPOINT_FILENAME" "kept e1 ok e2"
  shows "kept e ok e2"
  using assms by (simp add: kept_def crash_safe_def)

text \<open>Sealing a segment under the next number.\<close>

lemma sealed_next:
  assumes c: "engine_core e q" and s: "seal_segment vt n dict (segment_name (en_next_segment_index e)) vs rs (en_disk e) = Some (r, d)"
  shows "disk_wf d" "i \<in> set (live_segments q) \<Longrightarrow> file_at d (segment_name i) = file_at (en_disk e) (segment_name i)"
    "file_at d CHECKPOINT_FILENAME = file_at (en_disk e) CHECKPOINT_FILENAME" "engine_core (e\<lparr>en_disk := d\<rparr>) q"
proof -
  note f = seal_segment_effect(1,2) [OF s core_wf [OF c]]
  show wf: "disk_wf d" by (rule f(1))
  have fresh: "j \<noteq> en_next_segment_index e" if "j \<in> set (live_segments q)" for j using c that by (auto simp: engine_core_def)
  then show "i \<in> set (live_segments q) \<Longrightarrow> file_at d (segment_name i) = file_at (en_disk e) (segment_name i)" using f(2) by simp
  show "file_at d CHECKPOINT_FILENAME = file_at (en_disk e) CHECKPOINT_FILENAME" using f(2) by simp
  show "engine_core (e\<lparr>en_disk := d\<rparr>) q" by (rule core_disk [OF c wf]) (use f(2) fresh in simp)
qed

lemma core_alive:
  assumes "engine_core e q" "\<not> w_poisoned (dw_wal (en_writer e))"
  shows "\<exists>R. table_inv (engine_table R e)"
  using assms by (auto simp: engine_core_def dml_inv_def live_def)

lemma flush_writer: "engine_flush e = Some (r, e') \<Longrightarrow> engine_tick e = (y, e1) \<Longrightarrow> en_writer e' = en_writer e1"
  by (auto simp: engine_flush_def store_point_def Let_def split: sum.splits prod.splits option.splits if_splits)

lemma flush_kept:
  assumes inv: "engine_inv intact e" and k: "engine_flush e = Some (r, e')" and room: "engine_room e e'"
    and quiet: "dml_buffer (en_writer e) = []" and rows: "length (staged_list (fst (en_tiers e))) \<le> 2 ^ 33"
  shows "kept e (is_ok r) e'"
proof -
  obtain y e1 where t: "engine_tick e = (y, e1)" by (rule prod.exhaust)
  have i1: "engine_inv intact e1" by (rule inv_tick [OF inv t])
  obtain p0 where p0: "intact (en_disk e) p0" "engine_core e (manifest_point p0)" "en_replay_floor e = replay_floor (manifest_point p0)"
    using inv unfolding engine_inv_def by blast
  let ?q = "manifest_point p0"
  note c = core_tick [OF p0(2) t]
  have s1: "engine_snapshot e1 x = engine_snapshot e x" for x using c(3,4) by (simp add: engine_snapshot_def)
  show ?thesis
  proof (cases y)
    case (Inl x)
    then have "e' = e1" using k t by (simp add: engine_flush_def)
    then show ?thesis using kept_inv [OF i1 s1] by simp
  next
    case (Inr fence)
    obtain sv delta where v: "staged_versions (fst (en_tiers e1)) = (sv, delta)" by (rule prod.exhaust)
    let ?e2 = "e1\<lparr>en_tiers := (delta, snd (en_tiers e1))\<rparr>"
    have di: "delta_inv (fst (en_tiers e1))" using core_alive [OF c(1) c(12) [OF Inr]] by (auto simp: table_inv_def)
    note sp = merge_staged_spec [OF di v [unfolded staged_versions_def]]
    note same = dl_same_views [OF sp(1)] and fields = dl_same_fields [OF sp(1)]
    have c2: "engine_core ?e2 ?q" "engine_core ?e2 (?q\<lparr>durable_fence := fence\<rparr>)"
      using core_delta_same [OF _ sp(1)] c(1) c(11) [OF Inr] by simp_all
    have s2: "engine_snapshot ?e2 x = engine_snapshot e x" for x using snapshot_moved [OF sp(1)] s1 by simp
    have m2: "intact (en_disk ?e2) p0" "en_replay_floor ?e2 = replay_floor ?q" using p0 c(2,7) by simp_all
    have i2: "engine_inv intact ?e2" using m2 c2(1) unfolding engine_inv_def by blast
    have "en_writer e' = en_writer e1" by (rule flush_writer [OF k t])
    then have fits: "offset_fits fence" using room c(13) [OF Inr] by (simp add: engine_room_def)
    show ?thesis
    proof (cases sv)
      case err: (Inl x)
      then have "e' = ?e2" using k t v Inr by (simp add: engine_flush_def)
      then show ?thesis using kept_inv [OF i2 s2] by simp
    next
      case ok: (Inr versions)
      let ?rs = "staged_retractions delta"
      have vs: "versions = staged_list (fst (en_tiers e1))" using sp(2) ok by simp
      note un = k [unfolded engine_flush_def t Inr prod.case sum.case v ok Let_def]
      show ?thesis
      proof (cases "versions = [] \<and> ?rs = []")
        case True
        then obtain idxs r2 e3 where s: "live_indexes ?e2 = Some idxs"
            "store_point \<lparr>replay_floor = en_replay_floor ?e2, durable_fence = fence, live_segments = idxs\<rparr> ?e2 = Some (r2, e3)"
            "is_ok r = is_ok r2" "e' = e3 \<or> e' = e3\<lparr>en_checkpoint := Some fence\<rparr>"
          using un by (auto split: option.splits sum.splits prod.splits)
        have "kept ?e2 (is_ok r2) e3" by (rule fence_outcome [OF m2(1) c2(1) m2(2) c2(2) fits s(1,2)])
        from kept_trans [OF s2 _ this] show ?thesis using s(3,4) c(2) by auto
      next
        case False
        let ?idx = "en_next_segment_index ?e2"
        obtain z d where sg: "seal_segment (en_valid_time ?e2) (en_flush_row_group_rows ?e2) False (segment_name ?idx) versions ?rs (en_disk ?e2) = Some (z, d)"
          using un False by (auto split: option.splits)
        note sn = sealed_next [OF c2(1) sg]
        let ?e3 = "?e2\<lparr>en_disk := d\<rparr>"
        have m3: "intact (en_disk ?e3) p0" using m2(1) sn(3) by (simp add: intact_def)
        have i3: "engine_inv intact ?e3" unfolding engine_inv_def using m3 sn(4) m2(2) by auto
        have s3: "engine_snapshot ?e3 x = engine_snapshot e x" for x using s2 by (simp add: engine_snapshot_def)
        show ?thesis
        proof (cases z)
          case (Inl x)
          then have "e' = ?e3" using un False sg by simp
          then show ?thesis using kept_inv [OF i3 s3] by simp
        next
          case z: (Inr u)
          then obtain idxs r2 e4 where s: "live_indexes ?e2 = Some idxs"
              "store_point \<lparr>replay_floor = fence, durable_fence = fence, live_segments = idxs @ [?idx]\<rparr> ?e3 = Some (r2, e4)" "is_ok r = is_ok r2"
              "e' = (if is_ok r2 then e4\<lparr>en_sealed := SealedVersions_extend (en_sealed e4) versions,
                 en_segment_names := en_segment_names e4 @ [segment_name ?idx], en_next_segment_index := ?idx + 1, en_replay_floor := fence,
                 en_checkpoint := Some fence, en_tiers := (discard_flushed (fst (en_tiers e4)), snd (en_tiers e4))\<rparr> else e4)"
            using un False sg by (auto split: option.splits sum.splits prod.splits)
          let ?pn = "\<lparr>replay_floor = fence, durable_fence = fence, live_segments = live_segments ?q @ [?idx]\<rparr>"
          have idxs: "idxs = live_segments ?q" using live_indexes_core [OF c2(1)] s(1) by simp
          obtain q d' where q: "checkpoint_store ?pn (en_disk ?e3) = Some (q, d')" "e4 = ?e3\<lparr>en_disk := d'\<rparr>" "r2 = map_err EIo q"
            using s(2) unfolding idxs by (rule store_point_cases)
          define e5 where "e5 = ?e3\<lparr>en_sealed := en_sealed ?e3 @ staged_list (fst (en_tiers ?e3)),
            en_segment_names := en_segment_names ?e3 @ [segment_name ?idx], en_next_segment_index := ?idx + 1, en_replay_floor := fence,
            en_checkpoint := Some fence, en_tiers := (discard_flushed (fst (en_tiers ?e3)), snd (en_tiers ?e3))\<rparr>"
          have pf: "point_fits ?pn" using room fits c(6) c(1) by (simp add: engine_room_def point_fits_def engine_core_def)
          note sm = store_manifest [OF q(1) core_wf [OF sn(4)] m3 pf]
          have e'd: "en_disk e' = d'" using s(4) by (auto simp: q(2))
          obtain g where g: "en_writer e1 = (en_writer e)\<lparr>dw_wal := g\<rparr>" using c(10) by blast
          have alive: "\<not> w_poisoned (dw_wal (en_writer ?e3))" "durable_end (dw_wal (en_writer ?e3)) = staged_end (dw_wal (en_writer ?e3))" "dml_buffer (en_writer ?e3) = []"
            using c(12,14) [OF Inr] quiet g by (simp_all add: dml_buffer_def)
          have vs3: "versions = staged_list (fst (en_tiers ?e3))" using vs same(2) by (simp add: staged_list_def)
          have "\<exists>bs. validate_name (segment_name ?idx) = Inr () \<and> file_at d (segment_name ?idx) = Some bs \<and> segment_holds bs (map unresolved versions) ?rs"
            using seal_segment_effect(3) [OF sg core_wf [OF c2(1)]] z core_encodable(1) [OF sn(4) alive(1,3)] rows c(3) vs
              engine_room_file [OF room, of "segment_name ?idx"] sm(2) [of "segment_name ?idx"] e'd by (auto simp: sealable_def)
          then obtain bs where bs: "validate_name (segment_name ?idx) = Inr ()" "file_at d (segment_name ?idx) = Some bs" "segment_holds bs (map unresolved versions) ?rs" by blast
          have five: "engine_core e5 ?pn" "engine_snapshot e5 x = engine_snapshot ?e3 x" for x
            by (rule core_flushed [where e = ?e3 and d' = d and bs = bs and x = "Some fence" and idx = ?idx, OF sn(4) alive sn(1)];
                use bs vs3 c(5) c(13) [OF Inr] room in \<open>simp add: engine_room_def e5_def\<close>)+
          note o = store_outcome [OF m3 sn(4) _ five(1) _ _ _ five(2) q(1) pf]
          have fl: "en_replay_floor ?e3 = replay_floor ?q" "en_replay_floor e5 = replay_floor ?pn" "en_disk e5 = en_disk ?e3" "en_writer e5 = en_writer ?e3"
            using m2(2) by (simp_all add: e5_def)
          show ?thesis
          proof (cases "is_ok r2")
            case True
            then have "e' = e5\<lparr>en_disk := d'\<rparr>" using s(4) vs3 by (simp add: q(2) e5_def SealedVersions_extend_def)
            moreover have "engine_inv intact (e5\<lparr>en_disk := d'\<rparr>)" using o(1) fl True q(3) by (cases q) auto
            ultimately show ?thesis using five(2) s3 by (intro kept_inv) (simp_all add: engine_snapshot_def)
          next
            case False
            then have e': "e' = ?e3\<lparr>en_disk := d'\<rparr>" using s(4) by (simp add: q(2))
            have "kept ?e3 False e'" using o(2,3) fl unfolding kept_def e' by (auto simp: engine_snapshot_def)
            from kept_trans [OF s3 _ this] show ?thesis using sn(3) c(2) False s(3) by simp
          qed
        qed
      qed
    qed
  qed
qed

section \<open>Compaction\<close>

lemma retire_effect:
  assumes "disk_wf d"
  shows "disk_wf (retire_segments names d)" "n \<notin> set names \<Longrightarrow> file_at (retire_segments names d) n = file_at d n"
proof -
  have "disk_wf (retire_segments names d) \<and> (\<forall>n. n \<notin> set names \<longrightarrow> file_at (retire_segments names d) n = file_at d n)"
    using assms
  proof (induction names arbitrary: d)
    case (Cons name names)
    have "disk_remove name d = (fst (disk_remove name d), snd (disk_remove name d))" by simp
    note e = disk_remove_effect [OF this]
    show ?case using Cons.IH [OF e(2) [OF Cons.prems]] e(1) by simp
  qed simp
  then show "disk_wf (retire_segments names d)" "n \<notin> set names \<Longrightarrow> file_at (retire_segments names d) n = file_at d n" by blast+
qed

text \<open>What the segments of an engine hold, read without faults.\<close>

definition sealed_contents :: "engine \<Rightarrow> version list \<times> close list" where
  "sealed_contents e = (case read_segments (en_segment_names e) (quiet (en_disk e)) of (Inl _, _) \<Rightarrow> ([], []) | (Inr x, _) \<Rightarrow> x)"

lemma sealed_contents_core:
  assumes "en_segment_names e = map segment_name (live_segments q)" "sealed_ok (en_disk e) q (en_sealed e) R ends"
  shows "sealed_contents e = (en_sealed e, R)" "read_segments (en_segment_names e) (en_disk e) = (Inr x, d) \<Longrightarrow> x = (en_sealed e, R)"
    "read_segments (en_segment_names e) (en_disk e) = (y, d) \<Longrightarrow> disk_same (en_disk e) d"
proof -
  obtain segs where segs: "segments_hold (en_disk e) (en_segment_names e) segs" "en_sealed e = concat (map fst segs)" "R = concat (map snd segs)"
    using assms by (auto simp: sealed_ok_def)
  show "read_segments (en_segment_names e) (en_disk e) = (Inr x, d) \<Longrightarrow> x = (en_sealed e, R)"
    using segments_hold_honest(1) [OF segs(1)] segs(2,3) by simp
  have "segments_hold (quiet (en_disk e)) (en_segment_names e) segs"
    using segs(1) disk_same_views(1) [of "en_disk e" "quiet (en_disk e)"] by (simp add: segments_hold_def)
  then show "sealed_contents e = (en_sealed e, R)" using segments_hold_read segs(2,3) by (simp add: sealed_contents_def)
  show "read_segments (en_segment_names e) (en_disk e) = (y, d) \<Longrightarrow> disk_same (en_disk e) d" by (rule honestD(1) [OF honest_segments])
qed

lemma sum_sorted: "sum_list (map f (sort_key k xs)) = sum_list (map f xs)" for f :: "'a \<Rightarrow> nat"
  by (metis mset_map mset_sort sum_mset_sum_list)

lemma sealable_sorted: "sealable dict (sort_key k vs) (sort_key l rs) = sealable dict vs rs"
  by (simp add: sealable_def sum_sorted)

lemma compact_writer: "engine_compact e = Some (r, e') \<Longrightarrow> \<not> length (en_segment_names e) < 2 \<Longrightarrow> engine_tick e = (y, e1) \<Longrightarrow> en_writer e' = en_writer e1"
  by (auto simp: engine_compact_def store_point_def Let_def split: sum.splits prod.splits option.splits)

lemma compact_kept:
  assumes inv: "engine_inv intact e" and k: "engine_compact e = Some (r, e')" and room: "engine_room e e'"
    and sl: "sealable True (fst (sealed_contents e)) (snd (sealed_contents e))"
  shows "kept e (is_ok r) e'"
proof (cases "length (en_segment_names e) < 2")
  case True
  then have "e' = e" using k by (simp add: engine_compact_def)
  then show ?thesis using kept_inv [OF inv, of e] by simp
next
  case False
  obtain y e1 where t: "engine_tick e = (y, e1)" by (rule prod.exhaust)
  have i1: "engine_inv intact e1" by (rule inv_tick [OF inv t])
  obtain p0 where p0: "intact (en_disk e) p0" "engine_core e (manifest_point p0)" "en_replay_floor e = replay_floor (manifest_point p0)"
    using inv unfolding engine_inv_def by blast
  let ?q = "manifest_point p0"
  note c = core_tick [OF p0(2) t]
  have s1: "engine_snapshot e1 x = engine_snapshot e x" for x using c(3,4) by (simp add: engine_snapshot_def)
  show ?thesis
  proof (cases y)
    case (Inl x)
    then have "e' = e1" using k t False by (simp add: engine_compact_def)
    then show ?thesis using kept_inv [OF i1 s1] by simp
  next
    case (Inr fence)
    have "en_writer e' = en_writer e1" by (rule compact_writer [OF k False t])
    then have fits: "offset_fits fence" using room c(13) [OF Inr] by (simp add: engine_room_def)
    obtain y2 d0 where rd: "read_segments (en_segment_names e1) (en_disk e1) = (y2, d0)" by (rule prod.exhaust)
    let ?qf = "?q\<lparr>durable_fence := fence\<rparr>" and ?e2 = "e1\<lparr>en_disk := d0\<rparr>"
    note cf = c(11) [OF Inr]
    obtain R ends P where s: "sealed_ok (en_disk e1) ?qf (en_sealed e1) R ends"
        "dml_inv (log_from (replay_floor ?qf) (durable_fence ?qf) P) (engine_table R e1) (sealed_view ends) (en_writer e1, en_tiers e1)"
      by (rule engine_coreE [OF cf])
    have names: "en_segment_names e1 = map segment_name (live_segments ?qf)" "\<And>i. i \<in> set (live_segments ?qf) \<Longrightarrow> i < en_next_segment_index e1"
      using cf by (auto simp: engine_core_def)
    note sc = sealed_contents_core [OF names(1) s(1)]
    have same: "disk_same (en_disk e1) d0" by (rule sc(3) [OF rd])
    note v = disk_same_views [OF same]
    have c2: "engine_core ?e2 ?q" by (rule core_disk [OF c(1)]) (use v core_wf [OF c(1)] in simp_all)
    have m2: "intact (en_disk ?e2) p0" "en_replay_floor ?e2 = replay_floor ?q" using p0 c(2,7) v(1) by (simp_all add: intact_def)
    have i2: "engine_inv intact ?e2" using m2 c2 unfolding engine_inv_def by blast
    have s2: "engine_snapshot ?e2 x = engine_snapshot e x" for x using s1 by (simp add: engine_snapshot_def)
    note un = k [unfolded engine_compact_def if_not_P [OF False] t Inr prod.case sum.case rd Let_def]
    show ?thesis
    proof (cases y2)
      case err: (Inl x)
      then have "e' = ?e2" using un by simp
      then show ?thesis using kept_inv [OF i2 s2] by simp
    next
      case ok: (Inr x)
      have x: "x = (en_sealed e1, R)" using sc(2) rd ok by simp
      let ?vs = "sort_key vkey (en_sealed e1)" and ?rs = "sort_key close_target R" and ?idx = "en_next_segment_index e1"
      note un2 = un [unfolded ok x sum.case prod.case]
      obtain z d where sg: "seal_segment (en_valid_time e1) (en_flush_row_group_rows e1) True (segment_name ?idx) ?vs ?rs d0 = Some (z, d)"
        using un2 by (auto split: option.splits)
      note sn = sealed_next [OF c2, of "en_valid_time e1" "en_flush_row_group_rows e1" True ?vs ?rs z d, simplified, OF sg]
      let ?e3 = "e1\<lparr>en_disk := d\<rparr>"
      have m3: "intact (en_disk ?e3) p0" using m2(1) sn(3) by (simp add: intact_def)
      have i3: "engine_inv intact ?e3" unfolding engine_inv_def using m3 sn(4) m2(2) by auto
      have s3: "engine_snapshot ?e3 x = engine_snapshot e x" for x using s2 by (simp add: engine_snapshot_def)
      show ?thesis
      proof (cases z)
        case (Inl w)
        then have "e' = ?e3" using un2 sg by simp
        then show ?thesis using kept_inv [OF i3 s3] by simp
      next
        case z: (Inr u)
        let ?pn = "\<lparr>replay_floor = replay_floor ?qf, durable_fence = durable_fence ?qf, live_segments = [?idx]\<rparr>"
        obtain r2 e4 where st: "store_point \<lparr>replay_floor = en_replay_floor e1, durable_fence = fence, live_segments = [?idx]\<rparr> ?e3 = Some (r2, e4)" "is_ok r = is_ok r2"
            "e' = (if is_ok r2 then e4\<lparr>en_disk := retire_segments (en_segment_names e4) (en_disk e4), en_segment_names := [segment_name ?idx],
               en_sealed := ?vs, en_next_segment_index := ?idx + 1, en_checkpoint := Some fence\<rparr> else e4)"
          using un2 sg z by (auto split: option.splits sum.splits prod.splits)
        obtain q d' where q: "checkpoint_store ?pn (en_disk ?e3) = Some (q, d')" "e4 = ?e3\<lparr>en_disk := d'\<rparr>" "r2 = map_err EIo q"
          using st(1) m2(2) by (auto elim: store_point_cases)
        define e5 where "e5 = ?e3\<lparr>en_disk := d, en_sealed := ?vs, en_segment_names := [segment_name ?idx], en_next_segment_index := ?idx + 1, en_checkpoint := Some fence\<rparr>"
        have pf: "point_fits ?pn" using intact_fits [OF p0(1)] fits by (simp add: point_fits_def MAX_LIVE_SEGMENTS_def)
        note sm = store_manifest [OF q(1) core_wf [OF sn(4)] m3 pf]
        have fresh: "segment_name ?idx \<notin> set (en_segment_names e1)" using names(1) names(2) [of ?idx] by auto
        have at: "file_at (en_disk e') (segment_name ?idx) = file_at d (segment_name ?idx)"
          using sm(1,2) retire_effect(2) [OF _ fresh] unfolding st(3) by (simp add: q(2))
        have so: "sealed_ok d ?qf (en_sealed e1) R ends" by (rule sealed_ok_disk [OF s(1) sn(1)]) (use sn(2) v(1) in simp)
        have cont: "sealed_contents e = (en_sealed e1, R)" using sc(1) c(2,6) by (simp add: sealed_contents_def)
        have "\<exists>bs. validate_name (segment_name ?idx) = Inr () \<and> file_at d (segment_name ?idx) = Some bs \<and> segment_holds bs (map unresolved ?vs) ?rs"
          using seal_segment_effect(3) [OF sg] core_wf [OF c2] z so sl engine_room_file [OF room, of "segment_name ?idx"] at
          by (auto simp: sealable_sorted cont sealed_ok_def)
        then obtain bs where bs: "validate_name (segment_name ?idx) = Inr ()" "file_at d (segment_name ?idx) = Some bs" "segment_holds bs (map unresolved ?vs) ?rs" by blast
        have dml: "dml_inv (log_from (replay_floor ?qf) (durable_fence ?qf) P) (engine_table R ?e3) (sealed_view ends) (en_writer ?e3, en_tiers ?e3)"
          using s(2) dml_inv_engine [of ?e3 e1] by simp
        have five: "engine_core e5 ?pn" "engine_snapshot e5 x = engine_snapshot ?e3 x" for x
          by (rule core_compacted [where e = ?e3 and d' = d and bs = bs and x = "Some fence" and idx = ?idx, OF _ _ _ dml sn(1)];
              use bs names so c(5) c(12) [OF Inr] room in \<open>simp add: engine_room_def e5_def\<close>)+
        note o = store_outcome [OF m3 sn(4) _ five(1) _ _ _ five(2) q(1) pf]
        have fl: "en_replay_floor ?e3 = replay_floor ?q" "en_replay_floor e5 = replay_floor ?pn" "en_disk e5 = en_disk ?e3" "en_writer e5 = en_writer ?e3"
          using m2(2) by (simp_all add: e5_def)
        show ?thesis
        proof (cases "is_ok r2")
          case True
          let ?d2 = "retire_segments (en_segment_names e1) d'"
          have e': "e' = (e5\<lparr>en_disk := d'\<rparr>)\<lparr>en_disk := ?d2\<rparr>" using st(3) True by (simp add: q(2) e5_def)
          have q0: "q = Inr ()" using True q(3) by (cases q) auto
          have c5: "engine_core (e5\<lparr>en_disk := d'\<rparr>) ?pn" by (rule core_disk [OF five(1) sm(1)]) (use sm(2) fl(3) in simp)
          have "engine_core e' ?pn" unfolding e'
            by (rule core_disk [OF c5 retire_effect(1) [OF sm(1)]]) (use retire_effect(2) [OF sm(1) fresh] in simp)
          moreover have "intact (en_disk e') (Some ?pn)"
          proof -
            have "CHECKPOINT_FILENAME \<notin> set (en_segment_names e1)" using names(1) by auto
            then show ?thesis using sm(3) [OF q0] retire_effect(2) [OF sm(1)] by (simp add: e' intact_def)
          qed
          moreover have "en_replay_floor e' = replay_floor ?pn" using fl(2) by (simp add: e')
          ultimately have "engine_inv intact e'" unfolding engine_inv_def by (intro exI [of _ "Some ?pn"]) (simp add: manifest_point_def)
          then show ?thesis using five(2) s3 by (intro kept_inv) (simp_all add: e' engine_snapshot_def)
        next
          case False
          then have e': "e' = ?e3\<lparr>en_disk := d'\<rparr>" using st(3) by (simp add: q(2))
          have "kept ?e3 False e'" using o(2,3) fl unfolding kept_def e' by (auto simp: engine_snapshot_def)
          from kept_trans [OF s3 _ this] show ?thesis using sn(3) v(1) c(2) False st(2) by simp
        qed
      qed
    qed
  qed
qed

end
