(* ===== verification/Engine_Recovery.thy ===== *)
theory Engine_Recovery
  imports Engine_Steps
begin

text \<open>
  Recovery of an engine from its disks: the manifest names the segments, dead segments are dropped, the
  index is rebuilt from the live ones, and the log is replayed from the floor. Whatever the engine that
  left the disks showed, the recovered one shows.
\<close>

section \<open>Dead segments\<close>

lemma drop_dead_effect:
  assumes "disk_wf d"
  shows "disk_wf (drop_dead_segments idxs names d)" "no_faults d \<Longrightarrow> no_faults (drop_dead_segments idxs names d)"
    "i \<in> set idxs \<Longrightarrow> file_at (drop_dead_segments idxs names d) (segment_name i) = file_at d (segment_name i)"
proof -
  have "disk_wf (drop_dead_segments idxs names d) \<and> (no_faults d \<longrightarrow> no_faults (drop_dead_segments idxs names d)) \<and>
      (\<forall>i \<in> set idxs. file_at (drop_dead_segments idxs names d) (segment_name i) = file_at d (segment_name i))"
    using assms
  proof (induction names arbitrary: d)
    case (Cons name names)
    have "disk_remove name d = (fst (disk_remove name d), snd (disk_remove name d))" by simp
    note e = disk_remove_effect [OF this] disk_remove_no_faults [of d name]
    have live: "(case segment_index_of name of None \<Rightarrow> False | Some idx \<Rightarrow> idx \<in> set idxs)" if "name = segment_name i" "i \<in> set idxs" for i
      using that by (simp add: segment_name_index)
    show ?case
    proof (cases "case segment_index_of name of None \<Rightarrow> False | Some idx \<Rightarrow> idx \<in> set idxs")
      case True
      then show ?thesis using Cons by simp
    next
      case False
      then have "\<forall>i \<in> set idxs. segment_name i \<noteq> name" using live by blast
      then show ?thesis using False Cons.IH [OF e(2) [OF Cons.prems]] e(1,3) by auto
    qed
  qed simp
  then show "disk_wf (drop_dead_segments idxs names d)" "no_faults d \<Longrightarrow> no_faults (drop_dead_segments idxs names d)"
    "i \<in> set idxs \<Longrightarrow> file_at (drop_dead_segments idxs names d) (segment_name i) = file_at d (segment_name i)" by blast+
qed

section \<open>Reopening the log\<close>

text \<open>The disk of a log that holds \<open>L\<close>, with bytes of a torn append behind it.\<close>

definition log_disk :: "mem_disk \<Rightarrow> bytes list list \<Rightarrow> bytes \<Rightarrow> bool" where
  "log_disk d L tail \<longleftrightarrow> L \<noteq> [] \<and> no_faults d \<and> wal_segment_list d = [0..<length L] \<and>
     (\<forall>i < length L. \<exists>f. seg_file d i = Some f \<and> md_store d ! f = seg_bytes (L ! i) @ (if i = length L - 1 then tail else [])) \<and>
     (\<forall>recs \<in> set L. \<forall>p \<in> set recs. length p \<le> MAX_PAYLOAD_LEN)"

text \<open>The log that opening such a disk gives, appending to the file \<open>f\<close> behind the tail.\<close>

definition wal_reopened :: "mem_disk \<Rightarrow> nat \<Rightarrow> bytes list list \<Rightarrow> bytes \<Rightarrow> file_id \<Rightarrow> wal" where
  "wal_reopened d sz L tail f = (let end_off = LogOffset (length L - 1) (length (seg_bytes (last L) @ tail)) in
     \<lparr>w_disk = d, segment_size_bytes = sz, current_segment_index = length L - 1, w_current = f, staged_end = end_off, durable_end = end_off,
       w_waiters = [], w_poisoned = False\<rparr>)"

lemma wal_open_live:
  assumes "log_disk d L tail"
  obtains f where "wal_open d sz = (Inr (wal_reopened d sz L tail f), d)" "wal_tail (wal_reopened d sz L tail f) L tail"
    "seg_file d (length L - 1) = Some f" "md_store d ! f = seg_bytes (last L) @ tail"
proof -
  have l: "list_segments d = (Inr (wal_segment_list d), d)"
    using assms by (simp add: log_disk_def list_segments_def disk_list_def disk_check_no_faults wal_segment_list_def)
  let ?n = "length L - 1"
  have n: "last (wal_segment_list d) = ?n" "wal_segment_list d \<noteq> []" "?n < length L" "L ! ?n = last L" using assms by (auto simp: log_disk_def last_conv_nth)
  have files: "\<exists>f. seg_file d i = Some f \<and> md_store d ! f = seg_bytes (L ! i) @ (if i = ?n then tail else [])" if "i < length L" for i
    using assms that by (simp add: log_disk_def)
  from files [OF n(3)] n(4) obtain f where f: "seg_file d ?n = Some f" "md_store d ! f = seg_bytes (last L) @ tail" by auto
  have o: "disk_open (wal_name_for ?n) d = (Inr f, d)"
    using f(1) assms by (simp add: disk_open_def validate_wal_name seg_file_def log_disk_def disk_check_no_faults)
  have s: "disk_sync_dir d = (Inr (), d)" using assms by (simp add: disk_sync_dir_def log_disk_def disk_check_no_faults)
  have oc: "wal_open_current (wal_segment_list d) d = (Inr (?n, f), d)" unfolding wal_open_current_def n(1) if_P [OF n(2)] o by simp
  let ?g = "wal_reopened d sz L tail f"
  have g: "w_disk ?g = d" "current_segment_index ?g = ?n" "w_current ?g = f" by (simp_all add: wal_reopened_def Let_def)
  have "wal_tail ?g L tail" unfolding wal_tail_def
  proof (intro conjI allI impI)
    fix i assume i: "i < length L"
    from files [OF i] obtain h where h: "seg_file d i = Some h" "md_store d ! h = seg_bytes (L ! i) @ (if i = ?n then tail else [])" by blast
    then show "seg_present ?g i" "seg_content ?g i = seg_bytes (L ! i) @ (if i = ?n then tail else [])"
      using g f by (auto simp: seg_present_def seg_content_def)
  qed (use assms g in \<open>simp_all add: log_disk_def\<close>)
  moreover have "wal_open d sz = (Inr ?g, d)" by (simp add: wal_open_def l oc s Let_def file_len_def f(2) wal_reopened_def)
  ultimately show thesis using that f by blast
qed

section \<open>Rebuilding\<close>

lemma rebuild_ready:
  assumes "vi_ready s" "vi_abs s = Map.empty" "history_ends vs rs ends" "ends_encodable ends"
  shows "\<exists>s'. rebuild_index_from_segments vs rs s = (Inr (), s') \<and> vi_ready s' \<and> vi_abs s' = ends"
proof -
  have "ends (close_target c) = Some (close_interval c) \<and> close_encodable c" if "c \<in> set (rs @ adjacency_closes vs rs)" for c
  proof -
    have e: "ends (close_target c) = Some (close_interval c)" by (rule rebuild_records [OF assms(3) that])
    then have "close_encodable (entry_close (close_target c, close_interval c))" using assms(4) unfolding ends_encodable_def by blast
    moreover have "entry_close (close_target c, close_interval c) = c" by (cases c) (simp add: close_target_def close_interval_def)
    ultimately show ?thesis using e by simp
  qed
  then obtain s' where s': "try_all insert_close (rs @ adjacency_closes vs rs) s = (Inr (), s')" "vi_ready s'"
    using try_all_live [of "rs @ adjacency_closes vs rs" ends s] assms(1,2) by (auto simp del: set_append)
  moreover have "vi_inv s" using assms(1) by (simp add: vi_ready_def)
  ultimately show ?thesis using rebuild_exact [of s vs rs ends s'] assms(2,3) by (simp add: rebuild_is_inserts)
qed

section \<open>Recovery\<close>

lemma sorted_live: "sorted_wrt (<) xs \<Longrightarrow> sort (remdups xs) = (xs :: 'a :: linorder list)"
  by (simp add: strict_sorted_iff sorted_sort_id distinct_remdups_id)

lemma fresh_tiers:
  assumes "disk_wf dd" "Delta_open dd a = (Inr delta, dd')" "disk_wf vd" "ValidityIndex_open vd b = (Inr index, vd')"
  shows "staged_set delta = {}" "dl_retractions delta = []" "vi_abs index = Map.empty"
  using Delta_open_ok [OF assms(1,2)] ValidityIndex_open_ok [OF assms(3,4)] by simp_all

lemma recover_core:
  assumes inv: "engine_inv boots e" and alive: "\<not> w_poisoned (dw_wal (en_writer e))" "\<not> dw_group_bulk (en_writer e)"
    and sd: "disk_same (en_disk e) sd" "no_faults sd"
    and log: "wal_holds (dw_wal (en_writer e)) L" "log_disk wd L tail" "frame_split tail = None"
    and tiers: "disk_wf dd" "Delta_open dd DELTA_DEFAULT_SPILL_THRESHOLD = (Inr delta, dd')" "disk_wf vd" "ValidityIndex_open vd VALIDITY_DEFAULT_SPILL_THRESHOLD = (Inr index, vd')"
      "tiers_ready (length (concat (concat L))) (delta, index)"
  shows "\<exists>e' ds. recover_with_commits (sd, wd, dd, vd) vt All = Some (Inr e', ds) \<and> (\<forall>x. engine_snapshot e' x = engine_snapshot (engine_abort_group e) x)"
proof -
  obtain p where p: "boots (en_disk e) p" "engine_core e (manifest_point p)" "en_replay_floor e = replay_floor (manifest_point p)"
    using inv unfolding engine_inv_def by blast
  let ?q = "manifest_point p" and ?w = "en_writer e"
  obtain R ends P where s: "sealed_ok (en_disk e) ?q (en_sealed e) R ends"
      "dml_inv (log_from (replay_floor ?q) (durable_fence ?q) P) (engine_table R e) (sealed_view ends) (?w, en_tiers e)"
    by (rule engine_coreE [OF p(2)])
  obtain recs where h: "log_from (replay_floor ?q) (durable_fence ?q) P (dw_wal ?w) (map record_bytes recs)" "list_all record_ok recs"
      "live (engine_table R e) (sealed_view ends) (vouched_redos All recs) ?w (en_tiers e)"
    using s(2) alive(1) by (auto simp: dml_inv_def)
  note v = disk_same_views [OF sd(1)]
  have load: "checkpoint_load sd = (Inr p, sd)" using p(1) sd(2) v(1) by (simp add: boots_def)
  have point: "(case p of None \<Rightarrow> LogOffset_ZERO | Some p \<Rightarrow> replay_floor p) = replay_floor ?q" "(case p of None \<Rightarrow> LogOffset_ZERO | Some p \<Rightarrow> durable_fence p) = durable_fence ?q"
      "sort (remdups (case p of None \<Rightarrow> [] | Some p \<Rightarrow> live_segments p)) = live_segments ?q"
    using s(1) sorted_live [of "live_segments ?q"] by (simp_all add: manifest_point_def sealed_ok_def split: option.splits)
  obtain names where ls: "list_segment_names sd = (Inr names, sd)"
    using sd(2) by (simp add: list_segment_names_def disk_list_def disk_check_no_faults)
  let ?sd = "drop_dead_segments (live_segments ?q) names sd"
  have wf: "disk_wf sd" using s(1) v(2) by (simp add: sealed_ok_def)
  note dd = drop_dead_effect [OF wf, where idxs = "live_segments ?q" and names = names]
  have so: "sealed_ok ?sd ?q (en_sealed e) R ends" by (rule sealed_ok_disk [OF s(1) dd(1)]) (use dd(3) v(1) in simp)
  then obtain segs where "segments_hold ?sd (map segment_name (live_segments ?q)) segs" "en_sealed e = concat (map fst segs)" "R = concat (map snd segs)"
    by (auto simp: sealed_ok_def)
  then have rs: "read_segments (map segment_name (live_segments ?q)) ?sd = (Inr (en_sealed e, R), ?sd)"
    using segments_hold_read dd(2) [OF sd(2)] by simp
  obtain g where g: "wal_open wd WAL_DEFAULT_SEGMENT_SIZE = (Inr g, wd)" "w_disk g = wd" "wal_tail g L tail"
    by (rule wal_open_live [OF log(2), of WAL_DEFAULT_SEGMENT_SIZE]) (auto simp: wal_reopened_def Let_def)
  note ft = fresh_tiers [OF tiers(1-4)]
  have vr: "vi_ready index" using tiers(5) by (simp add: tiers_ready_def)
  have he: "history_ends (en_sealed e) R ends" "ends_encodable ends" using s(1) timelineD(7) by (auto simp: sealed_ok_def)
  obtain index' where ri: "rebuild_index_from_segments (en_sealed e) R index = (Inr (), index')" "vi_ready index'" "vi_abs index' = ends"
    using rebuild_ready [OF vr ft(3) he] by blast
  obtain L' A B where L': "wal_holds (dw_wal ?w) L'" "floor_at L' (replay_floor ?q) P (map record_bytes recs)" "floor_at L' (durable_fence ?q) A B"
    using h(1) by (auto simp: log_from_def)
  have "L' = L" by (rule wal_holds_unique [OF L'(1) log(1)])
  note fl = L'(2,3) [unfolded this]
  have "length (concat (map record_bytes recs)) \<le> length (concat (concat L))" using floor_concat [OF fl(1)] by simp
  then have ready: "tiers_ready (length (concat (map record_bytes recs))) (delta, index')"
    using tiers(5) ri(2) by (simp add: tiers_ready_def)
  have vw0: "view_of (delta, index') = sealed_view ends" using ft ri(3) by (simp add: view_of_def sealed_view_def bt_get_def [abs_def])
  have fence: "durable_fence ?q \<le> torn_at L" using fence_reached [OF fl(2)] by (simp add: torn_at_def)
  have nf: "md_faults (w_disk g) = []" using g(2) log(2) by (simp add: log_disk_def no_faults_def)
  obtain n g' ts where r: "recover_replay (replay_floor ?q) (durable_fence ?q) All g (delta, index') = Some (Inr n, g', ts)" "tiers_inv ts"
      "view_of ts = fold redo_view (vouched_redos All recs) (sealed_view ends)"
    using recover_log [OF g(3) log(3) nf fl(1) h(2) ready, of All "durable_fence ?q"] live_admitted [OF h(3)] fence unfolding vw0 by auto
  obtain e' ds where rec: "recover_with_commits (sd, wd, dd, vd) vt All = Some (Inr e', ds)" and e': "en_tiers e' = ts" "en_sealed e' = en_sealed e"
    by (simp add: recover_with_commits_def Let_def load point ls rs g(1) tiers(2,4) ri(1) r(1))
  obtain base where b: "view_of base = fold redo_view (vouched_redos All recs) (sealed_view ends)" "undoable (engine_table R e) (dw_last ?w) base (dml_buffer ?w) (en_tiers e)"
    using h(3) alive(2) unfolding live_def by blast
  have ab: "snd (abort_group ?w (en_tiers e)) = undo_redos (dml_buffer ?w) (en_tiers e)"
    using alive(2) by (simp add: abort_group_def Let_def dml_buffer_def undo_redos_def split: option.split)
  have "view_of ts = view_of (snd (abort_group ?w (en_tiers e)))" using undoable_undo(3) [OF b(2)] b(1) r(3) by (simp add: ab)
  moreover have "table_inv (retier (engine_table R e) (dw_last ?w) (snd (abort_group ?w (en_tiers e))))" using undoable_undo(1) [OF b(2)] by (simp add: ab)
  ultimately have "as_of (retier (engine_table R e) (dw_last ?w) ts) x = as_of (retier (engine_table R e) (dw_last ?w) (snd (abort_group ?w (en_tiers e)))) x" for x
    using table_inv_view(2) [OF _ r(2)] by blast
  then have "engine_snapshot e' x = engine_snapshot (engine_abort_group e) x" for x
    by (simp add: as_of_def engine_snapshot_def tb_versions_def e' engine_abort_group_def split: prod.split)
  with rec show ?thesis by blast
qed

end
