(* ===== verification/Engine_Props.thy ===== *)
theory Engine_Props
  imports Engine_Recovery
begin

text \<open>
  What the storage engine guarantees: its reads are exact, maintenance changes none of them, and a crash
  at any point of any run is recovered to the reads the engine last showed.
\<close>

section \<open>Runs\<close>

inductive maintenance :: "engine \<Rightarrow> bool \<Rightarrow> engine \<Rightarrow> bool" where
  checkpoints: "engine_checkpoint e = Some (r, e') \<Longrightarrow> engine_room e e' \<Longrightarrow> maintenance e (is_ok r) e'"
| flushes: "engine_flush e = Some (r, e') \<Longrightarrow> engine_room e e' \<Longrightarrow> dw_group (en_writer e) = None \<Longrightarrow>
     length (staged_list (fst (en_tiers e))) \<le> 2 ^ 33 \<Longrightarrow> maintenance e (is_ok r) e'"
| compacts: "engine_compact e = Some (r, e') \<Longrightarrow> engine_room e e' \<Longrightarrow>
     sealable True (fst (sealed_contents e)) (snd (sealed_contents e)) \<Longrightarrow> maintenance e (is_ok r) e'"

text \<open>
  A session's call, or a maintenance call that succeeded or failed before it touched the manifest file.
\<close>

inductive engine_step :: "engine \<Rightarrow> engine \<Rightarrow> bool" where
  session: "dml_step (engine_table [] e) (en_writer e, en_tiers e) (w, ts) \<Longrightarrow> engine_step e (e\<lparr>en_writer := w, en_tiers := ts\<rparr>)"
| maintained: "maintenance e ok e' \<Longrightarrow> ok \<or> file_at (en_disk e') CHECKPOINT_FILENAME = file_at (en_disk e) CHECKPOINT_FILENAME \<Longrightarrow> engine_step e e'"

lemma statement_retracted:
  assumes "statement enabled t st" "tb_sealed t' = tb_sealed t" "tb_last t' = tb_last t" "tb_delta t' = tb_delta t" "tb_index t' = tb_index t"
  shows "statement enabled t' st"
proof -
  have eq: "tb_tiers t' = tb_tiers t" "seq_fresh k n s t' = seq_fresh k n s t" "stmt_room t' k p pr = stmt_room t k p pr" for k n s p pr
    using assms by (simp_all add: tb_tiers_def seq_fresh_def tb_versions_def stmt_room_def)
  from assms(1) show ?thesis
  proof cases
    case (insert_stmt key now seq payload prin valid txn_id)
    then show ?thesis using statement.insert_stmt [of key now seq t' payload prin enabled valid txn_id] assms(2,3) eq by simp
  next
    case (update_stmt key now seq payload prin valid txn_id)
    then show ?thesis using statement.update_stmt [of key now seq t' payload prin enabled valid txn_id] assms(2,3) eq by simp
  next
    case (delete_stmt key prin txn_id now)
    then show ?thesis using statement.delete_stmt [of t' key prin enabled txn_id now] assms(2,3) eq by simp
  qed
qed

lemma dml_step_retracted:
  assumes "dml_step (engine_table R e) s s'"
  shows "dml_step (engine_table R' e) s s'"
proof -
  have st: "statement b (retier (engine_table R' e) l ts) x" if "statement b (retier (engine_table R e) l ts) x" for b l ts x
    by (rule statement_retracted [OF that]) simp_all
  from assms show ?thesis
  proof cases
    case (wrote w ts staged res w' ts')
    then show ?thesis using dml_step.wrote [OF st] by blast
  next
    case (failed_in_group w ts staged res w' ts')
    then show ?thesis using dml_step.failed_in_group [OF st] by blast
  qed (auto intro: dml_step.intros)
qed

lemma maintenance_kept: "maintenance e ok e' \<Longrightarrow> engine_inv intact e \<Longrightarrow> kept e ok e'"
  by (erule maintenance.cases) (auto intro: checkpoint_kept flush_kept compact_kept simp: dml_buffer_def)

lemma session_inv:
  assumes "engine_inv M e" "dml_step (engine_table [] e) (en_writer e, en_tiers e) (w, ts)"
  shows "engine_inv M (e\<lparr>en_writer := w, en_tiers := ts\<rparr>)"
proof -
  obtain p where p: "M (en_disk e) p" "engine_core e (manifest_point p)" "en_replay_floor e = replay_floor (manifest_point p)"
    using assms(1) unfolding engine_inv_def by blast
  let ?q = "manifest_point p" and ?e = "e\<lparr>en_writer := w, en_tiers := ts\<rparr>"
  obtain R ends P where s: "sealed_ok (en_disk e) ?q (en_sealed e) R ends"
      "dml_inv (log_from (replay_floor ?q) (durable_fence ?q) P) (engine_table R e) (sealed_view ends) (en_writer e, en_tiers e)"
    by (rule engine_coreE [OF p(2)])
  have "dml_inv (log_from (replay_floor ?q) (durable_fence ?q) P) (engine_table R e) (sealed_view ends) (w, ts)"
    by (rule step_inv [OF floored.durable_log_axioms dml_step_retracted [OF assms(2)] s(2)])
  then have "engine_core ?e ?q" using p(2) s(1) dml_inv_engine [of ?e e]
    by (intro engine_coreI [of _ _ R ends P]) (auto simp: engine_core_def)
  then show ?thesis using p(1,3) unfolding engine_inv_def by auto
qed

lemma engine_step_inv: "engine_step e e' \<Longrightarrow> engine_inv intact e \<Longrightarrow> engine_inv intact e'"
  by (erule engine_step.cases) (auto intro: session_inv dest: maintenance_kept simp: kept_def)

lemma engine_run_inv: "engine_step\<^sup>*\<^sup>* e e' \<Longrightarrow> engine_inv intact e \<Longrightarrow> engine_inv intact e'"
  by (induction rule: rtranclp_induct) (auto intro: engine_step_inv)

text \<open>The engine's calls are steps, unless a statement failed halfway through the tiers.\<close>

definition call_ok :: "engine_error + 'a \<Rightarrow> engine \<Rightarrow> bool" where
  "call_ok r e \<longleftrightarrow> wal_room (dw_wal (en_writer e)) \<and> (\<forall>x. r \<noteq> Inl (EDml (DmlApply x)))"

lemma map_err_dml: "(\<forall>x. map_err EDml r \<noteq> Inl (EDml (DmlApply x))) \<longleftrightarrow> \<not> apply_failed r"
  by (cases r) (auto simp: apply_failed_def map_err_def split: dml_error.splits)

lemma write_step:
  assumes "engine_write f e = (r, e')" "\<And>res w ts. f (en_writer e) (en_tiers e) = (res, w, ts) \<Longrightarrow> \<not> apply_failed res \<Longrightarrow> wal_room (dw_wal w) \<Longrightarrow>
     dml_step (engine_table [] e) (en_writer e, en_tiers e) (w, ts)" "call_ok r e'"
  shows "engine_step e e'"
  using assms by (auto simp: engine_write_def call_ok_def map_err_dml split: prod.splits intro!: engine_step.session)

lemma engine_tiers: "tb_tiers (engine_table R e) = en_tiers e"
  by (simp add: tb_tiers_def)

lemma run_step:
  assumes "engine_write f e = (r, e')" "call_ok r e'" "f (en_writer e) (en_tiers e) = dml_run staged (en_writer e)"
    "statement (dw_valid_time (en_writer e)) (engine_table [] e) staged"
  shows "engine_step e e'"
  by (rule write_step [OF assms(1) _ assms(2)], rule dml_step.wrote [of _ _ _ staged]) (use assms(3,4) in simp_all)

lemmas table_statement = statement.intros [where t = "engine_table [] e" for e, unfolded engine_table_simps engine_tiers]

lemma engine_writes_step:
  shows "engine_insert key valid payload seq txn_id prin now e = (r, e') \<Longrightarrow> call_ok r e' \<Longrightarrow> seq_fresh key now seq (engine_table [] e) \<Longrightarrow>
      stmt_room (engine_table [] e) key payload prin \<Longrightarrow> engine_step e e'"
    and "engine_update key valid payload seq txn_id prin now e = (r, e') \<Longrightarrow> call_ok r e' \<Longrightarrow> seq_fresh key now seq (engine_table [] e) \<Longrightarrow>
      stmt_room (engine_table [] e) key payload prin \<Longrightarrow> engine_step e e'"
    and "engine_delete key txn_id prin now e = (r, e') \<Longrightarrow> call_ok r e' \<Longrightarrow> stmt_room (engine_table [] e) key None prin \<Longrightarrow> engine_step e e'"
  unfolding engine_insert_def engine_update_def engine_delete_def
  by (rule run_step, assumption, assumption, simp add: dml_insert_def dml_update_def dml_delete_def, (rule table_statement; assumption))+

lemma session_writer:
  "dml_step (engine_table [] e) (en_writer e, en_tiers e) (w, en_tiers e) \<Longrightarrow> engine_step e (e\<lparr>en_writer := w\<rparr>)"
  using engine_step.session [of e w "en_tiers e"] by simp

lemma aborted_step: "\<not> dw_group_bulk w \<Longrightarrow> abort_group w ts = (w', ts') \<Longrightarrow> dml_step t0 (w, ts) (w', ts')"
  using dml_step.aborted [of w t0 ts] by simp

lemma engine_groups_step:
  shows "engine_commit_group e = (r, e') \<Longrightarrow> call_ok r e' \<Longrightarrow> \<not> dw_group_bulk (en_writer e) \<Longrightarrow> engine_step e e'"
    and "engine_commit_group_two_phase txn_id e = (q, e') \<Longrightarrow> call_ok q e' \<Longrightarrow> \<not> dw_group_bulk (en_writer e) \<Longrightarrow> engine_step e e'"
    and "\<not> dw_group_bulk (en_writer e) \<Longrightarrow> engine_step e (engine_abort_group e)"
    and "dw_group (en_writer e) = None \<Longrightarrow> engine_step e (engine_begin_group e)"
    and "dw_group (en_writer e) = None \<Longrightarrow> engine_step e (engine_begin_bulk_group e)"
    and "engine_commit_bulk_chunk txn_id e = Some (Inr off, e') \<Longrightarrow> dw_group_bulk (en_writer e) \<Longrightarrow> wal_room (dw_wal (en_writer e')) \<Longrightarrow> engine_step e e'"
    and "dw_group_bulk (en_writer e) \<Longrightarrow> dw_group (en_writer e) = Some [] \<Longrightarrow> engine_step e (engine_end_bulk_group e)"
  by (auto simp: engine_commit_group_def engine_commit_group_two_phase_def commit_group_def commit_group_two_phase_def engine_abort_group_def
      engine_begin_group_def engine_begin_bulk_group_def engine_end_bulk_group_def engine_commit_bulk_chunk_def map_err_Inr
      split: prod.splits elim!: write_step intro: dml_step.committed dml_step.began dml_step.began_bulk dml_step.chunk dml_step.ended_bulk
      aborted_step intro!: session_writer engine_step.session)

text \<open>A fresh engine on empty disks.\<close>

definition fresh_disks :: "disks \<Rightarrow> bool" where
  "fresh_disks ds \<longleftrightarrow> (case ds of (sd, wd, dd, vd) \<Rightarrow> disk_wf sd \<and> file_at sd CHECKPOINT_FILENAME = None \<and>
     disk_inv wd \<and> wal_segment_list wd = [] \<and> disk_wf dd \<and> disk_wf vd)"

lemma engine_open_inv:
  assumes "Engine_open ds vt = (Inr e, ds')" "fresh_disks ds"
  shows "engine_inv intact e"
proof -
  obtain sd wd dd vd where ds: "ds = (sd, wd, dd, vd)" by (metis prod_cases4)
  obtain g wd' d dd' i vd' where o: "wal_open wd WAL_DEFAULT_SEGMENT_SIZE = (Inr g, wd')" "Delta_open dd DELTA_DEFAULT_SPILL_THRESHOLD = (Inr d, dd')"
      "ValidityIndex_open vd VALIDITY_DEFAULT_SPILL_THRESHOLD = (Inr i, vd')"
    and e: "en_disk e = sd" "en_writer e = DmlWriter_new g vt" "en_tiers e = (d, i)" "en_sealed e = []" "en_segment_names e = []" "en_replay_floor e = LogOffset_ZERO"
    using assms(1) unfolding ds Engine_open_def by (auto split: prod.splits sum.splits)
  have f: "disk_wf sd" "file_at sd CHECKPOINT_FILENAME = None" "disk_inv wd" "wal_segment_list wd = []" "disk_wf dd" "disk_wf vd"
    using assms(2) by (simp_all add: fresh_disks_def ds)
  note d = Delta_open_ok [OF f(5) o(2)] and i = ValidityIndex_open_ok [OF f(6) o(3)]
  let ?q = "manifest_point None"
  have tl: "timeline [] [] Map.empty I64_MIN"
    by (simp add: timeline_def unique_ids_def history_ends_def MIN_less_OPEN(1))
  have so: "sealed_ok sd ?q [] [] Map.empty"
    using f(1) tl by (auto simp: sealed_ok_def manifest_point_def segments_hold_def ends_encodable_def)
  have ti: "table_inv (engine_table [] e)"
    using d i tl by (simp add: table_inv_def e tb_versions_def tb_retractions_def staged_set_def staged_retractions_def retractions_keyed_def bt_values_def
        bt_get_def high_water_def DmlWriter_new_def)
  have "exact (d, i)" using d(5) i(4) o(3)
    by (auto simp: exact_def mt_exact_def MemTier_new_def mt_bytes_def MemTier_iter_def bt_values_def bt_empty_def mem_bytes_def ValidityIndex_open_def
        split: prod.splits sum.splits)
  then have "live (engine_table [] e) (sealed_view Map.empty) (vouched_redos All []) (DmlWriter_new g vt) (d, i)"
    using ti d i by (intro live_reset) (auto simp: e dml_buffer_def DmlWriter_new_def view_of_def sealed_view_def bt_get_def engine_table_def)
  moreover have "log_from LogOffset_ZERO LogOffset_ZERO [] g []"
    using wal_open_fresh [OF f(3,4) o(1)] by (auto simp: log_from_begin log_holds_def)
  ultimately have "dml_inv (log_from LogOffset_ZERO LogOffset_ZERO []) (engine_table [] e) (sealed_view Map.empty) (DmlWriter_new g vt, d, i)"
    by (intro dml_invI [of _ _ "[]"]) (simp_all add: DmlWriter_new_def)
  then have "engine_core e ?q" using so by (intro engine_coreI [of _ _ "[]" Map.empty "[]"]) (simp_all add: e manifest_point_def)
  then show ?thesis using f(2) unfolding engine_inv_def intact_def
    by (intro exI [of _ None]) (auto simp: e manifest_point_def last_point_def)
qed

lemma run_table:
  assumes "Engine_open ds vt = (Inr e0, ds0)" "fresh_disks ds" "engine_step\<^sup>*\<^sup>* e0 e" "\<not> engine_is_poisoned e"
  obtains R where "table_inv (engine_table R e)"
proof -
  have "engine_inv intact e" by (rule engine_run_inv [OF assms(3) engine_open_inv [OF assms(1,2)]])
  then obtain p where "engine_core e (manifest_point p)" unfolding engine_inv_def by blast
  then show thesis using core_alive assms(4) that by (auto simp: engine_is_poisoned_def wal_is_poisoned_def)
qed

section \<open>Reads\<close>

text \<open>
  C6. A point read is exact. In every state a fresh engine reaches through the steps of \<open>engine_step\<close>
  (sessions' calls, checkpoints, flushes and compactions), unless the log is poisoned, a point read of a key at an instant
  that returns a version returns the one of that key current at the instant, its interval containing the
  instant; one that returns nothing means the key had no current version then, however the versions are
  spread over the delta tier, its spills and the segments. The read changes no later read.
\<close>

theorem engine_as_of_exact:
  assumes "Engine_open ds vt = (Inr e0, ds0)" "fresh_disks ds" "engine_step\<^sup>*\<^sup>* e0 e" "\<not> engine_is_poisoned e"
    and "engine_as_of key t e = (Inr q, e')"
  shows "(case q of
       None \<Rightarrow> \<forall>v \<in> engine_snapshot e t. v_business_key v \<noteq> key
     | Some v \<Rightarrow> v_business_key v = key \<and> v_sys_from v \<le> t \<and> t < v_sys_to v \<and> unresolved v \<in> engine_snapshot e t) \<and>
     (\<forall>x. engine_snapshot e' x = engine_snapshot e x)"
proof -
  obtain R where ti: "table_inv (engine_table R e)" by (rule run_table [OF assms(1-4)])
  let ?s = "filter (\<lambda>v. v_business_key v = key)" and ?d = "fst (en_tiers e)" and ?i = "snd (en_tiers e)"
  let ?vs = "en_sealed e @ delta_rows ?d"
  have vi: "vi_inv ?i" and tl: "timeline ?vs (tb_retractions (engine_table R e)) (vi_abs ?i) (high_water (dw_last (en_writer e)))"
    using ti by (simp_all add: table_inv_def tb_versions_def)
  obtain qc d1 where c: "candidate_versions key ?d = (qc, d1)" by (rule prod.exhaust)
  note cs = candidate_versions_spec [OF c]
  obtain i where ro: "resolve_open (?s (delta_rows ?d)) (?s (en_sealed e)) key t ?i = (Inr q, i)" and e': "e' = e\<lparr>en_tiers := (d1, i)\<rparr>"
    using assms(5) c cs(2) by (cases qc) (auto simp: engine_as_of_def resolve_open_def Let_def split: prod.splits sum.splits)
  have ord: "intervals_ordered (vi_abs ?i) (?s (en_sealed e) @ ?s (delta_rows ?d))"
    using intervals_ordered_filter [OF timeline_ordered [OF tl], of "\<lambda>k. k = key"] by simp
  have vis: "q = Some v \<longleftrightarrow> v \<in> visible (vi_abs ?i) ?vs t \<and> v_business_key v = key" for v
    using resolve_open_visible [OF vi ord ro, of v] visible_filter [of "vi_abs ?i" "\<lambda>k. k = key" ?vs t] by auto
  have "engine_snapshot e' x = engine_snapshot e x" for x
    using dl_same_views(2) [OF cs(1)] vi_same_views [OF resolve_open_same [OF vi ro]] by (simp add: engine_snapshot_def e')
  moreover have "case q of None \<Rightarrow> \<forall>v \<in> engine_snapshot e t. v_business_key v \<noteq> key
     | Some v \<Rightarrow> v_business_key v = key \<and> v_sys_from v \<le> t \<and> t < v_sys_to v \<and> unresolved v \<in> engine_snapshot e t"
  proof (cases q)
    case None
    then show ?thesis using vis by (auto simp: engine_snapshot_def snapshot_def)
  next
    case (Some v)
    then have v: "v \<in> visible (vi_abs ?i) ?vs t" "v_business_key v = key" using vis by auto
    then have u: "unresolved v \<in> snapshot (vi_abs ?i) ?vs t" by (auto simp: snapshot_def)
    then have "v_sys_from v \<le> t" using timeline_snapshot [OF tl] by fastforce
    then show ?thesis using Some v u by (auto simp: engine_snapshot_def visible_def)
  qed
  ultimately show ?thesis by blast
qed

definition provenances :: "engine \<Rightarrow> provenance set" where
  "provenances e = v_provenance ` set (en_sealed e @ delta_rows (fst (en_tiers e))) \<union> ci_closed_by ` ran (vi_abs (snd (en_tiers e)))"

lemma fold_marks:
  "max_commit (fold (mark_fold \<circ> f) xs m) = fold max (map (p_committed_at \<circ> f) xs) (max_commit m)"
  "max_txn_id (fold (mark_fold \<circ> f) xs m) = fold max (map (p_txn_id \<circ> f) xs) (max_txn_id m)"
  by (induction xs arbitrary: m) (simp_all add: mark_fold_def max.commute)

lemma bt_values_ran: "bt_inv t \<Longrightarrow> set (bt_values t) = ran (bt_get t)"
  using ran_distinct [of t] by (simp add: bt_inv_def bt_values_def bt_get_def [abs_def] strict_sorted_iff)

text \<open>
  C7. The recovery marks are exact: in every state a fresh engine reaches through the steps of
  \<open>engine_step\<close>, unless the log is poisoned, they are the greatest commit
  instant and the greatest transaction id among the provenances of all versions, staged or sealed, and of
  all closes, and zero when there are none; so a clock and an allocator positioned past them never repeat
  an instant or an id of the table.
\<close>

theorem engine_recovery_marks_exact:
  assumes "Engine_open ds vt = (Inr e0, ds0)" "fresh_disks ds" "engine_step\<^sup>*\<^sup>* e0 e" "\<not> engine_is_poisoned e"
    and "engine_recovery_marks e = (Inr m, e')"
  shows "max_commit m = Max (insert (I64 0) (p_committed_at ` provenances e)) \<and> max_txn_id m = Max (insert 0 (p_txn_id ` provenances e)) \<and>
     (\<forall>x. engine_snapshot e' x = engine_snapshot e x)"
proof -
  obtain R where ti: "table_inv (engine_table R e)" by (rule run_table [OF assms(1-4)])
  let ?d = "fst (en_tiers e)" and ?i = "snd (en_tiers e)"
  have inv: "delta_inv ?d" "vi_inv ?i" using ti by (simp_all add: table_inv_def)
  obtain sv d1 where v: "staged_versions ?d = (sv, d1)" by (rule prod.exhaust)
  obtain c i1 where c: "materialize ?i = (c, i1)" by (rule prod.exhaust)
  note sp = merge_staged_spec [OF inv(1) v [unfolded staged_versions_def]] and cp = materialize_spec [OF inv(2) c]
  obtain t where t: "c = Inr t" "sv = Inr (staged_list ?d)" "e' = e\<lparr>en_tiers := (d1, i1)\<rparr>"
    and m: "m = fold (mark_fold \<circ> ci_closed_by) (bt_values t) (fold (mark_fold \<circ> v_provenance) (en_sealed e)
        (fold (mark_fold \<circ> v_provenance) (staged_list ?d) \<lparr>max_commit = I64 0, max_txn_id = 0\<rparr>))"
    using assms(5) v c sp(2) by (cases sv; cases c) (auto simp: engine_recovery_marks_def)
  have r: "set (bt_values t) = ran (vi_abs ?i)" using bt_values_ran [OF cp(2) [OF t(1)]] cp(3) [OF t(1)] by (simp add: ran_def)
  have s: "set (staged_list ?d) = set (delta_rows ?d)" using staged_list_facts(1) [OF inv(1)] by (simp add: staged_set_def)
  let ?ps = "map v_provenance (staged_list ?d) @ map v_provenance (en_sealed e) @ map ci_closed_by (bt_values t)"
  have ps: "set ?ps = provenances e" using r s by (auto simp: provenances_def)
  have "max_commit m = Max (insert (I64 0) (p_committed_at ` provenances e))"
    using Max.set_eq_fold [of "I64 0" "map p_committed_at ?ps"] by (simp add: m fold_marks [unfolded comp_def] ps [symmetric] image_Un image_image comp_def)
  moreover have "max_txn_id m = Max (insert 0 (p_txn_id ` provenances e))"
    using Max.set_eq_fold [of 0 "map p_txn_id ?ps"] by (simp add: m fold_marks [unfolded comp_def] ps [symmetric] image_Un image_image comp_def)
  moreover have "engine_snapshot e' x = engine_snapshot e x" for x
    using dl_same_views(2) [OF sp(1)] vi_same_views [OF cp(1)] by (simp add: engine_snapshot_def t(3))
  ultimately show ?thesis by blast
qed

section \<open>Crashes\<close>

text \<open>
  What a boot finds: the segments and the manifest of \<open>e\<close>, its log with possibly the bytes of a torn
  append behind the last record, and spill files that open and leave spill numbers for the replay.
\<close>

definition boot_finds :: "engine \<Rightarrow> disks \<Rightarrow> bool" where
  "boot_finds e ds \<longleftrightarrow> (case ds of (sd, wd, dd, vd) \<Rightarrow> disk_same (en_disk e) sd \<and> no_faults sd \<and> disk_wf dd \<and> disk_wf vd \<and>
     (\<exists>L tail delta dd' index vd'. wal_holds (dw_wal (en_writer e)) L \<and> log_disk wd L tail \<and> frame_split tail = None \<and>
        Delta_open dd DELTA_DEFAULT_SPILL_THRESHOLD = (Inr delta, dd') \<and>
        ValidityIndex_open vd VALIDITY_DEFAULT_SPILL_THRESHOLD = (Inr index, vd') \<and>
        tiers_ready (length (concat (concat L))) (delta, index)))"

lemma recover_found:
  assumes "engine_inv boots e" "\<not> engine_is_poisoned e" "\<not> dw_group_bulk (en_writer e)" "boot_finds e ds"
  shows "\<exists>e' ds'. engine_recover ds vt = Some (Inr e', ds') \<and> (\<forall>x. engine_snapshot e' x = engine_snapshot (engine_abort_group e) x)"
proof -
  obtain sd wd dd vd where ds: "ds = (sd, wd, dd, vd)" by (metis prod_cases4)
  have alive: "\<not> w_poisoned (dw_wal (en_writer e))" using assms(2) by (simp add: engine_is_poisoned_def wal_is_poisoned_def)
  from assms(4) obtain L tail delta dd' index vd' where b: "disk_same (en_disk e) sd" "no_faults sd" "wal_holds (dw_wal (en_writer e)) L" "log_disk wd L tail"
      "frame_split tail = None" "disk_wf dd" "Delta_open dd DELTA_DEFAULT_SPILL_THRESHOLD = (Inr delta, dd')" "disk_wf vd"
      "ValidityIndex_open vd VALIDITY_DEFAULT_SPILL_THRESHOLD = (Inr index, vd')" "tiers_ready (length (concat (concat L))) (delta, index)"
    unfolding boot_finds_def ds by auto
  from recover_core [OF assms(1) alive assms(3) b] show ?thesis unfolding engine_recover_def ds by blast
qed

text \<open>
  C4. A crash loses nothing committed, along the runs of \<open>engine_step\<close>. Start an engine on empty disks and
  run any sequence of sessions' calls (auto-commit writes, groups, two-phase commits, aborts, bulk groups
  whose chunks are all committed), checkpoints, flushes outside groups and compactions, with fresh sequence
  numbers and within the size bounds \<open>stmt_room\<close>, \<open>wal_room\<close> and \<open>engine_room\<close>; each call may return a disk
  fault, with two exceptions: no auto-commit record that is already logged and no entry of a bulk group
  fails to apply, and the run does not go on after a maintenance call that failed once it had touched the
  manifest file. If the engine crashes at the end of such a run, its log not poisoned and no bulk group open, then
  recovery, on disks that do not fail again, returns, also with a torn append behind the log, and every
  \<open>AS OF\<close> read of the recovered engine is the one of the engine that crashed, with its open group aborted.
\<close>

theorem engine_recovers:
  assumes "Engine_open ds0 vt = (Inr e0, ds1)" "fresh_disks ds0" "engine_step\<^sup>*\<^sup>* e0 e"
    and "\<not> engine_is_poisoned e" "\<not> dw_group_bulk (en_writer e)" "boot_finds e ds"
  shows "\<exists>e' ds'. engine_recover ds vt = Some (Inr e', ds') \<and> (\<forall>x. engine_snapshot e' x = engine_snapshot (engine_abort_group e) x)"
  by (rule recover_found [OF engine_inv_boots [OF engine_run_inv [OF assms(3) engine_open_inv [OF assms(1,2)]]] assms(4-)])

text \<open>
  C5. Maintenance is transparent and crash safe. In every state such a run reaches, a checkpoint, a flush
  or a compaction changes no \<open>AS OF\<close> read, whatever it returns and wherever a fault stops it; and if the
  engine crashes right there, its log not poisoned and no group open, with a record of the manifest torn,
  unsynced or complete, a segment half written, or retired segments half removed, recovery of what it
  left shows the same reads. A compaction is assumed to seal no more than the reader's chunk limit.
\<close>

theorem engine_maintenance_safe:
  assumes "Engine_open ds0 vt = (Inr e0, ds1)" "fresh_disks ds0" "engine_step\<^sup>*\<^sup>* e0 e" "maintenance e ok e'"
  shows "(\<forall>x. engine_snapshot e' x = engine_snapshot e x) \<and>
     (\<not> engine_is_poisoned e' \<and> dw_group (en_writer e') = None \<and> \<not> dw_group_bulk (en_writer e') \<and> boot_finds e' ds \<longrightarrow>
        (\<exists>e'' ds'. engine_recover ds vt = Some (Inr e'', ds') \<and> (\<forall>x. engine_snapshot e'' x = engine_snapshot e x)))"
proof -
  have inv: "engine_inv intact e" by (rule engine_run_inv [OF assms(3) engine_open_inv [OF assms(1,2)]])
  have k: "kept e ok e'" by (rule maintenance_kept [OF assms(4) inv])
  then obtain e2 where e2: "engine_inv boots e2" "en_disk e2 = en_disk e'" "en_writer e2 = en_writer e'" "\<And>x. engine_snapshot e2 x = engine_snapshot e x"
    by (auto simp: kept_def crash_safe_def)
  have "\<exists>e'' ds'. engine_recover ds vt = Some (Inr e'', ds') \<and> (\<forall>x. engine_snapshot e'' x = engine_snapshot e x)"
    if h: "\<not> engine_is_poisoned e'" "dw_group (en_writer e') = None" "\<not> dw_group_bulk (en_writer e')" "boot_finds e' ds"
  proof -
    have "engine_abort_group e2 = e2" using h(2,3) e2(3) by (cases "en_writer e2") (simp add: engine_abort_group_def abort_group_def)
    then show ?thesis using recover_found [OF e2(1), of ds vt] h e2 by (simp add: engine_is_poisoned_def boot_finds_def)
  qed
  then show ?thesis using k by (auto simp: kept_def)
qed

section \<open>An engine at work\<close>

text \<open>A new engine on empty disks.\<close>

definition base_wal :: wal where
  "base_wal = fresh_wal\<lparr>segment_size_bytes := WAL_DEFAULT_SEGMENT_SIZE\<rparr>"

definition base_tiers :: tiers where
  "base_tiers = ((delta_over MemDisk_new)\<lparr>dl_threshold := DELTA_DEFAULT_SPILL_THRESHOLD\<rparr>,
     empty_index\<lparr>vi_threshold := VALIDITY_DEFAULT_SPILL_THRESHOLD\<rparr>)"

definition base_engine :: engine where
  "base_engine = \<lparr>en_disk = MemDisk_new, en_valid_time = False, en_writer = DmlWriter_new base_wal False, en_tiers = base_tiers,
     en_sealed = [], en_segment_names = [], en_next_segment_index = 0, en_replay_floor = LogOffset_ZERO, en_checkpoint = None,
     en_flush_row_group_rows = DEFAULT_FLUSH_ROW_GROUP_ROWS\<rparr>"

abbreviation empty_disks :: disks where
  "empty_disks \<equiv> (MemDisk_new, MemDisk_new, MemDisk_new, MemDisk_new)"

lemma tier_opens: "Delta_open MemDisk_new DELTA_DEFAULT_SPILL_THRESHOLD = (Inr (fst base_tiers), MemDisk_new)"
  "ValidityIndex_open MemDisk_new VALIDITY_DEFAULT_SPILL_THRESHOLD = (Inr (snd base_tiers), MemDisk_new)"
  by (simp_all add: Delta_open_def delta_list_spills_def delta_discard_stale_spills_def disk_list_def faultless_check base_tiers_def delta_over_def
     ValidityIndex_open_def validity_list_spills_def validity_discard_stale_spills_def empty_index_def MemDisk_new_def disk_check_def faults_check_def faults_take_def
     List.map_filter_def bt_empty_def)

lemma base_wal_open: "wal_open MemDisk_new WAL_DEFAULT_SEGMENT_SIZE = (Inr base_wal, w_disk fresh_wal)"
  by (simp add: wal_open_def list_segments_def disk_list_def disk_check_def faults_check_def faults_take_def MemDisk_new_def wal_open_current_def
      disk_create_def disk_sync_dir_def fresh_wal_def base_wal_def valid0 file_len_def map_filter_simps Let_def)

lemma base_opens: "Engine_open empty_disks False = (Inr base_engine, MemDisk_new, w_disk fresh_wal, MemDisk_new, MemDisk_new)"
  by (simp add: Engine_open_def tier_opens base_engine_def base_wal_open)

lemma base_fresh: "fresh_disks empty_disks"
  by (simp add: fresh_disks_def file_at_def MemDisk_new_def disk_inv_def wal_segment_list_def List.map_filter_def disk_wf_def)


text \<open>The engine after one insert.\<close>

definition first_engine :: engine where
  "first_engine = snd (engine_insert [107] None (Some [1]) 3 8 [] (i64_of 10) base_engine)"

definition first_tiers :: tiers where
  "first_tiers = ((fst base_tiers)\<lparr>dl_mem := MemTier_insert first_version MemTier_new\<rparr>, snd base_tiers)"

definition first_wal :: wal where
  "first_wal = snd (log_append (first_record None) base_wal)"

lemma first_wal:
  shows "log_append (first_record None) base_wal = (Inr (LogOffset 0 55), first_wal)" "wal_room first_wal" "md_faults (w_disk first_wal) = []"
    "\<not> w_poisoned first_wal" "\<exists>L. wal_holds first_wal L \<and> concat L = [first_record None]"
proof -
  show a: "log_append (first_record None) base_wal = (Inr (LogOffset 0 55), first_wal)" and r: "wal_room first_wal"
    and "md_faults (w_disk first_wal) = []" "\<not> w_poisoned first_wal"
    using first_record_facts(3) by (simp_all add: first_wal_def log_append_def wal_append_def append_frame_def file_append_def faults_take_def base_wal_def fresh_wal_def
        disk_check_def faults_check_def wal_room_def HEADER_LEN_def MAX_PAYLOAD_LEN_def Let_def WAL_DEFAULT_SEGMENT_SIZE_def)
  have "wal_holds base_wal [[]]"
    by (rule wal_open_fresh [OF _ _ base_wal_open]) (simp_all add: disk_inv_def wal_segment_list_def MemDisk_new_def map_filter_simps)
  then have "log_holds base_wal []" unfolding log_holds_def by (metis concat.simps append_Nil)
  then show "\<exists>L. wal_holds first_wal L \<and> concat L = [first_record None]" using wal_log.append_ok [OF _ r a, of "[]"] by (simp add: log_holds_def)
qed

lemma staged_any:
  "vt_stage_insert False (SealedVersions_versions_for []) [107] None (Some [1]) 3 8 [] (i64_of 10)
     (None, (delta_over MemDisk_new)\<lparr>dl_threshold := a\<rparr>, empty_index\<lparr>vi_threshold := b\<rparr>)
     = (Inr (i64_of 10, [Insert first_version]), Some (i64_of 10), (delta_over MemDisk_new)\<lparr>dl_threshold := a\<rparr>, empty_index\<lparr>vi_threshold := b\<rparr>)"
  by code_simp

lemma base_staged:
  "vt_stage_insert False (SealedVersions_versions_for []) [107] None (Some [1]) 3 8 [] (i64_of 10) (None, base_tiers)
     = (Inr (i64_of 10, [Insert first_version]), Some (i64_of 10), base_tiers)"
  unfolding base_tiers_def by (rule staged_any)

lemma base_applied: "apply_redos [Insert first_version] base_tiers = (Inr (), first_tiers)"
  using example_stageable(1)
  by (simp add: apply_redos_def apply_redo_def delta_insert_def delta_insert_inner_def stageable_def version_encodable_def Let_def base_tiers_def first_tiers_def
      delta_over_def MemTier_new_def)

lemma first_engine: "engine_insert [107] None (Some [1]) 3 8 [] (i64_of 10) base_engine = (Inr \<lparr>do_commit = i64_of 10, do_wal = LogOffset 0 55\<rparr>, first_engine)"
    "first_engine = base_engine\<lparr>en_writer := (DmlWriter_new base_wal False)\<lparr>dw_last := Some (i64_of 10), dw_wal := first_wal\<rparr>, en_tiers := first_tiers\<rparr>"
proof -
  have "engine_insert [107] None (Some [1]) 3 8 [] (i64_of 10) base_engine = (Inr \<lparr>do_commit = i64_of 10, do_wal = LogOffset 0 55\<rparr>,
      base_engine\<lparr>en_writer := (DmlWriter_new base_wal False)\<lparr>dw_last := Some (i64_of 10), dw_wal := first_wal\<rparr>, en_tiers := first_tiers\<rparr>)"
    by (simp add: engine_insert_def engine_write_def dml_insert_def base_engine_def DmlWriter_new_def base_staged dml_run_def log_and_apply_def
        first_record_facts(1) first_wal(1) base_applied)
  then show "engine_insert [107] None (Some [1]) 3 8 [] (i64_of 10) base_engine = (Inr \<lparr>do_commit = i64_of 10, do_wal = LogOffset 0 55\<rparr>, first_engine)"
    "first_engine = base_engine\<lparr>en_writer := (DmlWriter_new base_wal False)\<lparr>dw_last := Some (i64_of 10), dw_wal := first_wal\<rparr>, en_tiers := first_tiers\<rparr>"
    by (simp_all add: first_engine_def)
qed

lemma base_steps: "engine_step\<^sup>*\<^sup>* base_engine first_engine"
proof -
  have "engine_step base_engine first_engine"
    by (rule engine_writes_step(1) [OF first_engine(1)])
      (simp_all add: call_ok_def first_engine(2) first_wal(2) seq_fresh_def tb_versions_def stmt_room_def base_engine_def base_tiers_def delta_rows_def
        spilled_versions_def delta_over_def mt_bytes_def stmt_bytes_def empty_index_def mem_bytes_def bt_empty_def DmlWriter_new_def
        VERSION_HEADER_LEN_def VALID_TIME_PREFIX_LEN_def CLOSE_HEADER_LEN_def)
  then show ?thesis by blast
qed

lemma first_instants: "i64_of 10 < i64_of 15" "i64_of 15 < SYSTEM_TIME_OPEN"
  by code_simp+

lemma first_mem: "MemTier_iter (MemTier_insert first_version MemTier_new) = [first_version]"
  by (simp add: MemTier_iter_def MemTier_insert_def MemTier_new_def chain_values_def bt_values_def bt_empty_def)

lemma first_read:
  "candidate_versions [107] (fst first_tiers) = (Inr [first_version], fst first_tiers)"
  "resolve_open [first_version] [] [107] (i64_of 15) (snd first_tiers) = (Inr (Some first_version), snd first_tiers)"
proof -
  have "v_business_key first_version = [107]" by (simp add: first_version_def Version_open_def)
  then show "candidate_versions [107] (fst first_tiers) = (Inr [first_version], fst first_tiers)"
    by (simp add: first_mem candidate_versions_def first_tiers_def base_tiers_def delta_over_def)
  have c: "closes_for [107] (empty_index\<lparr>vi_threshold := b\<rparr>) = (Inr [], empty_index\<lparr>vi_threshold := b\<rparr>)" for b
    by (simp add: closes_for_def empty_index_def bt_empty_def mem_range_def bt_range_def)
  have "live_in_chain (overlay_chain (bt_insert (v_sys_from first_version, v_seq first_version) first_version bt_empty) []) (i64_of 15) = Some first_version"
    "v_business_key first_version = [107]"
    using first_instants by (simp_all add: live_in_chain_def overlay_chain_def bt_last_le_def bt_empty_def first_version_def Version_open_def less_eq_prod_def)
  then show "resolve_open [first_version] [] [107] (i64_of 15) (snd first_tiers) = (Inr (Some first_version), snd first_tiers)"
    by (simp add: resolve_open_def first_tiers_def base_tiers_def c)
qed

lemma first_view: "vi_abs (snd first_tiers) = Map.empty" "delta_rows (fst first_tiers) = [first_version]"
  using ValidityIndex_open_ok(2) [OF disk_wf_MemDisk(1) tier_opens(2)]
  by (simp_all add: first_tiers_def base_tiers_def delta_rows_def spilled_versions_def delta_over_def first_mem)

lemma first_reads: "unresolved first_version \<in> engine_snapshot first_engine (i64_of 15)"
proof -
  have "resolved Map.empty [first_version] (vkey first_version) = Some first_version" "fst (snd (vkey first_version)) \<le> i64_of 15" "i64_of 15 < v_sys_to first_version"
    using first_instants(1,2) by (simp_all add: resolved_def resolve_def pool_def vkey_def first_version_def Version_open_def)
  then have "first_version \<in> visible Map.empty [first_version] (i64_of 15)" unfolding visible_def by blast
  then show ?thesis by (simp add: engine_snapshot_def snapshot_def first_engine(2) base_engine_def first_view)
qed

theorem engine_as_of_exact_witness:
  "engine_as_of [107] (i64_of 15) first_engine = (Inr (Some first_version), first_engine) \<and> v_sys_from first_version \<le> i64_of 15 \<and>
     unresolved first_version \<in> engine_snapshot first_engine (i64_of 15)"
proof -
  have r: "engine_as_of [107] (i64_of 15) first_engine = (Inr (Some first_version), first_engine)"
    using first_read by (simp add: engine_as_of_def first_engine(2) base_engine_def)
  from engine_as_of_exact [OF base_opens base_fresh base_steps _ r] r show ?thesis
    using first_wal(4) by (simp add: engine_is_poisoned_def wal_is_poisoned_def first_engine(2))
qed

theorem engine_recovery_marks_exact_witness:
  "\<exists>m e'. engine_recovery_marks first_engine = (Inr m, e') \<and> max_txn_id m = 8"
proof -
  have alive: "\<not> engine_is_poisoned first_engine" using first_wal(4) by (simp add: engine_is_poisoned_def wal_is_poisoned_def first_engine(2))
  have inv: "delta_inv (fst first_tiers)" "vi_inv (snd first_tiers)"
    by (rule run_table [OF base_opens base_fresh base_steps alive], simp add: table_inv_def first_engine(2))+
  have "no_faults (dl_disk (fst first_tiers))" "no_faults (vi_disk (snd first_tiers))"
    by (simp_all add: no_faults_def first_tiers_def base_tiers_def delta_over_def empty_index_def MemDisk_new_def)
  then obtain m e' where m: "engine_recovery_marks first_engine = (Inr m, e')"
    using merge_staged_live [OF inv(1)] materialize_live [OF inv(2)]
    by (auto simp: engine_recovery_marks_def first_engine(2) staged_versions_def)
  have "provenances first_engine = {v_provenance first_version}"
    by (simp add: provenances_def first_view first_engine(2) base_engine_def)
  then show ?thesis using m engine_recovery_marks_exact [OF base_opens base_fresh base_steps alive m]
    by (auto simp: first_version_def Version_open_def)
qed

lemma first_boot:
  assumes "wal_holds (dw_wal (en_writer e)) L" "concat L = [first_record None]" "w_disk (dw_wal (en_writer e)) = w_disk first_wal" "no_faults (en_disk e)"
  shows "boot_finds e (en_disk e, w_disk first_wal, MemDisk_new, MemDisk_new)"
proof -
  have "log_disk (w_disk first_wal) L []" using wal_holdsD [OF assms(1)] assms(3) first_wal(3) by (simp add: log_disk_def no_faults_def)
  moreover have "tiers_ready 47 base_tiers"
    using Delta_open_ok(1) [OF disk_wf_MemDisk(1) tier_opens(1)] ValidityIndex_open_ok(1) [OF disk_wf_MemDisk(1) tier_opens(2)]
    by (simp add: VALIDITY_DEFAULT_SPILL_THRESHOLD_def file_at_def tiers_ready_def base_tiers_def delta_over_def empty_index_def vi_ready_def
        no_faults_def MemDisk_new_def mem_bytes_def bt_empty_def)
  ultimately have "wal_holds (dw_wal (en_writer e)) L \<and> log_disk (w_disk first_wal) L [] \<and> frame_split [] = None \<and>
      Delta_open MemDisk_new DELTA_DEFAULT_SPILL_THRESHOLD = (Inr (fst base_tiers), MemDisk_new) \<and>
      ValidityIndex_open MemDisk_new VALIDITY_DEFAULT_SPILL_THRESHOLD = (Inr (snd base_tiers), MemDisk_new) \<and>
      tiers_ready (length (concat (concat L))) (fst base_tiers, snd base_tiers)"
    using assms first_record_facts(3) tier_opens by (simp add: frame_split_def HEADER_LEN_def)
  then show ?thesis using assms(4) unfolding boot_finds_def by auto
qed

theorem engine_recovers_witness:
  "\<exists>e' ds'. engine_recover (MemDisk_new, w_disk first_wal, MemDisk_new, MemDisk_new) False = Some (Inr e', ds') \<and>
     unresolved first_version \<in> engine_snapshot e' (i64_of 15)"
proof -
  have "\<not> engine_is_poisoned first_engine" "\<not> dw_group_bulk (en_writer first_engine)" "engine_abort_group first_engine = first_engine"
    using first_wal(4) by (simp_all add: engine_is_poisoned_def wal_is_poisoned_def first_engine(2) DmlWriter_new_def engine_abort_group_def abort_group_def)
  moreover have "boot_finds first_engine (MemDisk_new, w_disk first_wal, MemDisk_new, MemDisk_new)"
    using first_boot [of first_engine] first_wal(5) by (auto simp: first_engine(2) base_engine_def no_faults_def MemDisk_new_def)
  ultimately show ?thesis using engine_recovers [OF base_opens base_fresh base_steps] first_reads by metis
qed

definition checked_engine :: engine where
  "checked_engine = snd (the (engine_checkpoint first_engine))"

lemma manifest_name: "validate_name CHECKPOINT_FILENAME = Inr ()"
  by code_simp

lemma first_tick: "log_tick first_wal = (Inr 0, first_wal\<lparr>durable_end := LogOffset 0 55\<rparr>)" "durable_end first_wal = LogOffset 0 0"
  using first_record_facts(3)
  by (simp_all add: first_wal_def log_append_def wal_append_def append_frame_def file_append_def faults_take_def base_wal_def fresh_wal_def
        disk_check_def faults_check_def HEADER_LEN_def MAX_PAYLOAD_LEN_def Let_def WAL_DEFAULT_SEGMENT_SIZE_def log_tick_def wal_tick_def drain_tick_def
        file_sync_def drain_waiters_def drain_loop.simps)

lemma first_checkpoint: "engine_checkpoint first_engine = Some (Inr (LogOffset 0 55), checked_engine)"
  "engine_room first_engine checked_engine" "no_faults (en_disk checked_engine)"
  "en_writer checked_engine = (en_writer first_engine)\<lparr>dw_wal := first_wal\<lparr>durable_end := LogOffset 0 55\<rparr>\<rparr>"
proof -
  have t: "engine_tick first_engine = (Inr (LogOffset 0 55), first_engine\<lparr>en_writer := (en_writer first_engine)\<lparr>dw_wal := first_wal\<lparr>durable_end := LogOffset 0 55\<rparr>\<rparr>\<rparr>)"
    by (simp add: engine_tick_def first_engine(2) first_tick wal_durable_end_def)
  let ?p = "\<lparr>replay_floor = LogOffset_ZERO, durable_fence = LogOffset 0 55, live_segments = []\<rparr>"
  obtain rec where rec: "manifest_encode ?p = Some rec" "length rec < 2 ^ 64"
    by (simp add: manifest_encode_def Let_def MANIFEST_MAGIC_def put_offset_def)
  have s: "checkpoint_store ?p MemDisk_new = Some (Inr (), \<lparr>md_names = [(CHECKPOINT_FILENAME, 0)], md_store = [rec], md_faults = []\<rparr>)"
    by (simp add: checkpoint_store_def rec(1) Let_def disk_open_def disk_create_def disk_sync_dir_def file_append_def file_sync_def disk_check_def faults_check_def faults_take_def
        MemDisk_new_def manifest_name)
  have e: "en_disk first_engine = MemDisk_new" "en_segment_names first_engine = []" "en_replay_floor first_engine = LogOffset_ZERO" "en_next_segment_index first_engine = 0"
    by (simp_all add: first_engine(2) base_engine_def)
  have c: "engine_checkpoint first_engine = Some (Inr (LogOffset 0 55), first_engine\<lparr>en_writer := (en_writer first_engine)\<lparr>dw_wal := first_wal\<lparr>durable_end := LogOffset 0 55\<rparr>\<rparr>,
      en_disk := \<lparr>md_names = [(CHECKPOINT_FILENAME, 0)], md_store = [rec], md_faults = []\<rparr>, en_checkpoint := Some (LogOffset 0 55)\<rparr>)"
    by (simp add: engine_checkpoint_def t live_indexes_def store_point_def e s)
  then show "engine_checkpoint first_engine = Some (Inr (LogOffset 0 55), checked_engine)" "no_faults (en_disk checked_engine)"
    "en_writer checked_engine = (en_writer first_engine)\<lparr>dw_wal := first_wal\<lparr>durable_end := LogOffset 0 55\<rparr>\<rparr>"
    by (simp_all add: checked_engine_def no_faults_def)
  show "engine_room first_engine checked_engine" using rec(2)
    by (simp add: c checked_engine_def engine_room_def e MAX_LIVE_SEGMENTS_def offset_fits_def wal_durable_end_def)
qed

theorem engine_maintenance_safe_witness:
  "maintenance first_engine True checked_engine \<and> unresolved first_version \<in> engine_snapshot checked_engine (i64_of 15) \<and>
     (\<exists>e ds. engine_recover (en_disk checked_engine, w_disk first_wal, MemDisk_new, MemDisk_new) False = Some (Inr e, ds) \<and>
        unresolved first_version \<in> engine_snapshot e (i64_of 15))"
proof -
  have m: "maintenance first_engine True checked_engine"
    using maintenance.checkpoints [OF first_checkpoint(1,2)] by simp
  obtain L where L: "wal_holds first_wal L" "concat L = [first_record None]" using first_wal(5) by blast
  have "wal_holds (first_wal\<lparr>durable_end := LogOffset 0 55\<rparr>) L"
    using log_tick_steps [OF first_tick(1)] wal_tick_holds [OF L(1)] first_wal(4) by fastforce
  then have b: "boot_finds checked_engine (en_disk checked_engine, w_disk first_wal, MemDisk_new, MemDisk_new)"
    by (intro first_boot [OF _ L(2)]) (simp_all add: first_checkpoint)
  note safe = engine_maintenance_safe [OF base_opens base_fresh base_steps m,
    of "(en_disk checked_engine, w_disk first_wal, MemDisk_new, MemDisk_new)"]
  have "\<not> engine_is_poisoned checked_engine" "dw_group (en_writer checked_engine) = None" "\<not> dw_group_bulk (en_writer checked_engine)"
    using first_wal(4) by (simp_all add: engine_is_poisoned_def wal_is_poisoned_def first_checkpoint(4) first_engine(2) DmlWriter_new_def)
  with safe m b first_reads show ?thesis by metis
qed

end
