(* ===== verification/Engine_Faults.thy ===== *)
theory Engine_Faults
  imports Engine_Props
begin

text \<open>
  Where the storage engine's guarantees end: a log that is opened again behind a torn append is appended
  to behind the torn bytes, where no recovery reads.
\<close>

section \<open>The reopened log\<close>

lemma torn_append:
  assumes "log_disk d L tail" "disk_inv d" "length L \<le> 2 ^ 64" "length p \<le> MAX_PAYLOAD_LEN" "length (seg_bytes (last L) @ tail @ wal_frame p) \<le> sz"
  obtains g off g1 n g2 where "wal_open d sz = (Inr g, d)" "log_append p g = (Inr off, g1)" "log_tick g1 = (Inr n, g2)" "off \<le> durable_end g2"
    "wal_tail g2 L (tail @ wal_frame p)" "md_faults (w_disk g2) = []"
proof -
  obtain f where f: "wal_open d sz = (Inr (wal_reopened d sz L tail f), d)" "wal_tail (wal_reopened d sz L tail f) L tail"
      "seg_file d (length L - 1) = Some f" "md_store d ! f = seg_bytes (last L) @ tail"
    by (rule wal_open_live [OF assms(1)])
  let ?g = "wal_reopened d sz L tail f" and ?n = "length L - 1"
  let ?off = "LogOffset ?n (length (seg_bytes (last L) @ tail @ wal_frame p))"
  let ?d = "d\<lparr>md_store := (md_store d)[f := md_store d ! f @ wal_frame p]\<rparr>"
  let ?g1 = "?g\<lparr>w_disk := ?d, staged_end := ?off\<rparr>"
  let ?g2 = "?g1\<lparr>durable_end := ?off\<rparr>"
  have nf: "md_faults d = []" and ne: "L \<noteq> []" using assms(1) by (simp_all add: log_disk_def no_faults_def)
  have a: "log_append p ?g = (Inr ?off, ?g1)" using assms(4,5) nf
    by (simp add: wal_reopened_def log_append_def wal_append_def append_frame_def file_append_def faults_take_def Let_def)
  have t: "log_tick ?g1 = (Inr 0, ?g2)" using nf
    by (simp add: wal_reopened_def Let_def log_tick_def wal_tick_def drain_tick_def file_sync_def disk_check_def faults_check_def faults_take_def drain_waiters_def drain_loop.simps)
  have g: "w_disk ?g = d" "current_segment_index ?g = ?n" "w_current ?g = f" by (simp_all add: wal_reopened_def Let_def)
  have fl: "f < length (md_store d)" by (rule seg_file_valid [OF assms(2) f(3)])
  have "wal_tail ?g2 L (tail @ wal_frame p)" unfolding wal_tail_def
  proof (intro conjI allI impI)
    fix i assume i: "i < length L"
    then obtain h where h: "seg_file d i = Some h" "md_store d ! h = seg_bytes (L ! i) @ (if i = ?n then tail else [])"
      using assms(1) by (auto simp: log_disk_def)
    have "i < 2 ^ 64" "?n < 2 ^ 64" using i assms(3) by linarith+
    then have "i \<noteq> ?n \<Longrightarrow> f \<noteq> h" using seg_file_inject [OF assms(2) h(1)] f(3) wal_name_inject [of i ?n] by auto
    then show "seg_present ?g2 i" "seg_content ?g2 i = seg_bytes (L ! i) @ (if i = ?n then tail @ wal_frame p else [])"
      using g f(3,4) fl h ne by (auto simp: seg_present_def seg_content_def seg_file_def last_conv_nth)
  qed (use assms(1) g in \<open>simp_all add: log_disk_def wal_segment_list_def\<close>)
  then show thesis using that [OF f(1) a t] nf by simp
qed

text \<open>
  C8. A log opened behind a torn append swallows what is written next. If the last segment ends in bytes
  of a torn append that claim a frame longer than what follows them, then opening the log again succeeds,
  an append to it succeeds and the tick that makes it durable succeeds, and yet a later recovery applies
  the records before the tear and nothing else: opening the log leaves the torn bytes in place, and the
  replay stops at them.
\<close>

theorem reopened_log_hides_appends:
  assumes "log_disk wd L tail" "disk_inv wd" "length L \<le> 2 ^ 64" "frame_split (tail @ wal_frame p) = None" "length p \<le> MAX_PAYLOAD_LEN"
    "length (seg_bytes (last L) @ tail @ wal_frame p) \<le> sz" "fence \<le> torn_at L" "recover_payloads committed 0 (concat L) ts = (q, ts')"
  shows "\<exists>g off g1 n g2 g3. wal_open wd sz = (Inr g, wd) \<and> log_append p g = (Inr off, g1) \<and> log_tick g1 = (Inr n, g2) \<and> off \<le> durable_end g2 \<and>
     recover_replay Checkpoint_BEGIN fence committed g2 ts = Some (q, g3, ts')"
proof -
  obtain g off g1 n g2 where g: "wal_open wd sz = (Inr g, wd)" and s: "log_append p g = (Inr off, g1)" "log_tick g1 = (Inr n, g2)" "off \<le> durable_end g2"
      "wal_tail g2 L (tail @ wal_frame p)" "md_faults (w_disk g2) = []"
    by (rule torn_append [OF assms(1,2,3,5,6)])
  obtain g3 where "recover_replay Checkpoint_BEGIN fence committed g2 ts = Some (q, g3, ts')"
    by (rule recover_replay_spec [OF s(4) assms(4) s(5) floor_whole [OF s(4) refl], of fence committed ts])
      (use assms(7,8) in \<open>auto split: sum.splits\<close>)
  with g s show ?thesis by blast
qed

definition torn_disk :: mem_disk where
  "torn_disk = \<lparr>md_names = [(wal_name_for 0, 0)], md_store = [[200, 0, 0, 0]], md_faults = []\<rparr>"

theorem reopened_log_hides_appends_witness:
  "\<exists>g off g1 n g2 g3. wal_open torn_disk 1000 = (Inr g, torn_disk) \<and> log_append (first_record None) g = (Inr off, g1) \<and>
     log_tick g1 = (Inr n, g2) \<and> off \<le> durable_end g2 \<and>
     recover_replay Checkpoint_BEGIN (LogOffset 0 0) All g2 base_tiers = Some (Inr 0, g3, base_tiers)"
proof (rule reopened_log_hides_appends)
  have "wal_index_of (wal_name_for 0) = Some 0" by (rule wal_name_roundtrip) simp
  then show "log_disk torn_disk [[]] [200, 0, 0, 0]" by (simp add: torn_disk_def log_disk_def no_faults_def wal_segment_list_def seg_file_def seg_bytes_def map_filter_simps)
  show "disk_inv torn_disk" by (simp add: torn_disk_def disk_inv_def)
  have "u32_of_le [200, 0, 0, 0] = 200" by code_simp
  then show "frame_split ([200, 0, 0, 0] @ wal_frame (first_record None)) = None"
    using first_record_facts(3) by (simp add: frame_split_def HEADER_LEN_def)
qed (use first_record_facts(3) in \<open>simp_all add: MAX_PAYLOAD_LEN_def HEADER_LEN_def torn_at_def seg_bytes_def\<close>)

end
