(* ===== verification/Spec2Isabelle.thy ===== *)
theory Spec2Isabelle
  imports Txn_Manager Period Row_Codec Segment_Limits Engine_Faults
begin

text \<open>
  Verification of the Stele database's storage and transaction core.

  Stele is a bitemporal database: every row version carries the system-time interval in which it was
  current, an update closes the old version and adds a new one, and any past instant can be read. The
  library models the code under \<open>crates/stele-storage\<close>, \<open>crates/stele-txn\<close> and parts of
  \<open>crates/stele-common\<close> and \<open>crates/stele-exec\<close> that decide what is stored, what survives a crash and
  what a read returns.

  \<^bold>\<open>The parts and how they interact.\<close> A write enters at the DML writer, which stamps and resolves it
  (system-time and valid-time writers), logs it as one redo record in the write-ahead log, and applies it
  to two tiers: the delta tier of staged versions and the validity index of materialised ends. Both tiers
  spill to numbered files. A flush seals the staged versions into a columnar segment, and the checkpoint
  file records which segments are live and from where the log must be replayed. Recovery rebuilds the index
  from the segments and replays the log. A read merges staged and sealed versions and overlays the ends of
  the index. The transaction manager decides which transactions commit and keeps a hash-chained commit log
  of its own in a second write-ahead log; recovery settles the two-phase legs of a table against it.

  \<^bold>\<open>Theories, sources and what they show.\<close> Source paths are relative to \<open>crates/\<close>; definitions keep the
  names of the source, prefixed where a name clashes.

  \<^item> \<open>Stele_Prelude\<close>: integer types, results, little-endian codecs, \<open>try_all\<close> and shared list lemmas.
    \<open>Btree_Map\<close>: \<open>BTreeMap\<close> as a sorted association list. \<open>File_Names\<close>: the numbered file names.
  \<^item> \<open>Backend\<close> (\<open>stele-storage/src/backend/mod.rs\<close>, \<open>memory.rs\<close>): \<open>MemDisk\<close>, its files as shared bodies,
    and the fault schedule, from which every append, read, sync, listing and removal may fail or tear.
    \<open>Spill_Files\<close>: the disk as a map from names to contents, and the frame codec locale.
  \<^item> \<open>Checksum\<close> (\<open>checksum.rs\<close>): CRC32C; the table-driven code equals the bitwise one and detects bursts.
    \<open>Hash\<close> (\<open>stele-common/src/hash.rs\<close>): SHA-2; the block code computes the padded fold of the standard.
    \<open>Bloom\<close> (\<open>bloom.rs\<close>): no false negatives, also through its encoding.
  \<^item> \<open>Wal\<close>, \<open>Wal_Replay\<close> (\<open>wal/log.rs\<close>, \<open>record.rs\<close>, \<open>segment.rs\<close>, \<open>replay.rs\<close>): the log refines an
    append-only payload sequence under every interleaving and fault; no lost wakeup; a poisoned log is
    frozen; replay returns and yields exactly the payloads, and stops at a torn frame. \<open>Log_Floor\<close>:
    recovery points, and replay from one. The contract clients use is the locale \<open>durable_log\<close>, interpreted
    on the log from its beginning and from any recovery point.
  \<^item> \<open>Commit_Chain\<close>, \<open>Txn_Manager\<close> (\<open>stele-txn/src/commit_record.rs\<close>, \<open>chain.rs\<close>, \<open>manager.rs\<close>): chain
    verification is tamper evident; first committer wins; the log of every reachable state verifies; a
    manager recovered from it resumes where the old one stopped; commits make progress.
  \<^item> \<open>Version\<close>, \<open>Mem_Tier\<close>, \<open>Delta\<close>, \<open>Delta_Contents\<close>, \<open>Delta_Props\<close> (\<open>delta/\<close>): version frames, the
    resident tier, spills, scans, flush; what crash replay rebuilds, what a failed spill loses.
  \<^item> \<open>Close_Record\<close>, \<open>Validity_Index\<close>, \<open>Validity_Lookups\<close> (\<open>validity/\<close>): the index refines a write-once
    map, whatever is spilled; the locale \<open>write_once_index\<close> is its contract.
  \<^item> \<open>Merge\<close> (\<open>merge.rs\<close>), \<open>Rebuild\<close> (\<open>rebuild.rs\<close>): a snapshot read returns exactly the versions whose
    overlaid interval contains the snapshot; the rebuild reproduces the ends the history left.
  \<^item> \<open>Systime\<close>, \<open>Valid_Time\<close>, \<open>Interval_Summary\<close> (\<open>systime.rs\<close>, \<open>validtime.rs\<close>): stamping, resolving,
    staging, applying, undoing; valid-time framing and the interval summary. \<open>Timeline\<close> is the abstract
    history, \<open>Systime_Props\<close> and \<open>Systime_Undo\<close> relate the writes to it: what each write does to every
    \<open>AS OF\<close> read, that reads of the past never change, that an abort leaves no trace.
  \<^item> \<open>Dml\<close>, \<open>Dml_Records\<close>, \<open>Dml_Recovery\<close>, \<open>Redo_View\<close>, \<open>Staging\<close>, \<open>Dml_Steps\<close>, \<open>Dml_Props\<close>
    (\<open>dml.rs\<close>): redo records, auto-commit writes, groups, two-phase and bulk commits, abort, replay.
    \<open>dml_step\<close> is the step relation of a writer; along its runs the log holds the redo sets of what the
    tiers show, so recovery reproduces the live table.
  \<^item> \<open>Checkpoint\<close> (\<open>checkpoint.rs\<close>): the manifest; a store is atomic under every fault, and a torn one
    hides later ones.
  \<^item> \<open>Segment_Format\<close>, \<open>Zone_Map\<close>, \<open>Segment_Columns\<close>, \<open>Segment_Writer\<close>, \<open>Segment_Reader\<close> (\<open>segment/\<close>):
    the columnar format, its writer and reader. \<open>Segment_Layout\<close>, \<open>Segment_Props\<close>, \<open>Segment_Reopened\<close>,
    \<open>Segment_Seals\<close>, \<open>Segment_Limits\<close>: a sealed segment reads back what was pushed, pruning never loses a
    row, sealing succeeds within size bounds, and where writer and reader disagree.
  \<^item> \<open>Engine\<close> (\<open>engine.rs\<close>): the storage engine over all of these: boot and recovery, writes and groups,
    \<open>checkpoint\<close>, \<open>flush\<close>, \<open>compact\<close>, drops, reads, history and metadata. \<open>Segment_Files\<close>: what a segment
    file holds wherever it is read again, and that sealing touches one file. \<open>Engine_Inv\<close>: the invariant
    \<open>engine_core\<close> between the manifest, the live segments, the log behind the replay floor and the tiers.
    \<open>Engine_Steps\<close>: each maintenance call keeps the reads and leaves disks that boot, wherever a fault
    stops it. \<open>Engine_Recovery\<close>: recovery of such disks. \<open>Engine_Props\<close>: \<open>engine_step\<close> is the step relation
    of an engine; along its runs point reads are exact, recovery after a crash gives the reads of the
    engine that crashed, and the recovery marks bound every commit. \<open>Engine_Faults\<close>: what a log reopened
    behind a torn append loses.
  \<^item> \<open>Period\<close> (\<open>stele-common/src/period.rs\<close>, \<open>stele-exec/src/period.rs\<close>): the period predicates against
    sets of points. \<open>Row_Codec\<close> (\<open>stele-common/src/row_codec.rs\<close>): the packing of a row.

  \<^bold>\<open>Modelling choices.\<close>
  \<^item> State is passed explicitly: a struct is a record, a \<open>Result\<close> a sum with the error on the left, and an
    operation returns its result with the state it leaves, also on error. Every call that touches a disk
    threads the disk, since a fault schedule may strike it. Panics of segment and checkpoint code are \<open>None\<close>.
  \<^item> Words keep their width (\<open>u8\<close>, \<open>u32\<close>, \<open>u64\<close>, \<open>i64\<close>; additions wrap as in a release build). Lengths,
    file positions, log offsets and spill indices are \<open>nat\<close>; where the code narrows them the bound is a
    hypothesis (\<open>wal_room\<close>, \<open>stmt_room\<close>, \<open>writer_fits\<close>, \<open>segment_small\<close>). \<open>usize\<close> is 64 bits.
  \<^item> A mutex-protected object is its state, each call atomic; interleavings are sequences of calls. Wakers
    are numbers; clients of the log other than its own theory see it without them (\<open>log_append\<close>, \<open>log_tick\<close>).
  \<^item> The clock is read at fixed places, so its reading is an argument. The lookup of sealed versions, a trait
    in the code, is an argument of the writers and instantiated by its implementations.
  \<^item> \<open>MemDisk\<close> keeps what was appended, synced or not, as the source does; losing unsynced bytes is covered
    through torn tails, not by a separate crash model, so the theorems do not depend on every \<open>sync\<close>.
  \<^item> Loops without an evident bound are partial functions with value \<open>None\<close> for divergence: the replay
    loops, which are proved to return (\<open>replay_recovers\<close>, \<open>replay_terminates\<close>). No fuel is used.
  \<^item> The engine's disk is split by name space (segments and manifest, log, delta spills, index spills), each
    with a fault schedule of its own; the name spaces are disjoint, so every run of the shared disk is one
    of the split disk. \<open>boot_finds\<close> says what a boot reads: the files as the crash left them, perhaps a torn
    tail in the log, and no further faults.
  \<^item> \<open>engine_step\<close> excludes continuing with an engine whose maintenance call failed after touching the
    manifest file, where the next call may overwrite a vouched segment; that a crash there is recovered is
    part of \<open>engine_maintenance_safe\<close>. Recovery is not itself a step: a run starts on empty disks and ends
    with the crash. \<open>engine_room\<close> bounds segment counts and file sizes by what the formats can hold;
    \<open>sealable\<close> asks more of a compaction than the reader does: the encoded size of all sealed versions
    together, and not of each column chunk, is at most the reader's chunk limit.
  \<^item> \<open>dml_step\<close> excludes what makes the live tiers and the log part: an auto-commit record that is logged and
    then fails to apply, an entry of a bulk group that fails to apply, a bulk chunk whose append or sync
    fails, and the abort of a bulk group. The recovery theorems say nothing about a table after one of these.

  \<^bold>\<open>Not modelled, and why.\<close> \<open>backend/local.rs\<close> and \<open>any.rs\<close> are operating-system I/O and dispatch. Metrics,
  tracing and statistics decide nothing. The catalog, the SQL front end and the executor outside its period
  predicates, the session engine, the wire protocol, the server, the CLI, the client and the simulation
  harness are outside this core: they compose it with a third-party SQL grammar, sockets and terminals.
\<close>

end
